(* ===== verification/Prelude.thy ===== *)
theory Prelude
  imports Main "HOL-Library.Word"
begin

text \<open>
  Shared vocabulary of the development: the C integer types as words of their width, and the
  facts about words and lists that the component theories use. Collections:
  \<^item> \<open>word_nat\<close> moves order and no-wrap arithmetic on words to \<open>nat\<close> through \<open>unat\<close>.
\<close>

unbundle bit_operations_syntax

section \<open>The C integer types\<close>

type_synonym u8 = "8 word"
type_synonym u16 = "16 word"
type_synonym u32 = "32 word"
type_synonym u64 = "64 word"

named_theorems word_nat \<open>order and arithmetic of words, read as natural numbers\<close>

lemma word_le_unat [word_nat]: "a \<le> b \<longleftrightarrow> unat a \<le> unat b" for a b :: "'a::len word"
  by (rule word_le_nat_alt)

lemma word_less_unat [word_nat]: "a < b \<longleftrightarrow> unat a < unat b" for a b :: "'a::len word"
  by (rule word_less_nat_alt)

lemma unat_bound: "unat a < 2 ^ LENGTH('a)" for a :: "'a::len word"
  by (rule unsigned_less)

lemma unat_add_small:
  "unat a + unat b < 2 ^ LENGTH('a) \<Longrightarrow> unat (a + b) = unat a + unat b" for a b :: "'a::len word"
  by (simp add: unat_word_ariths)

lemma unat_mult_small:
  "unat a * unat b < 2 ^ LENGTH('a) \<Longrightarrow> unat (a * b) = unat a * unat b" for a b :: "'a::len word"
  by (simp add: unat_word_ariths)

lemma unat_sub_le: "unat b \<le> unat a \<Longrightarrow> unat (a - b) = unat a - unat b" for a b :: "'a::len word"
  by (simp add: unat_sub word_le_nat_alt)

lemma unat_pred: "a \<noteq> 0 \<Longrightarrow> unat (a - 1) = unat a - 1" for a :: "'a::len word"
  by (rule unat_minus_one)

lemma unat_pred_less: "a \<noteq> 0 \<Longrightarrow> unat (a - 1) < unat a" for a :: "'a::len word"
  by (simp add: unat_pred unat_gt_0)

text \<open>A distance that wraps: the \<open>k\<close> last positions before the origin are far away.\<close>

lemma unat_sub_wrap:
  "unat a < unat b \<Longrightarrow> unat (a - b) = 2 ^ LENGTH('a) + unat a - unat b" for a b :: "'a::len word"
  using unat_bound [of b]
  by (simp add: unat_sub_if' word_le_nat_alt)

section \<open>Little-endian numbers\<close>

fun le_val :: "u8 list \<Rightarrow> nat" where
  "le_val [] = 0"
| "le_val (b # bs) = unat b + 256 * le_val bs"

fun le_bytes :: "nat \<Rightarrow> nat \<Rightarrow> u8 list" where
  "le_bytes 0 v = []"
| "le_bytes (Suc n) v = of_nat (v mod 256) # le_bytes n (v div 256)"

lemma length_le_bytes [simp]: "length (le_bytes n v) = n"
  by (induction n v rule: le_bytes.induct) simp_all

lemma unat_u8_bound: "unat b < 256" for b :: u8
  using unat_bound [of b] by simp

lemma le_val_bound: "le_val bs < 256 ^ length bs"
proof (induction bs)
  case (Cons b bs)
  then show ?case using unat_u8_bound [of b] by simp
qed simp

lemma le_bytes_le_val [simp]: "length bs = n \<Longrightarrow> le_bytes n (le_val bs) = bs"
  by (induction bs arbitrary: n) (auto simp: unat_u8_bound)

lemma le_val_le_bytes [simp]: "v < 256 ^ n \<Longrightarrow> le_val (le_bytes n v) = v"
proof (induction n arbitrary: v)
  case (Suc n)
  then have "v div 256 < 256 ^ n" by (simp add: less_mult_imp_div_less mult.commute)
  then show ?case using Suc.IH by (simp add: unsigned_of_nat take_bit_eq_mod)
qed simp

lemma less_8: "(\<forall>n < (8 :: nat). P n) \<longleftrightarrow> P 0 \<and> P 1 \<and> P 2 \<and> P 3 \<and> P 4 \<and> P 5 \<and> P 6 \<and> P 7"
  by (auto simp: eval_nat_numeral All_less_Suc)

section \<open>Multiples\<close>

lemma multiples_apart:
  fixes a b m :: nat
  assumes "a mod m = 0" "b mod m = 0" "a \<noteq> b"
  shows "a + m \<le> b \<or> b + m \<le> a"
proof -
  obtain i j where ij: "a = m * i" "b = m * j" using assms(1,2) by (auto simp: mod_eq_0_iff_dvd elim!: dvdE)
  then have "Suc i \<le> j \<or> Suc j \<le> i" using assms(3) by (cases i j rule: linorder_cases) auto
  then have "m * Suc i \<le> b \<or> m * Suc j \<le> a" unfolding ij using mult_le_mono2 by blast
  then show ?thesis using ij by (simp add: add.commute)
qed

lemma below_next_multiple:
  fixes a m :: nat
  assumes "0 < m"
  shows "a < a - a mod m + m"
  using mod_less_divisor [OF assms, of a] mod_less_eq_dividend [of a m] by linarith

lemma multiple_fits:
  fixes a b m :: nat
  assumes "a mod m = 0" "b mod m = 0" "a < b"
  shows "a + m \<le> b"
  using multiples_apart [OF assms(1,2)] assms(3) by fastforce

end
