(* ===== verification/KString.thy ===== *)
theory KString
  imports Prelude
begin

text \<open>
  The kernel's memory and string routines, \<^verbatim>\<open>src/src/kernel/string.c\<close>, over a byte-addressed
  memory. Each C loop is one recursive function over the loop's variables; the routines that
  return \<open>dest\<close> return the changed memory. The scans for a terminating NUL may run for ever on a
  memory without one, so they are option-valued: \<open>None\<close> is a loop that does not end.
\<close>

section \<open>Memory\<close>

type_synonym memory = "u64 \<Rightarrow> u8"

definition store8 :: "memory \<Rightarrow> u64 \<Rightarrow> u8 \<Rightarrow> memory" where
  "store8 m a b = (\<lambda>x. if x = a then b else m x)"

definition store64 :: "memory \<Rightarrow> u64 \<Rightarrow> u64 \<Rightarrow> memory" where
  "store64 m a w = (\<lambda>x. if unat (x - a) < 8 then le_bytes 8 (unat w) ! unat (x - a) else m x)"

definition load64 :: "memory \<Rightarrow> u64 \<Rightarrow> u64" where
  "load64 m a = of_nat (le_val (map (\<lambda>i. m (a + of_nat i)) [0..<8]))"

section \<open>memset\<close>

function memset_align :: "u64 \<Rightarrow> u64 \<Rightarrow> u8 \<Rightarrow> memory \<Rightarrow> u64 \<times> u64 \<times> memory" where
  "memset_align d count b m =
     (if count > 0 \<and> d AND 7 \<noteq> 0 then memset_align (d + 1) (count - 1) b (store8 m d b)
      else (d, count, m))"
  by pat_completeness auto
termination
  by (relation "measure (\<lambda>(d, count, b, m). unat count)") (auto simp: unat_pred_less)

function memset_words :: "u64 \<Rightarrow> u64 \<Rightarrow> u64 \<Rightarrow> memory \<Rightarrow> u64 \<times> u64 \<times> memory" where
  "memset_words d count word m =
     (if count \<ge> 8 then memset_words (d + 8) (count - 8) word (store64 m d word)
      else (d, count, m))"
  by pat_completeness auto
termination
  by (relation "measure (\<lambda>(d, count, w, m). unat count)") (auto simp: word_nat unat_sub_le)

function memset_tail :: "u64 \<Rightarrow> u64 \<Rightarrow> u8 \<Rightarrow> memory \<Rightarrow> memory" where
  "memset_tail d count b m =
     (if count > 0 then memset_tail (d + 1) (count - 1) b (store8 m d b) else m)"
  by pat_completeness auto
termination
  by (relation "measure (\<lambda>(d, count, b, m). unat count)") (auto simp: unat_pred_less)

definition memset :: "u64 \<Rightarrow> u32 \<Rightarrow> u64 \<Rightarrow> memory \<Rightarrow> memory" where
  "memset dest val count m =
     (let b = (ucast val :: u8);
          word = ucast b * 0x0101010101010101;
          (d, n, m) = memset_align dest count b m;
          (d, n, m) = memset_words d n word m
      in memset_tail d n b m)"

section \<open>memcmp\<close>

function memcmp_from :: "memory \<Rightarrow> u64 \<Rightarrow> u64 \<Rightarrow> u64 \<Rightarrow> u64 \<Rightarrow> int" where
  "memcmp_from m a b i count =
     (if i < count then
        if m (a + i) \<noteq> m (b + i) then uint (m (a + i)) - uint (m (b + i))
        else memcmp_from m a b (i + 1) count
      else 0)"
  by pat_completeness auto
termination
proof (relation "measure (\<lambda>(m, a, b, i, count). unat (count - i))", goal_cases)
  case (2 m a b i count)
  then have "count - i \<noteq> 0" by auto
  then show ?case using unat_pred_less [of "count - i"] by (simp add: algebra_simps)
qed simp

definition memcmp :: "memory \<Rightarrow> u64 \<Rightarrow> u64 \<Rightarrow> u64 \<Rightarrow> int" where
  "memcmp m a b count = memcmp_from m a b 0 count"

section \<open>memcpy and memmove\<close>

function memcpy_align :: "u64 \<Rightarrow> u64 \<Rightarrow> u64 \<Rightarrow> memory \<Rightarrow> u64 \<times> u64 \<times> u64 \<times> memory" where
  "memcpy_align d s count m =
     (if count > 0 \<and> d AND 7 \<noteq> 0 then memcpy_align (d + 1) (s + 1) (count - 1) (store8 m d (m s))
      else (d, s, count, m))"
  by pat_completeness auto
termination
  by (relation "measure (\<lambda>(d, s, count, m). unat count)") (auto simp: unat_pred_less)

function memcpy_words :: "u64 \<Rightarrow> u64 \<Rightarrow> u64 \<Rightarrow> memory \<Rightarrow> u64 \<times> u64 \<times> u64 \<times> memory" where
  "memcpy_words d s count m =
     (if count \<ge> 8 then memcpy_words (d + 8) (s + 8) (count - 8) (store64 m d (load64 m s))
      else (d, s, count, m))"
  by pat_completeness auto
termination
  by (relation "measure (\<lambda>(d, s, count, m). unat count)") (auto simp: word_nat unat_sub_le)

function memcpy_tail :: "u64 \<Rightarrow> u64 \<Rightarrow> u64 \<Rightarrow> memory \<Rightarrow> memory" where
  "memcpy_tail d s count m =
     (if count > 0 then memcpy_tail (d + 1) (s + 1) (count - 1) (store8 m d (m s)) else m)"
  by pat_completeness auto
termination
  by (relation "measure (\<lambda>(d, s, count, m). unat count)") (auto simp: unat_pred_less)

definition memcpy :: "u64 \<Rightarrow> u64 \<Rightarrow> u64 \<Rightarrow> memory \<Rightarrow> memory" where
  "memcpy dest src count m =
     (let (d, s, n, m) =
        (if (dest XOR src) AND 7 = 0 then
           let (d, s, n, m) = memcpy_align dest src count m in memcpy_words d s n m
         else (dest, src, count, m))
      in memcpy_tail d s n m)"

function memmove_back :: "u64 \<Rightarrow> u64 \<Rightarrow> u64 \<Rightarrow> memory \<Rightarrow> memory" where
  "memmove_back d s count m =
     (if count > 0 then memmove_back d s (count - 1) (store8 m (d + (count - 1)) (m (s + (count - 1)))) else m)"
  by pat_completeness auto
termination
  by (relation "measure (\<lambda>(d, s, count, m). unat count)") (auto simp: unat_pred_less)

definition memmove :: "u64 \<Rightarrow> u64 \<Rightarrow> u64 \<Rightarrow> memory \<Rightarrow> memory" where
  "memmove dest src count m =
     (if dest \<le> src \<or> dest \<ge> src + count then memcpy dest src count m
      else memmove_back dest src count m)"

declare memset_align.simps [simp del] memset_words.simps [simp del] memset_tail.simps [simp del]
  memcmp_from.simps [simp del] memcpy_align.simps [simp del] memcpy_words.simps [simp del]
  memcpy_tail.simps [simp del] memmove_back.simps [simp del]

section \<open>C strings\<close>

partial_function (option) strlen_from :: "memory \<Rightarrow> u64 \<Rightarrow> u64 \<Rightarrow> u64 option" where
  "strlen_from m s n = (if m (s + n) \<noteq> 0 then strlen_from m s (n + 1) else Some n)"

definition strlen :: "memory \<Rightarrow> u64 \<Rightarrow> u64 option" where
  "strlen m s = strlen_from m s 0"

partial_function (option) strcmp :: "memory \<Rightarrow> u64 \<Rightarrow> u64 \<Rightarrow> int option" where
  "strcmp m a b =
     (if m a \<noteq> 0 \<and> m a = m b then strcmp m (a + 1) (b + 1) else Some (uint (m a) - uint (m b)))"

partial_function (option) strcpy :: "u64 \<Rightarrow> u64 \<Rightarrow> memory \<Rightarrow> memory option" where
  "strcpy d src m =
     (let c = m src; m = store8 m d c in if c \<noteq> 0 then strcpy (d + 1) (src + 1) m else Some m)"

text \<open>\<open>strchr\<close> answers \<open>Some None\<close> for the C code's \<open>NULL\<close>.\<close>

partial_function (option) strchr :: "memory \<Rightarrow> u64 \<Rightarrow> u32 \<Rightarrow> u64 option option" where
  "strchr m s c =
     (if m s = ucast c then Some (Some s) else if m s = 0 then Some None else strchr m (s + 1) c)"

partial_function (option) strrchr_from ::
  "memory \<Rightarrow> u64 \<Rightarrow> u32 \<Rightarrow> u64 option \<Rightarrow> u64 option option" where
  "strrchr_from m s c found =
     (let found = (if m s = ucast c then Some s else found)
      in if m s = 0 then Some found else strrchr_from m (s + 1) c found)"

definition strrchr :: "memory \<Rightarrow> u64 \<Rightarrow> u32 \<Rightarrow> u64 option option" where
  "strrchr m s c = strrchr_from m s c None"

partial_function (option) str_word_end :: "memory \<Rightarrow> u64 \<Rightarrow> u64 option" where
  "str_word_end m p = (if m p \<noteq> 0 \<and> m p \<noteq> 32 then str_word_end m (p + 1) else Some p)"

partial_function (option) str_word_skip :: "memory \<Rightarrow> u64 \<Rightarrow> u64 option" where
  "str_word_skip m p = (if m p = 32 then str_word_skip m (p + 1) else Some p)"

text \<open>The memory with the word cut off, and where the rest of the text starts.\<close>

definition str_word :: "memory \<Rightarrow> u64 \<Rightarrow> (memory \<times> u64) option" where
  "str_word m text =
     (case str_word_end m text of
        None \<Rightarrow> None
      | Some p \<Rightarrow>
          (let (m, p) = (if m p \<noteq> 0 then (store8 m p 0, p + 1) else (m, p))
           in map_option (\<lambda>q. (m, q)) (str_word_skip m p)))"

section \<open>What the block routines compute\<close>

text \<open>
  The specification of a fill and of a copy, over distances modulo \<open>2 ^ 64\<close>: address \<open>x\<close> is in
  the block of \<open>n\<close> bytes at \<open>d\<close> when \<open>unat (x - d) < unat n\<close>.
\<close>

definition filled :: "u64 \<Rightarrow> u64 \<Rightarrow> u8 \<Rightarrow> memory \<Rightarrow> memory" where
  "filled d n b m = (\<lambda>x. if unat (x - d) < unat n then b else m x)"

definition copied :: "u64 \<Rightarrow> u64 \<Rightarrow> u64 \<Rightarrow> memory \<Rightarrow> memory" where
  "copied d s n m = (\<lambda>x. if unat (x - d) < unat n then m (s + (x - d)) else m x)"

lemma distance_step:
  fixes x d k n :: u64
  assumes "unat k \<le> unat n"
  shows "unat (x - d) < unat n \<longleftrightarrow> unat (x - d) < unat k \<or> unat (x - (d + k)) < unat (n - k)"
proof -
  have eq: "x - (d + k) = (x - d) - k" by (simp add: algebra_simps)
  have nk: "unat (n - k) = unat n - unat k" using assms by (rule unat_sub_le)
  show ?thesis
  proof (cases "unat k \<le> unat (x - d)")
    case True
    then show ?thesis using nk by (simp add: eq unat_sub_le) arith
  next
    case False
    then have "unat ((x - d) - k) = 2 ^ 64 + unat (x - d) - unat k"
      using unat_sub_wrap [of "x - d" k] by simp
    then show ?thesis using False assms nk unat_bound [of n] by (simp add: eq)
  qed
qed

lemma distance_step_disjoint:
  fixes x d k n :: u64
  assumes "unat k \<le> unat n" "unat (x - d) < unat k"
  shows "\<not> unat (x - (d + k)) < unat (n - k)"
proof -
  have eq: "x - (d + k) = (x - d) - k" by (simp add: algebra_simps)
  have "unat ((x - d) - k) = 2 ^ 64 + unat (x - d) - unat k"
    using unat_sub_wrap [of "x - d" k] assms by simp
  then show ?thesis using assms unat_bound [of n] by (simp add: eq unat_sub_le)
qed

lemma unat_sub_eq_0: "unat (x - d) < Suc 0 \<longleftrightarrow> x = d" for x d :: u64
  by (simp add: unat_eq_zero)

lemma filled_step:
  assumes "unat k \<le> unat n" "\<And>x. unat (x - d) < unat k \<Longrightarrow> m' x = b"
    "\<And>x. \<not> unat (x - d) < unat k \<Longrightarrow> m' x = m x"
  shows "filled (d + k) (n - k) b m' = filled d n b m"
  using assms distance_step [OF assms(1)] distance_step_disjoint [OF assms(1)]
  by (fastforce simp: filled_def fun_eq_iff)

lemma filled_byte: "n \<noteq> 0 \<Longrightarrow> filled (d + 1) (n - 1) b (store8 m d b) = filled d n b m"
  by (rule filled_step [where k = 1])
    (auto simp: unat_sub_eq_0 unat_eq_zero store8_def Suc_le_eq unat_gt_0)

lemma filled_zero: "filled d 0 b m = m"
  by (simp add: filled_def)

lemma memset_align_filled:
  "memset_align d n b m = (d', n', m') \<Longrightarrow> filled d' n' b m' = filled d n b m"
proof (induction d n b m rule: memset_align.induct)
  case (1 d count b m)
  show ?case
  proof (cases "count > 0 \<and> d AND 7 \<noteq> 0")
    case True
    with 1 show ?thesis
      by (simp add: memset_align.simps [of d count b m] filled_byte word_gt_0)
  next
    case False
    with 1 show ?thesis by (auto simp add: memset_align.simps [of d count b m])
  qed
qed

lemma memset_tail_filled: "memset_tail d n b m = filled d n b m"
proof (induction d n b m rule: memset_tail.induct)
  case (1 d count b m)
  then show ?case
    by (cases "count = 0")
      (simp_all add: memset_tail.simps [of d _ b m] filled_byte filled_zero word_gt_0)
qed

lemma spread_byte: "le_bytes 8 (unat (ucast b * 0x0101010101010101 :: u64)) = replicate 8 b" for b :: u8
proof -
  have b: "unat (ucast b :: u64) = unat b"
    by (simp add: unsigned_ucast_eq take_bit_nat_eq_self unat_u8_bound less_trans [OF unat_u8_bound])
  have rep: "replicate 8 b = [b, b, b, b, b, b, b, b]"
    by (simp add: numeral_eq_Suc)
  have "unat (ucast b :: u64) * unat (0x0101010101010101 :: u64) < 2 ^ LENGTH(64)"
    using unat_u8_bound [of b] by (simp add: b)
  from unat_mult_small [OF this]
  have "unat (ucast b * 0x0101010101010101 :: u64) = unat b * 0x0101010101010101"
    by (simp add: b)
  also have "\<dots> = le_val (replicate 8 b)"
    by (simp add: rep)
  finally show ?thesis by simp
qed

lemma store64_load64:
  "store64 m d (load64 m' s) x = (if unat (x - d) < 8 then m' (s + (x - d)) else m x)"
proof -
  let ?bs = "map (\<lambda>i. m' (s + of_nat i)) [0..<8]"
  have "unat (load64 m' s) = le_val ?bs"
    using le_val_bound [of ?bs] by (simp add: load64_def unsigned_of_nat take_bit_eq_mod)
  then have "le_bytes 8 (unat (load64 m' s)) = ?bs"
    by simp
  then show ?thesis by (simp add: store64_def)
qed

definition forward_safe :: "u64 \<Rightarrow> u64 \<Rightarrow> u64 \<Rightarrow> bool" where
  "forward_safe d s n \<longleftrightarrow> unat (s - d) + unat n \<le> 2 ^ 64"

lemma forward_safe_step: "forward_safe d s n \<Longrightarrow> unat k \<le> unat n \<Longrightarrow> forward_safe (d + k) (s + k) (n - k)"
  by (simp add: forward_safe_def unat_sub_le)

lemma copied_zero: "copied d s 0 m = m"
  by (simp add: copied_def)

lemma copied_step:
  assumes k: "unat k \<le> unat n" and safe: "forward_safe d s n"
    and m': "\<And>x. m' x = (if unat (x - d) < unat k then m (s + (x - d)) else m x)"
  shows "copied (d + k) (s + k) (n - k) m' = copied d s n m"
proof
  fix x
  have src: "(s + k) + (x - (d + k)) = s + (x - d)" "s + (x - d) - d = (s - d) + (x - d)"
    by (simp_all add: algebra_simps)
  show "copied (d + k) (s + k) (n - k) m' x = copied d s n m x"
  proof (cases "unat (x - (d + k)) < unat (n - k)")
    case True
    then have "\<not> unat (x - d) < unat k" and n: "unat (x - d) < unat n"
      using distance_step [OF k] distance_step_disjoint [OF k] by blast+
    moreover have "unat ((s - d) + (x - d)) = unat (s - d) + unat (x - d)"
      using safe n by (intro unat_add_small) (simp add: forward_safe_def)
    ultimately show ?thesis using True by (simp add: copied_def m' src)
  next
    case False
    then show ?thesis using distance_step [OF k, of x d] by (simp add: copied_def m')
  qed
qed

lemma copied_byte:
  "n \<noteq> 0 \<Longrightarrow> forward_safe d s n \<Longrightarrow>
   copied (d + 1) (s + 1) (n - 1) (store8 m d (m s)) = copied d s n m"
  by (rule copied_step [where k = 1])
    (auto simp: unat_sub_eq_0 unat_eq_zero store8_def Suc_le_eq unat_gt_0)

lemma copied_word:
  "8 \<le> n \<Longrightarrow> forward_safe d s n \<Longrightarrow>
   copied (d + 8) (s + 8) (n - 8) (store64 m d (load64 m s)) = copied d s n m"
  by (rule copied_step [where k = 8]) (auto simp: store64_load64 word_nat)

lemma memcpy_align_copied:
  "memcpy_align d s n m = (d', s', n', m') \<Longrightarrow> forward_safe d s n \<Longrightarrow>
   forward_safe d' s' n' \<and> copied d' s' n' m' = copied d s n m"
proof (induction d s n m rule: memcpy_align.induct)
  case (1 d s n m)
  show ?case
  proof (cases "n > 0 \<and> d AND 7 \<noteq> 0")
    case True
    with 1 show ?thesis using forward_safe_step [of d s n 1]
      by (simp add: memcpy_align.simps [of d s n m] copied_byte word_gt_0 Suc_le_eq unat_gt_0)
  next
    case False
    with 1 show ?thesis by (auto simp add: memcpy_align.simps [of d s n m])
  qed
qed

lemma memcpy_words_copied:
  "memcpy_words d s n m = (d', s', n', m') \<Longrightarrow> forward_safe d s n \<Longrightarrow>
   forward_safe d' s' n' \<and> copied d' s' n' m' = copied d s n m"
proof (induction d s n m rule: memcpy_words.induct)
  case (1 d s n m)
  show ?case
  proof (cases "8 \<le> n")
    case True
    with 1 show ?thesis using forward_safe_step [of d s n 8]
      by (simp add: memcpy_words.simps [of d s n m] copied_word word_nat)
  next
    case False
    with 1 show ?thesis by (auto simp add: memcpy_words.simps [of d s n m])
  qed
qed

lemma memcpy_tail_copied: "forward_safe d s n \<Longrightarrow> memcpy_tail d s n m = copied d s n m"
proof (induction d s n m rule: memcpy_tail.induct)
  case (1 d s n m)
  then show ?case using forward_safe_step [of d s n 1]
    by (cases "n = 0")
      (simp_all add: memcpy_tail.simps [of d s _ m] copied_byte copied_zero word_gt_0 Suc_le_eq unat_gt_0)
qed

lemma memcpy_forward: "forward_safe d s n \<Longrightarrow> memcpy d s n m = copied d s n m"
  by (auto simp: memcpy_def Let_def memcpy_tail_copied split: prod.splits
      dest!: memcpy_align_copied memcpy_words_copied)

lemma filled_word:
  assumes "8 \<le> n" "le_bytes 8 (unat w) = replicate 8 b"
  shows "filled (d + 8) (n - 8) b (store64 m d w) = filled d n b m"
  using assms by (intro filled_step [where k = 8]) (auto simp: store64_def word_nat)

lemma memset_words_filled:
  assumes "le_bytes 8 (unat w) = replicate 8 b"
  shows "memset_words d n w m = (d', n', m') \<Longrightarrow> filled d' n' b m' = filled d n b m"
  using assms
proof (induction d n w m rule: memset_words.induct)
  case (1 d n w m)
  then show ?case
    by (cases "8 \<le> n") (auto simp: memset_words.simps [of d n w m] filled_word)
qed

lemma copied_last:
  assumes "n \<noteq> 0" "unat (d - s) + unat n \<le> 2 ^ 64"
  shows "copied d s (n - 1) (store8 m (d + (n - 1)) (m (s + (n - 1)))) = copied d s n m"
proof
  fix x
  have pred: "unat (n - 1) = unat n - 1" "0 < unat n"
    using assms(1) by (simp_all add: unat_pred unat_gt_0)
  have last: "x = d + (n - 1) \<longleftrightarrow> unat (x - d) = unat n - 1"
    using pred(1) by (metis add_diff_cancel_left' diff_add_cancel add.commute word_unat_eq_iff)
  have clash: "s + (x - d) \<noteq> d + (n - 1)" if "unat (x - d) < unat n - 1"
  proof
    assume "s + (x - d) = d + (n - 1)"
    then have e: "x - d = (d - s) + (n - 1)" by (simp add: algebra_simps)
    have "unat ((d - s) + (n - 1)) = unat (d - s) + unat (n - 1)"
      using assms(2) pred by (intro unat_add_small) simp
    with that pred(1) show False unfolding e by simp
  qed
  show "copied d s (n - 1) (store8 m (d + (n - 1)) (m (s + (n - 1)))) x = copied d s n m x"
    using last clash pred by (auto simp: copied_def store8_def)
qed

lemma memmove_back_copied:
  "unat (d - s) + unat n \<le> 2 ^ 64 \<Longrightarrow> memmove_back d s n m = copied d s n m"
proof (induction d s n m rule: memmove_back.induct)
  case (1 d s n m)
  then show ?case
    by (cases "n = 0")
      (simp_all add: memmove_back.simps [of d s _ m] copied_last copied_zero word_gt_0 unat_pred)
qed

section \<open>C strings in memory\<close>

text \<open>\<open>cstr m s xs\<close>: the bytes \<open>xs\<close>, none of them NUL, are at \<open>s\<close>, and a NUL follows them.\<close>

fun cstr :: "memory \<Rightarrow> u64 \<Rightarrow> u8 list \<Rightarrow> bool" where
  "cstr m s [] \<longleftrightarrow> m s = 0"
| "cstr m s (x # xs) \<longleftrightarrow> m s = x \<and> x \<noteq> 0 \<and> cstr m (s + 1) xs"

lemma strlen_from_cstr: "cstr m (s + n) xs \<Longrightarrow> strlen_from m s n = Some (n + of_nat (length xs))"
proof (induction xs arbitrary: n)
  case Nil
  then show ?case by (subst strlen_from.simps) simp
next
  case (Cons x xs)
  then have "strlen_from m s (n + 1) = Some (n + 1 + of_nat (length xs))"
    by (intro Cons.IH) (simp add: algebra_simps)
  then show ?case using Cons.prems by (subst strlen_from.simps) simp
qed

lemma strlen_cstr: "cstr m s xs \<Longrightarrow> strlen m s = Some (of_nat (length xs))"
  using strlen_from_cstr [of m s 0 xs] by (simp add: strlen_def)

lemma strcmp_cstr:
  "cstr m a xs \<Longrightarrow> cstr m b ys \<Longrightarrow>
   \<exists>r. strcmp m a b = Some r \<and> (r = 0 \<longleftrightarrow> xs = ys) \<and> (r < 0 \<longleftrightarrow> (xs, ys) \<in> lexord {(x, y). x < y})"
proof (induction xs arbitrary: a b ys)
  case Nil
  then show ?case
    by (cases ys; subst strcmp.simps) (auto simp: uint_0_iff order_less_le simp flip: word_uint_eq_iff)
next
  case (Cons x xs)
  show ?case
  proof (cases ys)
    case Nil
    with Cons.prems show ?thesis by (subst strcmp.simps) (auto simp: uint_0_iff)
  next
    case [simp]: (Cons y ys')
    show ?thesis
    proof (cases "x = y")
      case True
      with Cons.prems Cons.IH [of "a + 1" "b + 1" ys'] show ?thesis
        by (subst strcmp.simps) auto
    next
      case False
      with Cons.prems show ?thesis
        by (subst strcmp.simps) (auto simp: word_uint_eq_iff word_less_def)
    qed
  qed
qed

lemma memcmp_from_zero_iff:
  "i \<le> count \<Longrightarrow>
   memcmp_from m a b i count = 0 \<longleftrightarrow> (\<forall>j. i \<le> j \<and> j < count \<longrightarrow> m (a + j) = m (b + j))"
proof (induction m a b i count rule: memcmp_from.induct)
  case (1 m a b i count)
  show ?case
  proof (cases "i < count \<and> m (a + i) = m (b + i)")
    case True
    then have "i + 1 \<le> count" by (simp add: inc_le)
    moreover have "i \<le> j \<longleftrightarrow> j = i \<or> i + 1 \<le> j" for j
      using True unat_add_small [of i 1] unat_bound [of count] by (auto simp: word_nat word_unat_eq_iff)
    ultimately show ?thesis
      using 1 True by (auto simp: memcmp_from.simps [of m a b i count])
  next
    case False
    then show ?thesis using "1.prems" 
      by (auto simp: memcmp_from.simps [of m a b i count] simp flip: word_uint_eq_iff)
  qed
qed

lemma of_nat_u64_eq_iff:
  "i < 2 ^ 64 \<Longrightarrow> j < 2 ^ 64 \<Longrightarrow> (of_nat i :: u64) = of_nat j \<longleftrightarrow> i = j"
  by (simp add: word_of_nat_eq_iff take_bit_nat_eq_self)

lemma cstr_append:
  "cstr m s (xs @ ys) \<longleftrightarrow>
     0 \<notin> set xs \<and> (\<forall>i < length xs. m (s + of_nat i) = xs ! i) \<and> cstr m (s + of_nat (length xs)) ys"
proof (induction xs arbitrary: s)
  case (Cons x xs)
  have "(\<forall>i < length (x # xs). m (s + of_nat i) = (x # xs) ! i) \<longleftrightarrow>
      m s = x \<and> (\<forall>i < length xs. m (s + 1 + of_nat i) = xs ! i)"
    by (auto simp: less_Suc_eq_0_disj algebra_simps)
  then show ?case using Cons.IH [of "s + 1"] by (auto simp: algebra_simps)
qed simp

lemma cstr_store8_outside:
  "(\<And>i. i \<le> length xs \<Longrightarrow> a \<noteq> s + of_nat i) \<Longrightarrow> cstr (store8 m a b) s xs = cstr m s xs"
proof (induction xs arbitrary: s)
  case Nil
  then show ?case by (auto simp: store8_def)
next
  case (Cons x xs)
  have "a \<noteq> s" using Cons.prems [of 0] by simp
  moreover have "a \<noteq> s + 1 + of_nat i" if "i \<le> length xs" for i
    using Cons.prems [of "Suc i"] that by (simp add: algebra_simps)
  ultimately show ?case using Cons.IH by (auto simp: store8_def)
qed

lemma str_word_end_cstr:
  "cstr m p xs \<Longrightarrow> str_word_end m p = Some (p + of_nat (length (takeWhile (\<lambda>c. c \<noteq> 32) xs)))"
proof (induction xs arbitrary: p)
  case Nil
  then show ?case by (subst str_word_end.simps) simp
next
  case (Cons x xs)
  then show ?case by (subst str_word_end.simps) (auto simp: algebra_simps)
qed

lemma str_word_skip_cstr:
  "cstr m p xs \<Longrightarrow> str_word_skip m p = Some (p + of_nat (length (takeWhile (\<lambda>c. c = 32) xs)))"
proof (induction xs arbitrary: p)
  case Nil
  then show ?case by (subst str_word_skip.simps) simp
next
  case (Cons x xs)
  then show ?case by (subst str_word_skip.simps) (auto simp: algebra_simps)
qed

lemma cstr_drop: "cstr m p (xs @ ys) \<Longrightarrow> cstr m (p + of_nat (length xs)) ys"
  by (simp add: cstr_append)

lemma cstr_prefix_cut:
  assumes "cstr m p (xs @ ys)" "length xs < 2 ^ 64"
  shows "cstr (store8 m (p + of_nat (length xs)) 0) p xs"
proof -
  have "m (p + of_nat i) = xs ! i \<and> p + of_nat i \<noteq> p + of_nat (length xs)" if "i < length xs" for i
    using that assms by (auto simp: cstr_append of_nat_u64_eq_iff)
  then show ?thesis
    using assms(1) cstr_append [of "store8 m (p + of_nat (length xs)) 0" p xs "[]"]
    by (auto simp: store8_def cstr_append)
qed

lemma str_word_cstr:
  assumes str: "cstr m t xs" and short: "length xs < 2 ^ 64"
  defines "w \<equiv> takeWhile (\<lambda>c. c \<noteq> 32) xs"
  shows "\<exists>m' q. str_word m t = Some (m', q) \<and> cstr m' t w \<and>
    cstr m' q (dropWhile (\<lambda>c. c = 32) (dropWhile (\<lambda>c. c \<noteq> 32) xs))"
proof (cases "dropWhile (\<lambda>c. c \<noteq> 32) xs")
  case Nil
  then have xs: "xs = w" by (metis append_Nil2 takeWhile_dropWhile_id w_def)
  let ?p = "t + of_nat (length w)"
  have nul: "cstr m ?p []" using cstr_drop [of m t w "[]"] str xs by simp
  have "str_word m t = Some (m, ?p)"
    using str_word_end_cstr [OF str] nul str_word_skip_cstr [OF nul]
    by (simp add: str_word_def flip: w_def)
  then show ?thesis using str nul xs unfolding Nil by simp
next
  case (Cons c rest)
  then have c: "c = 32" using hd_dropWhile [of "\<lambda>c. c \<noteq> 32" xs] by simp
  have xs: "xs = w @ 32 # rest"
    using takeWhile_dropWhile_id [of "\<lambda>c. c \<noteq> 32" xs] Cons c by (simp add: w_def)
  let ?p = "t + of_nat (length w)" and ?m = "store8 m (t + of_nat (length w)) 0"
  have sp: "m ?p = 32" and rest: "cstr m (?p + 1) rest"
    using cstr_drop [of m t w "32 # rest"] str xs by simp_all
  have far: "?p \<noteq> ?p + 1 + of_nat i" if "i \<le> length rest" for i
    using of_nat_u64_eq_iff [of "Suc i" 0] that short by (simp add: xs add.assoc)
  have rest': "cstr ?m (?p + 1) rest"
    using rest cstr_store8_outside [of rest ?p "?p + 1" m 0] far by blast
  have split: "rest = takeWhile (\<lambda>c. c = 32) rest @ dropWhile (\<lambda>c. c = 32) rest" by simp
  have "str_word m t = Some (?m, ?p + 1 + of_nat (length (takeWhile (\<lambda>c. c = 32) rest)))"
    using str_word_end_cstr [OF str] sp str_word_skip_cstr [OF rest']
    by (simp add: str_word_def flip: w_def)
  moreover have "cstr ?m t w"
    using cstr_prefix_cut [of m t w "32 # rest"] str short by (simp add: xs)
  moreover have "cstr ?m (?p + 1 + of_nat (length (takeWhile (\<lambda>c. c = 32) rest))) (dropWhile (\<lambda>c. c = 32) rest)"
    using rest' split cstr_drop by metis
  ultimately show ?thesis using Cons c by simp
qed

lemma strchr_cstr:
  "cstr m s xs \<Longrightarrow> ucast c \<noteq> (0 :: u8) \<Longrightarrow>
   strchr m s c = Some (if ucast c \<in> set xs
     then Some (s + of_nat (length (takeWhile (\<lambda>x. x \<noteq> ucast c) xs))) else None)"
proof (induction xs arbitrary: s)
  case Nil
  then show ?case by (subst strchr.simps) simp
next
  case (Cons x xs)
  then show ?case by (subst strchr.simps) (auto simp: algebra_simps)
qed

lemma strrchr_from_cstr:
  "cstr m s xs \<Longrightarrow> ucast c \<noteq> (0 :: u8) \<Longrightarrow>
   \<exists>r. strrchr_from m s c found = Some r \<and>
     (if ucast c \<in> set xs then \<exists>ys zs. xs = ys @ ucast c # zs \<and> ucast c \<notin> set zs \<and> r = Some (s + of_nat (length ys))
      else r = found)"
proof (induction xs arbitrary: s found)
  case Nil
  then show ?case by (subst strrchr_from.simps) simp
next
  case (Cons x xs)
  let ?found = "if x = ucast c then Some s else found"
  obtain r where r: "strrchr_from m (s + 1) c ?found = Some r"
    "if ucast c \<in> set xs then \<exists>ys zs. xs = ys @ ucast c # zs \<and> ucast c \<notin> set zs \<and>
       r = Some (s + 1 + of_nat (length ys)) else r = ?found"
    using Cons.IH [of "s + 1" ?found] Cons.prems by auto
  have step: "strrchr_from m s c found = Some r"
    using r(1) Cons.prems by (subst strrchr_from.simps) (auto simp: Let_def)
  show ?case
  proof (cases "ucast c \<in> set xs")
    case True
    then obtain ys zs where "xs = ys @ ucast c # zs" "ucast c \<notin> set zs" "r = Some (s + 1 + of_nat (length ys))"
      using r(2) by auto
    then have "x # xs = (x # ys) @ ucast c # zs \<and> ucast c \<notin> set zs \<and> r = Some (s + of_nat (length (x # ys)))"
      by (simp add: algebra_simps)
    then show ?thesis using step True by (metis list.set_intros(2))
  next
    case False
    have "x = ucast c \<Longrightarrow> x # xs = [] @ ucast c # xs \<and> r = Some (s + of_nat (length []))"
      using False r(2) by simp
    then show ?thesis using step r(2) False by (metis set_ConsD list.set_intros(1))
  qed
qed

lemma strcpy_cstr:
  assumes "cstr m s xs" "\<And>i j. i \<le> length xs \<Longrightarrow> j \<le> length xs \<Longrightarrow> d + of_nat i \<noteq> s + of_nat j"
    "length xs < 2 ^ 64"
  shows "\<exists>m'. strcpy d s m = Some m' \<and> cstr m' d xs \<and> cstr m' s xs \<and>
    (\<forall>x. (\<forall>i \<le> length xs. x \<noteq> d + of_nat i) \<longrightarrow> m' x = m x)"
  using assms
proof (induction xs arbitrary: d s m)
  case Nil
  then show ?case using Nil(2) [of 0 0] by (subst strcpy.simps) (auto simp: store8_def)
next
  case (Cons x xs)
  let ?m = "store8 m d x"
  have sep: "d + of_nat i \<noteq> s + 1 + of_nat j" "d + 1 + of_nat i \<noteq> s + 1 + of_nat j"
    "d + 1 + of_nat i \<noteq> s" "d \<noteq> s" if "i \<le> length xs" "j \<le> length xs" for i j
    using Cons.prems(2) [of i "Suc j"] Cons.prems(2) [of "Suc i" "Suc j"] Cons.prems(2) [of "Suc i" 0]
      Cons.prems(2) [of 0 0] that by (simp_all add: algebra_simps)
  have "cstr ?m (s + 1) xs"
    using cstr_store8_outside [of xs d "s + 1" m x] sep(1) [of 0] Cons.prems(1) by simp
  then obtain m' where m': "strcpy (d + 1) (s + 1) ?m = Some m'" "cstr m' (d + 1) xs" "cstr m' (s + 1) xs"
    "\<And>y. (\<forall>i \<le> length xs. y \<noteq> d + 1 + of_nat i) \<Longrightarrow> m' y = ?m y"
    using Cons.IH [of ?m "s + 1" "d + 1"] sep(2) Cons.prems(3) by auto
  have "d \<noteq> d + 1 + of_nat i" if "i \<le> length xs" for i
    using of_nat_u64_eq_iff [of "Suc i" 0] that Cons.prems(3) by (simp add: add.assoc)
  then have "m' d = x" using m'(4) [of d] by (simp add: store8_def)
  moreover have "m' s = x"
    using m'(4) [of s] sep(3) [of _ 0] sep(4) [of 0 0] Cons.prems(1) by (force simp: store8_def)
  moreover have "m' y = m y" if "\<forall>i \<le> length (x # xs). y \<noteq> d + of_nat i" for y
  proof -
    have "y \<noteq> d" using that [rule_format, of 0] by simp
    moreover have "\<forall>i \<le> length xs. y \<noteq> d + 1 + of_nat i"
      using that [rule_format, of "Suc _"] by (auto simp: algebra_simps)
    ultimately show ?thesis using m'(4) [of y] by (simp add: store8_def)
  qed
  ultimately show ?case using m' Cons.prems(1)
    by (subst strcpy.simps) (auto simp: Let_def)
qed

lemma memcmp_zero_iff: "memcmp m a b count = 0 \<longleftrightarrow> (\<forall>j < count. m (a + j) = m (b + j))"
  using memcmp_from_zero_iff [of 0 count m a b] by (simp add: memcmp_def)

section \<open>Properties\<close>

text \<open>
  \<open>memset\<close>, eight bytes at a time between its unaligned ends, sets exactly the \<open>count\<close> bytes
  from \<open>dest\<close> to the low byte of the value and leaves every other byte of memory alone, for every
  address and every count.
\<close>

lemma memset_spec:
  "memset dest val count m = (\<lambda>x. if unat (x - dest) < unat count then ucast val else m x)"
proof -
  obtain d n m1 where 1: "memset_align dest count (ucast val) m = (d, n, m1)"
    by (metis prod_cases3)
  obtain d' n' m2 where 2: "memset_words d n (ucast (ucast val :: u8) * 0x0101010101010101) m1 = (d', n', m2)"
    by (metis prod_cases3)
  have "memset dest val count m = filled d' n' (ucast val) m2"
    by (simp add: memset_def Let_def 1 2 memset_tail_filled)
  also have "\<dots> = filled dest count (ucast val) m"
    using memset_words_filled [OF spread_byte 2] memset_align_filled [OF 1] by simp
  finally show ?thesis by (simp add: filled_def)
qed

text \<open>
  C36. \<open>memmove\<close> copies the \<open>count\<close> bytes at \<open>src\<close> as they were before the call, whatever the
  overlap of the two blocks - forwards through the word loop of \<open>memcpy\<close> or backwards - and
  changes nothing else, for blocks that do not run past the end of the address space.
\<close>

theorem memmove_spec:
  assumes "unat src + unat count < 2 ^ 64" "unat dest + unat count \<le> 2 ^ 64"
  shows "memmove dest src count m =
    (\<lambda>x. if unat (x - dest) < unat count then m (src + (x - dest)) else m x)"
proof -
  have no_wrap: "unat (src + count) = unat src + unat count"
    using assms(1) by (simp add: unat_add_small)
  have "memmove dest src count m = copied dest src count m"
  proof (cases "dest \<le> src \<or> dest \<ge> src + count")
    case True
    have "forward_safe dest src count"
    proof (cases "dest \<le> src")
      case True
      then show ?thesis using assms(1) by (simp add: forward_safe_def word_nat unat_sub_le)
    next
      case False
      then have "unat (src - dest) = 2 ^ 64 + unat src - unat dest"
        using unat_sub_wrap [of src dest] by (simp add: word_nat)
      moreover have "unat src + unat count \<le> unat dest"
        using True False no_wrap by (simp add: word_nat)
      ultimately show ?thesis using unat_bound [of dest] by (simp add: forward_safe_def)
    qed
    then show ?thesis using True by (simp add: memmove_def memcpy_forward)
  next
    case False
    then show ?thesis using assms(2)
      by (simp add: memmove_def memmove_back_copied word_nat unat_sub_le)
  qed
  then show ?thesis by (simp add: copied_def)
qed

theorem memmove_spec_witness:
  "memmove 17 9 16 (\<lambda>x. ucast x) (20 :: u64) = 12 \<and> memmove 9 17 16 (\<lambda>x. ucast x) (20 :: u64) = 28"
  by (simp add: memmove_spec)

text \<open>
  On two NUL-terminated strings \<open>strcmp\<close> returns, its result is zero exactly when the strings
  are equal, and negative exactly when the first comes before the second in the order of their
  bytes read unsigned.
\<close>

theorem strcmp_spec:
  assumes "cstr m a xs" "cstr m b ys"
  shows "\<exists>r. strcmp m a b = Some r \<and> (r = 0 \<longleftrightarrow> xs = ys) \<and>
    (r < 0 \<longleftrightarrow> (xs, ys) \<in> lexord {(x, y). x < y})"
  using assms by (rule strcmp_cstr)

text \<open>
  \<open>str_word\<close> on a NUL-terminated text cuts off its first word: afterwards the caller's pointer
  is a string of exactly the bytes before the first space, and the text left starts after the run of
  spaces that followed it.
\<close>

theorem str_word_spec:
  assumes "cstr m t xs" "length xs < 2 ^ 64"
  shows "\<exists>m' q. str_word m t = Some (m', q) \<and> cstr m' t (takeWhile (\<lambda>c. c \<noteq> 32) xs) \<and>
    cstr m' q (dropWhile (\<lambda>c. c = 32) (dropWhile (\<lambda>c. c \<noteq> 32) xs))"
  using assms by (rule str_word_cstr)

end
