(* ===== verification/PageAlloc.thy ===== *)
theory PageAlloc
  imports Prelude "HOL-Library.Monad_Syntax"
begin

text \<open>
  The page allocator, \<^verbatim>\<open>src/src/kernel/mem.c\<close>: the sorted list of free runs, the chain of single
  pages threaded through their own first words, and the operations over both. The record \<open>mem\<close> is
  the file's static variables; \<open>words\<close> is the first 64-bit word of every page, which is all the
  allocator reads or writes of the memory it manages. The record is extensible, so that the state
  of a client (the disk cache) travels with it. The firmware's allocator is a parameter, and so is
  the disk cache's \<open>shrink\<close>. Loops that end only on well-formed states are option-valued.
\<close>

section \<open>State\<close>

definition PAGE :: u64 where "PAGE = 4096"
definition RUNS :: nat where "RUNS = 512"
definition KEPT_LOW :: nat where "KEPT_LOW = 32"
definition LOOSE_FLOOR :: u64 where "LOOSE_FLOOR = 2 ^ 30"
definition LOOSE_FILL :: u64 where "LOOSE_FILL = 16"
definition FIXED_TOP :: u64 where "FIXED_TOP = 2 ^ 30"
definition HEADER :: u64 where "HEADER = 16"

record run =
  r_at :: u64
  r_count :: u64

record mem =
  runs :: "run list"
  ours :: bool
  kept_low :: "run list"
  loose :: u64
  loose_count :: u64
  words :: "u64 \<Rightarrow> u64"
  ram_kib :: u64
  reclaimed_kib :: u64

datatype efi_alloc = ALLOCATE_ANY | ALLOCATE_MAX | ALLOCATE_ADDRESS

text \<open>The firmware's boot services, and its answer to how much is free.\<close>

record 's firmware =
  allocate_pages :: "efi_alloc \<Rightarrow> u64 \<Rightarrow> u64 \<Rightarrow> 's \<Rightarrow> u64 option \<times> 's"
  free_pages :: "u64 \<Rightarrow> u64 \<Rightarrow> 's \<Rightarrow> 's"
  efi_free_kib :: "'s \<Rightarrow> u64"

definition mem_ours :: "'a mem_scheme \<Rightarrow> bool" where
  "mem_ours s = ours s"

section \<open>Runs and loose pages\<close>

definition run_remove :: "nat \<Rightarrow> 'a mem_scheme \<Rightarrow> 'a mem_scheme" where
  "run_remove i s = s\<lparr>runs := take i (runs s) @ drop (Suc i) (runs s)\<rparr>"

fun loosen :: "u64 \<Rightarrow> nat \<Rightarrow> 'a mem_scheme \<Rightarrow> 'a mem_scheme" where
  "loosen at 0 s = s"
| "loosen at (Suc n) s =
     (if at < LOOSE_FLOOR then loosen (at + PAGE) n s
      else loosen (at + PAGE) n
             (s\<lparr>words := (words s)(at := loose s), loose := at, loose_count := loose_count s + 1\<rparr>))"

definition run_end :: "run \<Rightarrow> u64" where
  "run_end r = r_at r + r_count r * PAGE"

text \<open>The search for the run to give up, from index \<open>j\<close> on: \<open>None\<close> is the code's \<open>smallest == RUNS\<close>.\<close>

fun smallest_from :: "run list \<Rightarrow> nat list \<Rightarrow> nat option \<Rightarrow> nat option" where
  "smallest_from rs [] best = best"
| "smallest_from rs (j # js) best =
     (let high = (r_at (rs ! j) \<ge> LOOSE_FLOOR);
          best_high = (case best of None \<Rightarrow> False | Some b \<Rightarrow> r_at (rs ! b) \<ge> LOOSE_FLOOR)
      in smallest_from rs js
           (case best of
              None \<Rightarrow> Some j
            | Some b \<Rightarrow>
                if (high \<and> \<not> best_high) \<or> (high = best_high \<and> r_count (rs ! j) < r_count (rs ! b))
                then Some j else best))"

definition smallest :: "run list \<Rightarrow> nat" where
  "smallest rs = (case smallest_from rs [0..<RUNS] None of None \<Rightarrow> RUNS | Some j \<Rightarrow> j)"

definition insert_run :: "nat \<Rightarrow> run \<Rightarrow> 'a mem_scheme \<Rightarrow> 'a mem_scheme" where
  "insert_run i r s = s\<lparr>runs := take i (runs s) @ r # drop i (runs s)\<rparr>"

definition run_add :: "u64 \<Rightarrow> u64 \<Rightarrow> 'a mem_scheme \<Rightarrow> 'a mem_scheme" where
  "run_add at count s =
     (if count = 0 then s
      else
        let rs = runs s;
            i = length (takeWhile (\<lambda>r. r_at r < at) rs)
        in
          if i > 0 \<and> run_end (rs ! (i - 1)) = at then
            let rs1 = rs[i - 1 := (rs ! (i - 1))\<lparr>r_count := r_count (rs ! (i - 1)) + count\<rparr>]
            in if i < length rs \<and> at + count * PAGE = r_at (rs ! i) then
                 run_remove i
                   (s\<lparr>runs := rs1[i - 1 := (rs1 ! (i - 1))\<lparr>r_count := r_count (rs1 ! (i - 1)) + r_count (rs ! i)\<rparr>]\<rparr>)
               else s\<lparr>runs := rs1\<rparr>
          else if i < length rs \<and> at + count * PAGE = r_at (rs ! i) then
            s\<lparr>runs := rs[i := \<lparr>r_at = at, r_count = r_count (rs ! i) + count\<rparr>]\<rparr>
          else if length rs = RUNS then
            let j = smallest rs
            in if at \<ge> LOOSE_FLOOR \<and> (r_at (rs ! j) < LOOSE_FLOOR \<or> r_count (rs ! j) \<ge> count) then
                 loosen at (unat count) s
               else
                 let s1 = run_remove j (loosen (r_at (rs ! j)) (unat (r_count (rs ! j))) s);
                     i' = (if j < i then i - 1 else i)
                 in insert_run i' \<lparr>r_at = at, r_count = count\<rparr> s1
          else insert_run i \<lparr>r_at = at, r_count = count\<rparr> s)"

definition holds_page :: "u64 \<Rightarrow> run \<Rightarrow> bool" where
  "holds_page page r \<longleftrightarrow> \<not> (page < r_at r \<or> page \<ge> run_end r)"

definition run_take :: "u64 \<Rightarrow> 'a mem_scheme \<Rightarrow> bool \<times> 'a mem_scheme" where
  "run_take page s =
     (let rs = runs s; i = length (takeWhile (\<lambda>r. \<not> holds_page page r) rs)
      in if i < length rs then
           let r = rs ! i;
               after = (run_end r - page) div PAGE - 1;
               r' = r\<lparr>r_count := (page - r_at r) div PAGE\<rparr>;
               s1 = s\<lparr>runs := rs[i := r']\<rparr>;
               s2 = (if r_count r' = 0 then run_remove i s1 else s1)
           in (True, run_add (page + PAGE) after s2)
         else (False, s))"

section \<open>Taking pages\<close>

text \<open>The loops that go down from the last run: the highest index whose run passes the test.\<close>

fun find_down :: "(run \<Rightarrow> bool) \<Rightarrow> run list \<Rightarrow> nat \<Rightarrow> nat option" where
  "find_down P rs 0 = None"
| "find_down P rs (Suc i) = (if P (rs ! i) then Some i else find_down P rs i)"

text \<open>\<open>count\<close> pages off the top end of run \<open>i\<close>.\<close>

definition cut_top :: "u64 \<Rightarrow> nat \<Rightarrow> 'a mem_scheme \<Rightarrow> u64 \<times> 'a mem_scheme" where
  "cut_top count i s =
     (let r = runs s ! i;
          r' = r\<lparr>r_count := r_count r - count\<rparr>;
          s1 = s\<lparr>runs := (runs s)[i := r']\<rparr>
      in (run_end r', if r_count r' = 0 then run_remove i s1 else s1))"

definition fill_loose :: "'a mem_scheme \<Rightarrow> 'a mem_scheme" where
  "fill_loose s =
     (case find_down (\<lambda>r. r_count r \<ge> LOOSE_FILL \<and> run_end r > LOOSE_FLOOR + LOOSE_FILL * PAGE)
             (runs s) (length (runs s)) of
        None \<Rightarrow> s
      | Some i \<Rightarrow>
          (let (at, s1) = cut_top LOOSE_FILL i s
           in if at < LOOSE_FLOOR then run_add at LOOSE_FILL s1 else loosen at (unat LOOSE_FILL) s1))"

definition pop_loose :: "'a mem_scheme \<Rightarrow> u64 \<times> 'a mem_scheme" where
  "pop_loose s =
     (let at = loose s in (at, s\<lparr>loose := words s at, loose_count := loose_count s - 1\<rparr>))"

definition take_run :: "u64 \<Rightarrow> 'a mem_scheme \<Rightarrow> (u64 \<times> 'a mem_scheme) option" where
  "take_run count s =
     map_option (\<lambda>i. cut_top count i s)
       (find_down (\<lambda>r. r_count r \<ge> count) (runs s) (length (runs s)))"

partial_function (option) drain :: "'a mem_scheme \<Rightarrow> 'a mem_scheme option" where
  "drain s =
     (if loose s \<noteq> 0 \<and> length (runs s) < RUNS - 1 then
        let (at, s1) = pop_loose s in drain (run_add at 1 s1)
      else Some s)"

definition take_pages :: "'a mem_scheme firmware \<Rightarrow> u64 \<Rightarrow> 'a mem_scheme \<Rightarrow> (u64 \<times> 'a mem_scheme) option" where
  "take_pages fw count s =
     (if \<not> ours s then
        case allocate_pages fw ALLOCATE_ANY count 0 s of
          (None, s1) \<Rightarrow> Some (0, s1)
        | (Some at, s1) \<Rightarrow> Some (at, s1)
      else
        let s1 = (if count = 1 \<and> loose s = 0 then fill_loose s else s)
        in if count = 1 \<and> loose s1 \<noteq> 0 then Some (pop_loose s1)
           else case take_run count s1 of
             Some r \<Rightarrow> Some r
           | None \<Rightarrow>
               if loose_count s1 = 0 then Some (0, s1)
               else drain s1 \<bind> (\<lambda>s2.
                 case take_run count s2 of Some r \<Rightarrow> Some r | None \<Rightarrow> Some (0, s2)))"

definition floor_kept :: "'a mem_scheme \<Rightarrow> u64" where
  "floor_kept s = (if ours s \<and> ram_kib s > drop_bit 10 FIXED_TOP then FIXED_TOP else 0)"

text \<open>
  The disk cache's \<open>shrink\<close>, \<open>None\<close> while no cache is registered: bytes wanted to bytes given.
\<close>

type_synonym 's shrinker = "(u64 \<Rightarrow> 's \<Rightarrow> (u64 \<times> 's) option) option"

partial_function (option) mem_pages ::
  "'a mem_scheme firmware \<Rightarrow> 'a mem_scheme shrinker \<Rightarrow> u64 \<Rightarrow> 'a mem_scheme \<Rightarrow> (u64 \<times> 'a mem_scheme) option" where
  "mem_pages fw cache count s =
     take_pages fw count s \<bind> (\<lambda>(at, s1).
       if at \<noteq> 0 \<and> at \<ge> floor_kept s1 then Some (at, s1)
       else case cache of
         None \<Rightarrow> Some (at, s1)
       | Some shrink \<Rightarrow>
           shrink (count * PAGE) s1 \<bind> (\<lambda>(given, s2).
             if given = 0 then Some (at, s2)
             else mem_pages fw cache count (if at \<noteq> 0 then run_add at count s2 else s2)))"

definition mem_pages_lent :: "'a mem_scheme firmware \<Rightarrow> u64 \<Rightarrow> 'a mem_scheme \<Rightarrow> (u64 \<times> 'a mem_scheme) option" where
  "mem_pages_lent fw count s =
     take_pages fw count s \<bind> (\<lambda>(at, s1).
       if at \<noteq> 0 \<and> at < floor_kept s1 then Some (0, run_add at count s1) else Some (at, s1))"

fun run_take_each :: "u64 \<Rightarrow> nat \<Rightarrow> 'a mem_scheme \<Rightarrow> 'a mem_scheme" where
  "run_take_each at 0 s = s"
| "run_take_each at (Suc n) s = run_take_each (at + PAGE) n (snd (run_take at s))"

definition take_below ::
  "'a mem_scheme firmware \<Rightarrow> u64 \<Rightarrow> u64 \<Rightarrow> 'a mem_scheme \<Rightarrow> u64 \<times> 'a mem_scheme" where
  "take_below fw count limit s =
     (if \<not> ours s then
        case allocate_pages fw ALLOCATE_MAX count (limit - 1) s of
          (None, s1) \<Rightarrow> (0, s1)
        | (Some at, s1) \<Rightarrow> (at, s1)
      else
        let bounded = (\<lambda>r. if run_end r > limit then limit else run_end r)
        in case find_down (\<lambda>r. bounded r \<ge> r_at r + count * PAGE) (runs s) (length (runs s)) of
             None \<Rightarrow> (0, s)
           | Some i \<Rightarrow>
               (let at = bounded (runs s ! i) - count * PAGE
                in (at, run_take_each at (unat count) s)))"

partial_function (option) mem_pages_below ::
  "'a mem_scheme firmware \<Rightarrow> 'a mem_scheme shrinker \<Rightarrow> u64 \<Rightarrow> u64 \<Rightarrow> 'a mem_scheme \<Rightarrow> (u64 \<times> 'a mem_scheme) option" where
  "mem_pages_below fw cache count limit s =
     (let (at, s1) = take_below fw count limit s
      in if at \<noteq> 0 then Some (at, s1)
         else case cache of
           None \<Rightarrow> Some (at, s1)
         | Some shrink \<Rightarrow>
             shrink (count * PAGE) s1 \<bind> (\<lambda>(given, s2).
               if given > 0 then mem_pages_below fw cache count limit s2 else Some (at, s2)))"

definition mem_take_page :: "'a mem_scheme firmware \<Rightarrow> u64 \<Rightarrow> 'a mem_scheme \<Rightarrow> bool \<times> 'a mem_scheme" where
  "mem_take_page fw page s =
     (if \<not> ours s then
        case allocate_pages fw ALLOCATE_ADDRESS 1 page s of (r, s1) \<Rightarrow> (r \<noteq> None, s1)
      else run_take page s)"

definition mem_firmware_kept :: "u64 \<Rightarrow> 'a mem_scheme \<Rightarrow> bool" where
  "mem_firmware_kept page s \<longleftrightarrow> (\<exists>r \<in> set (kept_low s). page \<ge> r_at r \<and> page < run_end r)"

section \<open>Giving pages back\<close>

definition mem_pages_free :: "'a mem_scheme firmware \<Rightarrow> u64 \<Rightarrow> u64 \<Rightarrow> 'a mem_scheme \<Rightarrow> 'a mem_scheme" where
  "mem_pages_free fw at count s =
     (if \<not> ours s then free_pages fw at count s
      else if count = 1 \<and> at \<ge> LOOSE_FLOOR then loosen at 1 s
      else run_add at count s)"

definition mem_give_page :: "'a mem_scheme firmware \<Rightarrow> u64 \<Rightarrow> 'a mem_scheme \<Rightarrow> 'a mem_scheme" where
  "mem_give_page fw page s = mem_pages_free fw page 1 s"

definition mem_alloc ::
  "'a mem_scheme firmware \<Rightarrow> 'a mem_scheme shrinker \<Rightarrow> u64 \<Rightarrow> 'a mem_scheme \<Rightarrow> (u64 option \<times> 'a mem_scheme) option" where
  "mem_alloc fw cache bytes s =
     (let count = (bytes + HEADER + PAGE - 1) div PAGE
      in mem_pages fw cache count s \<bind> (\<lambda>(at, s1).
           if at = 0 then Some (None, s1)
           else Some (Some (at + HEADER), s1\<lparr>words := (words s1)(at := count)\<rparr>)))"

definition mem_free :: "'a mem_scheme firmware \<Rightarrow> u64 option \<Rightarrow> 'a mem_scheme \<Rightarrow> 'a mem_scheme" where
  "mem_free fw memory s =
     (case memory of
        None \<Rightarrow> s
      | Some p \<Rightarrow> (let at = p - HEADER in mem_pages_free fw at (words s at) s))"

section \<open>Taking the machine over\<close>

record descriptor =
  d_type :: u32
  d_physical :: u64
  d_pages :: u64

definition take_descriptor :: "descriptor \<Rightarrow> 'a mem_scheme \<Rightarrow> 'a mem_scheme" where
  "take_descriptor d s =
     (let start = d_physical d; count = d_pages d; ty = d_type d;
          s1 = (if ty \<noteq> 7 \<and> ty > 4 \<and> ty \<noteq> 9 \<and> start < 2 ^ 30 \<and> length (kept_low s) < KEPT_LOW
                then s\<lparr>kept_low := kept_low s @ [\<lparr>r_at = start, r_count = count\<rparr>]\<rparr> else s)
      in if ty \<noteq> 9 \<and> ty \<noteq> 7 \<and> ty \<noteq> 1 \<and> ty \<noteq> 3 \<and> ty \<noteq> 4 then s1
         else
           let s2 = (if ty = 9 then s1\<lparr>reclaimed_kib := reclaimed_kib s1 + count * 4\<rparr> else s1)
           in if start = 0 then
                if count - 1 = 0 then s2 else run_add PAGE (count - 1) s2
              else run_add start count s2)"

partial_function (option) take_span :: "u64 \<Rightarrow> u64 \<Rightarrow> 'a mem_scheme \<Rightarrow> 'a mem_scheme option" where
  "take_span page final s =
     (if page \<le> final then take_span (page + PAGE) final (snd (run_take page s)) else Some s)"

text \<open>
  The list is the firmware's memory map, and \<open>idt_base\<close>, \<open>idt_limit\<close> are what \<open>sidt\<close> stores.
  The switch of page tables before the loop and the log line after it touch none of this state.
\<close>

definition mem_take_over :: "descriptor list \<Rightarrow> u64 \<Rightarrow> u16 \<Rightarrow> 'a mem_scheme \<Rightarrow> 'a mem_scheme option" where
  "mem_take_over dmap idt_base idt_limit s =
     map_option (\<lambda>s. s\<lparr>ours := True\<rparr>)
       (take_span (idt_base AND NOT (PAGE - 1)) (idt_base + ucast idt_limit) (fold take_descriptor dmap s))"

record e820 =
  e_base :: u64
  e_length :: u64
  e_type :: u32

text \<open>One turn of the loop of \<open>mem_take_bios\<close>, with its sums \<open>top\<close>, \<open>ram\<close> and \<open>kept\<close>.\<close>

definition take_e820 :: "e820 \<Rightarrow> u64 \<times> u64 \<times> u64 \<times> 'a mem_scheme \<Rightarrow> u64 \<times> u64 \<times> u64 \<times> 'a mem_scheme" where
  "take_e820 e = (\<lambda>(highest, ram, kept, s).
     let start = (e_base e + PAGE - 1) AND NOT (PAGE - 1);
         fin = (e_base e + e_length e) AND NOT (PAGE - 1);
         is_ram = (e_type e = 1 \<or> e_type e = 3 \<or> e_type e = 4);
         ram' = (if is_ram then ram + e_length e div 1024 else ram);
         highest' = (if is_ram then (if fin > highest then fin else highest) else highest);
         kept' = (if e_type e = 4 then kept + e_length e div 1024 else kept);
         s1 = (if e_type e \<noteq> 1 \<and> e_base e < 2 ^ 30 \<and> length (kept_low s) < KEPT_LOW
               then s\<lparr>kept_low := kept_low s @
                      [\<lparr>r_at = e_base e AND NOT (PAGE - 1), r_count = (e_length e + PAGE - 1) div PAGE\<rparr>]\<rparr>
               else s)
     in if e_type e \<noteq> 1 then (highest', ram', kept', s1)
        else
          let start' = (if start < 0x100000 then 0x100000 else start)
          in (highest', ram', kept',
              if fin > start' then run_add start' ((fin - start') div PAGE) s1 else s1))"

definition mem_free_kib :: "'a mem_scheme firmware \<Rightarrow> 'a mem_scheme \<Rightarrow> u64" where
  "mem_free_kib fw s =
     (if ours s then (sum_list (map r_count (runs s)) + loose_count s) * 4 else efi_free_kib fw s)"

definition mem_trim_kernel :: "'a mem_scheme firmware \<Rightarrow> u64 \<Rightarrow> u64 \<Rightarrow> u64 \<Rightarrow> 'a mem_scheme \<Rightarrow> 'a mem_scheme" where
  "mem_trim_kernel fw kernel_start bss_end kernel_bytes s =
     (let from = (bss_end + PAGE - 1) AND NOT (PAGE - 1);
          to = kernel_start + kernel_bytes
      in if to > from then mem_pages_free fw from ((to - from) div PAGE) s else s)"

section \<open>Free pages and the invariant\<close>

text \<open>Pages are read as natural numbers; \<open>span a b\<close> is the page addresses from \<open>a\<close> up to \<open>b\<close>.\<close>

definition page_aligned :: "nat \<Rightarrow> bool" where
  "page_aligned p \<longleftrightarrow> 4096 dvd p"

definition span :: "nat \<Rightarrow> nat \<Rightarrow> nat set" where
  "span a b = {p. page_aligned p \<and> a \<le> p \<and> p < b}"

definition run_stop :: "run \<Rightarrow> nat" where
  "run_stop r = unat (r_at r) + 4096 * unat (r_count r)"

definition run_ok :: "run \<Rightarrow> bool" where
  "run_ok r \<longleftrightarrow> r_at r \<noteq> 0 \<and> r_count r \<noteq> 0 \<and> page_aligned (unat (r_at r)) \<and> run_stop r < 2 ^ 64"

definition before :: "run \<Rightarrow> run \<Rightarrow> bool" where
  "before r q \<longleftrightarrow> run_stop r < unat (r_at q)"

definition runs_ok :: "run list \<Rightarrow> bool" where
  "runs_ok rs \<longleftrightarrow> (\<forall>r \<in> set rs. run_ok r) \<and> sorted_wrt before rs"

definition run_pages :: "run \<Rightarrow> nat set" where
  "run_pages r = span (unat (r_at r)) (run_stop r)"

definition runs_pages :: "run list \<Rightarrow> nat set" where
  "runs_pages rs = \<Union> (run_pages ` set rs)"

fun chain :: "(u64 \<Rightarrow> u64) \<Rightarrow> u64 \<Rightarrow> u64 list \<Rightarrow> bool" where
  "chain w a [] \<longleftrightarrow> a = 0"
| "chain w a (p # ps) \<longleftrightarrow> a = p \<and> p \<noteq> 0 \<and> chain w (w p) ps"

fun follow :: "nat \<Rightarrow> (u64 \<Rightarrow> u64) \<Rightarrow> u64 \<Rightarrow> u64 list" where
  "follow 0 w a = []"
| "follow (Suc n) w a = (if a = 0 then [] else a # follow n w (w a))"

definition loose_list :: "'a mem_scheme \<Rightarrow> u64 list" where
  "loose_list s = follow (unat (loose_count s)) (words s) (loose s)"

definition loose_page :: "u64 \<Rightarrow> bool" where
  "loose_page p \<longleftrightarrow> p \<ge> LOOSE_FLOOR \<and> page_aligned (unat p) \<and> unat p + 4096 < 2 ^ 64"

definition loose_ok :: "'a mem_scheme \<Rightarrow> bool" where
  "loose_ok s \<longleftrightarrow> chain (words s) (loose s) (loose_list s) \<and>
     length (loose_list s) = unat (loose_count s) \<and> distinct (loose_list s) \<and>
     (\<forall>p \<in> set (loose_list s). loose_page p)"

definition loose_set :: "'a mem_scheme \<Rightarrow> nat set" where
  "loose_set s = unat ` set (loose_list s)"

definition free_set :: "'a mem_scheme \<Rightarrow> nat set" where
  "free_set s = runs_pages (runs s) \<union> loose_set s"

definition mem_inv :: "'a mem_scheme \<Rightarrow> bool" where
  "mem_inv s \<longleftrightarrow> runs_ok (runs s) \<and> length (runs s) \<le> RUNS \<and> loose_ok s \<and>
     runs_pages (runs s) \<inter> loose_set s = {}"

abbreviation block :: "u64 \<Rightarrow> u64 \<Rightarrow> nat set" where
  "block at count \<equiv> run_pages \<lparr>r_at = at, r_count = count\<rparr>"

subsection \<open>Runs\<close>

lemma page_aligned_simps [simp]:
  "page_aligned 0"
  "page_aligned (4096 * n)"
  "page_aligned (a + 4096) \<longleftrightarrow> page_aligned a"
  "page_aligned (a + 4096 * n) \<longleftrightarrow> page_aligned a"
  by (simp_all add: page_aligned_def dvd_add_left_iff)


lemmas mem_consts = PAGE_def RUNS_def LOOSE_FLOOR_def LOOSE_FILL_def FIXED_TOP_def HEADER_def KEPT_LOW_def

lemma runs_pages_simps [simp]:
  "runs_pages [] = {}"
  "runs_pages (r # rs) = run_pages r \<union> runs_pages rs"
  "runs_pages (rs @ qs) = runs_pages rs \<union> runs_pages qs"
  by (auto simp: runs_pages_def)

lemma runs_ok_simps [simp]:
  "runs_ok []"
  "runs_ok (r # rs) \<longleftrightarrow> run_ok r \<and> runs_ok rs \<and> (\<forall>q \<in> set rs. before r q)"
  "runs_ok (rs @ qs) \<longleftrightarrow> runs_ok rs \<and> runs_ok qs \<and> (\<forall>r \<in> set rs. \<forall>q \<in> set qs. before r q)"
  by (auto simp: runs_ok_def sorted_wrt_append)

lemma unat_PAGE [simp]: "unat PAGE = 4096"
  by (simp add: PAGE_def)

lemma unat_LOOSE_FLOOR [simp]: "unat LOOSE_FLOOR = 2 ^ 30"
  by (simp add: LOOSE_FLOOR_def)

lemma unat_pages:
  "unat a + 4096 * unat n < 2 ^ 64 \<Longrightarrow> unat (a + n * PAGE) = unat a + 4096 * unat n" for a n :: u64
  using unat_mult_small [of n PAGE] unat_add_small [of a "n * PAGE"] by (simp add: mult.commute)

lemma unat_next_page: "unat a + 4096 < 2 ^ 64 \<Longrightarrow> unat (a + PAGE) = unat a + 4096" for a :: u64
  by (simp add: unat_add_small)

lemma unat_run_end: "run_ok r \<Longrightarrow> unat (run_end r) = run_stop r"
  by (simp add: run_end_def run_ok_def run_stop_def unat_pages)

lemma run_ok_start: "run_ok r \<Longrightarrow> unat (r_at r) \<in> run_pages r"
  by (simp add: run_pages_def run_ok_def span_def run_stop_def unat_gt_0)

lemma run_stop_aligned: "run_ok r \<Longrightarrow> page_aligned (run_stop r)"
  by (simp add: run_ok_def run_stop_def)

lemma run_ok_less: "run_ok r \<Longrightarrow> unat (r_at r) < run_stop r"
  by (simp add: run_ok_def run_stop_def unat_gt_0)

lemma run_pages_disjoint_iff:
  assumes "run_ok r" "run_ok q"
  shows "run_pages r \<inter> run_pages q = {} \<longleftrightarrow> run_stop r \<le> unat (r_at q) \<or> run_stop q \<le> unat (r_at r)"
proof
  assume "run_pages r \<inter> run_pages q = {}"
  then have "unat (r_at r) \<notin> run_pages q" "unat (r_at q) \<notin> run_pages r"
    using run_ok_start assms by blast+
  then show "run_stop r \<le> unat (r_at q) \<or> run_stop q \<le> unat (r_at r)"
    using assms by (auto simp: run_pages_def span_def run_ok_def)
qed (auto simp: run_pages_def span_def)

lemma run_join:
  assumes "run_ok p" "run_ok b" "run_stop p = unat (r_at b)"
  defines "j \<equiv> p\<lparr>r_count := r_count p + r_count b\<rparr>"
  shows "run_ok j" "run_stop j = run_stop b" "run_pages j = run_pages p \<union> run_pages b"
    "unat (r_at j) = unat (r_at p)"
proof -
  have "4096 * unat (r_count p) + 4096 * unat (r_count b) < 2 ^ 64"
    using assms(1-3) by (simp add: run_ok_def run_stop_def)
  then have "unat (r_count p + r_count b) = unat (r_count p) + unat (r_count b)"
    by (intro unat_add_small) simp
  then show stop: "run_stop j = run_stop b"
    using assms(3) by (simp add: j_def run_stop_def)
  have "unat (r_count p + r_count b) \<noteq> 0"
    using \<open>unat (r_count p + r_count b) = _\<close> assms(1) by (simp add: run_ok_def unat_eq_zero)
  then have "r_count p + r_count b \<noteq> 0" by (metis unat_0)
  then show "run_ok j" using stop assms(1,2) by (simp add: run_ok_def j_def)
  show "run_pages j = run_pages p \<union> run_pages b"
    using stop assms(3) run_ok_less [OF assms(1)] run_ok_less [OF assms(2)]
    by (auto simp: run_pages_def span_def j_def)
qed (simp add: j_def)

subsection \<open>The chain of single pages\<close>

lemma chain_follow: "chain w a ps \<Longrightarrow> follow (length ps) w a = ps"
  by (induction ps arbitrary: a) auto

lemma chain_upd: "p \<notin> set ps \<Longrightarrow> chain (w(p := v)) a ps = chain w a ps"
  by (induction ps arbitrary: a) auto

lemma chain_nonzero: "chain w a ps \<Longrightarrow> 0 \<notin> set ps"
  by (induction ps arbitrary: a) auto

lemma distinct_u64_length:
  fixes ps :: "u64 list"
  assumes "distinct ps" "0 \<notin> set ps"
  shows "length ps < 2 ^ 64"
proof -
  have "card (set ps) < card (UNIV :: u64 set)"
    using assms(2) by (intro psubset_card_mono) auto
  then show ?thesis using assms(1) by (simp add: distinct_card card_word)
qed

lemma loose_listI:
  assumes "chain (words s) (loose s) ps" "loose_count s = of_nat (length ps)" "distinct ps"
  shows "loose_list s = ps" "unat (loose_count s) = length ps"
proof -
  have "length ps < 2 ^ 64"
    using distinct_u64_length [OF assms(3) chain_nonzero [OF assms(1)]] .
  then show "unat (loose_count s) = length ps"
    by (simp add: assms(2) unsigned_of_nat take_bit_nat_eq_self)
  then show "loose_list s = ps" by (simp add: loose_list_def chain_follow [OF assms(1)])
qed

lemma loose_okI:
  assumes "chain (words s) (loose s) ps" "loose_count s = of_nat (length ps)" "distinct ps"
    "\<forall>p \<in> set ps. loose_page p"
  shows "loose_ok s" "loose_list s = ps"
  using loose_listI [OF assms(1-3)] assms by (simp_all add: loose_ok_def)

definition push_loose :: "u64 \<Rightarrow> 'a mem_scheme \<Rightarrow> 'a mem_scheme" where
  "push_loose p s = s\<lparr>words := (words s)(p := loose s), loose := p, loose_count := loose_count s + 1\<rparr>"

lemma loose_page_nonzero: "loose_page p \<Longrightarrow> p \<noteq> 0"
  by (auto simp: loose_page_def LOOSE_FLOOR_def)

lemma push_loose:
  assumes "loose_ok s" "loose_page p" "unat p \<notin> loose_set s"
  shows "loose_ok (push_loose p s)" "loose_list (push_loose p s) = p # loose_list s"
proof -
  have ps: "p \<notin> set (loose_list s)" using assms(3) by (auto simp: loose_set_def)
  have "of_nat (length (loose_list s)) = loose_count s"
    using assms(1) by (simp add: loose_ok_def)
  then have count: "loose_count s + 1 = of_nat (length (p # loose_list s))"
    by (simp add: add.commute)
  have "chain ((words s)(p := loose s)) p (p # loose_list s)"
    using assms(1) ps loose_page_nonzero [OF assms(2)] by (simp add: chain_upd loose_ok_def)
  then show "loose_ok (push_loose p s)" "loose_list (push_loose p s) = p # loose_list s"
    using assms(1,2) ps count
      loose_okI [of "push_loose p s" "p # loose_list s"]
    by (simp_all add: push_loose_def loose_ok_def)
qed

lemma pop_loose:
  assumes "loose_ok s" "loose s \<noteq> 0" "pop_loose s = (p, s')"
  shows "loose_ok s'" "loose_list s = p # loose_list s'" "loose_page p" "p \<noteq> 0" "runs s' = runs s"
    "loose s = p"
proof -
  obtain ps where ps: "loose_list s = loose s # ps" "chain (words s) (words s (loose s)) ps"
    using assms(1,2) by (cases "loose_list s") (auto simp: loose_ok_def)
  have s': "s' = s\<lparr>loose := words s (loose s), loose_count := loose_count s - 1\<rparr>" and p: "p = loose s"
    using assms(3) by (auto simp add: pop_loose_def Let_def)
  have "loose_count s = of_nat (length (loose_list s))"
    using assms(1) by (simp add: loose_ok_def)
  then have count: "loose_count s' = of_nat (length ps)"
    by (simp add: s' ps)
  have "chain (words s') (loose s') ps" using ps(2) by (simp add: s')
  moreover have "distinct ps" "\<forall>p \<in> set ps. loose_page p"
    using assms(1) ps(1) by (simp_all add: loose_ok_def)
  ultimately show "loose_ok s'" "loose_list s = p # loose_list s'"
    using loose_okI [OF _ count] ps(1) p by simp_all
  show "loose_page p" using assms(1) ps p by (simp add: loose_ok_def)
  show "p \<noteq> 0" "runs s' = runs s" "loose s = p" using assms(2) s' p by simp_all
qed

lemma loosen_Suc:
  "loosen at (Suc n) s = loosen (at + PAGE) n (if at < LOOSE_FLOOR then s else push_loose at s)"
  by (simp add: push_loose_def)

lemma span_Suc: "page_aligned a \<Longrightarrow> span a (a + 4096 * Suc n) = insert a (span (a + 4096) (a + 4096 + 4096 * n))"
proof -
  assume a: "page_aligned a"
  have "a + 4096 \<le> p" if "page_aligned p" "a < p" for p
  proof -
    have "4096 dvd p - a" using a that by (simp add: dvd_diff_nat page_aligned_def)
    then show ?thesis using that(2) by (auto dest: dvd_imp_le)
  qed
  then show ?thesis using a by (fastforce simp: span_def le_less)
qed

lemma loosen:
  assumes "loose_ok s" "page_aligned (unat at)" "unat at + 4096 * n < 2 ^ 64"
    "span (unat at) (unat at + 4096 * n) \<inter> loose_set s = {}"
  shows "loose_ok (loosen at n s) \<and>
    loose_set (loosen at n s) = loose_set s \<union> {p \<in> span (unat at) (unat at + 4096 * n). 2 ^ 30 \<le> p} \<and>
    runs (loosen at n s) = runs s"
  using assms
proof (induction n arbitrary: at s)
  case 0
  then show ?case by (auto simp: span_def)
next
  case (Suc n)
  let ?s = "if at < LOOSE_FLOOR then s else push_loose at s"
  have next': "unat (at + PAGE) = unat at + 4096"
    using Suc.prems(3) by (intro unat_next_page) simp
  have sp: "span (unat at) (unat at + 4096 * Suc n) =
      insert (unat at) (span (unat at + 4096) (unat at + 4096 + 4096 * n))"
    using Suc.prems(2) by (rule span_Suc)
  have set: "loose_set ?s = loose_set s \<union> {p. p = unat at \<and> 2 ^ 30 \<le> p}" and ok: "loose_ok ?s"
    and rs: "runs ?s = runs s"
    using push_loose [OF Suc.prems(1), of at] Suc.prems(2,3,4) sp
    by (auto simp: loose_set_def loose_page_def word_nat push_loose_def Suc.prems(1))
  have "unat at \<notin> span (unat at + 4096) (unat at + 4096 + 4096 * n)" by (simp add: span_def)
  then have "span (unat (at + PAGE)) (unat (at + PAGE) + 4096 * n) \<inter> loose_set ?s = {}"
    using Suc.prems(4) sp set next' by auto
  then have IH: "loose_ok (loosen (at + PAGE) n ?s) \<and>
      loose_set (loosen (at + PAGE) n ?s) = loose_set ?s \<union> {p \<in> span (unat at + 4096) (unat at + 4096 + 4096 * n). 2 ^ 30 \<le> p} \<and>
      runs (loosen (at + PAGE) n ?s) = runs ?s"
    using Suc.IH [OF ok, of "at + PAGE"] Suc.prems(2,3) next' by simp
  then show ?case unfolding loosen_Suc sp using set rs by auto
qed

subsection \<open>Adding a run\<close>

text \<open>Where a new run \<open>b\<close>, disjoint from the free ones, falls between its neighbours.\<close>

lemma neighbours:
  assumes "runs_ok (ys @ zs)" "run_ok b" "run_pages b \<inter> runs_pages (ys @ zs) = {}"
    and ys: "\<forall>y \<in> set ys. r_at y < r_at b" and zs: "zs \<noteq> [] \<longrightarrow> \<not> r_at (hd zs) < r_at b"
  shows "\<forall>y \<in> set ys. run_stop y \<le> unat (r_at b)" "\<forall>z \<in> set zs. run_stop b \<le> unat (r_at z)"
proof -
  have ok: "run_ok r \<and> run_pages b \<inter> run_pages r = {}" if "r \<in> set (ys @ zs)" for r
    using assms(1,3) that by (auto simp: runs_ok_def runs_pages_def)
  show "\<forall>y \<in> set ys. run_stop y \<le> unat (r_at b)"
  proof
    fix y assume y: "y \<in> set ys"
    then have "run_stop y \<le> unat (r_at b) \<or> run_stop b \<le> unat (r_at y)"
      using ok [of y] run_pages_disjoint_iff [of b y] assms(2) by auto
    moreover have "unat (r_at y) < unat (r_at b)" using y ys by (simp add: word_nat)
    ultimately show "run_stop y \<le> unat (r_at b)" using run_ok_less [OF assms(2)] by auto
  qed
  show "\<forall>z \<in> set zs. run_stop b \<le> unat (r_at z)"
  proof
    fix z assume z: "z \<in> set zs"
    then obtain h t where h: "zs = h # t" by (cases zs) auto
    have "unat (r_at h) \<le> unat (r_at z)"
      using z h assms(1) run_ok_less by (fastforce simp: before_def)
    then have "unat (r_at b) \<le> unat (r_at z)" using zs h by (simp add: word_nat)
    moreover have "run_stop z \<le> unat (r_at b) \<or> run_stop b \<le> unat (r_at z)"
      using ok [of z] z run_pages_disjoint_iff [of b z] assms(2) by auto
    ultimately show "run_stop b \<le> unat (r_at z)"
      using run_ok_less [of z] ok [of z] z by auto
  qed
qed

lemma smallest_from_bound:
  "smallest_from rs js best = Some j \<Longrightarrow> j \<in> set js \<or> best = Some j"
  by (induction rs js best rule: smallest_from.induct)
    (fastforce simp: Let_def split: option.splits if_splits)+

lemma smallest_from_Some: "smallest_from rs js (Some b) \<noteq> None"
  by (induction js arbitrary: b) (auto simp: Let_def)

lemma smallest_less: "length rs = RUNS \<Longrightarrow> smallest rs < RUNS"
proof -
  have "0 < RUNS" by (simp add: RUNS_def)
  then have "[0..<RUNS] = 0 # [1..<RUNS]" by (simp only: upt_conv_Cons One_nat_def)
  then have "smallest_from rs [0..<RUNS] None \<noteq> None"
    using smallest_from_Some by (simp add: Let_def)
  then show ?thesis
    using smallest_from_bound [of rs "[0..<RUNS]" None] by (auto simp: smallest_def)
qed

lemma neighbours_strict:
  assumes "runs_ok (ys @ zs)" "run_ok b" "run_pages b \<inter> runs_pages (ys @ zs) = {}"
    and ys: "\<forall>y \<in> set ys. r_at y < r_at b" and zs: "zs \<noteq> [] \<longrightarrow> \<not> r_at (hd zs) < r_at b"
  shows "ys = [] \<or> run_end (last ys) \<noteq> r_at b \<Longrightarrow> \<forall>y \<in> set ys. before y b"
    "zs = [] \<or> run_end b \<noteq> r_at (hd zs) \<Longrightarrow> \<forall>z \<in> set zs. before b z"
proof -
  note nb = neighbours [OF assms]
  have ok: "run_ok r" if "r \<in> set (ys @ zs)" for r
    using assms(1) that by (auto simp: runs_ok_def)
  show "\<forall>y \<in> set ys. before y b" if "ys = [] \<or> run_end (last ys) \<noteq> r_at b"
  proof (cases ys rule: rev_cases)
    case (snoc ys' p)
    then have "run_stop p \<noteq> unat (r_at b)"
      using that ok [of p] unat_run_end [of p] by (metis Un_iff append_is_Nil_conv last_snoc list.distinct(1)
          list.set_intros(1) set_append word_unat_eq_iff)
    moreover have "run_stop y < unat (r_at p)" if "y \<in> set ys'" for y
      using assms(1) snoc that by (auto simp: before_def)
    ultimately show ?thesis using nb(1) snoc ok [of p] run_ok_less [of p]
      by (fastforce simp: before_def)
  qed simp
  show "\<forall>z \<in> set zs. before b z" if "zs = [] \<or> run_end b \<noteq> r_at (hd zs)"
  proof (cases zs)
    case (Cons q zs')
    then have "run_stop b \<noteq> unat (r_at q)"
      using that unat_run_end [OF assms(2)] by (metis list.sel(1) list.distinct(1) word_unat_eq_iff)
    moreover have "unat (r_at q) < unat (r_at z)" if "z \<in> set zs'" for z
      using assms(1) Cons that ok [of q] run_ok_less [of q] by (fastforce simp: before_def)
    ultimately show ?thesis using nb(2) Cons by (fastforce simp: before_def)
  qed simp
qed

text \<open>The branches of \<open>run_add\<close>, in terms of the runs \<open>ys\<close> before the new one and \<open>zs\<close> after it.\<close>

definition full_case :: "run \<Rightarrow> run list \<Rightarrow> run list \<Rightarrow> bool" where
  "full_case b ys zs \<longleftrightarrow> (ys = [] \<or> run_end (last ys) \<noteq> r_at b) \<and> (zs = [] \<or> run_end b \<noteq> r_at (hd zs))"

lemma run_add_join_both:
  assumes "runs s = (ys @ [p]) @ q # zs" "takeWhile (\<lambda>r. r_at r < at) (runs s) = ys @ [p]"
    "count \<noteq> 0" "run_end p = at" "at + count * PAGE = r_at q"
  shows "run_add at count s = s\<lparr>runs := ys @ p\<lparr>r_count := r_count p + count + r_count q\<rparr> # zs\<rparr>"
  using assms by (simp add: run_add_def Let_def nth_append list_update_append run_remove_def)

lemma run_add_join_prev:
  assumes "runs s = (ys @ [p]) @ zs" "takeWhile (\<lambda>r. r_at r < at) (runs s) = ys @ [p]"
    "count \<noteq> 0" "run_end p = at" "zs = [] \<or> at + count * PAGE \<noteq> r_at (hd zs)"
  shows "run_add at count s = s\<lparr>runs := ys @ p\<lparr>r_count := r_count p + count\<rparr> # zs\<rparr>"
  using assms by (cases zs) (simp_all add: run_add_def Let_def nth_append list_update_append)

lemma run_add_join_next:
  assumes "runs s = ys @ q # zs" "takeWhile (\<lambda>r. r_at r < at) (runs s) = ys"
    "count \<noteq> 0" "ys = [] \<or> run_end (last ys) \<noteq> at" "at + count * PAGE = r_at q"
  shows "run_add at count s = s\<lparr>runs := ys @ \<lparr>r_at = at, r_count = r_count q + count\<rparr> # zs\<rparr>"
  using assms by (cases ys rule: rev_cases) (simp_all add: run_add_def Let_def nth_append list_update_append)

lemma run_add_apart:
  assumes "runs s = ys @ zs" "takeWhile (\<lambda>r. r_at r < at) (runs s) = ys" "count \<noteq> 0"
    "full_case \<lparr>r_at = at, r_count = count\<rparr> ys zs"
  shows "run_add at count s =
    (if length (runs s) = RUNS then
       let rs = runs s; i = length ys; j = smallest rs
            in if at \<ge> LOOSE_FLOOR \<and> (r_at (rs ! j) < LOOSE_FLOOR \<or> r_count (rs ! j) \<ge> count) then
                 loosen at (unat count) s
               else
                 let s1 = run_remove j (loosen (r_at (rs ! j)) (unat (r_count (rs ! j))) s);
                     i' = (if j < i then i - 1 else i)
                 in insert_run i' \<lparr>r_at = at, r_count = count\<rparr> s1
     else s\<lparr>runs := ys @ \<lparr>r_at = at, r_count = count\<rparr> # zs\<rparr>)"
proof -
  have n1: "\<not> (length ys > 0 \<and> run_end (runs s ! (length ys - 1)) = at)"
    using assms(1,4) by (cases ys rule: rev_cases) (auto simp: full_case_def nth_append)
  have n2: "\<not> (length ys < length (runs s) \<and> at + count * PAGE = r_at (runs s ! length ys))"
    using assms(1,4) by (cases zs) (auto simp: full_case_def run_end_def nth_append)
  have td: "take (length ys) (runs s) = ys" "drop (length ys) (runs s) = zs"
    using assms(1) by simp_all
  show ?thesis
    unfolding run_add_def Let_def assms(2) using assms(3) n1 n2
    by (simp only: if_False if_True not_False_eq_True insert_run_def td)
qed

lemma mem_inv_runs:
  assumes "mem_inv s" "runs_ok rs" "length rs \<le> RUNS" "runs_pages rs \<inter> loose_set s = {}"
  shows "mem_inv (s\<lparr>runs := rs\<rparr>)" "free_set (s\<lparr>runs := rs\<rparr>) = runs_pages rs \<union> loose_set s"
  using assms by (simp_all add: mem_inv_def free_set_def loose_ok_def loose_set_def loose_list_def)

text \<open>What adding a block promises: \<open>added b s s'\<close>.\<close>

definition added :: "run \<Rightarrow> 'a mem_scheme \<Rightarrow> 'a mem_scheme \<Rightarrow> bool" where
  "added b s s' \<longleftrightarrow> mem_inv s' \<and> free_set s' \<subseteq> free_set s \<union> run_pages b \<and>
     {p \<in> free_set s \<union> run_pages b. 2 ^ 30 \<le> p} \<subseteq> free_set s' \<and>
     (length (runs s) < RUNS \<longrightarrow> free_set s' = free_set s \<union> run_pages b)"

lemma added_runs:
  assumes "mem_inv s" "run_pages b \<inter> free_set s = {}"
    "runs_ok rs" "length rs \<le> RUNS" "runs_pages rs = runs_pages (runs s) \<union> run_pages b"
  shows "added b s (s\<lparr>runs := rs\<rparr>)"
proof -
  have "runs_pages rs \<inter> loose_set s = {}"
    using assms(1,2,5) by (auto simp: mem_inv_def free_set_def)
  from mem_inv_runs [OF assms(1,3,4) this] show ?thesis
    using assms(5) by (auto simp: added_def free_set_def)
qed

lemma before_join:
  assumes "run_ok p" "run_ok b" "run_stop p = unat (r_at b)"
  shows "before r (p\<lparr>r_count := r_count p + r_count b\<rparr>) = before r p"
    "before (p\<lparr>r_count := r_count p + r_count b\<rparr>) r = before b r"
  using run_join [OF assms] by (simp_all add: before_def)

lemma remove_index:
  assumes "j < length rs" "rs = ys @ zs"
  obtains ys' zs' where "take j rs @ drop (Suc j) rs = ys' @ zs'" "set ys' \<subseteq> set ys" "set zs' \<subseteq> set zs"
    "length ys' = (if j < length ys then length ys - 1 else length ys)"
proof (cases "j < length ys")
  case True
  show ?thesis
    by (rule that [of "take j ys @ drop (Suc j) ys" zs])
      (use True assms in \<open>auto dest: in_set_takeD in_set_dropD\<close>)
next
  case False
  show ?thesis
    by (rule that [of ys "take (j - length ys) zs @ drop (Suc j - length ys) zs"])
      (use False assms in \<open>auto dest: in_set_takeD in_set_dropD\<close>)
qed

lemma split_at: "j < length rs \<Longrightarrow> rs = take j rs @ rs ! j # drop (Suc j) rs"
  by (rule id_take_nth_drop)

lemma before_disjoint: "before r q \<Longrightarrow> run_pages r \<inter> run_pages q = {}"
  by (auto simp: before_def run_pages_def span_def)

lemma remove_run:
  assumes "runs_ok (xs @ r # zs)"
  shows "run_ok r" "runs_ok (xs @ zs)" "run_pages r \<inter> runs_pages (xs @ zs) = {}"
proof -
  show "run_ok r" "runs_ok (xs @ zs)" using assms by auto
  have "run_pages r \<inter> run_pages q = {}" if "q \<in> set (xs @ zs)" for q
    using assms that before_disjoint [of q r] before_disjoint [of r q] by auto
  then show "run_pages r \<inter> runs_pages (xs @ zs) = {}" by (auto simp: runs_pages_def)
qed

lemma run_span: "span (unat (r_at r)) (unat (r_at r) + 4096 * unat (r_count r)) = run_pages r"
  by (simp add: run_pages_def run_stop_def)

lemma loosen_run:
  assumes "loose_ok s" "run_ok r" "run_pages r \<inter> loose_set s = {}"
  shows "loose_ok (loosen (r_at r) (unat (r_count r)) s)"
    "loose_set (loosen (r_at r) (unat (r_count r)) s) = loose_set s \<union> {p \<in> run_pages r. 2 ^ 30 \<le> p}"
    "runs (loosen (r_at r) (unat (r_count r)) s) = runs s"
  using loosen [OF assms(1), of "r_at r" "unat (r_count r)"] assms(2,3)
  by (simp_all add: run_span run_ok_def run_stop_def)

lemma added_loosened:
  assumes inv: "mem_inv s" and b: "run_ok b" and disj: "run_pages b \<inter> free_set s = {}"
    and full: "length (runs s) = RUNS" and high: "2 ^ 30 \<le> unat (r_at b)"
  shows "added b s (loosen (r_at b) (unat (r_count b)) s)"
proof -
  have "{p \<in> run_pages b. 2 ^ 30 \<le> p} = run_pages b"
    using high by (auto simp: run_pages_def span_def)
  moreover have "loose_ok s" "run_pages b \<inter> loose_set s = {}"
    using inv disj by (auto simp: mem_inv_def free_set_def)
  ultimately show ?thesis
    using loosen_run [of s b] b disj inv full
    by (auto simp: added_def mem_inv_def free_set_def)
qed

lemma added_replacing:
  assumes inv: "mem_inv s" and b: "run_ok b" and disj: "run_pages b \<inter> free_set s = {}"
    and rs: "runs s = ys @ zs" and ys: "\<forall>y \<in> set ys. before y b" and zs: "\<forall>z \<in> set zs. before b z"
    and full: "length (runs s) = RUNS" and j: "j < RUNS"
  shows "added b s (insert_run (if j < length ys then length ys - 1 else length ys) b
     (run_remove j (loosen (r_at (runs s ! j)) (unat (r_count (runs s ! j))) s)))"
proof -
  let ?r = "runs s ! j" and ?rs = "take j (runs s) @ drop (Suc j) (runs s)"
  let ?s = "loosen (r_at ?r) (unat (r_count ?r)) s"
  have split: "runs s = take j (runs s) @ ?r # drop (Suc j) (runs s)"
    using j full by (simp add: id_take_nth_drop)
  have ok: "runs_ok (take j (runs s) @ ?r # drop (Suc j) (runs s))" "loose_ok s"
    "runs_pages (runs s) \<inter> loose_set s = {}"
    using inv split by (simp_all add: mem_inv_def)
  note r = remove_run [OF ok(1)]
  have pages: "runs_pages (runs s) = run_pages ?r \<union> runs_pages ?rs"
    using split by (metis Un_left_commute runs_pages_simps(2,3))
  have lo: "loose_ok ?s" "loose_set ?s = loose_set s \<union> {p \<in> run_pages ?r. 2 ^ 30 \<le> p}" "runs ?s = runs s"
    using loosen_run [OF ok(2) r(1)] ok(3) pages by auto
  obtain ys' zs' where sub: "?rs = ys' @ zs'" "set ys' \<subseteq> set ys" "set zs' \<subseteq> set zs"
    "length ys' = (if j < length ys then length ys - 1 else length ys)"
    using remove_index [of j "runs s" ys zs] rs j full by metis
  let ?new = "?s\<lparr>runs := ys' @ b # zs'\<rparr>"
  have "insert_run (length ys') b (run_remove j ?s) = ?new"
    by (simp add: insert_run_def run_remove_def lo(3) sub(1))
  moreover have "runs_ok (ys' @ b # zs')"
    using r(2) b ys zs sub(2,3) unfolding sub(1) by auto
  moreover have "length (ys' @ b # zs') = RUNS"
    using arg_cong [OF sub(1), of length] full j by (simp add: RUNS_def)
  moreover have rp: "runs_pages (ys' @ b # zs') = runs_pages ?rs \<union> run_pages b"
    unfolding sub(1) by auto
  moreover have "loose_set ?new = loose_set ?s" "loose_ok ?new"
    using lo(1) by (simp_all add: loose_set_def loose_list_def loose_ok_def)
  ultimately show ?thesis
    using disj lo(2) pages r(3) ok(3) full
    unfolding added_def mem_inv_def free_set_def sub(4) [symmetric] by auto
qed

lemma run_add_added:
  assumes inv: "mem_inv s" and b: "run_ok \<lparr>r_at = at, r_count = count\<rparr>"
    and disj: "block at count \<inter> free_set s = {}"
  shows "added \<lparr>r_at = at, r_count = count\<rparr> s (run_add at count s)"
proof -
  let ?b = "\<lparr>r_at = at, r_count = count\<rparr>"
  define ys where "ys = takeWhile (\<lambda>r. r_at r < at) (runs s)"
  define zs where "zs = dropWhile (\<lambda>r. r_at r < at) (runs s)"
  have rs: "runs s = ys @ zs" and tw: "takeWhile (\<lambda>r. r_at r < at) (runs s) = ys"
    by (simp_all add: ys_def zs_def)
  have c: "count \<noteq> 0" using b by (simp add: run_ok_def)
  have len: "length (ys @ zs) \<le> RUNS" using inv rs by (simp add: mem_inv_def)
  have ok: "runs_ok (ys @ zs)" using inv rs by (simp add: mem_inv_def)
  have dj: "run_pages ?b \<inter> runs_pages (ys @ zs) = {}" using disj rs by (auto simp: free_set_def)
  have lt: "\<forall>y \<in> set ys. r_at y < r_at ?b" by (auto simp: ys_def dest: set_takeWhileD)
  have ge: "zs \<noteq> [] \<longrightarrow> \<not> r_at (hd zs) < r_at ?b"
    using hd_dropWhile [of "\<lambda>r. r_at r < at" "runs s"] by (auto simp: zs_def)
  note nb = neighbours [OF ok b dj lt ge] and nbs = neighbours_strict [OF ok b dj lt ge]
  note upd = added_runs [OF inv disj]
  consider (both) xs p q ws where "ys = xs @ [p]" "zs = q # ws" "run_end p = at" "run_end ?b = r_at q"
    | (prev) xs p where "ys = xs @ [p]" "run_end p = at" "zs = [] \<or> run_end ?b \<noteq> r_at (hd zs)"
    | (nxt) q ws where "zs = q # ws" "run_end ?b = r_at q" "ys = [] \<or> run_end (last ys) \<noteq> at"
    | (apart) "full_case ?b ys zs"
    unfolding full_case_def by (cases ys rule: rev_cases; cases zs) auto
  then show ?thesis
  proof cases
    case both
    have p: "run_ok p" "run_ok q" using ok both(1,2) by auto
    define j where "j = p\<lparr>r_count := r_count p + r_count ?b\<rparr>"
    define k where "k = j\<lparr>r_count := r_count j + r_count q\<rparr>"
    have "run_stop p = unat (r_at ?b)" using both(3) unat_run_end [OF p(1)] by simp
    note j = run_join [OF p(1) b this, folded j_def]
    have "run_stop j = unat (r_at q)" using j(2) both(4) unat_run_end [OF b] by simp
    note k = run_join [OF j(1) p(2) this, folded k_def]
    have eq: "run_add at count s = s\<lparr>runs := xs @ k # ws\<rparr>"
      using run_add_join_both [of s xs p q ws at count] rs tw c both
      by (simp add: run_end_def k_def j_def)
    show ?thesis unfolding eq
      using ok len k(1,2) by (intro upd) (auto simp: rs both(1,2) k(3,4) j(3,4) before_def)
  next
    case prev
    have p: "run_ok p" using ok prev(1) by auto
    define j where "j = p\<lparr>r_count := r_count p + r_count ?b\<rparr>"
    have "run_stop p = unat (r_at ?b)" using prev(2) unat_run_end [OF p] by simp
    note j = run_join [OF p b this, folded j_def]
    have eq: "run_add at count s = s\<lparr>runs := xs @ j # zs\<rparr>"
      using run_add_join_prev [of s xs p zs at count] rs tw c prev by (simp add: run_end_def j_def)
    show ?thesis unfolding eq
      using ok len j(1,2) nbs(2) [OF prev(3)] by (intro upd) (auto simp: rs prev(1) j(3,4) before_def)
  next
    case nxt
    have q: "run_ok q" using ok nxt(1) by auto
    define j where "j = ?b\<lparr>r_count := r_count ?b + r_count q\<rparr>"
    have "run_stop ?b = unat (r_at q)" using nxt(2) unat_run_end [OF b] by simp
    note j = run_join [OF b q this, folded j_def]
    have eq: "run_add at count s = s\<lparr>runs := ys @ j # ws\<rparr>"
      using run_add_join_next [of s ys q ws at count] rs tw c nxt
      by (simp add: run_end_def add.commute j_def)
    have "\<forall>y \<in> set ys. before y ?b" using nbs(1) nxt(3) by simp
    then show ?thesis unfolding eq
      using ok len j(1,2) by (intro upd) (auto simp: rs nxt(1) j(3,4) before_def)
  next
    case apart
    have ap: "\<forall>y \<in> set ys. before y ?b" "\<forall>z \<in> set zs. before ?b z"
      using nbs apart by (auto simp: full_case_def)
    note eq = run_add_apart [OF rs tw c apart, unfolded Let_def]
    show ?thesis
    proof (cases "length (runs s) = RUNS")
      case True
      note rep = added_replacing [OF inv b disj rs ap True smallest_less [OF True]]
      show ?thesis
        using rep added_loosened [OF inv b disj True] True
        unfolding eq by (simp add: word_nat)
    next
      case False
      have "added ?b s (s\<lparr>runs := ys @ ?b # zs\<rparr>)"
        using ok b ap len False by (intro upd) (auto simp: rs)
      then show ?thesis using False unfolding eq by simp
    qed
  qed
qed

subsection \<open>Taking from a run\<close>

lemma find_down_Some:
  "find_down P rs n = Some i \<Longrightarrow> i < n \<and> P (rs ! i) \<and> (\<forall>k. i < k \<and> k < n \<longrightarrow> \<not> P (rs ! k))"
  by (induction n) (auto split: if_splits simp: less_Suc_eq)

lemma find_down_None: "find_down P rs n = None \<Longrightarrow> \<forall>k < n. \<not> P (rs ! k)"
  by (induction n) (auto split: if_splits simp: less_Suc_eq)

lemma cut_top:
  assumes inv: "mem_inv s" and i: "i < length (runs s)" and n: "count \<noteq> 0" "count \<le> r_count (runs s ! i)"
    and cut: "cut_top count i s = (at, s')"
  shows "run_ok \<lparr>r_at = at, r_count = count\<rparr>" "mem_inv s'" "block at count \<subseteq> runs_pages (runs s)"
    "runs_pages (runs s') = runs_pages (runs s) - block at count" "loose_set s' = loose_set s"
    "unat at + 4096 * unat count = run_stop (runs s ! i)" "length (runs s') \<le> length (runs s)"
    "loose s' = loose s"
proof -
  define r where "r = runs s ! i"
  define xs where "xs = take i (runs s)"
  define zs where "zs = drop (Suc i) (runs s)"
  define q where "q = r\<lparr>r_count := r_count r - count\<rparr>"
  define b where "b = \<lparr>r_at = at, r_count = count\<rparr>"
  have rs: "runs s = xs @ r # zs" using i by (simp add: xs_def zs_def r_def id_take_nth_drop)
  have ok: "runs_ok (xs @ r # zs)" "loose_ok s" "runs_pages (runs s) \<inter> loose_set s = {}" "length (runs s) \<le> RUNS"
    using inv rs by (auto simp: mem_inv_def)
  note rem = remove_run [OF ok(1)]
  have le: "unat count \<le> unat (r_count r)" using n(2) by (simp add: word_nat r_def)
  have cnt: "unat (r_count r - count) = unat (r_count r) - unat count"
    using le by (simp add: unat_sub_le word_nat)
  have at: "at = r_at r + (r_count r - count) * PAGE" and
    s': "s' = s\<lparr>runs := xs @ (if r_count r - count = 0 then [] else [q]) @ zs\<rparr>"
    using cut i unfolding cut_top_def Let_def r_def [symmetric]
    by (auto simp: run_end_def run_remove_def q_def xs_def zs_def upd_conv_take_nth_drop split: if_splits)
  have ua: "unat at = unat (r_at r) + 4096 * (unat (r_count r) - unat count)"
    using rem(1) cnt unfolding at by (subst unat_pages) (auto simp: run_ok_def run_stop_def)
  have stop: "unat at + 4096 * unat count = run_stop r"
    using ua le by (simp add: run_stop_def algebra_simps)
  then show "unat at + 4096 * unat count = run_stop (runs s ! i)" by (simp add: r_def)
  have bstop: "run_stop b = run_stop r" using stop by (simp add: run_stop_def b_def)
  have al: "page_aligned (unat at)" unfolding ua using rem(1) by (simp add: run_ok_def)
  show b: "run_ok \<lparr>r_at = at, r_count = count\<rparr>"
    using rem(1) n(1) al bstop ua unfolding b_def by (auto simp: run_ok_def unat_eq_zero)
  have qstop: "run_stop q = unat at" using ua cnt by (simp add: run_stop_def q_def)
  have qat: "unat (r_at q) = unat (r_at r)" by (simp add: q_def)
  have pages: "run_pages r = run_pages q \<union> run_pages b" "run_pages q \<inter> run_pages b = {}"
    using qstop qat bstop ua stop
    by (auto simp: run_pages_def span_def b_def)
  have empty: "r_count r - count = 0 \<Longrightarrow> run_pages q = {}"
    by (auto simp: run_pages_def span_def run_stop_def q_def)
  have rs': "runs_pages (runs s) = runs_pages (xs @ zs) \<union> run_pages q \<union> run_pages b"
    unfolding rs using pages(1) by auto
  have rs'': "runs_pages (runs s') = runs_pages (xs @ zs) \<union> run_pages q"
    unfolding s' using empty by auto
  show "block at count \<subseteq> runs_pages (runs s)" using rs' by (auto simp: b_def)
  show "runs_pages (runs s') = runs_pages (runs s) - block at count"
    using rs' rs'' rem(3) pages unfolding b_def by auto
  have q: "r_count r - count \<noteq> 0 \<Longrightarrow> run_ok q"
    using rem(1) qstop stop by (auto simp: run_ok_def q_def)
  have "runs_ok (runs s')"
    using ok(1) q qstop qat stop unfolding s' by (auto simp: before_def)
  moreover have "length (runs s') \<le> RUNS"
    using ok(4) i unfolding s' by (auto simp: xs_def zs_def)
  ultimately show "mem_inv s'"
    using ok(2,3) rs' rs'' unfolding s' by (auto simp: mem_inv_def loose_ok_def loose_set_def loose_list_def)
  show "loose_set s' = loose_set s" "loose s' = loose s" unfolding s' by (simp_all add: loose_set_def loose_list_def)
  show "length (runs s') \<le> length (runs s)" unfolding s' using i by (auto simp: xs_def zs_def)
qed

lemma span_empty: "b \<le> a \<Longrightarrow> span a b = {}"
  by (simp add: span_def)

lemma span_one: "page_aligned a \<Longrightarrow> span a (a + 4096) = {a}"
  using span_Suc [of a 0] by (simp add: span_empty)

lemma block_one: "page_aligned (unat p) \<Longrightarrow> block p 1 = {unat p}"
  by (simp add: run_pages_def run_stop_def span_one)

lemma loose_page_run: "loose_page p \<Longrightarrow> run_ok \<lparr>r_at = p, r_count = 1\<rparr>"
  using loose_page_nonzero [of p] by (simp add: loose_page_def run_ok_def run_stop_def)

lemma loose_set_pages: "loose_ok s \<Longrightarrow> p \<in> loose_set s \<Longrightarrow> 2 ^ 30 \<le> p \<and> page_aligned p"
  by (auto simp: loose_set_def loose_ok_def loose_page_def word_nat)

lemma run_add_room:
  assumes "mem_inv s" "run_ok \<lparr>r_at = at, r_count = count\<rparr>" "block at count \<inter> free_set s = {}"
    "length (runs s) < RUNS"
  shows "mem_inv (run_add at count s)" "free_set (run_add at count s) = free_set s \<union> block at count"
  using run_add_added [OF assms(1-3)] assms(4) by (simp_all add: added_def)

text \<open>Everything of the state that taking and adding pages leaves alone.\<close>

definition rest :: "'a mem_scheme \<Rightarrow> bool \<times> run list \<times> u64 \<times> u64 \<times> 'a" where
  "rest s = (ours s, kept_low s, ram_kib s, reclaimed_kib s, mem.more s)"

lemma rest_upd [simp]:
  "rest (s\<lparr>runs := a\<rparr>) = rest s" "rest (s\<lparr>words := w\<rparr>) = rest s" "rest (s\<lparr>loose := b\<rparr>) = rest s"
  "rest (s\<lparr>loose_count := c\<rparr>) = rest s"
  by (simp_all add: rest_def)

lemma loosen_ours [simp]: "ours (loosen at n s) = ours s" "rest (loosen at n s) = rest s"
  by (induction n arbitrary: at s) simp_all

lemma run_add_ours [simp]: "ours (run_add at count s) = ours s" "rest (run_add at count s) = rest s"
  by (simp_all add: run_add_def Let_def run_remove_def insert_run_def)

lemma run_add_loose:
  "length (runs s) < RUNS \<Longrightarrow> loose_list (run_add at count s) = loose_list s"
  by (simp add: run_add_def Let_def run_remove_def insert_run_def loose_list_def)

lemma cut_top_ours: "cut_top n i s = (at, s') \<Longrightarrow> ours s' = ours s \<and> rest s' = rest s"
  by (auto simp: cut_top_def Let_def run_remove_def split: if_splits)

lemma pop_loose_mem:
  assumes "mem_inv s" "loose s \<noteq> 0" "pop_loose s = (p, s')"
  shows "mem_inv s'" "loose_page p" "p \<noteq> 0" "runs s' = runs s" "free_set s = insert (unat p) (free_set s')"
    "unat p \<notin> free_set s'" "loose_list s = p # loose_list s'" "ours s' = ours s" "rest s' = rest s"
proof -
  have ok: "loose_ok s" using assms(1) by (simp add: mem_inv_def)
  note pop = pop_loose [OF ok assms(2,3)]
  show "loose_list s = p # loose_list s'" "loose_page p" "p \<noteq> 0" "runs s' = runs s" by (rule pop)+
  have sub: "loose_set s = insert (unat p) (loose_set s')" using pop(2) by (simp add: loose_set_def)
  have "unat p \<notin> loose_set s'"
    using ok pop(2) by (auto simp: loose_set_def loose_ok_def simp flip: word_unat_eq_iff)
  then show "free_set s = insert (unat p) (free_set s')" "unat p \<notin> free_set s'" "mem_inv s'"
    using assms(1) sub pop(1,5) by (auto simp: free_set_def mem_inv_def)
  show "ours s' = ours s" "rest s' = rest s" using assms(3) by (auto simp: pop_loose_def Let_def)
qed

lemma fill_loose:
  assumes "mem_inv s"
  shows "mem_inv (fill_loose s)" "free_set (fill_loose s) = free_set s" "ours (fill_loose s) = ours s"
    "rest (fill_loose s) = rest s"
proof -
  let ?P = "\<lambda>r. r_count r \<ge> LOOSE_FILL \<and> run_end r > LOOSE_FLOOR + LOOSE_FILL * PAGE"
  have "mem_inv (fill_loose s) \<and> free_set (fill_loose s) = free_set s \<and> ours (fill_loose s) = ours s \<and>
    rest (fill_loose s) = rest s"
  proof (cases "find_down ?P (runs s) (length (runs s))")
    case None
    then show ?thesis using assms by (simp add: fill_loose_def)
  next
    case (Some i)
    then have i: "i < length (runs s)" "LOOSE_FILL \<le> r_count (runs s ! i)"
      "LOOSE_FLOOR + LOOSE_FILL * PAGE < run_end (runs s ! i)"
      using find_down_Some [OF Some] by auto
    obtain at s1 where cut: "cut_top LOOSE_FILL i s = (at, s1)" by fastforce
    note c = cut_top [OF assms i(1) _ i(2) cut]
    have fill: "LOOSE_FILL \<noteq> 0" "unat LOOSE_FILL = 16" by (simp_all add: LOOSE_FILL_def)
    have "run_ok (runs s ! i)" using assms i(1) by (simp add: mem_inv_def runs_ok_def)
    then have "2 ^ 30 + 4096 * 16 < run_stop (runs s ! i)"
      using i(3) unat_run_end [of "runs s ! i"]
      by (simp add: word_nat mem_consts)
    then have high: "2 ^ 30 < unat at" using c(6) fill by simp
    then have "\<not> at < LOOSE_FLOOR" by (simp add: word_nat)
    then have eq: "fill_loose s = loosen at 16 s1"
      using Some cut fill by (simp add: fill_loose_def)
    have "{p \<in> block at LOOSE_FILL. 2 ^ 30 \<le> p} = block at LOOSE_FILL"
      using high by (auto simp: run_pages_def span_def)
    moreover have "loose_ok s1" "block at LOOSE_FILL \<inter> loose_set s1 = {}"
      using c(2,3,5) fill assms by (auto simp: mem_inv_def)
    ultimately show ?thesis
      using loosen_run [OF \<open>loose_ok s1\<close>, of "\<lparr>r_at = at, r_count = LOOSE_FILL\<rparr>"] c fill cut_top_ours [OF cut] assms
      unfolding eq by (auto simp: mem_inv_def free_set_def)
  qed
  then show "mem_inv (fill_loose s)" "free_set (fill_loose s) = free_set s" "ours (fill_loose s) = ours s"
    "rest (fill_loose s) = rest s"
    by simp_all
qed

lemma take_run_Some:
  assumes "mem_inv s" "count \<noteq> 0" "take_run count s = Some (at, s')"
  shows "mem_inv s'" "run_ok \<lparr>r_at = at, r_count = count\<rparr>" "block at count \<subseteq> free_set s"
    "free_set s' = free_set s - block at count" "ours s' = ours s" "rest s' = rest s"
proof -
  obtain i where i: "find_down (\<lambda>r. r_count r \<ge> count) (runs s) (length (runs s)) = Some i"
    and cut: "cut_top count i s = (at, s')"
    using assms(3) by (auto simp: take_run_def)
  have "i < length (runs s)" "count \<le> r_count (runs s ! i)" using find_down_Some [OF i] by auto
  note c = cut_top [OF assms(1) this(1) assms(2) this(2) cut]
  show "mem_inv s'" "run_ok \<lparr>r_at = at, r_count = count\<rparr>" by (rule c)+
  show "block at count \<subseteq> free_set s" "free_set s' = free_set s - block at count"
    using c assms(1) by (auto simp: free_set_def mem_inv_def)
  show "ours s' = ours s" "rest s' = rest s" using cut_top_ours [OF cut] by auto
qed

lemma take_run_None: "take_run count s = None \<Longrightarrow> \<forall>r \<in> set (runs s). r_count r < count"
  using find_down_None [of "\<lambda>r. r_count r \<ge> count" "runs s" "length (runs s)"]
  by (auto simp: take_run_def in_set_conv_nth not_le)

lemma drain_ends:
  "mem_inv s \<Longrightarrow> \<exists>s'. drain s = Some s' \<and> mem_inv s' \<and> free_set s' = free_set s \<and> ours s' = ours s \<and>
     rest s' = rest s \<and> (loose s' = 0 \<or> length (runs s') = RUNS - 1 \<or> length (runs s') = RUNS)"
proof (induction "length (loose_list s)" arbitrary: s rule: less_induct)
  case less
  show ?case
  proof (cases "loose s \<noteq> 0 \<and> length (runs s) < RUNS - 1")
    case True
    obtain p s1 where pop: "pop_loose s = (p, s1)" by fastforce
    note p = pop_loose_mem [OF less.prems _ pop]
    have blk: "block p 1 = {unat p}" using p(2) True by (simp add: block_one loose_page_def)
    have room: "length (runs s1) < RUNS" using p(4) True by (simp add: RUNS_def)
    have add: "mem_inv (run_add p 1 s1)" "free_set (run_add p 1 s1) = free_set s"
      using run_add_room [OF p(1) loose_page_run [OF p(2)]] p(5,6) True blk room by auto
    have "length (loose_list (run_add p 1 s1)) < length (loose_list s)"
      using run_add_loose [OF room] p(7) True by simp
    from less.hyps [OF this add(1)] show ?thesis
      using True pop add(2) p(8,9) by (subst drain.simps) auto
  next
    case False
    then show ?thesis using less.prems by (subst drain.simps) (auto simp: mem_inv_def)
  qed
qed

lemma loose_count_0: "loose_ok s \<Longrightarrow> loose_count s = 0 \<longleftrightarrow> loose s = 0"
  by (cases "loose_list s") (auto simp: loose_ok_def loose_list_def unat_eq_zero)

text \<open>What taking pages promises: the block is free memory, and stops being so.\<close>

definition taken :: "u64 \<Rightarrow> u64 \<Rightarrow> 'a mem_scheme \<Rightarrow> 'a mem_scheme \<Rightarrow> bool" where
  "taken at count s s' \<longleftrightarrow> mem_inv s' \<and> ours s' = ours s \<and> rest s' = rest s \<and>
     (if at = 0 then free_set s' = free_set s
      else run_ok \<lparr>r_at = at, r_count = count\<rparr> \<and> block at count \<subseteq> free_set s \<and>
           free_set s' = free_set s - block at count)"

lemma run_ok_at: "run_ok \<lparr>r_at = at, r_count = count\<rparr> \<Longrightarrow> at \<noteq> 0"
  by (simp add: run_ok_def)

lemma take_pages_taken:
  assumes inv: "mem_inv s" and "ours s" and n: "count \<noteq> 0"
  shows "\<exists>at s'. take_pages fw count s = Some (at, s') \<and> taken at count s s' \<and>
    (at = 0 \<longrightarrow> (\<forall>r \<in> set (runs s'). r_count r < count))"
proof -
  define s0 where "s0 = (if count = 1 \<and> loose s = 0 then fill_loose s else s)"
  have s: "mem_inv s0" "free_set s0 = free_set s" "ours s0 = ours s" "rest s0 = rest s"
    using fill_loose [OF inv] inv by (auto simp: s0_def)
  have tp: "take_pages fw count s =
      (if count = 1 \<and> loose s0 \<noteq> 0 then Some (pop_loose s0)
       else case take_run count s0 of
         Some r \<Rightarrow> Some r
       | None \<Rightarrow>
           if loose_count s0 = 0 then Some (0, s0)
           else drain s0 \<bind> (\<lambda>s2. case take_run count s2 of Some r \<Rightarrow> Some r | None \<Rightarrow> Some (0, s2)))"
    unfolding take_pages_def Let_def s0_def [symmetric] using assms(2) by simp
  show ?thesis
  proof (cases "count = 1 \<and> loose s0 \<noteq> 0")
    case True
    obtain p s1 where pop: "pop_loose s0 = (p, s1)" by fastforce
    note p = pop_loose_mem [OF s(1) conjunct2 [OF True] pop]
    have "block p count = {unat p}" using p(2) True by (simp add: block_one loose_page_def)
    then have "taken p count s s1"
      using p s loose_page_run [OF p(2)] True by (auto simp: taken_def)
    moreover have "take_pages fw count s = Some (p, s1)" using True pop unfolding tp by simp
    ultimately show ?thesis using p(3) by blast
  next
    case False
    note run = take_run_Some [OF s(1) n]
    show ?thesis
    proof (cases "take_run count s0")
      case (Some r)
      then have "taken (fst r) count s (snd r)"
        using run [of "fst r" "snd r"] s run_ok_at by (auto simp: taken_def)
      moreover have "fst r \<noteq> 0" using Some run(2) [of "fst r" "snd r"] run_ok_at by simp
      moreover have "take_pages fw count s = Some r"
        using Some False unfolding tp by auto
      ultimately show ?thesis by (intro exI [of _ "fst r"] exI [of _ "snd r"]) simp
    next
      case None
      show ?thesis
      proof (cases "loose_count s0 = 0")
        case True
        then have "take_pages fw count s = Some (0, s0)" using None False unfolding tp by auto
        then show ?thesis using s take_run_None [OF None] by (auto simp: taken_def)
      next
        case loose: False
        obtain s2 where d: "drain s0 = Some s2" "mem_inv s2" "free_set s2 = free_set s" "ours s2 = ours s"
          "rest s2 = rest s"
          using drain_ends [OF s(1)] s by auto
        have eq: "take_pages fw count s = (case take_run count s2 of Some r \<Rightarrow> Some r | None \<Rightarrow> Some (0, s2))"
          using None False loose d(1) unfolding tp by auto
        show ?thesis
        proof (cases "take_run count s2")
          case None
          then show ?thesis using eq d take_run_None [OF None] by (auto simp: taken_def)
        next
          case (Some r)
          note run2 = take_run_Some [OF d(2) n, of "fst r" "snd r"]
          have "taken (fst r) count s (snd r)" "fst r \<noteq> 0"
            using Some run2 d run_ok_at by (auto simp: taken_def)
          then show ?thesis using eq Some by (intro exI [of _ "fst r"] exI [of _ "snd r"]) simp
        qed
      qed
    qed
  qed
qed

end
