(* ===== verification/Pages.thy ===== *)
theory Pages
  imports PageAlloc
begin

text \<open>
  What the callers of the page allocator rely on: taking one page, taking below a limit, giving
  back, the search that makes the disk cache shrink, and the count of free memory.
\<close>

section \<open>The words of pages in use\<close>

text \<open>The allocator writes only to pages that are free, or being given back.\<close>

lemma loosen_words:
  "page_aligned (unat at) \<Longrightarrow> unat at + 4096 * n < 2 ^ 64 \<Longrightarrow> unat p \<notin> span (unat at) (unat at + 4096 * n) \<Longrightarrow>
   words (loosen at n s) p = words s p"
proof (induction n arbitrary: at s)
  case (Suc n)
  have "unat (at + PAGE) = unat at + 4096" using Suc.prems(2) by (intro unat_next_page) simp
  moreover have "p \<noteq> at" "unat p \<notin> span (unat at + 4096) (unat at + 4096 + 4096 * n)"
    using Suc.prems(3) span_Suc [OF Suc.prems(1), of n] by auto
  ultimately show ?case using Suc.IH [of "at + PAGE"] Suc.prems(1,2) by simp
qed simp

lemma loosen_run_words:
  "run_ok r \<Longrightarrow> unat p \<notin> run_pages r \<Longrightarrow> words (loosen (r_at r) (unat (r_count r)) s) p = words s p"
  using loosen_words [of "r_at r" "unat (r_count r)" p s] by (simp add: run_ok_def run_stop_def run_span)

lemma run_add_words:
  assumes inv: "mem_inv s" and b: "run_ok \<lparr>r_at = at, r_count = count\<rparr>" and p: "unat p \<notin> free_set s \<union> block at count"
  shows "words (run_add at count s) p = words s p"
proof -
  define j where "j = smallest (runs s)"
  have small: "words (loosen (r_at (runs s ! j)) (unat (r_count (runs s ! j))) s) p = words s p" if "length (runs s) = RUNS"
  proof -
    have "j < length (runs s)" using smallest_less [OF that] that by (simp add: j_def)
    then have "run_ok (runs s ! j)" "run_pages (runs s ! j) \<subseteq> free_set s"
      using inv by (auto simp: mem_inv_def runs_ok_def free_set_def runs_pages_def)
    then show ?thesis using p by (intro loosen_run_words) auto
  qed
  have "words (loosen at (unat count) s) p = words s p"
    using loosen_run_words [OF b, of p s] p by simp
  moreover have "RUNS \<noteq> 0" by (simp add: RUNS_def)
  ultimately show ?thesis
    using small unfolding run_add_def Let_def j_def [symmetric] by (simp add: run_remove_def insert_run_def)
qed

lemma cut_top_words: "words (snd (cut_top n i s)) = words s"
  by (simp add: cut_top_def Let_def run_remove_def)

lemma fill_loose_words:
  assumes inv: "mem_inv s" and p: "unat p \<notin> free_set s"
  shows "words (fill_loose s) p = words s p"
proof -
  let ?P = "\<lambda>r. r_count r \<ge> LOOSE_FILL \<and> run_end r > LOOSE_FLOOR + LOOSE_FILL * PAGE"
  show ?thesis
  proof (cases "find_down ?P (runs s) (length (runs s))")
    case None
    then show ?thesis by (simp add: fill_loose_def)
  next
    case (Some i)
    then have i: "i < length (runs s)" "LOOSE_FILL \<le> r_count (runs s ! i)" using find_down_Some [OF Some] by auto
    obtain at s1 where cut: "cut_top LOOSE_FILL i s = (at, s1)" by fastforce
    have fill: "LOOSE_FILL \<noteq> 0" by (simp add: LOOSE_FILL_def)
    note c = cut_top [OF inv i(1) fill i(2) cut]
    have w: "words s1 = words s" using cut_top_words [of LOOSE_FILL i s] cut by simp
    have "unat p \<notin> free_set s1 \<union> block at LOOSE_FILL" using p c(3,4,5) by (auto simp: free_set_def)
    then have "words (run_add at LOOSE_FILL s1) p = words s p" "words (loosen at (unat LOOSE_FILL) s1) p = words s p"
      using run_add_words [OF c(2,1)] loosen_run_words [OF c(1), of p s1] w by auto
    then show ?thesis using Some cut by (simp add: fill_loose_def)
  qed
qed

lemma pop_loose_words: "words (snd (pop_loose s)) = words s"
  by (simp add: pop_loose_def Let_def)

lemma drain_words:
  "mem_inv s \<Longrightarrow> drain s = Some t \<Longrightarrow> unat p \<notin> free_set s \<Longrightarrow> words t p = words s p"
proof (induction "length (loose_list s)" arbitrary: s rule: less_induct)
  case less
  show ?case
  proof (cases "loose s \<noteq> 0 \<and> length (runs s) < RUNS - 1")
    case True
    obtain q s1 where pop: "pop_loose s = (q, s1)" by fastforce
    note q = pop_loose_mem [OF less.prems(1) _ pop]
    have blk: "block q 1 = {unat q}" using q(2) True by (simp add: block_one loose_page_def)
    have room: "length (runs s1) < RUNS" using q(4) True by (simp add: RUNS_def)
    have add: "mem_inv (run_add q 1 s1)" "free_set (run_add q 1 s1) = free_set s"
      using run_add_room [OF q(1) loose_page_run [OF q(2)]] q(5,6) True blk room by auto
    have lt: "length (loose_list (run_add q 1 s1)) < length (loose_list s)"
      using run_add_loose [OF room] q(7) True by simp
    have dr: "drain (run_add q 1 s1) = Some t" using less.prems(2) True pop by (subst (asm) drain.simps) simp
    have "words t p = words (run_add q 1 s1) p"
      using less.hyps [OF lt add(1) dr] add(2) less.prems(3) by simp
    also have "\<dots> = words s1 p"
      using q(5) True less.prems(3) blk by (intro run_add_words [OF q(1) loose_page_run [OF q(2)]]) auto
    finally show ?thesis using pop_loose_words [of s] pop by simp
  next
    case False
    then show ?thesis using less.prems(2) by (subst (asm) drain.simps) auto
  qed
qed

lemma take_run_words: "take_run n s = Some (at, t) \<Longrightarrow> words t = words s"
  using cut_top_words [of n _ s] by (auto simp: take_run_def) (metis snd_conv)

lemma take_pages_words:
  assumes inv: "mem_inv s" and o: "ours s" and t: "take_pages fw count s = Some (at, t)" and p: "unat p \<notin> free_set s"
  shows "words t p = words s p"
proof -
  define s1 where "s1 = (if count = 1 \<and> loose s = 0 then fill_loose s else s)"
  have s1: "mem_inv s1" "free_set s1 = free_set s" "words s1 p = words s p"
    using fill_loose [OF inv] fill_loose_words [OF inv p] inv by (auto simp: s1_def)
  have eq: "Some (at, t) = (if count = 1 \<and> loose s1 \<noteq> 0 then Some (pop_loose s1)
      else case take_run count s1 of Some r \<Rightarrow> Some r
        | None \<Rightarrow> if loose_count s1 = 0 then Some (0, s1)
            else drain s1 \<bind> (\<lambda>s2. case take_run count s2 of Some r \<Rightarrow> Some r | None \<Rightarrow> Some (0, s2)))"
    using t unfolding take_pages_def Let_def s1_def [symmetric] using o by simp
  have d: "words s2 p = words s1 p" if "drain s1 = Some s2" for s2
    using drain_words [OF s1(1) that] p s1(2) by simp
  have "words t p = words s1 p"
    using eq pop_loose_words [of s1] take_run_words [of count s1 at t] d take_run_words [of count _ at t]
    by (auto split: if_splits option.splits Option.bind_splits dest: sym)
  then show ?thesis using s1(3) by simp
qed

lemma mem_pages_free_words:
  assumes "mem_inv s" "ours s" "run_ok \<lparr>r_at = at, r_count = count\<rparr>" "unat p \<notin> free_set s \<union> block at count"
  shows "words (mem_pages_free fw at count s) p = words s p"
  using run_add_words [OF assms(1,3,4)] loosen_run_words [OF assms(3), of p s] assms(2,4)
  by (auto simp: mem_pages_free_def)

section \<open>Taking one page\<close>

lemma block_Suc:
  assumes "run_ok \<lparr>r_at = at, r_count = n\<rparr>"
  shows "block at n = insert (unat at) (block (at + PAGE) (n - 1))"
    "unat at \<notin> block (at + PAGE) (n - 1)"
    "n - 1 \<noteq> 0 \<Longrightarrow> run_ok \<lparr>r_at = at + PAGE, r_count = n - 1\<rparr>"
proof -
  have n: "unat at + 4096 * unat n < 2 ^ 64" "n \<noteq> 0" "page_aligned (unat at)" "at \<noteq> 0"
    using assms by (simp_all add: run_ok_def run_stop_def)
  have m: "unat (n - 1) = unat n - 1" "unat n > 0" using n(2) by (simp_all add: unat_pred unat_gt_0)
  have "unat at + 4096 < 2 ^ 64" using n(1) m(2) by linarith
  then have a: "unat (at + PAGE) = unat at + 4096" by (rule unat_next_page)
  obtain k where k: "unat n = Suc k" using m(2) gr0_implies_Suc by blast
  show "block at n = insert (unat at) (block (at + PAGE) (n - 1))"
    using span_Suc [OF n(3), of k] k m(1) by (simp add: run_pages_def run_stop_def a)
  show "unat at \<notin> block (at + PAGE) (n - 1)" by (simp add: run_pages_def span_def a)
  have "at + PAGE \<noteq> 0" using a unat_eq_zero [of "at + PAGE"] by auto
  then show "run_ok \<lparr>r_at = at + PAGE, r_count = n - 1\<rparr>" if "n - 1 \<noteq> 0"
    using that n k m(1) by (simp add: run_ok_def run_stop_def a)
qed

lemma holds_page_iff:
  "run_ok r \<Longrightarrow> page_aligned (unat page) \<Longrightarrow> holds_page page r \<longleftrightarrow> unat page \<in> run_pages r"
  by (auto simp: holds_page_def run_pages_def span_def word_nat unat_run_end)

lemma page_index:
  assumes "run_ok r" "unat page \<in> run_pages r"
  shows "(page - r_at r) div PAGE = r_count r - (run_end r - page) div PAGE"
    "(run_end r - page) div PAGE \<noteq> 0" "(run_end r - page) div PAGE \<le> r_count r"
    "r_at r + (r_count r - (run_end r - page) div PAGE) * PAGE = page"
proof -
  obtain k where k: "unat page = unat (r_at r) + 4096 * k"
    using assms by (auto simp: run_ok_def run_pages_def span_def page_aligned_def)
      (metis dvd_def dvd_diff_nat le_add_diff_inverse)
  have kn: "k < unat (r_count r)" using assms(2) k by (simp add: run_pages_def span_def run_stop_def)
  have stop: "run_stop r < 2 ^ 64" using assms(1) by (simp add: run_ok_def)
  have "unat (page - r_at r) = 4096 * k" using k by (subst unat_sub_le) (simp_all add: word_nat)
  then have a: "unat ((page - r_at r) div PAGE) = k" by (simp add: unat_div)
  have "unat (run_end r - page) = 4096 * (unat (r_count r) - k)"
    using k kn unat_run_end [OF assms(1)]
    by (subst unat_sub_le) (simp_all add: word_nat run_stop_def algebra_simps)
  then have b: "unat ((run_end r - page) div PAGE) = unat (r_count r) - k" by (simp add: unat_div)
  then show ne: "(run_end r - page) div PAGE \<noteq> 0" using kn by (metis unat_0 zero_less_diff less_irrefl)
  show le: "(run_end r - page) div PAGE \<le> r_count r" using b by (simp add: word_nat)
  have c: "unat (r_count r - (run_end r - page) div PAGE) = k"
    using b kn le by (subst unat_sub_le) (simp_all add: word_nat)
  then show "(page - r_at r) div PAGE = r_count r - (run_end r - page) div PAGE"
    using a by (simp add: word_unat_eq_iff)
  have "unat (r_at r) + 4096 * k < 2 ^ 64" using kn stop by (simp add: run_stop_def)
  then show "r_at r + (r_count r - (run_end r - page) div PAGE) * PAGE = page"
    unfolding word_unat_eq_iff using c k unat_pages [of "r_at r" "r_count r - (run_end r - page) div PAGE"] by simp
qed

lemma run_take_cut:
  assumes inv: "mem_inv s" and al: "page_aligned (unat page)"
  shows "unat page \<notin> runs_pages (runs s) \<Longrightarrow> run_take page s = (False, s)"
    "unat page \<in> runs_pages (runs s) \<Longrightarrow> \<exists>i n. i < length (runs s) \<and> n \<noteq> 0 \<and> n \<le> r_count (runs s ! i) \<and>
       unat page \<in> run_pages (runs s ! i) \<and> (page = r_at (runs s ! i) \<longrightarrow> n = r_count (runs s ! i)) \<and>
       fst (cut_top n i s) = page \<and> run_take page s = (True, run_add (page + PAGE) (n - 1) (snd (cut_top n i s)))"
proof -
  have ok: "\<forall>r \<in> set (runs s). run_ok r" using inv by (simp add: mem_inv_def runs_ok_def)
  have hp: "holds_page page r \<longleftrightarrow> unat page \<in> run_pages r" if "r \<in> set (runs s)" for r
    using that ok al holds_page_iff by blast
  define i where "i = length (takeWhile (\<lambda>r. \<not> holds_page page r) (runs s))"
  show "run_take page s = (False, s)" if "unat page \<notin> runs_pages (runs s)"
  proof -
    have tw: "takeWhile (\<lambda>r. \<not> holds_page page r) (runs s) = runs s"
      using that hp by (simp add: takeWhile_eq_all_conv runs_pages_def)
    show ?thesis unfolding run_take_def Let_def tw by simp
  qed
  assume "unat page \<in> runs_pages (runs s)"
  then obtain r where "r \<in> set (runs s)" "holds_page page r" using hp by (auto simp: runs_pages_def)
  then have i: "i < length (runs s)"
    unfolding i_def by (metis le_neq_implies_less length_takeWhile_le takeWhile_eq_all_conv takeWhile_eq_take take_all_iff order_refl)
  have h: "holds_page page (runs s ! i)"
    using i nth_length_takeWhile unfolding i_def by blast
  define r where "r = runs s ! i"
  have rok: "run_ok r" "unat page \<in> run_pages r" using ok i h hp [of r] by (auto simp: r_def)
  define n where "n = (run_end r - page) div PAGE"
  note idx = page_index [OF rok, folded n_def]
  have "run_take page s = (True, run_add (page + PAGE) (n - 1) (snd (cut_top n i s)))"
    unfolding run_take_def Let_def i_def [symmetric] r_def [symmetric] n_def [symmetric] cut_top_def
    using i idx(1) by simp
  moreover have "fst (cut_top n i s) = page"
    unfolding cut_top_def Let_def r_def [symmetric] using idx(4) by (simp add: run_end_def)
  ultimately show "\<exists>i n. i < length (runs s) \<and> n \<noteq> 0 \<and> n \<le> r_count (runs s ! i) \<and>
       unat page \<in> run_pages (runs s ! i) \<and> (page = r_at (runs s ! i) \<longrightarrow> n = r_count (runs s ! i)) \<and>
       fst (cut_top n i s) = page \<and> run_take page s = (True, run_add (page + PAGE) (n - 1) (snd (cut_top n i s)))"
    using i idx rok r_def by (intro exI [of _ i] exI [of _ n]) auto
qed

lemma run_add_start:
  assumes "length (runs s) < RUNS"
  shows "length (runs (run_add at n s)) < RUNS \<or> (\<exists>r \<in> set (runs (run_add at n s)). r_at r = at)"
proof -
  have "length (takeWhile (\<lambda>r. r_at r < at) (runs s)) \<le> length (runs s)" by (rule length_takeWhile_le)
  then show ?thesis
    using assms by (auto simp: run_add_def Let_def run_remove_def insert_run_def min_def)
qed

text \<open>
  A page comes off the list of runs when there is room in it for the two ends of the run it was in:
  always, unless the list is full and the page is in the middle of a run.
\<close>

definition can_split :: "u64 \<Rightarrow> 'a mem_scheme \<Rightarrow> bool" where
  "can_split page s \<longleftrightarrow> length (runs s) < RUNS \<or> (\<exists>r \<in> set (runs s). r_at r = page)"

lemma cut_whole_length:
  "i < length (runs s) \<Longrightarrow> cut_top (r_count (runs s ! i)) i s = (at, s') \<Longrightarrow> length (runs s') < length (runs s)"
  by (auto simp: cut_top_def Let_def run_remove_def)

lemma runs_page_unique:
  assumes "runs_ok rs" "r \<in> set rs" "q \<in> set rs" "p \<in> run_pages r" "p \<in> run_pages q"
  shows "q = r"
proof -
  obtain i j where ij: "i < length rs" "rs ! i = r" "j < length rs" "rs ! j = q"
    using assms(2,3) by (auto simp: in_set_conv_nth)
  have "\<not> before (rs ! i) (rs ! j)" "\<not> before (rs ! j) (rs ! i)"
    using assms(4,5) ij before_disjoint by auto
  then have "\<not> i < j" "\<not> j < i"
    using assms(1) ij sorted_wrt_nth_less unfolding runs_ok_def by blast+
  then show ?thesis using ij by (metis linorder_neqE_nat)
qed

lemma run_take_spec:
  assumes inv: "mem_inv s" and al: "page_aligned (unat page)" and pg: "unat page \<in> runs_pages (runs s)"
  shows "\<exists>s'. run_take page s = (True, s') \<and> mem_inv s' \<and> rest s' = rest s \<and> free_set s' \<subseteq> free_set s - {unat page} \<and>
     {p \<in> free_set s. 2 ^ 30 \<le> p \<and> p \<noteq> unat page} \<subseteq> free_set s' \<and>
     (can_split page s \<longrightarrow> free_set s' = free_set s - {unat page} \<and> loose_list s' = loose_list s \<and>
        can_split (page + PAGE) s')"
proof -
  obtain i n where i: "i < length (runs s)" "n \<noteq> 0" "n \<le> r_count (runs s ! i)" "fst (cut_top n i s) = page"
    and pi: "unat page \<in> run_pages (runs s ! i)" "page = r_at (runs s ! i) \<Longrightarrow> n = r_count (runs s ! i)"
    and rt: "run_take page s = (True, run_add (page + PAGE) (n - 1) (snd (cut_top n i s)))"
    using run_take_cut(2) [OF inv al pg] by blast
  define s1 where "s1 = snd (cut_top n i s)"
  have cut: "cut_top n i s = (page, s1)" using i(4) by (simp add: s1_def prod_eq_iff)
  note c = cut_top [OF inv i(1-3) cut] and bl = block_Suc [OF cut_top(1) [OF inv i(1-3) cut]]
  have ll: "loose_list s1 = loose_list s" and rst: "rest s1 = rest s"
    using cut by (auto simp: cut_top_def Let_def run_remove_def loose_list_def split: if_splits)
  have fs1: "free_set s1 = free_set s - block page n"
    using c(3,4,5) inv by (auto simp: free_set_def mem_inv_def)
  have inb: "block page n \<subseteq> free_set s" using c(3) by (auto simp: free_set_def)
  have room: "length (runs s1) < RUNS" if cs: "can_split page s"
  proof (cases "length (runs s) < RUNS")
    case False
    then obtain r where r: "r \<in> set (runs s)" "r_at r = page" using cs by (auto simp: can_split_def)
    have rok: "runs_ok (runs s)" using inv by (simp add: mem_inv_def)
    then have "unat page \<in> run_pages r" using run_ok_start [of r] r by (auto simp: runs_ok_def)
    then have "runs s ! i = r" using runs_page_unique [OF rok r(1) _ _ pi(1)] i(1) by simp
    then have "n = r_count (runs s ! i)" using pi(2) r(2) by simp
    then have "length (runs s1) < length (runs s)" using cut_whole_length [OF i(1)] cut by blast
    then show ?thesis using inv by (simp add: mem_inv_def)
  qed (use c(7) in simp)
  have add: "added \<lparr>r_at = page + PAGE, r_count = n - 1\<rparr> s1 (run_add (page + PAGE) (n - 1) s1)"
  proof (cases "n - 1 = 0")
    case True
    then show ?thesis using c(2) by (auto simp: added_def run_add_def run_pages_def span_def run_stop_def)
  next
    case False
    then show ?thesis using run_add_added [OF c(2) bl(3)] fs1 bl(1) by auto
  qed
  show ?thesis
    using add rt fs1 bl(1,2) inb rst ll run_add_loose [OF room] run_add_start [OF room, of "page + PAGE" "n - 1"] room
    unfolding s1_def [symmetric] added_def can_split_def
    by (intro exI [of _ "run_add (page + PAGE) (n - 1) s1"] conjI impI) auto
qed

lemma run_take_each_spec:
  "mem_inv s \<Longrightarrow> run_ok \<lparr>r_at = at, r_count = n\<rparr> \<Longrightarrow> block at n \<subseteq> runs_pages (runs s) \<Longrightarrow> can_split at s \<Longrightarrow>
     mem_inv (run_take_each at (unat n) s) \<and> rest (run_take_each at (unat n) s) = rest s \<and>
     free_set (run_take_each at (unat n) s) = free_set s - block at n"
proof (induction "unat n" arbitrary: at n s)
  case 0
  then show ?case by (simp add: run_ok_def unat_eq_zero)
next
  case (Suc k)
  have n0: "n \<noteq> 0" using Suc.hyps(2) by auto
  then have n: "unat (n - 1) = k" using Suc.hyps(2) unat_pred [of n] by simp
  note bl = block_Suc [OF Suc.prems(2)]
  have al: "page_aligned (unat at)" using Suc.prems(2) by (simp add: run_ok_def)
  have "unat at \<in> runs_pages (runs s)" using Suc.prems(3) bl(1) by auto
  from run_take_spec [OF Suc.prems(1) al this] Suc.prems(4) obtain s' where
    s': "run_take at s = (True, s')" "mem_inv s'" "rest s' = rest s" "free_set s' = free_set s - {unat at}"
      "loose_list s' = loose_list s" "can_split (at + PAGE) s'"
    by auto
  have step: "run_take_each at (unat n) s = run_take_each (at + PAGE) k s'"
    using Suc.hyps(2) s'(1) by (metis run_take_each.simps(2) snd_conv)
  have disj: "runs_pages (runs s) \<inter> loose_set s = {}" using Suc.prems(1) by (simp add: mem_inv_def)
  have ls: "loose_set s' = loose_set s" using s'(5) by (simp add: loose_set_def)
  have sub: "block (at + PAGE) (n - 1) \<subseteq> runs_pages (runs s')"
    using Suc.prems(3) bl(1,2) s'(4) disj unfolding free_set_def ls by blast
  show ?case
  proof (cases "n - 1 = 0")
    case True
    then have "k = 0" using n by simp
    then show ?thesis using step s' bl(1) True by (simp add: run_pages_def run_stop_def span_empty)
  next
    case False
    from Suc.hyps(1) [of "n - 1", OF _ s'(2) bl(3) [OF False] sub s'(6)] n show ?thesis
      using step s' bl(1) by auto
  qed
qed

lemma find_down_taken:
  assumes inv: "mem_inv s" and i: "i < length (runs s)" and n: "count \<noteq> 0"
    and e: "e = (if run_end (runs s ! i) > limit then limit else run_end (runs s ! i))"
    and fits: "e \<ge> r_at (runs s ! i) + count * PAGE" and small: "unat count < 2 ^ 51"
    and al: "page_aligned (unat limit)" and bnd: "unat (r_at (runs s ! i)) < 2 ^ 63"
  shows "run_ok \<lparr>r_at = e - count * PAGE, r_count = count\<rparr>"
    "block (e - count * PAGE) count \<subseteq> run_pages (runs s ! i)"
    "unat (e - count * PAGE) + 4096 * unat count \<le> unat limit"
proof -
  define r where "r = runs s ! i"
  have r: "run_ok r" using inv i by (simp add: r_def mem_inv_def runs_ok_def)
  have c: "unat (count * PAGE) = 4096 * unat count" using small by (subst unat_mult_small) simp_all
  have s: "unat (r_at r + count * PAGE) = unat (r_at r) + 4096 * unat count"
    using small bnd by (intro unat_pages) (simp add: r_def)
  have e1: "unat e \<le> run_stop r" "unat e \<le> unat limit" "page_aligned (unat e)"
    using e r al unat_run_end [OF r] run_stop_aligned [OF r] by (auto simp: r_def word_nat)
  have e2: "unat (r_at r) + 4096 * unat count \<le> unat e" using fits s by (simp add: word_nat r_def)
  have at: "unat (e - count * PAGE) = unat e - 4096 * unat count"
    using e2 c by (subst unat_sub_le) (simp_all add: word_nat)
  have ral: "page_aligned (unat (r_at r))" "r_at r \<noteq> 0" using r by (simp_all add: run_ok_def)
  have ge: "unat (r_at r) \<le> unat (e - count * PAGE)" using at e2 by simp
  have stop: "unat (e - count * PAGE) + 4096 * unat count = unat e" using at e2 by simp
  then have pal: "page_aligned (unat (e - count * PAGE))" using e1(3) by (metis page_aligned_simps(4))
  have "e - count * PAGE \<noteq> 0" using ge ral(2) unat_gt_0 [of "r_at r"] by auto
  then show "run_ok \<lparr>r_at = e - count * PAGE, r_count = count\<rparr>"
    using pal n stop unat_bound [of e] by (simp add: run_ok_def run_stop_def)
  show "block (e - count * PAGE) count \<subseteq> run_pages (runs s ! i)"
    using ge stop e1(1) unfolding r_def [symmetric] run_pages_def span_def run_stop_def by auto
  show "unat (e - count * PAGE) + 4096 * unat count \<le> unat limit" using stop e1(2) by simp
qed

lemma take_below_spec:
  assumes inv: "mem_inv s" and "ours s" and n: "count \<noteq> 0" "unat count < 2 ^ 51"
    and al: "page_aligned (unat limit)" and bnd: "\<forall>r \<in> set (runs s). unat (r_at r) < 2 ^ 63"
    and room: "length (runs s) < RUNS" and tb: "take_below fw count limit s = (at, s')"
  shows "taken at count s s'" "at \<noteq> 0 \<Longrightarrow> unat at + 4096 * unat count \<le> unat limit"
proof -
  define e where "e = (\<lambda>r. if run_end r > limit then limit else run_end r)"
  define d where "d = find_down (\<lambda>r. e r \<ge> r_at r + count * PAGE) (runs s) (length (runs s))"
  have eq: "take_below fw count limit s = (case d of None \<Rightarrow> (0, s)
      | Some i \<Rightarrow> (let at = e (runs s ! i) - count * PAGE in (at, run_take_each at (unat count) s)))"
    unfolding take_below_def Let_def e_def d_def using assms(2) by simp
  have "taken at count s s' \<and> (at \<noteq> 0 \<longrightarrow> unat at + 4096 * unat count \<le> unat limit)"
  proof (cases d)
    case None
    then show ?thesis using tb eq inv by (auto simp: taken_def)
  next
    case (Some i)
    then have i: "i < length (runs s)" "e (runs s ! i) \<ge> r_at (runs s ! i) + count * PAGE"
      using find_down_Some unfolding d_def by fast+
    have at: "at = e (runs s ! i) - count * PAGE" "s' = run_take_each at (unat count) s"
      using tb eq Some by (auto simp: Let_def)
    have bi: "unat (r_at (runs s ! i)) < 2 ^ 63" using bnd i(1) by simp
    have ei: "e (runs s ! i) = (if limit < run_end (runs s ! i) then limit else run_end (runs s ! i))"
      by (simp add: e_def)
    note f = find_down_taken [OF inv i(1) n(1) ei i(2) n(2) al bi, folded at(1)]
    have sub: "block at count \<subseteq> runs_pages (runs s)"
      using f(2) nth_mem [OF i(1)] by (fastforce simp: runs_pages_def)
    have cs: "can_split at s" using room by (simp add: can_split_def)
    from run_take_each_spec [OF inv f(1) sub cs] show ?thesis
      using f(1,3) sub unfolding at(2) [symmetric]
      by (auto simp: taken_def free_set_def rest_def run_ok_def)
  qed
  then show "taken at count s s'" "at \<noteq> 0 \<Longrightarrow> unat at + 4096 * unat count \<le> unat limit" by auto
qed

section \<open>Giving back\<close>

lemma mem_pages_free_added:
  assumes "mem_inv s" "ours s" "run_ok \<lparr>r_at = at, r_count = count\<rparr>" "block at count \<inter> free_set s = {}"
  shows "added \<lparr>r_at = at, r_count = count\<rparr> s (mem_pages_free fw at count s)"
    "rest (mem_pages_free fw at count s) = rest s"
proof -
  have "added \<lparr>r_at = at, r_count = 1\<rparr> s (loosen at 1 s)" if c: "count = 1" "LOOSE_FLOOR \<le> at"
  proof -
    have "loose_ok s" "block at 1 \<inter> loose_set s = {}" using assms c by (auto simp: mem_inv_def free_set_def)
    note lo = loosen_run [OF this(1) assms(3) [unfolded c] this(2)]
    have "{p \<in> block at 1. 2 ^ 30 \<le> p} = block at 1"
      using c(2) by (auto simp: run_pages_def span_def word_nat)
    then show ?thesis using lo assms c(1) by (auto simp: added_def mem_inv_def free_set_def)
  qed
  then show "added \<lparr>r_at = at, r_count = count\<rparr> s (mem_pages_free fw at count s)"
    using run_add_added [OF assms(1,3,4)] assms(2) by (auto simp: mem_pages_free_def)
  show "rest (mem_pages_free fw at count s) = rest s"
    using assms(2) by (simp add: mem_pages_free_def)
qed

section \<open>A lender of memory\<close>

text \<open>
  What the allocator relies on of the disk cache it asks for memory: \<open>lent\<close> is the pages the cache
  holds and \<open>held\<close> how much it could still give. Shrinking only gives back what was lent, and
  answers that it gave something only when it holds less than before.
\<close>

locale lender =
  fixes shrink :: "u64 \<Rightarrow> 'a mem_scheme \<Rightarrow> (u64 \<times> 'a mem_scheme) option"
    and lent :: "'a mem_scheme \<Rightarrow> nat set"
    and held :: "'a mem_scheme \<Rightarrow> nat"
    and lender_ok :: "'a mem_scheme \<Rightarrow> bool"
  assumes local_lent: "rest t = rest s \<Longrightarrow> lent t = lent s \<and> held t = held s \<and> lender_ok t = lender_ok s"
    and shrink_ok: "\<lbrakk>mem_inv s; ours s; lender_ok s; lent s \<inter> free_set s = {}\<rbrakk> \<Longrightarrow> \<exists>given t. shrink n s = Some (given, t) \<and>
      mem_inv t \<and> ours t \<and> ram_kib t = ram_kib s \<and> lender_ok t \<and> lent t \<inter> free_set t = {} \<and> lent t \<subseteq> lent s \<and>
      free_set t \<subseteq> free_set s \<union> lent s \<and> (given \<noteq> 0 \<longrightarrow> held t < held s) \<and>
      (\<forall>p. unat p \<notin> free_set s \<union> lent s \<longrightarrow> words t p = words s p)"
begin

definition state_ok :: "'a mem_scheme \<Rightarrow> bool" where
  "state_ok s \<longleftrightarrow> mem_inv s \<and> ours s \<and> lender_ok s \<and> lent s \<inter> free_set s = {}"

definition owned :: "'a mem_scheme \<Rightarrow> nat set" where
  "owned s = free_set s \<union> lent s"

lemma run_add_back:
  assumes "state_ok t" "run_ok \<lparr>r_at = at, r_count = count\<rparr>" "block at count \<inter> owned t = {}"
  shows "state_ok (run_add at count t)" "owned (run_add at count t) \<subseteq> owned t \<union> block at count"
    "held (run_add at count t) = held t"
    "unat p \<notin> owned t \<union> block at count \<Longrightarrow> words (run_add at count t) p = words t p"
proof -
  have "added \<lparr>r_at = at, r_count = count\<rparr> t (run_add at count t)"
    using assms by (intro run_add_added) (auto simp: state_ok_def owned_def)
  then show "state_ok (run_add at count t)" "owned (run_add at count t) \<subseteq> owned t \<union> block at count"
    "held (run_add at count t) = held t"
    using assms(1,3) local_lent [of "run_add at count t" t]
    by (auto simp: state_ok_def owned_def added_def)
  show "unat p \<notin> owned t \<union> block at count \<Longrightarrow> words (run_add at count t) p = words t p"
    using assms(1,2) by (intro run_add_words) (auto simp: state_ok_def owned_def)
qed

text \<open>What \<open>mem_pages\<close> gives: memory that was free or lent, and is neither any more.\<close>

definition got :: "u64 \<Rightarrow> u64 \<Rightarrow> 'a mem_scheme \<Rightarrow> 'a mem_scheme \<Rightarrow> bool" where
  "got at count s t \<longleftrightarrow> state_ok t \<and> owned t \<subseteq> owned s \<and> (\<forall>p. unat p \<notin> owned s \<longrightarrow> words t p = words s p) \<and>
     (at \<noteq> 0 \<longrightarrow> run_ok \<lparr>r_at = at, r_count = count\<rparr> \<and> block at count \<subseteq> owned s \<and> block at count \<inter> owned t = {})"

lemma taken_got:
  assumes "state_ok s" "taken at count s t" "\<forall>p. unat p \<notin> free_set s \<longrightarrow> words t p = words s p"
  shows "got at count s t" "held t = held s"
  using assms local_lent [of t s] by (auto simp: got_def state_ok_def owned_def taken_def split: if_splits)

lemma shrink_got:
  assumes "state_ok s"
  shows "\<exists>given t. shrink n s = Some (given, t) \<and> state_ok t \<and> owned t \<subseteq> owned s \<and> (given \<noteq> 0 \<longrightarrow> held t < held s) \<and>
     (\<forall>p. unat p \<notin> owned s \<longrightarrow> words t p = words s p)"
  using shrink_ok [of s n] assms by (fastforce simp: state_ok_def owned_def)

lemma mem_pages_got:
  "state_ok s \<Longrightarrow> count \<noteq> 0 \<Longrightarrow> \<exists>at t. mem_pages fw (Some shrink) count s = Some (at, t) \<and> got at count s t"
proof (induction "held s" arbitrary: s rule: less_induct)
  case less
  obtain at s1 where tk: "take_pages fw count s = Some (at, s1)" "taken at count s s1"
    using take_pages_taken [of s count fw] less.prems by (auto simp: state_ok_def)
  have "\<forall>p. unat p \<notin> free_set s \<longrightarrow> words s1 p = words s p"
    using take_pages_words [OF _ _ tk(1)] less.prems(1) by (simp add: state_ok_def)
  note g = taken_got [OF less.prems(1) tk(2) this]
  have s1: "state_ok s1" "owned s1 \<subseteq> owned s" "\<forall>p. unat p \<notin> owned s \<longrightarrow> words s1 p = words s p"
    using g(1) by (auto simp: got_def)
  obtain given s2 where sh: "shrink (count * PAGE) s1 = Some (given, s2)"
    and s2: "state_ok s2" "owned s2 \<subseteq> owned s1" "given \<noteq> 0 \<Longrightarrow> held s2 < held s1"
      "\<forall>p. unat p \<notin> owned s1 \<longrightarrow> words s2 p = words s1 p"
    using shrink_got [OF s1(1), of "count * PAGE"] by auto
  define s3 where "s3 = (if at \<noteq> 0 then run_add at count s2 else s2)"
  have eq: "mem_pages fw (Some shrink) count s =
      (if at \<noteq> 0 \<and> at \<ge> floor_kept s1 then Some (at, s1)
       else if given = 0 then Some (at, s2) else mem_pages fw (Some shrink) count s3)"
    by (subst mem_pages.simps) (simp add: tk(1) sh Let_def s3_def)
  have got2: "got at count s s2" using g(1) s2 s1(2,3) by (auto simp: got_def)
  have s3: "state_ok s3" "owned s3 \<subseteq> owned s" "held s3 = held s2"
    using run_add_back(1-3) [of s2 at count] got2 by (auto simp: got_def s3_def)
  have w3: "\<forall>p. unat p \<notin> owned s \<longrightarrow> words s3 p = words s p"
  proof (intro allI impI)
    fix p :: u64 assume p: "unat p \<notin> owned s"
    then show "words s3 p = words s p"
      using run_add_back(4) [of s2 at count p] got2 unfolding got_def s3_def by (cases "at = 0") (simp_all add: subset_eq, blast)
  qed
  show ?case
  proof (cases "(at \<noteq> 0 \<and> at \<ge> floor_kept s1) \<or> given = 0")
    case True
    then show ?thesis using eq g(1) got2 by auto
  next
    case False
    then have "held s3 < held s" using s2(3) s3(3) g(2) by simp
    from less.hyps [OF this s3(1) less.prems(2)] obtain at' t where
      "mem_pages fw (Some shrink) count s3 = Some (at', t)" "got at' count s3 t" by blast
    moreover have "got at' count s t" using calculation(2) s3(2) w3 by (auto simp: got_def)
    ultimately show ?thesis using eq False by auto
  qed
qed

text \<open>
  \<open>mem_alloc\<close> always returns; the bytes it hands out lie inside the block it took, after the header
  that records how many pages that was, and giving them back frees exactly that block.
\<close>

lemma mem_alloc_got:
  assumes ok: "state_ok s" and small: "unat bytes + 4111 < 2 ^ 64"
  shows "\<exists>r t. mem_alloc fw (Some shrink) bytes s = Some (r, t) \<and>
    (case r of
       None \<Rightarrow> state_ok t \<and> owned t \<subseteq> owned s \<and> (\<forall>p. unat p \<notin> owned s \<longrightarrow> words t p = words s p)
     | Some p \<Rightarrow> (\<exists>count. count = (bytes + HEADER + PAGE - 1) div PAGE \<and> got (p - HEADER) count s t \<and> p - HEADER \<noteq> 0 \<and> words t (p - HEADER) = count \<and>
         unat (p - HEADER) + 16 = unat p \<and> unat p + unat bytes \<le> unat (p - HEADER) + 4096 * unat count))"
proof -
  define count where "count = (bytes + HEADER + PAGE - 1) div PAGE"
  have b: "bytes + HEADER + PAGE - 1 = bytes + 4111" by (simp add: HEADER_def PAGE_def)
  have "unat (bytes + 4111) = unat bytes + 4111" using small by (intro unat_add_small [of bytes 4111, simplified]) simp
  then have c: "unat count = (unat bytes + 4111) div 4096" unfolding count_def b by (simp add: unat_div)
  have "0 < (unat bytes + 4111) div 4096" by (simp add: div_greater_zero_iff)
  then have c0: "count \<noteq> 0" using c by auto
  obtain at t where mp: "mem_pages fw (Some shrink) count s = Some (at, t)" "got at count s t"
    using mem_pages_got [OF ok c0] by blast
  show ?thesis
  proof (cases "at = 0")
    case True
    then show ?thesis using mp by (auto simp: mem_alloc_def Let_def count_def [symmetric] got_def)
  next
    case False
    define t' where "t' = t\<lparr>words := (words t)(at := count)\<rparr>"
    have ma: "mem_alloc fw (Some shrink) bytes s = Some (Some (at + HEADER), t')"
      using mp False by (simp add: mem_alloc_def Let_def count_def [symmetric] t'_def)
    have r: "run_ok \<lparr>r_at = at, r_count = count\<rparr>" "block at count \<inter> owned t = {}" "state_ok t"
      using mp(2) False by (auto simp: got_def)
    have "unat at \<in> block at count" using run_ok_start [OF r(1)] by simp
    then have nl: "at \<notin> set (loose_list t)"
      using r(2) by (auto simp: owned_def free_set_def loose_set_def)
    have ch: "loose_ok t" using r(3) by (simp add: state_ok_def mem_inv_def)
    have "chain (words t') (loose t') (loose_list t)" "loose_count t' = of_nat (length (loose_list t))"
      using ch nl by (simp_all add: t'_def chain_upd loose_ok_def)
    then have ll: "loose_ok t'" "loose_list t' = loose_list t"
      using loose_okI [of t' "loose_list t"] ch by (simp_all add: loose_ok_def)
    have fs: "free_set t' = free_set t" "mem_inv t'"
      using ll r(3) by (auto simp: free_set_def loose_set_def t'_def state_ok_def mem_inv_def)
    have "unat at \<in> owned s" using mp(2) False \<open>unat at \<in> block at count\<close> by (auto simp: got_def)
    then have wt: "\<forall>p. unat p \<notin> free_set s \<and> unat p \<notin> lent s \<longrightarrow> words t' p = words s p"
      using mp(2) by (auto simp: t'_def got_def owned_def)
    have "rest t' = rest t" by (simp add: t'_def)
    then have "got at count s t'"
      using mp(2) local_lent [of t' t] fs wt by (simp add: got_def owned_def state_ok_def rest_def)
    moreover have "unat at + 4096 * unat count < 2 ^ 64" using r(1) by (simp add: run_ok_def run_stop_def)
    moreover have "16 + unat bytes \<le> 4096 * unat count" using c by simp
    moreover have "unat (at + HEADER) = unat at + 16"
      using calculation(2,3) by (subst unat_add_small) (simp_all add: HEADER_def)
    ultimately show ?thesis using ma False by (auto simp: t'_def count_def [symmetric])
  qed
qed

end


section \<open>The count of free memory\<close>

lemma finite_span [simp]: "finite (span a b)"
  by (rule finite_subset [of _ "{..<b}"]) (auto simp: span_def)

lemma card_span: "page_aligned a \<Longrightarrow> card (span a (a + 4096 * n)) = n"
proof (induction n arbitrary: a)
  case (Suc n)
  have "a \<notin> span (a + 4096) (a + 4096 + 4096 * n)" by (simp add: span_def)
  then show ?case using Suc.IH [of "a + 4096"] Suc.prems by (simp only: span_Suc [OF Suc.prems]) simp
qed (simp add: span_empty)

lemma card_run_pages: "run_ok r \<Longrightarrow> finite (run_pages r) \<and> card (run_pages r) = unat (r_count r)"
  by (simp add: run_pages_def run_stop_def card_span run_ok_def)

lemma card_runs_pages:
  "runs_ok rs \<Longrightarrow> finite (runs_pages rs) \<and> card (runs_pages rs) = sum_list (map (unat \<circ> r_count) rs)"
proof (induction rs)
  case (Cons r rs)
  have "run_pages r \<inter> runs_pages rs = {}" using remove_run(3) [of "[]" r rs] Cons.prems by simp
  then show ?case using Cons card_run_pages [of r] by (simp add: card_Un_disjoint)
qed simp

lemma free_set_bound: "mem_inv s \<Longrightarrow> free_set s \<subseteq> span 0 (2 ^ 64)"
proof
  fix p assume inv: "mem_inv s" and p: "p \<in> free_set s"
  consider r where "r \<in> set (runs s)" "run_ok r" "p \<in> run_pages r" | q where "q \<in> set (loose_list s)" "p = unat q" "loose_page q"
    using p inv by (auto simp: free_set_def runs_pages_def loose_set_def mem_inv_def runs_ok_def loose_ok_def)
  then show "p \<in> span 0 (2 ^ 64)"
    by cases (auto simp: span_def run_pages_def run_ok_def loose_page_def)
qed

lemma card_free_set:
  assumes "mem_inv s"
  shows "card (free_set s) = sum_list (map (unat \<circ> r_count) (runs s)) + unat (loose_count s)"
    "4 * card (free_set s) < 2 ^ 64"
proof -
  have ok: "loose_ok s" "runs_pages (runs s) \<inter> loose_set s = {}" "runs_ok (runs s)"
    using assms by (simp_all add: mem_inv_def)
  have "card (loose_set s) = unat (loose_count s)"
    using ok(1) card_image [of unat "set (loose_list s)"]
    by (simp add: loose_set_def loose_ok_def distinct_card inj_on_def word_unat_eq_iff)
  moreover have "finite (loose_set s)" by (simp add: loose_set_def)
  ultimately show "card (free_set s) = sum_list (map (unat \<circ> r_count) (runs s)) + unat (loose_count s)"
    using card_runs_pages [OF ok(3)] ok(2) by (simp add: free_set_def card_Un_disjoint)
  have "card (free_set s) \<le> card (span 0 (2 ^ 64))"
    using free_set_bound [OF assms] by (rule card_mono [OF finite_span])
  then show "4 * card (free_set s) < 2 ^ 64" using card_span [of 0 "2 ^ 52"] by simp
qed

lemma unat_sum_list:
  fixes ws :: "u64 list"
  shows "sum_list (map unat ws) < 2 ^ 64 \<Longrightarrow> unat (sum_list ws) = sum_list (map unat ws)"
  by (induction ws) (simp_all add: unat_add_small)

lemma mem_free_kib_card:
  assumes "mem_inv s" "ours s"
  shows "unat (mem_free_kib fw s) = 4 * card (free_set s)"
proof -
  note c = card_free_set [OF assms(1)]
  have "unat (sum_list (map r_count (runs s))) = sum_list (map (unat \<circ> r_count) (runs s))"
    using c unat_sum_list [of "map r_count (runs s)"] by simp
  then have "unat (sum_list (map r_count (runs s)) + loose_count s) = card (free_set s)"
    using c by (subst unat_add_small) simp_all
  moreover have "unat (mem_free_kib fw s) = unat ((sum_list (map r_count (runs s)) + loose_count s) * 4)"
    using assms(2) by (simp add: mem_free_kib_def)
  ultimately show ?thesis
    using c(2) unat_mult_small [of "sum_list (map r_count (runs s)) + loose_count s" 4] by (simp add: mult.commute)
qed


section \<open>Taking the machine over\<close>

lemma can_split_any:
  assumes "mem_inv s" "can_split page s" "unat page \<notin> runs_pages (runs s)"
  shows "can_split q s"
proof -
  have "unat (r_at r) \<in> runs_pages (runs s)" if "r \<in> set (runs s)" for r
    using that assms(1) run_ok_start [of r] by (auto simp: mem_inv_def runs_ok_def runs_pages_def)
  then show ?thesis using assms(2,3) by (auto simp: can_split_def)
qed

lemma take_span_spec:
  "\<lbrakk>mem_inv s; page_aligned (unat page); loose_list s = []; can_split page s; unat final + 4096 < 2 ^ 64\<rbrakk> \<Longrightarrow>
     \<exists>s'. take_span page final s = Some s' \<and> mem_inv s' \<and> rest s' = rest s \<and> loose_list s' = [] \<and>
       free_set s' = free_set s - {p. unat page \<le> p \<and> p \<le> unat final}"
proof (induction "unat final + 4096 - unat page" arbitrary: page s rule: less_induct)
  case less
  show ?case
  proof (cases "page \<le> final")
    case False
    then show ?thesis using less.prems by (subst take_span.simps) (auto simp: word_nat)
  next
    case True
    have al: "page_aligned (unat page)" by fact
    have nxt: "unat (page + PAGE) = unat page + 4096"
      using True less.prems(5) by (intro unat_next_page) (simp add: word_nat)
    have lp: "free_set s = runs_pages (runs s)" using less.prems(3) by (simp add: free_set_def loose_set_def)
    define t where "t = snd (run_take page s)"
    have t: "mem_inv t" "rest t = rest s" "loose_list t = []" "can_split (page + PAGE) t"
      "free_set t = free_set s - {unat page}"
    proof -
      have "mem_inv t \<and> rest t = rest s \<and> loose_list t = [] \<and> can_split (page + PAGE) t \<and>
        free_set t = free_set s - {unat page}"
      proof (cases "unat page \<in> runs_pages (runs s)")
        case True
        then show ?thesis using run_take_spec [OF less.prems(1) al True] less.prems(3,4) by (auto simp: t_def)
      next
        case False
        then show ?thesis
          using run_take_cut(1) [OF less.prems(1) al False] can_split_any [OF less.prems(1,4) False] less.prems lp
          by (simp add: t_def)
      qed
      then show "mem_inv t" "rest t = rest s" "loose_list t = []" "can_split (page + PAGE) t"
        "free_set t = free_set s - {unat page}" by auto
    qed
    have gap: "unat page + 4096 \<le> p" if "p \<in> free_set s" "unat page < p" for p
    proof -
      have "page_aligned p" using that(1) free_set_bound [OF less.prems(1)] by (auto simp: span_def)
      then have "4096 dvd p - unat page" using al by (simp add: dvd_diff_nat page_aligned_def)
      then show ?thesis using that(2) by (auto dest: dvd_imp_le)
    qed
    have "unat final + 4096 - unat (page + PAGE) < unat final + 4096 - unat page"
      using True nxt by (simp add: word_nat)
    from less.hyps [OF this t(1) _ t(3,4) less.prems(5)] al nxt obtain s' where
      s': "take_span (page + PAGE) final t = Some s'" "mem_inv s'" "rest s' = rest t" "loose_list s' = []"
        "free_set s' = free_set t - {p. unat page + 4096 \<le> p \<and> p \<le> unat final}" by auto
    have "free_set s' = free_set s - {p. unat page \<le> p \<and> p \<le> unat final}"
    proof -
      have le: "unat page \<le> unat final" using True by (simp add: word_nat)
      have "p \<in> free_set s' \<longleftrightarrow> p \<in> free_set s \<and> p \<noteq> unat page \<and> \<not> (unat page + 4096 \<le> p \<and> p \<le> unat final)" for p
        by (auto simp: s'(5) t(5))
      moreover have "p \<noteq> unat page \<and> \<not> (unat page + 4096 \<le> p \<and> p \<le> unat final) \<longleftrightarrow>
          \<not> (unat page \<le> p \<and> p \<le> unat final)" if "p \<in> free_set s" for p
        using gap [OF that] le by linarith
      ultimately show ?thesis by blast
    qed
    then show ?thesis using s' t(2) True by (subst take_span.simps) (auto simp: t_def)
  qed
qed

definition usable :: "descriptor \<Rightarrow> bool" where
  "usable d \<longleftrightarrow> d_type d \<in> {9, 7, 1, 3, 4}"

definition desc_run :: "descriptor \<Rightarrow> run" where
  "desc_run d = (if d_physical d = 0 then \<lparr>r_at = PAGE, r_count = d_pages d - 1\<rparr>
     else \<lparr>r_at = d_physical d, r_count = d_pages d\<rparr>)"

definition desc_ok :: "descriptor \<Rightarrow> bool" where
  "desc_ok d \<longleftrightarrow> usable d \<longrightarrow> run_ok (desc_run d) \<or> d_physical d = 0 \<and> d_pages d = 1"

definition desc_pages :: "descriptor \<Rightarrow> nat set" where
  "desc_pages d = (if usable d then run_pages (desc_run d) else {})"

lemma run_add_length:
  assumes "length (runs s) < RUNS"
  shows "length (runs (run_add at n s)) \<le> Suc (length (runs s))"
proof -
  have "length (takeWhile (\<lambda>r. r_at r < at) (runs s)) \<le> length (runs s)" by (rule length_takeWhile_le)
  then show ?thesis
    using assms by (auto simp: run_add_def Let_def run_remove_def insert_run_def min_def)
qed

lemma run_add_kept [simp]:
  "kept_low (run_add at n s) = kept_low s" "reclaimed_kib (run_add at n s) = reclaimed_kib s"
  using run_add_ours(2) [of at n s] by (simp_all add: rest_def)

lemma kept_upd_same [simp]: "s\<lparr>kept_low := kept_low s, reclaimed_kib := x\<rparr> = s\<lparr>reclaimed_kib := x\<rparr>"
  "s\<lparr>kept_low := kept_low s\<rparr> = s" "s\<lparr>reclaimed_kib := reclaimed_kib s\<rparr> = s"
  by (cases s; simp)+

lemma take_descriptor_spec:
  assumes inv: "mem_inv s" and d: "desc_ok d" "desc_pages d \<inter> free_set s = {}" and room: "length (runs s) < RUNS"
  shows "mem_inv (take_descriptor d s)" "free_set (take_descriptor d s) = free_set s \<union> desc_pages d"
    "length (runs (take_descriptor d s)) \<le> Suc (length (runs s))" "loose_list (take_descriptor d s) = loose_list s"
proof -
  define k r where "k = kept_low (take_descriptor d s)" and "r = reclaimed_kib (take_descriptor d s)"
  define s1 where "s1 = s\<lparr>kept_low := k, reclaimed_kib := r\<rparr>"
  have s1: "mem_inv s1" "free_set s1 = free_set s" "runs s1 = runs s" "loose_list s1 = loose_list s"
    using inv by (simp_all add: s1_def mem_inv_def free_set_def loose_ok_def loose_set_def loose_list_def)
  have td: "take_descriptor d s = (if \<not> usable d \<or> (d_physical d = 0 \<and> d_pages d = 1) then s1
      else run_add (r_at (desc_run d)) (r_count (desc_run d)) s1)"
    unfolding s1_def k_def r_def usable_def desc_run_def take_descriptor_def Let_def
    by auto
  have eta: "\<lparr>r_at = r_at (desc_run d), r_count = r_count (desc_run d)\<rparr> = desc_run d" by (cases "desc_run d") simp
  have empty: "d_physical d = 0 \<and> d_pages d = 1 \<Longrightarrow> desc_pages d = {}"
    by (simp add: desc_pages_def desc_run_def run_pages_def run_stop_def span_empty)
  show "mem_inv (take_descriptor d s)" "free_set (take_descriptor d s) = free_set s \<union> desc_pages d"
    "length (runs (take_descriptor d s)) \<le> Suc (length (runs s))" "loose_list (take_descriptor d s) = loose_list s"
    using s1 empty d room run_add_room [OF s1(1), of "r_at (desc_run d)" "r_count (desc_run d)", unfolded eta]
      run_add_length [of s1] run_add_loose [of s1]
    unfolding td by (auto simp: desc_ok_def desc_pages_def)
qed


definition descs_ok :: "descriptor list \<Rightarrow> bool" where
  "descs_ok ds \<longleftrightarrow> (\<forall>d \<in> set ds. desc_ok d) \<and> length ds < RUNS \<and>
     sorted_wrt (\<lambda>d e. desc_pages d \<inter> desc_pages e = {}) ds"

lemma take_descriptors:
  "\<lbrakk>mem_inv s; \<forall>d \<in> set ds. desc_ok d \<and> desc_pages d \<inter> free_set s = {}; length (runs s) + length ds \<le> RUNS;
     sorted_wrt (\<lambda>d e. desc_pages d \<inter> desc_pages e = {}) ds\<rbrakk> \<Longrightarrow>
   mem_inv (fold take_descriptor ds s) \<and> length (runs (fold take_descriptor ds s)) \<le> length (runs s) + length ds \<and>
   free_set (fold take_descriptor ds s) = free_set s \<union> \<Union> (desc_pages ` set ds) \<and>
   loose_list (fold take_descriptor ds s) = loose_list s"
proof (induction ds arbitrary: s)
  case (Cons d ds)
  have "length (runs s) < RUNS" using Cons.prems(3) by simp
  note d = take_descriptor_spec [OF Cons.prems(1) _ _ this, of d]
  have td: "mem_inv (take_descriptor d s)" "free_set (take_descriptor d s) = free_set s \<union> desc_pages d"
    "length (runs (take_descriptor d s)) \<le> Suc (length (runs s))" "loose_list (take_descriptor d s) = loose_list s"
    using d Cons.prems(2) by simp_all
  have "\<forall>e \<in> set ds. desc_ok e \<and> desc_pages e \<inter> free_set (take_descriptor d s) = {}"
    using Cons.prems(2,4) td(2) by auto
  from Cons.IH [OF td(1) this] show ?case using Cons.prems(3,4) td by auto
qed simp

lemma page_start_diff: "a AND NOT (PAGE - 1) = a - take_bit 12 a" for a :: u64
proof -
  have m: "NOT (PAGE - 1) = (NOT (mask 12) :: u64)" by (simp add: PAGE_def mask_eq_exp_minus_1)
  have "NOT a AND take_bit 12 a = 0" by (simp add: bit_eq_iff bit_simps)
  then have "a - take_bit 12 a = a AND NOT (take_bit 12 a)" by (rule disjunctive_diff_eq_and_not)
  also have "\<dots> = a AND NOT (mask 12)" by (auto simp: bit_eq_iff bit_simps)
  finally show ?thesis by (simp add: m)
qed

lemma unat_page_start: "unat (a AND NOT (PAGE - 1)) = unat a - unat a mod 4096" for a :: u64
proof -
  have t: "unat (take_bit 12 a) = unat a mod 4096" by (simp add: take_bit_eq_mod unat_mod)
  then show ?thesis unfolding page_start_diff by (subst unat_sub_le) (simp_all add: word_nat)
qed

lemma page_start_aligned: "page_aligned (unat (a AND NOT (PAGE - 1)))" for a :: u64
  unfolding unat_page_start page_aligned_def by (simp add: minus_mod_eq_mult_div)

lemma page_start_span: "page_aligned p \<Longrightarrow> unat (a AND NOT (PAGE - 1)) \<le> p \<longleftrightarrow> unat a < p + 4096" for a :: u64
  unfolding unat_page_start page_aligned_def by (auto simp: minus_mod_eq_mult_div elim!: dvdE; linarith?)

lemma mem_take_over_spec:
  assumes inv: "mem_inv s" "free_set s = {}" and ds: "descs_ok ds"
    and idt: "unat base + unat limit + 4096 < 2 ^ 64"
  shows "\<exists>s'. mem_take_over ds base limit s = Some s' \<and> mem_inv s' \<and> ours s' \<and>
    free_set s' = (\<Union>d \<in> set ds. desc_pages d) - {p. unat base < p + 4096 \<and> p \<le> unat base + unat limit}"
proof -
  define s1 where "s1 = fold take_descriptor ds s"
  have "runs_pages (runs s) = {}" "loose_set s = {}" using inv(2) by (auto simp: free_set_def)
  moreover have "unat (r_at r) \<in> runs_pages (runs s)" if "r \<in> set (runs s)" for r
    using that inv(1) run_ok_start [of r] by (auto simp: mem_inv_def runs_ok_def runs_pages_def)
  ultimately have e: "runs s = []" "loose_list s = []" by (auto simp: loose_set_def intro: list.set_sel)
  have s1: "mem_inv s1" "length (runs s1) < RUNS" "free_set s1 = (\<Union>d \<in> set ds. desc_pages d)" "loose_list s1 = []"
    using take_descriptors [OF inv(1), of ds] ds e inv(2) by (auto simp: s1_def descs_ok_def)
  have lim: "unat (base + ucast limit) = unat base + unat limit"
    using idt by (subst unat_add_small) (simp_all add: unsigned_ucast_eq take_bit_nat_eq_self)
  from take_span_spec [OF s1(1) page_start_aligned [of base] s1(4), of "base + ucast limit"] s1(2) idt lim
  obtain s2 where s2: "take_span (base AND NOT (PAGE - 1)) (base + ucast limit) s1 = Some s2" "mem_inv s2"
      "free_set s2 = free_set s1 - {p. unat (base AND NOT (PAGE - 1)) \<le> p \<and> p \<le> unat base + unat limit}"
    by (auto simp: can_split_def)
  have al: "page_aligned p" if "p \<in> free_set s1" for p
    using that free_set_bound [OF s1(1)] by (auto simp: span_def)
  have "free_set (s2\<lparr>ours := True\<rparr>) = free_set s2" "mem_inv (s2\<lparr>ours := True\<rparr>)"
    using s2(2) by (simp_all add: free_set_def loose_set_def loose_list_def mem_inv_def loose_ok_def)
  moreover have "mem_take_over ds base limit s = Some (s2\<lparr>ours := True\<rparr>)"
    using s2(1) by (simp add: mem_take_over_def s1_def)
  moreover have "free_set s2 = free_set s1 - {p. unat base < p + 4096 \<and> p \<le> unat base + unat limit}"
    using s2(3) page_start_span [OF al] by auto
  ultimately show ?thesis using s1(3) by simp
qed

section \<open>What allocating leaves alone\<close>

lemma cut_top_rest: "rest (snd (cut_top n i s)) = rest s"
  by (simp add: cut_top_def Let_def run_remove_def)

lemma fill_loose_rest: "rest (fill_loose s) = rest s"
proof -
  have "rest (if at < LOOSE_FLOOR then run_add at LOOSE_FILL s1 else loosen at n s1) = rest s1" for at n s1
    by simp
  then show ?thesis
    unfolding fill_loose_def using cut_top_rest [of LOOSE_FILL _ s]
    by (auto simp: split_beta split: option.splits)
qed

lemma pop_loose_rest: "rest (snd (pop_loose s)) = rest s"
  by (simp add: pop_loose_def Let_def)

lemma take_run_rest: "take_run n s = Some (at, t) \<Longrightarrow> rest t = rest s"
  using cut_top_rest [of n _ s] by (auto simp: take_run_def) (metis snd_conv)

lemma drain_rest:
  assumes "drain s = Some t"
  shows "rest t = rest s"
proof (rule drain.raw_induct [OF _ assms])
  fix drain :: "'a mem_scheme \<Rightarrow> 'a mem_scheme option" and s t
  assume 1: "\<And>x y. drain x = Some y \<Longrightarrow> rest y = rest x"
    "(if loose s \<noteq> 0 \<and> length (runs s) < RUNS - 1 then let (at, s1) = pop_loose s in drain (run_add at 1 s1) else Some s) = Some t"
  show "rest t = rest s"
  proof (cases "loose s \<noteq> 0 \<and> length (runs s) < RUNS - 1")
    case True
    obtain p u where pop: "pop_loose s = (p, u)" by fastforce
    then have "rest u = rest s" using pop_loose_rest [of s] by simp
    moreover have "drain (run_add p 1 u) = Some t" using 1(2) True pop by simp
    ultimately show ?thesis using 1(1) by fastforce
  next
    case False
    then show ?thesis using 1(2) by (simp split: if_splits)
  qed
qed

lemma take_pages_rest:
  assumes "ours s" "take_pages fw count s = Some (at, t)"
  shows "rest t = rest s"
proof -
  define s1 where "s1 = (if count = 1 \<and> loose s = 0 then fill_loose s else s)"
  have s1: "rest s1 = rest s" by (simp add: s1_def fill_loose_rest)
  have "Some (at, t) = (if count = 1 \<and> loose s1 \<noteq> 0 then Some (pop_loose s1)
      else case take_run count s1 of Some r \<Rightarrow> Some r
        | None \<Rightarrow> if loose_count s1 = 0 then Some (0, s1)
            else drain s1 \<bind> (\<lambda>s2. case take_run count s2 of Some r \<Rightarrow> Some r | None \<Rightarrow> Some (0, s2)))"
    using assms(2) unfolding take_pages_def Let_def s1_def [symmetric] using assms(1) by simp
  then have "rest t = rest s1"
    using pop_loose_rest [of s1] take_run_rest [of count s1 at t] drain_rest [of s1] take_run_rest [of count _ at t]
    by (auto split: if_splits option.splits Option.bind_splits dest: sym)
  then show ?thesis using s1 by simp
qed

text \<open>An allocation, with a disk cache that keeps a predicate of the state's other parts, keeps it too.\<close>

lemma mem_pages_keeps:
  fixes view :: "'a mem_scheme \<Rightarrow> 'v"
  assumes rest: "\<And>s t. rest t = rest s \<Longrightarrow> view t = view s"
    and shrink: "\<And>f n u g t. cache = Some f \<Longrightarrow> ours u \<Longrightarrow> view u = view s \<Longrightarrow> f n u = Some (g, t) \<Longrightarrow>
      ours t \<and> view t = view s"
    and mp: "mem_pages fw cache count s = Some (at, t)" and o: "ours s"
  shows "ours t \<and> view t = view s"
proof -
  define v where "v = view s"
  note shrink' = shrink [folded v_def]
  define P where "P = (\<lambda>(fw' :: 'a mem_scheme firmware) cache' (count' :: u64) s (r :: u64 \<times> 'a mem_scheme).
    cache' = cache \<longrightarrow> ours s \<longrightarrow> view s = v \<longrightarrow> ours (snd r) \<and> view (snd r) = v)"
  have ours: "rest t = rest s \<Longrightarrow> ours t = ours s" for s t :: "'a mem_scheme" by (simp add: rest_def)
  have "P fw cache count s (at, t)"
  proof (rule mem_pages.raw_induct [OF _ mp])
    fix mp :: "'a mem_scheme firmware \<Rightarrow> 'a mem_scheme shrinker \<Rightarrow> u64 \<Rightarrow> 'a mem_scheme \<Rightarrow> (u64 \<times> 'a mem_scheme) option"
      and fw cache' count s r
    assume IH: "\<And>fw cache count s y. mp fw cache count s = Some y \<Longrightarrow> P fw cache count s y"
      and body: "take_pages fw count s \<bind> (\<lambda>(at, s1).
         if at \<noteq> 0 \<and> at \<ge> floor_kept s1 then Some (at, s1)
         else case cache' of None \<Rightarrow> Some (at, s1)
              | Some shrink \<Rightarrow>
                  shrink (count * PAGE) s1 \<bind> (\<lambda>(given, s2).
                    if given = 0 then Some (at, s2)
                    else mp fw cache' count (if at \<noteq> 0 then run_add at count s2 else s2))) = Some r"
    show "P fw cache' count s r"
      unfolding P_def
    proof (intro impI)
      assume c: "cache' = cache" and o: "ours s" and v: "view s = v"
      obtain at s1 where tp: "take_pages fw count s = Some (at, s1)" using body by (cases "take_pages fw count s") auto
      have s1: "ours s1" "view s1 = v"
        using ours [OF take_pages_rest [OF o tp]] rest [OF take_pages_rest [OF o tp]] o v by simp_all
      show "ours (snd r) \<and> view (snd r) = v"
      proof (cases "(at \<noteq> 0 \<and> at \<ge> floor_kept s1) \<or> cache = None")
        case True
        then show ?thesis using body tp s1 c by (auto split: if_splits)
      next
        case False
        then obtain f where "cache = Some f" by blast
        then obtain given s2 where f: "cache = Some f" "f (count * PAGE) s1 = Some (given, s2)"
          using body tp False unfolding c by (auto split: if_splits Option.bind_splits)
        have s2: "ours s2" "view s2 = v" using shrink' [OF f(1) s1 f(2)] by auto
        define s3 where "s3 = (if at \<noteq> 0 then run_add at count s2 else s2)"
        have s3: "ours s3" "view s3 = v" using s2 rest [of s3 s2] by (auto simp: s3_def)
        have "(if given = 0 then Some (at, s2) else mp fw cache count s3) = Some r"
          using body tp False f unfolding c s3_def by (auto split: if_splits)
        then show ?thesis using s2 s3 IH [of fw cache count s3 r] by (auto simp: P_def split: if_splits)
      qed
    qed
  qed
  then show ?thesis using o by (simp add: P_def v_def)
qed

lemma mem_alloc_keeps:
  fixes view :: "'a mem_scheme \<Rightarrow> 'v"
  assumes rest: "\<And>s t. rest t = rest s \<Longrightarrow> view t = view s"
    and shrink: "\<And>f n u g t. cache = Some f \<Longrightarrow> ours u \<Longrightarrow> view u = view s \<Longrightarrow> f n u = Some (g, t) \<Longrightarrow>
      ours t \<and> view t = view s"
    and ma: "mem_alloc fw cache bytes s = Some (r, t)" and o: "ours s"
  shows "ours t \<and> view t = view s"
proof -
  obtain at u where u: "mem_pages fw cache ((bytes + HEADER + PAGE - 1) div PAGE) s = Some (at, u)"
    "t = (if at = 0 then u else u\<lparr>words := (words u)(at := (bytes + HEADER + PAGE - 1) div PAGE)\<rparr>)"
    using ma by (auto simp: mem_alloc_def Let_def split: Option.bind_splits if_splits)
  have "rest t = rest u" using u(2) by simp
  then show ?thesis using mem_pages_keeps [OF rest shrink u(1) o] rest [of t u] by (simp add: rest_def)
qed

section \<open>Properties\<close>

definition no_firmware :: "'a mem_scheme firmware" where
  "no_firmware = \<lparr>allocate_pages = \<lambda>_ _ _ s. (None, s), free_pages = \<lambda>_ _ s. s, efi_free_kib = \<lambda>_. 0\<rparr>"

definition small_machine :: mem where
  "small_machine = \<lparr>runs = [\<lparr>r_at = 0x100000, r_count = 16\<rparr>, \<lparr>r_at = 0x200000, r_count = 4\<rparr>], ours = True,
     kept_low = [], loose = 0, loose_count = 0, words = (\<lambda>_. 0), ram_kib = 4096, reclaimed_kib = 0\<rparr>"

lemma small_machine [simp]:
  "mem_inv small_machine" "ours small_machine"
  "runs small_machine = [\<lparr>r_at = 0x100000, r_count = 16\<rparr>, \<lparr>r_at = 0x200000, r_count = 4\<rparr>]"
  "free_set small_machine = block 0x100000 16 \<union> block 0x200000 4"
  by (simp_all add: small_machine_def mem_inv_def run_ok_def page_aligned_def run_stop_def before_def
      loose_ok_def loose_list_def loose_set_def free_set_def RUNS_def)

text \<open>
  C29. Giving the free list a block that is not free keeps the list sorted, coalesced and within its
  512 runs, and the chain of single pages sound. Nothing becomes free but the block; nothing at or
  above 1 GiB is ever lost; and while the list has room, nothing is lost at all.
\<close>

theorem run_add_spec:
  assumes "mem_inv s" "run_ok \<lparr>r_at = at, r_count = count\<rparr>" "block at count \<inter> free_set s = {}"
  shows "mem_inv (run_add at count s) \<and>
    free_set (run_add at count s) \<subseteq> free_set s \<union> block at count \<and>
    {p \<in> free_set s \<union> block at count. 2 ^ 30 \<le> p} \<subseteq> free_set (run_add at count s) \<and>
    (length (runs s) < RUNS \<longrightarrow> free_set (run_add at count s) = free_set s \<union> block at count)"
  using run_add_added [OF assms] by (simp add: added_def)

theorem run_add_spec_witness:
  "free_set (run_add 0x110000 3 small_machine) = free_set small_machine \<union> block 0x110000 3"
proof -
  have "run_ok \<lparr>r_at = 0x110000, r_count = 3\<rparr>" by (simp add: run_ok_def run_stop_def page_aligned_def)
  moreover have "block 0x110000 3 \<inter> free_set small_machine = {}"
    by (auto simp: run_pages_def span_def run_stop_def)
  ultimately show ?thesis
    using run_add_spec [OF small_machine(1), of "0x110000" 3] by (simp add: RUNS_def)
qed

text \<open>
  C28. Once the kernel owns the memory, asking for pages always returns. What it hands out is a block
  of pages that were all free and now are not, with nothing else changed; when it hands out nothing,
  nothing changed hands and no run is long enough.
\<close>

theorem take_pages_spec:
  assumes "mem_inv s" "ours s" "count \<noteq> 0"
  shows "\<exists>at s'. take_pages fw count s = Some (at, s') \<and> mem_inv s' \<and>
    (if at = 0 then free_set s' = free_set s \<and> (\<forall>r \<in> set (runs s'). r_count r < count)
     else block at count \<subseteq> free_set s \<and> free_set s' = free_set s - block at count \<and>
          card (block at count) = unat count)"
proof -
  obtain at s' where t: "take_pages fw count s = Some (at, s')" "taken at count s s'"
    "at = 0 \<longrightarrow> (\<forall>r \<in> set (runs s'). r_count r < count)"
    using take_pages_taken [OF assms, of fw] by blast
  then show ?thesis
    using card_run_pages [of "\<lparr>r_at = at, r_count = count\<rparr>"]
    by (intro exI [of _ at] exI [of _ s']) (auto simp: taken_def)
qed

theorem take_pages_spec_witness:
  "\<exists>at s'. take_pages no_firmware 2 small_machine = Some (at, s') \<and> mem_inv s' \<and>
    (if at = 0 then free_set s' = free_set small_machine \<and> (\<forall>r \<in> set (runs s'). r_count r < 2)
     else block at 2 \<subseteq> free_set small_machine \<and> free_set s' = free_set small_machine - block at 2 \<and>
          card (block at 2) = unat (2 :: u64))"
  by (rule take_pages_spec) simp_all

text \<open>
  Taking below a limit, as the page tables are: what is handed out was free, ends at or below the
  limit, and is free no more; otherwise nothing changes. (The list of runs has room for one more,
  since a block from the middle of a run leaves two.)
\<close>

lemma take_below_within:
  assumes "mem_inv s" "ours s" "count \<noteq> 0" "unat count < 2 ^ 51" "page_aligned (unat limit)"
    "\<forall>r \<in> set (runs s). unat (r_at r) < 2 ^ 63" "length (runs s) < RUNS"
    "take_below fw count limit s = (at, s')"
  shows "mem_inv s' \<and>
    (if at = 0 then free_set s' = free_set s
     else block at count \<subseteq> free_set s \<and> free_set s' = free_set s - block at count \<and>
          unat at + 4096 * unat count \<le> unat limit)"
  using take_below_spec [OF assms] by (simp add: taken_def)

text \<open>
  Taking pages and giving them back leaves the same memory free, whenever the list of runs has
  room or the block is a single page of the kind kept on the chain.
\<close>

lemma take_free_round_trip:
  assumes "mem_inv s" "ours s" "count \<noteq> 0" "take_pages fw count s = Some (at, s')" "at \<noteq> 0"
    "length (runs s') < RUNS \<or> count = 1 \<and> 2 ^ 30 \<le> unat at"
  shows "mem_inv (mem_pages_free fw at count s') \<and> free_set (mem_pages_free fw at count s') = free_set s"
proof -
  have t: "taken at count s s'" using take_pages_taken [OF assms(1-3), of fw] assms(4) by auto
  then have ok: "mem_inv s'" "ours s'" "run_ok \<lparr>r_at = at, r_count = count\<rparr>" "block at count \<inter> free_set s' = {}"
    "free_set s' \<union> block at count = free_set s"
    using assms(2,5) by (auto simp: taken_def)
  note a = mem_pages_free_added [OF ok(1-4), of fw]
  have "{p \<in> free_set s. 2 ^ 30 \<le> p} \<union> free_set s' \<union> block at count \<subseteq> free_set (mem_pages_free fw at count s')"
    if h: "count = 1" "2 ^ 30 \<le> unat at"
  proof -
    have "mem_pages_free fw at count s' = loosen at (unat count) s'"
      using h ok(2) by (simp add: mem_pages_free_def word_nat)
    moreover have "loose_ok s'" "block at count \<inter> loose_set s' = {}"
      using ok(1,4) by (auto simp: mem_inv_def free_set_def)
    moreover have "{p \<in> block at count. 2 ^ 30 \<le> p} = block at count" using h(2) by (auto simp: run_pages_def span_def)
    ultimately show ?thesis
      using loosen_run [of s' "\<lparr>r_at = at, r_count = count\<rparr>"] ok(3,5) by (auto simp: free_set_def)
  qed
  then show ?thesis using a ok(5) assms(6) by (auto simp: added_def)
qed

text \<open>The free memory the kernel reports is four KiB for each free page, with no overflow.\<close>

theorem mem_free_kib_spec:
  assumes "mem_inv s" "ours s"
  shows "unat (mem_free_kib fw s) = 4 * card (free_set s)"
  using assms by (rule mem_free_kib_card)

text \<open>
  Taking the machine over from the firmware: with a memory map of fewer than 512 disjoint,
  page-aligned descriptors, the kernel then owns exactly the pages of the descriptors of the types it
  may use, less page 0 and less the pages the interrupt table lies in.
\<close>

lemma mem_take_over_owns:
  assumes "mem_inv s" "free_set s = {}" "descs_ok ds" "unat base + unat limit + 4096 < 2 ^ 64"
  shows "\<exists>s'. mem_take_over ds base limit s = Some s' \<and> mem_inv s' \<and> ours s' \<and>
    free_set s' = (\<Union>d \<in> set ds. desc_pages d) - {p. unat base < p + 4096 \<and> p \<le> unat base + unat limit}"
  using assms by (rule mem_take_over_spec)

end
