(* ===== verification/Chains.thy ===== *)
theory Chains
  imports Prelude "HOL-Library.Monad_Syntax"
begin

text \<open>
  The chains through table entries that the kernel's tables share: entries are numbered from one, a
  bucket's head holds the number of its first entry, each entry the number of the next, and 0 ends a
  chain. A \<open>link\<close> is where a number is stored, what the code walks with a pointer to a pointer.
  The walk is option-valued: round a chain that closes on itself it would never end.
\<close>

section \<open>Walking\<close>

datatype link = Head nat | Next nat

partial_function (option) walk_to :: "(u32 \<Rightarrow> bool) \<Rightarrow> (link \<Rightarrow> u32) \<Rightarrow> link \<Rightarrow> link option" where
  "walk_to P load at =
     (if load at \<noteq> 0 \<and> \<not> P (load at) then walk_to P load (Next (unat (load at) - 1)) else Some at)"

fun linked :: "(link \<Rightarrow> u32) \<Rightarrow> link \<Rightarrow> u32 list \<Rightarrow> bool" where
  "linked load at [] \<longleftrightarrow> load at = 0"
| "linked load at (x # xs) \<longleftrightarrow> load at = x \<and> x \<noteq> 0 \<and> linked load (Next (unat x - 1)) xs"

text \<open>The link whose number is the first of a chain's rest, after the entries \<open>ys\<close>.\<close>

definition link_after :: "link \<Rightarrow> u32 list \<Rightarrow> link" where
  "link_after at ys = (if ys = [] then at else Next (unat (last ys) - 1))"

lemma link_after_simps [simp]:
  "link_after at [] = at"
  "link_after at (y # ys) = link_after (Next (unat y - 1)) ys"
  by (simp_all add: link_after_def)

lemma linked_append:
  "linked load at (ys @ zs) \<longleftrightarrow> (\<forall>i < length ys. load (link_after at (take i ys)) = ys ! i \<and> ys ! i \<noteq> 0) \<and>
     linked load (link_after at ys) zs"
proof (induction ys arbitrary: at)
  case (Cons y ys)
  have "(\<forall>i < length (y # ys). load (link_after at (take i (y # ys))) = (y # ys) ! i \<and> (y # ys) ! i \<noteq> 0) \<longleftrightarrow>
    load at = y \<and> y \<noteq> 0 \<and>
    (\<forall>i < length ys. load (link_after (Next (unat y - 1)) (take i ys)) = ys ! i \<and> ys ! i \<noteq> 0)"
    by (auto simp: less_Suc_eq_0_disj)
  then show ?case using Cons.IH [of "Next (unat y - 1)"] by simp
qed simp

lemma linked_upd:
  "linked load at xs \<Longrightarrow> l \<noteq> at \<Longrightarrow> l \<notin> (\<lambda>x. Next (unat x - 1)) ` set xs \<Longrightarrow> linked (load(l := v)) at xs"
  by (induction xs arbitrary: at) auto

lemma walk_to_split:
  "linked load at xs \<Longrightarrow>
     (\<exists>ys x zs. xs = ys @ x # zs \<and> P x \<and> (\<forall>y \<in> set ys. \<not> P y) \<and> walk_to P load at = Some (link_after at ys) \<and>
        load (link_after at ys) = x) \<or>
     (\<forall>x \<in> set xs. \<not> P x) \<and> walk_to P load at = Some (link_after at xs) \<and> load (link_after at xs) = 0"
proof (induction xs arbitrary: at)
  case Nil
  then show ?case by (subst walk_to.simps) simp
next
  case (Cons x xs)
  show ?case
  proof (cases "P x")
    case True
    have "walk_to P load at = Some at" using True Cons.prems by (subst walk_to.simps) simp
    then have "x # xs = [] @ x # xs \<and> P x \<and> (\<forall>y \<in> set []. \<not> P y) \<and> walk_to P load at = Some (link_after at []) \<and>
      load (link_after at []) = x" using Cons.prems True by simp
    then show ?thesis by blast
  next
    case False
    have step: "walk_to P load at = walk_to P load (Next (unat x - 1))"
      using False Cons.prems by (subst walk_to.simps) simp
    from Cons.IH [of "Next (unat x - 1)"] Cons.prems
    consider ys z zs where "xs = ys @ z # zs" "P z" "\<forall>y \<in> set ys. \<not> P y"
        "walk_to P load at = Some (link_after at (x # ys))" "load (link_after at (x # ys)) = z"
      | "\<forall>x \<in> set xs. \<not> P x" "walk_to P load at = Some (link_after at (x # xs))" "load (link_after at (x # xs)) = 0"
      by (auto simp: step)
    then show ?thesis
    proof cases
      case 1
      then have "x # xs = (x # ys) @ z # zs \<and> P z \<and> (\<forall>y \<in> set (x # ys). \<not> P y) \<and>
        walk_to P load at = Some (link_after at (x # ys)) \<and> load (link_after at (x # ys)) = z"
        using False by auto
      then show ?thesis by blast
    qed (use False in auto)
  qed
qed

section \<open>Tables\<close>

text \<open>
  A table of \<open>room\<close> entries: \<open>place i\<close> is the bucket entry \<open>i\<close> is in, or \<open>None\<close>. Every bucket's chain
  holds exactly the entries placed in it, once.
\<close>

definition number :: "nat \<Rightarrow> u32" where
  "number i = of_nat (Suc i)"

definition table :: "(link \<Rightarrow> u32) \<Rightarrow> nat \<Rightarrow> nat \<Rightarrow> (nat \<Rightarrow> nat option) \<Rightarrow> bool" where
  "table load heads room place \<longleftrightarrow> room < 2 ^ 32 - 1 \<and>
     (\<forall>h < heads. \<exists>is. linked load (Head h) (map number is) \<and> distinct is \<and>
        set is = {i. i < room \<and> place i = Some h})"

lemma unat_number: "i < 2 ^ 32 - 1 \<Longrightarrow> unat (number i) = Suc i"
  by (simp add: number_def unsigned_of_nat take_bit_nat_eq_self del: of_nat_Suc)

lemma number_inj: "i < 2 ^ 32 - 1 \<Longrightarrow> j < 2 ^ 32 - 1 \<Longrightarrow> number i = number j \<longleftrightarrow> i = j"
  by (metis Suc_inject unat_number)

lemma number_nonzero: "i < 2 ^ 32 - 1 \<Longrightarrow> number i \<noteq> 0"
  by (metis nat.distinct(1) unat_0 unat_number)

lemma table_walk:
  assumes t: "table load heads room place" and h: "h < heads"
  obtains (found) i l where "walk_to P load (Head h) = Some l" "load l = number i" "i < room" "place i = Some h"
      "P (number i)" "l = Head h \<or> (\<exists>j < room. l = Next j \<and> place j = Some h \<and> j \<noteq> i)"
    | (absent) l where "walk_to P load (Head h) = Some l" "load l = 0"
      "\<And>i. i < room \<Longrightarrow> place i = Some h \<Longrightarrow> \<not> P (number i)"
proof -
  have room: "room < 2 ^ 32 - 1" using t by (simp add: table_def)
  obtain ns where ns: "linked load (Head h) (map number ns)" "distinct ns" "set ns = {i. i < room \<and> place i = Some h}"
    using t h by (auto simp: table_def)
  from walk_to_split [OF ns(1), of P]
  consider ys x zs where "map number ns = ys @ x # zs" "P x" "walk_to P load (Head h) = Some (link_after (Head h) ys)"
      "load (link_after (Head h) ys) = x"
    | "\<forall>x \<in> set (map number ns). \<not> P x" "walk_to P load (Head h) = Some (link_after (Head h) (map number ns))"
      "load (link_after (Head h) (map number ns)) = 0"
    by blast
  then show thesis
  proof cases
    case 1
    then obtain as i bs where split: "ns = as @ i # bs" "ys = map number as" "x = number i"
      by (auto simp: map_eq_append_conv map_eq_Cons_conv)
    have i: "i < room" "place i = Some h" using split(1) ns(3) by auto
    have "link_after (Head h) ys = Head h \<or> (\<exists>j < room. link_after (Head h) ys = Next j \<and> place j = Some h \<and> j \<noteq> i)"
    proof (cases as rule: rev_cases)
      case (snoc as' j)
      then have j: "j < room" "place j = Some h" "j \<noteq> i" using split(1) ns(2,3) by auto
      then show ?thesis using snoc split(2) room by (simp add: link_after_def unat_number)
    qed (simp add: split(2))
    then show ?thesis using found [of "link_after (Head h) ys" i] 1 split i by simp
  next
    case 2
    then show ?thesis using absent ns(3) by auto
  qed
qed

lemma linked_at: "linked load at xs \<Longrightarrow> load at' = load at \<Longrightarrow> linked load at' xs"
  by (cases xs) auto

lemma linked_nonzero: "linked load at xs \<Longrightarrow> 0 \<notin> set xs"
  by (induction xs arbitrary: at) auto

lemma unat_pred_inj: "x \<noteq> 0 \<Longrightarrow> y \<noteq> 0 \<Longrightarrow> unat x - 1 = unat y - 1 \<longleftrightarrow> x = y" for x y :: u32
  by (metis unat_pred word_unat_eq_iff diff_add_cancel)

lemma linked_skip:
  "linked load at (ys @ x # zs) \<Longrightarrow> distinct (ys @ x # zs) \<Longrightarrow>
   at \<notin> (\<lambda>x. Next (unat x - 1)) ` set (ys @ x # zs) \<Longrightarrow>
   linked (load(link_after at ys := load (Next (unat x - 1)))) at (ys @ zs)"
proof (induction ys arbitrary: at)
  case Nil
  have "linked (load(at := load (Next (unat x - 1)))) (Next (unat x - 1)) zs"
    using Nil by (intro linked_upd) auto
  then have "linked (load(at := load (Next (unat x - 1)))) at zs"
    by (rule linked_at) (use Nil in auto)
  then show ?case by (simp add: fun_upd_def)
next
  case (Cons y ys)
  have nz: "0 \<notin> set (y # ys @ x # zs)" using linked_nonzero [OF Cons.prems(1)] by simp
  have "unat y - 1 \<noteq> unat z - 1" if "z \<in> set (ys @ x # zs)" for z
    using that nz Cons.prems(2) unat_pred_inj [of y z] by auto
  then have "Next (unat y - 1) \<notin> (\<lambda>x. Next (unat x - 1)) ` set (ys @ x # zs)" by auto
  moreover have "link_after (Next (unat y - 1)) ys \<noteq> at"
    using Cons.prems(3) by (auto simp: link_after_def)
  ultimately show ?case using Cons by simp
qed

lemma table_other:
  assumes t: "table load heads room place" and h: "h < heads" "h \<noteq> g"
    and l: "l = Head g \<or> (\<exists>j. l = Next j \<and> place j \<noteq> Some h)"
  shows "\<exists>is. linked (load(l := v)) (Head h) (map number is) \<and> distinct is \<and> set is = {i. i < room \<and> place i = Some h}"
proof -
  obtain ns where ns: "linked load (Head h) (map number ns)" "distinct ns" "set ns = {i. i < room \<and> place i = Some h}"
    using t h(1) by (auto simp: table_def)
  have room: "room < 2 ^ 32 - 1" using t by (simp add: table_def)
  have "(\<lambda>x. Next (unat x - 1)) ` set (map number ns) = Next ` set ns"
    unfolding set_map image_image by (rule image_cong) (use ns(3) room unat_number in auto)
  then have "linked (load(l := v)) (Head h) (map number ns)"
    using ns l h(2) by (intro linked_upd) auto
  then show ?thesis using ns by blast
qed

lemma table_unlink:
  assumes t: "table load heads room place" and h: "h < heads" and i: "place i = Some h" "i < room"
    and w: "walk_to P load (Head h) = Some l" "load l = number i"
  shows "table (load(l := load (Next i))) heads room (place(i := None))"
proof -
  have room: "room < 2 ^ 32 - 1" using t by (simp add: table_def)
  obtain ns where ns: "linked load (Head h) (map number ns)" "distinct ns" "set ns = {i. i < room \<and> place i = Some h}"
    using t h by (auto simp: table_def)
  have nz: "number i \<noteq> 0" using i(2) room by (intro number_nonzero) simp
  have ltI: "j < 2 ^ 32 - 1" if "j \<in> set ns" for j using that ns(3) room by auto
  have inj: "inj_on number (set ns)" using ltI number_inj by (auto simp: inj_on_def)
  then have dist: "distinct (map number ns)" using ns(2) by (simp add: distinct_map)
  obtain ys zs where split: "map number ns = ys @ number i # zs" "l = link_after (Head h) ys"
  proof (cases "\<exists>ys zs. map number ns = ys @ number i # zs \<and> l = link_after (Head h) ys")
    case False
    then show ?thesis using walk_to_split [OF ns(1), of P] w nz by (metis option.inject)
  qed blast
  then obtain as j bs where ns': "ns = as @ j # bs" "ys = map number as" "number j = number i" "zs = map number bs"
    by (auto simp: map_eq_append_conv map_eq_Cons_conv)
  have ji: "j = i" using ns'(1,3) ltI [of j] i(2) room number_inj [of j i] by simp
  have un: "unat (number i) - 1 = i" using i(2) room by (simp add: unat_number)
  have lk: "linked (load(l := load (Next i))) (Head h) (map number (as @ bs))"
    using linked_skip [of load "Head h" ys "number i" zs] ns(1) dist split ns' un by auto
  have set: "distinct (as @ bs)" "set (as @ bs) = {k. k < room \<and> (place(i := None)) k = Some h}"
    using ns(2,3) ns'(1) ji by (auto split: if_splits)
  have l: "l = Head h \<or> (\<exists>k. l = Next k \<and> place k = Some h)"
  proof (cases as rule: rev_cases)
    case (snoc as' k)
    then have "k \<in> set ns" using ns'(1) by simp
    then show ?thesis using snoc split(2) ns'(2) ltI [of k] ns(3) by (simp add: link_after_def unat_number)
  qed (simp add: split(2) ns'(2))
  have "\<exists>is. linked (load(l := load (Next i))) (Head g) (map number is) \<and> distinct is \<and>
      set is = {k. k < room \<and> (place(i := None)) k = Some g}" if g: "g < heads" for g
  proof (cases "g = h")
    case True
    then show ?thesis using lk set by blast
  next
    case False
    have "{k. k < room \<and> (place(i := None)) k = Some g} = {k. k < room \<and> place k = Some g}"
      using False i(1) by auto
    then show ?thesis using table_other [OF t g False, of l] l False by auto
  qed
  then show ?thesis using room by (simp add: table_def)
qed

lemma table_push:
  assumes t: "table load heads room place" and i: "i < room" "place i = None" and h: "h < heads"
  shows "table (load(Next i := load (Head h), Head h := number i)) heads room (place(i := Some h))"
proof -
  let ?load = "load(Next i := load (Head h))"
  have room: "room < 2 ^ 32 - 1" using t by (simp add: table_def)
  have eq: "{k. k < room \<and> place k = Some g} = {k. k < room \<and> (place(i := Some h)) k = Some g}" if "g \<noteq> h" for g
    using that i(2) by auto
  have ex: "\<exists>is. linked ?load (Head g) (map number is) \<and> distinct is \<and> set is = {k. k < room \<and> place k = Some g}"
    if g: "g < heads" for g
    using table_other [OF t g, of "Suc g" "Next i"] i(2) by simp
  then have t': "table ?load heads room place" using room by (simp add: table_def)
  obtain ns where ns: "linked ?load (Head h) (map number ns)" "distinct ns" "set ns = {i. i < room \<and> place i = Some h}"
    using ex [OF h] by blast
  have "linked ?load (Next i) (map number ns)" using ns(1) by (rule linked_at) simp
  then have "linked (?load(Head h := number i)) (Next i) (map number ns)"
    using linked_upd [of ?load "Next i" "map number ns" "Head h"] by auto
  then have "linked (?load(Head h := number i)) (Head h) (map number (i # ns))"
    using i(1) room by (simp add: unat_number number_nonzero)
  moreover have "distinct (i # ns)" "set (i # ns) = {k. k < room \<and> (place(i := Some h)) k = Some h}"
    using ns(2,3) i by auto
  moreover have "\<exists>is. linked (?load(Head h := number i)) (Head g) (map number is) \<and> distinct is \<and>
      set is = {k. k < room \<and> (place(i := Some h)) k = Some g}" if "g < heads" "g \<noteq> h" for g
    using table_other [OF t' that, of "Head h"] eq [OF that(2)] by auto
  ultimately have "\<exists>is. linked (?load(Head h := number i)) (Head g) (map number is) \<and> distinct is \<and>
      set is = {k. k < room \<and> (place(i := Some h)) k = Some g}" if "g < heads" for g
    using that by (cases "g = h") blast+
  then show ?thesis using room by (simp add: table_def)
qed

lemma table_empty:
  "room < 2 ^ 32 - 1 \<Longrightarrow> \<forall>h < heads. load (Head h) = 0 \<Longrightarrow> table load heads room (\<lambda>_. None)"
  unfolding table_def by (auto intro!: exI [of _ "[]"])

lemma linked_cong:
  "linked load at xs \<Longrightarrow> load' at = load at \<Longrightarrow> (\<And>x. x \<in> set xs \<Longrightarrow> load' (Next (unat x - 1)) = load (Next (unat x - 1))) \<Longrightarrow>
   linked load' at xs"
  by (induction xs arbitrary: at) auto

lemma table_cong:
  assumes t: "table load heads room place"
    and eq: "\<And>h. h < heads \<Longrightarrow> load' (Head h) = load (Head h)"
      "\<And>i. i < room \<Longrightarrow> place i \<noteq> None \<Longrightarrow> load' (Next i) = load (Next i)"
      "\<And>i. i < room \<Longrightarrow> place' i = place i"
  shows "table load' heads room place'"
proof -
  have room: "room < 2 ^ 32 - 1" using t by (simp add: table_def)
  have "\<exists>is. linked load' (Head h) (map number is) \<and> distinct is \<and> set is = {i. i < room \<and> place' i = Some h}"
    if h: "h < heads" for h
  proof -
    obtain ns where ns: "linked load (Head h) (map number ns)" "distinct ns" "set ns = {i. i < room \<and> place i = Some h}"
      using t h by (auto simp: table_def)
    have "linked load' (Head h) (map number ns)"
      by (rule linked_cong [of load]) (use ns(1,3) room eq(1) [OF h] eq(2) in \<open>auto simp: unat_number\<close>)
    moreover have "set ns = {i. i < room \<and> place' i = Some h}" using ns(3) eq(3) by auto
    ultimately show ?thesis using ns(2) by blast
  qed
  then show ?thesis using room by (simp add: table_def)
qed

text \<open>The entry \<open>i\<close> a walk for it finds: it is there, and the link found is the one that names it.\<close>

lemma table_find:
  assumes t: "table load heads room place" and h: "h < heads" and i: "i < room" "place i = Some h"
  obtains l where "walk_to (\<lambda>x. x = number i) load (Head h) = Some l" "load l = number i"
    "l = Head h \<or> (\<exists>j < room. l = Next j \<and> place j = Some h \<and> j \<noteq> i)"
proof (rule table_walk [OF t h, of "\<lambda>x. x = number i"])
  fix j l assume "walk_to (\<lambda>x. x = number i) load (Head h) = Some l" "load l = number j" "number j = number i"
    "l = Head h \<or> (\<exists>k < room. l = Next k \<and> place k = Some h \<and> k \<noteq> j)" "j < room"
  moreover have "i < 2 ^ 32 - 1" "j < 2 ^ 32 - 1" using i(1) \<open>j < room\<close> t by (auto simp: table_def)
  ultimately show thesis using that number_inj by simp
next
  fix l assume "\<And>j. j < room \<Longrightarrow> place j = Some h \<Longrightarrow> number j \<noteq> number i"
  then show thesis using i by blast
qed

section \<open>Tables kept in a component's state\<close>

text \<open>
  A component keeps its chains in its own arrays: \<open>get\<close> reads a link of them, \<open>put\<close> stores one, and
  \<open>valid\<close> says which links the arrays have. What follows is all its operations need of that.
\<close>

locale chain_store =
  fixes get :: "'s \<Rightarrow> link \<Rightarrow> u32" and put :: "link \<Rightarrow> u32 \<Rightarrow> 's \<Rightarrow> 's" and valid :: "'s \<Rightarrow> link \<Rightarrow> bool"
  assumes get_put: "valid s l \<Longrightarrow> get (put l v s) = (get s)(l := v)"
    and valid_put: "valid (put l v s) k = valid s k"
begin

lemma push:
  assumes "table (get s) heads room place" "i < room" "place i = None" "h < heads"
    "valid s (Next i)" "valid s (Head h)"
  shows "table (get (put (Head h) (number i) (put (Next i) (get s (Head h)) s))) heads room (place(i := Some h))"
  using table_push [OF assms(1-4)] assms(5,6) by (simp add: get_put valid_put)

lemma unlink:
  assumes t: "table (get s) heads room place" and h: "h < heads" and i: "i < room" "place i = Some h"
    and v: "valid s (Head h)" "\<And>j. j < room \<Longrightarrow> valid s (Next j)"
  obtains l where "walk_to (\<lambda>x. x = number i) (get s) (Head h) = Some l" "get s l = number i" "l = Head h \<or> (\<exists>j < room. l = Next j)"
    "table (get (put l (get s (Next i)) s)) heads room (place(i := None))"
proof (rule table_find [OF t h i])
  fix l assume l: "walk_to (\<lambda>x. x = number i) (get s) (Head h) = Some l" "get s l = number i"
    "l = Head h \<or> (\<exists>j < room. l = Next j \<and> place j = Some h \<and> j \<noteq> i)"
  have "valid s l" using l(3) v by auto
  then show thesis using that [OF l(1,2)] l(3) table_unlink [OF t h i(2,1) l(1,2)] by (auto simp: get_put)
qed

end

end
