(* ===== verification/Share.thy ===== *)
theory Share
  imports Pages Chains
begin

text \<open>
  The pages processes share, \<^verbatim>\<open>src/src/kernel/share.c\<close>: a growing table of entries found by file
  and page through one set of chains and by frame through another, the free entries chained through
  the same field as the first. The record extends the allocator's, which \<open>grow\<close> and \<open>shared_drop\<close>
  call; the arrays are lists as long as there is room for entries.
\<close>

section \<open>State\<close>

record entry =
  e_start :: u32
  e_index :: u32
  e_frame :: u32
  e_refs :: u32
  e_next_key :: u32
  e_next_frame :: u32

record share = mem +
  entries :: "entry list"
  by_key :: "u32 list"
  by_frame :: "u32 list"
  entries_at :: "u64 option"
  by_key_at :: "u64 option"
  by_frame_at :: "u64 option"
  sh_room :: u32
  sh_used :: u32
  free_head :: u32

definition SECTORS :: u32 where "SECTORS = 8"
definition FIRST_ROOM :: u32 where "FIRST_ROOM = 256"

definition entry0 :: entry where
  "entry0 = \<lparr>e_start = 0, e_index = 0, e_frame = 0, e_refs = 0, e_next_key = 0, e_next_frame = 0\<rparr>"

definition key_hash :: "'a share_scheme \<Rightarrow> u32 \<Rightarrow> u32 \<Rightarrow> u32" where
  "key_hash s start index = ((start * 2654435761) XOR (index * 40503)) AND (sh_room s - 1)"

definition frame_hash :: "'a share_scheme \<Rightarrow> u32 \<Rightarrow> u32" where
  "frame_hash s frame = (frame * 2654435761) AND (sh_room s - 1)"

text \<open>
  The links of the two sets of chains. The head past the last bucket is \<open>free_head\<close>: the free
  entries are one more chain through \<open>next_key\<close>.
\<close>

fun key_get :: "'a share_scheme \<Rightarrow> link \<Rightarrow> u32" where
  "key_get s (Head h) =
     (if h < length (by_key s) then by_key s ! h else if h = length (by_key s) then free_head s else 0)"
| "key_get s (Next i) = e_next_key (entries s ! i)"

fun key_put :: "link \<Rightarrow> u32 \<Rightarrow> 'a share_scheme \<Rightarrow> 'a share_scheme" where
  "key_put (Head h) v s =
     (if h < length (by_key s) then s\<lparr>by_key := (by_key s)[h := v]\<rparr>
      else if h = length (by_key s) then s\<lparr>free_head := v\<rparr> else s)"
| "key_put (Next i) v s = s\<lparr>entries := (entries s)[i := (entries s ! i)\<lparr>e_next_key := v\<rparr>]\<rparr>"

fun frame_get :: "'a share_scheme \<Rightarrow> link \<Rightarrow> u32" where
  "frame_get s (Head h) = by_frame s ! h"
| "frame_get s (Next i) = e_next_frame (entries s ! i)"

fun frame_put :: "link \<Rightarrow> u32 \<Rightarrow> 'a share_scheme \<Rightarrow> 'a share_scheme" where
  "frame_put (Head h) v s = s\<lparr>by_frame := (by_frame s)[h := v]\<rparr>"
| "frame_put (Next i) v s = s\<lparr>entries := (entries s)[i := (entries s ! i)\<lparr>e_next_frame := v\<rparr>]\<rparr>"

definition put_entry :: "nat \<Rightarrow> entry \<Rightarrow> 'a share_scheme \<Rightarrow> 'a share_scheme" where
  "put_entry i e s = s\<lparr>entries := (entries s)[i := e]\<rparr>"

section \<open>Operations\<close>

definition link_key :: "u32 \<Rightarrow> 'a share_scheme \<Rightarrow> 'a share_scheme" where
  "link_key i s =
     (let e = entries s ! unat i; h = Head (unat (key_hash s (e_start e) (e_index e)))
      in key_put h (i + 1) (key_put (Next (unat i)) (key_get s h) s))"

definition link_frame :: "u32 \<Rightarrow> 'a share_scheme \<Rightarrow> 'a share_scheme" where
  "link_frame i s =
     (let h = Head (unat (frame_hash s (e_frame (entries s ! unat i))))
      in frame_put h (i + 1) (frame_put (Next (unat i)) (frame_get s h) s))"

definition unlink_key :: "u32 \<Rightarrow> 'a share_scheme \<Rightarrow> 'a share_scheme option" where
  "unlink_key i s =
     (let e = entries s ! unat i
      in walk_to (\<lambda>x. x = i + 1) (key_get s) (Head (unat (key_hash s (e_start e) (e_index e)))) \<bind> (\<lambda>at.
           let s1 = (if key_get s at = i + 1 then key_put at (key_get s (Next (unat i))) s else s)
           in Some (put_entry (unat i) ((entries s1 ! unat i)\<lparr>e_start := 0\<rparr>) s1)))"

text \<open>The link to the entry of a page, which holds 0 when there is none.\<close>

definition of_frame :: "u64 \<Rightarrow> 'a share_scheme \<Rightarrow> link option" where
  "of_frame page s =
     (let frame = ucast (page div PAGE) :: u32
      in walk_to (\<lambda>x. e_frame (entries s ! (unat x - 1)) = frame) (frame_get s) (Head (unat (frame_hash s frame))))"

text \<open>One turn of the loop of \<open>grow\<close> that builds the chains again.\<close>

definition grow_entry :: "nat \<Rightarrow> 'a share_scheme \<Rightarrow> 'a share_scheme" where
  "grow_entry i s =
     (if e_refs (entries s ! i) = 0 then
        (let s1 = put_entry i ((entries s ! i)\<lparr>e_next_key := free_head s\<rparr>) s
         in s1\<lparr>free_head := of_nat i + 1\<rparr>)
      else
        (let s1 = (if e_start (entries s ! i) \<noteq> 0 then link_key (of_nat i) s else s)
         in link_frame (of_nat i) s1))"

definition grow ::
  "'a share_scheme firmware \<Rightarrow> 'a share_scheme shrinker \<Rightarrow> 'a share_scheme \<Rightarrow> (bool \<times> 'a share_scheme) option" where
  "grow fw cache s =
     (let bigger = (if sh_room s = 0 then FIRST_ROOM else sh_room s * 2)
      in mem_alloc fw cache (ucast bigger * 24) s \<bind> (\<lambda>(e, s1).
         mem_alloc fw cache (ucast bigger * 4) s1 \<bind> (\<lambda>(k, s2).
         mem_alloc fw cache (ucast bigger * 4) s2 \<bind> (\<lambda>(f, s3).
           if e = None \<or> k = None \<or> f = None then
             Some (False, mem_free fw f (mem_free fw k (mem_free fw e s3)))
           else
             (let s4 = mem_free fw (by_frame_at s3) (mem_free fw (by_key_at s3) (mem_free fw (entries_at s3) s3));
                  s5 = s4\<lparr>entries := take (unat (sh_room s)) (entries s3) @
                              replicate (unat bigger - unat (sh_room s)) entry0,
                            by_key := replicate (unat bigger) 0, by_frame := replicate (unat bigger) 0,
                            entries_at := e, by_key_at := k, by_frame_at := f,
                            sh_room := bigger, free_head := 0\<rparr>
              in Some (True, fold grow_entry (rev [0..<unat bigger]) s5))))))"

definition shared_find :: "u32 \<Rightarrow> u32 \<Rightarrow> 'a share_scheme \<Rightarrow> (u64 \<times> 'a share_scheme) option" where
  "shared_find start index s =
     (if sh_room s = 0 then Some (0, s)
      else
        walk_to (\<lambda>x. e_start (entries s ! (unat x - 1)) = start \<and> e_index (entries s ! (unat x - 1)) = index)
          (key_get s) (Head (unat (key_hash s start index))) \<bind> (\<lambda>at.
            if key_get s at = 0 then Some (0, s)
            else
              let i = unat (key_get s at) - 1; e = entries s ! i
              in Some (ucast (e_frame e) * PAGE, put_entry i (e\<lparr>e_refs := e_refs e + 1\<rparr>) s)))"

text \<open>The entry taken off the free chain, and the chains it goes on: \<open>shared_add\<close> and \<open>shared_adopt\<close>.\<close>

definition take_entry :: "entry \<Rightarrow> 'a share_scheme \<Rightarrow> u32 \<times> 'a share_scheme" where
  "take_entry e s =
     (let i = free_head s - 1
      in (i, put_entry (unat i) e (s\<lparr>free_head := e_next_key (entries s ! unat i)\<rparr>)))"

definition shared_add ::
  "'a share_scheme firmware \<Rightarrow> 'a share_scheme shrinker \<Rightarrow> u32 \<Rightarrow> u32 \<Rightarrow> u64 \<Rightarrow> 'a share_scheme \<Rightarrow> (bool \<times> 'a share_scheme) option" where
  "shared_add fw cache start index page s =
     (if free_head s = 0 then grow fw cache s else Some (True, s)) \<bind> (\<lambda>(ok, s1).
        if \<not> ok then Some (False, s1)
        else
          let (i, s2) = take_entry (entry0\<lparr>e_start := start, e_index := index,
                          e_frame := ucast (page div PAGE), e_refs := 1\<rparr>) s1;
              s3 = link_frame i (link_key i s2)
          in Some (True, s3\<lparr>sh_used := sh_used s3 + 1\<rparr>))"

definition shared_adopt ::
  "'a share_scheme firmware \<Rightarrow> 'a share_scheme shrinker \<Rightarrow> u64 \<Rightarrow> 'a share_scheme \<Rightarrow> (bool \<times> 'a share_scheme) option" where
  "shared_adopt fw cache page s =
     (if free_head s = 0 then grow fw cache s else Some (True, s)) \<bind> (\<lambda>(ok, s1).
        if \<not> ok then Some (False, s1)
        else
          let (i, s2) = take_entry (entry0\<lparr>e_frame := ucast (page div PAGE), e_refs := 1\<rparr>) s1;
              s3 = link_frame i s2
          in Some (True, s3\<lparr>sh_used := sh_used s3 + 1\<rparr>))"

text \<open>The entry off its chains and onto the free one.\<close>

definition unlink_entry :: "link \<Rightarrow> nat \<Rightarrow> 'a share_scheme \<Rightarrow> 'a share_scheme option" where
  "unlink_entry link i s =
     (let s1 = frame_put link (e_next_frame (entries s ! i)) s
      in if e_start (entries s1 ! i) \<noteq> 0 then unlink_key (of_nat i) s1 else Some s1)"

definition free_entry :: "nat \<Rightarrow> 'a share_scheme \<Rightarrow> 'a share_scheme" where
  "free_entry i s =
     (let s1 = put_entry i ((entries s ! i)\<lparr>e_next_key := free_head s\<rparr>) s
      in s1\<lparr>free_head := of_nat i + 1, sh_used := sh_used s1 - 1\<rparr>)"

definition shared_take :: "u64 \<Rightarrow> 'a share_scheme \<Rightarrow> (bool \<times> 'a share_scheme) option" where
  "shared_take page s =
     of_frame page s \<bind> (\<lambda>link.
       if frame_get s link = 0 then Some (False, s)
       else
         let i = unat (frame_get s link) - 1
         in if e_refs (entries s ! i) \<noteq> 1 then Some (False, s)
            else unlink_entry link i s \<bind> (\<lambda>s1.
              Some (True, free_entry i (put_entry i ((entries s1 ! i)\<lparr>e_refs := 0\<rparr>) s1))))"

definition shared_hold :: "u64 \<Rightarrow> 'a share_scheme \<Rightarrow> 'a share_scheme option" where
  "shared_hold page s =
     of_frame page s \<bind> (\<lambda>link.
       if frame_get s link = 0 then Some s
       else
         let i = unat (frame_get s link) - 1; e = entries s ! i
         in Some (put_entry i (e\<lparr>e_refs := e_refs e + 1\<rparr>) s))"

definition shared_drop :: "'a share_scheme firmware \<Rightarrow> u64 \<Rightarrow> 'a share_scheme \<Rightarrow> 'a share_scheme option" where
  "shared_drop fw page s =
     of_frame page s \<bind> (\<lambda>link.
       if frame_get s link = 0 then Some s
       else
         let i = unat (frame_get s link) - 1;
             e = entries s ! i;
             s1 = put_entry i (e\<lparr>e_refs := e_refs e - 1\<rparr>) s
         in if e_refs e - 1 > 0 then Some s1
            else unlink_entry link i s1 \<bind> (\<lambda>s2. Some (free_entry i (mem_pages_free fw page 1 s2))))"

definition written_over :: "u32 \<Rightarrow> u32 \<Rightarrow> entry \<Rightarrow> bool" where
  "written_over lba count e \<longleftrightarrow>
     (let first = e_start e + e_index e * SECTORS
      in e_refs e \<noteq> 0 \<and> e_start e \<noteq> 0 \<and> first < lba + count \<and> lba < first + SECTORS)"

fun written_from :: "u32 \<Rightarrow> u32 \<Rightarrow> nat list \<Rightarrow> 'a share_scheme \<Rightarrow> 'a share_scheme option" where
  "written_from lba count [] s = Some s"
| "written_from lba count (i # is) s =
     (if written_over lba count (entries s ! i)
      then unlink_key (of_nat i) s \<bind> written_from lba count is
      else written_from lba count is s)"

definition shared_written :: "u32 \<Rightarrow> u32 \<Rightarrow> 'a share_scheme \<Rightarrow> 'a share_scheme option" where
  "shared_written lba count s = written_from lba count [0..<unat (sh_room s)] s"

definition shared_bytes :: "'a share_scheme \<Rightarrow> u64" where
  "shared_bytes s = ucast (sh_used s) * 4096 + (if sh_room s \<noteq> 0 then ucast (sh_room s) * (24 + 2 * 4) else 0)"

section \<open>The invariant\<close>

text \<open>An entry without its place in the chains, which is what the table promises to keep.\<close>

definition core :: "entry \<Rightarrow> entry" where
  "core e = e\<lparr>e_next_key := 0, e_next_frame := 0\<rparr>"

definition cores :: "'a share_scheme \<Rightarrow> entry list" where
  "cores s = map core (entries s)"

definition key_place :: "'a share_scheme \<Rightarrow> nat \<Rightarrow> nat option" where
  "key_place s i =
     (let e = cores s ! i
      in if e_refs e = 0 then Some (length (by_key s))
         else if e_start e \<noteq> 0 then Some (unat (key_hash s (e_start e) (e_index e))) else None)"

definition frame_place :: "'a share_scheme \<Rightarrow> nat \<Rightarrow> nat option" where
  "frame_place s i =
     (let e = cores s ! i in if e_refs e = 0 then None else Some (unat (frame_hash s (e_frame e))))"

definition live :: "'a share_scheme \<Rightarrow> nat set" where
  "live s = {i. i < length (cores s) \<and> e_refs (cores s ! i) \<noteq> 0}"

definition share_inv :: "'a share_scheme \<Rightarrow> bool" where
  "share_inv s \<longleftrightarrow> length (entries s) = unat (sh_room s) \<and> length (by_key s) = unat (sh_room s) \<and>
     length (by_frame s) = unat (sh_room s) \<and>
     table (key_get s) (Suc (unat (sh_room s))) (unat (sh_room s)) (key_place s) \<and>
     table (frame_get s) (unat (sh_room s)) (unat (sh_room s)) (frame_place s) \<and>
     sh_used s = of_nat (card (live s))"

subsection \<open>The two sets of chains as tables\<close>

definition key_valid :: "'a share_scheme \<Rightarrow> link \<Rightarrow> bool" where
  "key_valid s l = (case l of Head h \<Rightarrow> h \<le> length (by_key s) | Next i \<Rightarrow> i < length (entries s))"

definition frame_valid :: "'a share_scheme \<Rightarrow> link \<Rightarrow> bool" where
  "frame_valid s l = (case l of Head h \<Rightarrow> h < length (by_frame s) | Next i \<Rightarrow> i < length (entries s))"

lemma key_get_put: "key_valid s l \<Longrightarrow> key_get (key_put l v s) = (key_get s)(l := v)"
  by (rule ext, rename_tac k, case_tac k; cases l) (auto simp: key_valid_def nth_list_update)

lemma frame_get_put: "frame_valid s l \<Longrightarrow> frame_get (frame_put l v s) = (frame_get s)(l := v)"
  by (rule ext, rename_tac k, case_tac k; cases l) (auto simp: frame_valid_def nth_list_update)

lemma core_simps [simp]:
  "core (e\<lparr>e_next_key := v\<rparr>) = core e" "core (e\<lparr>e_next_frame := v\<rparr>) = core e" "core (core e) = core e"
  "e_refs (core e) = e_refs e" "e_start (core e) = e_start e" "e_index (core e) = e_index e" "e_frame (core e) = e_frame e"
  "core (e\<lparr>e_start := a\<rparr>) = (core e)\<lparr>e_start := a\<rparr>" "core (e\<lparr>e_refs := b\<rparr>) = (core e)\<lparr>e_refs := b\<rparr>"
  by (simp_all add: core_def)

lemma cores_upd [simp]:
  "cores (s\<lparr>entries := es\<rparr>) = map core es" "cores (s\<lparr>by_key := a\<rparr>) = cores s" "cores (s\<lparr>by_frame := b\<rparr>) = cores s"
  "cores (s\<lparr>free_head := c\<rparr>) = cores s" "cores (s\<lparr>sh_used := d\<rparr>) = cores s"
  by (simp_all add: cores_def)

lemma map_upd_same: "f x = f (xs ! i) \<Longrightarrow> map f (xs[i := x]) = map f xs"
  by (metis list_update_id map_update)

lemma nth_upd_same: "f x = f (xs ! i) \<Longrightarrow> f (xs[i := x] ! j) = f (xs ! j)"
  by (cases "i = j"; cases "i < length xs") (auto simp: list_update_beyond)

lemma key_put_simps [simp]:
  "cores (key_put l v s) = cores s" "frame_get (key_put l v s) = frame_get s" "by_frame (key_put l v s) = by_frame s"
  "sh_room (key_put l v s) = sh_room s" "sh_used (key_put l v s) = sh_used s"
  "length (entries (key_put l v s)) = length (entries s)" "length (by_key (key_put l v s)) = length (by_key s)"
  "mem.truncate (key_put l v s) = mem.truncate s"
proof -
  show "frame_get (key_put l v s) = frame_get s"
    by (rule ext, rename_tac k, case_tac k; cases l) (auto simp: nth_upd_same [of e_next_frame] nth_upd_same [of e_next_key])
qed (cases l; auto simp: cores_def map_upd_same mem.truncate_def)+

lemma frame_put_simps [simp]:
  "cores (frame_put l v s) = cores s" "key_get (frame_put l v s) = key_get s" "by_key (frame_put l v s) = by_key s"
  "sh_room (frame_put l v s) = sh_room s" "sh_used (frame_put l v s) = sh_used s" "free_head (frame_put l v s) = free_head s"
  "length (entries (frame_put l v s)) = length (entries s)" "length (by_frame (frame_put l v s)) = length (by_frame s)"
  "mem.truncate (frame_put l v s) = mem.truncate s"
proof -
  show "key_get (frame_put l v s) = key_get s"
    by (rule ext, rename_tac k, case_tac k; cases l) (auto simp: nth_upd_same [of e_next_frame] nth_upd_same [of e_next_key])
qed (cases l; auto simp: cores_def map_upd_same mem.truncate_def)+

interpretation keys: chain_store key_get key_put key_valid
  by unfold_locales (auto simp: key_get_put key_valid_def split: link.splits)

interpretation frames: chain_store frame_get frame_put frame_valid
  by unfold_locales (auto simp: frame_get_put frame_valid_def split: link.splits)

lemma put_entry_simps [simp]:
  "sh_room (put_entry i e s) = sh_room s" "by_key (put_entry i e s) = by_key s" "by_frame (put_entry i e s) = by_frame s"
  "free_head (put_entry i e s) = free_head s" "sh_used (put_entry i e s) = sh_used s"
  "length (entries (put_entry i e s)) = length (entries s)" "cores (put_entry i e s) = (cores s)[i := core e]"
  "entries (put_entry i e s) = (entries s)[i := e]" "mem.truncate (put_entry i e s) = mem.truncate s"
  by (simp_all add: put_entry_def cores_def map_update mem.truncate_def)

lemma key_get_put_entry:
  "e_next_key e = e_next_key (entries s ! i) \<Longrightarrow> key_get (put_entry i e s) = key_get s"
  by (rule ext, rename_tac k, case_tac k) (simp_all add: nth_upd_same [of e_next_key])

lemma frame_get_put_entry:
  "e_next_frame e = e_next_frame (entries s ! i) \<Longrightarrow> frame_get (put_entry i e s) = frame_get s"
  by (rule ext, rename_tac k, case_tac k) (simp_all add: nth_upd_same [of e_next_frame])

lemma key_place_upd:
  "cores t = (cores s)[i := e] \<Longrightarrow> i < length (cores s) \<Longrightarrow> sh_room t = sh_room s \<Longrightarrow> length (by_key t) = length (by_key s) \<Longrightarrow>
   key_place t = (key_place s)(i := (if e_refs e = 0 then Some (length (by_key s))
      else if e_start e \<noteq> 0 then Some (unat (key_hash s (e_start e) (e_index e))) else None))"
  by (rule ext) (auto simp: key_place_def Let_def nth_list_update key_hash_def)

lemma frame_place_upd:
  "cores t = (cores s)[i := e] \<Longrightarrow> i < length (cores s) \<Longrightarrow> sh_room t = sh_room s \<Longrightarrow>
   frame_place t = (frame_place s)(i := (if e_refs e = 0 then None else Some (unat (frame_hash s (e_frame e)))))"
  by (rule ext) (auto simp: frame_place_def Let_def nth_list_update frame_hash_def)

lemma hash_less: "room \<noteq> 0 \<Longrightarrow> unat (x AND (room - 1)) < unat room" for x room :: u32
  by (metis unat_pred_less word_and_le1 word_le_unat le_less_trans)

lemma length_cores [simp]: "length (cores s) = length (entries s)"
  by (simp add: cores_def)

lemma number_of_nat: "of_nat i + 1 = number i"
  by (simp add: number_def)

lemmas link_simps = key_put.simps frame_put.simps key_get.simps frame_get.simps
declare link_simps [simp del]

text \<open>The arrays are as long as there is room for entries, which is what every operation indexes within.\<close>

definition lens :: "'a share_scheme \<Rightarrow> bool" where
  "lens s \<longleftrightarrow> length (entries s) = unat (sh_room s) \<and> length (by_key s) = unat (sh_room s) \<and>
     length (by_frame s) = unat (sh_room s)"

abbreviation key_table :: "'a share_scheme \<Rightarrow> (nat \<Rightarrow> nat option) \<Rightarrow> bool" where
  "key_table s kp \<equiv> table (key_get s) (Suc (unat (sh_room s))) (unat (sh_room s)) kp"

abbreviation frame_table :: "'a share_scheme \<Rightarrow> (nat \<Rightarrow> nat option) \<Rightarrow> bool" where
  "frame_table s fp \<equiv> table (frame_get s) (unat (sh_room s)) (unat (sh_room s)) fp"

lemma share_inv_tables:
  "share_inv s \<longleftrightarrow> lens s \<and> key_table s (key_place s) \<and> frame_table s (frame_place s) \<and> sh_used s = of_nat (card (live s))"
  by (auto simp: share_inv_def lens_def)

lemma lens_index:
  assumes "lens s" and i: "i < unat (sh_room s)"
  shows "unat (key_hash s a b) < unat (sh_room s)" "unat (frame_hash s c) < unat (sh_room s)"
    "unat (of_nat i :: u32) = i" "i < length (entries s)" "cores s ! i = core (entries s ! i)"
    "key_valid s (Next i)" "frame_valid s (Next i)" "h < unat (sh_room s) \<Longrightarrow> key_valid s (Head h)"
    "key_valid s (Head (unat (sh_room s)))" "h < unat (sh_room s) \<Longrightarrow> frame_valid s (Head h)"
proof -
  have "sh_room s \<noteq> 0" using i by auto
  then show k: "unat (key_hash s a b) < unat (sh_room s)" "unat (frame_hash s c) < unat (sh_room s)" for a b c
    by (simp_all add: key_hash_def frame_hash_def hash_less)
  have "i < 2 ^ 32" using i unat_bound [of "sh_room s"] by simp
  then show "unat (of_nat i :: u32) = i" by (simp add: unsigned_of_nat take_bit_nat_eq_self)
qed (use assms in \<open>auto simp: lens_def cores_def key_valid_def frame_valid_def\<close>)

subsection \<open>Entries on and off the chains\<close>

lemma unlink_key_table:
  assumes ln: "lens s" and i: "i < unat (sh_room s)" and tab: "key_table s kp"
    and h: "kp i = Some (unat (key_hash s (e_start (cores s ! i)) (e_index (cores s ! i))))"
  shows "\<exists>t. unlink_key (of_nat i) s = Some t \<and> lens t \<and> key_table t (kp(i := None)) \<and>
    cores t = (cores s)[i := (cores s ! i)\<lparr>e_start := 0\<rparr>] \<and> frame_get t = frame_get s \<and> sh_room t = sh_room s \<and>
    free_head t = free_head s \<and> sh_used t = sh_used s \<and> mem.truncate t = mem.truncate s"
proof -
  define h where "h = unat (key_hash s (e_start (cores s ! i)) (e_index (cores s ! i)))"
  note ix = lens_index [OF ln i]
  have hr: "h < unat (sh_room s)" "kp i = Some h" using ix(1) assms(4) by (simp_all add: h_def)
  have val: "key_valid s (Head h)" "\<And>j. j < unat (sh_room s) \<Longrightarrow> key_valid s (Next j)"
    using ix(8) hr(1) lens_index(6) [OF ln] by auto
  obtain l where l: "walk_to (\<lambda>x. x = number i) (key_get s) (Head h) = Some l" "key_get s l = number i"
      "l = Head h \<or> (\<exists>j < unat (sh_room s). l = Next j)" "key_table (key_put l (key_get s (Next i)) s) (kp(i := None))"
    using keys.unlink [OF tab less_SucI [OF hr(1)] i hr(2) val] by (metis key_put_simps(4))
  define s1 where "s1 = key_put l (key_get s (Next i)) s"
  define t where "t = put_entry i ((entries s1 ! i)\<lparr>e_start := 0\<rparr>) s1"
  have "unlink_key (of_nat i) s = Some t"
    using l(1,2) ix(3) unfolding unlink_key_def Let_def number_of_nat h_def ix(5)
    by (simp add: s1_def t_def number_of_nat)
  moreover have "cores t = (cores s)[i := (cores s ! i)\<lparr>e_start := 0\<rparr>]"
  proof -
    have "core (entries s1 ! i) = cores s1 ! i" using ix(4) by (simp add: cores_def s1_def)
    then show ?thesis by (simp add: t_def s1_def)
  qed
  moreover have "key_get t = key_get s1" "frame_get t = frame_get s"
    by (simp_all add: t_def key_get_put_entry frame_get_put_entry) (simp add: s1_def)
  moreover have "free_head t = free_head s" using hr(1) l(3) ln by (auto simp: t_def s1_def lens_def link_simps)
  ultimately show ?thesis
    using l(4) ln by (auto simp: lens_def t_def s1_def)
qed

lemma link_key_table:
  assumes ln: "lens s" and i: "i < unat (sh_room s)" and tab: "key_table s kp" and "kp i = None"
  defines "t \<equiv> link_key (of_nat i) s"
  shows "lens t" "key_table t (kp(i := Some (unat (key_hash s (e_start (cores s ! i)) (e_index (cores s ! i))))))"
    "cores t = cores s" "frame_get t = frame_get s" "sh_room t = sh_room s" "free_head t = free_head s"
    "sh_used t = sh_used s" "mem.truncate t = mem.truncate s"
proof -
  note ix = lens_index [OF ln i]
  define h where "h = unat (key_hash s (e_start (cores s ! i)) (e_index (cores s ! i)))"
  have hr: "h < unat (sh_room s)" using ix(1) by (simp add: h_def)
  have t: "t = key_put (Head h) (number i) (key_put (Next i) (key_get s (Head h)) s)"
    unfolding t_def link_key_def Let_def ix(3) number_of_nat h_def ix(5) by simp
  show "key_table t (kp(i := Some (unat (key_hash s (e_start (cores s ! i)) (e_index (cores s ! i))))))"
    using keys.push [OF tab i assms(4) less_SucI [OF hr] ix(6) ix(8) [OF hr]] unfolding t h_def [symmetric] by simp
  show "lens t" using ln unfolding t by (simp add: lens_def)
  show "free_head t = free_head s" using hr ln unfolding t by (simp add: lens_def link_simps)
qed (simp_all add: t_def link_key_def Let_def)

lemma link_frame_table:
  assumes ln: "lens s" and i: "i < unat (sh_room s)" and tab: "frame_table s fp" and "fp i = None"
  defines "t \<equiv> link_frame (of_nat i) s"
  shows "lens t" "frame_table t (fp(i := Some (unat (frame_hash s (e_frame (cores s ! i))))))"
    "cores t = cores s" "key_get t = key_get s" "sh_room t = sh_room s" "free_head t = free_head s"
    "sh_used t = sh_used s" "mem.truncate t = mem.truncate s" "by_key t = by_key s"
proof -
  note ix = lens_index [OF ln i]
  define h where "h = unat (frame_hash s (e_frame (cores s ! i)))"
  have hr: "h < unat (sh_room s)" using ix(2) by (simp add: h_def)
  have t: "t = frame_put (Head h) (number i) (frame_put (Next i) (frame_get s (Head h)) s)"
    unfolding t_def link_frame_def Let_def ix(3) number_of_nat h_def ix(5) by simp
  show "frame_table t (fp(i := Some (unat (frame_hash s (e_frame (cores s ! i))))))"
    using frames.push [OF tab i assms(4) hr ix(7) ix(10) [OF hr]] unfolding t h_def [symmetric] by simp
  show "lens t" using ln unfolding t by (simp add: lens_def)
qed (simp_all add: t_def link_frame_def Let_def)

lemma free_entry_table:
  assumes ln: "lens s" and i: "i < unat (sh_room s)" and tab: "key_table s kp" and "kp i = None"
  shows "lens (free_entry i s)" "key_table (free_entry i s) (kp(i := Some (unat (sh_room s))))"
    "cores (free_entry i s) = cores s" "frame_get (free_entry i s) = frame_get s" "sh_room (free_entry i s) = sh_room s"
    "sh_used (free_entry i s) = sh_used s - 1" "mem.truncate (free_entry i s) = mem.truncate s"
proof -
  note ix = lens_index [OF ln i]
  let ?r = "unat (sh_room s)"
  define t where "t = key_put (Head ?r) (number i) (key_put (Next i) (key_get s (Head ?r)) s)"
  have f: "free_entry i s = t\<lparr>sh_used := sh_used s - 1\<rparr>"
    using ln by (simp add: free_entry_def Let_def t_def lens_def put_entry_def number_of_nat link_simps)
  have "key_table t (kp(i := Some ?r))"
    using keys.push [OF tab i assms(4) lessI ix(6,9)] by (simp add: t_def)
  moreover have "key_get (free_entry i s) = key_get t" "frame_get (free_entry i s) = frame_get t"
    unfolding f by (rule ext, rename_tac k, case_tac k; simp add: link_simps)+
  ultimately show "key_table (free_entry i s) (kp(i := Some ?r))" "frame_get (free_entry i s) = frame_get s"
    unfolding f by (simp_all add: t_def)
  show "lens (free_entry i s)" using ln by (simp add: f t_def lens_def)
  show "cores (free_entry i s) = cores s" "sh_room (free_entry i s) = sh_room s" "sh_used (free_entry i s) = sh_used s - 1"
    by (simp_all add: f t_def)
  show "mem.truncate (free_entry i s) = mem.truncate s"
    by (simp add: free_entry_def Let_def put_entry_def mem.truncate_def)
qed

lemma take_entry_table:
  assumes ln: "lens s" and tab: "key_table s kp" and fh: "free_head s \<noteq> 0"
  shows "\<exists>i t. take_entry e s = (of_nat i, t) \<and> i < unat (sh_room s) \<and> kp i = Some (unat (sh_room s)) \<and> lens t \<and>
    key_table t (kp(i := None)) \<and> cores t = (cores s)[i := core e] \<and> sh_room t = sh_room s \<and> sh_used t = sh_used s \<and>
    mem.truncate t = mem.truncate s \<and> (\<forall>l. l \<noteq> Next i \<longrightarrow> frame_get t l = frame_get s l) \<and> by_frame t = by_frame s"
proof -
  let ?r = "unat (sh_room s)"
  have kr: "key_get s (Head ?r) = free_head s" using ln by (simp add: lens_def link_simps)
  obtain ns where ns: "linked (key_get s) (Head ?r) (map number ns)" "set ns = {i. i < ?r \<and> kp i = Some ?r}"
    using tab by (auto simp: table_def)
  then obtain i js where i: "ns = i # js" "free_head s = number i" using kr fh by (cases ns) auto
  have ir: "i < ?r" "kp i = Some ?r" using ns(2) i(1) by auto
  note ix = lens_index [OF ln ir(1)]
  have fi: "free_head s - 1 = of_nat i" using i(2) by (simp add: number_def)
  have w: "walk_to (\<lambda>x. x = number i) (key_get s) (Head ?r) = Some (Head ?r)"
    using kr i(2) by (subst walk_to.simps) simp
  define s1 where "s1 = s\<lparr>free_head := e_next_key (entries s ! i)\<rparr>"
  define t where "t = put_entry i e s1"
  have te: "take_entry e s = (of_nat i, t)"
    unfolding take_entry_def Let_def fi ix(3) by (simp add: t_def s1_def)
  have "table ((key_get s)(Head ?r := key_get s (Next i))) (Suc ?r) ?r (kp(i := None))"
    using table_unlink [OF tab lessI ir(2,1) w] kr i(2) by simp
  then have "table (key_get t) (Suc ?r) ?r (kp(i := None))"
    by (rule table_cong) (use ln in \<open>auto simp: t_def s1_def lens_def nth_list_update link_simps split: if_splits\<close>)
  moreover have "frame_get t l = frame_get s l" if "l \<noteq> Next i" for l
    using that by (cases l) (auto simp: t_def s1_def link_simps)
  ultimately show ?thesis
    using te ir ln by (auto simp: t_def s1_def lens_def put_entry_def mem.truncate_def cores_def map_update)
qed

lemma unlink_entry_table:
  assumes ln: "lens s" and i: "i < unat (sh_room s)" and kt: "key_table s kp" and ft: "frame_table s fp"
    and k: "kp i = (if e_start (cores s ! i) \<noteq> 0
      then Some (unat (key_hash s (e_start (cores s ! i)) (e_index (cores s ! i)))) else None)"
    and f: "fp i = Some h" "h < unat (sh_room s)"
    and w: "walk_to P (frame_get s) (Head h) = Some link" "frame_get s link = number i"
      "link = Head h \<or> (\<exists>j < unat (sh_room s). link = Next j \<and> j \<noteq> i)"
  shows "\<exists>t. unlink_entry link i s = Some t \<and> lens t \<and> key_table t (kp(i := None)) \<and> frame_table t (fp(i := None)) \<and>
    cores t = (cores s)[i := (cores s ! i)\<lparr>e_start := 0\<rparr>] \<and> sh_room t = sh_room s \<and> sh_used t = sh_used s \<and>
    mem.truncate t = mem.truncate s"
proof -
  note ix = lens_index [OF ln i]
  define s1 where "s1 = frame_put link (e_next_frame (entries s ! i)) s"
  have "frame_valid s link" using w(3) f(2) lens_index [OF ln] i by auto
  then have "frame_get s1 = (frame_get s)(link := frame_get s (Next i))"
    by (simp add: s1_def frame_get_put) (simp add: link_simps)
  then have ft1: "frame_table s1 (fp(i := None))"
    using table_unlink [OF ft f(2,1) i w(1,2)] by (simp add: s1_def)
  have ln1: "lens s1" and kt1: "key_table s1 kp" and c1: "cores s1 = cores s" and r1: "sh_room s1 = sh_room s"
    using ln kt by (simp_all add: s1_def lens_def)
  have st: "e_start (entries s1 ! i) = e_start (cores s ! i)"
    using lens_index(5) [OF ln1] i r1 c1 by (metis core_simps(5))
  show ?thesis
  proof (cases "e_start (cores s ! i) = 0")
    case True
    have "kp(i := None) = kp" "(cores s)[i := (cores s ! i)\<lparr>e_start := 0\<rparr>] = cores s"
      using k True by (auto simp: fun_upd_idem list_update_same_conv ix(4) intro: list_update_id [THEN subst])
    then show ?thesis
      using True st ln1 kt1 ft1 c1 unfolding unlink_entry_def Let_def s1_def [symmetric] by (simp add: s1_def)
  next
    case False
    have "kp i = Some (unat (key_hash s1 (e_start (cores s1 ! i)) (e_index (cores s1 ! i))))"
      using k False by (simp add: s1_def key_hash_def)
    from unlink_key_table [OF ln1 _ kt1 this] i r1 show ?thesis
      using False st ft1 c1 unfolding unlink_entry_def Let_def s1_def [symmetric] by (auto simp: s1_def)
  qed
qed

lemma share_inv_walk:
  assumes inv: "share_inv s" and i: "i < unat (sh_room s)"
  shows "unat (number i) - 1 = i"
  using inv i by (simp add: share_inv_def table_def unat_number)

text \<open>The entry a frame is found by.\<close>

lemma of_frame_cases:
  fixes page :: u64
  assumes inv: "share_inv s" and room: "sh_room s \<noteq> 0"
  defines "frame \<equiv> ucast (page div PAGE) :: u32"
  obtains (found) i link where "of_frame page s = Some link" "frame_get s link = number i" "i \<in> live s"
      "e_frame (cores s ! i) = frame" "frame_place s i = Some (unat (frame_hash s frame))"
      "link = Head (unat (frame_hash s frame)) \<or> (\<exists>j < unat (sh_room s). link = Next j \<and> j \<noteq> i)"
      "of_frame page s = walk_to (\<lambda>x. e_frame (entries s ! (unat x - 1)) = frame) (frame_get s) (Head (unat (frame_hash s frame)))"
    | (absent) link where "of_frame page s = Some link" "frame_get s link = 0" "\<forall>i \<in> live s. e_frame (cores s ! i) \<noteq> frame"
proof -
  have ln: "lens s" and ft: "frame_table s (frame_place s)" using inv by (auto simp: share_inv_tables)
  have pos: "0 < unat (sh_room s)" using room by (simp add: unat_gt_0)
  have hr: "unat (frame_hash s frame) < unat (sh_room s)" using lens_index(2) [OF ln pos] .
  have eq: "of_frame page s = walk_to (\<lambda>x. e_frame (entries s ! (unat x - 1)) = frame) (frame_get s) (Head (unat (frame_hash s frame)))"
    by (simp add: of_frame_def Let_def frame_def)
  have P: "e_frame (entries s ! (unat (number i) - 1)) = e_frame (cores s ! i)" if "i < unat (sh_room s)" for i
    using that share_inv_walk [OF inv that] lens_index(5) [OF ln that] by simp
  have live: "i \<in> live s \<longleftrightarrow> i < unat (sh_room s) \<and> frame_place s i \<noteq> None" for i
    using ln by (auto simp: live_def frame_place_def Let_def lens_def)
  show thesis
    using ft hr
  proof (cases rule: table_walk [where P = "\<lambda>x. e_frame (entries s ! (unat x - 1)) = frame"])
    case (found i l)
    then show thesis using that(1) [of l i] eq P [of i] live [of i] by auto
  next
    case (absent l)
    have "e_frame (cores s ! i) \<noteq> frame" if "i \<in> live s" for i
    proof
      assume f: "e_frame (cores s ! i) = frame"
      have "frame_place s i = Some (unat (frame_hash s frame))"
        using that f by (simp add: live_def frame_place_def Let_def)
      then show False using absent(3) [of i] that live [of i] P [of i] f by auto
    qed
    then show thesis using that(2) [of l] eq absent by auto
  qed
qed

lemma put_refs_inv:
  assumes inv: "share_inv s" and i: "i \<in> live s" and r: "r \<noteq> 0"
  defines "t \<equiv> put_entry i ((entries s ! i)\<lparr>e_refs := r\<rparr>) s"
  shows "share_inv t" "cores t = (cores s)[i := (cores s ! i)\<lparr>e_refs := r\<rparr>]" "sh_room t = sh_room s"
    "mem.truncate t = mem.truncate s" "live t = live s"
proof -
  have ln: "lens s" using inv by (simp add: share_inv_tables)
  have ir: "i < unat (sh_room s)" using i ln by (simp add: live_def lens_def)
  note ix = lens_index [OF ln ir]
  show ct: "cores t = (cores s)[i := (cores s ! i)\<lparr>e_refs := r\<rparr>]" using ix(5) by (simp add: t_def)
  have "key_get t = key_get s" "frame_get t = frame_get s"
    by (simp_all add: t_def key_get_put_entry frame_get_put_entry)
  moreover have "key_place t = key_place s"
    using key_place_upd [OF ct] ix(4) i r by (auto simp: t_def key_place_def Let_def live_def)
  moreover have "frame_place t = frame_place s"
    using frame_place_upd [OF ct] ix(4) i r by (auto simp: t_def frame_place_def Let_def live_def)
  moreover show "live t = live s" using i r ix(4) unfolding live_def ct by (auto simp: nth_list_update)
  moreover have "lens t" using ln by (simp add: t_def lens_def)
  ultimately show "share_inv t" using inv by (simp add: share_inv_tables) (simp add: t_def)
qed (simp_all add: t_def)

subsection \<open>Finding\<close>

lemma shared_find_cases:
  assumes inv: "share_inv s" and st: "start \<noteq> 0"
  obtains (found) i where "i \<in> live s" "e_start (cores s ! i) = start" "e_index (cores s ! i) = index"
      "shared_find start index s =
         Some (ucast (e_frame (cores s ! i)) * PAGE, put_entry i ((entries s ! i)\<lparr>e_refs := e_refs (cores s ! i) + 1\<rparr>) s)"
    | (absent) "shared_find start index s = Some (0, s)"
      "\<forall>i \<in> live s. \<not> (e_start (cores s ! i) = start \<and> e_index (cores s ! i) = index)"
proof (cases "sh_room s = 0")
  case True
  then show thesis using absent inv by (simp add: shared_find_def live_def share_inv_def)
next
  case False
  have ln: "lens s" and kt: "key_table s (key_place s)" using inv by (auto simp: share_inv_tables)
  have pos: "0 < unat (sh_room s)" using False by (simp add: unat_gt_0)
  define h where "h = unat (key_hash s start index)"
  have hr: "h < unat (sh_room s)" using lens_index(1) [OF ln pos] by (simp add: h_def)
  define P where "P = (\<lambda>x :: u32. e_start (entries s ! (unat x - 1)) = start \<and> e_index (entries s ! (unat x - 1)) = index)"
  have P: "P (number i) \<longleftrightarrow> e_start (cores s ! i) = start \<and> e_index (cores s ! i) = index" if "i < unat (sh_room s)" for i
    using that share_inv_walk [OF inv that] lens_index(5) [OF ln that] by (simp add: P_def)
  have eq: "shared_find start index s = walk_to P (key_get s) (Head h) \<bind> (\<lambda>at.
      if key_get s at = 0 then Some (0, s)
      else let i = unat (key_get s at) - 1; e = entries s ! i
           in Some (ucast (e_frame e) * PAGE, put_entry i (e\<lparr>e_refs := e_refs e + 1\<rparr>) s))"
    using False by (simp add: shared_find_def h_def P_def)
  have live: "i \<in> live s" if "i < unat (sh_room s)" "key_place s i = Some h" for i
    using that hr ln by (auto simp: live_def key_place_def Let_def lens_def split: if_splits)
  show thesis
    using kt less_SucI [OF hr]
  proof (cases rule: table_walk [where P = P])
    case (found i l)
    then show thesis
      using that(1) [of i] eq P [of i] live [of i] share_inv_walk [OF inv found(3)] lens_index(5) [OF ln found(3)]
        number_nonzero [of i] kt by (auto simp: table_def Let_def)
  next
    case (absent l)
    have "\<not> (e_start (cores s ! i) = start \<and> e_index (cores s ! i) = index)" if "i \<in> live s" for i
    proof
      assume e: "e_start (cores s ! i) = start \<and> e_index (cores s ! i) = index"
      have ir: "i < unat (sh_room s)" using that ln by (simp add: live_def lens_def)
      have "key_place s i = Some h" using that e st by (simp add: live_def key_place_def Let_def h_def)
      then show False using absent(3) [OF ir] P [OF ir] e by simp
    qed
    then show thesis using that(2) eq absent by simp
  qed
qed

subsection \<open>Letting go\<close>

text \<open>An entry off both its chains and onto the free one, its references gone.\<close>

lemma released_inv:
  assumes inv: "share_inv s" and i: "i \<in> live s" and ln: "lens t"
    and kt: "key_table t ((key_place s)(i := None))" and ft: "frame_table t ((frame_place s)(i := None))"
    and ct: "cores t = (cores s)[i := e]" "e_refs e = 0" and r: "sh_room t = sh_room s" "sh_used t = sh_used s"
  shows "share_inv (free_entry i t)" "cores (free_entry i t) = (cores s)[i := e]"
    "live (free_entry i t) = live s - {i}" "mem.truncate (free_entry i t) = mem.truncate t" "sh_room (free_entry i t) = sh_room s"
proof -
  have lns: "lens s" using inv by (simp add: share_inv_tables)
  have ir: "i < unat (sh_room t)" "i < length (cores s)" using i lns r by (simp_all add: live_def lens_def)
  note fe = free_entry_table [OF ln ir(1) kt, simplified]
  show c: "cores (free_entry i t) = (cores s)[i := e]" using fe(3) ct by simp
  have kl: "length (by_key (free_entry i t)) = unat (sh_room s)" "length (by_key s) = unat (sh_room s)"
    using fe(1,5) r(1) lns by (simp_all add: lens_def)
  have "key_place (free_entry i t) = (key_place s)(i := Some (unat (sh_room t)))"
    using key_place_upd [OF c ir(2)] fe(5) r(1) ct(2) kl by simp
  moreover have "frame_place (free_entry i t) = (frame_place s)(i := None)"
    using frame_place_upd [OF c ir(2)] fe(5) r(1) ct(2) by simp
  moreover show lv: "live (free_entry i t) = live s - {i}"
    using ct(2) ir(2) unfolding live_def c by (auto simp: nth_list_update)
  have "finite (live s)" by (simp add: live_def)
  then have "of_nat (card (live s - {i})) = (of_nat (card (live s)) - 1 :: u32)"
    using card_Suc_Diff1 [of "live s" i] i by (metis add_diff_cancel_left' of_nat_Suc)
  then have "sh_used (free_entry i t) = of_nat (card (live (free_entry i t)))"
    using fe(6) r(2) inv lv by (simp add: share_inv_tables)
  ultimately show "share_inv (free_entry i t)" using fe(1,2,4,5) ft by (simp add: share_inv_tables)
  show "mem.truncate (free_entry i t) = mem.truncate t" "sh_room (free_entry i t) = sh_room s" using fe(5,7) r(1) by simp_all
qed

lemma live_key_place:
  "i \<in> live s \<Longrightarrow> key_place s i = (if e_start (cores s ! i) \<noteq> 0
     then Some (unat (key_hash s (e_start (cores s ! i)) (e_index (cores s ! i)))) else None)"
  by (simp add: live_def key_place_def Let_def)

text \<open>\<open>gone i s t\<close>: the entry \<open>i\<close>, and nothing else, has left the table.\<close>

definition gone :: "nat \<Rightarrow> 'a share_scheme \<Rightarrow> 'a share_scheme \<Rightarrow> bool" where
  "gone i s t \<longleftrightarrow> share_inv t \<and> sh_room t = sh_room s \<and> live t = live s - {i} \<and>
     (\<forall>j \<in> live t. cores t ! j = cores s ! j)"

lemma shared_take_cases:
  assumes inv: "share_inv s" and room: "sh_room s \<noteq> 0"
  obtains (taken) i t where "i \<in> live s" "e_frame (cores s ! i) = ucast (page div PAGE)" "e_refs (cores s ! i) = 1"
      "shared_take page s = Some (True, t)" "gone i s t" "mem.truncate t = mem.truncate s"
    | (shared) i where "i \<in> live s" "e_frame (cores s ! i) = ucast (page div PAGE)" "e_refs (cores s ! i) \<noteq> 1"
      "shared_take page s = Some (False, s)"
    | (absent) "shared_take page s = Some (False, s)" "\<forall>i \<in> live s. e_frame (cores s ! i) \<noteq> ucast (page div PAGE)"
  using inv room
proof (cases rule: of_frame_cases [where page = page])
  case (found i link)
  have ln: "lens s" and kt: "key_table s (key_place s)" and ft: "frame_table s (frame_place s)"
    using inv by (auto simp: share_inv_tables)
  have ir: "i < unat (sh_room s)" using found(3) ln by (simp add: live_def lens_def)
  note ix = lens_index [OF ln ir]
  have nz: "frame_get s link \<noteq> 0" "unat (frame_get s link) - 1 = i"
    using found(2) kt ir share_inv_walk [OF inv ir] number_nonzero [of i] by (auto simp: table_def)
  show thesis
  proof (cases "e_refs (cores s ! i) = 1")
    case False
    then have "shared_take page s = Some (False, s)"
      using found(1) nz ix(5) by (simp add: shared_take_def Let_def)
    then show thesis using shared found False by blast
  next
    case True
    from unlink_entry_table [OF ln ir kt ft live_key_place [OF found(3)] found(5) ix(2) trans [OF found(7) [symmetric] found(1)] found(2,6)]
    obtain s1 where s1: "unlink_entry link i s = Some s1" "lens s1" "key_table s1 ((key_place s)(i := None))"
      "frame_table s1 ((frame_place s)(i := None))" "cores s1 = (cores s)[i := (cores s ! i)\<lparr>e_start := 0\<rparr>]"
      "sh_room s1 = sh_room s" "sh_used s1 = sh_used s" "mem.truncate s1 = mem.truncate s" by auto
    define s2 where "s2 = put_entry i ((entries s1 ! i)\<lparr>e_refs := 0\<rparr>) s1"
    define e where "e = (cores s ! i)\<lparr>e_start := 0, e_refs := 0\<rparr>"
    have gets: "key_get s2 = key_get s1" "frame_get s2 = frame_get s1"
      by (simp_all add: s2_def key_get_put_entry frame_get_put_entry)
    have "core (entries s1 ! i) = (cores s ! i)\<lparr>e_start := 0\<rparr>"
      using s1(5) lens_index(5) [OF s1(2)] ir s1(6) ix(4) by (metis length_cores nth_list_update_eq)
    then have c2: "cores s2 = (cores s)[i := e]" by (simp add: s2_def s1(5) e_def)
    have "lens s2" using s1(2) by (simp add: s2_def lens_def)
    note rel = released_inv [OF inv found(3) this _ _ c2, unfolded gets]
    have st: "shared_take page s = Some (True, free_entry i s2)"
      using found(1) nz True ix(5) s1(1) by (simp add: shared_take_def Let_def s2_def)
    have g: "gone i s (free_entry i s2)"
      using rel s1 by (auto simp: gone_def s2_def e_def)
    show thesis using taken [OF found(3,4) True st g] rel(4) s1 by (simp add: s2_def e_def)
  qed
next
  case (absent link)
  then show thesis using that(3) by (simp add: shared_take_def)
qed

text \<open>The state of the table, which the allocator's operations leave alone.\<close>

definition share_fields :: "'a share_scheme \<Rightarrow> entry list \<times> u32 list \<times> u32 list \<times> u32 \<times> u32 \<times> u32" where
  "share_fields s = (entries s, by_key s, by_frame s, sh_room s, sh_used s, free_head s)"

lemma share_fields_same:
  assumes "share_fields t = share_fields s"
  shows "key_get t = key_get s" "frame_get t = frame_get s" "cores t = cores s" "lens t = lens s"
    "key_place t = key_place s" "frame_place t = frame_place s" "live t = live s" "share_inv t = share_inv s" "sh_room t = sh_room s"
proof -
  have f: "entries t = entries s" "by_key t = by_key s" "by_frame t = by_frame s" "sh_room t = sh_room s"
    "sh_used t = sh_used s" "free_head t = free_head s" using assms by (simp_all add: share_fields_def)
  show g: "key_get t = key_get s" "frame_get t = frame_get s"
    by (rule ext, rename_tac k, case_tac k; simp add: link_simps f)+
  show c: "cores t = cores s" "lens t = lens s" "live t = live s" by (simp_all add: cores_def lens_def live_def f)
  then show p: "key_place t = key_place s" "frame_place t = frame_place s"
    by (auto simp: key_place_def frame_place_def key_hash_def frame_hash_def f Let_def intro!: ext)
  show "share_inv t = share_inv s" "sh_room t = sh_room s" unfolding share_inv_tables g c p by (simp_all add: f)
qed

lemma rest_share_fields: "rest t = rest s \<Longrightarrow> share_fields t = share_fields s"
  by (cases t; cases s) (simp add: rest_def share_fields_def)

lemma mem_pages_free_rest: "ours s \<Longrightarrow> rest (mem_pages_free fw at count s) = rest s"
  by (simp add: mem_pages_free_def)

lemma ours_truncate: "mem.truncate t = mem.truncate s \<Longrightarrow> ours t = ours s"
  by (simp add: mem.truncate_def)

lemma shared_drop_cases:
  assumes inv: "share_inv s" and room: "sh_room s \<noteq> 0" and "ours s"
  obtains (last) i t u where "i \<in> live s" "e_frame (cores s ! i) = ucast (page div PAGE)" "e_refs (cores s ! i) = 1"
      "shared_drop fw page s = Some t" "gone i s t" "mem.truncate u = mem.truncate s"
      "mem.truncate t = mem.truncate (mem_pages_free fw page 1 u)" "ours u"
    | (shared) i t where "i \<in> live s" "e_frame (cores s ! i) = ucast (page div PAGE)" "e_refs (cores s ! i) \<noteq> 1"
      "shared_drop fw page s = Some t" "share_inv t" "live t = live s" "mem.truncate t = mem.truncate s"
      "cores t = (cores s)[i := (cores s ! i)\<lparr>e_refs := e_refs (cores s ! i) - 1\<rparr>]"
    | (absent) "shared_drop fw page s = Some s" "\<forall>i \<in> live s. e_frame (cores s ! i) \<noteq> ucast (page div PAGE)"
  using inv room
proof (cases rule: of_frame_cases [where page = page])
  case (found i link)
  have ln: "lens s" and kt: "key_table s (key_place s)" and ft: "frame_table s (frame_place s)"
    using inv by (auto simp: share_inv_tables)
  have ir: "i < unat (sh_room s)" using found(3) ln by (simp add: live_def lens_def)
  note ix = lens_index [OF ln ir]
  have nz: "frame_get s link \<noteq> 0" "unat (frame_get s link) - 1 = i"
    using found(2) kt ir share_inv_walk [OF inv ir] number_nonzero [of i] by (auto simp: table_def)
  have rf: "e_refs (entries s ! i) = e_refs (cores s ! i)" using ix(5) by simp
  define s1 where "s1 = put_entry i ((entries s ! i)\<lparr>e_refs := e_refs (cores s ! i) - 1\<rparr>) s"
  have sd: "shared_drop fw page s = (if e_refs (cores s ! i) - 1 > 0 then Some s1
      else unlink_entry link i s1 \<bind> (\<lambda>s2. Some (free_entry i (mem_pages_free fw page 1 s2))))"
    using found(1) nz unfolding shared_drop_def Let_def by (simp add: s1_def rf)
  show thesis
  proof (cases "e_refs (cores s ! i) = 1")
    case False
    then have "e_refs (cores s ! i) - 1 \<noteq> 0" by simp
    note pr = put_refs_inv [OF inv found(3) this, folded s1_def]
    have "shared_drop fw page s = Some s1" using sd \<open>e_refs (cores s ! i) - 1 \<noteq> 0\<close> by (simp add: word_gt_0)
    then show thesis using shared [OF found(3,4) False] pr by simp
  next
    case True
    have gets: "key_get s1 = key_get s" "frame_get s1 = frame_get s"
      by (simp_all add: s1_def key_get_put_entry frame_get_put_entry)
    have ln1: "lens s1" and r1: "sh_room s1 = sh_room s" using ln by (simp_all add: s1_def lens_def)
    have c1: "cores s1 = (cores s)[i := (cores s ! i)\<lparr>e_refs := 0\<rparr>]" using ix(5) True by (simp add: s1_def)
    have ki: "key_place s i = (if e_start (cores s1 ! i) \<noteq> 0
      then Some (unat (key_hash s1 (e_start (cores s1 ! i)) (e_index (cores s1 ! i)))) else None)"
      using live_key_place [OF found(3)] ix(4) by (simp add: c1 key_hash_def r1)
    have lk: "link = Head (unat (frame_hash s (ucast (page div PAGE)))) \<or> (\<exists>j < unat (sh_room s1). link = Next j \<and> j \<noteq> i)"
      using found(6) r1 by simp
    have "\<exists>t. unlink_entry link i s1 = Some t \<and> lens t \<and> key_table t ((key_place s)(i := None)) \<and>
        frame_table t ((frame_place s)(i := None)) \<and>
        cores t = (cores s1)[i := (cores s1 ! i)\<lparr>e_start := 0\<rparr>] \<and> sh_room t = sh_room s \<and> sh_used t = sh_used s1 \<and>
        mem.truncate t = mem.truncate s1"
      by (rule unlink_entry_table [OF ln1, unfolded gets r1, OF ir kt ft _ found(5) ix(2) trans [OF found(7) [symmetric] found(1)] found(2,6)])
        (use ki in \<open>simp add: key_hash_def r1\<close>)
    then obtain s2 where s2: "unlink_entry link i s1 = Some s2" "lens s2" "key_table s2 ((key_place s)(i := None))"
      "frame_table s2 ((frame_place s)(i := None))" "cores s2 = (cores s1)[i := (cores s1 ! i)\<lparr>e_start := 0\<rparr>]"
      "sh_room s2 = sh_room s" "sh_used s2 = sh_used s" "mem.truncate s2 = mem.truncate s" by (auto simp: r1 s1_def)
    define s3 where "s3 = mem_pages_free fw page 1 s2"
    have os: "ours s2" using ours_truncate [OF s2(8)] assms(3) by simp
    note sf = share_fields_same [OF rest_share_fields [OF mem_pages_free_rest [OF os]], of fw page 1, folded s3_def]
    have us: "sh_used s3 = sh_used s" using rest_share_fields [OF mem_pages_free_rest [OF os, of fw page 1]] s2(7)
      by (simp add: share_fields_def s3_def)
    define e where "e = (cores s ! i)\<lparr>e_refs := 0, e_start := 0\<rparr>"
    have c3: "cores s3 = (cores s)[i := e]" using s2(5) sf(3) ix(4) by (simp add: c1 e_def)
    have "lens s3" "key_table s3 ((key_place s)(i := None))" "frame_table s3 ((frame_place s)(i := None))"
      "sh_room s3 = sh_room s" using s2 sf by simp_all
    note rel = released_inv [OF inv found(3) this(1-3) c3 _ this(4) us]
    have "shared_drop fw page s = Some (free_entry i s3)" using sd True s2(1) by (simp add: s3_def)
    moreover have "gone i s (free_entry i s3)" using rel by (auto simp: gone_def e_def)
    ultimately show thesis using last [OF found(3,4) True, of "free_entry i s3" s2] s2(8) rel(4) os by (simp add: s3_def e_def)
  qed
next
  case (absent link)
  then show thesis using that(3) by (simp add: shared_drop_def)
qed

lemma shared_hold_cases:
  assumes inv: "share_inv s" and room: "sh_room s \<noteq> 0" and max: "\<forall>i \<in> live s. e_refs (cores s ! i) \<noteq> - 1"
  obtains (found) i t where "i \<in> live s" "e_frame (cores s ! i) = ucast (page div PAGE)" "shared_hold page s = Some t"
      "share_inv t" "live t = live s" "mem.truncate t = mem.truncate s"
      "cores t = (cores s)[i := (cores s ! i)\<lparr>e_refs := e_refs (cores s ! i) + 1\<rparr>]"
    | (absent) "shared_hold page s = Some s" "\<forall>i \<in> live s. e_frame (cores s ! i) \<noteq> ucast (page div PAGE)"
  using inv room
proof (cases rule: of_frame_cases [where page = page])
  case (found i link)
  have ln: "lens s" and kt: "key_table s (key_place s)" using inv by (auto simp: share_inv_tables)
  have ir: "i < unat (sh_room s)" using found(3) ln by (simp add: live_def lens_def)
  have nz: "frame_get s link \<noteq> 0" "unat (frame_get s link) - 1 = i"
    using found(2) kt ir share_inv_walk [OF inv ir] number_nonzero [of i] by (auto simp: table_def)
  have r: "e_refs (cores s ! i) + 1 \<noteq> 0" using max found(3) by (metis add_eq_0_iff2)
  have "shared_hold page s = Some (put_entry i ((entries s ! i)\<lparr>e_refs := e_refs (cores s ! i) + 1\<rparr>) s)"
    using found(1) nz lens_index(5) [OF ln ir] by (simp add: shared_hold_def Let_def)
  then show thesis using that(1) [OF found(3,4)] put_refs_inv [OF inv found(3) r] by simp
next
  case (absent link)
  then show thesis using that(2) by (simp add: shared_hold_def)
qed

subsection \<open>Writing over\<close>

lemma unlink_key_inv:
  assumes inv: "share_inv s" and i: "i \<in> live s" and e: "e_start (cores s ! i) \<noteq> 0"
  shows "\<exists>t. unlink_key (of_nat i) s = Some t \<and> share_inv t \<and> cores t = (cores s)[i := (cores s ! i)\<lparr>e_start := 0\<rparr>] \<and>
    live t = live s \<and> sh_room t = sh_room s \<and> mem.truncate t = mem.truncate s"
proof -
  have ln: "lens s" and kt: "key_table s (key_place s)" using inv by (auto simp: share_inv_tables)
  have ir: "i < unat (sh_room s)" "i < length (cores s)" using i ln by (simp_all add: live_def lens_def)
  from unlink_key_table [OF ln ir(1) kt] live_key_place [OF i] e
  obtain t where t: "unlink_key (of_nat i) s = Some t" "lens t" "key_table t ((key_place s)(i := None))"
    "cores t = (cores s)[i := (cores s ! i)\<lparr>e_start := 0\<rparr>]" "frame_get t = frame_get s" "sh_room t = sh_room s"
    "sh_used t = sh_used s" "mem.truncate t = mem.truncate s" by auto
  have refs: "e_refs (cores s ! i) \<noteq> 0" using i by (simp add: live_def)
  have "key_place t = (key_place s)(i := None)"
    using key_place_upd [OF t(4) ir(2) t(6)] t(2,6) ln refs by (simp add: lens_def)
  moreover have "frame_place t = frame_place s"
    using frame_place_upd [OF t(4) ir(2) t(6)] refs by (auto simp: frame_place_def Let_def)
  moreover have lv: "live t = live s" using refs ir(2) unfolding live_def t(4) by (auto simp: nth_list_update)
  ultimately show ?thesis using t inv by (auto simp: share_inv_tables)
qed

lemma written_over_core: "written_over lba count (core e) = written_over lba count e"
  by (simp add: written_over_def)

lemma written_from_spec:
  "share_inv s \<Longrightarrow> \<forall>i \<in> set is. i < unat (sh_room s) \<Longrightarrow>
   \<exists>t. written_from lba count is s = Some t \<and> share_inv t \<and> live t = live s \<and> sh_room t = sh_room s \<and>
     mem.truncate t = mem.truncate s \<and> (\<forall>j < unat (sh_room s). cores t ! j =
       (if j \<in> set is \<and> written_over lba count (cores s ! j) then (cores s ! j)\<lparr>e_start := 0\<rparr> else cores s ! j))"
proof (induction "is" arbitrary: s)
  case (Cons i js)
  have ln: "lens s" using Cons.prems(1) by (simp add: share_inv_tables)
  have ir: "i < unat (sh_room s)" using Cons.prems(2) by simp
  have ce: "written_over lba count (entries s ! i) = written_over lba count (cores s ! i)"
    using lens_index(5) [OF ln ir] by (simp add: written_over_core)
  show ?case
  proof (cases "written_over lba count (cores s ! i)")
    case False
    then show ?thesis using Cons ce by fastforce
  next
    case True
    then have "i \<in> live s" "e_start (cores s ! i) \<noteq> 0"
      using ir ln by (auto simp: written_over_def Let_def live_def lens_def)
    from unlink_key_inv [OF Cons.prems(1) this]
    obtain s1 where s1: "unlink_key (of_nat i) s = Some s1" "share_inv s1" "live s1 = live s" "sh_room s1 = sh_room s"
      "cores s1 = (cores s)[i := (cores s ! i)\<lparr>e_start := 0\<rparr>]" "mem.truncate s1 = mem.truncate s" by auto
    have nw: "\<not> written_over lba count ((cores s ! i)\<lparr>e_start := 0\<rparr>)" by (simp add: written_over_def)
    have il: "i < length (cores s)" using ir ln by (simp add: lens_def)
    from Cons.IH [OF s1(2)] Cons.prems(2) s1(4) obtain t where
      t: "written_from lba count js s1 = Some t" "share_inv t" "live t = live s1" "sh_room t = sh_room s1"
        "mem.truncate t = mem.truncate s1" "\<forall>j < unat (sh_room s1). cores t ! j =
       (if j \<in> set js \<and> written_over lba count (cores s1 ! j) then (cores s1 ! j)\<lparr>e_start := 0\<rparr> else cores s1 ! j)"
      by auto
    have "cores t ! j = (if j \<in> set (i # js) \<and> written_over lba count (cores s ! j)
        then (cores s ! j)\<lparr>e_start := 0\<rparr> else cores s ! j)" if j: "j < unat (sh_room s)" for j
      using t(6) j s1(4,5) True nw il by (cases "j = i") auto
    then show ?thesis using t s1 ce True by auto
  qed
qed simp

subsection \<open>Adding\<close>

lemma free_place:
  assumes inv: "share_inv s" and "i < unat (sh_room s)" "key_place s i = Some (unat (sh_room s))"
  shows "frame_place s i = None" "i \<notin> live s"
proof -
  have ln: "lens s" using inv by (simp add: share_inv_tables)
  have "e_refs (cores s ! i) = 0"
    using assms(3) lens_index(1) [OF ln assms(2)] by (auto simp: key_place_def Let_def split: if_splits) (metis less_irrefl)
  then show "frame_place s i = None" "i \<notin> live s" by (simp_all add: frame_place_def live_def)
qed

definition same_entry :: "nat \<Rightarrow> entry \<Rightarrow> 'a share_scheme \<Rightarrow> 'a share_scheme \<Rightarrow> bool" where
  "same_entry i e s t \<longleftrightarrow> share_inv t \<and> i \<notin> live s \<and> live t = insert i (live s) \<and> cores t = (cores s)[i := core e] \<and>
     sh_room t = sh_room s \<and> mem.truncate t = mem.truncate s \<and> i < unat (sh_room s)"

lemma entry_added:
  assumes inv: "share_inv s" and fh: "free_head s \<noteq> 0" and e: "e_refs e \<noteq> 0" and te: "take_entry e s = (j, s2)"
  defines "s3 \<equiv> link_frame j (if e_start e \<noteq> 0 then link_key j s2 else s2)"
  shows "\<exists>i. j = of_nat i \<and> same_entry i e s (s3\<lparr>sh_used := sh_used s3 + 1\<rparr>) \<and>
    (e_start e \<noteq> 0 \<longrightarrow> key_get s3 (Head (unat (key_hash s (e_start e) (e_index e)))) = number i)"
proof -
  have ln: "lens s" and kt: "key_table s (key_place s)" and ft: "frame_table s (frame_place s)"
    using inv by (auto simp: share_inv_tables)
  from take_entry_table [OF ln kt fh, of e] te
  obtain i where j: "j = of_nat i" and i: "i < unat (sh_room s)" "key_place s i = Some (unat (sh_room s))"
    and s2: "lens s2" "key_table s2 ((key_place s)(i := None))" "cores s2 = (cores s)[i := core e]"
      "sh_room s2 = sh_room s" "sh_used s2 = sh_used s" "mem.truncate s2 = mem.truncate s"
      "\<forall>l. l \<noteq> Next i \<longrightarrow> frame_get s2 l = frame_get s l"
    by auto
  note fpl = free_place [OF inv i]
  have i2: "i < unat (sh_room s2)" "i < length (cores s)" using i(1) s2(4) ln by (simp_all add: lens_def)
  have ft2: "frame_table s2 (frame_place s)"
    unfolding s2(4)
  proof (rule table_cong [OF ft])
    fix m assume "frame_place s m \<noteq> None"
    then show "frame_get s2 (Next m) = frame_get s (Next m)" using s2(7) fpl(1) by (cases "m = i") auto
  qed (use s2(7) in auto)
  have ci: "cores s2 ! i = core e" using s2(3) i2(2) by simp
  define h where "h = unat (key_hash s2 (e_start e) (e_index e))"
  define k where "k = (if e_start e \<noteq> 0 then link_key j s2 else s2)"
  define kp where "kp = (key_place s)(i := if e_start e \<noteq> 0 then Some h else None)"
  note lk = link_key_table [OF s2(1) i2(1) s2(2), simplified ci, simplified, folded j]
  have k: "lens k" "key_table k kp" "cores k = cores s2" "frame_get k = frame_get s2" "sh_room k = sh_room s2"
    "sh_used k = sh_used s2" "mem.truncate k = mem.truncate s2"
    using lk s2(1,2) unfolding k_def kp_def h_def by auto
  have hd: "e_start e \<noteq> 0 \<Longrightarrow> key_get k (Head h) = number i"
  proof -
    assume st: "e_start e \<noteq> 0"
    have "h < length (by_key s2)" using lens_index(1) [OF s2(1) i2(1)] s2(1) by (simp add: h_def lens_def)
    moreover have "e_start (entries s2 ! i) = e_start e" "e_index (entries s2 ! i) = e_index e"
      using lens_index(5) [OF s2(1) i2(1)] ci by (metis core_simps(5,6))+
    ultimately show "key_get k (Head h) = number i"
      using st lens_index(3) [OF s2(1) i2(1)]
      by (simp add: k_def link_key_def Let_def j h_def number_of_nat) (simp add: link_simps)
  qed
  have i3: "i < unat (sh_room k)" using i2 k(5) by simp
  have ft3: "frame_table k (frame_place s)" using ft2 k(4,5) by simp
  note lf = link_frame_table [OF k(1) i3 ft3 fpl(1), folded j, folded k_def, unfolded s3_def [symmetric, folded k_def]]
  have s3: "lens s3" "frame_table s3 ((frame_place s)(i := Some (unat (frame_hash s (e_frame e)))))" "cores s3 = (cores s)[i := core e]"
    "key_get s3 = key_get k" "sh_room s3 = sh_room s" "sh_used s3 = sh_used s" "mem.truncate s3 = mem.truncate s"
    using lf k s2(3-6) ci unfolding frame_hash_def by simp_all
  define t where "t = s3\<lparr>sh_used := sh_used s3 + 1\<rparr>"
  have gets: "key_get t = key_get s3" "frame_get t = frame_get s3" "cores t = cores s3" "lens t = lens s3" "sh_room t = sh_room s3"
    "mem.truncate t = mem.truncate s3"
    by (rule ext, rename_tac l, case_tac l; simp add: link_simps t_def)+ (simp_all add: t_def lens_def mem.truncate_def)
  have ct: "cores t = (cores s)[i := core e]" using gets s3 by simp
  have hh: "h = unat (key_hash s (e_start e) (e_index e))" by (simp add: h_def key_hash_def s2(4))
  have kl: "length (by_key t) = length (by_key s)" using gets(4,5) s3(1,5) ln by (simp add: lens_def)
  have "key_place t = kp"
    using key_place_upd [OF ct i2(2) _ kl] gets(5) s3(5) e by (simp add: kp_def hh)
  moreover have "frame_place t = (frame_place s)(i := Some (unat (frame_hash s (e_frame e))))"
    using frame_place_upd [OF ct i2(2)] gets(5) s3(5) e by simp
  moreover have lv: "live t = insert i (live s)"
    using e i2(2) unfolding live_def ct by (auto simp: nth_list_update)
  moreover have "sh_used t = of_nat (card (live t))"
  proof -
    have "finite (live s)" by (simp add: live_def)
    then show ?thesis using lv fpl(2) inv s3(6) by (simp add: t_def share_inv_tables add.commute)
  qed
  ultimately have "share_inv t" using gets s3 k(2,5) s2(4) by (simp add: share_inv_tables)
  then have "same_entry i e s t"
    using fpl(2) lv ct gets s3 i(1) by (simp add: same_entry_def)
  moreover have "e_start e \<noteq> 0 \<longrightarrow> key_get s3 (Head (unat (key_hash s (e_start e) (e_index e)))) = number i"
    using hd s3(4) hh by simp
  ultimately show ?thesis using j unfolding t_def by blast
qed

subsection \<open>Growing\<close>

text \<open>The chains while they are built again, the entries from \<open>k\<close> on being on them.\<close>

definition part :: "nat \<Rightarrow> (nat \<Rightarrow> nat option) \<Rightarrow> nat \<Rightarrow> nat option" where
  "part k place j = (if k \<le> j then place j else None)"

definition rebuilt :: "nat \<Rightarrow> 'a share_scheme \<Rightarrow> bool" where
  "rebuilt k s \<longleftrightarrow> lens s \<and> key_table s (part k (key_place s)) \<and> frame_table s (part k (frame_place s))"

lemma part_step: "part i place = (part (Suc i) place)(i := place i)"
  by (auto simp: part_def)

lemma places_cong:
  assumes "cores t = cores s" "sh_room t = sh_room s" "length (by_key t) = length (by_key s)"
  shows "key_place t = key_place s" "frame_place t = frame_place s"
  using assms by (auto simp: key_place_def frame_place_def key_hash_def frame_hash_def Let_def intro!: ext)

lemma used_upd [simp]:
  "key_get (s\<lparr>sh_used := u\<rparr>) = key_get s" "frame_get (s\<lparr>sh_used := u\<rparr>) = frame_get s" "lens (s\<lparr>sh_used := u\<rparr>) = lens s"
  by (rule ext, rename_tac l, case_tac l; simp add: link_simps)+ (simp add: lens_def)

lemma grow_entry_rebuilt:
  assumes rb: "rebuilt (Suc i) s" and i: "i < unat (sh_room s)"
  shows "rebuilt i (grow_entry i s)" "cores (grow_entry i s) = cores s" "sh_room (grow_entry i s) = sh_room s"
    "sh_used (grow_entry i s) = sh_used s" "mem.truncate (grow_entry i s) = mem.truncate s"
proof -
  have ln: "lens s" and kt: "key_table s (part (Suc i) (key_place s))" and ft: "frame_table s (part (Suc i) (frame_place s))"
    using rb by (auto simp: rebuilt_def)
  note ix = lens_index [OF ln i]
  define t where "t = grow_entry i s"
  have none: "part (Suc i) p i = None" for p by (simp add: part_def)
  have "lens t \<and> key_table t (part i (key_place s)) \<and> frame_table t (part i (frame_place s)) \<and> cores t = cores s \<and>
    sh_room t = sh_room s \<and> sh_used t = sh_used s \<and> mem.truncate t = mem.truncate s"
  proof (cases "e_refs (cores s ! i) = 0")
    case True
    have t: "t = (free_entry i s)\<lparr>sh_used := sh_used s\<rparr>"
      using True ix(5) by (simp add: t_def grow_entry_def free_entry_def Let_def put_entry_def)
    have "part i (key_place s) = (part (Suc i) (key_place s))(i := Some (unat (sh_room s)))"
      "part i (frame_place s) = part (Suc i) (frame_place s)"
      using True ln unfolding part_step [of i]
      by (simp_all add: part_def key_place_def frame_place_def lens_def Let_def fun_upd_idem)
    then show ?thesis
      using free_entry_table [OF ln i kt none] ft unfolding t by (simp add: mem.truncate_def)
  next
    case False
    define k where "k = (if e_start (cores s ! i) \<noteq> 0 then link_key (of_nat i) s else s)"
    have kpi: "key_place s i = (if e_start (cores s ! i) \<noteq> 0
        then Some (unat (key_hash s (e_start (cores s ! i)) (e_index (cores s ! i)))) else None)"
      using False by (simp add: key_place_def Let_def)
    have t: "t = link_frame (of_nat i) k"
      using False ix(5) by (simp add: t_def grow_entry_def k_def Let_def)
    have k: "lens k" "key_table k (part i (key_place s))" "cores k = cores s" "frame_get k = frame_get s" "sh_room k = sh_room s"
      "sh_used k = sh_used s" "mem.truncate k = mem.truncate s"
      using link_key_table [OF ln i kt none] ln kt none [of "key_place s"]
      unfolding k_def part_step [of i "key_place s"] kpi
      by (simp_all add: fun_upd_idem)
    have ft': "frame_table k (part (Suc i) (frame_place s))" using ft k(4,5) by simp
    have "part i (frame_place s) = (part (Suc i) (frame_place s))(i := Some (unat (frame_hash k (e_frame (cores k ! i)))))"
      using False k(3,5) unfolding part_step [of i "frame_place s"] by (simp add: frame_place_def Let_def frame_hash_def)
    then show ?thesis
      using link_frame_table [OF k(1) _ ft' none] i k unfolding t by simp
  qed
  note this' = this
  then have "length (by_key t) = length (by_key s)" using ln by (simp add: lens_def)
  then have "key_place t = key_place s" "frame_place t = frame_place s" using this' places_cong [of t s] by auto
  then show "rebuilt i (grow_entry i s)" unfolding rebuilt_def t_def [symmetric] using this' by metis
  show "cores (grow_entry i s) = cores s" "sh_room (grow_entry i s) = sh_room s"
    "sh_used (grow_entry i s) = sh_used s" "mem.truncate (grow_entry i s) = mem.truncate s"
    using this' by (simp_all add: t_def)
qed

lemma grow_entries_rebuilt:
  "rebuilt n s \<Longrightarrow> n \<le> unat (sh_room s) \<Longrightarrow>
   rebuilt 0 (fold grow_entry (rev [0..<n]) s) \<and> cores (fold grow_entry (rev [0..<n]) s) = cores s \<and>
   sh_room (fold grow_entry (rev [0..<n]) s) = sh_room s \<and> sh_used (fold grow_entry (rev [0..<n]) s) = sh_used s \<and>
   mem.truncate (fold grow_entry (rev [0..<n]) s) = mem.truncate s"
proof (induction n arbitrary: s)
  case (Suc n)
  then show ?case using grow_entry_rebuilt [of n s] by simp
qed simp

lemma free_head_live:
  assumes inv: "share_inv s" and i: "i < unat (sh_room s)" "i \<notin> live s"
  shows "free_head s \<noteq> 0"
proof -
  have ln: "lens s" and kt: "key_table s (key_place s)" using inv by (auto simp: share_inv_tables)
  have "key_place s i = Some (unat (sh_room s))"
    using i ln by (simp add: live_def key_place_def Let_def lens_def)
  moreover obtain ns where ns: "linked (key_get s) (Head (unat (sh_room s))) (map number ns)"
      "set ns = {i. i < unat (sh_room s) \<and> key_place s i = Some (unat (sh_room s))}"
    using kt by (auto simp: table_def)
  ultimately have "i \<in> set ns" using i(1) by blast
  then obtain k ks where "ns = k # ks" by (cases ns) auto
  then have "key_get s (Head (unat (sh_room s))) \<noteq> 0" using ns(1) by simp
  then show ?thesis using ln by (simp add: link_simps lens_def)
qed

text \<open>
  What the table relies on of the allocator it grows with: an allocation touches nothing of the
  table, whatever the disk cache gives up for it.
\<close>

locale share_memory =
  fixes fw :: "'a share_scheme firmware" and cache :: "'a share_scheme shrinker"
  assumes alloc_keeps: "\<lbrakk>ours s; mem_alloc fw cache b s = Some (r, t)\<rbrakk> \<Longrightarrow> ours t \<and> share_fields t = share_fields s"
begin

lemma free_keeps: "ours s \<Longrightarrow> ours (mem_free fw p s) \<and> share_fields (mem_free fw p s) = share_fields s"
proof (cases p)
  case (Some a)
  assume o: "ours s"
  have "rest (mem_free fw p s) = rest s" using o Some by (simp add: mem_free_def Let_def mem_pages_free_rest)
  then show ?thesis using o rest_share_fields by (auto simp: rest_def)
qed (simp add: mem_free_def)

lemma grow_inv:
  assumes inv: "share_inv s" and o: "ours s" and small: "unat (sh_room s) \<le> 2 ^ 30" and g: "grow fw cache s = Some (ok, t)"
  shows "ours t" "\<not> ok \<Longrightarrow> share_fields t = share_fields s"
    "ok \<Longrightarrow> share_inv t \<and> cores t = cores s @ replicate (unat (sh_room t) - unat (sh_room s)) entry0 \<and>
       unat (sh_room t) = (if sh_room s = 0 then 256 else 2 * unat (sh_room s)) \<and> live t = live s"
proof -
  define bigger where "bigger = (if sh_room s = 0 then FIRST_ROOM else sh_room s * 2)"
  have big: "unat bigger = (if sh_room s = 0 then 256 else 2 * unat (sh_room s))"
    using small by (simp add: bigger_def FIRST_ROOM_def unat_mult_small)
  obtain e s1 k s2 f s3 where
    a: "mem_alloc fw cache (ucast bigger * 24) s = Some (e, s1)" "mem_alloc fw cache (ucast bigger * 4) s1 = Some (k, s2)"
       "mem_alloc fw cache (ucast bigger * 4) s2 = Some (f, s3)"
    using g unfolding grow_def Let_def bigger_def [symmetric] by (auto split: Option.bind_splits)
  have s3: "ours s3" "share_fields s3 = share_fields s"
    using alloc_keeps [OF o a(1)] alloc_keeps [OF _ a(2)] alloc_keeps [OF _ a(3)] by auto
  define s4 where "s4 = mem_free fw (by_frame_at s3) (mem_free fw (by_key_at s3) (mem_free fw (entries_at s3) s3))"
  define s5 where "s5 = s4\<lparr>entries := take (unat (sh_room s)) (entries s3) @ replicate (unat bigger - unat (sh_room s)) entry0,
       by_key := replicate (unat bigger) 0, by_frame := replicate (unat bigger) 0,
       entries_at := e, by_key_at := k, by_frame_at := f, sh_room := bigger, free_head := 0\<rparr>"
  have eq: "(ok, t) = (if e = None \<or> k = None \<or> f = None
      then (False, mem_free fw f (mem_free fw k (mem_free fw e s3)))
      else (True, fold grow_entry (rev [0..<unat bigger]) s5))"
    using g a unfolding grow_def Let_def bigger_def [symmetric] by (auto simp: s4_def s5_def split: if_splits)
  have s4: "ours s4" "share_fields s4 = share_fields s" using free_keeps s3 by (simp_all add: s4_def)
  have len: "length (entries s) = unat (sh_room s)" using inv by (simp add: share_inv_def)
  have es: "entries s3 = entries s" using s3(2) by (simp add: share_fields_def)
  have ln5: "lens s5" using len es big by (simp add: lens_def s5_def)
  have lt: "unat bigger < 2 ^ 32 - 1" using big small by simp
  have "key_table s5 (\<lambda>_. None)" "frame_table s5 (\<lambda>_. None)"
    using lt ln5 by (intro table_empty; simp add: s5_def link_simps less_Suc_eq)+
  then have rb: "rebuilt (unat bigger) s5"
    unfolding rebuilt_def using ln5
    by (auto simp: part_def s5_def elim!: table_cong)
  have room5: "sh_room s5 = bigger" by (simp add: s5_def)
  note gr = grow_entries_rebuilt [OF rb, unfolded room5, OF order_refl]
  have o5: "ours s5" using s4(1) by (simp add: s5_def)
  show "ours t"
    using eq free_keeps s3(1) gr o5 ours_truncate [of t s5] by (auto split: if_splits)
  show "share_fields t = share_fields s" if "\<not> ok"
    using that eq free_keeps s3 by (auto split: if_splits)
  show "share_inv t \<and> cores t = cores s @ replicate (unat (sh_room t) - unat (sh_room s)) entry0 \<and>
       unat (sh_room t) = (if sh_room s = 0 then 256 else 2 * unat (sh_room s)) \<and> live t = live s" if ok
  proof -
    have t: "t = fold grow_entry (rev [0..<unat bigger]) s5" using that eq by (simp split: if_splits)
    have "core entry0 = entry0" by (simp add: core_def entry0_def)
    then have c: "cores t = cores s @ replicate (unat bigger - unat (sh_room s)) entry0"
      using gr es len unfolding t by (simp add: s5_def cores_def map_replicate_const)
    have "x \<in> live t \<longleftrightarrow> x \<in> live s" for x
      by (cases "x < length (cores s)") (auto simp: live_def c nth_append, simp_all add: entry0_def nth_replicate)
    then have "live t = live s" by blast
    moreover have "sh_used t = sh_used s" using gr s4(2) unfolding t by (simp add: s5_def share_fields_def)
    moreover have "rebuilt 0 t" "sh_room t = bigger" using gr room5 unfolding t by simp_all
    moreover have "part 0 p = p" for p by (simp add: part_def fun_eq_iff)
    ultimately show ?thesis using c big inv by (simp add: rebuilt_def share_inv_tables)
  qed
qed

lemma room_for_entry:
  assumes inv: "share_inv s" and o: "ours s" and small: "unat (sh_room s) \<le> 2 ^ 30"
    and g: "(if free_head s = 0 then grow fw cache s else Some (True, s)) = Some (ok, u)"
  shows "ours u" "\<not> ok \<Longrightarrow> share_fields u = share_fields s"
    "ok \<Longrightarrow> share_inv u \<and> free_head u \<noteq> 0 \<and> live u = live s \<and> (\<forall>j \<in> live s. cores u ! j = cores s ! j)"
proof -
  show "ours u" "\<not> ok \<Longrightarrow> share_fields u = share_fields s"
    using g o grow_inv [OF inv o small] by (auto split: if_splits)
  show "share_inv u \<and> free_head u \<noteq> 0 \<and> live u = live s \<and> (\<forall>j \<in> live s. cores u ! j = cores s ! j)" if ok
  proof (cases "free_head s = 0")
    case True
    then have u: "share_inv u" "cores u = cores s @ replicate (unat (sh_room u) - unat (sh_room s)) entry0"
      "unat (sh_room u) = (if sh_room s = 0 then 256 else 2 * unat (sh_room s))" "live u = live s"
      using g that grow_inv(3) [OF inv o small] by auto
    have "unat (sh_room s) < unat (sh_room u)" using u(3) by (auto simp: unat_gt_0)
    moreover have "unat (sh_room s) \<notin> live u" using u(4) inv by (simp add: live_def share_inv_def)
    ultimately have "free_head u \<noteq> 0" using free_head_live [OF u(1)] by blast
    moreover have "\<forall>j \<in> live s. cores u ! j = cores s ! j" by (auto simp: u(2) live_def nth_append)
    ultimately show ?thesis using u by simp
  qed (use g inv in auto)
qed

lemma shared_add_spec:
  assumes inv: "share_inv s" and o: "ours s" and small: "unat (sh_room s) \<le> 2 ^ 30" and st: "start \<noteq> 0"
    and a: "shared_add fw cache start index page s = Some (ok, t)"
  shows "ours t" "\<not> ok \<Longrightarrow> share_fields t = share_fields s"
    "ok \<Longrightarrow> share_inv t \<and> (\<exists>i. i \<notin> live s \<and> live t = insert i (live s) \<and> (\<forall>j \<in> live s. cores t ! j = cores s ! j) \<and>
       cores t ! i = entry0\<lparr>e_start := start, e_index := index, e_frame := ucast (page div PAGE), e_refs := 1\<rparr> \<and>
       key_get t (Head (unat (key_hash t start index))) = number i)"
proof -
  define e where "e = entry0\<lparr>e_start := start, e_index := index, e_frame := ucast (page div PAGE), e_refs := 1\<rparr>"
  obtain u where u: "(if free_head s = 0 then grow fw cache s else Some (True, s)) = Some (ok, u)"
    using a unfolding shared_add_def by (auto simp: Let_def split: Option.bind_splits if_splits prod.splits)
  note ru = room_for_entry [OF inv o small u]
  define j s2 where "j = fst (take_entry e u)" and "s2 = snd (take_entry e u)"
  define s3 where "s3 = link_frame j (link_key j s2)"
  have t: "t = (if ok then s3\<lparr>sh_used := sh_used s3 + 1\<rparr> else u)"
    using a u unfolding shared_add_def by (auto simp: e_def j_def s2_def s3_def Let_def split: prod.splits)
  have te: "take_entry e u = (j, s2)" by (simp add: j_def s2_def)
  have add: "ok \<Longrightarrow> \<exists>i. j = of_nat i \<and> same_entry i e u t \<and> key_get t (Head (unat (key_hash u start index))) = number i"
    using entry_added [OF _ _ _ te] ru(3) st by (auto simp: e_def s3_def t)
  show "ours t" using add ru(1) t ours_truncate [of t u] by (cases ok) (auto simp: same_entry_def)
  show "share_fields t = share_fields s" if "\<not> ok" using that t ru(2) by simp
  show "share_inv t \<and> (\<exists>i. i \<notin> live s \<and> live t = insert i (live s) \<and> (\<forall>j \<in> live s. cores t ! j = cores s ! j) \<and>
       cores t ! i = entry0\<lparr>e_start := start, e_index := index, e_frame := ucast (page div PAGE), e_refs := 1\<rparr> \<and>
       key_get t (Head (unat (key_hash t start index))) = number i)" if okt: ok
  proof -
    obtain i where i: "same_entry i e u t" "key_get t (Head (unat (key_hash u start index))) = number i"
      using add [OF okt] by blast
    have lu: "live u = live s" "\<forall>j \<in> live s. cores u ! j = cores s ! j" "share_inv u" using ru(3) [OF okt] by auto
    have "core e = e" by (simp add: e_def core_def entry0_def)
    moreover have "i < length (cores u)" using i(1) lu(3) by (simp add: same_entry_def share_inv_def)
    ultimately have "cores t ! i = e" "\<forall>j \<in> live s. cores t ! j = cores s ! j"
      using i(1) lu by (auto simp: same_entry_def nth_list_update)
    moreover have "key_hash t start index = key_hash u start index" using i(1) by (simp add: key_hash_def same_entry_def)
    ultimately show ?thesis using i lu(1) by (auto simp: same_entry_def e_def)
  qed
qed

lemma shared_adopt_spec:
  assumes inv: "share_inv s" and o: "ours s" and small: "unat (sh_room s) \<le> 2 ^ 30"
    and a: "shared_adopt fw cache page s = Some (ok, t)"
  shows "ours t" "\<not> ok \<Longrightarrow> share_fields t = share_fields s"
    "ok \<Longrightarrow> share_inv t \<and> (\<exists>i. i \<notin> live s \<and> live t = insert i (live s) \<and> (\<forall>j \<in> live s. cores t ! j = cores s ! j) \<and>
       cores t ! i = entry0\<lparr>e_frame := ucast (page div PAGE), e_refs := 1\<rparr>)"
proof -
  define e where "e = entry0\<lparr>e_frame := ucast (page div PAGE), e_refs := 1\<rparr>"
  obtain u where u: "(if free_head s = 0 then grow fw cache s else Some (True, s)) = Some (ok, u)"
    using a unfolding shared_adopt_def by (auto simp: Let_def split: Option.bind_splits if_splits prod.splits)
  note ru = room_for_entry [OF inv o small u]
  define j s2 where "j = fst (take_entry e u)" and "s2 = snd (take_entry e u)"
  define s3 where "s3 = link_frame j s2"
  have t: "t = (if ok then s3\<lparr>sh_used := sh_used s3 + 1\<rparr> else u)"
    using a u unfolding shared_adopt_def by (auto simp: e_def j_def s2_def s3_def Let_def split: prod.splits)
  have te: "take_entry e u = (j, s2)" by (simp add: j_def s2_def)
  have z: "e_start e = 0" "e_refs e \<noteq> 0" by (simp_all add: e_def entry0_def)
  have add: "ok \<Longrightarrow> \<exists>i. same_entry i e u t"
    using entry_added [OF _ _ z(2) te] ru(3) by (auto simp: z(1) s3_def t)
  show "ours t" using add ru(1) t ours_truncate [of t u] by (cases ok) (auto simp: same_entry_def)
  show "share_fields t = share_fields s" if "\<not> ok" using that t ru(2) by simp
  show "share_inv t \<and> (\<exists>i. i \<notin> live s \<and> live t = insert i (live s) \<and> (\<forall>j \<in> live s. cores t ! j = cores s ! j) \<and>
       cores t ! i = entry0\<lparr>e_frame := ucast (page div PAGE), e_refs := 1\<rparr>)" if okt: ok
  proof -
    obtain i where i: "same_entry i e u t" using add [OF okt] by blast
    have lu: "live u = live s" "\<forall>j \<in> live s. cores u ! j = cores s ! j" "share_inv u" using ru(3) [OF okt] by auto
    have "core e = e" by (simp add: e_def core_def entry0_def)
    moreover have "i < length (cores u)" using i lu(3) by (simp add: same_entry_def share_inv_def)
    ultimately have "cores t ! i = e" "\<forall>j \<in> live s. cores t ! j = cores s ! j"
      using i lu by (auto simp: same_entry_def nth_list_update)
    then show ?thesis using i lu(1) by (auto simp: same_entry_def e_def)
  qed
qed

end

lemma share_memory_no_cache: "share_memory fw None"
proof
  fix s t :: "'a share_scheme" and b r
  assume o: "ours s" and a: "mem_alloc fw None b s = Some (r, t)"
  show "ours t \<and> share_fields t = share_fields s"
    by (rule mem_alloc_keeps [OF rest_share_fields _ a o]) simp_all
qed

interpretation no_cache: share_memory fw None for fw
  by (rule share_memory_no_cache)

section \<open>Properties\<close>

text \<open>
  The operations as steps. The table is asked about a frame only once it has room for entries, a
  file never starts at sector 0, and no page is held so often that its count would wrap.
\<close>

definition calm :: "'a share_scheme \<Rightarrow> bool" where
  "calm s \<longleftrightarrow> ours s \<and> unat (sh_room s) \<le> 2 ^ 30 \<and> (\<forall>i \<in> live s. e_refs (cores s ! i) \<noteq> - 1)"

inductive share_step :: "'a share_scheme firmware \<Rightarrow> 'a share_scheme shrinker \<Rightarrow> 'a share_scheme \<Rightarrow> 'a share_scheme \<Rightarrow> bool"
  for fw cache where
  find: "calm s \<Longrightarrow> start \<noteq> 0 \<Longrightarrow> shared_find start index s = Some (p, t) \<Longrightarrow> share_step fw cache s t"
| add: "calm s \<Longrightarrow> start \<noteq> 0 \<Longrightarrow> shared_add fw cache start index page s = Some (ok, t) \<Longrightarrow> share_step fw cache s t"
| adopt: "calm s \<Longrightarrow> shared_adopt fw cache page s = Some (ok, t) \<Longrightarrow> share_step fw cache s t"
| take: "calm s \<Longrightarrow> sh_room s \<noteq> 0 \<Longrightarrow> shared_take page s = Some (ok, t) \<Longrightarrow> share_step fw cache s t"
| hold: "calm s \<Longrightarrow> sh_room s \<noteq> 0 \<Longrightarrow> shared_hold page s = Some t \<Longrightarrow> share_step fw cache s t"
| drop: "calm s \<Longrightarrow> sh_room s \<noteq> 0 \<Longrightarrow> shared_drop fw page s = Some t \<Longrightarrow> share_step fw cache s t"
| written: "calm s \<Longrightarrow> shared_written lba count s = Some t \<Longrightarrow> share_step fw cache s t"

inductive_cases share_stepE [elim]: "share_step fw cache s t"

lemma shared_written_spec:
  "share_inv s \<Longrightarrow> \<exists>t. shared_written lba count s = Some t \<and> share_inv t \<and> live t = live s \<and> sh_room t = sh_room s \<and>
     mem.truncate t = mem.truncate s \<and> (\<forall>j < unat (sh_room s). cores t ! j =
       (if written_over lba count (cores s ! j) then (cores s ! j)\<lparr>e_start := 0\<rparr> else cores s ! j))"
  using written_from_spec [of s "[0..<unat (sh_room s)]" lba count] by (simp add: shared_written_def)

lemma shared_find_inv:
  assumes inv: "share_inv s" and calm: "calm s" and st: "start \<noteq> 0" and f: "shared_find start index s = Some (p, t)"
  shows "share_inv t"
  using inv st
proof (cases rule: shared_find_cases [where index = index])
  case (found i)
  have "e_refs (cores s ! i) + 1 \<noteq> 0" using calm found(1) unfolding calm_def by (metis add_eq_0_iff2)
  from put_refs_inv(1) [OF inv found(1) this] show ?thesis using f found(4) by simp
next
  case absent
  then show ?thesis using f inv by simp
qed

context share_memory
begin

lemma share_step_inv:
  assumes "share_step fw cache s t" "share_inv s"
  shows "share_inv t"
  using assms
proof (induction rule: share_step.induct)
  case (find s start index p t)
  then show ?case by (auto intro: shared_find_inv)
next
  case (add s start index page ok t)
  have "ours s" "unat (sh_room s) \<le> 2 ^ 30" using add.hyps(1) by (simp_all add: calm_def)
  note a = shared_add_spec [OF add.prems this add.hyps(2,3)]
  show ?case using a(2,3) share_fields_same(8) [of t s] add.prems by (cases ok) auto
next
  case (adopt s page ok t)
  have "ours s" "unat (sh_room s) \<le> 2 ^ 30" using adopt.hyps(1) by (simp_all add: calm_def)
  note a = shared_adopt_spec [OF adopt.prems this adopt.hyps(2)]
  show ?case using a(2,3) share_fields_same(8) [of t s] adopt.prems by (cases ok) auto
next
  case (take s page ok t)
  show ?case using take.prems take.hyps(2)
    by (cases rule: shared_take_cases [where page = page]) (use take in \<open>auto simp: gone_def\<close>)
next
  case (hold s page t)
  have "\<forall>i \<in> live s. e_refs (cores s ! i) \<noteq> - 1" using hold.hyps(1) by (simp add: calm_def)
  with hold.prems hold.hyps(2) show ?case
    by (cases rule: shared_hold_cases [where page = page]) (use hold in auto)
next
  case (drop s page t)
  have "ours s" using drop.hyps(1) by (simp add: calm_def)
  with drop.prems drop.hyps(2) show ?case
    by (cases rule: shared_drop_cases [where page = page and fw = fw]) (use drop in \<open>auto simp: gone_def\<close>)
next
  case (written s lba count t)
  then show ?case using shared_written_spec [of s lba count] by auto
qed

lemma share_steps_inv: "(share_step fw cache)\<^sup>*\<^sup>* s t \<Longrightarrow> share_inv s \<Longrightarrow> share_inv t"
  by (induction rule: rtranclp_induct) (auto intro: share_step_inv)

end

text \<open>A table with room for one entry, which is free.\<close>

definition one_free :: share where
  "one_free = mem.extend (small_machine) (share.fields [entry0] [0] [0] None None None 1 0 1)"

lemma one_free [simp]:
  "entries one_free = [entry0]" "by_key one_free = [0]" "by_frame one_free = [0]" "sh_room one_free = 1"
  "sh_used one_free = 0" "free_head one_free = 1" "ours one_free"
  by (simp_all add: one_free_def mem.extend_def share.fields_def small_machine_def)

lemma one_free_inv [simp]: "share_inv one_free" "live one_free = {}" "calm one_free"
proof -
  have "i \<notin> live one_free" for i by (cases i) (simp_all add: live_def cores_def entry0_def)
  then show l: "live one_free = {}" by blast
  have kp: "key_place one_free 0 = Some 1" "frame_place one_free 0 = None"
    by (simp_all add: key_place_def frame_place_def cores_def entry0_def)
  have "\<exists>is. linked (key_get one_free) (Head h) (map number is) \<and> distinct is \<and> set is = {i. i < 1 \<and> key_place one_free i = Some h}"
    if "h < 2" for h
    by (rule exI [of _ "if h = 1 then [0] else []"]) (use that kp in \<open>auto simp: link_simps entry0_def number_def less_2_cases_iff\<close>)
  then have "table (key_get one_free) 2 1 (key_place one_free)" by (simp add: table_def)
  moreover have "\<exists>is. linked (frame_get one_free) (Head 0) (map number is) \<and> distinct is \<and> set is = {i. i < 1 \<and> frame_place one_free i = Some 0}"
    by (rule exI [of _ "[]"]) (use kp in \<open>auto simp: link_simps\<close>)
  then have "table (frame_get one_free) 1 1 (frame_place one_free)" by (simp add: table_def)
  ultimately show "share_inv one_free"
    by (simp add: share_inv_tables lens_def l numeral_2_eq_2)
  show "calm one_free" by (simp add: calm_def l)
qed

text \<open>
  C27. Whatever the kernel does with the table of shared pages - finding, adding, adopting, taking,
  holding and dropping pages, and writing over files, in calls that return, with no disk cache registered
  that would give memory back - its two sets of chains and its free chain stay sound: every entry in use is on the chain of its frame, and of its file and page until that is
  written over; every free entry is on the free chain; and the count of entries in use is right.
\<close>

theorem shared_pages_invariant:
  assumes "share_inv s" "(share_step fw None)\<^sup>*\<^sup>* s t"
  shows "share_inv t"
  using assms by (blast intro: no_cache.share_steps_inv)

theorem shared_pages_invariant_witness:
  "\<exists>t. shared_add no_firmware None 5 0 0x3000 one_free = Some (True, t) \<and> share_inv t"
proof -
  obtain t where t: "shared_add no_firmware None 5 0 0x3000 one_free = Some (True, t)"
    by (simp add: shared_add_def take_entry_def Let_def)
  have "(share_step no_firmware None)\<^sup>*\<^sup>* one_free t"
    using share_step.add [of one_free 5 no_firmware None 0 "0x3000" True t] t by auto
  then show ?thesis using shared_pages_invariant [OF one_free_inv(1)] t by blast
qed

text \<open>
  C30. With no disk cache registered, a page added for a page of a file is what the next process to map
  that page of the file gets, and no other page in use changes.
\<close>

theorem shared_add_find:
  assumes "share_inv s" "ours s" "unat (sh_room s) \<le> 2 ^ 30" "start \<noteq> 0" "page_aligned (unat page)" "unat page < 2 ^ 44"
    "shared_add fw None start index page s = Some (True, t)"
  shows "(\<exists>u. shared_find start index t = Some (page, u)) \<and> (\<forall>j \<in> live s. cores t ! j = cores s ! j)"
proof -
  obtain i where i: "share_inv t" "i \<notin> live s" "live t = insert i (live s)" "\<forall>j \<in> live s. cores t ! j = cores s ! j"
      "cores t ! i = entry0\<lparr>e_start := start, e_index := index, e_frame := ucast (page div PAGE), e_refs := 1\<rparr>"
      "key_get t (Head (unat (key_hash t start index))) = number i"
    using no_cache.shared_add_spec(3) [OF assms(1-4,7)] by auto
  have ln: "lens t" using i(1) by (simp add: share_inv_tables)
  have ir: "i < unat (sh_room t)" using i(3) ln by (auto simp: live_def lens_def)
  have ent: "core (entries t ! i) = cores t ! i" using lens_index(5) [OF ln ir] by simp
  have "e_start (cores t ! i) = start" "e_index (cores t ! i) = index" "e_frame (cores t ! i) = ucast (page div PAGE)"
    by (simp_all add: i(5))
  then have e: "e_start (entries t ! i) = start" "e_index (entries t ! i) = index" "e_frame (entries t ! i) = ucast (page div PAGE)"
    unfolding ent [symmetric] by simp_all
  have nz: "number i \<noteq> 0" "unat (number i) - 1 = i"
    using i(1) ir share_inv_walk [OF i(1) ir] number_nonzero [of i] by (auto simp: share_inv_def table_def)
  have r: "sh_room t \<noteq> 0" using ir by auto
  have "walk_to (\<lambda>x. e_start (entries t ! (unat x - 1)) = start \<and> e_index (entries t ! (unat x - 1)) = index)
      (key_get t) (Head (unat (key_hash t start index))) = Some (Head (unat (key_hash t start index)))"
    using i(6) e nz by (subst walk_to.simps) simp
  then have "\<exists>u. shared_find start index t = Some (ucast (ucast (page div PAGE) :: u32) * PAGE, u)"
    using r i(6) nz e by (simp add: shared_find_def Let_def)
  moreover have "ucast (ucast (page div PAGE) :: u32) * PAGE = page"
  proof -
    have lt: "unat page div 4096 < 2 ^ 32" using assms(6) by simp
    have "unat (ucast (ucast (page div PAGE) :: u32) :: u64) = unat page div 4096"
      using lt by (simp add: unsigned_ucast_eq unsigned_take_bit_eq unat_div take_bit_nat_eq_self)
    moreover have "4096 * (unat page div 4096) = unat page" using assms(5) by (simp add: page_aligned_def)
    ultimately show ?thesis
      using unat_mult_small [of "ucast (ucast (page div PAGE) :: u32) :: u64" PAGE] assms(6)
      by (simp add: word_unat_eq_iff mult.commute)
  qed
  ultimately show ?thesis using i(4) by simp
qed

theorem shared_add_find_witness:
  "\<exists>t u. shared_add no_firmware None 5 0 0x3000 one_free = Some (True, t) \<and> shared_find 5 0 t = Some (0x3000, u)"
proof -
  obtain t where t: "shared_add no_firmware None 5 0 0x3000 one_free = Some (True, t)"
    by (simp add: shared_add_def take_entry_def Let_def)
  from shared_add_find [OF one_free_inv(1) one_free(7) _ _ _ _ t] t show ?thesis by (auto simp: page_aligned_def)
qed

text \<open>
  Letting go of a page: the last process to drop it, and only the last, gives it back to the
  allocator and its entry with it; any other only counts one fewer.
\<close>

lemma shared_drop_last:
  assumes "share_inv s" "sh_room s \<noteq> 0" "ours s"
  shows "\<exists>t. shared_drop fw page s = Some t \<and> share_inv t \<and>
    ((\<exists>i \<in> live s. e_frame (cores s ! i) = ucast (page div PAGE) \<and> e_refs (cores s ! i) = 1 \<and> live t = live s - {i} \<and>
        (\<exists>u. mem.truncate u = mem.truncate s \<and> mem.truncate t = mem.truncate (mem_pages_free fw page 1 u))) \<or>
     (\<exists>i \<in> live s. e_frame (cores s ! i) = ucast (page div PAGE) \<and> e_refs (cores s ! i) \<noteq> 1 \<and> live t = live s \<and>
        cores t = (cores s)[i := (cores s ! i)\<lparr>e_refs := e_refs (cores s ! i) - 1\<rparr>] \<and> mem.truncate t = mem.truncate s) \<or>
     (\<forall>i \<in> live s. e_frame (cores s ! i) \<noteq> ucast (page div PAGE)) \<and> t = s)"
  using assms by (cases rule: shared_drop_cases [where page = page and fw = fw]) (use assms(1) in \<open>auto simp: gone_def\<close>)

text \<open>
  C31. Once sectors of the disk are written, no process that maps a page of a file lying on them is
  handed the stale page: it is not found any more. The processes that have it keep it.
\<close>

theorem shared_written_forgets:
  assumes "share_inv s"
  shows "\<exists>t. shared_written lba count s = Some t \<and> share_inv t \<and> live t = live s \<and>
    (\<forall>j \<in> live s. e_frame (cores t ! j) = e_frame (cores s ! j) \<and> e_refs (cores t ! j) = e_refs (cores s ! j)) \<and>
    (\<forall>start index. start \<noteq> 0 \<and> start + index * SECTORS < lba + count \<and> lba < start + index * SECTORS + SECTORS \<longrightarrow>
       shared_find start index t = Some (0, t))"
proof -
  obtain t where t: "shared_written lba count s = Some t" "share_inv t" "live t = live s" "sh_room t = sh_room s"
    "\<forall>j < unat (sh_room s). cores t ! j = (if written_over lba count (cores s ! j) then (cores s ! j)\<lparr>e_start := 0\<rparr> else cores s ! j)"
    using shared_written_spec [OF assms, of lba count] by blast
  have lt: "j < unat (sh_room s)" if "j \<in> live s" for j using that assms by (simp add: live_def share_inv_def)
  have "\<forall>j \<in> live s. e_frame (cores t ! j) = e_frame (cores s ! j) \<and> e_refs (cores t ! j) = e_refs (cores s ! j)"
    using t(5) lt by auto
  moreover have "shared_find start index t = Some (0, t)"
    if w: "start \<noteq> 0" "start + index * SECTORS < lba + count" "lba < start + index * SECTORS + SECTORS" for start index
    using t(2) w(1)
  proof (cases rule: shared_find_cases [where index = index])
    case (found i)
    have i: "i < unat (sh_room s)" "e_refs (cores s ! i) \<noteq> 0" using found(1) t(3) lt by (auto simp: live_def)
    have "written_over lba count (cores s ! i)"
      using found(2,3) w i t(5) unfolding written_over_def Let_def by (auto split: if_splits)
    then show ?thesis using t(5) i(1) found(2) w(1) by simp
  qed
  ultimately show ?thesis using t(1-3) by blast
qed

theorem shared_written_forgets_witness:
  "\<exists>t. shared_written 0 8 one_free = Some t \<and> shared_find 5 0 t = Some (0, t)"
proof -
  obtain t where "shared_written 0 8 one_free = Some t"
    "\<forall>start index. start \<noteq> 0 \<and> start + index * SECTORS < 0 + 8 \<and> 0 < start + index * SECTORS + SECTORS \<longrightarrow>
       shared_find start index t = Some (0, t)"
    using shared_written_forgets [OF one_free_inv(1), of 0 8] by blast
  then show ?thesis by (auto simp: SECTORS_def)
qed

end
