(* ===== verification/Cache.thy ===== *)
theory Cache
  imports Share
begin

text \<open>
  The disk cache, \<^verbatim>\<open>src/src/modules/storage/cache.c\<close>: lines of 128 sectors, found through chains,
  bought from the page allocator and given back to it oldest first. The record extends the shared
  pages' and through them the allocator's; \<open>line_mem\<close> is the memory the lines' data lies in, a sector
  at each multiple of 512. The disk the cache reads through is the function the code is handed: what
  it transferred, all of it or the part before it failed, and the state after.
\<close>

section \<open>State\<close>

type_synonym sector = "u8 list"

definition LINE_SECTORS :: u32 where "LINE_SECTORS = 128"
definition LINE_BYTES :: u64 where "LINE_BYTES = 65536"
definition LINE_PAGES :: u64 where "LINE_PAGES = 16"
definition RESERVE_KIB :: u64 where "RESERVE_KIB = 8192"
definition BOOT_LINES :: u32 where "BOOT_LINES = 256"
definition FIRST_LINES :: u32 where "FIRST_LINES = 8"
definition NONE :: u32 where "NONE = 0xFFFFFFFF"

record line =
  l_first :: u32
  l_used :: u32
  l_next :: u32
  l_data :: u64

text \<open>\<open>st_at\<close> is where \<open>st\<close> was allocated, \<open>None\<close> while it is the block the module itself has.\<close>

record cache = share +
  st_room :: u32
  st_lines :: "line list"
  st_chains :: "u32 list"
  st_at :: "u64 option"
  c_count :: u32
  c_clock :: u32
  c_limit :: u64
  c_off :: bool
  c_busy :: bool
  line_mem :: "u64 \<Rightarrow> sector"

definition line0 :: line where
  "line0 = \<lparr>l_first = 0, l_used = 0, l_next = 0, l_data = 0\<rparr>"

text \<open>\<open>HEAD\<close>: the size of the block for \<open>n\<close> lines, a \<open>line\<close> being 24 bytes and the room before them 8.\<close>

definition HEAD :: "u32 \<Rightarrow> u64" where
  "HEAD n = 8 + ucast n * (24 + 4)"

section \<open>Lines and chains\<close>

definition chain_of :: "'a cache_scheme \<Rightarrow> u32 \<Rightarrow> link" where
  "chain_of s first = Head (unat (first div LINE_SECTORS mod st_room s))"

fun line_get :: "'a cache_scheme \<Rightarrow> link \<Rightarrow> u32" where
  "line_get s (Head h) = st_chains s ! h"
| "line_get s (Next i) = l_next (st_lines s ! i)"

fun line_put :: "link \<Rightarrow> u32 \<Rightarrow> 'a cache_scheme \<Rightarrow> 'a cache_scheme" where
  "line_put (Head h) v s = s\<lparr>st_chains := (st_chains s)[h := v]\<rparr>"
| "line_put (Next i) v s = s\<lparr>st_lines := (st_lines s)[i := (st_lines s ! i)\<lparr>l_next := v\<rparr>]\<rparr>"

definition set_line :: "nat \<Rightarrow> line \<Rightarrow> 'a cache_scheme \<Rightarrow> 'a cache_scheme" where
  "set_line i l s = s\<lparr>st_lines := (st_lines s)[i := l]\<rparr>"

definition unhook :: "nat \<Rightarrow> 'a cache_scheme \<Rightarrow> 'a cache_scheme option" where
  "unhook i s =
     walk_to (\<lambda>x. x = number i) (line_get s) (chain_of s (l_first (st_lines s ! i))) \<bind> (\<lambda>at.
       let s1 = (if line_get s at = number i then line_put at (l_next (st_lines s ! i)) s else s)
       in Some (set_line i ((st_lines s1 ! i)\<lparr>l_first := NONE\<rparr>) s1))"

definition hook :: "nat \<Rightarrow> 'a cache_scheme \<Rightarrow> 'a cache_scheme" where
  "hook i s =
     (let h = chain_of s (l_first (st_lines s ! i))
      in line_put h (number i) (line_put (Next i) (line_get s h) s))"

definition find_line :: "u32 \<Rightarrow> 'a cache_scheme \<Rightarrow> nat option option" where
  "find_line first s =
     walk_to (\<lambda>x. l_first (st_lines s ! (unat x - 1)) = first) (line_get s) (chain_of s first) \<bind> (\<lambda>at.
       Some (if line_get s at = 0 then None else Some (unat (line_get s at) - 1)))"

text \<open>The loop of \<open>oldest\<close> over the lines from index \<open>i\<close> on; \<open>None\<close> is -1.\<close>

fun oldest_from :: "line list \<Rightarrow> nat \<Rightarrow> nat option \<Rightarrow> line list \<Rightarrow> nat option" where
  "oldest_from ls i best [] = best"
| "oldest_from ls i best (l # ms) =
     oldest_from ls (Suc i)
       (if l_data l \<noteq> 0 \<and> (case best of None \<Rightarrow> True | Some b \<Rightarrow> l_used l < l_used (ls ! b)) then Some i else best) ms"

definition oldest :: "'a cache_scheme \<Rightarrow> nat option" where
  "oldest s = oldest_from (st_lines s) 0 None (take (unat (st_room s)) (st_lines s))"

definition give_back :: "'a cache_scheme firmware \<Rightarrow> nat \<Rightarrow> 'a cache_scheme \<Rightarrow> 'a cache_scheme option" where
  "give_back fw i s =
     (if l_first (st_lines s ! i) \<noteq> NONE then unhook i s else Some s) \<bind> (\<lambda>s1.
       let s2 = mem_pages_free fw (l_data (st_lines s1 ! i)) LINE_PAGES s1;
           s3 = set_line i ((st_lines s2 ! i)\<lparr>l_data := 0\<rparr>) s2
       in Some (s3\<lparr>c_count := c_count s3 - 1\<rparr>))"

partial_function (option) cap_from ::
  "'a cache_scheme firmware \<Rightarrow> u64 \<Rightarrow> u64 \<Rightarrow> 'a cache_scheme \<Rightarrow> (u64 \<times> 'a cache_scheme) option" where
  "cap_from fw most given s =
     (if ucast (c_count s) > most then
        case oldest s of
          None \<Rightarrow> Some (given, s)
        | Some i \<Rightarrow> give_back fw i s \<bind> cap_from fw most (given + LINE_BYTES)
      else Some (given, s))"

definition cap :: "'a cache_scheme firmware \<Rightarrow> u64 \<Rightarrow> 'a cache_scheme \<Rightarrow> (u64 \<times> 'a cache_scheme) option" where
  "cap fw most s = cap_from fw most 0 s"

definition cache_shrink :: "'a cache_scheme firmware \<Rightarrow> u64 \<Rightarrow> 'a cache_scheme \<Rightarrow> (u64 \<times> 'a cache_scheme) option" where
  "cache_shrink fw bytes s =
     (if c_busy s then Some (0, s)
      else cap fw (if ucast (c_count s) > bytes div LINE_BYTES
                   then ucast (c_count s) - (bytes + LINE_BYTES - 1) div LINE_BYTES else 0) s)"

definition cache_memory :: "'a cache_scheme \<Rightarrow> u64" where
  "cache_memory s = ucast (c_count s) * LINE_BYTES + (if st_at s \<noteq> None then HEAD (st_room s) else 0)"

section \<open>A line to fill\<close>

definition may_grow :: "'a cache_scheme firmware \<Rightarrow> 'a cache_scheme \<Rightarrow> bool" where
  "may_grow fw s =
     (if c_limit s \<noteq> 0 then ucast (c_count s) < c_limit s
      else if \<not> mem_ours s then c_count s < BOOT_LINES
      else mem_free_kib fw s > RESERVE_KIB + LINE_BYTES div 1024)"

text \<open>Room for twice as many lines, when there is memory for it.\<close>

definition grow_lines :: "'a cache_scheme firmware \<Rightarrow> 'a cache_scheme \<Rightarrow> 'a cache_scheme option" where
  "grow_lines fw s =
     mem_alloc fw (Some (cache_shrink fw)) (HEAD (st_room s * 2)) s \<bind> (\<lambda>(bigger, s1).
       case bigger of
         None \<Rightarrow> Some s1
       | Some b \<Rightarrow>
           (let room = unat (st_room s1);
                s2 = s1\<lparr>st_lines := take room (st_lines s1) @ replicate (unat (st_room s1 * 2) - room) line0,
                         st_chains := replicate (unat (st_room s1 * 2)) 0,
                         st_room := st_room s1 * 2, st_at := Some b\<rparr>;
                s3 = fold (\<lambda>i s. if l_first (st_lines s ! i) \<noteq> NONE then hook i s else s) [0..<room] s2
            in Some (case st_at s1 of None \<Rightarrow> s3 | Some was \<Rightarrow> mem_free fw (Some was) s3)))"

text \<open>The first line without memory is given some; \<open>None\<close> where the code goes on to the oldest line.\<close>

definition buy_line :: "'a cache_scheme firmware \<Rightarrow> 'a cache_scheme \<Rightarrow> (nat option \<times> 'a cache_scheme) option" where
  "buy_line fw s =
     (let ls = take (unat (st_room s)) (st_lines s);
          i = length (takeWhile (\<lambda>l. l_data l \<noteq> 0) ls)
      in if i < length ls then
           mem_pages_lent fw LINE_PAGES s \<bind> (\<lambda>(at, s1).
             if at = 0 then Some (None, s1)
             else
               let s2 = set_line i \<lparr>l_first = NONE, l_used = 0, l_next = 0, l_data = at\<rparr> s1
               in Some (Some i, s2\<lparr>c_count := c_count s2 + 1\<rparr>))
         else Some (None, s))"

definition slot :: "'a cache_scheme firmware \<Rightarrow> 'a cache_scheme \<Rightarrow> (nat option \<times> 'a cache_scheme) option" where
  "slot fw s =
     (if may_grow fw s then
        (if c_count s = st_room s then grow_lines fw s else Some s) \<bind> buy_line fw
      else Some (None, s)) \<bind> (\<lambda>(bought, s1).
        case bought of
          Some i \<Rightarrow> Some (Some i, s1)
        | None \<Rightarrow>
            (case oldest s1 of
               None \<Rightarrow> Some (None, s1)
             | Some i \<Rightarrow>
                 (if l_first (st_lines s1 ! i) \<noteq> NONE then unhook i s1 else Some s1) \<bind> (\<lambda>s2. Some (Some i, s2))))"

section \<open>Reading and writing\<close>

type_synonym 's disk_fun = "u32 \<Rightarrow> u32 \<Rightarrow> 's \<Rightarrow> (bool \<times> sector list \<times> 's) option"

definition sector_at :: "u64 \<Rightarrow> nat \<Rightarrow> u64" where
  "sector_at data k = data + of_nat (k * 512)"

text \<open>The sectors \<open>xs\<close> copied to the memory at \<open>data\<close>, from its sector \<open>k\<close> on.\<close>

fun fill_line :: "u64 \<Rightarrow> nat \<Rightarrow> sector list \<Rightarrow> (u64 \<Rightarrow> sector) \<Rightarrow> u64 \<Rightarrow> sector" where
  "fill_line data k [] m = m"
| "fill_line data k (x # xs) m = fill_line data (Suc k) xs (m(sector_at data k := x))"

text \<open>A line of the disk read into line \<open>i\<close>, which then goes on its chain.\<close>

definition fetch_line ::
  "'a cache_scheme disk_fun \<Rightarrow> nat \<Rightarrow> u32 \<Rightarrow> 'a cache_scheme \<Rightarrow> (bool \<times> 'a cache_scheme) option" where
  "fetch_line disk i first s =
     disk first LINE_SECTORS s \<bind> (\<lambda>(ok, xs, s1).
       let s2 = s1\<lparr>line_mem := fill_line (l_data (st_lines s1 ! i)) 0 xs (line_mem s1)\<rparr>
       in Some (if \<not> ok then (False, s2)
                else (True, hook i (set_line i ((st_lines s2 ! i)\<lparr>l_first := first\<rparr>) s2))))"

definition use_line :: "nat \<Rightarrow> 'a cache_scheme \<Rightarrow> 'a cache_scheme" where
  "use_line i s =
     (let c = c_clock s + 1 in set_line i ((st_lines s ! i)\<lparr>l_used := c\<rparr>) (s\<lparr>c_clock := c\<rparr>))"

definition line_sectors :: "nat \<Rightarrow> nat \<Rightarrow> nat \<Rightarrow> 'a cache_scheme \<Rightarrow> sector list" where
  "line_sectors i within n s = map (\<lambda>k. line_mem s (sector_at (l_data (st_lines s ! i)) (within + k))) [0..<n]"

text \<open>The line that holds \<open>first\<close>, found or filled; \<open>None\<close> when the disk is to be read around the cache.\<close>

definition line_for ::
  "'a cache_scheme firmware \<Rightarrow> 'a cache_scheme disk_fun \<Rightarrow> u32 \<Rightarrow> 'a cache_scheme \<Rightarrow> (nat option \<times> 'a cache_scheme) option" where
  "line_for fw disk first s =
     find_line first s \<bind> (\<lambda>l.
       case l of
         Some i \<Rightarrow> Some (Some i, s)
       | None \<Rightarrow>
           slot fw s \<bind> (\<lambda>(b, s1).
             case b of
               None \<Rightarrow> Some (None, s1)
             | Some i \<Rightarrow>
                 fetch_line disk i first s1 \<bind> (\<lambda>(ok, s2). Some (if ok then Some i else None, s2))))"

text \<open>
  The loop of \<open>cache_read\<close>: what has been copied to \<open>out\<close> so far is \<open>got\<close>. The first component is
  whether the read succeeded.
\<close>

partial_function (option) read_lines ::
  "'a cache_scheme firmware \<Rightarrow> 'a cache_scheme disk_fun \<Rightarrow> u32 \<Rightarrow> u32 \<Rightarrow> sector list \<Rightarrow> 'a cache_scheme \<Rightarrow>
     (bool \<times> sector list \<times> 'a cache_scheme) option" where
  "read_lines fw disk lba n got s =
     (if n = 0 then Some (True, got, s)
      else
        let first = lba - lba mod LINE_SECTORS;
            within = lba - first;
            chunk = (if LINE_SECTORS - within < n then LINE_SECTORS - within else n)
        in line_for fw disk first s \<bind> (\<lambda>(l, s1).
             case l of
               None \<Rightarrow> disk lba n s1 \<bind> (\<lambda>(ok, xs, t). Some (ok, got @ xs, t))
             | Some i \<Rightarrow>
                 read_lines fw disk (lba + chunk) (n - chunk)
                   (got @ line_sectors i (unat within) (unat chunk) (use_line i s1)) (use_line i s1)))"

definition cache_read ::
  "'a cache_scheme firmware \<Rightarrow> 'a cache_scheme disk_fun \<Rightarrow> u32 \<Rightarrow> u32 \<Rightarrow> 'a cache_scheme \<Rightarrow>
     (bool \<times> sector list \<times> 'a cache_scheme) option" where
  "cache_read fw disk lba n s =
     (if c_off s then disk lba n s
      else
        read_lines fw disk lba n [] (s\<lparr>c_busy := True\<rparr>) \<bind> (\<lambda>(ok, xs, t).
          Some (ok, xs, t\<lparr>c_busy := False\<rparr>)))"

partial_function (option) written_lines ::
  "u32 \<Rightarrow> u32 \<Rightarrow> sector list \<Rightarrow> u32 \<Rightarrow> 'a cache_scheme \<Rightarrow> 'a cache_scheme option" where
  "written_lines lba n data first s =
     (if first < lba + n then
        let from = (if lba > first then lba else first);
            to = (if lba + n < first + LINE_SECTORS then lba + n else first + LINE_SECTORS)
        in find_line first s \<bind> (\<lambda>l.
             written_lines lba n data (first + LINE_SECTORS)
               (case l of
                  None \<Rightarrow> s
                | Some i \<Rightarrow>
                    s\<lparr>line_mem := fill_line (l_data (st_lines s ! i)) (unat (from - first))
                        (take (unat (to - from)) (drop (unat (from - lba)) data)) (line_mem s)\<rparr>))
      else Some s)"

definition cache_written :: "u32 \<Rightarrow> u32 \<Rightarrow> sector list \<Rightarrow> 'a cache_scheme \<Rightarrow> 'a cache_scheme option" where
  "cache_written lba n data s = written_lines lba n data (lba - lba mod LINE_SECTORS) s"

section \<open>The module and its command\<close>

definition module_init :: "'a cache_scheme \<Rightarrow> 'a cache_scheme" where
  "module_init s = s\<lparr>st_at := None, st_room := FIRST_LINES\<rparr>"

definition module_exit :: "'a cache_scheme firmware \<Rightarrow> 'a cache_scheme \<Rightarrow> 'a cache_scheme option" where
  "module_exit fw s =
     cap fw 0 s \<bind> (\<lambda>(_, s1). Some (case st_at s1 of None \<Rightarrow> s1 | Some st \<Rightarrow> mem_free fw (Some st) s1))"

text \<open>A size as ``512K'', ``64M'' or ``1G'', on the characters before the NUL; 0 if it is not one.\<close>

fun parse_digits :: "u8 list \<Rightarrow> u64 \<Rightarrow> u64 \<times> u8 list" where
  "parse_digits [] n = (n, [])"
| "parse_digits (c # cs) n =
     (if c \<ge> 48 \<and> c \<le> 57 then parse_digits cs (n * 10 + ucast (c - 48)) else (n, c # cs))"

definition parse_bytes :: "u8 list \<Rightarrow> u64" where
  "parse_bytes text =
     (let (n, tail) = parse_digits text 0;
          c = (case tail of [] \<Rightarrow> 0 | c # _ \<Rightarrow> c);
          shift = (if c = 107 \<or> c = 75 then 10 else if c = 109 \<or> c = 77 then 20 else if c = 103 \<or> c = 71 then 30 else 0)
      in if length tail \<le> 1 then push_bit shift n else 0)"

text \<open>\<open>cache off\<close>, and \<open>cache auto\<close>, \<open>cache on\<close> or a size in bytes (0 for auto); the files it then reads in apart.\<close>

definition cmd_off :: "'a cache_scheme firmware \<Rightarrow> 'a cache_scheme \<Rightarrow> 'a cache_scheme option" where
  "cmd_off fw s = cap fw 0 (s\<lparr>c_off := True\<rparr>) \<bind> (\<lambda>(_, t). Some t)"

definition cmd_size :: "'a cache_scheme firmware \<Rightarrow> u64 \<Rightarrow> 'a cache_scheme \<Rightarrow> 'a cache_scheme option" where
  "cmd_size fw bytes s =
     (let s1 = s\<lparr>c_off := False, c_limit := bytes div LINE_BYTES\<rparr>
      in cap fw (if c_limit s1 \<noteq> 0 then c_limit s1 else ucast (c_count s1)) s1 \<bind> (\<lambda>(_, t). Some t))"

section \<open>The table of lines\<close>

definition bare :: "line \<Rightarrow> line" where
  "bare l = l\<lparr>l_next := 0\<rparr>"

definition bares :: "'a cache_scheme \<Rightarrow> line list" where
  "bares s = map bare (st_lines s)"

definition bucket :: "u32 \<Rightarrow> u32 \<Rightarrow> nat" where
  "bucket room first = unat (first div LINE_SECTORS mod room)"

definition line_place :: "'a cache_scheme \<Rightarrow> nat \<Rightarrow> nat option" where
  "line_place s i =
     (let l = bares s ! i in if l_data l \<noteq> 0 \<and> l_first l \<noteq> NONE then Some (bucket (st_room s) (l_first l)) else None)"

definition line_valid :: "'a cache_scheme \<Rightarrow> link \<Rightarrow> bool" where
  "line_valid s l = (case l of Head h \<Rightarrow> h < length (st_chains s) | Next i \<Rightarrow> i < length (st_lines s))"

lemma line_get_put: "line_valid s l \<Longrightarrow> line_get (line_put l v s) = (line_get s)(l := v)"
  by (rule ext, rename_tac k, case_tac k; cases l) (auto simp: line_valid_def nth_list_update)

interpretation lines: chain_store line_get line_put line_valid
proof
  fix s :: "'a cache_scheme" and l k :: link and v :: u32
  show "line_valid (line_put l v s) k = line_valid s k"
    by (cases l; cases k) (auto simp: line_valid_def)
qed (rule line_get_put)

lemma bare_simps [simp]:
  "bare (l\<lparr>l_next := v\<rparr>) = bare l" "l_first (bare l) = l_first l" "l_data (bare l) = l_data l" "l_used (bare l) = l_used l"
  "bare (bare l) = bare l" "bare (l\<lparr>l_first := a\<rparr>) = (bare l)\<lparr>l_first := a\<rparr>" "bare (l\<lparr>l_data := b\<rparr>) = (bare l)\<lparr>l_data := b\<rparr>"
  "bare (l\<lparr>l_used := c\<rparr>) = (bare l)\<lparr>l_used := c\<rparr>"
  by (simp_all add: bare_def)

lemma length_bares [simp]: "length (bares s) = length (st_lines s)"
  by (simp add: bares_def)

text \<open>
  \<open>relined s t\<close>: of the cache's state only the lines and the chains differ, and the lines with their
  places in the chains put aside are \<open>bs\<close>.
\<close>

definition relined :: "line list \<Rightarrow> 'a cache_scheme \<Rightarrow> 'a cache_scheme \<Rightarrow> bool" where
  "relined bs s t \<longleftrightarrow> (\<exists>ls cs. t = s\<lparr>st_lines := ls, st_chains := cs\<rparr> \<and> map bare ls = bs \<and> length cs = length (st_chains s))"

definition line_lens :: "'a cache_scheme \<Rightarrow> bool" where
  "line_lens s \<longleftrightarrow> st_room s \<noteq> 0 \<and> length (st_lines s) = unat (st_room s) \<and> length (st_chains s) = unat (st_room s)"

abbreviation line_table :: "'a cache_scheme \<Rightarrow> (nat \<Rightarrow> nat option) \<Rightarrow> bool" where
  "line_table s pl \<equiv> table (line_get s) (unat (st_room s)) (unat (st_room s)) pl"

lemma relinedD:
  assumes "relined bs s t"
  shows "bares t = bs" "st_room t = st_room s" "mem.truncate t = mem.truncate s" "st_at t = st_at s" "c_count t = c_count s"
    "c_clock t = c_clock s" "c_limit t = c_limit s" "c_off t = c_off s" "c_busy t = c_busy s" "line_mem t = line_mem s"
    "cache.more t = cache.more s" "share_fields t = share_fields s" "length (st_chains t) = length (st_chains s)"
    "words t = words s" "ours t = ours s" "free_set t = free_set s" "mem_inv t = mem_inv s" "ram_kib t = ram_kib s"
  using assms
  by (auto simp: relined_def bares_def mem.truncate_def share_fields_def free_set_def loose_set_def loose_list_def
      mem_inv_def loose_ok_def)

lemma relined_lens: "relined bs s t \<Longrightarrow> length bs = length (st_lines s) \<Longrightarrow> line_lens t = line_lens s"
  by (auto simp: relined_def line_lens_def dest: arg_cong [where f = length])

lemma relinedI:
  "t = s\<lparr>st_lines := ls, st_chains := cs\<rparr> \<Longrightarrow> map bare ls = bs \<Longrightarrow> length cs = length (st_chains s) \<Longrightarrow> relined bs s t"
  by (auto simp: relined_def)

lemma lines_upd_same [simp]: "s\<lparr>st_lines := st_lines s\<rparr> = s" "s\<lparr>st_chains := st_chains s\<rparr> = s"
  by (cases s; simp)+

lemma relined_refl: "relined (bares s) s s"
  by (rule relinedI [where ls = "st_lines s" and cs = "st_chains s"]) (simp_all add: bares_def)

lemma relined_put: "relined (bares s) s (line_put l v s)"
proof (cases l)
  case (Head h)
  show ?thesis
    by (rule relinedI [where ls = "st_lines s" and cs = "(st_chains s)[h := v]"]) (simp_all add: Head bares_def)
next
  case (Next i)
  show ?thesis
    by (rule relinedI [where ls = "(st_lines s)[i := (st_lines s ! i)\<lparr>l_next := v\<rparr>]" and cs = "st_chains s"])
      (simp_all add: Next bares_def map_upd_same)
qed

lemma relined_set: "relined ((bares s)[i := bare l]) s (set_line i l s)"
  by (rule relinedI [where ls = "(st_lines s)[i := l]" and cs = "st_chains s"])
    (simp_all add: set_line_def bares_def map_update)

lemma relined_trans: "relined bs s t \<Longrightarrow> relined cs t u \<Longrightarrow> relined cs s u"
proof -
  assume "relined bs s t" "relined cs t u"
  then obtain ls ks ls' ks' where "t = s\<lparr>st_lines := ls, st_chains := ks\<rparr>" "length ks = length (st_chains s)"
    "u = t\<lparr>st_lines := ls', st_chains := ks'\<rparr>" "map bare ls' = cs" "length ks' = length (st_chains t)"
    unfolding relined_def by blast
  then show ?thesis by (intro relinedI [where ls = ls' and cs = ks']) simp_all
qed

lemma line_index:
  assumes "line_lens s" "i < unat (st_room s)"
  shows "bares s ! i = bare (st_lines s ! i)" "line_valid s (Next i)" "line_valid s (Head (bucket (st_room s) f))"
    "bucket (st_room s) f < unat (st_room s)" "i < length (bares s)"
proof -
  have "unat (f div LINE_SECTORS mod st_room s) < unat (st_room s)"
    using assms(1) by (simp add: unat_mod line_lens_def unat_gt_0)
  then show "bucket (st_room s) f < unat (st_room s)" "line_valid s (Head (bucket (st_room s) f))"
    using assms(1) by (simp_all add: bucket_def line_valid_def line_lens_def)
qed (use assms in \<open>simp_all add: bares_def line_valid_def line_lens_def\<close>)

declare line_get.simps [simp del] line_put.simps [simp del]

lemma line_get_set_line: "l_next l = l_next (st_lines s ! i) \<Longrightarrow> line_get (set_line i l s) = line_get s"
  by (rule ext, rename_tac k, case_tac k) (simp_all add: line_get.simps set_line_def nth_upd_same [of l_next])

lemma chain_of_bucket: "chain_of s first = Head (bucket (st_room s) first)"
  by (simp add: chain_of_def bucket_def)

lemma unhook_table:
  assumes ln: "line_lens s" and i: "i < unat (st_room s)" and tab: "line_table s pl"
    and h: "pl i = Some (bucket (st_room s) (l_first (bares s ! i)))"
  shows "\<exists>t. unhook i s = Some t \<and> relined ((bares s)[i := (bares s ! i)\<lparr>l_first := NONE\<rparr>]) s t \<and>
    line_table t (pl(i := None))"
proof -
  note ix = line_index [OF ln i]
  define b where "b = bucket (st_room s) (l_first (bares s ! i))"
  have val: "line_valid s (Head b)" "\<And>j. j < unat (st_room s) \<Longrightarrow> line_valid s (Next j)" "b < unat (st_room s)"
    using ix(3,4) line_index(2) [OF ln] by (auto simp: b_def)
  obtain l where l: "walk_to (\<lambda>x. x = number i) (line_get s) (Head b) = Some l" "line_get s l = number i"
      "table (line_get (line_put l (line_get s (Next i)) s)) (unat (st_room s)) (unat (st_room s)) (pl(i := None))"
    using lines.unlink [OF tab val(3) i h [folded b_def] val(1,2)] by metis
  define s1 where "s1 = line_put l (line_get s (Next i)) s"
  define t where "t = set_line i ((st_lines s1 ! i)\<lparr>l_first := NONE\<rparr>) s1"
  have s1: "relined (bares s) s s1" unfolding s1_def by (rule relined_put)
  have ln1: "line_lens s1" using relined_lens [OF s1] ln by simp
  have b1: "bare (st_lines s1 ! i) = bares s ! i"
    using line_index(1) [OF ln1] i relinedD(1,2) [OF s1] by simp
  have "unhook i s = Some t"
    using l(1,2) ix(1) by (simp add: unhook_def chain_of_bucket b_def t_def s1_def line_get.simps Let_def)
  moreover have "relined ((bares s)[i := (bares s ! i)\<lparr>l_first := NONE\<rparr>]) s t"
    using relined_trans [OF s1 relined_set [of s1 i "(st_lines s1 ! i)\<lparr>l_first := NONE\<rparr>"]] b1 relinedD(1) [OF s1]
    by (simp add: t_def)
  moreover have "line_get t = line_get s1" by (simp add: t_def line_get_set_line)
  moreover have "st_room t = st_room s" using relinedD(2) [OF calculation(2)] .
  ultimately show ?thesis using l(3) by (auto simp: s1_def)
qed

lemma hook_table:
  assumes ln: "line_lens s" and i: "i < unat (st_room s)" and tab: "line_table s pl" and "pl i = None"
  shows "relined (bares s) s (hook i s)" "line_table (hook i s) (pl(i := Some (bucket (st_room s) (l_first (bares s ! i)))))"
proof -
  note ix = line_index [OF ln i]
  define b where "b = bucket (st_room s) (l_first (bares s ! i))"
  have hk: "hook i s = line_put (Head b) (number i) (line_put (Next i) (line_get s (Head b)) s)"
    using ix(1) by (simp add: hook_def Let_def chain_of_bucket b_def)
  show r: "relined (bares s) s (hook i s)"
    unfolding hk using relined_trans [OF relined_put relined_put] relinedD(1) [OF relined_put] by metis
  show "line_table (hook i s) (pl(i := Some (bucket (st_room s) (l_first (bares s ! i)))))"
    using lines.push [OF tab i assms(4) ix(4,2,3)] relinedD(2) [OF r] unfolding hk b_def by metis
qed

section \<open>The invariant\<close>

definition held_lines :: "'a cache_scheme \<Rightarrow> nat set" where
  "held_lines s = {i. i < length (bares s) \<and> l_data (bares s ! i) \<noteq> 0}"

definition line_block :: "'a cache_scheme \<Rightarrow> nat \<Rightarrow> nat set" where
  "line_block s i = block (l_data (bares s ! i)) LINE_PAGES"

definition lent :: "'a cache_scheme \<Rightarrow> nat set" where
  "lent s = (\<Union>i \<in> held_lines s. line_block s i)"

definition cache_ok :: "'a cache_scheme \<Rightarrow> bool" where
  "cache_ok s \<longleftrightarrow> line_lens s \<and> line_table s (line_place s) \<and> unat (c_count s) = card (held_lines s) \<and>
     (\<forall>i \<in> held_lines s. run_ok \<lparr>r_at = l_data (bares s ! i), r_count = LINE_PAGES\<rparr>) \<and>
     (\<forall>i \<in> held_lines s. \<forall>j \<in> held_lines s. i \<noteq> j \<longrightarrow> line_block s i \<inter> line_block s j = {})"

definition memory_ok :: "'a cache_scheme \<Rightarrow> bool" where
  "memory_ok s \<longleftrightarrow> mem_inv s \<and> ours s \<and> cache_ok s \<and> lent s \<inter> free_set s = {}"

lemma finite_held [simp]: "finite (held_lines s)"
  by (simp add: held_lines_def)

lemma cache_fields_more:
  fixes s t :: "'a cache_scheme"
  assumes "mem.more t = mem.more s"
  shows "st_room t = st_room s" "st_lines t = st_lines s" "st_chains t = st_chains s" "st_at t = st_at s" "c_count t = c_count s"
    "c_clock t = c_clock s" "c_limit t = c_limit s" "c_off t = c_off s" "c_busy t = c_busy s" "line_mem t = line_mem s"
    "cache.more t = cache.more s" "share_fields t = share_fields s"
  using assms by (cases t; cases s; simp add: share_fields_def)+

lemma cache_ok_more:
  fixes s t :: "'a cache_scheme"
  assumes "mem.more t = mem.more s"
  shows "bares t = bares s" "line_get t = line_get s" "line_place t = line_place s" "held_lines t = held_lines s"
    "line_block t = line_block s" "lent t = lent s" "cache_ok t = cache_ok s"
proof -
  note f = cache_fields_more [OF assms]
  show b: "bares t = bares s" by (simp add: bares_def f)
  show g: "line_get t = line_get s" by (rule ext, rename_tac k, case_tac k) (simp_all add: line_get.simps f)
  show p: "line_place t = line_place s" by (rule ext) (simp add: line_place_def b f Let_def)
  show h: "held_lines t = held_lines s" by (simp add: held_lines_def b)
  show k: "line_block t = line_block s" by (rule ext) (simp add: line_block_def b)
  show "lent t = lent s" by (simp add: lent_def h k)
  show "cache_ok t = cache_ok s" by (simp add: cache_ok_def line_lens_def b f g p h k)
qed

lemma rest_more: "rest t = rest s \<Longrightarrow> mem.more t = mem.more s"
  by (simp add: rest_def)

subsection \<open>The line used longest ago\<close>

lemma oldest_from_spec:
  assumes "ls = pre @ post" "case best of None \<Rightarrow> (\<forall>l \<in> set pre. l_data l = 0)
      | Some b \<Rightarrow> b < length pre \<and> l_data (ls ! b) \<noteq> 0 \<and> (\<forall>j < length pre. l_data (ls ! j) \<noteq> 0 \<longrightarrow> l_used (ls ! b) \<le> l_used (ls ! j))"
  shows "case oldest_from ls (length pre) best post of None \<Rightarrow> (\<forall>l \<in> set ls. l_data l = 0)
      | Some b \<Rightarrow> b < length ls \<and> l_data (ls ! b) \<noteq> 0 \<and> (\<forall>j < length ls. l_data (ls ! j) \<noteq> 0 \<longrightarrow> l_used (ls ! b) \<le> l_used (ls ! j))"
  using assms
proof (induction post arbitrary: pre best)
  case (Cons l post)
  define best' where "best' = (if l_data l \<noteq> 0 \<and> (case best of None \<Rightarrow> True | Some b \<Rightarrow> l_used l < l_used (ls ! b))
    then Some (length pre) else best)"
  have at: "ls ! length pre = l" using Cons.prems(1) by simp
  have "case best' of None \<Rightarrow> (\<forall>l \<in> set (pre @ [l]). l_data l = 0)
      | Some b \<Rightarrow> b < length (pre @ [l]) \<and> l_data (ls ! b) \<noteq> 0 \<and>
          (\<forall>j < length (pre @ [l]). l_data (ls ! j) \<noteq> 0 \<longrightarrow> l_used (ls ! b) \<le> l_used (ls ! j))"
  proof (cases best)
    case None
    have "j < length pre \<Longrightarrow> l_data (ls ! j) = 0" for j
      using Cons.prems(1,2) None by (simp add: nth_append)
    then show ?thesis using None Cons.prems(2) at by (auto simp: best'_def less_Suc_eq)
  next
    case (Some b)
    then show ?thesis using Cons.prems(2) at by (auto simp: best'_def less_Suc_eq not_less)
  qed
  note best' = this
  have step: "oldest_from ls (length pre) best (l # post) = oldest_from ls (length (pre @ [l])) best' post"
    by (simp add: best'_def)
  show ?case unfolding step by (rule Cons.IH [OF _ best']) (simp add: Cons.prems(1))
qed (auto split: option.splits)

lemma oldest_spec:
  assumes "line_lens s"
  shows "oldest s = None \<Longrightarrow> held_lines s = {}"
    "oldest s = Some i \<Longrightarrow> i \<in> held_lines s \<and> (\<forall>j \<in> held_lines s. l_used (bares s ! i) \<le> l_used (bares s ! j))"
proof -
  have t: "take (unat (st_room s)) (st_lines s) = st_lines s" using assms by (simp add: line_lens_def)
  note o = oldest_from_spec [of "st_lines s" "[]" "st_lines s" None, simplified, folded oldest_def [of s, unfolded t]]
  show "held_lines s = {}" if "oldest s = None" using o that by (auto simp: held_lines_def bares_def)
  show "i \<in> held_lines s \<and> (\<forall>j \<in> held_lines s. l_used (bares s ! i) \<le> l_used (bares s ! j))" if "oldest s = Some i"
    using o that by (auto simp: held_lines_def bares_def)
qed

subsection \<open>Giving a line back\<close>

text \<open>
  \<open>shrunk s t\<close>: the cache has given lines back, each to the allocator, and changed nothing of those
  it kept, of what it has of its own, or of anything else's memory.
\<close>

definition kept_view :: "'a cache_scheme \<Rightarrow> u32 \<times> u64 option \<times> u32 \<times> u64 \<times> bool \<times> bool \<times> (u64 \<Rightarrow> sector) \<times> 'a" where
  "kept_view s = (st_room s, st_at s, c_clock s, c_limit s, c_off s, c_busy s, line_mem s, cache.more s)"

definition shrunk :: "'a cache_scheme \<Rightarrow> 'a cache_scheme \<Rightarrow> bool" where
  "shrunk s t \<longleftrightarrow> memory_ok t \<and> ram_kib t = ram_kib s \<and> held_lines t \<subseteq> held_lines s \<and>
     (\<forall>j \<in> held_lines t. bares t ! j = bares s ! j) \<and> free_set t \<subseteq> free_set s \<union> lent s \<and>
     (\<forall>p. unat p \<notin> free_set s \<union> lent s \<longrightarrow> words t p = words s p) \<and>
     kept_view t = kept_view s \<and> share_fields t = share_fields s"

lemma shrunk_lent: "shrunk s t \<Longrightarrow> lent t \<subseteq> lent s"
  by (fastforce simp: shrunk_def lent_def line_block_def)

lemma shrunk_refl: "memory_ok s \<Longrightarrow> shrunk s s"
  by (simp add: shrunk_def)

lemma shrunk_trans:
  assumes "shrunk s t" "shrunk t u"
  shows "shrunk s u"
proof -
  have "lent t \<subseteq> lent s" "lent u \<subseteq> lent t" using assms shrunk_lent by auto
  then have sub: "free_set t \<union> lent t \<subseteq> free_set s \<union> lent s" using assms(1) by (auto simp: shrunk_def)
  have "\<forall>p. unat p \<notin> free_set s \<union> lent s \<longrightarrow> words u p = words s p"
    using assms sub unfolding shrunk_def by (metis subsetD)
  moreover have "free_set u \<subseteq> free_set s \<union> lent s" using assms(2) sub by (auto simp: shrunk_def)
  moreover have "\<forall>j \<in> held_lines u. bares u ! j = bares s ! j" using assms unfolding shrunk_def by (metis subsetD)
  ultimately show ?thesis using assms unfolding shrunk_def by auto
qed

lemma line_place_upd:
  "bares t = (bares s)[i := l] \<Longrightarrow> i < length (bares s) \<Longrightarrow> st_room t = st_room s \<Longrightarrow>
   line_place t = (line_place s)(i := (if l_data l \<noteq> 0 \<and> l_first l \<noteq> NONE then Some (bucket (st_room s) (l_first l)) else None))"
  by (rule ext) (auto simp: line_place_def Let_def nth_list_update)

lemma held_linesD:
  assumes "cache_ok s" "i \<in> held_lines s"
  shows "i < unat (st_room s)" "i < length (bares s)" "run_ok \<lparr>r_at = l_data (bares s ! i), r_count = LINE_PAGES\<rparr>"
    "line_block s i \<subseteq> lent s"
  using assms by (auto simp: held_lines_def cache_ok_def line_lens_def lent_def)

lemma truncate_same:
  fixes s t :: "'a mem_scheme"
  assumes "mem.truncate t = mem.truncate s"
  shows "mem_inv t = mem_inv s" "free_set t = free_set s" "ours t = ours s" "words t = words s" "ram_kib t = ram_kib s"
    "runs t = runs s"
  using assms by (auto simp: mem.truncate_def mem_inv_def free_set_def loose_ok_def loose_set_def loose_list_def)

lemma relined_runs: "relined bs s t \<Longrightarrow> runs t = runs s"
  by (auto simp: relined_def)

text \<open>A held line off its chain, if it is on one.\<close>

lemma unhook_held:
  assumes ok: "cache_ok s" and i: "i \<in> held_lines s"
  shows "\<exists>t. (if l_first (st_lines s ! i) \<noteq> NONE then unhook i s else Some s) = Some t \<and>
    relined ((bares s)[i := (bares s ! i)\<lparr>l_first := NONE\<rparr>]) s t \<and> line_table t ((line_place s)(i := None)) \<and> line_lens t"
proof -
  have ln: "line_lens s" and tab: "line_table s (line_place s)" using ok by (auto simp: cache_ok_def)
  note hd = held_linesD [OF ok i]
  have d: "l_data (bares s ! i) \<noteq> 0" using i by (simp add: held_lines_def)
  have fst: "l_first (st_lines s ! i) = l_first (bares s ! i)" using line_index(1) [OF ln hd(1)] by simp
  show ?thesis
  proof (cases "l_first (bares s ! i) = NONE")
    case True
    have "(bares s)[i := (bares s ! i)\<lparr>l_first := NONE\<rparr>] = bares s"
      using True by (metis bare_simps(2) list_update_id line.surjective line.update_convs(1))
    moreover have "(line_place s)(i := None) = line_place s" using True by (auto simp: line_place_def Let_def)
    ultimately show ?thesis using True fst relined_refl [of s] tab ln by simp
  next
    case False
    then have "line_place s i = Some (bucket (st_room s) (l_first (bares s ! i)))"
      using d by (simp add: line_place_def Let_def)
    from unhook_table [OF ln hd(1) tab this] show ?thesis using False fst relined_lens ln by fastforce
  qed
qed

lemma give_back_shrunk:
  assumes ok: "memory_ok s" and i: "i \<in> held_lines s"
  shows "\<exists>t. give_back fw i s = Some t \<and> shrunk s t \<and> held_lines t = held_lines s - {i} \<and>
    {p \<in> free_set s \<union> line_block s i. 2 ^ 30 \<le> p} \<subseteq> free_set t \<and>
    (length (runs s) < RUNS \<longrightarrow> free_set t = free_set s \<union> line_block s i)"
proof -
  have c: "cache_ok s" "mem_inv s" "ours s" "lent s \<inter> free_set s = {}" using ok by (auto simp: memory_ok_def)
  note hd = held_linesD [OF c(1) i]
  obtain s1 where s1: "(if l_first (st_lines s ! i) \<noteq> NONE then unhook i s else Some s) = Some s1"
    "relined ((bares s)[i := (bares s ! i)\<lparr>l_first := NONE\<rparr>]) s s1" "line_table s1 ((line_place s)(i := None))" "line_lens s1"
    using unhook_held [OF c(1) i] by blast
  note r1 = relinedD [OF s1(2)]
  have d1: "l_data (st_lines s1 ! i) = l_data (bares s ! i)"
    using line_index(1) [OF s1(4), of i] hd(1,2) r1(1,2) by (metis bare_simps(3) line.simps(4) line.select_convs(4) nth_list_update_eq line.surjective line.update_convs(1))
  define s2 where "s2 = mem_pages_free fw (l_data (bares s ! i)) LINE_PAGES s1"
  define t where "t = (let s3 = set_line i ((st_lines s2 ! i)\<lparr>l_data := 0\<rparr>) s2 in s3\<lparr>c_count := c_count s3 - 1\<rparr>)"
  have gb: "give_back fw i s = Some t"
    unfolding give_back_def s1(1) using d1 by (simp add: s2_def t_def Let_def)
  have rest2: "rest s2 = rest s1" using c(3) r1(15) by (simp add: s2_def mem_pages_free_rest)
  note f2 = cache_fields_more [OF rest_more [OF rest2]] and o2 = cache_ok_more [OF rest_more [OF rest2]]
  have tt: "mem.truncate t = mem.truncate s2" by (simp add: t_def Let_def set_line_def mem.truncate_def)
  note m2 = truncate_same [OF tt]
  define X where "X = (bares s ! i)\<lparr>l_first := NONE, l_data := 0\<rparr>"
  have b2: "bares s2 = (bares s)[i := (bares s ! i)\<lparr>l_first := NONE\<rparr>]" using o2(1) r1(1) by simp
  have "bare (st_lines s2 ! i) = bares s2 ! i" using hd(2) b2 by (metis length_bares length_list_update bares_def nth_map)
  then have bt: "bares t = (bares s)[i := X]"
    using relinedD(1) [OF relined_set [of s2 i "(st_lines s2 ! i)\<lparr>l_data := 0\<rparr>"]] hd(2) b2
    by (simp add: t_def Let_def X_def bares_def)
  have ft: "st_room t = st_room s" "st_at t = st_at s" "c_clock t = c_clock s" "c_limit t = c_limit s" "c_off t = c_off s"
    "c_busy t = c_busy s" "line_mem t = line_mem s" "cache.more t = cache.more s" "share_fields t = share_fields s"
    "c_count t = c_count s - 1" "st_chains t = st_chains s1"
    using f2 r1 by (simp_all add: t_def Let_def set_line_def share_fields_def)
  have "line_get t = line_get (set_line i ((st_lines s2 ! i)\<lparr>l_data := 0\<rparr>) s2)"
    by (rule ext, rename_tac k, case_tac k) (simp_all add: t_def Let_def line_get.simps)
  then have gt: "line_get t = line_get s1" using o2(2) by (simp add: line_get_set_line)
  have pt: "line_place t = (line_place s)(i := None)" using line_place_upd [OF bt hd(2) ft(1)] by (simp add: X_def)
  have ht: "held_lines t = held_lines s - {i}"
    using hd(2) unfolding held_lines_def bt by (auto simp: nth_list_update X_def)
  have same: "bares t ! j = bares s ! j" if "j \<in> held_lines t" for j using that ht by (auto simp: bt)
  have lb: "line_block t j = line_block s j" if "j \<in> held_lines t" for j using same [OF that] by (simp add: line_block_def)
  have lens: "line_lens t"
    using s1(4) ft(1,11) r1(2) bt by (simp add: line_lens_def) (metis length_bares length_list_update bt r1(1))
  have ct: "unat (c_count s) = card (held_lines s)" using c(1) by (simp add: cache_ok_def)
  moreover have "card (held_lines s) > 0" using i by (auto simp: card_gt_0_iff)
  ultimately have "c_count s \<noteq> 0" by auto
  then have cnt: "unat (c_count t) = card (held_lines t)"
    using ct i ht ft(10) unat_pred [of "c_count s"] by (simp add: card_Diff_singleton)
  have cok: "cache_ok t"
    using lens gt pt cnt s1(3) r1(2) ft(1) c(1) same lb ht unfolding cache_ok_def by auto
  have blk: "run_ok \<lparr>r_at = l_data (bares s ! i), r_count = LINE_PAGES\<rparr>" "line_block s i \<inter> free_set s1 = {}"
    using hd(3,4) c(4) r1(16) by auto
  have inv1: "mem_inv s1" "ours s1" using r1(15,17) c(2,3) by simp_all
  have add: "added \<lparr>r_at = l_data (bares s ! i), r_count = LINE_PAGES\<rparr> s1 s2"
    using mem_pages_free_added(1) [OF inv1 blk(1)] blk(2) by (simp add: s2_def line_block_def)
  then have inv2: "mem_inv s2" "free_set s2 \<subseteq> free_set s \<union> line_block s i"
    "{p \<in> free_set s \<union> line_block s i. 2 ^ 30 \<le> p} \<subseteq> free_set s2"
    "length (runs s) < RUNS \<longrightarrow> free_set s2 = free_set s \<union> line_block s i"
    using r1(16) relined_runs [OF s1(2)] by (simp_all add: added_def line_block_def)
  have wd: "words t p = words s p" if "unat p \<notin> free_set s \<union> lent s" for p
    using mem_pages_free_words [OF inv1 blk(1), of p fw] that hd(4) m2(4) r1(14,16)
    by (auto simp: s2_def line_block_def)
  have "lent t \<inter> line_block s i = {}"
    using c(1) i ht lb unfolding lent_def cache_ok_def by fastforce
  moreover have "lent t \<subseteq> lent s" using ht lb unfolding lent_def by auto
  ultimately have "lent t \<inter> free_set t = {}" using inv2(2) c(4) m2(2) by blast
  moreover have "ours t" "ram_kib t = ram_kib s" using m2(3,5) rest2 c(3) r1(15,18) by (simp_all add: rest_def)
  ultimately have "memory_ok t" using cok m2(1) inv2(1) by (simp add: memory_ok_def)
  then have "shrunk s t"
    using \<open>ram_kib t = ram_kib s\<close> ht same inv2(2) m2(2) hd(4) wd ft unfolding shrunk_def kept_view_def by auto
  then show ?thesis using gb ht inv2(3,4) m2(2) by auto
qed

subsection \<open>Shrinking\<close>

text \<open>
  Giving lines back until no more than \<open>most\<close> are left always ends, with as many left as that or
  fewer, and answers exactly what was given back.
\<close>

lemma cap_from_spec:
  "memory_ok s \<Longrightarrow> \<exists>t. cap_from fw most given s = Some (given + ucast (c_count s - c_count t) * LINE_BYTES, t) \<and> shrunk s t \<and>
     c_count t \<le> c_count s \<and> unat (c_count t) = min (unat (c_count s)) (unat most)"
proof (induction "card (held_lines s)" arbitrary: s given rule: less_induct)
  case less
  have ok: "cache_ok s" "unat (c_count s) = card (held_lines s)" "line_lens s"
    using less.prems by (simp_all add: memory_ok_def cache_ok_def)
  have un: "unat (ucast (c_count s) :: u64) = unat (c_count s)"
    by (simp add: unsigned_ucast_eq take_bit_nat_eq_self unat_bound order.strict_trans2 [OF unat_bound])
  show ?case
  proof (cases "ucast (c_count s) > most")
    case False
    then have "unat (c_count s) \<le> unat most" using un by (simp add: word_nat not_less)
    then show ?thesis
      using False less.prems shrunk_refl by (subst cap_from.simps) (auto intro!: exI [of _ s])
  next
    case True
    then have gt: "unat most < unat (c_count s)" using un by (simp add: word_nat)
    then have "held_lines s \<noteq> {}" using ok(2) by auto
    then obtain i where i: "oldest s = Some i" "i \<in> held_lines s" using oldest_spec [OF ok(3)] by (cases "oldest s") auto
    obtain s1 where s1: "give_back fw i s = Some s1" "shrunk s s1" "held_lines s1 = held_lines s - {i}"
      using give_back_shrunk [OF less.prems i(2), of fw] by blast
    have m1: "memory_ok s1" using s1(2) by (simp add: shrunk_def)
    have c1: "unat (c_count s1) = unat (c_count s) - 1"
      using m1 ok(2) s1(3) i(2) by (simp add: memory_ok_def cache_ok_def card_Diff_singleton)
    have "card (held_lines s1) < card (held_lines s)"
      unfolding s1(3) using i(2) by (intro card_Diff1_less) simp_all
    from less.hyps [OF this m1] obtain t where
      t: "cap_from fw most (given + LINE_BYTES) s1 = Some (given + LINE_BYTES + ucast (c_count s1 - c_count t) * LINE_BYTES, t)"
        "shrunk s1 t" "c_count t \<le> c_count s1" "unat (c_count t) = min (unat (c_count s1)) (unat most)" by blast
    have le: "unat (c_count t) \<le> unat (c_count s1)" using t(3) by (simp add: word_nat)
    have "unat (c_count s - c_count t) = Suc (unat (c_count s1 - c_count t))"
      using le c1 gt by (simp add: unat_sub_le word_nat)
    then have "(ucast (c_count s - c_count t) :: u64) = ucast (c_count s1 - c_count t) + 1"
      by (metis of_nat_Suc of_nat_unat add.commute)
    then have "given + LINE_BYTES + ucast (c_count s1 - c_count t) * LINE_BYTES = given + ucast (c_count s - c_count t) * LINE_BYTES"
      by (simp add: algebra_simps)
    moreover have "cap_from fw most given s = cap_from fw most (given + LINE_BYTES) s1"
      using True i(1) s1(1) by (subst cap_from.simps) simp
    moreover have "c_count t \<le> c_count s" "unat (c_count t) = min (unat (c_count s)) (unat most)"
      using le c1 t(4) gt by (auto simp: word_nat)
    ultimately show ?thesis using t(1) shrunk_trans [OF s1(2) t(2)] by (intro exI [of _ t]) simp
  qed
qed

lemma cache_shrink_spec:
  assumes ok: "memory_ok s"
  shows "\<exists>given t. cache_shrink fw bytes s = Some (given, t) \<and> shrunk s t \<and>
    (given \<noteq> 0 \<longrightarrow> unat (c_count t) < unat (c_count s)) \<and>
    (\<not> c_busy s \<longrightarrow> unat given = 65536 * (unat (c_count s) - unat (c_count t)) \<and>
       (unat bytes + 65535 < 2 ^ 64 \<longrightarrow> unat given \<ge> min (unat bytes) (65536 * unat (c_count s))))"
proof (cases "c_busy s")
  case True
  then show ?thesis using shrunk_refl [OF ok] by (auto simp: cache_shrink_def)
next
  case False
  define most where "most = (if ucast (c_count s) > bytes div LINE_BYTES
    then ucast (c_count s) - (bytes + LINE_BYTES - 1) div LINE_BYTES else 0)"
  obtain t where t: "cap_from fw most 0 s = Some (ucast (c_count s - c_count t) * LINE_BYTES, t)" "shrunk s t"
      "c_count t \<le> c_count s" "unat (c_count t) = min (unat (c_count s)) (unat most)"
    using cap_from_spec [OF ok, of fw most 0] by auto
  have eq: "cache_shrink fw bytes s = Some (ucast (c_count s - c_count t) * LINE_BYTES, t)"
    using False t(1) by (simp add: cache_shrink_def cap_def most_def)
  have un: "unat (ucast x :: u64) = unat x" for x :: u32
    by (simp add: unsigned_ucast_eq take_bit_nat_eq_self order.strict_trans2 [OF unat_bound])
  have diff: "unat (c_count s - c_count t) = unat (c_count s) - unat (c_count t)"
    using t(3) by (simp add: unat_sub_le word_nat)
  have "unat (c_count s) < 2 ^ 32" using unat_bound [of "c_count s"] by simp
  then have g: "unat (ucast (c_count s - c_count t) * LINE_BYTES) = 65536 * (unat (c_count s) - unat (c_count t))"
    by (subst unat_mult_small) (simp_all add: un diff LINE_BYTES_def)
  have "65536 * (unat (c_count s) - unat (c_count t)) \<ge> min (unat bytes) (65536 * unat (c_count s))"
    if small: "unat bytes + 65535 < 2 ^ 64"
  proof -
    have b: "bytes + LINE_BYTES - 1 = bytes + 65535" by (simp add: LINE_BYTES_def)
    have "unat (bytes + 65535) = unat bytes + 65535" using unat_add_small [of bytes 65535] small by simp
    then have q: "unat ((bytes + LINE_BYTES - 1) div LINE_BYTES) = (unat bytes + 65535) div 65536" "unat (bytes div LINE_BYTES) = unat bytes div 65536"
      unfolding b by (simp_all add: unat_div LINE_BYTES_def)
    show ?thesis
    proof (cases "ucast (c_count s) > bytes div LINE_BYTES")
      case True
      then have lt: "unat bytes div 65536 < unat (c_count s)" using q(2) un by (simp add: word_nat)
      then have le: "(unat bytes + 65535) div 65536 \<le> unat (c_count s)" by linarith
      then have "unat most = unat (c_count s) - (unat bytes + 65535) div 65536"
        using True q(1) un unfolding most_def by (simp add: unat_sub_le word_nat)
      then have "unat (c_count s) - unat (c_count t) = (unat bytes + 65535) div 65536" using t(4) le by simp
      then show ?thesis by simp
    next
      case False
      then have "unat (c_count t) = 0" using t(4) by (simp add: most_def)
      then show ?thesis by simp
    qed
  qed
  moreover have "unat (c_count t) < unat (c_count s)" if "ucast (c_count s - c_count t) * LINE_BYTES \<noteq> 0"
    using that g by (cases "unat (c_count t) < unat (c_count s)") (simp_all add: unat_eq_zero)
  ultimately show ?thesis using eq t(2) g False by (intro exI) auto
qed

lemma shrunk_view: "shrunk s t \<Longrightarrow> ours t \<and> share_fields t = share_fields s"
  by (simp add: shrunk_def memory_ok_def)

interpretation lender: lender "cache_shrink fw" lent "\<lambda>s. unat (c_count s)" cache_ok for fw
proof
  fix s t :: "'a cache_scheme"
  assume r: "rest t = rest s"
  show "lent t = lent s \<and> unat (c_count t) = unat (c_count s) \<and> cache_ok t = cache_ok s"
    using cache_ok_more(6,7) [OF rest_more [OF r]] cache_fields_more(5) [OF rest_more [OF r]] by simp
next
  fix s :: "'a cache_scheme" and n
  assume "mem_inv s" "ours s" "cache_ok s" "lent s \<inter> free_set s = {}"
  then have "memory_ok s" by (simp add: memory_ok_def)
  show "\<exists>given t. cache_shrink fw n s = Some (given, t) \<and> mem_inv t \<and> ours t \<and> ram_kib t = ram_kib s \<and> cache_ok t \<and>
      lent t \<inter> free_set t = {} \<and> lent t \<subseteq> lent s \<and> free_set t \<subseteq> free_set s \<union> lent s \<and>
      (given \<noteq> 0 \<longrightarrow> unat (c_count t) < unat (c_count s)) \<and>
      (\<forall>p. unat p \<notin> free_set s \<union> lent s \<longrightarrow> words t p = words s p)"
  proof -
    obtain g t where g: "cache_shrink fw n s = Some (g, t)" "shrunk s t" "g \<noteq> 0 \<longrightarrow> unat (c_count t) < unat (c_count s)"
      using cache_shrink_spec [OF \<open>memory_ok s\<close>, of fw n] by blast
    have "lent t \<subseteq> lent s" using g(2) by (rule shrunk_lent)
    then show ?thesis using g by (intro exI [of _ g] exI [of _ t]) (simp add: shrunk_def memory_ok_def)
  qed
qed

lemma state_ok_memory [simp]: "lender.state_ok s = memory_ok s"
  by (simp add: lender.state_ok_def memory_ok_def)

lemma owned_lent [simp]: "lender.owned s = free_set s \<union> lent s"
  by (simp add: lender.owned_def)

end
