(* ===== verification/CacheRead.thy ===== *)
theory CacheRead
  imports Cache
begin

text \<open>
  Reading the disk through the cache and keeping the cache true to what is written: the cache's
  invariant with what its lines hold, that buying, evicting and filling a line keep it, and that a
  read through the cache gives what the disk holds.
\<close>

section \<open>What the lines hold\<close>

definition hooked :: "'a cache_scheme \<Rightarrow> nat set" where
  "hooked s = {i \<in> held_lines s. l_first (bares s ! i) \<noteq> NONE}"

text \<open>Every line on a chain holds the sectors of the disk \<open>d\<close> it is said to, and no two the same.\<close>

definition coherent :: "(nat \<Rightarrow> sector) \<Rightarrow> 'a cache_scheme \<Rightarrow> bool" where
  "coherent d s \<longleftrightarrow>
     (\<forall>i \<in> hooked s. unat (l_first (bares s ! i)) mod 128 = 0 \<and>
        (\<forall>k < 128. line_mem s (sector_at (l_data (bares s ! i)) k) = d (unat (l_first (bares s ! i)) + k))) \<and>
     (\<forall>i \<in> hooked s. \<forall>j \<in> hooked s. l_first (bares s ! i) = l_first (bares s ! j) \<longrightarrow> i = j)"

definition st_count :: "u32 \<Rightarrow> u64" where
  "st_count room = (HEAD room + HEADER + PAGE - 1) div PAGE"

definition st_block :: "'a cache_scheme \<Rightarrow> nat set" where
  "st_block s = (case st_at s of None \<Rightarrow> {} | Some p \<Rightarrow> block (p - HEADER) (st_count (st_room s)))"

definition st_ok :: "'a cache_scheme \<Rightarrow> bool" where
  "st_ok s \<longleftrightarrow> st_block s \<inter> (free_set s \<union> lent s) = {} \<and>
     (\<forall>p. st_at s = Some p \<longrightarrow> run_ok \<lparr>r_at = p - HEADER, r_count = st_count (st_room s)\<rparr> \<and>
        words s (p - HEADER) = st_count (st_room s))"

text \<open>Memory is less than 64 TiB, which is what keeps the number of lines within its 32 bits.\<close>

definition bounded :: "'a cache_scheme \<Rightarrow> bool" where
  "bounded s \<longleftrightarrow> free_set s \<union> lent s \<union> st_block s \<subseteq> {p. p < 2 ^ 46}"

definition cache_inv :: "(nat \<Rightarrow> sector) \<Rightarrow> 'a cache_scheme \<Rightarrow> bool" where
  "cache_inv d s \<longleftrightarrow> memory_ok s \<and> st_ok s \<and> bounded s \<and> coherent d s"

lemma hooked_place: "cache_ok s \<Longrightarrow> i \<in> hooked s \<longleftrightarrow> i < unat (st_room s) \<and> line_place s i \<noteq> None"
  by (auto simp: hooked_def held_lines_def line_place_def Let_def cache_ok_def line_lens_def)

lemma cache_number:
  assumes "cache_ok s" "i < unat (st_room s)"
  shows "unat (number i) - 1 = i" "number i \<noteq> 0"
  using assms number_nonzero [of i] by (auto simp: cache_ok_def table_def unat_number)

lemma find_line_cases:
  assumes ok: "cache_ok s" and f: "first \<noteq> NONE"
  obtains (found) i where "find_line first s = Some (Some i)" "i \<in> hooked s" "l_first (bares s ! i) = first"
    | (absent) "find_line first s = Some None" "\<forall>i \<in> hooked s. l_first (bares s ! i) \<noteq> first"
proof -
  have ln: "line_lens s" and tab: "line_table s (line_place s)" using ok by (auto simp: cache_ok_def)
  define b where "b = bucket (st_room s) first"
  have "0 < unat (st_room s)" using ln by (simp add: line_lens_def unat_gt_0)
  then have br: "b < unat (st_room s)" using line_index(4) [OF ln] by (simp add: b_def)
  define P where "P = (\<lambda>x :: u32. l_first (st_lines s ! (unat x - 1)) = first)"
  have P: "P (number i) \<longleftrightarrow> l_first (bares s ! i) = first" if "i < unat (st_room s)" for i
    using that cache_number [OF ok that] line_index(1) [OF ln that] by (simp add: P_def)
  have eq: "find_line first s = walk_to P (line_get s) (Head b) \<bind> (\<lambda>at.
      Some (if line_get s at = 0 then None else Some (unat (line_get s at) - 1)))"
    by (simp add: find_line_def P_def chain_of_bucket b_def)
  show thesis
    using tab br
  proof (cases rule: table_walk [where P = P])
    case (found i l)
    then have "find_line first s = Some (Some i)" using eq cache_number [OF ok found(3)] by simp
    moreover have "i \<in> hooked s" using found(3,4) hooked_place [OF ok] by simp
    ultimately show thesis using that(1) found(5) P [OF found(3)] by simp
  next
    case (absent l)
    have "l_first (bares s ! i) \<noteq> first" if h: "i \<in> hooked s" for i
    proof
      assume e: "l_first (bares s ! i) = first"
      have ir: "i < unat (st_room s)" using h hooked_place [OF ok] by simp
      have "line_place s i = Some b" using h e by (simp add: hooked_def held_lines_def line_place_def Let_def b_def)
      then show False using absent(3) [OF ir] P [OF ir] e by simp
    qed
    then show thesis using that(2) eq absent(1,2) by simp
  qed
qed

section \<open>Lines bought and evicted\<close>

text \<open>
  \<open>settled d s t\<close>: the invariant holds again, and what is in the lines, on the disk and in the rest
  of the kernel is as it was.
\<close>

definition settled :: "(nat \<Rightarrow> sector) \<Rightarrow> 'a cache_scheme \<Rightarrow> 'a cache_scheme \<Rightarrow> bool" where
  "settled d s t \<longleftrightarrow> cache_inv d t \<and> line_mem t = line_mem s \<and> cache.more t = cache.more s \<and> c_busy t = c_busy s \<and>
     c_off t = c_off s \<and> share_fields t = share_fields s"

lemma coherent_sub:
  assumes "coherent d s" "line_mem t = line_mem s"
    "\<And>i. i \<in> hooked t \<Longrightarrow> i \<in> hooked s \<and> l_first (bares t ! i) = l_first (bares s ! i) \<and> l_data (bares t ! i) = l_data (bares s ! i)"
  shows "coherent d t"
  using assms unfolding coherent_def by auto

lemma evict_settled:
  assumes inv: "cache_inv d s" and i: "i \<in> held_lines s"
  shows "\<exists>t. (if l_first (st_lines s ! i) \<noteq> NONE then unhook i s else Some s) = Some t \<and> settled d s t \<and>
    i \<in> held_lines t \<and> i \<notin> hooked t \<and> hooked t \<subseteq> hooked s \<and> (\<forall>j \<in> hooked t. l_first (bares t ! j) = l_first (bares s ! j))"
proof -
  have m: "memory_ok s" "cache_ok s" "st_ok s" "bounded s" "coherent d s"
    using inv by (auto simp: cache_inv_def memory_ok_def)
  note hd = held_linesD [OF m(2) i]
  define X where "X = (bares s ! i)\<lparr>l_first := NONE\<rparr>"
  obtain t where t: "(if l_first (st_lines s ! i) \<noteq> NONE then unhook i s else Some s) = Some t"
    "relined ((bares s)[i := X]) s t" "line_table t ((line_place s)(i := None))" "line_lens t"
    using unhook_held [OF m(2) i] unfolding X_def by blast
  note r = relinedD [OF t(2)]
  have pt: "line_place t = (line_place s)(i := None)" using line_place_upd [OF r(1) hd(2) r(2)] by (simp add: X_def)
  have data: "l_data (bares t ! j) = l_data (bares s ! j)" for j
    using hd(2) by (cases "j = i") (simp_all add: r(1) X_def)
  have ht: "held_lines t = held_lines s" using r(1) data by (auto simp: held_lines_def)
  have lb: "line_block t = line_block s" by (rule ext) (simp add: line_block_def data)
  have lt: "lent t = lent s" by (simp add: lent_def ht lb)
  have ck: "cache_ok t" using m(2) t(3,4) pt ht lb data r(5) by (simp add: cache_ok_def)
  have sb: "st_block t = st_block s" by (simp add: st_block_def r(2,4) split: option.split)
  have hk: "hooked t = hooked s - {i}"
    using ht hd(2) by (auto simp: hooked_def r(1) nth_list_update X_def)
  have fst: "l_first (bares t ! j) = l_first (bares s ! j)" if "j \<noteq> i" for j using that by (simp add: r(1))
  have "memory_ok t" using m(1) ck lt r(15,16,17) by (simp add: memory_ok_def)
  moreover have "st_ok t" using m(3) lt sb r(2,4,14,16) by (simp add: st_ok_def)
  moreover have "bounded t" using m(4) lt sb r(16) by (simp add: bounded_def)
  moreover have "coherent d t" by (rule coherent_sub [OF m(5) r(10)]) (simp add: hk data fst)
  ultimately have "settled d s t" using r by (simp add: settled_def cache_inv_def)
  then show ?thesis using t(1) ht i hk fst by auto
qed

lemma mem_pages_lent_spec:
  assumes inv: "mem_inv s" "ours s" "count \<noteq> 0"
  shows "\<exists>at t. mem_pages_lent fw count s = Some (at, t) \<and> mem_inv t \<and> rest t = rest s \<and> free_set t \<subseteq> free_set s \<and>
    (at \<noteq> 0 \<longrightarrow> run_ok \<lparr>r_at = at, r_count = count\<rparr> \<and> block at count \<subseteq> free_set s \<and> block at count \<inter> free_set t = {}) \<and>
    (\<forall>p. unat p \<notin> free_set s \<longrightarrow> words t p = words s p)"
proof -
  obtain at u where tp: "take_pages fw count s = Some (at, u)" "taken at count s u"
    using take_pages_taken [OF inv, of fw] by blast
  have r: "rest u = rest s" using take_pages_rest [OF inv(2) tp(1)] .
  have w: "\<forall>p. unat p \<notin> free_set s \<longrightarrow> words u p = words s p" using take_pages_words [OF inv(1,2) tp(1)] by blast
  have u: "mem_inv u" "at \<noteq> 0 \<longrightarrow> run_ok \<lparr>r_at = at, r_count = count\<rparr> \<and> block at count \<subseteq> free_set s"
    "free_set u = free_set s - (if at = 0 then {} else block at count)"
    using tp(2) by (auto simp: taken_def split: if_splits)
  show ?thesis
  proof (cases "at \<noteq> 0 \<and> at < floor_kept u")
    case True
    have "added \<lparr>r_at = at, r_count = count\<rparr> u (run_add at count u)" using True u by (intro run_add_added) auto
    then have a: "mem_inv (run_add at count u)" "free_set (run_add at count u) \<subseteq> free_set s"
      using u True by (auto simp: added_def)
    have "words (run_add at count u) p = words s p" if "unat p \<notin> free_set s" for p
      using run_add_words [OF u(1), of at count p] u True that w by auto
    then show ?thesis using True tp(1) a r by (auto simp: mem_pages_lent_def)
  next
    case False
    then show ?thesis using tp(1) u r w by (auto simp: mem_pages_lent_def split: if_splits)
  qed
qed

lemma takeWhile_first:
  assumes "length (takeWhile P xs) < length xs"
  shows "\<not> P (xs ! length (takeWhile P xs))"
  using assms by (rule nth_length_takeWhile)

lemma buy_line_settled:
  assumes inv: "cache_inv d s"
  shows "\<exists>b t. buy_line fw s = Some (b, t) \<and> settled d s t \<and> hooked t = hooked s \<and>
    (\<forall>j \<in> hooked t. l_first (bares t ! j) = l_first (bares s ! j)) \<and>
    (\<forall>i. b = Some i \<longrightarrow> i \<in> held_lines t \<and> i \<notin> hooked t)"
proof -
  have m: "memory_ok s" "cache_ok s" "st_ok s" "bounded s" "coherent d s" "mem_inv s" "ours s" "lent s \<inter> free_set s = {}"
    using inv by (auto simp: cache_inv_def memory_ok_def)
  have ln: "line_lens s" using m(2) by (simp add: cache_ok_def)
  have tk: "take (unat (st_room s)) (st_lines s) = st_lines s" using ln by (simp add: line_lens_def)
  define i where "i = length (takeWhile (\<lambda>l. l_data l \<noteq> 0) (st_lines s))"
  show ?thesis
  proof (cases "i < length (st_lines s)")
    case False
    then have "buy_line fw s = Some (None, s)" unfolding buy_line_def Let_def tk i_def [symmetric] by simp
    then show ?thesis using inv by (auto simp: settled_def)
  next
    case True
    have LP: "LINE_PAGES \<noteq> 0" by (simp add: LINE_PAGES_def)
    obtain at u where l: "mem_pages_lent fw LINE_PAGES s = Some (at, u)" "mem_inv u" "rest u = rest s" "free_set u \<subseteq> free_set s"
      "at \<noteq> 0 \<longrightarrow> run_ok \<lparr>r_at = at, r_count = LINE_PAGES\<rparr> \<and> block at LINE_PAGES \<subseteq> free_set s \<and> block at LINE_PAGES \<inter> free_set u = {}"
      "\<forall>p. unat p \<notin> free_set s \<longrightarrow> words u p = words s p"
      using mem_pages_lent_spec [OF m(6,7) LP, of fw] by blast
    note f = cache_fields_more [OF rest_more [OF l(3)]] and o = cache_ok_more [OF rest_more [OF l(3)]]
    have sb: "st_block u = st_block s" by (simp add: st_block_def f split: option.split)
    have wst: "words u (p - HEADER) = words s (p - HEADER)" if "st_at s = Some p" for p
    proof -
      have "unat (p - HEADER) \<in> st_block s" using m(3) that run_ok_start by (fastforce simp: st_ok_def st_block_def)
      then show ?thesis using m(3) l(6) by (auto simp: st_ok_def)
    qed
    have hku: "hooked u = hooked s" by (simp add: hooked_def o)
    have base: "memory_ok u" "st_ok u" "bounded u" "coherent d u"
      using m l(2,3,4) o f sb wst hku
      by (auto simp: memory_ok_def st_ok_def bounded_def coherent_def rest_def)
    show ?thesis
    proof (cases "at = 0")
      case True
      then have "buy_line fw s = Some (None, u)"
        using \<open>i < length (st_lines s)\<close> l(1) unfolding buy_line_def Let_def tk i_def [symmetric] by simp
      moreover have "settled d s u" using base f by (simp add: settled_def cache_inv_def)
      ultimately show ?thesis using hku o(1) by auto
    next
      case False
      define X where "X = \<lparr>l_first = NONE, l_used = 0, l_next = 0, l_data = at\<rparr>"
      define t where "t = (let s2 = set_line i X u in s2\<lparr>c_count := c_count s2 + 1\<rparr>)"
      have bl: "buy_line fw s = Some (Some i, t)"
        using \<open>i < length (st_lines s)\<close> l(1) False unfolding buy_line_def Let_def tk i_def [symmetric] by (simp add: t_def X_def Let_def)
      have d0: "l_data (bares s ! i) = 0"
        using takeWhile_first [of "\<lambda>l. l_data l \<noteq> 0" "st_lines s"] True by (simp add: i_def bares_def)
      have il: "i < length (bares s)" "i \<notin> held_lines s" "i \<notin> hooked s" using True d0 by (simp_all add: held_lines_def hooked_def)
      have bt: "bares t = (bares s)[i := X]"
        using relinedD(1) [OF relined_set [of u i X]] o(1) by (simp add: t_def Let_def bares_def X_def bare_def)
      have ft: "st_room t = st_room s" "st_at t = st_at s" "c_off t = c_off s" "c_busy t = c_busy s" "line_mem t = line_mem s"
        "cache.more t = cache.more s" "share_fields t = share_fields s" "c_count t = c_count s + 1" "st_chains t = st_chains s"
        "st_lines t = (st_lines s)[i := X]"
        using f by (simp_all add: t_def Let_def set_line_def share_fields_def)
      have tt: "mem.truncate t = mem.truncate u" by (simp add: t_def Let_def set_line_def mem.truncate_def)
      note mt = truncate_same [OF tt]
      have ht: "held_lines t = insert i (held_lines s)"
        using il(1) False unfolding held_lines_def bt by (auto simp: nth_list_update X_def)
      have hk: "hooked t = hooked s" using il ht unfolding hooked_def bt by (auto simp: nth_list_update X_def)
      have same: "bares t ! j = bares s ! j" if "j \<noteq> i" for j using that by (simp add: bt)
      have bi: "bares t ! i = X" using il(1) by (simp add: bt)
      have lb: "line_block t j = line_block s j" if "j \<in> held_lines s" for j
      proof -
        have "j \<noteq> i" using that il(2) by auto
        then show ?thesis using same by (simp add: line_block_def)
      qed
      have lbi: "line_block t i = block at LINE_PAGES" by (simp add: line_block_def bi X_def)
      have lt: "lent t = lent s \<union> block at LINE_PAGES" using ht lb lbi by (auto simp: lent_def)
      have blk: "run_ok \<lparr>r_at = at, r_count = LINE_PAGES\<rparr>" "block at LINE_PAGES \<subseteq> free_set s" "block at LINE_PAGES \<inter> free_set u = {}"
        using l(5) False by auto
      have pt: "line_place t = line_place s"
        using line_place_upd [OF bt il(1) ft(1)] d0 by (auto simp: X_def line_place_def Let_def)
      have tab: "line_table t (line_place t)"
        unfolding ft(1) pt
      proof (rule table_cong)
        show "line_table s (line_place s)" using m(2) by (simp add: cache_ok_def)
        show "line_get t (Next j) = line_get s (Next j)" if "line_place s j \<noteq> None" for j
          using that d0 by (cases "j = i") (auto simp: line_get.simps ft(10) line_place_def Let_def)
      qed (simp_all add: line_get.simps ft)
      have cnt: "unat (c_count t) = card (held_lines t)"
      proof -
        have "card (held_lines s) < unat (st_room s)"
          using ln il(2) psubset_card_mono [of "{..<unat (st_room s)}" "held_lines s"] True
          by (auto simp: held_lines_def line_lens_def)
        then have "unat (c_count s) + 1 < 2 ^ 32" using m(2) unat_bound [of "st_room s"] by (simp add: cache_ok_def)
        then have "unat (c_count s + 1) = unat (c_count s) + 1" using unat_add_small [of "c_count s" 1] by simp
        then show ?thesis using ht il(2) m(2) ft(8) by (simp add: cache_ok_def)
      qed
      have dis: "line_block t j \<inter> line_block t k = {}" if jk: "j \<in> held_lines t" "k \<in> held_lines t" "j \<noteq> k" for j k
      proof -
        have "line_block s j' \<inter> block at LINE_PAGES = {}" if "j' \<in> held_lines s" for j'
          using held_linesD(4) [OF m(2) that] m(8) blk(2) by blast
        then show ?thesis using jk ht lb lbi m(2) unfolding cache_ok_def by (metis (no_types, lifting) Int_commute insertE)
      qed
      have ro: "run_ok \<lparr>r_at = l_data (bares t ! j), r_count = LINE_PAGES\<rparr>" if "j \<in> held_lines t" for j
        using that blk(1) same [of j] bi ht m(2) by (cases "j = i") (auto simp: X_def cache_ok_def)
      have "line_lens t" using ln ft by (simp add: line_lens_def)
      then have "cache_ok t" unfolding cache_ok_def using tab cnt dis ro by blast
      moreover have "lent t \<inter> free_set t = {}" using lt mt(2) m(8) l(4) blk(3) by auto
      ultimately have "memory_ok t" using mt l(2,3) m(7) by (simp add: memory_ok_def rest_def)
      moreover have "st_block t = st_block s" by (simp add: st_block_def ft split: option.split)
      then have "st_ok t" "bounded t"
        using m(3,4) lt mt(2,4) l(4) blk(2) wst ft(1,2) unfolding st_ok_def bounded_def by (auto 0 3)
      moreover have sameh: "bares t ! j = bares s ! j" if "j \<in> hooked s" for j using that same il(3) by metis
      moreover have "coherent d t"
        by (rule coherent_sub [OF m(5) ft(5)]) (simp add: hk sameh)
      ultimately have "settled d s t" using ft by (simp add: settled_def cache_inv_def)
      moreover have "\<forall>j \<in> hooked t. l_first (bares t ! j) = l_first (bares s ! j)" using hk sameh by simp
      ultimately show ?thesis using bl ht hk il(3) by auto
    qed
  qed
qed

subsection \<open>Room for more lines\<close>

text \<open>The chains while they are built again, the lines before \<open>k\<close> being on them.\<close>

lemma rehook:
  assumes "line_lens s" "k \<le> unat (st_room s)" "\<forall>h < unat (st_room s). st_chains s ! h = 0" "unat (st_room s) < 2 ^ 32 - 1"
    "\<forall>i < k. l_data (bares s ! i) \<noteq> 0"
  defines "t \<equiv> fold (\<lambda>i s. if l_first (st_lines s ! i) \<noteq> NONE then hook i s else s) [0..<k] s"
  shows "relined (bares s) s t \<and> line_table t (\<lambda>i. if i < k then line_place s i else None)"
  using assms(2,5) unfolding t_def
proof (induction k)
  case 0
  have "line_table s (\<lambda>_. None)" using assms(3,4) by (intro table_empty) (simp_all add: line_get.simps)
  then show ?case using relined_refl [of s] by simp
next
  case (Suc k)
  define u where "u = fold (\<lambda>i s. if l_first (st_lines s ! i) \<noteq> NONE then hook i s else s) [0..<k] s"
  define pl where "pl = (\<lambda>i. if i < k then line_place s i else None)"
  have u: "relined (bares s) s u" "line_table u pl" using Suc by (simp_all add: u_def pl_def)
  note r = relinedD [OF u(1)]
  have ln: "line_lens u" using relined_lens [OF u(1)] assms(1) by simp
  have kr: "k < unat (st_room u)" using Suc.prems(1) r(2) by simp
  have fst: "l_first (st_lines u ! k) = l_first (bares s ! k)" using line_index(1) [OF ln kr] r(1) by simp
  have dk: "l_data (bares s ! k) \<noteq> 0" using Suc.prems(2) by simp
  have pk: "pl k = None" by (simp add: pl_def)
  have step: "(\<lambda>i. if i < Suc k then line_place s i else None) = pl(k := line_place s k)"
    by (auto simp: pl_def less_Suc_eq)
  show ?case
  proof (cases "l_first (bares s ! k) = NONE")
    case True
    then have "pl(k := line_place s k) = pl" using pk by (auto simp: line_place_def Let_def)
    then show ?thesis using True fst u by (simp add: step flip: u_def)
  next
    case False
    have hk: "relined (bares u) u (hook k u)" "line_table (hook k u) (pl(k := Some (bucket (st_room u) (l_first (bares u ! k)))))"
      using hook_table [OF ln kr u(2) pk] by auto
    have "line_place s k = Some (bucket (st_room u) (l_first (bares u ! k)))"
      using False dk r(1,2) by (simp add: line_place_def Let_def)
    then show ?thesis using False fst hk relined_trans [OF u(1) hk(1)] r(1) by (simp add: step flip: u_def)
  qed
qed

lemma full_room_bound:
  assumes inv: "cache_inv d s" and full: "c_count s = st_room s"
  shows "unat (st_room s) \<le> 2 ^ 30" "held_lines s = {..<unat (st_room s)}"
proof -
  have ok: "cache_ok s" "bounded s" using inv by (auto simp: cache_inv_def memory_ok_def)
  have cnt: "card (held_lines s) = unat (st_room s)" using ok(1) full by (simp add: cache_ok_def)
  have sub: "held_lines s \<subseteq> {..<unat (st_room s)}" using ok(1) by (auto simp: held_lines_def cache_ok_def line_lens_def)
  show eq: "held_lines s = {..<unat (st_room s)}" using card_subset_eq [OF _ sub] cnt by simp
  have card: "finite (line_block s i) \<and> card (line_block s i) = 16" if "i \<in> held_lines s" for i
    using card_run_pages [OF held_linesD(3) [OF ok(1) that]] by (simp add: line_block_def LINE_PAGES_def)
  have "card (lent s) = (\<Sum>i \<in> held_lines s. card (line_block s i))"
    unfolding lent_def using card ok(1) by (intro card_UN_disjoint) (auto simp: cache_ok_def)
  also have "\<dots> = 16 * unat (st_room s)" using card cnt by simp
  finally have c: "card (lent s) = 16 * unat (st_room s)" .
  have "lent s \<subseteq> span 0 (0 + 4096 * 2 ^ 34)"
  proof
    fix p assume p: "p \<in> lent s"
    then have "page_aligned p" by (auto simp: lent_def line_block_def run_pages_def span_def)
    then show "p \<in> span 0 (0 + 4096 * 2 ^ 34)" using p ok(2) by (auto simp: bounded_def span_def)
  qed
  then have "card (lent s) \<le> 2 ^ 34" using card_mono [OF finite_span] card_span [of 0 "2 ^ 34"] by (metis page_aligned_simps(1))
  then show "unat (st_room s) \<le> 2 ^ 30" using c by simp
qed

lemma busy_alloc:
  assumes "c_busy s" "ours s" "mem_alloc fw (Some (cache_shrink fw)) b s = Some (r, t)"
  shows "mem.more t = mem.more s" "ours t"
proof -
  have "ours t \<and> mem.more t = mem.more s"
  proof (rule mem_alloc_keeps [OF _ _ assms(3,2)])
    fix f n u g t
    assume f: "Some (cache_shrink fw) = Some f" "ours u" "mem.more u = mem.more s" "f n u = Some (g, t)"
    then have "c_busy u" using assms(1) cache_fields_more(9) by metis
    then show "ours t \<and> mem.more t = mem.more s" using f by (auto simp: cache_shrink_def)
  qed (rule rest_more)
  then show "mem.more t = mem.more s" "ours t" by auto
qed

lemma HEAD_small: "unat room \<le> 2 ^ 31 \<Longrightarrow> unat (HEAD room) + 4111 < 2 ^ 64" for room :: u32
proof -
  assume r: "unat room \<le> 2 ^ 31"
  have u: "unat (ucast room :: u64) = unat room" by (simp add: unsigned_ucast_eq take_bit_nat_eq_self order.strict_trans2 [OF unat_bound])
  have "unat (ucast room * (24 + 4) :: u64) = unat room * 28"
    using r u by (subst unat_mult_small) simp_all
  then have "unat (HEAD room) = 8 + unat room * 28"
    using r unfolding HEAD_def by (subst unat_add_small) simp_all
  then show ?thesis using r by simp
qed

text \<open>An allocation while the cache is in use, in the terms of the cache's invariant.\<close>

lemma cache_alloc:
  assumes ok: "memory_ok s" and small: "unat bytes + 4111 < 2 ^ 64"
  shows "\<exists>r t. mem_alloc fw (Some (cache_shrink fw)) bytes s = Some (r, t) \<and> memory_ok t \<and>
    free_set t \<union> lent t \<subseteq> free_set s \<union> lent s \<and> (\<forall>p. unat p \<notin> free_set s \<union> lent s \<longrightarrow> words t p = words s p) \<and>
    (\<forall>p. r = Some p \<longrightarrow> run_ok \<lparr>r_at = p - HEADER, r_count = (bytes + HEADER + PAGE - 1) div PAGE\<rparr> \<and>
       block (p - HEADER) ((bytes + HEADER + PAGE - 1) div PAGE) \<subseteq> free_set s \<union> lent s \<and>
       block (p - HEADER) ((bytes + HEADER + PAGE - 1) div PAGE) \<inter> (free_set t \<union> lent t) = {} \<and>
       words t (p - HEADER) = (bytes + HEADER + PAGE - 1) div PAGE)"
proof -
  have st: "lender.state_ok s" using ok by simp
  obtain r t where a: "mem_alloc fw (Some (cache_shrink fw)) bytes s = Some (r, t)"
    "case r of None \<Rightarrow> lender.state_ok t \<and> lender.owned t \<subseteq> lender.owned s \<and> (\<forall>p. unat p \<notin> lender.owned s \<longrightarrow> words t p = words s p)
     | Some p \<Rightarrow> (\<exists>count. count = (bytes + HEADER + PAGE - 1) div PAGE \<and> lender.got (p - HEADER) count s t \<and> p - HEADER \<noteq> 0 \<and>
         words t (p - HEADER) = count \<and> unat (p - HEADER) + 16 = unat p \<and> unat p + unat bytes \<le> unat (p - HEADER) + 4096 * unat count)"
    using lender.mem_alloc_got [OF st small, of fw] by blast
  show ?thesis
  proof (cases r)
    case None
    then show ?thesis using a by auto
  next
    case (Some p)
    then have g: "lender.got (p - HEADER) ((bytes + HEADER + PAGE - 1) div PAGE) s t" "p - HEADER \<noteq> 0"
      "words t (p - HEADER) = (bytes + HEADER + PAGE - 1) div PAGE" using a(2) by auto
    from g(1,2) show ?thesis using a(1) g(3) Some unfolding lender.got_def state_ok_memory owned_lent
      by (intro exI [of _ r] exI [of _ t]) auto
  qed
qed

lemma grow_lines_settled:
  assumes inv: "cache_inv d s" and full: "c_count s = st_room s" and busy: "c_busy s"
  shows "\<exists>t. grow_lines fw s = Some t \<and> settled d s t \<and> hooked t = hooked s \<and>
    (\<forall>j \<in> hooked t. l_first (bares t ! j) = l_first (bares s ! j))"
proof -
  have m: "memory_ok s" "cache_ok s" "st_ok s" "bounded s" "coherent d s" "mem_inv s" "ours s" "lent s \<inter> free_set s = {}"
    using inv by (auto simp: cache_inv_def memory_ok_def)
  note fr = full_room_bound [OF inv full]
  have ln: "line_lens s" using m(2) by (simp add: cache_ok_def)
  define room where "room = unat (st_room s)"
  have r2: "unat (st_room s * 2) = 2 * room" using fr(1) by (simp add: unat_mult_small room_def)
  have small: "unat (HEAD (st_room s * 2)) + 4111 < 2 ^ 64" using fr(1) r2 by (intro HEAD_small) (simp add: room_def)
  obtain r s1 where a: "mem_alloc fw (Some (cache_shrink fw)) (HEAD (st_room s * 2)) s = Some (r, s1)"
    and g: "memory_ok s1" "free_set s1 \<union> lent s1 \<subseteq> free_set s \<union> lent s"
      "\<forall>p. unat p \<notin> free_set s \<union> lent s \<longrightarrow> words s1 p = words s p"
    and new: "\<And>p. r = Some p \<Longrightarrow> run_ok \<lparr>r_at = p - HEADER, r_count = st_count (st_room s * 2)\<rparr> \<and>
       block (p - HEADER) (st_count (st_room s * 2)) \<subseteq> free_set s \<union> lent s \<and>
       block (p - HEADER) (st_count (st_room s * 2)) \<inter> (free_set s1 \<union> lent s1) = {} \<and>
       words s1 (p - HEADER) = st_count (st_room s * 2)"
    using cache_alloc [OF m(1) small, of fw] unfolding st_count_def by blast
  have more: "mem.more s1 = mem.more s" using busy_alloc(1) [OF busy m(7) a] .
  note f = cache_fields_more [OF more] and o = cache_ok_more [OF more]
  have st1: "words s1 (p - HEADER) = words s (p - HEADER)" if "st_at s = Some p" for p
  proof -
    have "unat (p - HEADER) \<in> st_block s" using m(3) that(1) run_ok_start by (fastforce simp: st_ok_def st_block_def)
    then show ?thesis using m(3) g(3) by (auto simp: st_ok_def)
  qed
  show ?thesis
  proof (cases r)
    case None
    have "grow_lines fw s = Some s1" using a None by (simp add: grow_lines_def)
    moreover have sb: "st_block s1 = st_block s" by (simp add: st_block_def f split: option.split)
    have hk: "hooked s1 = hooked s" by (simp add: hooked_def o)
    have "st_ok s1" using m(3) g(2) st1 sb f unfolding st_ok_def by auto
    moreover have "bounded s1" using m(4) g(2) sb by (auto simp: bounded_def)
    moreover have "coherent d s1" using m(5) by (simp add: coherent_def hk o f)
    ultimately show ?thesis using g(1) hk o f by (auto simp: settled_def cache_inv_def)
  next
    case (Some b)
    note nw = new [OF Some]
    define s2 where "s2 = s1\<lparr>st_lines := take (unat (st_room s1)) (st_lines s1) @
         replicate (unat (st_room s1 * 2) - unat (st_room s1)) line0,
       st_chains := replicate (unat (st_room s1 * 2)) 0, st_room := st_room s1 * 2, st_at := Some b\<rparr>"
    define s3 where "s3 = fold (\<lambda>i s. if l_first (st_lines s ! i) \<noteq> NONE then hook i s else s) [0..<unat (st_room s1)] s2"
    define t where "t = (case st_at s1 of None \<Rightarrow> s3 | Some was \<Rightarrow> mem_free fw (Some was) s3)"
    have gl: "grow_lines fw s = Some t"
      unfolding grow_lines_def t_def s3_def s2_def using a Some by (simp add: Let_def)
    have ur: "unat (st_room s1) = room" "unat (st_room s1 * 2) = 2 * room" using f(1) r2 by (simp_all add: room_def)
    have llen: "length (st_lines s) = room" using ln by (simp add: line_lens_def room_def)
    have b2: "bares s2 = bares s @ replicate room line0"
      using llen f(2) ur by (simp add: s2_def bares_def map_replicate_const bare_def line0_def)
    have room2: "unat (st_room s2) = 2 * room" "st_room s2 = st_room s * 2" using r2 f(1) by (simp_all add: s2_def)
    have rpos: "room \<noteq> 0" using ln by (simp add: line_lens_def room_def unat_eq_zero)
    have ln2: "line_lens s2" using llen f(2) room2 rpos ur by (auto simp: line_lens_def s2_def)
    have lt: "unat (st_room s2) < 2 ^ 32 - 1" using room2(1) fr(1) by (simp add: room_def)
    have dat: "\<forall>i < room. l_data (bares s2 ! i) \<noteq> 0" using fr(2) llen b2 by (auto simp: held_lines_def nth_append room_def)
    have ch0: "\<forall>h < unat (st_room s2). st_chains s2 ! h = 0" using room2(1) ur by (simp add: s2_def)
    have rh: "relined (bares s2) s2 s3" "line_table s3 (\<lambda>i. if i < room then line_place s2 i else None)"
      using rehook [OF ln2 _ ch0 lt dat] room2(1) by (simp_all add: s3_def ur)
    note r3 = relinedD [OF rh(1)]
    have b3: "bares s3 = bares s @ replicate room line0" using r3(1) b2 by simp
    have at: "bares s3 ! i = (if i < room then bares s ! i else line0)" if "i < 2 * room" for i
      using that llen by (auto simp: b3 nth_append)
    have len3: "length (bares s3) = 2 * room" using llen by (simp add: b3)
    have held3: "held_lines s3 = held_lines s"
      using at len3 llen unfolding held_lines_def by (auto simp: line0_def split: if_splits)
    have data3: "bares s3 ! i = bares s ! i" if "i \<in> held_lines s" for i
      using that at [of i] llen by (simp add: held_lines_def)
    have lent3: "lent s3 = lent s" by (simp add: lent_def held3 line_block_def data3)
    have hk3: "hooked s3 = hooked s" by (auto simp: hooked_def held3 data3)
    have tr3: "mem.truncate s3 = mem.truncate s1" using r3(3) by (simp add: s2_def mem.truncate_def)
    note m3 = truncate_same [OF tr3]
    have f3: "st_at s3 = Some b" "st_room s3 = st_room s * 2" "c_count s3 = c_count s" "line_mem s3 = line_mem s"
      "cache.more s3 = cache.more s" "c_busy s3 = c_busy s" "c_off s3 = c_off s" "share_fields s3 = share_fields s"
      using r3 f by (simp_all add: s2_def share_fields_def)
    have tab3: "line_table s3 (line_place s3)"
    proof (rule table_cong [OF rh(2)])
      fix i assume "i < unat (st_room s3)"
      then have "i < 2 * room" using f3(2) r2 by simp
      then show "line_place s3 i = (if i < room then line_place s2 i else None)"
        using at [of i] r3(1,2) by (simp add: line_place_def Let_def line0_def)
    qed simp_all
    have ln3: "line_lens s3" using relined_lens [OF rh(1)] ln2 by simp
    have ok3: "cache_ok s3"
      using m(2) ln3 tab3 f3(3) held3 data3 unfolding cache_ok_def by (simp add: line_block_def)
    define t_ok where "t_ok = (mem_inv t \<and> rest t = rest s3 \<and> free_set t \<subseteq> free_set s1 \<union> st_block s \<and>
      (\<forall>p. unat p \<notin> free_set s1 \<union> st_block s \<longrightarrow> words t p = words s1 p))"
    have tok: t_ok
    proof (cases "st_at s")
      case None
      then show ?thesis using g(1) m3 f(4) unfolding t_ok_def t_def by (simp add: memory_ok_def)
    next
      case (Some was)
      define at where "at = was - HEADER"
      have st: "run_ok \<lparr>r_at = at, r_count = st_count (st_room s)\<rparr>" "words s3 at = st_count (st_room s)" "st_block s = block at (st_count (st_room s))"
        using m(3) Some st1 [OF Some] m3(4) by (simp_all add: st_ok_def st_block_def at_def)
      have o3: "mem_inv s3" "ours s3" using m3 g(1) by (simp_all add: memory_ok_def)
      have dj: "block at (st_count (st_room s)) \<inter> free_set s3 = {}" using m(3) g(2) m3(2) st(3) by (auto simp: st_ok_def)
      have tt: "t = mem_pages_free fw at (st_count (st_room s)) s3"
        using Some f(4) st(2) by (simp add: t_def mem_free_def Let_def at_def)
      have "added \<lparr>r_at = at, r_count = st_count (st_room s)\<rparr> s3 t" "rest t = rest s3"
        using mem_pages_free_added [OF o3 st(1) dj] tt by simp_all
      moreover have "words t p = words s3 p" if "unat p \<notin> free_set s3 \<union> block at (st_count (st_room s))" for p
        using mem_pages_free_words [OF o3 st(1) that] tt by simp
      ultimately show ?thesis unfolding t_ok_def using st(3) m3 by (auto simp: added_def)
    qed
    then have mt: "mem_inv t" "rest t = rest s3" "free_set t \<subseteq> free_set s1 \<union> st_block s"
      "\<forall>p. unat p \<notin> free_set s1 \<union> st_block s \<longrightarrow> words t p = words s1 p" by (simp_all add: t_ok_def)
    note ft = cache_fields_more [OF rest_more [OF mt(2)]] and ot = cache_ok_more [OF rest_more [OF mt(2)]]
    have lt1: "lent t = lent s" "lent s1 = lent s" using ot(6) lent3 o(6) by simp_all
    have stb: "st_block t = block (b - HEADER) (st_count (st_room s * 2))"
      by (simp add: st_block_def ft f3)
    have sdis: "st_block s \<inter> (free_set s \<union> lent s) = {}" using m(3) by (simp add: st_ok_def)
    have "ours t" using mt(2) m3(3) g(1) by (simp add: rest_def memory_ok_def)
    moreover have "lent t \<inter> free_set t = {}" using mt(3) lt1 sdis g(1) by (auto simp: memory_ok_def)
    ultimately have "memory_ok t" using mt(1) ok3 ot(7) by (simp add: memory_ok_def)
    moreover have "st_ok t"
    proof -
      have "unat (b - HEADER) \<in> block (b - HEADER) (st_count (st_room s * 2))" using nw run_ok_start by fastforce
      then have "unat (b - HEADER) \<notin> free_set s1 \<union> st_block s" using nw sdis by blast
      then have "words t (b - HEADER) = st_count (st_room s * 2)" using nw mt(4) by simp
      moreover have "st_block t \<inter> (free_set t \<union> lent t) = {}" unfolding stb lt1 using nw mt(3) lt1 sdis by blast
      ultimately show ?thesis using nw ft(1,4) f3(1,2) by (simp add: st_ok_def)
    qed
    moreover have "free_set t \<union> lent t \<union> st_block t \<subseteq> free_set s \<union> lent s \<union> st_block s"
      unfolding stb lt1 using nw mt(3) g(2) lt1 by blast
    then have "bounded t" using m(4) unfolding bounded_def by (rule subset_trans)
    moreover have hkt: "hooked t = hooked s" using ot hk3 by (simp add: hooked_def)
    moreover have dt: "bares t ! i = bares s ! i" if "i \<in> hooked s" for i using that ot(1) data3 by (simp add: hooked_def)
    moreover have "coherent d t" by (rule coherent_sub [OF m(5)]) (simp_all add: ft f3 hkt dt)
    ultimately show ?thesis using gl ft f3 by (auto simp: settled_def cache_inv_def)
  qed
qed

subsection \<open>A line to fill\<close>

lemma settled_trans: "settled d s t \<Longrightarrow> settled d t u \<Longrightarrow> settled d s u"
  by (simp add: settled_def)

lemma slot_settled:
  assumes inv: "cache_inv d s" and busy: "c_busy s"
  shows "\<exists>b t. slot fw s = Some (b, t) \<and> settled d s t \<and> hooked t \<subseteq> hooked s \<and>
    (\<forall>j \<in> hooked t. l_first (bares t ! j) = l_first (bares s ! j)) \<and> (\<forall>i. b = Some i \<longrightarrow> i \<in> held_lines t \<and> i \<notin> hooked t)"
proof -
  define same where "same = (\<lambda>s t :: 'a cache_scheme. settled d s t \<and> hooked t \<subseteq> hooked s \<and>
    (\<forall>j \<in> hooked t. l_first (bares t ! j) = l_first (bares s ! j)))"
  have trans: "same s u" if "same s t" "same t u" for s t u
  proof -
    have "settled d s u" using that settled_trans unfolding same_def by blast
    then show ?thesis using that unfolding same_def by (auto dest: subsetD)
  qed
  have refl: "same s s" using inv by (simp add: same_def settled_def)
  have "\<exists>b t. (if may_grow fw s then
        (if c_count s = st_room s then grow_lines fw s else Some s) \<bind> buy_line fw
      else Some (None, s)) = Some (b, t) \<and> same s t \<and> (\<forall>i. b = Some i \<longrightarrow> i \<in> held_lines t \<and> i \<notin> hooked t)"
  proof (cases "may_grow fw s")
    case False
    then show ?thesis using refl by auto
  next
    case True
    obtain s1 where s1: "(if c_count s = st_room s then grow_lines fw s else Some s) = Some s1" "same s s1"
      using grow_lines_settled [OF inv _ busy, of fw] refl by (cases "c_count s = st_room s") (auto simp: same_def)
    have "cache_inv d s1" using s1(2) by (simp add: same_def settled_def)
    from buy_line_settled [OF this, of fw] obtain b t where t: "buy_line fw s1 = Some (b, t)" "same s1 t"
      "\<forall>i. b = Some i \<longrightarrow> i \<in> held_lines t \<and> i \<notin> hooked t" by (auto simp: same_def)
    then show ?thesis using True s1 trans [OF s1(2) t(2)] by auto
  qed
  then obtain b s1 where b: "(if may_grow fw s then
        (if c_count s = st_room s then grow_lines fw s else Some s) \<bind> buy_line fw
      else Some (None, s)) = Some (b, s1)" "same s s1" "\<forall>i. b = Some i \<longrightarrow> i \<in> held_lines s1 \<and> i \<notin> hooked s1" by blast
  have i1: "cache_inv d s1" using b(2) by (simp add: same_def settled_def)
  have ln: "line_lens s1" using i1 by (simp add: cache_inv_def memory_ok_def cache_ok_def)
  show ?thesis
  proof (cases b)
    case (Some i)
    then show ?thesis using b unfolding slot_def same_def by auto
  next
    case None
    show ?thesis
    proof (cases "oldest s1")
      case o: None
      then show ?thesis using b None unfolding slot_def same_def by auto
    next
      case (Some i)
      have "i \<in> held_lines s1" using oldest_spec(2) [OF ln Some] by simp
      from evict_settled [OF i1 this] obtain t where
        t: "(if l_first (st_lines s1 ! i) \<noteq> NONE then unhook i s1 else Some s1) = Some t" "same s1 t" "i \<in> held_lines t" "i \<notin> hooked t"
        by (auto simp: same_def)
      have "slot fw s = Some (Some i, t)" unfolding slot_def using b(1) None Some t(1) by simp
      then show ?thesis using trans [OF b(2) t(2)] t(3,4) by (auto simp: same_def)
    qed
  qed
qed

section \<open>Filling a line\<close>

text \<open>
  What the cache relies on of the disk it reads through, \<open>holds d e\<close> being that the state \<open>e\<close> below the
  cache is one of a working disk that holds \<open>d\<close>: a read changes nothing but the disk's own state, and
  what it says it read is what is there.
\<close>

locale disk_reader =
  fixes disk :: "'a cache_scheme disk_fun" and holds :: "(nat \<Rightarrow> sector) \<Rightarrow> 'a \<Rightarrow> bool"
  assumes disk_reads: "holds d (cache.more s) \<Longrightarrow> unat lba + unat n \<le> 2 ^ 32 \<Longrightarrow>
      \<exists>ok xs e. disk lba n s = Some (ok, xs, cache.more_update (\<lambda>_. e) s) \<and> holds d e \<and> length xs \<le> unat n \<and>
        (ok \<longrightarrow> xs = map (\<lambda>k. d (unat lba + k)) [0..<unat n])"

lemma sector_at_inj:
  assumes "run_ok \<lparr>r_at = a, r_count = LINE_PAGES\<rparr>" "run_ok \<lparr>r_at = b, r_count = LINE_PAGES\<rparr>"
    "block a LINE_PAGES \<inter> block b LINE_PAGES = {} \<or> a = b" "j < 128" "k < 128"
  shows "sector_at a j = sector_at b k \<longleftrightarrow> a = b \<and> j = k"
proof -
  have u: "unat (sector_at c i) = unat c + 512 * i" if c: "run_ok \<lparr>r_at = c, r_count = LINE_PAGES\<rparr>" and i: "i < 128" for c i
  proof -
    have "unat c + 65536 < 2 ^ 64" using c by (simp add: run_ok_def run_stop_def LINE_PAGES_def)
    moreover have "unat (of_nat (i * 512) :: u64) = i * 512" using i by (simp add: unsigned_of_nat take_bit_nat_eq_self del: of_nat_mult)
    ultimately show ?thesis using i unfolding sector_at_def by (subst unat_add_small) simp_all
  qed
  have "run_stop \<lparr>r_at = a, r_count = LINE_PAGES\<rparr> = unat a + 65536" "run_stop \<lparr>r_at = b, r_count = LINE_PAGES\<rparr> = unat b + 65536"
    by (simp_all add: run_stop_def LINE_PAGES_def)
  then have "a = b \<or> unat a + 65536 \<le> unat b \<or> unat b + 65536 \<le> unat a"
    using assms(3) run_pages_disjoint_iff [OF assms(1,2)] by auto
  then show ?thesis
    using u [OF assms(1,4)] u [OF assms(2,5)] assms(4,5) by (auto simp: word_unat_eq_iff)
qed

lemma fill_line_other: "\<forall>j < length xs. sector_at data (k + j) \<noteq> a \<Longrightarrow> fill_line data k xs m a = m a"
proof (induction xs arbitrary: k m)
  case (Cons x xs)
  have "sector_at data k \<noteq> a" using Cons.prems by auto
  moreover have "\<forall>j < length xs. sector_at data (Suc k + j) \<noteq> a" using Cons.prems by (metis add_Suc_shift length_Cons not_less_eq)
  ultimately show ?case using Cons.IH by simp
qed simp

lemma fill_line_at:
  assumes "run_ok \<lparr>r_at = data, r_count = LINE_PAGES\<rparr>" "k + length xs \<le> 128" "j < length xs"
  shows "fill_line data k xs m (sector_at data (k + j)) = xs ! j"
  using assms(2,3)
proof (induction xs arbitrary: k m j)
  case (Cons x xs)
  show ?case
  proof (cases j)
    case 0
    have "\<forall>i < length xs. sector_at data (Suc k + i) \<noteq> sector_at data k"
      using sector_at_inj [OF assms(1,1)] Cons.prems(1) by auto
    then show ?thesis using 0 fill_line_other [of xs data "Suc k" "sector_at data k"] by simp
  next
    case (Suc i)
    then show ?thesis using Cons.IH [of "Suc k" i] Cons.prems by simp
  qed
qed simp

lemma same_lines:
  fixes s t :: "'a cache_scheme"
  assumes f: "st_room t = st_room s" "st_lines t = st_lines s" "st_chains t = st_chains s" "st_at t = st_at s" "c_count t = c_count s"
    and tr: "mem.truncate t = mem.truncate s"
  shows "bares t = bares s" "held_lines t = held_lines s" "hooked t = hooked s" "memory_ok t = memory_ok s" "st_ok t = st_ok s"
    "bounded t = bounded s" "cache_ok t = cache_ok s" "line_mem t = line_mem s \<Longrightarrow> cache_inv d t = cache_inv d s"
proof -
  note m = truncate_same [OF tr]
  show b: "bares t = bares s" by (simp add: bares_def f)
  have g: "line_get t = line_get s" by (rule ext, rename_tac k, case_tac k) (simp_all add: line_get.simps f)
  have p: "line_place t = line_place s" by (rule ext) (simp add: line_place_def b f Let_def)
  show h: "held_lines t = held_lines s" by (simp add: held_lines_def b)
  have k: "line_block t = line_block s" by (rule ext) (simp add: line_block_def b)
  show hk: "hooked t = hooked s" by (simp add: hooked_def h b)
  have l: "lent t = lent s" by (simp add: lent_def h k)
  show c: "cache_ok t = cache_ok s" by (simp add: cache_ok_def line_lens_def b f g p h k)
  show mo: "memory_ok t = memory_ok s" by (simp add: memory_ok_def c l m)
  have sb: "st_block t = st_block s" by (simp add: st_block_def f split: option.split)
  show so: "st_ok t = st_ok s" by (simp add: st_ok_def sb m l f)
  show bd: "bounded t = bounded s" by (simp add: bounded_def sb m l)
  show "cache_inv d t = cache_inv d s" if "line_mem t = line_mem s"
    using that by (simp add: cache_inv_def mo so bd coherent_def hk b)
qed

text \<open>Writing into the sectors of one line leaves what every other line holds alone.\<close>

lemma fill_other_line:
  assumes ok: "cache_ok s" and i: "i \<in> held_lines s" "j \<in> held_lines s" "i \<noteq> j" and n: "k0 + length xs \<le> 128" "k < 128"
  shows "fill_line (l_data (bares s ! i)) k0 xs m (sector_at (l_data (bares s ! j)) k) = m (sector_at (l_data (bares s ! j)) k)"
proof (rule fill_line_other, intro allI impI)
  fix q assume q: "q < length xs"
  have ne: "l_data (bares s ! i) \<noteq> l_data (bares s ! j)"
  proof
    assume eq: "l_data (bares s ! i) = l_data (bares s ! j)"
    have "line_block s i \<inter> line_block s j = {}" using ok i by (simp add: cache_ok_def)
    moreover have "unat (l_data (bares s ! i)) \<in> line_block s i"
      using run_ok_start [OF held_linesD(3) [OF ok i(1)]] by (simp add: line_block_def)
    ultimately show False using eq by (auto simp: line_block_def)
  qed
  have "block (l_data (bares s ! i)) LINE_PAGES \<inter> block (l_data (bares s ! j)) LINE_PAGES = {}"
    using ok i by (simp add: cache_ok_def line_block_def)
  then show "sector_at (l_data (bares s ! i)) (k0 + q) \<noteq> sector_at (l_data (bares s ! j)) k"
    using sector_at_inj [OF held_linesD(3) [OF ok i(1)] held_linesD(3) [OF ok i(2)], of "k0 + q" k] ne n q by simp
qed

text \<open>A line used again: only its time changes.\<close>

lemma use_line_inv:
  assumes inv: "cache_inv d s" and i: "i \<in> held_lines s"
  shows "cache_inv d (use_line i s)" "line_mem (use_line i s) = line_mem s" "cache.more (use_line i s) = cache.more s"
    "c_busy (use_line i s) = c_busy s" "c_off (use_line i s) = c_off s" "share_fields (use_line i s) = share_fields s"
    "l_data (st_lines (use_line i s) ! i) = l_data (bares s ! i)"
proof -
  have m: "memory_ok s" "cache_ok s" "st_ok s" "bounded s" "coherent d s" using inv by (auto simp: cache_inv_def memory_ok_def)
  note hd = held_linesD [OF m(2) i]
  define u where "u = s\<lparr>c_clock := c_clock s + 1\<rparr>"
  define t where "t = use_line i s"
  have t: "t = set_line i ((st_lines s ! i)\<lparr>l_used := c_clock s + 1\<rparr>) u"
    by (simp add: t_def use_line_def Let_def u_def)
  define X where "X = (bares s ! i)\<lparr>l_used := c_clock s + 1\<rparr>"
  have ln: "line_lens s" using m(2) by (simp add: cache_ok_def)
  have X: "bare ((st_lines s ! i)\<lparr>l_used := c_clock s + 1\<rparr>) = X" using line_index(1) [OF ln hd(1)] by (simp add: X_def)
  have bu: "bares u = bares s" "st_lines u = st_lines s" by (simp_all add: bares_def u_def)
  have rl: "relined ((bares s)[i := X]) u t" unfolding t using relined_set [of u i] X bu by metis
  note r = relinedD [OF rl]
  show fm: "line_mem (use_line i s) = line_mem s" "cache.more (use_line i s) = cache.more s" "c_busy (use_line i s) = c_busy s"
    "c_off (use_line i s) = c_off s" "share_fields (use_line i s) = share_fields s"
    using r(8-12) by (simp_all add: t_def [symmetric]) (simp_all add: u_def share_fields_def)
  have data: "l_data (bares t ! j) = l_data (bares s ! j)" "l_first (bares t ! j) = l_first (bares s ! j)" for j
    using hd(2) by (cases "j = i"; simp add: r(1) X_def)+
  have ht: "held_lines t = held_lines s" using r(1) data by (auto simp: held_lines_def)
  have hk: "hooked t = hooked s" using ht data by (auto simp: hooked_def)
  have lb: "line_block t = line_block s" by (rule ext) (simp add: line_block_def data)
  have lt: "lent t = lent s" by (simp add: lent_def ht lb)
  have room: "st_room t = st_room s" "st_at t = st_at s" "c_count t = c_count s" using r(2,4,5) by (simp_all add: u_def)
  have pl: "line_place t = line_place s" by (rule ext) (simp add: line_place_def Let_def data room)
  have gt: "line_get t = line_get s"
    by (rule ext, rename_tac k, case_tac k) (simp_all add: t set_line_def u_def line_get.simps nth_upd_same [of l_next])
  have lens: "line_lens t" using relined_lens [OF rl] ln by (simp add: line_lens_def u_def)
  have mt: "mem.truncate t = mem.truncate s" using r(3) by (simp add: u_def mem.truncate_def)
  note tr = truncate_same [OF mt]
  have "cache_ok t" using m(2) lens by (simp add: cache_ok_def gt pl ht lb data room)
  then have "memory_ok t" using m(1) by (simp add: memory_ok_def lt tr)
  moreover have "st_block t = st_block s" by (simp add: st_block_def room split: option.split)
  then have "st_ok t" "bounded t" using m(3,4) by (simp_all add: st_ok_def bounded_def lt tr room)
  moreover have "coherent d t" using m(5) fm(1) by (simp add: coherent_def hk data t_def [symmetric])
  ultimately show "cache_inv d (use_line i s)" by (simp add: cache_inv_def t_def)
  have "bare (st_lines t ! i) = bares t ! i" using line_index(1) [OF lens] hd(1) room(1) by simp
  then show "l_data (st_lines (use_line i s) ! i) = l_data (bares s ! i)" using data(1) [of i] by (metis bare_simps(3) t_def)
qed

text \<open>Every read of sectors from \<open>lba\<close> on, \<open>n\<close> at most, succeeds.\<close>

definition answers :: "'a cache_scheme disk_fun \<Rightarrow> ((nat \<Rightarrow> sector) \<Rightarrow> 'a \<Rightarrow> bool) \<Rightarrow> (nat \<Rightarrow> sector) \<Rightarrow> u32 \<Rightarrow> u32 \<Rightarrow> bool" where
  "answers disk holds d lba n \<longleftrightarrow> (\<forall>a m s. holds d (cache.more s) \<longrightarrow> m \<noteq> 0 \<longrightarrow> unat lba \<le> unat a \<longrightarrow>
     unat a + unat m \<le> unat lba + unat n \<longrightarrow> (\<exists>xs t. disk a m s = Some (True, xs, t)))"

context disk_reader
begin

lemma fetch_line_returns:
  assumes "holds d (cache.more s)" "unat first mod 128 = 0"
  shows "\<exists>ok t. fetch_line disk i first s = Some (ok, t)"
proof -
  have "unat first + 128 \<le> 2 ^ 32" using multiple_fits [OF assms(2), of "2 ^ 32"] unat_bound [of first] by simp
  then show ?thesis using disk_reads [OF assms(1), of first LINE_SECTORS] by (auto simp: fetch_line_def LINE_SECTORS_def Let_def)
qed

lemma fetch_line_inv:
  assumes inv: "cache_inv d s" and d: "holds d (cache.more s)" and i: "i \<in> held_lines s" "i \<notin> hooked s"
    and first: "unat first mod 128 = 0" "\<forall>j \<in> hooked s. l_first (bares s ! j) \<noteq> first"
    and f: "fetch_line disk i first s = Some (ok, t)"
  shows "cache_inv d t" "holds d (cache.more t)" "c_busy t = c_busy s" "c_off t = c_off s" "share_fields t = share_fields s"
    "ok \<Longrightarrow> i \<in> hooked t \<and> l_first (bares t ! i) = first"
proof -
  have lt32: "unat first + 128 \<le> 2 ^ 32" using multiple_fits [OF first(1), of "2 ^ 32"] unat_bound [of first] by simp
  obtain ok' xs s1 e where dk: "disk first LINE_SECTORS s = Some (ok', xs, s1)" and e: "s1 = cache.more_update (\<lambda>_. e) s" "holds d e"
    and len: "length xs \<le> 128" and xs: "ok' \<longrightarrow> xs = map (\<lambda>k. d (unat first + k)) [0..<128]"
    using disk_reads [OF d, of first LINE_SECTORS] lt32 by (auto simp: LINE_SECTORS_def)
  have s1: "st_room s1 = st_room s" "st_lines s1 = st_lines s" "st_chains s1 = st_chains s" "st_at s1 = st_at s" "c_count s1 = c_count s"
    "mem.truncate s1 = mem.truncate s" "line_mem s1 = line_mem s" "cache.more s1 = e" "c_busy s1 = c_busy s" "c_off s1 = c_off s"
    "share_fields s1 = share_fields s"
    by (simp_all add: e mem.truncate_def share_fields_def)
  have m: "memory_ok s" "cache_ok s" "st_ok s" "bounded s" "coherent d s" using inv by (auto simp: cache_inv_def memory_ok_def)
  note hd = held_linesD [OF m(2) i(1)]
  have ln: "line_lens s" using m(2) by (simp add: cache_ok_def)
  define data where "data = l_data (bares s ! i)"
  have dat: "l_data (st_lines s1 ! i) = data" using line_index(1) [OF ln hd(1)] s1(2) by (simp add: data_def)
  define s2 where "s2 = s1\<lparr>line_mem := fill_line data 0 xs (line_mem s1)\<rparr>"
  have s2: "st_room s2 = st_room s" "st_lines s2 = st_lines s" "st_chains s2 = st_chains s" "st_at s2 = st_at s" "c_count s2 = c_count s"
    "mem.truncate s2 = mem.truncate s" using s1 by (simp_all add: s2_def mem.truncate_def)
  note same = same_lines [OF s2]
  have s2f: "cache.more s2 = e" "c_busy s2 = c_busy s" "c_off s2 = c_off s" "share_fields s2 = share_fields s"
    "line_mem s2 = fill_line data 0 xs (line_mem s)" using s1 by (simp_all add: s2_def share_fields_def)
  have other: "line_mem s2 (sector_at (l_data (bares s ! j)) k) = line_mem s (sector_at (l_data (bares s ! j)) k)"
    if "j \<in> hooked s" "k < 128" for j k
    using fill_other_line [OF m(2) i(1), of j 0 xs k "line_mem s"] that i(2) len by (auto simp: s2f(5) data_def hooked_def)
  have coh2: "coherent d s2"
    using m(5) other by (simp add: coherent_def same)
  have inv2: "cache_inv d s2" using m coh2 same by (simp add: cache_inv_def)
  have ft: "fetch_line disk i first s = Some (if ok' then (True, hook i (set_line i ((st_lines s2 ! i)\<lparr>l_first := first\<rparr>) s2)) else (False, s2))"
    using dk dat by (simp add: fetch_line_def Let_def s2_def)
  have "cache_inv d t \<and> holds d (cache.more t) \<and> c_busy t = c_busy s \<and> c_off t = c_off s \<and> share_fields t = share_fields s \<and>
    (ok \<longrightarrow> i \<in> hooked t \<and> l_first (bares t ! i) = first)"
  proof (cases ok')
    case False
    then show ?thesis using f ft inv2 s2f e(2) by auto
  next
    case True
    define X where "X = (bares s ! i)\<lparr>l_first := first\<rparr>"
    define s3 where "s3 = set_line i ((st_lines s2 ! i)\<lparr>l_first := first\<rparr>) s2"
    have t: "t = hook i s3" and ok: ok using f ft True by (simp_all add: s3_def)
    have X: "bare ((st_lines s2 ! i)\<lparr>l_first := first\<rparr>) = X" using line_index(1) [OF ln hd(1)] s2(2) by (simp add: X_def)
    have r3: "relined ((bares s)[i := X]) s2 s3" using relined_set [of s2 i] X same(1) unfolding s3_def by metis
    note d3 = relinedD [OF r3]
    have "line_lens s2" using ln s2 by (simp add: line_lens_def)
    then have ln3: "line_lens s3" using relined_lens [OF r3] s2(2) by simp
    have ir: "i < unat (st_room s3)" using hd(1) d3(2) s2(1) by simp
    have g3: "line_get s3 = line_get s"
      using line_get_set_line [of "(st_lines s2 ! i)\<lparr>l_first := first\<rparr>" s2 i] s2(2,3)
      by (auto simp: s3_def line_get.simps fun_eq_iff) (metis line_get.elims line_get.simps s2(2,3))
    have none: "line_place s i = None" using i hooked_place [OF m(2)] hd(1) by auto
    have tab3: "line_table s3 (line_place s)" using m(2) g3 d3(2) s2(1) by (simp add: cache_ok_def)
    note hk = hook_table [OF ln3 ir tab3 none]
    have rt: "relined ((bares s)[i := X]) s2 t" using relined_trans [OF r3 hk(1)] d3(1) t by simp
    note dt = relinedD [OF rt]
    have bi: "bares t ! i = X" using hd(2) by (simp add: dt(1))
    have fN: "first \<noteq> NONE" using first(1) by (auto simp: NONE_def)
    have room: "st_room t = st_room s" "st_at t = st_at s" "c_count t = c_count s" using dt(2,4,5) s2 by simp_all
    have pl: "line_place t = (line_place s)(i := Some (bucket (st_room s) first))"
      using line_place_upd [OF dt(1) hd(2) room(1)] i(1) fN by (simp add: X_def held_lines_def)
    have tabt: "line_table t (line_place t)"
      using hk(2) d3(1,2) hd(2) s2(1) room(1) unfolding t [symmetric] pl by (simp add: X_def)
    have data_t: "l_data (bares t ! j) = l_data (bares s ! j)" for j
      using hd(2) by (cases "j = i") (simp_all add: dt(1) X_def)
    have ht: "held_lines t = held_lines s" using data_t by (auto simp: held_lines_def dt(1))
    have lb: "line_block t = line_block s" by (rule ext) (simp add: line_block_def data_t)
    have lt: "lent t = lent s" by (simp add: lent_def ht lb)
    have other_t: "bares t ! j = bares s ! j" if "j \<noteq> i" for j using that by (simp add: dt(1))
    have hkt: "hooked t = insert i (hooked s)"
      using i fN ht bi other_t by (auto simp: hooked_def X_def) (metis)
    have tr: "mem.truncate t = mem.truncate s" using dt(3) s2(6) by simp
    note mt = truncate_same [OF tr]
    have "line_lens t" using relined_lens [OF rt] \<open>line_lens s2\<close> s2(2) by simp
    then have "cache_ok t" using m(2) tabt by (simp add: cache_ok_def ht lb data_t room)
    then have "memory_ok t" using m(1) by (simp add: memory_ok_def lt mt)
    moreover have "st_block t = st_block s" by (simp add: st_block_def room split: option.split)
    then have "st_ok t" "bounded t" using m(3,4) by (simp_all add: st_ok_def bounded_def lt mt room)
    moreover have "coherent d t"
    proof -
      have xs: "xs = map (\<lambda>k. d (unat first + k)) [0..<128]" using xs True by simp
      have mine: "line_mem t (sector_at data k) = d (unat first + k)" if "k < 128" for k
        using fill_line_at [of data 0 xs k "line_mem s"] held_linesD(3) [OF m(2) i(1)] that xs dt(10) s2f(5)
        by (simp add: data_def)
      have oth: "line_mem t (sector_at (l_data (bares s ! j)) k) = d (unat (l_first (bares s ! j)) + k)" if "j \<in> hooked s" "k < 128" for j k
        using other [OF that] m(5) that dt(10) by (simp add: coherent_def)
      have hj: "bares t ! j = bares s ! j" if "j \<in> hooked s" for j using that i(2) other_t by metis
      show ?thesis
        unfolding coherent_def hkt
        using mine oth hj bi first m(5) by (auto simp: X_def data_def coherent_def)
    qed
    ultimately have "cache_inv d t" by (simp add: cache_inv_def)
    then show ?thesis using dt s2f e(2) hkt bi by (simp add: X_def)
  qed
  then show "cache_inv d t" "holds d (cache.more t)" "c_busy t = c_busy s" "c_off t = c_off s" "share_fields t = share_fields s"
    "ok \<Longrightarrow> i \<in> hooked t \<and> l_first (bares t ! i) = first" by auto
qed

section \<open>Reading\<close>

lemma line_for_inv:
  assumes inv: "cache_inv d s" and d: "holds d (cache.more s)" and busy: "c_busy s" and first: "unat first mod 128 = 0"
  shows "\<exists>l t. line_for fw disk first s = Some (l, t) \<and> cache_inv d t \<and> holds d (cache.more t) \<and> c_busy t \<and> c_off t = c_off s \<and>
    share_fields t = share_fields s \<and> (\<forall>i. l = Some i \<longrightarrow> i \<in> hooked t \<and> l_first (bares t ! i) = first)"
proof -
  have ok: "cache_ok s" using inv by (simp add: cache_inv_def memory_ok_def)
  have fN: "first \<noteq> NONE" using first by (auto simp: NONE_def)
  show ?thesis using ok fN
  proof (cases rule: find_line_cases)
    case (found i)
    then show ?thesis using inv d busy by (simp add: line_for_def)
  next
    case absent
    obtain b s1 where b: "slot fw s = Some (b, s1)" "settled d s s1" "hooked s1 \<subseteq> hooked s"
      "\<forall>j \<in> hooked s1. l_first (bares s1 ! j) = l_first (bares s ! j)" "\<forall>i. b = Some i \<longrightarrow> i \<in> held_lines s1 \<and> i \<notin> hooked s1"
      using slot_settled [OF inv busy, of fw] by blast
    have s1: "cache_inv d s1" "holds d (cache.more s1)" "c_busy s1" "c_off s1 = c_off s" "share_fields s1 = share_fields s"
      using b(2) d busy by (simp_all add: settled_def)
    show ?thesis
    proof (cases b)
      case None
      then show ?thesis using b(1) absent(1) s1 by (simp add: line_for_def)
    next
      case (Some i)
      obtain ok t where ft: "fetch_line disk i first s1 = Some (ok, t)"
        using fetch_line_returns [OF s1(2) first, of i] by auto
      have no: "\<forall>j \<in> hooked s1. l_first (bares s1 ! j) \<noteq> first" using b(3,4) absent(2) by auto
      have i: "i \<in> held_lines s1" "i \<notin> hooked s1" using b(5) Some by auto
      note f = fetch_line_inv [OF s1(1,2) i first no ft]
      have "line_for fw disk first s = Some (if ok then Some i else None, t)"
        using b(1) absent(1) Some ft by (simp add: line_for_def)
      then show ?thesis using f s1 by auto
    qed
  qed
qed

lemma read_lines_spec:
  "cache_inv d s \<Longrightarrow> holds d (cache.more s) \<Longrightarrow> c_busy s \<Longrightarrow> unat lba + unat n \<le> 2 ^ 32 \<Longrightarrow>
   \<exists>ok xs t. read_lines fw disk lba n got s = Some (ok, xs, t) \<and> cache_inv d t \<and> holds d (cache.more t) \<and> c_busy t \<and>
     c_off t = c_off s \<and> share_fields t = share_fields s \<and>
     (ok \<longrightarrow> xs = got @ map (\<lambda>k. d (unat lba + k)) [0..<unat n]) \<and> (answers disk holds d lba n \<longrightarrow> ok)"
proof (induction "unat n" arbitrary: lba n got s rule: less_induct)
  case less
  show ?case
  proof (cases "n = 0")
    case True
    then show ?thesis using less.prems by (subst read_lines.simps) (simp, blast)
  next
    case False
    define first where "first = lba - lba mod LINE_SECTORS"
    define within where "within = lba - first"
    define chunk where "chunk = (if LINE_SECTORS - within < n then LINE_SECTORS - within else n)"
    have w: "within = lba mod LINE_SECTORS" by (simp add: within_def first_def)
    have uw: "unat within = unat lba mod 128" by (simp add: w unat_mod LINE_SECTORS_def)
    have uf: "unat first = unat lba - unat lba mod 128"
      unfolding first_def by (subst unat_sub_le) (simp_all add: unat_mod LINE_SECTORS_def)
    have fm: "unat first mod 128 = 0" unfolding uf by (simp add: minus_mod_eq_mult_div)
    have ul: "unat (LINE_SECTORS - within) = 128 - unat within"
      using uw by (subst unat_sub_le) (simp_all add: LINE_SECTORS_def)
    have uc: "unat chunk = min (128 - unat within) (unat n)"
      using ul by (auto simp: chunk_def word_nat)
    have wl: "unat within < 128" by (simp add: uw)
    have cpos: "0 < unat chunk" using uc wl False by (simp add: unat_gt_0)
    have un: "unat (n - chunk) = unat n - unat chunk" using uc by (intro unat_sub_le) simp
    obtain l s1 where lf: "line_for fw disk first s = Some (l, s1)" "cache_inv d s1" "holds d (cache.more s1)" "c_busy s1"
      "c_off s1 = c_off s" "share_fields s1 = share_fields s" "\<forall>i. l = Some i \<longrightarrow> i \<in> hooked s1 \<and> l_first (bares s1 ! i) = first"
      using line_for_inv [OF less.prems(1-3) fm, of fw] by blast
    have rl: "read_lines fw disk lba n got s = (case l of
        None \<Rightarrow> disk lba n s1 \<bind> (\<lambda>(ok, xs, t). Some (ok, got @ xs, t))
      | Some i \<Rightarrow> read_lines fw disk (lba + chunk) (n - chunk)
          (got @ line_sectors i (unat within) (unat chunk) (use_line i s1)) (use_line i s1))"
      using False lf(1) unfolding chunk_def within_def first_def by (subst read_lines.simps) (simp add: Let_def split: option.split)
    show ?thesis
    proof (cases l)
      case None
      obtain ok xs t e where dk: "disk lba n s1 = Some (ok, xs, t)" and e: "t = cache.more_update (\<lambda>_. e) s1" "holds d e"
        and xs: "ok \<longrightarrow> xs = map (\<lambda>k. d (unat lba + k)) [0..<unat n]"
        using disk_reads [OF lf(3) less.prems(4)] by blast
      have "cache_inv d t = cache_inv d s1"
        by (rule same_lines(8)) (simp_all add: e(1) mem.truncate_def)
      moreover have "answers disk holds d lba n \<longrightarrow> ok" using dk lf(3) False unfolding answers_def by fastforce
      ultimately show ?thesis using xs rl None dk e lf by (simp add: share_fields_def)
    next
      case (Some i)
      have hk: "i \<in> hooked s1" "l_first (bares s1 ! i) = first" using lf(7) Some by auto
      have hl: "i \<in> held_lines s1" using hk(1) by (simp add: hooked_def)
      note us = use_line_inv [OF lf(2) hl]
      have sec: "line_sectors i (unat within) (unat chunk) (use_line i s1) = map (\<lambda>k. d (unat lba + k)) [0..<unat chunk]"
      proof -
        have "line_mem s1 (sector_at (l_data (bares s1 ! i)) (unat within + k)) = d (unat lba + k)" if "k < unat chunk" for k
        proof -
          have "unat within + k < 128" using that uc by linarith
          then have "line_mem s1 (sector_at (l_data (bares s1 ! i)) (unat within + k)) = d (unat first + (unat within + k))"
            using lf(2) hk by (auto simp: cache_inv_def coherent_def)
          moreover have "unat first + (unat within + k) = unat lba + k" using uf uw by simp
          ultimately show ?thesis by simp
        qed
        then show ?thesis by (simp add: line_sectors_def us(2,7))
      qed
      define got' where "got' = got @ map (\<lambda>k. d (unat lba + k)) [0..<unat chunk]"
      have lt: "unat (n - chunk) < unat n" using un cpos uc by simp
      have ub: "unat (lba + chunk) + unat (n - chunk) \<le> 2 ^ 32 \<and> (n - chunk \<noteq> 0 \<longrightarrow> unat (lba + chunk) = unat lba + unat chunk)"
      proof (cases "n - chunk = 0")
        case True
        then show ?thesis using unat_bound [of "lba + chunk"] by simp
      next
        case False
        then have "unat (n - chunk) \<noteq> 0" by (simp only: unat_eq_zero simp_thms)
        then have "unat chunk < unat n" using un by linarith
        then have "unat (lba + chunk) = unat lba + unat chunk" using less.prems(4) by (intro unat_add_small) simp
        then show ?thesis using un less.prems(4) uc by simp
      qed
      have cm: "holds d (cache.more (use_line i s1))" "c_busy (use_line i s1)" using us(3,4) lf(3,4) by simp_all
      from less.hyps [OF lt us(1) cm conjunct1 [OF ub], of got'] obtain ok xs t where
        t: "read_lines fw disk (lba + chunk) (n - chunk) got' (use_line i s1) = Some (ok, xs, t)" "cache_inv d t"
          "holds d (cache.more t)" "c_busy t" "c_off t = c_off (use_line i s1)" "share_fields t = share_fields (use_line i s1)"
          "ok \<longrightarrow> xs = got' @ map (\<lambda>k. d (unat (lba + chunk) + k)) [0..<unat (n - chunk)]" "answers disk holds d (lba + chunk) (n - chunk) \<longrightarrow> ok" by blast
      have an: "answers disk holds d (lba + chunk) (n - chunk)" if "answers disk holds d lba n"
        unfolding answers_def
      proof (intro allI impI)
        fix a m :: u32 and u :: "'a cache_scheme"
        assume h: "holds d (cache.more u)" "m \<noteq> 0" and r: "unat (lba + chunk) \<le> unat a" "unat a + unat m \<le> unat (lba + chunk) + unat (n - chunk)"
        have "0 < unat m" using h(2) by (simp add: unat_gt_0)
        then have "unat (n - chunk) \<noteq> 0" using r by linarith
        then have "n - chunk \<noteq> 0" by (simp only: unat_eq_zero simp_thms)
        then have "unat lba \<le> unat a" "unat a + unat m \<le> unat lba + unat n" using ub r un uc by simp_all
        then show "\<exists>xs t. disk a m u = Some (True, xs, t)" using that h unfolding answers_def by blast
      qed
      have "got' @ map (\<lambda>k. d (unat (lba + chunk) + k)) [0..<unat (n - chunk)] = got @ map (\<lambda>k. d (unat lba + k)) [0..<unat n]"
      proof -
        have "map (\<lambda>k. d (unat (lba + chunk) + k)) [0..<unat (n - chunk)] = map (\<lambda>k. d (unat lba + k)) [unat chunk..<unat n]"
        proof (cases "n - chunk = 0")
          case True
          then show ?thesis using un by simp
        next
          case False
          have "[unat chunk..<unat n] = map (\<lambda>k. unat chunk + k) [0..<unat n - unat chunk]"
            using map_add_upt [of "unat chunk" "unat n - unat chunk"] uc by (simp add: add.commute)
          then show ?thesis using ub False un by (simp add: add.assoc)
        qed
        moreover have "[0..<unat n] = [0..<unat chunk] @ [unat chunk..<unat n]"
          using upt_add_eq_append [of 0 "unat chunk" "unat n - unat chunk"] uc by simp
        ultimately show ?thesis by (simp add: got'_def)
      qed
      then show ?thesis using rl Some t us lf sec an by (auto simp: got'_def)
    qed
  qed
qed

lemma cache_read_spec:
  assumes inv: "cache_inv d s" and d: "holds d (cache.more s)" and n: "unat lba + unat n \<le> 2 ^ 32" "n \<noteq> 0"
  shows "\<exists>ok xs t. cache_read fw disk lba n s = Some (ok, xs, t) \<and> cache_inv d t \<and> holds d (cache.more t) \<and>
    c_off t = c_off s \<and> share_fields t = share_fields s \<and> (\<not> c_off s \<longrightarrow> \<not> c_busy t) \<and>
    (ok \<longrightarrow> xs = map (\<lambda>k. d (unat lba + k)) [0..<unat n]) \<and> (answers disk holds d lba n \<longrightarrow> ok)"
proof (cases "c_off s")
  case True
  obtain ok xs t e where dk: "disk lba n s = Some (ok, xs, t)" and e: "t = cache.more_update (\<lambda>_. e) s" "holds d e"
    and xs: "ok \<longrightarrow> xs = map (\<lambda>k. d (unat lba + k)) [0..<unat n]"
    using disk_reads [OF d n(1)] by blast
  have "cache_inv d t = cache_inv d s" by (rule same_lines(8)) (simp_all add: e(1) mem.truncate_def)
  moreover have "answers disk holds d lba n \<longrightarrow> ok" using dk d n(2) unfolding answers_def by fastforce
  ultimately show ?thesis using True dk e xs n inv by (auto simp: cache_read_def share_fields_def)
next
  case False
  define s0 where "s0 = s\<lparr>c_busy := True\<rparr>"
  have i0: "cache_inv d s0 = cache_inv d s" by (rule same_lines(8)) (simp_all add: s0_def mem.truncate_def)
  obtain ok xs t where t: "read_lines fw disk lba n [] s0 = Some (ok, xs, t)" "cache_inv d t" "holds d (cache.more t)" "c_off t = c_off s0"
    "share_fields t = share_fields s0" "ok \<longrightarrow> xs = map (\<lambda>k. d (unat lba + k)) [0..<unat n]" "answers disk holds d lba n \<longrightarrow> ok"
    using read_lines_spec [of d s0 lba n fw "[]"] i0 inv n d by (auto simp: s0_def)
  have "cache_inv d (t\<lparr>c_busy := False\<rparr>) = cache_inv d t" by (rule same_lines(8)) (simp_all add: mem.truncate_def)
  then show ?thesis
    using t False by (auto simp: cache_read_def s0_def [symmetric] share_fields_def) (simp_all add: s0_def)
qed

end

end
