(* ===== verification/Disk.thy ===== *)
theory Disk
  imports CacheRead
begin

text \<open>
  The disk, \<^verbatim>\<open>src/src/kernel/efi.c\<close> (\<open>ata_read\<close> to \<open>ata_sync\<close>, \<open>gpt_find\<close>) and the transfers of
  \<^verbatim>\<open>src/src/kernel/bios.c\<close>: reads and writes of sectors through the cache, by the driver module, by
  the BIOS or by the firmware, whose largest request is found by halving. The hardware is a parameter,
  \<open>hardware\<close>: a driver module's entry points, interrupt 13h and the firmware's block protocol, each a
  function of the state \<open>dev\<close> of the device; a failed read leaves nothing in the buffer that is modelled.
\<close>

section \<open>State\<close>

record 'f hardware =
  driver_read :: "u64 \<Rightarrow> u32 \<Rightarrow> 'f \<Rightarrow> sector list option \<times> 'f"
  driver_write :: "u64 \<Rightarrow> u32 \<Rightarrow> sector list \<Rightarrow> 'f \<Rightarrow> bool \<times> 'f"
  driver_flush :: "'f \<Rightarrow> 'f"
  int13_read :: "u64 \<Rightarrow> u32 \<Rightarrow> 'f \<Rightarrow> sector list option \<times> 'f"
  int13_write :: "u64 \<Rightarrow> u32 \<Rightarrow> sector list \<Rightarrow> 'f \<Rightarrow> bool \<times> 'f"
  read_blocks :: "u64 \<Rightarrow> u32 \<Rightarrow> 'f \<Rightarrow> sector list option \<times> 'f"
  write_blocks :: "u64 \<Rightarrow> u32 \<Rightarrow> sector list \<Rightarrow> 'f \<Rightarrow> bool \<times> 'f"
  flush_blocks :: "'f \<Rightarrow> 'f"

text \<open>
  \<open>has_cache\<close> is \<open>disk_cache != NULL\<close>, \<open>has_disk\<close> is \<open>boot->disk != NULL\<close>, \<open>bios\<close> the function of that name;
  \<open>fs_base\<close> and \<open>bios_gone\<close> are \<open>fs_base\<close> and \<open>gone\<close> of \<open>bios.c\<close>.
\<close>

record 'f disk = cache +
  has_cache :: bool
  disk_base :: u64
  bios :: bool
  fs_base :: u32
  bios_gone :: bool
  has_disk :: bool
  block_run :: u32
  unflushed :: bool
  dev :: 'f

text \<open>The cache module is there from its \<open>module_init\<close> to its \<open>module_exit\<close>.\<close>

definition disk_cache_register :: "bool \<Rightarrow> ('f, 'a) disk_scheme \<Rightarrow> ('f, 'a) disk_scheme" where
  "disk_cache_register there s = s\<lparr>has_cache := there\<rparr>"

definition cache_module_init :: "('f, 'a) disk_scheme \<Rightarrow> ('f, 'a) disk_scheme" where
  "cache_module_init s = disk_cache_register True (module_init s)"

definition cache_module_exit :: "('f, 'a) disk_scheme firmware \<Rightarrow> ('f, 'a) disk_scheme \<Rightarrow> ('f, 'a) disk_scheme option" where
  "cache_module_exit fw s = module_exit fw (disk_cache_register False s)"

definition RUN :: u32 where "RUN = 64"
definition BLOCK_RUN_MAX :: u32 where "BLOCK_RUN_MAX = 8192"
definition BLOCK_RUN_MIN :: u32 where "BLOCK_RUN_MIN = 8"

section \<open>Operations\<close>

text \<open>The loop of \<open>transfer\<close> in \<open>bios.c\<close>, reading and writing.\<close>

function transfer_read ::
  "'f hardware \<Rightarrow> u32 \<Rightarrow> u32 \<Rightarrow> sector list \<Rightarrow> ('f, 'a) disk_scheme \<Rightarrow> bool \<times> sector list \<times> ('f, 'a) disk_scheme" where
  "transfer_read hw lba count got s =
     (if count > 0 then
        let n = (if count < RUN then count else RUN);
            (r, f) = int13_read hw (ucast (fs_base s) + ucast lba) n (dev s)
        in case r of
             None \<Rightarrow> (False, got, s\<lparr>dev := f\<rparr>)
           | Some xs \<Rightarrow> transfer_read hw (lba + n) (count - n) (got @ xs) (s\<lparr>dev := f\<rparr>)
      else (True, got, s))"
  by auto

function transfer_write ::
  "'f hardware \<Rightarrow> u32 \<Rightarrow> u32 \<Rightarrow> sector list \<Rightarrow> ('f, 'a) disk_scheme \<Rightarrow> bool \<times> ('f, 'a) disk_scheme" where
  "transfer_write hw lba count data s =
     (if count > 0 then
        let n = (if count < RUN then count else RUN);
            (ok, f) = int13_write hw (ucast (fs_base s) + ucast lba) n (take (unat n) data) (dev s)
        in if \<not> ok then (False, s\<lparr>dev := f\<rparr>)
           else transfer_write hw (lba + n) (count - n) (drop (unat n) data) (s\<lparr>dev := f\<rparr>)
      else (True, s))"
  by auto

text \<open>The number of sectors of one request: at most \<open>most\<close>, and some.\<close>

lemma request_size:
  fixes count most :: u32
  assumes "count > 0" "most > 0"
  defines "n \<equiv> (if count < most then count else most)"
  shows "0 < unat n" "unat n \<le> unat count" "unat (count - n) = unat count - unat n" "unat (count - n) < unat count"
    "unat n \<le> unat most"
proof -
  show n: "0 < unat n" "unat n \<le> unat count" "unat n \<le> unat most" using assms by (auto simp: n_def word_nat unat_gt_0)
  then show "unat (count - n) = unat count - unat n" by (intro unat_sub_le)
  then show "unat (count - n) < unat count" using n by simp
qed

termination transfer_read
  by (relation "measure (\<lambda>(hw, lba, count, got, s). unat count)")
    (auto simp: RUN_def word_nat unat_sub_le)

termination transfer_write
  by (relation "measure (\<lambda>(hw, lba, count, data, s). unat count)")
    (auto simp: RUN_def word_nat unat_sub_le)

declare transfer_read.simps [simp del] transfer_write.simps [simp del]

definition bios_read ::
  "'f hardware \<Rightarrow> u32 \<Rightarrow> u32 \<Rightarrow> ('f, 'a) disk_scheme \<Rightarrow> bool \<times> sector list \<times> ('f, 'a) disk_scheme" where
  "bios_read hw lba count s = (if bios_gone s \<or> fs_base s = 0 then (False, [], s) else transfer_read hw lba count [] s)"

definition bios_write ::
  "'f hardware \<Rightarrow> u32 \<Rightarrow> u32 \<Rightarrow> sector list \<Rightarrow> ('f, 'a) disk_scheme \<Rightarrow> bool \<times> ('f, 'a) disk_scheme" where
  "bios_write hw lba count data s = (if bios_gone s \<or> fs_base s = 0 then (False, s) else transfer_write hw lba count data s)"

text \<open>The loops over the firmware's requests; what was read so far is \<open>got\<close>.\<close>

partial_function (option) read_run ::
  "'f hardware \<Rightarrow> u32 \<Rightarrow> u32 \<Rightarrow> sector list \<Rightarrow> ('f, 'a) disk_scheme \<Rightarrow> (bool \<times> sector list \<times> ('f, 'a) disk_scheme) option" where
  "read_run hw lba count got s =
     (if count > 0 then
        let n = (if count < block_run s then count else block_run s);
            (r, f) = read_blocks hw (ucast lba) n (dev s);
            s1 = s\<lparr>dev := f\<rparr>
        in case r of
             None \<Rightarrow> if block_run s1 > BLOCK_RUN_MIN then read_run hw lba count got (s1\<lparr>block_run := block_run s1 div 2\<rparr>)
                      else Some (False, got, s1)
           | Some xs \<Rightarrow> read_run hw (lba + n) (count - n) (got @ xs) s1
      else Some (True, got, s))"

partial_function (option) write_run ::
  "'f hardware \<Rightarrow> u32 \<Rightarrow> u32 \<Rightarrow> sector list \<Rightarrow> ('f, 'a) disk_scheme \<Rightarrow> (bool \<times> ('f, 'a) disk_scheme) option" where
  "write_run hw lba count data s =
     (if count > 0 then
        let n = (if count < block_run s then count else block_run s);
            (ok, f) = write_blocks hw (ucast lba) n (take (unat n) data) (dev s);
            s1 = s\<lparr>dev := f\<rparr>
        in if \<not> ok then
             if block_run s1 > BLOCK_RUN_MIN then write_run hw lba count data (s1\<lparr>block_run := block_run s1 div 2\<rparr>)
             else Some (False, s1)
           else write_run hw (lba + n) (count - n) (drop (unat n) data) s1
      else Some (True, s))"

definition read_now :: "'f hardware \<Rightarrow> ('f, 'a) disk_scheme disk_fun" where
  "read_now hw lba count s =
     (if disk_base s \<noteq> 0 then
        if count = 0 then Some (False, [], s)
        else
          let (r, f) = driver_read hw (disk_base s + ucast lba) count (dev s)
          in Some (case r of None \<Rightarrow> (False, [], s\<lparr>dev := f\<rparr>) | Some xs \<Rightarrow> (True, xs, s\<lparr>dev := f\<rparr>))
      else if bios s then Some (bios_read hw lba count s)
      else if \<not> has_disk s \<or> count = 0 then Some (False, [], s)
      else read_run hw lba count [] s)"

definition ata_read_many ::
  "('f, 'a) disk_scheme firmware \<Rightarrow> 'f hardware \<Rightarrow> ('f, 'a) disk_scheme disk_fun" where
  "ata_read_many fw hw lba count s =
     (if count = 0 then Some (False, [], s)
      else if has_cache s then cache_read fw (read_now hw) lba count s
      else read_now hw lba count s)"

definition ata_read :: "('f, 'a) disk_scheme firmware \<Rightarrow> 'f hardware \<Rightarrow> u32 \<Rightarrow> ('f, 'a) disk_scheme \<Rightarrow>
    (bool \<times> sector list \<times> ('f, 'a) disk_scheme) option" where
  "ata_read fw hw lba s = ata_read_many fw hw lba 1 s"

definition ata_write_many ::
  "'f hardware \<Rightarrow> u32 \<Rightarrow> u32 \<Rightarrow> sector list \<Rightarrow> ('f, 'a) disk_scheme \<Rightarrow> (bool \<times> ('f, 'a) disk_scheme) option" where
  "ata_write_many hw lba count data s =
     (let s0 = s\<lparr>unflushed := True\<rparr>
      in if count = 0 \<or> (\<not> has_disk s0 \<and> disk_base s0 = 0 \<and> \<not> bios s0) then Some (False, s0)
         else
           (if has_cache s0 then cache_written lba count data s0 else Some s0) \<bind> (\<lambda>s1.
           shared_written lba count s1 \<bind> (\<lambda>s2.
             if disk_base s2 \<noteq> 0 then
               let (ok, f) = driver_write hw (disk_base s2 + ucast lba) count data (dev s2)
               in Some (ok, s2\<lparr>dev := f\<rparr>)
             else if bios s2 then Some (bios_write hw lba count data s2)
             else write_run hw lba count data s2)))"

definition ata_write :: "'f hardware \<Rightarrow> u32 \<Rightarrow> sector \<Rightarrow> ('f, 'a) disk_scheme \<Rightarrow> (bool \<times> ('f, 'a) disk_scheme) option" where
  "ata_write hw lba data s = ata_write_many hw lba 1 [data] s"

definition ata_sync :: "'f hardware \<Rightarrow> ('f, 'a) disk_scheme \<Rightarrow> ('f, 'a) disk_scheme" where
  "ata_sync hw s =
     (if \<not> unflushed s then s
      else
        let s1 = s\<lparr>unflushed := False\<rparr>
        in if disk_base s1 \<noteq> 0 then s1\<lparr>dev := driver_flush hw (dev s1)\<rparr>
           else if has_disk s1 then s1\<lparr>dev := flush_blocks hw (dev s1)\<rparr>
           else s1)"

section \<open>Writing through the cache\<close>

text \<open>The disk \<open>d\<close> after the sectors \<open>xs\<close> have been written from \<open>lba\<close> on.\<close>

definition write_at :: "nat \<Rightarrow> sector list \<Rightarrow> (nat \<Rightarrow> sector) \<Rightarrow> nat \<Rightarrow> sector" where
  "write_at lba xs d = (\<lambda>a. if lba \<le> a \<and> a < lba + length xs then xs ! (a - lba) else d a)"

lemma write_at_Nil [simp]: "write_at lba [] d = d"
  by (rule ext) (auto simp: write_at_def)

lemma write_at_append: "write_at (lba + length xs) ys (write_at lba xs d) = write_at lba (xs @ ys) d"
  by (rule ext) (auto simp: write_at_def nth_append)

text \<open>What the cache keeps besides the sectors in its lines, untouched by a write.\<close>

definition same_but_lines :: "'a cache_scheme \<Rightarrow> 'a cache_scheme \<Rightarrow> bool" where
  "same_but_lines s t \<longleftrightarrow> (\<exists>m. t = s\<lparr>line_mem := m\<rparr>)"

lemma same_but_lines_refl [simp]: "same_but_lines s s"
  by (auto simp: same_but_lines_def intro: exI [of _ "line_mem s"])

lemma same_but_lines_trans: "same_but_lines s t \<Longrightarrow> same_but_lines t u \<Longrightarrow> same_but_lines s u"
  by (auto simp: same_but_lines_def)

lemma written_line_found:
  assumes inv: "cache_inv d s" and i: "i \<in> hooked s" and f: "f = unat (l_first (bares s ! i))"
    and n: "k + length xs \<le> 128"
  shows "cache_inv (write_at (f + k) xs d) (s\<lparr>line_mem := fill_line (l_data (st_lines s ! i)) k xs (line_mem s)\<rparr>)"
proof -
  define t where "t = s\<lparr>line_mem := fill_line (l_data (st_lines s ! i)) k xs (line_mem s)\<rparr>"
  have m: "memory_ok s" "cache_ok s" "st_ok s" "bounded s" "coherent d s" using inv by (auto simp: cache_inv_def memory_ok_def)
  have hl: "i \<in> held_lines s" using i by (simp add: hooked_def)
  note hd = held_linesD [OF m(2) hl]
  have ln: "line_lens s" using m(2) by (simp add: cache_ok_def)
  have data: "l_data (st_lines s ! i) = l_data (bares s ! i)" using line_index(1) [OF ln hd(1)] by (metis bare_simps(3))
  have sl: "bares t = bares s" "held_lines t = held_lines s" "hooked t = hooked s" "memory_ok t = memory_ok s" "st_ok t = st_ok s"
    "bounded t = bounded s" by (rule same_lines; simp add: t_def mem.truncate_def)+
  have lm: "line_mem t = fill_line (l_data (bares s ! i)) k xs (line_mem s)" by (simp add: t_def data)
  have other: "f + 128 \<le> unat (l_first (bares s ! j)) \<or> unat (l_first (bares s ! j)) + 128 \<le> f" if "j \<in> hooked s" "j \<noteq> i" for j
  proof -
    have "unat (l_first (bares s ! j)) mod 128 = 0" "f mod 128 = 0" "unat (l_first (bares s ! j)) \<noteq> f"
      using m(5) i that f by (auto simp: coherent_def simp flip: word_unat_eq_iff)
    then show ?thesis using multiples_apart [of _ 128] by metis
  qed
  have "line_mem t (sector_at (l_data (bares s ! j)) q) = write_at (f + k) xs d (unat (l_first (bares s ! j)) + q)"
    if j: "j \<in> hooked s" and q: "q < 128" for j q
  proof (cases "j = i")
    case True
    have old: "line_mem s (sector_at (l_data (bares s ! i)) q) = d (f + q)" using m(5) i f q by (auto simp: coherent_def)
    show ?thesis
    proof (cases "k \<le> q \<and> q < k + length xs")
      case in_range: True
      then have "line_mem t (sector_at (l_data (bares s ! i)) q) = xs ! (q - k)"
        using fill_line_at [OF hd(3) n, of "q - k"] by (auto simp: lm)
      then show ?thesis using True in_range f by (simp add: write_at_def)
    next
      case False
      have "sector_at (l_data (bares s ! i)) (k + j) \<noteq> sector_at (l_data (bares s ! i)) q" if "j < length xs" for j
        using sector_at_inj [OF hd(3) hd(3), of "k + j" q] that False n q by auto
      then have "line_mem t (sector_at (l_data (bares s ! i)) q) = d (f + q)"
        unfolding lm using old by (subst fill_line_other) auto
      moreover have "write_at (f + k) xs d (f + q) = d (f + q)" using False by (auto simp: write_at_def)
      ultimately show ?thesis using True f by simp
    qed
  next
    case False
    have "line_mem t (sector_at (l_data (bares s ! j)) q) = line_mem s (sector_at (l_data (bares s ! j)) q)"
      unfolding lm using fill_other_line [OF m(2) hl _ _ n q, of j] j False by (auto simp: hooked_def)
    also have "\<dots> = d (unat (l_first (bares s ! j)) + q)" using m(5) j q by (auto simp: coherent_def)
    also have "\<dots> = write_at (f + k) xs d (unat (l_first (bares s ! j)) + q)"
      using other [OF j False] n q by (auto simp: write_at_def)
    finally show ?thesis .
  qed
  then have "coherent (write_at (f + k) xs d) t" using m(5) by (simp add: coherent_def sl)
  then show ?thesis using m by (simp add: cache_inv_def sl flip: t_def)
qed

lemma written_line_absent:
  assumes inv: "cache_inv d s" and no: "\<forall>i \<in> hooked s. l_first (bares s ! i) \<noteq> first" and f: "unat first mod 128 = 0"
    and n: "k + length xs \<le> 128"
  shows "cache_inv (write_at (unat first + k) xs d) s"
proof -
  have co: "coherent d s" using inv by (simp add: cache_inv_def)
  have "write_at (unat first + k) xs d (unat (l_first (bares s ! j)) + q) = d (unat (l_first (bares s ! j)) + q)"
    if j: "j \<in> hooked s" and q: "q < 128" for j q
  proof -
    have "unat (l_first (bares s ! j)) mod 128 = 0" using co j by (auto simp: coherent_def)
    moreover have "unat (l_first (bares s ! j)) \<noteq> unat first" using no j by (auto simp flip: word_unat_eq_iff)
    ultimately have "unat first + 128 \<le> unat (l_first (bares s ! j)) \<or> unat (l_first (bares s ! j)) + 128 \<le> unat first"
      using f multiples_apart [of _ 128] by metis
    then show ?thesis using n q by (auto simp: write_at_def)
  qed
  then have "coherent (write_at (unat first + k) xs d) s" using co by (simp add: coherent_def)
  then show ?thesis using inv by (simp add: cache_inv_def)
qed

lemma written_lines_spec:
  assumes "unat lba + unat n \<le> 2 ^ 32 - 128" "length data = unat n" "unat first mod 128 = 0"
    "unat lba < unat first + 128" "cache_inv (write_at (unat lba) (take (unat first - unat lba) data) d) s"
  shows "\<exists>t. written_lines lba n data first s = Some t \<and> cache_inv (write_at (unat lba) data d) t \<and> same_but_lines s t"
  using assms(3-)
proof (induction "2 ^ 32 - unat first" arbitrary: first s rule: less_induct)
  case less
  have ln: "unat (lba + n) = unat lba + unat n" using assms(1) by (intro unat_add_small) simp
  show ?case
  proof (cases "first < lba + n")
    case False
    then have "unat n \<le> unat first - unat lba" using ln by (simp add: word_nat)
    then have "take (unat first - unat lba) data = data" using assms(2) by simp
    then show ?thesis using False less.prems(3) by (subst written_lines.simps) auto
  next
    case True
    define lo where "lo = (if lba > first then lba else first)"
    define hi where "hi = (if lba + n < first + LINE_SECTORS then lba + n else first + LINE_SECTORS)"
    have fl: "unat first < unat lba + unat n" using True ln by (simp add: word_nat)
    have uf: "unat (first + LINE_SECTORS) = unat first + 128"
      using fl assms(1) by (subst unat_add_small) (simp_all add: LINE_SECTORS_def)
    have ufr: "unat lo = max (unat lba) (unat first)" by (auto simp: lo_def word_nat)
    have uto: "unat hi = min (unat lba + unat n) (unat first + 128)" using ln uf by (auto simp: hi_def word_nat)
    define k where "k = unat lo - unat first"
    define xs where "xs = take (unat (hi - lo)) (drop (unat (lo - lba)) data)"
    have d1: "unat (lo - first) = k" unfolding k_def using ufr by (intro unat_sub_le) simp
    have d2: "unat (hi - lo) = unat hi - unat lo" using ufr uto less.prems(2) fl by (intro unat_sub_le) linarith
    have d3: "unat (lo - lba) = unat lo - unat lba" using ufr by (intro unat_sub_le) simp
    have xl: "length xs = unat hi - unat lo" using ufr uto less.prems(2) fl by (auto simp: xs_def d2 d3 assms(2))
    have kx: "k + length xs \<le> 128" unfolding xl k_def using ufr uto less.prems(2) fl by linarith
    define d0 where "d0 = write_at (unat lba) (take (unat first - unat lba) data) d"
    have pre: "unat lba + length (take (unat first - unat lba) data) = unat lo"
      using ufr fl by (auto simp: assms(2))
    have fk: "unat first + k = unat lo" using ufr by (simp add: k_def)
    have step: "write_at (unat first + k) xs d0 = write_at (unat lba) (take (unat (first + LINE_SECTORS) - unat lba) data) d"
    proof -
      have "take (unat first - unat lba) data @ xs = take (unat first + 128 - unat lba) data"
      proof -
        have "unat lo - unat lba = unat first - unat lba" using ufr by simp
        moreover have "xs = take (unat first + 128 - unat lo) (drop (unat lo - unat lba) data)"
          unfolding xs_def d2 d3 using uto assms(2) by (intro take_equalityI) (auto simp: min_def)
        moreover have "unat first + 128 - unat lba = (unat first - unat lba) + (unat first + 128 - unat lo)"
          using ufr less.prems(2) by linarith
        ultimately show ?thesis by (metis take_add)
      qed
      then show ?thesis using write_at_append [of "unat lba" "take (unat first - unat lba) data" xs d] unfolding pre fk d0_def uf by simp
    qed
    have ok: "cache_ok s" using less.prems(3) by (simp add: cache_inv_def memory_ok_def)
    have fN: "first \<noteq> NONE" using less.prems(1) by (auto simp: NONE_def)
    obtain l where fd: "find_line first s = Some l" and inv: "cache_inv (write_at (unat first + k) xs d0)
        (case l of None \<Rightarrow> s | Some i \<Rightarrow> s\<lparr>line_mem := fill_line (l_data (st_lines s ! i)) k xs (line_mem s)\<rparr>)"
      using ok fN
    proof (cases rule: find_line_cases)
      case (found i)
      show thesis using that [OF found(1)] written_line_found [OF less.prems(3) found(2) _ kx, folded d0_def] found(3) by simp
    next
      case absent
      show thesis using that [OF absent(1)] written_line_absent [OF less.prems(3) absent(2) less.prems(1) kx, folded d0_def] by simp
    qed
    define s1 where "s1 = (case l of None \<Rightarrow> s | Some i \<Rightarrow> s\<lparr>line_mem := fill_line (l_data (st_lines s ! i)) k xs (line_mem s)\<rparr>)"
    have sb: "same_but_lines s s1" by (auto simp: s1_def same_but_lines_def split: option.split intro: exI [of _ "line_mem s"])
    have eq: "written_lines lba n data first s = written_lines lba n data (first + LINE_SECTORS) s1"
      using True fd by (subst written_lines.simps) (simp add: Let_def s1_def d1 [symmetric] xs_def lo_def hi_def split: option.split)
    have "2 ^ 32 - unat (first + LINE_SECTORS) < 2 ^ 32 - unat first" using uf fl assms(1) by simp
    moreover have "unat (first + LINE_SECTORS) mod 128 = 0" "unat lba < unat (first + LINE_SECTORS) + 128"
      using less.prems(1,2) uf by simp_all
    ultimately obtain t where "written_lines lba n data (first + LINE_SECTORS) s1 = Some t"
      "cache_inv (write_at (unat lba) data d) t" "same_but_lines s1 t"
      using less.hyps [of "first + LINE_SECTORS" s1] inv step by (auto simp: s1_def)
    then show ?thesis using eq same_but_lines_trans [OF sb] by auto
  qed
qed

lemma cache_written_spec:
  assumes "unat lba + unat n \<le> 2 ^ 32 - 128" "length data = unat n" "cache_inv d s"
  shows "\<exists>t. cache_written lba n data s = Some t \<and> cache_inv (write_at (unat lba) data d) t \<and> same_but_lines s t"
proof -
  have u: "unat (lba - lba mod LINE_SECTORS) = unat lba - unat lba mod 128"
    by (subst unat_sub_le) (simp_all add: unat_mod LINE_SECTORS_def)
  have "(unat lba - unat lba mod 128) mod 128 = 0" by (simp add: minus_mod_eq_mult_div)
  moreover have "unat lba < unat lba - unat lba mod 128 + 128" by (rule below_next_multiple) simp
  ultimately show ?thesis unfolding cache_written_def using assms
    by (intro written_lines_spec) (simp_all add: u)
qed


section \<open>A working disk\<close>

abbreviation span :: "(nat \<Rightarrow> sector) \<Rightarrow> nat \<Rightarrow> nat \<Rightarrow> sector list" where
  "span d a n \<equiv> map (\<lambda>k. d (a + k)) [0..<n]"

text \<open>
  What the kernel relies on of the ways to the disk, \<open>whole f\<close> being what the device in state \<open>f\<close> holds:
  reading changes nothing on it and gives what is there; a write that succeeds puts the data there, and
  none changes anything else.
\<close>

definition reads_truly :: "('f \<Rightarrow> nat \<Rightarrow> sector) \<Rightarrow> (u64 \<Rightarrow> u32 \<Rightarrow> 'f \<Rightarrow> sector list option \<times> 'f) \<Rightarrow> bool" where
  "reads_truly whole rd \<longleftrightarrow> (\<forall>lba n f. unat lba + unat n \<le> 2 ^ 64 \<longrightarrow>
     whole (snd (rd lba n f)) = whole f \<and> (\<forall>xs. fst (rd lba n f) = Some xs \<longrightarrow> xs = span (whole f) (unat lba) (unat n)))"

definition writes_truly :: "('f \<Rightarrow> nat \<Rightarrow> sector) \<Rightarrow> (u64 \<Rightarrow> u32 \<Rightarrow> sector list \<Rightarrow> 'f \<Rightarrow> bool \<times> 'f) \<Rightarrow> bool" where
  "writes_truly whole wr \<longleftrightarrow> (\<forall>lba n data f. unat lba + unat n \<le> 2 ^ 64 \<longrightarrow> length data = unat n \<longrightarrow>
     (fst (wr lba n data f) \<longrightarrow> whole (snd (wr lba n data f)) = write_at (unat lba) data (whole f)) \<and>
     (\<forall>a. a < unat lba \<or> unat lba + unat n \<le> a \<longrightarrow> whole (snd (wr lba n data f)) a = whole f a))"

text \<open>The filesystem's partition starts at sector \<open>base\<close>; the firmware numbers its sectors from there.\<close>

definition part :: "nat \<Rightarrow> ('f \<Rightarrow> nat \<Rightarrow> sector) \<Rightarrow> 'f \<Rightarrow> nat \<Rightarrow> sector" where
  "part base whole f = (\<lambda>a. whole f (base + a))"

definition honest :: "'f hardware \<Rightarrow> ('f \<Rightarrow> nat \<Rightarrow> sector) \<Rightarrow> nat \<Rightarrow> bool" where
  "honest hw whole base \<longleftrightarrow>
     reads_truly whole (driver_read hw) \<and> writes_truly whole (driver_write hw) \<and>
     reads_truly whole (int13_read hw) \<and> writes_truly whole (int13_write hw) \<and>
     reads_truly (part base whole) (read_blocks hw) \<and> writes_truly (part base whole) (write_blocks hw) \<and>
     (\<forall>f. whole (driver_flush hw f) = whole f \<and> whole (flush_blocks hw f) = whole f) \<and> base + 2 ^ 32 \<le> 2 ^ 64"

text \<open>
  The disk answers within its first \<open>limit\<close> sectors: a driver always, the BIOS for requests of \<open>RUN\<close>
  sectors, the firmware for those of \<open>BLOCK_RUN_MIN\<close>; it may refuse larger ones.
\<close>

definition reliable :: "'f hardware \<Rightarrow> nat \<Rightarrow> nat \<Rightarrow> bool" where
  "reliable hw base limit \<longleftrightarrow> (\<forall>lba n f data. n \<noteq> 0 \<longrightarrow>
     (unat lba + unat n \<le> base + limit \<longrightarrow>
        fst (driver_read hw lba n f) \<noteq> None \<and> fst (driver_write hw lba n data f) \<and>
        (n \<le> RUN \<longrightarrow> fst (int13_read hw lba n f) \<noteq> None \<and> fst (int13_write hw lba n data f))) \<and>
     (unat lba + unat n \<le> limit \<longrightarrow> n \<le> BLOCK_RUN_MIN \<longrightarrow>
        fst (read_blocks hw lba n f) \<noteq> None \<and> fst (write_blocks hw lba n data f)))"

lemma reads_trulyD:
  assumes "reads_truly p rd" "unat lba + unat n \<le> 2 ^ 64" "rd lba n f = (r, g)"
  shows "p g = p f" "r = Some xs \<Longrightarrow> xs = span (p f) (unat lba) (unat n)"
  using assms unfolding reads_truly_def by (metis fst_conv snd_conv)+

lemma writes_trulyD:
  assumes "writes_truly p wr" "unat lba + unat n \<le> 2 ^ 64" "length data = unat n" "wr lba n data f = (ok, g)"
  shows "ok \<Longrightarrow> p g = write_at (unat lba) data (p f)" "a < unat lba \<or> unat lba + unat n \<le> a \<Longrightarrow> p g a = p f a"
  using assms unfolding writes_truly_def by (metis fst_conv snd_conv)+

lemma reliableD:
  assumes "reliable hw base limit" "0 < unat n"
  shows "unat lba + unat n \<le> base + limit \<Longrightarrow> driver_read hw lba n f \<noteq> (None, g)"
    "unat lba + unat n \<le> base + limit \<Longrightarrow> driver_write hw lba n data f \<noteq> (False, g)"
    "unat lba + unat n \<le> base + limit \<Longrightarrow> unat n \<le> 64 \<Longrightarrow> int13_read hw lba n f \<noteq> (None, g)"
    "unat lba + unat n \<le> base + limit \<Longrightarrow> unat n \<le> 64 \<Longrightarrow> int13_write hw lba n data f \<noteq> (False, g)"
    "unat lba + unat n \<le> limit \<Longrightarrow> unat n \<le> 8 \<Longrightarrow> read_blocks hw lba n f \<noteq> (None, g)"
    "unat lba + unat n \<le> limit \<Longrightarrow> unat n \<le> 8 \<Longrightarrow> write_blocks hw lba n data f \<noteq> (False, g)"
proof -
  have "n \<noteq> 0" using assms(2) by auto
  moreover have "n \<le> RUN \<longleftrightarrow> unat n \<le> 64" "n \<le> BLOCK_RUN_MIN \<longleftrightarrow> unat n \<le> 8" by (simp_all add: word_nat RUN_def BLOCK_RUN_MIN_def)
  ultimately show "unat lba + unat n \<le> base + limit \<Longrightarrow> driver_read hw lba n f \<noteq> (None, g)"
    "unat lba + unat n \<le> base + limit \<Longrightarrow> driver_write hw lba n data f \<noteq> (False, g)"
    "unat lba + unat n \<le> base + limit \<Longrightarrow> unat n \<le> 64 \<Longrightarrow> int13_read hw lba n f \<noteq> (None, g)"
    "unat lba + unat n \<le> base + limit \<Longrightarrow> unat n \<le> 64 \<Longrightarrow> int13_write hw lba n data f \<noteq> (False, g)"
    "unat lba + unat n \<le> limit \<Longrightarrow> unat n \<le> 8 \<Longrightarrow> read_blocks hw lba n f \<noteq> (None, g)"
    "unat lba + unat n \<le> limit \<Longrightarrow> unat n \<le> 8 \<Longrightarrow> write_blocks hw lba n data f \<noteq> (False, g)"
    using assms(1) unfolding reliable_def by (metis fst_conv)+
qed

lemma unat_up: "unat (ucast a :: u64) = unat a" for a :: u32
  using unat_bound [of a] by (simp add: unsigned_ucast_eq take_bit_nat_eq_self)

lemma advance:
  fixes lba count n :: u32
  assumes "unat lba + unat count \<le> 2 ^ 32" "unat n \<le> unat count"
  shows "unat (lba + n) + unat (count - n) \<le> unat lba + unat count" "count - n \<noteq> 0 \<Longrightarrow> unat (lba + n) = unat lba + unat n"
    "span d (unat lba) (unat n) @ span d (unat (lba + n)) (unat (count - n)) = span d (unat lba) (unat count)"
    "length data = unat count \<Longrightarrow>
      write_at (unat (lba + n)) (drop (unat n) data) (write_at (unat lba) (take (unat n) data) d') = write_at (unat lba) data d'"
proof -
  have un: "unat (count - n) = unat count - unat n" using assms(2) by (rule unat_sub_le)
  have nz: "unat (count - n) \<noteq> 0" if "count - n \<noteq> 0" using that by (simp only: unat_eq_zero simp_thms)
  show add: "unat (lba + n) = unat lba + unat n" if "count - n \<noteq> 0"
    using nz [OF that] un assms(1) by (intro unat_add_small) simp
  have "unat (lba + n) \<le> unat lba + unat n" by (simp add: unat_word_ariths)
  then show "unat (lba + n) + unat (count - n) \<le> unat lba + unat count" using un assms(2) by linarith
  have "[0..<unat count] = [0..<unat n] @ map (\<lambda>k. unat n + k) [0..<unat count - unat n]"
    using upt_add_eq_append [of 0 "unat n" "unat count - unat n"] map_add_upt [of "unat n" "unat count - unat n"] assms(2)
    by (simp add: add.commute)
  then show "span d (unat lba) (unat n) @ span d (unat (lba + n)) (unat (count - n)) = span d (unat lba) (unat count)"
    using un add by (cases "count - n = 0") (auto simp: add.assoc)
  show "write_at (unat (lba + n)) (drop (unat n) data) (write_at (unat lba) (take (unat n) data) d') = write_at (unat lba) data d'"
    if l: "length data = unat count"
  proof (cases "count - n = 0")
    case True
    then have "unat count = unat n" using un assms(2) by simp
    then show ?thesis using l by simp
  next
    case False
    then show ?thesis using write_at_append [of "unat lba" "take (unat n) data" "drop (unat n) data" d'] add l assms(2)
      by (simp add: min_absorb2)
  qed
qed

lemma write_at_outside:
  "(\<And>a. a < lba \<or> lba + length xs \<le> a \<Longrightarrow> d a = d' a) \<Longrightarrow> write_at lba xs d = write_at lba xs d'"
  by (rule ext) (auto simp: write_at_def)

lemma read_run_spec:
  assumes rd: "reads_truly p (read_blocks hw)"
  shows "block_run s \<noteq> 0 \<Longrightarrow> unat lba + unat count \<le> 2 ^ 32 \<Longrightarrow>
    \<exists>ok xs f b. read_run hw lba count got s = Some (ok, got @ xs, s\<lparr>dev := f, block_run := b\<rparr>) \<and> b \<noteq> 0 \<and> p f = p (dev s) \<and>
      length xs \<le> unat count \<and> (ok \<longrightarrow> xs = span (p (dev s)) (unat lba) (unat count)) \<and>
      (reliable hw base limit \<longrightarrow> unat lba + unat count \<le> limit \<longrightarrow> ok)"
proof (induction "unat count + unat (block_run s)" arbitrary: lba count got s rule: less_induct)
  case less
  show ?case
  proof (cases "count > 0")
    case False
    then have "read_run hw lba count got s = Some (True, got @ [], s\<lparr>dev := dev s, block_run := block_run s\<rparr>)"
      by (subst read_run.simps) simp
    moreover have "unat count = 0" using False by (simp add: word_nat)
    ultimately show ?thesis using less.prems(1)
      by (intro exI [of _ True] exI [of _ "[]"] exI [of _ "dev s"] exI [of _ "block_run s"]) simp
  next
    case True
    have bp: "block_run s > 0" using less.prems(1) by (simp add: word_neq_0_conv)
    define n where "n = (if count < block_run s then count else block_run s)"
    note n = request_size [OF True bp, folded n_def]
    obtain r f where rf: "read_blocks hw (ucast lba) n (dev s) = (r, f)" by fastforce
    note ul = unat_up [of lba]
    have bd: "unat (ucast lba :: u64) + unat n \<le> 2 ^ 64" using less.prems(2) n(2) ul by simp
    have pf: "p f = p (dev s)" by (rule reads_trulyD(1) [OF rd bd rf])
    have xs: "ys = span (p (dev s)) (unat lba) (unat n)" if "r = Some ys" for ys
      using reads_trulyD(2) [OF rd bd rf that] ul by simp
    note ad = advance [OF less.prems(2) n(2)]
    show ?thesis
    proof (cases r)
      case None
      show ?thesis
      proof (cases "block_run s > BLOCK_RUN_MIN")
        case big: True
        define s1 where "s1 = s\<lparr>dev := f, block_run := block_run s div 2\<rparr>"
        have half: "unat (block_run s div 2) = unat (block_run s) div 2" by (simp add: unat_div)
        have "8 < unat (block_run s)" using big by (simp add: BLOCK_RUN_MIN_def word_nat)
        then have "unat count + unat (block_run s1) < unat count + unat (block_run s)" "block_run s1 \<noteq> 0"
          using half by (auto simp: s1_def unat_eq_zero [symmetric])
        from less.hyps [OF this less.prems(2), of got] obtain ok xs g b where
          g: "read_run hw lba count got s1 = Some (ok, got @ xs, s1\<lparr>dev := g, block_run := b\<rparr>)" "b \<noteq> 0" "p g = p (dev s1)"
            "length xs \<le> unat count" "ok \<longrightarrow> xs = span (p (dev s1)) (unat lba) (unat count)"
            "reliable hw base limit \<longrightarrow> unat lba + unat count \<le> limit \<longrightarrow> ok" by blast
        have "read_run hw lba count got s = read_run hw lba count got s1"
          using True None rf big by (subst read_run.simps) (simp add: n_def [symmetric] s1_def)
        then show ?thesis using g pf by (auto simp: s1_def)
      next
        case small: False
        have "read_run hw lba count got s = Some (False, got @ [], s\<lparr>dev := f, block_run := block_run s\<rparr>)"
          using True None rf small by (subst read_run.simps) (simp add: n_def [symmetric])
        moreover have "\<not> (reliable hw base limit \<and> unat lba + unat count \<le> limit)"
          using reliableD(5) [of hw base limit n "ucast lba" "dev s" f] None rf n small ul by (auto simp: word_nat BLOCK_RUN_MIN_def)
        ultimately show ?thesis using less.prems(1) pf
          by (intro exI [of _ False] exI [of _ "[]"] exI [of _ f] exI [of _ "block_run s"]) simp
      qed
    next
      case (Some ys)
      define s1 where "s1 = s\<lparr>dev := f\<rparr>"
      have "unat (count - n) + unat (block_run s1) < unat count + unat (block_run s)" "block_run s1 \<noteq> 0"
        using n(4) less.prems(1) by (simp_all add: s1_def)
      from less.hyps [OF this le_trans [OF ad(1) less.prems(2)], of "got @ ys"] obtain ok xs g b where
        g: "read_run hw (lba + n) (count - n) (got @ ys) s1 = Some (ok, (got @ ys) @ xs, s1\<lparr>dev := g, block_run := b\<rparr>)" "b \<noteq> 0"
          "p g = p (dev s1)" "length xs \<le> unat (count - n)" "ok \<longrightarrow> xs = span (p (dev s1)) (unat (lba + n)) (unat (count - n))"
          "reliable hw base limit \<longrightarrow> unat (lba + n) + unat (count - n) \<le> limit \<longrightarrow> ok" by blast
      have eq: "read_run hw lba count got s = read_run hw (lba + n) (count - n) (got @ ys) s1"
        using True Some rf by (subst read_run.simps) (simp add: n_def [symmetric] s1_def)
      have "reliable hw base limit \<longrightarrow> unat lba + unat count \<le> limit \<longrightarrow> ok"
        using g(6) ad(1) by simp
      moreover have "length (ys @ xs) \<le> unat count" using g(4) n(2,3) xs [OF Some] by simp
      moreover have "ok \<longrightarrow> ys @ xs = span (p (dev s)) (unat lba) (unat count)"
        using g(5) xs [OF Some] ad(3) pf by (simp add: s1_def)
      ultimately show ?thesis using eq g(1-3) pf by (auto simp: s1_def)
    qed
  qed
qed

lemma write_run_spec:
  assumes wr: "writes_truly p (write_blocks hw)"
  shows "block_run s \<noteq> 0 \<Longrightarrow> unat lba + unat count \<le> 2 ^ 32 \<Longrightarrow> length data = unat count \<Longrightarrow>
    \<exists>ok f b. write_run hw lba count data s = Some (ok, s\<lparr>dev := f, block_run := b\<rparr>) \<and> b \<noteq> 0 \<and>
      (ok \<longrightarrow> p f = write_at (unat lba) data (p (dev s))) \<and>
      (\<forall>a. a < unat lba \<or> unat lba + unat count \<le> a \<longrightarrow> p f a = p (dev s) a) \<and>
      (reliable hw base limit \<longrightarrow> unat lba + unat count \<le> limit \<longrightarrow> ok)"
proof (induction "unat count + unat (block_run s)" arbitrary: lba count data s rule: less_induct)
  case less
  show ?case
  proof (cases "count > 0")
    case False
    then have "write_run hw lba count data s = Some (True, s\<lparr>dev := dev s, block_run := block_run s\<rparr>)"
      by (subst write_run.simps) simp
    moreover have "unat count = 0" using False by (simp add: word_nat)
    ultimately show ?thesis using less.prems(1,3)
      by (intro exI [of _ True] exI [of _ "dev s"] exI [of _ "block_run s"]) simp
  next
    case True
    have bp: "block_run s > 0" using less.prems(1) by (simp add: word_neq_0_conv)
    define n where "n = (if count < block_run s then count else block_run s)"
    note n = request_size [OF True bp, folded n_def]
    obtain r f where rf: "write_blocks hw (ucast lba) n (take (unat n) data) (dev s) = (r, f)" by fastforce
    note ul = unat_up [of lba]
    have bd: "unat (ucast lba :: u64) + unat n \<le> 2 ^ 64" using less.prems(2) n(2) ul by simp
    have ln: "length (take (unat n) data) = unat n" using less.prems(3) n(2) by simp
    have pf: "p f = write_at (unat lba) (take (unat n) data) (p (dev s))" if r
      using writes_trulyD(1) [OF wr bd ln rf that] ul by simp
    have out: "p f a = p (dev s) a" if "a < unat lba \<or> unat lba + unat n \<le> a" for a
      using writes_trulyD(2) [OF wr bd ln rf, of a] that ul by simp
    note ad = advance [OF less.prems(2) n(2)]
    show ?thesis
    proof (cases r)
      case r: False
      show ?thesis
      proof (cases "block_run s > BLOCK_RUN_MIN")
        case big: True
        define s1 where "s1 = s\<lparr>dev := f, block_run := block_run s div 2\<rparr>"
        have half: "unat (block_run s div 2) = unat (block_run s) div 2" by (simp add: unat_div)
        have "8 < unat (block_run s)" using big by (simp add: BLOCK_RUN_MIN_def word_nat)
        then have "unat count + unat (block_run s1) < unat count + unat (block_run s)" "block_run s1 \<noteq> 0"
          using half by (auto simp: s1_def unat_eq_zero [symmetric])
        from less.hyps [OF this less.prems(2,3)] obtain ok g b where
          g: "write_run hw lba count data s1 = Some (ok, s1\<lparr>dev := g, block_run := b\<rparr>)" "b \<noteq> 0"
            "ok \<longrightarrow> p g = write_at (unat lba) data (p (dev s1))"
            "\<forall>a. a < unat lba \<or> unat lba + unat count \<le> a \<longrightarrow> p g a = p (dev s1) a"
            "reliable hw base limit \<longrightarrow> unat lba + unat count \<le> limit \<longrightarrow> ok" by blast
        have "write_run hw lba count data s = write_run hw lba count data s1"
          using True r rf big by (subst write_run.simps) (simp add: n_def [symmetric] s1_def)
        moreover have "write_at (unat lba) data (p f) = write_at (unat lba) data (p (dev s))"
          using out n(2) less.prems(3) by (intro write_at_outside) auto
        ultimately show ?thesis using g out n(2) by (auto simp: s1_def)
      next
        case small: False
        have "write_run hw lba count data s = Some (False, s\<lparr>dev := f, block_run := block_run s\<rparr>)"
          using True r rf small by (subst write_run.simps) (simp add: n_def [symmetric])
        moreover have "\<not> (reliable hw base limit \<and> unat lba + unat count \<le> limit)"
          using reliableD(6) [of hw base limit n "ucast lba" "take (unat n) data" "dev s" f] r rf n small ul
          by (auto simp: word_nat BLOCK_RUN_MIN_def)
        ultimately show ?thesis using less.prems(1) out n(2)
          by (intro exI [of _ False] exI [of _ f] exI [of _ "block_run s"]) auto
      qed
    next
      case r: True
      define s1 where "s1 = s\<lparr>dev := f\<rparr>"
      have "unat (count - n) + unat (block_run s1) < unat count + unat (block_run s)" "block_run s1 \<noteq> 0"
        using n(4) less.prems(1) by (simp_all add: s1_def)
      from less.hyps [OF this le_trans [OF ad(1) less.prems(2)], of "drop (unat n) data"] less.prems(3) n(3) obtain ok g b where
        g: "write_run hw (lba + n) (count - n) (drop (unat n) data) s1 = Some (ok, s1\<lparr>dev := g, block_run := b\<rparr>)" "b \<noteq> 0"
          "ok \<longrightarrow> p g = write_at (unat (lba + n)) (drop (unat n) data) (p (dev s1))"
          "\<forall>a. a < unat (lba + n) \<or> unat (lba + n) + unat (count - n) \<le> a \<longrightarrow> p g a = p (dev s1) a"
          "reliable hw base limit \<longrightarrow> unat (lba + n) + unat (count - n) \<le> limit \<longrightarrow> ok" by auto
      have eq: "write_run hw lba count data s = write_run hw (lba + n) (count - n) (drop (unat n) data) s1"
        using True r rf by (subst write_run.simps) (simp add: n_def [symmetric] s1_def)
      have "p g a = p (dev s) a" if o: "a < unat lba \<or> unat lba + unat count \<le> a" for a
      proof -
        have "a < unat (lba + n) \<or> unat (lba + n) + unat (count - n) \<le> a" using o ad(1,2) n(3) by (cases "count - n = 0") auto
        then show ?thesis using g(4) out [of a] o n(2) by (auto simp: s1_def)
      qed
      moreover have "ok \<longrightarrow> p g = write_at (unat lba) data (p (dev s))"
        using g(3) ad(4) [OF less.prems(3)] pf r by (simp add: s1_def)
      moreover have "reliable hw base limit \<longrightarrow> unat lba + unat count \<le> limit \<longrightarrow> ok" using g(5) ad(1) by simp
      ultimately show ?thesis using eq g(1,2) by (auto simp: s1_def)
    qed
  qed
qed

text \<open>A request to the whole disk, seen from the partition.\<close>

lemma whole_read:
  fixes lba :: u32
  assumes rd: "reads_truly whole rd" and b: "unat b = base" "base + 2 ^ 32 \<le> 2 ^ 64" and n: "unat lba + unat n \<le> 2 ^ 32"
    and r: "rd (b + ucast lba) n f = (r, g)"
  shows "part base whole g = part base whole f" "r = Some xs \<Longrightarrow> xs = span (part base whole f) (unat lba) (unat n)"
    "unat (b + ucast lba) = base + unat lba"
proof -
  show u: "unat (b + ucast lba) = base + unat lba" using b n unat_bound [of lba] by (subst unat_add_small) (simp_all add: unat_up)
  then have bd: "unat (b + ucast lba) + unat n \<le> 2 ^ 64" using b n by simp
  show "part base whole g = part base whole f" using reads_trulyD(1) [OF rd bd r] by (simp add: part_def)
  show "xs = span (part base whole f) (unat lba) (unat n)" if "r = Some xs"
    using reads_trulyD(2) [OF rd bd r that] u by (simp add: part_def add.assoc)
qed

lemma part_write_at: "part base whole g = write_at lba data (part base whole f)" if "whole g = write_at (base + lba) data (whole f)"
  using that by (simp add: part_def write_at_def fun_eq_iff)

lemma whole_write:
  fixes lba :: u32
  assumes wr: "writes_truly whole wr" and b: "unat b = base" "base + 2 ^ 32 \<le> 2 ^ 64" and n: "unat lba + unat n \<le> 2 ^ 32"
    "length data = unat n" and r: "wr (b + ucast lba) n data f = (ok, g)"
  shows "ok \<Longrightarrow> part base whole g = write_at (unat lba) data (part base whole f)"
    "a < unat lba \<or> unat lba + unat n \<le> a \<Longrightarrow> part base whole g a = part base whole f a"
    "unat (b + ucast lba) = base + unat lba"
proof -
  show u: "unat (b + ucast lba) = base + unat lba" using b n unat_bound [of lba] by (subst unat_add_small) (simp_all add: unat_up)
  then have bd: "unat (b + ucast lba) + unat n \<le> 2 ^ 64" using b n by simp
  show "part base whole g = write_at (unat lba) data (part base whole f)" if ok
    using writes_trulyD(1) [OF wr bd n(2) r that] u by (intro part_write_at) simp
  show "part base whole g a = part base whole f a" if "a < unat lba \<or> unat lba + unat n \<le> a"
    using writes_trulyD(2) [OF wr bd n(2) r, of "base + a"] u that by (auto simp: part_def)
qed

lemma transfer_read_spec:
  assumes "reads_truly whole (int13_read hw)" "base + 2 ^ 32 \<le> 2 ^ 64" "unat (fs_base s) = base" "unat lba + unat count \<le> 2 ^ 32"
  shows "\<exists>ok xs f. transfer_read hw lba count got s = (ok, got @ xs, s\<lparr>dev := f\<rparr>) \<and> part base whole f = part base whole (dev s) \<and>
      length xs \<le> unat count \<and> (ok \<longrightarrow> xs = span (part base whole (dev s)) (unat lba) (unat count)) \<and>
      (reliable hw base limit \<longrightarrow> unat lba + unat count \<le> limit \<longrightarrow> ok)"
  using assms
proof (induction hw lba count got s rule: transfer_read.induct)
  case (1 hw lba count got s)
  show ?case
  proof (cases "count > 0")
    case False
    then have "transfer_read hw lba count got s = (True, got @ [], s\<lparr>dev := dev s\<rparr>)" by (simp add: transfer_read.simps)
    moreover have "unat count = 0" using False by (simp add: word_nat)
    ultimately show ?thesis by (intro exI [of _ True] exI [of _ "[]"] exI [of _ "dev s"]) simp
  next
    case True
    define n where "n = (if count < RUN then count else RUN)"
    have "RUN > 0" by (simp add: RUN_def)
    note n = request_size [OF True this, folded n_def]
    obtain r f where rf: "int13_read hw (ucast (fs_base s) + ucast lba) n (dev s) = (r, f)" by fastforce
    have fb: "unat (ucast (fs_base s) :: u64) = base" using "1.prems"(3) by (simp add: unat_up)
    have ln: "unat lba + unat n \<le> 2 ^ 32" using "1.prems"(4) n(2) by simp
    note w = whole_read [OF "1.prems"(1) fb "1.prems"(2) ln rf]
    note ad = advance [OF "1.prems"(4) n(2)]
    have eq: "transfer_read hw lba count got s = (case r of None \<Rightarrow> (False, got, s\<lparr>dev := f\<rparr>)
        | Some xs \<Rightarrow> transfer_read hw (lba + n) (count - n) (got @ xs) (s\<lparr>dev := f\<rparr>))"
      using True rf by (simp add: transfer_read.simps [of hw lba count] n_def [symmetric])
    show ?thesis
    proof (cases r)
      case None
      have "\<not> (reliable hw base limit \<and> unat lba + unat count \<le> limit)"
        using reliableD(3) [of hw base limit n "ucast (fs_base s) + ucast lba" "dev s" f] None rf n w(3) by (auto simp: RUN_def)
      then show ?thesis using eq None w(1) by (intro exI [of _ False] exI [of _ "[]"] exI [of _ f]) simp
    next
      case (Some ys)
      obtain ok xs g where
        g: "transfer_read hw (lba + n) (count - n) (got @ ys) (s\<lparr>dev := f\<rparr>) = (ok, (got @ ys) @ xs, s\<lparr>dev := g\<rparr>)"
          "part base whole g = part base whole f" "length xs \<le> unat (count - n)"
          "ok \<longrightarrow> xs = span (part base whole f) (unat (lba + n)) (unat (count - n))"
          "reliable hw base limit \<longrightarrow> unat (lba + n) + unat (count - n) \<le> limit \<longrightarrow> ok"
        using "1.IH" [OF True n_def rf [symmetric] refl Some "1.prems"(1,2)] "1.prems"(3) le_trans [OF ad(1) "1.prems"(4)]
        by auto
      have "length (ys @ xs) \<le> unat count" using g(3) n(2,3) w(2) [OF Some] by simp
      moreover have "ok \<longrightarrow> ys @ xs = span (part base whole (dev s)) (unat lba) (unat count)"
        using g(4) w(2) [OF Some] w(1) ad(3) by simp
      moreover have "reliable hw base limit \<longrightarrow> unat lba + unat count \<le> limit \<longrightarrow> ok" using g(5) ad(1) by simp
      ultimately show ?thesis using eq Some g(1,2) w(1) by auto
    qed
  qed
qed

lemma transfer_write_spec:
  assumes "writes_truly whole (int13_write hw)" "base + 2 ^ 32 \<le> 2 ^ 64" "unat (fs_base s) = base" "unat lba + unat count \<le> 2 ^ 32"
    "length data = unat count"
  shows "\<exists>ok f. transfer_write hw lba count data s = (ok, s\<lparr>dev := f\<rparr>) \<and>
      (ok \<longrightarrow> part base whole f = write_at (unat lba) data (part base whole (dev s))) \<and>
      (\<forall>a. a < unat lba \<or> unat lba + unat count \<le> a \<longrightarrow> part base whole f a = part base whole (dev s) a) \<and>
      (reliable hw base limit \<longrightarrow> unat lba + unat count \<le> limit \<longrightarrow> ok)"
  using assms
proof (induction hw lba count data s rule: transfer_write.induct)
  case (1 hw lba count data s)
  show ?case
  proof (cases "count > 0")
    case False
    then have "transfer_write hw lba count data s = (True, s\<lparr>dev := dev s\<rparr>)" by (simp add: transfer_write.simps)
    moreover have "unat count = 0" using False by (simp add: word_nat)
    ultimately show ?thesis using "1.prems"(5) by (intro exI [of _ True] exI [of _ "dev s"]) simp
  next
    case True
    define n where "n = (if count < RUN then count else RUN)"
    have "RUN > 0" by (simp add: RUN_def)
    note n = request_size [OF True this, folded n_def]
    obtain r f where rf: "int13_write hw (ucast (fs_base s) + ucast lba) n (take (unat n) data) (dev s) = (r, f)" by fastforce
    have fb: "unat (ucast (fs_base s) :: u64) = base" using "1.prems"(3) by (simp add: unat_up)
    have ln: "unat lba + unat n \<le> 2 ^ 32" "length (take (unat n) data) = unat n" using "1.prems"(4,5) n(2) by simp_all
    note w = whole_write [OF "1.prems"(1) fb "1.prems"(2) ln rf]
    note ad = advance [OF "1.prems"(4) n(2)]
    have eq: "transfer_write hw lba count data s = (if \<not> r then (False, s\<lparr>dev := f\<rparr>)
        else transfer_write hw (lba + n) (count - n) (drop (unat n) data) (s\<lparr>dev := f\<rparr>))"
      using True rf by (simp add: transfer_write.simps [of hw lba count] n_def [symmetric])
    show ?thesis
    proof (cases r)
      case False
      have "\<not> (reliable hw base limit \<and> unat lba + unat count \<le> limit)"
        using reliableD(4) [of hw base limit n "ucast (fs_base s) + ucast lba" "take (unat n) data" "dev s" f] False rf n w(3)
        by (auto simp: RUN_def)
      then show ?thesis using eq False w(2) n(2) by (intro exI [of _ False] exI [of _ f]) auto
    next
      case r: True
      obtain ok g where
        g: "transfer_write hw (lba + n) (count - n) (drop (unat n) data) (s\<lparr>dev := f\<rparr>) = (ok, s\<lparr>dev := g\<rparr>)"
          "ok \<longrightarrow> part base whole g = write_at (unat (lba + n)) (drop (unat n) data) (part base whole f)"
          "\<forall>a. a < unat (lba + n) \<or> unat (lba + n) + unat (count - n) \<le> a \<longrightarrow> part base whole g a = part base whole f a"
          "reliable hw base limit \<longrightarrow> unat (lba + n) + unat (count - n) \<le> limit \<longrightarrow> ok"
        using "1.IH" [OF True n_def rf [symmetric] refl _ "1.prems"(1,2)] r "1.prems"(3,5) le_trans [OF ad(1) "1.prems"(4)] n(3)
        by auto
      have "part base whole g a = part base whole (dev s) a" if o: "a < unat lba \<or> unat lba + unat count \<le> a" for a
      proof -
        have "a < unat (lba + n) \<or> unat (lba + n) + unat (count - n) \<le> a" using o ad(1,2) n(3) by (cases "count - n = 0") auto
        then show ?thesis using g(3) w(2) [of a] o n(2) by auto
      qed
      moreover have "ok \<longrightarrow> part base whole g = write_at (unat lba) data (part base whole (dev s))"
        using g(2) ad(4) [OF "1.prems"(5)] w(1) [OF r] by simp
      moreover have "reliable hw base limit \<longrightarrow> unat lba + unat count \<le> limit \<longrightarrow> ok" using g(4) ad(1) by simp
      ultimately show ?thesis using eq r g(1) by auto
    qed
  qed
qed

section \<open>The disk under the cache\<close>

definition working :: "'f hardware \<Rightarrow> ('f \<Rightarrow> nat \<Rightarrow> sector) \<Rightarrow> nat \<Rightarrow> (nat \<Rightarrow> sector) \<Rightarrow> ('f, 'a) disk_scheme \<Rightarrow> bool" where
  "working hw whole base d s \<longleftrightarrow> honest hw whole base \<and> d = part base whole (dev s) \<and>
     (disk_base s = 0 \<or> unat (disk_base s) = base) \<and> (fs_base s = 0 \<or> unat (fs_base s) = base) \<and> block_run s \<noteq> 0"

text \<open>There is a way to the disk.\<close>

definition attached :: "('f, 'a) disk_scheme \<Rightarrow> bool" where
  "attached s \<longleftrightarrow> disk_base s \<noteq> 0 \<or> (if bios s then \<not> bios_gone s \<and> fs_base s \<noteq> 0 else has_disk s)"

text \<open>What a transfer leaves as it is.\<close>

definition config :: "('f, 'a) disk_scheme \<Rightarrow> bool \<times> u64 \<times> bool \<times> u32 \<times> bool \<times> bool \<times> bool \<times> 'a" where
  "config s = (has_cache s, disk_base s, bios s, fs_base s, bios_gone s, has_disk s, unflushed s, disk.more s)"

lemma read_now_spec:
  assumes w: "working hw whole base d s" and n: "unat lba + unat count \<le> 2 ^ 32"
  shows "\<exists>ok xs f b. read_now hw lba count s = Some (ok, xs, s\<lparr>dev := f, block_run := b\<rparr>) \<and>
    working hw whole base d (s\<lparr>dev := f, block_run := b\<rparr>) \<and> length xs \<le> unat count \<and>
    (ok \<longrightarrow> xs = span d (unat lba) (unat count)) \<and>
    (reliable hw base limit \<longrightarrow> unat lba + unat count \<le> limit \<longrightarrow> count \<noteq> 0 \<longrightarrow> attached s \<longrightarrow> ok)"
proof -
  have h: "honest hw whole base" "d = part base whole (dev s)" "block_run s \<noteq> 0" and b64: "base + 2 ^ 32 \<le> 2 ^ 64"
    using w by (auto simp: working_def honest_def)
  have next_ok: "working hw whole base d (s\<lparr>dev := f, block_run := b\<rparr>)" if "part base whole f = part base whole (dev s)" "b \<noteq> 0" for f b
    using w that by (auto simp: working_def)
  have fail: ?thesis if "read_now hw lba count s = Some (False, [], s)" "\<not> attached s \<or> count = 0"
    using that next_ok [OF refl h(3)] by (intro exI [of _ False] exI [of _ "[]"] exI [of _ "dev s"] exI [of _ "block_run s"]) auto
  consider (driver) "disk_base s \<noteq> 0" "count \<noteq> 0" | (bios) "disk_base s = 0" "bios s" "\<not> bios_gone s" "fs_base s \<noteq> 0"
    | (blocks) "disk_base s = 0" "\<not> bios s" "has_disk s" "count \<noteq> 0" | (bad) "read_now hw lba count s = Some (False, [], s)" "\<not> attached s \<or> count = 0"
    by (cases "disk_base s = 0"; cases "bios s"; cases "count = 0"; cases "has_disk s"; cases "bios_gone s"; cases "fs_base s = 0")
      (simp_all add: read_now_def attached_def bios_read_def)
  then show ?thesis
  proof cases
    case driver
    obtain r f where rf: "driver_read hw (disk_base s + ucast lba) count (dev s) = (r, f)" by fastforce
    have rd: "reads_truly whole (driver_read hw)" using h(1) by (simp add: honest_def)
    have "unat (disk_base s) = base" using w driver by (auto simp: working_def)
    note t = whole_read [OF rd this b64 n rf]
    have "0 < unat count" using driver(2) by (simp add: unat_gt_0)
    then have "reliable hw base limit \<longrightarrow> unat lba + unat count \<le> limit \<longrightarrow> r \<noteq> None"
      using reliableD(1) [of hw base limit count "disk_base s + ucast lba" "dev s" f] rf t(3) by auto
    moreover have "read_now hw lba count s =
        Some (r \<noteq> None, (case r of None \<Rightarrow> [] | Some xs \<Rightarrow> xs), s\<lparr>dev := f, block_run := block_run s\<rparr>)"
      using driver rf by (cases r) (simp_all add: read_now_def)
    moreover have "length (case r of None \<Rightarrow> [] | Some xs \<Rightarrow> xs) \<le> unat count"
      "r \<noteq> None \<longrightarrow> (case r of None \<Rightarrow> [] | Some xs \<Rightarrow> xs) = span d (unat lba) (unat count)"
      using t(2) h(2) by (cases r; simp)+
    ultimately show ?thesis using next_ok [OF t(1) h(3)] by blast
  next
    case bios
    have fb: "unat (fs_base s) = base" using w bios by (auto simp: working_def)
    have rd: "reads_truly whole (int13_read hw)" using h(1) by (simp add: honest_def)
    obtain ok xs f where t: "transfer_read hw lba count [] s = (ok, xs, s\<lparr>dev := f\<rparr>)" "part base whole f = part base whole (dev s)"
      "length xs \<le> unat count" "ok \<longrightarrow> xs = span (part base whole (dev s)) (unat lba) (unat count)"
      "reliable hw base limit \<longrightarrow> unat lba + unat count \<le> limit \<longrightarrow> ok"
      using transfer_read_spec [OF rd b64 fb n, of "[]" limit] by auto
    then show ?thesis using bios h next_ok [OF t(2) h(3)]
      by (auto simp: read_now_def bios_read_def intro!: exI [of _ f] exI [of _ "block_run s"])
  next
    case blocks
    have rd: "reads_truly (part base whole) (read_blocks hw)" using h(1) by (simp add: honest_def)
    obtain ok xs f b where t: "read_run hw lba count [] s = Some (ok, xs, s\<lparr>dev := f, block_run := b\<rparr>)" "b \<noteq> 0"
      "part base whole f = part base whole (dev s)"
      "length xs \<le> unat count" "ok \<longrightarrow> xs = span (part base whole (dev s)) (unat lba) (unat count)"
      "reliable hw base limit \<longrightarrow> unat lba + unat count \<le> limit \<longrightarrow> ok"
      using read_run_spec [OF rd h(3) n, of "[]" base limit] by auto
    then show ?thesis using blocks h next_ok [OF t(3,2)] by (auto simp: read_now_def)
  next
    case bad
    then show ?thesis by (rule fail)
  qed
qed

text \<open>The state below the cache: a disk that holds \<open>d\<close>, everything else as in \<open>c\<close>.\<close>

definition blank_cache :: cache where
  "blank_cache = cache.make [] False [] 0 0 (\<lambda>_. 0) 0 0 [] [] [] None None None 0 0 0 0 [] [] None 0 0 0 False False (\<lambda>_. [])"

definition below ::
  "'f hardware \<Rightarrow> ('f \<Rightarrow> nat \<Rightarrow> sector) \<Rightarrow> nat \<Rightarrow> bool \<times> u64 \<times> bool \<times> u32 \<times> bool \<times> bool \<times> bool \<times> 'a \<Rightarrow> (nat \<Rightarrow> sector) \<Rightarrow>
     ('f, 'a) disk_ext \<Rightarrow> bool" where
  "below hw whole base c d e \<longleftrightarrow> (let s = cache.extend blank_cache e in working hw whole base d s \<and> config s = c)"

lemma below_more: "below hw whole base c d (cache.more s) \<longleftrightarrow> working hw whole base d s \<and> config s = c"
  by (cases s) (simp add: below_def Let_def working_def config_def cache.defs)

lemma dev_more: "s\<lparr>dev := f, block_run := b\<rparr> = cache.more_update (\<lambda>_. cache.more (s\<lparr>dev := f, block_run := b\<rparr>)) s"
  by (cases s) simp

interpretation disk: disk_reader "read_now hw" "below hw whole base c" for hw whole base c
proof
  fix d and s :: "('a, 'b) disk_scheme" and lba n :: u32
  assume b: "below hw whole base c d (cache.more s)" and n: "unat lba + unat n \<le> 2 ^ 32"
  have w: "working hw whole base d s" "config s = c" using b by (simp_all add: below_more)
  obtain ok xs f r where r: "read_now hw lba n s = Some (ok, xs, s\<lparr>dev := f, block_run := r\<rparr>)"
    "working hw whole base d (s\<lparr>dev := f, block_run := r\<rparr>)" "length xs \<le> unat n" "ok \<longrightarrow> xs = span d (unat lba) (unat n)"
    using read_now_spec [OF w(1) n] by blast
  have "config (s\<lparr>dev := f, block_run := r\<rparr>) = c" using w(2) by (simp add: config_def)
  then have "below hw whole base c d (cache.more (s\<lparr>dev := f, block_run := r\<rparr>))" using r(2) by (simp only: below_more)
  then show "\<exists>ok xs e. read_now hw lba n s = Some (ok, xs, cache.more_update (\<lambda>_. e) s) \<and> below hw whole base c d e \<and>
      length xs \<le> unat n \<and> (ok \<longrightarrow> xs = span d (unat lba) (unat n))"
    using r(1,3,4) dev_more [where s = s and f = f and b = r] by metis
qed

text \<open>
  The kernel's disk and what stands above it: the shared pages and the cache keep their invariants,
  every line of the cache holds what the disk does, and without the cache module there is none.
\<close>

definition disk_inv :: "'f hardware \<Rightarrow> ('f \<Rightarrow> nat \<Rightarrow> sector) \<Rightarrow> nat \<Rightarrow> (nat \<Rightarrow> sector) \<Rightarrow> ('f, 'a) disk_scheme \<Rightarrow> bool" where
  "disk_inv hw whole base d s \<longleftrightarrow> working hw whole base d s \<and> cache_inv d s \<and> share_inv s \<and> (has_cache s \<or> hooked s = {})"

lemma read_now_answers:
  fixes s :: "('f, 'a) disk_scheme" and hw :: "'f hardware"
  assumes "reliable hw base limit" "unat lba + unat n \<le> limit" "unat lba + unat n \<le> 2 ^ 32" "attached s"
  shows "answers (read_now hw) (below hw whole base (config s)) d lba n"
  unfolding answers_def
proof (intro allI impI)
  fix a m :: u32 and u :: "('f, 'a) disk_scheme"
  assume u: "below hw whole base (config s) d (cache.more u)" "m \<noteq> 0" and r: "unat lba \<le> unat a" "unat a + unat m \<le> unat lba + unat n"
  have w: "working hw whole base d u" "config u = config s" using u(1) by (simp_all add: below_more)
  then have "attached u" using assms(4) by (simp add: attached_def config_def)
  moreover have "unat a + unat m \<le> 2 ^ 32" using r assms(3) by linarith
  ultimately show "\<exists>xs t. read_now hw a m u = Some (True, xs, t)"
    using read_now_spec [OF w(1), of a m limit] assms(1,2) r(2) u(2) by fastforce
qed

lemma ata_read_many_spec:
  assumes inv: "disk_inv hw whole base d s" and n: "unat lba + unat count \<le> 2 ^ 32" "count \<noteq> 0"
  shows "\<exists>ok xs t. ata_read_many fw hw lba count s = Some (ok, xs, t) \<and> disk_inv hw whole base d t \<and> config t = config s \<and>
    (ok \<longrightarrow> xs = span d (unat lba) (unat count)) \<and>
    (reliable hw base limit \<longrightarrow> unat lba + unat count \<le> limit \<longrightarrow> attached s \<longrightarrow> ok)"
proof -
  have w: "working hw whole base d s" "cache_inv d s" "share_inv s" using inv by (auto simp: disk_inv_def)
  show ?thesis
  proof (cases "has_cache s")
    case True
    have "below hw whole base (config s) d (cache.more s)" using w(1) by (simp add: below_more)
    from disk.cache_read_spec [OF w(2) this n, of fw] obtain ok xs t where
      t: "cache_read fw (read_now hw) lba count s = Some (ok, xs, t)" "cache_inv d t" "below hw whole base (config s) d (cache.more t)"
        "share_fields t = share_fields s" "ok \<longrightarrow> xs = span d (unat lba) (unat count)"
        "answers (read_now hw) (below hw whole base (config s)) d lba count \<longrightarrow> ok" by blast
    have t3: "working hw whole base d t" "config t = config s" using t(3) by (simp_all add: below_more)
    then have "has_cache t" using True by (simp add: config_def)
    moreover have "share_inv t" using share_fields_same(8) [OF t(4)] w(3) by simp
    ultimately have "disk_inv hw whole base d t" using t(2) t3(1) by (simp add: disk_inv_def)
    then show ?thesis using t(1,5,6) t3(2) True n read_now_answers [of hw base limit lba count s whole d] by (auto simp: ata_read_many_def)
  next
    case False
    obtain ok xs f b where r: "read_now hw lba count s = Some (ok, xs, s\<lparr>dev := f, block_run := b\<rparr>)"
      "working hw whole base d (s\<lparr>dev := f, block_run := b\<rparr>)" "ok \<longrightarrow> xs = span d (unat lba) (unat count)"
      "reliable hw base limit \<longrightarrow> unat lba + unat count \<le> limit \<longrightarrow> count \<noteq> 0 \<longrightarrow> attached s \<longrightarrow> ok"
      using read_now_spec [OF w(1) n(1), of limit] by blast
    define t where "t = s\<lparr>dev := f, block_run := b\<rparr>"
    have sl: "cache_inv d t = cache_inv d s" "hooked t = hooked s" by (rule same_lines; simp add: t_def mem.truncate_def)+
    have "share_inv t = share_inv s" by (rule share_fields_same(8)) (simp add: t_def share_fields_def)
    then have "disk_inv hw whole base d t" using r(2) w inv sl by (simp add: disk_inv_def flip: t_def) (simp add: t_def)
    moreover have "config t = config s" by (simp add: t_def config_def)
    ultimately show ?thesis using r False n(2) by (auto simp: ata_read_many_def t_def)
  qed
qed

section \<open>Writing to the disk\<close>

definition only_keys :: "'a share_scheme \<Rightarrow> 'a share_scheme \<Rightarrow> bool" where
  "only_keys s t \<longleftrightarrow> (\<exists>es ks fh. t = s\<lparr>entries := es, by_key := ks, free_head := fh\<rparr>)"

lemma only_keys_refl: "only_keys s s"
  unfolding only_keys_def by (rule exI [of _ "entries s"], rule exI [of _ "by_key s"], rule exI [of _ "free_head s"]) simp

lemma only_keys_trans: "only_keys s t \<Longrightarrow> only_keys t u \<Longrightarrow> only_keys s u"
  unfolding only_keys_def by (elim exE) (simp, blast)

lemma only_keys_put: "only_keys s (key_put l v s)" "only_keys s (put_entry i e s)"
proof -
  show "only_keys s (put_entry i e s)" unfolding only_keys_def put_entry_def
    by (rule exI [of _ "(entries s)[i := e]"], rule exI [of _ "by_key s"], rule exI [of _ "free_head s"]) simp
  show "only_keys s (key_put l v s)"
  proof (cases l)
    case (Head h)
    show ?thesis unfolding only_keys_def Head
      by (rule exI [of _ "entries s"], rule exI [of _ "if h < length (by_key s) then (by_key s)[h := v] else by_key s"],
          rule exI [of _ "if h = length (by_key s) then v else free_head s"]) (simp add: key_put.simps)
  next
    case (Next i)
    show ?thesis unfolding only_keys_def Next
      by (rule exI [of _ "(entries s)[i := (entries s ! i)\<lparr>e_next_key := v\<rparr>]"], rule exI [of _ "by_key s"], rule exI [of _ "free_head s"])
        (simp add: key_put.simps)
  qed
qed

lemma unlink_key_only: "unlink_key i s = Some t \<Longrightarrow> only_keys s t"
  by (auto simp: unlink_key_def Let_def bind_eq_Some_conv
      intro: only_keys_put only_keys_trans [OF only_keys_put(1) only_keys_put(2)])

lemma written_from_only: "written_from lba count is s = Some t \<Longrightarrow> only_keys s t"
proof (induction "is" arbitrary: s)
  case Nil
  then show ?case by (simp add: only_keys_refl)
next
  case (Cons i "is")
  then show ?case by (auto simp: bind_eq_Some_conv split: if_splits dest: unlink_key_only intro: only_keys_trans)
qed

lemma shared_written_only:
  "shared_written lba count s = Some t \<Longrightarrow> only_keys s t"
  using written_from_only by (simp add: shared_written_def)

lemma only_keys_same:
  fixes s t :: "('f, 'a) disk_scheme"
  assumes "only_keys s t"
  shows "cache_inv d t = cache_inv d s" "hooked t = hooked s" "config t = config s" "dev t = dev s" "block_run t = block_run s"
proof -
  obtain es ks fh where t: "t = s\<lparr>entries := es, by_key := ks, free_head := fh\<rparr>" using assms by (auto simp: only_keys_def)
  show "cache_inv d t = cache_inv d s" "hooked t = hooked s" by (rule same_lines; simp add: t mem.truncate_def)+
  show "config t = config s" "dev t = dev s" "block_run t = block_run s" by (simp_all add: t config_def)
qed

text \<open>The end of \<open>ata_write_many\<close>: the write itself.\<close>

definition write_now :: "'f hardware \<Rightarrow> u32 \<Rightarrow> u32 \<Rightarrow> sector list \<Rightarrow> ('f, 'a) disk_scheme \<Rightarrow> (bool \<times> ('f, 'a) disk_scheme) option" where
  "write_now hw lba count data s =
     (if disk_base s \<noteq> 0 then
        let (ok, f) = driver_write hw (disk_base s + ucast lba) count data (dev s)
        in Some (ok, s\<lparr>dev := f\<rparr>)
      else if bios s then Some (bios_write hw lba count data s)
      else write_run hw lba count data s)"

lemma write_now_spec:
  assumes w: "working hw whole base d s" and n: "unat lba + unat count \<le> 2 ^ 32" "length data = unat count"
  shows "\<exists>ok f b. write_now hw lba count data s = Some (ok, s\<lparr>dev := f, block_run := b\<rparr>) \<and> b \<noteq> 0 \<and>
    (ok \<longrightarrow> part base whole f = write_at (unat lba) data d) \<and>
    (\<forall>a. a < unat lba \<or> unat lba + unat count \<le> a \<longrightarrow> part base whole f a = d a) \<and>
    (reliable hw base limit \<longrightarrow> unat lba + unat count \<le> limit \<longrightarrow> count \<noteq> 0 \<longrightarrow> attached s \<longrightarrow> ok)"
proof -
  have h: "honest hw whole base" "d = part base whole (dev s)" "block_run s \<noteq> 0" and b64: "base + 2 ^ 32 \<le> 2 ^ 64"
    using w by (auto simp: working_def honest_def)
  consider (driver) "disk_base s \<noteq> 0" | (bios) "disk_base s = 0" "bios s" "\<not> bios_gone s" "fs_base s \<noteq> 0"
    | (blocks) "disk_base s = 0" "\<not> bios s" | (bad) "write_now hw lba count data s = Some (False, s)" "\<not> attached s"
    by (cases "disk_base s = 0"; cases "bios s"; cases "bios_gone s"; cases "fs_base s = 0")
      (simp_all add: write_now_def attached_def bios_write_def)
  then show ?thesis
  proof cases
    case driver
    obtain r f where rf: "driver_write hw (disk_base s + ucast lba) count data (dev s) = (r, f)" by fastforce
    have wr: "writes_truly whole (driver_write hw)" using h(1) by (simp add: honest_def)
    have "unat (disk_base s) = base" using w driver by (auto simp: working_def)
    note t = whole_write [OF wr this b64 n rf]
    have "reliable hw base limit \<longrightarrow> unat lba + unat count \<le> limit \<longrightarrow> count \<noteq> 0 \<longrightarrow> r"
      using reliableD(2) [of hw base limit count "disk_base s + ucast lba" data "dev s" f] rf t(3) by (auto simp: unat_gt_0)
    moreover have "write_now hw lba count data s = Some (r, s\<lparr>dev := f, block_run := block_run s\<rparr>)"
      using driver rf by (simp add: write_now_def)
    ultimately show ?thesis using t(1,2) h(2,3) by blast
  next
    case bios
    have fb: "unat (fs_base s) = base" using w bios by (auto simp: working_def)
    have wr: "writes_truly whole (int13_write hw)" using h(1) by (simp add: honest_def)
    obtain ok f where t: "transfer_write hw lba count data s = (ok, s\<lparr>dev := f\<rparr>)"
      "ok \<longrightarrow> part base whole f = write_at (unat lba) data (part base whole (dev s))"
      "\<forall>a. a < unat lba \<or> unat lba + unat count \<le> a \<longrightarrow> part base whole f a = part base whole (dev s) a"
      "reliable hw base limit \<longrightarrow> unat lba + unat count \<le> limit \<longrightarrow> ok"
      using transfer_write_spec [OF wr b64 fb n, of limit] by auto
    then have "write_now hw lba count data s = Some (ok, s\<lparr>dev := f, block_run := block_run s\<rparr>)"
      using bios by (simp add: write_now_def bios_write_def)
    then show ?thesis using t(2-4) h(2,3) by blast
  next
    case blocks
    have wr: "writes_truly (part base whole) (write_blocks hw)" using h(1) by (simp add: honest_def)
    have "write_now hw lba count data s = write_run hw lba count data s" using blocks by (simp add: write_now_def)
    then show ?thesis using write_run_spec [OF wr h(3) n, of base limit] h(2) by auto
  next
    case bad
    moreover have "write_now hw lba count data s = Some (False, s\<lparr>dev := dev s, block_run := block_run s\<rparr>)" using bad by simp
    ultimately show ?thesis using h(2,3) by blast
  qed
qed

lemma ata_write_many_spec:
  assumes inv: "disk_inv hw whole base d s" and n: "unat lba + unat count \<le> 2 ^ 32 - 128" "length data = unat count" "count \<noteq> 0"
  shows "\<exists>ok t. ata_write_many hw lba count data s = Some (ok, t) \<and> config t = config (s\<lparr>unflushed := True\<rparr>) \<and>
    (ok \<longrightarrow> disk_inv hw whole base (write_at (unat lba) data d) t) \<and>
    (reliable hw base limit \<longrightarrow> unat lba + unat count \<le> limit \<longrightarrow> attached s \<longrightarrow> ok)"
proof -
  define s0 where "s0 = s\<lparr>unflushed := True\<rparr>"
  define d' where "d' = write_at (unat lba) data d"
  have w: "working hw whole base d s" "cache_inv d s" "share_inv s" "has_cache s \<or> hooked s = {}" using inv by (auto simp: disk_inv_def)
  have sl: "cache_inv d s0 = cache_inv d s" "hooked s0 = hooked s" by (rule same_lines; simp add: s0_def mem.truncate_def)+
  have sh: "share_inv s0 = share_inv s" by (rule share_fields_same(8)) (simp add: s0_def share_fields_def)
  show ?thesis
  proof (cases "\<not> has_disk s \<and> disk_base s = 0 \<and> \<not> bios s")
    case True
    then have "ata_write_many hw lba count data s = Some (False, s0)" by (simp add: ata_write_many_def Let_def s0_def)
    moreover have "\<not> attached s" using True by (simp add: attached_def)
    ultimately show ?thesis by (auto simp: s0_def)
  next
    case False
    have "\<exists>s1. (if has_cache s0 then cache_written lba count data s0 else Some s0) = Some s1 \<and> cache_inv d' s1 \<and> same_but_lines s0 s1"
    proof (cases "has_cache s0")
      case True
      then show ?thesis using cache_written_spec [OF n(1,2), of d s0] sl w(2) by (simp add: d'_def)
    next
      case c: False
      then have "hooked s0 = {}" using w(4) sl by (simp add: s0_def)
      then have "cache_inv d' s0" using w(2) sl(1) by (simp add: cache_inv_def coherent_def)
      then show ?thesis using c by simp
    qed
    then obtain s1 where s1: "(if has_cache s0 then cache_written lba count data s0 else Some s0) = Some s1" "cache_inv d' s1" "same_but_lines s0 s1"
      by blast
    obtain m where m: "s1 = s0\<lparr>line_mem := m\<rparr>" using s1(3) by (auto simp: same_but_lines_def)
    have sh1: "share_inv s1" using sh w(3) share_fields_same(8) [of s1 s0] by (simp add: m share_fields_def)
    obtain s2 where s2: "shared_written lba count s1 = Some s2" "share_inv s2" using shared_written_spec [OF sh1] by blast
    note k = only_keys_same [OF shared_written_only [OF s2(1)]]
    have c2: "config s2 = config s0" using k(3) by (simp add: m config_def)
    have w2: "working hw whole base d s2" using w(1) c2 k(4,5) by (auto simp: working_def config_def m s0_def)
    have a2: "attached s2 = attached s" using c2 by (simp add: attached_def config_def s0_def)
    have eq: "ata_write_many hw lba count data s = write_now hw lba count data s2"
      using False s1(1) s2(1) n(3) by (simp add: ata_write_many_def Let_def s0_def [symmetric] write_now_def) (auto simp: s0_def)
    have n32: "unat lba + unat count \<le> 2 ^ 32" using n(1) by simp
    obtain ok f b where t: "write_now hw lba count data s2 = Some (ok, s2\<lparr>dev := f, block_run := b\<rparr>)" "b \<noteq> 0"
      "ok \<longrightarrow> part base whole f = d'" "reliable hw base limit \<longrightarrow> unat lba + unat count \<le> limit \<longrightarrow> count \<noteq> 0 \<longrightarrow> attached s2 \<longrightarrow> ok"
      using write_now_spec [OF w2 n32 n(2), of limit] unfolding d'_def by blast
    define t' where "t' = s2\<lparr>dev := f, block_run := b\<rparr>"
    have sl2: "cache_inv d' t' = cache_inv d' s2" "hooked t' = hooked s2" by (rule same_lines; simp add: t'_def mem.truncate_def)+
    have "share_inv t'" using s2(2) share_fields_same(8) [of t' s2] by (simp add: t'_def share_fields_def)
    moreover have "has_cache t' \<or> hooked t' = {}"
    proof -
      have "hooked s1 = hooked s0" by (rule same_lines) (simp_all add: m mem.truncate_def)
      then show ?thesis using w(4) sl(2) sl2(2) k(2) c2 by (auto simp: config_def t'_def s0_def)
    qed
    moreover have "working hw whole base d' t'" if ok using w2 t(2,3) that by (auto simp: working_def t'_def)
    moreover have "cache_inv d' t'" using sl2(1) k(1) s1(2) by simp
    ultimately have "ok \<longrightarrow> disk_inv hw whole base d' t'" by (simp add: disk_inv_def)
    moreover have "config t' = config s0" using c2 by (simp add: t'_def config_def)
    ultimately show ?thesis using eq t(1,4) a2 n(3) by (auto simp: t'_def d'_def s0_def)
  qed
qed

end
