(* ===== verification/Storage.thy ===== *)
theory Storage
  imports Disk
begin

text \<open>
  What the memory, the cache and the disk promise together: the cache starts sound, gives its memory
  back when the allocator runs out, evicts the line used longest ago, and the disk read and written
  through it behaves as the sectors alone would.
\<close>

section \<open>The cache as the module starts it\<close>

lemma fresh_lines:
  assumes s: "st_lines s = replicate 8 line0" "st_chains s = replicate 8 0" "st_room s = 8" "c_count s = 0"
  shows "held_lines s = {}" "hooked s = {}" "lent s = {}" "cache_ok s"
proof -
  have d: "bares s ! i = line0" if "i < 8" for i using that by (simp add: bares_def s bare_def line0_def)
  show h: "held_lines s = {}" using d by (auto simp: held_lines_def bares_def s line0_def)
  then show "hooked s = {}" "lent s = {}" by (simp_all add: hooked_def lent_def)
  have "line_place s i = None" if "i < 8" for i using d [OF that] by (simp add: line_place_def line0_def)
  moreover have "table (line_get s) 8 8 (\<lambda>_. None)" by (rule table_empty) (simp_all add: line_get.simps s)
  ultimately have "line_table s (line_place s)" using s(3) by (auto simp: table_def intro!: exI [of _ "[]"])
  then show "cache_ok s" by (simp add: cache_ok_def h s line_lens_def)
qed

lemma module_init_inv:
  assumes "st_lines s = replicate 8 line0" "st_chains s = replicate 8 0" "c_count s = 0" "mem_inv s" "ours s"
    "free_set s \<subseteq> {p. p < 2 ^ 46}"
  shows "cache_inv d (module_init s)"
proof -
  define t where "t = module_init s"
  have t: "st_lines t = replicate 8 line0" "st_chains t = replicate 8 0" "st_room t = 8" "c_count t = 0" "st_at t = None"
    using assms by (simp_all add: t_def module_init_def FIRST_LINES_def)
  have tr: "mem.truncate t = mem.truncate s" by (simp add: t_def module_init_def mem.truncate_def)
  note f = fresh_lines [OF t(1-4)] and m = truncate_same [OF tr]
  have "st_block t = {}" by (simp add: st_block_def t)
  then show ?thesis using assms m f t
    by (simp add: cache_inv_def memory_ok_def st_ok_def bounded_def coherent_def flip: t_def)
qed

lemma empty_share_inv:
  assumes "entries s = []" "by_key s = []" "by_frame s = []" "sh_room s = 0" "sh_used s = 0" "free_head s = 0"
  shows "share_inv s"
  using assms by (auto simp: share_inv_def live_def cores_def table_def link_simps intro!: exI [of _ "[]"])

section \<open>A small machine\<close>

text \<open>
  A disk in memory whose firmware takes at most sixteen sectors at a time, its filesystem at sector
  2048, and a machine that boots from it with a fresh cache.
\<close>

definition ram_disk :: "(nat \<Rightarrow> sector) hardware" where
  "ram_disk = \<lparr>
     driver_read = \<lambda>lba n f. (Some (span f (unat lba) (unat n)), f),
     driver_write = \<lambda>lba n data f. (True, write_at (unat lba) data f),
     driver_flush = \<lambda>f. f,
     int13_read = \<lambda>lba n f. (Some (span f (unat lba) (unat n)), f),
     int13_write = \<lambda>lba n data f. (True, write_at (unat lba) data f),
     read_blocks = \<lambda>lba n f. (if n \<le> 16 then Some (span f (2048 + unat lba) (unat n)) else None, f),
     write_blocks = \<lambda>lba n data f. if n \<le> 16 then (True, write_at (2048 + unat lba) data f) else (False, f),
     flush_blocks = \<lambda>f. f\<rparr>"

definition blank_disk :: "nat \<Rightarrow> sector" where
  "blank_disk = (\<lambda>_. replicate 512 0)"

definition disk_machine :: "(nat \<Rightarrow> sector) disk" where
  "disk_machine = cache_module_init (disk.make
     [\<lparr>r_at = 0x100000, r_count = 16\<rparr>, \<lparr>r_at = 0x200000, r_count = 4\<rparr>] True [] 0 0 (\<lambda>_. 0) 4096 0
     [] [] [] None None None 0 0 0
     0 (replicate 8 line0) (replicate 8 0) None 0 0 0 False False (\<lambda>_. [])
     False 0 False 0 False True BLOCK_RUN_MAX False blank_disk)"

lemma ram_disk_honest: "honest ram_disk (\<lambda>f. f) 2048"
  by (auto simp: honest_def reads_truly_def writes_truly_def ram_disk_def part_def add.assoc write_at_def fun_eq_iff)

lemma ram_disk_reliable: "reliable ram_disk 2048 limit"
  by (auto simp: reliable_def ram_disk_def BLOCK_RUN_MIN_def word_nat)

lemma disk_machine_inv: "disk_inv ram_disk (\<lambda>f. f) 2048 blank_disk disk_machine" "attached disk_machine"
proof -
  define s where "s = disk.make
     [\<lparr>r_at = 0x100000, r_count = 16\<rparr>, \<lparr>r_at = 0x200000, r_count = 4\<rparr>] True [] 0 0 (\<lambda>_. 0) 4096 0
     [] [] [] None None None 0 0 0
     0 (replicate 8 line0) (replicate 8 0) None 0 0 0 False False (\<lambda>_. [])
     False 0 False 0 False True BLOCK_RUN_MAX False blank_disk"
  have m: "disk_machine = (module_init s)\<lparr>has_cache := True\<rparr>"
    by (simp add: disk_machine_def s_def cache_module_init_def disk_cache_register_def)
  have f: "mem_inv s" "free_set s = block 0x100000 16 \<union> block 0x200000 4"
    by (simp_all add: s_def disk.make_def mem_inv_def run_ok_def page_aligned_def run_stop_def before_def
        loose_ok_def loose_list_def loose_set_def free_set_def RUNS_def)
  have "free_set s \<subseteq> {p. p < 2 ^ 46}" by (auto simp: f run_pages_def span_def run_stop_def)
  then have "cache_inv blank_disk (module_init s)"
    using f by (intro module_init_inv) (simp_all add: s_def disk.make_def)
  moreover have "cache_inv blank_disk disk_machine = cache_inv blank_disk (module_init s)"
    by (rule same_lines(8)) (simp_all add: m mem.truncate_def)
  ultimately have "cache_inv blank_disk disk_machine" by simp
  moreover have "share_inv disk_machine"
    by (rule empty_share_inv) (simp_all add: m s_def disk.make_def module_init_def)
  moreover have "working ram_disk (\<lambda>f. f) 2048 blank_disk disk_machine"
    using ram_disk_honest by (simp add: working_def m s_def disk.make_def module_init_def BLOCK_RUN_MAX_def part_def blank_disk_def)
  moreover have "has_cache disk_machine" by (simp add: m s_def disk.make_def module_init_def)
  ultimately show "disk_inv ram_disk (\<lambda>f. f) 2048 blank_disk disk_machine" by (simp add: disk_inv_def)
  show "attached disk_machine" by (simp add: m s_def disk.make_def module_init_def attached_def)
qed

section \<open>Properties\<close>

text \<open>
  C6. What is written to the disk is what is read from it afterwards, whatever way the kernel has to it
  (a driver module, the BIOS, the firmware) and whatever the cache held: on a disk that answers, once the
  kernel owns its memory, a write of sectors within it succeeds, a read of any sectors after it succeeds
  and gives the new contents where they were written and the old ones elsewhere, and the cache, the shared
  pages and the memory stay sound. The firmware way is covered as the code has it, though a kernel that
  owns its memory has given that way up.
\<close>

theorem ata_write_read:
  assumes "disk_inv hw whole base d s" "reliable hw base limit" "attached s" "limit \<le> 2 ^ 32 - 128"
    "count \<noteq> 0" "length data = unat count" "unat lba + unat count \<le> limit"
    "n \<noteq> 0" "unat a + unat n \<le> limit"
  shows "\<exists>t xs u. ata_write_many hw lba count data s = Some (True, t) \<and> ata_read_many fw hw a n t = Some (True, xs, u) \<and>
    xs = span (write_at (unat lba) data d) (unat a) (unat n) \<and> disk_inv hw whole base (write_at (unat lba) data d) u"
proof -
  have "unat lba + unat count \<le> 2 ^ 32 - 128" using assms(4,7) by simp
  from ata_write_many_spec [OF assms(1) this assms(6,5), of limit] assms(2,3,7) obtain t where
    t: "ata_write_many hw lba count data s = Some (True, t)" "config t = config (s\<lparr>unflushed := True\<rparr>)"
      "disk_inv hw whole base (write_at (unat lba) data d) t" by auto
  have "attached t" using t(2) assms(3) by (simp add: attached_def config_def)
  moreover have "unat a + unat n \<le> 2 ^ 32" using assms(4,9) by simp
  ultimately show ?thesis
    using ata_read_many_spec [OF t(3) _ assms(8), of a fw limit] assms(2,9) t(1) by fastforce
qed

theorem ata_write_read_witness:
  "\<exists>t xs u. ata_write_many ram_disk 5 1 [[1, 2, 3]] disk_machine = Some (True, t) \<and>
     ata_read_many no_firmware ram_disk 4 2 t = Some (True, xs, u) \<and> xs = [replicate 512 0, [1, 2, 3]]"
proof -
  have "span (write_at 5 [[1, 2, 3]] blank_disk) 4 2 = [replicate 512 0, [1, 2, 3]]"
    by (simp add: write_at_def blank_disk_def upt_rec)
  then show ?thesis
    using ata_write_read [OF disk_machine_inv(1) ram_disk_reliable disk_machine_inv(2), of 1000 1 "[[1, 2, 3]]" 5 2 4 no_firmware]
    by auto
qed

text \<open>
  C35. Once the kernel owns its memory, a read of the disk always returns and changes nothing on it; what
  it says it read is what the disk holds, through the cache or past it.
\<close>

theorem ata_read_true:
  assumes "disk_inv hw whole base d s" "unat lba + unat count \<le> 2 ^ 32" "count \<noteq> 0"
  shows "\<exists>ok xs t. ata_read_many fw hw lba count s = Some (ok, xs, t) \<and> disk_inv hw whole base d t \<and>
    (ok \<longrightarrow> xs = span d (unat lba) (unat count))"
  using ata_read_many_spec [OF assms, of fw] by blast

theorem ata_read_true_witness:
  "\<exists>ok xs t. ata_read_many no_firmware ram_disk 7 3 disk_machine = Some (ok, xs, t) \<and> (ok \<longrightarrow> xs = replicate 3 (replicate 512 0))"
proof -
  have "span blank_disk 7 3 = replicate 3 (replicate 512 0)" by (simp add: blank_disk_def map_replicate_const)
  then show ?thesis using ata_read_true [OF disk_machine_inv(1), of 7 3 no_firmware] by auto
qed

text \<open>
  The cache gives memory back on request: as much as it is asked for or all it has, in whole lines,
  answering exactly what it gave; all of it comes from the lines' own memory, and what the lines left
  hold is as it was.
\<close>

lemma cache_gives_back:
  assumes "cache_inv d s" "\<not> c_busy s" "unat bytes + 65535 < 2 ^ 64"
  shows "\<exists>given t. cache_shrink fw bytes s = Some (given, t) \<and> memory_ok t \<and> coherent d t \<and>
    unat given = 65536 * (unat (c_count s) - unat (c_count t)) \<and> unat given \<ge> min (unat bytes) (65536 * unat (c_count s)) \<and>
    held_lines t \<subseteq> held_lines s \<and> free_set t \<subseteq> free_set s \<union> lent s"
proof -
  have m: "memory_ok s" "coherent d s" using assms(1) by (simp_all add: cache_inv_def)
  obtain given t where t: "cache_shrink fw bytes s = Some (given, t)" "shrunk s t"
    "unat given = 65536 * (unat (c_count s) - unat (c_count t))" "unat given \<ge> min (unat bytes) (65536 * unat (c_count s))"
    using cache_shrink_spec [OF m(1), of fw bytes] assms(2,3) by blast
  have sh: "memory_ok t" "held_lines t \<subseteq> held_lines s" "\<forall>j \<in> held_lines t. bares t ! j = bares s ! j" "free_set t \<subseteq> free_set s \<union> lent s"
    "line_mem t = line_mem s" using t(2) by (simp_all add: shrunk_def kept_view_def)
  then have "coherent d t" using m(2) by (intro coherent_sub [OF m(2)]) (auto simp: hooked_def)
  then show ?thesis using t sh by blast
qed

text \<open>
  C26. Once the kernel owns its memory, with the cache lending its own, an allocation always returns and the memory it hands out is
  nobody's: pages that were free or the cache's before, and are neither after; the memory in use is
  not written to, and the cache stays sound.
\<close>

theorem mem_pages_with_cache:
  assumes "memory_ok s" "count \<noteq> 0"
  shows "\<exists>at t. mem_pages fw (Some (cache_shrink fw)) count s = Some (at, t) \<and> memory_ok t \<and>
    (\<forall>p. unat p \<notin> free_set s \<union> lent s \<longrightarrow> words t p = words s p) \<and>
    (at \<noteq> 0 \<longrightarrow> block at count \<subseteq> free_set s \<union> lent s \<and> block at count \<inter> (free_set t \<union> lent t) = {})"
  using lender.mem_pages_got [of s count fw fw] assms by (auto simp: lender.got_def)

theorem mem_pages_with_cache_witness:
  "\<exists>at t. mem_pages no_firmware (Some (cache_shrink no_firmware)) 3 disk_machine = Some (at, t) \<and> memory_ok t"
proof -
  have "memory_ok disk_machine" using disk_machine_inv(1) by (simp add: disk_inv_def cache_inv_def)
  then show ?thesis using mem_pages_with_cache [of disk_machine 3 no_firmware] by auto
qed

text \<open>The line the cache evicts is a line it holds, and none of the others was used longer ago.\<close>

theorem oldest_is_least_used:
  assumes "line_lens s" "oldest s = Some i"
  shows "i \<in> held_lines s \<and> (\<forall>j \<in> held_lines s. l_used (bares s ! i) \<le> l_used (bares s ! j))"
  using oldest_spec(2) [OF assms] .

end
