(* ===== verification/FsBase.thy ===== *)
theory FsBase
  imports Storage
begin

text \<open>
  The ground of the filesystem, \<^verbatim>\<open>src/src/kernel/fs.c\<close>: the header, the table's entries and the index's
  records as they lie on the disk, names and their hashes, and the few sectors kept at hand, through
  which every entry and record is read and written. C strings are the bytes before the NUL; a result is
  an error or a value, and \<open>None\<close> a call that never returns.
\<close>

section \<open>Results\<close>

datatype fs_error = EIO | ENOENT | ENOSPC | EINVAL | EEXIST | ENOTEMPTY | ELOOP

type_synonym ('r, 's) run = "('r \<times> 's) option"

text \<open>One call after another, and one call after another that did not fail.\<close>

definition after :: "('a, 's) run \<Rightarrow> ('a \<Rightarrow> 's \<Rightarrow> ('b, 's) run) \<Rightarrow> ('b, 's) run" where
  "after m f = m \<bind> (\<lambda>(a, s). f a s)"

definition attempt :: "('e + 'a, 's) run \<Rightarrow> ('a \<Rightarrow> 's \<Rightarrow> ('e + 'b, 's) run) \<Rightarrow> ('e + 'b, 's) run" where
  "attempt m f = after m (\<lambda>r s. case r of Inl e \<Rightarrow> Some (Inl e, s) | Inr a \<Rightarrow> f a s)"

lemma after_Some [simp]: "after (Some (a, s)) f = f a s" "after None f = None"
  by (simp_all add: after_def)

lemma attempt_Some [simp]:
  "attempt (Some (Inl e, s)) f = Some (Inl e, s)" "attempt (Some (Inr a, s)) f = f a s" "attempt None f = None"
  by (simp_all add: attempt_def)

section \<open>What is on the disk\<close>

definition SECTOR_SIZE :: nat where "SECTOR_SIZE = 512"
definition FS_LBA :: u32 where "FS_LBA = 1"
definition FS_MAGIC :: u32 where "FS_MAGIC = 0x39465842"
definition FS_NAME_LEN :: nat where "FS_NAME_LEN = 120"
definition FS_LINK :: u32 where "FS_LINK = 0x80000000"
definition FS_MODE :: u32 where "FS_MODE = 0x80000000"
definition DATA_LBA :: u32 where "DATA_LBA = 2"
definition PER_SECTOR :: nat where "PER_SECTOR = 4"
definition RECORDS :: nat where "RECORDS = 42"
definition GONE :: u32 where "GONE = 0xFFFFFFFF"

record header =
  h_magic :: u32
  h_disk_sectors :: u32
  h_table_lba :: u32
  h_table_size :: u32
  h_table_next :: u32
  h_free_head :: u32
  h_index_lba :: u32
  h_index_sectors :: u32
  h_index_taken :: u32
  h_data_end :: u32

record record' =
  r_hash :: u32
  r_parent :: u32
  r_entry :: u32

record fs_file =
  f_name :: "u8 list"
  f_start :: u32
  f_size :: u32

text \<open>What \<open>find\<close> gives: \<open>struct slot\<close>.\<close>

record slot =
  s_index :: u32
  s_start :: u32
  s_size :: u32

text \<open>Numbers of four bytes at an offset of a sector.\<close>

definition get32 :: "nat \<Rightarrow> sector \<Rightarrow> u32" where
  "get32 at xs = of_nat (le_val (take 4 (drop at xs)))"

definition put32 :: "u32 \<Rightarrow> u8 list" where
  "put32 v = le_bytes 4 (unat v)"

definition splice :: "nat \<Rightarrow> 'b list \<Rightarrow> 'b list \<Rightarrow> 'b list" where
  "splice at xs into = take at into @ xs @ drop (at + length xs) into"

definition header_bytes :: "header \<Rightarrow> u8 list" where
  "header_bytes h = concat (map put32 [h_magic h, h_disk_sectors h, h_table_lba h, h_table_size h, h_table_next h, h_free_head h,
     h_index_lba h, h_index_sectors h, h_index_taken h, h_data_end h])"

definition header_of :: "sector \<Rightarrow> header" where
  "header_of xs = \<lparr>h_magic = get32 0 xs, h_disk_sectors = get32 4 xs, h_table_lba = get32 8 xs, h_table_size = get32 12 xs,
     h_table_next = get32 16 xs, h_free_head = get32 20 xs, h_index_lba = get32 24 xs, h_index_sectors = get32 28 xs,
     h_index_taken = get32 32 xs, h_data_end = get32 36 xs\<rparr>"

text \<open>A name in its 120 bytes, the rest of them zero.\<close>

definition cstr_of :: "u8 list \<Rightarrow> u8 list" where
  "cstr_of xs = takeWhile (\<lambda>c. c \<noteq> 0) xs"

definition name_bytes :: "u8 list \<Rightarrow> u8 list" where
  "name_bytes n = n @ replicate (FS_NAME_LEN - length n) 0"

definition entry_at :: "nat \<Rightarrow> sector \<Rightarrow> fs_file" where
  "entry_at i xs = \<lparr>f_name = cstr_of (take FS_NAME_LEN (drop (128 * i) xs)), f_start = get32 (128 * i + 120) xs,
     f_size = get32 (128 * i + 124) xs\<rparr>"

definition record_at :: "nat \<Rightarrow> sector \<Rightarrow> record'" where
  "record_at i xs = \<lparr>r_hash = get32 (12 * i) xs, r_parent = get32 (12 * i + 4) xs, r_entry = get32 (12 * i + 8) xs\<rparr>"

definition record_bytes :: "record' \<Rightarrow> u8 list" where
  "record_bytes r = put32 (r_hash r) @ put32 (r_parent r) @ put32 (r_entry r)"

definition sectors_for :: "u32 \<Rightarrow> u32" where
  "sectors_for n = (n + 512 - 1) div 512"

definition table_sectors :: "u32 \<Rightarrow> u32" where
  "table_sectors n = sectors_for (n * 128)"

section \<open>Names\<close>

definition slash :: u8 where "slash = 47"

definition lower :: "u8 \<Rightarrow> u8" where
  "lower c = (if c \<ge> 65 \<and> c \<le> 90 then c + (97 - 65) else c)"

definition hash_of :: "u8 list \<Rightarrow> u32" where
  "hash_of n = (let h = foldl (\<lambda>h c. (h XOR ucast (lower c)) * 0x01000193) 0x811C9DC5 n in if h \<noteq> 0 then h else 1)"

text \<open>The folder a name is in: everything up to the slash before its last part.\<close>

definition cut_last :: "u8 list \<Rightarrow> u8 list" where
  "cut_last n = rev (dropWhile (\<lambda>c. c \<noteq> slash) (rev n))"

definition parent_of :: "u8 list \<Rightarrow> u8 list" where
  "parent_of n = cut_last (if n \<noteq> [] \<and> last n = slash then butlast n else n)"

definition parent_hash :: "u8 list \<Rightarrow> u32" where
  "parent_hash n = hash_of (parent_of n)"

text \<open>The bytes a C string is compared by: those before the NUL and the NUL.\<close>

fun name_cmp :: "u8 list \<Rightarrow> u8 list \<Rightarrow> int" where
  "name_cmp [] [] = 0"
| "name_cmp [] (b # bs) = - uint b"
| "name_cmp (a # as) [] = uint a"
| "name_cmp (a # as) (b # bs) = (if a = b then name_cmp as bs else uint a - uint b)"

fun starts_with :: "u8 list \<Rightarrow> u8 list \<Rightarrow> bool" where
  "starts_with n [] = True"
| "starts_with [] (p # ps) = False"
| "starts_with (c # n) (p # ps) = (c = p \<and> starts_with n ps)"

section \<open>State\<close>

text \<open>
  \<open>recent\<close> holds the sectors at hand, the kernel's own four or the eight of the page at \<open>recent_at\<close>;
  \<open>cur\<close> is the one \<open>sector\<close> points at. The kernel's own four are kept in \<open>small\<close> while the page is used.
\<close>

record 'f fs = "'f disk" +
  head :: header
  small :: "sector list"
  recent :: "sector list"
  recent_at :: "u64 option"
  slots :: u32
  recent_lba :: "u32 list"
  recent_used :: "u32 list"
  recent_clock :: u32
  cur :: nat
  held_table :: bool
  cwd :: "u8 list"

text \<open>The machine the filesystem runs on.\<close>

record ('f, 's) machine =
  m_fw :: "'s firmware"
  m_hw :: "'f hardware"

type_synonym ('f, 'a) io = "('f, ('f, 'a) fs_scheme) machine"

definition RECENT :: u32 where "RECENT = 4"
definition RECENT_MAX :: u32 where "RECENT_MAX = 8"

definition sector :: "('f, 'a) fs_scheme \<Rightarrow> sector" where
  "sector s = recent s ! cur s"

definition set_sector :: "sector \<Rightarrow> ('f, 'a) fs_scheme \<Rightarrow> ('f, 'a) fs_scheme" where
  "set_sector xs s = s\<lparr>recent := (recent s)[cur s := xs]\<rparr>"

text \<open>Memory, with the cache giving way when it is there.\<close>

definition alloc :: "('f, 'a) io \<Rightarrow> u64 \<Rightarrow> ('f, 'a) fs_scheme \<Rightarrow> (u64 option, ('f, 'a) fs_scheme) run" where
  "alloc io bytes s = mem_alloc (m_fw io) (if has_cache s then Some (cache_shrink (m_fw io)) else None) bytes s"

definition release :: "('f, 'a) io \<Rightarrow> u64 option \<Rightarrow> ('f, 'a) fs_scheme \<Rightarrow> ('f, 'a) fs_scheme" where
  "release io p s = mem_free (m_fw io) p s"

section \<open>The sectors at hand\<close>

fun oldest_slot :: "u32 list \<Rightarrow> nat list \<Rightarrow> nat \<Rightarrow> nat" where
  "oldest_slot used [] old = old"
| "oldest_slot used (i # is) old = oldest_slot used is (if used ! i < used ! old then i else old)"

definition take_slot :: "u32 \<Rightarrow> ('f, 'a) fs_scheme \<Rightarrow> nat \<times> ('f, 'a) fs_scheme" where
  "take_slot lba s =
     (let old = oldest_slot (recent_used s) [1..<unat (slots s)] 0;
          c = recent_clock s + 1
      in (old, s\<lparr>recent_lba := (recent_lba s)[old := lba], recent_used := (recent_used s)[old := c], recent_clock := c, cur := old\<rparr>))"

definition scratch :: "('f, 'a) fs_scheme \<Rightarrow> ('f, 'a) fs_scheme" where
  "scratch s = snd (take_slot 0 s)"

definition held_slot :: "u32 \<Rightarrow> ('f, 'a) fs_scheme \<Rightarrow> nat option" where
  "held_slot lba s = find (\<lambda>i. recent_lba s ! i = lba \<and> lba \<noteq> 0) [0..<unat (slots s)]"

definition load_sector :: "('f, 'a) io \<Rightarrow> u32 \<Rightarrow> ('f, 'a) fs_scheme \<Rightarrow> (fs_error + unit, ('f, 'a) fs_scheme) run" where
  "load_sector io lba s =
     (case held_slot lba s of
        Some i \<Rightarrow>
          (let c = recent_clock s + 1
           in Some (Inr (), s\<lparr>recent_used := (recent_used s)[i := c], recent_clock := c, cur := i\<rparr>))
      | None \<Rightarrow>
          (let (slot, s1) = take_slot 0 s
           in ata_read (m_fw io) (m_hw io) lba s1 \<bind> (\<lambda>(ok, xs, s2).
                let s3 = (if xs = [] then s2 else set_sector (hd xs) s2)
                in Some (if \<not> ok then (Inl EIO, s3) else (Inr (), s3\<lparr>recent_lba := (recent_lba s3)[slot := lba]\<rparr>)))))"

text \<open>What is written: the sector in use, or sectors from somewhere else.\<close>

datatype data = Sector | Buffer "sector list"

definition put :: "('f, 'a) io \<Rightarrow> u32 \<Rightarrow> u32 \<Rightarrow> data \<Rightarrow> ('f, 'a) fs_scheme \<Rightarrow> (bool, ('f, 'a) fs_scheme) run" where
  "put io lba count data s =
     (let keep = (\<lambda>i l. if i < unat (slots s) \<and> l \<ge> lba \<and> l < lba + count \<and> \<not> (data = Sector \<and> i = cur s) then 0 else l);
          s1 = s\<lparr>recent_lba := map (\<lambda>(i, l). keep i l) (List.enumerate 0 (recent_lba s))\<rparr>
      in ata_write_many (m_hw io) lba count (case data of Sector \<Rightarrow> [sector s] | Buffer xs \<Rightarrow> xs) s1)"

definition forget :: "('f, 'a) fs_scheme \<Rightarrow> ('f, 'a) fs_scheme" where
  "forget s = s\<lparr>recent_lba := map (\<lambda>(i, l). if i < unat (slots s) \<and> i = cur s then 0 else l) (List.enumerate 0 (recent_lba s))\<rparr>"

section \<open>The header and the entries\<close>

definition load_table :: "('f, 'a) io \<Rightarrow> ('f, 'a) fs_scheme \<Rightarrow> (fs_error + unit, ('f, 'a) fs_scheme) run" where
  "load_table io s =
     (if held_table s then Some (Inr (), s)
      else attempt (load_sector io FS_LBA s) (\<lambda>_ s1.
        let s2 = s1\<lparr>head := header_of (sector s1)\<rparr>
        in if h_magic (head s2) \<noteq> FS_MAGIC then Some (Inl EIO, s2)
           else Some (Inr (), s2\<lparr>held_table := True\<rparr>)))"

definition save_header :: "('f, 'a) io \<Rightarrow> ('f, 'a) fs_scheme \<Rightarrow> (fs_error + unit, ('f, 'a) fs_scheme) run" where
  "save_header io s =
     attempt (load_sector io FS_LBA s) (\<lambda>_ s1.
       let s2 = set_sector (splice 0 (header_bytes (head s1)) (replicate SECTOR_SIZE 0)) s1
       in after (put io FS_LBA 1 Sector s2) (\<lambda>ok s3.
            if \<not> ok then Some (Inl EIO, (forget s3)\<lparr>held_table := False\<rparr>)
            else Some (Inr (), s3)))"

definition read_entry :: "('f, 'a) io \<Rightarrow> nat \<Rightarrow> ('f, 'a) fs_scheme \<Rightarrow> (fs_error + fs_file, ('f, 'a) fs_scheme) run" where
  "read_entry io index s =
     (if index \<ge> unat (h_table_next (head s)) then Some (Inl EIO, s)
      else attempt (load_sector io (h_table_lba (head s) + of_nat (index div PER_SECTOR)) s) (\<lambda>_ s1.
        Some (Inr (entry_at (index mod PER_SECTOR) (sector s1)), s1)))"

text \<open>\<open>None\<close> for \<open>NULL\<close>: the name stays as it is.\<close>

definition write_entry ::
  "('f, 'a) io \<Rightarrow> nat \<Rightarrow> u8 list option \<Rightarrow> u32 \<Rightarrow> u32 \<Rightarrow> ('f, 'a) fs_scheme \<Rightarrow> (fs_error + unit, ('f, 'a) fs_scheme) run" where
  "write_entry io index name start size' s =
     (let lba = h_table_lba (head s) + of_nat (index div PER_SECTOR); at = 128 * (index mod PER_SECTOR)
      in attempt (load_sector io lba s) (\<lambda>_ s1.
           let xs = (case name of None \<Rightarrow> sector s1 | Some n \<Rightarrow> splice at (name_bytes n) (sector s1));
               s2 = set_sector (splice (at + 120) (put32 start @ put32 size') xs) s1
           in after (put io lba 1 Sector s2) (\<lambda>ok s3.
                if \<not> ok then Some (Inl EIO, forget s3) else Some (Inr (), s3))))"

end
