(* ===== verification/FsIndex.thy ===== *)
theory FsIndex
  imports FsBase
begin

text \<open>
  The index and the room on the disk, \<^verbatim>\<open>src/src/kernel/fs.c\<close>: searching the index for a name, placing and
  removing its records, making it again at twice the size; a run of free sectors, a free entry of the
  table and the table's growth. Offsets into the index and the table are natural numbers: both are far
  smaller than the four billion records and entries their counters could reach.
\<close>

definition CHUNK :: nat where "CHUNK = 64"
definition TABLE_FIRST :: u32 where "TABLE_FIRST = 64"
definition TABLE_STEP :: u32 where "TABLE_STEP = 256"
definition INDEX_FIRST :: u32 where "INDEX_FIRST = 4"

section \<open>Searching\<close>

fun probe_from ::
  "('f, 'a) io \<Rightarrow> u32 \<Rightarrow> (u32 \<Rightarrow> 'c \<Rightarrow> ('f, 'a) fs_scheme \<Rightarrow> (bool \<times> 'c, ('f, 'a) fs_scheme) run) \<Rightarrow> nat list \<Rightarrow> 'c \<Rightarrow>
     ('f, 'a) fs_scheme \<Rightarrow> (fs_error + 'c, ('f, 'a) fs_scheme) run" where
  "probe_from io hash visit [] ctx s = Some (Inr ctx, s)"
| "probe_from io hash visit (i # is) ctx s =
     (let lba = h_index_lba (head s) + (hash + of_nat i) mod h_index_sectors (head s)
      in attempt (load_sector io lba s) (\<lambda>_ s1.
           after (visit lba ctx s1) (\<lambda>(stop, ctx1) s2.
             if stop then Some (Inr ctx1, s2) else probe_from io hash visit is ctx1 s2)))"

definition probe ::
  "('f, 'a) io \<Rightarrow> u32 \<Rightarrow> (u32 \<Rightarrow> 'c \<Rightarrow> ('f, 'a) fs_scheme \<Rightarrow> (bool \<times> 'c, ('f, 'a) fs_scheme) run) \<Rightarrow> 'c \<Rightarrow>
     ('f, 'a) fs_scheme \<Rightarrow> (fs_error + 'c, ('f, 'a) fs_scheme) run" where
  "probe io hash visit ctx s = probe_from io hash visit [0..<unat (h_index_sectors (head s))] ctx s"

definition records_of :: "sector \<Rightarrow> record' list" where
  "records_of xs = map (\<lambda>i. record_at i xs) [0..<RECORDS]"

text \<open>The entries whose hash matched, and whether a record never used was met.\<close>

fun gather_records :: "u32 \<Rightarrow> record' list \<Rightarrow> u32 list \<Rightarrow> u32 list \<times> bool" where
  "gather_records hash [] found = (found, False)"
| "gather_records hash (r # rs) found =
     (if r_entry r = 0 then (found, True)
      else gather_records hash rs
        (if r_entry r \<noteq> GONE \<and> r_hash r = hash \<and> length found < RECORDS then found @ [r_entry r - 1] else found))"

definition gather ::
  "u32 \<Rightarrow> u32 \<Rightarrow> u32 list \<times> bool \<Rightarrow> ('f, 'a) fs_scheme \<Rightarrow> (bool \<times> (u32 list \<times> bool), ('f, 'a) fs_scheme) run" where
  "gather hash lba ctx s =
     (let (found, ended) = gather_records hash (records_of (sector s)) (fst ctx);
          ended = (snd ctx \<or> ended)
      in Some ((ended \<or> found \<noteq> [], (found, ended)), s))"

text \<open>The first of the entries that has the name.\<close>

fun named :: "('f, 'a) io \<Rightarrow> u8 list \<Rightarrow> u32 list \<Rightarrow> ('f, 'a) fs_scheme \<Rightarrow> (slot option, ('f, 'a) fs_scheme) run" where
  "named io name [] s = Some (None, s)"
| "named io name (e # es) s =
     after (read_entry io (unat e) s) (\<lambda>r s1.
       case r of
         Inl _ \<Rightarrow> named io name es s1
       | Inr f \<Rightarrow>
           if name_cmp (f_name f) name = 0 then Some (Some \<lparr>s_index = e, s_start = f_start f, s_size = f_size f\<rparr>, s1)
           else named io name es s1)"

text \<open>The search record by record.\<close>

fun find_slowly :: "('f, 'a) io \<Rightarrow> u8 list \<Rightarrow> nat list \<Rightarrow> ('f, 'a) fs_scheme \<Rightarrow> (slot option, ('f, 'a) fs_scheme) run" where
  "find_slowly io name [] s = Some (None, s)"
| "find_slowly io name (i # is) s =
     (let at = (unat (hash_of name) + i div RECORDS) mod unat (h_index_sectors (head s))
      in after (load_sector io (h_index_lba (head s) + of_nat at) s) (\<lambda>r s1.
           case r of
             Inl _ \<Rightarrow> Some (None, s1)
           | Inr _ \<Rightarrow>
               let rec = record_at (i mod RECORDS) (sector s1)
               in if r_entry rec = 0 then Some (None, s1)
                  else if r_entry rec \<noteq> GONE \<and> r_hash rec = hash_of name then
                    after (named io name [r_entry rec - 1] s1) (\<lambda>f s2.
                      if f \<noteq> None then Some (f, s2) else find_slowly io name is s2)
                  else find_slowly io name is s1))"

definition fs_find :: "('f, 'a) io \<Rightarrow> u8 list \<Rightarrow> ('f, 'a) fs_scheme \<Rightarrow> (slot option, ('f, 'a) fs_scheme) run" where
  "fs_find io name s =
     (if name = [] then Some (None, s)
      else after (load_table io s) (\<lambda>r s1.
        case r of
          Inl _ \<Rightarrow> Some (None, s1)
        | Inr _ \<Rightarrow>
            after (probe io (hash_of name) (gather (hash_of name)) ([], False) s1) (\<lambda>r s2.
              case r of
                Inl _ \<Rightarrow> Some (None, s2)
              | Inr (found, ended) \<Rightarrow>
                  after (named io name found s2) (\<lambda>f s3.
                    if f \<noteq> None \<or> ended \<or> found = [] then Some (f, s3)
                    else find_slowly io name [0..<unat (h_index_sectors (head s3)) * RECORDS] s3))))"

section \<open>Room on the disk\<close>

text \<open>The starts of the chunks of \<open>n\<close> sectors read \<open>CHUNK\<close> at a time.\<close>

definition chunks :: "nat \<Rightarrow> nat list" where
  "chunks n = map (\<lambda>j. CHUNK * j) [0..<(n + CHUNK - 1) div CHUNK]"

text \<open>The entries of the table that lie in the sectors \<open>xs\<close>, the first of them the table's sector \<open>at\<close>.\<close>

definition chunk_entries :: "nat \<Rightarrow> nat \<Rightarrow> sector list \<Rightarrow> (nat \<times> fs_file) list" where
  "chunk_entries next' at xs =
     map (\<lambda>i. (at * PER_SECTOR + i, entry_at (i mod PER_SECTOR) (xs ! (i div PER_SECTOR))))
       (filter (\<lambda>i. at * PER_SECTOR + i < next') [0..<length xs * PER_SECTOR])"

type_synonym extent = "u32 \<times> u32"

definition file_runs :: "slot option \<Rightarrow> (nat \<times> fs_file) list \<Rightarrow> extent list" where
  "file_runs replacing es =
     map (\<lambda>(i, f). (f_start f, f_start f + sectors_for (f_size f AND NOT FS_LINK)))
       (filter (\<lambda>(i, f). f_name f \<noteq> [] \<and> f_size f AND NOT FS_LINK > 0 \<and>
          (case replacing of None \<Rightarrow> True | Some r \<Rightarrow> unat (s_index r) \<noteq> i)) es)"

text \<open>Where everything is, read from the table; \<open>[]\<close> when the disk failed.\<close>

fun read_runs ::
  "('f, 'a) io \<Rightarrow> slot option \<Rightarrow> nat list \<Rightarrow> extent list \<Rightarrow> ('f, 'a) fs_scheme \<Rightarrow> (extent list, ('f, 'a) fs_scheme) run" where
  "read_runs io replacing [] exts s = Some (exts, s)"
| "read_runs io replacing (at # ats) exts s =
     (let n = unat (table_sectors (h_table_next (head s))); k = (if n - at < CHUNK then n - at else CHUNK)
      in ata_read_many (m_fw io) (m_hw io) (h_table_lba (head s) + of_nat at) (of_nat k) s \<bind> (\<lambda>(ok, xs, s1).
           if \<not> ok then Some ([], s1)
           else read_runs io replacing ats
             (exts @ file_runs replacing (chunk_entries (unat (h_table_next (head s1))) at xs)) s1))"

text \<open>One turn of the loop that hops past the exts, and the loop.\<close>

fun hop_past :: "u32 \<Rightarrow> extent list \<Rightarrow> u32 \<times> bool \<Rightarrow> u32 \<times> bool" where
  "hop_past count [] sm = sm"
| "hop_past count ((a, b) # rs) (start, moved) =
     hop_past count rs (if a < start + count \<and> start < b then (b, True) else (start, moved))"

partial_function (option) hop :: "u32 \<Rightarrow> extent list \<Rightarrow> u32 \<Rightarrow> u32 option" where
  "hop count exts start =
     (let (start1, moved) = hop_past count exts (start, False)
      in if moved then hop count exts start1 else Some start1)"

definition allocate_gap :: "('f, 'a) io \<Rightarrow> u32 \<Rightarrow> slot option \<Rightarrow> ('f, 'a) fs_scheme \<Rightarrow> (u32, ('f, 'a) fs_scheme) run" where
  "allocate_gap io count replacing s =
     after (alloc io (ucast (h_table_next (head s) + 2) * 8) s) (\<lambda>runs_at s1.
     after (alloc io (of_nat (CHUNK * SECTOR_SIZE)) s1) (\<lambda>chunk_at s2.
       if runs_at = None \<or> chunk_at = None then Some (0, release io chunk_at (release io runs_at s2))
       else
         let h = head s2;
             first = [(h_table_lba h, h_table_lba h + table_sectors (h_table_size h)), (h_index_lba h, h_index_lba h + h_index_sectors h)]
         in after (read_runs io replacing (chunks (unat (table_sectors (h_table_next h)))) first s2) (\<lambda>exts s3.
              let s4 = release io chunk_at s3
              in (if exts = [] then Some DATA_LBA else hop count exts DATA_LBA) \<bind> (\<lambda>start.
                   let s5 = release io runs_at s4
                   in Some (if exts \<noteq> [] \<and> start + count \<le> h_disk_sectors (head s5) then start else 0, s5)))))"

definition allocate :: "('f, 'a) io \<Rightarrow> u32 \<Rightarrow> slot option \<Rightarrow> ('f, 'a) fs_scheme \<Rightarrow> (u32, ('f, 'a) fs_scheme) run" where
  "allocate io count replacing s =
     (let past_end =
        (if h_data_end (head s) + count \<le> h_disk_sectors (head s)
         then (let e = h_data_end (head s) + count in Some (e - count, s\<lparr>head := (head s)\<lparr>h_data_end := e\<rparr>\<rparr>))
         else allocate_gap io count replacing s)
      in case replacing of
           None \<Rightarrow> past_end
         | Some r \<Rightarrow>
             (let have = sectors_for (s_size r AND NOT FS_LINK)
              in if count \<le> have then Some (s_start r, s)
                 else if s_start r + have = h_data_end (head s) \<and> s_start r + count \<le> h_disk_sectors (head s)
                 then Some (s_start r, s\<lparr>head := (head s)\<lparr>h_data_end := s_start r + count\<rparr>\<rparr>)
                 else past_end))"

section \<open>The index made again, and its records\<close>

text \<open>The place of a record in the index being made: the first free one from where its hash says.\<close>

partial_function (option) free_place :: "record' list \<Rightarrow> nat \<Rightarrow> nat option" where
  "free_place rs i = (if r_entry (rs ! i) = 0 then Some i else free_place rs ((i + 1) mod length rs))"

fun index_entries ::
  "('f, 'a) io \<Rightarrow> u32 \<Rightarrow> nat list \<Rightarrow> record' list \<times> u32 \<Rightarrow> ('f, 'a) fs_scheme \<Rightarrow>
     (fs_error + record' list \<times> u32, ('f, 'a) fs_scheme) run" where
  "index_entries io sectors [] rs s = Some (Inr rs, s)"
| "index_entries io sectors (e # es) rs s =
     attempt (read_entry io e s) (\<lambda>f s1.
       if f_name f = [] then index_entries io sectors es rs s1
       else
         let h = hash_of (f_name f)
         in free_place (fst rs) (unat (h mod sectors) * RECORDS) \<bind> (\<lambda>i.
              index_entries io sectors es
                ((fst rs)[i := \<lparr>r_hash = h, r_parent = parent_hash (f_name f), r_entry = of_nat e + 1\<rparr>], snd rs + 1) s1))"

definition record0 :: record' where
  "record0 = \<lparr>r_hash = 0, r_parent = 0, r_entry = 0\<rparr>"

definition index_sector :: "record' list \<Rightarrow> nat \<Rightarrow> sector" where
  "index_sector rs j = concat (map record_bytes (take RECORDS (drop (RECORDS * j) rs))) @ replicate (SECTOR_SIZE - 12 * RECORDS) 0"

definition index_grow :: "('f, 'a) io \<Rightarrow> ('f, 'a) fs_scheme \<Rightarrow> (fs_error + unit, ('f, 'a) fs_scheme) run" where
  "index_grow io s =
     (let sectors = h_index_sectors (head s) * 2
      in after (alloc io (ucast sectors * of_nat SECTOR_SIZE) s) (\<lambda>table s1.
           if table = None then Some (Inl ENOSPC, s1)
           else
             after (index_entries io sectors [0..<unat (h_table_next (head s1))] (replicate (unat sectors * RECORDS) record0, 0) s1) (\<lambda>r s2.
               case r of
                 Inl e \<Rightarrow> Some (Inl e, release io table s2)
               | Inr (rs, n) \<Rightarrow>
                   after (allocate io sectors None s2) (\<lambda>at s3.
                     if at = 0 then Some (Inl ENOSPC, release io table s3)
                     else
                       after (put io at sectors (Buffer (map (index_sector rs) [0..<unat sectors])) s3) (\<lambda>ok s4.
                         if \<not> ok then Some (Inl EIO, release io table s4)
                         else
                           let s5 = release io table s4
                           in save_header io (s5\<lparr>head := (head s5)\<lparr>h_index_lba := at, h_index_sectors := sectors, h_index_taken := n\<rparr>\<rparr>))))))"

text \<open>\<open>place\<close>: the record put in the first place free for it, or with \<open>remove\<close> the entry's record made \<open>GONE\<close>.\<close>

definition place ::
  "('f, 'a) io \<Rightarrow> record' \<Rightarrow> u32 \<Rightarrow> u32 \<Rightarrow> unit \<Rightarrow> ('f, 'a) fs_scheme \<Rightarrow> (bool \<times> unit, ('f, 'a) fs_scheme) run" where
  "place io rec remove lba ctx s =
     (case find (\<lambda>i. let e = r_entry (record_at i (sector s))
                      in if remove \<noteq> 0 then e = remove \<or> e = 0 else e = 0 \<or> e = GONE) [0..<RECORDS] of
        None \<Rightarrow> Some ((False, ()), s)
      | Some i \<Rightarrow>
          (let e = r_entry (record_at i (sector s))
           in if remove \<noteq> 0 \<and> e = 0 then Some ((True, ()), s)
              else
                let s1 = (if remove = 0 \<and> e = 0 then s\<lparr>head := (head s)\<lparr>h_index_taken := h_index_taken (head s) + 1\<rparr>\<rparr> else s);
                    new = (if remove \<noteq> 0 then \<lparr>r_hash = 0, r_parent = 0, r_entry = GONE\<rparr> else rec);
                    s2 = set_sector (splice (12 * i) (record_bytes new) (sector s1)) s1
                in after (put io lba 1 Sector s2) (\<lambda>ok s3. Some ((True, ()), if ok then s3 else forget s3))))"

definition index_add :: "('f, 'a) io \<Rightarrow> u8 list \<Rightarrow> u32 \<Rightarrow> ('f, 'a) fs_scheme \<Rightarrow> (fs_error + unit, ('f, 'a) fs_scheme) run" where
  "index_add io name entry s =
     (if unat ((h_index_taken (head s) + 1) * 2) > unat (h_index_sectors (head s)) * RECORDS then index_grow io s
      else probe io (hash_of name) (place io \<lparr>r_hash = hash_of name, r_parent = parent_hash name, r_entry = entry + 1\<rparr> 0) () s)"

definition index_remove :: "('f, 'a) io \<Rightarrow> u8 list \<Rightarrow> u32 \<Rightarrow> ('f, 'a) fs_scheme \<Rightarrow> (fs_error + unit, ('f, 'a) fs_scheme) run" where
  "index_remove io name entry s =
     probe io (hash_of name) (place io \<lparr>r_hash = hash_of name, r_parent = 0, r_entry = 0\<rparr> (entry + 1)) () s"

section \<open>Entries of the table\<close>

text \<open>The table copied to its new place, chunk by chunk.\<close>

fun copy_table :: "('f, 'a) io \<Rightarrow> u32 \<Rightarrow> nat \<Rightarrow> nat \<Rightarrow> nat list \<Rightarrow> ('f, 'a) fs_scheme \<Rightarrow> (bool, ('f, 'a) fs_scheme) run" where
  "copy_table io at have count [] s = Some (True, s)"
| "copy_table io at have count (i # is) s =
     (let n = (if count - i < CHUNK then count - i else CHUNK);
          old = (if i < have then (if have - i < n then have - i else n) else 0)
      in (if old > 0 then ata_read_many (m_fw io) (m_hw io) (h_table_lba (head s) + of_nat i) (of_nat old) s
          else Some (True, [], s)) \<bind> (\<lambda>(ok, xs, s1).
            if \<not> ok then Some (False, s1)
            else after (put io (at + of_nat i) (of_nat n) (Buffer (xs @ replicate (n - old) (replicate SECTOR_SIZE 0))) s1) (\<lambda>ok s2.
              if \<not> ok then Some (False, s2) else copy_table io at have count is s2)))"

definition new_entry :: "('f, 'a) io \<Rightarrow> ('f, 'a) fs_scheme \<Rightarrow> (u32 option, ('f, 'a) fs_scheme) run" where
  "new_entry io s =
     (let h = head s; bigger = h_table_size h + TABLE_STEP; have = table_sectors (h_table_size h); count = table_sectors bigger
      in if h_free_head h \<noteq> 0 then
           after (read_entry io (unat (h_free_head h - 1)) s) (\<lambda>r s1.
             case r of
               Inl _ \<Rightarrow> Some (None, s1)
             | Inr f \<Rightarrow> Some (Some (h_free_head h - 1), s1\<lparr>head := (head s1)\<lparr>h_free_head := f_start f\<rparr>\<rparr>))
         else if h_table_next h < h_table_size h then
           Some (Some (h_table_next h), s\<lparr>head := h\<lparr>h_table_next := h_table_next h + 1\<rparr>\<rparr>)
         else
           after (allocate io count None s) (\<lambda>at s1.
             if at = 0 then Some (None, s1)
             else after (alloc io (of_nat (CHUNK * SECTOR_SIZE)) s1) (\<lambda>chunk s2.
               if chunk = None then Some (None, s2)
               else after (copy_table io at (unat have) (unat count) (chunks (unat count)) s2) (\<lambda>ok s3.
                 let s4 = release io chunk s3
                 in if \<not> ok then Some (None, s4)
                    else Some (Some (h_table_next (head s4)),
                      s4\<lparr>head := (head s4)\<lparr>h_table_lba := at, h_table_size := bigger, h_table_next := h_table_next (head s4) + 1\<rparr>\<rparr>)))))"

definition drop_entry :: "('f, 'a) io \<Rightarrow> u32 \<Rightarrow> u8 list \<Rightarrow> ('f, 'a) fs_scheme \<Rightarrow> (fs_error + unit, ('f, 'a) fs_scheme) run" where
  "drop_entry io index name s =
     attempt (index_remove io name index s) (\<lambda>_ s1.
     attempt (write_entry io (unat index) (Some []) (h_free_head (head s1)) 0 s1) (\<lambda>_ s2.
       save_header io (s2\<lparr>head := (head s2)\<lparr>h_free_head := index + 1\<rparr>\<rparr>)))"

end
