(* ===== verification/Fs.thy ===== *)
theory Fs
  imports FsIndex
begin

text \<open>
  Paths and the operations of the filesystem, \<^verbatim>\<open>src/src/kernel/fs.c\<close> from \<open>resolve_any\<close> on: a path turned
  into the table's name for it, links followed; files and folders found, listed, written, removed, renamed.
  The static buffers \<open>full\<close> and \<open>walk\<close> are the values handed on.
\<close>

definition FS_LINKS :: nat where "FS_LINKS = 40"
definition FS_LINK_LEN :: nat where "FS_LINK_LEN = 128"
definition WALK_MAX :: nat where "WALK_MAX = FS_NAME_LEN + FS_LINK_LEN"
definition LIST_RUN :: nat where "LIST_RUN = 64"
definition MOVE_RUN :: nat where "MOVE_RUN = 128"

definition is_link :: "slot \<Rightarrow> bool" where
  "is_link f \<longleftrightarrow> s_size f AND FS_LINK \<noteq> 0"

definition bytes_of :: "slot \<Rightarrow> u32" where
  "bytes_of f = s_size f AND NOT FS_LINK"

section \<open>Paths\<close>

lemma after_mono [partial_function_mono]:
  assumes "mono_option B" "\<And>y z. mono_option (\<lambda>f. C y z f)"
  shows "mono_option (\<lambda>f. after (B f) (\<lambda>y z. C y z f))"
  unfolding after_def by (intro bind_mono assms) (auto split: prod.split intro: assms)

text \<open>\<open>base\<close> is what \<open>full\<close> holds so far, \<open>left\<close> what there still is to walk.\<close>

partial_function (option) walk_path ::
  "('f, 'a) io \<Rightarrow> bool \<Rightarrow> nat \<Rightarrow> u8 list \<Rightarrow> u8 list \<Rightarrow> ('f, 'a) fs_scheme \<Rightarrow> (fs_error + u8 list, ('f, 'a) fs_scheme) run" where
  "walk_path io deref links base left s =
     (if left = [] then Some (Inr base, s)
      else
        let part = takeWhile (\<lambda>c. c \<noteq> slash) left;
            tail = drop (length part) left;
            folder = (tail \<noteq> []);
            past = (if folder then tl tail else tail)
        in if part = [] then walk_path io deref links base (tl left) s
           else if part = [46] then walk_path io deref links base past s
           else if part = [46, 46] then walk_path io deref links (if base = [] then [] else cut_last (butlast base)) past s
           else if length base + length part + 2 > FS_NAME_LEN then Some (Inl EINVAL, s)
           else
             after (if folder \<or> deref then fs_find io (base @ part) s else Some (None, s)) (\<lambda>link s1.
               if (case link of None \<Rightarrow> False | Some l \<Rightarrow> is_link l) then
                 let l = the link; n = unat (bytes_of l)
                 in if links + 1 > FS_LINKS then Some (Inl ELOOP, s1)
                    else if n + length tail + 1 > WALK_MAX then Some (Inl EINVAL, s1)
                    else after (load_sector io (s_start l) s1) (\<lambda>r s2.
                      if r = Inl EIO then Some (Inl EIO, s2)
                      else
                        let walk = cstr_of (take n (sector s2) @ tail)
                        in walk_path io deref (links + 1) (if walk \<noteq> [] \<and> hd walk = slash then [] else base) walk s2)
               else walk_path io deref links (base @ part @ (if folder then [slash] else [])) past s1))"

definition resolve_any :: "('f, 'a) io \<Rightarrow> u8 list \<Rightarrow> bool \<Rightarrow> ('f, 'a) fs_scheme \<Rightarrow> (fs_error + u8 list, ('f, 'a) fs_scheme) run" where
  "resolve_any io path deref s =
     (if path = [] \<or> length path \<ge> WALK_MAX then Some (Inl EINVAL, s)
      else attempt (load_table io s) (\<lambda>_ s1.
        walk_path io deref 0 (if hd path \<noteq> slash then cwd s1 else []) path s1))"

definition resolve :: "('f, 'a) io \<Rightarrow> u8 list \<Rightarrow> bool \<Rightarrow> ('f, 'a) fs_scheme \<Rightarrow> (fs_error + u8 list, ('f, 'a) fs_scheme) run" where
  "resolve io path deref s =
     attempt (resolve_any io path deref s) (\<lambda>full s1. if full \<noteq> [] then Some (Inr full, s1) else Some (Inl EINVAL, s1))"

definition dir_name :: "('f, 'a) io \<Rightarrow> u8 list \<Rightarrow> bool \<Rightarrow> ('f, 'a) fs_scheme \<Rightarrow> (fs_error + u8 list, ('f, 'a) fs_scheme) run" where
  "dir_name io path deref s =
     attempt (resolve io path deref s) (\<lambda>full s1.
       if last full \<noteq> slash then
         if length full + 2 > FS_NAME_LEN then Some (Inl EINVAL, s1) else Some (Inr (full @ [slash]), s1)
       else Some (Inr full, s1))"

definition parent_exists :: "('f, 'a) io \<Rightarrow> u8 list \<Rightarrow> ('f, 'a) fs_scheme \<Rightarrow> (bool, ('f, 'a) fs_scheme) run" where
  "parent_exists io name s =
     (if parent_of name = [] then Some (True, s)
      else after (fs_find io (parent_of name) s) (\<lambda>f s1. Some (f \<noteq> None, s1)))"

section \<open>The disk as a whole\<close>

definition fs_cache :: "('f, 'a) io \<Rightarrow> bool \<Rightarrow> ('f, 'a) fs_scheme \<Rightarrow> (unit, ('f, 'a) fs_scheme) run" where
  "fs_cache io slow s =
     after (if slow then alloc io (ucast RECENT_MAX * of_nat SECTOR_SIZE) s else Some (None, s)) (\<lambda>page s1.
       if slow \<and> page = None then Some ((), s1)
       else
         let s2 = (case recent_at s1 of None \<Rightarrow> s1\<lparr>small := recent s1\<rparr> | Some p \<Rightarrow> release io (Some p) s1);
             n = (if slow then RECENT_MAX else RECENT)
         in Some ((), s2\<lparr>recent := (if slow then replicate (unat n) (replicate SECTOR_SIZE 0) else small s2), recent_at := page,
              slots := n, recent_lba := replicate (unat RECENT_MAX) 0, cur := 0\<rparr>))"

definition fs_init :: "('f, 'a) io \<Rightarrow> ('f, 'a) fs_scheme \<Rightarrow> (fs_error + unit, ('f, 'a) fs_scheme) run" where
  "fs_init io s =
     after (load_table io s) (\<lambda>r s1. case r of Inl _ \<Rightarrow> Some (Inl EIO, s1\<lparr>held_table := False\<rparr>) | Inr _ \<Rightarrow> Some (Inr (), s1))"

definition fs_format :: "('f, 'a) io \<Rightarrow> u32 \<Rightarrow> ('f, 'a) fs_scheme \<Rightarrow> (fs_error + unit, ('f, 'a) fs_scheme) run" where
  "fs_format io disk_sectors s =
     (let table = table_sectors TABLE_FIRST; n = table + INDEX_FIRST
      in after (alloc io (ucast n * of_nat SECTOR_SIZE) s) (\<lambda>zero s1.
           if zero = None then Some (Inl EIO, s1)
           else
             let s2 = s1\<lparr>head := \<lparr>h_magic = FS_MAGIC, h_disk_sectors = disk_sectors, h_table_lba = DATA_LBA, h_table_size = TABLE_FIRST,
                          h_table_next = 0, h_free_head = 0, h_index_lba = DATA_LBA + table, h_index_sectors = INDEX_FIRST,
                          h_index_taken = 0, h_data_end = DATA_LBA + table + INDEX_FIRST\<rparr>, held_table := True\<rparr>
             in after (put io DATA_LBA n (Buffer (replicate (unat n) (replicate SECTOR_SIZE 0))) s2) (\<lambda>ok s3.
                  let s4 = release io zero s3
                  in if \<not> ok then Some (Inl EIO, s4) else save_header io s4)))"

definition fs_resize :: "('f, 'a) io \<Rightarrow> u32 \<Rightarrow> ('f, 'a) fs_scheme \<Rightarrow> (fs_error + u32, ('f, 'a) fs_scheme) run" where
  "fs_resize io free s =
     attempt (load_table io s) (\<lambda>_ s1.
       let s2 = s1\<lparr>head := (head s1)\<lparr>h_disk_sectors := h_data_end (head s1) + free\<rparr>\<rparr>
       in after (save_header io s2) (\<lambda>r s3. case r of Inl _ \<Rightarrow> Some (Inl EIO, s3) | Inr _ \<Rightarrow> Some (Inr (h_disk_sectors (head s3)), s3)))"

definition fs_runs :: "('f, 'a) io \<Rightarrow> ('f, 'a) fs_scheme \<Rightarrow> (fs_error + (u32 \<times> u32) list, ('f, 'a) fs_scheme) run" where
  "fs_runs io s =
     attempt (load_table io s) (\<lambda>_ s1.
       Some (Inr [(h_table_lba (head s1), table_sectors (h_table_next (head s1))), (h_index_lba (head s1), h_index_sectors (head s1))], s1))"

definition fs_entry_file :: "('f, 'a) io \<Rightarrow> nat \<Rightarrow> ('f, 'a) fs_scheme \<Rightarrow> (fs_error + fs_file, ('f, 'a) fs_scheme) run" where
  "fs_entry_file io index s =
     attempt (load_table io s) (\<lambda>_ s1.
       if index \<ge> unat (h_table_next (head s1)) then Some (Inl ENOENT, s1)
       else after (read_entry io index s1) (\<lambda>r s2.
         case r of
           Inl _ \<Rightarrow> Some (Inl ENOENT, s2)
         | Inr f \<Rightarrow> Some (if f_name f \<noteq> [] then Inr f else Inl ENOENT, s2)))"

section \<open>Listing\<close>

text \<open>The part of a name directly inside a folder.\<close>

fun deeper :: "u8 list \<Rightarrow> bool" where
  "deeper [] = False"
| "deeper (c # cs) = (c = slash \<and> cs \<noteq> [] \<or> deeper cs)"

definition fs_inside :: "u8 list \<Rightarrow> u8 list \<Rightarrow> u8 list option" where
  "fs_inside folder name =
     (if \<not> starts_with name folder \<or> drop (length folder) name = [] then None
      else if deeper (drop (length folder) name) then None
      else Some (drop (length folder) name))"

definition fs_in_cwd :: "u8 list \<Rightarrow> ('f, 'a) fs_scheme \<Rightarrow> u8 list option" where
  "fs_in_cwd name s = fs_inside (cwd s) name"

text \<open>
  The loop of \<open>fs_list\<close> over the places of the index from the cursor on. \<open>buf\<close> is the run of index sectors
  read last, with its first; \<open>None\<close> when there was no memory for one.
\<close>

fun list_from ::
  "('f, 'a) io \<Rightarrow> u8 list \<Rightarrow> nat list \<Rightarrow> nat \<Rightarrow> (nat \<times> sector list) option \<Rightarrow> ('f, 'a) fs_scheme \<Rightarrow>
     (fs_error + (fs_file \<times> u32), nat \<times> ('f, 'a) fs_scheme) run" where
  "list_from io folder [] end' buf s = Some (Inl ENOENT, end', s)"
| "list_from io folder (c # cs) end' buf s =
     (let at = c div RECORDS; n = unat (h_index_sectors (head s))
      in (case buf of
            Some (first, xs) \<Rightarrow>
              if xs = [] \<or> at < first \<or> at \<ge> first + length xs then
                ata_read_many (m_fw io) (m_hw io) (h_index_lba (head s) + of_nat at)
                  (of_nat (if n - at < LIST_RUN then n - at else LIST_RUN)) s \<bind> (\<lambda>(ok, ys, s1).
                    Some (if ok then Some (Some (at, ys), ys ! 0) else None, s1))
              else Some (Some (buf, xs ! (at - first)), s)
          | None \<Rightarrow>
              after (load_sector io (h_index_lba (head s) + of_nat at) s) (\<lambda>r s1.
                Some (if r = Inr () then Some (None, sector s1) else None, s1))) \<bind> (\<lambda>(got, s1).
         case got of
           None \<Rightarrow> Some (Inl EIO, c, s1)
         | Some (buf1, xs) \<Rightarrow>
             let r = record_at (c mod RECORDS) xs
             in if r_entry r = 0 \<or> r_entry r = GONE \<or> r_parent r \<noteq> hash_of folder then list_from io folder cs end' buf1 s1
                else fs_entry_file io (unat (r_entry r - 1)) s1 \<bind> (\<lambda>(f, s2).
                  case f of
                    Inl _ \<Rightarrow> list_from io folder cs end' buf1 s2
                  | Inr f \<Rightarrow>
                      if fs_inside folder (f_name f) \<noteq> None then Some (Inr (f, r_entry r - 1), c + 1, s2)
                      else list_from io folder cs end' buf1 s2)))"

text \<open>The result, with the cursor after it.\<close>

definition fs_list :: "('f, 'a) io \<Rightarrow> u8 list \<Rightarrow> nat \<Rightarrow> ('f, 'a) fs_scheme \<Rightarrow> (fs_error + (fs_file \<times> u32), nat \<times> ('f, 'a) fs_scheme) run" where
  "fs_list io folder cursor s =
     load_table io s \<bind> (\<lambda>(r, s1).
       case r of
         Inl _ \<Rightarrow> Some (Inl EIO, cursor, s1)
       | Inr _ \<Rightarrow>
           alloc io (of_nat (LIST_RUN * SECTOR_SIZE)) s1 \<bind> (\<lambda>(run, s2).
             let n = unat (h_index_sectors (head s2)) * RECORDS
             in list_from io folder [cursor..<n] (max cursor n) (case run of None \<Rightarrow> None | Some _ \<Rightarrow> Some (0, [])) s2 \<bind> (\<lambda>(r, c, s3).
                  Some (r, c, release io run s3))))"

section \<open>Files\<close>

definition stat_at :: "('f, 'a) io \<Rightarrow> u8 list \<Rightarrow> bool \<Rightarrow> ('f, 'a) fs_scheme \<Rightarrow> (fs_error + fs_file, ('f, 'a) fs_scheme) run" where
  "stat_at io path deref s =
     attempt (resolve io path deref s) (\<lambda>full s1.
     after (fs_find io full s1) (\<lambda>f s2.
       case f of
         None \<Rightarrow> Some (Inl ENOENT, s2)
       | Some f \<Rightarrow> Some (Inr \<lparr>f_name = full, f_start = s_start f, f_size = s_size f\<rparr>, s2)))"

definition fs_stat :: "('f, 'a) io \<Rightarrow> u8 list \<Rightarrow> ('f, 'a) fs_scheme \<Rightarrow> (fs_error + fs_file, ('f, 'a) fs_scheme) run" where
  "fs_stat io path s = stat_at io path True s"

definition fs_lstat :: "('f, 'a) io \<Rightarrow> u8 list \<Rightarrow> ('f, 'a) fs_scheme \<Rightarrow> (fs_error + fs_file, ('f, 'a) fs_scheme) run" where
  "fs_lstat io path s = stat_at io path False s"

definition fs_sector :: "('f, 'a) io \<Rightarrow> u32 \<Rightarrow> u32 \<Rightarrow> ('f, 'a) fs_scheme \<Rightarrow> (sector option, ('f, 'a) fs_scheme) run" where
  "fs_sector io start index s =
     after (load_sector io (start + index) s) (\<lambda>r s1. Some (if r = Inr () then Some (sector s1) else None, s1))"

definition fs_read_many :: "('f, 'a) io \<Rightarrow> u32 \<Rightarrow> u32 \<Rightarrow> u32 \<Rightarrow> ('f, 'a) fs_scheme \<Rightarrow> (fs_error + sector list, ('f, 'a) fs_scheme) run" where
  "fs_read_many io start index count s =
     ata_read_many (m_fw io) (m_hw io) (start + index) count s \<bind> (\<lambda>(ok, xs, s1). Some (if ok then Inr xs else Inl EIO, s1))"

text \<open>The whole sectors of the data.\<close>

definition whole_sectors :: "nat \<Rightarrow> u8 list \<Rightarrow> sector list" where
  "whole_sectors n data = map (\<lambda>k. take SECTOR_SIZE (drop (SECTOR_SIZE * k) data)) [0..<n]"

definition store_data :: "('f, 'a) io \<Rightarrow> u32 \<Rightarrow> u32 \<Rightarrow> u8 list \<Rightarrow> ('f, 'a) fs_scheme \<Rightarrow> (fs_error + unit, ('f, 'a) fs_scheme) run" where
  "store_data io start count data s =
     (let whole = of_nat (length data div SECTOR_SIZE) :: u32
      in after (if whole > 0 then put io start whole (Buffer (whole_sectors (unat whole) data)) s else Some (True, s)) (\<lambda>ok s1.
           if \<not> ok then Some (Inl EIO, s1)
           else if whole < count then
             let s2 = scratch s1;
                 s3 = set_sector (splice 0 (drop (unat whole * SECTOR_SIZE) data) (replicate SECTOR_SIZE 0)) s2
             in after (put io (start + whole) 1 Sector s3) (\<lambda>ok s4. Some (if ok then Inr () else Inl EIO, s4))
           else Some (Inr (), s1)))"

definition store :: "('f, 'a) io \<Rightarrow> u8 list \<Rightarrow> u8 list \<Rightarrow> u32 \<Rightarrow> ('f, 'a) fs_scheme \<Rightarrow> (fs_error + unit, ('f, 'a) fs_scheme) run" where
  "store io name data flag s =
     (if last name = slash then Some (Inl EINVAL, s)
      else after (parent_exists io name s) (\<lambda>there s1.
        if \<not> there then Some (Inl ENOENT, s1)
        else after (fs_find io name s1) (\<lambda>old s2.
          after (case old of None \<Rightarrow> new_entry io s2 | Some f \<Rightarrow> Some (Some (s_index f), s2)) (\<lambda>index s3.
            case index of
              None \<Rightarrow> Some (Inl ENOSPC, s3)
            | Some index \<Rightarrow>
                let count = sectors_for (of_nat (length data))
                in after (allocate io count old s3) (\<lambda>start s4.
                     if start = 0 then Some (Inl ENOSPC, s4)
                     else attempt (store_data io start count data s4) (\<lambda>_ s5.
                       attempt (write_entry io (unat index) (Some name) start (of_nat (length data) OR flag) s5) (\<lambda>_ s6.
                         attempt (if old = None then index_add io name index s6 else Some (Inr (), s6)) (\<lambda>_ s7.
                           save_header io s7))))))))"

definition fs_write :: "('f, 'a) io \<Rightarrow> u8 list \<Rightarrow> u8 list \<Rightarrow> ('f, 'a) fs_scheme \<Rightarrow> (fs_error + unit, ('f, 'a) fs_scheme) run" where
  "fs_write io path data s = attempt (resolve io path True s) (\<lambda>name s1. store io name data 0 s1)"

definition fs_symlink :: "('f, 'a) io \<Rightarrow> u8 list \<Rightarrow> u8 list \<Rightarrow> ('f, 'a) fs_scheme \<Rightarrow> (fs_error + unit, ('f, 'a) fs_scheme) run" where
  "fs_symlink io target path s =
     attempt (resolve io path False s) (\<lambda>full s1.
       if target = [] \<or> length target \<ge> FS_LINK_LEN then Some (Inl EINVAL, s1)
       else after (fs_find io full s1) (\<lambda>f s2.
         if f \<noteq> None \<or> length full + 2 > FS_NAME_LEN then Some (Inl EEXIST, s2)
         else after (fs_find io (full @ [slash]) s2) (\<lambda>f s3.
           if f \<noteq> None then Some (Inl EEXIST, s3) else store io full target FS_LINK s3)))"

definition fs_readlink :: "('f, 'a) io \<Rightarrow> u8 list \<Rightarrow> nat \<Rightarrow> ('f, 'a) fs_scheme \<Rightarrow> (fs_error + u8 list, ('f, 'a) fs_scheme) run" where
  "fs_readlink io path most s =
     attempt (fs_lstat io path s) (\<lambda>f s1.
       if f_size f AND FS_LINK = 0 then Some (Inl EINVAL, s1)
       else attempt (load_sector io (f_start f) s1) (\<lambda>_ s2.
         Some (Inr (take (min (unat (f_size f AND NOT FS_LINK)) most) (sector s2)), s2)))"

definition fs_remove :: "('f, 'a) io \<Rightarrow> u8 list \<Rightarrow> ('f, 'a) fs_scheme \<Rightarrow> (fs_error + unit, ('f, 'a) fs_scheme) run" where
  "fs_remove io path s =
     attempt (resolve io path False s) (\<lambda>full s1.
     after (fs_find io full s1) (\<lambda>f s2.
       case f of
         Some f \<Rightarrow> drop_entry io (s_index f) full s2
       | None \<Rightarrow>
           attempt (dir_name io path False s2) (\<lambda>full s3.
           after (fs_find io full s3) (\<lambda>f s4.
             case f of
               None \<Rightarrow> Some (Inl ENOENT, s4)
             | Some f \<Rightarrow>
                 fs_list io full 0 s4 \<bind> (\<lambda>(r, c, s5).
                   case r of Inr _ \<Rightarrow> Some (Inl ENOTEMPTY, s5) | Inl _ \<Rightarrow> drop_entry io (s_index f) full s5)))))"

definition fs_mkdir :: "('f, 'a) io \<Rightarrow> u8 list \<Rightarrow> ('f, 'a) fs_scheme \<Rightarrow> (fs_error + unit, ('f, 'a) fs_scheme) run" where
  "fs_mkdir io path s =
     attempt (dir_name io path False s) (\<lambda>full s1.
     after (fs_find io (butlast full) s1) (\<lambda>file s2.
     after (if file \<noteq> None then Some (file, s2) else fs_find io full s2) (\<lambda>taken s3.
       if taken \<noteq> None then Some (Inl EEXIST, s3)
       else after (parent_exists io full s3) (\<lambda>there s4.
         if \<not> there then Some (Inl ENOENT, s4)
         else after (new_entry io s4) (\<lambda>index s5.
           case index of
             None \<Rightarrow> Some (Inl ENOSPC, s5)
           | Some index \<Rightarrow>
               attempt (write_entry io (unat index) (Some full) 0 0 s5) (\<lambda>_ s6.
               attempt (index_add io full index s6) (\<lambda>_ s7. save_header io s7)))))))"

definition fs_set_mode :: "('f, 'a) io \<Rightarrow> u8 list \<Rightarrow> u32 \<Rightarrow> ('f, 'a) fs_scheme \<Rightarrow> (fs_error + unit, ('f, 'a) fs_scheme) run" where
  "fs_set_mode io path mode s =
     attempt (resolve io path True s) (\<lambda>full s1.
     after (fs_find io full s1) (\<lambda>f s2.
     after (if f \<noteq> None then Some (f, s2)
            else after (dir_name io path True s2) (\<lambda>r s3. case r of Inl _ \<Rightarrow> Some (None, s3) | Inr full \<Rightarrow> fs_find io full s3)) (\<lambda>f s4.
       case f of
         None \<Rightarrow> Some (Inl ENOENT, s4)
       | Some f \<Rightarrow>
           if s_size f \<noteq> 0 then Some (Inl EINVAL, s4)
           else write_entry io (unat (s_index f)) None (FS_MODE OR (mode AND 0xFFFF)) 0 s4)))"

section \<open>Folders\<close>

definition fs_chdir :: "('f, 'a) io \<Rightarrow> u8 list \<Rightarrow> ('f, 'a) fs_scheme \<Rightarrow> (fs_error + unit, ('f, 'a) fs_scheme) run" where
  "fs_chdir io path s =
     (if path = [] \<or> path = [slash] then Some (Inr (), s\<lparr>cwd := []\<rparr>)
      else if path = [46, 46] then
        Some (Inr (), if cwd s = [] then s else s\<lparr>cwd := cut_last (butlast (cwd s))\<rparr>)
      else attempt (dir_name io path True s) (\<lambda>full s1.
        after (fs_find io full s1) (\<lambda>f s2.
          if f = None then Some (Inl ENOENT, s2) else Some (Inr (), s2\<lparr>cwd := full\<rparr>))))"

definition fs_cwd_set :: "u8 list \<Rightarrow> ('f, 'a) fs_scheme \<Rightarrow> ('f, 'a) fs_scheme" where
  "fs_cwd_set dir s = s\<lparr>cwd := dir\<rparr>"

definition fs_folder :: "('f, 'a) io \<Rightarrow> u8 list \<Rightarrow> nat \<Rightarrow> ('f, 'a) fs_scheme \<Rightarrow> (fs_error + u8 list, ('f, 'a) fs_scheme) run" where
  "fs_folder io path most s =
     attempt
       (if path \<noteq> [] \<and> path \<noteq> [slash] then
          attempt (dir_name io path True s) (\<lambda>full s1.
            after (fs_find io full s1) (\<lambda>f s2. Some (if f = None then Inl ENOENT else Inr full, s2)))
        else Some (Inr (if path = [slash] then [] else cwd s), s)) (\<lambda>name s1.
       Some (if length name + 1 > most then Inl EINVAL else Inr name, s1))"

definition fs_folder_at :: "('f, 'a) io \<Rightarrow> u8 list \<Rightarrow> ('f, 'a) fs_scheme \<Rightarrow> (fs_error + u32, ('f, 'a) fs_scheme) run" where
  "fs_folder_at io path s =
     attempt (resolve_any io path True s) (\<lambda>full s1.
       if full = [] then Some (Inr 0, s1)
       else if length full + 2 > FS_NAME_LEN then Some (Inl EINVAL, s1)
       else
         let name = (if last full \<noteq> slash then full @ [slash] else full)
         in attempt (load_table io s1) (\<lambda>_ s2.
              after (fs_find io name s2) (\<lambda>f s3.
                Some (case f of None \<Rightarrow> Inl ENOENT | Some f \<Rightarrow> Inr (s_index f + 1), s3))))"

definition fs_entry :: "('f, 'a) io \<Rightarrow> u8 list \<Rightarrow> bool \<Rightarrow> ('f, 'a) fs_scheme \<Rightarrow> (fs_error + u32, ('f, 'a) fs_scheme) run" where
  "fs_entry io path deref s =
     attempt (resolve io path deref s) (\<lambda>full s1.
     after (fs_find io full s1) (\<lambda>f s2. Some (case f of None \<Rightarrow> Inl ENOENT | Some f \<Rightarrow> Inr (s_index f + 1), s2)))"

text \<open>Sectors in use and entries in use, counted over the table.\<close>

fun count_entries :: "('f, 'a) io \<Rightarrow> nat list \<Rightarrow> u32 \<times> u32 \<Rightarrow> ('f, 'a) fs_scheme \<Rightarrow> (fs_error + u32 \<times> u32, ('f, 'a) fs_scheme) run" where
  "count_entries io [] st s = Some (Inr st, s)"
| "count_entries io (at # ats) st s =
     (let n = unat (table_sectors (h_table_next (head s))); k = (if n - at < CHUNK then n - at else CHUNK)
      in ata_read_many (m_fw io) (m_hw io) (h_table_lba (head s) + of_nat at) (of_nat k) s \<bind> (\<lambda>(ok, xs, s1).
           if \<not> ok then Some (Inl EIO, s1)
           else count_entries io ats
             (foldl (\<lambda>(used, files) (i, f). if f_name f \<noteq> [] then (used + sectors_for (f_size f AND NOT FS_LINK), files + 1) else (used, files))
                st (chunk_entries (unat (h_table_next (head s1))) at xs)) s1))"

definition fs_get_stats :: "('f, 'a) io \<Rightarrow> ('f, 'a) fs_scheme \<Rightarrow> (fs_error + u32 \<times> u32 \<times> u32, ('f, 'a) fs_scheme) run" where
  "fs_get_stats io s =
     attempt (load_table io s) (\<lambda>_ s1.
       after (alloc io (of_nat (CHUNK * SECTOR_SIZE)) s1) (\<lambda>chunk s2.
         if chunk = None then Some (Inl EIO, s2)
         else
           let h = head s2
           in after (count_entries io (chunks (unat (table_sectors (h_table_next h))))
                 (DATA_LBA + table_sectors (h_table_size h) + h_index_sectors h, 0) s2) (\<lambda>r s3.
                Some (case r of Inl e \<Rightarrow> Inl e | Inr (used, files) \<Rightarrow> Inr (h_disk_sectors h, used, files), release io chunk s3))))"

section \<open>Renaming and writing into a file\<close>

definition fs_rename :: "('f, 'a) io \<Rightarrow> u8 list \<Rightarrow> u8 list \<Rightarrow> ('f, 'a) fs_scheme \<Rightarrow> (fs_error + unit, ('f, 'a) fs_scheme) run" where
  "fs_rename io from' to' s =
     attempt (resolve io from' False s) (\<lambda>was s1.
       if last was = slash then Some (Inl EINVAL, s1)
       else after (fs_find io was s1) (\<lambda>f s2.
         if f = None then Some (Inl ENOENT, s2)
         else attempt (resolve io to' False s2) (\<lambda>dest s3.
           if last dest = slash then Some (Inl EINVAL, s3)
           else if name_cmp was dest = 0 then Some (Inr (), s3)
           else after (fs_find io dest s3) (\<lambda>there s4.
             attempt (case there of None \<Rightarrow> Some (Inr (), s4) | Some t \<Rightarrow> drop_entry io (s_index t) dest s4) (\<lambda>_ s5.
               after (parent_exists io dest s5) (\<lambda>ok s6.
                 if \<not> ok then Some (Inl ENOENT, s6)
                 else fs_find io was s6 \<bind> (\<lambda>(f, s7).
                   case f of
                     None \<Rightarrow> None
                   | Some f \<Rightarrow>
                       attempt (index_remove io was (s_index f) s7) (\<lambda>_ s8.
                       attempt (write_entry io (unat (s_index f)) (Some dest) (s_start f) (s_size f) s8) (\<lambda>_ s9.
                         index_add io dest (s_index f) s9)))))))))"

text \<open>The file moved to its new place, and the whole sectors of a gap past its old end made zero.\<close>

fun move_file :: "('f, 'a) io \<Rightarrow> u32 \<Rightarrow> u32 \<Rightarrow> nat \<Rightarrow> nat \<Rightarrow> nat list \<Rightarrow> ('f, 'a) fs_scheme \<Rightarrow> (bool, ('f, 'a) fs_scheme) run" where
  "move_file io start room have gap [] s = Some (True, s)"
| "move_file io start room have gap (i # is) s =
     (let n = (if gap - i < MOVE_RUN then gap - i else MOVE_RUN);
          old = (if i < have then (if have - i < n then have - i else n) else 0)
      in (if old > 0 then ata_read_many (m_fw io) (m_hw io) (start + of_nat i) (of_nat old) s
          else Some (True, [], s)) \<bind> (\<lambda>(ok, xs, s1).
            if \<not> ok then Some (False, s1)
            else after (put io (room + of_nat i) (of_nat n) (Buffer (xs @ replicate (n - old) (replicate SECTOR_SIZE 0))) s1) (\<lambda>ok s2.
              if \<not> ok then Some (False, s2) else move_file io start room have gap is s2)))"

text \<open>The loop that writes the data, from its byte \<open>done'\<close> on.\<close>

partial_function (option) write_parts ::
  "('f, 'a) io \<Rightarrow> u32 \<Rightarrow> nat \<Rightarrow> nat \<Rightarrow> u8 list \<Rightarrow> nat \<Rightarrow> ('f, 'a) fs_scheme \<Rightarrow> (fs_error + unit, ('f, 'a) fs_scheme) run" where
  "write_parts io start have offset data done' s =
     (if done' < length data then
        let at = (offset + done') div SECTOR_SIZE; into = (offset + done') mod SECTOR_SIZE;
            whole = (if into = 0 then (length data - done') div SECTOR_SIZE else 0)
        in if whole > 0 then
             after (put io (start + of_nat at) (of_nat whole) (Buffer (whole_sectors whole (drop done' data))) s) (\<lambda>ok s1.
               if \<not> ok then Some (Inl EIO, s1) else write_parts io start have offset data (done' + whole * SECTOR_SIZE) s1)
           else
             let n = (if length data - done' < SECTOR_SIZE - into then length data - done' else SECTOR_SIZE - into);
                 s1 = set_sector (replicate SECTOR_SIZE 0) (scratch s)
             in (if at < have then ata_read (m_fw io) (m_hw io) (start + of_nat at) s1 else Some (True, [], s1)) \<bind> (\<lambda>(ok, xs, s2).
                  if \<not> ok then Some (Inl EIO, s2)
                  else
                    let old = (if xs = [] then sector s2 else hd xs);
                        s3 = set_sector (splice into (take n (drop done' data)) old) s2
                    in after (put io (start + of_nat at) 1 Sector s3) (\<lambda>ok s4.
                         if \<not> ok then Some (Inl EIO, s4) else write_parts io start have offset data (done' + n) s4))
      else Some (Inr (), s))"

definition fs_write_at ::
  "('f, 'a) io \<Rightarrow> u8 list \<Rightarrow> u32 \<Rightarrow> u8 list \<Rightarrow> ('f, 'a) fs_scheme \<Rightarrow> (fs_error + unit, ('f, 'a) fs_scheme) run" where
  "fs_write_at io path offset data s =
     attempt (resolve io path True s) (\<lambda>name s1.
     after (fs_find io name s1) (\<lambda>f s2.
       case f of
         None \<Rightarrow> Some (Inl ENOENT, s2)
       | Some f \<Rightarrow>
           if data = [] then Some (Inr (), s2)
           else
             let end1 = offset + of_nat (length data);
                 end' = (if end1 < s_size f then s_size f else end1);
                 have = sectors_for (s_size f); need = sectors_for end'
             in attempt
                  (if need > have then
                     after (allocate io need (Some f) s2) (\<lambda>room s3.
                       if room = 0 then Some (Inl ENOSPC, s3)
                       else
                         let gap = (if offset div 512 > have then offset div 512 else have)
                         in if room \<noteq> s_start f \<and> have > 0 \<or> gap > have then
                              after (alloc io (of_nat (MOVE_RUN * SECTOR_SIZE)) s3) (\<lambda>run s4.
                                if run = None then Some (Inl ENOSPC, s4)
                                else
                                  let first = (if room \<noteq> s_start f then 0 else unat have);
                                      steps = map (\<lambda>j. first + MOVE_RUN * j) [0..<(unat gap - first + MOVE_RUN - 1) div MOVE_RUN]
                                  in after (move_file io (s_start f) room (unat have) (unat gap) steps s4) (\<lambda>ok s5.
                                       Some (if ok then Inr room else Inl EIO, release io run s5)))
                            else Some (Inr room, s3))
                   else Some (Inr (s_start f), s2)) (\<lambda>start s6.
                attempt (write_parts io start (unat have) (unat offset) data 0 s6) (\<lambda>_ s7.
                attempt (load_table io s7) (\<lambda>_ s8.
                after (fs_find io name s8) (\<lambda>f s9.
                  case f of
                    None \<Rightarrow> Some (Inl EIO, s9)
                  | Some f \<Rightarrow>
                      attempt (write_entry io (unat (s_index f)) None start end' s9) (\<lambda>_ s10. save_header io s10)))))))"

end
