(* ===== verification/FsSector.thy ===== *)
theory FsSector
  imports FsBase
begin

text \<open>
  The structures of the disk read back as they were written, and the sectors at hand kept true to the
  disk: loading, writing and forgetting sectors, the header and the entries of the table.
\<close>

section \<open>Bytes of structures\<close>

lemma length_put32 [simp]: "length (put32 v) = 4"
  by (simp add: put32_def)

lemma le_val_put32 [simp]: "of_nat (le_val (put32 v)) = v"
  using unat_bound [of v] by (simp add: put32_def)

lemma length_splice [simp]: "at + length ys \<le> length xs \<Longrightarrow> length (splice at ys xs) = length xs"
  by (simp add: splice_def)

lemma nth_splice:
  "at + length ys \<le> length xs \<Longrightarrow> i < length xs \<Longrightarrow>
   splice at ys xs ! i = (if at \<le> i \<and> i < at + length ys then ys ! (i - at) else xs ! i)"
  by (auto simp: splice_def nth_append min_def)

lemma splice_in:
  assumes "at + length ys \<le> length xs" "k + n \<le> length ys"
  shows "take n (drop (at + k) (splice at ys xs)) = take n (drop k ys)"
  using assms by (intro nth_equalityI) (auto simp: nth_splice)

lemma splice_out:
  assumes "at + length ys \<le> length xs" "a + n \<le> at \<or> at + length ys \<le> a"
  shows "take n (drop a (splice at ys xs)) = take n (drop a xs)"
proof (rule nth_equalityI)
  fix i assume i: "i < length (take n (drop a (splice at ys xs)))"
  then have "a + i < length xs" using assms(1) by auto
  then show "take n (drop a (splice at ys xs)) ! i = take n (drop a xs) ! i"
    using assms i by (auto simp: nth_splice)
qed (use assms in simp)

lemma get32_in:
  "at + length ys \<le> length xs \<Longrightarrow> k + 4 \<le> length ys \<Longrightarrow> get32 (at + k) (splice at ys xs) = get32 k ys"
  by (simp add: get32_def splice_in)

lemma get32_out:
  "at + length ys \<le> length xs \<Longrightarrow> a + 4 \<le> at \<or> at + length ys \<le> a \<Longrightarrow> get32 a (splice at ys xs) = get32 a xs"
  by (simp add: get32_def splice_out)

lemma get32_put32 [simp]: "get32 0 (put32 v @ ys) = v" "get32 0 (put32 v) = v"
  by (simp_all add: get32_def)

lemma get32_skip: "4 \<le> k \<Longrightarrow> get32 k (put32 v @ ys) = get32 (k - 4) ys"
  by (simp add: get32_def)

lemma length_header_bytes [simp]: "length (header_bytes h) = 40"
  by (simp add: header_bytes_def)

lemma header_round_trip: "header_of (splice 0 (header_bytes h) (replicate SECTOR_SIZE 0)) = h"
proof -
  have g: "get32 k (splice 0 (header_bytes h) (replicate SECTOR_SIZE 0)) = get32 k (header_bytes h)" if "k + 4 \<le> 40" for k
    using get32_in [of 0 "header_bytes h" "replicate SECTOR_SIZE 0" k] that by (simp add: SECTOR_SIZE_def)
  show ?thesis unfolding header_of_def by (rule header.equality) (simp_all add: g, simp_all add: header_bytes_def get32_skip)
qed

lemma length_record_bytes [simp]: "length (record_bytes r) = 12"
  by (simp add: record_bytes_def)

lemma record_at_splice:
  assumes "length xs = SECTOR_SIZE" "i < RECORDS" "j < RECORDS"
  shows "record_at j (splice (12 * i) (record_bytes r) xs) = (if j = i then r else record_at j xs)"
proof -
  have fit: "12 * i + length (record_bytes r) \<le> length xs" using assms by (simp add: SECTOR_SIZE_def RECORDS_def)
  show ?thesis
  proof (cases "j = i")
    case True
    have "get32 (12 * i + k) (splice (12 * i) (record_bytes r) xs) = get32 k (record_bytes r)" if "k + 4 \<le> 12" for k
      using get32_in [OF fit, of k] that by simp
    note g = this [of 0, simplified] this [of 4, simplified] this [of 8, simplified]
    have "record_at i (splice (12 * i) (record_bytes r) xs) = r"
      unfolding record_at_def by (rule record'.equality) (simp_all add: g, simp_all add: record_bytes_def get32_skip)
    then show ?thesis using True by simp
  next
    case False
    then have "12 * j + 12 \<le> 12 * i \<or> 12 * i + 12 \<le> 12 * j" by arith
    then have "get32 (12 * j + k) (splice (12 * i) (record_bytes r) xs) = get32 (12 * j + k) xs" if "k + 4 \<le> 12" for k
      using get32_out [OF fit, of "12 * j + k"] that by auto
    note g = this [of 0, simplified] this [of 4, simplified] this [of 8, simplified]
    show ?thesis using False by (simp add: record_at_def g)
  qed
qed

text \<open>A name that fits its entry.\<close>

definition fits :: "u8 list \<Rightarrow> bool" where
  "fits n \<longleftrightarrow> 0 \<notin> set n \<and> length n < FS_NAME_LEN"

lemma length_name_bytes [simp]: "fits n \<Longrightarrow> length (name_bytes n) = FS_NAME_LEN"
  by (simp add: fits_def name_bytes_def)

lemma cstr_of_name_bytes [simp]: "fits n \<Longrightarrow> cstr_of (name_bytes n) = n"
proof -
  assume "fits n"
  then have "\<forall>c \<in> set n. c \<noteq> 0" "FS_NAME_LEN - length n = Suc (FS_NAME_LEN - length n - 1)" by (auto simp: fits_def)
  then show ?thesis unfolding cstr_of_def name_bytes_def
    by (subst takeWhile_append2) (auto simp: takeWhile_replicate)
qed

text \<open>An entry written into its sector, the name with it or not.\<close>

definition entry_sector :: "nat \<Rightarrow> u8 list option \<Rightarrow> u32 \<Rightarrow> u32 \<Rightarrow> sector \<Rightarrow> sector" where
  "entry_sector i name start n xs =
     splice (128 * i + 120) (put32 start @ put32 n) (case name of None \<Rightarrow> xs | Some m \<Rightarrow> splice (128 * i) (name_bytes m) xs)"

lemma slots_apart: "128 * k + 128 \<le> 128 * i \<or> i \<le> k" "k \<noteq> i \<Longrightarrow> 128 * k + 128 \<le> 128 * i \<or> 128 * i + 128 \<le> 128 * k"
  for i k :: nat
  by linarith+

lemma entry_at_sector:
  assumes l: "length xs = SECTOR_SIZE" and i: "i < PER_SECTOR" "j < PER_SECTOR" and n: "\<And>m. name = Some m \<Longrightarrow> fits m"
  shows "length (entry_sector i name start n xs) = SECTOR_SIZE"
    "entry_at j (entry_sector i name start n xs) =
       (if j = i then \<lparr>f_name = (case name of None \<Rightarrow> f_name (entry_at i xs) | Some m \<Rightarrow> m), f_start = start, f_size = n\<rparr> else entry_at j xs)"
proof -
  define ys where "ys = (case name of None \<Rightarrow> xs | Some m \<Rightarrow> splice (128 * i) (name_bytes m) xs)"
  have c: "SECTOR_SIZE = 512" "PER_SECTOR = 4" "FS_NAME_LEN = 120" by (simp_all add: SECTOR_SIZE_def PER_SECTOR_def FS_NAME_LEN_def)
  have ly: "length ys = 512" using l i n by (cases name) (simp_all add: ys_def c)
  have e: "entry_sector i name start n xs = splice (128 * i + 120) (put32 start @ put32 n) ys" by (simp add: entry_sector_def ys_def)
  have fit: "128 * i + 120 + length (put32 start @ put32 n) \<le> length ys" using i ly by (simp add: c)
  show "length (entry_sector i name start n xs) = SECTOR_SIZE" using fit ly by (simp add: e c)
  have names: "cstr_of (take 120 (drop (128 * k) ys)) = (if k = i then (case name of None \<Rightarrow> f_name (entry_at i xs) | Some m \<Rightarrow> m) else f_name (entry_at k xs))"
    if k: "k < 4" for k
  proof (cases name)
    case None
    then show ?thesis by (simp add: ys_def entry_at_def c)
  next
    case (Some m)
    have f: "128 * i + length (name_bytes m) \<le> length xs" using n [OF Some] i l by (simp add: c)
    show ?thesis
    proof (cases "k = i")
      case True
      then show ?thesis using splice_in [OF f, of 0 120] n [OF Some] Some by (simp add: ys_def c)
    next
      case False
      then have "128 * k + 120 \<le> 128 * i \<or> 128 * i + length (name_bytes m) \<le> 128 * k" using n [OF Some] slots_apart(2) [of k i] by (auto simp: c)
      then show ?thesis using splice_out [OF f, of "128 * k" 120] False Some by (simp add: ys_def entry_at_def c)
    qed
  qed
  have nums: "get32 (128 * k + 120) ys = get32 (128 * k + 120) xs" "get32 (128 * k + 124) ys = get32 (128 * k + 124) xs" for k
  proof -
    have "get32 (128 * k + 120 + d) ys = get32 (128 * k + 120 + d) xs" if "d \<le> 4" for d
    proof (cases name)
      case (Some m)
      have f: "128 * i + length (name_bytes m) \<le> length xs" using n [OF Some] i l by (simp add: c)
      have "128 * k + 120 + d + 4 \<le> 128 * i \<or> 128 * i + length (name_bytes m) \<le> 128 * k + 120 + d"
        using n [OF Some] that slots_apart(1) [of k i] by (auto simp: c)
      then show ?thesis using get32_out [OF f] Some by (simp add: ys_def)
    qed (simp add: ys_def)
    from this [of 0] this [of 4] show "get32 (128 * k + 120) ys = get32 (128 * k + 120) xs" "get32 (128 * k + 124) ys = get32 (128 * k + 124) xs"
      by (simp_all add: add.commute)
  qed
  show "entry_at j (entry_sector i name start n xs) =
       (if j = i then \<lparr>f_name = (case name of None \<Rightarrow> f_name (entry_at i xs) | Some m \<Rightarrow> m), f_start = start, f_size = n\<rparr> else entry_at j xs)"
  proof -
    have out: "take 120 (drop (128 * j) (entry_sector i name start n xs)) = take 120 (drop (128 * j) ys)"
      unfolding e by (rule splice_out [OF fit]) (use slots_apart(1) [of j i] in auto)
    show ?thesis
    proof (cases "j = i")
      case True
      have "get32 (128 * i + 120 + k) (entry_sector i name start n xs) = get32 k (put32 start @ put32 n)" if "k \<le> 4" for k
        unfolding e by (rule get32_in [OF fit]) (use that in simp)
      from this [of 0] this [of 4] show ?thesis using True out names [of i] i
        by (simp add: entry_at_def c get32_skip add.commute [of 124])
    next
      case False
      have "get32 (128 * j + 120 + k) (entry_sector i name start n xs) = get32 (128 * j + 120 + k) ys" if "k \<le> 4" for k
        unfolding e by (rule get32_out [OF fit]) (use that slots_apart(2) [OF False] in auto)
      from this [of 0] this [of 4] show ?thesis using False out names [of j] i nums [of j]
        by (simp add: entry_at_def c add.commute [of 124])
    qed
  qed
qed

section \<open>The sectors at hand\<close>

text \<open>
  A machine whose disk answers within its first \<open>limit\<close> sectors and holds \<open>d\<close>, and whose sectors at hand
  are the disk's, those of the slots in \<open>out\<close> apart.
\<close>

definition slots_ok :: "('f, 'a) fs_scheme \<Rightarrow> bool" where
  "slots_ok s \<longleftrightarrow> 0 < unat (slots s) \<and> length (recent s) = unat (slots s) \<and> unat (slots s) \<le> length (recent_lba s) \<and>
     length (recent_used s) = length (recent_lba s) \<and> cur s < unat (slots s)"

definition at_hand :: "nat set \<Rightarrow> nat \<Rightarrow> (nat \<Rightarrow> sector) \<Rightarrow> ('f, 'a) fs_scheme \<Rightarrow> bool" where
  "at_hand out limit d s \<longleftrightarrow> slots_ok s \<and>
     (\<forall>i < unat (slots s). i \<notin> out \<longrightarrow> recent_lba s ! i \<noteq> 0 \<longrightarrow>
        unat (recent_lba s ! i) < limit \<and> recent s ! i = d (unat (recent_lba s ! i)))"

definition good_disk :: "nat \<Rightarrow> (nat \<Rightarrow> sector) \<Rightarrow> bool" where
  "good_disk limit d \<longleftrightarrow> (\<forall>a < limit. length (d a) = SECTOR_SIZE)"

definition running ::
  "('f, 'a) io \<Rightarrow> ('f \<Rightarrow> nat \<Rightarrow> sector) \<Rightarrow> nat \<Rightarrow> nat \<Rightarrow> (nat \<Rightarrow> sector) \<Rightarrow> ('f, 'a) fs_scheme \<Rightarrow> bool" where
  "running io whole base limit d s \<longleftrightarrow> disk_inv (m_hw io) whole base d s \<and> reliable (m_hw io) base limit \<and> attached s \<and>
     limit \<le> 2 ^ 32 - 128 \<and> good_disk limit d"

definition ready ::
  "('f, 'a) io \<Rightarrow> ('f \<Rightarrow> nat \<Rightarrow> sector) \<Rightarrow> nat \<Rightarrow> nat \<Rightarrow> (nat \<Rightarrow> sector) \<Rightarrow> ('f, 'a) fs_scheme \<Rightarrow> bool" where
  "ready io whole base limit d s \<longleftrightarrow> running io whole base limit d s \<and> at_hand {} limit d s"

text \<open>What the sectors at hand have no part in.\<close>

definition kept :: "('f, 'a) fs_scheme \<Rightarrow> ('f, 'a) fs_scheme \<Rightarrow> bool" where
  "kept s t \<longleftrightarrow> head t = head s \<and> held_table t = held_table s \<and> cwd t = cwd s \<and> fs.more t = fs.more s"

lemma kept_refl [simp]: "kept s s"
  by (simp add: kept_def)

lemma kept_trans: "kept s t \<Longrightarrow> kept t u \<Longrightarrow> kept s u"
  by (simp add: kept_def)

text \<open>The fields above the disk's may change without its noticing.\<close>

lemma above_disk:
  fixes s t :: "('f, 'a) fs_scheme"
  assumes "disk.truncate t = disk.truncate s"
  shows "disk_inv hw whole base d t = disk_inv hw whole base d s" "attached t = attached s"
proof -
  have c: "cache.truncate t = cache.truncate s" "dev t = dev s" "block_run t = block_run s" "disk_base t = disk_base s" "fs_base t = fs_base s"
    "has_cache t = has_cache s" "bios t = bios s" "bios_gone t = bios_gone s" "has_disk t = has_disk s"
    using assms by (auto simp: disk.truncate_def cache.truncate_def)
  have l: "st_room t = st_room s" "st_lines t = st_lines s" "st_chains t = st_chains s" "st_at t = st_at s" "c_count t = c_count s"
    "mem.truncate t = mem.truncate s" "line_mem t = line_mem s" "share_fields t = share_fields s"
    using c(1) by (auto simp: cache.truncate_def mem.truncate_def share_fields_def)
  have "cache_inv d t = cache_inv d s" "hooked t = hooked s" by (rule same_lines; rule l)+
  moreover have "share_inv t = share_inv s" by (rule share_fields_same(8)) (rule l)
  ultimately show "disk_inv hw whole base d t = disk_inv hw whole base d s" using c by (simp add: disk_inv_def working_def)
  show "attached t = attached s" using c by (simp add: attached_def)
qed

lemma running_above:
  fixes s t :: "('f, 'a) fs_scheme"
  assumes "disk.truncate t = disk.truncate s"
  shows "running io whole base limit d t = running io whole base limit d s"
  using above_disk [OF assms] by (simp add: running_def)

lemma oldest_slot_bound: "old < n \<Longrightarrow> set is \<subseteq> {..<n} \<Longrightarrow> oldest_slot used is old < n"
  by (induction used "is" old rule: oldest_slot.induct) auto

lemma take_slot_spec:
  assumes "slots_ok s" "take_slot 0 s = (i, t)"
  shows "i < unat (slots s)" "cur t = i" "slots_ok t" "slots t = slots s" "recent t = recent s" "recent_lba t = (recent_lba s)[i := 0]"
    "disk.truncate t = disk.truncate s" "kept s t"
proof -
  have "{Suc 0..<unat (slots s)} \<subseteq> {..<unat (slots s)}" by auto
  then show i: "i < unat (slots s)"
    using assms oldest_slot_bound [of 0 "unat (slots s)" "[1..<unat (slots s)]" "recent_used s"]
    by (auto simp: take_slot_def Let_def slots_ok_def)
  show "cur t = i" "slots t = slots s" "recent t = recent s" "recent_lba t = (recent_lba s)[i := 0]" "disk.truncate t = disk.truncate s" "kept s t"
    using assms(2) by (auto simp: take_slot_def Let_def disk.truncate_def kept_def)
  then show "slots_ok t" using assms i by (auto simp: take_slot_def Let_def slots_ok_def)
qed

lemma config_more: "config t = config s \<Longrightarrow> disk.more t = disk.more s"
  by (simp add: config_def)

lemma fs_more:
  fixes s t :: "('f, 'a) fs_scheme"
  assumes "disk.more t = disk.more s"
  shows "head t = head s" "recent t = recent s" "slots t = slots s" "recent_lba t = recent_lba s" "recent_used t = recent_used s"
    "cur t = cur s" "kept s t"
  using assms by (cases t; cases s; simp add: kept_def)+

lemma running_read:
  assumes r: "running io whole base limit d s" and n: "unat lba + unat count \<le> limit" "count \<noteq> 0"
  shows "\<exists>t. ata_read_many (m_fw io) (m_hw io) lba count s = Some (True, span d (unat lba) (unat count), t) \<and>
    running io whole base limit d t \<and> disk.more t = disk.more s"
proof -
  have i: "disk_inv (m_hw io) whole base d s" "reliable (m_hw io) base limit" "attached s" "limit \<le> 2 ^ 32 - 128" "good_disk limit d"
    using r by (auto simp: running_def)
  have "unat lba + unat count \<le> 2 ^ 32" using i(4) n by simp
  from ata_read_many_spec [OF i(1) this n(2), of "m_fw io" limit] i(2,3) n(1) obtain t where
    t: "ata_read_many (m_fw io) (m_hw io) lba count s = Some (True, span d (unat lba) (unat count), t)"
      "disk_inv (m_hw io) whole base d t" "config t = config s" by auto
  have "attached t" using t(3) i(3) by (simp add: attached_def config_def)
  then show ?thesis using t i config_more [OF t(3)] by (simp add: running_def)
qed

lemma load_sector_spec:
  assumes r: "ready io whole base limit d s" and l: "unat lba < limit" "lba \<noteq> 0"
  shows "\<exists>t. load_sector io lba s = Some (Inr (), t) \<and> ready io whole base limit d t \<and> kept s t \<and>
    sector t = d (unat lba) \<and> recent_lba t ! cur t = lba"
proof -
  have run: "running io whole base limit d s" and ah: "at_hand {} limit d s" and so: "slots_ok s"
    using r by (auto simp: ready_def at_hand_def)
  show ?thesis
  proof (cases "held_slot lba s")
    case (Some i)
    then have i: "i < unat (slots s)" "recent_lba s ! i = lba"
      by (auto simp: held_slot_def find_Some_iff)
    define t where "t = s\<lparr>recent_used := (recent_used s)[i := recent_clock s + 1], recent_clock := recent_clock s + 1, cur := i\<rparr>"
    have "load_sector io lba s = Some (Inr (), t)" using Some by (simp add: load_sector_def t_def Let_def)
    moreover have "at_hand {} limit d t" using ah i by (simp add: at_hand_def slots_ok_def t_def)
    moreover have "running io whole base limit d t"
      using run running_above [of t s] by (simp add: t_def disk.truncate_def)
    moreover have "sector t = d (unat lba)" using ah i l by (simp add: sector_def t_def at_hand_def)
    moreover have "recent_lba t ! cur t = lba" "kept s t" using i by (simp_all add: t_def kept_def)
    ultimately show ?thesis by (auto simp: ready_def)
  next
    case None
    obtain i s1 where ts: "take_slot 0 s = (i, s1)" by fastforce
    note t1 = take_slot_spec [OF so ts]
    have run1: "running io whole base limit d s1" using run running_above [OF t1(7)] by simp
    have "unat lba + unat (1 :: u32) \<le> limit" using l by simp
    from running_read [OF run1 this] obtain s2 where
      s2: "ata_read_many (m_fw io) (m_hw io) lba 1 s1 = Some (True, [d (unat lba)], s2)" "running io whole base limit d s2" "disk.more s2 = disk.more s1"
      by auto
    note m = fs_more [OF s2(3)]
    define t where "t = (set_sector (d (unat lba)) s2)\<lparr>recent_lba := (recent_lba s2)[i := lba]\<rparr>"
    have "load_sector io lba s = Some (Inr (), t)"
      using None ts s2(1) by (simp add: load_sector_def ata_read_def t_def set_sector_def)
    moreover have i: "i < length (recent_lba s)" "i < length (recent s)" using so t1(1) by (auto simp: slots_ok_def)
    have ah: "at_hand {} limit d t"
      using ah t1 m i l unfolding at_hand_def slots_ok_def t_def set_sector_def
      by (auto simp: nth_list_update)
    moreover have "running io whole base limit d t"
      using s2(2) running_above [of t s2] by (simp add: t_def set_sector_def disk.truncate_def)
    moreover have "kept s t" using t1(8) m(7) by (simp add: kept_def t_def set_sector_def)
    moreover have "sector t = d (unat lba)" "recent_lba t ! cur t = lba"
      using m t1 i by (simp_all add: sector_def t_def set_sector_def)
    ultimately show ?thesis by (auto simp: ready_def)
  qed
qed

lemma good_disk_write:
  "good_disk limit d \<Longrightarrow> \<forall>x \<in> set xs. length x = SECTOR_SIZE \<Longrightarrow> good_disk limit (write_at lba xs d)"
  by (auto simp: good_disk_def write_at_def)

lemma running_write:
  assumes r: "running io whole base limit d s" and n: "unat lba + unat count \<le> limit" "count \<noteq> 0" "length xs = unat count"
    "\<forall>x \<in> set xs. length x = SECTOR_SIZE"
  shows "\<exists>t. ata_write_many (m_hw io) lba count xs s = Some (True, t) \<and> running io whole base limit (write_at (unat lba) xs d) t \<and>
    disk.more t = disk.more s"
proof -
  have i: "disk_inv (m_hw io) whole base d s" "reliable (m_hw io) base limit" "attached s" "limit \<le> 2 ^ 32 - 128" "good_disk limit d"
    using r by (auto simp: running_def)
  have "unat lba + unat count \<le> 2 ^ 32 - 128" using i(4) n by simp
  from ata_write_many_spec [OF i(1) this n(3,2), of limit] i(2,3) n(1) obtain t where
    t: "ata_write_many (m_hw io) lba count xs s = Some (True, t)"
      "disk_inv (m_hw io) whole base (write_at (unat lba) xs d) t" "config t = config (s\<lparr>unflushed := True\<rparr>)" by auto
  have "attached t" "disk.more t = disk.more s" using t(3) i(3) by (auto simp: attached_def config_def)
  then show ?thesis using t i good_disk_write [OF i(5) n(4)] by (simp add: running_def)
qed

text \<open>The sectors at hand that a write goes over are forgotten, the one written from apart.\<close>

lemma put_spec:
  assumes r: "running io whole base limit d s" and h: "at_hand out limit d s"
    and n: "unat lba + unat count \<le> limit" "count \<noteq> 0" "length xs = unat count" "\<forall>x \<in> set xs. length x = SECTOR_SIZE"
    and data: "data = Buffer xs \<and> out = {} \<or> data = Sector \<and> xs = [sector s] \<and> out \<subseteq> {cur s} \<and> recent_lba s ! cur s \<in> {0, lba}"
  shows "\<exists>t. put io lba count data s = Some (True, t) \<and> ready io whole base limit (write_at (unat lba) xs d) t \<and> kept s t"
proof -
  have i: "limit \<le> 2 ^ 32 - 128" using r by (simp add: running_def)
  have so: "slots_ok s" using h by (simp add: at_hand_def)
  define keep where "keep = (\<lambda>i l. if i < unat (slots s) \<and> l \<ge> lba \<and> l < lba + count \<and> \<not> (data = Sector \<and> i = cur s) then 0 else l)"
  define s1 where "s1 = s\<lparr>recent_lba := map (\<lambda>(i, l). keep i l) (List.enumerate 0 (recent_lba s))\<rparr>"
  have run1: "running io whole base limit d s1" using r running_above [of s1 s] by (simp add: s1_def disk.truncate_def)
  obtain t where t: "ata_write_many (m_hw io) lba count xs s1 = Some (True, t)" "running io whole base limit (write_at (unat lba) xs d) t"
    "disk.more t = disk.more s1" using running_write [OF run1 n] by blast
  note m = fs_more [OF t(3)]
  have eq: "put io lba count data s = Some (True, t)"
    using t(1) data unfolding put_def keep_def [symmetric] Let_def s1_def [symmetric] by (auto split: data.split)
  have lb: "recent_lba t ! j = keep j (recent_lba s ! j)" if "j < length (recent_lba s)" for j
    using that m(4) by (simp add: s1_def nth_enumerate_eq)
  have lc: "unat (lba + count) = unat lba + unat count" using n(1) i by (intro unat_add_small) simp
  have "slots_ok t" using so m by (simp add: slots_ok_def s1_def)
  moreover have "unat (recent_lba t ! j) < limit \<and> recent t ! j = write_at (unat lba) xs d (unat (recent_lba t ! j))"
    if j: "j < unat (slots t)" "recent_lba t ! j \<noteq> 0" for j
  proof -
    have js: "j < unat (slots s)" "j < length (recent_lba s)" using j m so by (auto simp: s1_def slots_ok_def)
    have rj: "recent_lba s ! j = recent_lba t ! j" "recent t ! j = recent s ! j"
      using lb [OF js(2)] j(2) m by (auto simp: keep_def s1_def split: if_splits)
    show ?thesis
    proof (cases "data = Sector \<and> j = cur s")
      case True
      then have "recent_lba t ! j = lba" using data rj j(2) by auto
      moreover have "xs = [recent s ! j]" using data True by (auto simp: sector_def)
      ultimately show ?thesis using n rj by (simp add: write_at_def)
    next
      case False
      have "\<not> (lba \<le> recent_lba t ! j \<and> recent_lba t ! j < lba + count)"
        using lb [OF js(2)] j(2) rj js(1) False by (auto simp: keep_def split: if_splits)
      then have out: "\<not> (unat lba \<le> unat (recent_lba t ! j) \<and> unat (recent_lba t ! j) < unat lba + length xs)"
        using lc n(3) by (simp add: word_nat)
      have "j \<notin> out" using data False by auto
      then have "unat (recent_lba t ! j) < limit \<and> recent s ! j = d (unat (recent_lba t ! j))"
        using h js(1) j(2) rj(1) unfolding at_hand_def by metis
      then show ?thesis using out rj(2) by (auto simp: write_at_def)
    qed
  qed
  ultimately have "at_hand {} limit (write_at (unat lba) xs d) t" by (simp add: at_hand_def)
  moreover have "kept s t" using m(7) by (simp add: kept_def s1_def)
  ultimately show ?thesis using eq t(2) by (simp add: ready_def)
qed

lemma put_buffer:
  assumes "ready io whole base limit d s" "unat lba + unat count \<le> limit" "count \<noteq> 0" "length xs = unat count"
    "\<forall>x \<in> set xs. length x = SECTOR_SIZE"
  shows "\<exists>t. put io lba count (Buffer xs) s = Some (True, t) \<and> ready io whole base limit (write_at (unat lba) xs d) t \<and> kept s t"
  using put_spec [of io whole base limit d s "{}" lba count xs "Buffer xs"] assms by (simp add: ready_def)

text \<open>The sector in use changed and written.\<close>

lemma put_sector:
  assumes r: "ready io whole base limit d s" and l: "unat lba < limit" "recent_lba s ! cur s \<in> {0, lba}" "length x = SECTOR_SIZE"
  shows "\<exists>t. put io lba 1 Sector (set_sector x s) = Some (True, t) \<and> ready io whole base limit (write_at (unat lba) [x] d) t \<and> kept s t"
proof -
  define s1 where "s1 = set_sector x s"
  have so: "slots_ok s" and ah: "at_hand {} limit d s" and run: "running io whole base limit d s" using r by (auto simp: ready_def at_hand_def)
  have c: "cur s < length (recent s)" using so by (simp add: slots_ok_def)
  have x: "sector s1 = x" "cur s1 = cur s" "recent_lba s1 = recent_lba s" using c by (simp_all add: s1_def sector_def set_sector_def)
  have "at_hand {cur s} limit d s1" using ah c unfolding at_hand_def slots_ok_def s1_def set_sector_def by auto
  moreover have "running io whole base limit d s1" using run running_above [of s1 s] by (simp add: s1_def set_sector_def disk.truncate_def)
  ultimately obtain t where t: "put io lba 1 Sector s1 = Some (True, t)" "ready io whole base limit (write_at (unat lba) [x] d) t" "kept s1 t"
    using put_spec [of io whole base limit d s1 "{cur s}" lba 1 "[x]" Sector] l x by auto
  have "kept s t" using t(3) by (simp add: kept_def s1_def set_sector_def)
  then show ?thesis using t by (auto simp: s1_def)
qed

section \<open>The header and the entries\<close>

lemma ready_head [simp]:
  "ready io whole base limit d (s\<lparr>head := h\<rparr>) = ready io whole base limit d s"
  "ready io whole base limit d (s\<lparr>held_table := b\<rparr>) = ready io whole base limit d s"
  "ready io whole base limit d (s\<lparr>cwd := c\<rparr>) = ready io whole base limit d s"
proof -
  have "running io whole base limit d (s\<lparr>head := h\<rparr>) = running io whole base limit d s"
    "running io whole base limit d (s\<lparr>held_table := b\<rparr>) = running io whole base limit d s"
    "running io whole base limit d (s\<lparr>cwd := c\<rparr>) = running io whole base limit d s"
    by (rule running_above, simp add: disk.truncate_def)+
  then show "ready io whole base limit d (s\<lparr>head := h\<rparr>) = ready io whole base limit d s"
    "ready io whole base limit d (s\<lparr>held_table := b\<rparr>) = ready io whole base limit d s"
    "ready io whole base limit d (s\<lparr>cwd := c\<rparr>) = ready io whole base limit d s"
    by (simp_all add: ready_def at_hand_def slots_ok_def)
qed

lemma save_header_spec:
  assumes r: "ready io whole base limit d s" and l: "1 < limit"
  shows "\<exists>t d'. save_header io s = Some (Inr (), t) \<and> ready io whole base limit d' t \<and> kept s t \<and>
    header_of (d' 1) = head s \<and> (\<forall>a. a \<noteq> 1 \<longrightarrow> d' a = d a)"
proof -
  have lba: "unat FS_LBA < limit" "FS_LBA \<noteq> 0" using l by (simp_all add: FS_LBA_def)
  obtain s1 where s1: "load_sector io FS_LBA s = Some (Inr (), s1)" "ready io whole base limit d s1" "kept s s1" "recent_lba s1 ! cur s1 = FS_LBA"
    using load_sector_spec [OF r lba] by blast
  define x where "x = splice 0 (header_bytes (head s1)) (replicate SECTOR_SIZE 0)"
  have "length x = SECTOR_SIZE" by (simp add: x_def SECTOR_SIZE_def)
  then obtain t where t: "put io FS_LBA 1 Sector (set_sector x s1) = Some (True, t)" "ready io whole base limit (write_at (unat FS_LBA) [x] d) t" "kept s1 t"
    using put_sector [OF s1(2) lba(1), of x] s1(4) by auto
  have "save_header io s = Some (Inr (), t)" using s1(1) t(1) by (simp add: save_header_def x_def Let_def)
  moreover have "header_of (write_at (unat FS_LBA) [x] d 1) = head s"
    using header_round_trip [of "head s1"] s1(3) by (simp add: x_def write_at_def FS_LBA_def kept_def)
  moreover have "\<forall>a. a \<noteq> 1 \<longrightarrow> write_at (unat FS_LBA) [x] d a = d a" by (auto simp: write_at_def FS_LBA_def)
  ultimately show ?thesis using t(2) kept_trans [OF s1(3) t(3)] by blast
qed

lemma load_table_spec:
  assumes r: "ready io whole base limit d s" and l: "1 < limit" and h: "header_of (d 1) = hd'" "h_magic hd' = FS_MAGIC"
    and t: "held_table s \<longrightarrow> head s = hd'"
  shows "\<exists>t. load_table io s = Some (Inr (), t) \<and> ready io whole base limit d t \<and> head t = hd' \<and> held_table t \<and> cwd t = cwd s"
proof (cases "held_table s")
  case True
  then show ?thesis using r t by (simp add: load_table_def)
next
  case False
  have lba: "unat FS_LBA < limit" "FS_LBA \<noteq> 0" using l by (simp_all add: FS_LBA_def)
  obtain s1 where s1: "load_sector io FS_LBA s = Some (Inr (), s1)" "ready io whole base limit d s1" "kept s s1" "sector s1 = d (unat FS_LBA)"
    using load_sector_spec [OF r lba] by blast
  have "sector s1 = d 1" using s1(4) by (simp add: FS_LBA_def)
  then have "load_table io s = Some (Inr (), s1\<lparr>head := hd', held_table := True\<rparr>)"
    using False s1(1) h by (simp add: load_table_def Let_def)
  then show ?thesis using s1(2,3) by (simp add: kept_def)
qed

text \<open>The entries of the table as the disk holds them.\<close>

definition entry_of :: "(nat \<Rightarrow> sector) \<Rightarrow> header \<Rightarrow> nat \<Rightarrow> fs_file" where
  "entry_of d h i = entry_at (i mod PER_SECTOR) (d (unat (h_table_lba h) + i div PER_SECTOR))"

text \<open>The table lies on the disk past the header.\<close>

definition table_fits :: "nat \<Rightarrow> header \<Rightarrow> bool" where
  "table_fits limit h \<longleftrightarrow> 1 < unat (h_table_lba h) \<and>
     unat (h_table_lba h) + (unat (h_table_next h) + PER_SECTOR - 1) div PER_SECTOR \<le> limit"

lemma table_lba:
  assumes "table_fits limit h" "limit \<le> 2 ^ 32 - 128" "i < unat (h_table_next h)"
  shows "unat (h_table_lba h + of_nat (i div PER_SECTOR)) = unat (h_table_lba h) + i div PER_SECTOR"
    "unat (h_table_lba h) + i div PER_SECTOR < limit" "h_table_lba h + of_nat (i div PER_SECTOR) \<noteq> 0"
proof -
  have "i div 4 < (unat (h_table_next h) + 4 - 1) div 4" using assms(3) by linarith
  then show b: "unat (h_table_lba h) + i div PER_SECTOR < limit" using assms(1) by (simp add: table_fits_def PER_SECTOR_def)
  then have "unat (of_nat (i div PER_SECTOR) :: u32) = i div PER_SECTOR" using assms(2) by (simp add: unsigned_of_nat take_bit_nat_eq_self)
  then show u: "unat (h_table_lba h + of_nat (i div PER_SECTOR)) = unat (h_table_lba h) + i div PER_SECTOR"
    using b assms(2) by (subst unat_add_small) simp_all
  show "h_table_lba h + of_nat (i div PER_SECTOR) \<noteq> 0" using u assms(1) by (auto simp: table_fits_def)
qed

lemma ready_limit: "ready io whole base limit d s \<Longrightarrow> limit \<le> 2 ^ 32 - 128"
  "ready io whole base limit d s \<Longrightarrow> a < limit \<Longrightarrow> length (d a) = SECTOR_SIZE"
  by (simp_all add: ready_def running_def good_disk_def)

lemma read_entry_spec:
  assumes r: "ready io whole base limit d s" and t: "table_fits limit (head s)" and i: "i < unat (h_table_next (head s))"
  shows "\<exists>t. read_entry io i s = Some (Inr (entry_of d (head s) i), t) \<and> ready io whole base limit d t \<and> kept s t"
proof -
  note l = table_lba [OF t ready_limit(1) [OF r] i]
  obtain s1 where s1: "load_sector io (h_table_lba (head s) + of_nat (i div PER_SECTOR)) s = Some (Inr (), s1)"
    "ready io whole base limit d s1" "kept s s1" "sector s1 = d (unat (h_table_lba (head s)) + i div PER_SECTOR)"
    using load_sector_spec [OF r _ l(3)] l(1,2) by auto
  then show ?thesis using i by (simp add: read_entry_def entry_of_def)
qed

lemma write_entry_spec:
  assumes r: "ready io whole base limit d s" and t: "table_fits limit (head s)" and i: "i < unat (h_table_next (head s))"
    and n: "\<And>m. name = Some m \<Longrightarrow> fits m"
  defines "a \<equiv> unat (h_table_lba (head s)) + i div PER_SECTOR"
  shows "\<exists>t. write_entry io i name start n s = Some (Inr (), t) \<and> kept s t \<and>
    ready io whole base limit (d(a := entry_sector (i mod PER_SECTOR) name start n (d a))) t"
proof -
  note l = table_lba [OF t ready_limit(1) [OF r] i]
  define lba where "lba = h_table_lba (head s) + of_nat (i div PER_SECTOR)"
  have ul: "unat lba = a" "a < limit" using l by (simp_all add: lba_def a_def)
  obtain s1 where s1: "load_sector io lba s = Some (Inr (), s1)" "ready io whole base limit d s1" "kept s s1" "sector s1 = d a"
    "recent_lba s1 ! cur s1 = lba"
    using load_sector_spec [OF r _ l(3)] ul unfolding lba_def by auto
  define x where "x = entry_sector (i mod PER_SECTOR) name start n (d a)"
  have "length x = SECTOR_SIZE"
    unfolding x_def using entry_at_sector(1) [of "d a" "i mod PER_SECTOR" "i mod PER_SECTOR" name] ready_limit(2) [OF r ul(2)] n
    by (simp add: PER_SECTOR_def)
  then obtain t where t: "put io lba 1 Sector (set_sector x s1) = Some (True, t)" "ready io whole base limit (write_at (unat lba) [x] d) t" "kept s1 t"
    using put_sector [OF s1(2), of lba x] s1(5) ul by auto
  have "write_entry io i name start n s = Some (Inr (), t)"
    using s1(1) t(1) unfolding write_entry_def lba_def [symmetric] Let_def x_def entry_sector_def s1(4) [symmetric]
    by simp
  moreover have "write_at (unat lba) [x] d = d(a := x)" by (auto simp: write_at_def ul fun_eq_iff)
  ultimately show ?thesis using t(2) kept_trans [OF s1(3) t(3)] by (simp add: x_def)
qed

text \<open>What that does to the table: the entry is as written, the others are as they were.\<close>

lemma entry_of_written:
  assumes "good_disk limit d" "table_fits limit h" "i < unat (h_table_next h)" "j < unat (h_table_next h)" "\<And>m. name = Some m \<Longrightarrow> fits m"
  defines "a \<equiv> unat (h_table_lba h) + i div PER_SECTOR"
  shows "entry_of (d(a := entry_sector (i mod PER_SECTOR) name start n (d a))) h j =
    (if j = i then \<lparr>f_name = (case name of None \<Rightarrow> f_name (entry_of d h i) | Some m \<Rightarrow> m), f_start = start, f_size = n\<rparr> else entry_of d h j)"
proof -
  have "i div 4 < (unat (h_table_next h) + 4 - 1) div 4" using assms(3) by linarith
  then have "a < limit" using assms(2) by (simp add: a_def table_fits_def PER_SECTOR_def)
  then have len: "length (d a) = SECTOR_SIZE" using assms(1) by (simp add: good_disk_def)
  have p: "k mod PER_SECTOR < PER_SECTOR" for k by (simp add: PER_SECTOR_def)
  note e = entry_at_sector(2) [OF len p [of i] p [of j], of name start n] assms(5)
  show ?thesis
  proof (cases "j div PER_SECTOR = i div PER_SECTOR")
    case True
    then have "j = i \<longleftrightarrow> j mod PER_SECTOR = i mod PER_SECTOR" by (metis div_mult_mod_eq)
    then show ?thesis using e True by (auto simp: entry_of_def a_def split: option.split)
  next
    case False
    then have "j \<noteq> i" "unat (h_table_lba h) + j div PER_SECTOR \<noteq> a" by (auto simp: a_def)
    then show ?thesis by (simp add: entry_of_def)
  qed
qed

end
