(* ===== verification/FsFind.thy ===== *)
theory FsFind
  imports FsIndex FsSector
begin

text \<open>
  Finding a name through the index gives what a search of the whole table would: the reference
  definition \<open>lookup\<close>, the invariant of index and table, and the equivalence.
\<close>

section \<open>The index as the disk holds it\<close>

definition rec_of :: "(nat \<Rightarrow> sector) \<Rightarrow> header \<Rightarrow> nat \<Rightarrow> nat \<Rightarrow> record'" where
  "rec_of d h a o' = record_at o' (d (unat (h_index_lba h) + a))"

text \<open>The sector a search for a hash looks at after \<open>q\<close> others, and its \<open>j\<close>-th record.\<close>

definition turn :: "header \<Rightarrow> u32 \<Rightarrow> nat \<Rightarrow> nat" where
  "turn h hash q = (unat hash + q) mod unat (h_index_sectors h)"

definition seen :: "(nat \<Rightarrow> sector) \<Rightarrow> header \<Rightarrow> u32 \<Rightarrow> nat \<Rightarrow> record'" where
  "seen d h hash j = rec_of d h (turn h hash (j div RECORDS)) (j mod RECORDS)"

definition places :: "header \<Rightarrow> nat" where
  "places h = unat (h_index_sectors h) * RECORDS"

definition index_fits :: "nat \<Rightarrow> header \<Rightarrow> bool" where
  "index_fits limit h \<longleftrightarrow> 1 < unat (h_index_lba h) \<and> unat (h_index_lba h) + unat (h_index_sectors h) \<le> limit \<and>
     0 < unat (h_index_sectors h) \<and> unat (h_index_sectors h) dvd 2 ^ 32"

definition live_record :: "record' \<Rightarrow> bool" where
  "live_record r \<longleftrightarrow> r_entry r \<noteq> 0 \<and> r_entry r \<noteq> GONE"

text \<open>
  Every record in use names an entry in use, under the hash of its name, and no two the same entry;
  every entry in use is met by the search for its name before a record never used; no two entries
  have the same name.
\<close>

definition index_ok :: "(nat \<Rightarrow> sector) \<Rightarrow> header \<Rightarrow> bool" where
  "index_ok d h \<longleftrightarrow> unat (h_table_next h) < 2 ^ 32 - 1 \<and>
     (\<forall>a < unat (h_index_sectors h). \<forall>k < RECORDS. live_record (rec_of d h a k) \<longrightarrow>
        unat (r_entry (rec_of d h a k)) \<le> unat (h_table_next h) \<and>
        f_name (entry_of d h (unat (r_entry (rec_of d h a k)) - 1)) \<noteq> [] \<and>
        r_hash (rec_of d h a k) = hash_of (f_name (entry_of d h (unat (r_entry (rec_of d h a k)) - 1)))) \<and>
     (\<forall>a < unat (h_index_sectors h). \<forall>k < RECORDS. \<forall>a' < unat (h_index_sectors h). \<forall>k' < RECORDS.
        live_record (rec_of d h a k) \<longrightarrow> r_entry (rec_of d h a k) = r_entry (rec_of d h a' k') \<longrightarrow> a = a' \<and> k = k') \<and>
     (\<forall>i < unat (h_table_next h). f_name (entry_of d h i) \<noteq> [] \<longrightarrow>
        (\<exists>j < places h. r_entry (seen d h (hash_of (f_name (entry_of d h i))) j) = of_nat i + 1 \<and>
           (\<forall>j' < j. r_entry (seen d h (hash_of (f_name (entry_of d h i))) j') \<noteq> 0))) \<and>
     (\<forall>i < unat (h_table_next h). \<forall>i' < unat (h_table_next h).
        f_name (entry_of d h i) \<noteq> [] \<longrightarrow> f_name (entry_of d h i) = f_name (entry_of d h i') \<longrightarrow> i = i')"

text \<open>A name looked up in the whole table.\<close>

definition slot_of :: "(nat \<Rightarrow> sector) \<Rightarrow> header \<Rightarrow> nat \<Rightarrow> slot" where
  "slot_of d h i = \<lparr>s_index = of_nat i, s_start = f_start (entry_of d h i), s_size = f_size (entry_of d h i)\<rparr>"

definition lookup :: "(nat \<Rightarrow> sector) \<Rightarrow> header \<Rightarrow> u8 list \<Rightarrow> slot option" where
  "lookup d h name =
     (if name = [] then None
      else map_option (slot_of d h) (find (\<lambda>i. f_name (entry_of d h i) = name) [0..<unat (h_table_next h)]))"

section \<open>The search, sector by sector\<close>

lemma name_cmp_eq: "0 \<notin> set a \<Longrightarrow> 0 \<notin> set b \<Longrightarrow> name_cmp a b = 0 \<longleftrightarrow> a = b"
  by (induction a b rule: name_cmp.induct) (auto simp: word_uint_eq_iff)

lemma entry_name_no_nul: "0 \<notin> set (f_name (entry_of d h i))"
  by (auto simp: entry_of_def entry_at_def cstr_of_def dest: set_takeWhileD)

lemma index_lba:
  assumes "index_fits limit h" "limit \<le> 2 ^ 32 - 128" "a < unat (h_index_sectors h)"
  shows "unat (h_index_lba h + of_nat a) = unat (h_index_lba h) + a" "unat (h_index_lba h) + a < limit" "h_index_lba h + of_nat a \<noteq> 0"
proof -
  show b: "unat (h_index_lba h) + a < limit" using assms by (simp add: index_fits_def)
  then have "unat (of_nat a :: u32) = a" using assms(2) by (simp add: unsigned_of_nat take_bit_nat_eq_self)
  then show u: "unat (h_index_lba h + of_nat a) = unat (h_index_lba h) + a" using b assms(2) by (subst unat_add_small) simp_all
  show "h_index_lba h + of_nat a \<noteq> 0" using u assms(1) by (auto simp: index_fits_def)
qed

lemma turn_less: "index_fits limit h \<Longrightarrow> turn h hash q < unat (h_index_sectors h)"
  by (simp add: turn_def index_fits_def)

lemma probe_turn:
  assumes "index_fits limit h"
  shows "(hash + of_nat q) mod h_index_sectors h = of_nat (turn h hash q)"
proof -
  define n where "n = unat (h_index_sectors h)"
  have n: "0 < n" "n dvd 2 ^ 32" using assms by (simp_all add: index_fits_def n_def)
  have "unat (hash + of_nat q) mod n = (unat hash + q) mod n"
    using n(2) by (simp add: unat_word_ariths unsigned_of_nat take_bit_eq_mod mod_simps mod_mod_cancel)
  then have "unat ((hash + of_nat q) mod h_index_sectors h) = turn h hash q" by (simp add: unat_mod turn_def n_def)
  then show ?thesis by (metis of_nat_unat ucast_id)
qed

lemma seen_rec: "k < RECORDS \<Longrightarrow> seen d h hash (q * RECORDS + k) = rec_of d h (turn h hash q) k"
  by (simp add: seen_def RECORDS_def)

text \<open>The sector a search looks at, loaded.\<close>

lemma load_turn:
  assumes "ready io whole base limit d s" "index_fits limit (head s)"
  shows "\<exists>t. load_sector io (h_index_lba (head s) + of_nat (turn (head s) hash q)) s = Some (Inr (), t) \<and> ready io whole base limit d t \<and>
    kept s t \<and> (\<forall>k. record_at k (sector t) = rec_of d (head s) (turn (head s) hash q) k) \<and>
    recent_lba t ! cur t = h_index_lba (head s) + of_nat (turn (head s) hash q)"
proof -
  note l = index_lba [OF assms(2) ready_limit(1) [OF assms(1)] turn_less [OF assms(2)], of hash q]
  show ?thesis using load_sector_spec [OF assms(1) _ l(3)] l(1,2) by (auto simp: rec_of_def)
qed

lemma gather_records_eq:
  "length acc + length rs \<le> RECORDS \<Longrightarrow> gather_records hash rs acc =
     (acc @ map (\<lambda>r. r_entry r - 1) (filter (\<lambda>r. r_entry r \<noteq> GONE \<and> r_hash r = hash) (takeWhile (\<lambda>r. r_entry r \<noteq> 0) rs)),
      \<exists>r \<in> set rs. r_entry r = 0)"
  by (induction hash rs acc rule: gather_records.induct) auto

text \<open>The record a search for a hash goes over without stopping.\<close>

definition passed :: "u32 \<Rightarrow> record' \<Rightarrow> bool" where
  "passed hash r \<longleftrightarrow> r_entry r \<noteq> 0 \<and> (r_entry r = GONE \<or> r_hash r \<noteq> hash)"

lemma gather_spec:
  assumes rs: "rs = map (rec_of d h a) [0..<RECORDS]" and g: "gather_records hash rs [] = (found, ended)"
  shows "ended \<longleftrightarrow> (\<exists>k < RECORDS. r_entry (rec_of d h a k) = 0)"
    "e \<in> set found \<longleftrightarrow> (\<exists>k < RECORDS. (\<forall>k' \<le> k. r_entry (rec_of d h a k') \<noteq> 0) \<and> \<not> passed hash (rec_of d h a k) \<and> e = r_entry (rec_of d h a k) - 1)"
    "\<not> ended \<and> found = [] \<longleftrightarrow> (\<forall>k < RECORDS. passed hash (rec_of d h a k))"
proof -
  have l: "length rs = RECORDS" by (simp add: rs)
  have f: "found = map (\<lambda>r. r_entry r - 1) (filter (\<lambda>r. r_entry r \<noteq> GONE \<and> r_hash r = hash) (takeWhile (\<lambda>r. r_entry r \<noteq> 0) rs))"
    "ended = (\<exists>r \<in> set rs. r_entry r = 0)"
    using gather_records_eq [of "[]" rs hash] l g by auto
  show en: "ended \<longleftrightarrow> (\<exists>k < RECORDS. r_entry (rec_of d h a k) = 0)" by (auto simp: f rs)
  have tw: "r \<in> set (takeWhile (\<lambda>r. r_entry r \<noteq> 0) rs) \<longleftrightarrow> (\<exists>k < RECORDS. r = rec_of d h a k \<and> (\<forall>k' \<le> k. r_entry (rec_of d h a k') \<noteq> 0))" for r
  proof
    assume "r \<in> set (takeWhile (\<lambda>r. r_entry r \<noteq> 0) rs)"
    then obtain k where k: "k < length (takeWhile (\<lambda>r. r_entry r \<noteq> 0) rs)" "r = takeWhile (\<lambda>r. r_entry r \<noteq> 0) rs ! k" by (auto simp: in_set_conv_nth)
    have len: "length (takeWhile (\<lambda>r. r_entry r \<noteq> 0) rs) \<le> RECORDS" using length_takeWhile_le [of _ rs] l by simp
    have "r_entry (rec_of d h a k') \<noteq> 0" if "k' \<le> k" for k'
    proof -
      have "k' < length (takeWhile (\<lambda>r. r_entry r \<noteq> 0) rs)" using that k(1) by simp
      then have "r_entry (rs ! k') \<noteq> 0" using set_takeWhileD [OF nth_mem] takeWhile_nth by fastforce
      then show ?thesis using that k(1) len by (simp add: rs)
    qed
    then show "\<exists>k < RECORDS. r = rec_of d h a k \<and> (\<forall>k' \<le> k. r_entry (rec_of d h a k') \<noteq> 0)"
      using k len takeWhile_nth [OF k(1)] by (intro exI [of _ k]) (simp add: rs)
  next
    assume "\<exists>k < RECORDS. r = rec_of d h a k \<and> (\<forall>k' \<le> k. r_entry (rec_of d h a k') \<noteq> 0)"
    then obtain k where k: "k < RECORDS" "r = rs ! k" "\<forall>k' \<le> k. r_entry (rs ! k') \<noteq> 0" by (auto simp: rs)
    have "k < length (takeWhile (\<lambda>r. r_entry r \<noteq> 0) rs)"
    proof (rule ccontr)
      assume n: "\<not> k < length (takeWhile (\<lambda>r. r_entry r \<noteq> 0) rs)"
      then have "r_entry (rs ! length (takeWhile (\<lambda>r. r_entry r \<noteq> 0) rs)) = 0"
        using nth_length_takeWhile [of "\<lambda>r. r_entry r \<noteq> 0" rs] k(1) l by simp
      then show False using k(3) n by (simp add: not_less)
    qed
    then show "r \<in> set (takeWhile (\<lambda>r. r_entry r \<noteq> 0) rs)" using k(2) nth_mem takeWhile_nth by metis
  qed
  show fd: "e \<in> set found \<longleftrightarrow> (\<exists>k < RECORDS. (\<forall>k' \<le> k. r_entry (rec_of d h a k') \<noteq> 0) \<and> \<not> passed hash (rec_of d h a k) \<and> e = r_entry (rec_of d h a k) - 1)" for e
    unfolding f(1) by (auto simp: tw passed_def image_iff)
  show "\<not> ended \<and> found = [] \<longleftrightarrow> (\<forall>k < RECORDS. passed hash (rec_of d h a k))"
  proof
    assume n: "\<not> ended \<and> found = []"
    then have "\<forall>k < RECORDS. r_entry (rec_of d h a k) \<noteq> 0" using en by simp
    then show "\<forall>k < RECORDS. passed hash (rec_of d h a k)" using fd n by fastforce
  next
    assume p: "\<forall>k < RECORDS. passed hash (rec_of d h a k)"
    then have "\<not> ended" using en by (auto simp: passed_def)
    moreover have "e \<notin> set found" for e using fd [of e] p by auto
    ultimately show "\<not> ended \<and> found = []" by (metis list.set_intros(1) neq_Nil_conv)
  qed
qed

lemma records_of_turn: "(\<And>k. record_at k (sector t) = rec_of d h a k) \<Longrightarrow> records_of (sector t) = map (rec_of d h a) [0..<RECORDS]"
  by (simp add: records_of_def)

lemma probe_gather:
  assumes "ready io whole base limit d s" "index_fits limit (head s)" "head s = h" "q \<le> n" "n = unat (h_index_sectors h)"
    "\<forall>j < q * RECORDS. passed hash (seen d h hash j)"
  shows "\<exists>found ended p t. probe_from io hash (gather hash) [q..<n] ([], False) s = Some (Inr (found, ended), t) \<and>
    ready io whole base limit d t \<and> kept s t \<and> q \<le> p \<and> p \<le> n \<and> (\<forall>j < p * RECORDS. passed hash (seen d h hash j)) \<and>
    (if p = n then found = [] \<and> \<not> ended
     else gather_records hash (map (rec_of d h (turn h hash p)) [0..<RECORDS]) [] = (found, ended) \<and> (ended \<or> found \<noteq> []))"
  using assms
proof (induction "n - q" arbitrary: q s)
  case 0
  then have "q = n" by simp
  then show ?case using "0.prems" by (intro exI [of _ "[]"] exI [of _ False] exI [of _ n] exI [of _ s]) simp
next
  case (Suc m)
  then have q: "[q..<n] = q # [Suc q..<n]" "q < n" by (simp_all add: upt_conv_Cons)
  have tn: "(hash + of_nat q) mod h_index_sectors h = of_nat (turn h hash q)" using probe_turn Suc.prems(2,3) by simp
  obtain s1 where s1: "load_sector io (h_index_lba h + of_nat (turn h hash q)) s = Some (Inr (), s1)" "ready io whole base limit d s1" "kept s s1"
    "\<forall>k. record_at k (sector s1) = rec_of d h (turn h hash q) k"
    using load_turn [OF Suc.prems(1,2), of hash q] Suc.prems(3) by blast
  have rs: "records_of (sector s1) = map (rec_of d h (turn h hash q)) [0..<RECORDS]" using s1(4) by (simp add: records_of_turn)
  obtain found ended where g: "gather_records hash (map (rec_of d h (turn h hash q)) [0..<RECORDS]) [] = (found, ended)" by fastforce
  have eq: "probe_from io hash (gather hash) [q..<n] ([], False) s =
      (if ended \<or> found \<noteq> [] then Some (Inr (found, ended), s1) else probe_from io hash (gather hash) [Suc q..<n] ([], False) s1)"
    unfolding q(1) using s1(1) tn Suc.prems(3) by (simp add: Let_def gather_def rs g)
  show ?case
  proof (cases "ended \<or> found \<noteq> []")
    case True
    then show ?thesis using eq s1(2,3) q(2) Suc.prems(6) g
      by (intro exI [of _ found] exI [of _ ended] exI [of _ q] exI [of _ s1]) simp
  next
    case False
    then have all: "\<forall>k < RECORDS. passed hash (rec_of d h (turn h hash q) k)" using gather_spec(3) [OF refl g] by simp
    have "passed hash (seen d h hash j)" if "j < Suc q * RECORDS" for j
    proof (cases "j < q * RECORDS")
      case True
      then show ?thesis using Suc.prems(6) by simp
    next
      case f: False
      then have "j = q * RECORDS + (j - q * RECORDS)" "j - q * RECORDS < RECORDS" using that by simp_all
      then show ?thesis using seen_rec [of "j - q * RECORDS" d h hash q] all by metis
    qed
    then have all: "\<forall>j < Suc q * RECORDS. passed hash (seen d h hash j)" by blast
    have h1: "head s1 = h" using s1(3) Suc.prems(3) by (simp add: kept_def)
    then have f1: "index_fits limit (head s1)" using Suc.prems(2,3) by simp
    have m: "m = n - Suc q" using Suc.hyps(2) by simp
    from Suc.hyps(1) [OF m s1(2) f1 h1 Suc_leI [OF q(2)] Suc.prems(5) all] obtain fd en p t where
      t: "probe_from io hash (gather hash) [Suc q..<n] ([], False) s1 = Some (Inr (fd, en), t)" "ready io whole base limit d t" "kept s1 t"
        "Suc q \<le> p" "p \<le> n" "\<forall>j < p * RECORDS. passed hash (seen d h hash j)"
        "if p = n then fd = [] \<and> \<not> en
         else gather_records hash (map (rec_of d h (turn h hash p)) [0..<RECORDS]) [] = (fd, en) \<and> (en \<or> fd \<noteq> [])" by blast
    have "q \<le> p" using t(4) by simp
    then show ?thesis using t False eq kept_trans [OF s1(3) t(3)]
      by (intro exI [of _ fd] exI [of _ en] exI [of _ p] exI [of _ t]) simp
  qed
qed

lemma named_spec:
  assumes "ready io whole base limit d s" "table_fits limit (head s)" "head s = h" "0 \<notin> set name" "\<forall>e \<in> set es. unat e < unat (h_table_next h)"
  shows "\<exists>t. named io name es s = Some (map_option (\<lambda>e. slot_of d h (unat e)) (find (\<lambda>e. f_name (entry_of d h (unat e)) = name) es), t) \<and>
    ready io whole base limit d t \<and> kept s t"
  using assms
proof (induction es arbitrary: s)
  case Nil
  then show ?case by simp
next
  case (Cons e es)
  have e: "unat e < unat (h_table_next (head s))" using Cons.prems by simp
  obtain s1 where s1: "read_entry io (unat e) s = Some (Inr (entry_of d h (unat e)), s1)" "ready io whole base limit d s1" "kept s s1"
    using read_entry_spec [OF Cons.prems(1,2) e] Cons.prems(3) by auto
  have h1: "head s1 = h" using s1(3) Cons.prems(3) by (simp add: kept_def)
  have cmp: "name_cmp (f_name (entry_of d h (unat e))) name = 0 \<longleftrightarrow> f_name (entry_of d h (unat e)) = name"
    using name_cmp_eq [OF entry_name_no_nul Cons.prems(4)] .
  show ?case
  proof (cases "f_name (entry_of d h (unat e)) = name")
    case True
    then show ?thesis using s1 cmp by (auto simp: slot_of_def)
  next
    case False
    then show ?thesis using s1 cmp Cons.IH [of s1] Cons.prems h1 kept_trans [OF s1(3)] by auto
  qed
qed

text \<open>The search record by record, all before the \<open>k\<close>-th seen and none of them the one.\<close>

definition wanted :: "(nat \<Rightarrow> sector) \<Rightarrow> header \<Rightarrow> u8 list \<Rightarrow> record' \<Rightarrow> bool" where
  "wanted d h name r \<longleftrightarrow> live_record r \<and> r_hash r = hash_of name \<and> f_name (entry_of d h (unat (r_entry r) - 1)) = name"

lemma live_entry:
  assumes "index_ok d h" "a < unat (h_index_sectors h)" "k < RECORDS" "live_record (rec_of d h a k)"
  shows "unat (r_entry (rec_of d h a k) - 1) = unat (r_entry (rec_of d h a k)) - 1"
    "unat (r_entry (rec_of d h a k)) - 1 < unat (h_table_next h)"
proof -
  have nz: "r_entry (rec_of d h a k) \<noteq> 0" using assms(4) by (simp add: live_record_def)
  then show "unat (r_entry (rec_of d h a k) - 1) = unat (r_entry (rec_of d h a k)) - 1" by (rule unat_pred)
  have "unat (r_entry (rec_of d h a k)) \<le> unat (h_table_next h)" using assms by (simp add: index_ok_def)
  moreover have "unat (r_entry (rec_of d h a k)) \<noteq> 0" using nz by (simp add: unat_eq_zero)
  ultimately show "unat (r_entry (rec_of d h a k)) - 1 < unat (h_table_next h)" by linarith
qed

lemma find_slowly_spec:
  assumes "ready io whole base limit d s" "index_fits limit (head s)" "table_fits limit (head s)" "head s = h" "0 \<notin> set name" "index_ok d h"
    "k \<le> places h"
  shows "\<exists>r t. find_slowly io name [k..<places h] s = Some (r, t) \<and> ready io whole base limit d t \<and> kept s t \<and>
    (case r of
       Some f \<Rightarrow> \<exists>i < unat (h_table_next h). f = slot_of d h i \<and> f_name (entry_of d h i) = name
     | None \<Rightarrow> \<forall>j. k \<le> j \<longrightarrow> j < places h \<longrightarrow> (\<forall>j'. k \<le> j' \<longrightarrow> j' < j \<longrightarrow> r_entry (seen d h (hash_of name) j') \<noteq> 0) \<longrightarrow>
         \<not> wanted d h name (seen d h (hash_of name) j))"
  using assms
proof (induction "places h - k" arbitrary: k s)
  case 0
  then have "k = places h" by simp
  then show ?case using "0.prems" by auto
next
  case (Suc m)
  define hash where "hash = hash_of name"
  define r where "r = seen d h hash k"
  have k: "[k..<places h] = k # [Suc k..<places h]" "k < places h" using Suc by (simp_all add: upt_conv_Cons)
  define a where "a = turn h hash (k div RECORDS)"
  have a: "a < unat (h_index_sectors h)" using turn_less Suc.prems(2,4) by (auto simp: a_def)
  have o: "k mod RECORDS < RECORDS" by (simp add: RECORDS_def)
  have ra: "r = rec_of d h a (k mod RECORDS)" by (simp add: r_def seen_def a_def)
  obtain s1 where s1: "load_sector io (h_index_lba h + of_nat a) s = Some (Inr (), s1)" "ready io whole base limit d s1" "kept s s1"
    "\<forall>k. record_at k (sector s1) = rec_of d h a k"
    using load_turn [OF Suc.prems(1,2), of hash "k div RECORDS"] Suc.prems(4) unfolding a_def by blast
  have h1: "head s1 = h" using s1(3) Suc.prems(4) by (simp add: kept_def)
  have eq: "find_slowly io name [k..<places h] s =
      (if r_entry r = 0 then Some (None, s1)
       else if r_entry r \<noteq> GONE \<and> r_hash r = hash then
         after (named io name [r_entry r - 1] s1) (\<lambda>f s2. if f \<noteq> None then Some (f, s2) else find_slowly io name [Suc k..<places h] s2)
       else find_slowly io name [Suc k..<places h] s1)"
    unfolding k(1) using s1(1,4) Suc.prems(4) by (simp add: Let_def ra a_def turn_def hash_def)
  have more: ?case if u: "ready io whole base limit d u" "kept s u" "find_slowly io name [k..<places h] s = find_slowly io name [Suc k..<places h] u"
    "\<not> wanted d h name r" "r_entry r \<noteq> 0" for u
  proof -
    have hu: "head u = h" using u(2) Suc.prems(4) by (simp add: kept_def)
    have fu: "index_fits limit (head u)" "table_fits limit (head u)" using hu Suc.prems(2-4) by simp_all
    have m: "m = places h - Suc k" using Suc.hyps(2) by simp
    from Suc.hyps(1) [OF m u(1) fu hu Suc.prems(5,6) Suc_leI [OF k(2)]] obtain r' t where t: "find_slowly io name [Suc k..<places h] u = Some (r', t)" "ready io whole base limit d t" "kept u t"
      "case r' of Some f \<Rightarrow> \<exists>i < unat (h_table_next h). f = slot_of d h i \<and> f_name (entry_of d h i) = name
       | None \<Rightarrow> \<forall>j. Suc k \<le> j \<longrightarrow> j < places h \<longrightarrow> (\<forall>j'. Suc k \<le> j' \<longrightarrow> j' < j \<longrightarrow> r_entry (seen d h (hash_of name) j') \<noteq> 0) \<longrightarrow>
         \<not> wanted d h name (seen d h (hash_of name) j)" by blast
    have "\<not> wanted d h name (seen d h (hash_of name) j)"
      if "r' = None" "k \<le> j" "j < places h" "\<forall>j'. k \<le> j' \<longrightarrow> j' < j \<longrightarrow> r_entry (seen d h (hash_of name) j') \<noteq> 0" for j
      using t(4) that u(4) by (cases "j = k") (auto simp: r_def hash_def)
    then show ?thesis using t u(3) kept_trans [OF u(2) t(3)]
      by (intro exI [of _ r'] exI [of _ t]) (auto split: option.splits)
  qed
  show ?case
  proof (cases "r_entry r = 0")
    case True
    have "\<not> wanted d h name (seen d h (hash_of name) j)"
      if "k \<le> j" "\<forall>j'. k \<le> j' \<longrightarrow> j' < j \<longrightarrow> r_entry (seen d h (hash_of name) j') \<noteq> 0" for j
      using that True by (cases "j = k") (auto simp: r_def hash_def wanted_def live_record_def)
    then show ?thesis using True eq s1(2,3) by auto
  next
    case nz: False
    show ?thesis
    proof (cases "r_entry r \<noteq> GONE \<and> r_hash r = hash")
      case False
      then have "\<not> wanted d h name r" by (auto simp: wanted_def live_record_def hash_def)
      then show ?thesis using more [OF s1(2,3)] eq nz False by auto
    next
      case True
      have lv: "live_record r" using nz True by (simp add: live_record_def)
      note le = live_entry [OF Suc.prems(6) a o lv [unfolded ra], folded ra]
      have tf: "table_fits limit (head s1)" using Suc.prems(3,4) h1 by simp
      obtain s2 where s2: "named io name [r_entry r - 1] s1 =
          Some (map_option (\<lambda>e. slot_of d h (unat e)) (find (\<lambda>e. f_name (entry_of d h (unat e)) = name) [r_entry r - 1]), s2)"
          "ready io whole base limit d s2" "kept s1 s2"
        using named_spec [OF s1(2) tf h1 Suc.prems(5), of "[r_entry r - 1]"] le by auto
      show ?thesis
      proof (cases "f_name (entry_of d h (unat (r_entry r) - 1)) = name")
        case True
        then show ?thesis using s2 eq nz lv \<open>r_entry r \<noteq> GONE \<and> r_hash r = hash\<close> le kept_trans [OF s1(3) s2(3)] by auto
      next
        case False
        then have "\<not> wanted d h name r" by (simp add: wanted_def)
        then show ?thesis using more [OF s2(2) kept_trans [OF s1(3) s2(3)]] s2(1) eq nz False True le(1) by auto
      qed
    qed
  qed
qed

section \<open>Finding a name\<close>

text \<open>The kernel has the header \<open>h\<close> in memory, or would read it.\<close>

definition knows ::
  "('f, 'a) io \<Rightarrow> ('f \<Rightarrow> nat \<Rightarrow> sector) \<Rightarrow> nat \<Rightarrow> nat \<Rightarrow> (nat \<Rightarrow> sector) \<Rightarrow> header \<Rightarrow> ('f, 'a) fs_scheme \<Rightarrow> bool" where
  "knows io whole base limit d h s \<longleftrightarrow> ready io whole base limit d s \<and> 1 < limit \<and>
     (if held_table s then head s = h else header_of (d 1) = h \<and> h_magic h = FS_MAGIC)"

definition fs_inv :: "nat \<Rightarrow> (nat \<Rightarrow> sector) \<Rightarrow> header \<Rightarrow> bool" where
  "fs_inv limit d h \<longleftrightarrow> index_fits limit h \<and> table_fits limit h \<and> index_ok d h"

lemma knows_load:
  assumes "knows io whole base limit d h s"
  shows "\<exists>t. load_table io s = Some (Inr (), t) \<and> ready io whole base limit d t \<and> head t = h \<and> held_table t \<and> cwd t = cwd s"
proof (cases "held_table s")
  case True
  then show ?thesis using assms by (simp add: knows_def load_table_def)
next
  case False
  then show ?thesis using assms load_table_spec [of io whole base limit d s h] by (simp add: knows_def)
qed

lemma lookup_unique:
  assumes "index_ok d h" "i < unat (h_table_next h)" "f_name (entry_of d h i) = name" "name \<noteq> []"
  shows "lookup d h name = Some (slot_of d h i)"
proof -
  obtain j where j: "find (\<lambda>i. f_name (entry_of d h i) = name) [0..<unat (h_table_next h)] = Some j"
    using assms(2,3) by (cases "find (\<lambda>i. f_name (entry_of d h i) = name) [0..<unat (h_table_next h)]") (auto simp: find_None_iff)
  then have "j < unat (h_table_next h)" "f_name (entry_of d h j) = name" by (auto simp: find_Some_iff)
  then have "j = i" using assms unfolding index_ok_def by metis
  then show ?thesis using j assms(4) by (simp add: lookup_def)
qed

lemma lookup_None: "lookup d h name = None \<longleftrightarrow> name = [] \<or> (\<forall>i < unat (h_table_next h). f_name (entry_of d h i) \<noteq> name)"
  by (auto simp: lookup_def find_None_iff)

text \<open>The record an entry's name is found by.\<close>

lemma entry_wanted:
  assumes ok: "index_ok d h" and f: "index_fits limit h" and i: "i < unat (h_table_next h)" "f_name (entry_of d h i) = name" "name \<noteq> []"
  obtains j where "j < places h" "wanted d h name (seen d h (hash_of name) j)" "r_entry (seen d h (hash_of name) j) - 1 = of_nat i"
    "\<forall>j' < j. r_entry (seen d h (hash_of name) j') \<noteq> 0"
proof -
  obtain j where j: "j < places h" "r_entry (seen d h (hash_of name) j) = of_nat i + 1" "\<forall>j' < j. r_entry (seen d h (hash_of name) j') \<noteq> 0"
    using ok i unfolding index_ok_def by blast
  have n: "unat (h_table_next h) < 2 ^ 32 - 1" using ok by (simp add: index_ok_def)
  have ui: "unat (of_nat i :: u32) = i" using i(1) n by (simp add: unsigned_of_nat take_bit_nat_eq_self)
  then have u: "unat (of_nat i + 1 :: u32) = i + 1" using i(1) n by (subst unat_add_small) simp_all
  define r where "r = seen d h (hash_of name) j"
  have a: "turn h (hash_of name) (j div RECORDS) < unat (h_index_sectors h)" "j mod RECORDS < RECORDS"
    using turn_less [OF f] by (simp_all add: RECORDS_def)
  have "of_nat i + 1 \<noteq> GONE" using u i(1) n by (auto simp: GONE_def)
  moreover have "of_nat i + 1 \<noteq> (0 :: u32)" using u by auto
  ultimately have lv: "live_record r" using j(2) by (simp add: live_record_def r_def)
  then have "r_hash r = hash_of (f_name (entry_of d h (unat (r_entry r) - 1)))"
    using ok a unfolding index_ok_def r_def seen_def by blast
  moreover have "unat (r_entry r) - 1 = i" using j(2) u by (simp add: r_def)
  ultimately have "wanted d h name r" using lv i(2) by (simp add: wanted_def)
  then show thesis using that j by (simp add: r_def)
qed

lemma fs_find_spec:
  assumes k: "knows io whole base limit d h s" and inv: "fs_inv limit d h" and n: "0 \<notin> set name"
  shows "\<exists>t. fs_find io name s = Some (lookup d h name, t) \<and> knows io whole base limit d h t \<and> cwd t = cwd s \<and>
    (held_table s \<longrightarrow> held_table t) \<and> (name \<noteq> [] \<longrightarrow> held_table t)"
proof (cases "name = []")
  case True
  then show ?thesis using k by (simp add: fs_find_def lookup_def)
next
  case False
  have fit: "index_fits limit h" "table_fits limit h" and ok: "index_ok d h" using inv by (auto simp: fs_inv_def)
  define hash where "hash = hash_of name"
  obtain s1 where s1: "load_table io s = Some (Inr (), s1)" "ready io whole base limit d s1" "head s1 = h" "held_table s1" "cwd s1 = cwd s"
    using knows_load [OF k] by blast
  have l: "1 < limit" using k by (simp add: knows_def)
  have fit1: "index_fits limit (head s1)" using fit s1(3) by simp
  from probe_gather [OF s1(2) fit1 s1(3), of 0 _ hash] obtain found ended p s2 where
    g: "probe_from io hash (gather hash) [0..<unat (h_index_sectors h)] ([], False) s1 = Some (Inr (found, ended), s2)"
      "ready io whole base limit d s2" "kept s1 s2" "p \<le> unat (h_index_sectors h)" "\<forall>j < p * RECORDS. passed hash (seen d h hash j)"
      "if p = unat (h_index_sectors h) then found = [] \<and> \<not> ended
       else gather_records hash (map (rec_of d h (turn h hash p)) [0..<RECORDS]) [] = (found, ended) \<and> (ended \<or> found \<noteq> [])" by auto
  have pr: "probe io hash (gather hash) ([], False) s1 = Some (Inr (found, ended), s2)" using g(1) s1(3) by (simp add: probe_def)
  have h2: "head s2 = h" "held_table s2" "cwd s2 = cwd s" using g(3) s1 by (auto simp: kept_def)
  define a where "a = turn h hash p"
  have a: "a < unat (h_index_sectors h)" using turn_less [OF fit(1)] by (simp add: a_def)
  have fin: "\<exists>k < RECORDS. live_record (rec_of d h a k) \<and> e = r_entry (rec_of d h a k) - 1" if "e \<in> set found" for e
  proof -
    have p: "p \<noteq> unat (h_index_sectors h)" using that g(6) by auto
    then have gr: "gather_records hash (map (rec_of d h a) [0..<RECORDS]) [] = (found, ended)" using g(6) by (simp add: a_def)
    show ?thesis using that gather_spec(2) [OF refl gr, of e] by (auto simp: passed_def live_record_def)
  qed
  have bound: "\<forall>e \<in> set found. unat e < unat (h_table_next h)" using fin live_entry [OF ok a] by fastforce
  have fit2: "table_fits limit (head s2)" "index_fits limit (head s2)" using fit h2 by simp_all
  define c where "c = find (\<lambda>e. f_name (entry_of d h (unat e)) = name) found"
  obtain s3 where s3: "named io name found s2 = Some (map_option (\<lambda>e. slot_of d h (unat e)) c, s3)" "ready io whole base limit d s3" "kept s2 s3"
    using named_spec [OF g(2) fit2(1) h2(1) n bound] by (auto simp: c_def)
  have h3: "head s3 = h" "held_table s3" "cwd s3 = cwd s" using s3(3) h2 by (auto simp: kept_def)
  have eq: "fs_find io name s = (if c \<noteq> None \<or> ended \<or> found = [] then Some (map_option (\<lambda>e. slot_of d h (unat e)) c, s3)
      else find_slowly io name [0..<places h] s3)"
    using False s1(1) pr s3(1) h3(1) by (simp add: fs_find_def hash_def places_def)
  have result: ?thesis if "fs_find io name s = Some (lookup d h name, t)" "ready io whole base limit d t" "head t = h" "held_table t" "cwd t = cwd s" for t
    using that l by (auto simp: knows_def)
  have absent: "lookup d h name = None" if none: "\<And>j. j < places h \<Longrightarrow> wanted d h name (seen d h hash j) \<Longrightarrow> \<forall>j' < j. r_entry (seen d h hash j') \<noteq> 0 \<Longrightarrow> False"
    unfolding lookup_None using False none entry_wanted [OF ok fit(1) _ _ False] unfolding hash_def by metis
  show ?thesis
  proof (cases c)
    case (Some e)
    then have e: "e \<in> set found" "f_name (entry_of d h (unat e)) = name" by (auto simp: c_def find_Some_iff)
    then have "lookup d h name = Some (slot_of d h (unat e))" using lookup_unique [OF ok _ e(2) False] bound by blast
    then show ?thesis using result eq Some s3(2) h3 by simp
  next
    case None
    then have nf: "\<forall>e \<in> set found. f_name (entry_of d h (unat e)) \<noteq> name" by (auto simp: c_def find_None_iff)
    show ?thesis
    proof (cases "ended \<or> found = []")
      case True
      have "lookup d h name = None"
      proof (rule absent)
        fix j assume j: "j < places h" "wanted d h name (seen d h hash j)" "\<forall>j' < j. r_entry (seen d h hash j') \<noteq> 0"
        have np: "\<not> passed hash (seen d h hash j)" using j(2) by (auto simp: wanted_def passed_def live_record_def hash_def)
        then have "p * RECORDS \<le> j" using g(5) not_le by blast
        then have pl: "p \<noteq> unat (h_index_sectors h)" using j(1) by (auto simp: places_def)
        then have gr: "gather_records hash (map (rec_of d h a) [0..<RECORDS]) [] = (found, ended)" "ended \<or> found \<noteq> []"
          using g(6) by (auto simp: a_def)
        have en: "ended" using True gr(2) by auto
        define k where "k = j - p * RECORDS"
        have sj: "seen d h hash (p * RECORDS + k') = rec_of d h a k'" if "k' < RECORDS" for k' using seen_rec [OF that] by (simp add: a_def)
        obtain z where z: "z < RECORDS" "r_entry (rec_of d h a z) = 0" using gather_spec(1) [OF refl gr(1)] en by blast
        have "j \<le> p * RECORDS + z" using j(3) z sj [OF z(1)] not_less by metis
        then have kz: "k \<le> z" "k < RECORDS" "j = p * RECORDS + k" using z(1) \<open>p * RECORDS \<le> j\<close> by (auto simp: k_def)
        have "\<forall>k' \<le> k. r_entry (rec_of d h a k') \<noteq> 0"
        proof (intro allI impI)
          fix k' assume k': "k' \<le> k"
          show "r_entry (rec_of d h a k') \<noteq> 0"
          proof (cases "k' = k")
            case True
            then show ?thesis using j(2) sj [of k] kz by (simp add: wanted_def live_record_def)
          next
            case False
            then have "p * RECORDS + k' < j" using kz k' by simp
            then show ?thesis using j(3) sj [of k'] kz k' by (metis le_trans leD linorder_not_less)
          qed
        qed
        then have "r_entry (rec_of d h a k) - 1 \<in> set found"
          using gather_spec(2) [OF refl gr(1)] kz np sj [OF kz(2)] by auto
        moreover have "live_record (rec_of d h a k)" "f_name (entry_of d h (unat (r_entry (rec_of d h a k)) - 1)) = name"
          using j(2) sj [OF kz(2)] kz(3) by (auto simp: wanted_def)
        ultimately show False using nf live_entry(1) [OF ok a kz(2)] by fastforce
      qed
      then show ?thesis using result eq None True s3(2) h3 by simp
    next
      case go: False
      have fit3: "index_fits limit (head s3)" "table_fits limit (head s3)" using fit h3 by simp_all
      from find_slowly_spec [OF s3(2) fit3 h3(1) n ok, of 0] obtain r t where
        t: "find_slowly io name [0..<places h] s3 = Some (r, t)" "ready io whole base limit d t" "kept s3 t" and
        c: "case r of Some f \<Rightarrow> \<exists>i < unat (h_table_next h). f = slot_of d h i \<and> f_name (entry_of d h i) = name
           | None \<Rightarrow> \<forall>j. 0 \<le> j \<longrightarrow> j < places h \<longrightarrow> (\<forall>j'. 0 \<le> j' \<longrightarrow> j' < j \<longrightarrow> r_entry (seen d h hash j') \<noteq> 0) \<longrightarrow> \<not> wanted d h name (seen d h hash j)"
        unfolding hash_def using le0 by blast
      have "r = lookup d h name"
      proof (cases r)
        case None
        then show ?thesis using c absent by auto
      next
        case (Some f)
        then show ?thesis using c lookup_unique [OF ok _ _ False] by auto
      qed
      then show ?thesis using result [of t] eq None go t h3 by (simp add: kept_def)
    qed
  qed
qed

end
