(* ===== verification/FsStore.thy ===== *)
theory FsStore
  imports Fs FsFind
begin

text \<open>
  The filesystem as a map from names to contents, and the operations on it: the invariant of the whole
  disk (the index, the chain of free entries, and where everything lies), and what finding room, writing
  data, entering a name in the index and taking one out do to it.
\<close>

section \<open>Where everything lies\<close>

definition size_of :: "fs_file \<Rightarrow> nat" where
  "size_of f = unat (f_size f AND NOT FS_LINK)"

definition sectors_of :: "nat \<Rightarrow> nat" where
  "sectors_of n = (n + 511) div 512"

definition table_area :: "header \<Rightarrow> nat set" where
  "table_area h = {unat (h_table_lba h) ..< unat (h_table_lba h) + sectors_of (128 * unat (h_table_size h))}"

definition index_area :: "header \<Rightarrow> nat set" where
  "index_area h = {unat (h_index_lba h) ..< unat (h_index_lba h) + unat (h_index_sectors h)}"

definition file_area :: "fs_file \<Rightarrow> nat set" where
  "file_area f = (if f_name f = [] then {} else {unat (f_start f) ..< unat (f_start f) + sectors_of (size_of f)})"

text \<open>
  Everything lies before \<open>data_end\<close>, and nothing on anything else; a file has a place, an empty one too.
\<close>

definition laid :: "nat \<Rightarrow> (nat \<Rightarrow> sector) \<Rightarrow> header \<Rightarrow> bool" where
  "laid limit d h \<longleftrightarrow> unat (h_data_end h) \<le> unat (h_disk_sectors h) \<and> unat (h_disk_sectors h) \<le> limit \<and>
     unat (h_table_next h) \<le> unat (h_table_size h) \<and> unat (h_table_size h) < 2 ^ 25 \<and>
     table_area h \<union> index_area h \<union> (\<Union>i < unat (h_table_next h). file_area (entry_of d h i)) \<subseteq> {2 ..< unat (h_data_end h)} \<and>
     2 \<le> unat (h_data_end h) \<and>
     table_area h \<inter> index_area h = {} \<and>
     (\<forall>i < unat (h_table_next h). f_name (entry_of d h i) \<noteq> [] \<longrightarrow> last (f_name (entry_of d h i)) \<noteq> slash \<longrightarrow> f_start (entry_of d h i) \<noteq> 0) \<and>
     (\<forall>i < unat (h_table_next h). file_area (entry_of d h i) \<inter> (table_area h \<union> index_area h) = {}) \<and>
     (\<forall>i < unat (h_table_next h). \<forall>j < unat (h_table_next h). i \<noteq> j \<longrightarrow> file_area (entry_of d h i) \<inter> file_area (entry_of d h j) = {})"

text \<open>The chain of free entries, from a link on.\<close>

fun free_chain :: "(nat \<Rightarrow> sector) \<Rightarrow> header \<Rightarrow> u32 \<Rightarrow> nat list \<Rightarrow> bool" where
  "free_chain d h e [] = (e = 0)"
| "free_chain d h e (x # xs) = (e \<noteq> 0 \<and> unat (e - 1) = x \<and> x < unat (h_table_next h) \<and> f_name (entry_of d h x) = [] \<and>
     free_chain d h (f_start (entry_of d h x)) xs)"

definition free_ok :: "(nat \<Rightarrow> sector) \<Rightarrow> header \<Rightarrow> bool" where
  "free_ok d h \<longleftrightarrow> (\<exists>xs. free_chain d h (h_free_head h) xs \<and> distinct xs)"

text \<open>The records of the index ever used.\<close>

definition used_places :: "(nat \<Rightarrow> sector) \<Rightarrow> header \<Rightarrow> (nat \<times> nat) set" where
  "used_places d h = {(a, k). a < unat (h_index_sectors h) \<and> k < RECORDS \<and> r_entry (rec_of d h a k) \<noteq> 0}"

definition sound :: "nat \<Rightarrow> (nat \<Rightarrow> sector) \<Rightarrow> header \<Rightarrow> bool" where
  "sound limit d h \<longleftrightarrow> h_magic h = FS_MAGIC \<and> fs_inv limit d h \<and> laid limit d h \<and> free_ok d h \<and>
     card (used_places d h) = unat (h_index_taken h) \<and> places h < 2 ^ 32"

section \<open>The files\<close>

text \<open>What the sectors of a file hold, and the files by their names: whether one is a link, and its bytes.\<close>

definition data_at :: "(nat \<Rightarrow> sector) \<Rightarrow> nat \<Rightarrow> nat \<Rightarrow> u8 list" where
  "data_at d start n = take n (concat (map d [start..<start + sectors_of n]))"

definition files :: "(nat \<Rightarrow> sector) \<Rightarrow> header \<Rightarrow> u8 list \<rightharpoonup> bool \<times> u8 list" where
  "files d h name = map_option (\<lambda>f. (is_link f, data_at d (unat (s_start f)) (unat (bytes_of f)))) (lookup d h name)"

lemma files_lookup: "name \<in> dom (files d h) \<longleftrightarrow> lookup d h name \<noteq> None"
  by (auto simp: files_def)

lemma data_at_cong: "(\<And>a. start \<le> a \<Longrightarrow> a < start + sectors_of n \<Longrightarrow> d' a = d a) \<Longrightarrow> data_at d' start n = data_at d start n"
  unfolding data_at_def by (intro arg_cong [where f = "\<lambda>x. take n (concat x)"] map_cong) auto

lemma link_bit: "bit FS_LINK n \<longleftrightarrow> n = 31"
proof -
  have l: "FS_LINK = push_bit 31 1" by (simp add: FS_LINK_def)
  show ?thesis unfolding l by (auto simp: bit_simps simp del: push_bit_of_1)
qed

lemma no_link_mask: "x AND NOT FS_LINK = take_bit 31 x"
  by (rule bit_word_eqI) (auto simp: link_bit bit_simps)

lemma small_size: "unat (x AND NOT FS_LINK) < 2 ^ 31"
  using take_bit_nat_less_exp [of 31 "unat x"] by (simp add: no_link_mask unsigned_take_bit_eq)

lemma sectors_for_nat: "unat n < 2 ^ 31 \<Longrightarrow> unat (sectors_for n) = sectors_of (unat n)"
  by (simp add: sectors_for_def sectors_of_def word_nat unat_word_ariths)

lemma unat_word_of_nat: "n < 2 ^ 32 \<Longrightarrow> unat (of_nat n :: u32) = n"
  by (simp add: unsigned_of_nat take_bit_nat_eq_self)

section \<open>Data\<close>

lemma concat_sectors: "\<forall>x \<in> set xs. length x = SECTOR_SIZE \<Longrightarrow> length (concat xs) = SECTOR_SIZE * length xs"
  by (induction xs) auto

lemma whole_sectors_concat:
  "n * SECTOR_SIZE \<le> length data \<Longrightarrow> concat (whole_sectors n data) = take (n * SECTOR_SIZE) data"
  "n * SECTOR_SIZE \<le> length data \<Longrightarrow> x \<in> set (whole_sectors n data) \<Longrightarrow> length x = SECTOR_SIZE"
  "length (whole_sectors n data) = n"
proof -
  show "concat (whole_sectors n data) = take (n * SECTOR_SIZE) data" if "n * SECTOR_SIZE \<le> length data"
    using that
  proof (induction n)
    case 0
    then show ?case by (simp add: whole_sectors_def)
  next
    case (Suc n)
    then have "concat (whole_sectors n data) = take (n * SECTOR_SIZE) data" by simp
    then show ?case by (simp add: whole_sectors_def take_add [symmetric] mult.commute add.commute)
  qed
  show "length (whole_sectors n data) = n" by (simp add: whole_sectors_def)
  assume "n * SECTOR_SIZE \<le> length data" "x \<in> set (whole_sectors n data)"
  then obtain k where k: "k < n" "x = take SECTOR_SIZE (drop (SECTOR_SIZE * k) data)" by (auto simp: whole_sectors_def)
  have "SECTOR_SIZE * Suc k \<le> SECTOR_SIZE * n" using k(1) by (intro mult_le_mono) simp_all
  then show "length x = SECTOR_SIZE" using k(2) \<open>n * SECTOR_SIZE \<le> length data\<close> by (simp add: mult.commute)
qed

lemma write_at_same: "map (write_at a xs d) [a..<a + length xs] = xs"
  by (intro nth_equalityI) (auto simp: write_at_def)

text \<open>The sectors a file's bytes become.\<close>

definition sectors_from :: "u8 list \<Rightarrow> sector list" where
  "sectors_from data =
     (let whole = length data div SECTOR_SIZE
      in whole_sectors whole data @
         (if whole * SECTOR_SIZE < length data then [splice 0 (drop (whole * SECTOR_SIZE) data) (replicate SECTOR_SIZE 0)] else []))"

lemma sectors_from_spec:
  "length (sectors_from data) = sectors_of (length data)" "x \<in> set (sectors_from data) \<Longrightarrow> length x = SECTOR_SIZE"
  "take (length data) (concat (sectors_from data)) = data"
proof -
  define w where "w = length data div SECTOR_SIZE"
  have w: "w * SECTOR_SIZE \<le> length data" "length data - w * SECTOR_SIZE < SECTOR_SIZE" by (auto simp: w_def SECTOR_SIZE_def)
  note c = whole_sectors_concat(1,2) [OF w(1)] whole_sectors_concat(3)
  show "length (sectors_from data) = sectors_of (length data)"
    by (auto simp: sectors_from_def Let_def c sectors_of_def SECTOR_SIZE_def)
  show "length x = SECTOR_SIZE" if "x \<in> set (sectors_from data)"
    using that w c(2) unfolding sectors_from_def Let_def w_def [symmetric] by (auto split: if_splits)
  show "take (length data) (concat (sectors_from data)) = data"
    using w unfolding sectors_from_def Let_def w_def [symmetric] by (auto simp: c(1) splice_def min_def)
qed

lemma data_at_written:
  assumes "length data < 2 ^ 31"
  shows "data_at (write_at a (sectors_from data) d) a (length data) = data"
  using write_at_same [of a "sectors_from data" d] sectors_from_spec [of data] by (simp add: data_at_def)

lemma store_data_spec:
  assumes r: "ready io whole base limit d s" and n: "length data < 2 ^ 31" "unat start + sectors_of (length data) \<le> limit"
  shows "\<exists>t. store_data io start (sectors_for (of_nat (length data))) data s = Some (Inr (), t) \<and>
    ready io whole base limit (write_at (unat start) (sectors_from data) d) t \<and> kept s t"
proof -
  define w where "w = length data div SECTOR_SIZE"
  have w: "w * SECTOR_SIZE \<le> length data" "w < 2 ^ 32" "length data - w * SECTOR_SIZE < SECTOR_SIZE"
    using n by (auto simp: w_def SECTOR_SIZE_def)
  have wc: "w \<le> sectors_of (length data)" "w < sectors_of (length data) \<longleftrightarrow> w * SECTOR_SIZE < length data" 
    using w by (auto simp: w_def SECTOR_SIZE_def sectors_of_def)
  define wh :: u32 where "wh = of_nat w"
  have uw: "unat wh = w" using w(2) by (simp add: wh_def unat_word_of_nat)
  have ul: "unat (of_nat (length data) :: u32) = length data" using n(1) by (intro unat_word_of_nat) simp
  have cn: "unat (sectors_for (of_nat (length data))) = sectors_of (length data)" using sectors_for_nat ul n(1) by metis
  define xs where "xs = whole_sectors w data"
  have xs: "length xs = w" "\<forall>x \<in> set xs. length x = SECTOR_SIZE" using whole_sectors_concat w(1) by (auto simp: xs_def)
  have lim: "limit \<le> 2 ^ 32 - 128" using ready_limit(1) [OF r] .
  have "\<exists>t. (if wh > 0 then put io start wh (Buffer xs) s else Some (True, s)) = Some (True, t) \<and>
      ready io whole base limit (write_at (unat start) xs d) t \<and> kept s t"
  proof (cases "w = 0")
    case True
    then have "write_at (unat start) xs d = d" using xs by (auto simp: write_at_def fun_eq_iff)
    then show ?thesis using True r by (simp add: wh_def)
  next
    case False
    then have "wh \<noteq> 0" using uw by auto
    then show ?thesis using put_buffer [OF r _ _ _ xs(2), of start wh] uw wc n(2) xs(1) by (simp add: word_gt_0)
  qed
  then obtain s1 where s1: "(if wh > 0 then put io start wh (Buffer xs) s else Some (True, s)) = Some (True, s1)"
    "ready io whole base limit (write_at (unat start) xs d) s1" "kept s s1" by blast
  show ?thesis
  proof (cases "w < sectors_of (length data)")
    case False
    then have "sectors_from data = xs" using wc by (simp add: sectors_from_def xs_def w_def)
    moreover have "\<not> wh < sectors_for (of_nat (length data))" using False uw cn by (simp add: word_nat)
    ultimately show ?thesis using s1 unfolding store_data_def Let_def w_def [symmetric] wh_def [symmetric] uw xs_def [symmetric] by simp
  next
    case True
    define x where "x = splice 0 (drop (w * SECTOR_SIZE) data) (replicate SECTOR_SIZE 0)"
    have x: "length x = SECTOR_SIZE" using w by (simp add: x_def)
    obtain i s2 where ts: "take_slot 0 s1 = (i, s2)" by fastforce
    have so: "slots_ok s1" using s1(2) by (simp add: ready_def at_hand_def)
    note t2 = take_slot_spec [OF so ts]
    have sc: "scratch s1 = s2" using ts by (simp add: scratch_def)
    have r2: "ready io whole base limit (write_at (unat start) xs d) s2"
      using s1(2) t2 running_above [OF t2(7)] unfolding ready_def at_hand_def
      by (auto simp: nth_list_update slots_ok_def split: if_splits)
    have z: "recent_lba s2 ! cur s2 \<in> {0, start + wh}" using t2 so by (simp add: slots_ok_def)
    have us: "unat (start + wh) = unat start + w" using n(2) wc uw lim by (subst unat_add_small) simp_all
    obtain t where t: "put io (start + wh) 1 Sector (set_sector x s2) = Some (True, t)"
      "ready io whole base limit (write_at (unat (start + wh)) [x] (write_at (unat start) xs d)) t" "kept s2 t"
      using put_sector [OF r2 _ z x] us True n(2) by auto
    have sf: "sectors_from data = xs @ [x]" using True wc by (simp add: sectors_from_def xs_def w_def x_def Let_def)
    have "wh < sectors_for (of_nat (length data))" using True uw cn by (simp add: word_nat)
    then have "store_data io start (sectors_for (of_nat (length data))) data s = Some (Inr (), t)"
      using s1(1) t(1) unfolding store_data_def Let_def w_def [symmetric] wh_def [symmetric] uw xs_def [symmetric]
      by (simp add: sc flip: x_def)
    then show ?thesis using t us xs(1) sf kept_trans [OF s1(3) kept_trans [OF t2(8) t(3)]] by (simp flip: write_at_append)
  qed
qed

section \<open>Records of the index\<close>

text \<open>The records \<open>place\<close> stops at.\<close>

definition stops :: "u32 \<Rightarrow> record' \<Rightarrow> bool" where
  "stops remove r \<longleftrightarrow> (if remove \<noteq> 0 then r_entry r = remove \<or> r_entry r = 0 else r_entry r = 0 \<or> r_entry r = GONE)"

definition place_rec :: "(nat \<Rightarrow> sector) \<Rightarrow> header \<Rightarrow> nat \<Rightarrow> nat \<Rightarrow> record' \<Rightarrow> (nat \<Rightarrow> sector)" where
  "place_rec d h a k r = (let l = unat (h_index_lba h) + a in d(l := splice (12 * k) (record_bytes r) (d l)))"

definition gone_rec :: record' where
  "gone_rec = \<lparr>r_hash = 0, r_parent = 0, r_entry = GONE\<rparr>"

lemma place_step:
  assumes r: "ready io whole base limit d s" and f: "index_fits limit (head s)" and h: "head s = h" and a: "a < unat (h_index_sectors h)"
    and cur: "sector s = d (unat (h_index_lba h) + a)" "recent_lba s ! cur s = h_index_lba h + of_nat a"
    and k: "k < RECORDS" "stops remove (rec_of d h a k)" "\<forall>k' < k. \<not> stops remove (rec_of d h a k')"
    and e: "e = r_entry (rec_of d h a k)" "remove \<noteq> 0 \<longrightarrow> e \<noteq> 0"
  shows "\<exists>t. place io rec remove (h_index_lba h + of_nat a) () s = Some ((True, ()), t) \<and>
    ready io whole base limit (place_rec d h a k (if remove \<noteq> 0 then gone_rec else rec)) t \<and>
    kept (s\<lparr>head := if remove = 0 \<and> e = 0 then h\<lparr>h_index_taken := h_index_taken h + 1\<rparr> else h\<rparr>) t"
proof -
  have la: "unat (h_index_lba h + of_nat a) = unat (h_index_lba h) + a" "unat (h_index_lba h) + a < limit"
    using index_lba [OF f ready_limit(1) [OF r]] h a by simp_all
  have rc: "record_at j (sector s) = rec_of d h a j" for j using cur by (simp add: rec_of_def)
  have st: "(let e = r_entry (record_at i (sector s)) in if remove \<noteq> 0 then e = remove \<or> e = 0 else e = 0 \<or> e = GONE) = stops remove (rec_of d h a i)" for i
    by (simp add: rc stops_def Let_def)
  have fk: "find (\<lambda>i. let e = r_entry (record_at i (sector s)) in if remove \<noteq> 0 then e = remove \<or> e = 0 else e = 0 \<or> e = GONE) [0..<RECORDS] = Some k"
    unfolding st using k by (auto simp: find_Some_iff intro!: exI [of _ k])
  define new where "new = (if remove \<noteq> 0 then gone_rec else rec)"
  define x where "x = splice (12 * k) (record_bytes new) (sector s)"
  have "length (sector s) = SECTOR_SIZE" using ready_limit(2) [OF r la(2)] cur(1) by simp
  then have x: "length x = SECTOR_SIZE" using k(1) by (simp add: x_def SECTOR_SIZE_def RECORDS_def)
  define s1 where "s1 = (if remove = 0 \<and> e = 0 then s\<lparr>head := h\<lparr>h_index_taken := h_index_taken h + 1\<rparr>\<rparr> else s)"
  have s1: "ready io whole base limit d s1" "recent_lba s1 ! cur s1 = h_index_lba h + of_nat a" "sector s1 = sector s"
    using r cur(2) by (simp_all add: s1_def sector_def)
  obtain t where t: "put io (h_index_lba h + of_nat a) 1 Sector (set_sector x s1) = Some (True, t)"
      "ready io whole base limit (write_at (unat (h_index_lba h) + a) [x] d) t" "kept s1 t"
    using put_sector [OF s1(1) _ _ x, of "h_index_lba h + of_nat a"] s1(2) la by auto
  have "place io rec remove (h_index_lba h + of_nat a) () s = Some ((True, ()), t)"
    unfolding place_def fk using e t(1) rc [of k] h by (auto simp: Let_def new_def gone_rec_def x_def s1_def sector_def split: if_splits)
  moreover have "write_at (unat (h_index_lba h) + a) [x] d = place_rec d h a k new"
    using cur(1) by (auto simp: write_at_def place_rec_def Let_def x_def fun_eq_iff)
  moreover have "kept (s\<lparr>head := if remove = 0 \<and> e = 0 then h\<lparr>h_index_taken := h_index_taken h + 1\<rparr> else h\<rparr>) t"
    using t(3) h by (simp add: kept_def s1_def)
  ultimately show ?thesis using t(2) by (simp add: new_def)
qed

text \<open>The first place a search by sectors stops at, counted from its start.\<close>

definition first_stop :: "u32 \<Rightarrow> (nat \<Rightarrow> sector) \<Rightarrow> header \<Rightarrow> u32 \<Rightarrow> nat \<Rightarrow> bool" where
  "first_stop remove d h hash j \<longleftrightarrow> j < places h \<and> stops remove (seen d h hash j) \<and> (\<forall>j' < j. \<not> stops remove (seen d h hash j'))"

lemma probe_place:
  assumes "ready io whole base limit d s" "index_fits limit (head s)" "head s = h" "q \<le> j div RECORDS" "first_stop remove d h hash j"
    and e: "e = r_entry (seen d h hash j)" "remove \<noteq> 0 \<longrightarrow> e \<noteq> 0"
  shows "\<exists>t. probe_from io hash (place io rec remove) [q..<unat (h_index_sectors h)] () s = Some (Inr (), t) \<and>
    ready io whole base limit (place_rec d h (turn h hash (j div RECORDS)) (j mod RECORDS) (if remove \<noteq> 0 then gone_rec else rec)) t \<and>
    kept (s\<lparr>head := if remove = 0 \<and> e = 0 then h\<lparr>h_index_taken := h_index_taken h + 1\<rparr> else h\<rparr>) t"
  using assms(1-4)
proof (induction "j div RECORDS - q" arbitrary: q s)
  case 0
  then have q: "q = j div RECORDS" by simp
  have j: "j < places h" "stops remove (seen d h hash j)" "\<And>j'. j' < j \<Longrightarrow> \<not> stops remove (seen d h hash j')"
    using assms(5) by (auto simp: first_stop_def)
  have R: "0 < RECORDS" "j mod RECORDS < RECORDS" by (simp_all add: RECORDS_def)
  have qn: "q < unat (h_index_sectors h)" using j(1) R by (simp add: q places_def less_mult_imp_div_less)
  define a where "a = turn h hash q"
  have a: "a < unat (h_index_sectors h)" using turn_less "0.prems" by (auto simp: a_def)
  have tn: "(hash + of_nat q) mod h_index_sectors h = of_nat a" using probe_turn "0.prems" by (simp add: a_def)
  obtain s1 where s1: "load_sector io (h_index_lba h + of_nat a) s = Some (Inr (), s1)" "ready io whole base limit d s1" "kept s s1"
    "sector s1 = d (unat (h_index_lba h) + a)" "recent_lba s1 ! cur s1 = h_index_lba h + of_nat a"
  proof -
    note l = index_lba [OF "0.prems"(2) ready_limit(1) [OF "0.prems"(1)], of a]
    show thesis using load_sector_spec [OF "0.prems"(1) _ l(3)] l(1,2) a "0.prems"(3) that by auto
  qed
  have h1: "head s1 = h" using s1(3) "0.prems"(3) by (simp add: kept_def)
  have f1: "index_fits limit (head s1)" using h1 "0.prems"(2,3) by simp
  have jj: "seen d h hash j = rec_of d h a (j mod RECORDS)" by (simp add: seen_def a_def q)
  have before: "\<forall>k' < j mod RECORDS. \<not> stops remove (rec_of d h a k')"
  proof (intro allI impI)
    fix k' assume k': "k' < j mod RECORDS"
    then have "q * RECORDS + k' < j" unfolding q by (metis add_less_cancel_left div_mult_mod_eq)
    then show "\<not> stops remove (rec_of d h a k')" using j(3) [of "q * RECORDS + k'"] seen_rec [of k' d h hash q] k' R by (simp add: a_def)
  qed
  have stj: "stops remove (rec_of d h a (j mod RECORDS))" "e = r_entry (rec_of d h a (j mod RECORDS))" using j(2) jj e by auto
  obtain t where t: "place io rec remove (h_index_lba h + of_nat a) () s1 = Some ((True, ()), t)"
    "ready io whole base limit (place_rec d h a (j mod RECORDS) (if remove \<noteq> 0 then gone_rec else rec)) t"
    "kept (s1\<lparr>head := if remove = 0 \<and> e = 0 then h\<lparr>h_index_taken := h_index_taken h + 1\<rparr> else h\<rparr>) t"
    using place_step [OF s1(2) f1 h1 a s1(4,5) R(2) stj(1) before stj(2) e(2)] by blast
  have "probe_from io hash (place io rec remove) [q..<unat (h_index_sectors h)] () s = Some (Inr (), t)"
    unfolding upt_conv_Cons [OF qn] using s1(1) tn t(1) "0.prems"(3) by (simp add: Let_def)
  moreover have "kept (s\<lparr>head := if remove = 0 \<and> e = 0 then h\<lparr>h_index_taken := h_index_taken h + 1\<rparr> else h\<rparr>) t"
    using t(3) s1(3) by (simp add: kept_def)
  ultimately show ?case using t(2) by (auto simp: a_def q)
next
  case (Suc m)
  have j: "j < places h" "\<And>j'. j' < j \<Longrightarrow> \<not> stops remove (seen d h hash j')"
    using assms(5) by (auto simp: first_stop_def)
  have R: "0 < RECORDS" by (simp add: RECORDS_def)
  have qj: "q < j div RECORDS" using Suc.hyps(2) by simp
  then have qn: "q < unat (h_index_sectors h)" using j(1) less_mult_imp_div_less [of j "unat (h_index_sectors h)" RECORDS] by (simp add: places_def)
  define a where "a = turn h hash q"
  have tn: "(hash + of_nat q) mod h_index_sectors h = of_nat a" using probe_turn Suc.prems by (simp add: a_def)
  obtain s1 where s1: "load_sector io (h_index_lba h + of_nat a) s = Some (Inr (), s1)" "ready io whole base limit d s1" "kept s s1"
    "\<forall>k. record_at k (sector s1) = rec_of d h a k"
    using load_turn [OF Suc.prems(1,2), of hash q] Suc.prems(3) unfolding a_def by blast
  have h1: "head s1 = h" using s1(3) Suc.prems(3) by (simp add: kept_def)
  have f1: "index_fits limit (head s1)" using h1 Suc.prems(2,3) by simp
  have none: "\<not> stops remove (rec_of d h a k)" if "k < RECORDS" for k
  proof -
    have "Suc q * RECORDS \<le> j" using qj R by (metis Suc_leI less_eq_div_iff_mult_less_eq)
    then have "q * RECORDS + k < j" using that by simp
    then show ?thesis using j(2) [of "q * RECORDS + k"] seen_rec [OF that, of d h hash q] by (simp add: a_def)
  qed
  have fk: "find (\<lambda>i. let e = r_entry (record_at i (sector s1)) in if remove \<noteq> 0 then e = remove \<or> e = 0 else e = 0 \<or> e = GONE) [0..<RECORDS] = None"
    using none s1(4) by (simp add: find_None_iff stops_def Let_def)
  have eq: "probe_from io hash (place io rec remove) [q..<unat (h_index_sectors h)] () s =
      probe_from io hash (place io rec remove) [Suc q..<unat (h_index_sectors h)] () s1"
    unfolding upt_conv_Cons [OF qn] using s1(1) tn Suc.prems(3) by (simp add: Let_def place_def fk [unfolded Let_def])
  have m: "m = j div RECORDS - Suc q" using Suc.hyps(2) by simp
  from Suc.hyps(1) [OF m s1(2) f1 h1 Suc_leI [OF qj]] show ?case
    unfolding eq using s1(3) by (simp add: kept_def)
qed

text \<open>What a record placed changes: itself.\<close>

lemma rec_of_place:
  assumes "length (d (unat (h_index_lba h) + a)) = SECTOR_SIZE" "k < RECORDS" "k' < RECORDS"
  shows "rec_of (place_rec d h a k r) h a' k' = (if a' = a \<and> k' = k then r else rec_of d h a' k')"
  using record_at_splice [OF assms, of r] by (auto simp: rec_of_def place_rec_def Let_def)

lemma turn_inj:
  assumes "turn h hash q = turn h hash q'" "q < unat (h_index_sectors h)" "q' < unat (h_index_sectors h)"
  shows "q = q'"
proof -
  define n where "n = unat (h_index_sectors h)"
  have e: "(unat hash + q) mod n = (unat hash + q') mod n" using assms(1) by (simp add: turn_def n_def)
  have d: "q' = q" if "q \<le> q'" "(unat hash + q') mod n = (unat hash + q) mod n" "q' < n" for q q'
  proof -
    have "n dvd q' - q" using mod_eq_dvd_iff_nat [of "unat hash + q" "unat hash + q'" n] that(1,2) by simp
    then show ?thesis using that(1,3) dvd_imp_le [of n "q' - q"] by fastforce
  qed
  show ?thesis using d [of q q'] d [of q' q] e assms(2,3) linear [of q q'] unfolding n_def by metis
qed

text \<open>There is a place for a record while one was never used, and the record of an entry in use is found.\<close>

lemma free_stop:
  assumes "card (used_places d h) < places h"
  shows "\<exists>j. first_stop 0 d h hash j"
proof -
  have "\<exists>j < places h. stops 0 (seen d h hash j)"
  proof (rule ccontr)
    assume n: "\<not> (\<exists>j < places h. stops 0 (seen d h hash j))"
    define g where "g = (\<lambda>j. (turn h hash (j div RECORDS), j mod RECORDS))"
    have dv: "j div RECORDS < unat (h_index_sectors h)" if "j < places h" for j using that by (simp add: places_def less_mult_imp_div_less)
    have "inj_on g {..<places h}"
      using turn_inj [of h hash] dv by (intro inj_onI) (metis g_def Pair_inject div_mult_mod_eq lessThan_iff)
    moreover have "g ` {..<places h} \<subseteq> used_places d h"
    proof (rule image_subsetI)
      fix j assume "j \<in> {..<places h}"
      then have j: "j < places h" "\<not> stops 0 (seen d h hash j)" using n by auto
      then have "0 < unat (h_index_sectors h)" by (cases "unat (h_index_sectors h)") (auto simp: places_def)
      then show "g j \<in> used_places d h" using j by (simp add: g_def used_places_def seen_def stops_def turn_def RECORDS_def)
    qed
    moreover have "finite (used_places d h)"
      by (rule finite_subset [of _ "{..<unat (h_index_sectors h)} \<times> {..<RECORDS}"]) (auto simp: used_places_def)
    ultimately have "card {..<places h} \<le> card (used_places d h)" by (intro card_inj_on_le)
    then show False using assms by simp
  qed
  then have ex: "\<exists>j. j < places h \<and> stops 0 (seen d h hash j)" by blast
  define j where "j = (LEAST j. j < places h \<and> stops 0 (seen d h hash j))"
  have "j < places h \<and> stops 0 (seen d h hash j)" unfolding j_def by (rule LeastI_ex [OF ex])
  moreover have "\<not> stops 0 (seen d h hash j')" if "j' < j" for j'
    using not_less_Least [OF that [unfolded j_def]] that calculation by auto
  ultimately show ?thesis by (auto simp: first_stop_def)
qed

lemma entry_word:
  assumes "i + 1 < 2 ^ 32 - 1"
  shows "unat (of_nat i + 1 :: u32) = i + 1" "of_nat i + 1 \<noteq> (0 :: u32)" "of_nat i + 1 \<noteq> GONE"
proof -
  have "unat (of_nat i :: u32) = i" using assms by (intro unat_word_of_nat) simp
  then show u: "unat (of_nat i + 1 :: u32) = i + 1" using assms by (subst unat_add_small) simp_all
  show "of_nat i + 1 \<noteq> (0 :: u32)" using u by auto
  show "of_nat i + 1 \<noteq> GONE" using u assms by (auto simp: GONE_def)
qed

lemma entry_stop:
  assumes ok: "index_ok d h" and i: "i < unat (h_table_next h)" "f_name (entry_of d h i) \<noteq> []"
  obtains j where "first_stop (of_nat i + 1) d h (hash_of (f_name (entry_of d h i))) j"
    "r_entry (seen d h (hash_of (f_name (entry_of d h i))) j) = of_nat i + 1"
proof -
  define hash where "hash = hash_of (f_name (entry_of d h i))"
  define rm :: u32 where "rm = of_nat i + 1"
  have nx: "i + 1 < 2 ^ 32 - 1" using ok i(1) by (simp add: index_ok_def)
  have rm: "rm \<noteq> 0" using entry_word [OF nx] by (simp add: rm_def)
  obtain j where j: "j < places h" "r_entry (seen d h hash j) = rm" "\<forall>j' < j. r_entry (seen d h hash j') \<noteq> 0"
    using ok i unfolding index_ok_def hash_def rm_def by blast
  define m where "m = (LEAST m. stops rm (seen d h hash m))"
  have sj: "stops rm (seen d h hash j)" using j(2) rm by (simp add: stops_def)
  have m: "stops rm (seen d h hash m)" "m \<le> j" unfolding m_def by (rule LeastI [of _ j], rule sj) (rule Least_le, rule sj)
  have "\<forall>m' < m. \<not> stops rm (seen d h hash m')" using not_less_Least unfolding m_def by blast
  then have fs: "first_stop rm d h hash m" using m j(1) by (simp add: first_stop_def)
  have "r_entry (seen d h hash m) = rm" using m j rm by (cases "m = j") (auto simp: stops_def)
  then show thesis using that fs by (simp add: hash_def rm_def)
qed

section \<open>Names entered and taken out\<close>

text \<open>The facts of \<open>index_ok\<close>, one at a time.\<close>

definition points_true :: "(nat \<Rightarrow> sector) \<Rightarrow> header \<Rightarrow> record' \<Rightarrow> bool" where
  "points_true d h r \<longleftrightarrow> unat (r_entry r) \<le> unat (h_table_next h) \<and> f_name (entry_of d h (unat (r_entry r) - 1)) \<noteq> [] \<and>
     r_hash r = hash_of (f_name (entry_of d h (unat (r_entry r) - 1)))"

definition meets :: "(nat \<Rightarrow> sector) \<Rightarrow> header \<Rightarrow> nat \<Rightarrow> u32 \<Rightarrow> bool" where
  "meets d h i hash \<longleftrightarrow> (\<exists>j < places h. r_entry (seen d h hash j) = of_nat i + 1 \<and> (\<forall>j' < j. r_entry (seen d h hash j') \<noteq> 0))"

lemma index_ok_alt:
  "index_ok d h \<longleftrightarrow> unat (h_table_next h) < 2 ^ 32 - 1 \<and>
     (\<forall>a < unat (h_index_sectors h). \<forall>k < RECORDS. live_record (rec_of d h a k) \<longrightarrow> points_true d h (rec_of d h a k)) \<and>
     (\<forall>a < unat (h_index_sectors h). \<forall>k < RECORDS. \<forall>a' < unat (h_index_sectors h). \<forall>k' < RECORDS.
        live_record (rec_of d h a k) \<longrightarrow> r_entry (rec_of d h a k) = r_entry (rec_of d h a' k') \<longrightarrow> a = a' \<and> k = k') \<and>
     (\<forall>i < unat (h_table_next h). f_name (entry_of d h i) \<noteq> [] \<longrightarrow> meets d h i (hash_of (f_name (entry_of d h i)))) \<and>
     (\<forall>i < unat (h_table_next h). \<forall>i' < unat (h_table_next h).
        f_name (entry_of d h i) \<noteq> [] \<longrightarrow> f_name (entry_of d h i) = f_name (entry_of d h i') \<longrightarrow> i = i')"
  by (simp add: index_ok_def points_true_def meets_def)

text \<open>A record of the index replaced by another, the rest of the index as it was.\<close>

definition replaced :: "(nat \<Rightarrow> sector) \<Rightarrow> (nat \<Rightarrow> sector) \<Rightarrow> header \<Rightarrow> header \<Rightarrow> nat \<Rightarrow> nat \<Rightarrow> record' \<Rightarrow> bool" where
  "replaced d d' h h' a0 k0 new \<longleftrightarrow> h_index_lba h' = h_index_lba h \<and> h_index_sectors h' = h_index_sectors h \<and>
     a0 < unat (h_index_sectors h) \<and> k0 < RECORDS \<and>
     (\<forall>a < unat (h_index_sectors h). \<forall>k < RECORDS. rec_of d' h' a k = (if a = a0 \<and> k = k0 then new else rec_of d h a k))"

lemma replacedD:
  assumes "replaced d d' h h' a0 k0 new"
  shows "h_index_lba h' = h_index_lba h" "h_index_sectors h' = h_index_sectors h" "a0 < unat (h_index_sectors h)" "k0 < RECORDS"
    "\<And>a k. a < unat (h_index_sectors h) \<Longrightarrow> k < RECORDS \<Longrightarrow> rec_of d' h' a k = (if a = a0 \<and> k = k0 then new else rec_of d h a k)"
    "places h' = places h" "turn h' hash q = turn h hash q"
proof -
  show i: "h_index_lba h' = h_index_lba h" "h_index_sectors h' = h_index_sectors h" "a0 < unat (h_index_sectors h)" "k0 < RECORDS"
    using assms by (simp_all add: replaced_def)
  show "places h' = places h" "turn h' hash q = turn h hash q" by (simp_all add: places_def turn_def i)
  fix a k assume "a < unat (h_index_sectors h)" "k < RECORDS"
  then show "rec_of d' h' a k = (if a = a0 \<and> k = k0 then new else rec_of d h a k)" using assms unfolding replaced_def by blast
qed

lemma seen_replaced:
  assumes "replaced d d' h h' a0 k0 new" "j < places h"
  shows "seen d' h' hash j = (if turn h hash (j div RECORDS) = a0 \<and> j mod RECORDS = k0 then new else seen d h hash j)"
proof -
  have "0 < unat (h_index_sectors h)" using assms(2) by (cases "unat (h_index_sectors h)") (auto simp: places_def)
  then have "turn h hash (j div RECORDS) < unat (h_index_sectors h)" "j mod RECORDS < RECORDS" by (simp_all add: turn_def RECORDS_def)
  then show ?thesis using replacedD [OF assms(1)] by (simp add: seen_def)
qed

text \<open>What was met still is, unless it is what was replaced.\<close>

lemma meets_replaced:
  assumes r: "replaced d d' h h' a0 k0 new" and m: "meets d h i hash" and n: "r_entry new \<noteq> 0" and o: "r_entry (rec_of d h a0 k0) \<noteq> of_nat i + 1"
  shows "meets d' h' i hash"
proof -
  obtain j where j: "j < places h" "r_entry (seen d h hash j) = of_nat i + 1" "\<forall>j' < j. r_entry (seen d h hash j') \<noteq> 0"
    using m by (auto simp: meets_def)
  have "\<not> (turn h hash (j div RECORDS) = a0 \<and> j mod RECORDS = k0)" using j(2) o by (auto simp: seen_def)
  then have "r_entry (seen d' h' hash j) = of_nat i + 1" using j(2) seen_replaced [OF r j(1)] by auto
  moreover have "\<forall>j' < j. r_entry (seen d' h' hash j') \<noteq> 0" using j(1,3) n by (simp add: seen_replaced [OF r])
  ultimately show ?thesis using j(1) replacedD(6) [OF r] by (auto simp: meets_def)
qed

lemma card_used_replaced:
  assumes r: "replaced d d' h h' a0 k0 new" and n: "r_entry new \<noteq> 0"
  shows "card (used_places d' h') = card (used_places d h) + (if r_entry (rec_of d h a0 k0) = 0 then 1 else 0)"
proof -
  have u: "used_places d' h' = insert (a0, k0) (used_places d h)"
    using n replacedD [OF r] by (auto simp: used_places_def split: if_splits)
  have "finite (used_places d h)"
    by (rule finite_subset [of _ "{..<unat (h_index_sectors h)} \<times> {..<RECORDS}"]) (auto simp: used_places_def)
  moreover have "(a0, k0) \<in> used_places d h \<longleftrightarrow> r_entry (rec_of d h a0 k0) \<noteq> 0" using replacedD(3,4) [OF r] by (simp add: used_places_def)
  ultimately show ?thesis using u by (simp add: card_insert_if)
qed

text \<open>An entry named: its record is placed where the search for the name stops.\<close>

definition enters ::
  "(nat \<Rightarrow> sector) \<Rightarrow> (nat \<Rightarrow> sector) \<Rightarrow> header \<Rightarrow> header \<Rightarrow> u8 list \<Rightarrow> nat \<Rightarrow> nat \<Rightarrow> record' \<Rightarrow> bool" where
  "enters d d' h h' name i j0 new \<longleftrightarrow> replaced d d' h h' (turn h (hash_of name) (j0 div RECORDS)) (j0 mod RECORDS) new \<and>
     r_hash new = hash_of name \<and> r_entry new = of_nat i + 1 \<and> first_stop 0 d h (hash_of name) j0 \<and>
     name \<noteq> [] \<and> (\<forall>i' < unat (h_table_next h). f_name (entry_of d h i') \<noteq> name) \<and>
     i \<le> unat (h_table_next h) \<and> (i < unat (h_table_next h) \<longrightarrow> f_name (entry_of d h i) = []) \<and>
     unat (h_table_next h') = max (unat (h_table_next h)) (i + 1) \<and> unat (h_table_next h') < 2 ^ 32 - 1 \<and>
     (\<forall>i' < unat (h_table_next h'). f_name (entry_of d' h' i') = (if i' = i then name else f_name (entry_of d h i')))"

lemma entersD:
  assumes "enters d d' h h' name i j0 new"
  shows "replaced d d' h h' (turn h (hash_of name) (j0 div RECORDS)) (j0 mod RECORDS) new"
    "r_hash new = hash_of name" "r_entry new = of_nat i + 1" "first_stop 0 d h (hash_of name) j0"
    "name \<noteq> []" "\<And>i'. i' < unat (h_table_next h) \<Longrightarrow> f_name (entry_of d h i') \<noteq> name"
    "i < unat (h_table_next h) \<Longrightarrow> f_name (entry_of d h i) = []"
    "unat (h_table_next h') = max (unat (h_table_next h)) (i + 1)" "unat (h_table_next h') < 2 ^ 32 - 1"
    "\<And>i'. i' < unat (h_table_next h') \<Longrightarrow> f_name (entry_of d' h' i') = (if i' = i then name else f_name (entry_of d h i'))"
    "\<And>i'. i' < unat (h_table_next h') \<Longrightarrow> i' \<noteq> i \<Longrightarrow> i' < unat (h_table_next h)"
    "unat (r_entry new) = i + 1" "r_entry new \<noteq> 0" "r_entry new \<noteq> GONE"
    "\<not> live_record (rec_of d h (turn h (hash_of name) (j0 div RECORDS)) (j0 mod RECORDS))"
proof -
  show e: "replaced d d' h h' (turn h (hash_of name) (j0 div RECORDS)) (j0 mod RECORDS) new"
    "r_hash new = hash_of name" "r_entry new = of_nat i + 1" "first_stop 0 d h (hash_of name) j0" "name \<noteq> []"
    "i < unat (h_table_next h) \<Longrightarrow> f_name (entry_of d h i) = []"
    "unat (h_table_next h') = max (unat (h_table_next h)) (i + 1)" "unat (h_table_next h') < 2 ^ 32 - 1"
    "\<And>i'. i' < unat (h_table_next h) \<Longrightarrow> f_name (entry_of d h i') \<noteq> name"
    "\<And>i'. i' < unat (h_table_next h') \<Longrightarrow> f_name (entry_of d' h' i') = (if i' = i then name else f_name (entry_of d h i'))"
    using assms unfolding enters_def by blast+
  have "i \<le> unat (h_table_next h)" using assms by (simp add: enters_def)
  then show "\<And>i'. i' < unat (h_table_next h') \<Longrightarrow> i' \<noteq> i \<Longrightarrow> i' < unat (h_table_next h)" using e(7) by (auto simp: max_def split: if_splits)
  show "unat (r_entry new) = i + 1" "r_entry new \<noteq> 0" "r_entry new \<noteq> GONE" using entry_word [of i] e(3,7,8) by auto
  show "\<not> live_record (rec_of d h (turn h (hash_of name) (j0 div RECORDS)) (j0 mod RECORDS))"
    using e(4) by (auto simp: first_stop_def stops_def seen_def live_record_def)
qed

lemma enters_old:
  assumes e: "enters d d' h h' name i j0 new" and ok: "index_ok d h"
    and a: "a < unat (h_index_sectors h)" "k < RECORDS" "live_record (rec_of d h a k)"
  shows "unat (r_entry (rec_of d h a k)) - 1 \<noteq> i" "r_entry (rec_of d h a k) \<noteq> r_entry new" "unat (r_entry (rec_of d h a k)) - 1 < unat (h_table_next h)"
proof -
  note l = live_entry [OF ok a]
  have "f_name (entry_of d h (unat (r_entry (rec_of d h a k)) - 1)) \<noteq> []" using ok a by (simp add: index_ok_def)
  then show i: "unat (r_entry (rec_of d h a k)) - 1 \<noteq> i" using entersD(7) [OF e] l(2) by metis
  show "unat (r_entry (rec_of d h a k)) - 1 < unat (h_table_next h)" by (rule l(2))
  show "r_entry (rec_of d h a k) \<noteq> r_entry new" using i entersD(12) [OF e] by auto
qed

lemma enters_index_ok:
  assumes en: "enters d d' h h' name i j0 new" and ok0: "index_ok d h"
  shows "index_ok d' h'"
proof -
  note r0 = entersD(1) [OF en] and next' = entersD(8,9) [OF en] and entries' = entersD(10) [OF en] and other_entry = entersD(11) [OF en]
  note same_index = replacedD(1,2) [OF r0] and recs = replacedD(5) [OF r0] and new_entry_word = entersD(12-14) [OF en]
    and name0 = entersD(5,6) [OF en] and new_record = entersD(2,3) [OF en] and old_not_i = enters_old [OF en ok0]
    and seen_replaced = seen_replaced [OF r0]
  show ?thesis unfolding index_ok_alt
  proof (intro conjI allI impI)
  show "unat (h_table_next h') < 2 ^ 32 - 1" by (rule next')
  let ?a = "turn h (hash_of name) (j0 div RECORDS)" and ?k = "j0 mod RECORDS"
  fix a k assume ak: "a < unat (h_index_sectors h')" "k < RECORDS" and lv: "live_record (rec_of d' h' a k)"
  then have ak: "a < unat (h_index_sectors h)" "k < RECORDS" by (simp_all add: same_index)
  show "points_true d' h' (rec_of d' h' a k)"
  proof (cases "a = ?a \<and> k = ?k")
    case True
    then have "rec_of d' h' a k = new" using recs [OF ak] by simp
    then show ?thesis using new_entry_word new_record name0(1) next'(1) entries' [of i] by (simp add: points_true_def)
  next
    case False
    then have r: "rec_of d' h' a k = rec_of d h a k" by (simp only: recs [OF ak] if_False)
    then have o: "live_record (rec_of d h a k)" using lv by simp
    have "points_true d h (rec_of d h a k)" using ok0 ak o unfolding index_ok_alt by blast
    then show ?thesis unfolding r using old_not_i [OF ak o] next'(1) entries' [of "unat (r_entry (rec_of d h a k)) - 1"]
      by (simp add: points_true_def)
  qed
  fix a' k' assume ak': "a' < unat (h_index_sectors h')" "k' < RECORDS" and e: "r_entry (rec_of d' h' a k) = r_entry (rec_of d' h' a' k')"
  then have ak': "a' < unat (h_index_sectors h)" "k' < RECORDS" by (simp_all add: same_index)
  have lv': "live_record (rec_of d' h' a' k')" using lv e by (simp add: live_record_def)
  have o: "r_entry (rec_of d h b m) \<noteq> r_entry new" if "b < unat (h_index_sectors h)" "m < RECORDS" "live_record (rec_of d' h' b m)" "\<not> (b = ?a \<and> m = ?k)" for b m
    using old_not_i(2) [OF that(1,2)] that(3,4) recs [OF that(1,2)] by simp
  have both: "a = a' \<and> k = k'" if "\<not> (a = ?a \<and> k = ?k)" "\<not> (a' = ?a \<and> k' = ?k)"
  proof -
    have r: "rec_of d' h' a k = rec_of d h a k" "rec_of d' h' a' k' = rec_of d h a' k'"
      using recs [OF ak] recs [OF ak'] that by (simp_all only: if_False)
    then show ?thesis using ok0 ak ak' lv e unfolding index_ok_def by metis
  qed
  have "r_entry (rec_of d' h' a k) = r_entry new" if "a = ?a \<and> k = ?k" using recs [OF ak] that by simp
  moreover have "r_entry (rec_of d' h' a' k') = r_entry new" if "a' = ?a \<and> k' = ?k" using recs [OF ak'] that by simp
  moreover have "r_entry (rec_of d' h' a k) \<noteq> r_entry new" if "\<not> (a = ?a \<and> k = ?k)" using o [OF ak lv that] recs [OF ak] that by simp
  moreover have "r_entry (rec_of d' h' a' k') \<noteq> r_entry new" if "\<not> (a' = ?a \<and> k' = ?k)" using o [OF ak' lv' that] recs [OF ak'] that by simp
  ultimately have "a = a' \<and> k = k'" using both e by metis
  then show "a = a'" "k = k'" by simp_all
next
  fix i' assume i': "i' < unat (h_table_next h')" and n: "f_name (entry_of d' h' i') \<noteq> []"
  show "meets d' h' i' (hash_of (f_name (entry_of d' h' i')))"
  proof (cases "i' = i")
    case True
    have j: "j0 < places h" "\<forall>j' < j0. \<not> stops 0 (seen d h (hash_of name) j')" using entersD(4) [OF en] by (simp_all add: first_stop_def)
    have "r_entry (seen d' h' (hash_of name) j0) = of_nat i + 1" using j(1) new_record by (simp add: seen_replaced)
    moreover have "\<forall>j' < j0. r_entry (seen d' h' (hash_of name) j') \<noteq> 0"
      using j new_entry_word(2) by (auto simp: seen_replaced stops_def)
    ultimately show ?thesis using True i' entries' [of i] j(1) replacedD(6) [OF r0] by (auto simp: meets_def)
  next
    case False
    note lt = other_entry [OF i' False]
    have e: "f_name (entry_of d' h' i') = f_name (entry_of d h i')" using entries' [OF i'] False by simp
    have m: "meets d h i' (hash_of (f_name (entry_of d h i')))" using ok0 lt n e unfolding index_ok_alt by metis
    have "of_nat i' + 1 \<noteq> (0 :: u32)" "of_nat i' + 1 \<noteq> GONE" using entry_word [of i'] lt ok0 by (auto simp: index_ok_def)
    then have "r_entry (rec_of d h (turn h (hash_of name) (j0 div RECORDS)) (j0 mod RECORDS)) \<noteq> of_nat i' + 1"
      using entersD(15) [OF en] by (auto simp: live_record_def)
    then show ?thesis using meets_replaced [OF r0 m new_entry_word(2)] e by simp
  qed
next
  fix i1 i2 assume b: "i1 < unat (h_table_next h')" "i2 < unat (h_table_next h')"
    and n: "f_name (entry_of d' h' i1) \<noteq> []" "f_name (entry_of d' h' i1) = f_name (entry_of d' h' i2)"
  have u: "\<forall>i1 < unat (h_table_next h). \<forall>i2 < unat (h_table_next h). f_name (entry_of d h i1) \<noteq> [] \<longrightarrow> f_name (entry_of d h i1) = f_name (entry_of d h i2) \<longrightarrow> i1 = i2"
    using ok0 unfolding index_ok_alt by blast
  have e: "f_name (entry_of d' h' i1) = (if i1 = i then name else f_name (entry_of d h i1))"
    "f_name (entry_of d' h' i2) = (if i2 = i then name else f_name (entry_of d h i2))" using entries' b by blast+
  have o: "i1 = i \<or> i1 < unat (h_table_next h)" "i2 = i \<or> i2 < unat (h_table_next h)" using other_entry b by blast+
  show "i1 = i2" using n e o name0(2) u by metis
qed
qed

lemma enters_lookup:
  assumes en: "enters d d' h h' name i j0 new" and ok0: "index_ok d h"
  shows "lookup d' h' name' = (if name' = name then Some (slot_of d' h' i)
     else map_option (\<lambda>f. slot_of d' h' (unat (s_index f))) (lookup d h name'))"
proof -
  note next' = entersD(8,9) [OF en] and entries' = entersD(10) [OF en] and other_entry = entersD(11) [OF en]
    and name0 = entersD(5,6) [OF en] and ok' = enters_index_ok [OF en ok0]
  show ?thesis
  proof (cases "name' = name")
  case True
  have "i < unat (h_table_next h')" using next' by simp
  then show ?thesis using True lookup_unique [OF ok', of i name] entries' [of i] name0 by simp
next
  case False
  show ?thesis
  proof (cases "lookup d h name'")
    case None
    then have "name' = [] \<or> (\<forall>i' < unat (h_table_next h). f_name (entry_of d h i') \<noteq> name')" by (simp add: lookup_None)
    then have "name' = [] \<or> (\<forall>i' < unat (h_table_next h'). f_name (entry_of d' h' i') \<noteq> name')"
      using entries' other_entry False by (metis (full_types))
    then show ?thesis using False None lookup_None [of d' h' name'] by auto
  next
    case (Some f)
    then obtain i' where i': "i' < unat (h_table_next h)" "f_name (entry_of d h i') = name'" "f = slot_of d h i'" "name' \<noteq> []"
      by (auto simp: lookup_def find_Some_iff split: if_splits)
    have ui: "unat (of_nat i' :: u32) = i'" using i'(1) ok0 by (intro unat_word_of_nat) (simp add: index_ok_def)
    have "i' \<noteq> i" using i' entersD(7) [OF en] by auto
    moreover have lt: "i' < unat (h_table_next h')" using i'(1) next'(1) by simp
    ultimately have "lookup d' h' name' = Some (slot_of d' h' i')" using lookup_unique [OF ok' lt _ i'(4)] entries' [OF lt] i'(2) by simp
    then show ?thesis using False Some i'(3) ui by (simp add: slot_of_def)
  qed
qed
qed

lemma lookup_Some:
  assumes "lookup d h name = Some f"
  obtains i where "i < unat (h_table_next h)" "f_name (entry_of d h i) = name" "f = slot_of d h i" "name \<noteq> []" "unat (s_index f) = i"
proof -
  obtain i where i: "i < unat (h_table_next h)" "f_name (entry_of d h i) = name" "f = slot_of d h i" "name \<noteq> []"
    using assms by (auto simp: lookup_def find_Some_iff split: if_splits)
  have "i < 2 ^ 32" using i(1) unat_bound [of "h_table_next h"] by simp
  then have "unat (s_index f) = i" using i(3) by (simp add: slot_of_def unat_word_of_nat)
  then show thesis using that i by blast
qed

text \<open>An entry whose name is taken away: its record says so.\<close>

definition leaves :: "(nat \<Rightarrow> sector) \<Rightarrow> (nat \<Rightarrow> sector) \<Rightarrow> header \<Rightarrow> header \<Rightarrow> nat \<Rightarrow> nat \<Rightarrow> nat \<Rightarrow> bool" where
  "leaves d d' h h' i a0 k0 \<longleftrightarrow> replaced d d' h h' a0 k0 gone_rec \<and> r_entry (rec_of d h a0 k0) = of_nat i + 1 \<and>
     i < unat (h_table_next h) \<and> h_table_next h' = h_table_next h \<and>
     (\<forall>i' < unat (h_table_next h). f_name (entry_of d' h' i') = (if i' = i then [] else f_name (entry_of d h i')))"

lemma leaves_index_ok:
  assumes le: "leaves d d' h h' i a0 k0" and ok: "index_ok d h"
  shows "index_ok d' h'"
proof -
  have r0: "replaced d d' h h' a0 k0 gone_rec" and e0: "r_entry (rec_of d h a0 k0) = of_nat i + 1" and i: "i < unat (h_table_next h)"
    and nx: "h_table_next h' = h_table_next h"
    and names: "\<And>i'. i' < unat (h_table_next h) \<Longrightarrow> f_name (entry_of d' h' i') = (if i' = i then [] else f_name (entry_of d h i'))"
    using le by (auto simp: leaves_def)
  have bound: "unat (h_table_next h) < 2 ^ 32 - 1" using ok by (simp add: index_ok_def)
  note same = replacedD(1,2) [OF r0] and recs = replacedD(5) [OF r0] and p0 = replacedD(3,4) [OF r0]
  have iw: "i + 1 < 2 ^ 32 - 1" using bound i by simp
  have lv0: "live_record (rec_of d h a0 k0)" using e0 entry_word [OF iw] by (simp add: live_record_def)
  have old: "rec_of d' h' a k = rec_of d h a k \<and> live_record (rec_of d h a k) \<and> \<not> (a = a0 \<and> k = k0)"
    if "a < unat (h_index_sectors h)" "k < RECORDS" "live_record (rec_of d' h' a k)" for a k
    using that recs [OF that(1,2)] by (auto simp: live_record_def gone_rec_def split: if_splits)
  have uniq: "a = a' \<and> k = k'" if "a < unat (h_index_sectors h)" "k < RECORDS" "a' < unat (h_index_sectors h)" "k' < RECORDS"
    "live_record (rec_of d h a k)" "r_entry (rec_of d h a k) = r_entry (rec_of d h a' k')" for a k a' k'
    using ok that unfolding index_ok_def by blast
  have not_i: "unat (r_entry (rec_of d h a k)) - 1 \<noteq> i \<and> unat (r_entry (rec_of d h a k)) - 1 < unat (h_table_next h)"
    if "a < unat (h_index_sectors h)" "k < RECORDS" "live_record (rec_of d' h' a k)" for a k
  proof -
    note o = old [OF that]
    have l: "live_record (rec_of d h a k)" using o by simp
    note l1 = live_entry [OF ok that(1,2) l]
    have "r_entry (rec_of d h a k) \<noteq> of_nat i + 1" using uniq [OF that(1,2) p0 l] e0 o by auto
    then have "unat (r_entry (rec_of d h a k)) \<noteq> i + 1" using entry_word(1) [OF iw] by (simp add: word_unat_eq_iff)
    moreover have "unat (r_entry (rec_of d h a k)) \<noteq> 0" using l by (simp add: live_record_def unat_eq_zero)
    ultimately show ?thesis using l1(2) by linarith
  qed
  show ?thesis unfolding index_ok_alt
  proof (intro conjI allI impI)
    show "unat (h_table_next h') < 2 ^ 32 - 1" using bound nx by simp
    fix a k assume ak: "a < unat (h_index_sectors h')" "k < RECORDS" and lv: "live_record (rec_of d' h' a k)"
    then have ak: "a < unat (h_index_sectors h)" "k < RECORDS" by (simp_all add: same)
    have "points_true d h (rec_of d h a k)" using ok ak old [OF ak lv] unfolding index_ok_alt by blast
    then show "points_true d' h' (rec_of d' h' a k)"
      using old [OF ak lv] not_i [OF ak lv] names [of "unat (r_entry (rec_of d h a k)) - 1"] nx by (simp add: points_true_def)
    fix a' k' assume ak': "a' < unat (h_index_sectors h')" "k' < RECORDS" and e: "r_entry (rec_of d' h' a k) = r_entry (rec_of d' h' a' k')"
    then have ak': "a' < unat (h_index_sectors h)" "k' < RECORDS" by (simp_all add: same)
    have lv': "live_record (rec_of d' h' a' k')" using lv e by (simp add: live_record_def)
    have "a = a' \<and> k = k'" using uniq [OF ak ak'] old [OF ak lv] old [OF ak' lv'] e by simp
    then show "a = a'" "k = k'" by simp_all
  next
    fix i' assume i': "i' < unat (h_table_next h')" and n: "f_name (entry_of d' h' i') \<noteq> []"
    have lt: "i' < unat (h_table_next h)" using i' nx by simp
    have e: "f_name (entry_of d' h' i') = f_name (entry_of d h i')" "i' \<noteq> i" using names [OF lt] n by (auto split: if_splits)
    have m: "meets d h i' (hash_of (f_name (entry_of d h i')))" using ok lt n e unfolding index_ok_alt by metis
    have "i' + 1 < 2 ^ 32 - 1" using lt bound by simp
    then have "r_entry (rec_of d h a0 k0) \<noteq> of_nat i' + 1"
      using entry_word(1) [of i'] entry_word(1) [OF iw] e0 e(2) by (metis add_right_cancel)
    moreover have "r_entry gone_rec \<noteq> 0" by (simp add: gone_rec_def GONE_def)
    ultimately show "meets d' h' i' (hash_of (f_name (entry_of d' h' i')))" using meets_replaced [OF r0 m] e by simp
  next
    fix i1 i2 assume b: "i1 < unat (h_table_next h')" "i2 < unat (h_table_next h')"
      and n: "f_name (entry_of d' h' i1) \<noteq> []" "f_name (entry_of d' h' i1) = f_name (entry_of d' h' i2)"
    have "f_name (entry_of d h i1) = f_name (entry_of d' h' i1)" "f_name (entry_of d h i2) = f_name (entry_of d' h' i2)"
      using names [of i1] names [of i2] b nx n by (auto split: if_splits)
    then show "i1 = i2" using ok b nx n unfolding index_ok_def by metis
  qed
qed

lemma leaves_lookup:
  assumes le: "leaves d d' h h' i a0 k0" and ok: "index_ok d h" and n: "f_name (entry_of d h i) = name" "name \<noteq> []"
  shows "lookup d' h' name' = (if name' = name then None else map_option (\<lambda>f. slot_of d' h' (unat (s_index f))) (lookup d h name'))"
proof -
  have i: "i < unat (h_table_next h)" and nx: "h_table_next h' = h_table_next h"
    and names: "\<And>i'. i' < unat (h_table_next h) \<Longrightarrow> f_name (entry_of d' h' i') = (if i' = i then [] else f_name (entry_of d h i'))"
    using le by (auto simp: leaves_def)
  have one: "i' = i" if "i' < unat (h_table_next h)" "f_name (entry_of d h i') = name" for i'
    using ok that i n unfolding index_ok_def by metis
  show ?thesis
  proof (cases "lookup d h name'")
    case None
    then have "name' = [] \<or> (\<forall>i' < unat (h_table_next h). f_name (entry_of d h i') \<noteq> name')" by (simp add: lookup_None)
    then have "lookup d' h' name' = None" unfolding lookup_None nx using names by auto
    then show ?thesis using None by simp
  next
    case (Some f)
    then obtain i' where i': "i' < unat (h_table_next h)" "f_name (entry_of d h i') = name'" "f = slot_of d h i'" "name' \<noteq> []" "unat (s_index f) = i'"
      by (rule lookup_Some)
    show ?thesis
    proof (cases "name' = name")
      case True
      have "f_name (entry_of d' h' i'') \<noteq> name" if "i'' < unat (h_table_next h)" for i''
        using names [OF that] one [OF that] n(2) by auto
      then have "lookup d' h' name = None" by (simp add: lookup_None nx)
      then show ?thesis using True by simp
    next
      case False
      then have "i' \<noteq> i" using i'(2) n(1) by auto
      then have "lookup d' h' name' = Some (slot_of d' h' i')"
        using lookup_unique [OF leaves_index_ok [OF le ok], of i' name'] names [OF i'(1)] i' nx by simp
      then show ?thesis using False Some i'(5) by simp
    qed
  qed
qed

end
