(* ===== verification/FsOps.thy ===== *)
theory FsOps
  imports FsStore
begin

text \<open>
  Operations of the filesystem refine operations on the map of files: a file stored is the map updated at
  its name, a file removed is the map without it, and every other file keeps its place and its bytes. The
  invariant of the disk holds again after each.
\<close>

section \<open>One entry changed\<close>

definition entry_step :: "(nat \<Rightarrow> sector) \<Rightarrow> (nat \<Rightarrow> sector) \<Rightarrow> header \<Rightarrow> header \<Rightarrow> nat \<Rightarrow> fs_file \<Rightarrow> bool" where
  "entry_step d d' h h' i f \<longleftrightarrow> h_table_lba h' = h_table_lba h \<and> h_table_size h' = h_table_size h \<and>
     h_index_lba h' = h_index_lba h \<and> h_index_sectors h' = h_index_sectors h \<and> h_disk_sectors h' = h_disk_sectors h \<and>
     h_magic h' = h_magic h \<and> unat (h_table_next h) \<le> unat (h_table_next h') \<and>
     (\<forall>i' < unat (h_table_next h'). i' \<noteq> i \<longrightarrow> i' < unat (h_table_next h)) \<and> i < unat (h_table_next h') \<and>
     (\<forall>i' < unat (h_table_next h'). entry_of d' h' i' = (if i' = i then f else entry_of d h i'))"

lemma entry_stepD:
  assumes "entry_step d d' h h' i f"
  shows "table_area h' = table_area h" "index_area h' = index_area h" "h_disk_sectors h' = h_disk_sectors h" "h_magic h' = h_magic h"
    "unat (h_table_next h) \<le> unat (h_table_next h')" "i < unat (h_table_next h')"
    "h_table_lba h' = h_table_lba h" "h_table_size h' = h_table_size h" "h_index_lba h' = h_index_lba h" "h_index_sectors h' = h_index_sectors h"
    "\<And>i'. i' < unat (h_table_next h') \<Longrightarrow> i' \<noteq> i \<Longrightarrow> i' < unat (h_table_next h)"
    "\<And>i'. i' < unat (h_table_next h') \<Longrightarrow> i' \<noteq> i \<Longrightarrow> entry_of d' h' i' = entry_of d h i'" "entry_of d' h' i = f"
  using assms by (auto simp: entry_step_def table_area_def index_area_def)

lemma laid_step:
  assumes l: "laid limit d h" and e: "entry_step d d' h h' i f"
    and de: "unat (h_data_end h) \<le> unat (h_data_end h')" "unat (h_data_end h') \<le> unat (h_disk_sectors h)"
    and nx: "unat (h_table_next h') \<le> unat (h_table_size h)"
    and f: "file_area f \<subseteq> {2 ..< unat (h_data_end h')}" "file_area f \<inter> (table_area h \<union> index_area h) = {}"
      "\<And>i'. i' < unat (h_table_next h) \<Longrightarrow> i' \<noteq> i \<Longrightarrow> file_area f \<inter> file_area (entry_of d h i') = {}"
      "f_name f \<noteq> [] \<Longrightarrow> last (f_name f) \<noteq> slash \<Longrightarrow> f_start f \<noteq> 0"
  shows "laid limit d' h'"
proof -
  note s = entry_stepD [OF e]
  have en: "entry_of d' h' i' = (if i' = i then f else entry_of d h i') \<and> (i' \<noteq> i \<longrightarrow> i' < unat (h_table_next h))"
    if "i' < unat (h_table_next h')" for i' using s(11-13) that by auto
  have o: "unat (h_disk_sectors h) \<le> limit" "unat (h_table_size h) < 2 ^ 25" "2 \<le> unat (h_data_end h)" "table_area h \<inter> index_area h = {}"
    "table_area h \<union> index_area h \<subseteq> {2 ..< unat (h_data_end h)}"
    "\<And>i'. i' < unat (h_table_next h) \<Longrightarrow> file_area (entry_of d h i') \<subseteq> {2 ..< unat (h_data_end h)}"
    "\<And>i'. i' < unat (h_table_next h) \<Longrightarrow> f_name (entry_of d h i') \<noteq> [] \<Longrightarrow> last (f_name (entry_of d h i')) \<noteq> slash \<Longrightarrow> f_start (entry_of d h i') \<noteq> 0"
    "\<And>i'. i' < unat (h_table_next h) \<Longrightarrow> file_area (entry_of d h i') \<inter> (table_area h \<union> index_area h) = {}"
    "\<And>i' j. i' < unat (h_table_next h) \<Longrightarrow> j < unat (h_table_next h) \<Longrightarrow> i' \<noteq> j \<Longrightarrow> file_area (entry_of d h i') \<inter> file_area (entry_of d h j) = {}"
    using l unfolding laid_def by blast+
  have all: "file_area (entry_of d' h' i') \<subseteq> {2 ..< unat (h_data_end h')}" if i': "i' < unat (h_table_next h')" for i'
  proof (cases "i' = i")
    case True
    then show ?thesis using en [OF i'] f(1) by simp
  next
    case False
    then have "file_area (entry_of d' h' i') \<subseteq> {2 ..< unat (h_data_end h)}" using en [OF i'] o(6) by simp
    also have "\<dots> \<subseteq> {2 ..< unat (h_data_end h')}" using de(1) by auto
    finally show ?thesis .
  qed
  have meta: "file_area (entry_of d' h' i') \<inter> (table_area h' \<union> index_area h') = {}" if i': "i' < unat (h_table_next h')" for i'
    using en [OF i'] f(2) o(8) s(1,2) by (cases "i' = i") auto
  have apart: "file_area (entry_of d' h' i') \<inter> file_area (entry_of d' h' j) = {}"
    if ij: "i' < unat (h_table_next h')" "j < unat (h_table_next h')" "i' \<noteq> j" for i' j
  proof -
    consider "i' = i" "j \<noteq> i" | "i' \<noteq> i" "j = i" | "i' \<noteq> i" "j \<noteq> i" using ij(3) by blast
    then show ?thesis using en [OF ij(1)] en [OF ij(2)] f(3) o(9) ij(3) by cases (simp_all add: Int_commute)
  qed
  have st: "f_name (entry_of d' h' i') \<noteq> [] \<Longrightarrow> last (f_name (entry_of d' h' i')) \<noteq> slash \<Longrightarrow> f_start (entry_of d' h' i') \<noteq> 0"
    if i': "i' < unat (h_table_next h')" for i'
    using en [OF i'] f(4) o(7) by (cases "i' = i") auto
  have "table_area h' \<union> index_area h' \<subseteq> {2 ..< unat (h_data_end h')}" using o(5) de(1) s(1,2) by fastforce
  then have "table_area h' \<union> index_area h' \<union> (\<Union>i < unat (h_table_next h'). file_area (entry_of d' h' i)) \<subseteq> {2 ..< unat (h_data_end h')}"
    using all by (simp add: UN_subset_iff)
  moreover have "table_area h' \<inter> index_area h' = {}" using o(4) s(1,2) by simp
  moreover have "unat (h_data_end h') \<le> unat (h_disk_sectors h')" "unat (h_disk_sectors h') \<le> limit" "2 \<le> unat (h_data_end h')"
    "unat (h_table_next h') \<le> unat (h_table_size h')" "unat (h_table_size h') < 2 ^ 25" using o(1-3) de nx s(3,8) by auto
  moreover have "\<forall>i' < unat (h_table_next h'). f_name (entry_of d' h' i') \<noteq> [] \<longrightarrow> last (f_name (entry_of d' h' i')) \<noteq> slash \<longrightarrow> f_start (entry_of d' h' i') \<noteq> 0"
    using st by blast
  moreover have "\<forall>i' < unat (h_table_next h'). file_area (entry_of d' h' i') \<inter> (table_area h' \<union> index_area h') = {}" using meta by blast
  moreover have "\<forall>i' < unat (h_table_next h'). \<forall>j < unat (h_table_next h'). i' \<noteq> j \<longrightarrow> file_area (entry_of d' h' i') \<inter> file_area (entry_of d' h' j) = {}"
    using apart by blast
  ultimately show ?thesis unfolding laid_def by (intro conjI)
qed

lemma free_chain_step:
  assumes "free_chain d h e xs" "entry_step d d' h h' i f" "i \<notin> set xs"
  shows "free_chain d' h' e xs"
  using assms
proof (induction xs arbitrary: e)
  case (Cons x xs)
  have x: "x < unat (h_table_next h')" "x \<noteq> i" using Cons.prems entry_stepD(5) [OF Cons.prems(2)] by auto
  have "entry_of d' h' x = entry_of d h x" using entry_stepD(12) [OF Cons.prems(2) x] .
  then show ?case using Cons x by auto
qed simp

lemma free_chain_names: "free_chain d h e xs \<Longrightarrow> x \<in> set xs \<Longrightarrow> x < unat (h_table_next h) \<and> f_name (entry_of d h x) = []"
  by (induction d h e xs rule: free_chain.induct) auto

lemma table_fits_laid:
  assumes "laid limit d h" "1 < unat (h_table_lba h)" "unat (h_table_lba h) \<le> limit" "unat n \<le> unat (h_table_size h)"
  shows "table_fits limit (h\<lparr>h_table_next := n\<rparr>)" 
proof (cases "unat (h_table_size h) = 0")
  case True
  then show ?thesis using assms by (simp add: table_fits_def PER_SECTOR_def)
next
  case False
  have "sectors_of (128 * unat (h_table_size h)) = (unat (h_table_size h) + 3) div 4" unfolding sectors_of_def by arith
  moreover have "(unat n + 3) div 4 \<le> (unat (h_table_size h) + 3) div 4" using assms(4) by (intro div_le_mono) simp
  moreover have "unat (h_table_lba h) + sectors_of (128 * unat (h_table_size h)) - 1 \<in> table_area h"
    using False calculation(1) by (auto simp: table_area_def)
  then have "unat (h_table_lba h) + sectors_of (128 * unat (h_table_size h)) - 1 < unat (h_data_end h)" using assms(1) unfolding laid_def by auto
  moreover have "unat (h_data_end h) \<le> limit" using assms(1) by (auto simp: laid_def)
  ultimately show ?thesis using assms(2) by (simp add: table_fits_def PER_SECTOR_def)
qed

section \<open>Room\<close>

text \<open>Where a file goes that is not put into a gap: sectors nothing else lies on.\<close>

definition free_area :: "(nat \<Rightarrow> sector) \<Rightarrow> header \<Rightarrow> nat option \<Rightarrow> nat \<Rightarrow> nat \<Rightarrow> nat \<Rightarrow> bool" where
  "free_area d h own de start n \<longleftrightarrow> {start ..< start + n} \<subseteq> {2 ..< de} \<and> {start ..< start + n} \<inter> (table_area h \<union> index_area h) = {} \<and>
     (\<forall>i < unat (h_table_next h). Some i \<noteq> own \<longrightarrow> {start ..< start + n} \<inter> file_area (entry_of d h i) = {})"

lemma laidD:
  assumes "laid limit d h"
  shows "unat (h_data_end h) \<le> unat (h_disk_sectors h)" "unat (h_disk_sectors h) \<le> limit" "2 \<le> unat (h_data_end h)"
    "table_area h \<union> index_area h \<subseteq> {2 ..< unat (h_data_end h)}" "unat (h_table_next h) \<le> unat (h_table_size h)"
    "\<And>i. i < unat (h_table_next h) \<Longrightarrow> file_area (entry_of d h i) \<subseteq> {2 ..< unat (h_data_end h)}"
    "\<And>i. i < unat (h_table_next h) \<Longrightarrow> file_area (entry_of d h i) \<inter> (table_area h \<union> index_area h) = {}"
    "\<And>i j. i < unat (h_table_next h) \<Longrightarrow> j < unat (h_table_next h) \<Longrightarrow> i \<noteq> j \<Longrightarrow> file_area (entry_of d h i) \<inter> file_area (entry_of d h j) = {}"
    "\<And>i. i < unat (h_table_next h) \<Longrightarrow> f_name (entry_of d h i) \<noteq> [] \<Longrightarrow> last (f_name (entry_of d h i)) \<noteq> slash \<Longrightarrow> f_start (entry_of d h i) \<noteq> 0"
  using assms unfolding laid_def by blast+

lemma past_end_area:
  assumes "laid limit d h" "unat (h_data_end h) + n \<le> de"
  shows "free_area d h own de (unat (h_data_end h)) n"
proof -
  have "A \<subseteq> {2 ..< unat (h_data_end h)} \<Longrightarrow> {unat (h_data_end h) ..< unat (h_data_end h) + n} \<inter> A = {}" for A by fastforce
  then show ?thesis unfolding free_area_def using laidD [OF assms(1)] assms(2) by auto
qed

lemma own_area:
  assumes l: "laid limit d h" and i: "i < unat (h_table_next h)" "f_name (entry_of d h i) \<noteq> []"
    and n: "n \<le> sectors_of (size_of (entry_of d h i)) \<or>
      unat (f_start (entry_of d h i)) + sectors_of (size_of (entry_of d h i)) = unat (h_data_end h) \<and> unat (f_start (entry_of d h i)) + n \<le> de"
    and de: "unat (h_data_end h) \<le> de"
  shows "free_area d h (Some i) de (unat (f_start (entry_of d h i))) n"
proof -
  define st where "st = unat (f_start (entry_of d h i))"
  define m where "m = sectors_of (size_of (entry_of d h i))"
  have fa: "file_area (entry_of d h i) = {st ..< st + m}" using i(2) by (simp add: file_area_def st_def m_def)
  have cover: "{st ..< st + n} \<subseteq> file_area (entry_of d h i) \<union> {unat (h_data_end h) ..< de}" using n by (auto simp: fa st_def m_def)
  have out: "{st ..< st + n} \<inter> A = {}" if "A \<subseteq> {2 ..< unat (h_data_end h)}" "file_area (entry_of d h i) \<inter> A = {}" for A
    using cover that by fastforce
  have "{st ..< st + n} \<subseteq> {2 ..< de}" using cover laidD(3) [OF l] laidD(6) [OF l i(1)] de by fastforce
  moreover have "{st ..< st + n} \<inter> (table_area h \<union> index_area h) = {}" by (rule out) (rule laidD(4) [OF l], rule laidD(7) [OF l i(1)])
  moreover have "{st ..< st + n} \<inter> file_area (entry_of d h j) = {}" if "j < unat (h_table_next h)" "Some j \<noteq> Some i" for j
    using laidD(8) [OF l i(1) that(1)] that(2) by (intro out laidD(6) [OF l that(1)]) simp
  ultimately show ?thesis unfolding free_area_def st_def [symmetric] by (intro conjI allI impI)
qed

lemma allocate_spec:
  assumes l: "laid limit d h" and h: "head s = h" and c_def: "c = sectors_for (of_nat n)" and n: "n < 2 ^ 31" "unat (h_data_end h) + sectors_of n \<le> unat (h_disk_sectors h)"
    and r: "case old of None \<Rightarrow> True | Some f \<Rightarrow> \<exists>i < unat (h_table_next h). f = slot_of d h i \<and> unat (s_index f) = i \<and> f_name (entry_of d h i) \<noteq> [] \<and> last (f_name (entry_of d h i)) \<noteq> slash"
  shows "\<exists>start de. allocate io c old s = Some (start, s\<lparr>head := h\<lparr>h_data_end := de\<rparr>\<rparr>) \<and> start \<noteq> 0 \<and>
    free_area d h (map_option (\<lambda>f. unat (s_index f)) old) (unat de) (unat start) (sectors_of n) \<and>
    unat (h_data_end h) \<le> unat de \<and> unat de \<le> unat (h_disk_sectors h)"
proof -
  have c: "unat c = sectors_of n" using sectors_for_nat [of "of_nat n"] n(1) by (simp add: c_def unat_word_of_nat)
  have same: "s\<lparr>head := h\<lparr>h_data_end := h_data_end h\<rparr>\<rparr> = s" using h by simp
  have dsk: "unat (h_disk_sectors h) < 2 ^ 32" using unat_bound [of "h_disk_sectors h"] by simp
  have uc: "unat (h_data_end h + c) = unat (h_data_end h) + sectors_of n" using n(2) dsk c by (subst unat_add_small) simp_all
  have le: "h_data_end h + c \<le> h_disk_sectors h" using uc n(2) by (simp add: word_nat)
  have de0: "h_data_end h \<noteq> 0" using laidD(3) [OF l] by auto
  have past: ?thesis if "allocate io c old s = Some (h_data_end h, s\<lparr>head := h\<lparr>h_data_end := h_data_end h + c\<rparr>\<rparr>)"
    using that past_end_area [OF l, of "sectors_of n" "unat (h_data_end h + c)" "map_option (\<lambda>f. unat (s_index f)) old"] uc n(2) de0
    by - (rule exI [of _ "h_data_end h"], rule exI [of _ "h_data_end h + c"], simp)
  show ?thesis
  proof (cases old)
    case None
    then have "allocate io c old s = Some (h_data_end h, s\<lparr>head := h\<lparr>h_data_end := h_data_end h + c\<rparr>\<rparr>)"
      using le h by (simp add: allocate_def Let_def)
    then show ?thesis by (rule past)
  next
    case (Some f)
    then obtain i where i: "i < unat (h_table_next h)" "f = slot_of d h i" "unat (s_index f) = i" "f_name (entry_of d h i) \<noteq> []"
      "last (f_name (entry_of d h i)) \<noteq> slash" using r by auto
    define m :: u32 where "m = sectors_for (s_size f AND NOT FS_LINK)"
    have m: "unat m = sectors_of (size_of (entry_of d h i))"
      using sectors_for_nat [OF small_size, of "s_size f"] i(2) by (simp add: m_def size_of_def slot_of_def)
    have st: "s_start f = f_start (entry_of d h i)" "s_start f \<noteq> 0" using i laidD(9) [OF l i(1,4,5)] by (simp_all add: slot_of_def)
    show ?thesis
    proof (cases "c \<le> m")
      case True
      then have "allocate io c old s = Some (s_start f, s)" using Some by (simp add: allocate_def Let_def m_def)
      moreover have "free_area d h (Some i) (unat (h_data_end h)) (unat (s_start f)) (sectors_of n)"
        using own_area [OF l i(1,4)] True c m st(1) by (simp add: word_nat)
      ultimately show ?thesis using st(2) Some i(3) same laidD(1) [OF l]
        by - (rule exI [of _ "s_start f"], rule exI [of _ "h_data_end h"], simp)
    next
      case False
      show ?thesis
      proof (cases "s_start f + m = h_data_end h \<and> s_start f + c \<le> h_disk_sectors h")
        case F: False
        then have "allocate io c old s = Some (h_data_end h, s\<lparr>head := h\<lparr>h_data_end := h_data_end h + c\<rparr>\<rparr>)"
          using False Some le h by (auto simp: allocate_def Let_def m_def)
        then show ?thesis by (rule past)
      next
        case True
        have small: "sectors_of n < 2 ^ 31" using n(1) by (simp add: sectors_of_def)
        have mc: "unat m < sectors_of n" using False c by (simp add: word_nat)
        have mle: "unat (s_start f) + unat m \<le> unat (h_data_end h)"
        proof (cases "unat m = 0")
          case True
          then have "m = 0" by (simp add: unat_eq_zero)
          then show ?thesis using \<open>s_start f + m = h_data_end h \<and> _\<close> True by simp
        next
          case False
          have "unat (s_start f) + unat m - 1 \<in> file_area (entry_of d h i)" using False i(4) m st(1) by (auto simp: file_area_def)
          then have "unat (s_start f) + unat m - 1 < unat (h_data_end h)" using laidD(6) [OF l i(1)] by (meson atLeastLessThan_iff subsetD)
          then show ?thesis by simp
        qed
        have sm: "unat (s_start f + m) = unat (s_start f) + unat m" using mle dsk laidD(1) [OF l] by (subst unat_add_small) simp_all
        have se: "unat (s_start f) + unat m = unat (h_data_end h)" using True sm by simp
        have sc: "unat (s_start f + c) = unat (s_start f) + sectors_of n" using se n(2) dsk c by (subst unat_add_small) simp_all
        have bd: "unat (h_data_end h) \<le> unat (s_start f + c)" "unat (s_start f + c) \<le> unat (h_disk_sectors h)" using se sc mc n(2) by simp_all
        have "allocate io c old s = Some (s_start f, s\<lparr>head := h\<lparr>h_data_end := s_start f + c\<rparr>\<rparr>)"
          using Some False True h by (simp add: allocate_def Let_def m_def)
        moreover have "free_area d h (Some i) (unat (s_start f + c)) (unat (s_start f)) (sectors_of n)"
          using own_area [OF l i(1,4) _ bd(1), of "sectors_of n"] se m st(1) sc by simp
        ultimately show ?thesis using st(2) Some i(3) bd
          by - (rule exI [of _ "s_start f"], rule exI [of _ "s_start f + c"], simp)
      qed
    qed
  qed
qed

section \<open>A free entry\<close>

lemma soundD:
  assumes "sound limit d h"
  shows "h_magic h = FS_MAGIC" "fs_inv limit d h" "index_fits limit h" "table_fits limit h" "index_ok d h" "laid limit d h" "free_ok d h"
    "card (used_places d h) = unat (h_index_taken h)" "places h < 2 ^ 32" "unat (h_table_next h) < 2 ^ 32 - 1"
    "1 < unat (h_table_lba h)" "unat (h_table_lba h) \<le> limit"
  using assms by (auto simp: sound_def fs_inv_def table_fits_def index_ok_def)

text \<open>The entry taken: off the chain of free ones, or the one past all in use.\<close>

definition took :: "(nat \<Rightarrow> sector) \<Rightarrow> header \<Rightarrow> nat \<Rightarrow> header \<Rightarrow> bool" where
  "took d h i h1 \<longleftrightarrow> (\<exists>xs. free_chain d h (h_free_head h1) xs \<and> distinct xs \<and> i \<notin> set xs) \<and> i < unat (h_table_size h) \<and>
     ((\<exists>e. h1 = h\<lparr>h_free_head := e\<rparr>) \<and> i < unat (h_table_next h) \<and> f_name (entry_of d h i) = [] \<or>
      h1 = h\<lparr>h_table_next := h_table_next h + 1\<rparr> \<and> i = unat (h_table_next h))"

lemma new_entry_spec:
  assumes r: "ready io whole base limit d s" and h: "head s = h" and sd: "sound limit d h"
    and room: "h_free_head h \<noteq> 0 \<or> unat (h_table_next h) < unat (h_table_size h)"
  shows "\<exists>i t h1. new_entry io s = Some (Some (of_nat i), t) \<and> ready io whole base limit d t \<and> kept (s\<lparr>head := h1\<rparr>) t \<and> took d h i h1"
proof -
  obtain xs where xs: "free_chain d h (h_free_head h) xs" "distinct xs" using soundD(7) [OF sd] by (auto simp: free_ok_def)
  have nx: "unat (h_table_next h) \<le> unat (h_table_size h)" using laidD(5) [OF soundD(6) [OF sd]] .
  show ?thesis
  proof (cases "h_free_head h = 0")
    case False
    then obtain i ys where c: "xs = i # ys" using xs(1) by (cases xs) auto
    have i: "unat (h_free_head h - 1) = i" "i < unat (h_table_next h)" "f_name (entry_of d h i) = []" "free_chain d h (f_start (entry_of d h i)) ys"
      "i \<notin> set ys" "distinct ys" using xs c by auto
    have fit: "table_fits limit (head s)" "i < unat (h_table_next (head s))" using soundD(4) [OF sd] h i(2) by simp_all
    obtain s1 where s1: "read_entry io i s = Some (Inr (entry_of d h i), s1)" "ready io whole base limit d s1" "kept s s1"
      using read_entry_spec [OF r fit] h by auto
    define h1 where "h1 = h\<lparr>h_free_head := f_start (entry_of d h i)\<rparr>"
    have ui: "of_nat i = h_free_head h - 1" using i(1) by (metis of_nat_unat ucast_id)
    have "new_entry io s = Some (Some (of_nat i), s1\<lparr>head := h1\<rparr>)"
      unfolding new_entry_def h Let_def using False i(1) s1(1,3) h by (simp add: ui h1_def kept_def)
    moreover have "took d h i h1" using i nx by (auto simp: took_def h1_def)
    moreover have "kept (s\<lparr>head := h1\<rparr>) (s1\<lparr>head := h1\<rparr>)" using s1(3) by (simp add: kept_def)
    ultimately show ?thesis using s1(2) by (intro exI [of _ i] exI [of _ "s1\<lparr>head := h1\<rparr>"] exI [of _ h1]) simp
  next
    case True
    then have lt: "unat (h_table_next h) < unat (h_table_size h)" using room by simp
    define h1 where "h1 = h\<lparr>h_table_next := h_table_next h + 1\<rparr>"
    have "new_entry io s = Some (Some (of_nat (unat (h_table_next h))), s\<lparr>head := h1\<rparr>)"
      unfolding new_entry_def h Let_def using True lt by (simp add: h1_def word_nat)
    moreover have "xs = []" using xs(1) True by (cases xs) auto
    then have "took d h (unat (h_table_next h)) h1" using lt True by (auto simp: took_def h1_def intro!: exI [of _ "[]"])
    ultimately show ?thesis using r by (intro exI [of _ "unat (h_table_next h)"] exI [of _ "s\<lparr>head := h1\<rparr>"] exI [of _ h1]) simp
  qed
qed

lemma tookD:
  assumes "took d h i h1" "sound limit d h"
  shows "unat (h_table_next h1) = max (unat (h_table_next h)) (i + 1)" "unat (h_table_next h1) \<le> unat (h_table_size h)" "i < unat (h_table_next h1)"
    "i \<le> unat (h_table_next h)" "i < unat (h_table_next h) \<Longrightarrow> f_name (entry_of d h i) = []"
    "\<exists>e n. h1 = h\<lparr>h_free_head := e, h_table_next := n\<rparr>" "unat (of_nat i :: u32) = i"
proof -
  have b: "unat (h_table_next h) < 2 ^ 32 - 1" using soundD(10) [OF assms(2)] .
  have n1: "unat (h_table_next h + 1) = unat (h_table_next h) + 1" using b by (subst unat_add_small) simp_all
  have nx: "unat (h_table_next h) \<le> unat (h_table_size h)" using laidD(5) [OF soundD(6) [OF assms(2)]] .
  show "unat (h_table_next h1) = max (unat (h_table_next h)) (i + 1)" "unat (h_table_next h1) \<le> unat (h_table_size h)" "i < unat (h_table_next h1)"
    "i \<le> unat (h_table_next h)" "i < unat (h_table_next h) \<Longrightarrow> f_name (entry_of d h i) = []"
    using assms(1) n1 nx by (auto simp: took_def max_def)
  show "\<exists>e n. h1 = h\<lparr>h_free_head := e, h_table_next := n\<rparr>"
  proof (cases "\<exists>e. h1 = h\<lparr>h_free_head := e\<rparr>")
    case True
    then obtain e where "h1 = h\<lparr>h_free_head := e, h_table_next := h_table_next h\<rparr>" by auto
    then show ?thesis by blast
  next
    case False
    then have "h1 = h\<lparr>h_free_head := h_free_head h, h_table_next := h_table_next h + 1\<rparr>" using assms(1) by (auto simp: took_def)
    then show ?thesis by blast
  qed
  show "unat (of_nat i :: u32) = i" using \<open>i \<le> unat (h_table_next h)\<close> b by (intro unat_word_of_nat) simp
qed

section \<open>A name entered\<close>

lemma entry_sector_area: "i < unat (h_table_size h) \<Longrightarrow> unat (h_table_lba h) + i div PER_SECTOR \<in> table_area h"
  by (simp add: table_area_def sectors_of_def PER_SECTOR_def)

lemma entry_of_agree:
  assumes "\<forall>a \<in> table_area h. d' a = d a" "i < unat (h_table_size h)" "h_table_lba h' = h_table_lba h"
  shows "entry_of d' h' i = entry_of d h i"
  using assms entry_sector_area [OF assms(2)] by (simp add: entry_of_def)

lemma rec_of_agree:
  assumes "\<forall>a \<in> index_area h. d' a = d a" "a < unat (h_index_sectors h)" "h_index_lba h' = h_index_lba h"
  shows "rec_of d' h' a k = rec_of d h a k"
  using assms by (simp add: rec_of_def index_area_def)

text \<open>Everything but the table, the index and the header as it was.\<close>

definition meta :: "header \<Rightarrow> nat set" where
  "meta h = insert 1 (table_area h \<union> index_area h)"

lemma enter_name:
  assumes sd: "sound limit d h" and tk: "took d h i h1" and h2: "h2 = h1\<lparr>h_data_end := de\<rparr>"
    and de: "unat (h_data_end h) \<le> unat de" "unat de \<le> unat (h_disk_sectors h)"
    and r: "ready io whole base limit d1 s" "head s = h2" "1 < limit" and ag: "\<forall>a \<in> table_area h \<union> index_area h. d1 a = d a"
    and name: "fits name" "name \<noteq> []" "lookup d h name = None"
    and room: "(unat (h_index_taken h) + 1) * 2 \<le> places h"
    and f: "f = \<lparr>f_name = name, f_start = start, f_size = n\<rparr>"
    and area: "file_area f \<subseteq> {2 ..< unat de}" "file_area f \<inter> (table_area h \<union> index_area h) = {}"
      "\<And>i'. i' < unat (h_table_next h) \<Longrightarrow> i' \<noteq> i \<Longrightarrow> file_area f \<inter> file_area (entry_of d h i') = {}"
      "last name \<noteq> slash \<Longrightarrow> start \<noteq> 0"
  shows "\<exists>t d' h'. attempt (write_entry io i (Some name) start n s) (\<lambda>_ s1. attempt (index_add io name (of_nat i) s1) (\<lambda>_ s2. save_header io s2)) = Some (Inr (), t) \<and>
    ready io whole base limit d' t \<and> head t = h' \<and> held_table t = held_table s \<and> cwd t = cwd s \<and> sound limit d' h' \<and> header_of (d' 1) = h' \<and>
    lookup d' h' name = Some \<lparr>s_index = of_nat i, s_start = start, s_size = n\<rparr> \<and>
    (\<forall>other. other \<noteq> name \<longrightarrow> lookup d' h' other = lookup d h other) \<and> (\<forall>a. a \<notin> meta h \<longrightarrow> d' a = d1 a)"
proof -
  note sd' = soundD [OF sd] and tk' = tookD [OF tk sd]
  note ld = laidD [OF sd'(6)]
  obtain e nx where h1: "h1 = h\<lparr>h_free_head := e, h_table_next := nx\<rparr>" using tk'(6) by blast
  have same: "h_table_lba h2 = h_table_lba h" "h_table_size h2 = h_table_size h" "h_index_lba h2 = h_index_lba h" "h_index_sectors h2 = h_index_sectors h"
    "h_index_taken h2 = h_index_taken h" "h_table_next h2 = h_table_next h1" by (simp_all add: h2 h1)
  have tl: "table_fits limit h2"
  proof -
    have "table_fits limit (h\<lparr>h_table_next := h_table_next h1\<rparr>)" using table_fits_laid [OF sd'(6,11,12)] tk'(2) by simp
    then show ?thesis by (simp add: table_fits_def same)
  qed
  have i: "i < unat (h_table_next (head s))" "i < unat (h_table_size h)" using tk'(2,3) r(2) same by simp_all
  define a where "a = unat (h_table_lba h2) + i div PER_SECTOR"
  define d2 where "d2 = d1(a := entry_sector (i mod PER_SECTOR) (Some name) start n (d1 a))"
  have at: "a \<in> table_area h" using entry_sector_area [OF i(2)] same by (simp add: a_def)
  obtain s1 where s1: "write_entry io i (Some name) start n s = Some (Inr (), s1)" "kept s s1" "ready io whole base limit d2 s1"
    using write_entry_spec [OF r(1) _ i(1), of "Some name" start n] tl r(2) name(1) by (auto simp: d2_def a_def)
  have gd: "good_disk limit d1" using r(1) by (simp add: ready_def running_def)
  have e2: "entry_of d2 h2 i' = (if i' = i then f else entry_of d h i')" if i': "i' < unat (h_table_next h2)" for i'
  proof -
    have "entry_of d1 h2 i' = entry_of d h i'" using ag i' tk'(2) same by (intro entry_of_agree) auto
    then show ?thesis using entry_of_written [OF gd tl _ i', of i "Some name" start n] i(1) r(2) name(1) by (simp add: d2_def a_def f)
  qed
  have ni: "a \<notin> index_area h" using at sd'(6) by (auto simp: laid_def)
  have r2: "rec_of d2 h2 b k = rec_of d h b k" if "b < unat (h_index_sectors h)" for b k
    using ag ni that by (intro rec_of_agree) (auto simp: d2_def same)
  have places2: "places h2 = places h" "\<And>q hash. turn h2 hash q = turn h hash q" by (simp_all add: places_def turn_def same)
  have sn: "seen d2 h2 hash j = seen d h hash j" for hash j
    using r2 turn_less [OF sd'(3)] by (simp add: seen_def places2)
  define hash where "hash = hash_of name"
  have "card (used_places d h) < places h" using room sd'(8) by simp
  then obtain j where j: "first_stop 0 d h hash j" using free_stop by blast
  then have j2: "first_stop 0 d2 h2 hash j" by (simp add: first_stop_def sn places2)
  define b where "b = turn h hash (j div RECORDS)"
  define k where "k = j mod RECORDS"
  have bk: "b < unat (h_index_sectors h)" "k < RECORDS" using turn_less [OF sd'(3)] by (simp_all add: b_def k_def RECORDS_def)
  define rec where "rec = \<lparr>r_hash = hash, r_parent = parent_hash name, r_entry = of_nat i + 1\<rparr>"
  define h3 where "h3 = (if r_entry (seen d h hash j) = 0 then h2\<lparr>h_index_taken := h_index_taken h2 + 1\<rparr> else h2)"
  have hs1: "head s1 = h2" "held_table s1 = held_table s" "cwd s1 = cwd s" using s1(2) r(2) by (simp_all add: kept_def)
  have if2: "index_fits limit (head s1)" using sd'(3) by (simp add: hs1 index_fits_def same)
  from probe_place [OF s1(3) if2 hs1(1) le0 j2 refl, of rec] obtain s2 where
    s2: "probe_from io hash (place io rec 0) [0..<unat (h_index_sectors h2)] () s1 = Some (Inr (), s2)"
      "ready io whole base limit (place_rec d2 h2 b k rec) s2" "kept (s1\<lparr>head := h3\<rparr>) s2"
    by (auto simp: sn b_def k_def h3_def places2)
  have tkw: "unat (h_index_taken h + 1) = unat (h_index_taken h) + 1" "unat ((h_index_taken h + 1) * 2) = (unat (h_index_taken h) + 1) * 2"
    using room sd'(9) by (simp_all add: unat_word_ariths)
  have ia: "index_add io name (of_nat i) s1 = Some (Inr (), s2)"
    using s2(1) room tkw(2) unfolding index_add_def hs1(1) same hash_def [symmetric] rec_def [symmetric] probe_def by (simp add: places_def same)
  have hs2: "head s2 = h3" "held_table s2 = held_table s" "cwd s2 = cwd s" using s2(3) hs1 by (simp_all add: kept_def)
  obtain t d4 where t: "save_header io s2 = Some (Inr (), t)" "ready io whole base limit d4 t" "kept s2 t" "header_of (d4 1) = h3"
    "\<forall>x. x \<noteq> 1 \<longrightarrow> d4 x = place_rec d2 h2 b k rec x"
    using save_header_spec [OF s2(2) r(3)] hs2(1) by auto
  have fin: "attempt (write_entry io i (Some name) start n s) (\<lambda>_ s1. attempt (index_add io name (of_nat i) s1) (\<lambda>_ s2. save_header io s2)) = Some (Inr (), t)"
    using s1(1) ia t(1) by simp
  have ht: "head t = h3" "held_table t = held_table s" "cwd t = cwd s" using t(3) hs2 by (simp_all add: kept_def)
  have same3: "h_table_lba h3 = h_table_lba h" "h_table_size h3 = h_table_size h" "h_index_lba h3 = h_index_lba h" "h_index_sectors h3 = h_index_sectors h"
    "h_table_next h3 = h_table_next h1" "h_data_end h3 = de" "h_disk_sectors h3 = h_disk_sectors h" "h_magic h3 = h_magic h" "h_free_head h3 = h_free_head h1"
    by (simp_all add: h3_def h2 h1)
  have no1: "1 \<notin> table_area h" "1 \<notin> index_area h" using ld(4) by auto
  define lb where "lb = unat (h_index_lba h) + b"
  have lbi: "lb \<in> index_area h" using bk(1) by (simp add: lb_def index_area_def)
  have d4: "d4 x = d2 x" if "x \<noteq> 1" "x \<noteq> lb" for x using t(5) that by (simp add: place_rec_def Let_def lb_def same)
  have e4: "entry_of d4 h3 i' = (if i' = i then f else entry_of d h i')" if i': "i' < unat (h_table_next h3)" for i'
  proof -
    have "entry_of d4 h3 i' = entry_of d2 h2 i'"
    proof (rule entry_of_agree)
      have "table_area h2 = table_area h" by (simp add: table_area_def same)
      moreover have "table_area h \<inter> index_area h = {}" using sd'(6) unfolding laid_def by (elim conjE)
      ultimately show "\<forall>x \<in> table_area h2. d4 x = d2 x" using no1 lbi by (intro ballI d4) auto
    qed (use i' tk'(2) same same3 in simp_all)
    then show ?thesis using e2 i' same same3 by simp
  qed
  have len: "length (d2 (unat (h_index_lba h2) + b)) = SECTOR_SIZE"
    using ready_limit(2) [OF s1(3)] sd'(3) bk(1) by (simp add: index_fits_def same)
  have rep: "replaced d d4 h h3 b k rec"
    unfolding replaced_def
  proof (intro conjI allI impI bk same3)
    fix b' k' assume b': "b' < unat (h_index_sectors h)" "k' < RECORDS"
    have "rec_of d4 h3 b' k' = rec_of (place_rec d2 h2 b k rec) h2 b' k'"
      using t(5) no1 b'(1) by (auto simp: rec_of_def same same3 index_area_def)
    then show "rec_of d4 h3 b' k' = (if b' = b \<and> k' = k then rec else rec_of d h b' k')"
      using rec_of_place [where d = d2 and h = h2 and a = b, OF len bk(2) b'(2)] r2 [OF b'(1)] by simp
  qed
  have step: "entry_step d d4 h h3 i f"
    unfolding entry_step_def using same3 tk'(1,3) tk'(4) e4 by (auto simp: max_def split: if_splits)
  have en: "enters d d4 h h3 name i j rec"
    unfolding enters_def hash_def [symmetric] b_def [symmetric] k_def [symmetric]
    using rep j name tk'(1,4,5) tk'(2) same3(5) e4 f sd'(6) by (auto simp: rec_def lookup_None laid_def)
  have ok: "index_ok d4 h3" by (rule enters_index_ok [OF en sd'(5)])
  have lk: "lookup d4 h3 other = (if other = name then Some \<lparr>s_index = of_nat i, s_start = start, s_size = n\<rparr> else lookup d h other)" for other
  proof (cases "other = name")
    case True
    have "slot_of d4 h3 i = \<lparr>s_index = of_nat i, s_start = start, s_size = n\<rparr>" using e4 [of i] i(1) r(2) same same3 f by (simp add: slot_of_def)
    then show ?thesis using True enters_lookup [OF en sd'(5), of name] by simp
  next
    case False
    show ?thesis
    proof (cases "lookup d h other")
      case None
      then show ?thesis using False enters_lookup [OF en sd'(5), of other] by simp
    next
      case (Some g)
      then obtain i' where i': "i' < unat (h_table_next h)" "f_name (entry_of d h i') = other" "g = slot_of d h i'" "other \<noteq> []" "unat (s_index g) = i'"
        by (rule lookup_Some)
      have "i' \<noteq> i" using i' tk'(5) by auto
      then have "entry_of d4 h3 i' = entry_of d h i'" using e4 [of i'] i'(1) tk'(1) same3(5) by simp
      then have "slot_of d4 h3 i' = g" using i'(3) by (simp add: slot_of_def)
      then show ?thesis using False Some i'(5) enters_lookup [OF en sd'(5), of other] by simp
    qed
  qed
  have ld4: "laid limit d4 h3"
    using laid_step [OF sd'(6) step _ _ _ _ area(2,3)] de area(1,4) tk'(2) same3 f by auto
  have fr: "free_ok d4 h3"
  proof -
    obtain xs where xs: "free_chain d h (h_free_head h1) xs" "distinct xs" "i \<notin> set xs" using tk by (auto simp: took_def)
    then have "free_chain d4 h3 (h_free_head h1) xs" using free_chain_step [OF xs(1) step xs(3)] by simp
    then show ?thesis using xs(2) same3(9) by (auto simp: free_ok_def)
  qed
  have "r_entry rec \<noteq> 0" using entersD(13) [OF en] .
  then have cu: "card (used_places d4 h3) = unat (h_index_taken h3)"
    using card_used_replaced [OF rep] sd'(8) tkw(1) by (auto simp: h3_def same seen_def b_def k_def)
  have fits: "index_fits limit h3" using sd'(3) by (simp add: index_fits_def same3)
  have "table_fits limit h3" using tl by (simp add: table_fits_def same same3)
  then have "sound limit d4 h3"
    using ok ld4 fr cu fits sd'(1,9) by (simp add: sound_def fs_inv_def same3 places_def)
  moreover have "d4 x = d1 x" if "x \<notin> meta h" for x
  proof -
    have "x \<noteq> 1" "x \<noteq> lb" "x \<noteq> a" using that lbi at by (auto simp: meta_def)
    then show ?thesis using d4 [of x] by (simp add: d2_def)
  qed
  ultimately show ?thesis using fin t(2,4) ht lk by (intro exI [of _ t] exI [of _ d4] exI [of _ h3]) simp
qed

section \<open>An entry rewritten\<close>

lemma same_index:
  assumes e: "entry_step d d' h h' i f" and i: "i < unat (h_table_next h)" "h_table_next h' = h_table_next h" "f_name f = f_name (entry_of d h i)"
    and r: "\<And>a k. a < unat (h_index_sectors h) \<Longrightarrow> k < RECORDS \<Longrightarrow> rec_of d' h' a k = rec_of d h a k" and fit: "index_fits limit h" and ok: "index_ok d h"
  shows "index_ok d' h'" "used_places d' h' = used_places d h"
    "lookup d' h' name = map_option (\<lambda>g. slot_of d' h' (unat (s_index g))) (lookup d h name)"
proof -
  note s = entry_stepD [OF e]
  have n: "f_name (entry_of d' h' i') = f_name (entry_of d h i')" if "i' < unat (h_table_next h)" for i'
    using s(12) [of i'] s(13) i that by (cases "i' = i") auto
  have pl: "places h' = places h" "\<And>hash q. turn h' hash q = turn h hash q" by (simp_all add: places_def turn_def s)
  have sn: "seen d' h' hash j = seen d h hash j" for hash j
    using r turn_less [OF fit] by (simp add: seen_def pl RECORDS_def)
  have pt: "points_true d' h' x = points_true d h x" if "r_entry x \<noteq> 0" for x
  proof -
    have z: "unat (r_entry x) \<noteq> 0" using that by (simp add: unat_eq_zero)
    show ?thesis
    proof (cases "unat (r_entry x) \<le> unat (h_table_next h)")
      case True
      then have "unat (r_entry x) - 1 < unat (h_table_next h)" using z by linarith
      then show ?thesis using n i(2) by (simp add: points_true_def)
    qed (simp add: points_true_def i(2))
  qed
  have mt: "meets d' h' i' hash = meets d h i' hash" for i' hash by (simp add: meets_def sn pl)
  show "used_places d' h' = used_places d h" using r by (auto simp: used_places_def s)
  show ok': "index_ok d' h'"
    using ok unfolding index_ok_alt i(2) s(10) mt by (simp add: r pt n live_record_def cong: conj_cong) blast
  show "lookup d' h' name = map_option (\<lambda>g. slot_of d' h' (unat (s_index g))) (lookup d h name)"
  proof (cases "lookup d h name")
    case None
    then show ?thesis using n i(2) lookup_None [of d h name] lookup_None [of d' h' name] by auto
  next
    case (Some g)
    then obtain i' where i': "i' < unat (h_table_next h)" "f_name (entry_of d h i') = name" "g = slot_of d h i'" "name \<noteq> []" "unat (s_index g) = i'"
      by (rule lookup_Some)
    then show ?thesis using lookup_unique [OF ok', of i' name] n i(2) Some by simp
  qed
qed

lemma rewrite_entry:
  assumes sd: "sound limit d h" and i: "i < unat (h_table_next h)" "f_name (entry_of d h i) = name" "name \<noteq> []"
    and h2: "h2 = h\<lparr>h_data_end := de\<rparr>" and de: "unat (h_data_end h) \<le> unat de" "unat de \<le> unat (h_disk_sectors h)"
    and r: "ready io whole base limit d1 s" "head s = h2" "1 < limit" and ag: "\<forall>a \<in> table_area h \<union> index_area h. d1 a = d a"
    and fits: "fits name" and f: "f = \<lparr>f_name = name, f_start = start, f_size = n\<rparr>" and new: "new = Some name \<or> new = None"
    and area: "file_area f \<subseteq> {2 ..< unat de}" "file_area f \<inter> (table_area h \<union> index_area h) = {}"
      "\<And>i'. i' < unat (h_table_next h) \<Longrightarrow> i' \<noteq> i \<Longrightarrow> file_area f \<inter> file_area (entry_of d h i') = {}"
      "last name \<noteq> slash \<Longrightarrow> start \<noteq> 0"
  shows "\<exists>t d' h'. attempt (write_entry io i new start n s) (\<lambda>_ s1. save_header io s1) = Some (Inr (), t) \<and>
    ready io whole base limit d' t \<and> head t = h' \<and> held_table t = held_table s \<and> cwd t = cwd s \<and> sound limit d' h' \<and> header_of (d' 1) = h' \<and>
    lookup d' h' name = Some \<lparr>s_index = of_nat i, s_start = start, s_size = n\<rparr> \<and>
    (\<forall>other. other \<noteq> name \<longrightarrow> lookup d' h' other = lookup d h other) \<and> (\<forall>a. a \<notin> meta h \<longrightarrow> d' a = d1 a)"
proof -
  note sd' = soundD [OF sd]
  note ld = laidD [OF sd'(6)]
  have same: "h_table_lba h2 = h_table_lba h" "h_table_size h2 = h_table_size h" "h_index_lba h2 = h_index_lba h" "h_index_sectors h2 = h_index_sectors h"
    "h_index_taken h2 = h_index_taken h" "h_table_next h2 = h_table_next h" "h_free_head h2 = h_free_head h" "h_magic h2 = h_magic h"
    "h_disk_sectors h2 = h_disk_sectors h" "h_data_end h2 = de" by (simp_all add: h2)
  have tl: "table_fits limit h2" using sd'(4) by (simp add: table_fits_def same)
  have isz: "i < unat (h_table_size h)" using i(1) ld(5) by simp
  define a where "a = unat (h_table_lba h2) + i div PER_SECTOR"
  define d2 where "d2 = d1(a := entry_sector (i mod PER_SECTOR) new start n (d1 a))"
  have at: "a \<in> table_area h" using entry_sector_area [OF isz] same by (simp add: a_def)
  obtain s1 where s1: "write_entry io i new start n s = Some (Inr (), s1)" "kept s s1" "ready io whole base limit d2 s1"
    using write_entry_spec [OF r(1), of i new start n] tl r(2) i(1) fits new by (auto simp: d2_def a_def same)
  have gd: "good_disk limit d1" using r(1) by (simp add: ready_def running_def)
  have e1: "entry_of d1 h2 i' = entry_of d h i'" if "i' < unat (h_table_next h)" for i'
    using ag that ld(5) same by (intro entry_of_agree) auto
  have e2: "entry_of d2 h2 i' = (if i' = i then f else entry_of d h i')" if i': "i' < unat (h_table_next h2)" for i'
    using entry_of_written [OF gd tl _ i', of i new start n] i e1 i' fits new same by (auto simp: d2_def a_def f)
  have hs1: "head s1 = h2" "held_table s1 = held_table s" "cwd s1 = cwd s" using s1(2) r(2) by (simp_all add: kept_def)
  obtain t d4 where t: "save_header io s1 = Some (Inr (), t)" "ready io whole base limit d4 t" "kept s1 t" "header_of (d4 1) = h2"
    "\<forall>x. x \<noteq> 1 \<longrightarrow> d4 x = d2 x"
    using save_header_spec [OF s1(3) r(3)] hs1(1) by auto
  have ht: "head t = h2" "held_table t = held_table s" "cwd t = cwd s" using t(3) hs1 by (simp_all add: kept_def)
  have no1: "1 \<notin> table_area h" "1 \<notin> index_area h" using ld(4) by auto
  have disj: "table_area h \<inter> index_area h = {}" using sd'(6) unfolding laid_def by (elim conjE)
  have e4: "entry_of d4 h2 i' = (if i' = i then f else entry_of d h i')" if i': "i' < unat (h_table_next h2)" for i'
  proof -
    have "\<forall>x \<in> table_area h2. d4 x = d2 x" using no1 t(5) by (metis same(1,2) table_area_def)
    then have "entry_of d4 h2 i' = entry_of d2 h2 i'" using i' ld(5) same by (intro entry_of_agree) auto
    then show ?thesis using e2 i' by simp
  qed
  have r4: "rec_of d4 h2 b k = rec_of d h b k" if "b < unat (h_index_sectors h)" for b k
  proof (rule rec_of_agree)
    show "\<forall>x \<in> index_area h. d4 x = d x"
    proof
      fix x assume x: "x \<in> index_area h"
      then have "x \<noteq> 1" "x \<noteq> a" using no1 disj at by auto
      then show "d4 x = d x" using t(5) ag x by (simp add: d2_def)
    qed
  qed (use that same in simp_all)
  have step: "entry_step d d4 h h2 i f" unfolding entry_step_def using same i(1) e4 by simp
  have nf: "f_name f = f_name (entry_of d h i)" using f i(2) by simp
  note si = same_index [OF step i(1) same(6) nf r4 sd'(3,5)]
  have lk: "lookup d4 h2 other = (if other = name then Some \<lparr>s_index = of_nat i, s_start = start, s_size = n\<rparr> else lookup d h other)" for other
  proof (cases "lookup d h other")
    case None
    then show ?thesis using si(3) [of other] lookup_unique [OF sd'(5) i] by auto
  next
    case (Some g)
    then obtain i' where i': "i' < unat (h_table_next h)" "f_name (entry_of d h i') = other" "g = slot_of d h i'" "other \<noteq> []" "unat (s_index g) = i'"
      by (rule lookup_Some)
    have "i' = i \<longleftrightarrow> other = name" using sd'(5) i i' unfolding index_ok_def by metis
    then show ?thesis using Some i' si(3) [of other] e4 [of i'] same f by (auto simp: slot_of_def)
  qed
  have "laid limit d4 h2" using laid_step [OF sd'(6) step _ _ _ _ area(2,3)] de area(1,4) ld(5) same f by auto
  moreover have "free_ok d4 h2"
  proof -
    obtain xs where xs: "free_chain d h (h_free_head h) xs" "distinct xs" using sd'(7) by (auto simp: free_ok_def)
    have "i \<notin> set xs" using free_chain_names [OF xs(1)] i by auto
    then have "free_chain d4 h2 (h_free_head h) xs" using free_chain_step [OF xs(1) step] by simp
    then show ?thesis using xs(2) same by (auto simp: free_ok_def)
  qed
  moreover have "index_fits limit h2" using sd'(3) by (simp add: index_fits_def same)
  ultimately have "sound limit d4 h2" using si(1,2) sd' tl same by (simp add: sound_def fs_inv_def places_def)
  moreover have "d4 x = d1 x" if "x \<notin> meta h" for x using t(5) that at by (auto simp: meta_def d2_def)
  moreover have "attempt (write_entry io i new start n s) (\<lambda>_ s1. save_header io s1) = Some (Inr (), t)" using s1(1) t(1) by simp
  ultimately show ?thesis using t(2,4) ht lk by (intro exI [of _ t] exI [of _ d4] exI [of _ h2]) simp
qed

section \<open>The map of files\<close>

text \<open>Names whose entries and sectors stay keep their contents.\<close>

lemma other_file:
  assumes "laid limit d h" "lookup d h name = Some g" and out: "\<And>i. i < unat (h_table_next h) \<Longrightarrow> f_name (entry_of d h i) = name \<Longrightarrow> \<forall>a \<in> file_area (entry_of d h i). d' a = d a"
  shows "data_at d' (unat (s_start g)) (unat (bytes_of g)) = data_at d (unat (s_start g)) (unat (bytes_of g))"
proof -
  obtain i where i: "i < unat (h_table_next h)" "f_name (entry_of d h i) = name" "g = slot_of d h i" "name \<noteq> []"
    using assms(2) by (rule lookup_Some)
  have "file_area (entry_of d h i) = {unat (s_start g) ..< unat (s_start g) + sectors_of (unat (bytes_of g))}"
    using i by (simp add: file_area_def size_of_def slot_of_def bytes_of_def)
  then show ?thesis using out [OF i(1,2)] by (intro data_at_cong) auto
qed

lemma files_updated:
  assumes sd: "sound limit d h" and lk: "lookup d' h' name = Some f" "\<And>other. other \<noteq> name \<Longrightarrow> lookup d' h' other = lookup d h other"
    and d': "\<And>a. a \<notin> meta h \<Longrightarrow> d' a = d1 a" and d1: "\<And>a. a \<notin> A \<Longrightarrow> d1 a = d a"
    and A: "\<And>i. i < unat (h_table_next h) \<Longrightarrow> f_name (entry_of d h i) \<noteq> name \<Longrightarrow> A \<inter> file_area (entry_of d h i) = {}"
    and own: "{unat (s_start f) ..< unat (s_start f) + sectors_of (unat (bytes_of f))} \<inter> meta h = {}"
  shows "files d' h' = (files d h)(name \<mapsto> (is_link f, data_at d1 (unat (s_start f)) (unat (bytes_of f))))"
proof
  fix other
  note ld = laidD [OF soundD(6) [OF sd]]
  show "files d' h' other = ((files d h)(name \<mapsto> (is_link f, data_at d1 (unat (s_start f)) (unat (bytes_of f))))) other"
  proof (cases "other = name")
    case True
    have "data_at d' (unat (s_start f)) (unat (bytes_of f)) = data_at d1 (unat (s_start f)) (unat (bytes_of f))"
      using own d' by (intro data_at_cong) (meson atLeastLessThan_iff disjoint_iff)
    then show ?thesis using True lk(1) by (simp add: files_def)
  next
    case False
    show ?thesis
    proof (cases "lookup d h other")
      case (Some g)
      have "data_at d' (unat (s_start g)) (unat (bytes_of g)) = data_at d (unat (s_start g)) (unat (bytes_of g))"
      proof (rule other_file [OF soundD(6) [OF sd] Some], rule ballI)
        fix i a assume i: "i < unat (h_table_next h)" "f_name (entry_of d h i) = other" and a: "a \<in> file_area (entry_of d h i)"
        have "a \<noteq> 1" using ld(6) [OF i(1)] a by auto
        then have "a \<notin> meta h" using ld(7) [OF i(1)] a by (auto simp: meta_def)
        moreover have "a \<notin> A" using A [OF i(1)] i(2) False a by auto
        ultimately show "d' a = d a" using d' d1 by simp
      qed
      then show ?thesis using False Some lk(2) by (simp add: files_def)
    next
      case None
      then show ?thesis using False lk(2) by (simp add: files_def)
    qed
  qed
qed

section \<open>Storing\<close>

lemma link_flag:
  assumes "len < 2 ^ 31" "flag = 0 \<or> flag = FS_LINK"
  shows "(of_nat len OR flag) AND NOT FS_LINK = (of_nat len :: u32)" "((of_nat len :: u32) OR flag) AND FS_LINK = flag"
proof -
  define x :: u32 where "x = of_nat len"
  have "unat x = len" using assms(1) by (simp add: x_def unat_word_of_nat)
  then have tx: "take_bit 31 x = x" using assms(1) by (simp add: word_unat_eq_iff unsigned_take_bit_eq take_bit_nat_eq_self)
  then have b: "\<not> bit x 31" by (metis bit_take_bit_iff less_irrefl)
  have b': "bit x n \<Longrightarrow> n \<noteq> 31" for n using b by auto
  show "(of_nat len OR flag) AND NOT FS_LINK = (of_nat len :: u32)"
    unfolding x_def [symmetric] using assms(2) b' by (intro bit_word_eqI) (auto simp: bit_simps link_bit)
  show "((of_nat len :: u32) OR flag) AND FS_LINK = flag"
    unfolding x_def [symmetric] using assms(2) b' by (intro bit_word_eqI) (auto simp: bit_simps link_bit)
qed

lemma parent_exists_spec:
  assumes "knows io whole base limit d h s" "fs_inv limit d h" "0 \<notin> set name"
  shows "\<exists>t. parent_exists io name s = Some (parent_of name = [] \<or> lookup d h (parent_of name) \<noteq> None, t) \<and>
    knows io whole base limit d h t \<and> cwd t = cwd s"
proof (cases "parent_of name = []")
  case True
  then show ?thesis using assms by (simp add: parent_exists_def)
next
  case False
  have sub: "set (cut_last m) \<subseteq> set m" for m by (auto simp: cut_last_def dest: set_dropWhileD)
  have "set (parent_of name) \<subseteq> set name" using sub [of name] sub [of "butlast name"] by (auto simp: parent_of_def dest: in_set_butlastD)
  then have n: "0 \<notin> set (parent_of name)" using assms(3) by auto
  obtain t where "fs_find io (parent_of name) s = Some (lookup d h (parent_of name), t)" "knows io whole base limit d h t" "cwd t = cwd s"
    using fs_find_spec [OF assms(1,2) n] by blast
  then show ?thesis using False by (simp add: parent_exists_def)
qed

lemma knows_ready:
  assumes "knows io whole base limit d h s" "held_table s"
  shows "ready io whole base limit d s" "head s = h" "1 < limit"
  using assms by (auto simp: knows_def)

lemma store_data_area:
  assumes r: "ready io whole base limit d s" and sd: "sound limit d h" and n: "length data < 2 ^ 31"
    and fa: "free_area d h own (unat de) (unat start) (sectors_of (length data))" and de: "unat de \<le> unat (h_disk_sectors h)"
  obtains t d1 where "store_data io start (sectors_for (of_nat (length data))) data s = Some (Inr (), t)" "ready io whole base limit d1 t" "kept s t"
    "\<And>a. a \<notin> {unat start ..< unat start + sectors_of (length data)} \<Longrightarrow> d1 a = d a" "data_at d1 (unat start) (length data) = data"
    "\<forall>a \<in> table_area h \<union> index_area h. d1 a = d a"
proof -
  have "unat start + sectors_of (length data) \<le> limit \<or> length data = 0"
  proof (cases "length data = 0")
    case False
    then have "sectors_of (length data) \<noteq> 0" unfolding sectors_of_def by arith
    then have "unat start + sectors_of (length data) - 1 \<in> {unat start ..< unat start + sectors_of (length data)}" by simp
    then have "unat start + sectors_of (length data) - 1 < unat de" using fa unfolding free_area_def by (meson atLeastLessThan_iff subsetD)
    then show ?thesis using de laidD(2) [OF soundD(6) [OF sd]] by linarith
  qed simp
  then obtain t where t: "store_data io start (sectors_for (of_nat (length data))) data s = Some (Inr (), t)"
    "ready io whole base limit (write_at (unat start) (sectors_from data) d) t" "kept s t"
  proof (cases "length data = 0")
    case True
    have "store_data io start (sectors_for (of_nat (length data))) data s = Some (Inr (), s)"
      using True by (simp add: store_data_def Let_def sectors_for_def)
    moreover have "sectors_from data = []" using True by (simp add: sectors_from_def whole_sectors_def Let_def)
    then have "write_at (unat start) (sectors_from data) d = d" by (auto simp: write_at_def fun_eq_iff)
    ultimately show thesis using that r by simp
  next
    case False
    then show thesis using store_data_spec [OF r n, of start] that \<open>_ \<or> length data = 0\<close> by auto
  qed
  have out: "write_at (unat start) (sectors_from data) d a = d a" if "a \<notin> {unat start ..< unat start + sectors_of (length data)}" for a
    using that sectors_from_spec(1) [of data] by (auto simp: write_at_def)
  moreover have "\<forall>a \<in> table_area h \<union> index_area h. write_at (unat start) (sectors_from data) d a = d a"
    using fa out unfolding free_area_def by (meson disjoint_iff)
  ultimately show thesis using that t data_at_written [OF n] by blast
qed

lemma stored_file:
  assumes n: "length data < 2 ^ 31" "flag = 0 \<or> flag = FS_LINK" and f: "f = \<lparr>f_name = name, f_start = start, f_size = of_nat (length data) OR flag\<rparr>" "name \<noteq> []"
  shows "file_area f = {unat start ..< unat start + sectors_of (length data)}"
    "unat (bytes_of \<lparr>s_index = i, s_start = start, s_size = of_nat (length data) OR flag\<rparr>) = length data"
    "is_link \<lparr>s_index = i, s_start = start, s_size = of_nat (length data) OR flag\<rparr> \<longleftrightarrow> flag \<noteq> 0"
proof -
  have u: "unat (of_nat (length data) :: u32) = length data" using n(1) by (intro unat_word_of_nat) simp
  show "file_area f = {unat start ..< unat start + sectors_of (length data)}"
    using f link_flag(1) [OF n] u by (simp add: file_area_def size_of_def)
  show "unat (bytes_of \<lparr>s_index = i, s_start = start, s_size = of_nat (length data) OR flag\<rparr>) = length data"
    using link_flag(1) [OF n] u by (simp add: bytes_of_def)
  show "is_link \<lparr>s_index = i, s_start = start, s_size = of_nat (length data) OR flag\<rparr> \<longleftrightarrow> flag \<noteq> 0"
    using link_flag(2) [OF n] by (simp add: is_link_def)
qed
end
