(* ===== verification/FsRefine.thy ===== *)
theory FsRefine
  imports FsOps
begin

text \<open>
  The operations of the filesystem as operations on the map of files: storing, removing, making a folder,
  and paths.
\<close>

section \<open>Storing\<close>

text \<open>There is room past the end of the data, in the table and in the index.\<close>

definition has_room :: "header \<Rightarrow> nat \<Rightarrow> bool \<Rightarrow> bool" where
  "has_room h n fresh \<longleftrightarrow> unat (h_data_end h) + sectors_of n \<le> unat (h_disk_sectors h) \<and>
     (fresh \<longrightarrow> (h_free_head h \<noteq> 0 \<or> unat (h_table_next h) < unat (h_table_size h)) \<and> (unat (h_index_taken h) + 1) * 2 \<le> places h)"

definition has_parent :: "(nat \<Rightarrow> sector) \<Rightarrow> header \<Rightarrow> u8 list \<Rightarrow> bool" where
  "has_parent d h name \<longleftrightarrow> parent_of name = [] \<or> lookup d h (parent_of name) \<noteq> None"

lemma free_area_taken:
  assumes "took d h i h1" "sound limit d h" "free_area d h1 None de st n"
  shows "{st ..< st + n} \<subseteq> {2 ..< de}" "{st ..< st + n} \<inter> (table_area h \<union> index_area h) = {}"
    "\<And>i'. i' < unat (h_table_next h) \<Longrightarrow> {st ..< st + n} \<inter> file_area (entry_of d h i') = {}"
proof -
  obtain e nx where h1: "h1 = h\<lparr>h_free_head := e, h_table_next := nx\<rparr>" using tookD(6) [OF assms(1,2)] by blast
  have a: "table_area h1 = table_area h" "index_area h1 = index_area h" "\<And>i'. entry_of d h1 i' = entry_of d h i'"
    by (simp_all add: h1 table_area_def index_area_def entry_of_def)
  show "{st ..< st + n} \<subseteq> {2 ..< de}" "{st ..< st + n} \<inter> (table_area h \<union> index_area h) = {}"
    using assms(3) a by (simp_all add: free_area_def)
  fix i' assume "i' < unat (h_table_next h)"
  then have "i' < unat (h_table_next h1)" using tookD(1) [OF assms(1,2)] by simp
  then show "{st ..< st + n} \<inter> file_area (entry_of d h i') = {}" using assms(3) a unfolding free_area_def by simp
qed

lemma allocate_new:
  assumes sd: "sound limit d h" and tk: "took d h i h1" and h: "head s = h1"
    and n: "n < 2 ^ 31" "unat (h_data_end h) + sectors_of n \<le> unat (h_disk_sectors h)"
  shows "\<exists>start de. allocate io (sectors_for (of_nat n)) None s = Some (start, s\<lparr>head := h1\<lparr>h_data_end := de\<rparr>\<rparr>) \<and> start \<noteq> 0 \<and>
    unat (h_data_end h) \<le> unat de \<and> unat de \<le> unat (h_disk_sectors h) \<and> free_area d h None (unat de) (unat start) (sectors_of n)"
proof -
  obtain e nx where h1: "h1 = h\<lparr>h_free_head := e, h_table_next := nx\<rparr>" using tookD(6) [OF tk sd] by blast
  define c :: u32 where "c = sectors_for (of_nat n)"
  have c: "unat c = sectors_of n" using sectors_for_nat [of "of_nat n"] n(1) by (simp add: c_def unat_word_of_nat)
  have uc: "unat (h_data_end h + c) = unat (h_data_end h) + sectors_of n"
    using n(2) unat_bound [of "h_disk_sectors h"] c by (subst unat_add_small) simp_all
  then have "h_data_end h1 + c \<le> h_disk_sectors h1" using n(2) by (simp add: word_nat h1)
  then have "allocate io c None s = Some (h_data_end h, s\<lparr>head := h1\<lparr>h_data_end := h_data_end h + c\<rparr>\<rparr>)"
    using h by (simp add: allocate_def Let_def h1)
  moreover have "free_area d h None (unat (h_data_end h + c)) (unat (h_data_end h)) (sectors_of n)"
    using past_end_area [OF soundD(6) [OF sd]] uc by simp
  moreover have "h_data_end h \<noteq> 0" using laidD(3) [OF soundD(6) [OF sd]] by auto
  ultimately show ?thesis using uc n(2) unfolding c_def [symmetric]
    by - (rule exI [of _ "h_data_end h"], rule exI [of _ "h_data_end h + c"], simp)
qed

text \<open>What an operation that succeeds leaves.\<close>

definition leaves_files ::
  "('f, 'a) io \<Rightarrow> ('f \<Rightarrow> nat \<Rightarrow> sector) \<Rightarrow> nat \<Rightarrow> nat \<Rightarrow> ('f, 'a) fs_scheme \<Rightarrow> (fs_error + unit, ('f, 'a) fs_scheme) run \<Rightarrow>
     (u8 list \<rightharpoonup> bool \<times> u8 list) \<Rightarrow> bool" where
  "leaves_files io whole base limit s result m \<longleftrightarrow> (\<exists>t d h. result = Some (Inr (), t) \<and> knows io whole base limit d h t \<and> sound limit d h \<and>
     header_of (d 1) = h \<and> cwd t = cwd s \<and> files d h = m)"

lemma meta_disjoint:
  assumes "sound limit d h" "free_area d h own de st n"
  shows "{st ..< st + n} \<inter> meta h = {}"
proof -
  have "1 \<notin> {st ..< st + n}" using assms(2) unfolding free_area_def by force
  then show ?thesis using assms(2) unfolding free_area_def meta_def by auto
qed

lemma store_new:
  assumes k: "knows io whole base limit d h s" "held_table s" and sd: "sound limit d h"
    and name: "fits name" "name \<noteq> []" "last name \<noteq> slash" "lookup d h name = None"
    and n: "length data < 2 ^ 31" "flag = 0 \<or> flag = FS_LINK" and room: "has_room h (length data) True"
  shows "\<exists>i s1 start s2 s3. new_entry io s = Some (Some (of_nat i), s1) \<and> unat (of_nat i :: u32) = i \<and>
    allocate io (sectors_for (of_nat (length data))) None s1 = Some (start, s2) \<and> start \<noteq> 0 \<and>
    store_data io start (sectors_for (of_nat (length data))) data s2 = Some (Inr (), s3) \<and>
    leaves_files io whole base limit s
      (attempt (write_entry io i (Some name) start (of_nat (length data) OR flag) s3) (\<lambda>_ s4. attempt (index_add io name (of_nat i) s4) (\<lambda>_ s5. save_header io s5)))
      ((files d h)(name \<mapsto> (flag \<noteq> 0, data)))"
proof -
  note rd = knows_ready [OF k]
  have ro: "unat (h_data_end h) + sectors_of (length data) \<le> unat (h_disk_sectors h)"
    "h_free_head h \<noteq> 0 \<or> unat (h_table_next h) < unat (h_table_size h)" "(unat (h_index_taken h) + 1) * 2 \<le> places h"
    using room by (auto simp: has_room_def)
  obtain i s1 h1 where s1: "new_entry io s = Some (Some (of_nat i), s1)" "ready io whole base limit d s1" "kept (s\<lparr>head := h1\<rparr>) s1" "took d h i h1"
    using new_entry_spec [OF rd(1,2) sd ro(2)] by auto
  have h1: "head s1 = h1" "held_table s1" "cwd s1 = cwd s" using s1(3) k(2) by (simp_all add: kept_def)
  obtain start de where al: "allocate io (sectors_for (of_nat (length data))) None s1 = Some (start, s1\<lparr>head := h1\<lparr>h_data_end := de\<rparr>\<rparr>)" "start \<noteq> 0"
    "unat (h_data_end h) \<le> unat de" "unat de \<le> unat (h_disk_sectors h)" "free_area d h None (unat de) (unat start) (sectors_of (length data))"
    using allocate_new [OF sd s1(4) h1(1) n(1) ro(1)] by blast
  define s2 where "s2 = s1\<lparr>head := h1\<lparr>h_data_end := de\<rparr>\<rparr>"
  have r2: "ready io whole base limit d s2" using s1(2) by (simp add: s2_def)
  obtain s3 d1 where s3: "store_data io start (sectors_for (of_nat (length data))) data s2 = Some (Inr (), s3)" "ready io whole base limit d1 s3" "kept s2 s3"
    "\<And>a. a \<notin> {unat start ..< unat start + sectors_of (length data)} \<Longrightarrow> d1 a = d a" "data_at d1 (unat start) (length data) = data"
    "\<forall>a \<in> table_area h \<union> index_area h. d1 a = d a"
    using store_data_area [OF r2 sd n(1) al(5,4)] by metis
  have h3: "head s3 = h1\<lparr>h_data_end := de\<rparr>" "held_table s3" "cwd s3 = cwd s" using s3(3) h1 by (simp_all add: kept_def s2_def)
  define f where "f = \<lparr>f_name = name, f_start = start, f_size = of_nat (length data) OR flag\<rparr>"
  note sf = stored_file [OF n f_def name(2)]
  have fa: "file_area f \<subseteq> {2 ..< unat de}" "file_area f \<inter> (table_area h \<union> index_area h) = {}"
    "\<And>i'. i' < unat (h_table_next h) \<Longrightarrow> file_area f \<inter> file_area (entry_of d h i') = {}"
    using al(5) unfolding free_area_def sf(1) by auto
  obtain t d' h' where t: "attempt (write_entry io i (Some name) start (of_nat (length data) OR flag) s3) (\<lambda>_ s1. attempt (index_add io name (of_nat i) s1) (\<lambda>_ s2. save_header io s2)) = Some (Inr (), t)"
    "ready io whole base limit d' t" "head t = h'" "held_table t = held_table s3" "cwd t = cwd s3" "sound limit d' h'" "header_of (d' 1) = h'"
    "lookup d' h' name = Some \<lparr>s_index = of_nat i, s_start = start, s_size = of_nat (length data) OR flag\<rparr>"
    "\<forall>other. other \<noteq> name \<longrightarrow> lookup d' h' other = lookup d h other" "\<forall>a. a \<notin> meta h \<longrightarrow> d' a = d1 a"
    using enter_name [OF sd s1(4) refl al(3,4) s3(2) h3(1) rd(3) s3(6) name(1,2,4) ro(3) f_def fa(1,2)] fa(3) al(2) by blast
  have "files d' h' = (files d h)(name \<mapsto> (flag \<noteq> 0, data))"
    using files_updated [of limit d h d' h' name _ d1 "file_area f", OF sd t(8)] t(9,10) s3(4,5) fa(3) meta_disjoint [OF sd al(5)] sf by simp
  then have "leaves_files io whole base limit s
      (attempt (write_entry io i (Some name) start (of_nat (length data) OR flag) s3) (\<lambda>_ s4. attempt (index_add io name (of_nat i) s4) (\<lambda>_ s5. save_header io s5)))
      ((files d h)(name \<mapsto> (flag \<noteq> 0, data)))"
    unfolding leaves_files_def using t h3 rd(3) by (intro exI [of _ t] exI [of _ d'] exI [of _ h']) (simp add: knows_def)
  then show ?thesis using s1(1) tookD(7) [OF s1(4) sd] al(1,2) s3(1) unfolding s2_def by blast
qed

lemma store_old:
  assumes k: "knows io whole base limit d h s" "held_table s" and sd: "sound limit d h"
    and name: "fits name" "name \<noteq> []" "last name \<noteq> slash" "lookup d h name = Some g"
    and n: "length data < 2 ^ 31" "flag = 0 \<or> flag = FS_LINK" and room: "has_room h (length data) False"
  shows "\<exists>start s2 s3. allocate io (sectors_for (of_nat (length data))) (Some g) s = Some (start, s2) \<and> start \<noteq> 0 \<and>
    store_data io start (sectors_for (of_nat (length data))) data s2 = Some (Inr (), s3) \<and>
    leaves_files io whole base limit s
      (attempt (write_entry io (unat (s_index g)) (Some name) start (of_nat (length data) OR flag) s3) (\<lambda>_ s4. save_header io s4))
      ((files d h)(name \<mapsto> (flag \<noteq> 0, data)))"
proof -
  note rd = knows_ready [OF k]
  have ro: "unat (h_data_end h) + sectors_of (length data) \<le> unat (h_disk_sectors h)" using room by (auto simp: has_room_def)
  obtain i where i: "i < unat (h_table_next h)" "f_name (entry_of d h i) = name" "g = slot_of d h i" "unat (s_index g) = i"
    using lookup_Some [OF name(4)] by metis
  have "case Some g of None \<Rightarrow> True | Some f \<Rightarrow> \<exists>i < unat (h_table_next h). f = slot_of d h i \<and> unat (s_index f) = i \<and>
      f_name (entry_of d h i) \<noteq> [] \<and> last (f_name (entry_of d h i)) \<noteq> slash" using i name(2,3) by auto
  from allocate_spec [OF soundD(6) [OF sd] rd(2) refl n(1) ro this, of io] obtain start de where
    al: "allocate io (sectors_for (of_nat (length data))) (Some g) s = Some (start, s\<lparr>head := h\<lparr>h_data_end := de\<rparr>\<rparr>)" "start \<noteq> 0"
      "free_area d h (Some i) (unat de) (unat start) (sectors_of (length data))" "unat (h_data_end h) \<le> unat de" "unat de \<le> unat (h_disk_sectors h)"
    using i(4) by auto
  define s2 where "s2 = s\<lparr>head := h\<lparr>h_data_end := de\<rparr>\<rparr>"
  have r2: "ready io whole base limit d s2" using rd(1) by (simp add: s2_def)
  obtain s3 d1 where s3: "store_data io start (sectors_for (of_nat (length data))) data s2 = Some (Inr (), s3)" "ready io whole base limit d1 s3" "kept s2 s3"
    "\<And>a. a \<notin> {unat start ..< unat start + sectors_of (length data)} \<Longrightarrow> d1 a = d a" "data_at d1 (unat start) (length data) = data"
    "\<forall>a \<in> table_area h \<union> index_area h. d1 a = d a"
    using store_data_area [OF r2 sd n(1) al(3,5)] by metis
  have h3: "head s3 = h\<lparr>h_data_end := de\<rparr>" "held_table s3" "cwd s3 = cwd s" using s3(3) k(2) by (simp_all add: kept_def s2_def)
  define f where "f = \<lparr>f_name = name, f_start = start, f_size = of_nat (length data) OR flag\<rparr>"
  note sf = stored_file [OF n f_def name(2)]
  have fa: "file_area f \<subseteq> {2 ..< unat de}" "file_area f \<inter> (table_area h \<union> index_area h) = {}"
    "\<And>i'. i' < unat (h_table_next h) \<Longrightarrow> i' \<noteq> i \<Longrightarrow> file_area f \<inter> file_area (entry_of d h i') = {}"
    using al(3) unfolding free_area_def sf(1) by auto
  obtain t d' h' where t: "attempt (write_entry io i (Some name) start (of_nat (length data) OR flag) s3) (\<lambda>_ s1. save_header io s1) = Some (Inr (), t)"
    "ready io whole base limit d' t" "head t = h'" "held_table t = held_table s3" "cwd t = cwd s3" "sound limit d' h'" "header_of (d' 1) = h'"
    "lookup d' h' name = Some \<lparr>s_index = of_nat i, s_start = start, s_size = of_nat (length data) OR flag\<rparr>"
    "\<forall>other. other \<noteq> name \<longrightarrow> lookup d' h' other = lookup d h other" "\<forall>a. a \<notin> meta h \<longrightarrow> d' a = d1 a"
    using rewrite_entry [OF sd i(1,2) name(2) refl al(4,5) s3(2) h3(1) rd(3) s3(6) name(1) f_def disjI1 [OF refl] fa] al(2) by blast
  have "\<And>i'. i' < unat (h_table_next h) \<Longrightarrow> f_name (entry_of d h i') \<noteq> name \<Longrightarrow> file_area f \<inter> file_area (entry_of d h i') = {}"
    using fa(3) i(2) by metis
  then have "files d' h' = (files d h)(name \<mapsto> (flag \<noteq> 0, data))"
    using files_updated [of limit d h d' h' name _ d1 "file_area f", OF sd t(8)] t(9,10) s3(4,5) meta_disjoint [OF sd al(3)] sf by simp
  then have "leaves_files io whole base limit s
      (attempt (write_entry io (unat (s_index g)) (Some name) start (of_nat (length data) OR flag) s3) (\<lambda>_ s4. save_header io s4))
      ((files d h)(name \<mapsto> (flag \<noteq> 0, data)))"
    unfolding leaves_files_def i(4) using t h3 rd(3) by (intro exI [of _ t] exI [of _ d'] exI [of _ h']) (simp add: knows_def)
  then show ?thesis using al(1,2) s3(1) unfolding s2_def by blast
qed

lemma leaves_files_cwd: "leaves_files io whole base limit s r m \<Longrightarrow> cwd s = cwd s' \<Longrightarrow> leaves_files io whole base limit s' r m"
  by (simp add: leaves_files_def)

text \<open>A file stored under a name: the map of files updated there.\<close>

lemma store_spec:
  assumes k: "knows io whole base limit d h s" and sd: "sound limit d h"
    and name: "fits name" "name \<noteq> []" "last name \<noteq> slash" "has_parent d h name"
    and n: "length data < 2 ^ 31" "flag = 0 \<or> flag = FS_LINK" and room: "has_room h (length data) (lookup d h name = None)"
  shows "leaves_files io whole base limit s (store io name data flag s) ((files d h)(name \<mapsto> (flag \<noteq> 0, data)))"
proof -
  have n0: "0 \<notin> set name" using name(1) by (simp add: fits_def)
  obtain s1 where s1: "parent_exists io name s = Some (True, s1)" "knows io whole base limit d h s1" "cwd s1 = cwd s"
    using parent_exists_spec [OF k soundD(2) [OF sd] n0] name(4) by (auto simp: has_parent_def)
  obtain s2 where s2: "fs_find io name s1 = Some (lookup d h name, s2)" "knows io whole base limit d h s2" "cwd s2 = cwd s1" "held_table s2"
    using fs_find_spec [OF s1(2) soundD(2) [OF sd] n0] name(2) by blast
  have cw: "cwd s2 = cwd s" using s1(3) s2(3) by simp
  show ?thesis
  proof (cases "lookup d h name")
    case None
    have r: "has_room h (length data) True" using room None by simp
    obtain i s3 start s4 s5 where x: "new_entry io s2 = Some (Some (of_nat i), s3)" "unat (of_nat i :: u32) = i"
      "allocate io (sectors_for (of_nat (length data))) None s3 = Some (start, s4)" "start \<noteq> 0"
      "store_data io start (sectors_for (of_nat (length data))) data s4 = Some (Inr (), s5)"
      "leaves_files io whole base limit s2
      (attempt (write_entry io i (Some name) start (of_nat (length data) OR flag) s5) (\<lambda>_ s4. attempt (index_add io name (of_nat i) s4) (\<lambda>_ s5. save_header io s5)))
      ((files d h)(name \<mapsto> (flag \<noteq> 0, data)))"
      using store_new [OF s2(2,4) sd name(1-3) None n r] by blast
    have "store io name data flag s = attempt (write_entry io i (Some name) start (of_nat (length data) OR flag) s5) (\<lambda>_ s4. attempt (index_add io name (of_nat i) s4) (\<lambda>_ s5. save_header io s5))"
      using name(3) s1(1) s2(1) None x(1-5) by (simp add: store_def)
    then show ?thesis using leaves_files_cwd [OF x(6) cw] by simp
  next
    case (Some g)
    have r: "has_room h (length data) False" using room Some by simp
    obtain start s4 s5 where x: "allocate io (sectors_for (of_nat (length data))) (Some g) s2 = Some (start, s4)" "start \<noteq> 0"
      "store_data io start (sectors_for (of_nat (length data))) data s4 = Some (Inr (), s5)"
      "leaves_files io whole base limit s2
      (attempt (write_entry io (unat (s_index g)) (Some name) start (of_nat (length data) OR flag) s5) (\<lambda>_ s4. save_header io s4))
      ((files d h)(name \<mapsto> (flag \<noteq> 0, data)))"
      using store_old [OF s2(2,4) sd name(1-3) Some n r] by blast
    have "store io name data flag s = attempt (write_entry io (unat (s_index g)) (Some name) start (of_nat (length data) OR flag) s5) (\<lambda>_ s4. save_header io s4)"
      using name(3) s1(1) s2(1) Some x(1-3) by (simp add: store_def)
    then show ?thesis using leaves_files_cwd [OF x(4) cw] by simp
  qed
qed

section \<open>Removing\<close>

lemma remove_record:
  assumes r: "ready io whole base limit d s" and h: "head s = h" and sd: "sound limit d h" and i: "i < unat (h_table_next h)" "f_name (entry_of d h i) = name" "name \<noteq> []"
  obtains a k t where "index_remove io name (of_nat i) s = Some (Inr (), t)" "ready io whole base limit (place_rec d h a k gone_rec) t" "kept s t"
    "a < unat (h_index_sectors h)" "k < RECORDS" "r_entry (rec_of d h a k) = of_nat i + 1"
proof -
  note sd' = soundD [OF sd]
  define hash where "hash = hash_of name"
  have nm: "f_name (entry_of d h i) \<noteq> []" using i by simp
  obtain j where j: "first_stop (of_nat i + 1) d h hash j" "r_entry (seen d h hash j) = of_nat i + 1"
    using entry_stop [OF sd'(5) i(1) nm] i(2) unfolding hash_def by metis
  have rm: "of_nat i + 1 \<noteq> (0 :: u32)" using entry_word(2) [of i] i(1) sd'(10) by auto
  define a where "a = turn h hash (j div RECORDS)"
  define k where "k = j mod RECORDS"
  have fit: "index_fits limit (head s)" using sd'(3) h by simp
  from probe_place [OF r fit h le0 j(1) refl, of "\<lparr>r_hash = hash, r_parent = 0, r_entry = 0\<rparr>"] rm j(2) obtain t where
    t: "probe_from io hash (place io \<lparr>r_hash = hash, r_parent = 0, r_entry = 0\<rparr> (of_nat i + 1)) [0..<unat (h_index_sectors h)] () s = Some (Inr (), t)"
      "ready io whole base limit (place_rec d h a k gone_rec) t" "kept (s\<lparr>head := h\<rparr>) t" by (auto simp: a_def k_def)
  have "index_remove io name (of_nat i) s = Some (Inr (), t)" using t(1) h by (simp add: index_remove_def probe_def hash_def)
  moreover have "kept s t" using t(3) h by (simp add: kept_def)
  moreover have "a < unat (h_index_sectors h)" "k < RECORDS" using turn_less [OF sd'(3)] by (simp_all add: a_def k_def RECORDS_def)
  moreover have "r_entry (rec_of d h a k) = of_nat i + 1" using j(2) by (simp add: seen_def a_def k_def)
  ultimately show thesis using that t(2) by blast
qed

text \<open>The entry of a name given up: empty, first on the chain of free ones, and every other entry as it was.\<close>

definition freed :: "(nat \<Rightarrow> sector) \<Rightarrow> header \<Rightarrow> (nat \<Rightarrow> sector) \<Rightarrow> header \<Rightarrow> u8 list \<Rightarrow> bool" where
  "freed d h d' h' name \<longleftrightarrow> (\<exists>i < unat (h_table_next h). f_name (entry_of d h i) = name \<and> h_free_head h' = of_nat i + 1 \<and>
     entry_of d' h' i = \<lparr>f_name = [], f_start = h_free_head h, f_size = 0\<rparr> \<and> h_table_next h' = h_table_next h \<and>
     (\<forall>j < unat (h_table_next h). j \<noteq> i \<longrightarrow> entry_of d' h' j = entry_of d h j))"

lemma drop_entry_spec:
  assumes k: "knows io whole base limit d h s" "held_table s" and sd: "sound limit d h" and g: "lookup d h name = Some g"
  shows "\<exists>t d' h'. drop_entry io (s_index g) name s = Some (Inr (), t) \<and> knows io whole base limit d' h' t \<and> sound limit d' h' \<and>
    header_of (d' 1) = h' \<and> cwd t = cwd s \<and> files d' h' = (files d h)(name := None) \<and> freed d h d' h' name"
proof -
  note rd = knows_ready [OF k] and sd' = soundD [OF sd]
  note ld = laidD [OF sd'(6)]
  obtain i where i: "i < unat (h_table_next h)" "f_name (entry_of d h i) = name" "g = slot_of d h i" "name \<noteq> []" "unat (s_index g) = i"
    using lookup_Some [OF g] by metis
  have gi: "s_index g = of_nat i" using i(3) by (simp add: slot_of_def)
  obtain a k s1 where s1: "index_remove io name (of_nat i) s = Some (Inr (), s1)" "ready io whole base limit (place_rec d h a k gone_rec) s1" "kept s s1"
    and ak: "a < unat (h_index_sectors h)" "k < RECORDS" "r_entry (rec_of d h a k) = of_nat i + 1"
    by (rule remove_record [OF rd(1,2) sd i(1,2,4)])
  define d1 where "d1 = place_rec d h a k gone_rec"
  have h1: "head s1 = h" "held_table s1" "cwd s1 = cwd s" using s1(3) rd(2) \<open>held_table s\<close> by (simp_all add: kept_def)
  have disj: "table_area h \<inter> index_area h = {}" using sd'(6) unfolding laid_def by (elim conjE)
  have no1: "1 \<notin> table_area h" "1 \<notin> index_area h" using ld(4) by auto
  define lb where "lb = unat (h_index_lba h) + a"
  have lb: "lb \<in> index_area h" using ak(1) by (simp add: lb_def index_area_def)
  have d1: "d1 x = d x" if "x \<noteq> lb" for x using that by (simp add: d1_def place_rec_def Let_def lb_def)
  have e1: "entry_of d1 h i' = entry_of d h i'" if "i' < unat (h_table_next h)" for i'
  proof (rule entry_of_agree)
    show "\<forall>y \<in> table_area h. d1 y = d y" using disj lb by (intro ballI d1) auto
  qed (use that ld(5) in simp_all)
  define x where "x = unat (h_table_lba h) + i div PER_SECTOR"
  define d2 where "d2 = d1(x := entry_sector (i mod PER_SECTOR) (Some []) (h_free_head h) 0 (d1 x))"
  have xt: "x \<in> table_area h" using entry_sector_area [of i h] i(1) ld(5) by (simp add: x_def)
  have fe: "fits []" by (simp add: fits_def FS_NAME_LEN_def)
  obtain s2 where s2: "write_entry io i (Some []) (h_free_head h) 0 s1 = Some (Inr (), s2)" "kept s1 s2" "ready io whole base limit d2 s2"
    using write_entry_spec [OF s1(2), of i "Some []" "h_free_head h" 0] sd'(4) h1(1) i(1) fe by (auto simp: d2_def x_def d1_def)
  define h3 where "h3 = h\<lparr>h_free_head := of_nat i + 1\<rparr>"
  have h2: "head s2 = h" "held_table s2" "cwd s2 = cwd s" using s2(2) h1 by (simp_all add: kept_def)
  have r3: "ready io whole base limit d2 (s2\<lparr>head := h3\<rparr>)" using s2(3) by simp
  obtain t d4 where t: "save_header io (s2\<lparr>head := h3\<rparr>) = Some (Inr (), t)" "ready io whole base limit d4 t" "kept (s2\<lparr>head := h3\<rparr>) t" "header_of (d4 1) = h3"
    "\<forall>x. x \<noteq> 1 \<longrightarrow> d4 x = d2 x"
    using save_header_spec [OF r3 rd(3)] by auto
  have ht: "head t = h3" "held_table t" "cwd t = cwd s" using t(3) h2 by (simp_all add: kept_def)
  have eq: "drop_entry io (s_index g) name s = Some (Inr (), t)"
    using s1(1) s2(1) t(1) h1(1) h2(1) i(5) by (simp add: drop_entry_def gi h3_def)
  define f where "f = \<lparr>f_name = [], f_start = h_free_head h, f_size = 0\<rparr>"
  have same: "h_table_next h3 = h_table_next h" "h_table_lba h3 = h_table_lba h" "h_index_lba h3 = h_index_lba h" "h_index_sectors h3 = h_index_sectors h" by (simp_all add: h3_def)
  have gd: "good_disk limit d1" using s1(2) by (simp add: d1_def ready_def running_def)
  have e4: "entry_of d4 h3 i' = (if i' = i then f else entry_of d h i')" if i': "i' < unat (h_table_next h)" for i'
  proof -
    have "\<forall>x \<in> table_area h. d4 x = d2 x" using no1 t(5) by metis
    then have "entry_of d4 h3 i' = entry_of d2 h i'" using i' ld(5) same by (intro entry_of_agree) auto
    moreover have "entry_of d2 h i' = (if i' = i then f else entry_of d1 h i')"
      using entry_of_written [OF gd sd'(4) i(1) i', of "Some []" "h_free_head h" 0] fe by (simp add: d2_def x_def f_def)
    ultimately show ?thesis using e1 [OF i'] by simp
  qed
  have len: "length (d (unat (h_index_lba h) + a)) = SECTOR_SIZE"
    using ready_limit(2) [OF rd(1)] sd'(3) ak(1) by (simp add: index_fits_def)
  have r4: "rec_of d4 h3 b m = (if b = a \<and> m = k then gone_rec else rec_of d h b m)" if b: "b < unat (h_index_sectors h)" "m < RECORDS" for b m
  proof -
    have "\<forall>y \<in> index_area h. d4 y = d1 y"
    proof
      fix y assume "y \<in> index_area h"
      then have "y \<noteq> 1" "y \<noteq> x" using no1 disj xt by auto
      then show "d4 y = d1 y" using t(5) by (simp add: d2_def)
    qed
    then have "rec_of d4 h3 b m = rec_of d1 h b m" using b same by (intro rec_of_agree) auto
    then show ?thesis using rec_of_place [where d = d and h = h and a = a, OF len ak(2) b(2), of gone_rec b] by (simp add: d1_def)
  qed
  have rep: "replaced d d4 h h3 a k gone_rec" using ak same r4 by (simp add: replaced_def)
  have lv: "leaves d d4 h h3 i a k" unfolding leaves_def using rep ak(3) i(1) same(1) e4 by (simp add: f_def)
  have step: "entry_step d d4 h h3 i f" unfolding entry_step_def using same i(1) e4 by (simp add: h3_def)
  have nofile: "file_area f = {}" by (simp add: f_def file_area_def)
  have "laid limit d4 h3" using laid_step [OF sd'(6) step] ld(1,3,5) nofile by (simp add: h3_def f_def)
  moreover have "free_ok d4 h3"
  proof -
    obtain xs where xs: "free_chain d h (h_free_head h) xs" "distinct xs" using sd'(7) by (auto simp: free_ok_def)
    have ni: "i \<notin> set xs" using free_chain_names [OF xs(1)] i by auto
    have "free_chain d4 h3 (h_free_head h) xs" using free_chain_step [OF xs(1) step ni] .
    moreover have "of_nat i + 1 \<noteq> (0 :: u32)" "unat (of_nat i + 1 - 1 :: u32) = i" using entry_word(2) [of i] i(1) sd'(10) by (auto simp: unat_word_of_nat)
    ultimately have "free_chain d4 h3 (h_free_head h3) (i # xs)" using e4 [OF i(1)] i(1) by (simp add: h3_def f_def)
    then show ?thesis using xs(2) ni by (auto simp: free_ok_def intro!: exI [of _ "i # xs"])
  qed
  moreover have "index_fits limit h3" "table_fits limit h3" using sd'(3,4) by (simp_all add: index_fits_def table_fits_def h3_def)
  moreover have "card (used_places d4 h3) = unat (h_index_taken h3)"
    using card_used_replaced [OF rep] ak(3) sd'(8) entry_word(2) [of i] i(1) sd'(10) by (auto simp: h3_def gone_rec_def GONE_def)
  ultimately have snd: "sound limit d4 h3"
    using leaves_index_ok [OF lv sd'(5)] sd'(1,9) by (simp add: sound_def fs_inv_def h3_def places_def)
  have lk: "lookup d4 h3 other = (if other = name then None else lookup d h other)" for other
  proof (cases "lookup d h other")
    case None
    then show ?thesis using leaves_lookup [OF lv sd'(5) i(2,4), of other] by simp
  next
    case (Some b)
    then obtain i' where i': "i' < unat (h_table_next h)" "f_name (entry_of d h i') = other" "b = slot_of d h i'" "unat (s_index b) = i'" using lookup_Some by metis
    show ?thesis
    proof (cases "other = name")
      case False
      then have "i' \<noteq> i" using i' i by auto
      then have "slot_of d4 h3 i' = b" using e4 [OF i'(1)] i'(3) by (simp add: slot_of_def)
      then show ?thesis using False Some i'(4) leaves_lookup [OF lv sd'(5) i(2,4), of other] by simp
    qed (simp add: leaves_lookup [OF lv sd'(5) i(2,4)])
  qed
  have out: "d4 y = d y" if "y \<notin> meta h" for y
  proof -
    have "y \<noteq> 1" "y \<noteq> lb" "y \<noteq> x" using that lb xt by (auto simp: meta_def)
    then show ?thesis using t(5) d1 by (simp add: d2_def)
  qed
  have "files d4 h3 other = ((files d h)(name := None)) other" for other
  proof (cases "other = name \<or> lookup d h other = None")
    case True
    then show ?thesis using lk [of other] by (auto simp: files_def)
  next
    case False
    then obtain b where b: "lookup d h other = Some b" by auto
    have "data_at d4 (unat (s_start b)) (unat (bytes_of b)) = data_at d (unat (s_start b)) (unat (bytes_of b))"
    proof (rule other_file [OF sd'(6) b], rule ballI)
      fix i' y assume i': "i' < unat (h_table_next h)" and y: "y \<in> file_area (entry_of d h i')"
      have "y \<noteq> 1" using ld(6) [OF i'] y by auto
      then show "d4 y = d y" using ld(7) [OF i'] y by (intro out) (auto simp: meta_def)
    qed
    then show ?thesis using lk [of other] False b by (simp add: files_def)
  qed
  then have fl: "files d4 h3 = (files d h)(name := None)" by blast
  have "freed d h d4 h3 name" unfolding freed_def using i(1,2) e4 same(1) by (intro exI [of _ i]) (simp add: f_def h3_def)
  then show ?thesis unfolding eq using t(2,4) ht rd(3) snd fl
    by (intro exI [of _ t] exI [of _ d4] exI [of _ h3]) (simp add: knows_def)
qed
end
