(* ===== verification/FsPaths.thy ===== *)
theory FsPaths
  imports FsRefine
begin

text \<open>
  Paths: what a path names is a function of the map of files alone, and the kernel's walk, which follows
  links over the disk, always returns and computes it. With it the operations on paths refine the map.
\<close>

section \<open>What a path names\<close>

type_synonym filemap = "u8 list \<rightharpoonup> bool \<times> u8 list"

definition first_part :: "u8 list \<Rightarrow> u8 list" where
  "first_part p = takeWhile (\<lambda>c. c \<noteq> slash) p"

definition tail_of :: "u8 list \<Rightarrow> u8 list" where
  "tail_of p = drop (length (first_part p)) p"

definition past_part :: "u8 list \<Rightarrow> u8 list" where
  "past_part p = (if tail_of p \<noteq> [] then tl (tail_of p) else [])"

text \<open>One part of the path walked, a link at its end put in place of it.\<close>

definition walk_step :: "filemap \<Rightarrow> bool \<Rightarrow> nat \<Rightarrow> u8 list \<Rightarrow> u8 list \<Rightarrow> fs_error + nat \<times> u8 list \<times> u8 list" where
  "walk_step m deref links base left =
     (if first_part left = [] then Inr (links, base, tl left)
      else if first_part left = [46] then Inr (links, base, past_part left)
      else if first_part left = [46, 46] then Inr (links, if base = [] then [] else cut_last (butlast base), past_part left)
      else if length base + length (first_part left) + 2 > FS_NAME_LEN then Inl EINVAL
      else
        case (if tail_of left \<noteq> [] \<or> deref then m (base @ first_part left) else None) of
          Some (True, target) \<Rightarrow>
            if links + 1 > FS_LINKS then Inl ELOOP
            else if length target + length (tail_of left) + 1 > WALK_MAX then Inl EINVAL
            else
              let walk = cstr_of (target @ tail_of left)
              in Inr (links + 1, if walk \<noteq> [] \<and> hd walk = slash then [] else base, walk)
        | _ \<Rightarrow> Inr (links, base @ first_part left @ (if tail_of left \<noteq> [] then [slash] else []), past_part left))"

lemma past_part_shorter: "first_part p \<noteq> [] \<Longrightarrow> length (past_part p) < length p"
  by (cases p) (auto simp: past_part_def tail_of_def first_part_def)

lemma walk_step_shorter:
  assumes "walk_step m deref links base left = Inr (l, b, p)" "left \<noteq> []"
  shows "FS_LINKS - l < FS_LINKS - links \<or> l = links \<and> length p < length left"
  using assms past_part_shorter [of left]
  by (auto simp: walk_step_def Let_def split: if_splits option.splits bool.splits prod.splits)

function path_walk :: "filemap \<Rightarrow> bool \<Rightarrow> nat \<Rightarrow> u8 list \<Rightarrow> u8 list \<Rightarrow> fs_error + u8 list" where
  "path_walk m deref links base left =
     (if left = [] then Inr base
      else case walk_step m deref links base left of Inl e \<Rightarrow> Inl e | Inr (l, b, p) \<Rightarrow> path_walk m deref l b p)"
  by pat_completeness auto

termination
  by (relation "inv_image (less_than <*lex*> less_than) (\<lambda>(m, deref, links, base, left). (FS_LINKS - links, length left))")
    (auto dest!: sym [of "Inr _"] walk_step_shorter)

declare path_walk.simps [simp del]

definition path_any :: "filemap \<Rightarrow> u8 list \<Rightarrow> u8 list \<Rightarrow> bool \<Rightarrow> fs_error + u8 list" where
  "path_any m dir path deref =
     (if path = [] \<or> length path \<ge> WALK_MAX then Inl EINVAL else path_walk m deref 0 (if hd path \<noteq> slash then dir else []) path)"

definition path_name :: "filemap \<Rightarrow> u8 list \<Rightarrow> u8 list \<Rightarrow> bool \<Rightarrow> fs_error + u8 list" where
  "path_name m dir path deref = (case path_any m dir path deref of Inl e \<Rightarrow> Inl e | Inr full \<Rightarrow> if full \<noteq> [] then Inr full else Inl EINVAL)"

text \<open>Rule for what a walk keeps: shown for each step.\<close>

lemma path_walk_keeps:
  assumes "path_walk m deref links base left = Inr full" "P base left"
    and "\<And>links base left l b p. P base left \<Longrightarrow> left \<noteq> [] \<Longrightarrow> walk_step m deref links base left = Inr (l, b, p) \<Longrightarrow> P b p"
  shows "P full []"
  using assms
proof (induction m deref links base left rule: path_walk.induct)
  case (1 m deref links base left)
  show ?case
  proof (cases "left = []")
    case True
    then show ?thesis using "1.prems" by (simp add: path_walk.simps)
  next
    case False
    then obtain l b p where w: "walk_step m deref links base left = Inr (l, b, p)" "path_walk m deref l b p = Inr full"
      using "1.prems"(1) by (auto simp: path_walk.simps [of m deref links base left] split: sum.splits)
    have "P b p" by (rule "1.prems"(3) [OF "1.prems"(2) False w(1)])
    then show ?thesis by (rule "1.IH" [OF False w(1) refl refl w(2) _ "1.prems"(3)])
  qed
qed

lemma fits_append: "fits (a @ b) \<longleftrightarrow> 0 \<notin> set a \<and> 0 \<notin> set b \<and> length a + length b < FS_NAME_LEN"
  by (auto simp: fits_def)

lemma cut_last_sub: "set (cut_last m) \<subseteq> set m" "length (cut_last m) \<le> length m" "cut_last m = [] \<or> last (cut_last m) = slash"
proof -
  show "set (cut_last m) \<subseteq> set m" by (auto simp: cut_last_def dest: set_dropWhileD)
  show "length (cut_last m) \<le> length m" using length_dropWhile_le [of _ "rev m"] by (simp add: cut_last_def)
  show "cut_last m = [] \<or> last (cut_last m) = slash"
    using hd_dropWhile [of "\<lambda>c. c \<noteq> slash" "rev m"] by (auto simp: cut_last_def last_rev)
qed

lemma fits_cut: "fits b \<Longrightarrow> fits (cut_last (butlast b))"
  using cut_last_sub(1,2) [of "butlast b"] by (auto simp: fits_def dest: in_set_butlastD)

lemma part_sets: "set (first_part p) \<subseteq> set p" "set (tail_of p) \<subseteq> set p" "set (past_part p) \<subseteq> set p" "slash \<notin> set (first_part p)"
proof -
  show a: "set (tail_of p) \<subseteq> set p" unfolding tail_of_def by (rule set_drop_subset)
  show "set (first_part p) \<subseteq> set p" "slash \<notin> set (first_part p)" by (auto simp: first_part_def dest: set_takeWhileD)
  show "set (past_part p) \<subseteq> set p" using a by (cases "tail_of p") (auto simp: past_part_def)
qed

lemma cstr_of_no_nul: "0 \<notin> set (cstr_of xs)"
  by (auto simp: cstr_of_def dest: set_takeWhileD)

lemma set_tl: "set (tl xs) \<subseteq> set xs"
  by (cases xs) auto

lemma walk_step_fits:
  assumes "fits base" "0 \<notin> set left" "walk_step m deref links base left = Inr (l, b, p)"
  shows "fits b \<and> 0 \<notin> set p"
proof -
  have ps: "0 \<notin> set (first_part left)" "0 \<notin> set (past_part left)" "0 \<notin> set (tl left)"
    using assms(2) part_sets [of left] set_tl [of left] by auto
  have sl: "slash \<noteq> 0" "0 \<noteq> slash" by (simp_all add: slash_def)
  have e: "fits []" by (simp add: fits_def FS_NAME_LEN_def)
  have f: "0 \<notin> set base" using assms(1) by (simp add: fits_def)
  show ?thesis using assms(3) ps fits_cut [OF assms(1)] assms(1) sl e f cstr_of_no_nul
    by (auto simp: walk_step_def fits_append Let_def split: if_splits option.splits bool.splits prod.splits)
qed

lemma path_walk_fits:
  assumes "path_walk m deref links base left = Inr full" "fits base" "0 \<notin> set left"
  shows "fits full"
  using path_walk_keeps [OF assms(1), of "\<lambda>b p. fits b \<and> 0 \<notin> set p"] assms(2,3) walk_step_fits by blast

text \<open>With links followed, the last part of a name that is no folder is no link.\<close>

lemma walk_step_no_link:
  assumes "b0 = [] \<or> last b0 = slash \<or> left = [] \<and> (case m b0 of Some (True, _) \<Rightarrow> False | _ \<Rightarrow> True)" "left \<noteq> []"
    "walk_step m True links b0 left = Inr (l, b, p)"
  shows "b = [] \<or> last b = slash \<or> p = [] \<and> (case m b of Some (True, _) \<Rightarrow> False | _ \<Rightarrow> True)"
proof -
  have "past_part left = []" if "tail_of left = []" using that by (simp add: past_part_def)
  then show ?thesis using assms cut_last_sub(3) [of "butlast b0"]
    by (auto simp: walk_step_def Let_def split: if_splits option.splits bool.splits prod.splits)
qed

section \<open>The walk over the disk\<close>

text \<open>No link is empty: a link is never stored without a target.\<close>

definition links_ok :: "filemap \<Rightarrow> bool" where
  "links_ok m \<longleftrightarrow> (\<forall>name. m name \<noteq> Some (True, []))"

lemma link_target:
  assumes r: "ready io whole base limit d s" and sd: "sound limit d h" and l: "links_ok (files d h)"
    and f: "lookup d h name = Some f" "is_link f" and n: "unat (bytes_of f) \<le> 512"
  shows "files d h name = Some (True, take (unat (bytes_of f)) (d (unat (s_start f))))" "unat (s_start f) < limit" "s_start f \<noteq> 0"
    "length (take (unat (bytes_of f)) (d (unat (s_start f)))) = unat (bytes_of f)"
proof -
  define k where "k = unat (bytes_of f)"
  have fl: "files d h name = Some (True, data_at d (unat (s_start f)) k)" using f by (simp add: files_def k_def)
  then have "data_at d (unat (s_start f)) k \<noteq> []" using l by (auto simp: links_ok_def)
  then have k: "k \<noteq> 0" by (auto simp: data_at_def)
  have sec: "sectors_of k = 1" using k n by (simp add: sectors_of_def k_def)
  obtain i where i: "i < unat (h_table_next h)" "f_name (entry_of d h i) = name" "f = slot_of d h i" "name \<noteq> []" using lookup_Some [OF f(1)] by metis
  have "unat (s_start f) \<in> file_area (entry_of d h i)"
    using i sec by (simp add: file_area_def size_of_def slot_of_def bytes_of_def k_def)
  then have "2 \<le> unat (s_start f)" "unat (s_start f) < unat (h_data_end h)" using laidD(6) [OF soundD(6) [OF sd] i(1)] by auto
  then show u: "unat (s_start f) < limit" "s_start f \<noteq> 0" using laidD(1,2) [OF soundD(6) [OF sd]] by auto
  have "data_at d (unat (s_start f)) k = take k (d (unat (s_start f)))" by (simp add: data_at_def sec)
  then show "files d h name = Some (True, take (unat (bytes_of f)) (d (unat (s_start f))))" using fl by (simp add: k_def)
  show "length (take (unat (bytes_of f)) (d (unat (s_start f)))) = unat (bytes_of f)"
    using ready_limit(2) [OF r u(1)] n by (simp add: SECTOR_SIZE_def)
qed

lemma walk_path_step:
  assumes k: "knows io whole base0 limit d h s" and sd: "sound limit d h" and l: "links_ok (files d h)"
    and b: "fits base" "0 \<notin> set left" "left \<noteq> []" and held: "held_table s"
  shows "\<exists>t. walk_path io deref links base left s =
      (case walk_step (files d h) deref links base left of Inl e \<Rightarrow> Some (Inl e, t) | Inr (l, b, p) \<Rightarrow> walk_path io deref l b p t) \<and>
    knows io whole base0 limit d h t \<and> cwd t = cwd s \<and> held_table t"
proof -
  note eq = walk_path.simps [of io deref links base left s, unfolded Let_def, folded first_part_def, folded tail_of_def]
  define part where "part = first_part left"
  consider (dots) "part = [] \<or> part = [46] \<or> part = [46, 46]" | (long) "part \<noteq> []" "part \<noteq> [46]" "part \<noteq> [46, 46]" "length base + length part + 2 > FS_NAME_LEN"
    | (part) "part \<noteq> []" "part \<noteq> [46]" "part \<noteq> [46, 46]" "\<not> length base + length part + 2 > FS_NAME_LEN" by blast
  then show ?thesis
  proof cases
    case dots
    then show ?thesis using b(3) k held by (intro exI [of _ s]) (auto simp: eq walk_step_def part_def past_part_def)
  next
    case long
    then show ?thesis using b(3) k held by (intro exI [of _ s]) (auto simp: eq walk_step_def part_def)
  next
    case part
    define name where "name = base @ part"
    have n0: "0 \<notin> set name" using b part_sets(1) [of left] by (auto simp: name_def part_def fits_def)
    define asked where "asked \<longleftrightarrow> tail_of left \<noteq> [] \<or> deref"
    obtain s1 where s1: "(if asked then fs_find io name s else Some (None, s)) = Some (if asked then lookup d h name else None, s1)"
      "knows io whole base0 limit d h s1" "cwd s1 = cwd s" "held_table s1"
    proof (cases asked)
      case True
      then show thesis using fs_find_spec [OF k soundD(2) [OF sd] n0] that held by auto
    next
      case False
      then show thesis using that k held by simp
    qed
    define link where "link = (if asked then lookup d h name else None)"
    have ms: "(if asked then files d h name else None) = map_option (\<lambda>f. (is_link f, data_at d (unat (s_start f)) (unat (bytes_of f)))) link"
      by (simp add: link_def files_def)
    have walk: "walk_path io deref links base left s =
        (if (case link of None \<Rightarrow> False | Some l \<Rightarrow> is_link l) then
           if links + 1 > FS_LINKS then Some (Inl ELOOP, s1)
           else if unat (bytes_of (the link)) + length (tail_of left) + 1 > WALK_MAX then Some (Inl EINVAL, s1)
           else after (load_sector io (s_start (the link)) s1) (\<lambda>r s2.
             if r = Inl EIO then Some (Inl EIO, s2)
             else walk_path io deref (links + 1)
               (if cstr_of (take (unat (bytes_of (the link))) (sector s2) @ tail_of left) \<noteq> [] \<and>
                   hd (cstr_of (take (unat (bytes_of (the link))) (sector s2) @ tail_of left)) = slash then [] else base)
               (cstr_of (take (unat (bytes_of (the link))) (sector s2) @ tail_of left)) s2)
         else walk_path io deref links (base @ part @ (if tail_of left \<noteq> [] then [slash] else [])) (past_part left) s1)"
      using b(3) part s1(1) unfolding eq part_def [symmetric] name_def [symmetric] asked_def [symmetric] link_def [symmetric]
      by (simp add: past_part_def)
    have step: "walk_step (files d h) deref links base left =
        (case map_option (\<lambda>f. (is_link f, data_at d (unat (s_start f)) (unat (bytes_of f)))) link of
          Some (True, target) \<Rightarrow>
            if links + 1 > FS_LINKS then Inl ELOOP
            else if length target + length (tail_of left) + 1 > WALK_MAX then Inl EINVAL
            else
              let walk = cstr_of (target @ tail_of left)
              in Inr (links + 1, if walk \<noteq> [] \<and> hd walk = slash then [] else base, walk)
        | _ \<Rightarrow> Inr (links, base @ part @ (if tail_of left \<noteq> [] then [slash] else []), past_part left))"
      using part unfolding walk_step_def part_def [symmetric] name_def [symmetric] asked_def [symmetric] ms by simp
    show ?thesis
    proof (cases "case link of None \<Rightarrow> False | Some l \<Rightarrow> is_link l")
      case False
      then have "walk_step (files d h) deref links base left = Inr (links, base @ part @ (if tail_of left \<noteq> [] then [slash] else []), past_part left)"
        unfolding step by (cases link) auto
      then show ?thesis using walk False s1 by (intro exI [of _ s1]) simp
    next
      case True
      then obtain f where f: "link = Some f" "is_link f" by (cases link) auto
      then have lf: "lookup d h name = Some f" by (auto simp: link_def split: if_splits)
      define n where "n = unat (bytes_of f)"
      show ?thesis
      proof (cases "links + 1 > FS_LINKS \<or> n + length (tail_of left) + 1 > WALK_MAX")
        case big: True
        have "length (data_at d (unat (s_start f)) (unat (bytes_of f))) = n"
        proof -
          obtain i where i: "i < unat (h_table_next h)" "f_name (entry_of d h i) = name" "f = slot_of d h i" "name \<noteq> []" using lookup_Some [OF lf] by metis
          have fa: "file_area (entry_of d h i) = {unat (s_start f) ..< unat (s_start f) + sectors_of n}"
            using i by (simp add: file_area_def size_of_def slot_of_def bytes_of_def n_def)
          have rd: "ready io whole base0 limit d s1" using s1(2) by (simp add: knows_def)
          have "length (d a) = SECTOR_SIZE" if "a \<in> file_area (entry_of d h i)" for a
          proof -
            have "a < limit" using that laidD(6) [OF soundD(6) [OF sd] i(1)] laidD(1,2) [OF soundD(6) [OF sd]] by fastforce
            then show ?thesis using ready_limit(2) [OF rd] by simp
          qed
          then have "length (concat (map d [unat (s_start f)..<unat (s_start f) + sectors_of n])) = SECTOR_SIZE * sectors_of n"
            using concat_sectors [of "map d [unat (s_start f)..<unat (s_start f) + sectors_of n]"] fa by auto
          moreover have "n \<le> SECTOR_SIZE * sectors_of n" unfolding SECTOR_SIZE_def sectors_of_def by arith
          ultimately show ?thesis by (simp add: data_at_def n_def)
        qed
        then show ?thesis using walk step f s1 big by (intro exI [of _ s1]) (auto simp: n_def)
      next
        case ok: False
        then have n: "n \<le> 512" by (simp add: WALK_MAX_def FS_NAME_LEN_def FS_LINK_LEN_def)
        have rd: "ready io whole base0 limit d s1" using s1(2) by (simp add: knows_def)
        note lt = link_target [OF rd sd l lf f(2) n [unfolded n_def]]
        obtain s2 where s2: "load_sector io (s_start f) s1 = Some (Inr (), s2)" "ready io whole base0 limit d s2" "kept s1 s2" "sector s2 = d (unat (s_start f))"
          using load_sector_spec [OF rd lt(2,3)] by blast
        have ta: "data_at d (unat (s_start f)) (unat (bytes_of f)) = take n (d (unat (s_start f)))" using lt(1) lf by (simp add: files_def n_def)
        have "knows io whole base0 limit d h s2" "cwd s2 = cwd s" "held_table s2" using s2(2,3) s1(2-4) by (auto simp: knows_def kept_def)
        then show ?thesis using walk step f ok s2(1,4) ta lt(4) by (intro exI [of _ s2]) (simp add: n_def Let_def)
      qed
    qed
  qed
qed

lemma walk_path_spec:
  assumes "knows io whole base0 limit d h s" "held_table s" "sound limit d h" "links_ok (files d h)" "fits base" "0 \<notin> set left"
  shows "\<exists>t. walk_path io deref links base left s = Some (path_walk (files d h) deref links base left, t) \<and>
    knows io whole base0 limit d h t \<and> cwd t = cwd s \<and> held_table t"
  using assms
proof (induction "files d h" deref links base left arbitrary: s rule: path_walk.induct)
  case (1 deref links base left)
  show ?case
  proof (cases "left = []")
    case True
    then show ?thesis using "1.prems" by (subst walk_path.simps, subst path_walk.simps) simp
  next
    case False
    obtain t where t: "walk_path io deref links base left s =
        (case walk_step (files d h) deref links base left of Inl e \<Rightarrow> Some (Inl e, t) | Inr (l, b, p) \<Rightarrow> walk_path io deref l b p t)"
      "knows io whole base0 limit d h t" "cwd t = cwd s" "held_table t"
      using walk_path_step [OF "1.prems"(1,3,4,5,6) False "1.prems"(2)] by blast
    show ?thesis
    proof (cases "walk_step (files d h) deref links base left")
      case (Inl e)
      then show ?thesis using t False by (subst path_walk.simps) auto
    next
      case (Inr x)
      obtain l b p where x: "x = (l, b, p)" by (cases x)
      have w: "walk_step (files d h) deref links base left = Inr (l, b, p)" using Inr x by simp
      have bp: "fits b" "0 \<notin> set p" using walk_step_fits [OF "1.prems"(5,6) w] by auto
      obtain u where u: "walk_path io deref l b p t = Some (path_walk (files d h) deref l b p, u)" "knows io whole base0 limit d h u" "cwd u = cwd t" "held_table u"
        using "1.hyps" [OF False w refl refl t(2,4) "1.prems"(3,4) bp] by blast
      have "path_walk (files d h) deref links base left = path_walk (files d h) deref l b p"
        using False w by (subst path_walk.simps) simp
      then show ?thesis using t w u by simp
    qed
  qed
qed

lemma resolve_any_spec:
  assumes k: "knows io whole base limit d h s" and sd: "sound limit d h" and l: "links_ok (files d h)" and c: "fits (cwd s)" "0 \<notin> set path"
  shows "\<exists>t. resolve_any io path deref s = Some (path_any (files d h) (cwd s) path deref, t) \<and> knows io whole base limit d h t \<and> cwd t = cwd s"
proof (cases "path = [] \<or> length path \<ge> WALK_MAX")
  case True
  then show ?thesis using k by (auto simp: resolve_any_def path_any_def)
next
  case False
  obtain s1 where s1: "load_table io s = Some (Inr (), s1)" "ready io whole base limit d s1" "head s1 = h" "held_table s1" "cwd s1 = cwd s"
    using knows_load [OF k] by blast
  have k1: "knows io whole base limit d h s1" using s1 k by (simp add: knows_def)
  have "fits []" by (simp add: fits_def FS_NAME_LEN_def)
  then have "fits (if hd path \<noteq> slash then cwd s else [])" using c(1) by simp
  from walk_path_spec [OF k1 s1(4) sd l this c(2), of deref 0] show ?thesis
    using False s1(1,5) by (auto simp: resolve_any_def path_any_def)
qed

lemma resolve_spec:
  assumes "knows io whole base limit d h s" "sound limit d h" "links_ok (files d h)" "fits (cwd s)" "0 \<notin> set path"
  shows "\<exists>t. resolve io path deref s = Some (path_name (files d h) (cwd s) path deref, t) \<and> knows io whole base limit d h t \<and> cwd t = cwd s"
  using resolve_any_spec [OF assms, of deref]
  by (auto simp: resolve_def path_name_def split: sum.split)

lemma path_name_fits:
  assumes "path_name m dir path deref = Inr name" "fits dir" "0 \<notin> set path"
  shows "fits name" "name \<noteq> []"
proof -
  have e: "fits []" by (simp add: fits_def FS_NAME_LEN_def)
  have a: "path_any m dir path deref = Inr name" "name \<noteq> []" using assms(1) by (auto simp: path_name_def split: sum.splits if_splits)
  then show "name \<noteq> []" "fits name"
    using path_walk_fits [of m deref 0 "if hd path \<noteq> slash then dir else []" path name] assms(2,3) e
    by (auto simp: path_any_def split: if_splits)
qed

lemma path_name_no_link:
  assumes "path_name m dir path True = Inr name" "last name \<noteq> slash" "dir = [] \<or> last dir = slash"
  shows "\<nexists>target. m name = Some (True, target)"
proof -
  define Q where "Q b p \<longleftrightarrow> b = [] \<or> last b = slash \<or> p = [] \<and> (case m b of Some (True, _) \<Rightarrow> False | _ \<Rightarrow> True)" for b p :: "u8 list"
  have a: "path_any m dir path True = Inr name" "name \<noteq> []" using assms(1) by (auto simp: path_name_def split: sum.splits if_splits)
  then have w: "path_walk m True 0 (if hd path \<noteq> slash then dir else []) path = Inr name" by (auto simp: path_any_def split: if_splits)
  have "Q (if hd path \<noteq> slash then dir else []) path" using assms(3) by (auto simp: Q_def)
  then have "Q name []"
  proof (rule path_walk_keeps [OF w])
    fix links b0 left l b p assume "Q b0 left" "left \<noteq> []" "walk_step m True links b0 left = Inr (l, b, p)"
    then show "Q b p" unfolding Q_def by (rule walk_step_no_link)
  qed
  then show ?thesis using a(2) assms(2) by (auto simp: Q_def)
qed

text \<open>What paths name depends on the links alone.\<close>

definition links_of :: "filemap \<Rightarrow> u8 list \<rightharpoonup> u8 list" where
  "links_of m name = (case m name of Some (True, target) \<Rightarrow> Some target | _ \<Rightarrow> None)"

lemma walk_step_links:
  assumes "links_of m = links_of m'"
  shows "walk_step m deref links base left = walk_step m' deref links base left"
proof -
  have "links_of m n = links_of m' n" for n using assms by simp
  from this [of "base @ first_part left"] show ?thesis
    by (auto simp: walk_step_def links_of_def Let_def split: option.splits prod.splits bool.splits)
qed

lemma path_walk_links:
  assumes "links_of m = links_of m'"
  shows "path_walk m deref links base left = path_walk m' deref links base left"
  using assms
proof (induction m deref links base left rule: path_walk.induct)
  case (1 m deref links base left)
  show ?case
  proof (cases "left = []")
    case False
    note w = walk_step_links [OF "1.prems", of deref links base left]
    show ?thesis
    proof (cases "walk_step m deref links base left")
      case (Inl e)
      then show ?thesis using False w by (simp add: path_walk.simps [of _ deref links base left])
    next
      case (Inr x)
      obtain l b p where x: "x = (l, b, p)" by (cases x)
      have i: "walk_step m deref links base left = Inr (l, b, p)" using Inr x by simp
      have i': "walk_step m' deref links base left = Inr (l, b, p)" using i w by simp
      show ?thesis using "1.IH" [OF False i refl refl "1.prems"] False
        by (simp add: path_walk.simps [of m deref links base left] path_walk.simps [of m' deref links base left] i i')
    qed
  qed (simp add: path_walk.simps)
qed

lemma path_name_links: "links_of m = links_of m' \<Longrightarrow> path_name m dir path deref = path_name m' dir path deref"
  by (simp add: path_name_def path_any_def path_walk_links [of m m'])

lemma links_of_update: "\<nexists>t. m name = Some (True, t) \<Longrightarrow> links_of (m(name \<mapsto> (False, data))) = links_of m"
  by (auto simp: links_of_def fun_eq_iff split: option.splits prod.splits bool.splits)

section \<open>Operations on paths\<close>

text \<open>A filesystem the kernel works on: the disk is sound and says what the kernel holds in memory.\<close>

definition mounted ::
  "('f, 'a) io \<Rightarrow> ('f \<Rightarrow> nat \<Rightarrow> sector) \<Rightarrow> nat \<Rightarrow> nat \<Rightarrow> (nat \<Rightarrow> sector) \<Rightarrow> header \<Rightarrow> ('f, 'a) fs_scheme \<Rightarrow> bool" where
  "mounted io whole base limit d h s \<longleftrightarrow> knows io whole base limit d h s \<and> sound limit d h \<and> links_ok (files d h) \<and> fits (cwd s) \<and>
     (cwd s = [] \<or> last (cwd s) = slash)"

lemma mountedD:
  assumes "mounted io whole base limit d h s"
  shows "knows io whole base limit d h s" "sound limit d h" "fs_inv limit d h" "links_ok (files d h)" "fits (cwd s)" "cwd s = [] \<or> last (cwd s) = slash"
  using assms soundD(2) by (auto simp: mounted_def)

lemma mounted_same:
  "mounted io whole base limit d h s \<Longrightarrow> knows io whole base limit d h t \<Longrightarrow> cwd t = cwd s \<Longrightarrow> mounted io whole base limit d h t"
  by (simp add: mounted_def)

text \<open>The map of files after an operation, with the disk sound, the header saved and the folder as it was.\<close>

definition makes ::
  "('f, 'a) io \<Rightarrow> ('f \<Rightarrow> nat \<Rightarrow> sector) \<Rightarrow> nat \<Rightarrow> nat \<Rightarrow> ('f, 'a) fs_scheme \<Rightarrow> (fs_error + unit, ('f, 'a) fs_scheme) run \<Rightarrow> filemap \<Rightarrow> bool" where
  "makes io whole base limit s result m \<longleftrightarrow> (\<exists>t d h. result = Some (Inr (), t) \<and> mounted io whole base limit d h t \<and> header_of (d 1) = h \<and>
     cwd t = cwd s \<and> files d h = m)"

lemma makes_files:
  "leaves_files io whole base limit s r m \<Longrightarrow> mounted io whole base limit d h s' \<Longrightarrow> cwd s = cwd s' \<Longrightarrow> links_ok m \<Longrightarrow>
   makes io whole base limit s' r m"
  unfolding leaves_files_def makes_def mounted_def by metis

lemma resolve_mounted:
  assumes "mounted io whole base limit d h s" "0 \<notin> set path"
  obtains t where "resolve io path deref s = Some (path_name (files d h) (cwd s) path deref, t)" "mounted io whole base limit d h t" "cwd t = cwd s"
  using resolve_spec [OF mountedD(1,2,4,5) [OF assms(1)] assms(2), of deref] mounted_same [OF assms(1)] by blast

lemma find_mounted:
  assumes "mounted io whole base limit d h s" "0 \<notin> set name"
  obtains t where "fs_find io name s = Some (lookup d h name, t)" "mounted io whole base limit d h t" "cwd t = cwd s" "name \<noteq> [] \<Longrightarrow> held_table t"
  using fs_find_spec [OF mountedD(1,3) [OF assms(1)] assms(2)] mounted_same [OF assms(1)] by metis

text \<open>Where a file may be put: in a folder that is there, with room for it.\<close>

definition may_store :: "(nat \<Rightarrow> sector) \<Rightarrow> header \<Rightarrow> u8 list \<Rightarrow> nat \<Rightarrow> bool" where
  "may_store d h name n \<longleftrightarrow> last name \<noteq> slash \<and> (parent_of name = [] \<or> parent_of name \<in> dom (files d h)) \<and> n < 2 ^ 31 \<and>
     has_room h n (name \<notin> dom (files d h))"

lemma store_mounted:
  assumes m: "mounted io whole base limit d h s" and name: "fits name" "name \<noteq> []" "may_store d h name (length data)"
    and flag: "flag = 0 \<or> flag = FS_LINK \<and> data \<noteq> []"
  shows "makes io whole base limit s (store io name data flag s) ((files d h)(name \<mapsto> (flag \<noteq> 0, data)))"
proof -
  have ms: "last name \<noteq> slash" "has_parent d h name" "length data < 2 ^ 31" "has_room h (length data) (lookup d h name = None)"
    using name(3) by (auto simp: may_store_def has_parent_def files_lookup)
  have fl: "flag = 0 \<or> flag = FS_LINK" using flag by blast
  have "links_ok ((files d h)(name \<mapsto> (flag \<noteq> 0, data)))" using mountedD(4) [OF m] flag by (auto simp: links_ok_def)
  then show ?thesis
    using store_spec [OF mountedD(1,2) [OF m] name(1,2) ms(1,2,3) fl ms(4)] by (rule makes_files [OF _ m refl, rotated])
qed

lemma fs_write_spec:
  assumes m: "mounted io whole base limit d h s" and path: "0 \<notin> set path" "path_name (files d h) (cwd s) path True = Inr name"
    and st: "may_store d h name (length data)"
  shows "makes io whole base limit s (fs_write io path data s) ((files d h)(name \<mapsto> (False, data)))"
proof -
  obtain t where t: "resolve io path True s = Some (Inr name, t)" "mounted io whole base limit d h t" "cwd t = cwd s"
    using resolve_mounted [OF m path(1), of True] path(2) by metis
  note nm = path_name_fits [OF path(2) mountedD(5) [OF m] path(1)]
  have "makes io whole base limit t (store io name data 0 t) ((files d h)(name \<mapsto> (False, data)))"
    using store_mounted [OF t(2) nm st, of 0] by simp
  then show ?thesis using t(1,3) by (simp add: fs_write_def makes_def)
qed

lemma stat_mounted:
  assumes m: "mounted io whole base limit d h s" and path: "0 \<notin> set path" "path_name (files d h) (cwd s) path deref = Inr name"
  shows "\<exists>t. stat_at io path deref s = Some (case lookup d h name of None \<Rightarrow> Inl ENOENT | Some f \<Rightarrow> Inr \<lparr>f_name = name, f_start = s_start f, f_size = s_size f\<rparr>, t) \<and>
    mounted io whole base limit d h t \<and> cwd t = cwd s"
proof -
  obtain t where t: "resolve io path deref s = Some (Inr name, t)" "mounted io whole base limit d h t" "cwd t = cwd s"
    using resolve_mounted [OF m path(1), of deref] path(2) by metis
  have "0 \<notin> set name" using path_name_fits(1) [OF path(2) mountedD(5) [OF m] path(1)] by (simp add: fits_def)
  then obtain u where u: "fs_find io name t = Some (lookup d h name, u)" "mounted io whole base limit d h u" "cwd u = cwd t"
    using find_mounted [OF t(2)] by metis
  then show ?thesis using t by (auto simp: stat_at_def split: option.split)
qed

lemma name_no_nul: "fits name \<Longrightarrow> 0 \<notin> set name"
  by (simp add: fits_def)

lemma fs_remove_spec:
  assumes m: "mounted io whole base limit d h s" and path: "0 \<notin> set path" "path_name (files d h) (cwd s) path False = Inr name"
    and there: "name \<in> dom (files d h)"
  shows "\<exists>t d' h'. fs_remove io path s = Some (Inr (), t) \<and> mounted io whole base limit d' h' t \<and> header_of (d' 1) = h' \<and>
    cwd t = cwd s \<and> files d' h' = (files d h)(name := None) \<and> freed d h d' h' name"
proof -
  note nm = path_name_fits [OF path(2) mountedD(5) [OF m] path(1)]
  obtain s1 where s1: "resolve io path False s = Some (Inr name, s1)" "mounted io whole base limit d h s1" "cwd s1 = cwd s"
    using resolve_mounted [OF m path(1), of False] path(2) by metis
  obtain s2 where s2: "fs_find io name s1 = Some (lookup d h name, s2)" "mounted io whole base limit d h s2" "cwd s2 = cwd s1" "held_table s2"
    using find_mounted [OF s1(2) name_no_nul [OF nm(1)]] nm(2) by metis
  obtain g where g: "lookup d h name = Some g" using there by (auto simp: files_lookup)
  obtain t d' h' where t: "drop_entry io (s_index g) name s2 = Some (Inr (), t)" "knows io whole base limit d' h' t" "sound limit d' h'"
    "header_of (d' 1) = h'" "cwd t = cwd s2" "files d' h' = (files d h)(name := None)" "freed d h d' h' name"
    using drop_entry_spec [OF mountedD(1) [OF s2(2)] s2(4) mountedD(2) [OF m] g] by blast
  have "links_ok (files d' h')" using mountedD(4) [OF m] t(6) by (auto simp: links_ok_def)
  moreover have "fs_remove io path s = drop_entry io (s_index g) name s2" using s1(1) s2(1) g by (simp add: fs_remove_def)
  ultimately show ?thesis using t mountedD(5,6) [OF m] s1(3) s2(3)
    by (intro exI [of _ t] exI [of _ d'] exI [of _ h']) (simp add: mounted_def)
qed

text \<open>The name of a folder: with a slash at its end.\<close>

definition folder_name :: "u8 list \<Rightarrow> u8 list" where
  "folder_name name = (if last name \<noteq> slash then name @ [slash] else name)"

lemma dir_name_mounted:
  assumes m: "mounted io whole base limit d h s" and path: "0 \<notin> set path" "path_name (files d h) (cwd s) path deref = Inr name" and n: "length name + 2 \<le> FS_NAME_LEN"
  obtains t where "dir_name io path deref s = Some (Inr (folder_name name), t)" "mounted io whole base limit d h t" "cwd t = cwd s" "fits (folder_name name)"
proof -
  note nm = path_name_fits [OF path(2) mountedD(5) [OF m] path(1)]
  obtain s1 where s1: "resolve io path deref s = Some (Inr name, s1)" "mounted io whole base limit d h s1" "cwd s1 = cwd s"
    using resolve_mounted [OF m path(1), of deref] path(2) by metis
  have "slash \<noteq> 0" by (simp add: slash_def)
  then have "fits (folder_name name)" using nm(1) n by (auto simp: folder_name_def fits_def)
  moreover have "dir_name io path deref s = Some (Inr (folder_name name), s1)" using s1(1) n by (simp add: dir_name_def folder_name_def)
  ultimately show thesis using that s1(2,3) by blast
qed

lemma make_folder:
  assumes k: "knows io whole base limit d h s" "held_table s" and sd: "sound limit d h"
    and name: "fits name" "name \<noteq> []" "last name = slash" "lookup d h name = None" and room: "has_room h 0 True"
  shows "\<exists>i s1. new_entry io s = Some (Some (of_nat i), s1) \<and> unat (of_nat i :: u32) = i \<and>
    leaves_files io whole base limit s
      (attempt (write_entry io i (Some name) 0 0 s1) (\<lambda>_ s2. attempt (index_add io name (of_nat i) s2) (\<lambda>_ s3. save_header io s3)))
      ((files d h)(name \<mapsto> (False, [])))"
proof -
  note rd = knows_ready [OF k]
  have ro: "h_free_head h \<noteq> 0 \<or> unat (h_table_next h) < unat (h_table_size h)" "(unat (h_index_taken h) + 1) * 2 \<le> places h"
    using room by (auto simp: has_room_def)
  obtain i s1 h1 where s1: "new_entry io s = Some (Some (of_nat i), s1)" "ready io whole base limit d s1" "kept (s\<lparr>head := h1\<rparr>) s1" "took d h i h1"
    using new_entry_spec [OF rd(1,2) sd ro(1)] by auto
  obtain e nx where h1: "h1 = h\<lparr>h_free_head := e, h_table_next := nx\<rparr>" using tookD(6) [OF s1(4) sd] by blast
  have hs: "head s1 = h1\<lparr>h_data_end := h_data_end h\<rparr>" "held_table s1" "cwd s1 = cwd s" using s1(3) k(2) by (simp_all add: kept_def h1)
  define f where "f = \<lparr>f_name = name, f_start = 0, f_size = 0\<rparr>"
  have fa: "file_area f = {}" by (simp add: f_def file_area_def size_of_def sectors_of_def)
  obtain t d' h' where t: "attempt (write_entry io i (Some name) 0 0 s1) (\<lambda>_ s1. attempt (index_add io name (of_nat i) s1) (\<lambda>_ s2. save_header io s2)) = Some (Inr (), t)"
    "ready io whole base limit d' t" "head t = h'" "held_table t = held_table s1" "cwd t = cwd s1" "sound limit d' h'" "header_of (d' 1) = h'"
    "lookup d' h' name = Some \<lparr>s_index = of_nat i, s_start = 0, s_size = 0\<rparr>"
    "\<forall>other. other \<noteq> name \<longrightarrow> lookup d' h' other = lookup d h other" "\<forall>a. a \<notin> meta h \<longrightarrow> d' a = d a"
    using enter_name [OF sd s1(4) refl order.refl laidD(1) [OF soundD(6) [OF sd]] s1(2) hs(1) rd(3) _ name(1,2,4) ro(2) f_def] fa name(3)
    by (metis Int_empty_left empty_subsetI)
  have z: "bytes_of \<lparr>s_index = of_nat i, s_start = 0, s_size = 0\<rparr> = 0" "\<not> is_link \<lparr>s_index = of_nat i, s_start = 0, s_size = 0\<rparr>"
    by (simp_all add: bytes_of_def is_link_def)
  have "files d' h' = (files d h)(name \<mapsto> (False, []))"
    using files_updated [of limit d h d' h' name _ d "{}", OF sd t(8)] t(9,10) z by (simp add: data_at_def sectors_of_def)
  then have "leaves_files io whole base limit s
      (attempt (write_entry io i (Some name) 0 0 s1) (\<lambda>_ s2. attempt (index_add io name (of_nat i) s2) (\<lambda>_ s3. save_header io s3)))
      ((files d h)(name \<mapsto> (False, [])))"
    unfolding leaves_files_def using t hs rd(3) by (intro exI [of _ t] exI [of _ d'] exI [of _ h']) (simp add: knows_def)
  then show ?thesis using s1(1) tookD(7) [OF s1(4) sd] by blast
qed

lemma fs_mkdir_spec:
  assumes m: "mounted io whole base limit d h s" and path: "0 \<notin> set path" "path_name (files d h) (cwd s) path False = Inr name"
    and n: "length name + 2 \<le> FS_NAME_LEN" and free: "butlast (folder_name name) \<notin> dom (files d h)" "folder_name name \<notin> dom (files d h)"
    and par: "parent_of (folder_name name) = [] \<or> parent_of (folder_name name) \<in> dom (files d h)" and room: "has_room h 0 True"
  shows "makes io whole base limit s (fs_mkdir io path s) ((files d h)(folder_name name \<mapsto> (False, [])))"
proof -
  define full where "full = folder_name name"
  note nm = path_name_fits [OF path(2) mountedD(5) [OF m] path(1)]
  have full: "full \<noteq> []" "last full = slash" using nm(2) by (auto simp: full_def folder_name_def)
  obtain s1 where s1: "dir_name io path False s = Some (Inr full, s1)" "mounted io whole base limit d h s1" "cwd s1 = cwd s" "fits full"
    using dir_name_mounted [OF m path n] unfolding full_def by metis
  have n0: "0 \<notin> set full" "0 \<notin> set (butlast full)" using name_no_nul [OF s1(4)] by (auto dest: in_set_butlastD)
  obtain s2 where s2: "fs_find io (butlast full) s1 = Some (None, s2)" "mounted io whole base limit d h s2" "cwd s2 = cwd s1"
    using find_mounted [OF s1(2) n0(2)] free(1) by (metis files_lookup full_def)
  obtain s3 where s3: "fs_find io full s2 = Some (None, s3)" "mounted io whole base limit d h s3" "cwd s3 = cwd s2" "held_table s3"
    using find_mounted [OF s2(2) n0(1)] free(2) full(1) by (metis files_lookup full_def)
  have "parent_of full = [] \<or> lookup d h (parent_of full) \<noteq> None" using par by (simp add: full_def files_lookup)
  then obtain s4 where s4: "parent_exists io full s3 = Some (True, s4)" "knows io whole base limit d h s4" "cwd s4 = cwd s3"
    using parent_exists_spec [OF mountedD(1,3) [OF s3(2)] n0(1)] by auto
  have held: "held_table s4"
  proof (cases "parent_of full = []")
    case True
    then show ?thesis using s4(1) s3(4) by (simp add: parent_exists_def)
  next
    case False
    have "0 \<notin> set (parent_of full)" using n0(1) cut_last_sub(1) [of full] cut_last_sub(1) [of "butlast full"]
      by (auto simp: parent_of_def dest: in_set_butlastD)
    then obtain u where "fs_find io (parent_of full) s3 = Some (lookup d h (parent_of full), u)" "held_table u"
      using find_mounted [OF s3(2)] False by metis
    then show ?thesis using s4(1) False by (simp add: parent_exists_def)
  qed
  have none: "lookup d h full = None" using free(2) by (simp add: full_def files_lookup)
  obtain i s5 where s5: "new_entry io s4 = Some (Some (of_nat i), s5)" "unat (of_nat i :: u32) = i"
    "leaves_files io whole base limit s4
      (attempt (write_entry io i (Some full) 0 0 s5) (\<lambda>_ s2. attempt (index_add io full (of_nat i) s2) (\<lambda>_ s3. save_header io s3)))
      ((files d h)(full \<mapsto> (False, [])))"
    using make_folder [OF s4(2) held mountedD(2) [OF m] s1(4) full none room] by blast
  have "fs_mkdir io path s = attempt (write_entry io i (Some full) 0 0 s5) (\<lambda>_ s2. attempt (index_add io full (of_nat i) s2) (\<lambda>_ s3. save_header io s3))"
    using s1(1) s2(1) s3(1) s4(1) s5(1,2) by (simp add: fs_mkdir_def)
  moreover have "links_ok ((files d h)(full \<mapsto> (False, [])))" using mountedD(4) [OF m] by (auto simp: links_ok_def)
  ultimately show ?thesis using makes_files [OF s5(3) m] s1(3) s2(3) s3(3) s4(3) by (simp add: full_def)
qed

lemma fs_symlink_spec:
  assumes m: "mounted io whole base limit d h s" and path: "0 \<notin> set path" "path_name (files d h) (cwd s) path False = Inr name"
    and t: "target \<noteq> []" "length target < FS_LINK_LEN" and n: "length name + 2 \<le> FS_NAME_LEN"
    and free: "name \<notin> dom (files d h)" "name @ [slash] \<notin> dom (files d h)" and st: "may_store d h name (length target)"
  shows "makes io whole base limit s (fs_symlink io target path s) ((files d h)(name \<mapsto> (True, target)))"
proof -
  note nm = path_name_fits [OF path(2) mountedD(5) [OF m] path(1)]
  have n0: "0 \<notin> set name" "0 \<notin> set (name @ [slash])" using name_no_nul [OF nm(1)] by (auto simp: slash_def)
  obtain s1 where s1: "resolve io path False s = Some (Inr name, s1)" "mounted io whole base limit d h s1" "cwd s1 = cwd s"
    using resolve_mounted [OF m path(1), of False] path(2) by metis
  obtain s2 where s2: "fs_find io name s1 = Some (None, s2)" "mounted io whole base limit d h s2" "cwd s2 = cwd s1"
    using find_mounted [OF s1(2) n0(1)] free(1) by (metis files_lookup)
  obtain s3 where s3: "fs_find io (name @ [slash]) s2 = Some (None, s3)" "mounted io whole base limit d h s3" "cwd s3 = cwd s2"
    using find_mounted [OF s2(2) n0(2)] free(2) by (metis files_lookup)
  have z: "FS_LINK \<noteq> 0" by (simp add: FS_LINK_def)
  have "makes io whole base limit s3 (store io name target FS_LINK s3) ((files d h)(name \<mapsto> (True, target)))"
    using store_mounted [OF s3(2) nm st, of FS_LINK] t(1) z by simp
  moreover have "fs_symlink io target path s = store io name target FS_LINK s3"
    using s1(1) s2(1) s3(1) t n by (simp add: fs_symlink_def)
  ultimately show ?thesis using s1(3) s2(3) s3(3) by (simp add: makes_def)
qed

lemma files_data:
  assumes m: "mounted io whole base limit d h s" and f: "lookup d h name = Some f"
  shows "files d h name = Some (is_link f, data_at d (unat (s_start f)) (unat (bytes_of f)))"
    "length (data_at d (unat (s_start f)) (unat (bytes_of f))) = unat (bytes_of f)"
    "bytes_of f \<noteq> 0 \<Longrightarrow> unat (s_start f) + sectors_of (unat (bytes_of f)) \<le> limit"
    "bytes_of f \<noteq> 0 \<Longrightarrow> 2 \<le> unat (s_start f)"
proof -
  define n where "n = unat (bytes_of f)"
  have ld: "laid limit d h" using soundD(6) [OF mountedD(2) [OF m]] .
  obtain i where i: "i < unat (h_table_next h)" "f_name (entry_of d h i) = name" "f = slot_of d h i" "name \<noteq> []" using lookup_Some [OF f] by metis
  have fa: "file_area (entry_of d h i) = {unat (s_start f) ..< unat (s_start f) + sectors_of n}"
    using i by (simp add: file_area_def size_of_def slot_of_def bytes_of_def n_def)
  have rd: "ready io whole base limit d s" using mountedD(1) [OF m] by (simp add: knows_def)
  have in_disk: "a < limit" "2 \<le> a" if "a \<in> file_area (entry_of d h i)" for a
    using that laidD(6) [OF ld i(1)] laidD(1,2) [OF ld] by fastforce+
  show "files d h name = Some (is_link f, data_at d (unat (s_start f)) (unat (bytes_of f)))" using f by (simp add: files_def)
  have "\<forall>x \<in> set (map d [unat (s_start f)..<unat (s_start f) + sectors_of n]). length x = SECTOR_SIZE"
    using ready_limit(2) [OF rd] in_disk(1) fa by auto
  then have "length (concat (map d [unat (s_start f)..<unat (s_start f) + sectors_of n])) = SECTOR_SIZE * sectors_of n"
    by (subst concat_sectors) simp_all
  moreover have "n \<le> SECTOR_SIZE * sectors_of n" unfolding SECTOR_SIZE_def sectors_of_def by arith
  ultimately show "length (data_at d (unat (s_start f)) (unat (bytes_of f))) = unat (bytes_of f)" by (simp add: data_at_def n_def)
  assume "bytes_of f \<noteq> 0"
  then have "n \<noteq> 0" by (simp add: n_def unat_eq_zero)
  then have "sectors_of n \<noteq> 0" unfolding sectors_of_def by arith
  then have "unat (s_start f) + sectors_of n - 1 \<in> file_area (entry_of d h i)" "unat (s_start f) \<in> file_area (entry_of d h i)" using fa by auto
  then show "unat (s_start f) + sectors_of (unat (bytes_of f)) \<le> limit" "2 \<le> unat (s_start f)" using in_disk by (fastforce simp: n_def)+
qed

lemma fs_readlink_spec:
  assumes m: "mounted io whole base limit d h s" and path: "0 \<notin> set path" "path_name (files d h) (cwd s) path False = Inr name"
    and l: "files d h name = Some (True, target)" "length target \<le> 512"
  shows "\<exists>t. fs_readlink io path most s = Some (Inr (take most target), t) \<and> mounted io whole base limit d h t \<and> cwd t = cwd s"
proof -
  obtain f where f: "lookup d h name = Some f" using l(1) by (auto simp: files_def)
  note fd = files_data [OF m f]
  have lk: "is_link f" and tg: "target = data_at d (unat (s_start f)) (unat (bytes_of f))" using fd(1) l(1) by auto
  have n: "unat (bytes_of f) \<le> 512" using fd(2) tg l(2) by simp
  obtain s1 where s1: "fs_lstat io path s = Some (Inr \<lparr>f_name = name, f_start = s_start f, f_size = s_size f\<rparr>, s1)" "mounted io whole base limit d h s1" "cwd s1 = cwd s"
    using stat_mounted [OF m path] f by (auto simp: fs_lstat_def)
  have rd: "ready io whole base limit d s1" using mountedD(1) [OF s1(2)] by (simp add: knows_def)
  note lt = link_target [OF rd mountedD(2,4) [OF m] f lk n]
  obtain s2 where s2: "load_sector io (s_start f) s1 = Some (Inr (), s2)" "ready io whole base limit d s2" "kept s1 s2" "sector s2 = d (unat (s_start f))"
    using load_sector_spec [OF rd lt(2,3)] by blast
  have "knows io whole base limit d h s2" "cwd s2 = cwd s1" using s2(2,3) mountedD(1) [OF s1(2)] by (auto simp: knows_def kept_def)
  then have m2: "mounted io whole base limit d h s2" "cwd s2 = cwd s" using mounted_same [OF s1(2)] s1(3) by auto
  have tt: "target = take (unat (bytes_of f)) (d (unat (s_start f)))" using lt(1) l(1) by simp
  have "fs_readlink io path most s = Some (Inr (take (min (unat (bytes_of f)) most) (d (unat (s_start f)))), s2)"
    using s1(1) s2(1,4) lk by (simp add: fs_readlink_def is_link_def bytes_of_def)
  then show ?thesis using m2 tt by (simp add: min.commute)
qed

text \<open>The sectors of a file, read.\<close>

lemma read_file:
  assumes m: "mounted io whole base limit d h s" and f: "lookup d h name = Some f" "files d h name = Some (l, data)" "data \<noteq> []"
  shows "\<exists>xs t. fs_read_many io (s_start f) 0 (sectors_for (bytes_of f)) s = Some (Inr xs, t) \<and> mounted io whole base limit d h t \<and>
    cwd t = cwd s \<and> take (length data) (concat xs) = data \<and> length data = unat (bytes_of f)"
proof -
  note fd = files_data [OF m f(1)]
  have dt: "data = data_at d (unat (s_start f)) (unat (bytes_of f))" using fd(1) f(2) by simp
  have len: "length data = unat (bytes_of f)" using dt fd(2) by simp
  have n0: "bytes_of f \<noteq> 0" using len f(3) by auto
  have sm: "unat (bytes_of f) < 2 ^ 31" unfolding bytes_of_def by (rule small_size)
  have sec: "unat (sectors_for (bytes_of f)) = sectors_of (unat (bytes_of f))" by (rule sectors_for_nat [OF sm])
  have run: "running io whole base limit d s" using mountedD(1) [OF m] by (simp add: knows_def ready_def)
  have "sectors_of (unat (bytes_of f)) \<noteq> 0" using n0 unat_eq_zero [of "bytes_of f"] unfolding sectors_of_def by linarith
  then have "sectors_for (bytes_of f) \<noteq> 0" using sec by auto
  from running_read [OF run _ this, of "s_start f"] fd(3) [OF n0] sec obtain t where
    t: "ata_read_many (m_fw io) (m_hw io) (s_start f) (sectors_for (bytes_of f)) s = Some (True, span d (unat (s_start f)) (unat (sectors_for (bytes_of f))), t)"
      "running io whole base limit d t" "disk.more t = disk.more s" by auto
  note fm = fs_more [OF t(3)]
  have "ready io whole base limit d t" using mountedD(1) [OF m] t(2) fm by (simp add: knows_def ready_def at_hand_def slots_ok_def)
  then have "knows io whole base limit d h t" using mountedD(1) [OF m] fm(7) by (auto simp: knows_def kept_def split: if_splits)
  then have mt: "mounted io whole base limit d h t" "cwd t = cwd s" using mounted_same [OF m] fm(7) by (auto simp: kept_def)
  have "span d (unat (s_start f)) (unat (sectors_for (bytes_of f))) = map d [unat (s_start f)..<unat (s_start f) + sectors_of (unat (bytes_of f))]"
    unfolding sec by (rule nth_equalityI) simp_all
  then have "take (length data) (concat (span d (unat (s_start f)) (unat (sectors_for (bytes_of f))))) = data"
    using dt len by (simp add: data_at_def)
  then show ?thesis using t(1) mt len by (intro exI [of _ "span d (unat (s_start f)) (unat (sectors_for (bytes_of f)))"] exI [of _ t]) (simp add: fs_read_many_def)
qed
end
