(* ===== verification/FsProps.thy ===== *)
theory FsProps
  imports FsPaths
begin

text \<open>
  What the filesystem promises, stated over the operations of \<^verbatim>\<open>src/src/kernel/fs.c\<close>, with a small machine
  and an empty disk on which the hypotheses hold.
\<close>

section \<open>The lowest gap\<close>

definition overlaps :: "u32 \<Rightarrow> u32 \<Rightarrow> extent \<Rightarrow> bool" where
  "overlaps count at e \<longleftrightarrow> fst e < at + count \<and> at < snd e"

definition no_wrap :: "u32 \<Rightarrow> u32 \<Rightarrow> bool" where
  "no_wrap count at \<longleftrightarrow> unat at + unat count < 2 ^ 32"

lemma overlaps_later:
  assumes "overlaps count at e" "at \<le> x" "x < snd e" "no_wrap count (snd e)"
  shows "overlaps count x e"
proof -
  have b: "unat at \<le> unat x" "unat x < unat (snd e)" "unat (snd e) + unat count < 2 ^ 32" using assms by (simp_all add: word_nat no_wrap_def)
  have "unat (at + count) = unat at + unat count" "unat (x + count) = unat x + unat count" using b by (auto intro!: unat_add_small)
  then show ?thesis using assms(1) b by (simp add: overlaps_def word_nat)
qed

lemma hop_past_spec:
  assumes "hop_past count exts (at, mv) = (at', mv')" "\<forall>e \<in> set exts. no_wrap count (snd e)"
  shows "at \<le> at' \<and> (at' = at \<or> at' \<in> snd ` set exts) \<and> (mv' \<longleftrightarrow> mv \<or> at' \<noteq> at) \<and>
    (at' = at \<longrightarrow> (\<forall>e \<in> set exts. \<not> overlaps count at e)) \<and> (\<forall>x. at \<le> x \<longrightarrow> x < at' \<longrightarrow> (\<exists>e \<in> set exts. overlaps count x e))"
  using assms
proof (induction count exts "(at, mv)" arbitrary: at mv rule: hop_past.induct)
  case (1 count at mv)
  then show ?case by auto
next
  case (2 count a b rs at mv)
  define e where "e = (a, b)"
  show ?case
  proof (cases "overlaps count at e")
    case True
    then have lt: "at < b" "a < at + count" by (simp_all add: overlaps_def e_def)
    have "hop_past count rs (b, True) = (at', mv')" using "2.prems"(1) lt by simp
    then have ih: "b \<le> at'" "at' = b \<or> at' \<in> snd ` set rs" "mv'" "\<forall>x. b \<le> x \<longrightarrow> x < at' \<longrightarrow> (\<exists>e \<in> set rs. overlaps count x e)"
      using "2.hyps" [of b True] "2.prems"(2) lt by auto
    have "\<exists>e \<in> set ((a, b) # rs). overlaps count x e" if "at \<le> x" "x < at'" for x
    proof (cases "x < b")
      case x: True
      then show ?thesis using overlaps_later [OF True that(1)] "2.prems"(2) by (auto simp: e_def)
    next
      case False
      then show ?thesis using ih(4) that(2) by auto
    qed
    moreover have "at \<le> at'" "at' \<noteq> at" using lt(1) ih(1) by auto
    ultimately show ?thesis using ih(2,3) by auto
  next
    case False
    then have "hop_past count rs (at, mv) = (at', mv')" using "2.prems"(1) by (auto simp: overlaps_def e_def split: if_splits)
    have n: "\<not> (a < at + count \<and> at < b)" using False by (simp add: overlaps_def e_def)
    have "at \<le> at' \<and> (at' = at \<or> at' \<in> snd ` set rs) \<and> (mv' \<longleftrightarrow> mv \<or> at' \<noteq> at) \<and>
      (at' = at \<longrightarrow> (\<forall>e \<in> set rs. \<not> overlaps count at e)) \<and> (\<forall>x. at \<le> x \<longrightarrow> x < at' \<longrightarrow> (\<exists>e \<in> set rs. overlaps count x e))"
    proof -
      have c: "(if a < at + count \<and> at < b then (b, True) else (at, mv)) = (at, mv)" using n by auto
      show ?thesis using "2.hyps" [OF c] \<open>hop_past count rs (at, mv) = (at', mv')\<close> "2.prems"(2) by simp
    qed
    then show ?thesis using False by (auto simp: e_def)
  qed
qed

lemma hop_spec:
  assumes "\<forall>e \<in> set exts. no_wrap count (snd e)"
  shows "\<exists>r. hop count exts at = Some r \<and> at \<le> r \<and> (r = at \<or> r \<in> snd ` set exts) \<and> (\<forall>e \<in> set exts. \<not> overlaps count r e) \<and>
    (\<forall>x. at \<le> x \<longrightarrow> x < r \<longrightarrow> (\<exists>e \<in> set exts. overlaps count x e))"
proof (induction "card {e \<in> set exts. at < snd e}" arbitrary: at rule: less_induct)
  case less
  obtain at' mv where h: "hop_past count exts (at, False) = (at', mv)" by fastforce
  note p = hop_past_spec [OF h assms]
  show ?case
  proof (cases "at' = at")
    case True
    then have "hop count exts at = Some at" using p h by (subst hop.simps) simp
    then show ?thesis using True p by auto
  next
    case False
    then have mv: "mv" "at < at'" "at' \<in> snd ` set exts" using p by auto
    then obtain e where e: "e \<in> set exts" "snd e = at'" by auto
    have "{e \<in> set exts. at' < snd e} \<subset> {e \<in> set exts. at < snd e}" using mv(2) e by (auto dest: order.strict_trans)
    then have "card {e \<in> set exts. at' < snd e} < card {e \<in> set exts. at < snd e}" by (rule psubset_card_mono [rotated]) simp
    from less [OF this] obtain r where r: "hop count exts at' = Some r" "at' \<le> r" "r = at' \<or> r \<in> snd ` set exts"
      "\<forall>e \<in> set exts. \<not> overlaps count r e" "\<forall>x. at' \<le> x \<longrightarrow> x < r \<longrightarrow> (\<exists>e \<in> set exts. overlaps count x e)" by blast
    have "hop count exts at = Some r" using r(1) h mv(1) by (subst hop.simps) simp
    moreover have "\<exists>e \<in> set exts. overlaps count x e" if "at \<le> x" "x < r" for x
      using p r(5) that by (cases "x < at'") auto
    ultimately show ?thesis using r mv by (intro exI [of _ r]) auto
  qed
qed

section \<open>A small machine\<close>

text \<open>The machine of the disk with an empty filesystem of a hundred sectors, as it is after formatting.\<close>

definition empty_header :: header where
  "empty_header = \<lparr>h_magic = FS_MAGIC, h_disk_sectors = 100, h_table_lba = 2, h_table_size = 64, h_table_next = 0, h_free_head = 0,
     h_index_lba = 18, h_index_sectors = 4, h_index_taken = 0, h_data_end = 22\<rparr>"

definition fs_machine :: "(nat \<Rightarrow> sector) fs" where
  "fs_machine = cache_module_init (fs.make
     [\<lparr>r_at = 0x100000, r_count = 16\<rparr>, \<lparr>r_at = 0x200000, r_count = 4\<rparr>] True [] 0 0 (\<lambda>_. 0) 4096 0
     [] [] [] None None None 0 0 0
     0 (replicate 8 line0) (replicate 8 0) None 0 0 0 False False (\<lambda>_. [])
     False 0 False 0 False True BLOCK_RUN_MAX False blank_disk
     empty_header (replicate 4 (replicate 512 0)) (replicate 4 (replicate 512 0)) None 4 (replicate 8 0) (replicate 8 0) 0 0 True [])"

definition ram_io :: "(nat \<Rightarrow> sector, unit) io" where
  "ram_io = \<lparr>m_fw = no_firmware, m_hw = ram_disk\<rparr>"

lemma fs_machine_running: "running ram_io (\<lambda>f. f) 2048 100 blank_disk fs_machine"
proof -
  define s where "s = fs.make
     [\<lparr>r_at = 0x100000, r_count = 16\<rparr>, \<lparr>r_at = 0x200000, r_count = 4\<rparr>] True [] 0 0 (\<lambda>_. 0) 4096 0
     [] [] [] None None None 0 0 0
     0 (replicate 8 line0) (replicate 8 0) None 0 0 0 False False (\<lambda>_. [])
     False 0 False 0 False True BLOCK_RUN_MAX False blank_disk
     empty_header (replicate 4 (replicate 512 0)) (replicate 4 (replicate 512 0)) None 4 (replicate 8 0) (replicate 8 0) 0 0 True []"
  have m: "fs_machine = (module_init s)\<lparr>has_cache := True\<rparr>"
    by (simp add: fs_machine_def s_def cache_module_init_def disk_cache_register_def)
  have f: "mem_inv s" "free_set s = block 0x100000 16 \<union> block 0x200000 4"
    by (simp_all add: s_def fs.make_def mem_inv_def run_ok_def page_aligned_def run_stop_def before_def
        loose_ok_def loose_list_def loose_set_def free_set_def RUNS_def)
  have "free_set s \<subseteq> {p. p < 2 ^ 46}" by (auto simp: f run_pages_def PageAlloc.span_def run_stop_def)
  then have "cache_inv blank_disk (module_init s)"
    using f by (intro module_init_inv) (simp_all add: s_def fs.make_def)
  moreover have "cache_inv blank_disk fs_machine = cache_inv blank_disk (module_init s)"
    by (rule same_lines(8)) (simp_all add: m mem.truncate_def)
  ultimately have "cache_inv blank_disk fs_machine" by simp
  moreover have "share_inv fs_machine"
    by (rule empty_share_inv) (simp_all add: m s_def fs.make_def module_init_def)
  moreover have "working ram_disk (\<lambda>f. f) 2048 blank_disk fs_machine"
    using ram_disk_honest by (simp add: working_def m s_def fs.make_def module_init_def BLOCK_RUN_MAX_def part_def blank_disk_def)
  moreover have "has_cache fs_machine" by (simp add: m s_def fs.make_def module_init_def)
  ultimately have "disk_inv ram_disk (\<lambda>f. f) 2048 blank_disk fs_machine" by (simp add: disk_inv_def)
  moreover have "attached fs_machine" by (simp add: m s_def fs.make_def module_init_def attached_def)
  moreover have "good_disk 100 blank_disk" by (simp add: good_disk_def blank_disk_def SECTOR_SIZE_def)
  ultimately show ?thesis using ram_disk_reliable by (simp add: running_def ram_io_def)
qed

lemma fs_machine_fields:
  "head fs_machine = empty_header" "held_table fs_machine" "cwd fs_machine = []" "slots fs_machine = 4" "cur fs_machine = 0"
  "recent fs_machine = replicate 4 (replicate 512 0)" "recent_lba fs_machine = replicate 8 0" "recent_used fs_machine = replicate 8 0"
  by (simp_all add: fs_machine_def cache_module_init_def disk_cache_register_def module_init_def fs.make_def)

lemma fs_machine_knows: "knows ram_io (\<lambda>f. f) 2048 100 blank_disk empty_header fs_machine"
  using fs_machine_running by (simp add: knows_def ready_def at_hand_def slots_ok_def fs_machine_fields)

lemma le_val_zeros: "le_val (replicate n 0) = 0"
  by (induction n) simp_all

lemma blank_record: "k < RECORDS \<Longrightarrow> r_entry (record_at k (replicate 512 0)) = 0"
  by (simp add: record_at_def get32_def le_val_zeros)

lemma empty_sound: "sound 100 blank_disk empty_header"
proof -
  have r: "r_entry (rec_of blank_disk empty_header a k) = 0" if "k < RECORDS" for a k
    using blank_record [OF that] by (simp add: rec_of_def blank_disk_def)
  have "index_fits 100 empty_header" by (simp add: index_fits_def empty_header_def)
  moreover have "table_fits 100 empty_header" by (simp add: table_fits_def empty_header_def PER_SECTOR_def)
  moreover have "index_ok blank_disk empty_header" using r by (simp add: index_ok_def live_record_def empty_header_def)
  moreover have "laid 100 blank_disk empty_header"
    by (auto simp: laid_def empty_header_def table_area_def index_area_def sectors_of_def)
  moreover have "free_ok blank_disk empty_header" by (auto simp: free_ok_def empty_header_def intro!: exI [of _ "[]"])
  moreover have "used_places blank_disk empty_header = {}" using r by (auto simp: used_places_def)
  ultimately show ?thesis by (simp add: sound_def fs_inv_def empty_header_def places_def RECORDS_def)
qed

lemma empty_files: "files blank_disk empty_header = Map.empty"
  by (auto simp: files_def lookup_def empty_header_def)

lemma fs_machine_mounted: "mounted ram_io (\<lambda>f. f) 2048 100 blank_disk empty_header fs_machine"
  using fs_machine_knows empty_sound by (simp add: mounted_def empty_files links_ok_def fs_machine_fields fits_def FS_NAME_LEN_def)

lemma plain_path:
  assumes "\<nexists>t. m [97] = Some (True, t)"
  shows "path_name m [] [97] deref = Inr [97]"
proof -
  have f: "first_part [97] = [97]" "tail_of [97] = []" "past_part [97] = []" by (simp_all add: first_part_def tail_of_def past_part_def slash_def)
  have "(case (if deref then m [97] else None) of Some (True, target) \<Rightarrow> False | _ \<Rightarrow> True)"
    using assms by (auto split: option.split bool.split)
  then have "walk_step m deref 0 [] [97] = Inr (0, [97], [])"
    by (auto simp: walk_step_def f FS_NAME_LEN_def split: option.split bool.splits)
  then show ?thesis by (simp add: path_name_def path_any_def path_walk.simps WALK_MAX_def FS_NAME_LEN_def)
qed

lemma empty_room: "has_room empty_header n fresh \<longleftrightarrow> sectors_of n \<le> 78"
  by (auto simp: has_room_def empty_header_def places_def RECORDS_def)

lemma plain_store: "n \<le> 512 \<Longrightarrow> may_store blank_disk empty_header [97] n"
  by (auto simp: may_store_def empty_files empty_room sectors_of_def slash_def parent_of_def cut_last_def)

section \<open>Properties\<close>

text \<open>
  C1. Writing a file where it needs no gap and no growth is updating the map of files. On a mounted
  filesystem, for a path that names a file (no slash at the end) in a folder that is there, data of less
  than 2 GiB whose sectors fit between the end of the data and the end of the disk, and, where nothing has
  the name yet, an entry free in the table as it is and an index that the new record leaves at most half
  full (\<open>may_store\<close>), \<open>fs_write\<close> succeeds, the map of files is the old one with the data at the name, every
  other file as it was, and the disk is sound again with its header saved. A write for which the table or
  the index is made bigger, or a gap is searched, is not covered.
\<close>

theorem fs_write_refines:
  assumes "mounted io whole base limit d h s" "0 \<notin> set path" "path_name (files d h) (cwd s) path True = Inr name"
    "may_store d h name (length data)"
  shows "\<exists>t d' h'. fs_write io path data s = Some (Inr (), t) \<and> mounted io whole base limit d' h' t \<and> header_of (d' 1) = h' \<and>
    cwd t = cwd s \<and> files d' h' = (files d h)(name \<mapsto> (False, data))"
  using fs_write_spec [OF assms] unfolding makes_def .

theorem fs_write_refines_witness:
  "\<exists>t d' h'. fs_write ram_io [97] [1, 2, 3] fs_machine = Some (Inr (), t) \<and> files d' h' = [[97] \<mapsto> (False, [1, 2, 3])] \<and> header_of (d' 1) = h'"
  using fs_write_refines [OF fs_machine_mounted, of "[97]" "[97]" "[1, 2, 3]"] plain_path [of Map.empty True] plain_store [of "Suc (Suc (Suc 0))"]
  by (auto simp: empty_files fs_machine_fields)

text \<open>
  C8. What was written is what is read: after a write of at least one byte that C1 covers (the folder there,
  room past the end of the data, no growth of table or index, less than 2 GiB: \<open>may_store\<close>) the same path
  stats to a file of the data's size whose sectors, read together, begin with the data.
\<close>

theorem fs_write_read:
  assumes "mounted io whole base limit d h s" "0 \<notin> set path" "path_name (files d h) (cwd s) path True = Inr name"
    "may_store d h name (length data)" "data \<noteq> []"
  shows "\<exists>t f u xs v. fs_write io path data s = Some (Inr (), t) \<and> fs_stat io path t = Some (Inr f, u) \<and>
    f_name f = name \<and> unat (f_size f AND NOT FS_LINK) = length data \<and>
    fs_read_many io (f_start f) 0 (sectors_for (f_size f AND NOT FS_LINK)) u = Some (Inr xs, v) \<and> take (length data) (concat xs) = data"
proof -
  obtain t d' h' where t: "fs_write io path data s = Some (Inr (), t)" "mounted io whole base limit d' h' t" "cwd t = cwd s"
    "files d' h' = (files d h)(name \<mapsto> (False, data))"
    using fs_write_spec [OF assms(1-4)] unfolding makes_def by blast
  have sl: "last name \<noteq> slash" using assms(4) by (simp add: may_store_def)
  have "\<nexists>tg. files d h name = Some (True, tg)" by (rule path_name_no_link [OF assms(3) sl mountedD(6) [OF assms(1)]])
  then have "links_of (files d' h') = links_of (files d h)" unfolding t(4) by (rule links_of_update)
  then have pn: "path_name (files d' h') (cwd t) path True = Inr name" using path_name_links assms(3) t(3) by metis
  have fl: "files d' h' name = Some (False, data)" using t(4) by simp
  then obtain g where g: "lookup d' h' name = Some g" by (auto simp: files_def)
  obtain u where u: "fs_stat io path t = Some (Inr \<lparr>f_name = name, f_start = s_start g, f_size = s_size g\<rparr>, u)" "mounted io whole base limit d' h' u"
    using stat_mounted [OF t(2) assms(2) pn] g by (auto simp: fs_stat_def)
  obtain xs v where "fs_read_many io (s_start g) 0 (sectors_for (bytes_of g)) u = Some (Inr xs, v)" "take (length data) (concat xs) = data"
    "length data = unat (bytes_of g)" using read_file [OF u(2) g fl assms(5)] by blast
  then show ?thesis using t(1) u(1)
    by (intro exI [of _ t] exI [of _ "\<lparr>f_name = name, f_start = s_start g, f_size = s_size g\<rparr>"] exI [of _ u] exI [of _ xs] exI [of _ v]) (simp add: bytes_of_def)
qed

theorem fs_write_read_witness:
  "\<exists>t f u xs v. fs_write ram_io [97] [1, 2, 3] fs_machine = Some (Inr (), t) \<and> fs_stat ram_io [97] t = Some (Inr f, u) \<and>
     fs_read_many ram_io (f_start f) 0 (sectors_for (f_size f AND NOT FS_LINK)) u = Some (Inr xs, v) \<and> take 3 (concat xs) = [1, 2, 3]"
  using fs_write_read [OF fs_machine_mounted, of "[97]" "[97]" "[1, 2, 3]"] plain_path [of Map.empty True] plain_store [of "Suc (Suc (Suc 0))"]
  by (auto simp: empty_files fs_machine_fields numeral_3_eq_3)

text \<open>
  C13. Finding a name through the index gives what looking at every entry of the table would: on a disk
  whose index is in order, \<open>find\<close> always returns, with the entry of that name if there is one.
\<close>

theorem fs_find_is_lookup:
  assumes "knows io whole base limit d h s" "fs_inv limit d h" "0 \<notin> set name"
  shows "\<exists>t. fs_find io name s = Some (lookup d h name, t) \<and> knows io whole base limit d h t"
  using fs_find_spec [OF assms] by blast

theorem fs_find_is_lookup_witness:
  "\<exists>t. fs_find ram_io [97, 98] fs_machine = Some (None, t)"
proof -
  have "lookup blank_disk empty_header [97, 98] = None" by (simp add: lookup_def empty_header_def)
  then show ?thesis using fs_find_is_lookup [OF fs_machine_knows soundD(2) [OF empty_sound], of "[97, 98]"] by auto
qed

text \<open>
  A folder is to go only once there is nothing left in it, and \<open>fs_remove\<close> looks only when its path gives the
  folder's name without the slash: given with one, as in \<open>a/\<close>, the entry is found at once and dropped, and
  what was in the folder stays behind.
\<close>

lemma slash_path:
  assumes "\<nexists>t. m [97] = Some (True, t)"
  shows "path_name m [] [97, 47] False = Inr [97, 47]"
proof -
  have f: "first_part [97, 47] = [97]" "tail_of [97, 47] = [47]" "past_part [97, 47] = []" by (simp_all add: first_part_def tail_of_def past_part_def slash_def)
  have "walk_step m False 0 [] [97, 47] = Inr (0, [97, 47], [])"
    using assms by (auto simp: walk_step_def f FS_NAME_LEN_def slash_def split: option.split bool.splits)
  then show ?thesis by (simp add: path_name_def path_any_def path_walk.simps WALK_MAX_def FS_NAME_LEN_def)
qed

lemma full_folder_goes:
  assumes m: "mounted io whole base limit d h s" and c: "cwd s = []" and f: "files d h [97, 47] = Some (False, [])" "files d h ([97, 47] @ inside) = Some g"
    and r: "inside \<noteq> []" "\<nexists>t. files d h [97] = Some (True, t)"
  shows "\<exists>t d' h'. fs_remove io [97, 47] s = Some (Inr (), t) \<and> mounted io whole base limit d' h' t \<and>
    files d' h' [97, 47] = None \<and> files d' h' ([97, 47] @ inside) = Some g"
proof -
  have "path_name (files d h) (cwd s) [97, 47] False = Inr [97, 47]" using slash_path [of "files d h"] r(2) c by simp
  from fs_remove_spec [OF m _ this] show ?thesis using f r(1) by fastforce
qed

text \<open>
  C16. Removing a file is removing it from the map of files: for a path whose name has an entry \<open>fs_remove\<close>
  succeeds, the name is gone, every other file as it was, and the disk is sound again with the entry empty
  and first on the chain of free ones. A path that ends in a slash has a folder's name, which is found as a
  file's is: that folder goes whatever it holds (\<open>full_folder_goes\<close>).
\<close>

theorem fs_remove_refines:
  assumes "mounted io whole base limit d h s" "0 \<notin> set path" "path_name (files d h) (cwd s) path False = Inr name"
    "name \<in> dom (files d h)"
  shows "\<exists>t d' h'. fs_remove io path s = Some (Inr (), t) \<and> mounted io whole base limit d' h' t \<and> header_of (d' 1) = h' \<and>
    cwd t = cwd s \<and> files d' h' = (files d h)(name := None) \<and> freed d h d' h' name"
  using fs_remove_spec [OF assms] .

theorem fs_remove_refines_witness:
  "\<exists>s d h t d' h'. fs_write ram_io [97] [1, 2, 3] fs_machine = Some (Inr (), s) \<and> fs_remove ram_io [97] s = Some (Inr (), t) \<and>
     mounted ram_io (\<lambda>f. f) 2048 100 d' h' t \<and> files d' h' = Map.empty \<and> freed d h d' h' [97] \<and> files d h [97] = Some (False, [1, 2, 3])"
proof -
  obtain s d h where s: "fs_write ram_io [97] [1, 2, 3] fs_machine = Some (Inr (), s)" "mounted ram_io (\<lambda>f. f) 2048 100 d h s" "cwd s = []"
    "files d h = [[97] \<mapsto> (False, [1, 2, 3])]"
    using fs_write_spec [OF fs_machine_mounted, of "[97]" "[97]" "[1, 2, 3]"] plain_path [of Map.empty True] plain_store [of "Suc (Suc (Suc 0))"]
    by (auto simp: empty_files fs_machine_fields makes_def)
  have "path_name (files d h) (cwd s) [97] False = Inr [97]" using s(3,4) plain_path by simp
  then show ?thesis using fs_remove_refines [OF s(2), of "[97]" "[97]"] s by fastforce
qed

text \<open>
  C14. Turning a path into a name always returns, whatever links the disk holds (one that leads back to
  itself is refused after forty), changes nothing on the disk, and gives what the map of files says the
  path names.
\<close>

theorem resolve_is_path_name:
  assumes "mounted io whole base limit d h s" "0 \<notin> set path"
  shows "\<exists>t. resolve io path deref s = Some (path_name (files d h) (cwd s) path deref, t) \<and> mounted io whole base limit d h t \<and> cwd t = cwd s"
  using resolve_mounted [OF assms] by metis

theorem resolve_is_path_name_witness:
  "\<exists>t. resolve ram_io [97] False fs_machine = Some (Inr [97], t)"
  using resolve_is_path_name [OF fs_machine_mounted, of "[97]" False] plain_path [of Map.empty False]
  by (auto simp: empty_files fs_machine_fields)

text \<open>
  C32. Making a folder is entering its name, with a slash at its end, in the map of files: it succeeds
  where nothing has the name with or without the slash, the folder it goes in is there, the name with the
  slash fits an entry (two bytes short of its 120), and the new entry needs no growth: one is free in the
  table as it is and the index is at most half full with its record (\<open>has_room\<close>).
\<close>

theorem fs_mkdir_refines:
  assumes "mounted io whole base limit d h s" "0 \<notin> set path" "path_name (files d h) (cwd s) path False = Inr name"
    "length name + 2 \<le> FS_NAME_LEN" "butlast (folder_name name) \<notin> dom (files d h)" "folder_name name \<notin> dom (files d h)"
    "parent_of (folder_name name) = [] \<or> parent_of (folder_name name) \<in> dom (files d h)" "has_room h 0 True"
  shows "\<exists>t d' h'. fs_mkdir io path s = Some (Inr (), t) \<and> mounted io whole base limit d' h' t \<and> header_of (d' 1) = h' \<and>
    cwd t = cwd s \<and> files d' h' = (files d h)(folder_name name \<mapsto> (False, []))"
  using fs_mkdir_spec [OF assms] unfolding makes_def .

theorem fs_mkdir_refines_witness:
  "\<exists>t d' h'. fs_mkdir ram_io [97] fs_machine = Some (Inr (), t) \<and> header_of (d' 1) = h' \<and> files d' h' = [[97, 47] \<mapsto> (False, [])]"
proof -
  have f: "folder_name [97] = [97, 47]" "parent_of [97, 47] = []" by (simp_all add: folder_name_def slash_def parent_of_def cut_last_def)
  show ?thesis using fs_mkdir_refines [OF fs_machine_mounted, of "[97]" "[97]"] plain_path [of Map.empty False]
    by (auto simp: empty_files fs_machine_fields f empty_room sectors_of_def FS_NAME_LEN_def)
qed

text \<open>
  C33. A symbolic link is stored under its name as a link to its target, and read back as that. Where
  nothing has the name, with or without a slash after it, the name leaves two bytes of an entry's 120, the
  target is not empty and shorter than a link may be, the folder is there and the sector and the new entry
  need no gap and no growth (\<open>may_store\<close>), \<open>fs_symlink\<close> succeeds, the map of files has the link, and
  \<open>fs_readlink\<close> on any path that names that link answers the bytes of its target, cut to the room asked for.
\<close>

theorem fs_symlink_readlink:
  assumes "mounted io whole base limit d h s" "0 \<notin> set path" "path_name (files d h) (cwd s) path False = Inr name"
    "target \<noteq> []" "length target < FS_LINK_LEN" "length name + 2 \<le> FS_NAME_LEN"
    "name \<notin> dom (files d h)" "name @ [slash] \<notin> dom (files d h)" "may_store d h name (length target)"
    "path_name ((files d h)(name \<mapsto> (True, target))) (cwd s) path' False = Inr name" "0 \<notin> set path'"
  shows "\<exists>t d' h' u. fs_symlink io target path s = Some (Inr (), t) \<and> mounted io whole base limit d' h' t \<and>
    files d' h' = (files d h)(name \<mapsto> (True, target)) \<and> fs_readlink io path' most t = Some (Inr (take most target), u)"
proof -
  obtain t d' h' where t: "fs_symlink io target path s = Some (Inr (), t)" "mounted io whole base limit d' h' t" "cwd t = cwd s"
    "files d' h' = (files d h)(name \<mapsto> (True, target))"
    using fs_symlink_spec [OF assms(1-9)] unfolding makes_def by blast
  have "path_name (files d' h') (cwd t) path' False = Inr name" using assms(10) t(3,4) by simp
  moreover have "files d' h' name = Some (True, target)" "length target \<le> 512" using t(4) assms(5) by (simp_all add: FS_LINK_LEN_def)
  ultimately obtain u where "fs_readlink io path' most t = Some (Inr (take most target), u)" using fs_readlink_spec [OF t(2) assms(11)] by blast
  then show ?thesis using t by blast
qed

theorem fs_symlink_readlink_witness:
  "\<exists>t u. fs_symlink ram_io [98, 99] [97] fs_machine = Some (Inr (), t) \<and> fs_readlink ram_io [97] 100 t = Some (Inr [98, 99], u)"
proof -
  have f: "first_part [97] = [97]" "tail_of [97] = []" "past_part [97] = []" by (simp_all add: first_part_def tail_of_def past_part_def slash_def)
  have "walk_step m False 0 [] [97] = Inr (0, [97], [])" for m by (simp add: walk_step_def f FS_NAME_LEN_def)
  then have p: "path_name m [] [97] False = Inr [97]" for m by (simp add: path_name_def path_any_def path_walk.simps WALK_MAX_def FS_NAME_LEN_def)
  show ?thesis
    using fs_symlink_readlink [OF fs_machine_mounted, of "[97]" "[97]" "[98, 99]" "[97]" 100] p plain_store [of "Suc (Suc 0)"]
    by (auto simp: empty_files fs_machine_fields FS_LINK_LEN_def FS_NAME_LEN_def)
qed

text \<open>
  C34. A write that cannot be is refused with its reason and leaves the disk as it was: a path that names
  nothing with the error of the path, a folder's name (one that ends in a slash, whether the folder is
  there or not) with \<open>EINVAL\<close>, a name in a folder that is not there with \<open>ENOENT\<close>.
\<close>

theorem fs_write_refused:
  assumes "mounted io whole base limit d h s" "0 \<notin> set path"
    "path_name (files d h) (cwd s) path True = Inl e \<or>
     (\<exists>name. path_name (files d h) (cwd s) path True = Inr name \<and>
       (last name = slash \<and> e = EINVAL \<or> last name \<noteq> slash \<and> parent_of name \<noteq> [] \<and> parent_of name \<notin> dom (files d h) \<and> e = ENOENT))"
  shows "\<exists>t. fs_write io path data s = Some (Inl e, t) \<and> mounted io whole base limit d h t"
proof -
  obtain s1 where s1: "resolve io path True s = Some (path_name (files d h) (cwd s) path True, s1)" "mounted io whole base limit d h s1"
    by (rule resolve_mounted [OF assms(1,2)])
  show ?thesis
  proof (cases "path_name (files d h) (cwd s) path True")
    case (Inl e')
    then show ?thesis using s1 assms(3) by (auto simp: fs_write_def)
  next
    case (Inr name)
    note nm = path_name_fits [OF Inr mountedD(5) [OF assms(1)] assms(2)]
    obtain s2 where s2: "parent_exists io name s1 = Some (parent_of name = [] \<or> lookup d h (parent_of name) \<noteq> None, s2)"
      "knows io whole base limit d h s2" "cwd s2 = cwd s1"
      using parent_exists_spec [OF mountedD(1,3) [OF s1(2)] name_no_nul [OF nm(1)]] by blast
    have "mounted io whole base limit d h s2" by (rule mounted_same [OF s1(2) s2(2,3)])
    then show ?thesis using s1 s2(1) assms(3) Inr by (auto simp: fs_write_def store_def files_lookup)
  qed
qed

theorem fs_write_refused_witness:
  "\<exists>t. fs_write ram_io [] [1] fs_machine = Some (Inl EINVAL, t) \<and> mounted ram_io (\<lambda>f. f) 2048 100 blank_disk empty_header t"
  using fs_write_refused [OF fs_machine_mounted, of "[]" EINVAL "[1]"] by (simp add: path_name_def path_any_def)

text \<open>
  The search for a gap ends, and what it finds is the lowest place from where it starts at which
  nothing lies on the sectors wanted.
\<close>

lemma hop_lowest_gap:
  assumes "\<forall>e \<in> set exts. unat (snd e) + unat count < 2 ^ 32"
  shows "\<exists>r. hop count exts at = Some r \<and> at \<le> r \<and> (\<forall>e \<in> set exts. \<not> (fst e < r + count \<and> r < snd e)) \<and>
    (\<forall>x. at \<le> x \<and> x < r \<longrightarrow> (\<exists>e \<in> set exts. fst e < x + count \<and> x < snd e))"
  using hop_spec [of exts count at] assms unfolding no_wrap_def overlaps_def by blast

text \<open>
  A header saved is the header loaded: after \<open>save_header\<close> the disk holds it in sector 1 and nothing
  else changed, and a kernel that has forgotten its copy loads the same one.
\<close>

lemma save_header_load_table:
  assumes "ready io whole base limit d s" "1 < limit" "h_magic (head s) = FS_MAGIC"
  shows "\<exists>t d' u. save_header io s = Some (Inr (), t) \<and> ready io whole base limit d' t \<and> (\<forall>a. a \<noteq> 1 \<longrightarrow> d' a = d a) \<and>
    load_table io (t\<lparr>held_table := False, head := other\<rparr>) = Some (Inr (), u) \<and> head u = head s"
proof -
  obtain t d' where t: "save_header io s = Some (Inr (), t)" "ready io whole base limit d' t" "header_of (d' 1) = head s" "\<forall>a. a \<noteq> 1 \<longrightarrow> d' a = d a"
    using save_header_spec [OF assms(1,2)] by blast
  have "ready io whole base limit d' (t\<lparr>held_table := False, head := other\<rparr>)" using t(2) by simp
  from load_table_spec [OF this assms(2) t(3) assms(3)] obtain u where
    "load_table io (t\<lparr>held_table := False, head := other\<rparr>) = Some (Inr (), u)" "head u = head s" by auto
  then show ?thesis using t by blast
qed

text \<open>
  What \<open>fs_inside\<close> says is directly in a folder is exactly what has the folder's name, something after
  it, and in that no slash but perhaps at the end.
\<close>

theorem fs_inside_spec:
  "fs_inside folder name = Some inner \<longleftrightarrow> name = folder @ inner \<and> inner \<noteq> [] \<and> slash \<notin> set (butlast inner)"
proof -
  have s: "starts_with n f \<longleftrightarrow> (\<exists>r. n = f @ r)" for n f by (induction n f rule: starts_with.induct) auto
  have d: "deeper r \<longleftrightarrow> slash \<in> set (butlast r)" for r by (induction r) auto
  show ?thesis by (auto simp: fs_inside_def s d)
qed
end
