(* ===== verification/Arrays.thy ===== *)
theory Arrays
  imports Prelude "HOL-Library.Monad_Syntax"
begin

text \<open>
  Array accesses and counted loops for the components that keep C arrays as lists: \<open>rd\<close> and \<open>wr\<close> give
  \<^const>\<open>None\<close> outside the array, the access the C code must never make. \<open>gives\<close> states that a
  computation ends well, in its result: the rules that carry the proofs through \<open>do\<close> blocks.
\<close>

section \<open>Arrays\<close>

definition rd :: "'a list \<Rightarrow> nat \<Rightarrow> 'a option" where
  "rd xs i = (if i < length xs then Some (xs ! i) else None)"

definition wr :: "'a list \<Rightarrow> nat \<Rightarrow> 'a \<Rightarrow> 'a list option" where
  "wr xs i v = (if i < length xs then Some (xs[i := v]) else None)"

text \<open>\<open>memcpy\<close> out of and into an array: \<open>n\<close> elements from \<open>i\<close>, and \<open>ys\<close> put at \<open>i\<close>.\<close>

definition slice :: "'a list \<Rightarrow> nat \<Rightarrow> nat \<Rightarrow> 'a list option" where
  "slice xs i n = (if i + n \<le> length xs then Some (take n (drop i xs)) else None)"

definition blit :: "'a list \<Rightarrow> nat \<Rightarrow> 'a list \<Rightarrow> 'a list option" where
  "blit xs i ys =
    (if i + length ys \<le> length xs then Some (take i xs @ ys @ drop (i + length ys) xs) else None)"

section \<open>Counted loops\<close>

text \<open>A \<open>for\<close> loop over the given indices, which the body may leave only by a bad access.\<close>

primrec for_each :: "nat list \<Rightarrow> (nat \<Rightarrow> 's \<Rightarrow> 's option) \<Rightarrow> 's \<Rightarrow> 's option" where
  "for_each [] f s = Some s"
| "for_each (i # is) f s = do { s1 \<leftarrow> f i s; for_each is f s1 }"

section \<open>Results\<close>

definition gives :: "'a option \<Rightarrow> ('a \<Rightarrow> bool) \<Rightarrow> bool" where
  "gives m P \<longleftrightarrow> (case m of None \<Rightarrow> False | Some r \<Rightarrow> P r)"

lemma gives_simps [simp]: "gives (Some r) P \<longleftrightarrow> P r" "\<not> gives None P"
  by (simp_all add: gives_def)

lemma gives_iff: "gives m P \<longleftrightarrow> (\<exists>r. m = Some r \<and> P r)"
  by (cases m) auto

lemma gives_bind: "gives (m \<bind> f) P \<longleftrightarrow> gives m (\<lambda>r. gives (f r) P)"
  by (cases m) auto

lemma gives_mono: "gives m P \<Longrightarrow> (\<And>r. m = Some r \<Longrightarrow> P r \<Longrightarrow> Q r) \<Longrightarrow> gives m Q"
  by (cases m) auto

lemma gives_then: "gives m P \<Longrightarrow> (\<And>r. m = Some r \<Longrightarrow> P r \<Longrightarrow> gives (f r) Q) \<Longrightarrow> gives (m \<bind> f) Q"
  by (cases m) auto

text \<open>The same for a pair of a value and a state, the shape of nearly every step.\<close>

lemma gives_step:
  "gives m (\<lambda>(a, t). P a t) \<Longrightarrow> (\<And>a t. P a t \<Longrightarrow> gives (f a t) Q) \<Longrightarrow> gives (m \<bind> (\<lambda>(a, t). f a t)) Q"
  by (cases m) auto

lemma gives_step2:
  "gives m (\<lambda>((a, b), t). P a b t) \<Longrightarrow> (\<And>a b t. P a b t \<Longrightarrow> gives (f a b t) Q) \<Longrightarrow>
   gives (m \<bind> (\<lambda>((a, b), t). f a b t)) Q"
  by (cases m) auto

lemma gives_mono2:
  "gives m (\<lambda>((a, b), t). P a b t) \<Longrightarrow> (\<And>a b t. m = Some ((a, b), t) \<Longrightarrow> P a b t \<Longrightarrow> Q a b t) \<Longrightarrow>
   gives m (\<lambda>((a, b), t). Q a b t)"
  by (cases m) auto

lemma rd_simp [simp]: "i < length xs \<Longrightarrow> rd xs i = Some (xs ! i)"
  by (simp add: rd_def)

lemma wr_simp [simp]: "i < length xs \<Longrightarrow> wr xs i v = Some (xs[i := v])"
  by (simp add: wr_def)

lemma gives_for_each:
  assumes "\<And>i t. i \<in> set is \<Longrightarrow> P t \<Longrightarrow> gives (f i t) P" "P s"
  shows "gives (for_each is f s) P"
  using assms
proof (induction "is" arbitrary: s)
  case (Cons i "is")
  have "gives (f i s) P" using Cons.prems by simp
  then show ?case unfolding for_each.simps by (rule gives_then) (use Cons in simp)
qed simp

end
