(* ===== verification/Source.thy ===== *)
theory Source
  imports Arrays
begin

text \<open>
  The byte sources and the output window of the package manager's decompressors
  (\<open>src/tuxpac/unpack.c\<close>, \<open>src/tuxpac/tuxpac.h\<close>). Every operation that reads or writes an array
  does so through \<open>rd\<close> and \<open>wr\<close>, which give \<^const>\<open>None\<close> outside the array: \<^const>\<open>None\<close> is the
  access the C code must never make. A loop whose end depends on its input takes fuel, and running
  out of it is \<^const>\<open>None\<close> too, so that a result \<^term>\<open>Some r\<close> says both that the code returned
  and that it stayed inside its arrays.
\<close>

section \<open>Sources\<close>

text \<open>
  \<open>struct source\<close>. The \<open>fill\<close> pointer is \<open>i_fill\<close> (not \<open>NULL\<close>) and the function \<open>host_fill\<close> of the
  host; \<open>i_world\<close> stands for the state outside the decoder: the file or socket that is read, what
  the sink has done with its bytes, the memory that is mapped.
\<close>

record 'e source =
  i_buf :: "u8 list"
  i_pos :: u32
  i_len :: u32
  i_cap :: u32
  i_count :: u64
  i_bad :: bool
  i_fill :: bool
  i_at :: u32
  i_end :: u32
  i_fd :: int
  i_left :: u64
  i_world :: 'e

text \<open>
  What the decoders call: the source's \<open>fill\<close>, the sink, and \<open>xalloc\<close> (whether \<open>mmap\<close> gave the
  memory, which anonymous mappings hand out zeroed) and \<open>xfree\<close>.
\<close>

record 'e host =
  host_fill :: "'e source \<Rightarrow> u32 \<times> 'e source"
  host_sink :: "u8 list \<Rightarrow> 'e \<Rightarrow> bool \<times> 'e"
  host_alloc :: "u64 \<Rightarrow> 'e \<Rightarrow> bool \<times> 'e"
  host_free :: "'e \<Rightarrow> 'e"

text \<open>The condition both readers test first: nothing buffered and nothing to be had.\<close>

definition dry :: "'e host \<Rightarrow> 'e source \<Rightarrow> bool \<times> 'e source" where
  "dry io s =
    (if i_pos s \<noteq> i_len s then (False, s)
     else if i_bad s \<or> \<not> i_fill s then (True, s)
     else let (n, s1) = host_fill io s in (n = 0, s1))"

definition src_byte :: "'e host \<Rightarrow> 'e source \<Rightarrow> (u8 \<times> 'e source) option" where
  "src_byte io s =
    (let (d, s1) = dry io s
     in if d then Some (0, s1\<lparr>i_bad := True\<rparr>)
        else do {
          b \<leftarrow> rd (i_buf s1) (unat (i_pos s1));
          Some (b, s1\<lparr>i_pos := i_pos s1 + 1, i_count := i_count s1 + 1\<rparr>)
        })"

text \<open>
  The bytes copied so far are \<open>got\<close>; a call with \<open>out == NULL\<close> drops them. Every pass takes at least
  one byte when \<open>fill\<close> keeps its word, so \<open>n\<close> passes are enough.
\<close>

fun src_read_loop :: "'e host \<Rightarrow> nat \<Rightarrow> u32 \<Rightarrow> u8 list \<Rightarrow> 'e source \<Rightarrow> ((bool \<times> u8 list) \<times> 'e source) option" where
  "src_read_loop io fuel n got s =
    (if n = 0 then Some ((True, got), s)
     else case fuel of
       0 \<Rightarrow> None
     | Suc fuel' \<Rightarrow>
       (let (d, s1) = dry io s
        in if d then Some ((False, got), s1\<lparr>i_bad := True\<rparr>)
           else let k = (if i_len s1 - i_pos s1 < n then i_len s1 - i_pos s1 else n)
                in if unat (i_pos s1) + unat k \<le> length (i_buf s1)
                   then src_read_loop io fuel' (n - k)
                          (got @ take (unat k) (drop (unat (i_pos s1)) (i_buf s1)))
                          (s1\<lparr>i_pos := i_pos s1 + k, i_count := i_count s1 + ucast k\<rparr>)
                   else None))"

declare src_read_loop.simps [simp del]

definition src_read :: "'e host \<Rightarrow> u32 \<Rightarrow> 'e source \<Rightarrow> ((bool \<times> u8 list) \<times> 'e source) option" where
  "src_read io n s = src_read_loop io (unat n) n [] s"

text \<open>
  A file behind a source. \<open>pread fd want at w\<close> is the system call: its result and the bytes it put at
  the start of the buffer.
\<close>

definition file_fill :: "(int \<Rightarrow> u32 \<Rightarrow> u32 \<Rightarrow> 'e \<Rightarrow> int \<times> u8 list \<times> 'e) \<Rightarrow> 'e source \<Rightarrow> u32 \<times> 'e source" where
  "file_fill pread s =
    (let want = (if i_end s - i_at s < i_cap s then i_end s - i_at s else i_cap s);
         (got, bs, w) = (if i_at s < i_end s then pread (i_fd s) want (i_at s) (i_world s)
                         else (0, [], i_world s));
         s1 = s\<lparr>i_buf := bs @ drop (length bs) (i_buf s), i_world := w\<rparr>
     in if got \<le> 0 then (0, s1)
        else (word_of_int got,
              s1\<lparr>i_pos := 0, i_len := word_of_int got, i_at := i_at s1 + word_of_int got\<rparr>))"

definition src_file :: "'e source \<Rightarrow> int \<Rightarrow> u32 \<Rightarrow> u32 \<Rightarrow> 'e source" where
  "src_file s fd at end =
    s\<lparr>i_fd := fd, i_at := at, i_end := end, i_pos := 0, i_len := 0, i_count := 0,
      i_bad := False, i_fill := True\<rparr>"

section \<open>The state of the decoders\<close>

record huff =
  h_count :: "u16 list"
  h_symbol :: "u16 list"

text \<open>
  The file's static variables. \<open>win\<close> is \<^const>\<open>None\<close> for the null pointer; \<open>bitcnt\<close>, \<open>lc\<close>, \<open>lp\<close>,
  \<open>pb\<close> and \<open>lstate\<close> (\<open>state\<close> in the code) are unsigned integers that never pass a few dozen, as
  the invariants say; \<open>rep[4]\<close> is four fields, \<open>xz_head\<close> the buffer \<open>h\<close> that \<open>unxz\<close> keeps.
\<close>

record 'e unpacker =
  inp :: "'e source"
  win :: "u8 list option"
  wsize :: u32
  wpos :: u32
  total :: u64
  wstop :: bool
  bitbuf :: u32
  bitcnt :: nat
  lencode :: huff
  distcode :: huff
  lengths :: "u16 list"
  rc_range :: u32
  rc_code :: u32
  rep0 :: u32
  rep1 :: u32
  rep2 :: u32
  rep3 :: u32
  lc :: nat
  lp :: nat
  pb :: nat
  lstate :: nat
  xz_head :: "u8 list"

definition byte_in :: "'e host \<Rightarrow> 'e unpacker \<Rightarrow> (u8 \<times> 'e unpacker) option" where
  "byte_in io s = do { (b, i) \<leftarrow> src_byte io (inp s); Some (b, s\<lparr>inp := i\<rparr>) }"

definition read_in :: "'e host \<Rightarrow> u32 \<Rightarrow> 'e unpacker \<Rightarrow> ((bool \<times> u8 list) \<times> 'e unpacker) option" where
  "read_in io n s = do { (r, i) \<leftarrow> src_read io n (inp s); Some (r, s\<lparr>inp := i\<rparr>) }"

abbreviation bad :: "'e unpacker \<Rightarrow> bool" where
  "bad s \<equiv> i_bad (inp s)"

section \<open>The window\<close>

definition sink_call :: "'e host \<Rightarrow> u8 list \<Rightarrow> 'e unpacker \<Rightarrow> bool \<times> 'e unpacker" where
  "sink_call io bs s =
    (let (ok, w) = host_sink io bs (i_world (inp s)) in (ok, s\<lparr>inp := (inp s)\<lparr>i_world := w\<rparr>\<rparr>))"

definition xalloc :: "'e host \<Rightarrow> u64 \<Rightarrow> 'e unpacker \<Rightarrow> bool \<times> 'e unpacker" where
  "xalloc io n s =
    (let (ok, w) = host_alloc io n (i_world (inp s)) in (ok, s\<lparr>inp := (inp s)\<lparr>i_world := w\<rparr>\<rparr>))"

definition xfree :: "'e host \<Rightarrow> 'e unpacker \<Rightarrow> 'e unpacker" where
  "xfree io s = s\<lparr>inp := (inp s)\<lparr>i_world := host_free io (i_world (inp s))\<rparr>\<rparr>"

definition window_open :: "'e host \<Rightarrow> u32 \<Rightarrow> 'e unpacker \<Rightarrow> bool \<times> 'e unpacker" where
  "window_open io n s =
    (let (ok, s1) = xalloc io (ucast n) (s\<lparr>wsize := n, wpos := 0, total := 0, wstop := False\<rparr>)
     in (ok, s1\<lparr>win := if ok then Some (replicate (unat n) 0) else None\<rparr>))"

definition window_close :: "'e host \<Rightarrow> bool \<Rightarrow> 'e unpacker \<Rightarrow> bool \<times> 'e unpacker" where
  "window_close io ok s =
    (let s1 = (case win s of
                 None \<Rightarrow> s
               | Some w \<Rightarrow>
                   if ok \<and> \<not> wstop s \<and> 0 < wpos s
                   then let (took, s0) = sink_call io (take (unat (wpos s)) w) s
                        in if took then s0 else s0\<lparr>wstop := True\<rparr>
                   else s);
         s2 = (if win s1 \<noteq> None then xfree io s1 else s1)\<lparr>win := None\<rparr>
     in (ok \<and> \<not> wstop s2 \<and> \<not> bad s2, s2))"

definition put :: "'e host \<Rightarrow> u8 \<Rightarrow> 'e unpacker \<Rightarrow> 'e unpacker option" where
  "put io b s = do {
     w \<leftarrow> win s;
     w1 \<leftarrow> wr w (unat (wpos s)) b;
     let s1 = s\<lparr>win := Some w1, wpos := wpos s + 1, total := total s + 1\<rparr>;
     if wpos s1 = wsize s1
     then let (took, s2) = sink_call io (take (unat (wsize s1)) w1) s1
          in Some (s2\<lparr>wstop := wstop s2 \<or> \<not> took, wpos := 0\<rparr>)
     else Some s1
   }"

definition win_back :: "u32 \<Rightarrow> 'e unpacker \<Rightarrow> u8 option" where
  "win_back d s = do {
     w \<leftarrow> win s;
     rd w (unat (if d \<le> wpos s then wpos s - d else wpos s + wsize s - d))
   }"

primrec copy_loop :: "'e host \<Rightarrow> u32 \<Rightarrow> nat \<Rightarrow> 'e unpacker \<Rightarrow> 'e unpacker option" where
  "copy_loop io d 0 s = Some s"
| "copy_loop io d (Suc n) s = do { b \<leftarrow> win_back d s; s1 \<leftarrow> put io b s; copy_loop io d n s1 }"

definition copy :: "'e host \<Rightarrow> u32 \<Rightarrow> u32 \<Rightarrow> 'e unpacker \<Rightarrow> (bool \<times> 'e unpacker) option" where
  "copy io d n s =
    (if d = 0 \<or> total s < ucast d \<or> wsize s < d then Some (False, s)
     else do { s1 \<leftarrow> copy_loop io d (unat n) s; Some (True, s1) })"

end
