(* ===== verification/Inflate.thy ===== *)
theory Inflate
  imports Source
begin

text \<open>
  The gzip half of \<open>src/tuxpac/unpack.c\<close>: the bit reader, canonical Huffman codes, the three kinds of
  deflate block and \<open>gunzip\<close>. The C \<open>int\<close>s that count codes and symbols stay below \<open>2 ^ 16\<close> and
  are integers here.
\<close>

section \<open>Bits\<close>

lemma byte_in_bitcnt: "byte_in io s = Some (b, t) \<Longrightarrow> bitcnt t = bitcnt s"
  by (auto simp: byte_in_def split: bind_splits)

function bits_fill :: "'e host \<Rightarrow> nat \<Rightarrow> u32 \<Rightarrow> 'e unpacker \<Rightarrow> (u32 \<times> 'e unpacker) option" where
  "bits_fill io need v s =
    (if bitcnt s < need
     then do {
       (b, s1) \<leftarrow> byte_in io s;
       bits_fill io need (v OR push_bit (bitcnt s) (ucast b)) (s1\<lparr>bitcnt := bitcnt s1 + 8\<rparr>)
     }
     else Some (v, s))"
  by pat_completeness auto
termination
  by (relation "measure (\<lambda>(io, need, v, s). need - bitcnt s)") (auto simp: byte_in_bitcnt)

declare bits_fill.simps [simp del]

definition bits :: "'e host \<Rightarrow> nat \<Rightarrow> 'e unpacker \<Rightarrow> (u32 \<times> 'e unpacker) option" where
  "bits io need s = do {
     (v, s1) \<leftarrow> bits_fill io need (bitbuf s) s;
     Some (v AND (push_bit need 1 - 1),
           s1\<lparr>bitbuf := drop_bit need v, bitcnt := bitcnt s1 - need\<rparr>)
   }"

section \<open>Huffman codes\<close>

definition rd_int :: "'a list \<Rightarrow> int \<Rightarrow> 'a option" where
  "rd_int xs i = (if 0 \<le> i then rd xs (nat i) else None)"

primrec decode_loop :: "'e host \<Rightarrow> huff \<Rightarrow> nat list \<Rightarrow> int \<Rightarrow> int \<Rightarrow> int \<Rightarrow> 'e unpacker \<Rightarrow> (int \<times> 'e unpacker) option" where
  "decode_loop io h [] code first index s = Some (- 1, s)"
| "decode_loop io h (l # ls) code first index s = do {
     (b, s1) \<leftarrow> bits io 1 s;
     let code1 = code OR uint b;
     c \<leftarrow> rd (h_count h) l;
     let count = uint c;
     if code1 - count < first
     then do { sy \<leftarrow> rd_int (h_symbol h) (index + (code1 - first)); Some (uint sy, s1) }
     else decode_loop io h ls (2 * code1) (2 * (first + count)) (index + count) s1
   }"

definition decode :: "'e host \<Rightarrow> huff \<Rightarrow> 'e unpacker \<Rightarrow> (int \<times> 'e unpacker) option" where
  "decode io h s = decode_loop io h [1..<16] 0 0 0 s"

text \<open>The code space left over after each length; negative as soon as too much of it is used.\<close>

primrec left_over :: "nat list \<Rightarrow> u16 list \<Rightarrow> int \<Rightarrow> int option" where
  "left_over [] c left = Some left"
| "left_over (l # ls) c left = do {
     v \<leftarrow> rd c l;
     let left1 = 2 * left - uint v;
     if left1 < 0 then Some left1 else left_over ls c left1
   }"

definition count_step :: "u16 list \<Rightarrow> nat \<Rightarrow> u16 list \<Rightarrow> u16 list option" where
  "count_step ls i c = do { l \<leftarrow> rd ls i; v \<leftarrow> rd c (unat l); wr c (unat l) (v + 1) }"

definition offs_step :: "u16 list \<Rightarrow> nat \<Rightarrow> u16 list \<Rightarrow> u16 list option" where
  "offs_step c l offs = do { a \<leftarrow> rd offs l; b \<leftarrow> rd c l; wr offs (l + 1) (a + b) }"

definition symbol_step :: "u16 list \<Rightarrow> nat \<Rightarrow> u16 list \<times> u16 list \<Rightarrow> (u16 list \<times> u16 list) option" where
  "symbol_step ls i = (\<lambda>(offs, syms). do {
     l \<leftarrow> rd ls i;
     if l \<noteq> 0
     then do {
       a \<leftarrow> rd offs (unat l);
       syms1 \<leftarrow> wr syms (unat a) (of_nat i);
       offs1 \<leftarrow> wr offs (unat l) (a + 1);
       Some (offs1, syms1)
     }
     else Some (offs, syms)
   })"

definition construct :: "huff \<Rightarrow> u16 list \<Rightarrow> nat \<Rightarrow> (int \<times> huff) option" where
  "construct h ls n = do {
     c \<leftarrow> for_each [0..<n] (count_step ls) (replicate 16 0);
     z \<leftarrow> rd c 0;
     if unat z = n then Some (0, h\<lparr>h_count := c\<rparr>)
     else do {
       left \<leftarrow> left_over [1..<16] c 1;
       if left < 0 then Some (left, h\<lparr>h_count := c\<rparr>)
       else do {
         offs \<leftarrow> for_each [1..<15] (offs_step c) (replicate 16 0);
         (offs1, syms) \<leftarrow> for_each [0..<n] (symbol_step ls) (offs, h_symbol h);
         Some (left, h\<lparr>h_count := c, h_symbol := syms\<rparr>)
       }
     }
   }"

section \<open>Compressed blocks\<close>

definition lbase :: "u32 list" where
  "lbase = [3, 4, 5, 6, 7, 8, 9, 10, 11, 13, 15, 17, 19, 23, 27, 31,
            35, 43, 51, 59, 67, 83, 99, 115, 131, 163, 195, 227, 258]"

definition lext :: "nat list" where
  "lext = [0, 0, 0, 0, 0, 0, 0, 0, 1, 1, 1, 1, 2, 2, 2, 2, 3, 3, 3, 3, 4, 4, 4, 4, 5, 5, 5, 5, 0]"

definition dbase :: "u32 list" where
  "dbase = [1, 2, 3, 4, 5, 7, 9, 13, 17, 25, 33, 49, 65, 97, 129, 193, 257, 385, 513, 769,
            1025, 1537, 2049, 3073, 4097, 6145, 8193, 12289, 16385, 24577]"

definition dext :: "nat list" where
  "dext = [0, 0, 0, 0, 1, 1, 2, 2, 3, 3, 4, 4, 5, 5, 6, 6, 7, 7, 8, 8, 9, 9, 10, 10,
           11, 11, 12, 12, 13, 13]"

text \<open>A length and distance pair: what follows a symbol above 256.\<close>

definition pair_step :: "'e host \<Rightarrow> int \<Rightarrow> 'e unpacker \<Rightarrow> (bool \<times> 'e unpacker) option" where
  "pair_step io sy s =
    (if 29 \<le> sy then Some (False, s)
     else do {
       base \<leftarrow> rd_int lbase sy;
       extra \<leftarrow> rd_int lext sy;
       (b, s1) \<leftarrow> bits io extra s;
       (d, s2) \<leftarrow> decode io (distcode s1) s1;
       if d < 0 \<or> 30 \<le> d then Some (False, s2)
       else do {
         dist \<leftarrow> rd_int dbase d;
         more \<leftarrow> rd_int dext d;
         (c, s3) \<leftarrow> bits io more s2;
         copy io (dist + c) (base + b) s3
       }
     })"

primrec codes :: "'e host \<Rightarrow> nat \<Rightarrow> 'e unpacker \<Rightarrow> (bool \<times> 'e unpacker) option" where
  "codes io 0 s = None"
| "codes io (Suc fuel) s = do {
     (sy, s1) \<leftarrow> decode io (lencode s) s;
     if sy < 0 \<or> bad s1 \<or> wstop s1 then Some (False, s1)
     else if sy < 256 then do { s2 \<leftarrow> put io (word_of_int sy) s1; codes io fuel s2 }
     else if sy = 256 then Some (True, s1)
     else do {
       (ok, s2) \<leftarrow> pair_step io (sy - 257) s1;
       if ok then codes io fuel s2 else Some (False, s2)
     }
   }"

text \<open>Bytes from the input straight to the output: a stored block's, and an LZMA2 chunk's.\<close>

primrec pass :: "'e host \<Rightarrow> nat \<Rightarrow> 'e unpacker \<Rightarrow> 'e unpacker option" where
  "pass io 0 s = Some s"
| "pass io (Suc n) s =
    (if bad s then Some s else do { (b, s1) \<leftarrow> byte_in io s; s2 \<leftarrow> put io b s1; pass io n s2 })"

definition stored :: "'e host \<Rightarrow> 'e unpacker \<Rightarrow> (bool \<times> 'e unpacker) option" where
  "stored io s0 = do {
     let s = s0\<lparr>bitbuf := 0, bitcnt := 0\<rparr>;
     (l0, s1) \<leftarrow> byte_in io s;
     (l1, s2) \<leftarrow> byte_in io s1;
     (n0, s3) \<leftarrow> byte_in io s2;
     (n1, s4) \<leftarrow> byte_in io s3;
     let len = (ucast l0 OR push_bit 8 (ucast l1) :: u32);
     let nlen = (ucast n0 OR push_bit 8 (ucast n1) :: u32);
     if len \<noteq> NOT nlen AND 0xFFFF then Some (False, s4)
     else do { s5 \<leftarrow> pass io (unat len) s4; Some (\<not> bad s5, s5) }
   }"

definition set_lengths :: "nat list \<Rightarrow> u16 \<Rightarrow> u16 list \<Rightarrow> u16 list option" where
  "set_lengths is v ls = for_each is (\<lambda>i ls. wr ls i v) ls"

definition fixed_block :: "'e host \<Rightarrow> nat \<Rightarrow> 'e unpacker \<Rightarrow> (bool \<times> 'e unpacker) option" where
  "fixed_block io fuel s = do {
     ls \<leftarrow> set_lengths [0..<144] 8 (lengths s);
     ls \<leftarrow> set_lengths [144..<256] 9 ls;
     ls \<leftarrow> set_lengths [256..<280] 7 ls;
     ls \<leftarrow> set_lengths [280..<288] 8 ls;
     (_, lh) \<leftarrow> construct (lencode s) ls 288;
     ls \<leftarrow> set_lengths [0..<30] 5 ls;
     (_, dh) \<leftarrow> construct (distcode s) ls 30;
     codes io fuel (s\<lparr>lengths := ls, lencode := lh, distcode := dh\<rparr>)
   }"

definition order :: "nat list" where
  "order = [16, 17, 18, 0, 8, 7, 9, 6, 10, 5, 11, 4, 12, 3, 13, 2, 14, 1, 15]"

text \<open>The lengths of the code-length code, three bits each.\<close>

definition order_step :: "'e host \<Rightarrow> nat \<Rightarrow> nat \<Rightarrow> 'e unpacker \<Rightarrow> 'e unpacker option" where
  "order_step io ncode i s = do {
     o1 \<leftarrow> rd order i;
     (v, s1) \<leftarrow> (if i < ncode then bits io 3 s else Some (0, s));
     ls \<leftarrow> wr (lengths s1) o1 (ucast v);
     Some (s1\<lparr>lengths := ls\<rparr>)
   }"

text \<open>
  How often a length is repeated, and which: 16 repeats the one before, 17 and 18 give zeroes.
  \<^const>\<open>None\<close> inside: there is none before.
\<close>

definition repeat_of :: "'e host \<Rightarrow> int \<Rightarrow> nat \<Rightarrow> 'e unpacker \<Rightarrow> ((u16 \<times> nat) option \<times> 'e unpacker) option" where
  "repeat_of io sy index s =
    (if sy = 16
     then if index = 0 then Some (None, s)
          else do {
            len \<leftarrow> rd (lengths s) (index - 1);
            (b, s1) \<leftarrow> bits io 2 s;
            Some (Some (len, 3 + unat b), s1)
          }
     else if sy = 17 then do { (b, s1) \<leftarrow> bits io 3 s; Some (Some (0, 3 + unat b), s1) }
     else do { (b, s1) \<leftarrow> bits io 7 s; Some (Some (0, 11 + unat b), s1) })"

lemma repeat_of_pos: "repeat_of io sy index s = Some (Some (len, n), t) \<Longrightarrow> 3 \<le> n"
  by (auto simp: repeat_of_def split: if_splits bind_splits)

text \<open>The loop over the lengths of both codes: \<open>most = nlen + ndist\<close> of them.\<close>

function read_lengths :: "'e host \<Rightarrow> nat \<Rightarrow> nat \<Rightarrow> 'e unpacker \<Rightarrow> (bool \<times> 'e unpacker) option" where
  "read_lengths io most index s =
    (if index < most
     then do {
       (sy, s1) \<leftarrow> decode io (lencode s) s;
       if sy < 0 \<or> bad s1 then Some (False, s1)
       else if sy < 16
       then do {
         ls \<leftarrow> wr (lengths s1) index (word_of_int sy);
         read_lengths io most (index + 1) (s1\<lparr>lengths := ls\<rparr>)
       }
       else do {
         (r, s2) \<leftarrow> repeat_of io sy index s1;
         case r of
           None \<Rightarrow> Some (False, s2)
         | Some (len, n) \<Rightarrow>
             if most < index + n then Some (False, s2)
             else do {
               ls \<leftarrow> set_lengths [index..<index + n] len (lengths s2);
               read_lengths io most (index + n) (s2\<lparr>lengths := ls\<rparr>)
             }
       }
     }
     else Some (True, s))"
  by pat_completeness auto
termination
  by (relation "measure (\<lambda>(io, most, index, s). most - index)") (auto dest: repeat_of_pos)

declare read_lengths.simps [simp del]

text \<open>An incomplete code is allowed only when it has a single symbol.\<close>

definition refused :: "int \<Rightarrow> nat \<Rightarrow> huff \<Rightarrow> bool option" where
  "refused err n h = do {
     z \<leftarrow> rd (h_count h) 0;
     Some (err < 0 \<or> 0 < err \<and> int n - uint z \<noteq> 1)
   }"

text \<open>\<open>dynamic\<close> from its end: the two codes and the data; the lengths of the codes; the whole.\<close>

definition dynamic_codes :: "'e host \<Rightarrow> nat \<Rightarrow> nat \<Rightarrow> nat \<Rightarrow> 'e unpacker \<Rightarrow> (bool \<times> 'e unpacker) option" where
  "dynamic_codes io fuel nlen ndist s = do {
     (err1, lh) \<leftarrow> construct (lencode s) (lengths s) nlen;
     no \<leftarrow> refused err1 nlen lh;
     if no then Some (False, s\<lparr>lencode := lh\<rparr>)
     else do {
       (err2, dh) \<leftarrow> construct (distcode s) (drop nlen (lengths s)) ndist;
       no2 \<leftarrow> refused err2 ndist dh;
       if no2 then Some (False, s\<lparr>lencode := lh, distcode := dh\<rparr>)
       else codes io fuel (s\<lparr>lencode := lh, distcode := dh\<rparr>)
     }
   }"

definition dynamic_lengths :: "'e host \<Rightarrow> nat \<Rightarrow> nat \<Rightarrow> nat \<Rightarrow> 'e unpacker \<Rightarrow> (bool \<times> 'e unpacker) option" where
  "dynamic_lengths io fuel nlen ndist s = do {
     (err, lh) \<leftarrow> construct (lencode s) (lengths s) 19;
     if err \<noteq> 0 then Some (False, s\<lparr>lencode := lh\<rparr>)
     else do {
       (ok, s1) \<leftarrow> read_lengths io (nlen + ndist) 0 (s\<lparr>lencode := lh\<rparr>);
       if \<not> ok then Some (False, s1)
       else do {
         eob \<leftarrow> rd (lengths s1) 256;
         if eob = 0 then Some (False, s1) else dynamic_codes io fuel nlen ndist s1
       }
     }
   }"

definition dynamic :: "'e host \<Rightarrow> nat \<Rightarrow> 'e unpacker \<Rightarrow> (bool \<times> 'e unpacker) option" where
  "dynamic io fuel s = do {
     (a, s1) \<leftarrow> bits io 5 s;
     (b, s2) \<leftarrow> bits io 5 s1;
     (c, s3) \<leftarrow> bits io 4 s2;
     let nlen = unat a + 257;
     let ndist = unat b + 1;
     let ncode = unat c + 4;
     if 286 < nlen \<or> 30 < ndist then Some (False, s3)
     else do {
       s4 \<leftarrow> for_each [0..<19] (order_step io ncode) s3;
       dynamic_lengths io fuel nlen ndist s4
     }
   }"

section \<open>The file\<close>

text \<open>A name or a comment in the header: up to its zero byte.\<close>

primrec skip_string :: "'e host \<Rightarrow> nat \<Rightarrow> 'e unpacker \<Rightarrow> 'e unpacker option" where
  "skip_string io 0 s = None"
| "skip_string io (Suc fuel) s = do {
     (b, s1) \<leftarrow> byte_in io s;
     if b \<noteq> 0 \<and> \<not> bad s1 then skip_string io fuel s1 else Some s1
   }"

primrec blocks :: "'e host \<Rightarrow> nat \<Rightarrow> 'e unpacker \<Rightarrow> (bool \<times> 'e unpacker) option" where
  "blocks io 0 s = None"
| "blocks io (Suc fuel) s = do {
     (final, s1) \<leftarrow> bits io 1 s;
     (kind, s2) \<leftarrow> bits io 2 s1;
     (ok, s3) \<leftarrow> (if kind = 0 then stored io s2
                  else if kind = 1 then fixed_block io fuel s2
                  else if kind = 2 then dynamic io fuel s2
                  else Some (False, s2));
     if ok \<and> final = 0 then blocks io fuel s3 else Some (ok, s3)
   }"

definition skip_header :: "'e host \<Rightarrow> nat \<Rightarrow> u8 \<Rightarrow> 'e unpacker \<Rightarrow> 'e unpacker option" where
  "skip_header io fuel flags s = do {
     s1 \<leftarrow> (if flags AND 4 \<noteq> 0
            then do {
              (n0, s1) \<leftarrow> byte_in io s;
              (n1, s1) \<leftarrow> byte_in io s1;
              (_, s1) \<leftarrow> read_in io (ucast n0 OR push_bit 8 (ucast n1)) s1;
              Some s1
            }
            else Some s);
     s2 \<leftarrow> (if flags AND 8 \<noteq> 0 then skip_string io fuel s1 else Some s1);
     s3 \<leftarrow> (if flags AND 16 \<noteq> 0 then skip_string io fuel s2 else Some s2);
     if flags AND 2 \<noteq> 0 then do { (_, s4) \<leftarrow> read_in io 2 s3; Some s4 } else Some s3
   }"

definition gunzip :: "'e host \<Rightarrow> nat \<Rightarrow> 'e source \<Rightarrow> 'e unpacker \<Rightarrow> (bool \<times> 'e unpacker) option" where
  "gunzip io fuel src s0 = do {
     ((ok, h), s) \<leftarrow> read_in io 10 (s0\<lparr>inp := src\<rparr>);
     if \<not> ok \<or> h ! 0 \<noteq> 0x1F \<or> h ! 1 \<noteq> 0x8B \<or> h ! 2 \<noteq> 8 then Some (False, s)
     else do {
       s1 \<leftarrow> skip_header io fuel (h ! 3) s;
       let (opened, s2) = window_open io 32768 s1;
       if \<not> opened then Some (False, s2)
       else do {
         (ok1, s3) \<leftarrow> blocks io fuel (s2\<lparr>bitbuf := 0, bitcnt := 0\<rparr>);
         Some (window_close io ok1 s3)
       }
     }
   }"

end
