(* ===== verification/Lzma.thy ===== *)
theory Lzma
  imports Inflate
begin

text \<open>
  The xz half of \<open>src/tuxpac/unpack.c\<close>: the range decoder, the LZMA and LZMA2 decoders and \<open>unxz\<close>.
  A pointer into an array of probabilities is the array and an offset; the decoders hand the array
  back changed. The small unsigned values (tree indices, lengths, bit counts) are naturals, the range
  coder, distances and the byte counts words of their width.
\<close>

section \<open>The probabilities\<close>

record len_coder =
  l_choice :: u16
  l_choice2 :: u16
  l_low :: "u16 list list"
  l_mid :: "u16 list list"
  l_high :: "u16 list"

record lzma =
  p_is_match :: "u16 list"
  p_is_rep :: "u16 list"
  p_g0 :: "u16 list"
  p_g1 :: "u16 list"
  p_g2 :: "u16 list"
  p_rep0_long :: "u16 list"
  p_slot :: "u16 list list"
  p_pos :: "u16 list"
  p_align :: "u16 list"
  p_len :: len_coder
  p_rep_len :: len_coder
  p_lit :: "u16 list"

text \<open>A coder, and the whole structure, with the same probability everywhere.\<close>

definition len_coder_of :: "u16 \<Rightarrow> len_coder" where
  "len_coder_of v =
    \<lparr>l_choice = v, l_choice2 = v, l_low = replicate 16 (replicate 8 v),
     l_mid = replicate 16 (replicate 8 v), l_high = replicate 256 v\<rparr>"

definition lzma_of :: "u16 \<Rightarrow> lzma" where
  "lzma_of v =
    \<lparr>p_is_match = replicate 192 v, p_is_rep = replicate 12 v, p_g0 = replicate 12 v,
     p_g1 = replicate 12 v, p_g2 = replicate 12 v, p_rep0_long = replicate 192 v,
     p_slot = replicate 4 (replicate 64 v), p_pos = replicate 115 v, p_align = replicate 16 v,
     p_len = len_coder_of v, p_rep_len = len_coder_of v, p_lit = replicate (0x300 * 16) v\<rparr>"

definition lzma_bytes :: u64 where
  "lzma_bytes = 28270"

section \<open>The range decoder\<close>

definition rc_init :: "'e host \<Rightarrow> 'e unpacker \<Rightarrow> 'e unpacker option" where
  "rc_init io s = do {
     (_, s1) \<leftarrow> byte_in io s;
     s2 \<leftarrow> for_each [0..<4] (\<lambda>i s. do {
       (b, s1) \<leftarrow> byte_in io s;
       Some (s1\<lparr>rc_code := push_bit 8 (rc_code s1) OR ucast b\<rparr>)
     }) (s1\<lparr>rc_code := 0\<rparr>);
     Some (s2\<lparr>rc_range := 0xFFFFFFFF\<rparr>)
   }"

text \<open>A byte more of the code when the range has become small.\<close>

definition rc_norm :: "'e host \<Rightarrow> 'e unpacker \<Rightarrow> 'e unpacker option" where
  "rc_norm io s =
    (if rc_range s < push_bit 24 1
     then do {
       (b, s1) \<leftarrow> byte_in io (s\<lparr>rc_range := push_bit 8 (rc_range s)\<rparr>);
       Some (s1\<lparr>rc_code := push_bit 8 (rc_code s1) OR ucast b\<rparr>)
     }
     else Some s)"

definition bit_of :: "'e host \<Rightarrow> u16 \<Rightarrow> 'e unpacker \<Rightarrow> ((nat \<times> u16) \<times> 'e unpacker) option" where
  "bit_of io p s =
    (let bound = drop_bit 11 (rc_range s) * ucast p
     in if rc_code s < bound
        then do {
          s1 \<leftarrow> rc_norm io (s\<lparr>rc_range := bound\<rparr>);
          Some ((0, word_of_int (uint p + drop_bit 5 (2048 - uint p))), s1)
        }
        else do {
          s1 \<leftarrow> rc_norm io (s\<lparr>rc_code := rc_code s - bound, rc_range := rc_range s - bound\<rparr>);
          Some ((1, p - drop_bit 5 p), s1)
        })"

definition bit_at :: "'e host \<Rightarrow> u16 list \<Rightarrow> nat \<Rightarrow> 'e unpacker \<Rightarrow> ((nat \<times> u16 list) \<times> 'e unpacker) option" where
  "bit_at io xs i s = do {
     p \<leftarrow> rd xs i;
     ((b, q), s1) \<leftarrow> bit_of io p s;
     ys \<leftarrow> wr xs i q;
     Some ((b, ys), s1)
   }"

primrec tree_loop :: "'e host \<Rightarrow> nat \<Rightarrow> nat \<Rightarrow> nat \<Rightarrow> u16 list \<Rightarrow> 'e unpacker \<Rightarrow> ((nat \<times> u16 list) \<times> 'e unpacker) option" where
  "tree_loop io base 0 m xs s = Some ((m, xs), s)"
| "tree_loop io base (Suc n) m xs s = do {
     ((b, ys), s1) \<leftarrow> bit_at io xs (base + m) s;
     tree_loop io base n (2 * m + b) ys s1
   }"

definition tree :: "'e host \<Rightarrow> u16 list \<Rightarrow> nat \<Rightarrow> 'e unpacker \<Rightarrow> ((nat \<times> u16 list) \<times> 'e unpacker) option" where
  "tree io xs n s = do {
     ((m, ys), s1) \<leftarrow> tree_loop io 0 n 1 xs s;
     Some ((m - 2 ^ n, ys), s1)
   }"

text \<open>\<open>i\<close> bits are read, the sum \<open>v\<close> holds them.\<close>

primrec rtree_loop :: "'e host \<Rightarrow> nat \<Rightarrow> nat \<Rightarrow> nat \<Rightarrow> nat \<Rightarrow> nat \<Rightarrow> u16 list \<Rightarrow> 'e unpacker \<Rightarrow> ((nat \<times> u16 list) \<times> 'e unpacker) option" where
  "rtree_loop io base 0 i m v xs s = Some ((v, xs), s)"
| "rtree_loop io base (Suc n) i m v xs s = do {
     ((b, ys), s1) \<leftarrow> bit_at io xs (base + m) s;
     rtree_loop io base n (i + 1) (2 * m + b) (v OR push_bit i b) ys s1
   }"

definition rtree :: "'e host \<Rightarrow> u16 list \<Rightarrow> nat \<Rightarrow> nat \<Rightarrow> 'e unpacker \<Rightarrow> ((nat \<times> u16 list) \<times> 'e unpacker) option" where
  "rtree io xs base n s = rtree_loop io base n 0 1 0 xs s"

primrec direct_loop :: "'e host \<Rightarrow> nat \<Rightarrow> u32 \<Rightarrow> 'e unpacker \<Rightarrow> (u32 \<times> 'e unpacker) option" where
  "direct_loop io 0 r s = Some (r, s)"
| "direct_loop io (Suc n) r s = do {
     let half = drop_bit 1 (rc_range s);
     let b = half \<le> rc_code s;
     s1 \<leftarrow> rc_norm io (s\<lparr>rc_range := half, rc_code := if b then rc_code s - half else rc_code s\<rparr>);
     direct_loop io n (push_bit 1 r OR of_bool b) s1
   }"

definition direct :: "'e host \<Rightarrow> nat \<Rightarrow> 'e unpacker \<Rightarrow> (u32 \<times> 'e unpacker) option" where
  "direct io n s = direct_loop io n 0 s"

definition len_decode :: "'e host \<Rightarrow> len_coder \<Rightarrow> nat \<Rightarrow> 'e unpacker \<Rightarrow> ((nat \<times> len_coder) \<times> 'e unpacker) option" where
  "len_decode io l ps s = do {
     ((b, c), s1) \<leftarrow> bit_of io (l_choice l) s;
     let l = l\<lparr>l_choice := c\<rparr>;
     if b = 0
     then do {
       xs \<leftarrow> rd (l_low l) ps;
       ((v, ys), s2) \<leftarrow> tree io xs 3 s1;
       Some ((v, l\<lparr>l_low := (l_low l)[ps := ys]\<rparr>), s2)
     }
     else do {
       ((b2, c2), s2) \<leftarrow> bit_of io (l_choice2 l) s1;
       let l = l\<lparr>l_choice2 := c2\<rparr>;
       if b2 = 0
       then do {
         xs \<leftarrow> rd (l_mid l) ps;
         ((v, ys), s3) \<leftarrow> tree io xs 3 s2;
         Some ((8 + v, l\<lparr>l_mid := (l_mid l)[ps := ys]\<rparr>), s3)
       }
       else do {
         ((v, ys), s3) \<leftarrow> tree io (l_high l) 8 s2;
         Some ((16 + v, l\<lparr>l_high := ys\<rparr>), s3)
       }
     }
   }"

definition lzma_reset :: "lzma \<Rightarrow> 'e unpacker \<Rightarrow> lzma \<times> 'e unpacker" where
  "lzma_reset p s = (lzma_of 1024, s\<lparr>lstate := 0, rep0 := 0, rep1 := 0, rep2 := 0, rep3 := 0\<rparr>)"

section \<open>A chunk\<close>

text \<open>
  The bits of a literal, most significant first; eight at most, for \<open>v\<close> starts at 1 and a byte is
  complete at \<open>0x100\<close>. After a match they are read beside the bits of the byte at the match distance,
  until the two differ.
\<close>

primrec lit_loop :: "'e host \<Rightarrow> nat \<Rightarrow> nat \<Rightarrow> nat \<Rightarrow> u16 list \<Rightarrow> 'e unpacker \<Rightarrow> ((nat \<times> u16 list) \<times> 'e unpacker) option" where
  "lit_loop io base 0 v xs s = (if v < 0x100 then None else Some ((v, xs), s))"
| "lit_loop io base (Suc n) v xs s =
    (if v < 0x100
     then do {
       ((b, ys), s1) \<leftarrow> bit_at io xs (base + v) s;
       lit_loop io base n (2 * v + b) ys s1
     }
     else Some ((v, xs), s))"

primrec match_loop :: "'e host \<Rightarrow> nat \<Rightarrow> nat \<Rightarrow> nat \<Rightarrow> nat \<Rightarrow> u16 list \<Rightarrow> 'e unpacker \<Rightarrow> ((nat \<times> u16 list) \<times> 'e unpacker) option" where
  "match_loop io base 0 match v xs s = None"
| "match_loop io base (Suc n) match v xs s = do {
     let m = match div 2 ^ 7 mod 2;
     ((b, ys), s1) \<leftarrow> bit_at io xs (base + (1 + m) * 2 ^ 8 + v) s;
     let v1 = 2 * v + b;
     if m \<noteq> b \<or> 0x100 \<le> v1 then Some ((v1, ys), s1) else match_loop io base n (2 * match) v1 ys s1
   }"

definition lzma_literal :: "'e host \<Rightarrow> lzma \<Rightarrow> 'e unpacker \<Rightarrow> (lzma \<times> 'e unpacker) option" where
  "lzma_literal io p s = do {
     prev \<leftarrow> (if 0 < total s then win_back 1 s else Some 0);
     let base = 0x300 * (unat ((ucast (total s) :: u32) AND (push_bit (lp s) 1 - 1)) * 2 ^ lc s
                         + unat prev div 2 ^ (8 - lc s));
     ((v, xs), s1) \<leftarrow>
       (if 7 \<le> lstate s
        then do { match \<leftarrow> win_back (rep0 s + 1) s; match_loop io base 8 (unat match) 1 (p_lit p) s }
        else Some ((1, p_lit p), s));
     ((v2, ys), s2) \<leftarrow> lit_loop io base 8 v xs s1;
     s3 \<leftarrow> put io (of_nat v2) s2;
     Some (p\<lparr>p_lit := ys\<rparr>,
           s3\<lparr>lstate := if lstate s3 < 4 then 0 else if lstate s3 < 10 then lstate s3 - 3 else lstate s3 - 6\<rparr>)
   }"

text \<open>The distance of a match, from its slot.\<close>

definition distance :: "'e host \<Rightarrow> nat \<Rightarrow> lzma \<Rightarrow> 'e unpacker \<Rightarrow> ((u32 \<times> lzma) \<times> 'e unpacker) option" where
  "distance io len p s = do {
     let k = (if len < 3 then len else 3);
     xs \<leftarrow> rd (p_slot p) k;
     ((sl, ys), s1) \<leftarrow> tree io xs 6 s;
     let p = p\<lparr>p_slot := (p_slot p)[k := ys]\<rparr>;
     if sl < 4 then Some ((of_nat sl, p), s1)
     else do {
       let nb = sl div 2 - 1;
       let d = (2 + sl mod 2) * 2 ^ nb;
       if sl < 14
       then do {
         ((r, zs), s2) \<leftarrow> rtree io (p_pos p) (d - sl) nb s1;
         Some ((of_nat d + of_nat r, p\<lparr>p_pos := zs\<rparr>), s2)
       }
       else do {
         (r, s2) \<leftarrow> direct io (nb - 4) s1;
         ((a, zs), s3) \<leftarrow> rtree io (p_align p) 0 4 s2;
         Some ((of_nat d + push_bit 4 r + of_nat a, p\<lparr>p_align := zs\<rparr>), s3)
       }
     }
   }"

definition lzma_match :: "'e host \<Rightarrow> nat \<Rightarrow> lzma \<Rightarrow> 'e unpacker \<Rightarrow> ((nat \<times> lzma) \<times> 'e unpacker) option" where
  "lzma_match io ps p s = do {
     ((len, l), s1) \<leftarrow> len_decode io (p_len p) ps (s\<lparr>rep3 := rep2 s, rep2 := rep1 s, rep1 := rep0 s\<rparr>);
     ((d, p1), s2) \<leftarrow> distance io len (p\<lparr>p_len := l\<rparr>) (s1\<lparr>lstate := if lstate s1 < 7 then 7 else 10\<rparr>);
     Some ((len, p1), s2\<lparr>rep0 := d\<rparr>)
   }"

text \<open>
  A repeated match: which of the last four distances, moved to the front. The first value is whether
  it is the short kind, of one byte.
\<close>

definition pick_rep :: "'e host \<Rightarrow> nat \<Rightarrow> lzma \<Rightarrow> 'e unpacker \<Rightarrow> ((bool \<times> lzma) \<times> 'e unpacker) option" where
  "pick_rep io ps p s = do {
     ((b0, xs), s1) \<leftarrow> bit_at io (p_g0 p) (lstate s) s;
     let p = p\<lparr>p_g0 := xs\<rparr>;
     if b0 = 0
     then do {
       ((b, ys), s2) \<leftarrow> bit_at io (p_rep0_long p) (lstate s1 * 16 + ps) s1;
       Some ((b = 0, p\<lparr>p_rep0_long := ys\<rparr>), s2)
     }
     else do {
       ((b1, ys), s2) \<leftarrow> bit_at io (p_g1 p) (lstate s1) s1;
       let p = p\<lparr>p_g1 := ys\<rparr>;
       if b1 = 0 then Some ((False, p), s2\<lparr>rep0 := rep1 s2, rep1 := rep0 s2\<rparr>)
       else do {
         ((b2, zs), s3) \<leftarrow> bit_at io (p_g2 p) (lstate s2) s2;
         let p = p\<lparr>p_g2 := zs\<rparr>;
         if b2 = 0
         then Some ((False, p), s3\<lparr>rep0 := rep2 s3, rep1 := rep0 s3, rep2 := rep1 s3\<rparr>)
         else Some ((False, p), s3\<lparr>rep0 := rep3 s3, rep1 := rep0 s3, rep2 := rep1 s3, rep3 := rep2 s3\<rparr>)
       }
     }
   }"

text \<open>
  One literal or match of at most \<open>left\<close> bytes: how many bytes it put out, or \<^const>\<open>None\<close> where
  \<open>lzma_chunk\<close> returns false.
\<close>

definition copy_out :: "'e host \<Rightarrow> nat \<Rightarrow> nat \<Rightarrow> 'e unpacker \<Rightarrow> (nat option \<times> 'e unpacker) option" where
  "copy_out io n left s =
    (if left < n then Some (None, s)
     else do { (ok, s1) \<leftarrow> copy io (rep0 s + 1) (of_nat n) s; Some (if ok then Some n else None, s1) })"

definition lzma_symbol :: "'e host \<Rightarrow> nat \<Rightarrow> lzma \<Rightarrow> 'e unpacker \<Rightarrow> ((nat option \<times> lzma) \<times> 'e unpacker) option" where
  "lzma_symbol io left p s = do {
     let ps = unat ((ucast (total s) :: u32) AND (push_bit (pb s) 1 - 1));
     ((m, xs), s1) \<leftarrow> bit_at io (p_is_match p) (lstate s * 16 + ps) s;
     let p = p\<lparr>p_is_match := xs\<rparr>;
     if m = 0 then do { (p1, s2) \<leftarrow> lzma_literal io p s1; Some ((Some 1, p1), s2) }
     else do {
       ((r, ys), s2) \<leftarrow> bit_at io (p_is_rep p) (lstate s1) s1;
       let p = p\<lparr>p_is_rep := ys\<rparr>;
       if r = 0
       then do {
         ((len, p1), s3) \<leftarrow> lzma_match io ps p s2;
         (n, s4) \<leftarrow> copy_out io (len + 2) left s3;
         Some ((n, p1), s4)
       }
       else do {
         ((short, p1), s3) \<leftarrow> pick_rep io ps p s2;
         if short
         then do {
           (n, s4) \<leftarrow> copy_out io 1 left (s3\<lparr>lstate := if lstate s3 < 7 then 9 else 11\<rparr>);
           Some ((n, p1), s4)
         }
         else do {
           ((len, l), s4) \<leftarrow> len_decode io (p_rep_len p1) ps s3;
           (n, s5) \<leftarrow> copy_out io (len + 2) left (s4\<lparr>lstate := if lstate s4 < 7 then 8 else 11\<rparr>);
           Some ((n, p1\<lparr>p_rep_len := l\<rparr>), s5)
         }
       }
     }
   }"

lemma copy_out_pos: "copy_out io n left s = Some (Some k, t) \<Longrightarrow> k = n \<and> n \<le> left"
  by (auto simp: copy_out_def split: if_splits bind_splits)

lemma lzma_symbol_pos: "lzma_symbol io left p s = Some ((Some n, q), t) \<Longrightarrow> 0 < n"
  by (auto simp: lzma_symbol_def Let_def dest!: copy_out_pos split: if_splits bind_splits)

function lzma_chunk :: "'e host \<Rightarrow> nat \<Rightarrow> lzma \<Rightarrow> 'e unpacker \<Rightarrow> ((bool \<times> lzma) \<times> 'e unpacker) option" where
  "lzma_chunk io left p s =
    (if 0 < left
     then if bad s \<or> wstop s then Some ((False, p), s)
          else do {
            ((r, p1), s1) \<leftarrow> lzma_symbol io left p s;
            case r of
              None \<Rightarrow> Some ((False, p1), s1)
            | Some n \<Rightarrow> lzma_chunk io (left - n) p1 s1
          }
     else Some ((True, p), s))"
  by pat_completeness auto
termination
  by (relation "measure (\<lambda>(io, left, p, s). left)") (auto dest: lzma_symbol_pos)

declare lzma_chunk.simps [simp del]

section \<open>LZMA2\<close>

definition word_in :: "'e host \<Rightarrow> 'e unpacker \<Rightarrow> (u32 \<times> 'e unpacker) option" where
  "word_in io s = do {
     (a, s1) \<leftarrow> byte_in io s;
     (b, s2) \<leftarrow> byte_in io s1;
     Some (push_bit 8 (ucast a) OR ucast b, s2)
   }"

text \<open>The properties byte; false when it is out of range.\<close>

definition read_props :: "'e host \<Rightarrow> 'e unpacker \<Rightarrow> (bool \<times> 'e unpacker) option" where
  "read_props io s = do {
     (b, s1) \<leftarrow> byte_in io s;
     if 224 < b then Some (False, s1)
     else let s2 = s1\<lparr>lc := unat b mod 9, lp := unat b div 9 mod 5, pb := unat b div 45\<rparr>
          in Some (lc s2 + lp s2 \<le> 4, s2)
   }"

text \<open>What is left of a chunk's packed bytes is passed over.\<close>

primrec skip_to :: "'e host \<Rightarrow> nat \<Rightarrow> u64 \<Rightarrow> 'e unpacker \<Rightarrow> 'e unpacker option" where
  "skip_to io 0 stop s = None"
| "skip_to io (Suc fuel) stop s =
    (if i_count (inp s) < stop \<and> \<not> bad s then do { (_, s1) \<leftarrow> byte_in io s; skip_to io fuel stop s1 }
     else Some s)"

text \<open>A packed chunk after its control byte \<open>c\<close>: whether to go on, whether properties are set.\<close>

definition packed :: "'e host \<Rightarrow> nat \<Rightarrow> u8 \<Rightarrow> bool \<Rightarrow> lzma \<Rightarrow> 'e unpacker \<Rightarrow> ((bool \<times> bool \<times> lzma) \<times> 'e unpacker) option" where
  "packed io fuel c props p s = do {
     (w, s1) \<leftarrow> word_in io s;
     let un = (push_bit 16 (ucast (c AND 0x1F)) OR w) + 1;
     (w2, s2) \<leftarrow> word_in io s1;
     let pk = w2 + 1;
     let reset = drop_bit 5 c AND 3;
     let s3 = (if reset = 3 then s2\<lparr>total := 0\<rparr> else s2);
     (fine, s4) \<leftarrow> (if 2 \<le> reset then read_props io s3 else Some (True, s3));
     let props1 = (props \<or> 2 \<le> reset);
     if \<not> fine \<or> \<not> props1 then Some ((False, props, p), s4)
     else do {
       let (p1, s5) = (if 1 \<le> reset then lzma_reset p s4 else (p, s4));
       let at = i_count (inp s5);
       s6 \<leftarrow> rc_init io s5;
       ((ok, p2), s7) \<leftarrow> lzma_chunk io (unat un) p1 s6;
       if ok
       then do { s8 \<leftarrow> skip_to io fuel (at + ucast pk) s7; Some ((True, props1, p2), s8) }
       else Some ((False, props1, p2), s7)
     }
   }"

primrec lzma2_loop :: "'e host \<Rightarrow> nat \<Rightarrow> bool \<Rightarrow> lzma \<Rightarrow> 'e unpacker \<Rightarrow> ((bool \<times> lzma) \<times> 'e unpacker) option" where
  "lzma2_loop io 0 props p s = None"
| "lzma2_loop io (Suc fuel) props p s = do {
     (c, s1) \<leftarrow> byte_in io s;
     if bad s1 \<or> wstop s1 then Some ((False, p), s1)
     else if c = 0 then Some ((True, p), s1)
     else if c = 1 \<or> c = 2
     then do {
       (w, s2) \<leftarrow> word_in io s1;
       s3 \<leftarrow> pass io (unat (w + 1)) (if c = 1 then s2\<lparr>total := 0\<rparr> else s2);
       lzma2_loop io fuel props p s3
     }
     else if c < 0x80 then Some ((False, p), s1)
     else do {
       ((ok, props1, p1), s2) \<leftarrow> packed io fuel c props p s1;
       if ok then lzma2_loop io fuel props1 p1 s2 else Some ((False, p1), s2)
     }
   }"

definition lzma2 :: "'e host \<Rightarrow> nat \<Rightarrow> lzma \<Rightarrow> 'e unpacker \<Rightarrow> ((bool \<times> lzma) \<times> 'e unpacker) option" where
  "lzma2 io fuel p s = lzma2_loop io fuel False p s"

section \<open>The container\<close>

primrec vli_loop :: "u8 list \<Rightarrow> nat \<Rightarrow> nat \<Rightarrow> nat \<Rightarrow> nat \<Rightarrow> u64 \<Rightarrow> (u64 \<times> nat) option" where
  "vli_loop h end 0 i at v = Some (v, at)"
| "vli_loop h end (Suc n) i at v =
    (if at < end
     then do {
       b \<leftarrow> rd h at;
       let v1 = v OR push_bit (7 * i) (ucast (b AND 0x7F));
       if b AND 0x80 = 0 then Some (v1, at + 1) else vli_loop h end n (i + 1) (at + 1) v1
     }
     else Some (v, at))"

definition vli :: "u8 list \<Rightarrow> nat \<Rightarrow> nat \<Rightarrow> (u64 \<times> nat) option" where
  "vli h at end = vli_loop h end 9 0 at 0"

text \<open>\<open>src_read\<close> into the header buffer, from \<open>k\<close> on.\<close>

definition head_in :: "'e host \<Rightarrow> nat \<Rightarrow> u32 \<Rightarrow> 'e unpacker \<Rightarrow> (bool \<times> 'e unpacker) option" where
  "head_in io k n s = do {
     ((ok, bs), s1) \<leftarrow> read_in io n s;
     let h = xz_head s1;
     if k + length bs \<le> length h
     then Some (ok, s1\<lparr>xz_head := take k h @ bs @ drop (k + length bs) h\<rparr>)
     else None
   }"

text \<open>
  The block header after its size byte: the size the block unpacks to, or 0, and the dictionary byte.
  \<^const>\<open>None\<close> inside: a header the decoder refuses.
\<close>

definition block_head :: "nat \<Rightarrow> u8 list \<Rightarrow> (u64 \<times> u8) option option" where
  "block_head hs h = do {
     flags \<leftarrow> rd h 1;
     (_, at) \<leftarrow> (if flags AND 0x40 \<noteq> 0 then vli h 2 hs else Some (0, 2));
     (blk, at) \<leftarrow> (if flags AND 0x80 \<noteq> 0 then vli h at hs else Some (0, at));
     (id1, at) \<leftarrow> vli h at hs;
     (props, at) \<leftarrow> vli h at hs;
     if id1 \<noteq> 0x21 \<or> props \<noteq> 1 then Some None
     else do {
       d \<leftarrow> rd h at;
       Some (if 40 < d then None else Some (blk, d))
     }
   }"

definition dict_size :: "u64 \<Rightarrow> u8 \<Rightarrow> u64" where
  "dict_size sz d =
    (let dict = (if d = 40 then 0xFFFFFFFF else push_bit (unat d div 2 + 11) (2 OR (ucast d AND 1)));
         dict = (if sz \<noteq> 0 \<and> sz < dict then sz else dict)
     in if dict < 4096 then 4096 else dict)"

text \<open>The first block's decoder: the probabilities and the window.\<close>

definition first_block :: "'e host \<Rightarrow> u64 \<Rightarrow> u8 \<Rightarrow> 'e unpacker \<Rightarrow> (bool \<times> lzma option) \<times> 'e unpacker" where
  "first_block io sz d s =
    (let (ok, s1) = xalloc io lzma_bytes s
     in if \<not> ok then ((False, None), s1)
        else let (ok2, s2) = window_open io (ucast (dict_size sz d)) s1 in ((ok2, Some (lzma_of 0)), s2))"

primrec skip_padding :: "'e host \<Rightarrow> nat \<Rightarrow> u64 \<Rightarrow> 'e unpacker \<Rightarrow> 'e unpacker option" where
  "skip_padding io 0 start s = None"
| "skip_padding io (Suc fuel) start s =
    (if (i_count (inp s) - start) mod 4 \<noteq> 0 \<and> \<not> bad s
     then do { (_, s1) \<leftarrow> byte_in io s; skip_padding io fuel start s1 }
     else Some s)"

primrec xz_blocks :: "'e host \<Rightarrow> nat \<Rightarrow> u32 \<Rightarrow> u64 \<Rightarrow> lzma option \<Rightarrow> 'e unpacker \<Rightarrow> ((bool \<times> lzma option) \<times> 'e unpacker) option" where
  "xz_blocks io 0 check_size sz p s = None"
| "xz_blocks io (Suc fuel) check_size sz p s = do {
     let start = i_count (inp s);
     (b, s1) \<leftarrow> byte_in io s;
     if bad s1 \<or> b = 0 then Some ((\<not> bad s1, p), s1)
     else do {
       let hs = (unat b + 1) * 4;
       (ok, s2) \<leftarrow> head_in io 1 (of_nat (hs - 1)) s1;
       flags \<leftarrow> rd (xz_head s2) 1;
       if \<not> ok \<or> flags AND 3 \<noteq> 0 then Some ((False, p), s2)
       else do {
         r \<leftarrow> block_head hs (xz_head s2);
         case r of
           None \<Rightarrow> Some ((False, p), s2)
         | Some (blk, d) \<Rightarrow> do {
             let sz1 = (if p = None \<and> sz = 0 then blk else sz);
             let ((ready, p1), s3) = (if p = None then first_block io sz1 d s2 else ((True, p), s2));
             if \<not> ready then Some ((False, p1), s3)
             else do {
               q \<leftarrow> p1;
               ((ok2, q1), s4) \<leftarrow> lzma2 io fuel q s3;
               if \<not> ok2 then Some ((False, Some q1), s4)
               else do {
                 s5 \<leftarrow> skip_padding io fuel start s4;
                 (_, s6) \<leftarrow> read_in io check_size s5;
                 xz_blocks io fuel check_size sz1 (Some q1) s6
               }
             }
           }
       }
     }
   }"

definition check_size_of :: "u8 \<Rightarrow> u32" where
  "check_size_of f = (let check = f AND 0x0F in if check = 0 then 0 else push_bit (unat (check - 1) div 3) 4)"

definition unxz :: "'e host \<Rightarrow> nat \<Rightarrow> 'e source \<Rightarrow> u64 \<Rightarrow> 'e unpacker \<Rightarrow> (bool \<times> 'e unpacker) option" where
  "unxz io fuel src sz s0 = do {
     (ok, s) \<leftarrow> head_in io 0 12 (s0\<lparr>inp := src, win := None\<rparr>);
     if \<not> ok \<or> take 6 (xz_head s) \<noteq> [0xFD, 0x37, 0x7A, 0x58, 0x5A, 0] then Some (False, s)
     else do {
       f \<leftarrow> rd (xz_head s) 7;
       ((ok1, p), s1) \<leftarrow> xz_blocks io fuel (check_size_of f) sz None s;
       let s2 = (if p = None then s1 else xfree io s1);
       Some (if win s2 = None then (ok1, s2) else window_close io ok1 s2)
     }
   }"

end
