(* ===== verification/Feed.thy ===== *)
theory Feed
  imports Lzma
begin

text \<open>
  What the decoders rely on: a source gives its bytes one after the other and then turns bad
  (\<open>feeds\<close>, with \<open>view\<close> the bytes still to come), and the window is a ring over the bytes put out.
\<close>

section \<open>Sources\<close>

definition src_ok :: "'e source \<Rightarrow> bool" where
  "src_ok s \<longleftrightarrow> i_pos s \<le> i_len s \<and> unat (i_len s) \<le> length (i_buf s) \<and> unat (i_cap s) \<le> length (i_buf s)"

definition buffered :: "'e source \<Rightarrow> u8 list" where
  "buffered s = drop (unat (i_pos s)) (take (unat (i_len s)) (i_buf s))"

text \<open>\<open>later s\<close> is what \<open>fill\<close> will still bring.\<close>

definition view :: "('e source \<Rightarrow> u8 list) \<Rightarrow> 'e source \<Rightarrow> u8 list" where
  "view later s = buffered s @ (if i_bad s \<or> \<not> i_fill s then [] else later s)"

definition fills :: "'e host \<Rightarrow> ('e source \<Rightarrow> u8 list) \<Rightarrow> bool" where
  "fills io later \<longleftrightarrow>
    (\<forall>s n t. src_ok s \<longrightarrow> i_pos s = i_len s \<longrightarrow> host_fill io s = (n, t) \<longrightarrow>
       src_ok t \<and> i_bad t = i_bad s \<and> i_fill t = i_fill s \<and> i_count t = i_count s \<and>
       (if n = 0 then later s = [] \<and> i_pos t = i_len t \<and> later t = []
        else i_pos t \<noteq> i_len t \<and> buffered t @ later t = later s))"

text \<open>Taking bytes, and what the other calls do to the world, leave the bytes to come as they are.\<close>

definition steady :: "'e host \<Rightarrow> ('e source \<Rightarrow> u8 list) \<Rightarrow> bool" where
  "steady io later \<longleftrightarrow>
    (\<forall>s p c b. later (s\<lparr>i_pos := p, i_count := c, i_bad := b\<rparr>) = later s) \<and>
    (\<forall>s bs. later (s\<lparr>i_world := snd (host_sink io bs (i_world s))\<rparr>) = later s) \<and>
    (\<forall>s n. later (s\<lparr>i_world := snd (host_alloc io n (i_world s))\<rparr>) = later s) \<and>
    (\<forall>s. later (s\<lparr>i_world := host_free io (i_world s)\<rparr>) = later s)"

definition feeds :: "'e host \<Rightarrow> ('e source \<Rightarrow> u8 list) \<Rightarrow> bool" where
  "feeds io later \<longleftrightarrow> fills io later \<and> steady io later"

lemma feeds_fill:
  assumes "feeds io later" "src_ok s" "i_pos s = i_len s" "host_fill io s = (n, t)"
  shows "src_ok t" "i_bad t = i_bad s" "i_fill t = i_fill s" "i_count t = i_count s"
    "n = 0 \<Longrightarrow> later s = []" "n = 0 \<Longrightarrow> i_pos t = i_len t" "n = 0 \<Longrightarrow> later t = []"
    "n \<noteq> 0 \<Longrightarrow> i_pos t \<noteq> i_len t" "n \<noteq> 0 \<Longrightarrow> buffered t @ later t = later s"
  using assms unfolding feeds_def fills_def by (metis (full_types))+

lemma feeds_steady:
  assumes "feeds io later"
  shows "later (s\<lparr>i_pos := p, i_count := c\<rparr>) = later s" "later (s\<lparr>i_bad := b\<rparr>) = later s"
    "later (s\<lparr>i_world := snd (host_sink io bs (i_world s))\<rparr>) = later s"
    "later (s\<lparr>i_world := snd (host_alloc io n (i_world s))\<rparr>) = later s"
    "later (s\<lparr>i_world := host_free io (i_world s)\<rparr>) = later s"
proof -
  have l: "later (s\<lparr>i_pos := p, i_count := c, i_bad := b\<rparr>) = later s" for p c b s
    using assms unfolding feeds_def steady_def by blast
  have e: "s\<lparr>i_pos := p, i_count := c\<rparr> = s\<lparr>i_pos := p, i_count := c, i_bad := i_bad s\<rparr>"
    "s\<lparr>i_bad := b\<rparr> = s\<lparr>i_pos := i_pos s, i_count := i_count s, i_bad := b\<rparr>" by simp_all
  show "later (s\<lparr>i_pos := p, i_count := c\<rparr>) = later s" by (subst e(1), rule l)
  show "later (s\<lparr>i_bad := b\<rparr>) = later s" by (subst e(2), rule l)
  show "later (s\<lparr>i_world := snd (host_sink io bs (i_world s))\<rparr>) = later s"
    "later (s\<lparr>i_world := snd (host_alloc io n (i_world s))\<rparr>) = later s"
    "later (s\<lparr>i_world := host_free io (i_world s)\<rparr>) = later s"
    using assms unfolding feeds_def steady_def by blast+
qed

lemma buffered_nil: "src_ok s \<Longrightarrow> buffered s = [] \<longleftrightarrow> i_pos s = i_len s"
  by (auto simp: buffered_def src_ok_def word_nat word_unat_eq_iff)

lemma dry_spec:
  assumes f: "feeds io later" and s: "src_ok s" and d: "dry io s = (d, t)"
  shows "src_ok t" "i_bad t = i_bad s" "i_count t = i_count s" "view later t = view later s"
    "d \<longleftrightarrow> view later s = []" "\<not> d \<Longrightarrow> i_pos t \<noteq> i_len t"
proof -
  have "src_ok t \<and> i_bad t = i_bad s \<and> i_count t = i_count s \<and> view later t = view later s \<and>
    (d \<longleftrightarrow> view later s = []) \<and> (\<not> d \<longrightarrow> i_pos t \<noteq> i_len t)"
  proof (cases "i_pos s = i_len s \<and> \<not> i_bad s \<and> i_fill s")
    case False
    then show ?thesis using d s buffered_nil [OF s] by (auto simp: dry_def view_def split: if_splits)
  next
    case True
    obtain n u where h: "host_fill io s = (n, u)" by fastforce
    note l = feeds_fill [OF f s conjunct1 [OF True] h]
    have "t = u" "d \<longleftrightarrow> n = 0" using d True h by (auto simp: dry_def)
    moreover have "buffered s = []" using True buffered_nil [OF s] by blast
    moreover have "n = 0 \<Longrightarrow> buffered u = []" using l(1,6) buffered_nil by blast
    moreover have "n \<noteq> 0 \<Longrightarrow> buffered u \<noteq> []" using l(1,8) buffered_nil by blast
    ultimately show ?thesis using l True by (cases "n = 0") (auto simp: view_def)
  qed
  then show "src_ok t" "i_bad t = i_bad s" "i_count t = i_count s" "view later t = view later s"
    "d \<longleftrightarrow> view later s = []" "\<not> d \<Longrightarrow> i_pos t \<noteq> i_len t" by blast+
qed

lemma buffered_take:
  assumes s: "src_ok s" and k: "unat k \<le> unat (i_len s) - unat (i_pos s)"
  shows "buffered s = take (unat k) (drop (unat (i_pos s)) (i_buf s)) @ buffered (s\<lparr>i_pos := i_pos s + k, i_count := c\<rparr>)"
    "src_ok (s\<lparr>i_pos := i_pos s + k, i_count := c\<rparr>)" "unat (i_pos s) + unat k \<le> length (i_buf s)"
proof -
  have l: "unat (i_pos s) \<le> unat (i_len s)" "unat (i_len s) \<le> length (i_buf s)" using s by (simp_all add: src_ok_def word_nat)
  have u: "unat (i_pos s + k) = unat (i_pos s) + unat k" using l k unat_bound [of "i_len s"] by (intro unat_add_small) linarith
  show "src_ok (s\<lparr>i_pos := i_pos s + k, i_count := c\<rparr>)" "unat (i_pos s) + unat k \<le> length (i_buf s)"
    using s u k l by (auto simp: src_ok_def word_nat)
  have "buffered s = take (unat k) (buffered s) @ drop (unat k) (buffered s)" by simp
  also have "take (unat k) (buffered s) = take (unat k) (drop (unat (i_pos s)) (i_buf s))"
    unfolding buffered_def using k l by (simp add: drop_take min_def)
  also have "drop (unat k) (buffered s) = buffered (s\<lparr>i_pos := i_pos s + k, i_count := c\<rparr>)"
    proof -
    have i: "i_pos (s\<lparr>i_pos := i_pos s + k, i_count := c\<rparr>) = i_pos s + k" "i_len (s\<lparr>i_pos := i_pos s + k, i_count := c\<rparr>) = i_len s"
      "i_buf (s\<lparr>i_pos := i_pos s + k, i_count := c\<rparr>) = i_buf s" by simp_all
    show ?thesis unfolding buffered_def drop_drop i u by (simp only: add.commute)
  qed
  finally show "buffered s = take (unat k) (drop (unat (i_pos s)) (i_buf s)) @ buffered (s\<lparr>i_pos := i_pos s + k, i_count := c\<rparr>)" .
qed

text \<open>Taking \<open>k\<close> buffered bytes takes them off the view.\<close>

lemma view_take:
  assumes f: "feeds io later" and s: "src_ok s" and k: "unat k \<le> unat (i_len s) - unat (i_pos s)"
  shows "view later s = take (unat k) (drop (unat (i_pos s)) (i_buf s)) @ view later (s\<lparr>i_pos := i_pos s + k, i_count := c\<rparr>)"
  using buffered_take(1) [OF s k, of c] by (simp add: view_def feeds_steady(1) [OF f])

lemma view_bad:
  assumes "feeds io later" "src_ok s" "view later s = []"
  shows "view later (s\<lparr>i_bad := True\<rparr>) = []" "src_ok (s\<lparr>i_bad := True\<rparr>)"
  using assms(2,3) by (auto simp: view_def buffered_def src_ok_def)

lemma src_byte_spec:
  assumes f: "feeds io later" and s: "src_ok s"
  shows "gives (src_byte io s) (\<lambda>(b, t). src_ok t \<and>
    (case view later s of
       [] \<Rightarrow> b = 0 \<and> i_bad t \<and> view later t = [] \<and> i_count t = i_count s
     | x # xs \<Rightarrow> b = x \<and> i_bad t = i_bad s \<and> view later t = xs \<and> i_count t = i_count s + 1))"
proof -
  obtain d u where du: "dry io s = (d, u)" by fastforce
  note D = dry_spec [OF f s du]
  show ?thesis
  proof (cases d)
    case True
    then show ?thesis using D du view_bad [OF f D(1)] by (simp add: src_byte_def)
  next
    case False
    have lt: "unat (i_pos u) < unat (i_len u)"
      using D(1) D(6) [OF False] by (auto simp: src_ok_def word_nat word_unat_eq_iff)
    then have k: "unat (1 :: u32) \<le> unat (i_len u) - unat (i_pos u)" by simp
    have lb: "unat (i_pos u) < length (i_buf u)" using lt D(1) by (simp add: src_ok_def)
    note v = view_take [OF f D(1) k, of "i_count u + 1"]
    have "view later u = i_buf u ! unat (i_pos u) # view later (u\<lparr>i_pos := i_pos u + 1, i_count := i_count u + 1\<rparr>)"
      using v lb by (simp add: take_Suc_conv_app_nth hd_drop_conv_nth take_Suc)
    then show ?thesis using D du False lb buffered_take(2) [OF D(1) k, of "i_count u + 1"]
      by (simp add: src_byte_def gives_bind)
  qed
qed

lemma src_read_loop_spec:
  assumes f: "feeds io later" and s: "src_ok s" and u: "unat n \<le> fuel"
  shows "gives (src_read_loop io fuel n got s) (\<lambda>((ok, bs), t). src_ok t \<and>
    (if unat n \<le> length (view later s)
     then ok \<and> bs = got @ take (unat n) (view later s) \<and> view later t = drop (unat n) (view later s) \<and> i_bad t = i_bad s
     else \<not> ok \<and> bs = got @ view later s \<and> view later t = [] \<and> i_bad t))"
  using s u
proof (induction fuel arbitrary: n got s)
  case 0
  then have "n = 0" by (simp add: unat_eq_zero)
  with 0 show ?case by (simp add: src_read_loop.simps)
next
  case (Suc fuel)
  obtain d u where du: "dry io s = (d, u)" by fastforce
  note D = dry_spec [OF f Suc.prems(1) du]
  show ?case
  proof (cases "n = 0 \<or> d")
    case True
    then show ?thesis using Suc.prems D du view_bad [OF f D(1)]
      by (auto simp: src_read_loop.simps unat_eq_zero)
  next
    case False
    then have n: "n \<noteq> 0" and d: "\<not> d" by auto
    define k where "k = (if i_len u - i_pos u < n then i_len u - i_pos u else n)"
    define u' where "u' = u\<lparr>i_pos := i_pos u + k, i_count := i_count u + ucast k\<rparr>"
    have lt: "unat (i_pos u) < unat (i_len u)"
      using D(1) D(6) [OF d] by (auto simp: src_ok_def word_nat word_unat_eq_iff)
    have lu: "unat (i_len u - i_pos u) = unat (i_len u) - unat (i_pos u)" using lt by (simp add: unat_sub_le)
    have k: "unat k \<le> unat (i_len u) - unat (i_pos u)" "unat k \<le> unat n" "0 < unat k"
      using lt n lu by (auto simp: k_def word_nat unat_gt_0)
    have nk: "unat (n - k) = unat n - unat k" using k(2) by (rule unat_sub_le)
    note b = buffered_take(1,2) [OF D(1) k(1), of "i_count u + ucast k"] buffered_take(3) [OF D(1) k(1)]
    have v: "view later s = take (unat k) (drop (unat (i_pos u)) (i_buf u)) @ view later u'"
      using view_take [OF f D(1) k(1), of "i_count u + ucast k"] D(4) by (simp add: u'_def)
    have l: "length (take (unat k) (drop (unat (i_pos u)) (i_buf u))) = unat k" using b(3) by simp
    have r: "src_read_loop io (Suc fuel) n got s =
      src_read_loop io fuel (n - k) (got @ take (unat k) (drop (unat (i_pos u)) (i_buf u))) u'"
      using n d du b(3) by (subst src_read_loop.simps) (simp add: Let_def k_def [symmetric] u'_def)
    have "gives (src_read_loop io fuel (n - k) (got @ take (unat k) (drop (unat (i_pos u)) (i_buf u))) u') (\<lambda>((ok, bs), t). src_ok t \<and>
      (if unat (n - k) \<le> length (view later u')
       then ok \<and> bs = (got @ take (unat k) (drop (unat (i_pos u)) (i_buf u))) @ take (unat (n - k)) (view later u') \<and>
         view later t = drop (unat (n - k)) (view later u') \<and> i_bad t = i_bad u'
       else \<not> ok \<and> bs = (got @ take (unat k) (drop (unat (i_pos u)) (i_buf u))) @ view later u' \<and> view later t = [] \<and> i_bad t))"
      by (rule Suc.IH) (use b(2) nk k Suc.prems(2) in \<open>auto simp: u'_def\<close>)
    moreover have ln: "length (view later s) = unat k + length (view later u')" using v l by simp
    moreover have "i_bad u' = i_bad s" using D(2) by (simp add: u'_def)
    moreover have "take (unat n) (view later s) = take (unat k) (drop (unat (i_pos u)) (i_buf u)) @ take (unat (n - k)) (view later u')"
      "drop (unat n) (view later s) = drop (unat (n - k)) (view later u')"
      using v l nk k(2) by (simp_all del: length_take length_drop)
    moreover have "unat (n - k) \<le> length (view later u') \<longleftrightarrow> unat n \<le> length (view later s)"
      using nk ln k(2) by linarith
    ultimately show ?thesis unfolding r using v by (simp only: append_assoc)
  qed
qed

lemma src_read_spec:
  assumes "feeds io later" "src_ok s"
  shows "gives (src_read io n s) (\<lambda>((ok, bs), t). src_ok t \<and>
    (if unat n \<le> length (view later s)
     then ok \<and> bs = take (unat n) (view later s) \<and> view later t = drop (unat n) (view later s) \<and> i_bad t = i_bad s
     else \<not> ok \<and> bs = view later s \<and> view later t = [] \<and> i_bad t))"
  using src_read_loop_spec [OF assms order_refl, of n "[]"] unfolding src_read_def append_Nil .

section \<open>The input as bytes and as bits\<close>

abbreviation sees :: "('e source \<Rightarrow> u8 list) \<Rightarrow> 'e unpacker \<Rightarrow> u8 list" where
  "sees later s \<equiv> view later (inp s)"

lemma byte_in_spec:
  assumes "feeds io later" "src_ok (inp s)"
  shows "gives (byte_in io s) (\<lambda>(b, t). \<exists>i. t = s\<lparr>inp := i\<rparr> \<and> src_ok i \<and>
    (case sees later s of
       [] \<Rightarrow> b = 0 \<and> i_bad i \<and> view later i = [] \<and> i_count i = i_count (inp s)
     | x # xs \<Rightarrow> b = x \<and> i_bad i = bad s \<and> view later i = xs \<and> i_count i = i_count (inp s) + 1))"
  unfolding byte_in_def by (rule gives_step [OF src_byte_spec [OF assms]]) auto

lemma read_in_spec:
  assumes "feeds io later" "src_ok (inp s)"
  shows "gives (read_in io n s) (\<lambda>((ok, bs), t). \<exists>i. t = s\<lparr>inp := i\<rparr> \<and> src_ok i \<and>
    (if unat n \<le> length (sees later s)
     then ok \<and> bs = take (unat n) (sees later s) \<and> view later i = drop (unat n) (sees later s) \<and> i_bad i = bad s
     else \<not> ok \<and> bs = sees later s \<and> view later i = [] \<and> i_bad i))"
  unfolding read_in_def by (rule gives_step [OF src_read_spec [OF assms]]) auto

definition lsb_bits :: "nat \<Rightarrow> 'a::len word \<Rightarrow> bool list" where
  "lsb_bits n v = map (bit v) [0..<n]"

lemma length_lsb_bits [simp]: "length (lsb_bits n v) = n"
  by (simp add: lsb_bits_def)

lemma lsb_bits_simps [simp]: "lsb_bits 0 v = []" "lsb_bits (Suc n) v = bit v 0 # lsb_bits n (drop_bit 1 v)"
proof -
  have "[0..<Suc n] = 0 # map Suc [0..<n]" by (simp add: map_Suc_upt upt_conv_Cons)
  then show "lsb_bits (Suc n) v = bit v 0 # lsb_bits n (drop_bit 1 v)"
    by (simp add: lsb_bits_def bit_drop_bit_eq)
qed (simp add: lsb_bits_def)

definition bit_stream :: "u8 list \<Rightarrow> bool list" where
  "bit_stream bs = concat (map (lsb_bits 8) bs)"

lemma bit_stream_simps [simp]:
  "bit_stream [] = []" "bit_stream (b # bs) = lsb_bits 8 b @ bit_stream bs"
  "bit_stream (xs @ ys) = bit_stream xs @ bit_stream ys" "length (bit_stream bs) = 8 * length bs"
  by (simp_all add: bit_stream_def length_concat sum_list_triv o_def)

text \<open>The bits still to come: those in \<open>bitbuf\<close>, then those of the bytes to come, lowest first.\<close>

definition stream :: "('e source \<Rightarrow> u8 list) \<Rightarrow> 'e unpacker \<Rightarrow> bool list" where
  "stream later s = lsb_bits (bitcnt s) (bitbuf s) @ bit_stream (sees later s)"

definition clean :: "nat \<Rightarrow> u32 \<Rightarrow> bool" where
  "clean n v \<longleftrightarrow> (\<forall>i \<ge> n. \<not> bit v i)"

lemma lsb_bits_append_byte:
  assumes "clean n v" "n + 8 \<le> 32"
  shows "lsb_bits (n + 8) (v OR push_bit n (ucast b)) = lsb_bits n v @ lsb_bits 8 (b :: u8)"
    "clean (n + 8) (v OR push_bit n (ucast b))"
proof -
  have i: "bit (v OR push_bit n (ucast b)) j \<longleftrightarrow> (if j < n then bit v j else bit b (j - n) \<and> j < 32)" for j
    using assms(1) by (auto simp: bit_simps clean_def)
  have b: "\<not> bit b k" if "8 \<le> k" for k using that bit_imp_le_length [of b k] by auto
  show "lsb_bits (n + 8) (v OR push_bit n (ucast b)) = lsb_bits n v @ lsb_bits 8 b"
    unfolding lsb_bits_def using assms(2)
    by (intro nth_equalityI) (auto simp: i nth_append)
  show "clean (n + 8) (v OR push_bit n (ucast b))" using b by (auto simp: clean_def i)
qed

lemma bits_fill_spec:
  assumes f: "feeds io later" and "src_ok (inp s)" "clean (bitcnt s) v" "need \<le> 24" "bitcnt s \<le> 32"
  shows "gives (bits_fill io need v s) (\<lambda>(w, t). \<exists>i c. t = s\<lparr>inp := i, bitcnt := c\<rparr> \<and> src_ok i \<and>
    need \<le> c \<and> (c < need + 8 \<or> c = bitcnt s) \<and> c \<le> 32 \<and> clean c w \<and>
    (if need \<le> bitcnt s + 8 * length (sees later s)
     then i_bad i = bad s \<and> lsb_bits c w @ bit_stream (view later i) = lsb_bits (bitcnt s) v @ bit_stream (sees later s)
     else i_bad i \<and> view later i = []))"
  using assms(2-)
proof (induction "need - bitcnt s" arbitrary: v s rule: less_induct)
  case less
  show ?case
  proof (cases "bitcnt s < need")
    case False
    then show ?thesis using less.prems by (subst bits_fill.simps) (auto intro!: exI [of _ "inp s"] exI [of _ "bitcnt s"])
  next
    case True
    have e: "bits_fill io need v s = byte_in io s \<bind> (\<lambda>(b, s1).
      bits_fill io need (v OR push_bit (bitcnt s) (ucast b)) (s1\<lparr>bitcnt := bitcnt s1 + 8\<rparr>))"
      using True by (subst bits_fill.simps) simp
    show ?thesis unfolding e
    proof (rule gives_step [OF byte_in_spec [OF f less.prems(1)]])
      fix b t
      assume "\<exists>i. t = s\<lparr>inp := i\<rparr> \<and> src_ok i \<and>
        (case sees later s of
           [] \<Rightarrow> b = 0 \<and> i_bad i \<and> view later i = [] \<and> i_count i = i_count (inp s)
         | x # xs \<Rightarrow> b = x \<and> i_bad i = bad s \<and> view later i = xs \<and> i_count i = i_count (inp s) + 1)"
      then obtain i where i: "t = s\<lparr>inp := i\<rparr>" "src_ok i" and c: "case sees later s of
           [] \<Rightarrow> b = 0 \<and> i_bad i \<and> view later i = [] \<and> i_count i = i_count (inp s)
         | x # xs \<Rightarrow> b = x \<and> i_bad i = bad s \<and> view later i = xs \<and> i_count i = i_count (inp s) + 1" by blast
      let ?v = "v OR push_bit (bitcnt s) (ucast b)" and ?t = "t\<lparr>bitcnt := bitcnt t + 8\<rparr>"
      have n8: "bitcnt s + 8 \<le> 32" using True less.prems(3) by simp
      note a = lsb_bits_append_byte [OF less.prems(2) n8, of b]
      have "gives (bits_fill io need ?v ?t) (\<lambda>(w, t'). \<exists>i c. t' = ?t\<lparr>inp := i, bitcnt := c\<rparr> \<and> src_ok i \<and>
        need \<le> c \<and> (c < need + 8 \<or> c = bitcnt ?t) \<and> c \<le> 32 \<and> clean c w \<and>
        (if need \<le> bitcnt ?t + 8 * length (sees later ?t)
         then i_bad i = bad ?t \<and> lsb_bits c w @ bit_stream (view later i) = lsb_bits (bitcnt ?t) ?v @ bit_stream (sees later ?t)
         else i_bad i \<and> view later i = []))"
        by (rule less.hyps) (use True i a(2) n8 less.prems(3) in auto)
      then show "gives (bits_fill io need ?v ?t) (\<lambda>(w, t). \<exists>i c. t = s\<lparr>inp := i, bitcnt := c\<rparr> \<and> src_ok i \<and>
        need \<le> c \<and> (c < need + 8 \<or> c = bitcnt s) \<and> c \<le> 32 \<and> clean c w \<and>
        (if need \<le> bitcnt s + 8 * length (sees later s)
         then i_bad i = bad s \<and> lsb_bits c w @ bit_stream (view later i) = lsb_bits (bitcnt s) v @ bit_stream (sees later s)
         else i_bad i \<and> view later i = []))"
      proof (rule gives_mono, clarify)
        fix w i' c'
        assume p: "src_ok i'" "need \<le> c'" "c' < need + 8 \<or> c' = bitcnt ?t" "c' \<le> 32" "clean c' w"
          "if need \<le> bitcnt ?t + 8 * length (sees later ?t)
         then i_bad i' = bad ?t \<and> lsb_bits c' w @ bit_stream (view later i') = lsb_bits (bitcnt ?t) ?v @ bit_stream (sees later ?t)
         else i_bad i' \<and> view later i' = []"
        have "if need \<le> bitcnt s + 8 * length (sees later s)
         then i_bad i' = bad s \<and> lsb_bits c' w @ bit_stream (view later i') = lsb_bits (bitcnt s) v @ bit_stream (sees later s)
         else i_bad i' \<and> view later i' = []"
        proof (cases "sees later s")
          case Nil
          then have l: "i_bad i" "view later i = []" using c by simp_all
          have "i_bad i' \<and> view later i' = []"
          proof (cases "need \<le> bitcnt s + 8")
            case True
            then have "lsb_bits c' w @ bit_stream (view later i') = lsb_bits (bitcnt s + 8) ?v" and b: "i_bad i'"
              using p(6) i l by simp_all
            then have "c' + 8 * length (view later i') = bitcnt s + 8" by (metis length_append length_lsb_bits bit_stream_simps(4))
            with p(2) \<open>bitcnt s < need\<close> b show ?thesis by (cases "view later i'") auto
          qed (use p(6) i l in auto)
          then show ?thesis using Nil \<open>bitcnt s < need\<close> by simp
        next
          case (Cons x xs)
          then show ?thesis using p(6) i c a(1) by (simp split: if_splits)
        qed
        then show "\<exists>i c. ?t\<lparr>inp := i', bitcnt := c'\<rparr> = s\<lparr>inp := i, bitcnt := c\<rparr> \<and> src_ok i \<and>
        need \<le> c \<and> (c < need + 8 \<or> c = bitcnt s) \<and> c \<le> 32 \<and> clean c w \<and>
        (if need \<le> bitcnt s + 8 * length (sees later s)
         then i_bad i = bad s \<and> lsb_bits c w @ bit_stream (view later i) = lsb_bits (bitcnt s) v @ bit_stream (sees later s)
         else i_bad i \<and> view later i = [])"
          using p i True by (intro exI [of _ i'] exI [of _ c']) auto
      qed
    qed
  qed
qed

end
