(* ===== verification/Bits.thy ===== *)
theory Bits
  imports Feed
begin

text \<open>
  The bit reader and the Huffman decoder over the stream of bits to come, and the window's safety:
  every access of \<open>bits\<close>, \<open>decode\<close>, \<open>put\<close> and \<open>copy\<close> is inside its array, and a decoder that goes on
  without the source turning bad has taken bits from the stream.
\<close>

section \<open>Bits off the stream\<close>

definition bits_ok :: "'e unpacker \<Rightarrow> bool" where
  "bits_ok s \<longleftrightarrow> src_ok (inp s) \<and> bitcnt s < 8 \<and> clean (bitcnt s) (bitbuf s)"

definition only_input :: "'e unpacker \<Rightarrow> 'e unpacker \<Rightarrow> bool" where
  "only_input s t \<longleftrightarrow> (\<exists>i v c. t = s\<lparr>inp := i, bitbuf := v, bitcnt := c\<rparr>)"

lemma only_input_trans: "only_input s t \<Longrightarrow> only_input t u \<Longrightarrow> only_input s u"
  unfolding only_input_def by (elim exE) (simp, blast)

lemma only_input_fields:
  assumes "only_input s t"
  shows "win t = win s" "wsize t = wsize s" "wpos t = wpos s" "total t = total s" "wstop t = wstop s"
    "lencode t = lencode s" "distcode t = distcode s" "lengths t = lengths s" "xz_head t = xz_head s"
  using assms by (auto simp: only_input_def)

text \<open>\<open>t\<close> is \<open>s\<close> with \<open>n\<close> bits taken, or turned bad because there were not so many.\<close>

definition bits_took :: "('e source \<Rightarrow> u8 list) \<Rightarrow> nat \<Rightarrow> 'e unpacker \<Rightarrow> 'e unpacker \<Rightarrow> bool" where
  "bits_took later n s t \<longleftrightarrow> only_input s t \<and> bits_ok t \<and> (bad s \<longrightarrow> bad t) \<and>
    (if n \<le> length (stream later s) then bad t = bad s \<and> stream later t = drop n (stream later s) else bad t)"

lemma bits_tookD:
  assumes "bits_took later n s t"
  shows "only_input s t" "bits_ok t" "bad s \<Longrightarrow> bad t"
    "\<not> bad t \<Longrightarrow> n \<le> length (stream later s) \<and> stream later t = drop n (stream later s)"
    "n \<le> length (stream later s) \<Longrightarrow> bad t = bad s \<and> stream later t = drop n (stream later s)"
  using assms by (auto simp: bits_took_def split: if_splits)

lemma took_refl: "bits_ok s \<Longrightarrow> bits_took later 0 s s"
  by (auto simp: bits_took_def only_input_def intro!: exI [of _ "inp s"] exI [of _ "bitbuf s"] exI [of _ "bitcnt s"])

lemma took_trans: "bits_took later m s t \<Longrightarrow> bits_took later n t u \<Longrightarrow> bits_took later (m + n) s u"
  unfolding bits_took_def by (auto split: if_splits intro: only_input_trans simp: add.commute)

lemma take_lsb_bits: "n \<le> c \<Longrightarrow> take n (lsb_bits c w) = lsb_bits n w"
  by (simp add: lsb_bits_def take_map)

lemma drop_lsb_bits: "n \<le> c \<Longrightarrow> drop n (lsb_bits c w) = lsb_bits (c - n) (drop_bit n w)"
  by (auto simp: lsb_bits_def drop_map bit_drop_bit_eq intro!: nth_equalityI)

lemma lsb_bits_take_bit: "n \<le> c \<Longrightarrow> lsb_bits n (take_bit c w) = lsb_bits n w"
  by (auto simp: lsb_bits_def bit_take_bit_iff)

lemma bits_spec:
  assumes f: "feeds io later" and s: "bits_ok s" and n: "need \<le> 24"
  shows "gives (bits io need s) (\<lambda>(v, t). bits_took later need s t \<and> clean need v \<and>
    (need \<le> length (stream later s) \<longrightarrow> lsb_bits need v = take need (stream later s)))"
proof -
  have s': "src_ok (inp s)" "clean (bitcnt s) (bitbuf s)" "bitcnt s \<le> 32" "bitcnt s < 8" using s by (simp_all add: bits_ok_def)
  show ?thesis unfolding bits_def
  proof (rule gives_step [OF bits_fill_spec [OF f s'(1,2) n s'(3)]], elim exE conjE, goal_cases)
    case (1 w t i c)
    have cl: "clean (c - need) (drop_bit need w)" using \<open>clean c w\<close> by (auto simp: clean_def bit_drop_bit_eq)
    have m: "w AND (push_bit need 1 - 1) = take_bit need w"
      by (simp add: take_bit_eq_mask mask_eq_decr_exp push_bit_of_1)
    have cv: "clean need (take_bit need w)" by (auto simp: clean_def bit_take_bit_iff)
    have ls: "length (stream later s) = bitcnt s + 8 * length (sees later s)" by (simp add: stream_def)
    let ?u = "t\<lparr>bitbuf := drop_bit need w, bitcnt := bitcnt t - need\<rparr>"
    have o: "only_input s ?u" unfolding only_input_def using 1(1) by (intro exI [of _ i] exI [of _ "drop_bit need w"] exI [of _ "c - need"]) simp
    have b: "bits_ok ?u" using 1 cl s'(4) by (auto simp: bits_ok_def)
    have "if need \<le> length (stream later s) then bad ?u = bad s \<and> stream later ?u = drop need (stream later s) \<and> lsb_bits need (take_bit need w) = take need (stream later s) else bad ?u"
    proof (cases "need \<le> length (stream later s)")
      case True
      then have e: "lsb_bits c w @ bit_stream (view later i) = stream later s" "i_bad i = bad s"
        using 1 ls by (simp_all add: stream_def)
      have "stream later ?u = drop need (lsb_bits c w @ bit_stream (view later i))"
        using 1 by (simp add: stream_def drop_lsb_bits)
      moreover have "lsb_bits need (take_bit need w) = take need (lsb_bits c w @ bit_stream (view later i))"
        using 1 by (simp add: take_lsb_bits lsb_bits_take_bit)
      ultimately show ?thesis using e True 1(1) by simp
    qed (use 1 ls in simp)
    moreover have "bad s \<longrightarrow> bad ?u" using calculation by (auto split: if_splits)
    ultimately show ?case unfolding m using o b cv by (auto simp: bits_took_def split: if_splits)
  qed
qed

lemma clean_unat: "clean n v \<Longrightarrow> unat v < 2 ^ n"
proof -
  assume "clean n v"
  then have "take_bit n v = v" by (intro bit_word_eqI) (auto simp: bit_take_bit_iff clean_def not_less [symmetric])
  then have "unat v = take_bit n (unat v)" by (metis unsigned_take_bit_eq)
  then show ?thesis by (metis take_bit_nat_less_exp)
qed

text \<open>One bit.\<close>

lemma bit_spec:
  assumes "feeds io later" "bits_ok s"
  shows "gives (bits io 1 s) (\<lambda>(v, t). bits_took later 1 s t \<and> (uint v = 0 \<or> uint v = 1) \<and>
    (\<forall>x xs. stream later s = x # xs \<longrightarrow> stream later t = xs \<and> bad t = bad s \<and> uint v = of_bool x))"
proof (rule gives_mono [OF bits_spec [OF assms, of 1]])
  fix r
  assume "case r of (v, t) \<Rightarrow> bits_took later 1 s t \<and> clean 1 v \<and>
      (1 \<le> length (stream later s) \<longrightarrow> lsb_bits 1 v = take 1 (stream later s))"
  then obtain v t where r: "r = (v, t)" "bits_took later 1 s t" "clean 1 v"
    "1 \<le> length (stream later s) \<Longrightarrow> lsb_bits 1 v = take 1 (stream later s)" by (cases r) auto
  have "unat v < 2" using clean_unat [OF r(3)] by simp
  then have "unat v = unat (0 :: u32) \<or> unat v = unat (1 :: u32)" by auto
  then have "v = 0 \<or> v = 1" unfolding word_unat_eq_iff .
  then have i: "uint v = 0 \<or> uint v = 1" "uint v = of_bool (bit v 0)" by auto
  then show "case r of (v, t) \<Rightarrow> bits_took later 1 s t \<and> (uint v = 0 \<or> uint v = 1) \<and>
    (\<forall>x xs. stream later s = x # xs \<longrightarrow> stream later t = xs \<and> bad t = bad s \<and> uint v = of_bool x)"
    using r i bits_tookD(5) [OF r(2)] by auto
qed simp

section \<open>Huffman codes\<close>

definition huff_ok :: "huff \<Rightarrow> bool" where
  "huff_ok h \<longleftrightarrow> length (h_count h) = 16 \<and> length (h_symbol h) = 288 \<and>
    (\<Sum>l = 1..<16. uint (h_count h ! l)) \<le> 288"

lemma or_bit: "even c \<Longrightarrow> b = 0 \<or> b = 1 \<Longrightarrow> c OR b = c + b" for b c :: int
  by (auto simp: or_one_eq)

lemma count_sum_le:
  assumes "huff_ok h" "k \<le> 16"
  shows "(\<Sum>l = 1..<k. uint (h_count h ! l)) \<le> 288" "0 \<le> (\<Sum>l = 1..<k. uint (h_count h ! l))"
proof -
  have "(\<Sum>l = 1..<k. uint (h_count h ! l)) \<le> (\<Sum>l = 1..<16. uint (h_count h ! l))"
    by (rule sum_mono2) (use assms in auto)
  then show "(\<Sum>l = 1..<k. uint (h_count h ! l)) \<le> 288" using assms(1) by (simp add: huff_ok_def)
qed (simp add: sum_nonneg)

lemma decode_loop_safe:
  assumes f: "feeds io later" and h: "huff_ok h"
  shows "bits_ok s \<Longrightarrow> 1 \<le> k \<Longrightarrow> k \<le> 16 \<Longrightarrow> 0 \<le> first \<Longrightarrow> first \<le> cd \<Longrightarrow> even cd \<Longrightarrow>
    index = (\<Sum>l = 1..<k. uint (h_count h ! l)) \<Longrightarrow>
    gives (decode_loop io h [k..<16] cd first index s) (\<lambda>(r, t). \<exists>n. bits_took later n s t \<and> (k < 16 \<longrightarrow> 1 \<le> n))"
proof (induction "16 - k" arbitrary: k cd first index s)
  case 0
  then show ?case by (auto intro!: exI [of _ 0] took_refl)
next
  case (Suc x)
  have k: "k < 16" using Suc.hyps(2) by simp
  have hl: "length (h_count h) = 16" "length (h_symbol h) = 288" using h by (simp_all add: huff_ok_def)
  show ?case unfolding upt_conv_Cons [OF k] decode_loop.simps
  proof (rule gives_step [OF bit_spec [OF f Suc.prems(1)]], elim conjE)
    fix v t
    assume t: "bits_took later 1 s t" and v: "uint v = 0 \<or> uint v = 1"
    let ?c = "cd OR uint v" and ?n = "uint (h_count h ! k)"
    have c: "?c = cd + uint v" using Suc.prems(6) v by (rule or_bit)
    show "gives (let code1 = ?c in rd (h_count h) k \<bind> (\<lambda>c. let count = uint c in
        if code1 - count < first then rd_int (h_symbol h) (index + (code1 - first)) \<bind> (\<lambda>sy. Some (uint sy, t))
        else decode_loop io h [Suc k..<16] (2 * code1) (2 * (first + count)) (index + count) t))
      (\<lambda>(r, t). \<exists>n. bits_took later n s t \<and> (k < 16 \<longrightarrow> 1 \<le> n))"
    proof (cases "?c - ?n < first")
      case True
      have ge: "0 \<le> index" "0 \<le> ?c - first"
        using count_sum_le(2) [OF h Suc.prems(3)] Suc.prems(5,7) c v by auto
      have "index + ?n \<le> 288"
        using count_sum_le(1) [OF h, of "Suc k"] k Suc.prems(2,7) by (simp add: sum.atLeastLessThan_Suc)
      then have "nat (index + (?c - first)) < 288" using True by linarith
      moreover have "0 \<le> index + (?c - first)" using ge by simp
      ultimately show ?thesis using True t k hl by (auto simp: rd_int_def)
    next
      case False
      have "gives (decode_loop io h [Suc k..<16] (2 * ?c) (2 * (first + ?n)) (index + ?n) t)
        (\<lambda>(r, u). \<exists>n. bits_took later n t u \<and> (Suc k < 16 \<longrightarrow> 1 \<le> n))"
        by (rule Suc.hyps(1))
          (use Suc.hyps(2) Suc.prems False k bits_tookD(2) [OF t] in \<open>auto simp: sum.atLeastLessThan_Suc\<close>)
      then have "gives (decode_loop io h [Suc k..<16] (2 * ?c) (2 * (first + ?n)) (index + ?n) t)
        (\<lambda>(r, u). \<exists>n. bits_took later n s u \<and> (k < 16 \<longrightarrow> 1 \<le> n))"
        by (rule gives_mono) (use took_trans [OF t] in fastforce)
      then show ?thesis using False k hl by (simp add: Let_def)
    qed
  qed
qed

lemma decode_safe:
  assumes "feeds io later" "huff_ok h" "bits_ok s"
  shows "gives (decode io h s) (\<lambda>(r, t). \<exists>n. bits_took later n s t \<and> 1 \<le> n)"
  using decode_loop_safe [OF assms(1,2,3), of 1 0 0 0] by (simp add: decode_def)

section \<open>The window\<close>

definition win_ok :: "'e unpacker \<Rightarrow> bool" where
  "win_ok s \<longleftrightarrow> (\<exists>w. win s = Some w \<and> length w = unat (wsize s)) \<and> wpos s < wsize s"

definition only_window :: "'e unpacker \<Rightarrow> 'e unpacker \<Rightarrow> bool" where
  "only_window s t \<longleftrightarrow> (\<exists>i w p n b. t = s\<lparr>inp := i, win := w, wpos := p, total := n, wstop := b\<rparr>)"

lemma only_window_fields:
  assumes "only_window s t"
  shows "wsize t = wsize s" "bitbuf t = bitbuf s" "bitcnt t = bitcnt s" "lencode t = lencode s"
    "distcode t = distcode s" "lengths t = lengths s" "xz_head t = xz_head s" "rep0 t = rep0 s"
    "lstate t = lstate s" "lc t = lc s" "lp t = lp s" "pb t = pb s"
  using assms by (auto simp: only_window_def)

text \<open>Bytes are put out; the input stays as it is.\<close>

definition wrote :: "('e source \<Rightarrow> u8 list) \<Rightarrow> 'e unpacker \<Rightarrow> 'e unpacker \<Rightarrow> bool" where
  "wrote later s t \<longleftrightarrow> only_window s t \<and> win_ok t \<and> src_ok (inp t) \<and> sees later t = sees later s \<and>
    bad t = bad s \<and> i_count (inp t) = i_count (inp s)"

lemma wroteD:
  assumes "wrote later s t"
  shows "only_window s t" "win_ok t" "src_ok (inp t)" "sees later t = sees later s" "bad t = bad s"
    "i_count (inp t) = i_count (inp s)"
  using assms by (simp_all add: wrote_def)

lemma wrote_refl: "win_ok s \<Longrightarrow> src_ok (inp s) \<Longrightarrow> wrote later s s"
  by (auto simp: wrote_def only_window_def
      intro!: exI [of _ "inp s"] exI [of _ "win s"] exI [of _ "wpos s"] exI [of _ "total s"] exI [of _ "wstop s"])

lemma wrote_trans: "wrote later s t \<Longrightarrow> wrote later t u \<Longrightarrow> wrote later s u"
  unfolding wrote_def only_window_def by (elim exE conjE) (simp, blast)

lemma sink_call_spec:
  assumes "feeds io later" "sink_call io bs s = (ok, t)"
  shows "\<exists>w. t = s\<lparr>inp := (inp s)\<lparr>i_world := w\<rparr>\<rparr>" "sees later t = sees later s" "src_ok (inp t) = src_ok (inp s)"
    "bad t = bad s" "i_count (inp t) = i_count (inp s)"
  using assms(2) feeds_steady(3) [OF assms(1), of bs "inp s"]
  by (auto simp: sink_call_def view_def buffered_def src_ok_def split: prod.splits)

lemma put_safe:
  assumes f: "feeds io later" and w: "win_ok s" and i: "src_ok (inp s)"
  shows "gives (put io b s) (wrote later s)"
proof -
  obtain ws where ws: "win s = Some ws" "length ws = unat (wsize s)" "unat (wpos s) < unat (wsize s)"
    using w by (auto simp: win_ok_def word_nat)
  have u: "unat (wpos s + 1) = unat (wpos s) + 1" using ws(3) unat_bound [of "wsize s"] by (simp add: unat_add_small)
  define t where "t = s\<lparr>win := Some (ws[unat (wpos s) := b]), wpos := wpos s + 1, total := total s + 1\<rparr>"
  obtain ok v where sc: "sink_call io (take (unat (wsize s)) (ws[unat (wpos s) := b])) t = (ok, v)" by fastforce
  note S = sink_call_spec [OF f sc]
  have p: "put io b s = Some (if wpos s + 1 = wsize s then v\<lparr>wstop := wstop v \<or> \<not> ok, wpos := 0\<rparr> else t)"
  proof -
    have "put io b s = (if wpos t = wsize t then (case sink_call io (take (unat (wsize t)) (ws[unat (wpos s) := b])) t of
        (ac, s2) \<Rightarrow> Some (s2\<lparr>wstop := wstop s2 \<or> \<not> ac, wpos := 0\<rparr>)) else Some t)"
      using ws by (simp add: put_def Let_def t_def)
    moreover have "wsize t = wsize s" "wpos t = wpos s + 1" by (simp_all add: t_def)
    ultimately show ?thesis using sc by simp
  qed
  obtain w' where v: "v = t\<lparr>inp := (inp t)\<lparr>i_world := w'\<rparr>\<rparr>" using S(1) by blast
  have "wrote later s (v\<lparr>wstop := wstop v \<or> \<not> ok, wpos := 0\<rparr>)"
    unfolding wrote_def only_window_def
  proof (intro conjI)
    show "\<exists>i w p n b. v\<lparr>wstop := wstop v \<or> \<not> ok, wpos := 0\<rparr> = s\<lparr>inp := i, win := w, wpos := p, total := n, wstop := b\<rparr>"
      unfolding v t_def
      by (intro exI [of _ "(inp s)\<lparr>i_world := w'\<rparr>"] exI [of _ "Some (ws[unat (wpos s) := b])"]
          exI [of _ "0"] exI [of _ "total s + 1"] exI [of _ "wstop s \<or> \<not> ok"]) simp
    show "win_ok (v\<lparr>wstop := wstop v \<or> \<not> ok, wpos := 0\<rparr>)" using ws unfolding v t_def by (auto simp: win_ok_def word_nat)
  qed (use S i in \<open>simp_all add: t_def\<close>)
  moreover have "wrote later s t" if "wpos s + 1 \<noteq> wsize s"
    unfolding wrote_def only_window_def
  proof (intro conjI)
    show "\<exists>i w p n b. t = s\<lparr>inp := i, win := w, wpos := p, total := n, wstop := b\<rparr>"
      unfolding t_def by (intro exI [of _ "inp s"] exI [of _ "wstop s"] exI) simp
    show "win_ok t" using that ws u by (auto simp: win_ok_def t_def word_nat word_unat_eq_iff)
  qed (use i in \<open>simp_all add: t_def\<close>)
  ultimately show ?thesis by (simp add: p)
qed

lemma back_index:
  assumes w: "wpos s < wsize s" and d: "0 < unat d" "unat d \<le> unat (wsize s)"
  shows "unat (if d \<le> wpos s then wpos s - d else wpos s + wsize s - d) =
    (if unat d \<le> unat (wpos s) then unat (wpos s) - unat d else unat (wpos s) + unat (wsize s) - unat d)"
proof -
  have e: "wpos s + wsize s - d = wpos s + (wsize s - d)" by simp
  have m: "unat (wsize s - d) = unat (wsize s) - unat d" using d(2) by (rule unat_sub_le)
  show ?thesis
  proof (cases "unat d \<le> unat (wpos s)")
    case True
    then show ?thesis using unat_sub_le [OF True] by (simp add: word_nat)
  next
    case False
    have "unat (wpos s) + unat (wsize s - d) < 2 ^ LENGTH(32)" using False unat_bound [of "wsize s"] m d(2) by simp
    then have "unat (wpos s + wsize s - d) = unat (wpos s) + (unat (wsize s) - unat d)"
      unfolding e by (simp only: unat_add_small m)
    then show ?thesis using False d(2) by (simp add: word_nat)
  qed
qed

lemma back_safe:
  assumes w: "win_ok s" and d: "0 < unat d" "unat d \<le> unat (wsize s)"
  shows "gives (win_back d s) (\<lambda>_. True)"
proof -
  obtain ws where ws: "win s = Some ws" "length ws = unat (wsize s)" "wpos s < wsize s"
    using w by (auto simp: win_ok_def)
  have "unat (if d \<le> wpos s then wpos s - d else wpos s + wsize s - d) < length ws"
    unfolding back_index [OF ws(3) d] using ws d by (auto simp: word_nat)
  then show ?thesis by (simp add: win_back_def ws(1) del: if_split)
qed

lemma copy_loop_safe:
  assumes f: "feeds io later" and d: "0 < unat d" "unat d \<le> unat (wsize s)" and w: "win_ok s" "src_ok (inp s)"
  shows "gives (copy_loop io d n s) (wrote later s)"
  using d w
proof (induction n arbitrary: s)
  case 0
  then show ?case by (simp add: wrote_refl)
next
  case (Suc n)
  obtain b where b: "win_back d s = Some b" using back_safe [OF Suc.prems(3,1,2)] by (auto simp: gives_iff)
  show ?case unfolding copy_loop.simps b bind.bind_lunit
  proof (rule gives_then [OF put_safe [OF f Suc.prems(3,4)]])
    fix t
    assume t: "wrote later s t"
    note D = wroteD [OF t]
    have "gives (copy_loop io d n t) (wrote later t)"
      by (rule Suc.IH) (use Suc.prems D only_window_fields [OF D(1)] in simp_all)
    then show "gives (copy_loop io d n t) (wrote later s)" by (rule gives_mono) (rule wrote_trans [OF t])
  qed
qed

lemma copy_safe:
  assumes "feeds io later" "win_ok s" "src_ok (inp s)"
  shows "gives (copy io d n s) (\<lambda>(ok, t). wrote later s t \<and> (ok \<longrightarrow> 0 < unat d \<and> unat d \<le> unat (wsize s)))"
proof (cases "d = 0 \<or> total s < ucast d \<or> wsize s < d")
  case True
  then show ?thesis using assms by (auto simp: copy_def wrote_refl)
next
  case False
  then have d: "0 < unat d" "unat d \<le> unat (wsize s)" by (auto simp: word_nat unat_gt_0)
  show ?thesis using False d copy_loop_safe [OF assms(1) d assms(2,3), of "unat n"]
    by (auto simp: copy_def gives_iff)
qed

end
