(* ===== verification/Canon.thy ===== *)
theory Canon
  imports Bits
begin

text \<open>
  Canonical Huffman codes: what \<open>construct\<close> builds from a list of code lengths, and that \<open>decode\<close>
  gives back the symbol whose code is next in the stream.
\<close>

section \<open>The canonical code of a list of lengths\<close>

text \<open>The symbols with a shorter code; the place of a symbol among them all; its rank in its length.\<close>

definition start :: "nat list \<Rightarrow> nat \<Rightarrow> nat" where
  "start L l = (\<Sum>j = 1..<l. count_list L j)"

definition rank :: "nat list \<Rightarrow> nat \<Rightarrow> nat" where
  "rank L i = count_list (take i L) (L ! i)"

definition code_place :: "nat list \<Rightarrow> nat \<Rightarrow> nat" where
  "code_place L i = start L (L ! i) + rank L i"

text \<open>The code space of \<open>2 ^ l\<close> codes that the symbols of length at most \<open>l\<close> use up.\<close>

primrec used :: "nat list \<Rightarrow> nat \<Rightarrow> nat" where
  "used L 0 = 0"
| "used L (Suc l) = 2 * used L l + count_list L (Suc l)"

definition code_of :: "nat list \<Rightarrow> nat \<Rightarrow> nat" where
  "code_of L i = 2 * used L (L ! i - 1) + rank L i"

definition msb_bits :: "nat \<Rightarrow> nat \<Rightarrow> bool list" where
  "msb_bits m v = map (\<lambda>j. odd (v div 2 ^ (m - 1 - j))) [0..<m]"

definition code_bits :: "nat list \<Rightarrow> nat \<Rightarrow> bool list" where
  "code_bits L i = msb_bits (L ! i) (code_of L i)"

lemma start_Suc: "1 \<le> l \<Longrightarrow> start L (Suc l) = start L l + count_list L l"
  by (simp add: start_def sum.atLeastLessThan_Suc)

lemma start_mono: "l < m \<Longrightarrow> 1 \<le> l \<Longrightarrow> start L l + count_list L l \<le> start L m"
proof -
  assume a: "l < m" "1 \<le> l"
  have "start L (Suc l) \<le> start L m" unfolding start_def by (rule sum_mono2) (use a in auto)
  then show ?thesis using a by (simp add: start_Suc)
qed

lemma sum_count_le: "finite S \<Longrightarrow> (\<Sum>l \<in> S. count_list L l) \<le> length L"
  using sum_mono2 [of "S \<union> set L" S "count_list L"] sum_count_set [of L "S \<union> set L"] by simp

lemma start_le: "start L l \<le> length L"
  unfolding start_def by (rule sum_count_le) simp

lemma count_take_le: "count_list (take i L) x \<le> count_list L x"
  by (metis append_take_drop_id count_list_append le_add1)

lemma count_take_Suc: "i < length L \<Longrightarrow> count_list (take (Suc i) L) x = count_list (take i L) x + (if L ! i = x then 1 else 0)"
  by (simp add: take_Suc_conv_app_nth)

lemma rank_less: "i < length L \<Longrightarrow> rank L i < count_list L (L ! i)"
  using count_take_Suc [of i L "L ! i"] count_take_le [of "Suc i" L "L ! i"] by (simp add: rank_def)

lemma count_take_mono: "i \<le> j \<Longrightarrow> count_list (take i L) x \<le> count_list (take j L) x"
  using count_take_le [of i "take j L" x] by (simp add: min_def)

lemma place_inj:
  assumes "i < j" "j < length L" "L ! i \<noteq> 0" "L ! j \<noteq> 0"
  shows "code_place L i \<noteq> code_place L j"
proof -
  have r: "rank L i < count_list L (L ! i)" "rank L j < count_list L (L ! j)" using assms by (auto intro: rank_less)
  consider "L ! i = L ! j" | "L ! i < L ! j" | "L ! j < L ! i" by linarith
  then show ?thesis
  proof cases
    case 1
    have "rank L i < rank L j"
      using count_take_mono [of "Suc i" j L "L ! i"] assms 1 by (simp add: rank_def count_take_Suc)
    then show ?thesis using 1 by (simp add: code_place_def)
  next
    case 2
    then show ?thesis using start_mono [of "L ! i" "L ! j" L] assms r by (simp add: code_place_def)
  next
    case 3
    then show ?thesis using start_mono [of "L ! j" "L ! i" L] assms r by (simp add: code_place_def)
  qed
qed

lemma place_less: "i < length L \<Longrightarrow> L ! i \<noteq> 0 \<Longrightarrow> code_place L i < length L"
proof -
  assume a: "i < length L" "L ! i \<noteq> 0"
  have "start L (L ! i) + count_list L (L ! i) = start L (Suc (L ! i))" using a by (simp add: start_Suc)
  also have "\<dots> \<le> length L" by (rule start_le)
  finally show ?thesis using rank_less [OF a(1)] by (simp add: code_place_def)
qed

section \<open>What \<open>construct\<close> builds\<close>

lemma gives_for_upt:
  assumes "\<And>k t. a \<le> k \<Longrightarrow> k < n \<Longrightarrow> Q k t \<Longrightarrow> gives (f k t) (Q (Suc k))" "Q a s" "a \<le> n"
  shows "gives (for_each [a..<n] f s) (Q n)"
  using assms
proof (induction "n - a" arbitrary: a s)
  case (Suc x)
  have a: "a < n" using Suc.hyps(2) by simp
  show ?case unfolding upt_conv_Cons [OF a] for_each.simps
    by (rule gives_then [OF Suc.prems(1) [OF order_refl a Suc.prems(2)]], rule Suc.hyps(1))
      (use Suc.hyps(2) Suc.prems(1) a in auto)
qed simp

definition lens_of :: "u16 list \<Rightarrow> nat \<Rightarrow> nat list" where
  "lens_of ls n = map unat (take n ls)"

definition counts :: "nat list \<Rightarrow> u16 list \<Rightarrow> bool" where
  "counts L c \<longleftrightarrow> length c = 16 \<and> (\<forall>l < 16. unat (c ! l) = count_list L l)"

text \<open>A code that was built from the lengths \<open>L\<close>.\<close>

definition canon :: "nat list \<Rightarrow> huff \<Rightarrow> bool" where
  "canon L h \<longleftrightarrow> (\<forall>x \<in> set L. x \<le> 15) \<and> counts L (h_count h) \<and> length L \<le> 288 \<and> length (h_symbol h) = 288 \<and>
    (\<forall>l \<le> 15. used L l \<le> 2 ^ l) \<and>
    (\<forall>i < length L. L ! i \<noteq> 0 \<longrightarrow> unat (h_symbol h ! code_place L i) = i)"

lemma count_phase:
  assumes n: "n \<le> length ls" "n \<le> 288" and l: "\<forall>x \<in> set (lens_of ls n). x \<le> 15"
  shows "gives (for_each [0..<n] (count_step ls) (replicate 16 0)) (counts (lens_of ls n))"
proof -
  let ?L = "lens_of ls n"
  have ln: "length ?L = n" using n by (simp add: lens_of_def)
  have li: "?L ! k = unat (ls ! k)" "unat (ls ! k) \<le> 15" if "k < n" for k
    using that n l ln nth_mem [of k ?L] by (auto simp: lens_of_def)
  have "gives (for_each [0..<n] (count_step ls) (replicate 16 0)) (counts (take n ?L))"
  proof (rule gives_for_upt [where Q = "\<lambda>k. counts (take k ?L)"])
    fix k c
    assume k: "k < n" and c: "counts (take k ?L) c"
    let ?l = "unat (ls ! k)"
    have l16: "?l < 16" using li(2) [OF k] by simp
    have "count_list (take k ?L) ?l \<le> k" using count_le_length [of "take k ?L" ?l] ln k by simp
    then have "unat (c ! ?l + 1) = unat (c ! ?l) + 1"
      using c l16 k n by (intro trans [OF unat_add_small]) (auto simp: counts_def)
    then have "counts (take (Suc k) ?L) (c[?l := c ! ?l + 1])"
      using c k ln li(1) [OF k] by (auto simp: counts_def nth_list_update count_take_Suc)
    then show "gives (count_step ls k c) (counts (take (Suc k) ?L))"
      using k n c l16 by (simp add: count_step_def counts_def)
  qed (auto simp: counts_def)
  then show ?thesis by (simp add: ln)
qed

lemma left_over_spec:
  assumes c: "counts L c"
  shows "1 \<le> k \<Longrightarrow> k \<le> 16 \<Longrightarrow> left = 2 ^ (k - 1) - int (used L (k - 1)) \<Longrightarrow> \<forall>l < k. used L l \<le> 2 ^ l \<Longrightarrow>
    gives (left_over [k..<16] c left) (\<lambda>r. 0 \<le> r \<longrightarrow> (\<forall>l \<le> 15. used L l \<le> 2 ^ l))"
proof (induction "16 - k" arbitrary: k left)
  case (Suc x)
  have k: "k < 16" using Suc.hyps(2) by simp
  obtain j where j: "k = Suc j" using Suc.prems(1) by (cases k) auto
  have v: "rd c k = Some (c ! k)" "uint (c ! k) = int (count_list L k)"
    using c k by (simp_all add: counts_def rd_def uint_nat)
  have l1: "2 * left - uint (c ! k) = 2 ^ k - int (used L k)" using Suc.prems(3) v(2) by (simp add: j)
  show ?case
  proof (cases "2 * left - uint (c ! k) < 0")
    case True
    then show ?thesis by (simp add: upt_conv_Cons [OF k] v(1))
  next
    case False
    then have uk: "int (used L k) \<le> int (2 ^ k)" using l1 by simp
    have "gives (left_over [Suc k..<16] c (2 * left - uint (c ! k))) (\<lambda>r. 0 \<le> r \<longrightarrow> (\<forall>l \<le> 15. used L l \<le> 2 ^ l))"
      using Suc.hyps Suc.prems(4) k uk unfolding l1 of_nat_le_iff by (intro Suc.hyps(1)) (auto simp: less_Suc_eq)
    then show ?thesis using False by (simp add: upt_conv_Cons [OF k] v(1))
  qed
qed (auto simp: le_eq_less_or_eq)

lemma offs_phase:
  assumes c: "counts L c" and n: "length L \<le> 288"
  shows "gives (for_each [1..<15] (offs_step c) (replicate 16 0))
    (\<lambda>offs. length offs = 16 \<and> (\<forall>l. 1 \<le> l \<longrightarrow> l \<le> 15 \<longrightarrow> unat (offs ! l) = start L l))"
proof -
  have "gives (for_each [1..<15] (offs_step c) (replicate 16 0))
    (\<lambda>offs. length offs = 16 \<and> (\<forall>l. 1 \<le> l \<longrightarrow> l \<le> 15 \<longrightarrow> unat (offs ! l) = start L l))"
  proof (rule gives_for_upt [where Q = "\<lambda>k (offs :: u16 list). length offs = 16 \<and> (\<forall>l. 1 \<le> l \<longrightarrow> l \<le> k \<longrightarrow> unat (offs ! l) = start L l)"])
    fix k and offs :: "u16 list"
    assume k: "1 \<le> k" "k < 15" and o: "length offs = 16 \<and> (\<forall>l. 1 \<le> l \<longrightarrow> l \<le> k \<longrightarrow> unat (offs ! l) = start L l)"
    have "unat (offs ! k) = start L k" "unat (c ! k) = count_list L k" using o k c by (auto simp: counts_def)
    moreover have "start L k + count_list L k \<le> 288" using start_Suc [OF k(1), of L] start_le [of L "Suc k"] n by simp
    ultimately have "unat (offs ! k + c ! k) = start L (Suc k)" using k by (subst unat_add_small) (simp_all add: start_Suc)
    then show "gives (offs_step c k offs) (\<lambda>offs. length offs = 16 \<and> (\<forall>l. 1 \<le> l \<longrightarrow> l \<le> Suc k \<longrightarrow> unat (offs ! l) = start L l))"
      using o k c by (auto simp: offs_step_def counts_def nth_list_update le_Suc_eq)
  qed (auto simp: start_def le_Suc_eq)
  then show ?thesis .
qed

lemma symbol_phase:
  assumes n: "n \<le> length ls" "n \<le> 288" and l: "\<forall>x \<in> set (lens_of ls n). x \<le> 15" and y: "length syms = 288"
    and o: "length offs = 16" "\<forall>l. 1 \<le> l \<longrightarrow> l \<le> 15 \<longrightarrow> unat (offs ! l) = start (lens_of ls n) l"
  shows "gives (for_each [0..<n] (symbol_step ls) (offs, syms)) (\<lambda>(offs, syms). length syms = 288 \<and>
    (\<forall>i < n. lens_of ls n ! i \<noteq> 0 \<longrightarrow> unat (syms ! code_place (lens_of ls n) i) = i))"
proof -
  let ?L = "lens_of ls n"
  have ln: "length ?L = n" using n by (simp add: lens_of_def)
  have li: "?L ! k = unat (ls ! k)" "unat (ls ! k) \<le> 15" if "k < n" for k
    using that n l ln nth_mem [of k ?L] by (auto simp: lens_of_def)
  define Q where "Q k = (\<lambda>(offs :: u16 list, syms :: u16 list). length offs = 16 \<and> length syms = 288 \<and>
    (\<forall>l. 1 \<le> l \<longrightarrow> l \<le> 15 \<longrightarrow> unat (offs ! l) = start ?L l + count_list (take k ?L) l) \<and>
    (\<forall>i < k. ?L ! i \<noteq> 0 \<longrightarrow> unat (syms ! code_place ?L i) = i))" for k
  have "gives (for_each [0..<n] (symbol_step ls) (offs, syms)) (Q n)"
  proof (rule gives_for_upt)
    fix k r
    assume k: "k < n" and r: "Q k r"
    obtain offs syms where rr: "r = (offs, syms)" by fastforce
    have o: "length offs = 16" "length syms = 288"
      "\<And>l. 1 \<le> l \<Longrightarrow> l \<le> 15 \<Longrightarrow> unat (offs ! l) = start ?L l + count_list (take k ?L) l"
      "\<And>i. i < k \<Longrightarrow> ?L ! i \<noteq> 0 \<Longrightarrow> unat (syms ! code_place ?L i) = i"
      using r by (auto simp: Q_def rr)
    let ?l = "unat (ls ! k)"
    have kl: "k < length ?L" "rd ls k = Some (ls ! k)" using k ln n by auto
    show "gives (symbol_step ls k r) (Q (Suc k))"
    proof (cases "ls ! k = 0")
      case True
      then have z: "?L ! k = 0" using li(1) [OF k] by simp
      have "count_list (take (Suc k) ?L) l = count_list (take k ?L) l" if "1 \<le> l" for l
        using that z by (simp add: count_take_Suc [OF kl(1)])
      then show ?thesis using o True kl(2) z by (auto simp: symbol_step_def rr Q_def less_Suc_eq)
    next
      case False
      then have nz: "1 \<le> ?l" "?L ! k \<noteq> 0" using li(1) [OF k] by (auto simp: unat_gt_0 Suc_le_eq)
      have op: "unat (offs ! ?l) = code_place ?L k" using o(3) [OF nz(1) li(2) [OF k]] by (simp add: code_place_def rank_def li(1) [OF k])
      have pl: "code_place ?L k < 288" using place_less [OF kl(1) nz(2)] ln n by simp
      have st: "symbol_step ls k r = Some (offs[?l := offs ! ?l + 1], syms[code_place ?L k := of_nat k])"
        using False kl(2) o(1,2) li(2) [OF k] pl by (simp add: symbol_step_def rr op)
      have u1: "unat (offs ! ?l + 1) = code_place ?L k + 1" using op pl by (subst unat_add_small) simp_all
      have "unat (offs[?l := offs ! ?l + 1] ! l) = start ?L l + count_list (take (Suc k) ?L) l" if "1 \<le> l" "l \<le> 15" for l
        using that o(1) o(3) [OF that] u1 li [OF k] by (auto simp: nth_list_update count_take_Suc [OF kl(1)] code_place_def rank_def)
      moreover have "unat (syms[code_place ?L k := of_nat k] ! code_place ?L i) = i" if i: "i < Suc k" "?L ! i \<noteq> 0" for i
      proof (cases "i = k")
        case True
        then show ?thesis using o(2) pl k n by (simp add: unat_of_nat)
      next
        case False
        then have "i < k" using i by simp
        then show ?thesis using place_inj [OF _ kl(1) i(2) nz(2)] o(4) [OF _ i(2)] by simp
      qed
      ultimately show ?thesis using st o(1,2) by (auto simp: Q_def)
    qed
  qed (use o y in \<open>auto simp: Q_def\<close>)
  then show ?thesis by (rule gives_mono) (auto simp: Q_def)
qed

lemma counts_huff_ok:
  assumes "counts L (h_count h)" "length L \<le> 288" "length (h_symbol h) = 288"
  shows "huff_ok h"
proof -
  have "(\<Sum>l = 1..<16. uint (h_count h ! l)) = (\<Sum>l = 1..<16. int (count_list L l))"
    by (rule sum.cong) (use assms(1) in \<open>auto simp: counts_def uint_nat\<close>)
  also have "\<dots> = int (start L 16)" by (simp add: start_def)
  finally show ?thesis using assms start_le [of L 16] by (simp add: huff_ok_def counts_def)
qed

lemma no_codes:
  assumes "count_list L 0 = length L"
  shows "used L l = 0" "i < length L \<Longrightarrow> L ! i = 0"
proof -
  have z: "count_list L l = 0" if "l \<noteq> 0" for l using sum_count_le [of "{0, l}" L] that assms by simp
  show "used L l = 0" by (induction l) (simp_all add: z)
  show "L ! i = 0" if "i < length L" using z [of "L ! i"] nth_mem [OF that] by (metis count_list_0_iff)
qed

lemma construct_spec:
  assumes n: "n \<le> length ls" "n \<le> 288" and l: "\<forall>x \<in> set (lens_of ls n). x \<le> 15" and y: "length (h_symbol h) = 288"
  shows "gives (construct h ls n) (\<lambda>(left, g). huff_ok g \<and> (0 \<le> left \<longrightarrow> canon (lens_of ls n) g))"
  unfolding construct_def
proof (rule gives_then [OF count_phase [OF n l]])
  let ?L = "lens_of ls n"
  have ln: "length ?L = n" using n by (simp add: lens_of_def)
  fix c
  assume c: "counts ?L c"
  have ok: "huff_ok (h\<lparr>h_count := c\<rparr>)" using c ln n y by (intro counts_huff_ok [of ?L]) simp_all
  have z: "rd c 0 = Some (c ! 0)" "unat (c ! 0) = count_list ?L 0" using c by (simp_all add: counts_def)
  let ?go = "left_over [1..<16] c 1 \<bind> (\<lambda>left. if left < 0 then Some (left, h\<lparr>h_count := c\<rparr>)
    else for_each [1..<15] (offs_step c) (replicate 16 0) \<bind> (\<lambda>offs.
      for_each [0..<n] (symbol_step ls) (offs, h_symbol h) \<bind> (\<lambda>(offs1, syms). Some (left, h\<lparr>h_count := c, h_symbol := syms\<rparr>))))"
  have go: "gives ?go (\<lambda>(left, g). huff_ok g \<and> (0 \<le> left \<longrightarrow> canon ?L g))"
  proof (rule gives_then [OF left_over_spec [OF c, of 1 1]])
    fix left :: int
    assume u: "0 \<le> left \<longrightarrow> (\<forall>l \<le> 15. used ?L l \<le> 2 ^ l)"
    show "gives (if left < 0 then Some (left, h\<lparr>h_count := c\<rparr>)
      else for_each [1..<15] (offs_step c) (replicate 16 0) \<bind> (\<lambda>offs.
        for_each [0..<n] (symbol_step ls) (offs, h_symbol h) \<bind> (\<lambda>(offs1, syms). Some (left, h\<lparr>h_count := c, h_symbol := syms\<rparr>))))
      (\<lambda>(left, g). huff_ok g \<and> (0 \<le> left \<longrightarrow> canon ?L g))"
    proof (cases "left < 0")
      case False
      have "gives (for_each [1..<15] (offs_step c) (replicate 16 0) \<bind> (\<lambda>offs.
        for_each [0..<n] (symbol_step ls) (offs, h_symbol h) \<bind> (\<lambda>(offs1, syms). Some (left, h\<lparr>h_count := c, h_symbol := syms\<rparr>))))
        (\<lambda>(left, g). huff_ok g \<and> (0 \<le> left \<longrightarrow> canon ?L g))"
      proof (rule gives_then [OF offs_phase [OF c]], simp add: ln n, elim conjE, rule gives_step)
        fix offs :: "u16 list"
        assume "length offs = 16" "\<forall>l. 1 \<le> l \<longrightarrow> l \<le> 15 \<longrightarrow> unat (offs ! l) = start ?L l"
        then show "gives (for_each [0..<n] (symbol_step ls) (offs, h_symbol h)) (\<lambda>(offs, syms). length syms = 288 \<and>
          (\<forall>i < n. ?L ! i \<noteq> 0 \<longrightarrow> unat (syms ! code_place ?L i) = i))" by (rule symbol_phase [OF n l y])
      next
        fix offs1 :: "u16 list" and syms :: "u16 list"
        assume s: "length syms = 288 \<and> (\<forall>i < n. ?L ! i \<noteq> 0 \<longrightarrow> unat (syms ! code_place ?L i) = i)"
        then have "huff_ok (h\<lparr>h_count := c, h_symbol := syms\<rparr>)" using c ln n by (intro counts_huff_ok [of ?L]) simp_all
        then show "gives (Some (left, h\<lparr>h_count := c, h_symbol := syms\<rparr>)) (\<lambda>(left, g). huff_ok g \<and> (0 \<le> left \<longrightarrow> canon ?L g))"
          using s u c l n False by (simp add: canon_def ln)
      qed
      then show ?thesis using False by simp
    qed (use ok in simp)
  qed simp_all
  have "canon ?L (h\<lparr>h_count := c\<rparr>)" if "unat (c ! 0) = n"
    using that no_codes [of ?L] c l n y by (simp add: canon_def ln z(2))
  then show "gives (rd c 0 \<bind> (\<lambda>z. if unat z = n then Some (0, h\<lparr>h_count := c\<rparr>) else ?go)) (\<lambda>(left, g). huff_ok g \<and> (0 \<le> left \<longrightarrow> canon ?L g))"
    unfolding z(1) bind.bind_lunit using go ok by (cases "unat (c ! 0) = n") simp_all
qed

section \<open>Decoding\<close>

lemma used_shift: "k \<le> m \<Longrightarrow> 2 ^ (m - k) * used L k \<le> used L m"
proof (induction m)
  case (Suc m)
  then show ?case by (cases "k = Suc m") (auto simp: Suc_diff_le)
qed simp

lemma code_of_bounds:
  assumes "i < length L" "L ! i \<noteq> 0"
  shows "code_of L i < used L (L ! i)" "k < L ! i \<Longrightarrow> used L k \<le> code_of L i div 2 ^ (L ! i - k)"
proof -
  obtain m where m: "L ! i = Suc m" using assms(2) by (cases "L ! i") auto
  show "code_of L i < used L (L ! i)" using rank_less [OF assms(1)] by (simp add: code_of_def m)
  show "used L k \<le> code_of L i div 2 ^ (L ! i - k)" if "k < L ! i"
  proof -
    have "2 ^ (m - k) * used L k \<le> used L m" using that m by (intro used_shift) simp
    then have "used L k * 2 ^ (L ! i - k) \<le> code_of L i" using that m by (simp add: code_of_def Suc_diff_le less_Suc_eq_le mult.commute mult.left_commute)
    then show ?thesis by (simp add: less_eq_div_iff_mult_less_eq)
  qed
qed

lemma halve: "int q = 2 * int (q div 2) + of_bool (odd q)"
  by (cases "odd q") (auto elim!: oddE evenE)

lemma decode_loop_canon:
  assumes f: "feeds io later" and h: "canon L h" and i: "i < length L" "L ! i = m" "m \<noteq> 0"
  shows "bits_ok s \<Longrightarrow> 1 \<le> k \<Longrightarrow> k \<le> m \<Longrightarrow> stream later s = drop (k - 1) (code_bits L i) @ ys \<Longrightarrow>
    gives (decode_loop io h [k..<16] (2 * int (code_of L i div 2 ^ (m - (k - 1)))) (2 * int (used L (k - 1))) (int (start L k)) s)
      (\<lambda>(r, t). r = int i \<and> only_input s t \<and> bits_ok t \<and> bad t = bad s \<and> stream later t = ys)"
proof (induction "m - k" arbitrary: k s rule: less_induct)
  case less
  let ?c = "code_of L i"
  have m15: "m \<le> 15" using h i nth_mem by (auto simp: canon_def)
  have k: "k < 16" "k \<le> m" using less.prems(3) m15 by auto
  have hc: "length (h_count h) = 16" "unat (h_count h ! k) = count_list L k" using h k by (auto simp: canon_def counts_def)
  then have n: "uint (h_count h ! k) = int (count_list L k)" by (simp add: uint_nat)
  obtain j where j: "k = Suc j" using less.prems(2) by (cases k) auto
  have st: "stream later s = odd (?c div 2 ^ (m - k)) # drop k (code_bits L i) @ ys"
  proof -
    have "drop j (code_bits L i) = odd (?c div 2 ^ (m - k)) # drop k (code_bits L i)"
      unfolding code_bits_def msb_bits_def i(2) using k
      unfolding drop_map drop_upt j by (subst upt_conv_Cons) simp_all
    then show ?thesis using less.prems(4) by (simp add: j)
  qed
  have half: "?c div 2 ^ (m - j) = ?c div 2 ^ (m - k) div 2" using k by (simp add: j Suc_diff_Suc [symmetric] div_mult2_eq [symmetric] power_Suc2 del: power_Suc)
  show ?case unfolding upt_conv_Cons [OF k(1)] decode_loop.simps
  proof (rule gives_step [OF bit_spec [OF f less.prems(1)]], elim conjE)
    fix v t
    assume t: "bits_took later 1 s t" and v: "uint v = 0 \<or> uint v = 1"
      and w: "\<forall>x xs. stream later s = x # xs \<longrightarrow> stream later t = xs \<and> bad t = bad s \<and> uint v = of_bool x"
    have w': "stream later t = drop k (code_bits L i) @ ys" "bad t = bad s" "uint v = of_bool (odd (?c div 2 ^ (m - k)))"
      using w st by blast+
    have cd: "2 * int (?c div 2 ^ (m - (k - 1))) OR uint v = int (?c div 2 ^ (m - k))"
    proof -
      have "2 * int (?c div 2 ^ (m - (k - 1))) OR uint v = 2 * int (?c div 2 ^ (m - j)) + uint v"
        unfolding j diff_Suc_1 by (rule or_bit [OF _ v]) simp
      also have "\<dots> = int (?c div 2 ^ (m - k))" unfolding half w'(3) by (rule halve [symmetric])
      finally show ?thesis .
    qed
    have us: "int (used L k) = 2 * int (used L (k - 1)) + int (count_list L k)" by (simp add: j)
    show "gives (let code1 = 2 * int (?c div 2 ^ (m - (k - 1))) OR uint v in rd (h_count h) k \<bind> (\<lambda>c. let count = uint c in
        if code1 - count < 2 * int (used L (k - 1)) then rd_int (h_symbol h) (int (start L k) + (code1 - 2 * int (used L (k - 1)))) \<bind> (\<lambda>sy. Some (uint sy, t))
        else decode_loop io h [Suc k..<16] (2 * code1) (2 * (2 * int (used L (k - 1)) + count)) (int (start L k) + count) t))
      (\<lambda>(r, t). r = int i \<and> only_input s t \<and> bits_ok t \<and> bad t = bad s \<and> stream later t = ys)"
    proof (cases "k = m")
      case True
      have b: "int ?c < int (used L m)" "2 * int (used L (m - 1)) \<le> int ?c" "int ?c - 2 * int (used L (m - 1)) = int (rank L i)"
        using code_of_bounds(1) [OF i(1)] i(2,3) by (auto simp: code_of_def)
      have pl: "code_place L i < 288" "unat (h_symbol h ! code_place L i) = i" "length (h_symbol h) = 288"
        using h i place_less [OF i(1)] by (auto simp: canon_def)
      have p: "int (start L k) + (int ?c - 2 * int (used L (m - 1))) = int (code_place L i)" unfolding b(3) True code_place_def i(2) by simp
      have "rd_int (h_symbol h) (int (code_place L i)) = Some (h_symbol h ! code_place L i)" using pl by (simp add: rd_int_def)
      moreover have "uint (h_symbol h ! code_place L i) = int i" using pl(2) by (simp add: uint_nat)
      moreover have "int ?c - int (count_list L m) < 2 * int (used L (m - 1))" using b(1) us True by simp
      moreover have "drop k (code_bits L i) = []" by (simp add: True code_bits_def msb_bits_def i(2))
      ultimately show ?thesis unfolding cd using hc n w' bits_tookD(1,2) [OF t] k p True by (simp add: Let_def)
    next
      case False
      then have km: "k < m" using k by simp
      have "used L k \<le> ?c div 2 ^ (m - k)" using code_of_bounds(2) [OF i(1)] i(2,3) km by simp
      then have nlt: "\<not> int (?c div 2 ^ (m - k)) - int (count_list L k) < 2 * int (used L (k - 1))" using us by linarith
      have g: "gives (decode_loop io h [Suc k..<16] (2 * int (?c div 2 ^ (m - (Suc k - 1)))) (2 * int (used L (Suc k - 1))) (int (start L (Suc k))) t)
        (\<lambda>(r, u). r = int i \<and> only_input t u \<and> bits_ok u \<and> bad u = bad t \<and> stream later u = ys)"
        by (rule less.hyps) (use km w' bits_tookD(2) [OF t] in auto)
      have e: "2 * (2 * int (used L (k - 1)) + int (count_list L k)) = 2 * int (used L (Suc k - 1))"
        "int (start L k) + int (count_list L k) = int (start L (Suc k))" "m - k = m - (Suc k - 1)"
        using us start_Suc [OF less.prems(2), of L] by simp_all
      have "gives (decode_loop io h [Suc k..<16] (2 * int (?c div 2 ^ (m - k))) (2 * (2 * int (used L (k - 1)) + int (count_list L k))) (int (start L k) + int (count_list L k)) t)
        (\<lambda>(r, u). r = int i \<and> only_input s u \<and> bits_ok u \<and> bad u = bad s \<and> stream later u = ys)"
        unfolding e
      proof (rule gives_mono [OF g], clarify)
        fix u
        assume "only_input t u" "bits_ok u" "bad u = bad t"
        then show "int i = int i \<and> only_input s u \<and> bits_ok u \<and> bad u = bad s \<and> stream later u = stream later u"
          using only_input_trans [OF bits_tookD(1) [OF t]] w'(2) by blast
      qed
      then show ?thesis unfolding cd using hc n k nlt by (simp add: Let_def)
    qed
  qed
qed

text \<open>The symbol whose code comes next.\<close>

lemma decode_canon:
  assumes f: "feeds io later" and h: "canon L h" and i: "i < length L" "L ! i \<noteq> 0"
    and s: "bits_ok s" "stream later s = code_bits L i @ ys"
  shows "gives (decode io h s) (\<lambda>(r, t). r = int i \<and> only_input s t \<and> bits_ok t \<and> bad t = bad s \<and> stream later t = ys)"
proof -
  have "code_of L i < 2 ^ (L ! i)"
  proof -
    have "used L (L ! i) \<le> 2 ^ (L ! i)" using h i by (auto simp: canon_def)
    then show ?thesis using code_of_bounds(1) [OF i] by linarith
  qed
  then show ?thesis using decode_loop_canon [OF f h i(1) refl i(2) s(1), of 1 ys] s(2) i(2)
    by (simp add: decode_def start_def)
qed

end
