(* ===== verification/Gunzip.thy ===== *)
theory Gunzip
  imports Canon
begin

text \<open>
  \<open>gunzip\<close> on any finite input: with fuel for the bits of the input it returns, all its accesses
  inside their arrays, and leaves the decoder's tables as the next call needs them.
\<close>

section \<open>The invariant\<close>

text \<open>What holds between calls, and what holds while the window is open.\<close>

definition tables_ok :: "'e unpacker \<Rightarrow> bool" where
  "tables_ok s \<longleftrightarrow> huff_ok (lencode s) \<and> huff_ok (distcode s) \<and> length (lengths s) = 320 \<and>
    (\<forall>x \<in> set (lengths s). unat x \<le> 15) \<and> length (xz_head s) = 1024"

definition gz_ok :: "'e unpacker \<Rightarrow> bool" where
  "gz_ok s \<longleftrightarrow> bits_ok s \<and> win_ok s \<and> tables_ok s"

text \<open>No more bits are to come than before, and a bad source stays bad.\<close>

definition fewer :: "('e source \<Rightarrow> u8 list) \<Rightarrow> 'e unpacker \<Rightarrow> 'e unpacker \<Rightarrow> bool" where
  "fewer later s t \<longleftrightarrow> (bad s \<longrightarrow> bad t) \<and> (\<not> bad t \<longrightarrow> length (stream later t) \<le> length (stream later s))"

lemma fewer_refl [simp]: "fewer later s s"
  by (simp add: fewer_def)

lemma fewer_trans: "fewer later s t \<Longrightarrow> fewer later t u \<Longrightarrow> fewer later s u"
  by (auto simp: fewer_def)

lemma took_fewer: "bits_took later n s t \<Longrightarrow> fewer later s t"
  using bits_tookD(3,4) by (fastforce simp: fewer_def)

lemma gz_ok_took:
  assumes "bits_took later n s t" "gz_ok s"
  shows "gz_ok t"
  using assms(2) bits_tookD(1,2) [OF assms(1)] by (simp add: gz_ok_def win_ok_def tables_ok_def only_input_fields)

lemma wrote_stream: "wrote later s t \<Longrightarrow> stream later t = stream later s"
  using wroteD(1,4) [of later s t] by (simp add: stream_def only_window_fields)

lemma gz_ok_wrote:
  assumes "wrote later s t" "gz_ok s"
  shows "gz_ok t" "fewer later s t"
  using assms(2) wroteD [OF assms(1)] wrote_stream [OF assms(1)]
  by (simp_all add: gz_ok_def tables_ok_def bits_ok_def fewer_def only_window_fields)

lemma gz_okD:
  assumes "gz_ok s"
  shows "bits_ok s" "win_ok s" "src_ok (inp s)" "huff_ok (lencode s)" "huff_ok (distcode s)"
    "length (lengths s) = 320" "\<forall>x \<in> set (lengths s). unat x \<le> 15"
  using assms by (auto simp: gz_ok_def bits_ok_def tables_ok_def)

lemma byte_took:
  assumes "feeds io later" "bits_ok s"
  shows "gives (byte_in io s) (\<lambda>(b, t). \<exists>i. t = s\<lparr>inp := i\<rparr> \<and> bits_ok t \<and> (bad s \<longrightarrow> bad t) \<and>
    (if sees later s = [] then bad t else bad t = bad s \<and> b # sees later t = sees later s))"
proof (cases "sees later s")
  case Nil
  show ?thesis by (rule gives_mono [OF byte_in_spec [OF assms(1)]]) (use assms(2) Nil in \<open>auto simp: bits_ok_def\<close>)
next
  case (Cons x xs)
  show ?thesis by (rule gives_mono [OF byte_in_spec [OF assms(1)]]) (use assms(2) Cons in \<open>auto simp: bits_ok_def\<close>)
qed

lemma gz_byte:
  assumes "feeds io later" "gz_ok s"
  shows "gives (byte_in io s) (\<lambda>(b, t). gz_ok t \<and> fewer later s t)"
proof (rule gives_mono [OF byte_took [OF assms(1) gz_okD(1) [OF assms(2)]]], clarify)
  fix b i
  let ?t = "s\<lparr>inp := i\<rparr>"
  assume t: "bits_ok ?t" "bad s \<longrightarrow> bad ?t" "if sees later s = [] then bad ?t else bad ?t = bad s \<and> b # sees later ?t = sees later s"
  have "\<not> bad ?t \<Longrightarrow> length (sees later ?t) \<le> length (sees later s)" using t(3) by (metis length_Cons le_SucI order_refl)
  then show "gz_ok ?t \<and> fewer later s ?t" using t assms(2)
    by (auto simp: gz_ok_def win_ok_def tables_ok_def fewer_def stream_def)
qed

text \<open>The steps of a block, with the invariant carried along.\<close>

lemma gz_bits:
  assumes "feeds io later" "gz_ok s" "need \<le> 24"
  shows "gives (bits io need s) (\<lambda>(v, t). gz_ok t \<and> fewer later s t \<and> bits_took later need s t \<and> unat v < 2 ^ need)"
  by (rule gives_mono [OF bits_spec [OF assms(1) gz_okD(1) [OF assms(2)] assms(3)]])
    (use assms(2) in \<open>auto intro: gz_ok_took took_fewer clean_unat\<close>)

lemma gz_decode:
  assumes "feeds io later" "huff_ok h" "gz_ok s"
  shows "gives (decode io h s) (\<lambda>(r, t). gz_ok t \<and> fewer later s t \<and>
    (\<not> bad t \<longrightarrow> length (stream later t) < length (stream later s)))"
proof (rule gives_mono [OF decode_safe [OF assms(1,2) gz_okD(1) [OF assms(3)]]], clarify)
  fix r t n
  assume t: "bits_took later n s t" "1 \<le> n"
  then have "\<not> bad t \<Longrightarrow> length (stream later t) < length (stream later s)" using bits_tookD(4) [OF t(1)] by auto
  then show "gz_ok t \<and> fewer later s t \<and> (\<not> bad t \<longrightarrow> length (stream later t) < length (stream later s))"
    using gz_ok_took [OF t(1) assms(3)] took_fewer [OF t(1)] by blast
qed

lemma gz_put:
  assumes "feeds io later" "gz_ok s"
  shows "gives (put io b s) (\<lambda>t. gz_ok t \<and> fewer later s t)"
  by (rule gives_mono [OF put_safe [OF assms(1) gz_okD(2,3) [OF assms(2)]]])
    (use gz_ok_wrote assms(2) in blast)

lemma gz_copy:
  assumes "feeds io later" "gz_ok s"
  shows "gives (copy io d n s) (\<lambda>(ok, t). gz_ok t \<and> fewer later s t)"
  by (rule gives_mono [OF copy_safe [OF assms(1) gz_okD(2,3) [OF assms(2)]]])
    (use gz_ok_wrote assms(2) in blast)

section \<open>Blocks\<close>

lemma tables_lengths:
  "length lbase = 29" "length lext = 29" "length dbase = 30" "length dext = 30"
  "\<forall>x \<in> set lext. x \<le> 24" "\<forall>x \<in> set dext. x \<le> 24"
  by (simp_all add: lbase_def lext_def dbase_def dext_def)

lemma rd_int_simp: "0 \<le> i \<Longrightarrow> i < int (length xs) \<Longrightarrow> rd_int xs i = Some (xs ! nat i)"
  by (simp add: rd_int_def nat_less_iff)

lemma rd_int_ext: "0 \<le> i \<Longrightarrow> i < int (length xs) \<Longrightarrow> \<forall>x \<in> set xs. x \<le> (24 :: nat) \<Longrightarrow> xs ! nat i \<le> 24"
  by (simp add: nat_less_iff)

lemma pair_step_safe:
  assumes f: "feeds io later" and s: "gz_ok s" and y: "0 \<le> sy"
  shows "gives (pair_step io sy s) (\<lambda>(ok, t). gz_ok t \<and> fewer later s t)"
proof (cases "29 \<le> sy")
  case False
  then have r: "rd_int lbase sy = Some (lbase ! nat sy)" "rd_int lext sy = Some (lext ! nat sy)" "lext ! nat sy \<le> 24"
    using y tables_lengths by (auto intro!: rd_int_simp rd_int_ext)
  have "gives (bits io (lext ! nat sy) s \<bind> (\<lambda>(b, s1). decode io (distcode s1) s1 \<bind> (\<lambda>(d, s2).
      if d < 0 \<or> 30 \<le> d then Some (False, s2)
      else rd_int dbase d \<bind> (\<lambda>dist. rd_int dext d \<bind> (\<lambda>more. bits io more s2 \<bind> (\<lambda>(c, s3). copy io (dist + c) (lbase ! nat sy + b) s3))))))
    (\<lambda>(ok, t). gz_ok t \<and> fewer later s t)"
  proof (rule gives_step [OF gz_bits [OF f s r(3)]], rule gives_step [OF gz_decode [OF f]], goal_cases)
    case (3 b s1 d s2)
    show ?case
    proof (cases "d < 0 \<or> 30 \<le> d")
      case False
      then have r: "rd_int dbase d = Some (dbase ! nat d)" "rd_int dext d = Some (dext ! nat d)" "dext ! nat d \<le> 24"
        using tables_lengths by (auto intro!: rd_int_simp rd_int_ext)
      have "gives (bits io (dext ! nat d) s2 \<bind> (\<lambda>(c, s3). copy io (dbase ! nat d + c) (lbase ! nat sy + b) s3))
        (\<lambda>(ok, t). gz_ok t \<and> fewer later s t)"
        by (rule gives_step [OF gz_bits [OF f _ r(3)]], use 3 in simp, rule gives_mono [OF gz_copy [OF f]], simp)
          (use 3 fewer_trans in blast)
      then show ?thesis using False by (simp add: r)
    qed (use 3 in \<open>auto intro: fewer_trans\<close>)
  qed (auto dest: gz_okD)
  then show ?thesis using False by (simp add: pair_step_def r)
qed (use s in \<open>simp add: pair_step_def\<close>)

definition enough :: "('e source \<Rightarrow> u8 list) \<Rightarrow> nat \<Rightarrow> 'e unpacker \<Rightarrow> bool" where
  "enough later fuel s \<longleftrightarrow> 0 < fuel \<and> (\<not> bad s \<longrightarrow> length (stream later s) < fuel)"

lemma codes_safe:
  assumes f: "feeds io later"
  shows "gz_ok s \<Longrightarrow> enough later fuel s \<Longrightarrow>
    gives (codes io fuel s) (\<lambda>(ok, t). gz_ok t \<and> fewer later s t \<and> (ok \<longrightarrow> \<not> bad t))"
proof (induction fuel arbitrary: s)
  case (Suc fuel)
  show ?case unfolding codes.simps
  proof (rule gives_step [OF gz_decode [OF f gz_okD(4) [OF Suc.prems(1)] Suc.prems(1)]], elim conjE, goal_cases)
    case (1 sy s1)
    note s1 = 1
    show ?case
    proof (cases "sy < 0 \<or> bad s1 \<or> wstop s1")
      case True
      then show ?thesis using s1 by simp
    next
      case False
      have less: "length (stream later s1) < fuel" using Suc.prems(2) s1 False by (auto simp: enough_def fewer_def)
      have nxt: "gives (codes io fuel t) (\<lambda>(ok, u). gz_ok u \<and> fewer later s u \<and> (ok \<longrightarrow> \<not> bad u))"
        if t: "gz_ok t" "fewer later s1 t" for t
      proof -
        have "enough later fuel t" using less t(2) by (auto simp: enough_def fewer_def)
        from Suc.IH [OF t(1) this] show ?thesis
          by (rule gives_mono) (use fewer_trans [OF s1(2) fewer_trans [OF t(2)]] in auto)
      qed
      consider "sy < 256" | "sy = 256" | "256 < sy" by linarith
      then show ?thesis
      proof cases
        case 1
        have "gives (put io (word_of_int sy) s1 \<bind> codes io fuel) (\<lambda>(ok, u). gz_ok u \<and> fewer later s u \<and> (ok \<longrightarrow> \<not> bad u))"
          by (rule gives_then [OF gz_put [OF f s1(1)]]) (use nxt in simp)
        then show ?thesis using False 1 by simp
      next
        case 2
        then show ?thesis using False s1 by simp
      next
        case 3
        have "gives (pair_step io (sy - 257) s1 \<bind> (\<lambda>(ok, s2). if ok then codes io fuel s2 else Some (False, s2)))
          (\<lambda>(ok, u). gz_ok u \<and> fewer later s u \<and> (ok \<longrightarrow> \<not> bad u))"
        proof (rule gives_step [OF pair_step_safe [OF f s1(1)]])
          show "0 \<le> sy - 257" using 3 by simp
          fix ok t
          assume "gz_ok t \<and> fewer later s1 t"
          then show "gives (if ok then codes io fuel t else Some (False, t)) (\<lambda>(ok, u). gz_ok u \<and> fewer later s u \<and> (ok \<longrightarrow> \<not> bad u))"
            using nxt [of t] fewer_trans [OF s1(2)] by auto
        qed
        then show ?thesis using False 3 by simp
      qed
    qed
  qed
qed (simp add: enough_def)

lemma pass_safe:
  assumes f: "feeds io later"
  shows "gz_ok s \<Longrightarrow> gives (pass io n s) (\<lambda>t. gz_ok t \<and> fewer later s t)"
proof (induction n arbitrary: s)
  case (Suc n)
  have "gives (byte_in io s \<bind> (\<lambda>(b, s1). put io b s1 \<bind> pass io n)) (\<lambda>t. gz_ok t \<and> fewer later s t)"
  proof (rule gives_step [OF gz_byte [OF f Suc.prems]], rule gives_then [OF gz_put [OF f]], simp)
    fix b t u
    assume "gz_ok t \<and> fewer later s t" "gz_ok u \<and> fewer later t u"
    then show "gives (pass io n u) (\<lambda>t. gz_ok t \<and> fewer later s t)"
      by (intro gives_mono [OF Suc.IH]) (auto intro: fewer_trans)
  qed
  then show ?case using Suc.prems by simp
qed simp

lemma gz_ok_flush: "gz_ok s \<Longrightarrow> gz_ok (s\<lparr>bitbuf := 0, bitcnt := 0\<rparr>)" "fewer later s (s\<lparr>bitbuf := 0, bitcnt := 0\<rparr>)"
  by (simp_all add: gz_ok_def bits_ok_def win_ok_def tables_ok_def clean_def fewer_def stream_def)

lemma stored_safe:
  assumes f: "feeds io later" and s: "gz_ok s"
  shows "gives (stored io s) (\<lambda>(ok, t). gz_ok t \<and> fewer later s t \<and> (ok \<longrightarrow> \<not> bad t))"
  unfolding stored_def Let_def
proof (rule gives_step [OF gz_byte [OF f gz_ok_flush(1) [OF s]]], rule gives_step [OF gz_byte [OF f]], simp,
    rule gives_step [OF gz_byte [OF f]], simp, rule gives_step [OF gz_byte [OF f]], simp, goal_cases)
  case (1 l0 s1 l1 s2 n0 s3 n1 s4)
  then have t: "gz_ok s4" "fewer later s s4" using gz_ok_flush(2) [of later s] by (auto dest: fewer_trans)
  have "gives (pass io n s4 \<bind> (\<lambda>s5. Some (\<not> bad s5, s5))) (\<lambda>(ok, t). gz_ok t \<and> fewer later s t \<and> (ok \<longrightarrow> \<not> bad t))" for n
    by (rule gives_then [OF pass_safe [OF f t(1)]]) (use fewer_trans [OF t(2)] in simp)
  then show ?case using t by simp
qed

definition lens_ok :: "u16 list \<Rightarrow> bool" where
  "lens_ok ls \<longleftrightarrow> length ls = 320 \<and> (\<forall>x \<in> set ls. unat x \<le> 15)"

lemma lens_ok_update: "lens_ok ls \<Longrightarrow> unat v \<le> 15 \<Longrightarrow> lens_ok (ls[i := v])"
  using set_update_subset_insert [of ls i v] by (auto simp: lens_ok_def)

lemma set_lengths_safe:
  assumes "lens_ok ls" "unat v \<le> 15" "\<forall>i \<in> set is. i < 320"
  shows "gives (set_lengths is v ls) lens_ok"
  unfolding set_lengths_def
proof (rule gives_for_each)
  fix i ls'
  assume "i \<in> set is" "lens_ok ls'"
  then show "gives (wr ls' i v) lens_ok"
    using assms lens_ok_update [of ls' v i] by (auto simp: wr_def lens_ok_def)
qed (rule assms(1))

lemma construct_safe:
  assumes "huff_ok h" "n \<le> length ls" "n \<le> 288" "\<forall>x \<in> set ls. unat x \<le> 15"
  shows "gives (construct h ls n) (\<lambda>(left, g). huff_ok g)"
  by (rule gives_mono [OF construct_spec [OF assms(2,3)]])
    (use assms in \<open>auto simp: huff_ok_def lens_of_def dest: in_set_takeD\<close>)

lemma gz_ok_tables:
  assumes "gz_ok s" "lens_ok ls" "huff_ok lh" "huff_ok dh"
  shows "gz_ok (s\<lparr>lengths := ls, lencode := lh, distcode := dh\<rparr>)" "gz_ok (s\<lparr>lengths := ls\<rparr>)" "gz_ok (s\<lparr>lencode := lh\<rparr>)"
    "gz_ok (s\<lparr>lencode := lh, distcode := dh\<rparr>)"
  using assms by (auto simp: gz_ok_def bits_ok_def win_ok_def tables_ok_def lens_ok_def)

lemma gz_ok_lens: "gz_ok s \<Longrightarrow> lens_ok (lengths s)"
  by (simp add: lens_ok_def gz_okD)

text \<open>The stream and the flags do not depend on the tables.\<close>

lemma same_input:
  assumes "inp t = inp s" "bitbuf t = bitbuf s" "bitcnt t = bitcnt s"
  shows "stream later t = stream later s" "fewer later s t" "fewer later t u \<longleftrightarrow> fewer later s u" "enough later n t \<longleftrightarrow> enough later n s"
  using assms by (simp_all add: stream_def fewer_def enough_def)

lemma fixed_safe:
  assumes f: "feeds io later" and s: "gz_ok s" "enough later fuel s"
  shows "gives (fixed_block io fuel s) (\<lambda>(ok, t). gz_ok t \<and> fewer later s t \<and> (ok \<longrightarrow> \<not> bad t))"
  unfolding fixed_block_def
proof (rule gives_then [OF set_lengths_safe [OF gz_ok_lens [OF s(1)]]], simp, simp,
    rule gives_then [OF set_lengths_safe], assumption, simp, simp,
    rule gives_then [OF set_lengths_safe], assumption, simp, simp,
    rule gives_then [OF set_lengths_safe], assumption, simp, simp,
    rule gives_step [OF construct_safe [OF gz_okD(4) [OF s(1)]]], goal_cases)
  case (4 l1 l2 l3 ls left lh)
  have ls: "lens_ok ls" using 4 by simp
  show ?case
  proof (rule gives_then [OF set_lengths_safe [OF ls]], simp, simp, rule gives_step [OF construct_safe [OF gz_okD(5) [OF s(1)]]], goal_cases)
    case (4 ls2 r dh)
    have "gz_ok (s\<lparr>lengths := ls2, lencode := lh, distcode := dh\<rparr>)"
      by (rule gz_ok_tables(1) [OF s(1)]) (use 4 \<open>huff_ok lh\<close> in simp_all)
    from codes_safe [OF f this, of fuel] show ?case using s(2) by (simp add: same_input [of "s\<lparr>lengths := ls2, lencode := lh, distcode := dh\<rparr>" s])
  qed (auto simp: lens_ok_def)
qed (auto simp: lens_ok_def)

lemma order_safe: "length order = 19" "i < 19 \<Longrightarrow> order ! i < 320"
proof -
  have "\<forall>x \<in> set order. x < 320" by (simp add: order_def)
  moreover show "length order = 19" by (simp add: order_def)
  ultimately show "i < 19 \<Longrightarrow> order ! i < 320" by simp
qed

lemma order_step_safe:
  assumes f: "feeds io later" and s: "gz_ok s" and i: "i < 19"
  shows "gives (order_step io ncode i s) (\<lambda>t. gz_ok t \<and> fewer later s t)"
proof -
  have r: "rd order i = Some (order ! i)" using i order_safe(1) by simp
  have "gives (if i < ncode then bits io 3 s else Some (0, s)) (\<lambda>(v, t). gz_ok t \<and> fewer later s t \<and> unat v < 8)"
    using s by (auto intro!: gives_mono [OF gz_bits [OF f s]])
  then show ?thesis unfolding order_step_def r bind.bind_lunit
  proof (rule gives_step, elim conjE)
    fix v :: u32 and t
    assume t: "gz_ok t" "fewer later s t" and v: "unat v < 8"
    have "unat (ucast v :: u16) \<le> 15" unfolding unsigned_ucast_eq by (rule order_trans [OF take_bit_nat_less_eq_self]) (use v in simp)
    then have "gz_ok (t\<lparr>lengths := (lengths t)[order ! i := ucast v]\<rparr>)"
      by (intro gz_ok_tables(2) [OF t(1)] lens_ok_update gz_ok_lens t(1)) (use gz_okD t(1) in blast)+
    then show "gives (wr (lengths t) (order ! i) (ucast v) \<bind> (\<lambda>ls. Some (t\<lparr>lengths := ls\<rparr>))) (\<lambda>t. gz_ok t \<and> fewer later s t)"
      using t order_safe(2) [OF i] gz_okD(6) [OF t(1)] by (simp add: fewer_def stream_def)
  qed
qed

lemma repeat_of_safe:
  assumes f: "feeds io later" and s: "gz_ok s" and i: "index < 320"
  shows "gives (repeat_of io sy index s) (\<lambda>(r, t). gz_ok t \<and> fewer later s t \<and>
    (case r of None \<Rightarrow> True | Some (len, n) \<Rightarrow> unat len \<le> 15))"
proof -
  have l: "unat (lengths s ! (index - 1)) \<le> 15" using gz_okD(6,7) [OF s] i by auto
  have b: "gives (bits io k s \<bind> (\<lambda>(b, s1). Some (Some (v, m + unat b), s1))) (\<lambda>(r, t). gz_ok t \<and> fewer later s t \<and>
    (case r of None \<Rightarrow> True | Some (len, n) \<Rightarrow> unat len \<le> 15))" if "k \<le> 24" "unat v \<le> 15" for k m and v :: u16
    by (rule gives_step [OF gz_bits [OF f s that(1)]]) (use that in simp)
  show ?thesis unfolding repeat_of_def
    using i s b [of 2 "lengths s ! (index - 1)" 3] b [of 3 0 3] b [of 7 0 11] l gz_okD(6) [OF s] by simp
qed

lemma read_lengths_safe:
  assumes f: "feeds io later" and most: "most \<le> 320"
  shows "gz_ok s \<Longrightarrow> gives (read_lengths io most index s) (\<lambda>(ok, t). gz_ok t \<and> fewer later s t)"
proof (induction "most - index" arbitrary: index s rule: less_induct)
  case less
  note s = less.prems
  show ?case
  proof (cases "index < most")
    case True
    have i: "index < 320" using True most by simp
    have go: "gives (read_lengths io most (index + n) (t\<lparr>lengths := ls\<rparr>)) (\<lambda>(ok, u). gz_ok u \<and> fewer later s u)"
      if t: "gz_ok t" "fewer later s t" and n: "0 < n" and ls: "lens_ok ls" for n t ls
    proof -
      have "gz_ok (t\<lparr>lengths := ls\<rparr>)" using gz_ok_tables(2) [OF t(1) ls gz_okD(4,5) [OF t(1)]] .
      from less.hyps [OF _ this, of "index + n"] have "gives (read_lengths io most (index + n) (t\<lparr>lengths := ls\<rparr>))
        (\<lambda>(ok, u). gz_ok u \<and> fewer later (t\<lparr>lengths := ls\<rparr>) u)" using True n by simp
      then show ?thesis
        by (rule gives_mono) (use True n t(2) in \<open>auto simp: same_input [of "t\<lparr>lengths := ls\<rparr>" t] intro: fewer_trans\<close>)
    qed
    show ?thesis unfolding read_lengths.simps [of io most index s] if_P [OF True]
    proof (rule gives_step [OF gz_decode [OF f gz_okD(4) [OF s] s]], elim conjE, goal_cases)
      case (1 sy t)
      have wl: "lengths t ! 0 = lengths t ! 0" "length (lengths t) = 320" using gz_okD(6) [OF 1(1)] by simp_all
      consider "sy < 0 \<or> bad t" | "0 \<le> sy" "\<not> bad t" "sy < 16" | "0 \<le> sy" "\<not> bad t" "16 \<le> sy" by linarith
      then show ?case
      proof cases
        case 2
        have "uint (word_of_int sy :: u16) = sy" using 2 by (simp add: uint_word_of_int_eq take_bit_int_eq_self)
        then have "unat (word_of_int sy :: u16) \<le> 15" using 2 by (simp add: unat_eq_nat_uint)
        then have "lens_ok ((lengths t)[index := word_of_int sy])" by (intro lens_ok_update gz_ok_lens 1)
        from go [OF 1(1,2) _ this, of 1] show ?thesis using 2 i wl by simp
      next
        case 3
        have "gives (repeat_of io sy index t \<bind> (\<lambda>(r, s2). case r of None \<Rightarrow> Some (False, s2)
           | Some (len, n) \<Rightarrow> if most < index + n then Some (False, s2)
             else set_lengths [index..<index + n] len (lengths s2) \<bind> (\<lambda>ls. read_lengths io most (index + n) (s2\<lparr>lengths := ls\<rparr>))))
          (\<lambda>(ok, u). gz_ok u \<and> fewer later s u)"
        proof (rule gives_then [OF repeat_of_safe [OF f 1(1) i]])
          fix q
          assume q: "repeat_of io sy index t = Some q" "case q of (r, u) \<Rightarrow> gz_ok u \<and> fewer later t u \<and>
            (case r of None \<Rightarrow> True | Some (len, n) \<Rightarrow> unat len \<le> 15)"
          obtain r u where qr: "q = (r, u)" by fastforce
          have u: "gz_ok u" "fewer later s u" using q(2) 1(2) fewer_trans by (auto simp: qr)
          show "gives (case q of (r, s2) \<Rightarrow> case r of None \<Rightarrow> Some (False, s2)
           | Some (len, n) \<Rightarrow> if most < index + n then Some (False, s2)
             else set_lengths [index..<index + n] len (lengths s2) \<bind> (\<lambda>ls. read_lengths io most (index + n) (s2\<lparr>lengths := ls\<rparr>)))
            (\<lambda>(ok, u). gz_ok u \<and> fewer later s u)"
          proof (cases r)
            case (Some p)
            obtain len n where p: "p = (len, n)" by fastforce
            have n: "3 \<le> n" "unat len \<le> 15" using q repeat_of_pos [of io sy index t len n u] by (auto simp: qr Some p)
            show ?thesis
            proof (cases "most < index + n")
              case False
              have "gives (set_lengths [index..<index + n] len (lengths u) \<bind> (\<lambda>ls. read_lengths io most (index + n) (u\<lparr>lengths := ls\<rparr>)))
                (\<lambda>(ok, u). gz_ok u \<and> fewer later s u)"
                by (rule gives_then [OF set_lengths_safe [OF gz_ok_lens [OF u(1)] n(2)]]) (use False most n(1) in \<open>auto intro: go [OF u]\<close>)
              then show ?thesis using False by (simp add: qr Some p)
            qed (use u in \<open>simp add: qr Some p\<close>)
          qed (use u in \<open>simp add: qr\<close>)
        qed
        then show ?thesis using 3 by simp
      qed (use 1 in auto)
    qed
  qed (use s in \<open>simp add: read_lengths.simps\<close>)
qed

lemma refused_safe: "huff_ok h \<Longrightarrow> \<exists>b. refused err n h = Some b"
  by (simp add: refused_def huff_ok_def)

lemma orders_safe:
  assumes f: "feeds io later" and s: "gz_ok s"
  shows "gives (for_each [0..<19] (order_step io ncode) s) (\<lambda>t. gz_ok t \<and> fewer later s t)"
proof (rule gives_for_each)
  fix i t
  assume "i \<in> set [0..<19]" and t: "gz_ok t \<and> fewer later s t"
  then have "gives (order_step io ncode i t) (\<lambda>u. gz_ok u \<and> fewer later t u)" by (intro order_step_safe [OF f]) simp_all
  then show "gives (order_step io ncode i t) (\<lambda>u. gz_ok u \<and> fewer later s u)"
    by (rule gives_mono) (use t fewer_trans in blast)
qed (use s in simp)

lemma enough_fewer: "fewer later s t \<Longrightarrow> enough later fuel s \<Longrightarrow> enough later fuel t"
  by (auto simp: enough_def fewer_def)

text \<open>The two codes of a dynamic block, once the lengths are read, and the block's data.\<close>

lemma dynamic_codes_safe:
  assumes f: "feeds io later" and s: "gz_ok s" "enough later fuel s" and n: "nlen \<le> 288" "ndist \<le> 30"
  shows "gives (dynamic_codes io fuel nlen ndist s) (\<lambda>(ok, t). gz_ok t \<and> fewer later s t \<and> (ok \<longrightarrow> \<not> bad t))"
  unfolding dynamic_codes_def
proof (rule gives_step [OF construct_safe [OF gz_okD(4) [OF s(1)]]], goal_cases)
  case (4 err1 lh)
  obtain no where no: "refused err1 nlen lh = Some no" using refused_safe [OF 4] by blast
  have g1: "gz_ok (s\<lparr>lencode := lh\<rparr>)" by (rule gz_ok_tables(3) [OF s(1) gz_ok_lens [OF s(1)] 4 4])
  show ?case unfolding no bind.bind_lunit
  proof (cases no)
    case False
    show "gives (if no then Some (False, s\<lparr>lencode := lh\<rparr>)
      else construct (distcode s) (drop nlen (lengths s)) ndist \<bind> (\<lambda>(err2, dh). refused err2 ndist dh \<bind> (\<lambda>no2.
        if no2 then Some (False, s\<lparr>lencode := lh, distcode := dh\<rparr>)
        else codes io fuel (s\<lparr>lencode := lh, distcode := dh\<rparr>))))
      (\<lambda>(ok, t). gz_ok t \<and> fewer later s t \<and> (ok \<longrightarrow> \<not> bad t))"
      unfolding if_not_P [OF False]
    proof (rule gives_step [OF construct_safe [OF gz_okD(5) [OF s(1)]]], goal_cases)
      case (4 err2 dh)
      obtain no2 where no2: "refused err2 ndist dh = Some no2" using refused_safe [OF 4] by blast
      let ?t = "s\<lparr>lencode := lh, distcode := dh\<rparr>"
      have g2: "gz_ok ?t" by (rule gz_ok_tables(4) [OF s(1) gz_ok_lens [OF s(1)] \<open>huff_ok lh\<close> 4])
      show ?case using codes_safe [OF f g2, of fuel] s(2) g2 by (simp add: no2 same_input [of ?t s])
    qed (use n gz_okD(6,7) [OF s(1)] in \<open>auto dest: in_set_dropD\<close>)
  qed (use g1 in \<open>simp add: same_input [of "s\<lparr>lencode := lh\<rparr>" s]\<close>)
qed (use n gz_okD(6,7) [OF s(1)] in auto)

lemma gives_fewer:
  assumes "gives m (\<lambda>(ok, t). gz_ok t \<and> fewer later s1 t \<and> (ok \<longrightarrow> \<not> bad t))" "fewer later s s1"
  shows "gives m (\<lambda>(ok, t). gz_ok t \<and> fewer later s t \<and> (ok \<longrightarrow> \<not> bad t))"
  using assms(1) by (rule gives_mono) (use fewer_trans [OF assms(2)] in auto)

lemma dynamic_lengths_safe:
  assumes f: "feeds io later" and s: "gz_ok s" "enough later fuel s" and n: "nlen \<le> 288" "ndist \<le> 30"
  shows "gives (dynamic_lengths io fuel nlen ndist s) (\<lambda>(ok, t). gz_ok t \<and> fewer later s t \<and> (ok \<longrightarrow> \<not> bad t))"
  unfolding dynamic_lengths_def
proof (rule gives_step [OF construct_safe [OF gz_okD(4) [OF s(1)]]], goal_cases)
  case (4 err lh)
  let ?t = "s\<lparr>lencode := lh\<rparr>"
  have t: "gz_ok ?t" by (rule gz_ok_tables(3) [OF s(1) gz_ok_lens [OF s(1)] 4 4])
  have ft: "fewer later s ?t" by (rule same_input(2)) simp_all
  show ?case
  proof (cases "err = 0")
    case True
    then have z: "\<not> err \<noteq> 0" by simp
    show ?thesis unfolding if_not_P [OF z]
    proof (rule gives_step [OF read_lengths_safe [OF f _ t]], goal_cases)
      case (2 ok s1)
      then have s1: "gz_ok s1" "fewer later s s1" using ft fewer_trans by auto
      show ?case
        using s1 gives_fewer [OF dynamic_codes_safe [OF f s1(1) enough_fewer [OF s1(2) s(2)] n] s1(2)] gz_okD(6) [OF s1(1)] by simp
    qed (use n in simp)
  qed (use t ft in simp)
qed (use n gz_okD(6,7) [OF s(1)] in auto)

lemma dynamic_safe:
  assumes f: "feeds io later" and s: "gz_ok s" "enough later fuel s"
  shows "gives (dynamic io fuel s) (\<lambda>(ok, t). gz_ok t \<and> fewer later s t \<and> (ok \<longrightarrow> \<not> bad t))"
  unfolding dynamic_def
proof (rule gives_step [OF gz_bits [OF f s(1)]], simp, rule gives_step [OF gz_bits [OF f]], simp, simp,
    rule gives_step [OF gz_bits [OF f]], simp, simp, unfold Let_def, goal_cases)
  case (1 a s1 b s2 c s3)
  have s3: "gz_ok s3" "fewer later s s3" using 1 by (auto dest: fewer_trans)
  show ?case
  proof (cases "286 < unat a + 257 \<or> 30 < unat b + 1")
    case False
    then have n: "unat a + 257 \<le> 288" "unat b + 1 \<le> 30" by auto
    show ?thesis unfolding if_not_P [OF False]
    proof (rule gives_then [OF orders_safe [OF f s3(1)]])
      fix s4
      assume "gz_ok s4 \<and> fewer later s3 s4"
      then have s4: "gz_ok s4" "fewer later s s4" using s3 fewer_trans by auto
      show "gives (dynamic_lengths io fuel (unat a + 257) (unat b + 1) s4) (\<lambda>(ok, t). gz_ok t \<and> fewer later s t \<and> (ok \<longrightarrow> \<not> bad t))"
        by (rule gives_fewer [OF dynamic_lengths_safe [OF f s4(1) enough_fewer [OF s4(2) s(2)] n] s4(2)])
    qed
  qed (use s3 in simp)
qed

section \<open>The whole file\<close>

lemma blocks_safe:
  assumes f: "feeds io later"
  shows "gz_ok s \<Longrightarrow> 1 < fuel \<Longrightarrow> \<not> bad s \<longrightarrow> length (stream later s) + 1 < fuel \<Longrightarrow>
    gives (blocks io fuel s) (\<lambda>(ok, t). gz_ok t)"
proof (induction fuel arbitrary: s)
  case (Suc fuel)
  show ?case unfolding blocks.simps
  proof (rule gives_step [OF gz_bits [OF f Suc.prems(1)]], simp, rule gives_step [OF gz_bits [OF f]], simp, simp, goal_cases)
    case (1 v s1 k s2)
    then have s2: "gz_ok s2" "fewer later s s2" "bits_took later 3 s s2" using fewer_trans took_trans [of later 1 s s1 2 s2] by (auto simp: numeral_3_eq_3)
    have en: "enough later fuel s2" using Suc.prems s2(2) by (auto simp: enough_def fewer_def)
    have "gives (if k = 0 then stored io s2 else if k = 1 then fixed_block io fuel s2 else if k = 2 then dynamic io fuel s2 else Some (False, s2))
      (\<lambda>(ok, t). gz_ok t \<and> fewer later s2 t \<and> (ok \<longrightarrow> \<not> bad t))"
      using stored_safe [OF f s2(1)] fixed_safe [OF f s2(1) en] dynamic_safe [OF f s2(1) en] s2(1) by simp
    then show ?case
    proof (rule gives_step, elim conjE)
      fix ok t
      assume t: "gz_ok t" "fewer later s2 t" "ok \<longrightarrow> \<not> bad t"
      show "gives (if ok \<and> v = 0 then blocks io fuel t else Some (ok, t)) (\<lambda>(ok, t). gz_ok t)"
      proof (cases "ok \<and> v = 0")
        case True
        then have nb: "\<not> bad t" "\<not> bad s2" "\<not> bad s" using t s2(2) by (auto simp: fewer_def)
        then have "length (stream later s2) + 3 \<le> length (stream later s)" using bits_tookD(4) [OF s2(3)] by auto
        then have "length (stream later t) + 3 \<le> length (stream later s)" using t(2) nb by (simp add: fewer_def)
        then have "gives (blocks io fuel t) (\<lambda>(ok, t). gz_ok t)" using Suc.prems nb by (intro Suc.IH t(1)) auto
        then show ?thesis using True by simp
      next
        case False
        then show ?thesis unfolding if_not_P [OF False] using t(1) by simp
      qed
    qed
  qed
qed simp

lemma skip_string_safe:
  assumes f: "feeds io later"
  shows "src_ok (inp s) \<Longrightarrow> length (sees later s) < fuel \<Longrightarrow>
    gives (skip_string io fuel s) (\<lambda>t. \<exists>i. t = s\<lparr>inp := i\<rparr> \<and> src_ok i \<and> length (view later i) \<le> length (sees later s))"
proof (induction fuel arbitrary: s)
  case (Suc fuel)
  show ?case unfolding skip_string.simps
  proof (rule gives_step [OF byte_in_spec [OF f Suc.prems(1)]], elim exE conjE)
    fix b t i
    assume t: "t = s\<lparr>inp := i\<rparr>" "src_ok i" and c: "case sees later s of
       [] \<Rightarrow> b = 0 \<and> i_bad i \<and> view later i = [] \<and> i_count i = i_count (inp s)
     | x # xs \<Rightarrow> b = x \<and> i_bad i = bad s \<and> view later i = xs \<and> i_count i = i_count (inp s) + 1"
    show "gives (if b \<noteq> 0 \<and> \<not> bad t then skip_string io fuel t else Some t)
      (\<lambda>t. \<exists>i. t = s\<lparr>inp := i\<rparr> \<and> src_ok i \<and> length (view later i) \<le> length (sees later s))"
    proof (cases "b \<noteq> 0 \<and> \<not> bad t")
      case True
      then obtain x xs where x: "sees later s = x # xs" using c by (cases "sees later s") auto
      have "gives (skip_string io fuel t) (\<lambda>u. \<exists>i. u = t\<lparr>inp := i\<rparr> \<and> src_ok i \<and> length (view later i) \<le> length (sees later t))"
        using Suc.prems x c t by (intro Suc.IH) auto
      then have "gives (skip_string io fuel t) (\<lambda>u. \<exists>i. u = s\<lparr>inp := i\<rparr> \<and> src_ok i \<and> length (view later i) \<le> length (sees later s))"
        by (rule gives_mono) (use t x c in \<open>auto intro: le_SucI\<close>)
      then show ?thesis using True by simp
    next
      case False
      then show ?thesis using t c by (auto split: list.splits)
    qed
  qed
qed simp

definition shorter :: "('e source \<Rightarrow> u8 list) \<Rightarrow> 'e unpacker \<Rightarrow> 'e unpacker \<Rightarrow> bool" where
  "shorter later s t \<longleftrightarrow> (\<exists>i. t = s\<lparr>inp := i\<rparr> \<and> src_ok i \<and> length (view later i) \<le> length (sees later s))"

lemma shorter_refl: "src_ok (inp s) \<Longrightarrow> shorter later s s"
  by (auto simp: shorter_def intro!: exI [of _ "inp s"])

lemma shorter_trans: "shorter later s t \<Longrightarrow> shorter later t u \<Longrightarrow> shorter later s u"
  unfolding shorter_def by (elim exE conjE) (rule exI, auto)

lemma shorter_ok: "shorter later s t \<Longrightarrow> src_ok (inp t)" "shorter later s t \<Longrightarrow> length (sees later t) \<le> length (sees later s)"
  by (auto simp: shorter_def)

lemma byte_shorter:
  assumes "feeds io later" "src_ok (inp s)"
  shows "gives (byte_in io s) (\<lambda>(b, t). shorter later s t)"
  by (cases "sees later s"; rule gives_mono [OF byte_in_spec [OF assms]]) (auto simp: shorter_def)

lemma read_shorter:
  assumes "feeds io later" "src_ok (inp s)"
  shows "gives (read_in io n s) (\<lambda>(r, t). shorter later s t)"
  by (rule gives_mono [OF read_in_spec [OF assms]]) (auto simp: shorter_def split: if_splits)

lemma skip_header_safe:
  assumes f: "feeds io later" and s: "src_ok (inp s)" and l: "length (sees later s) < fuel"
  shows "gives (skip_header io fuel flags s) (shorter later s)"
proof -
  have extra: "gives (byte_in io s \<bind> (\<lambda>(n0, s1). byte_in io s1 \<bind> (\<lambda>(n1, s1).
      read_in io (ucast n0 OR push_bit 8 (ucast n1)) s1 \<bind> (\<lambda>(_, s1). Some s1)))) (shorter later s)"
    by (rule gives_step [OF byte_shorter [OF f s]], rule gives_step [OF byte_shorter [OF f]], erule shorter_ok,
        rule gives_step [OF read_shorter [OF f]], erule shorter_ok, simp) (blast intro: shorter_trans)
  have str: "gives (if flags AND k \<noteq> 0 then skip_string io fuel t else Some t) (shorter later s)" if t: "shorter later s t" for k t
  proof -
    have "gives (skip_string io fuel t) (shorter later t)" unfolding shorter_def [abs_def]
      by (rule skip_string_safe [OF f shorter_ok(1) [OF t]]) (use shorter_ok(2) [OF t] l in simp)
    then have "gives (skip_string io fuel t) (shorter later s)" by (rule gives_mono) (rule shorter_trans [OF t])
    then show ?thesis using t by simp
  qed
  have crc: "gives (if flags AND 2 \<noteq> 0 then read_in io 2 t \<bind> (\<lambda>(_, s4). Some s4) else Some t) (shorter later s)" if t: "shorter later s t" for t
  proof -
    have "gives (read_in io 2 t \<bind> (\<lambda>(_, s4). Some s4)) (shorter later s)"
      by (rule gives_step [OF read_shorter [OF f shorter_ok(1) [OF t]]]) (simp, rule shorter_trans [OF t])
    then show ?thesis using t by simp
  qed
  show ?thesis unfolding skip_header_def
    by (rule gives_then [of _ "shorter later s"], use extra shorter_refl [OF s] in simp,
        rule gives_then [OF str], assumption, rule gives_then [OF str], assumption, rule crc)
qed

lemma xalloc_spec:
  assumes "feeds io later" "xalloc io n s = (ok, t)"
  shows "\<exists>w. t = s\<lparr>inp := (inp s)\<lparr>i_world := w\<rparr>\<rparr>" "sees later t = sees later s" "src_ok (inp t) = src_ok (inp s)"
    "bad t = bad s" "i_count (inp t) = i_count (inp s)"
  using assms(2) feeds_steady(4) [OF assms(1), of n "inp s"]
  by (auto simp: xalloc_def view_def buffered_def src_ok_def split: prod.splits)

lemma window_open_spec:
  assumes f: "feeds io later" and n: "0 < unat n" and o: "window_open io n s = (ok, t)"
  shows "\<exists>w ws. t = s\<lparr>inp := (inp s)\<lparr>i_world := w\<rparr>, win := ws, wsize := n, wpos := 0, total := 0, wstop := False\<rparr>"
    "sees later t = sees later s" "src_ok (inp t) = src_ok (inp s)" "bad t = bad s" "i_count (inp t) = i_count (inp s)"
    "ok \<Longrightarrow> win_ok t" "win t = (if ok then Some (replicate (unat n) 0) else None)"
proof -
  obtain u where u: "xalloc io (ucast n) (s\<lparr>wsize := n, wpos := 0, total := 0, wstop := False\<rparr>) = (ok, u)"
    and t: "t = u\<lparr>win := if ok then Some (replicate (unat n) 0) else None\<rparr>"
    using o by (auto simp: window_open_def split: prod.splits)
  note x = xalloc_spec [OF f u]
  obtain w where w: "u = s\<lparr>wsize := n, wpos := 0, total := 0, wstop := False, inp := (inp s)\<lparr>i_world := w\<rparr>\<rparr>"
    using x(1) by auto
  show "\<exists>w ws. t = s\<lparr>inp := (inp s)\<lparr>i_world := w\<rparr>, win := ws, wsize := n, wpos := 0, total := 0, wstop := False\<rparr>"
    by (rule exI [of _ w], rule exI [of _ "if ok then Some (replicate (unat n) 0) else None"]) (simp add: t w)
  show "sees later t = sees later s" "src_ok (inp t) = src_ok (inp s)" "bad t = bad s" "i_count (inp t) = i_count (inp s)"
    using x(2-5) by (simp_all add: t)
  show "win t = (if ok then Some (replicate (unat n) 0) else None)" by (simp add: t)
  show "ok \<Longrightarrow> win_ok t" using n by (auto simp: t w win_ok_def word_nat)
qed

lemma window_close_spec:
  assumes f: "feeds io later" and c: "window_close io ok s = (r, t)"
  shows "tables_ok t = tables_ok s" "src_ok (inp t) = src_ok (inp s)" "win t = None"
proof -
  let ?s1 = "case win s of None \<Rightarrow> s | Some w \<Rightarrow> if ok \<and> \<not> wstop s \<and> 0 < wpos s
    then let (took, s0) = sink_call io (take (unat (wpos s)) w) s in if took then s0 else s0\<lparr>wstop := True\<rparr> else s"
  have t: "t = (if win ?s1 \<noteq> None then xfree io ?s1 else ?s1)\<lparr>win := None\<rparr>"
    using c unfolding window_close_def Let_def by simp
  have "tables_ok ?s1 = tables_ok s \<and> src_ok (inp ?s1) = src_ok (inp s)"
    by (auto simp: sink_call_def tables_ok_def src_ok_def Let_def split: option.splits prod.splits)
  moreover have "tables_ok ((if win v \<noteq> None then xfree io v else v)\<lparr>win := None\<rparr>) = tables_ok v"
    "src_ok (inp ((if win v \<noteq> None then xfree io v else v)\<lparr>win := None\<rparr>)) = src_ok (inp v)" for v :: "'a unpacker"
    by (auto simp: xfree_def tables_ok_def src_ok_def)
  ultimately show "tables_ok t = tables_ok s" "src_ok (inp t) = src_ok (inp s)" by (simp_all only: t)
  show "win t = None" by (simp add: t)
qed

lemma gunzip_returns:
  assumes f: "feeds io later" and s: "src_ok src" "tables_ok s0" and u: "8 * length (view later src) + 2 \<le> fuel"
  shows "gives (gunzip io fuel src s0) (\<lambda>(ok, t). tables_ok t \<and> src_ok (inp t))"
  unfolding gunzip_def
proof (rule gives_step2 [OF read_in_spec [OF f]], goal_cases)
  case (2 ok h s)
  then have sh: "shorter later (s0\<lparr>inp := src\<rparr>) s" by (auto simp: shorter_def split: if_splits)
  have t: "tables_ok s" using s(2) 2 by (auto simp: tables_ok_def)
  have l: "length (sees later s) \<le> length (view later src)" using shorter_ok(2) [OF sh] by simp
  have i: "src_ok (inp s)" by (rule shorter_ok(1) [OF sh])
  have "gives (skip_header io fuel (h ! 3) s \<bind> (\<lambda>s1. let (opened, s2) = window_open io 32768 s1
      in if \<not> opened then Some (False, s2) else blocks io fuel (s2\<lparr>bitbuf := 0, bitcnt := 0\<rparr>) \<bind> (\<lambda>(ok1, s3). Some (window_close io ok1 s3))))
    (\<lambda>(ok, t). tables_ok t \<and> src_ok (inp t))"
  proof (rule gives_then [OF skip_header_safe [OF f i]])
    show "length (sees later s) < fuel" using l u by simp
    fix s1
    assume s1: "shorter later s s1"
    obtain opened s2 where o: "window_open io 32768 s1 = (opened, s2)" by fastforce
    note w = window_open_spec [OF f _ o, simplified]
    have t2: "tables_ok s2" "src_ok (inp s2)" using t s1 w(1,3) by (auto simp: shorter_def tables_ok_def)
    show "gives (let (opened, s2) = window_open io 32768 s1
      in if \<not> opened then Some (False, s2) else blocks io fuel (s2\<lparr>bitbuf := 0, bitcnt := 0\<rparr>) \<bind> (\<lambda>(ok1, s3). Some (window_close io ok1 s3)))
      (\<lambda>(ok, t). tables_ok t \<and> src_ok (inp t))"
    proof (cases opened)
      case True
      let ?s = "s2\<lparr>bitbuf := 0, bitcnt := 0\<rparr>"
      have g: "gz_ok ?s" using w(6) [OF True] t2 by (simp add: gz_ok_def bits_ok_def win_ok_def tables_ok_def clean_def)
      have st: "length (stream later ?s) \<le> 8 * length (view later src)"
        using shorter_ok(2) [OF s1] l w(2) by (simp add: stream_def)
      have "gives (blocks io fuel ?s \<bind> (\<lambda>(ok1, s3). Some (window_close io ok1 s3))) (\<lambda>(ok, t). tables_ok t \<and> src_ok (inp t))"
      proof (rule gives_step [OF blocks_safe [OF f g]])
        show "1 < fuel" "\<not> bad ?s \<longrightarrow> length (stream later ?s) + 1 < fuel" using u st by auto
        fix ok1 and s3 :: "'a unpacker"
        assume "gz_ok s3"
        moreover obtain r v where c: "window_close io ok1 s3 = (r, v)" by fastforce
        ultimately show "gives (Some (window_close io ok1 s3)) (\<lambda>(ok, t). tables_ok t \<and> src_ok (inp t))"
          using window_close_spec [OF f c] by (auto simp: c gz_ok_def bits_ok_def)
      qed
      then show ?thesis using True by (simp add: o)
    qed (use t2 in \<open>simp add: o\<close>)
  qed
  then show ?case using t i by simp
qed (use s in simp)

end
