(* ===== verification/Unxz.thy ===== *)
theory Unxz
  imports Gunzip
begin

text \<open>
  \<open>unxz\<close> on any finite input: with fuel for its bytes it returns, every access of the range decoder's
  probability arrays, the window and the header buffer inside its array. The heart of it is the state
  of the LZMA decoder: the last distance lies inside the window whenever the state says that a match
  came last.
\<close>

section \<open>The invariant\<close>

definition core_ok :: "'e unpacker \<Rightarrow> bool" where
  "core_ok s \<longleftrightarrow> src_ok (inp s) \<and> win_ok s \<and> tables_ok s"

definition lz_ok :: "'e unpacker \<Rightarrow> bool" where
  "lz_ok s \<longleftrightarrow> lstate s < 12 \<and> (7 \<le> lstate s \<longrightarrow> 0 < unat (rep0 s + 1) \<and> unat (rep0 s + 1) \<le> unat (wsize s)) \<and>
    lc s + lp s \<le> 4 \<and> pb s \<le> 4"

definition lz_same :: "'e unpacker \<Rightarrow> 'e unpacker \<Rightarrow> bool" where
  "lz_same s t \<longleftrightarrow> lstate t = lstate s \<and> rep0 t = rep0 s \<and> rep1 t = rep1 s \<and> rep2 t = rep2 s \<and> rep3 t = rep3 s \<and>
    wsize t = wsize s \<and> lc t = lc s \<and> lp t = lp s \<and> pb t = pb s"

text \<open>The steps that read input and put bytes out, and leave the state of the LZMA decoder alone.\<close>

definition goes :: "('e source \<Rightarrow> u8 list) \<Rightarrow> 'e unpacker \<Rightarrow> 'e unpacker \<Rightarrow> bool" where
  "goes later s t \<longleftrightarrow> core_ok t \<and> length (sees later t) \<le> length (sees later s) \<and> (bad s \<longrightarrow> bad t) \<and> lz_same s t"

lemma goes_refl: "core_ok s \<Longrightarrow> goes later s s"
  by (simp add: goes_def lz_same_def)

lemma goes_trans: "goes later s t \<Longrightarrow> goes later t u \<Longrightarrow> goes later s u"
  by (auto simp: goes_def lz_same_def)

lemma goesD:
  assumes "goes later s t"
  shows "core_ok t" "length (sees later t) \<le> length (sees later s)" "bad s \<Longrightarrow> bad t" "lstate t = lstate s"
    "rep0 t = rep0 s" "wsize t = wsize s" "lc t = lc s" "lp t = lp s" "pb t = pb s" "lz_ok t = lz_ok s"
  using assms by (auto simp: goes_def lz_same_def lz_ok_def)

lemma core_okD: "core_ok s \<Longrightarrow> src_ok (inp s)" "core_ok s \<Longrightarrow> win_ok s"
  by (simp_all add: core_ok_def)

lemma goes_byte:
  assumes f: "feeds io later" and s: "core_ok s"
  shows "gives (byte_in io s) (\<lambda>(b, t). goes later s t \<and> (\<not> bad t \<longrightarrow> length (sees later t) < length (sees later s)))"
  by (cases "sees later s"; rule gives_mono [OF byte_in_spec [OF f core_okD(1) [OF s]]])
    (use s in \<open>auto simp: goes_def core_ok_def win_ok_def tables_ok_def lz_same_def\<close>)

lemma goes_read:
  assumes f: "feeds io later" and s: "core_ok s"
  shows "gives (read_in io n s) (\<lambda>((ok, bs), t). goes later s t \<and> length bs \<le> unat n \<and> (ok \<longrightarrow> length bs = unat n))"
  by (rule gives_mono [OF read_in_spec [OF f core_okD(1) [OF s]]])
    (use s in \<open>auto simp: goes_def core_ok_def win_ok_def tables_ok_def lz_same_def split: if_splits\<close>)

lemma wrote_goes: "wrote later s t \<Longrightarrow> core_ok s \<Longrightarrow> goes later s t"
  by (auto simp: wrote_def only_window_def goes_def core_ok_def tables_ok_def lz_same_def)

lemma goes_put:
  assumes f: "feeds io later" and s: "core_ok s"
  shows "gives (put io b s) (goes later s)"
  by (rule gives_mono [OF put_safe [OF f core_okD(2,1) [OF s]]]) (use s wrote_goes in blast)

lemma goes_copy:
  assumes f: "feeds io later" and s: "core_ok s"
  shows "gives (copy io d n s) (\<lambda>(ok, t). goes later s t \<and> (ok \<longrightarrow> 0 < unat d \<and> unat d \<le> unat (wsize s)))"
  by (rule gives_mono [OF copy_safe [OF f core_okD(2,1) [OF s]]]) (use s wrote_goes in blast)

lemma goes_pass:
  assumes f: "feeds io later"
  shows "core_ok s \<Longrightarrow> gives (pass io n s) (goes later s)"
proof (induction n arbitrary: s)
  case (Suc n)
  have "gives (byte_in io s \<bind> (\<lambda>(b, s1). put io b s1 \<bind> pass io n)) (goes later s)"
  proof (rule gives_step [OF goes_byte [OF f Suc.prems]], elim conjE, rule gives_then [OF goes_put [OF f]], erule goesD)
    fix b t u
    assume "goes later s t" "goes later t u"
    then have "goes later s u" "core_ok u" by (auto intro: goes_trans goesD)
    then show "gives (pass io n u) (goes later s)" by (intro gives_mono [OF Suc.IH]) (auto intro: goes_trans)
  qed
  then show ?case using Suc.prems by (simp add: goes_refl)
qed (simp add: goes_refl)

section \<open>The range decoder\<close>

lemma core_ok_rc: "core_ok (s\<lparr>rc_range := r\<rparr>) = core_ok s" "core_ok (s\<lparr>rc_code := c\<rparr>) = core_ok s"
  by (simp_all add: core_ok_def win_ok_def tables_ok_def)

lemma goes_rc: "goes later (s\<lparr>rc_range := r\<rparr>) t = goes later s t" "goes later (s\<lparr>rc_code := c\<rparr>) t = goes later s t"
  "goes later s (t\<lparr>rc_code := c\<rparr>) = goes later s t" "goes later s (t\<lparr>rc_range := r\<rparr>) = goes later s t"
  by (simp_all add: goes_def lz_same_def core_ok_rc)

lemma goes_norm:
  assumes f: "feeds io later" and s: "core_ok s"
  shows "gives (rc_norm io s) (goes later s)"
proof -
  have "gives (byte_in io (s\<lparr>rc_range := push_bit 8 (rc_range s)\<rparr>) \<bind> (\<lambda>(b, s1). Some (s1\<lparr>rc_code := push_bit 8 (rc_code s1) OR ucast b\<rparr>))) (goes later s)"
    by (rule gives_step [OF goes_byte [OF f]]) (use s in \<open>simp_all add: core_ok_rc goes_rc\<close>)
  then show ?thesis using s by (simp add: rc_norm_def goes_refl)
qed

lemma goes_bit:
  assumes f: "feeds io later" and s: "core_ok s"
  shows "gives (bit_of io p s) (\<lambda>((b, q), t). goes later s t \<and> b \<le> 1)"
proof -
  have "gives (rc_norm io u \<bind> (\<lambda>s1. Some ((b, q), s1))) (\<lambda>((b, q), t). goes later s t \<and> b \<le> 1)"
    if u: "core_ok u" "\<And>t. goes later u t = goes later s t" "b \<le> 1" for u :: "'a unpacker" and b :: nat and q :: u16
    by (rule gives_then [OF goes_norm [OF f u(1)]]) (use u in simp)
  then show ?thesis using s by (simp add: bit_of_def Let_def core_ok_rc goes_rc)
qed

lemma goes_bit_at:
  assumes f: "feeds io later" and s: "core_ok s" and i: "i < length xs"
  shows "gives (bit_at io xs i s) (\<lambda>((b, ys), t). goes later s t \<and> b \<le> 1 \<and> length ys = length xs)"
  unfolding bit_at_def rd_simp [OF i] bind.bind_lunit
  by (rule gives_step2 [OF goes_bit [OF f s]]) (use i in simp)

lemma leaf_room:
  fixes b base m n l :: nat
  assumes "b \<le> 1" "base + (m + 1) * 2 ^ n \<le> l"
  shows "n = 0 \<or> base + (2 * m + b + 1) * 2 ^ (n - 1) \<le> l"
proof (cases n)
  case (Suc k)
  have "(2 * m + b + 1) * 2 ^ k \<le> (2 * m + 2) * 2 ^ k" using assms(1) by (intro mult_le_mono) simp_all
  also have "\<dots> = (m + 1) * 2 ^ n" by (simp add: Suc)
  finally show ?thesis using assms(2) by (simp add: Suc)
qed simp

text \<open>A walk of \<open>n\<close> bits down a tree that starts at \<open>m\<close> ends in the \<open>2 ^ n\<close> leaves below \<open>m\<close>.\<close>

lemma goes_tree_loop:
  assumes f: "feeds io later"
  shows "core_ok s \<Longrightarrow> n = 0 \<or> base + (m + 1) * 2 ^ (n - 1) \<le> length xs \<Longrightarrow>
    gives (tree_loop io base n m xs s) (\<lambda>((v, ys), t). goes later s t \<and> length ys = length xs \<and> m * 2 ^ n \<le> v \<and> v < (m + 1) * 2 ^ n)"
proof (induction n arbitrary: m xs s)
  case 0
  then show ?case by (simp add: goes_refl)
next
  case (Suc n)
  have "(m + 1) * 1 \<le> (m + 1) * 2 ^ n" by (intro mult_le_mono) simp_all
  then have i: "base + m < length xs" using Suc.prems(2) by simp
  show ?case unfolding tree_loop.simps
  proof (rule gives_step2 [OF goes_bit_at [OF f Suc.prems(1) i]], elim conjE)
    fix b :: nat and ys :: "u16 list" and t
    assume t: "goes later s t" "b \<le> 1" "length ys = length xs"
    have b: "(2 * m + b + 1) * 2 ^ k \<le> (2 * m + 2) * 2 ^ k" "(2 * m) * 2 ^ k \<le> (2 * m + b) * 2 ^ k" for k :: nat
      using t(2) by (intro mult_le_mono; simp)+
    have "n = 0 \<or> base + (2 * m + b + 1) * 2 ^ (n - 1) \<le> length ys"
      by (rule leaf_room [OF t(2)]) (use Suc.prems(2) t(3) in simp)
    from Suc.IH [OF goesD(1) [OF t(1)] this]
    show "gives (tree_loop io base n (2 * m + b) ys t) (\<lambda>((v, ys), t). goes later s t \<and> length ys = length xs \<and> m * 2 ^ Suc n \<le> v \<and> v < (m + 1) * 2 ^ Suc n)"
    proof (rule gives_mono, clarify)
      fix v zs u
      assume u: "goes later t u" "length zs = length ys" and v: "(2 * m + b) * 2 ^ n \<le> v" "v < (2 * m + b + 1) * 2 ^ n"
      have e: "m * 2 ^ Suc n = (2 * m) * 2 ^ n" "(m + 1) * 2 ^ Suc n = (2 * m + 2) * 2 ^ n" by simp_all
      show "goes later s u \<and> length zs = length xs \<and> m * 2 ^ Suc n \<le> v \<and> v < (m + 1) * 2 ^ Suc n"
        unfolding e using order_trans [OF b(2) v(1)] less_le_trans [OF v(2) b(1)] t(3) u goes_trans [OF t(1)] by simp
    qed
  qed
qed

lemma goes_tree:
  assumes "feeds io later" "core_ok s" "length xs = 2 ^ n"
  shows "gives (tree io xs n s) (\<lambda>((v, ys), t). goes later s t \<and> length ys = length xs \<and> v < 2 ^ n)"
  unfolding tree_def
proof (rule gives_step2 [OF goes_tree_loop [OF assms(1,2)]])
  show "n = 0 \<or> 0 + (1 + 1) * 2 ^ (n - 1) \<le> length xs" using assms(3) by (cases n) auto
qed auto

lemma goes_rtree_loop:
  assumes f: "feeds io later"
  shows "core_ok s \<Longrightarrow> n = 0 \<or> base + (m + 1) * 2 ^ (n - 1) \<le> length xs \<Longrightarrow>
    gives (rtree_loop io base n i m v xs s) (\<lambda>((v, ys), t). goes later s t \<and> length ys = length xs)"
proof (induction n arbitrary: i m v xs s)
  case 0
  then show ?case by (simp add: goes_refl)
next
  case (Suc n)
  have "(m + 1) * 1 \<le> (m + 1) * 2 ^ n" by (intro mult_le_mono) simp_all
  then have i: "base + m < length xs" using Suc.prems(2) by simp
  show ?case unfolding rtree_loop.simps
  proof (rule gives_step2 [OF goes_bit_at [OF f Suc.prems(1) i]], elim conjE)
    fix b :: nat and ys :: "u16 list" and t
    assume t: "goes later s t" "b \<le> 1" "length ys = length xs"
    have "n = 0 \<or> base + (2 * m + b + 1) * 2 ^ (n - 1) \<le> length ys"
      by (rule leaf_room [OF t(2)]) (use Suc.prems(2) t(3) in simp)
    from Suc.IH [OF goesD(1) [OF t(1)] this]
    show "gives (rtree_loop io base n (i + 1) (2 * m + b) (v OR push_bit i b) ys t) (\<lambda>((v, ys), t). goes later s t \<and> length ys = length xs)"
      by (rule gives_mono) (use t goes_trans [OF t(1)] in auto)
  qed
qed

lemma goes_rtree:
  assumes "feeds io later" "core_ok s" "n = 0 \<or> base + 2 ^ n \<le> length xs"
  shows "gives (rtree io xs base n s) (\<lambda>((v, ys), t). goes later s t \<and> length ys = length xs)"
  unfolding rtree_def by (rule goes_rtree_loop [OF assms(1,2)]) (use assms(3) in \<open>cases n; auto\<close>)

lemma goes_direct_loop:
  assumes f: "feeds io later"
  shows "core_ok s \<Longrightarrow> gives (direct_loop io n r s) (\<lambda>(v, t). goes later s t)"
proof (induction n arbitrary: r s)
  case (Suc n)
  let ?h = "drop_bit 1 (rc_range s)"
  let ?u = "s\<lparr>rc_range := ?h, rc_code := if ?h \<le> rc_code s then rc_code s - ?h else rc_code s\<rparr>"
  have u: "core_ok ?u" using Suc.prems by (simp add: core_ok_rc)
  have "gives (rc_norm io ?u \<bind> direct_loop io n (push_bit 1 r OR of_bool (?h \<le> rc_code s))) (\<lambda>(v, t). goes later s t)"
  proof (rule gives_then [OF goes_norm [OF f u]])
    fix t
    assume "goes later ?u t"
    then have t: "goes later s t" by (simp add: goes_rc)
    show "gives (direct_loop io n (push_bit 1 r OR of_bool (?h \<le> rc_code s)) t) (\<lambda>(v, t). goes later s t)"
      by (rule gives_mono [OF Suc.IH [OF goesD(1) [OF t]]]) (use goes_trans [OF t] in auto)
  qed
  then show ?case unfolding direct_loop.simps Let_def .
qed (simp add: goes_refl)

section \<open>The probabilities\<close>

definition len_ok :: "len_coder \<Rightarrow> bool" where
  "len_ok l \<longleftrightarrow> length (l_low l) = 16 \<and> (\<forall>xs \<in> set (l_low l). length xs = 8) \<and>
    length (l_mid l) = 16 \<and> (\<forall>xs \<in> set (l_mid l). length xs = 8) \<and> length (l_high l) = 256"

definition lzma_ok :: "lzma \<Rightarrow> bool" where
  "lzma_ok p \<longleftrightarrow> length (p_is_match p) = 192 \<and> length (p_is_rep p) = 12 \<and> length (p_g0 p) = 12 \<and>
    length (p_g1 p) = 12 \<and> length (p_g2 p) = 12 \<and> length (p_rep0_long p) = 192 \<and>
    length (p_slot p) = 4 \<and> (\<forall>xs \<in> set (p_slot p). length xs = 64) \<and> length (p_pos p) = 115 \<and>
    length (p_align p) = 16 \<and> len_ok (p_len p) \<and> len_ok (p_rep_len p) \<and> length (p_lit p) = 0x300 * 16"

lemma lzma_of_ok: "lzma_ok (lzma_of v)"
  by (simp add: lzma_ok_def lzma_of_def len_ok_def len_coder_of_def)

lemma rows_update: "\<forall>xs \<in> set xss. length xs = n \<Longrightarrow> length ys = n \<Longrightarrow> \<forall>xs \<in> set (xss[i := ys]). length xs = n"
  using set_update_subset_insert [of xss i ys] by auto

lemma len_decode_safe:
  assumes f: "feeds io later" and s: "core_ok s" and l: "len_ok l" and ps: "ps < 16"
  shows "gives (len_decode io l ps s) (\<lambda>((v, k), t). goes later s t \<and> len_ok k \<and> v < 272)"
  unfolding len_decode_def Let_def
proof (rule gives_step2 [OF goes_bit [OF f s]], elim conjE, goal_cases)
  case (1 b c s1)
  have low: "ps < length (l_low l)" "length (l_low l ! ps) = 2 ^ 3" and mid: "ps < length (l_mid l)" "length (l_mid l ! ps) = 2 ^ 3"
    and high: "length (l_high l) = 2 ^ 8" using l ps by (simp_all add: len_ok_def)
  note s1 = goesD(1) [OF 1(1)]
  have t1: "gives (tree io (l_low l ! ps) 3 s1 \<bind> (\<lambda>((v, ys), s2). Some ((v, l\<lparr>l_choice := c, l_low := (l_low l)[ps := ys]\<rparr>), s2)))
    (\<lambda>((v, k), t). goes later s t \<and> len_ok k \<and> v < 272)"
    by (rule gives_step2 [OF goes_tree [OF f s1 low(2)]])
      (use l 1(1) rows_update [of "l_low l" 8] low in \<open>auto simp: len_ok_def intro: goes_trans\<close>)
  have t2: "gives (bit_of io (l_choice2 l) s1 \<bind> (\<lambda>((b2, c2), s2). if b2 = 0
      then tree io (l_mid l ! ps) 3 s2 \<bind> (\<lambda>((v, ys), s3). Some ((8 + v, l\<lparr>l_choice := c, l_choice2 := c2, l_mid := (l_mid l)[ps := ys]\<rparr>), s3))
      else tree io (l_high l) 8 s2 \<bind> (\<lambda>((v, ys), s3). Some ((16 + v, l\<lparr>l_choice := c, l_choice2 := c2, l_high := ys\<rparr>), s3))))
    (\<lambda>((v, k), t). goes later s t \<and> len_ok k \<and> v < 272)"
  proof (rule gives_step2 [OF goes_bit [OF f s1]], elim conjE, goal_cases)
    case (1 b2 c2 s2)
    have s2: "core_ok s2" "goes later s s2" using 1(1) \<open>goes later s s1\<close> by (auto intro: goesD goes_trans)
    have "gives (tree io (l_mid l ! ps) 3 s2 \<bind> (\<lambda>((v, ys), s3). Some ((8 + v, l\<lparr>l_choice := c, l_choice2 := c2, l_mid := (l_mid l)[ps := ys]\<rparr>), s3)))
      (\<lambda>((v, k), t). goes later s t \<and> len_ok k \<and> v < 272)"
      by (rule gives_step2 [OF goes_tree [OF f s2(1) mid(2)]])
        (use l s2(2) rows_update [of "l_mid l" 8] mid in \<open>auto simp: len_ok_def intro: goes_trans\<close>)
    moreover have "gives (tree io (l_high l) 8 s2 \<bind> (\<lambda>((v, ys), s3). Some ((16 + v, l\<lparr>l_choice := c, l_choice2 := c2, l_high := ys\<rparr>), s3)))
      (\<lambda>((v, k), t). goes later s t \<and> len_ok k \<and> v < 272)"
      by (rule gives_step2 [OF goes_tree [OF f s2(1) high]])
        (use l s2(2) high in \<open>auto simp: len_ok_def intro: goes_trans\<close>)
    ultimately show ?case by simp
  qed
  show ?case using t1 t2 low mid by (simp cong: if_cong)
qed

section \<open>Literals\<close>

lemma goes_lit_loop:
  assumes f: "feeds io later"
  shows "core_ok s \<Longrightarrow> base + 0x100 \<le> length xs \<Longrightarrow> 0x100 \<le> v * 2 ^ n \<Longrightarrow>
    gives (lit_loop io base n v xs s) (\<lambda>((v, ys), t). goes later s t \<and> length ys = length xs)"
proof (induction n arbitrary: v xs s)
  case 0
  then show ?case by (simp add: goes_refl)
next
  case (Suc n)
  show ?case
  proof (cases "v < 0x100")
    case True
    then have i: "base + v < length xs" using Suc.prems(2) by simp
    have "gives (bit_at io xs (base + v) s \<bind> (\<lambda>((b, ys), s1). lit_loop io base n (2 * v + b) ys s1))
      (\<lambda>((v, ys), t). goes later s t \<and> length ys = length xs)"
    proof (rule gives_step2 [OF goes_bit_at [OF f Suc.prems(1) i]], elim conjE)
      fix b :: nat and ys :: "u16 list" and t
      assume t: "goes later s t" "b \<le> 1" "length ys = length xs"
      have g: "v * 2 ^ Suc n \<le> (2 * v + b) * 2 ^ n" by (simp add: add_mult_distrib)
      have "gives (lit_loop io base n (2 * v + b) ys t) (\<lambda>((v, zs), u). goes later t u \<and> length zs = length ys)"
        by (rule Suc.IH [OF goesD(1) [OF t(1)] _ order_trans [OF Suc.prems(3) g]]) (use Suc.prems t in simp)
      then show "gives (lit_loop io base n (2 * v + b) ys t) (\<lambda>((v, ys), t). goes later s t \<and> length ys = length xs)"
        by (rule gives_mono) (use t goes_trans [OF t(1)] in auto)
    qed
    then show ?thesis using True by simp
  qed (use Suc.prems in \<open>simp add: goes_refl\<close>)
qed

lemma goes_match_loop:
  assumes f: "feeds io later"
  shows "core_ok s \<Longrightarrow> base + 0x300 \<le> length xs \<Longrightarrow> v < 0x100 \<Longrightarrow> 0 < v \<Longrightarrow> 0 < n \<Longrightarrow> 0x100 \<le> v * 2 ^ n \<Longrightarrow>
    gives (match_loop io base n mt v xs s) (\<lambda>((v, ys), t). goes later s t \<and> length ys = length xs \<and> 0 < v)"
proof (induction n arbitrary: mt v xs s)
  case (Suc n)
  let ?m = "mt div 2 ^ 7 mod 2"
  have "(1 + ?m) * 2 ^ 8 \<le> 2 * 2 ^ 8" by (intro mult_le_mono) simp_all
  then have i: "base + (1 + ?m) * 2 ^ 8 + v < length xs" using Suc.prems(2,3) by simp
  show ?case unfolding match_loop.simps Let_def
  proof (rule gives_step2 [OF goes_bit_at [OF f Suc.prems(1) i]], elim conjE)
    fix b :: nat and ys :: "u16 list" and t
    assume t: "goes later s t" "b \<le> 1" "length ys = length xs"
    show "gives (if ?m \<noteq> b \<or> 0x100 \<le> 2 * v + b then Some ((2 * v + b, ys), t) else match_loop io base n (2 * mt) (2 * v + b) ys t)
      (\<lambda>((v, ys), t). goes later s t \<and> length ys = length xs \<and> 0 < v)"
    proof (cases "?m \<noteq> b \<or> 0x100 \<le> 2 * v + b")
      case True
      then show ?thesis unfolding if_P [OF True] using t Suc.prems(4) by simp
    next
      case False
      have g: "v * 2 ^ Suc n \<le> (2 * v + b) * 2 ^ n" by (simp add: add_mult_distrib)
      have n: "0 < n" using False Suc.prems(6) by (cases n) auto
      have "gives (match_loop io base n (2 * mt) (2 * v + b) ys t) (\<lambda>((v, zs), u). goes later t u \<and> length zs = length ys \<and> 0 < v)"
        using Suc.prems t False n order_trans [OF Suc.prems(6) g] by (intro Suc.IH goesD(1) [OF t(1)]) auto
      then show ?thesis unfolding if_not_P [OF False]
        by (rule gives_mono) (use t goes_trans [OF t(1)] in auto)
    qed
  qed
qed simp

lemma low_bits: "k \<le> 32 \<Longrightarrow> unat (v AND (push_bit k 1 - 1)) < 2 ^ k" for v :: u32
proof -
  assume "k \<le> 32"
  have "v AND (push_bit k 1 - 1) = take_bit k v" by (simp add: take_bit_eq_mask mask_eq_decr_exp push_bit_of_1)
  then show ?thesis by (simp add: unsigned_take_bit_eq)
qed

lemma lit_base:
  fixes a q x y :: nat
  assumes "x + y \<le> 4" "a < 2 ^ y" "q < 256"
  shows "0x300 * (a * 2 ^ x + q div 2 ^ (8 - x)) + 0x300 \<le> 0x300 * (16 :: nat)"
proof -
  have "q div 2 ^ (8 - x) < 2 ^ x"
    using assms(1,3) by (simp add: less_mult_imp_div_less flip: power_add)
  moreover have "(a + 1) * 2 ^ x \<le> 2 ^ y * 2 ^ x" using assms(2) by (intro mult_le_mono) simp_all
  moreover have "(2 :: nat) ^ y * 2 ^ x \<le> 2 ^ 4" unfolding power_add [symmetric] using assms(1) by (intro power_increasing) simp_all
  ultimately have "a * 2 ^ x + q div 2 ^ (8 - x) + 1 \<le> 16" by simp
  then have "0x300 * (a * 2 ^ x + q div 2 ^ (8 - x) + 1) \<le> 0x300 * 16" by (rule mult_le_mono2)
  then show ?thesis by (simp add: add_mult_distrib2)
qed

lemma lzma_literal_safe:
  assumes f: "feeds io later" and s: "core_ok s" "lz_ok s" and p: "lzma_ok p"
  shows "gives (lzma_literal io p s) (\<lambda>(q, t). core_ok t \<and> lz_ok t \<and> lzma_ok q \<and>
    length (sees later t) \<le> length (sees later s) \<and> (bad s \<longrightarrow> bad t))"
proof -
  have w: "0 < unat (wsize s)" using s(1) by (auto simp: core_ok_def win_ok_def word_nat)
  define prev where "prev = (if 0 < total s then win_back 1 s else Some 0)"
  obtain q where q: "prev = Some q" using back_safe [OF core_okD(2) [OF s(1)], of 1] w by (cases "0 < total s") (auto simp: prev_def gives_iff)
  define base where "base = 0x300 * (unat ((ucast (total s) :: u32) AND (push_bit (lp s) 1 - 1)) * 2 ^ lc s + unat q div 2 ^ (8 - lc s))"
  have "lc s + lp s \<le> 4" using s(2) by (simp add: lz_ok_def)
  then have b: "base + 0x300 \<le> length (p_lit p)"
    using lit_base [OF _ low_bits unat_u8_bound] p by (simp add: base_def lzma_ok_def)
  have m: "gives (if 7 \<le> lstate s then win_back (rep0 s + 1) s \<bind> (\<lambda>match. match_loop io base 8 (unat match) 1 (p_lit p) s) else Some ((1, p_lit p), s))
    (\<lambda>((v, xs), t). goes later s t \<and> length xs = length (p_lit p) \<and> 0 < v)"
  proof (cases "7 \<le> lstate s")
    case True
    then have "gives (win_back (rep0 s + 1) s) (\<lambda>_. True)" using s by (intro back_safe core_okD) (auto simp: lz_ok_def)
    then have "gives (win_back (rep0 s + 1) s \<bind> (\<lambda>match. match_loop io base 8 (unat match) 1 (p_lit p) s))
      (\<lambda>((v, xs), t). goes later s t \<and> length xs = length (p_lit p) \<and> 0 < v)"
      by (rule gives_then, intro goes_match_loop [OF f s(1) b]) simp_all
    then show ?thesis using True by simp
  qed (use s in \<open>simp add: goes_refl\<close>)
  have e: "lzma_literal io p s = ((if 7 \<le> lstate s then win_back (rep0 s + 1) s \<bind> (\<lambda>match. match_loop io base 8 (unat match) 1 (p_lit p) s) else Some ((1, p_lit p), s)) \<bind>
    (\<lambda>((v, xs), s1). lit_loop io base 8 v xs s1 \<bind> (\<lambda>((v2, ys), s2). put io (of_nat v2) s2 \<bind> (\<lambda>s3.
      Some (p\<lparr>p_lit := ys\<rparr>, s3\<lparr>lstate := if lstate s3 < 4 then 0 else if lstate s3 < 10 then lstate s3 - 3 else lstate s3 - 6\<rparr>)))))"
    unfolding lzma_literal_def prev_def [symmetric] q bind.bind_lunit base_def Let_def by simp
  show ?thesis unfolding e
  proof (rule gives_step2 [OF m], elim conjE, rule gives_step2 [OF goes_lit_loop [OF f]], goal_cases)
    case (4 v xs s1 v2 ys s2)
    then have s2: "core_ok s2" "goes later s s2" "length ys = length (p_lit p)" by (auto intro: goesD goes_trans)
    show ?case
    proof (rule gives_then [OF goes_put [OF f s2(1)]])
      fix s3
      assume "goes later s2 s3"
      then have g: "goes later s s3" using s2(2) goes_trans by blast
      let ?t = "s3\<lparr>lstate := if lstate s3 < 4 then 0 else if lstate s3 < 10 then lstate s3 - 3 else lstate s3 - 6\<rparr>"
      have "core_ok ?t" using goesD(1) [OF g] by (simp add: core_ok_def win_ok_def tables_ok_def)
      moreover have "lz_ok ?t" using s(2) goesD(4-9) [OF g] by (auto simp: lz_ok_def)
      ultimately show "gives (Some (p\<lparr>p_lit := ys\<rparr>, ?t)) (\<lambda>(q, t). core_ok t \<and> lz_ok t \<and> lzma_ok q \<and>
        length (sees later t) \<le> length (sees later s) \<and> (bad s \<longrightarrow> bad t))"
        using p s2(3) goesD(2,3) [OF g] by (simp add: lzma_ok_def)
    qed
  qed (use b in \<open>auto dest: goesD(1)\<close>)
qed

section \<open>Matches\<close>

definition onward :: "('e source \<Rightarrow> u8 list) \<Rightarrow> 'e unpacker \<Rightarrow> 'e unpacker \<Rightarrow> bool" where
  "onward later s t \<longleftrightarrow> core_ok t \<and> length (sees later t) \<le> length (sees later s) \<and> (bad s \<longrightarrow> bad t)"

definition lz_pre :: "'e unpacker \<Rightarrow> bool" where
  "lz_pre s \<longleftrightarrow> lstate s < 12 \<and> lc s + lp s \<le> 4 \<and> pb s \<le> 4"

lemma lz_ok_pre: "lz_ok s \<Longrightarrow> lz_pre s"
  by (simp add: lz_ok_def lz_pre_def)

lemma goes_onward: "goes later s t \<Longrightarrow> onward later s t" "goes later s t \<Longrightarrow> lz_pre t = lz_pre s"
  by (auto simp: goes_def onward_def lz_pre_def lz_same_def)

lemma onward_refl: "core_ok s \<Longrightarrow> onward later s s"
  by (simp add: onward_def)

lemma onward_trans: "onward later s t \<Longrightarrow> onward later t u \<Longrightarrow> onward later s u"
  by (auto simp: onward_def)

lemma onward_core: "onward later s t \<Longrightarrow> core_ok t"
  by (simp add: onward_def)

lemma core_ok_lz: "core_ok (s\<lparr>lstate := a\<rparr>) = core_ok s" "core_ok (s\<lparr>rep0 := r0\<rparr>) = core_ok s" "core_ok (s\<lparr>rep1 := r1\<rparr>) = core_ok s"
  "core_ok (s\<lparr>rep2 := r2\<rparr>) = core_ok s" "core_ok (s\<lparr>rep3 := r3\<rparr>) = core_ok s"
  by (simp_all add: core_ok_def win_ok_def tables_ok_def)

lemma onward_lz:
  "onward later s (t\<lparr>lstate := a\<rparr>) = onward later s t" "onward later s (t\<lparr>rep0 := r0\<rparr>) = onward later s t"
  "onward later s (t\<lparr>rep1 := r1\<rparr>) = onward later s t" "onward later s (t\<lparr>rep2 := r2\<rparr>) = onward later s t"
  "onward later s (t\<lparr>rep3 := r3\<rparr>) = onward later s t"
  "onward later (s\<lparr>lstate := a\<rparr>) t = onward later s t" "onward later (s\<lparr>rep1 := r1\<rparr>) t = onward later s t"
  "onward later (s\<lparr>rep2 := r2\<rparr>) t = onward later s t" "onward later (s\<lparr>rep3 := r3\<rparr>) t = onward later s t"
  by (simp_all add: onward_def core_ok_lz)

lemma slot_room: "4 \<le> sl \<Longrightarrow> sl < 14 \<Longrightarrow> (2 + sl mod 2) * 2 ^ (sl div 2 - 1) - sl + 2 ^ (sl div 2 - 1) \<le> (115 :: nat)"
proof -
  assume "4 \<le> sl" "sl < 14"
  then have "sl - 4 < 10" "sl = sl - 4 + 4" by simp_all
  then have "sl = 4 \<or> sl = 5 \<or> sl = 6 \<or> sl = 7 \<or> sl = 8 \<or> sl = 9 \<or> sl = 10 \<or> sl = 11 \<or> sl = 12 \<or> sl = 13"
    by (auto simp: less_Suc_eq eval_nat_numeral)
  then consider "sl = 4" | "sl = 5" | "sl = 6" | "sl = 7" | "sl = 8" | "sl = 9" | "sl = 10" | "sl = 11" | "sl = 12" | "sl = 13"
    by blast
  then show ?thesis by cases simp_all
qed

lemma distance_safe:
  assumes f: "feeds io later" and s: "core_ok s" and p: "lzma_ok p"
  shows "gives (distance io len p s) (\<lambda>((d, q), t). goes later s t \<and> lzma_ok q)"
proof -
  define k where "k = (if len < 3 then len else 3)"
  have k: "k < length (p_slot p)" "length (p_slot p ! k) = 2 ^ 6" using p by (auto simp: k_def lzma_ok_def)
  show ?thesis unfolding distance_def k_def [symmetric] Let_def rd_simp [OF k(1)] bind.bind_lunit
  proof (rule gives_step2 [OF goes_tree [OF f s k(2)]], elim conjE, goal_cases)
    case (1 sl ys s1)
    let ?p = "p\<lparr>p_slot := (p_slot p)[k := ys]\<rparr>" and ?nb = "sl div 2 - 1"
    have q: "lzma_ok ?p" using p rows_update [of "p_slot p" 64 ys k] 1(2) k by (simp add: lzma_ok_def)
    have s1: "core_ok s1" by (rule goesD(1) [OF 1(1)])
    have lp: "length (p_pos ?p) = 115" "length (p_align ?p) = 2 ^ 4" using p by (simp_all add: lzma_ok_def)
    have near: "gives (rtree io (p_pos ?p) ((2 + sl mod 2) * 2 ^ ?nb - sl) ?nb s1 \<bind> (\<lambda>((r, zs), s2). Some ((of_nat ((2 + sl mod 2) * 2 ^ ?nb) + of_nat r, ?p\<lparr>p_pos := zs\<rparr>), s2)))
      (\<lambda>((d, q), t). goes later s t \<and> lzma_ok q)" if "4 \<le> sl" "sl < 14"
      by (rule gives_step2 [OF goes_rtree [OF f s1]])
        (use slot_room [OF that] lp q 1(1) in \<open>auto simp: lzma_ok_def intro: goes_trans\<close>)
    have far: "gives (direct io (?nb - 4) s1 \<bind> (\<lambda>(r, s2). rtree io (p_align ?p) 0 4 s2 \<bind> (\<lambda>((a, zs), s3).
        Some ((of_nat ((2 + sl mod 2) * 2 ^ ?nb) + push_bit 4 r + of_nat a, ?p\<lparr>p_align := zs\<rparr>), s3))))
      (\<lambda>((d, q), t). goes later s t \<and> lzma_ok q)"
    proof (rule gives_step, unfold direct_def, rule goes_direct_loop [OF f s1], rule gives_step2 [OF goes_rtree [OF f]], erule goesD)
      show "(4 :: nat) = 0 \<or> 0 + 2 ^ 4 \<le> length (p_align ?p)" using lp by simp
    qed (use q 1(1) in \<open>auto simp: lzma_ok_def intro: goes_trans\<close>)
    show ?case
    proof (cases "sl < 4")
      case False
      show ?thesis unfolding if_not_P [OF False]
      proof (cases "sl < 14")
        case True
        show "gives (if sl < 14 then rtree io (p_pos ?p) ((2 + sl mod 2) * 2 ^ ?nb - sl) ?nb s1 \<bind> (\<lambda>((r, zs), s2). Some ((of_nat ((2 + sl mod 2) * 2 ^ ?nb) + of_nat r, ?p\<lparr>p_pos := zs\<rparr>), s2))
          else direct io (?nb - 4) s1 \<bind> (\<lambda>(r, s2). rtree io (p_align ?p) 0 4 s2 \<bind> (\<lambda>((a, zs), s3).
            Some ((of_nat ((2 + sl mod 2) * 2 ^ ?nb) + push_bit 4 r + of_nat a, ?p\<lparr>p_align := zs\<rparr>), s3)))) (\<lambda>((d, q), t). goes later s t \<and> lzma_ok q)"
          unfolding if_P [OF True] by (rule near) (use False True in simp_all)
      next
        case far_slot: False
        show "gives (if sl < 14 then rtree io (p_pos ?p) ((2 + sl mod 2) * 2 ^ ?nb - sl) ?nb s1 \<bind> (\<lambda>((r, zs), s2). Some ((of_nat ((2 + sl mod 2) * 2 ^ ?nb) + of_nat r, ?p\<lparr>p_pos := zs\<rparr>), s2))
          else direct io (?nb - 4) s1 \<bind> (\<lambda>(r, s2). rtree io (p_align ?p) 0 4 s2 \<bind> (\<lambda>((a, zs), s3).
            Some ((of_nat ((2 + sl mod 2) * 2 ^ ?nb) + push_bit 4 r + of_nat a, ?p\<lparr>p_align := zs\<rparr>), s3)))) (\<lambda>((d, q), t). goes later s t \<and> lzma_ok q)"
          unfolding if_not_P [OF far_slot] by (rule far)
      qed
    qed (use q 1(1) in simp)
  qed
qed

lemma lzma_match_safe:
  assumes f: "feeds io later" and s: "core_ok s" "lz_pre s" and p: "lzma_ok p" and ps: "ps < 16"
  shows "gives (lzma_match io ps p s) (\<lambda>((len, q), t). onward later s t \<and> lz_pre t \<and> wsize t = wsize s \<and> lzma_ok q)"
  unfolding lzma_match_def
proof (rule gives_step2 [OF len_decode_safe [OF f]], goal_cases)
  case (4 len l s1)
  let ?u = "s1\<lparr>lstate := if lstate s1 < 7 then 7 else 10\<rparr>"
  have g: "goes later (s\<lparr>rep3 := rep2 s, rep2 := rep1 s, rep1 := rep0 s\<rparr>) s1" and l: "len_ok l" using 4 by auto
  have s1: "onward later s s1" "wsize s1 = wsize s" "lz_pre s1"
    using goes_onward [OF g] goesD(6) [OF g] s(2) by (simp_all add: onward_lz lz_pre_def)
  have u: "core_ok ?u" "lz_pre ?u" using s1 by (auto simp: core_ok_lz lz_pre_def dest: onward_core)
  show ?case
  proof (rule gives_step2 [OF distance_safe [OF f u(1)]])
    show "lzma_ok (p\<lparr>p_len := l\<rparr>)" using p l by (simp add: lzma_ok_def)
    fix d q s2
    assume a: "goes later ?u s2 \<and> lzma_ok q"
    have "onward later s1 s2" using goes_onward(1) [of later ?u s2] a by (simp add: onward_lz)
    then show "gives (Some ((len, q), s2\<lparr>rep0 := d\<rparr>)) (\<lambda>((len, q), t). onward later s t \<and> lz_pre t \<and> wsize t = wsize s \<and> lzma_ok q)"
      using a s1 u goes_onward(2) [of later ?u s2] goesD(6) [of later ?u s2] onward_trans [OF s1(1)]
      by (simp add: onward_lz lz_pre_def)
  qed
qed (use s p ps in \<open>simp_all add: core_ok_lz lzma_ok_def\<close>)

lemma pick_rep_safe:
  assumes f: "feeds io later" and s: "core_ok s" "lz_pre s" and p: "lzma_ok p" and ps: "ps < 16"
  shows "gives (pick_rep io ps p s) (\<lambda>((short, q), t). onward later s t \<and> lz_pre t \<and> wsize t = wsize s \<and> lzma_ok q)"
proof -
  let ?P = "\<lambda>((short :: bool, q), t). onward later s t \<and> lz_pre t \<and> wsize t = wsize s \<and> lzma_ok q"
  have st: "lstate s < 12" using s(2) by (simp add: lz_pre_def)
  have i: "lstate s < length (p_g0 p)" using p st by (simp add: lzma_ok_def)
  show ?thesis unfolding pick_rep_def Let_def
  proof (rule gives_step2 [OF goes_bit_at [OF f s(1) i]], elim conjE, goal_cases)
    case (1 b0 xs s1)
    note g1 = goesD [OF 1(1)]
    let ?p = "p\<lparr>p_g0 := xs\<rparr>"
    have q: "lzma_ok ?p" using p 1(3) by (simp add: lzma_ok_def)
    have i1: "lstate s1 * 16 + ps < length (p_rep0_long ?p)" "lstate s1 < length (p_g1 ?p)" using q st ps g1(4) by (simp_all add: lzma_ok_def)
    have short: "gives (bit_at io (p_rep0_long ?p) (lstate s1 * 16 + ps) s1 \<bind> (\<lambda>((b, ys), s2). Some ((b = 0, ?p\<lparr>p_rep0_long := ys\<rparr>), s2))) ?P"
    proof (rule gives_step2 [OF goes_bit_at [OF f g1(1) i1(1)]], elim conjE)
      fix b :: nat and ys :: "u16 list" and s2
      assume "goes later s1 s2" "length ys = length (p_rep0_long ?p)"
      then show "gives (Some ((b = 0, ?p\<lparr>p_rep0_long := ys\<rparr>), s2)) ?P"
        using q goes_onward [OF goes_trans [OF 1(1)]] goesD(6) [OF goes_trans [OF 1(1)]] s(2) by (simp add: lzma_ok_def)
    qed
    have long: "gives (bit_at io (p_g1 ?p) (lstate s1) s1 \<bind> (\<lambda>((b1, ys), s2).
      if b1 = 0 then Some ((False, ?p\<lparr>p_g1 := ys\<rparr>), s2\<lparr>rep0 := rep1 s2, rep1 := rep0 s2\<rparr>)
      else bit_at io (p_g2 (?p\<lparr>p_g1 := ys\<rparr>)) (lstate s2) s2 \<bind> (\<lambda>((b2, zs), s3).
        if b2 = 0 then Some ((False, ?p\<lparr>p_g1 := ys, p_g2 := zs\<rparr>), s3\<lparr>rep0 := rep2 s3, rep1 := rep0 s3, rep2 := rep1 s3\<rparr>)
        else Some ((False, ?p\<lparr>p_g1 := ys, p_g2 := zs\<rparr>), s3\<lparr>rep0 := rep3 s3, rep1 := rep0 s3, rep2 := rep1 s3, rep3 := rep2 s3\<rparr>)))) ?P"
    proof (rule gives_step2 [OF goes_bit_at [OF f g1(1) i1(2)]], elim conjE)
      fix b1 :: nat and ys :: "u16 list" and s2
      assume 2: "goes later s1 s2" "length ys = length (p_g1 ?p)"
      note g2 = goes_trans [OF 1(1) 2(1)]
      note o2 = goes_onward [OF g2] goesD [OF g2]
      have q2: "lzma_ok (?p\<lparr>p_g1 := ys\<rparr>)" using q 2(2) by (simp add: lzma_ok_def)
      have i2: "lstate s2 < length (p_g2 (?p\<lparr>p_g1 := ys\<rparr>))" using q2 st o2 by (simp add: lzma_ok_def)
      have "gives (bit_at io (p_g2 (?p\<lparr>p_g1 := ys\<rparr>)) (lstate s2) s2 \<bind> (\<lambda>((b2, zs), s3).
        if b2 = 0 then Some ((False, ?p\<lparr>p_g1 := ys, p_g2 := zs\<rparr>), s3\<lparr>rep0 := rep2 s3, rep1 := rep0 s3, rep2 := rep1 s3\<rparr>)
        else Some ((False, ?p\<lparr>p_g1 := ys, p_g2 := zs\<rparr>), s3\<lparr>rep0 := rep3 s3, rep1 := rep0 s3, rep2 := rep1 s3, rep3 := rep2 s3\<rparr>))) ?P"
      proof (rule gives_step2 [OF goes_bit_at [OF f o2(3) i2]], elim conjE)
        fix b2 :: nat and zs :: "u16 list" and s3
        assume 3: "goes later s2 s3" "length zs = length (p_g2 (?p\<lparr>p_g1 := ys\<rparr>))"
        note g3 = goes_trans [OF g2 3(1)]
        show "gives (if b2 = 0 then Some ((False, ?p\<lparr>p_g1 := ys, p_g2 := zs\<rparr>), s3\<lparr>rep0 := rep2 s3, rep1 := rep0 s3, rep2 := rep1 s3\<rparr>)
          else Some ((False, ?p\<lparr>p_g1 := ys, p_g2 := zs\<rparr>), s3\<lparr>rep0 := rep3 s3, rep1 := rep0 s3, rep2 := rep1 s3, rep3 := rep2 s3\<rparr>)) ?P"
          using q2 3(2) goes_onward [OF g3] goesD(6) [OF g3] s(2) by (simp add: lzma_ok_def onward_lz lz_pre_def)
      qed
      then show "gives (if b1 = 0 then Some ((False, ?p\<lparr>p_g1 := ys\<rparr>), s2\<lparr>rep0 := rep1 s2, rep1 := rep0 s2\<rparr>)
        else bit_at io (p_g2 (?p\<lparr>p_g1 := ys\<rparr>)) (lstate s2) s2 \<bind> (\<lambda>((b2, zs), s3).
          if b2 = 0 then Some ((False, ?p\<lparr>p_g1 := ys, p_g2 := zs\<rparr>), s3\<lparr>rep0 := rep2 s3, rep1 := rep0 s3, rep2 := rep1 s3\<rparr>)
          else Some ((False, ?p\<lparr>p_g1 := ys, p_g2 := zs\<rparr>), s3\<lparr>rep0 := rep3 s3, rep1 := rep0 s3, rep2 := rep1 s3, rep3 := rep2 s3\<rparr>))) ?P"
        using q2 o2(1,2,8) s(2) by (simp add: onward_lz lz_pre_def)
    qed
    show ?case
    proof (cases "b0 = 0")
      case True
      show ?thesis unfolding if_P [OF True] by (rule short)
    next
      case False
      show ?thesis unfolding if_not_P [OF False] by (rule long)
    qed
  qed
qed

end
