(* ===== verification/UnxzRun.thy ===== *)
theory UnxzRun
  imports Unxz
begin

text \<open>
  The loops of \<open>unxz\<close>: a chunk, the chunks of a block, the blocks of a file. Each pass takes input or
  ends, so fuel for the bytes of the input is enough.
\<close>

section \<open>A chunk\<close>

lemma copy_out_safe:
  assumes f: "feeds io later" and s: "core_ok s" "lz_pre s"
  shows "gives (copy_out io n left s) (\<lambda>(r, t). onward later s t \<and> (r \<noteq> None \<longrightarrow> lz_ok t))"
proof (cases "left < n")
  case False
  have "gives (copy io (rep0 s + 1) (of_nat n) s \<bind> (\<lambda>(ok, s1). Some (if ok then Some n else None, s1)))
    (\<lambda>(r, t). onward later s t \<and> (r \<noteq> None \<longrightarrow> lz_ok t))"
  proof (rule gives_step [OF goes_copy [OF f s(1)]], elim conjE)
    fix ok t
    assume t: "goes later s t" "ok \<longrightarrow> 0 < unat (rep0 s + 1) \<and> unat (rep0 s + 1) \<le> unat (wsize s)"
    then show "gives (Some (if ok then Some n else None, t)) (\<lambda>(r, t). onward later s t \<and> (r \<noteq> None \<longrightarrow> lz_ok t))"
      using goes_onward [OF t(1)] goesD(5,6) [OF t(1)] s(2) by (auto simp: lz_ok_def lz_pre_def)
  qed
  then show ?thesis using False by (simp add: copy_out_def)
qed (use s in \<open>simp add: copy_out_def onward_refl\<close>)

lemma copy_out_symbol:
  assumes f: "feeds io later" and u: "core_ok u" "lz_pre u" "onward later s u" and q: "lzma_ok q"
  shows "gives (copy_out io n left u \<bind> (\<lambda>(n, s4). Some ((n, q), s4)))
    (\<lambda>((r, q), t). onward later s t \<and> lzma_ok q \<and> (r \<noteq> None \<longrightarrow> lz_ok t))"
  by (rule gives_step [OF copy_out_safe [OF f u(1,2)]]) (use q onward_trans [OF u(3)] in auto)

lemma lzma_symbol_safe:
  assumes f: "feeds io later" and s: "core_ok s" "lz_ok s" and p: "lzma_ok p"
  shows "gives (lzma_symbol io left p s) (\<lambda>((r, q), t). onward later s t \<and> lzma_ok q \<and> (r \<noteq> None \<longrightarrow> lz_ok t))"
proof -
  define ps where "ps = unat ((ucast (total s) :: u32) AND (push_bit (pb s) 1 - 1))"
  have pb: "pb s \<le> 4" "lstate s < 12" using s(2) by (simp_all add: lz_ok_def)
  have "ps < 2 ^ pb s" unfolding ps_def using pb by (intro low_bits) simp
  also have "(2 :: nat) ^ pb s \<le> 2 ^ 4" using pb by (intro power_increasing) simp_all
  finally have ps: "ps < 16" by simp
  have i: "lstate s * 16 + ps < length (p_is_match p)" using pb ps p by (simp add: lzma_ok_def)
  show ?thesis unfolding lzma_symbol_def Let_def ps_def [symmetric]
  proof (rule gives_step2 [OF goes_bit_at [OF f s(1) i]], elim conjE, goal_cases)
    case (1 m xs s1)
    let ?p = "p\<lparr>p_is_match := xs\<rparr>"
    note g1 = goesD [OF 1(1)]
    have p1: "lzma_ok ?p" using p 1(3) by (simp add: lzma_ok_def)
    have lz1: "lz_ok s1" using g1(10) s(2) by simp
    show ?case
    proof (cases "m = 0")
      case True
      show ?thesis unfolding if_P [OF True]
        by (rule gives_step [OF lzma_literal_safe [OF f g1(1) lz1 p1]])
          (use goes_onward(1) [OF 1(1)] in \<open>auto simp: onward_def\<close>)
    next
      case False
      have j: "lstate s1 < length (p_is_rep ?p)" using p1 pb g1(4) by (simp add: lzma_ok_def)
      show ?thesis unfolding if_not_P [OF False]
      proof (rule gives_step2 [OF goes_bit_at [OF f g1(1) j]], elim conjE, goal_cases)
        case (1 r ys s2)
        let ?q = "?p\<lparr>p_is_rep := ys\<rparr>"
        have q: "lzma_ok ?q" using p1 1(3) by (simp add: lzma_ok_def)
        note g2 = goes_trans [OF \<open>goes later s s1\<close> 1(1)]
        have s2: "core_ok s2" "lz_pre s2" "onward later s s2"
          using goesD(1) [OF g2] goes_onward [OF g2] lz_ok_pre [OF s(2)] by simp_all
        show ?case
        proof (cases "r = 0")
          case True
          show ?thesis unfolding if_P [OF True]
            by (rule gives_step2 [OF lzma_match_safe [OF f s2(1,2) q ps]])
              (intro copy_out_symbol [OF f], auto intro: onward_core onward_trans [OF s2(3)])
        next
          case False
          show ?thesis unfolding if_not_P [OF False]
          proof (rule gives_step2 [OF pick_rep_safe [OF f s2(1,2) q ps]], elim conjE, goal_cases)
            case (1 short p2 s3)
            note o3 = onward_trans [OF s2(3) 1(1)]
            have sh: "gives (copy_out io 1 left (s3\<lparr>lstate := if lstate s3 < 7 then 9 else 11\<rparr>) \<bind> (\<lambda>(n, s4). Some ((n, p2), s4)))
              (\<lambda>((r, q), t). onward later s t \<and> lzma_ok q \<and> (r \<noteq> None \<longrightarrow> lz_ok t))"
              by (rule copy_out_symbol [OF f])
                (use 1 o3 in \<open>auto simp: core_ok_lz onward_lz lz_pre_def dest: onward_core\<close>)
            have lg: "gives (len_decode io (p_rep_len p2) ps s3 \<bind> (\<lambda>((len, l), s4).
                copy_out io (len + 2) left (s4\<lparr>lstate := if lstate s4 < 7 then 8 else 11\<rparr>) \<bind> (\<lambda>(n, s5). Some ((n, p2\<lparr>p_rep_len := l\<rparr>), s5))))
              (\<lambda>((r, q), t). onward later s t \<and> lzma_ok q \<and> (r \<noteq> None \<longrightarrow> lz_ok t))"
            proof (rule gives_step2 [OF len_decode_safe [OF f onward_core [OF 1(1)] _ ps]], goal_cases)
              case (2 len l s4)
              have g4: "goes later s3 s4" "len_ok l" using 2 by auto
              have o4: "onward later s s4" "lz_pre s4" using goes_onward [OF g4(1)] onward_trans [OF o3] 1(2) by auto
              show ?case
                by (rule copy_out_symbol [OF f])
                  (use 1(4) g4(2) o4 in \<open>auto simp: core_ok_lz onward_lz lz_pre_def lzma_ok_def dest: onward_core\<close>)
            qed (use 1(4) in \<open>simp add: lzma_ok_def\<close>)
            show ?case
            proof (cases short)
              case True
              show ?thesis unfolding if_P [OF True] by (rule sh)
            next
              case False
              show ?thesis unfolding if_not_P [OF False] by (rule lg)
            qed
          qed
        qed
      qed
    qed
  qed
qed

lemma lzma_chunk_safe:
  assumes f: "feeds io later"
  shows "core_ok s \<Longrightarrow> lz_ok s \<Longrightarrow> lzma_ok p \<Longrightarrow>
    gives (lzma_chunk io left p s) (\<lambda>((ok, q), t). onward later s t \<and> lzma_ok q \<and> (ok \<longrightarrow> lz_ok t))"
proof (induction left arbitrary: p s rule: less_induct)
  case (less left)
  show ?case
  proof (cases "0 < left \<and> \<not> (bad s \<or> wstop s)")
    case True
    then have e: "lzma_chunk io left p s = lzma_symbol io left p s \<bind> (\<lambda>((r, p1), s1).
      case r of None \<Rightarrow> Some ((False, p1), s1) | Some n \<Rightarrow> lzma_chunk io (left - n) p1 s1)"
      by (subst lzma_chunk.simps) simp
    have sym: "gives (lzma_symbol io left p s) (\<lambda>((r, q), t). lzma_symbol io left p s = Some ((r, q), t) \<and>
      onward later s t \<and> lzma_ok q \<and> (r \<noteq> None \<longrightarrow> lz_ok t))"
      by (rule gives_mono [OF lzma_symbol_safe [OF f less.prems]]) auto
    show ?thesis unfolding e
    proof (rule gives_step2 [OF sym], elim conjE)
      fix r q t
      assume x: "lzma_symbol io left p s = Some ((r, q), t)" and t: "onward later s t" "lzma_ok q" "r \<noteq> None \<longrightarrow> lz_ok t"
      show "gives (case r of None \<Rightarrow> Some ((False, q), t) | Some n \<Rightarrow> lzma_chunk io (left - n) q t)
        (\<lambda>((ok, q), t). onward later s t \<and> lzma_ok q \<and> (ok \<longrightarrow> lz_ok t))"
      proof (cases r)
        case None
        then show ?thesis using t by simp
      next
        case (Some n)
        have n: "0 < n" using x lzma_symbol_pos [of io left p s n q t] by (simp add: Some)
        have "gives (lzma_chunk io (left - n) q t) (\<lambda>((ok, q), u). onward later t u \<and> lzma_ok q \<and> (ok \<longrightarrow> lz_ok u))"
          using True n t Some by (intro less.IH) (auto dest: onward_core)
        then have "gives (lzma_chunk io (left - n) q t) (\<lambda>((ok, q), u). onward later s u \<and> lzma_ok q \<and> (ok \<longrightarrow> lz_ok u))"
          by (rule gives_mono) (use onward_trans [OF t(1)] in auto)
        then show ?thesis by (simp add: Some)
      qed
    qed
  next
    case False
    then show ?thesis using less.prems by (subst lzma_chunk.simps) (auto simp: onward_refl)
  qed
qed

section \<open>The chunks of a block\<close>

lemma goes_word:
  assumes f: "feeds io later" and s: "core_ok s"
  shows "gives (word_in io s) (\<lambda>(w, t). goes later s t)"
  unfolding word_in_def
  by (rule gives_step [OF goes_byte [OF f s]], elim conjE, rule gives_step [OF goes_byte [OF f]], erule goesD)
    (auto intro: goes_trans)

lemma goes_rc_init:
  assumes f: "feeds io later" and s: "core_ok s"
  shows "gives (rc_init io s) (goes later s)"
  unfolding rc_init_def
proof (rule gives_step [OF goes_byte [OF f s]], elim conjE, rule gives_then [where P = "goes later s"])
  fix b t
  assume t: "goes later s t"
  show "gives (for_each [0..<4] (\<lambda>i s. byte_in io s \<bind> (\<lambda>(b, s1). Some (s1\<lparr>rc_code := push_bit 8 (rc_code s1) OR ucast b\<rparr>))) (t\<lparr>rc_code := 0\<rparr>)) (goes later s)"
  proof (rule gives_for_each)
    fix u
    assume u: "goes later s u"
    show "gives (byte_in io u \<bind> (\<lambda>(b, s1). Some (s1\<lparr>rc_code := push_bit 8 (rc_code s1) OR ucast b\<rparr>))) (goes later s)"
      by (rule gives_step [OF goes_byte [OF f goesD(1) [OF u]]]) (use goes_trans [OF u] in \<open>simp add: goes_rc\<close>)
  qed (use t in \<open>simp add: goes_rc\<close>)
qed (simp add: goes_rc)

lemma goes_skip_to:
  assumes f: "feeds io later"
  shows "core_ok s \<Longrightarrow> 0 < fuel \<Longrightarrow> bad s \<or> length (sees later s) + 2 \<le> fuel \<Longrightarrow> gives (skip_to io fuel stop s) (goes later s)"
proof (induction fuel arbitrary: s)
  case (Suc fuel)
  show ?case
  proof (cases "i_count (inp s) < stop \<and> \<not> bad s")
    case True
    have "gives (byte_in io s \<bind> (\<lambda>(b, s1). skip_to io fuel stop s1)) (goes later s)"
    proof (rule gives_step [OF goes_byte [OF f Suc.prems(1)]], elim conjE)
      fix b :: u8 and t
      assume t: "goes later s t" "\<not> bad t \<longrightarrow> length (sees later t) < length (sees later s)"
      have "gives (skip_to io fuel stop t) (goes later t)"
        by (rule Suc.IH [OF goesD(1) [OF t(1)]]) (use True Suc.prems(3) t(2) in auto)
      then show "gives (skip_to io fuel stop t) (goes later s)" by (rule gives_mono) (rule goes_trans [OF t(1)])
    qed
    then show ?thesis using True by simp
  next
    case False
    then show ?thesis unfolding skip_to.simps if_not_P [OF False] using Suc.prems(1) by (simp add: goes_refl)
  qed
qed simp

lemma read_props_safe:
  assumes f: "feeds io later" and s: "core_ok s"
  shows "gives (read_props io s) (\<lambda>(fine, t). onward later s t \<and> (fine \<longrightarrow> lc t + lp t \<le> 4 \<and> pb t \<le> 4))"
  unfolding read_props_def
proof (rule gives_step [OF goes_byte [OF f s]], elim conjE)
  fix b :: u8 and t
  assume t: "goes later s t"
  have "224 < b \<longleftrightarrow> 224 < unat b" by (simp add: word_nat)
  then show "gives (if 224 < b then Some (False, t)
      else let s2 = t\<lparr>lc := unat b mod 9, lp := unat b div 9 mod 5, pb := unat b div 45\<rparr> in Some (lc s2 + lp s2 \<le> 4, s2))
    (\<lambda>(fine, t). onward later s t \<and> (fine \<longrightarrow> lc t + lp t \<le> 4 \<and> pb t \<le> 4))"
    using goes_onward(1) [OF t] by (auto simp: onward_def core_ok_def win_ok_def tables_ok_def)
qed

lemma lzma_reset_ok:
  assumes "lzma_reset p s = (q, t)" "core_ok s" "lc s + lp s \<le> 4" "pb s \<le> 4"
  shows "lzma_ok q" "core_ok t" "lz_ok t" "onward later s t"
  using assms by (auto simp: lzma_reset_def lzma_of_ok core_ok_lz lz_ok_def onward_lz onward_refl)

lemma packed_safe:
  assumes f: "feeds io later" and s: "core_ok s" "props \<longrightarrow> lz_ok s" and p: "lzma_ok p"
    and u: "length (sees later s) + 2 \<le> fuel"
  shows "gives (packed io fuel c props p s) (\<lambda>((ok, props1, q), t). onward later s t \<and> lzma_ok q \<and> (ok \<longrightarrow> lz_ok t))"
  unfolding packed_def
proof (rule gives_step [OF goes_word [OF f s(1)]], unfold Let_def, rule gives_step [OF goes_word [OF f]], erule goesD, goal_cases)
  case (1 w s1 w2 s2)
  note g2 = goes_trans [OF 1]
  define reset where "reset = drop_bit 5 c AND 3"
  define s3 where "s3 = (if reset = 3 then s2\<lparr>total := 0\<rparr> else s2)"
  have s3: "core_ok s3" "onward later s s3" "props \<Longrightarrow> lz_ok s3"
    using goesD(1,10) [OF g2] goes_onward(1) [OF g2] s(2)
    by (auto simp: s3_def onward_def core_ok_def win_ok_def tables_ok_def lz_ok_def)
  have r: "gives (if 2 \<le> reset then read_props io s3 else Some (True, s3))
    (\<lambda>(fine, t). onward later s t \<and> (fine \<longrightarrow> 2 \<le> reset \<longrightarrow> lc t + lp t \<le> 4 \<and> pb t \<le> 4) \<and> (\<not> 2 \<le> reset \<longrightarrow> t = s3))"
  proof (cases "2 \<le> reset")
    case True
    show ?thesis unfolding if_P [OF True]
      by (rule gives_mono [OF read_props_safe [OF f s3(1)]]) (use True onward_trans [OF s3(2)] in auto)
  qed (use s3 in simp)
  show ?case unfolding reset_def [symmetric] s3_def [symmetric]
  proof (rule gives_step [OF r], elim conjE, goal_cases)
    case (1 fine s4)
    show ?case
    proof (cases "\<not> fine \<or> \<not> (props \<or> 2 \<le> reset)")
      case True
      then show ?thesis unfolding if_P [OF True] using 1(1) p by simp
    next
      case False
      obtain p1 s5 where ps: "(if 1 \<le> reset then lzma_reset p s4 else (p, s4)) = (p1, s5)" by fastforce
      have c4: "core_ok s4" by (rule onward_core [OF 1(1)])
      have lz4: "lc s4 + lp s4 \<le> 4" "pb s4 \<le> 4"
        using False 1(2,3) s3(3) by (cases "2 \<le> reset"; auto simp: lz_ok_def)+
      have s5: "lzma_ok p1" "core_ok s5" "lz_ok s5" "onward later s s5"
      proof -
        have "lzma_ok p1 \<and> core_ok s5 \<and> lz_ok s5 \<and> onward later s s5"
        proof (cases "1 \<le> reset")
          case True
          then have "lzma_reset p s4 = (p1, s5)" using ps by simp
          note r = lzma_reset_ok [OF this c4 lz4]
          show ?thesis using r(1-3) onward_trans [OF 1(1) r(4)] by blast
        next
          case False
          then have "\<not> 2 \<le> reset" by (simp add: word_nat)
          then show ?thesis using ps False 1 p c4 s3(3) \<open>\<not> (\<not> fine \<or> \<not> (props \<or> 2 \<le> reset))\<close> by auto
        qed
        then show "lzma_ok p1" "core_ok s5" "lz_ok s5" "onward later s s5" by blast+
      qed
      show ?thesis unfolding if_not_P [OF False] ps prod.case
      proof (rule gives_then [OF goes_rc_init [OF f s5(2)]])
        fix s6
        assume g6: "goes later s5 s6"
        have s6: "core_ok s6" "lz_ok s6" "onward later s s6" using goesD(1,10) [OF g6] s5(3) onward_trans [OF s5(4) goes_onward(1) [OF g6]] by auto
        show "gives (lzma_chunk io (unat ((push_bit 16 (ucast (c AND 0x1F)) OR w) + 1)) p1 s6 \<bind> (\<lambda>((ok, p2), s7).
            if ok then skip_to io fuel (i_count (inp s5) + ucast (w2 + 1)) s7 \<bind> (\<lambda>s8. Some ((True, props \<or> 2 \<le> reset, p2), s8))
            else Some ((False, props \<or> 2 \<le> reset, p2), s7)))
          (\<lambda>((ok, props1, q), t). onward later s t \<and> lzma_ok q \<and> (ok \<longrightarrow> lz_ok t))"
        proof (rule gives_step2 [OF lzma_chunk_safe [OF f s6(1,2) s5(1)]], elim conjE)
          fix ok p2 s7
          assume 7: "onward later s6 s7" "lzma_ok p2" "ok \<longrightarrow> lz_ok s7"
          have o7: "onward later s s7" by (rule onward_trans [OF s6(3) 7(1)])
          have "gives (skip_to io fuel (i_count (inp s5) + ucast (w2 + 1)) s7 \<bind> (\<lambda>s8. Some ((True, props \<or> 2 \<le> reset, p2), s8)))
            (\<lambda>((ok, props1, q), t). onward later s t \<and> lzma_ok q \<and> (ok \<longrightarrow> lz_ok t))" if ok
          proof (rule gives_then [OF goes_skip_to [OF f onward_core [OF 7(1)]]])
            show "0 < fuel" "bad s7 \<or> length (sees later s7) + 2 \<le> fuel" using u o7 by (auto simp: onward_def)
            fix s8
            assume g: "goes later s7 s8"
            show "gives (Some ((True, props \<or> 2 \<le> reset, p2), s8)) (\<lambda>((ok, props1, q), t). onward later s t \<and> lzma_ok q \<and> (ok \<longrightarrow> lz_ok t))"
              using goes_onward(1) [OF g] goesD(10) [OF g] onward_trans [OF o7] 7 that by simp
          qed
          then show "gives (if ok then skip_to io fuel (i_count (inp s5) + ucast (w2 + 1)) s7 \<bind> (\<lambda>s8. Some ((True, props \<or> 2 \<le> reset, p2), s8))
              else Some ((False, props \<or> 2 \<le> reset, p2), s7))
            (\<lambda>((ok, props1, q), t). onward later s t \<and> lzma_ok q \<and> (ok \<longrightarrow> lz_ok t))" using o7 7(2) by simp
        qed
      qed
    qed
  qed
qed

lemma lzma2_loop_safe:
  assumes f: "feeds io later"
  shows "core_ok s \<Longrightarrow> props \<longrightarrow> lz_ok s \<Longrightarrow> lzma_ok p \<Longrightarrow> length (sees later s) + 3 \<le> fuel \<Longrightarrow>
    gives (lzma2_loop io fuel props p s) (\<lambda>((ok, q), t). onward later s t \<and> lzma_ok q)"
proof (induction fuel arbitrary: props p s)
  case (Suc fuel)
  let ?P = "\<lambda>((ok :: bool, q), t). onward later s t \<and> lzma_ok q"
  show ?case unfolding lzma2_loop.simps
  proof (rule gives_step [OF goes_byte [OF f Suc.prems(1)]], elim conjE)
    fix c :: u8 and s1
    assume g: "goes later s s1" "\<not> bad s1 \<longrightarrow> length (sees later s1) < length (sees later s)"
    note o1 = goes_onward(1) [OF g(1)] and c1 = goesD(1) [OF g(1)]
    have again: "gives (lzma2_loop io fuel pr q t) ?P"
      if "\<not> bad s1" "onward later s1 t" "pr \<longrightarrow> lz_ok t" "lzma_ok q" for pr q t
    proof -
      have "length (sees later t) + 3 \<le> fuel" using that g(2) Suc.prems(4) by (auto simp: onward_def)
      then have "gives (lzma2_loop io fuel pr q t) (\<lambda>((ok, q), u). onward later t u \<and> lzma_ok q)"
        by (intro Suc.IH that onward_core [OF that(2)])
      then show ?thesis by (rule gives_mono) (use onward_trans [OF onward_trans [OF o1 that(2)]] in auto)
    qed
    have st: "gives (word_in io s1 \<bind> (\<lambda>(w, s2). pass io (unat (w + 1)) (if c = 1 then s2\<lparr>total := 0\<rparr> else s2) \<bind> lzma2_loop io fuel props p)) ?P"
      if nb: "\<not> bad s1"
    proof (rule gives_step [OF goes_word [OF f c1]])
      fix w s2
      assume g2: "goes later s1 s2"
      let ?t = "if c = 1 then s2\<lparr>total := 0\<rparr> else s2"
      have t: "core_ok ?t" "onward later s1 ?t" "props \<longrightarrow> lz_ok ?t"
        using goesD(1,10) [OF g2] goes_onward(1) [OF g2] goesD(10) [OF g(1)] Suc.prems(2)
        by (auto simp: onward_def core_ok_def win_ok_def tables_ok_def lz_ok_def)
      show "gives (pass io (unat (w + 1)) ?t \<bind> lzma2_loop io fuel props p) ?P"
      proof (rule gives_then [OF goes_pass [OF f t(1)]])
        fix s3
        assume g3: "goes later ?t s3"
        show "gives (lzma2_loop io fuel props p s3) ?P"
          by (rule again [OF nb onward_trans [OF t(2) goes_onward(1) [OF g3]] _ Suc.prems(3)]) (use goesD(10) [OF g3] t(3) in blast)
      qed
    qed
    have pk: "gives (packed io fuel c props p s1 \<bind> (\<lambda>((ok, props1, p1), s2). if ok then lzma2_loop io fuel props1 p1 s2 else Some ((False, p1), s2))) ?P"
      if nb: "\<not> bad s1"
    proof (rule gives_step [OF packed_safe [OF f c1 _ Suc.prems(3)], where f = "\<lambda>(ok, props1, p1) s2. if ok then lzma2_loop io fuel props1 p1 s2 else Some ((False, p1), s2)", simplified])
      show "props \<longrightarrow> lz_ok s1" using goesD(10) [OF g(1)] Suc.prems(2) by simp
      show "Suc (Suc (length (sees later s1))) \<le> fuel" using nb g(2) Suc.prems(4) by simp
    qed (auto intro: again [OF nb] onward_trans [OF o1])
    show "gives (if bad s1 \<or> wstop s1 then Some ((False, p), s1) else if c = 0 then Some ((True, p), s1)
      else if c = 1 \<or> c = 2 then word_in io s1 \<bind> (\<lambda>(w, s2). pass io (unat (w + 1)) (if c = 1 then s2\<lparr>total := 0\<rparr> else s2) \<bind> lzma2_loop io fuel props p)
      else if c < 0x80 then Some ((False, p), s1)
      else packed io fuel c props p s1 \<bind> (\<lambda>((ok, props1, p1), s2). if ok then lzma2_loop io fuel props1 p1 s2 else Some ((False, p1), s2))) ?P"
      using st pk o1 Suc.prems(3) by (simp split: if_split)
  qed
qed simp

section \<open>The container\<close>

lemma vli_loop_safe: "at + n \<le> length h \<Longrightarrow> gives (vli_loop h end n i at v) (\<lambda>(v, k). k \<le> at + n)"
proof (induction n arbitrary: i at v)
  case (Suc n)
  have "gives (vli_loop h end n (i + 1) (at + 1) w) (\<lambda>(v, k). k \<le> at + Suc n)" for w
    by (rule gives_mono [OF Suc.IH]) (use Suc.prems in auto)
  then show ?case using Suc.prems by (simp add: Let_def)
qed simp

lemma vli_safe: "at + 9 \<le> length h \<Longrightarrow> gives (vli h at end) (\<lambda>(v, k). k \<le> at + 9)"
  unfolding vli_def by (rule vli_loop_safe)

text \<open>Four numbers of nine bytes at most: the header is read within its first 39 bytes.\<close>

lemma block_head_safe:
  assumes h: "length h = 1024"
  shows "gives (block_head hs h) (\<lambda>r. case r of None \<Rightarrow> True | Some (blk, d) \<Rightarrow> d \<le> 40)"
proof -
  have f1: "rd h 1 = Some (h ! 1)" using h by simp
  have opt: "gives (if b then vli h at hs else Some (0, at)) (\<lambda>(v, k). k \<le> at + 9)" if "at + 9 \<le> length h" for b at
    using vli_safe [OF that] by simp
  show ?thesis unfolding block_head_def f1 bind.bind_lunit
  proof (rule gives_step [OF opt], goal_cases)
    case (2 v at)
    show ?case
    proof (rule gives_step [OF opt], goal_cases)
      case (2 v2 at2)
      show ?case
      proof (rule gives_step [OF vli_safe], goal_cases)
        case (2 v3 at3)
        show ?case
        proof (rule gives_step [OF vli_safe], goal_cases)
          case (2 v4 at4)
          then have "at4 < length h" using h \<open>at \<le> 2 + 9\<close> \<open>at2 \<le> at + 9\<close> \<open>at3 \<le> at2 + 9\<close> by simp
          then show ?case by (simp add: not_less)
        qed (use h \<open>at \<le> 2 + 9\<close> \<open>at2 \<le> at + 9\<close> \<open>at3 \<le> at2 + 9\<close> in simp)
      qed (use h \<open>at \<le> 2 + 9\<close> \<open>at2 \<le> at + 9\<close> in simp)
    qed (use h \<open>at \<le> 2 + 9\<close> in simp)
  qed (use h in simp)
qed

lemma unat_push_bit_le: "unat (push_bit n v) \<le> unat v * 2 ^ n" for v :: "'a::len word"
  unfolding unsigned_push_bit_eq by (rule order_trans [OF take_bit_nat_less_eq_self]) (simp add: push_bit_eq_mult)

lemma dict_size_bounds:
  assumes "d \<le> 40"
  shows "4096 \<le> unat (dict_size sz d)" "unat (dict_size sz d) < 2 ^ 32"
proof -
  define dict where "dict = (if d = 40 then 0xFFFFFFFF else push_bit (unat d div 2 + 11) (2 OR (ucast d AND 1)) :: u64)"
  have "unat dict < 2 ^ 32"
  proof (cases "d = 40")
    case False
    have "(ucast d AND 1 :: u64) = of_bool (odd (ucast d :: u64))" by (simp add: and_one_eq mod_2_eq_odd)
    then have "2 OR (ucast d AND 1) = (2 :: u64) \<or> 2 OR (ucast d AND 1) = (3 :: u64)" by simp
    then have v: "unat (2 OR (ucast d AND 1) :: u64) \<le> 3" by auto
    have "unat d \<le> 39" using assms False by (auto simp: word_nat word_unat_eq_iff)
    then have n: "unat d div 2 + 11 \<le> 30" by simp
    have "unat dict \<le> unat (2 OR (ucast d AND 1) :: u64) * 2 ^ (unat d div 2 + 11)"
      unfolding dict_def using False unat_push_bit_le [of "unat d div 2 + 11" "2 OR (ucast d AND 1) :: u64"] by simp
    also have "\<dots> \<le> 3 * 2 ^ 30" using v n by (intro mult_le_mono power_increasing) simp_all
    finally show ?thesis by simp
  qed (simp add: dict_def)
  then have "unat (if sz \<noteq> 0 \<and> sz < dict then sz else dict) < 2 ^ 32" by (auto simp: word_nat)
  then show "4096 \<le> unat (dict_size sz d)" "unat (dict_size sz d) < 2 ^ 32"
    unfolding dict_size_def Let_def dict_def [symmetric] by (auto simp: word_nat)
qed

lemma unat_dict: "d \<le> 40 \<Longrightarrow> unat (ucast (dict_size sz d) :: u32) = unat (dict_size sz d)"
  using dict_size_bounds(2) [of d sz] by (simp add: unsigned_ucast_eq take_bit_nat_eq_self)

definition base_ok :: "'e unpacker \<Rightarrow> bool" where
  "base_ok s \<longleftrightarrow> src_ok (inp s) \<and> tables_ok s"

lemma core_base: "core_ok s \<Longrightarrow> base_ok s"
  by (simp add: core_ok_def base_ok_def)

lemma first_block_safe:
  assumes f: "feeds io later" and s: "base_ok s" and d: "d \<le> 40" and o: "first_block io sz d s = ((ok, p), t)"
  shows "base_ok t" "sees later t = sees later s" "ok \<Longrightarrow> core_ok t" "ok \<Longrightarrow> \<exists>q. p = Some q \<and> lzma_ok q"
proof -
  obtain a s1 where x: "xalloc io lzma_bytes s = (a, s1)" by fastforce
  note X = xalloc_spec [OF f x]
  have b1: "base_ok s1" using X(1,3) s by (auto simp: base_ok_def tables_ok_def)
  obtain b s2 where w: "window_open io (ucast (dict_size sz d)) s1 = (b, s2)" by fastforce
  have n: "0 < unat (ucast (dict_size sz d) :: u32)" using dict_size_bounds(1) [OF d, of sz] by (simp add: unat_dict [OF d])
  note W = window_open_spec [OF f n w]
  have b2: "base_ok s2" using W(1,3) b1 by (auto simp: base_ok_def tables_ok_def)
  have e: "((ok, p), t) = (if \<not> a then ((False, None), s1) else ((b, Some (lzma_of 0)), s2))"
    using o by (cases a) (simp_all add: first_block_def x w)
  show "base_ok t" "sees later t = sees later s" using e b1 b2 X(2) W(2) by (auto split: if_splits)
  show "ok \<Longrightarrow> core_ok t" using e W(6) b2 by (auto simp: core_ok_def base_ok_def split: if_splits)
  show "ok \<Longrightarrow> \<exists>q. p = Some q \<and> lzma_ok q" using e by (auto simp: lzma_of_ok split: if_splits)
qed

lemma goes_skip_padding:
  assumes f: "feeds io later"
  shows "core_ok s \<Longrightarrow> 0 < fuel \<Longrightarrow> bad s \<or> length (sees later s) + 2 \<le> fuel \<Longrightarrow> gives (skip_padding io fuel st0 s) (goes later s)"
proof (induction fuel arbitrary: s)
  case (Suc fuel)
  show ?case
  proof (cases "(i_count (inp s) - st0) mod 4 \<noteq> 0 \<and> \<not> bad s")
    case True
    have "gives (byte_in io s \<bind> (\<lambda>(b, s1). skip_padding io fuel st0 s1)) (goes later s)"
    proof (rule gives_step [OF goes_byte [OF f Suc.prems(1)]], elim conjE)
      fix b :: u8 and t
      assume t: "goes later s t" "\<not> bad t \<longrightarrow> length (sees later t) < length (sees later s)"
      have "gives (skip_padding io fuel st0 t) (goes later t)"
        by (rule Suc.IH [OF goesD(1) [OF t(1)]]) (use True Suc.prems(3) t(2) in auto)
      then show "gives (skip_padding io fuel st0 t) (goes later s)" by (rule gives_mono) (rule goes_trans [OF t(1)])
    qed
    then show ?thesis using True by simp
  next
    case False
    then show ?thesis unfolding skip_padding.simps if_not_P [OF False] using Suc.prems(1) by (simp add: goes_refl)
  qed
qed simp

definition only_head :: "('e source \<Rightarrow> u8 list) \<Rightarrow> 'e unpacker \<Rightarrow> 'e unpacker \<Rightarrow> bool" where
  "only_head later s t \<longleftrightarrow> (\<exists>i h. t = s\<lparr>inp := i, xz_head := h\<rparr> \<and> src_ok i \<and> length h = 1024 \<and> length (view later i) \<le> length (sees later s))"

lemma only_head_ok:
  assumes "only_head later s t"
  shows "base_ok s \<Longrightarrow> base_ok t" "core_ok s \<Longrightarrow> core_ok t" "length (xz_head t) = 1024" "length (sees later t) \<le> length (sees later s)"
  using assms by (auto simp: only_head_def base_ok_def core_ok_def win_ok_def tables_ok_def)

lemma head_in_safe:
  assumes f: "feeds io later" and s: "base_ok s" and k: "k + unat n \<le> 1024"
  shows "gives (head_in io k n s) (\<lambda>(ok, t). only_head later s t)"
proof -
  have s': "src_ok (inp s)" "length (xz_head s) = 1024" using s by (simp_all add: base_ok_def tables_ok_def)
  show ?thesis unfolding head_in_def Let_def
  proof (rule gives_step2 [OF read_in_spec [OF f s'(1)]], elim exE conjE)
    fix ok bs t i
    assume t: "t = s\<lparr>inp := i\<rparr>" "src_ok i" and r: "if unat n \<le> length (sees later s)
       then ok \<and> bs = take (unat n) (sees later s) \<and> view later i = drop (unat n) (sees later s) \<and> i_bad i = bad s
       else \<not> ok \<and> bs = sees later s \<and> view later i = [] \<and> i_bad i"
    have l: "length bs \<le> unat n" "length (view later i) \<le> length (sees later s)" using r by (auto split: if_splits)
    have "k + length bs \<le> length (xz_head t)" using k l s' t by simp
    moreover have "only_head later s (t\<lparr>xz_head := take k (xz_head t) @ bs @ drop (k + length bs) (xz_head t)\<rparr>)"
      unfolding only_head_def using t l s' k
      by (intro exI [of _ i] exI [of _ "take k (xz_head t) @ bs @ drop (k + length bs) (xz_head t)"]) simp
    ultimately show "gives (if k + length bs \<le> length (xz_head t)
      then Some (ok, t\<lparr>xz_head := take k (xz_head t) @ bs @ drop (k + length bs) (xz_head t)\<rparr>) else None) (\<lambda>(ok, t). only_head later s t)" by simp
  qed
qed

lemma byte_only_head:
  assumes f: "feeds io later" and s: "base_ok s"
  shows "gives (byte_in io s) (\<lambda>(b, t). only_head later s t \<and> (\<not> bad t \<longrightarrow> length (sees later t) < length (sees later s)))"
proof -
  have s': "src_ok (inp s)" "length (xz_head s) = 1024" using s by (simp_all add: base_ok_def tables_ok_def)
  show ?thesis
    by (cases "sees later s"; rule gives_mono [OF byte_in_spec [OF f s'(1)]])
      (use s' in \<open>auto simp: only_head_def intro!: exI [of _ "xz_head s"]\<close>)
qed

text \<open>\<open>p\<close> is there as soon as the window is.\<close>

definition ready_for :: "lzma option \<Rightarrow> 'e unpacker \<Rightarrow> bool" where
  "ready_for p s \<longleftrightarrow> base_ok s \<and> (case p of None \<Rightarrow> True | Some q \<Rightarrow> core_ok s \<and> lzma_ok q)"

lemma ready_for_head: "ready_for p s \<Longrightarrow> only_head later s t \<Longrightarrow> ready_for p t"
  using only_head_ok by (auto simp: ready_for_def split: option.splits)

text \<open>One block's data, once its header is accepted.\<close>

lemma block_data_safe:
  assumes f: "feeds io later" and s: "core_ok s" and q: "lzma_ok q" and u: "length (sees later s) + 3 \<le> fuel"
    and k: "\<And>q t. core_ok t \<Longrightarrow> lzma_ok q \<Longrightarrow> length (sees later t) \<le> length (sees later s) \<Longrightarrow> gives (K q t) (\<lambda>(r, t). base_ok t)"
  shows "gives (lzma2 io fuel q s \<bind> (\<lambda>((ok2, q1), s4). if \<not> ok2 then Some ((False, Some q1), s4)
      else skip_padding io fuel st0 s4 \<bind> (\<lambda>s5. read_in io cs s5 \<bind> (\<lambda>(_, s6). K q1 s6)))) (\<lambda>(r, t). base_ok t)"
proof (rule gives_step2 [where P = "\<lambda>ok q t. onward later s t \<and> lzma_ok q"], unfold lzma2_def, rule lzma2_loop_safe [OF f s _ q u], simp, elim conjE)
  fix ok2 q1 s4
  assume 4: "onward later s s4" "lzma_ok q1"
  have "gives (skip_padding io fuel st0 s4 \<bind> (\<lambda>s5. read_in io cs s5 \<bind> (\<lambda>(_, s6). K q1 s6))) (\<lambda>(r, t). base_ok t)"
  proof (rule gives_then [OF goes_skip_padding [OF f onward_core [OF 4(1)]]])
    show "0 < fuel" "bad s4 \<or> length (sees later s4) + 2 \<le> fuel" using u 4(1) by (auto simp: onward_def)
    fix s5
    assume g5: "goes later s4 s5"
    have "gives (read_in io cs s5) (\<lambda>(r, t). goes later s5 t)"
      by (rule gives_mono [OF goes_read [OF f goesD(1) [OF g5]]]) auto
    then show "gives (read_in io cs s5 \<bind> (\<lambda>(_, s6). K q1 s6)) (\<lambda>(r, t). base_ok t)"
    proof (rule gives_step)
      fix r s6
      assume g6: "goes later s5 s6"
      note g = goes_trans [OF g5 g6]
      show "gives (K q1 s6) (\<lambda>(r, t). base_ok t)"
        by (rule k [OF goesD(1) [OF g] 4(2)]) (use goesD(2) [OF g] 4(1) in \<open>simp add: onward_def\<close>)
    qed
  qed
  then show "gives (if \<not> ok2 then Some ((False, Some q1), s4)
      else skip_padding io fuel st0 s4 \<bind> (\<lambda>s5. read_in io cs s5 \<bind> (\<lambda>(_, s6). K q1 s6))) (\<lambda>(r, t). base_ok t)"
    using core_base [OF onward_core [OF 4(1)]] by simp
qed

lemma xz_blocks_safe:
  assumes f: "feeds io later"
  shows "ready_for p s \<Longrightarrow> length (sees later s) + 4 \<le> fuel \<Longrightarrow> gives (xz_blocks io fuel cs sz p s) (\<lambda>(r, t). base_ok t)"
proof (induction fuel arbitrary: sz p s)
  case (Suc fuel)
  have b: "base_ok s" using Suc.prems(1) by (simp add: ready_for_def)
  show ?case unfolding xz_blocks.simps Let_def
  proof (rule gives_step [OF byte_only_head [OF f b]], elim conjE, goal_cases)
    case (1 hb s1)
    note r1 = ready_for_head [OF Suc.prems(1) 1(1)]
    have b1: "base_ok s1" using r1 by (simp add: ready_for_def)
    show ?case
    proof (cases "bad s1 \<or> hb = 0")
      case True
      show ?thesis unfolding if_P [OF True] using b1 by simp
    next
      case False
      define hs where "hs = (unat hb + 1) * 4"
      have l1: "length (sees later s1) + 4 \<le> fuel" using 1(2) False Suc.prems(2) by simp
      have hs: "1 + unat (of_nat (hs - 1) :: u32) \<le> 1024" 
      proof -
        have "unat (of_nat (hs - 1) :: u32) \<le> hs - 1" unfolding unsigned_of_nat of_nat_id by (rule take_bit_nat_less_eq_self)
        moreover have "1 \<le> hs" "hs \<le> 1024" using unat_u8_bound [of hb] by (simp_all add: hs_def)
        ultimately show ?thesis by linarith
      qed
      show ?thesis unfolding if_not_P [OF False] hs_def [symmetric]
      proof (rule gives_step [OF head_in_safe [OF f b1 hs]], goal_cases)
        case (1 ok s2)
        note r2 = ready_for_head [OF r1 1] and h2 = only_head_ok(3,4) [OF 1]
        have b2: "base_ok s2" using r2 by (simp add: ready_for_def)
        have fl: "rd (xz_head s2) 1 = Some (xz_head s2 ! 1)" using h2(1) by simp
        show ?case unfolding fl bind.bind_lunit
        proof (cases "\<not> ok \<or> xz_head s2 ! 1 AND 3 \<noteq> 0", goal_cases)
          case 1
          show ?case unfolding if_P [OF 1] using b2 by simp
        next
          case 2
          show ?case unfolding if_not_P [OF 2]
          proof (rule gives_then [OF block_head_safe [OF h2(1)]], goal_cases)
            case (1 r)
            show ?case
            proof (cases r)
              case None
              then show ?thesis using b2 by simp
            next
              case (Some bd)
              obtain blk d where bd: "bd = (blk, d)" by fastforce
              have d: "d \<le> 40" using 1 by (simp add: Some bd)
              let ?sz = "if p = None \<and> sz = 0 then blk else sz"
              obtain ready p1 s3 where r3: "(if p = None then first_block io ?sz d s2 else ((True, p), s2)) = ((ready, p1), s3)"
                by (metis prod.exhaust)
              have s3: "base_ok s3 \<and> sees later s3 = sees later s2 \<and> (ready \<longrightarrow> core_ok s3 \<and> (\<exists>q. p1 = Some q \<and> lzma_ok q))"
              proof (cases p)
                case None
                then have "first_block io ?sz d s2 = ((ready, p1), s3)" using r3 by simp
                from first_block_safe [OF f b2 d this] show ?thesis by blast
              next
                case (Some q)
                then show ?thesis using r3 r2 by (auto simp: ready_for_def)
              qed
              have go: "gives (p1 \<bind> (\<lambda>q. lzma2 io fuel q s3 \<bind> (\<lambda>((ok2, q1), s4). if \<not> ok2 then Some ((False, Some q1), s4)
                  else skip_padding io fuel (i_count (inp s)) s4 \<bind> (\<lambda>s5. read_in io cs s5 \<bind> (\<lambda>(_, s6). xz_blocks io fuel cs ?sz (Some q1) s6)))))
                (\<lambda>(r, t). base_ok t)" if rd: "ready"
              proof -
                obtain q where q: "p1 = Some q" "lzma_ok q" "core_ok s3" using s3 rd by blast
                have l3: "length (sees later s3) + 4 \<le> fuel" using s3 h2(2) l1 by simp
                show ?thesis unfolding q(1) bind.bind_lunit
                  by (rule block_data_safe [OF f q(3,2)]) (use l3 in \<open>auto intro!: Suc.IH simp: ready_for_def core_base\<close>)
              qed
              show ?thesis unfolding Some bd option.case prod.case r3
                using go s3 by (cases ready) simp_all
            qed
          qed
        qed
      qed
    qed
  qed
qed simp

lemma unxz_returns:
  assumes f: "feeds io later" and s: "src_ok src" "tables_ok s0" and u: "length (view later src) + 4 \<le> fuel"
  shows "gives (unxz io fuel src sz s0) (\<lambda>(ok, t). tables_ok t \<and> src_ok (inp t) \<and> win t = None)"
proof -
  let ?s = "s0\<lparr>inp := src, win := None\<rparr>"
  have b: "base_ok ?s" using s by (simp add: base_ok_def tables_ok_def)
  show ?thesis unfolding unxz_def
  proof (rule gives_step [OF head_in_safe [OF f b]], simp)
    fix ok s
    assume h: "only_head later ?s s"
    have wn: "win s = None" using h by (auto simp: only_head_def)
    have bs: "base_ok s" using only_head_ok(1) [OF h b] .
    have r: "rd (xz_head s) 7 = Some (xz_head s ! 7)" using only_head_ok(3) [OF h] by simp
    show "gives (if \<not> ok \<or> take 6 (xz_head s) \<noteq> [0xFD, 0x37, 0x7A, 0x58, 0x5A, 0] then Some (False, s)
      else rd (xz_head s) 7 \<bind> (\<lambda>f. xz_blocks io fuel (check_size_of f) sz None s \<bind> (\<lambda>((ok1, p), s1).
        let s2 = if p = None then s1 else xfree io s1 in Some (if win s2 = None then (ok1, s2) else window_close io ok1 s2))))
      (\<lambda>(ok, t). tables_ok t \<and> src_ok (inp t) \<and> win t = None)"
    proof (cases "\<not> ok \<or> take 6 (xz_head s) \<noteq> [0xFD, 0x37, 0x7A, 0x58, 0x5A, 0]")
      case True
      show ?thesis unfolding if_P [OF True] using bs wn by (simp add: base_ok_def)
    next
      case False
      have X: "gives (xz_blocks io fuel cs sz None s) (\<lambda>((ok1, p), t). base_ok t)" for cs
        by (rule gives_mono [OF xz_blocks_safe [OF f]])
          (use bs only_head_ok(4) [OF h] u in \<open>auto simp: ready_for_def\<close>)
      show ?thesis unfolding if_not_P [OF False] r bind.bind_lunit
      proof (rule gives_step2 [OF X])
        fix ok1 p and s1 :: "'a unpacker"
        assume b1: "base_ok s1"
        have b2: "base_ok (if p = None then s1 else xfree io s1)" using b1 by (auto simp: base_ok_def xfree_def tables_ok_def src_ok_def)
        obtain r v where c: "window_close io ok1 (if p = None then s1 else xfree io s1) = (r, v)" by fastforce
        show "gives (let s2 = if p = None then s1 else xfree io s1 in Some (if win s2 = None then (ok1, s2) else window_close io ok1 s2))
          (\<lambda>(ok, t). tables_ok t \<and> src_ok (inp t) \<and> win t = None)"
          unfolding Let_def c using b2 window_close_spec [OF f c] by (simp add: base_ok_def)
      qed
    qed
  qed
qed

end
