(* ===== verification/UnpackMemory.thy ===== *)
theory UnpackMemory
  imports UnxzRun
begin

text \<open>
  The memory \<open>unxz\<close> maps, over \<^verbatim>\<open>src/tuxpac/unpack.c\<close>: the structure of probabilities and the window,
  each mapped once by the first block and given back when the file is done, however it ends. What runs
  in between neither maps nor frees, and leaves the window where it is.
\<close>

section \<open>The account\<close>

text \<open>
  A host with an account: \<open>mapped w\<close> is how many pieces of memory are mapped in the state \<open>w\<close> outside the
  decoder. \<open>mmap\<close> adds one when it succeeds, \<open>munmap\<close> takes one off, and filling the source and the sink
  leave their number as it is.
\<close>

definition accounts :: "'e host \<Rightarrow> ('e \<Rightarrow> int) \<Rightarrow> bool" where
  "accounts io mapped \<longleftrightarrow>
     (\<forall>s. mapped (i_world (snd (host_fill io s))) = mapped (i_world s)) \<and>
     (\<forall>bs w. mapped (snd (host_sink io bs w)) = mapped w) \<and>
     (\<forall>n w. mapped (snd (host_alloc io n w)) = mapped w + of_bool (fst (host_alloc io n w))) \<and>
     (\<forall>w. mapped (host_free io w) = mapped w - 1)"

lemma accountsD:
  assumes "accounts io mapped"
  shows "host_fill io i = (n, j) \<Longrightarrow> mapped (i_world j) = mapped (i_world i)" "host_sink io bs w = (took, v) \<Longrightarrow> mapped v = mapped w"
    "host_alloc io k w = (ok, v) \<Longrightarrow> mapped v = mapped w + of_bool ok" "mapped (host_free io w) = mapped w - 1"
  using assms unfolding accounts_def by (metis fst_conv snd_conv)+

definition acct :: "('e \<Rightarrow> int) \<Rightarrow> 'e unpacker \<Rightarrow> int \<times> bool" where
  "acct mapped s = (mapped (i_world (inp s)), win s = None)"

lemma acct_fields [simp]:
  "acct m (s\<lparr>wpos := a\<rparr>) = acct m s" "acct m (s\<lparr>total := b\<rparr>) = acct m s" "acct m (s\<lparr>wstop := c\<rparr>) = acct m s"
  "acct m (s\<lparr>rc_range := d\<rparr>) = acct m s" "acct m (s\<lparr>rc_code := d\<rparr>) = acct m s" "acct m (s\<lparr>lstate := e\<rparr>) = acct m s"
  "acct m (s\<lparr>rep0 := d\<rparr>) = acct m s" "acct m (s\<lparr>rep1 := d\<rparr>) = acct m s" "acct m (s\<lparr>rep2 := d\<rparr>) = acct m s"
  "acct m (s\<lparr>rep3 := d\<rparr>) = acct m s" "acct m (s\<lparr>lc := e\<rparr>) = acct m s" "acct m (s\<lparr>lp := e\<rparr>) = acct m s"
  "acct m (s\<lparr>pb := e\<rparr>) = acct m s" "acct m (s\<lparr>xz_head := f\<rparr>) = acct m s"
  by (simp_all add: acct_def)

section \<open>Bytes in and out\<close>

lemma dry_memory:
  assumes "accounts io m" "dry io i = (d, j)"
  shows "m (i_world j) = m (i_world i)"
  using assms(2) accountsD(1) [OF assms(1)] by (auto simp: dry_def split: if_splits prod.splits)

lemma src_byte_memory: "accounts io m \<Longrightarrow> src_byte io i = Some (b, j) \<Longrightarrow> m (i_world j) = m (i_world i)"
  by (auto simp: src_byte_def dest: dry_memory split: if_splits prod.splits bind_splits)

lemma src_read_memory: "accounts io m \<Longrightarrow> src_read_loop io fuel n got i = Some (r, j) \<Longrightarrow> m (i_world j) = m (i_world i)"
proof (induction io fuel n got i rule: src_read_loop.induct)
  case (1 io fuel n got i)
  obtain d i1 where d: "dry io i = (d, i1)" by fastforce
  show ?case
  proof (cases "n = 0 \<or> fuel = 0 \<or> d")
    case True
    then show ?thesis using "1.prems" dry_memory [OF "1.prems"(1) d] d
      by (subst (asm) src_read_loop.simps) (auto split: if_splits nat.splits)
  next
    case False
    then obtain fuel' where f: "n \<noteq> 0" "fuel = Suc fuel'" "\<not> d" by (cases fuel) auto
    show ?thesis using "1.prems" "1.IH" [OF f(1,2) d [symmetric] refl f(3) refl] f d dry_memory [OF "1.prems"(1) d]
      by (subst (asm) src_read_loop.simps) (auto simp: Let_def split: if_splits)
  qed
qed

lemma byte_in_memory:
  assumes a: "accounts io m"
  shows "byte_in io s = Some (b, t) \<Longrightarrow> acct m t = acct m s"
  by (auto simp: byte_in_def acct_def dest: src_byte_memory [OF a] split: bind_splits)

lemma read_in_memory:
  assumes a: "accounts io m"
  shows "read_in io n s = Some (r, t) \<Longrightarrow> acct m t = acct m s"
  by (auto simp: read_in_def src_read_def acct_def dest: src_read_memory [OF a] split: bind_splits)

lemma put_memory:
  assumes a: "accounts io m"
  shows "put io b s = Some t \<Longrightarrow> acct m t = acct m s"
  by (auto simp: put_def acct_def sink_call_def Let_def dest: accountsD(2) [OF a] split: if_splits prod.splits bind_splits)

lemma copy_loop_memory:
  assumes a: "accounts io m"
  shows "copy_loop io d n s = Some t \<Longrightarrow> acct m t = acct m s"
  by (induction n arbitrary: s) (auto dest!: put_memory [OF a] split: bind_splits)

lemma copy_memory:
  assumes a: "accounts io m"
  shows "copy io d n s = Some (ok, t) \<Longrightarrow> acct m t = acct m s"
  by (auto simp: copy_def dest: copy_loop_memory [OF a] split: if_splits bind_splits)

lemma pass_memory:
  assumes a: "accounts io m"
  shows "pass io n s = Some t \<Longrightarrow> acct m t = acct m s"
  by (induction n arbitrary: s) (auto dest!: byte_in_memory [OF a] put_memory [OF a] split: if_splits bind_splits)

lemma head_in_memory:
  assumes a: "accounts io m"
  shows "head_in io k n s = Some (ok, t) \<Longrightarrow> acct m t = acct m s"
  by (auto simp: head_in_def Let_def dest!: read_in_memory [OF a] split: if_splits bind_splits)

section \<open>The range decoder and the symbols\<close>

lemma for_each_memory:
  assumes "\<And>i s t. f i s = Some t \<Longrightarrow> acct m t = acct m s"
  shows "for_each is f s = Some t \<Longrightarrow> acct m t = acct m s"
  by (induction "is" arbitrary: s) (auto dest: assms split: bind_splits)

lemma rc_init_memory:
  assumes "accounts io m" "rc_init io s = Some t"
  shows "acct m t = acct m s"
proof -
  obtain b s1 s2 where s: "byte_in io s = Some (b, s1)" "t = s2\<lparr>rc_range := 0xFFFFFFFF\<rparr>"
    "for_each [0..<4] (\<lambda>i s. byte_in io s \<bind> (\<lambda>(b, s1). Some (s1\<lparr>rc_code := push_bit 8 (rc_code s1) OR ucast b\<rparr>))) (s1\<lparr>rc_code := 0\<rparr>) = Some s2"
    using assms(2) by (auto simp: rc_init_def split: bind_splits)
  have "acct m s2 = acct m (s1\<lparr>rc_code := 0\<rparr>)"
    by (rule for_each_memory [OF _ s(3)]) (auto dest: byte_in_memory [OF assms(1)] split: bind_splits)
  then show ?thesis using byte_in_memory [OF assms(1) s(1)] s(2) by simp
qed

lemma rc_norm_memory:
  assumes a: "accounts io m"
  shows "rc_norm io s = Some t \<Longrightarrow> acct m t = acct m s"
  by (auto simp: rc_norm_def dest!: byte_in_memory [OF a] split: if_splits bind_splits)

lemma bit_of_memory:
  assumes a: "accounts io m"
  shows "bit_of io p s = Some (r, t) \<Longrightarrow> acct m t = acct m s"
  by (auto simp: bit_of_def Let_def dest!: rc_norm_memory [OF a] split: if_splits bind_splits)

lemma bit_at_memory:
  assumes a: "accounts io m"
  shows "bit_at io xs i s = Some (r, t) \<Longrightarrow> acct m t = acct m s"
  by (auto simp: bit_at_def dest!: bit_of_memory [OF a] split: bind_splits)

lemma tree_loop_memory:
  assumes a: "accounts io m"
  shows "tree_loop io base n v xs s = Some (r, t) \<Longrightarrow> acct m t = acct m s"
  by (induction n arbitrary: v xs s) (auto dest!: bit_at_memory [OF a] split: bind_splits)

lemma tree_memory:
  assumes a: "accounts io m"
  shows "tree io xs n s = Some (r, t) \<Longrightarrow> acct m t = acct m s"
  by (auto simp: tree_def dest!: tree_loop_memory [OF a] split: bind_splits)

lemma rtree_loop_memory:
  assumes a: "accounts io m"
  shows "rtree_loop io base n i v w xs s = Some (r, t) \<Longrightarrow> acct m t = acct m s"
  by (induction n arbitrary: i v w xs s) (auto dest!: bit_at_memory [OF a] split: bind_splits)

lemma rtree_memory:
  assumes a: "accounts io m"
  shows "rtree io xs base n s = Some (r, t) \<Longrightarrow> acct m t = acct m s"
  by (auto simp: rtree_def dest!: rtree_loop_memory [OF a])

lemma direct_loop_memory:
  assumes a: "accounts io m"
  shows "direct_loop io n r s = Some (x, t) \<Longrightarrow> acct m t = acct m s"
  by (induction n arbitrary: r s) (auto simp: Let_def dest!: rc_norm_memory [OF a] split: bind_splits)

lemma direct_memory:
  assumes a: "accounts io m"
  shows "direct io n s = Some (x, t) \<Longrightarrow> acct m t = acct m s"
  by (auto simp: direct_def dest!: direct_loop_memory [OF a])

lemma len_decode_memory:
  assumes a: "accounts io m"
  shows "len_decode io l ps s = Some (r, t) \<Longrightarrow> acct m t = acct m s"
  by (auto simp: len_decode_def Let_def dest!: bit_of_memory [OF a] tree_memory [OF a] split: if_splits bind_splits)

lemma lit_loop_memory:
  assumes a: "accounts io m"
  shows "lit_loop io base n v xs s = Some (r, t) \<Longrightarrow> acct m t = acct m s"
  by (induction n arbitrary: v xs s) (auto dest!: bit_at_memory [OF a] split: if_splits bind_splits)

lemma match_loop_memory:
  assumes a: "accounts io m"
  shows "match_loop io base n w v xs s = Some (r, t) \<Longrightarrow> acct m t = acct m s"
  by (induction n arbitrary: w v xs s) (auto simp: Let_def dest!: bit_at_memory [OF a] split: if_splits bind_splits)

lemma lzma_literal_memory:
  assumes a: "accounts io m"
  shows "lzma_literal io p s = Some (q, t) \<Longrightarrow> acct m t = acct m s"
  by (auto simp: lzma_literal_def Let_def dest!: match_loop_memory [OF a] lit_loop_memory [OF a] put_memory [OF a] split: if_splits bind_splits)

lemma distance_memory:
  assumes a: "accounts io m"
  shows "distance io len p s = Some (r, t) \<Longrightarrow> acct m t = acct m s"
  by (auto simp: distance_def Let_def dest!: tree_memory [OF a] rtree_memory [OF a] direct_memory [OF a] split: if_splits bind_splits)

lemma lzma_match_memory:
  assumes a: "accounts io m"
  shows "lzma_match io ps p s = Some (r, t) \<Longrightarrow> acct m t = acct m s"
  by (auto simp: lzma_match_def dest!: len_decode_memory [OF a] distance_memory [OF a] split: bind_splits)

lemma pick_rep_memory:
  assumes a: "accounts io m"
  shows "pick_rep io ps p s = Some (r, t) \<Longrightarrow> acct m t = acct m s"
  by (auto simp: pick_rep_def Let_def dest!: bit_at_memory [OF a] split: if_splits bind_splits)

lemma copy_out_memory:
  assumes a: "accounts io m"
  shows "copy_out io n left s = Some (r, t) \<Longrightarrow> acct m t = acct m s"
  by (auto simp: copy_out_def dest!: copy_memory [OF a] split: if_splits bind_splits)

lemma lzma_symbol_memory:
  assumes a: "accounts io m"
  shows "lzma_symbol io left p s = Some (r, t) \<Longrightarrow> acct m t = acct m s"
  by (auto simp: lzma_symbol_def Let_def dest!: bit_at_memory [OF a] lzma_literal_memory [OF a] lzma_match_memory [OF a] pick_rep_memory [OF a] len_decode_memory [OF a] copy_out_memory [OF a]
    split: if_splits bind_splits)

lemma lzma_chunk_memory:
  assumes a: "accounts io m"
  shows "lzma_chunk io left p s = Some (r, t) \<Longrightarrow> acct m t = acct m s"
proof (induction left arbitrary: p s rule: less_induct)
  case (less left)
  show ?case
  proof (cases "0 < left \<and> \<not> bad s \<and> \<not> wstop s")
    case True
    obtain q p1 s1 where q: "lzma_symbol io left p s = Some ((q, p1), s1)"
      "case q of None \<Rightarrow> ((False, p1), s1) = (r, t) | Some n \<Rightarrow> lzma_chunk io (left - n) p1 s1 = Some (r, t)"
      using less.prems True by (auto simp: lzma_chunk.simps [of io left] split: option.splits bind_splits)
    note e = lzma_symbol_memory [OF a q(1)]
    show ?thesis
    proof (cases q)
      case (Some n)
      then have "left - n < left" using True q(1) lzma_symbol_pos [of io left p s n] by simp
      then show ?thesis using less.IH [of "left - n" p1 s1] q(2) e Some by simp
    qed (use q(2) e in simp)
  qed (use less.prems in \<open>subst (asm) lzma_chunk.simps, auto split: if_splits\<close>)
qed

section \<open>The chunks and the blocks\<close>

lemma word_in_memory:
  assumes a: "accounts io m"
  shows "word_in io s = Some (w, t) \<Longrightarrow> acct m t = acct m s"
  by (auto simp: word_in_def dest!: byte_in_memory [OF a] split: bind_splits)

lemma read_props_memory:
  assumes a: "accounts io m"
  shows "read_props io s = Some (w, t) \<Longrightarrow> acct m t = acct m s"
  by (auto simp: read_props_def Let_def dest!: byte_in_memory [OF a] split: if_splits bind_splits)

lemma skip_to_memory:
  assumes a: "accounts io m"
  shows "skip_to io fuel stop s = Some t \<Longrightarrow> acct m t = acct m s"
  by (induction fuel arbitrary: s) (auto dest!: byte_in_memory [OF a] split: if_splits bind_splits)

lemma skip_padding_memory:
  assumes a: "accounts io m"
  shows "skip_padding io fuel at s = Some t \<Longrightarrow> acct m t = acct m s"
  by (induction fuel arbitrary: s) (auto dest!: byte_in_memory [OF a] split: if_splits bind_splits)

lemma lzma_reset_memory: "lzma_reset p s = (q, t) \<Longrightarrow> acct m t = acct m s"
  by (auto simp: lzma_reset_def)

lemma packed_memory:
  assumes a: "accounts io m"
  shows "packed io fuel c props p s = Some (r, t) \<Longrightarrow> acct m t = acct m s"
  by (auto simp: packed_def Let_def dest!: word_in_memory [OF a] read_props_memory [OF a] lzma_reset_memory [where m = m] rc_init_memory [OF a] lzma_chunk_memory [OF a] skip_to_memory [OF a]
    split: if_splits bind_splits prod.splits)

lemma lzma2_loop_memory:
  assumes a: "accounts io m"
  shows "lzma2_loop io fuel props p s = Some (r, t) \<Longrightarrow> acct m t = acct m s"
  by (induction fuel arbitrary: props p s)
    (auto simp: Let_def dest!: byte_in_memory [OF a] word_in_memory [OF a] pass_memory [OF a] packed_memory [OF a] split: if_splits bind_splits)

lemma lzma2_memory:
  assumes a: "accounts io m"
  shows "lzma2 io fuel p s = Some (r, t) \<Longrightarrow> acct m t = acct m s"
  by (auto simp: lzma2_def dest!: lzma2_loop_memory [OF a])

text \<open>
  What is mapped while the blocks are read: the probabilities once there are any, and the window. There
  is no window before there are probabilities.
\<close>

definition mapped_now :: "lzma option \<Rightarrow> 'e unpacker \<Rightarrow> int" where
  "mapped_now p s = of_bool (p \<noteq> None) + of_bool (win s \<noteq> None)"

definition balance :: "('e \<Rightarrow> int) \<Rightarrow> lzma option \<Rightarrow> 'e unpacker \<Rightarrow> int" where
  "balance m p s = m (i_world (inp s)) - mapped_now p s"

lemma balance_same: "acct m t = acct m s \<Longrightarrow> balance m p t = balance m p s \<and> (win t = None \<longleftrightarrow> win s = None)"
  by (simp add: acct_def balance_def mapped_now_def)

lemma balance_some: "balance m (Some p) s = balance m (Some q) s"
  by (simp add: balance_def mapped_now_def)

lemma first_block_memory:
  assumes a: "accounts io m" and w: "win s = None" and o: "first_block io sz d s = ((ready, p), t)"
  shows "balance m p t = balance m None s" "p = None \<Longrightarrow> win t = None" "ready \<Longrightarrow> p \<noteq> None"
  using o w by (auto simp: first_block_def xalloc_def window_open_def Let_def balance_def mapped_now_def accountsD(3) [OF a]
    split: if_splits prod.splits)

lemma xz_blocks_memory:
  assumes a: "accounts io m"
  shows "p = None \<longrightarrow> win s = None \<Longrightarrow> xz_blocks io fuel cs sz p s = Some ((ok, q), t) \<Longrightarrow>
    balance m q t = balance m p s \<and> (q = None \<longrightarrow> win t = None)"
proof (induction fuel arbitrary: sz p s)
  case (Suc fuel)
  obtain hb s1 where s1: "byte_in io s = Some (hb, s1)" using Suc.prems(2) by (auto split: bind_splits)
  note e1 = balance_same [OF byte_in_memory [OF a s1]]
  show ?case
  proof (cases "bad s1 \<or> hb = 0")
    case True
    then show ?thesis using Suc.prems s1 e1 by auto
  next
    case False
    define hs where "hs = (unat hb + 1) * 4"
    obtain fine s2 flags where s2: "head_in io 1 (of_nat (hs - 1)) s1 = Some (fine, s2)" "rd (xz_head s2) 1 = Some flags"
      using Suc.prems(2) s1 False by (auto simp: Let_def hs_def split: bind_splits)
    have e2: "balance m p s2 = balance m p s" "win s2 = None \<longleftrightarrow> win s = None" for p
      using balance_same [OF head_in_memory [OF a s2(1)]] e1 by simp_all
    show ?thesis
    proof (cases "\<not> fine \<or> flags AND 3 \<noteq> 0 \<or> block_head hs (xz_head s2) = Some None")
      case True
      then show ?thesis using Suc.prems s1 s2 False e2 by (auto simp: Let_def hs_def split: if_splits)
    next
      case False2: False
      then obtain blk d where bh: "block_head hs (xz_head s2) = Some (Some (blk, d))"
        using Suc.prems(2) s1 s2 False by (auto simp: Let_def hs_def split: bind_splits option.splits)
      define sz1 where "sz1 = (if p = None \<and> sz = 0 then blk else sz)"
      obtain ready p1 s3 where s3: "(if p = None then first_block io sz1 d s2 else ((True, p), s2)) = ((ready, p1), s3)" by (metis prod.exhaust)
      have e3: "balance m p1 s3 = balance m p s" "p1 = None \<longrightarrow> win s3 = None" "ready \<longrightarrow> p1 \<noteq> None"
        using s3 first_block_memory [OF a, of s2 sz1 d ready p1 s3] e2 Suc.prems(1) by (auto split: if_splits)
      have r: "(if \<not> ready then Some ((False, p1), s3)
        else p1 \<bind> (\<lambda>q. lzma2 io fuel q s3 \<bind> (\<lambda>((ok2, q1), s4). if \<not> ok2 then Some ((False, Some q1), s4)
          else skip_padding io fuel (i_count (inp s)) s4 \<bind> (\<lambda>s5. read_in io cs s5 \<bind> (\<lambda>(_, s6). xz_blocks io fuel cs sz1 (Some q1) s6))))) = Some ((ok, q), t)"
      proof (cases p)
        case None
        then have "first_block io (if sz = 0 then blk else sz) d s2 = ((ready, p1), s3)" "sz1 = (if sz = 0 then blk else sz)"
          using s3 by (simp_all add: sz1_def)
        then show ?thesis unfolding sz1_def using Suc.prems(2) s1 s2 bh False False2 by (cases ready; cases "sz = 0") (simp_all add: Let_def hs_def None)
      next
        case (Some q')
        then have "ready" "p1 = Some q'" "s3 = s2" using s3 Some by auto
        then show ?thesis unfolding sz1_def using Suc.prems(2) s1 s2 bh False False2 by (simp add: Let_def hs_def Some)
      qed
      show ?thesis
      proof (cases ready)
        case ready: True
        then obtain q0 where q0: "p1 = Some q0" using e3(3) by auto
        obtain ok2 q1 s4 where s4: "lzma2 io fuel q0 s3 = Some ((ok2, q1), s4)" using r ready q0 by (auto split: bind_splits)
        note e4 = balance_same [OF lzma2_memory [OF a s4]]
        show ?thesis
        proof (cases ok2)
          case True
          then obtain s5 x s6 where s5: "skip_padding io fuel (i_count (inp s)) s4 = Some s5" "read_in io cs s5 = Some (x, s6)"
            "xz_blocks io fuel cs sz1 (Some q1) s6 = Some ((ok, q), t)"
            using r ready q0 s4 by (auto split: bind_splits)
          have "acct m s6 = acct m s4" using skip_padding_memory [OF a s5(1)] read_in_memory [OF a s5(2)] by simp
          then show ?thesis using Suc.IH [OF _ s5(3)] balance_same [of m s6 s4] e4 e3(1) q0 balance_some [of m q0 _ q1] by fastforce
        next
          case False
          then show ?thesis using r ready q0 s4 e4 e3(1) balance_some [of m q0 _ q1] by auto
        qed
      qed (use r e3 in simp)
    qed
  qed
qed simp

lemma window_close_memory:
  assumes a: "accounts io m" and w: "win s \<noteq> None" and c: "window_close io ok s = (v, t)"
  shows "m (i_world (inp t)) = m (i_world (inp s)) - 1"
  using c w by (auto simp: window_close_def sink_call_def xfree_def Let_def accountsD(4) [OF a] dest: accountsD(2) [OF a]
    split: if_splits option.splits prod.splits)

lemma unxz_memory:
  assumes a: "accounts io m" and o: "unxz io fuel src sz s0 = Some (ok, t)"
  shows "m (i_world (inp t)) = m (i_world src)"
proof -
  let ?s = "s0\<lparr>inp := src, win := None\<rparr>"
  obtain fine s where s: "head_in io 0 12 ?s = Some (fine, s)" using o by (auto simp: unxz_def split: bind_splits)
  have e: "m (i_world (inp s)) = m (i_world src)" "win s = None" using head_in_memory [OF a s] by (simp_all add: acct_def)
  show ?thesis
  proof (cases "\<not> fine \<or> take 6 (xz_head s) \<noteq> [0xFD, 0x37, 0x7A, 0x58, 0x5A, 0]")
    case True
    then show ?thesis using o s e by (simp add: unxz_def)
  next
    case False
    then obtain f ok1 p s1 where x: "xz_blocks io fuel (check_size_of f) sz None s = Some ((ok1, p), s1)"
      and t: "(if win (if p = None then s1 else xfree io s1) = None then (ok1, if p = None then s1 else xfree io s1)
        else window_close io ok1 (if p = None then s1 else xfree io s1)) = (ok, t)"
      using o s unfolding unxz_def Let_def by (auto split: bind_splits prod.splits)
    have b: "balance m p s1 = m (i_world src)" "p = None \<longrightarrow> win s1 = None"
      using xz_blocks_memory [OF a _ x] e by (simp_all add: balance_def mapped_now_def)
    define s2 where "s2 = (if p = None then s1 else xfree io s1)"
    have "m (i_world (inp s2)) = m (i_world src) + of_bool (win s2 \<noteq> None)"
      using b by (auto simp: s2_def xfree_def balance_def mapped_now_def accountsD(4) [OF a])
    then show ?thesis using t window_close_memory [OF a, of s2 ok1 ok t] by (auto simp: s2_def [symmetric] split: if_splits)
  qed
qed

end
