(* ===== verification/Window.thy ===== *)
theory Window
  imports Gunzip
begin

text \<open>
  The window as a ring over the bytes put out: \<open>hist\<close> is what the sink was given followed by what
  still waits in the window, \<open>put\<close> appends to it, and \<open>copy\<close> is the copy of LZ77 on it.
\<close>

text \<open>The sink keeps what it is given; nothing else touches that.\<close>

definition records :: "'e host \<Rightarrow> ('e \<Rightarrow> u8 list) \<Rightarrow> bool" where
  "records io sunk \<longleftrightarrow>
    (\<forall>bs w. fst (host_sink io bs w) \<and> sunk (snd (host_sink io bs w)) = sunk w @ bs) \<and>
    (\<forall>s. sunk (i_world (snd (host_fill io s))) = sunk (i_world s)) \<and>
    (\<forall>n w. sunk (snd (host_alloc io n w)) = sunk w) \<and> (\<forall>w. sunk (host_free io w) = sunk w)"

lemma recordsD:
  assumes "records io sunk"
  shows "fst (host_sink io bs w)" "sunk (snd (host_sink io bs w)) = sunk w @ bs"
    "sunk (i_world (snd (host_fill io s))) = sunk (i_world s)"
    "sunk (snd (host_alloc io n w)) = sunk w" "sunk (host_free io w) = sunk w"
  using assms unfolding records_def by blast+

definition hist :: "('e \<Rightarrow> u8 list) \<Rightarrow> 'e unpacker \<Rightarrow> u8 list" where
  "hist sunk s = sunk (i_world (inp s)) @ (case win s of None \<Rightarrow> [] | Some w \<Rightarrow> take (unat (wpos s)) w)"

definition ring_index :: "nat \<Rightarrow> nat \<Rightarrow> nat \<Rightarrow> nat" where
  "ring_index p n d = (if d \<le> p then p - d else p + n - d)"

text \<open>
  The window holds the last \<open>wsize\<close> bytes put out since it was opened, when \<open>k\<close> bytes had gone before;
  \<open>total\<close> never counts more than those.
\<close>

definition ring :: "('e \<Rightarrow> u8 list) \<Rightarrow> nat \<Rightarrow> 'e unpacker \<Rightarrow> bool" where
  "ring sunk k s \<longleftrightarrow> k \<le> length (hist sunk s) \<and> unat (total s) \<le> length (hist sunk s) - k \<and>
    (\<exists>w. win s = Some w \<and> length w = unat (wsize s) \<and> unat (wpos s) < unat (wsize s) \<and>
      (\<forall>d. 0 < d \<longrightarrow> d \<le> unat (wsize s) \<longrightarrow> d \<le> length (hist sunk s) - k \<longrightarrow>
        w ! ring_index (unat (wpos s)) (unat (wsize s)) d = hist sunk s ! (length (hist sunk s) - d)))"

lemma ring_win_ok: "ring sunk k s \<Longrightarrow> win_ok s"
  by (auto simp: ring_def win_ok_def word_nat)

lemma nth_back_append: "0 < d \<Longrightarrow> d \<le> length (xs @ [b]) \<Longrightarrow>
    (xs @ [b]) ! (length (xs @ [b]) - d) = (if d = 1 then b else xs ! (length xs - (d - 1)))"
  by (auto simp: nth_append)

lemma ring_step:
  assumes d: "0 < d" "d \<le> n" and p: "p < n" "length w = n"
    and old: "\<And>e. 0 < e \<Longrightarrow> e \<le> n \<Longrightarrow> e \<le> length xs - k \<Longrightarrow> w ! ring_index p n e = xs ! (length xs - e)"
    and l: "d \<le> length (xs @ [b]) - k" "k \<le> length xs"
  shows "w[p := b] ! ring_index (if p + 1 = n then 0 else p + 1) n d = (xs @ [b]) ! (length (xs @ [b]) - d)"
proof -
  have i: "ring_index (if p + 1 = n then 0 else p + 1) n d = (if d = 1 then p else ring_index p n (d - 1))"
    using d p by (auto simp: ring_index_def)
  show ?thesis
  proof (cases "d = 1")
    case True
    then show ?thesis unfolding i using p by simp
  next
    case False
    have ne: "ring_index p n (d - 1) \<noteq> p" using d p False by (auto simp: ring_index_def)
    have "w ! ring_index p n (d - 1) = xs ! (length xs - (d - 1))" using d l False by (intro old) auto
    moreover have "d \<le> length (xs @ [b])" using l by simp
    ultimately show ?thesis unfolding i nth_back_append [OF d(1) \<open>d \<le> length (xs @ [b])\<close>] using False ne by simp
  qed
qed

lemma sink_call_records:
  assumes r: "records io sunk"
  shows "\<exists>w. sink_call io bs s = (True, s\<lparr>inp := (inp s)\<lparr>i_world := w\<rparr>\<rparr>) \<and> sunk w = sunk (i_world (inp s)) @ bs"
  using recordsD(1,2) [OF r, of bs "i_world (inp s)"]
  by (auto simp: sink_call_def split: prod.splits)

lemma put_ring:
  assumes f: "feeds io later" and r: "records io sunk" and s: "ring sunk k s" "src_ok (inp s)"
  shows "gives (put io b s) (\<lambda>t. wrote later s t \<and> ring sunk k t \<and> hist sunk t = hist sunk s @ [b] \<and> wstop t = wstop s \<and>
    total t = total s + 1)"
proof -
  obtain w where w: "win s = Some w" "length w = unat (wsize s)" "unat (wpos s) < unat (wsize s)"
    and kh: "k \<le> length (hist sunk s)" "unat (total s) \<le> length (hist sunk s) - k"
    and old: "\<And>d. 0 < d \<Longrightarrow> d \<le> unat (wsize s) \<Longrightarrow> d \<le> length (hist sunk s) - k \<Longrightarrow>
        w ! ring_index (unat (wpos s)) (unat (wsize s)) d = hist sunk s ! (length (hist sunk s) - d)"
    using s(1) unfolding ring_def by blast
  let ?p = "unat (wpos s)" and ?n = "unat (wsize s)"
  let ?w = "w[?p := b]"
  define t where "t = s\<lparr>win := Some ?w, wpos := wpos s + 1, total := total s + 1\<rparr>"
  have u: "unat (wpos s + 1) = ?p + 1" using w(3) unat_bound [of "wsize s"] by (simp add: unat_add_small)
  have full: "wpos s + 1 = wsize s \<longleftrightarrow> ?p + 1 = ?n" using u by (simp add: word_unat_eq_iff)
  obtain w' where sc: "sink_call io (take ?n ?w) t = (True, t\<lparr>inp := (inp t)\<lparr>i_world := w'\<rparr>\<rparr>)"
    and w': "sunk w' = sunk (i_world (inp t)) @ take ?n ?w"
    using sink_call_records [OF r, of "take ?n ?w" t] by blast
  define v where "v = (if ?p + 1 = ?n then t\<lparr>inp := (inp t)\<lparr>i_world := w'\<rparr>, wpos := 0\<rparr> else t)"
  have put: "put io b s = Some v"
  proof -
    have "put io b s = (if wpos t = wsize t then (case sink_call io (take (unat (wsize t)) ?w) t of
        (ac, s2) \<Rightarrow> Some (s2\<lparr>wstop := wstop s2 \<or> \<not> ac, wpos := 0\<rparr>)) else Some t)"
      using w by (simp add: put_def Let_def t_def)
    moreover have "wsize t = wsize s" "wpos t = wpos s + 1" by (simp_all add: t_def)
    ultimately show ?thesis using sc full by (simp add: v_def t_def)
  qed
  have tk: "take (?p + 1) ?w = take ?p w @ [b]" using w by (simp add: take_Suc_conv_app_nth)
  have h: "hist sunk v = hist sunk s @ [b]"
  proof (cases "?p + 1 = ?n")
    case True
    then have "take ?n ?w = take ?p w @ [b]" using tk by simp
    then show ?thesis using True w' w(1) by (simp add: hist_def v_def t_def)
  next
    case False
    then show ?thesis using tk w(1) u by (simp add: hist_def v_def t_def)
  qed
  have fields: "win v = Some ?w" "wsize v = wsize s" "unat (wpos v) = (if ?p + 1 = ?n then 0 else ?p + 1)"
    "total v = total s + 1" "wstop v = wstop s" using u by (simp_all add: v_def t_def)
  have "unat (total s + 1) \<le> unat (total s) + 1" by (simp add: unat_word_ariths)
  then have "ring sunk k v" unfolding ring_def h
    using fields w kh ring_step [OF _ _ w(3,2) old _ kh(1)] by auto
  moreover have "wrote later s v" using put_safe [OF f ring_win_ok [OF s(1)] s(2), of b] put by simp
  ultimately show ?thesis using put h fields by simp
qed

lemma back_ring:
  assumes s: "ring sunk k s" and d: "0 < unat d" "unat d \<le> unat (wsize s)" "unat d \<le> length (hist sunk s) - k"
  shows "win_back d s = Some (hist sunk s ! (length (hist sunk s) - unat d))"
proof -
  obtain w where w: "win s = Some w" "length w = unat (wsize s)" "unat (wpos s) < unat (wsize s)"
    and old: "\<And>d. 0 < d \<Longrightarrow> d \<le> unat (wsize s) \<Longrightarrow> d \<le> length (hist sunk s) - k \<Longrightarrow>
        w ! ring_index (unat (wpos s)) (unat (wsize s)) d = hist sunk s ! (length (hist sunk s) - d)"
    using s unfolding ring_def by blast
  have i: "unat (if d \<le> wpos s then wpos s - d else wpos s + wsize s - d) = ring_index (unat (wpos s)) (unat (wsize s)) (unat d)"
    unfolding ring_index_def by (rule back_index) (use w d in \<open>simp_all add: word_nat\<close>)
  have "ring_index (unat (wpos s)) (unat (wsize s)) (unat d) < length w" using w d by (auto simp: ring_index_def)
  then show ?thesis unfolding win_back_def w(1) bind.bind_lunit i using old [OF d] by simp
qed

text \<open>The copy of LZ77: each byte is the one \<open>d\<close> back, those just copied among them.\<close>

primrec lz_copy :: "nat \<Rightarrow> nat \<Rightarrow> 'a list \<Rightarrow> 'a list" where
  "lz_copy d 0 h = h"
| "lz_copy d (Suc n) h = lz_copy d n (h @ [h ! (length h - d)])"

lemma copy_loop_ring:
  assumes f: "feeds io later" and r: "records io sunk"
  shows "ring sunk k s \<Longrightarrow> src_ok (inp s) \<Longrightarrow> 0 < unat d \<Longrightarrow> unat d \<le> unat (wsize s) \<Longrightarrow> unat d \<le> length (hist sunk s) - k \<Longrightarrow>
    gives (copy_loop io d n s) (\<lambda>t. wrote later s t \<and> ring sunk k t \<and> hist sunk t = lz_copy (unat d) n (hist sunk s) \<and>
      wstop t = wstop s \<and> total t = total s + of_nat n)"
proof (induction n arbitrary: s)
  case 0
  then show ?case using wrote_refl [OF ring_win_ok [OF 0(1)] 0(2)] by simp
next
  case (Suc n)
  note b = back_ring [OF Suc.prems(1,3-5)]
  show ?case unfolding copy_loop.simps b bind.bind_lunit
  proof (rule gives_then [OF put_ring [OF f r Suc.prems(1,2)]], elim conjE)
    fix t
    assume t: "wrote later s t" "ring sunk k t" "hist sunk t = hist sunk s @ [hist sunk s ! (length (hist sunk s) - unat d)]"
      "wstop t = wstop s" "total t = total s + 1"
    have "wsize t = wsize s" using only_window_fields(1) [OF wroteD(1) [OF t(1)]] .
    then have "gives (copy_loop io d n t) (\<lambda>u. wrote later t u \<and> ring sunk k u \<and> hist sunk u = lz_copy (unat d) n (hist sunk t) \<and>
      wstop u = wstop t \<and> total u = total t + of_nat n)"
      using t Suc.prems by (intro Suc.IH) (auto dest: wroteD)
    then show "gives (copy_loop io d n t) (\<lambda>u. wrote later s u \<and> ring sunk k u \<and> hist sunk u = lz_copy (unat d) (Suc n) (hist sunk s) \<and>
      wstop u = wstop s \<and> total u = total s + of_nat (Suc n))"
      by (rule gives_mono) (use t wrote_trans [OF t(1)] in \<open>auto simp: algebra_simps\<close>)
  qed
qed

lemma copy_ring:
  assumes f: "feeds io later" and r: "records io sunk" and s: "ring sunk k s" "src_ok (inp s)"
  shows "gives (copy io d n s) (\<lambda>(ok, t).
    if d = 0 \<or> total s < ucast d \<or> wsize s < d then \<not> ok \<and> t = s
    else ok \<and> wrote later s t \<and> ring sunk k t \<and> hist sunk t = lz_copy (unat d) (unat n) (hist sunk s) \<and> wstop t = wstop s \<and>
      total t = total s + of_nat (unat n))"
proof (cases "d = 0 \<or> total s < ucast d \<or> wsize s < d")
  case True
  then show ?thesis by (simp add: copy_def)
next
  case False
  have "unat (ucast d :: u64) = unat d" by (simp add: unsigned_ucast_eq take_bit_nat_eq_self_iff unat_bound order_less_le_trans [OF unat_bound])
  then have d: "0 < unat d" "unat d \<le> unat (wsize s)" "unat d \<le> length (hist sunk s) - k"
    using False s(1) by (auto simp: word_nat unat_gt_0 ring_def)
  show ?thesis using False gives_mono [OF copy_loop_ring [OF f r s d, of "unat n"]]
    by (auto simp: copy_def gives_bind)
qed

lemma window_open_ring:
  assumes f: "feeds io later" and r: "records io sunk" and n: "0 < unat n" and o: "window_open io n s = (True, t)"
  shows "ring sunk (length (hist sunk t)) t" "hist sunk t = sunk (i_world (inp s))"
proof -
  have w: "win t = Some (replicate (unat n) 0)" using window_open_spec(7) [OF f n o] by simp
  have sz: "wpos t = 0" "wsize t = n" "total t = 0" using window_open_spec(1) [OF f n o] by auto
  show "ring sunk (length (hist sunk t)) t" unfolding ring_def using w sz n by simp
  have "sunk (i_world (inp t)) = sunk (i_world (inp s))"
    using o recordsD(4) [OF r, of "ucast n" "i_world (inp s)"] by (auto simp: window_open_def xalloc_def split: prod.splits)
  then show "hist sunk t = sunk (i_world (inp s))" by (simp add: hist_def w sz)
qed

end
