(* ===== verification/Deflate.thy ===== *)
theory Deflate
  imports Window
begin

text \<open>
  What inflating means: a compressed block is a sequence of literals and copies, written with the two
  canonical codes, and \<open>codes\<close> puts out what they expand to; a stored block puts out its bytes;
  \<open>gunzip\<close> of a file of stored blocks puts out the file that went in.
\<close>

section \<open>Reading leaves the output alone\<close>

definition same_sunk :: "('e \<Rightarrow> u8 list) \<Rightarrow> 'e unpacker \<Rightarrow> 'e unpacker \<Rightarrow> bool" where
  "same_sunk sunk s t \<longleftrightarrow> sunk (i_world (inp t)) = sunk (i_world (inp s))"

lemma dry_sunk: "records io sunk \<Longrightarrow> dry io s = (d, t) \<Longrightarrow> sunk (i_world t) = sunk (i_world s)"
  using recordsD(3) [of io sunk s] by (auto simp: dry_def split: if_splits prod.splits)

lemma byte_in_sunk: "records io sunk \<Longrightarrow> byte_in io s = Some (b, t) \<Longrightarrow> same_sunk sunk s t"
  using dry_sunk [of io sunk "inp s"]
  by (auto simp: byte_in_def src_byte_def same_sunk_def Let_def split: prod.splits if_splits bind_splits)

lemma bits_fill_sunk: "records io sunk \<Longrightarrow> bits_fill io need v s = Some (w, t) \<Longrightarrow> same_sunk sunk s t"
proof (induction io need v s rule: bits_fill.induct)
  case (1 io need v s)
  show ?case
  proof (cases "bitcnt s < need")
    case True
    with 1(3) obtain b s1 where b: "byte_in io s = Some (b, s1)"
      "bits_fill io need (v OR push_bit (bitcnt s) (ucast b)) (s1\<lparr>bitcnt := bitcnt s1 + 8\<rparr>) = Some (w, t)"
      by (auto simp: bits_fill.simps [of io need v s] split: bind_splits)
    then show ?thesis using 1(1) [OF True b(1) refl 1(2) b(2)] byte_in_sunk [OF 1(2) b(1)] by (simp add: same_sunk_def)
  next
    case False
    then show ?thesis using 1(3) by (simp add: bits_fill.simps [of io need v s] same_sunk_def)
  qed
qed

lemma bits_sunk: "records io sunk \<Longrightarrow> bits io need s = Some (v, t) \<Longrightarrow> same_sunk sunk s t"
  by (auto simp: bits_def same_sunk_def dest!: bits_fill_sunk split: bind_splits)

lemma decode_loop_sunk: "records io sunk \<Longrightarrow> decode_loop io h ls c f i s = Some (r, t) \<Longrightarrow> same_sunk sunk s t"
proof (induction ls arbitrary: c f i s)
  case (Cons l ls)
  then show ?case
    by (auto simp: Let_def same_sunk_def dest!: bits_sunk split: bind_splits if_splits)
qed (simp add: same_sunk_def)

lemma decode_sunk: "records io sunk \<Longrightarrow> decode io h s = Some (r, t) \<Longrightarrow> same_sunk sunk s t"
  unfolding decode_def by (rule decode_loop_sunk)

lemma ring_only_input:
  assumes "only_input s t" "same_sunk sunk s t"
  shows "ring sunk k t = ring sunk k s" "hist sunk t = hist sunk s"
proof -
  show h: "hist sunk t = hist sunk s" using assms(2) unfolding hist_def same_sunk_def only_input_fields [OF assms(1)] by simp
  show "ring sunk k t = ring sunk k s" unfolding ring_def h only_input_fields [OF assms(1)] ..
qed

section \<open>Literals and copies\<close>

text \<open>A copy is given by its length symbol, its distance symbol and the extra bits of each.\<close>

datatype token = Lit u8 | Pair nat u32 nat u32

definition pair_len :: "nat \<Rightarrow> u32 \<Rightarrow> nat" where
  "pair_len l e = unat (lbase ! l) + unat e"

definition pair_dist :: "nat \<Rightarrow> u32 \<Rightarrow> nat" where
  "pair_dist d f = unat (dbase ! d) + unat f"

fun token_bits :: "nat list \<Rightarrow> nat list \<Rightarrow> token \<Rightarrow> bool list" where
  "token_bits L D (Lit b) = code_bits L (unat b)"
| "token_bits L D (Pair l e d f) =
    code_bits L (257 + l) @ lsb_bits (lext ! l) e @ code_bits D d @ lsb_bits (dext ! d) f"

text \<open>The symbols have a code, the extra bits their width.\<close>

fun token_ok :: "nat list \<Rightarrow> nat list \<Rightarrow> token \<Rightarrow> bool" where
  "token_ok L D (Lit b) \<longleftrightarrow> unat b < length L \<and> L ! unat b \<noteq> 0"
| "token_ok L D (Pair l e d f) \<longleftrightarrow> l < 29 \<and> 257 + l < length L \<and> L ! (257 + l) \<noteq> 0 \<and> unat e < 2 ^ (lext ! l) \<and>
    d < 30 \<and> d < length D \<and> D ! d \<noteq> 0 \<and> unat f < 2 ^ (dext ! d)"

text \<open>What a token adds to the bytes \<open>h\<close>, with a window of \<open>n\<close>; none: the distance is too far back.\<close>

fun expand1 :: "nat \<Rightarrow> token \<Rightarrow> u8 list \<Rightarrow> u8 list option" where
  "expand1 n (Lit b) h = Some (h @ [b])"
| "expand1 n (Pair l e d f) h =
    (if pair_dist d f \<le> length h \<and> pair_dist d f \<le> n then Some (lz_copy (pair_dist d f) (pair_len l e) h) else None)"

primrec expand :: "nat \<Rightarrow> token list \<Rightarrow> u8 list \<Rightarrow> u8 list option" where
  "expand n [] h = Some h"
| "expand n (x # xs) h = expand1 n x h \<bind> expand n xs"

lemma lz_copy_prefix: "0 < d \<Longrightarrow> d \<le> length h \<Longrightarrow> lz_copy d n (pre @ h) = pre @ lz_copy d n h"
proof (induction n arbitrary: h)
  case (Suc n)
  have "length (pre @ h) - d = length pre + (length h - d)" using Suc.prems by simp
  then have "(pre @ h) ! (length (pre @ h) - d) = h ! (length h - d)" by simp
  then show ?case using Suc.IH [of "h @ [h ! (length h - d)]"] Suc.prems by simp
qed simp

lemma length_lz_copy [simp]: "length (lz_copy d n h) = length h + n"
  by (induction n arbitrary: h) simp_all

lemma length_expand1: "expand1 n x h = Some h' \<Longrightarrow> length h \<le> length h'"
  by (cases x) (auto split: if_splits)

lemma length_expand: "expand n xs h = Some h' \<Longrightarrow> length h \<le> length h'"
proof (induction xs arbitrary: h)
  case (Cons x xs)
  then obtain h1 where "expand1 n x h = Some h1" "expand n xs h1 = Some h'" by (auto split: bind_splits)
  then show ?case using Cons.IH length_expand1 order_trans by blast
qed simp

lemma clean_iff: "n \<le> 32 \<Longrightarrow> clean n v \<longleftrightarrow> unat v < 2 ^ n"
proof
  assume n: "n \<le> 32" and v: "unat v < 2 ^ n"
  have "take_bit n v = v" unfolding word_unat_eq_iff by (simp add: unsigned_take_bit_eq take_bit_nat_eq_self v)
  then show "clean n v" unfolding clean_def by (metis bit_take_bit_iff linorder_not_le)
qed (rule clean_unat)

lemma lsb_bits_inj:
  assumes "clean n v" "clean n e" "lsb_bits n v = lsb_bits n e"
  shows "v = e"
proof (rule bit_eqI)
  fix i
  show "bit v i = bit e i"
  proof (cases "i < n")
    case True
    then have "lsb_bits n v ! i = lsb_bits n e ! i" using assms(3) by simp
    then show ?thesis using True by (simp add: lsb_bits_def)
  next
    case False
    then show ?thesis using assms(1,2) by (simp add: clean_def)
  qed
qed

text \<open>Reading what the stream starts with: a number, and a symbol, with the window as it was.\<close>

definition reading :: "('e source \<Rightarrow> u8 list) \<Rightarrow> ('e \<Rightarrow> u8 list) \<Rightarrow> nat \<Rightarrow> 'e unpacker \<Rightarrow> bool" where
  "reading later sunk k s \<longleftrightarrow> bits_ok s \<and> ring sunk k s \<and> \<not> bad s \<and> \<not> wstop s"

lemma bits_read:
  assumes f: "feeds io later" and r: "records io sunk" and s: "reading later sunk k s" and n: "n \<le> 24"
    and e: "unat e < 2 ^ n" "stream later s = lsb_bits n e @ ys"
  shows "gives (bits io n s) (\<lambda>(v, t). v = e \<and> reading later sunk k t \<and> stream later t = ys \<and> only_input s t \<and> hist sunk t = hist sunk s)"
proof (rule gives_mono [OF bits_spec [OF f _ n]])
  fix x
  assume x: "bits io n s = Some x" and c: "case x of (v, t) \<Rightarrow> bits_took later n s t \<and> clean n v \<and> (n \<le> length (stream later s) \<longrightarrow> lsb_bits n v = take n (stream later s))"
  obtain v t where xv: "x = (v, t)" by fastforce
  have t: "bits_took later n s t" "clean n v" "lsb_bits n v = lsb_bits n e" using c e(2) by (simp_all add: xv)
  have "v = e" using lsb_bits_inj [OF t(2) _ t(3)] clean_iff [of n e] n e(1) by simp
  moreover have "same_sunk sunk s t" using bits_sunk [OF r] x by (simp add: xv)
  ultimately show "case x of (v, t) \<Rightarrow> v = e \<and> reading later sunk k t \<and> stream later t = ys \<and> only_input s t \<and> hist sunk t = hist sunk s"
    using bits_tookD(1,2,5) [OF t(1)] e(2) s ring_only_input [OF bits_tookD(1) [OF t(1)]] only_input_fields(5) [OF bits_tookD(1) [OF t(1)]]
    by (simp add: xv reading_def)
qed (use s in \<open>simp add: reading_def\<close>)

lemma decode_read:
  assumes f: "feeds io later" and r: "records io sunk" and s: "reading later sunk k s"
    and h: "canon L h" and i: "i < length L" "L ! i \<noteq> 0" and e: "stream later s = code_bits L i @ ys"
  shows "gives (decode io h s) (\<lambda>(v, t). v = int i \<and> reading later sunk k t \<and> stream later t = ys \<and> only_input s t \<and> hist sunk t = hist sunk s)"
proof (rule gives_mono [OF decode_canon [OF f h i _ e]])
  fix x
  assume x: "decode io h s = Some x" and c: "case x of (v, t) \<Rightarrow> v = int i \<and> only_input s t \<and> bits_ok t \<and> bad t = bad s \<and> stream later t = ys"
  obtain v t where xv: "x = (v, t)" by fastforce
  have t: "only_input s t" using c by (simp add: xv)
  have "same_sunk sunk s t" using decode_sunk [OF r] x by (simp add: xv)
  then show "case x of (v, t) \<Rightarrow> v = int i \<and> reading later sunk k t \<and> stream later t = ys \<and> only_input s t \<and> hist sunk t = hist sunk s"
    using c s ring_only_input [OF t] only_input_fields(5) [OF t] by (simp add: xv reading_def)
qed (use s in \<open>simp add: reading_def\<close>)

lemma reading_wrote:
  assumes "reading later sunk k s" "wrote later s t" "ring sunk k t" "wstop t = wstop s"
  shows "reading later sunk k t" "stream later t = stream later s"
  using assms wroteD [OF assms(2)] wrote_stream [OF assms(2)]
  by (simp_all add: reading_def bits_ok_def only_window_fields [OF wroteD(1) [OF assms(2)]])

lemma put_read:
  assumes f: "feeds io later" and r: "records io sunk" and s: "reading later sunk k s"
  shows "gives (put io b s) (\<lambda>t. reading later sunk k t \<and> stream later t = stream later s \<and> only_window s t \<and>
    hist sunk t = hist sunk s @ [b] \<and> total t = total s + 1 \<and> sees later t = sees later s)"
proof -
  have s': "ring sunk k s" "src_ok (inp s)" using s by (simp_all add: reading_def bits_ok_def)
  show ?thesis
  proof (rule gives_mono [OF put_ring [OF f r s']])
    fix t
    assume a: "wrote later s t \<and> ring sunk k t \<and> hist sunk t = hist sunk s @ [b] \<and> wstop t = wstop s \<and> total t = total s + 1"
    then have t: "wrote later s t" "ring sunk k t" "wstop t = wstop s" by blast+
    show "reading later sunk k t \<and> stream later t = stream later s \<and> only_window s t \<and>
      hist sunk t = hist sunk s @ [b] \<and> total t = total s + 1 \<and> sees later t = sees later s"
      using reading_wrote [OF s t] wroteD(1,4) [OF t(1)] a by blast
  qed
qed

lemma copy_read:
  assumes f: "feeds io later" and r: "records io sunk" and s: "reading later sunk k s"
    and d: "d \<noteq> 0" "ucast d \<le> total s" "d \<le> wsize s"
  shows "gives (copy io d n s) (\<lambda>(ok, t). ok \<and> reading later sunk k t \<and> stream later t = stream later s \<and> only_window s t \<and>
    hist sunk t = lz_copy (unat d) (unat n) (hist sunk s) \<and> total t = total s + of_nat (unat n))"
proof (rule gives_mono [OF copy_ring [OF f r]])
  show "ring sunk k s" "src_ok (inp s)" using s by (simp_all add: reading_def bits_ok_def)
  fix x
  assume x: "case x of (ok, t) \<Rightarrow> if d = 0 \<or> total s < ucast d \<or> wsize s < d then \<not> ok \<and> t = s
    else ok \<and> wrote later s t \<and> ring sunk k t \<and> hist sunk t = lz_copy (unat d) (unat n) (hist sunk s) \<and> wstop t = wstop s \<and>
      total t = total s + of_nat (unat n)"
  obtain ok t where xo: "x = (ok, t)" by fastforce
  have c: "\<not> (d = 0 \<or> total s < ucast d \<or> wsize s < d)" using d by (simp add: not_less)
  have t: "wrote later s t" "ring sunk k t" "wstop t = wstop s" using x unfolding xo prod.case if_not_P [OF c] by blast+
  show "case x of (ok, t) \<Rightarrow> ok \<and> reading later sunk k t \<and> stream later t = stream later s \<and> only_window s t \<and>
    hist sunk t = lz_copy (unat d) (unat n) (hist sunk s) \<and> total t = total s + of_nat (unat n)"
    using reading_wrote [OF s t] wroteD(1) [OF t(1)] x unfolding xo prod.case if_not_P [OF c] by blast
qed

lemma pair_tables:
  assumes "l < 29" "d < 30" "unat e < 2 ^ (lext ! l)" "unat f < 2 ^ (dext ! d)"
  shows "lext ! l \<le> 5" "dext ! d \<le> 13" "unat (lbase ! l + e) = pair_len l e" "unat (dbase ! d + f) = pair_dist d f" "0 < pair_dist d f"
proof -
  have "\<forall>x \<in> set lext. x \<le> 5" "\<forall>x \<in> set dext. x \<le> 13" "\<forall>x \<in> set lbase. unat x \<le> 258" "\<forall>x \<in> set dbase. 0 < unat x \<and> unat x \<le> 24577"
    by (simp_all add: lext_def dext_def lbase_def dbase_def)
  then have b: "lext ! l \<le> 5" "dext ! d \<le> 13" "unat (lbase ! l) \<le> 258" "0 < unat (dbase ! d)" "unat (dbase ! d) \<le> 24577"
    using assms(1,2) tables_lengths(1-4) by (simp_all only: nth_mem)
  show "lext ! l \<le> 5" "dext ! d \<le> 13" by (rule b)+
  have "(2 :: nat) ^ (lext ! l) \<le> 2 ^ 5" "(2 :: nat) ^ (dext ! d) \<le> 2 ^ 13" using b by (intro power_increasing; simp)+
  then have "unat e < 32" "unat f < 8192" using assms(3,4) by (auto intro: less_le_trans)
  then show "unat (lbase ! l + e) = pair_len l e" "unat (dbase ! d + f) = pair_dist d f" "0 < pair_dist d f"
    using b by (simp_all add: unat_add_small pair_len_def pair_dist_def)
qed

lemma pair_step_read:
  assumes f: "feeds io later" and r: "records io sunk" and s: "reading later sunk k s" and D: "canon D (distcode s)"
    and x: "token_ok L D (Pair l e d g)" and st: "stream later s = lsb_bits (lext ! l) e @ code_bits D d @ lsb_bits (dext ! d) g @ ys"
    and dist: "pair_dist d g \<le> unat (total s)" "pair_dist d g \<le> unat (wsize s)"
  shows "gives (pair_step io (int l) s) (\<lambda>(ok, t). ok \<and> reading later sunk k t \<and> stream later t = ys \<and>
    hist sunk t = lz_copy (pair_dist d g) (pair_len l e) (hist sunk s) \<and> total t = total s + of_nat (pair_len l e) \<and>
    wsize t = wsize s \<and> lencode t = lencode s \<and> distcode t = distcode s)"
proof -
  have x': "l < 29" "unat e < 2 ^ (lext ! l)" "d < 30" "d < length D" "D ! d \<noteq> 0" "unat g < 2 ^ (dext ! d)" using x by simp_all
  note T = pair_tables [OF x'(1,3,2,6)]
  have n: "rd_int lbase (int l) = Some (lbase ! l)" "rd_int lext (int l) = Some (lext ! l)"
    "rd_int dbase (int d) = Some (dbase ! d)" "rd_int dext (int d) = Some (dext ! d)" "\<not> 29 \<le> int l" "\<not> (int d < 0 \<or> 30 \<le> int d)"
    using x' tables_lengths by (simp_all add: rd_int_simp)
  have w: "lext ! l \<le> 24" "dext ! d \<le> 24" using T by simp_all
  show ?thesis unfolding pair_step_def if_not_P [OF n(5)] n(1,2) bind.bind_lunit
  proof (rule gives_step [OF bits_read [OF f r s w(1) x'(2) st]], elim conjE)
    fix v s1
    assume 1: "v = e" "reading later sunk k s1" "stream later s1 = code_bits D d @ lsb_bits (dext ! d) g @ ys" "only_input s s1" "hist sunk s1 = hist sunk s"
    note o1 = only_input_fields [OF 1(4)]
    show "gives (decode io (distcode s1) s1 \<bind> (\<lambda>(d, s2). if d < 0 \<or> 30 \<le> d then Some (False, s2)
        else rd_int dbase d \<bind> (\<lambda>dist. rd_int dext d \<bind> (\<lambda>more. bits io more s2 \<bind> (\<lambda>(c, s3). copy io (dist + c) (lbase ! l + v) s3)))))
      (\<lambda>(ok, t). ok \<and> reading later sunk k t \<and> stream later t = ys \<and>
        hist sunk t = lz_copy (pair_dist d g) (pair_len l e) (hist sunk s) \<and> total t = total s + of_nat (pair_len l e) \<and>
        wsize t = wsize s \<and> lencode t = lencode s \<and> distcode t = distcode s)"
      unfolding o1(7)
    proof (rule gives_step [OF decode_read [OF f r 1(2) D x'(4,5) 1(3)]], elim conjE)
      fix y s2
      assume 2: "y = int d" "reading later sunk k s2" "stream later s2 = lsb_bits (dext ! d) g @ ys" "only_input s1 s2" "hist sunk s2 = hist sunk s1"
      note o2 = only_input_fields [OF 2(4)]
      show "gives (if y < 0 \<or> 30 \<le> y then Some (False, s2)
        else rd_int dbase y \<bind> (\<lambda>dist. rd_int dext y \<bind> (\<lambda>more. bits io more s2 \<bind> (\<lambda>(c, s3). copy io (dist + c) (lbase ! l + v) s3))))
        (\<lambda>(ok, t). ok \<and> reading later sunk k t \<and> stream later t = ys \<and>
          hist sunk t = lz_copy (pair_dist d g) (pair_len l e) (hist sunk s) \<and> total t = total s + of_nat (pair_len l e) \<and>
          wsize t = wsize s \<and> lencode t = lencode s \<and> distcode t = distcode s)"
        unfolding 2(1) if_not_P [OF n(6)] n(3,4) bind.bind_lunit
      proof (rule gives_step [OF bits_read [OF f r 2(2) w(2) x'(6) 2(3)]], elim conjE)
        fix c s3
        assume 3: "c = g" "reading later sunk k s3" "stream later s3 = ys" "only_input s2 s3" "hist sunk s3 = hist sunk s2"
        note o3 = only_input_fields [OF 3(4)]
        have dd: "dbase ! d + c \<noteq> 0" "ucast (dbase ! d + c) \<le> total s3" "dbase ! d + c \<le> wsize s3"
          using T dist o1 o2 o3 3(1) unat_bound [of "dbase ! d + c"]
          by (auto simp: word_nat unsigned_ucast_eq take_bit_nat_eq_self)
        show "gives (copy io (dbase ! d + c) (lbase ! l + v) s3) (\<lambda>(ok, t). ok \<and> reading later sunk k t \<and> stream later t = ys \<and>
          hist sunk t = lz_copy (pair_dist d g) (pair_len l e) (hist sunk s) \<and> total t = total s + of_nat (pair_len l e) \<and>
          wsize t = wsize s \<and> lencode t = lencode s \<and> distcode t = distcode s)"
          by (rule gives_mono [OF copy_read [OF f r 3(2) dd]])
            (use 1 2 3 T o1 o2 o3 in \<open>auto simp: only_window_fields\<close>)
      qed
    qed
  qed
qed

lemma codes_tokens:
  assumes f: "feeds io later" and r: "records io sunk" and eob: "256 < length L" "L ! 256 \<noteq> 0"
  shows "reading later sunk k s \<Longrightarrow> canon L (lencode s) \<Longrightarrow> canon D (distcode s) \<Longrightarrow> \<forall>x \<in> set toks. token_ok L D x \<Longrightarrow>
    stream later s = concat (map (token_bits L D) toks) @ code_bits L 256 @ ys \<Longrightarrow> length toks < fuel \<Longrightarrow>
    hist sunk s = pre @ h \<Longrightarrow> k = length pre \<Longrightarrow> total s = of_nat (length h) \<Longrightarrow>
    expand (unat (wsize s)) toks h = Some h' \<Longrightarrow> length h' < 2 ^ 64 \<Longrightarrow>
    gives (codes io fuel s) (\<lambda>(ok, t). ok \<and> reading later sunk k t \<and> stream later t = ys \<and> hist sunk t = pre @ h' \<and> total t = of_nat (length h'))"
proof (induction toks arbitrary: s h fuel)
  case Nil
  obtain n where fu: "fuel = Suc n" using Nil.prems(6) by (cases fuel) auto
  have st: "stream later s = code_bits L 256 @ ys" using Nil.prems(5) by simp
  show ?case unfolding fu codes.simps
    by (rule gives_step [OF decode_read [OF f r Nil.prems(1,2) eob st]])
      (use Nil.prems in \<open>auto simp: reading_def only_input_fields\<close>)
next
  case (Cons x toks)
  obtain n where fu: "fuel = Suc n" using Cons.prems(6) by (cases fuel) auto
  obtain h1 where h1: "expand1 (unat (wsize s)) x h = Some h1" "expand (unat (wsize s)) toks h1 = Some h'"
    using Cons.prems(10) by (auto split: bind_splits)
  have lh: "length h \<le> length h1" "length h1 \<le> length h'" using length_expand1 [OF h1(1)] length_expand [OF h1(2)] .
  have again: "gives (codes io n t) (\<lambda>(ok, t). ok \<and> reading later sunk k t \<and> stream later t = ys \<and> hist sunk t = pre @ h' \<and> total t = of_nat (length h'))"
    if "reading later sunk k t" "lencode t = lencode s" "distcode t = distcode s" "wsize t = wsize s"
      "stream later t = concat (map (token_bits L D) toks) @ code_bits L 256 @ ys" "hist sunk t = pre @ h1" "total t = of_nat (length h1)" for t
    by (rule Cons.IH [of t n h1]) (use that Cons.prems fu h1 in auto)
  have xo: "token_ok L D x" using Cons.prems(4) by simp
  show ?case
  proof (cases x)
    case (Lit b)
    have i: "unat b < length L" "L ! unat b \<noteq> 0" using xo by (simp_all add: Lit)
    have st: "stream later s = code_bits L (unat b) @ concat (map (token_bits L D) toks) @ code_bits L 256 @ ys" using Cons.prems(5) by (simp add: Lit)
    show ?thesis unfolding fu codes.simps
    proof (rule gives_step [OF decode_read [OF f r Cons.prems(1,2) i st]], elim conjE)
      fix y s1
      assume 1: "y = int (unat b)" "reading later sunk k s1" "stream later s1 = concat (map (token_bits L D) toks) @ code_bits L 256 @ ys" "only_input s s1" "hist sunk s1 = hist sunk s"
      note o1 = only_input_fields [OF 1(4)]
      have y: "y < 256" "0 \<le> y" using unat_u8_bound [of b] 1(1) by linarith+
      have wb: "word_of_int y = b" by (simp add: 1(1))
      have hh: "h1 = h @ [b]" using h1(1) by (simp add: Lit)
      have "gives (put io b s1 \<bind> codes io n) (\<lambda>(ok, t). ok \<and> reading later sunk k t \<and> stream later t = ys \<and> hist sunk t = pre @ h' \<and> total t = of_nat (length h'))"
        by (rule gives_then [OF put_read [OF f r 1(2)]], rule again)
          (use 1 o1 Cons.prems(7,9) hh in \<open>auto simp: only_window_fields\<close>)
      then show "gives (if y < 0 \<or> bad s1 \<or> wstop s1 then Some (False, s1)
        else if y < 256 then put io (word_of_int y) s1 \<bind> codes io n else if y = 256 then Some (True, s1)
        else pair_step io (y - 257) s1 \<bind> (\<lambda>(ok, s2). if ok then codes io n s2 else Some (False, s2)))
        (\<lambda>(ok, t). ok \<and> reading later sunk k t \<and> stream later t = ys \<and> hist sunk t = pre @ h' \<and> total t = of_nat (length h'))"
        using y wb 1(2) by (simp add: reading_def)
    qed
  next
    case (Pair l e d g)
    have i: "257 + l < length L" "L ! (257 + l) \<noteq> 0" "l < 29" using xo by (simp_all add: Pair)
    have st: "stream later s = code_bits L (257 + l) @ lsb_bits (lext ! l) e @ code_bits D d @ lsb_bits (dext ! d) g @ concat (map (token_bits L D) toks) @ code_bits L 256 @ ys"
      using Cons.prems(5) by (simp add: Pair)
    have pd: "pair_dist d g \<le> length h" "pair_dist d g \<le> unat (wsize s)" "h1 = lz_copy (pair_dist d g) (pair_len l e) h"
      using h1(1) by (auto simp: Pair split: if_splits)
    have pos: "0 < pair_dist d g" using xo by (intro pair_tables(5) [of l d e g]) (simp_all add: Pair)
    have ut: "unat (total s) = length h" using Cons.prems(9,11) lh by (simp add: unat_of_nat)
    show ?thesis unfolding fu codes.simps
    proof (rule gives_step [OF decode_read [OF f r Cons.prems(1,2) i(1,2) st]], elim conjE)
      fix y s1
      assume 1: "y = int (257 + l)" "reading later sunk k s1" "stream later s1 = lsb_bits (lext ! l) e @ code_bits D d @ lsb_bits (dext ! d) g @ concat (map (token_bits L D) toks) @ code_bits L 256 @ ys" "only_input s s1" "hist sunk s1 = hist sunk s"
      note o1 = only_input_fields [OF 1(4)]
      have "gives (pair_step io (int l) s1 \<bind> (\<lambda>(ok, s2). if ok then codes io n s2 else Some (False, s2)))
        (\<lambda>(ok, t). ok \<and> reading later sunk k t \<and> stream later t = ys \<and> hist sunk t = pre @ h' \<and> total t = of_nat (length h'))"
      proof (rule gives_step [OF pair_step_read [OF f r 1(2) _ _ 1(3)]])
        show "canon D (distcode s1)" "token_ok L D (Pair l e d g)" "pair_dist d g \<le> unat (total s1)" "pair_dist d g \<le> unat (wsize s1)"
          using Cons.prems(3) xo pd ut o1 by (simp_all add: Pair)
        fix ok t
        assume t: "ok \<and> reading later sunk k t \<and> stream later t = concat (map (token_bits L D) toks) @ code_bits L 256 @ ys \<and>
          hist sunk t = lz_copy (pair_dist d g) (pair_len l e) (hist sunk s1) \<and> total t = total s1 + of_nat (pair_len l e) \<and>
          wsize t = wsize s1 \<and> lencode t = lencode s1 \<and> distcode t = distcode s1"
        have "hist sunk t = pre @ h1" using t 1(5) Cons.prems(7) lz_copy_prefix [OF pos pd(1), of "pair_len l e" pre] pd(3) by simp
        moreover have "total t = of_nat (length h1)" using t o1(4) Cons.prems(9) pd(3) by simp
        ultimately show "gives (if ok then codes io n t else Some (False, t))
          (\<lambda>(ok, t). ok \<and> reading later sunk k t \<and> stream later t = ys \<and> hist sunk t = pre @ h' \<and> total t = of_nat (length h'))"
          using t o1 again [of t] by simp
      qed
      then show "gives (if y < 0 \<or> bad s1 \<or> wstop s1 then Some (False, s1)
        else if y < 256 then put io (word_of_int y) s1 \<bind> codes io n else if y = 256 then Some (True, s1)
        else pair_step io (y - 257) s1 \<bind> (\<lambda>(ok, s2). if ok then codes io n s2 else Some (False, s2)))
        (\<lambda>(ok, t). ok \<and> reading later sunk k t \<and> stream later t = ys \<and> hist sunk t = pre @ h' \<and> total t = of_nat (length h'))"
        using 1(1,2) by (simp add: reading_def)
    qed
  qed
qed

section \<open>Stored blocks\<close>

lemma byte_read:
  assumes f: "feeds io later" and r: "records io sunk" and s: "reading later sunk k s" and v: "sees later s = x # xs"
  shows "gives (byte_in io s) (\<lambda>(b, t). b = x \<and> reading later sunk k t \<and> sees later t = xs \<and> hist sunk t = hist sunk s \<and>
    bitcnt t = bitcnt s \<and> bitbuf t = bitbuf s)"
proof (rule gives_mono [OF byte_in_spec [OF f]])
  show "src_ok (inp s)" using s by (simp add: reading_def bits_ok_def)
  fix y
  assume y: "byte_in io s = Some y" and c: "case y of (b, t) \<Rightarrow> \<exists>i. t = s\<lparr>inp := i\<rparr> \<and> src_ok i \<and> (case sees later s of
       [] \<Rightarrow> b = 0 \<and> i_bad i \<and> view later i = [] \<and> i_count i = i_count (inp s)
     | x # xs \<Rightarrow> b = x \<and> i_bad i = bad s \<and> view later i = xs \<and> i_count i = i_count (inp s) + 1)"
  obtain b t where yb: "y = (b, t)" by fastforce
  obtain i where i: "t = s\<lparr>inp := i\<rparr>" "src_ok i" "b = x" "i_bad i = bad s" "view later i = xs" using c v by (auto simp: yb)
  have o: "only_input s t" unfolding only_input_def i(1) by (intro exI [of _ i] exI [of _ "bitbuf s"] exI [of _ "bitcnt s"]) simp
  have "same_sunk sunk s t" using byte_in_sunk [OF r] y by (simp add: yb)
  then show "case y of (b, t) \<Rightarrow> b = x \<and> reading later sunk k t \<and> sees later t = xs \<and> hist sunk t = hist sunk s \<and>
    bitcnt t = bitcnt s \<and> bitbuf t = bitbuf s"
    using i s ring_only_input [OF o] by (simp add: yb reading_def bits_ok_def)
qed

lemma pass_read:
  assumes f: "feeds io later" and r: "records io sunk"
  shows "reading later sunk k s \<Longrightarrow> sees later s = xs @ ys \<Longrightarrow>
    gives (pass io (length xs) s) (\<lambda>t. reading later sunk k t \<and> sees later t = ys \<and> hist sunk t = hist sunk s @ xs \<and>
      bitcnt t = bitcnt s \<and> bitbuf t = bitbuf s)"
proof (induction xs arbitrary: s)
  case (Cons x xs)
  have v: "sees later s = x # xs @ ys" using Cons.prems(2) by simp
  have "gives (byte_in io s \<bind> (\<lambda>(b, s1). put io b s1 \<bind> pass io (length xs))) (\<lambda>t. reading later sunk k t \<and> sees later t = ys \<and>
    hist sunk t = hist sunk s @ x # xs \<and> bitcnt t = bitcnt s \<and> bitbuf t = bitbuf s)"
  proof (rule gives_step [OF byte_read [OF f r Cons.prems(1) v]], elim conjE)
    fix b t
    assume t: "b = x" "reading later sunk k t" "sees later t = xs @ ys" "hist sunk t = hist sunk s" "bitcnt t = bitcnt s" "bitbuf t = bitbuf s"
    show "gives (put io b t \<bind> pass io (length xs)) (\<lambda>t. reading later sunk k t \<and> sees later t = ys \<and>
      hist sunk t = hist sunk s @ x # xs \<and> bitcnt t = bitcnt s \<and> bitbuf t = bitbuf s)"
    proof (rule gives_then [OF put_read [OF f r t(2)]], elim conjE)
      fix u
      assume u: "reading later sunk k u" "only_window t u" "hist sunk u = hist sunk t @ [b]" "sees later u = sees later t"
      show "gives (pass io (length xs) u) (\<lambda>t. reading later sunk k t \<and> sees later t = ys \<and>
        hist sunk t = hist sunk s @ x # xs \<and> bitcnt t = bitcnt s \<and> bitbuf t = bitbuf s)"
        by (rule gives_mono [OF Cons.IH [OF u(1)]]) (use t u only_window_fields [OF u(2)] in simp_all)
    qed
  qed
  then show ?case using Cons.prems(1) by (simp add: reading_def)
qed simp

lemma le16_word: "unat (ucast a OR push_bit 8 (ucast b) :: u32) = unat a + 256 * unat b" for a b :: u8
proof -
  have na: "\<not> bit a n" if "8 \<le> n" for n using that bit_imp_le_length [of a n] by auto
  have "(ucast a OR push_bit 8 (ucast b) :: u32) = ucast a + push_bit 8 (ucast b)"
    by (rule disjunctive_add [symmetric]) (auto simp: bit_simps dest: na)
  moreover have "unat (ucast a :: u32) = unat a" "unat (ucast b :: u32) = unat b"
    using unat_u8_bound [of a] unat_u8_bound [of b] by (simp_all add: unsigned_ucast_eq take_bit_nat_eq_self)
  moreover have "unat (push_bit 8 (ucast b) :: u32) = 256 * unat b"
  proof -
    have "push_bit 8 (ucast b :: u32) = 256 * ucast b" by (simp add: push_bit_eq_mult)
    then show ?thesis using unat_u8_bound [of b] calculation(3) by (simp add: unat_mult_small)
  qed
  ultimately show ?thesis using unat_u8_bound [of a] unat_u8_bound [of b] by (simp add: unat_add_small)
qed

lemma le_bytes_2: "le_bytes 2 v = [of_nat (v mod 256), of_nat (v div 256 mod 256)]"
  by (simp add: numeral_2_eq_2)

lemma le16_of: "v < 65536 \<Longrightarrow> unat (ucast (of_nat (v mod 256) :: u8) OR push_bit 8 (ucast (of_nat (v div 256 mod 256) :: u8)) :: u32) = v"
  unfolding le16_word by (simp add: unat_of_nat)

lemma stored_check:
  fixes a b :: u32
  assumes "unat a + unat b = 65535"
  shows "a = NOT b AND 0xFFFF"
proof -
  have m: "(0xFFFF :: u32) = mask 16" by (simp add: mask_eq_exp_minus_1)
  have b: "take_bit 16 b = b" unfolding word_unat_eq_iff using assms by (simp add: unsigned_take_bit_eq take_bit_nat_eq_self)
  have "NOT b AND 0xFFFF = take_bit 16 (NOT b)" by (simp add: m take_bit_eq_mask)
  also have "\<dots> = mask 16 - b" by (simp add: take_bit_not_eq_mask_diff b)
  also have "\<dots> = a"
  proof -
    have "a + b = 0xFFFF" unfolding word_unat_eq_iff using assms by (simp add: unat_add_small)
    then show ?thesis using m by (metis add_diff_cancel_right')
  qed
  finally show ?thesis by simp
qed

definition stored_block :: "bool \<Rightarrow> u8 list \<Rightarrow> u8 list" where
  "stored_block final bs = of_bool final # le_bytes 2 (length bs) @ le_bytes 2 (65535 - length bs) @ bs"

lemma stored_read:
  assumes f: "feeds io later" and r: "records io sunk" and s: "reading later sunk k s" and l: "length bs \<le> 65535"
    and v: "sees later s = le_bytes 2 (length bs) @ le_bytes 2 (65535 - length bs) @ bs @ ys"
  shows "gives (stored io s) (\<lambda>(ok, t). ok \<and> reading later sunk k t \<and> sees later t = ys \<and> hist sunk t = hist sunk s @ bs \<and>
    bitcnt t = 0 \<and> bitbuf t = 0)"
proof -
  let ?s = "s\<lparr>bitbuf := 0, bitcnt := 0\<rparr>" and ?n = "length bs" and ?m = "65535 - length bs"
  have o: "only_input s ?s" unfolding only_input_def by (intro exI [of _ "inp s"] exI [of _ "0"]) simp
  have same: "same_sunk sunk s ?s" by (simp add: same_sunk_def)
  note hs = ring_only_input(2) [OF o same]
  have s': "reading later sunk k ?s" using s ring_only_input(1) [OF o same] by (simp add: reading_def bits_ok_def clean_def)
  have v': "sees later ?s = of_nat (?n mod 256) # of_nat (?n div 256 mod 256) # of_nat (?m mod 256) # of_nat (?m div 256 mod 256) # bs @ ys"
    using v by (simp add: le_bytes_2)
  show ?thesis unfolding stored_def Let_def
  proof (rule gives_step [OF byte_read [OF f r s' v']], elim conjE)
    fix l0 :: u8 and s1
    assume 1: "l0 = of_nat (?n mod 256)" "reading later sunk k s1" "sees later s1 = of_nat (?n div 256 mod 256) # of_nat (?m mod 256) # of_nat (?m div 256 mod 256) # bs @ ys"
      "hist sunk s1 = hist sunk ?s" "bitcnt s1 = bitcnt ?s" "bitbuf s1 = bitbuf ?s"
    note b1 = byte_read [OF f r 1(2,3)]
    show "gives (byte_in io s1 \<bind> (\<lambda>(l1, s2). byte_in io s2 \<bind> (\<lambda>(n0, s3). byte_in io s3 \<bind> (\<lambda>(n1, s4).
        if (ucast l0 OR push_bit 8 (ucast l1) :: u32) \<noteq> NOT (ucast n0 OR push_bit 8 (ucast n1)) AND 0xFFFF then Some (False, s4)
        else pass io (unat (ucast l0 OR push_bit 8 (ucast l1) :: u32)) s4 \<bind> (\<lambda>s5. Some (\<not> bad s5, s5))))))
      (\<lambda>(ok, t). ok \<and> reading later sunk k t \<and> sees later t = ys \<and> hist sunk t = hist sunk s @ bs \<and> bitcnt t = 0 \<and> bitbuf t = 0)"
    proof (rule gives_step [OF b1], elim conjE, rule gives_step [OF byte_read [OF f r]], assumption, assumption, elim conjE,
        rule gives_step [OF byte_read [OF f r]], assumption, assumption, elim conjE, goal_cases)
      case (1 l1 s2 n0 s3 n1 s4)
      let ?len = "ucast l0 OR push_bit 8 (ucast l1) :: u32"
      have ln: "unat ?len = ?n" "unat (ucast n0 OR push_bit 8 (ucast n1) :: u32) = ?m"
        unfolding \<open>l0 = _\<close> 1 using l by (intro le16_of; simp)+
      have "?len = NOT (ucast n0 OR push_bit 8 (ucast n1)) AND 0xFFFF" by (rule stored_check) (unfold ln, use l in simp)
      then have c: "\<not> ?len \<noteq> NOT (ucast n0 OR push_bit 8 (ucast n1)) AND 0xFFFF" by blast
      have "gives (pass io ?n s4 \<bind> (\<lambda>s5. Some (\<not> bad s5, s5)))
        (\<lambda>(ok, t). ok \<and> reading later sunk k t \<and> sees later t = ys \<and> hist sunk t = hist sunk s @ bs \<and> bitcnt t = 0 \<and> bitbuf t = 0)"
        by (rule gives_then [OF pass_read [OF f r]])
          (use 1 \<open>hist sunk s1 = hist sunk ?s\<close> \<open>bitcnt s1 = bitcnt ?s\<close> \<open>bitbuf s1 = bitbuf ?s\<close> hs in \<open>auto simp: reading_def\<close>)
      then show ?case unfolding if_not_P [OF c] ln .
    qed
  qed
qed

section \<open>Files of stored blocks\<close>

lemma bit_stream_inj: "bit_stream xs = bit_stream ys \<Longrightarrow> length xs = length ys \<Longrightarrow> xs = ys"
proof (induction xs ys rule: list_induct2')
  case (4 x xs y ys)
  then have e: "lsb_bits 8 x = lsb_bits 8 y" "bit_stream xs = bit_stream ys" by simp_all
  have "x = y"
  proof (rule bit_eqI)
    fix n
    show "bit x n = bit y n"
    proof (cases "n < 8")
      case True
      then have "lsb_bits 8 x ! n = lsb_bits 8 y ! n" using e(1) by simp
      then show ?thesis using True by (simp add: lsb_bits_def)
    next
      case False
      then show ?thesis using bit_imp_le_length [of x n] bit_imp_le_length [of y n] by auto
    qed
  qed
  then show ?case using 4 e by simp
qed simp_all

lemma head_bits: "lsb_bits 8 (of_bool b :: u8) = lsb_bits 1 (of_bool b :: u32) @ lsb_bits 2 (0 :: u32) @ replicate 5 False"
  by (cases b) (simp_all add: lsb_bits_def upt_conv_Cons numeral_eq_Suc)

text \<open>After a block's three bits the rest of their byte is dropped.\<close>

lemma sees_after_bits:
  assumes "bits_ok t" "stream later t = replicate 5 False @ bit_stream xs"
  shows "sees later t = xs"
proof -
  have "bitcnt t + 8 * length (sees later t) = 5 + 8 * length xs"
    using arg_cong [OF assms(2), of length] by (simp add: stream_def)
  moreover have "c + 8 * a = 5 + 8 * b \<Longrightarrow> c < 8 \<Longrightarrow> c = 5 \<and> a = b" for a b c :: nat by presburger
  ultimately have l: "bitcnt t = 5" "length (sees later t) = length xs" using assms(1) unfolding bits_ok_def by blast+
  have "drop 5 (stream later t) = bit_stream xs" unfolding assms(2) by simp
  then have "bit_stream (sees later t) = bit_stream xs" by (simp add: stream_def l(1))
  then show ?thesis using l(2) by (rule bit_stream_inj)
qed

fun stored_blocks :: "u8 list list \<Rightarrow> u8 list" where
  "stored_blocks [] = []"
| "stored_blocks [bs] = stored_block True bs"
| "stored_blocks (bs # cs) = stored_block False bs @ stored_blocks cs"

lemma block_start:
  assumes f: "feeds io later" and r: "records io sunk" and s: "reading later sunk k s" "bitcnt s = 0" "bitbuf s = 0"
    and v: "sees later s = of_bool b # xs"
    and K: "\<And>t. reading later sunk k t \<Longrightarrow> hist sunk t = hist sunk s \<Longrightarrow> sees later t = xs \<Longrightarrow> gives (K (of_bool b) 0 t) P"
  shows "gives (bits io 1 s \<bind> (\<lambda>(v, s1). bits io 2 s1 \<bind> (\<lambda>(w, s2). K v w s2))) P"
proof -
  have st: "stream later s = lsb_bits 1 (of_bool b :: u32) @ lsb_bits 2 (0 :: u32) @ replicate 5 False @ bit_stream xs"
    using s v head_bits [of b] by (simp add: stream_def)
  have n: "(1 :: nat) \<le> 24" "(2 :: nat) \<le> 24" "unat (of_bool b :: u32) < 2 ^ 1" "unat (0 :: u32) < 2 ^ 2" by simp_all
  show ?thesis
  proof (rule gives_step [OF bits_read [OF f r s(1) n(1,3) st]], elim conjE)
    fix v :: u32 and s1
    assume 1: "v = of_bool b" "reading later sunk k s1" "stream later s1 = lsb_bits 2 (0 :: u32) @ replicate 5 False @ bit_stream xs" "hist sunk s1 = hist sunk s"
    show "gives (bits io 2 s1 \<bind> (\<lambda>(w, s2). K v w s2)) P"
    proof (rule gives_step [OF bits_read [OF f r 1(2) n(2,4) 1(3)]], elim conjE)
      fix w :: u32 and s2
      assume 2: "w = 0" "reading later sunk k s2" "stream later s2 = replicate 5 False @ bit_stream xs" "hist sunk s2 = hist sunk s1"
      have "sees later s2 = xs" by (rule sees_after_bits [OF _ 2(3)]) (use 2(2) in \<open>simp add: reading_def\<close>)
      then show "gives (K v w s2) P" unfolding 1(1) 2(1) using K [OF 2(2)] 1(4) 2(4) by simp
    qed
  qed
qed

lemma blocks_stored:
  assumes f: "feeds io later" and r: "records io sunk"
  shows "cs \<noteq> [] \<Longrightarrow> \<forall>bs \<in> set cs. length bs \<le> 65535 \<Longrightarrow> reading later sunk k s \<Longrightarrow> bitcnt s = 0 \<Longrightarrow> bitbuf s = 0 \<Longrightarrow>
    sees later s = stored_blocks cs @ ys \<Longrightarrow> length cs \<le> fuel \<Longrightarrow>
    gives (blocks io fuel s) (\<lambda>(ok, t). ok \<and> reading later sunk k t \<and> hist sunk t = hist sunk s @ concat cs)"
proof (induction cs arbitrary: s fuel rule: stored_blocks.induct)
  case 1
  then show ?case by simp
next
  case (2 bs)
  then obtain n where fu: "fuel = Suc n" by (cases fuel) auto
  have v: "sees later s = of_bool True # le_bytes 2 (length bs) @ le_bytes 2 (65535 - length bs) @ bs @ ys"
    using 2 by (simp add: stored_block_def)
  show ?case unfolding fu blocks.simps
  proof (rule block_start [OF f r 2(3,4,5) v])
    fix t
    assume t: "reading later sunk k t" "hist sunk t = hist sunk s" "sees later t = le_bytes 2 (length bs) @ le_bytes 2 (65535 - length bs) @ bs @ ys"
    have l: "length bs \<le> 65535" using 2(2) by simp
    have "gives (stored io t \<bind> (\<lambda>(ok, s3). Some (ok, s3))) (\<lambda>(ok, t). ok \<and> reading later sunk k t \<and> hist sunk t = hist sunk s @ concat [bs])"
      by (rule gives_step [OF stored_read [OF f r t(1) l t(3)]]) (use t in simp)
    then show "gives ((if (0 :: u32) = 0 then stored io t else if (0 :: u32) = 1 then fixed_block io n t else if (0 :: u32) = 2 then dynamic io n t else Some (False, t)) \<bind>
        (\<lambda>(ok, s3). if ok \<and> (of_bool True :: u32) = 0 then blocks io n s3 else Some (ok, s3)))
      (\<lambda>(ok, t). ok \<and> reading later sunk k t \<and> hist sunk t = hist sunk s @ concat [bs])" by simp
  qed
next
  case (3 bs c cs)
  then obtain n where fu: "fuel = Suc n" by (cases fuel) auto
  let ?ys = "stored_blocks (c # cs) @ ys"
  have v: "sees later s = of_bool False # le_bytes 2 (length bs) @ le_bytes 2 (65535 - length bs) @ bs @ ?ys"
    using 3(7) by (simp add: stored_block_def)
  show ?case unfolding fu blocks.simps
  proof (rule block_start [OF f r 3(4,5,6) v])
    fix t
    assume t: "reading later sunk k t" "hist sunk t = hist sunk s" "sees later t = le_bytes 2 (length bs) @ le_bytes 2 (65535 - length bs) @ bs @ ?ys"
    have l: "length bs \<le> 65535" using 3(3) by simp
    have "gives (stored io t \<bind> (\<lambda>(ok, s3). if ok then blocks io n s3 else Some (ok, s3)))
      (\<lambda>(ok, t). ok \<and> reading later sunk k t \<and> hist sunk t = hist sunk s @ concat (bs # c # cs))"
    proof (rule gives_step [OF stored_read [OF f r t(1) l t(3)]], elim conjE)
      fix ok s3
      assume u: "ok" "reading later sunk k s3" "sees later s3 = ?ys" "hist sunk s3 = hist sunk t @ bs" "bitcnt s3 = 0" "bitbuf s3 = 0"
      have "gives (blocks io n s3) (\<lambda>(ok, t). ok \<and> reading later sunk k t \<and> hist sunk t = hist sunk s3 @ concat (c # cs))"
        by (rule 3(1)) (use u 3(3,8) fu in simp_all)
      then show "gives (if ok then blocks io n s3 else Some (ok, s3)) (\<lambda>(ok, t). ok \<and> reading later sunk k t \<and> hist sunk t = hist sunk s @ concat (bs # c # cs))"
        using u(1,4) t(2) by simp
    qed
    then show "gives ((if (0 :: u32) = 0 then stored io t else if (0 :: u32) = 1 then fixed_block io n t else if (0 :: u32) = 2 then dynamic io n t else Some (False, t)) \<bind>
        (\<lambda>(ok, s3). if ok \<and> (of_bool False :: u32) = 0 then blocks io n s3 else Some (ok, s3)))
      (\<lambda>(ok, t). ok \<and> reading later sunk k t \<and> hist sunk t = hist sunk s @ concat (bs # c # cs))" by simp
  qed
qed

text \<open>A gzip file without name, comment or extra field.\<close>

definition gzip_stored :: "u8 list list \<Rightarrow> u8 list" where
  "gzip_stored cs = [0x1F, 0x8B, 8, 0, 0, 0, 0, 0, 0, 3] @ stored_blocks cs"

lemma window_close_sunk:
  assumes r: "records io sunk" and w: "win s = Some w" and c: "window_close io ok s = (v, t)"
    and o: "ok" "\<not> wstop s" "\<not> bad s"
  shows "v" "sunk (i_world (inp t)) = hist sunk s"
proof -
  obtain e where e: "sink_call io (take (unat (wpos s)) w) s = (True, s\<lparr>inp := (inp s)\<lparr>i_world := e\<rparr>\<rparr>)"
    "sunk e = sunk (i_world (inp s)) @ take (unat (wpos s)) w"
    using sink_call_records [OF r] by blast
  let ?s = "if 0 < wpos s then s\<lparr>inp := (inp s)\<lparr>i_world := e\<rparr>\<rparr> else s"
  have "window_close io ok s = (ok \<and> \<not> wstop (xfree io ?s) \<and> \<not> bad (xfree io ?s), (xfree io ?s)\<lparr>win := None\<rparr>)"
    unfolding window_close_def using o e(1) w by (simp add: Let_def xfree_def)
  then have vt: "v = (ok \<and> \<not> wstop (xfree io ?s) \<and> \<not> bad (xfree io ?s))" "t = (xfree io ?s)\<lparr>win := None\<rparr>" using c by simp_all
  show "v" using o by (simp add: vt(1) xfree_def)
  show "sunk (i_world (inp t)) = hist sunk s"
    using recordsD(5) [OF r] e(2) w by (auto simp: vt(2) xfree_def hist_def word_nat unat_eq_0)
qed

lemma read_in_sunk:
  assumes r: "records io sunk" and x: "read_in io n s = Some (y, t)"
  shows "same_sunk sunk s t"
proof -
  have "src_read_loop io fuel n got i = Some (y, j) \<Longrightarrow> sunk (i_world j) = sunk (i_world i)" for fuel n got i y j
  proof (induction fuel arbitrary: n got i)
    case 0
    then show ?case by (subst (asm) src_read_loop.simps) (simp split: if_splits)
  next
    case (Suc fuel)
    obtain d u where du: "dry io i = (d, u)" by fastforce
    show ?case using Suc.prems dry_sunk [OF r du]
      by (subst (asm) src_read_loop.simps) (auto simp: du Let_def split: if_splits dest!: Suc.IH)
  qed
  then show ?thesis using x by (auto simp: read_in_def src_read_def same_sunk_def split: bind_splits)
qed

lemma gunzip_of_stored:
  assumes f: "feeds io later" and r: "records io sunk" and s: "src_ok src" "\<not> i_bad src" "tables_ok s0"
    and a: "\<And>n w. fst (host_alloc io n w)"
    and c: "cs \<noteq> []" "\<forall>bs \<in> set cs. length bs \<le> 65535" and v: "view later src = gzip_stored cs @ ys" and u: "length cs \<le> fuel"
  shows "gives (gunzip io fuel src s0) (\<lambda>(ok, t). ok \<and> sunk (i_world (inp t)) = sunk (i_world src) @ concat cs)"
  unfolding gunzip_def
proof (rule gives_step2 [where P = "\<lambda>ok h s. ok \<and> h = [0x1F, 0x8B, 8, 0, 0, 0, 0, 0, 0, 3] \<and> src_ok (inp s) \<and> \<not> bad s \<and>
      sees later s = stored_blocks cs @ ys \<and> same_sunk sunk (s0\<lparr>inp := src\<rparr>) s"], goal_cases)
  case 1
  define S where "S = s0\<lparr>inp := src\<rparr>"
  have S: "src_ok (inp S)" "\<not> bad S" "sees later S = gzip_stored cs @ ys" using s v by (simp_all add: S_def)
  have "gives (read_in io 10 S) (\<lambda>((ok, h), t). ok \<and> h = [0x1F, 0x8B, 8, 0, 0, 0, 0, 0, 0, 3] \<and> src_ok (inp t) \<and> \<not> bad t \<and>
      sees later t = stored_blocks cs @ ys \<and> same_sunk sunk S t)"
    by (rule gives_mono2 [OF read_in_spec [OF f S(1)]])
      (use S read_in_sunk [OF r] in \<open>auto simp: gzip_stored_def\<close>)
  then show ?case by (simp add: S_def)
next
  case (2 ok h s)
  obtain opened s2 where o: "window_open io 32768 s = (opened, s2)" by fastforce
  have op: "opened" using o a [of "32768" "i_world (inp s)"] by (auto simp: window_open_def xalloc_def split: prod.splits)
  have n: "0 < unat (32768 :: u32)" by simp
  note W = window_open_spec [OF f n o] and R = window_open_ring [OF f r n, of s s2]
  let ?s = "s2\<lparr>bitbuf := 0, bitcnt := 0\<rparr>" and ?k = "length (hist sunk s2)"
  have hs: "hist sunk s2 = sunk (i_world src)" using R(2) o op 2 by (simp add: same_sunk_def)
  have o2: "only_input s2 ?s" unfolding only_input_def by (intro exI [of _ "inp s2"] exI [of _ "0"]) simp
  have ss: "same_sunk sunk s2 ?s" by (simp add: same_sunk_def)
  have "reading later sunk ?k ?s" unfolding reading_def
    using R(1) o op W(1,3,4) 2 ring_only_input(1) [OF o2 ss] by (auto simp: bits_ok_def clean_def)
  moreover have "sees later ?s = stored_blocks cs @ ys" using W(2) 2 by simp
  ultimately have b: "gives (blocks io fuel ?s) (\<lambda>(ok, t). ok \<and> reading later sunk ?k t \<and> hist sunk t = hist sunk ?s @ concat cs)"
    using c u by (intro blocks_stored [OF f r]) auto
  have "gives (blocks io fuel ?s \<bind> (\<lambda>(ok1, s3). Some (window_close io ok1 s3))) (\<lambda>(ok, t). ok \<and> sunk (i_world (inp t)) = sunk (i_world src) @ concat cs)"
  proof (rule gives_step [OF b], elim conjE)
    fix ok1 and s3 :: "'a unpacker"
    assume 3: "ok1" "reading later sunk ?k s3" "hist sunk s3 = hist sunk ?s @ concat cs"
    obtain v t where wc: "window_close io ok1 s3 = (v, t)" by fastforce
    obtain w where w: "win s3 = Some w" using 3(2) by (auto simp: reading_def ring_def)
    show "gives (Some (window_close io ok1 s3)) (\<lambda>(ok, t). ok \<and> sunk (i_world (inp t)) = sunk (i_world src) @ concat cs)"
      unfolding wc using window_close_sunk [OF r w wc] 3 hs ring_only_input(2) [OF o2 ss] by (simp add: reading_def)
  qed
  then show ?case using 2 o op by (simp add: skip_header_def)
qed

end
