(* ===== verification/UnpackProps.thy ===== *)
theory UnpackProps
  imports UnpackMemory Deflate
begin

text \<open>
  The properties of the decompressors, with a source held in memory and a sink that keeps what it is
  given as the concrete host of the witnesses.
\<close>

section \<open>A host for the witnesses\<close>

definition ram_host :: "u8 list host" where
  "ram_host = \<lparr>host_fill = (\<lambda>s. (0, s)), host_sink = (\<lambda>bs w. (True, w @ bs)),
     host_alloc = (\<lambda>n w. (True, w)), host_free = (\<lambda>w. w)\<rparr>"

definition ram_source :: "u8 list \<Rightarrow> u8 list source" where
  "ram_source bs = \<lparr>i_buf = bs, i_pos = 0, i_len = of_nat (length bs), i_cap = of_nat (length bs), i_count = 0,
     i_bad = False, i_fill = False, i_at = 0, i_end = 0, i_fd = 0, i_left = 0, i_world = []\<rparr>"

definition no_code :: huff where
  "no_code = \<lparr>h_count = replicate 16 0, h_symbol = replicate 288 0\<rparr>"

definition fresh :: "u8 list \<Rightarrow> u8 list unpacker" where
  "fresh bs = \<lparr>inp = ram_source bs, win = None, wsize = 0, wpos = 0, total = 0, wstop = False, bitbuf = 0, bitcnt = 0,
     lencode = no_code, distcode = no_code, lengths = replicate 320 0, rc_range = 0, rc_code = 0,
     rep0 = 0, rep1 = 0, rep2 = 0, rep3 = 0, lc = 0, lp = 0, pb = 0, lstate = 0, xz_head = replicate 1024 0\<rparr>"

lemma ram_feeds: "feeds ram_host (\<lambda>_. [])"
  unfolding feeds_def fills_def steady_def ram_host_def by simp

lemma ram_records: "records ram_host (\<lambda>w. w)"
  unfolding records_def ram_host_def by simp

lemma ram_view: "length bs < 2 ^ 32 \<Longrightarrow> view (\<lambda>_. []) (ram_source bs) = bs" "length bs < 2 ^ 32 \<Longrightarrow> src_ok (ram_source bs)"
  by (simp_all add: view_def buffered_def src_ok_def ram_source_def unat_of_nat word_nat)

lemma fresh_ok: "tables_ok (fresh bs)"
proof -
  have "huff_ok no_code" by (simp add: huff_ok_def no_code_def)
  then show ?thesis by (simp add: tables_ok_def fresh_def)
qed

text \<open>A host that only counts what is mapped, and a file of one empty block.\<close>

definition count_host :: "int host" where
  "count_host = \<lparr>host_fill = (\<lambda>s. (0, s)), host_sink = (\<lambda>bs w. (True, w)),
     host_alloc = (\<lambda>n w. (True, w + 1)), host_free = (\<lambda>w. w - 1)\<rparr>"

definition count_source :: "u8 list \<Rightarrow> int source" where
  "count_source bs = \<lparr>i_buf = bs, i_pos = 0, i_len = of_nat (length bs), i_cap = of_nat (length bs), i_count = 0,
     i_bad = False, i_fill = False, i_at = 0, i_end = 0, i_fd = 0, i_left = 0, i_world = 0\<rparr>"

definition count_fresh :: "int unpacker" where
  "count_fresh = \<lparr>inp = count_source [], win = None, wsize = 0, wpos = 0, total = 0, wstop = False, bitbuf = 0, bitcnt = 0,
     lencode = no_code, distcode = no_code, lengths = replicate 320 0, rc_range = 0, rc_code = 0,
     rep0 = 0, rep1 = 0, rep2 = 0, rep3 = 0, lc = 0, lp = 0, pb = 0, lstate = 0, xz_head = replicate 1024 0\<rparr>"

definition empty_xz :: "u8 list" where
  "empty_xz = [0xFD, 0x37, 0x7A, 0x58, 0x5A, 0, 0, 1, 0, 0, 0, 0] @ [2, 0, 0x21, 1, 0, 0, 0, 0, 0, 0, 0, 0] @ [0, 0]"

lemma count_host_ok: "feeds count_host (\<lambda>_. [])" "accounts count_host (\<lambda>w. w)"
  by (simp_all add: feeds_def fills_def steady_def accounts_def count_host_def)

lemma count_view: "length bs < 2 ^ 32 \<Longrightarrow> view (\<lambda>_. []) (count_source bs) = bs" "length bs < 2 ^ 32 \<Longrightarrow> src_ok (count_source bs)"
  by (simp_all add: view_def buffered_def src_ok_def count_source_def unat_of_nat word_nat)

lemma count_fresh_ok: "tables_ok count_fresh"
proof -
  have "huff_ok no_code" by (simp add: huff_ok_def no_code_def)
  then show ?thesis by (simp add: tables_ok_def count_fresh_def)
qed

section \<open>Totality\<close>

text \<open>
  C5. \<open>gunzip\<close> ends on every finite input, good or damaged: with fuel for two more than the bits of the
  input it returns, which in this model also says that no array was accessed outside its bounds, and
  the tables it leaves are fit for the next call. (liveness)
\<close>
theorem gunzip_total:
  assumes "feeds io later" "src_ok src" "tables_ok s0" "8 * length (view later src) + 2 \<le> fuel"
  shows "\<exists>ok t. gunzip io fuel src s0 = Some (ok, t) \<and> tables_ok t \<and> src_ok (inp t)"
  using gunzip_returns [OF assms] by (auto simp: gives_iff)

theorem gunzip_total_witness:
  "\<exists>ok t. gunzip ram_host 50 (ram_source [0x1F, 0x8B, 8, 0]) (fresh []) = Some (ok, t) \<and> tables_ok t \<and> src_ok (inp t)"
  by (rule gunzip_total [OF ram_feeds ram_view(2) fresh_ok]) (use ram_view(1) [of "[0x1F, 0x8B, 8, 0]"] in simp_all)

text \<open>
  C9. \<open>unxz\<close> ends on every finite input, whatever the file and its headers claim: with fuel for four
  more than its bytes it returns, no probability, window or header byte was accessed outside its
  array, and what it mapped is unmapped, the probabilities and the window: on every host that counts
  mappings (one more for each \<open>mmap\<close> that succeeds, one less for each \<open>munmap\<close>) the count is what it was
  before the call, and no pointer to a window is left. (safety)
\<close>
theorem unxz_total:
  assumes "feeds io later" "src_ok src" "tables_ok s0" "length (view later src) + 4 \<le> fuel"
  shows "\<exists>ok t. unxz io fuel src sz s0 = Some (ok, t) \<and> tables_ok t \<and> src_ok (inp t) \<and> win t = None \<and>
    (\<forall>mapped. accounts io mapped \<longrightarrow> mapped (i_world (inp t)) = mapped (i_world src))"
  using unxz_returns [OF assms, of sz] unxz_memory [of io _ fuel src sz s0] by (fastforce simp: gives_iff)

theorem unxz_total_witness:
  "\<exists>ok t. unxz count_host 40 (count_source empty_xz) 0 count_fresh = Some (ok, t) \<and> win t = None \<and> i_world (inp t) = 0"
proof -
  have l: "length empty_xz = 26" by (simp add: empty_xz_def)
  have s: "src_ok (count_source empty_xz)" "length (view (\<lambda>_. []) (count_source empty_xz)) + 4 \<le> 40"
    using count_view [of empty_xz] l by simp_all
  have z: "i_world (count_source empty_xz) = 0" by (simp add: count_source_def)
  from unxz_total [OF count_host_ok(1) s(1) count_fresh_ok s(2), of 0] z count_host_ok(2) show ?thesis by metis
qed

section \<open>What is put out\<close>

text \<open>
  C18. A gzip file of stored blocks is unpacked to exactly the bytes that were stored, through the
  32 KiB window and whatever pieces the source comes in. (round trip)
\<close>
theorem gunzip_stored:
  assumes "feeds io later" "records io sunk" "src_ok src" "\<not> i_bad src" "tables_ok s0" "\<forall>n w. fst (host_alloc io n w)"
    "cs \<noteq> []" "\<forall>bs \<in> set cs. length bs \<le> 65535" "view later src = gzip_stored cs @ trailer" "length cs \<le> fuel"
  shows "\<exists>t. gunzip io fuel src s0 = Some (True, t) \<and> sunk (i_world (inp t)) = sunk (i_world src) @ concat cs"
  using gunzip_of_stored [OF assms(1-5) _ assms(7-10)] assms(6) by (auto simp: gives_iff)

theorem gunzip_stored_witness:
  "\<exists>t. gunzip ram_host 2 (ram_source (gzip_stored [[1, 2], [3]])) (fresh []) = Some (True, t) \<and> i_world (inp t) = [1, 2, 3]"
proof -
  have g: "length (gzip_stored [[1, 2], [3]]) = 23" by (simp add: gzip_stored_def stored_block_def)
  have "\<exists>t. gunzip ram_host 2 (ram_source (gzip_stored [[1, 2], [3]])) (fresh []) = Some (True, t) \<and>
    i_world (inp t) = i_world (ram_source (gzip_stored [[1, 2], [3]])) @ concat [[1, 2], [3]]"
    by (rule gunzip_stored [OF ram_feeds ram_records ram_view(2) _ fresh_ok])
      (use ram_view(1) [of "gzip_stored [[1, 2], [3]]"] g in \<open>auto simp: ram_source_def ram_host_def\<close>)
  then show ?thesis by (simp add: ram_source_def)
qed

text \<open>
  C10. A compressed block: when the bits to come are the codes of a sequence of literals and copies, then
  the code of the end-of-block symbol, \<open>codes\<close> puts out what the sequence expands to, takes exactly
  those bits and returns true. The codes are any two that \<open>construct\<close> accepts. (refinement)
\<close>
theorem codes_inflate:
  assumes "feeds io later" "records io sunk" "reading later sunk (length before) s"
    "canon L (lencode s)" "canon D (distcode s)" "256 < length L" "L ! 256 \<noteq> 0" "\<forall>x \<in> set toks. token_ok L D x"
    "stream later s = concat (map (token_bits L D) toks) @ code_bits L 256 @ ys" "length toks < fuel"
    "hist sunk s = before @ h" "total s = of_nat (length h)"
    "expand (unat (wsize s)) toks h = Some h'" "length h' < 2 ^ 64"
  shows "\<exists>t. codes io fuel s = Some (True, t) \<and> stream later t = ys \<and> hist sunk t = before @ h'"
  using codes_tokens [OF assms(1,2,6,7,3,4,5,8,9,10,11) refl assms(12,13,14)] by (auto simp: gives_iff)

text \<open>Two symbols of one bit each, in the window of a fresh decoder: a literal and the end of the block.\<close>

definition tiny_lens :: "nat list" where
  "tiny_lens = 1 # replicate 255 0 @ [1]"

definition tiny_code :: huff where
  "tiny_code = \<lparr>h_count = (replicate 16 0)[0 := 255, 1 := 2], h_symbol = (replicate 288 0)[1 := 256]\<rparr>"

definition tiny_state :: "u8 list unpacker" where
  "tiny_state = (fresh [2])\<lparr>win := Some [0, 0, 0, 0], wsize := 4, lencode := tiny_code, distcode := no_code\<rparr>"

lemma tiny_nth: "tiny_lens ! 0 = 1" "tiny_lens ! 256 = 1" "length tiny_lens = 257" "i < 257 \<Longrightarrow> tiny_lens ! i \<noteq> 0 \<Longrightarrow> i = 0 \<or> i = 256"
  by (auto simp: tiny_lens_def nth_Cons' nth_append split: if_splits)

lemma tiny_count: "count_list tiny_lens l = (if l = 0 then 255 else if l = 1 then 2 else 0)"
proof -
  have "count_list (replicate n x) y = (if x = y then n else 0)" for n and x y :: nat by (induction n) auto
  then show ?thesis by (simp add: tiny_lens_def)
qed

lemma tiny_used: "used tiny_lens (Suc n) = 2 ^ Suc n"
  by (induction n) (simp_all add: tiny_count)

lemma tiny_rank: "rank tiny_lens 0 = 0" "rank tiny_lens 256 = 1" "code_place tiny_lens 0 = 0" "code_place tiny_lens 256 = 1"
proof -
  have "count_list (replicate n (0 :: nat)) 1 = 0" for n by (induction n) auto
  moreover have "take 256 tiny_lens = 1 # replicate 255 0" by (simp add: tiny_lens_def)
  ultimately have r: "rank tiny_lens 256 = 1" "rank tiny_lens 0 = 0" by (simp_all add: rank_def tiny_nth)
  then show "rank tiny_lens 0 = 0" "rank tiny_lens 256 = 1" "code_place tiny_lens 0 = 0" "code_place tiny_lens 256 = 1"
    by (simp_all add: code_place_def start_def tiny_nth)
qed

lemma tiny_canon: "canon tiny_lens tiny_code"
proof -
  have c: "counts tiny_lens (h_count tiny_code)"
    unfolding counts_def by (simp add: tiny_count tiny_code_def nth_list_update)
  have u: "used tiny_lens l \<le> 2 ^ l" for l by (cases l) (simp_all add: tiny_used del: used.simps(2))
  have s: "unat (h_symbol tiny_code ! code_place tiny_lens i) = i" if "i < 257" "tiny_lens ! i \<noteq> 0" for i
    using tiny_nth(4) [OF that] tiny_rank by (auto simp: tiny_code_def)
  have "\<forall>x \<in> set tiny_lens. x \<le> 15" by (auto simp: tiny_lens_def)
  then show ?thesis using c u s by (simp add: canon_def tiny_nth tiny_code_def)
qed

lemma no_canon: "canon [] no_code"
proof -
  have "used [] l = 0" for l by (induction l) simp_all
  then show ?thesis by (simp add: canon_def counts_def no_code_def)
qed

lemma tiny_bits: "code_bits tiny_lens 0 = [False]" "code_bits tiny_lens 256 = [True]"
  by (simp_all add: code_bits_def tiny_nth code_of_def tiny_rank msb_bits_def)

lemma tiny_reading: "reading (\<lambda>_. []) (\<lambda>w. w) 0 tiny_state"
proof -
  have "ring (\<lambda>w. w) 0 tiny_state"
    by (auto simp: ring_def tiny_state_def fresh_def hist_def ram_source_def)
  then show ?thesis using ram_view(2) [of "[2]"]
    by (simp add: reading_def bits_ok_def tiny_state_def fresh_def clean_def) (simp add: ram_source_def)
qed

theorem codes_inflate_witness:
  "\<exists>t. codes ram_host 5 tiny_state = Some (True, t) \<and> hist (\<lambda>w. w) t = [0]"
proof -
  have st: "stream (\<lambda>_. []) tiny_state = concat (map (token_bits tiny_lens []) [Lit 0]) @ code_bits tiny_lens 256 @ replicate 6 False"
  proof -
    have "lsb_bits 8 (2 :: u8) = [False, True] @ replicate 6 False" by code_simp
    then show ?thesis using ram_view(1) [of "[2]"] by (simp add: stream_def tiny_state_def fresh_def tiny_bits)
  qed
  have w: "unat (wsize tiny_state) = 4" "hist (\<lambda>w. w) tiny_state = [] @ []" "total tiny_state = of_nat (length ([] :: u8 list))"
    "lencode tiny_state = tiny_code" "distcode tiny_state = no_code"
    by (simp_all add: tiny_state_def fresh_def hist_def ram_source_def)
  have "\<exists>t. codes ram_host 5 tiny_state = Some (True, t) \<and> stream (\<lambda>_. []) t = replicate 6 False \<and> hist (\<lambda>w. w) t = [] @ [0]"
    by (rule codes_inflate [OF ram_feeds ram_records _ _ _ _ _ _ st _ w(2,3)])
      (use tiny_reading tiny_canon no_canon in \<open>simp_all add: w tiny_nth\<close>)
  then show ?thesis by auto
qed

text \<open>
  C17. Canonical Huffman codes: after \<open>construct\<close> has accepted a list of lengths, the canonical code of
  any symbol with a length, read bit by bit, decodes to that symbol and to nothing more. (round trip)
\<close>
theorem construct_decode:
  assumes "n \<le> length ls" "n \<le> 288" "\<forall>x \<in> set (lens_of ls n). x \<le> 15" "length (h_symbol h) = 288"
    "construct h ls n = Some (left, g)" "0 \<le> left" "i < n" "ls ! i \<noteq> 0"
    "feeds io later" "bits_ok s" "stream later s = code_bits (lens_of ls n) i @ ys"
  shows "\<exists>t. decode io g s = Some (int i, t) \<and> stream later t = ys \<and> bad t = bad s"
proof -
  have c: "canon (lens_of ls n) g" using construct_spec [OF assms(1-4)] assms(5,6) by simp
  have l: "i < length (lens_of ls n)" "lens_of ls n ! i \<noteq> 0" using assms(1,7,8) by (simp_all add: lens_of_def unat_eq_0)
  show ?thesis using decode_canon [OF assms(9) c l assms(10,11)] by (auto simp: gives_iff)
qed

theorem construct_decode_witness:
  "\<exists>left g. construct no_code [1, 1] 2 = Some (left, g) \<and> (\<exists>t. decode ram_host g (fresh [1]) = Some (1, t))"
proof -
  have "map_option fst (construct no_code [1, 1] 2) = Some 0" by code_simp
  then obtain g where g: "construct no_code [1, 1] 2 = Some (0, g)" by (cases "construct no_code [1, 1] 2") auto
  have lens: "lens_of [1, 1] 2 = [1, 1]" by (simp add: lens_of_def numeral_2_eq_2)
  have b: "lsb_bits 8 (1 :: u8) = True # replicate 7 False" "code_bits [1, 1] 1 = [True]" by code_simp+
  have "stream (\<lambda>_. []) (fresh [1]) = code_bits (lens_of [1, 1] 2) 1 @ replicate 7 False"
    using ram_view(1) [of "[1]"] b by (simp add: stream_def fresh_def lens)
  then have "\<exists>t. decode ram_host g (fresh [1]) = Some (int 1, t) \<and> stream (\<lambda>_. []) t = replicate 7 False \<and> bad t = bad (fresh [1])"
    using ram_view(2) [of "[1]"]
    by (intro construct_decode [OF _ _ _ _ g _ _ _ ram_feeds])
      (simp_all add: no_code_def lens bits_ok_def clean_def, simp_all add: fresh_def)
  then show ?thesis using g by auto
qed

text \<open>
  C21. \<open>copy\<close> is the copy of LZ77 over everything put out since the window was opened, however often the
  window has wrapped; a distance of zero, beyond what was put out or beyond the window is refused with
  nothing changed. (refinement)
\<close>
theorem copy_is_lz77:
  assumes "feeds io later" "records io sunk" "ring sunk k s" "src_ok (inp s)"
  shows "if d = 0 \<or> total s < ucast d \<or> wsize s < d then copy io d n s = Some (False, s)
    else \<exists>t. copy io d n s = Some (True, t) \<and> ring sunk k t \<and> hist sunk t = lz_copy (unat d) (unat n) (hist sunk s)"
  using copy_ring [OF assms, of d n] by (auto simp: gives_iff split: if_splits)

definition one_out :: "u8 list unpacker" where
  "one_out = (fresh [])\<lparr>win := Some [7, 0], wsize := 2, wpos := 1, total := 1\<rparr>"

theorem copy_is_lz77_witness:
  "\<exists>t. copy ram_host 1 3 one_out = Some (True, t) \<and> hist (\<lambda>w. w) t = [7, 7, 7, 7]"
proof -
  have r: "ring (\<lambda>w. w) 0 one_out"
    by (auto simp: ring_def one_out_def fresh_def hist_def ram_source_def ring_index_def less_Suc_eq_le le_Suc_eq)
  have i: "src_ok (inp one_out)" using ram_view(2) [of "[]"] by (simp add: one_out_def fresh_def)
  have "hist (\<lambda>w. w) one_out = [7]" by (simp add: one_out_def fresh_def hist_def ram_source_def)
  moreover have "lz_copy (Suc 0) 3 [7 :: u8] = [7, 7, 7, 7]" by (simp add: numeral_3_eq_3)
  moreover have "total one_out = 1" "wsize one_out = 2" by (simp_all add: one_out_def)
  ultimately show ?thesis using copy_is_lz77 [OF ram_feeds ram_records r i, of 1 3] by auto
qed

section \<open>Sources and numbers\<close>

text \<open>
  A file behind a source: \<open>pread\<close> gives some of the bytes from \<open>at\<close> on, at least one if there is one,
  and nothing the decoder does changes the file.
\<close>

definition preads :: "(int \<Rightarrow> u32 \<Rightarrow> u32 \<Rightarrow> 'e \<Rightarrow> int \<times> u8 list \<times> 'e) \<Rightarrow> ('e \<Rightarrow> int \<Rightarrow> u8 list) \<Rightarrow> bool" where
  "preads pread content \<longleftrightarrow> (\<forall>fd want at w. \<exists>k. pread fd want at w = (int k, take k (drop (unat at) (content w fd)), w) \<and>
    k \<le> unat want \<and> k \<le> length (content w fd) - unat at \<and> (0 < want \<longrightarrow> unat at < length (content w fd) \<longrightarrow> 0 < k))"

definition file_host :: "(int \<Rightarrow> u32 \<Rightarrow> u32 \<Rightarrow> 'e \<Rightarrow> int \<times> u8 list \<times> 'e) \<Rightarrow> 'e host \<Rightarrow> 'e host" where
  "file_host pread io = io\<lparr>host_fill := file_fill pread\<rparr>"

definition file_rest :: "('e \<Rightarrow> int \<Rightarrow> u8 list) \<Rightarrow> 'e source \<Rightarrow> u8 list" where
  "file_rest content s = (if i_cap s = 0 then [] else
    take (unat (i_end s) - unat (i_at s)) (drop (unat (i_at s)) (content (i_world s) (i_fd s))))"

definition keeps_files :: "'e host \<Rightarrow> ('e \<Rightarrow> int \<Rightarrow> u8 list) \<Rightarrow> bool" where
  "keeps_files io content \<longleftrightarrow> (\<forall>bs w fd. content (snd (host_sink io bs w)) fd = content w fd) \<and>
    (\<forall>n w fd. content (snd (host_alloc io n w)) fd = content w fd) \<and> (\<forall>w fd. content (host_free io w) fd = content w fd)"

lemma file_fill_fills:
  assumes p: "preads pread content" and s: "src_ok s" "i_pos s = i_len s" and h: "file_fill pread s = (n, t)"
  shows "src_ok t \<and> i_bad t = i_bad s \<and> i_fill t = i_fill s \<and> i_count t = i_count s \<and>
    (if n = 0 then file_rest content s = [] \<and> i_pos t = i_len t \<and> file_rest content t = []
     else i_pos t \<noteq> i_len t \<and> buffered t @ file_rest content t = file_rest content s)"
proof -
  let ?c = "content (i_world s) (i_fd s)" and ?left = "unat (i_end s) - unat (i_at s)"
  define want where "want = (if i_end s - i_at s < i_cap s then i_end s - i_at s else i_cap s)"
  obtain k where k: "pread (i_fd s) want (i_at s) (i_world s) = (int k, take k (drop (unat (i_at s)) ?c), i_world s)"
    "k \<le> unat want" "k \<le> length ?c - unat (i_at s)" "0 < want \<Longrightarrow> unat (i_at s) < length ?c \<Longrightarrow> 0 < k"
    using p unfolding preads_def by meson
  show ?thesis
  proof (cases "i_at s < i_end s")
    case False
    then have "t = s\<lparr>i_buf := i_buf s, i_world := i_world s\<rparr>" "n = 0" using h by (auto simp: file_fill_def Let_def)
    moreover have "file_rest content s = []" using False by (simp add: file_rest_def word_nat)
    ultimately show ?thesis using s by simp
  next
    case True
    have wl: "unat want \<le> ?left" "unat want \<le> unat (i_cap s)" "i_cap s \<noteq> 0 \<Longrightarrow> 0 < want"
      using True unat_sub_le [of "i_at s" "i_end s"] by (auto simp: want_def word_nat unat_gt_0)
    let ?bs = "take k (drop (unat (i_at s)) ?c)"
    have lb: "length ?bs = k" using k(3) by simp
    have cap: "unat (i_cap s) \<le> length (i_buf s)" "unat (i_len s) \<le> length (i_buf s)" using s by (simp_all add: src_ok_def)
    have kl: "k \<le> length (i_buf s)" using k(2) wl(2) cap by simp
    show ?thesis
    proof (cases "k = 0")
      case zero: True
      have r: "file_rest content s = []"
        using k(4) wl(3) zero by (auto simp: file_rest_def not_less)
      have "t = s\<lparr>i_buf := i_buf s, i_world := i_world s\<rparr>" "n = 0"
        using h True k(1) zero unfolding file_fill_def want_def [symmetric] by (auto simp: Let_def)
      then show ?thesis using s r by simp
    next
      case False
      have k32: "k < 2 ^ 32" using k(2) unat_bound [of want] by simp
      have kw: "unat (of_nat k :: u32) = k" using k32 by (simp add: unat_of_nat)
      have n0: "(of_nat k :: u32) \<noteq> 0" using kw False by (auto simp: word_unat_eq_iff)
      have t: "t = s\<lparr>i_buf := ?bs @ drop k (i_buf s), i_world := i_world s, i_pos := 0, i_len := of_nat k, i_at := i_at s + of_nat k\<rparr>" "n = of_nat k"
        using h True k(1) False lb unfolding file_fill_def want_def [symmetric] by (auto simp: Let_def)
      have ok: "src_ok t" using kl kw cap lb by (simp add: t src_ok_def word_nat)
      have b: "buffered t = ?bs" using kw lb kl by (simp add: t buffered_def)
      have at: "unat (i_at s + of_nat k) = unat (i_at s) + k"
        using k(2) wl(1) True unat_bound [of "i_end s"] kw by (subst unat_add_small) (auto simp: word_nat)
      have c0: "i_cap s \<noteq> 0" using wl(2) k(2) False by auto
      have "file_rest content s = ?bs @ file_rest content t"
      proof -
        have "take ?left (drop (unat (i_at s)) ?c) = take k (take ?left (drop (unat (i_at s)) ?c)) @ drop k (take ?left (drop (unat (i_at s)) ?c))"
          by (rule append_take_drop_id [symmetric])
        also have "take k (take ?left (drop (unat (i_at s)) ?c)) = ?bs" using k(2) wl(1) by (simp add: min_def)
        also have "drop k (take ?left (drop (unat (i_at s)) ?c)) = file_rest content t"
          using c0 at by (simp add: file_rest_def t drop_take add.commute)
        finally show ?thesis using c0 by (simp add: file_rest_def)
      qed
      then show ?thesis using ok b n0 by (simp add: t(2)) (simp add: t(1))
    qed
  qed
qed

lemma file_feeds:
  assumes "preads pread content" "keeps_files io content"
  shows "feeds (file_host pread io) (file_rest content)"
proof -
  have "fills (file_host pread io) (file_rest content)"
    unfolding fills_def by (intro allI impI) (rule file_fill_fills [OF assms(1)], simp_all add: file_host_def)
  moreover have "steady (file_host pread io) (file_rest content)"
    unfolding steady_def file_host_def using assms(2) by (simp add: file_rest_def keeps_files_def)
  ultimately show ?thesis by (simp add: feeds_def)
qed

text \<open>
  A source on a stretch of a file reads the file: \<open>src_read\<close> after \<open>src_file\<close> gives the first \<open>n\<close>
  bytes of the stretch whatever pieces \<open>pread\<close> hands out, and fails exactly when the stretch, cut at
  the end of the file, is shorter.
\<close>

lemma src_read_file:
  assumes "preads pread content" "keeps_files io content" "unat (i_cap s) \<le> length (i_buf s)" "i_cap s \<noteq> 0"
  shows "let bytes = take (unat end - unat at) (drop (unat at) (content (i_world s) fd)) in
    \<exists>t. src_read (file_host pread io) n (src_file s fd at end) =
      Some ((unat n \<le> length bytes, take (unat n) bytes), t) \<and> i_bad t = (length bytes < unat n)"
proof -
  define bytes where "bytes = take (unat end - unat at) (drop (unat at) (content (i_world s) fd))"
  let ?s = "src_file s fd at end"
  have ok: "src_ok ?s" using assms(3) by (simp add: src_ok_def src_file_def)
  have v: "view (file_rest content) ?s = bytes"
    using assms(4) by (simp add: view_def buffered_def src_file_def file_rest_def bytes_def)
  have b: "\<not> i_bad ?s" by (simp add: src_file_def)
  note r = src_read_spec [OF file_feeds [OF assms(1,2)] ok, of n]
  have "\<exists>t. src_read (file_host pread io) n ?s = Some ((unat n \<le> length bytes, take (unat n) bytes), t) \<and> i_bad t = (length bytes < unat n)"
    using r b unfolding v gives_iff by (cases "unat n \<le> length bytes") auto
  then show ?thesis unfolding Let_def bytes_def .
qed

text \<open>A file of five bytes, read two at a time.\<close>

definition two_pread :: "int \<Rightarrow> u32 \<Rightarrow> u32 \<Rightarrow> u8 list \<Rightarrow> int \<times> u8 list \<times> u8 list" where
  "two_pread fd want at w = (let bs = take (min 2 (unat want)) (drop (unat at) w) in (int (length bs), bs, w))"

text \<open>The variable-length numbers of the xz format, seven bits to a byte, the last without the top bit.\<close>

fun vli_bytes :: "nat \<Rightarrow> u8 list" where
  "vli_bytes v = (if v < 128 then [of_nat v] else of_nat (v mod 128 + 128) # vli_bytes (v div 128))"

declare vli_bytes.simps [simp del]

lemma vli_bytes_length: "v < 128 ^ Suc n \<Longrightarrow> length (vli_bytes v) \<le> Suc n"
proof (induction n arbitrary: v)
  case (Suc n)
  have "v div 128 < 128 ^ Suc n" using Suc.prems by (simp add: less_mult_imp_div_less mult.commute)
  then show ?case using Suc.IH [of "v div 128"] by (subst vli_bytes.simps) simp
qed (simp add: vli_bytes.simps)

lemma or_shift_add:
  fixes a b :: u64
  assumes "unat a < 2 ^ n" "unat a + unat b * 2 ^ n < 2 ^ 64"
  shows "unat (a OR push_bit n b) = unat a + unat b * 2 ^ n"
proof -
  have z: "\<not> bit a i" if "n \<le> i" for i
  proof -
    have "take_bit n a = a" unfolding word_unat_eq_iff using assms(1) by (simp add: unsigned_take_bit_eq take_bit_nat_eq_self)
    then show ?thesis using that by (metis bit_take_bit_iff linorder_not_le)
  qed
  have "a OR push_bit n b = a + push_bit n b" by (rule disjunctive_add [symmetric]) (auto simp: bit_push_bit_iff dest: z)
  moreover have "unat (push_bit n b) = unat b * 2 ^ n"
    unfolding unsigned_push_bit_eq using assms(2) by (simp add: push_bit_eq_mult take_bit_nat_eq_self)
  ultimately show ?thesis using assms(2) by (simp add: unat_add_small)
qed

lemma vli_loop_bytes:
  assumes "v < 128 ^ n" "0 < n" "unat acc < 2 ^ (7 * i)" "unat acc + v * 2 ^ (7 * i) < 2 ^ 64"
    "take (length (vli_bytes v)) (drop at h) = vli_bytes v" "at + length (vli_bytes v) \<le> end"
  shows "\<exists>w. vli_loop h end n i at acc = Some (w, at + length (vli_bytes v)) \<and> unat w = unat acc + v * 2 ^ (7 * i)"
  using assms
proof (induction n arbitrary: v acc i at)
  case (Suc n)
  define b :: u8 where "b = hd (vli_bytes v)"
  have hd: "vli_bytes v = b # tl (vli_bytes v)" by (simp add: b_def vli_bytes.simps [of v])
  have at: "at < length h" "h ! at = b"
  proof -
    have ne: "drop at h \<noteq> []" using Suc.prems(5) hd by auto
    then show l: "at < length h" by simp
    have "hd (drop at h) = b" using Suc.prems(5) hd ne by (metis hd_take length_greater_0_conv list.sel(1) list.discI)
    then show "h ! at = b" using l by (simp add: hd_drop_conv_nth)
  qed
  have "0 < length (vli_bytes v)" by (subst hd) simp
  then have ae: "at < end" using Suc.prems(6) by linarith
  have low: "unat (ucast (b AND 0x7F) :: u64) = v mod 128"
    and top: "b AND 0x80 = 0 \<longleftrightarrow> v < 128"
  proof -
    have bb: "b = of_nat (if v < 128 then v else v mod 128 + 128)" by (simp add: b_def vli_bytes.simps [of v])
    have u: "unat b = (if v < 128 then v else v mod 128 + 128)" by (simp add: bb unat_of_nat)
    have m: "b AND 0x7F = take_bit 7 b" by (simp add: take_bit_eq_mask mask_eq_exp_minus_1)
    have "unat (take_bit 7 b) = unat b mod 2 ^ 7" by (rule trans [OF unsigned_take_bit_eq take_bit_eq_mod])
    then have "unat (take_bit 7 b) = v mod 128" using u by auto
    then show "unat (ucast (b AND 0x7F) :: u64) = v mod 128" unfolding m by (simp add: unsigned_ucast_eq take_bit_nat_eq_self)
    have "b AND 0x80 = 0 \<longleftrightarrow> unat b < 128"
    proof -
      have e: "(0x80 :: u8) = push_bit 7 1" by simp
      have "b AND 0x80 = 0 \<longleftrightarrow> \<not> bit b 7" unfolding e and_exp_eq_0_iff_not_bit [symmetric] by (simp add: push_bit_eq_mult)
      also have "\<dots> \<longleftrightarrow> \<not> bit (unat b) 7" by (simp add: bit_unsigned_iff)
      also have "\<dots> \<longleftrightarrow> even (unat b div 2 ^ 7)" by (simp add: bit_iff_odd)
      also have "\<dots> \<longleftrightarrow> unat b < 128" using unat_u8_bound [of b] by (cases "unat b < 128") (auto simp: not_less le_div_geq)
      finally show ?thesis .
    qed
    then show "b AND 0x80 = 0 \<longleftrightarrow> v < 128" using u by auto
  qed
  define acc1 where "acc1 = acc OR push_bit (7 * i) (ucast (b AND 0x7F))"
  have fit: "unat acc + v mod 128 * 2 ^ (7 * i) < 2 ^ 64"
    using Suc.prems(4) mult_le_mono1 [OF mod_less_eq_dividend [of v 128], of "2 ^ (7 * i)"] by linarith
  have u1: "unat acc1 = unat acc + v mod 128 * 2 ^ (7 * i)"
    unfolding acc1_def using or_shift_add [OF Suc.prems(3), of "ucast (b AND 0x7F)"] fit low by simp
  have step: "vli_loop h end (Suc n) i at acc = (if v < 128 then Some (acc1, at + 1) else vli_loop h end n (i + 1) (at + 1) acc1)"
    using ae at top by (simp add: Let_def acc1_def)
  show ?case
  proof (cases "v < 128")
    case True
    then have "length (vli_bytes v) = 1" by (simp add: vli_bytes.simps)
    then show ?thesis using step True u1 by simp
  next
    case False
    have tl: "vli_bytes v = b # vli_bytes (v div 128)" using False hd by (simp add: vli_bytes.simps [of v])
    have n: "0 < n" using False Suc.prems(1) by (cases n) auto
    have d: "v div 128 < 128 ^ n" using Suc.prems(1) by (simp add: less_mult_imp_div_less mult.commute)
    have p7: "(2 :: nat) ^ (7 * (i + 1)) = 128 * 2 ^ (7 * i)" by (simp add: power_add)
    have "v mod 128 * 2 ^ (7 * i) \<le> 127 * 2 ^ (7 * i)" by (intro mult_le_mono1) simp
    then have a1: "unat acc1 < 2 ^ (7 * (i + 1))" unfolding p7 u1 using Suc.prems(3) by linarith
    have sum: "unat acc1 + v div 128 * 2 ^ (7 * (i + 1)) = unat acc + v * 2 ^ (7 * i)"
    proof -
      have "v * 2 ^ (7 * i) = (v mod 128 + v div 128 * 128) * 2 ^ (7 * i)" by simp
      then show ?thesis unfolding p7 u1 by (simp only: add_mult_distrib mult.assoc add.assoc)
    qed
    have "take (length (vli_bytes (v div 128))) (drop (at + 1) h) = vli_bytes (v div 128)"
    proof -
      have "drop at h = b # drop (at + 1) h" using at by (metis Cons_nth_drop_Suc Suc_eq_plus1)
      then show ?thesis using Suc.prems(5) tl by simp
    qed
    from Suc.IH [OF d n a1 _ this] sum Suc.prems(4,6) tl
    show ?thesis using step False by simp
  qed
qed simp

text \<open>
  The numbers of the xz headers: \<open>vli\<close> reads back every number below \<open>2 ^ 63\<close> from its encoding,
  and stops behind it. (round trip)
\<close>

lemma vli_reads_back:
  assumes "v < 2 ^ 63" "take (length (vli_bytes v)) (drop at h) = vli_bytes v" "at + length (vli_bytes v) \<le> end"
  shows "vli h at end = Some (of_nat v, at + length (vli_bytes v))"
proof -
  have "v < 128 ^ 9" using assms(1) by simp
  then obtain w where w: "vli_loop h end 9 0 at 0 = Some (w, at + length (vli_bytes v))" "unat w = v"
    using vli_loop_bytes [of v 9 0 0 at h "end"] assms by auto
  have "w = of_nat v" by (simp flip: w(2))
  then show ?thesis using w(1) by (simp add: vli_def)
qed

section \<open>The range decoder\<close>

lemma shift8:
  fixes c :: u32 and b :: u8
  assumes "unat c < 2 ^ 24"
  shows "unat (push_bit 8 c) = 256 * unat c" "unat (push_bit 8 c OR ucast b) = 256 * unat c + unat b"
proof -
  have p: "push_bit 8 c = 256 * c" by (simp add: push_bit_eq_mult)
  show u: "unat (push_bit 8 c) = 256 * unat c" unfolding p using assms by (simp add: unat_mult_small)
  have nb: "\<not> bit b n" if "8 \<le> n" for n using that bit_imp_le_length [of b n] by auto
  have "push_bit 8 c OR ucast b = push_bit 8 c + ucast b"
    by (rule disjunctive_add [symmetric]) (auto simp: bit_simps dest: nb)
  moreover have "unat (ucast b :: u32) = unat b" using unat_u8_bound [of b] by (simp add: unsigned_ucast_eq take_bit_nat_eq_self)
  ultimately show "unat (push_bit 8 c OR ucast b) = 256 * unat c + unat b"
    using u assms unat_u8_bound [of b] by (simp add: unat_add_small)
qed

lemma rc_norm_bounds:
  assumes f: "feeds io later" and s: "src_ok (inp s)" and r: "2 ^ 16 \<le> unat (rc_range s)"
  shows "gives (rc_norm io s) (\<lambda>t. 2 ^ 24 \<le> unat (rc_range t) \<and> (rc_code s < rc_range s \<longrightarrow> rc_code t < rc_range t))"
proof (cases "rc_range s < push_bit 24 1")
  case False
  then show ?thesis by (simp add: rc_norm_def word_nat)
next
  case True
  then have lt: "unat (rc_range s) < 2 ^ 24" by (simp add: word_nat)
  have "gives (byte_in io (s\<lparr>rc_range := push_bit 8 (rc_range s)\<rparr>) \<bind> (\<lambda>(b, s1). Some (s1\<lparr>rc_code := push_bit 8 (rc_code s1) OR ucast b\<rparr>)))
    (\<lambda>t. 2 ^ 24 \<le> unat (rc_range t) \<and> (rc_code s < rc_range s \<longrightarrow> rc_code t < rc_range t))"
  proof (rule gives_step [OF byte_in_spec [OF f]], goal_cases)
    case (2 b t)
    then have t: "rc_range t = push_bit 8 (rc_range s)" "rc_code t = rc_code s" by auto
    have "unat (push_bit 8 (rc_code s) OR ucast b) < 256 * unat (rc_range s)" if "rc_code s < rc_range s"
      using that shift8(2) [of "rc_code s" b] lt unat_u8_bound [of b] by (simp add: word_nat)
    then show ?case using r shift8(1) [OF lt] by (simp add: t word_nat)
  qed (use s in simp)
  then show ?thesis using True by (simp add: rc_norm_def)
qed

text \<open>
  C37. The range decoder's numbers stay in bounds: from a probability between 31 and 2017 and a range of
  at least \<open>2 ^ 24\<close>, a decoded bit leaves a probability between 31 and 2017 and a range of at least
  \<open>2 ^ 24\<close>, so one byte is enough to restore it, and the code stays below the range. (bounds)
\<close>
theorem bit_of_bounds:
  assumes "feeds io later" "src_ok (inp s)" "31 \<le> unat p" "unat p \<le> 2017" "2 ^ 24 \<le> unat (rc_range s)"
  shows "\<exists>b q t. bit_of io p s = Some ((b, q), t) \<and> b \<le> 1 \<and> 31 \<le> unat q \<and> unat q \<le> 2017 \<and>
    2 ^ 24 \<le> unat (rc_range t) \<and> (rc_code s < rc_range s \<longrightarrow> rc_code t < rc_range t)"
proof -
  let ?r = "unat (rc_range s)" and ?p = "unat p"
  define bound where "bound = drop_bit 11 (rc_range s) * ucast p"
  have up: "unat (ucast p :: u32) = ?p" using assms(4) by (simp add: unsigned_ucast_eq take_bit_nat_eq_self)
  have ud: "unat (drop_bit 11 (rc_range s)) = ?r div 2048" unfolding unat_drop_bit_eq by (simp add: drop_bit_eq_div)
  have le: "?r div 2048 * ?p \<le> ?r div 2048 * 2017" "8192 * 31 \<le> ?r div 2048 * ?p"
    using assms(3,4,5) by (intro mult_le_mono; simp)+
  have d: "?r div 2048 * 2048 \<le> ?r" "8192 \<le> ?r div 2048" using assms(5) by simp_all
  have ub: "unat bound = ?r div 2048 * ?p"
  proof -
    have "?r div 2048 * ?p < 2 ^ LENGTH(32)" using le(1) d(1) unat_bound [of "rc_range s"] by linarith
    then show ?thesis unfolding bound_def using unat_mult_small [of "drop_bit 11 (rc_range s)" "ucast p"] by (simp only: ud up)
  qed
  have b16: "2 ^ 16 \<le> unat bound" "unat bound < ?r" "2 ^ 16 \<le> ?r - unat bound" 
  proof -
    have "65536 \<le> y \<and> y < r \<and> 65536 \<le> r - y" if "y \<le> x * 2017" "8192 * 31 \<le> y" "x * 2048 \<le> r" "8192 \<le> x" for x y r :: nat
      using that by simp
    from this [OF le d] show "2 ^ 16 \<le> unat bound" "unat bound < ?r" "2 ^ 16 \<le> ?r - unat bound" unfolding ub by simp_all
  qed
  have rb: "unat (rc_range s - bound) = ?r - unat bound" using b16(2) by (intro unat_sub_le) simp
  have up16: "uint p = int ?p" by (rule uint_nat)
  show ?thesis
  proof (cases "rc_code s < bound")
    case True
    let ?s = "s\<lparr>rc_range := bound\<rparr>" and ?q = "word_of_int (uint p + drop_bit 5 (2048 - uint p)) :: u16"
    have e: "uint p + drop_bit 5 (2048 - uint p) = int (?p + (2048 - ?p) div 32)"
    proof -
      have "int x + drop_bit 5 (2048 - int x) = int (x + (2048 - x) div 32)" if "x \<le> 2048" for x :: nat
        using that by (simp add: drop_bit_eq_div zdiv_int of_nat_diff)
      from this [of ?p] assms(4) show ?thesis unfolding up16 by linarith
    qed
    have "unat (word_of_int (int x) :: u16) = x" if "x < 65536" for x using that by (simp add: unat_of_nat)
    from this [of "?p + (2048 - ?p) div 32"] have q: "unat ?q = ?p + (2048 - ?p) div 32" unfolding e using assms(4) by linarith
    have q31: "31 \<le> unat ?q \<and> unat ?q \<le> 2017" unfolding q using assms(3,4) by linarith
    obtain t where t: "rc_norm io ?s = Some t" "2 ^ 24 \<le> unat (rc_range t)" "rc_code t < rc_range t"
      using rc_norm_bounds [OF assms(1), of ?s] assms(2) b16(1) True by (auto simp: gives_iff)
    then show ?thesis using True q31 unfolding bit_of_def bound_def [symmetric] Let_def by simp
  next
    case False
    let ?s = "s\<lparr>rc_code := rc_code s - bound, rc_range := rc_range s - bound\<rparr>"
    have "unat (drop_bit 5 p) = ?p div 32" unfolding unat_drop_bit_eq by (simp add: drop_bit_eq_div)
    then have q: "unat (p - drop_bit 5 p) = ?p - ?p div 32" by (subst unat_sub_le) simp_all
    have q31: "31 \<le> unat (p - drop_bit 5 p) \<and> unat (p - drop_bit 5 p) \<le> 2017" unfolding q using assms(3,4) by linarith
    have c: "rc_code s < rc_range s \<longrightarrow> rc_code s - bound < rc_range s - bound"
      using False b16(2) rb by (auto simp: word_nat unat_sub_le not_less)
    obtain t where t: "rc_norm io ?s = Some t" "2 ^ 24 \<le> unat (rc_range t)" "rc_code s - bound < rc_range s - bound \<longrightarrow> rc_code t < rc_range t"
      using rc_norm_bounds [OF assms(1), of ?s] assms(2) b16(3) rb by (auto simp: gives_iff)
    then show ?thesis using False q31 c unfolding bit_of_def bound_def [symmetric] Let_def by auto
  qed
qed

theorem bit_of_bounds_witness:
  "\<exists>b q t. bit_of ram_host 1024 ((fresh [9])\<lparr>rc_range := 0x1000000\<rparr>) = Some ((b, q), t) \<and> unat q \<le> 2017 \<and> 2 ^ 24 \<le> unat (rc_range t)"
  using bit_of_bounds [OF ram_feeds, of "(fresh [9])\<lparr>rc_range := 0x1000000\<rparr>" 1024] ram_view(2) [of "[9]"]
  by (auto simp: fresh_def)

end
