(* ===== verification/Pty.thy ===== *)
theory Pty
  imports Arrays KString
begin

text \<open>
  Pseudo-terminals (\<open>src/modules/ipc/pty.c\<close>): the line discipline, the descriptors on both ends, the
  controls and the names. A queue is its C array with its length; an access outside it is
  \<^const>\<open>None\<close> or \<open>Fault\<close>. The kernel's services (signals, process ids, descriptors, memory, the
  scheduler) are the record \<open>kernel\<close>. Characters are bytes; an \<open>int\<close> that only travels through is
  kept as its 32 bits.
\<close>

section \<open>Data\<close>

abbreviation (input) PTYS :: nat where "PTYS \<equiv> 8"
abbreviation (input) QUEUE :: u32 where "QUEUE \<equiv> 4096"
abbreviation (input) LINE :: u32 where "LINE \<equiv> 256"
abbreviation (input) SLAVE :: u32 where "SLAVE \<equiv> 0x40000000"
abbreviation (input) O_NONBLOCK :: u32 where "O_NONBLOCK \<equiv> 0x800"
abbreviation (input) MOD_MARK :: u32 where "MOD_MARK \<equiv> 0xFFFFFFF7"

abbreviation (input) SIGHUP :: u32 where "SIGHUP \<equiv> 1"
abbreviation (input) SIGINT :: u32 where "SIGINT \<equiv> 2"
abbreviation (input) SIGQUIT :: u32 where "SIGQUIT \<equiv> 3"
abbreviation (input) SIGWINCH :: u32 where "SIGWINCH \<equiv> 28"

abbreviation (input) ICRNL :: u32 where "ICRNL \<equiv> 0x100"
abbreviation (input) IXON :: u32 where "IXON \<equiv> 0x400"
abbreviation (input) OPOST :: u32 where "OPOST \<equiv> 0x1"
abbreviation (input) ONLCR :: u32 where "ONLCR \<equiv> 0x4"
abbreviation (input) ISIG :: u32 where "ISIG \<equiv> 0x1"
abbreviation (input) ICANON :: u32 where "ICANON \<equiv> 0x2"
abbreviation (input) ECHO :: u32 where "ECHO \<equiv> 0x8"
abbreviation (input) ECHOE :: u32 where "ECHOE \<equiv> 0x10"
abbreviation (input) ECHOK :: u32 where "ECHOK \<equiv> 0x20"
abbreviation (input) ECHOCTL :: u32 where "ECHOCTL \<equiv> 0x200"
abbreviation (input) ECHOKE :: u32 where "ECHOKE \<equiv> 0x800"
abbreviation (input) IEXTEN :: u32 where "IEXTEN \<equiv> 0x8000"

abbreviation (input) VINTR :: nat where "VINTR \<equiv> 0"
abbreviation (input) VQUIT :: nat where "VQUIT \<equiv> 1"
abbreviation (input) VERASE :: nat where "VERASE \<equiv> 2"
abbreviation (input) VKILL :: nat where "VKILL \<equiv> 3"
abbreviation (input) VEOF :: nat where "VEOF \<equiv> 4"
abbreviation (input) VMIN :: nat where "VMIN \<equiv> 6"
abbreviation (input) VEOL :: nat where "VEOL \<equiv> 11"
abbreviation (input) VWERASE :: nat where "VWERASE \<equiv> 14"

abbreviation (input) has :: "u32 \<Rightarrow> u32 \<Rightarrow> bool" where "has f m \<equiv> f AND m \<noteq> 0"

datatype errno = EIO | EAGAIN | EINTR | EFAULT | ENOTTY | ENOENT | ENOSPC | EBUSY | EBADF | EMFILE | EINVAL | ENFILE
  | EPROTONOSUPPORT | EISCONN | ENOTSOCK | ENOTCONN | EOPNOTSUPP | EADDRINUSE | ECONNREFUSED
  | EPIPE | EMSGSIZE | ENOBUFS | EAFNOSUPPORT

primrec errno_value :: "errno \<Rightarrow> nat" where
  "errno_value EIO = 5"
| "errno_value EAGAIN = 11"
| "errno_value EINTR = 4"
| "errno_value EFAULT = 14"
| "errno_value ENOTTY = 25"
| "errno_value ENOENT = 2"
| "errno_value ENOSPC = 28"
| "errno_value EBUSY = 16"
| "errno_value EBADF = 9"
| "errno_value EMFILE = 24"
| "errno_value EINVAL = 22"
| "errno_value ENFILE = 23"
| "errno_value EPROTONOSUPPORT = 93"
| "errno_value EISCONN = 106"
| "errno_value ENOTSOCK = 88"
| "errno_value ENOTCONN = 107"
| "errno_value EOPNOTSUPP = 95"
| "errno_value EADDRINUSE = 98"
| "errno_value ECONNREFUSED = 111"
| "errno_value EPIPE = 32"
| "errno_value EMSGSIZE = 90"
| "errno_value ENOBUFS = 105"
| "errno_value EAFNOSUPPORT = 97"

definition ERR :: "errno \<Rightarrow> u64" where
  "ERR e = - of_nat (errno_value e)"

record termios =
  iflag :: u32
  oflag :: u32
  cflag :: u32
  lflag :: u32
  discipline :: u8
  cc :: "u8 list"
  ispeed :: u32
  ospeed :: u32

record winsize =
  rows :: u16
  cols :: u16
  xpixel :: u16
  ypixel :: u16

record pty =
  masters :: u32
  slaves :: u32
  opened :: bool
  locked :: bool
  eof :: bool
  pgrp :: u32
  sid :: u32
  tio :: termios
  wsz :: winsize
  in_len :: u32
  out_len :: u32
  line_len :: u32
  in_q :: "u8 list"
  out_q :: "u8 list"
  line_q :: "u8 list"

record handle =
  fd_used :: u32
  fd_writer :: u32
  fd_start :: u32
  fd_size :: u32
  fd_offset :: u32
  fd_folder :: u32
  fd_ofd :: u32

text \<open>
  The module's static variables, the memory of the programs that call it, and \<open>'k\<close>, whatever else
  the kernel has.
\<close>

record 'k tty =
  ptys :: "pty option list"
  files_slot :: u32
  umem :: memory
  kern :: 'k

record 'k kernel =
  signal_pgrp :: "u32 \<Rightarrow> u32 \<Rightarrow> 'k \<Rightarrow> 'k"
  process_ids :: "'k \<Rightarrow> u32 \<times> u32 \<times> u32"
  user_range :: "u64 \<Rightarrow> u64 \<Rightarrow> 'k \<Rightarrow> bool"
  give_handle :: "handle \<Rightarrow> 'k \<Rightarrow> u64 \<times> 'k"
  heap_alloc :: "u64 \<Rightarrow> 'k \<Rightarrow> bool \<times> 'k"
  heap_free :: "'k \<Rightarrow> 'k"
  interrupt_check :: "'k \<Rightarrow> bool \<times> 'k"
  thread_yield :: "'k tty \<Rightarrow> 'k tty"
  files_register :: "bool \<Rightarrow> u32 \<Rightarrow> 'k \<Rightarrow> u32 \<times> 'k"

definition pty_of :: "handle \<Rightarrow> 'k tty \<Rightarrow> pty option" where
  "pty_of h s =
    (if 1 \<le> fd_folder h \<and> fd_folder h \<le> of_nat PTYS then ptys s ! unat (fd_folder h - 1) else None)"

definition set_pty :: "handle \<Rightarrow> pty option \<Rightarrow> 'k tty \<Rightarrow> 'k tty" where
  "set_pty h p s = s\<lparr>ptys := (ptys s)[unat (fd_folder h - 1) := p]\<rparr>"

definition is_slave :: "handle \<Rightarrow> bool" where
  "is_slave h \<longleftrightarrow> fd_offset h AND SLAVE \<noteq> 0"

text \<open>A program's memory: bytes read at an address, and bytes put there.\<close>

definition peek :: "memory \<Rightarrow> u64 \<Rightarrow> nat \<Rightarrow> u8 list" where
  "peek m a n = map (\<lambda>i. m (a + of_nat i)) [0..<n]"

definition poke :: "memory \<Rightarrow> u64 \<Rightarrow> u8 list \<Rightarrow> memory" where
  "poke m a bs = (\<lambda>x. if unat (x - a) < length bs then bs ! unat (x - a) else m x)"

lemma length_peek [simp]: "length (peek m a n) = n"
  by (simp add: peek_def)

lemma peek_poke: "length bs < 2 ^ 64 \<Longrightarrow> peek (poke m a bs) a (length bs) = bs"
  by (rule nth_equalityI) (simp_all add: peek_def poke_def unsigned_of_nat take_bit_nat_eq_self)

section \<open>The line discipline\<close>

definition out_put :: "u8 \<Rightarrow> pty \<Rightarrow> pty option" where
  "out_put c p =
    (if out_len p < QUEUE
     then do { q \<leftarrow> wr (out_q p) (unat (out_len p)) c; Some (p\<lparr>out_q := q, out_len := out_len p + 1\<rparr>) }
     else Some p)"

definition output_char :: "u8 \<Rightarrow> pty \<Rightarrow> pty option" where
  "output_char c p = do {
     p1 \<leftarrow> (if has (oflag (tio p)) OPOST \<and> has (oflag (tio p)) ONLCR \<and> c = 10 then out_put 13 p else Some p);
     out_put c p1
   }"

definition echo :: "u8 \<Rightarrow> pty \<Rightarrow> pty option" where
  "echo c p =
    (if \<not> has (lflag (tio p)) ECHO then Some p
     else if has (lflag (tio p)) ECHOCTL \<and> c < 0x20 \<and> c \<noteq> 10 \<and> c \<noteq> 9
     then do { p1 \<leftarrow> output_char 0x5E p; output_char (c + 0x40) p1 }
     else output_char c p)"

definition erase_one :: "pty \<Rightarrow> pty option" where
  "erase_one p =
    (if line_len p = 0 then Some p
     else let p1 = p\<lparr>line_len := line_len p - 1\<rparr>
          in if has (lflag (tio p)) ECHO \<and> has (lflag (tio p)) ECHOE
             then do { p2 \<leftarrow> output_char 8 p1; p3 \<leftarrow> output_char 0x20 p2; output_char 8 p3 }
             else Some p1)"

definition line_done :: "pty \<Rightarrow> pty option" where
  "line_done p =
    (let n = (if line_len p < QUEUE - in_len p then line_len p else QUEUE - in_len p)
     in do {
       bs \<leftarrow> slice (line_q p) 0 (unat n);
       q \<leftarrow> blit (in_q p) (unat (in_len p)) bs;
       Some (p\<lparr>in_q := q, in_len := in_len p + n, line_len := 0\<rparr>)
     })"

lemma out_put_line_len: "out_put c p = Some q \<Longrightarrow> line_len q = line_len p"
  by (auto simp: out_put_def split: if_splits bind_splits)

lemma output_char_line_len: "output_char c p = Some q \<Longrightarrow> line_len q = line_len p"
  by (auto simp: output_char_def out_put_line_len split: if_splits bind_splits)

lemma erase_one_line_len: "erase_one p = Some q \<Longrightarrow> line_len q = (if line_len p = 0 then 0 else line_len p - 1)"
  by (auto simp: erase_one_def Let_def output_char_line_len split: if_splits bind_splits)

text \<open>\<open>while (p->line_len > 0) erase_one(p)\<close>, and the same while the last character passes a test.\<close>

function erase_all :: "pty \<Rightarrow> pty option" where
  "erase_all p = (if 0 < line_len p then do { q \<leftarrow> erase_one p; erase_all q } else Some p)"
  by pat_completeness auto
termination
  by (relation "measure (\<lambda>p. unat (line_len p))") (auto simp: erase_one_line_len unat_pred_less)

function erase_while :: "(u8 \<Rightarrow> bool) \<Rightarrow> pty \<Rightarrow> pty option" where
  "erase_while test p =
    (if 0 < line_len p
     then do {
       c \<leftarrow> rd (line_q p) (unat (line_len p - 1));
       if test c then do { q \<leftarrow> erase_one p; erase_while test q } else Some p
     }
     else Some p)"
  by pat_completeness auto
termination
  by (relation "measure (\<lambda>(test, p). unat (line_len p))") (auto simp: erase_one_line_len unat_pred_less)

declare erase_all.simps [simp del] erase_while.simps [simp del]

definition add_char :: "u8 \<Rightarrow> pty \<Rightarrow> pty option" where
  "add_char c p = do {
     q \<leftarrow> wr (line_q p) (unat (line_len p)) c;
     Some (p\<lparr>line_q := q, line_len := line_len p + 1\<rparr>)
   }"

text \<open>The characters of a line being gathered: \<open>input\<close> from its test of \<open>VERASE\<close> on.\<close>

definition edit :: "u8 \<Rightarrow> pty \<Rightarrow> pty option" where
  "edit c p = (let k = cc (tio p) in
    if c = k ! VERASE \<or> c = 8 then erase_one p
    else if c = k ! VKILL then erase_all p
    else if c = k ! VWERASE then do { p1 \<leftarrow> erase_while (\<lambda>x. x = 0x20) p; erase_while (\<lambda>x. x \<noteq> 0x20) p1 }
    else if c = k ! VEOF \<and> k ! VEOF \<noteq> 0 then line_done (p\<lparr>eof := (line_len p = 0)\<rparr>)
    else if c = 10 \<or> (k ! VEOL \<noteq> 0 \<and> c = k ! VEOL)
    then do {
      p1 \<leftarrow> (if line_len p < LINE then add_char c p else Some p);
      p2 \<leftarrow> echo c p1;
      line_done p2
    }
    else if line_len p < LINE - 1 then do { p1 \<leftarrow> add_char c p; echo c p1 }
    else Some p)"

definition input :: "'k kernel \<Rightarrow> u8 \<Rightarrow> pty \<times> 'k \<Rightarrow> (pty \<times> 'k) option" where
  "input K typed st = (case st of (p, k) \<Rightarrow>
    let c = (if typed = 13 \<and> has (iflag (tio p)) ICRNL then 10 else typed);
        chars = cc (tio p)
    in if has (lflag (tio p)) ISIG \<and> (c = chars ! VINTR \<or> c = chars ! VQUIT)
       then do {
         p1 \<leftarrow> echo c p;
         Some (p1\<lparr>line_len := 0, in_len := 0\<rparr>,
               signal_pgrp K (pgrp p1) (if c = chars ! VINTR then SIGINT else SIGQUIT) k)
       }
       else if \<not> has (lflag (tio p)) ICANON
       then do {
         p1 \<leftarrow> (if in_len p < QUEUE
               then do { q \<leftarrow> wr (in_q p) (unat (in_len p)) c; Some (p\<lparr>in_q := q, in_len := in_len p + 1\<rparr>) }
               else Some p);
         p2 \<leftarrow> echo c p1;
         Some (p2, k)
       }
       else do { p1 \<leftarrow> edit c p; Some (p1, k) })"

section \<open>The descriptors\<close>

text \<open>
  What a call that may wait comes to: its value, an access the code must never make, or still waiting
  after the given number of yields.
\<close>

datatype ('a, 's) outcome = Ended 'a 's | Fault | Waits

primrec proceed :: "('a, 's) outcome \<Rightarrow> ('a \<Rightarrow> 's \<Rightarrow> ('b, 's) outcome) \<Rightarrow> ('b, 's) outcome" where
  "proceed (Ended a s) f = f a s"
| "proceed Fault f = Fault"
| "proceed Waits f = Waits"

definition ended :: "('a \<times> 's) option \<Rightarrow> ('a, 's) outcome" where
  "ended r = (case r of None \<Rightarrow> Fault | Some (a, s) \<Rightarrow> Ended a s)"

primrec wait_for :: "'k kernel \<Rightarrow> nat \<Rightarrow> handle \<Rightarrow> (pty \<Rightarrow> bool) \<Rightarrow> 'k tty \<Rightarrow> (u64, 'k tty) outcome" where
  "wait_for K 0 h test s = Waits"
| "wait_for K (Suc n) h test s =
    (case pty_of h s of
       None \<Rightarrow> Fault
     | Some p \<Rightarrow>
         if test p then Ended 0 s
         else if has (fd_offset h) O_NONBLOCK then Ended (ERR EAGAIN) s
         else let (hit, k) = interrupt_check K (kern s)
              in if hit then Ended (ERR EINTR) (s\<lparr>kern := k\<rparr>)
                 else wait_for K n h test (thread_yield K (s\<lparr>kern := k\<rparr>)))"

definition master_can_read :: "pty \<Rightarrow> bool" where
  "master_can_read p \<longleftrightarrow> 0 < out_len p \<or> (opened p \<and> slaves p = 0)"

definition slave_can_read :: "pty \<Rightarrow> bool" where
  "slave_can_read p \<longleftrightarrow> 0 < in_len p \<or> eof p \<or> masters p = 0 \<or>
    (\<not> has (lflag (tio p)) ICANON \<and> cc (tio p) ! VMIN = 0)"

definition slave_can_write :: "pty \<Rightarrow> bool" where
  "slave_can_write p \<longleftrightarrow> out_len p < QUEUE \<or> masters p = 0"

text \<open>\<open>take\<close>: the count taken, the queue and its length after, and the memory with the bytes in it.\<close>

definition take_queue :: "u8 list \<Rightarrow> u32 \<Rightarrow> u64 \<Rightarrow> u64 \<Rightarrow> memory \<Rightarrow> (u64 \<times> u8 list \<times> u32 \<times> memory) option" where
  "take_queue q len buf count m =
    (let n = (if ucast len < count then ucast len else count);
         len1 = len - ucast n
     in do {
       bs \<leftarrow> slice q 0 (unat n);
       tail \<leftarrow> slice q (unat n) (unat len1);
       q1 \<leftarrow> blit q 0 tail;
       Some (n, q1, len1, poke m buf bs)
     })"

definition take_out :: "handle \<Rightarrow> u64 \<Rightarrow> u64 \<Rightarrow> pty \<Rightarrow> 'k tty \<Rightarrow> (u64 \<times> 'k tty) option" where
  "take_out h buf count p s = do {
     (n, q, len, m) \<leftarrow> take_queue (out_q p) (out_len p) buf count (umem s);
     Some (n, set_pty h (Some (p\<lparr>out_q := q, out_len := len\<rparr>)) (s\<lparr>umem := m\<rparr>))
   }"

definition take_in :: "handle \<Rightarrow> u64 \<Rightarrow> u64 \<Rightarrow> pty \<Rightarrow> 'k tty \<Rightarrow> (u64 \<times> 'k tty) option" where
  "take_in h buf count p s = do {
     (n, q, len, m) \<leftarrow> take_queue (in_q p) (in_len p) buf count (umem s);
     Some (n, set_pty h (Some (p\<lparr>in_q := q, in_len := len\<rparr>)) (s\<lparr>umem := m\<rparr>))
   }"

text \<open>The place of the first newline from \<open>end\<close> on, or the length of the queue.\<close>

function line_end :: "u8 list \<Rightarrow> u32 \<Rightarrow> u32 \<Rightarrow> u32 option" where
  "line_end q len e =
    (if e < len then do { c \<leftarrow> rd q (unat e); if c \<noteq> 10 then line_end q len (e + 1) else Some e } else Some e)"
  by pat_completeness auto
termination
proof (relation "measure (\<lambda>(q, len, e). unat (len - e))"; clarsimp)
  fix len e :: u32
  assume "e < len"
  then have "len - e \<noteq> 0" by auto
  then have "unat (len - e - 1) < unat (len - e)" by (rule unat_pred_less)
  then show "unat (len - (e + 1)) < unat (len - e)" by (simp add: algebra_simps)
qed

declare line_end.simps [simp del]

definition pty_read :: "'k kernel \<Rightarrow> nat \<Rightarrow> handle \<Rightarrow> u64 \<Rightarrow> u64 \<Rightarrow> 'k tty \<Rightarrow> (u64, 'k tty) outcome" where
  "pty_read K fuel h buf count s =
    (if pty_of h s = None then Ended (ERR EIO) s
     else if \<not> is_slave h
     then proceed (wait_for K fuel h master_can_read s) (\<lambda>err s1.
       if err \<noteq> 0 then Ended err s1
       else case pty_of h s1 of
         None \<Rightarrow> Fault
       | Some p \<Rightarrow> if out_len p = 0 then Ended (ERR EIO) s1 else ended (take_out h buf count p s1))
     else proceed (wait_for K fuel h slave_can_read s) (\<lambda>err s1.
       if err \<noteq> 0 then Ended err s1
       else case pty_of h s1 of
         None \<Rightarrow> Fault
       | Some p \<Rightarrow>
           if in_len p = 0 then Ended 0 (set_pty h (Some (p\<lparr>eof := False\<rparr>)) s1)
           else ended (do {
             upto \<leftarrow> (if has (lflag (tio p)) ICANON
                      then do {
                        e \<leftarrow> line_end (in_q p) (in_len p) 0;
                        Some (if e < in_len p \<and> ucast (e + 1) < count then ucast (e + 1) else count)
                      }
                      else Some count);
             take_in h buf upto p s1
           })))"

text \<open>
  A master's write types every character; a slave's puts its text out, waiting for room. \<open>i\<close> counts
  what has gone and \<open>n\<close> what is left.
\<close>

primrec slave_write :: "'k kernel \<Rightarrow> nat \<Rightarrow> handle \<Rightarrow> u64 \<Rightarrow> nat \<Rightarrow> u64 \<Rightarrow> 'k tty \<Rightarrow> (u64, 'k tty) outcome" where
  "slave_write K fuel h buf 0 i s = Ended i s"
| "slave_write K fuel h buf (Suc n) i s =
    (case pty_of h s of
       None \<Rightarrow> Fault
     | Some p0 \<Rightarrow>
         proceed (if QUEUE < out_len p0 + 2 then wait_for K fuel h slave_can_write s else Ended 0 s) (\<lambda>err s1.
           case pty_of h s1 of
             None \<Rightarrow> Fault
           | Some p \<Rightarrow>
               if err \<noteq> 0 \<or> masters p = 0
               then Ended (if 0 < i then i else if masters p = 0 then ERR EIO else err) s1
               else case output_char (umem s1 (buf + i)) p of
                 None \<Rightarrow> Fault
               | Some q \<Rightarrow> slave_write K fuel h buf n (i + 1) (set_pty h (Some q) s1)))"

definition pty_write :: "'k kernel \<Rightarrow> nat \<Rightarrow> handle \<Rightarrow> u64 \<Rightarrow> u64 \<Rightarrow> 'k tty \<Rightarrow> (u64, 'k tty) outcome" where
  "pty_write K fuel h buf count s =
    (case pty_of h s of
       None \<Rightarrow> Ended (ERR EIO) s
     | Some p \<Rightarrow>
         if \<not> is_slave h
         then ended (do {
           (q, k) \<leftarrow> for_each [0..<unat count] (\<lambda>i. input K (umem s (buf + of_nat i))) (p, kern s);
           Some (count, set_pty h (Some q) (s\<lparr>kern := k\<rparr>))
         })
         else slave_write K fuel h buf (unat count) 0 s)"

abbreviation (input) NET_IN :: u32 where "NET_IN \<equiv> 1"
abbreviation (input) NET_OUT :: u32 where "NET_OUT \<equiv> 2"
abbreviation (input) NET_ERR :: u32 where "NET_ERR \<equiv> 4"
abbreviation (input) NET_HUP :: u32 where "NET_HUP \<equiv> 8"

definition pty_ready :: "handle \<Rightarrow> 'k tty \<Rightarrow> u32" where
  "pty_ready h s =
    (case pty_of h s of
       None \<Rightarrow> NET_ERR
     | Some p \<Rightarrow>
         if \<not> is_slave h
         then (if master_can_read p then NET_IN else 0) OR NET_OUT OR
              (if opened p \<and> slaves p = 0 then NET_HUP else 0)
         else (if 0 < in_len p \<or> eof p \<or> masters p = 0 then NET_IN else 0) OR
              (if out_len p < QUEUE then NET_OUT else 0) OR (if masters p = 0 then NET_HUP else 0))"

definition pty_hold :: "handle \<Rightarrow> 'k tty \<Rightarrow> 'k tty" where
  "pty_hold h s =
    (case pty_of h s of
       None \<Rightarrow> s
     | Some p \<Rightarrow>
         set_pty h (Some (if is_slave h then p\<lparr>slaves := slaves p + 1\<rparr> else p\<lparr>masters := masters p + 1\<rparr>)) s)"

definition pty_drop :: "'k kernel \<Rightarrow> handle \<Rightarrow> 'k tty \<Rightarrow> 'k tty" where
  "pty_drop K h s =
    (case pty_of h s of
       None \<Rightarrow> s
     | Some p \<Rightarrow>
         let n = (if is_slave h then slaves p else masters p);
             p1 = (if 0 < n then if is_slave h then p\<lparr>slaves := n - 1\<rparr> else p\<lparr>masters := n - 1\<rparr> else p);
             s1 = (if 0 < n \<and> n - 1 = 0 \<and> \<not> is_slave h then s\<lparr>kern := signal_pgrp K (pgrp p1) SIGHUP (kern s)\<rparr> else s)
         in if masters p1 = 0 \<and> slaves p1 = 0
            then set_pty h None (s1\<lparr>kern := heap_free K (kern s1)\<rparr>)
            else set_pty h (Some p1) s1)"

text \<open>What \<open>stat\<close> says: the mode and the device number.\<close>

definition pty_stat :: "handle \<Rightarrow> u32 \<times> u32" where
  "pty_stat h = (0x2000 OR 0x190, if is_slave h then 0x8800 OR (fd_folder h - 1) else 0x0502)"

section \<open>Controls\<close>

abbreviation (input) TCGETS :: u64 where "TCGETS \<equiv> 0x5401"
abbreviation (input) TCSETS :: u64 where "TCSETS \<equiv> 0x5402"
abbreviation (input) TCSETSW :: u64 where "TCSETSW \<equiv> 0x5403"
abbreviation (input) TCSETSF :: u64 where "TCSETSF \<equiv> 0x5404"
abbreviation (input) TCSBRK :: u64 where "TCSBRK \<equiv> 0x5409"
abbreviation (input) TCXONC :: u64 where "TCXONC \<equiv> 0x540A"
abbreviation (input) TCFLSH :: u64 where "TCFLSH \<equiv> 0x540B"
abbreviation (input) TIOCSCTTY :: u64 where "TIOCSCTTY \<equiv> 0x540E"
abbreviation (input) TIOCGPGRP :: u64 where "TIOCGPGRP \<equiv> 0x540F"
abbreviation (input) TIOCSPGRP :: u64 where "TIOCSPGRP \<equiv> 0x5410"
abbreviation (input) TIOCOUTQ :: u64 where "TIOCOUTQ \<equiv> 0x5411"
abbreviation (input) TIOCGWINSZ :: u64 where "TIOCGWINSZ \<equiv> 0x5413"
abbreviation (input) TIOCSWINSZ :: u64 where "TIOCSWINSZ \<equiv> 0x5414"
abbreviation (input) FIONREAD :: u64 where "FIONREAD \<equiv> 0x541B"
abbreviation (input) TIOCNOTTY :: u64 where "TIOCNOTTY \<equiv> 0x5422"
abbreviation (input) TIOCGSID :: u64 where "TIOCGSID \<equiv> 0x5429"
abbreviation (input) TCGETS2 :: u64 where "TCGETS2 \<equiv> 0x802C542A"
abbreviation (input) TCSETS2 :: u64 where "TCSETS2 \<equiv> 0x402C542B"
abbreviation (input) TCSETSW2 :: u64 where "TCSETSW2 \<equiv> 0x402C542C"
abbreviation (input) TCSETSF2 :: u64 where "TCSETSF2 \<equiv> 0x402C542D"
abbreviation (input) TIOCGPTN :: u64 where "TIOCGPTN \<equiv> 0x80045430"
abbreviation (input) TIOCSPTLCK :: u64 where "TIOCSPTLCK \<equiv> 0x40045431"
abbreviation (input) TIOCGPTLCK :: u64 where "TIOCGPTLCK \<equiv> 0x80045439"
abbreviation (input) TIOCGPTPEER :: u64 where "TIOCGPTPEER \<equiv> 0x5441"

text \<open>The two structures as the programs' memory has them: 44 bytes and 8.\<close>

definition termios_bytes :: "termios \<Rightarrow> u8 list" where
  "termios_bytes t =
    le_bytes 4 (unat (iflag t)) @ le_bytes 4 (unat (oflag t)) @ le_bytes 4 (unat (cflag t)) @
    le_bytes 4 (unat (lflag t)) @ [discipline t] @ cc t @
    le_bytes 4 (unat (ispeed t)) @ le_bytes 4 (unat (ospeed t))"

definition le_at :: "u8 list \<Rightarrow> nat \<Rightarrow> nat \<Rightarrow> nat" where
  "le_at bs i n = le_val (take n (drop i bs))"

definition termios_of :: "u8 list \<Rightarrow> termios" where
  "termios_of bs =
    \<lparr>iflag = of_nat (le_at bs 0 4), oflag = of_nat (le_at bs 4 4), cflag = of_nat (le_at bs 8 4),
     lflag = of_nat (le_at bs 12 4), discipline = bs ! 16, cc = take 19 (drop 17 bs),
     ispeed = of_nat (le_at bs 36 4), ospeed = of_nat (le_at bs 40 4)\<rparr>"

definition winsize_bytes :: "winsize \<Rightarrow> u8 list" where
  "winsize_bytes w =
    le_bytes 2 (unat (rows w)) @ le_bytes 2 (unat (cols w)) @ le_bytes 2 (unat (xpixel w)) @ le_bytes 2 (unat (ypixel w))"

definition winsize_of :: "u8 list \<Rightarrow> winsize" where
  "winsize_of bs =
    \<lparr>rows = of_nat (le_at bs 0 2), cols = of_nat (le_at bs 2 2), xpixel = of_nat (le_at bs 4 2), ypixel = of_nat (le_at bs 6 2)\<rparr>"

definition put_int :: "'k kernel \<Rightarrow> u64 \<Rightarrow> u32 \<Rightarrow> 'k tty \<Rightarrow> u64 \<times> 'k tty" where
  "put_int K out value s =
    (if \<not> user_range K out 4 (kern s) then (ERR EFAULT, s)
     else (0, s\<lparr>umem := poke (umem s) out (le_bytes 4 (unat value))\<rparr>))"

definition int_at :: "u64 \<Rightarrow> 'k tty \<Rightarrow> u32" where
  "int_at a s = of_nat (le_val (peek (umem s) a 4))"

definition slave_handle :: "nat \<Rightarrow> u64 \<Rightarrow> 'k tty \<Rightarrow> handle" where
  "slave_handle n flags s =
    \<lparr>fd_used = 0, fd_writer = 0, fd_start = MOD_MARK, fd_size = files_slot s,
     fd_offset = SLAVE OR (ucast flags AND O_NONBLOCK), fd_folder = of_nat n + 1, fd_ofd = 0\<rparr>"

definition slave_open :: "'k kernel \<Rightarrow> nat \<Rightarrow> u64 \<Rightarrow> 'k tty \<Rightarrow> u64 \<times> 'k tty" where
  "slave_open K n flags s =
    (case if n < PTYS then ptys s ! n else None of
       None \<Rightarrow> (ERR ENOENT, s)
     | Some p \<Rightarrow>
         if locked p then (ERR EIO, s)
         else let (fd, k) = give_handle K (slave_handle n flags s) (kern s);
                  (pid, pg, se) = process_ids K k;
                  p1 = p\<lparr>slaves := slaves p + 1, opened := True\<rparr>;
                  p2 = (if sid p = 0 then p1\<lparr>sid := se, pgrp := pg\<rparr> else p1)
              in if 0 \<le> sint fd then (fd, s\<lparr>kern := k, ptys := (ptys s)[n := Some p2]\<rparr>)
                 else (fd, s\<lparr>kern := k\<rparr>))"

text \<open>The settings taken from a program, and what follows from them.\<close>

definition set_termios :: "u64 \<Rightarrow> u8 list \<Rightarrow> pty \<Rightarrow> pty option" where
  "set_termios request bs p =
    (let p1 = p\<lparr>tio := termios_of (bs @ drop (length bs) (termios_bytes (tio p)))\<rparr>;
         p2 = (if request = TCSETSF \<or> request = TCSETSF2 then p1\<lparr>in_len := 0, line_len := 0\<rparr> else p1)
     in if \<not> has (lflag (tio p2)) ICANON \<and> 0 < line_len p2 then line_done p2 else Some p2)"

definition pty_ioctl :: "'k kernel \<Rightarrow> handle \<Rightarrow> u64 \<Rightarrow> u64 \<Rightarrow> 'k tty \<Rightarrow> (u64 \<times> 'k tty) option" where
  "pty_ioctl K h request arg s =
    (case pty_of h s of
       None \<Rightarrow> Some (ERR EIO, s)
     | Some p \<Rightarrow>
       if request = TCGETS \<or> request = TCGETS2
       then let size = (if request = TCGETS then 36 else 44)
            in if \<not> user_range K arg size (kern s) then Some (ERR EFAULT, s)
               else do { bs \<leftarrow> slice (termios_bytes (tio p)) 0 (unat size); Some (0, s\<lparr>umem := poke (umem s) arg bs\<rparr>) }
       else if request \<in> {TCSETS, TCSETSW, TCSETSF, TCSETS2, TCSETSW2, TCSETSF2}
       then let size = (if request < TCGETS2 then 36 else 44)
            in if \<not> user_range K arg size (kern s) then Some (ERR EFAULT, s)
               else do { q \<leftarrow> set_termios request (peek (umem s) arg (unat size)) p; Some (0, set_pty h (Some q) s) }
       else if request = TIOCGWINSZ
       then if \<not> user_range K arg 8 (kern s) then Some (ERR EFAULT, s)
            else Some (0, s\<lparr>umem := poke (umem s) arg (winsize_bytes (wsz p))\<rparr>)
       else if request = TIOCSWINSZ
       then if \<not> user_range K arg 8 (kern s) then Some (ERR EFAULT, s)
            else Some (0, set_pty h (Some (p\<lparr>wsz := winsize_of (peek (umem s) arg 8)\<rparr>))
                            (s\<lparr>kern := signal_pgrp K (pgrp p) SIGWINCH (kern s)\<rparr>))
       else if request = TIOCSCTTY
       then let (pid, pg, se) = process_ids K (kern s)
            in Some (0, set_pty h (Some (p\<lparr>sid := se, pgrp := pg\<rparr>)) s)
       else if request = TIOCGPGRP then Some (put_int K arg (pgrp p) s)
       else if request = TIOCSPGRP
       then if \<not> user_range K arg 4 (kern s) then Some (ERR EFAULT, s)
            else Some (0, set_pty h (Some (p\<lparr>pgrp := int_at arg s\<rparr>)) s)
       else if request = TIOCGSID then Some (put_int K arg (sid p) s)
       else if request = FIONREAD then Some (put_int K arg (if is_slave h then in_len p else out_len p) s)
       else if request = TIOCOUTQ then Some (put_int K arg 0 s)
       else if request = TCFLSH
       then Some (0, if arg = 0 \<or> arg = 2 then set_pty h (Some (p\<lparr>in_len := 0, line_len := 0\<rparr>)) s else s)
       else if request \<in> {TCSBRK, TCXONC, TIOCNOTTY} then Some (0, s)
       else if request = TIOCGPTN
       then Some (if is_slave h then (ERR ENOTTY, s) else put_int K arg (fd_folder h - 1) s)
       else if request = TIOCSPTLCK
       then if is_slave h \<or> \<not> user_range K arg 4 (kern s) then Some (ERR (if is_slave h then ENOTTY else EFAULT), s)
            else Some (0, set_pty h (Some (p\<lparr>locked := (int_at arg s \<noteq> 0)\<rparr>)) s)
       else if request = TIOCGPTLCK
       then Some (if is_slave h then (ERR ENOTTY, s) else put_int K arg (of_bool (locked p)) s)
       else if request = TIOCGPTPEER
       then Some (if is_slave h then (ERR ENOTTY, s) else slave_open K (unat (fd_folder h - 1)) arg s)
       else Some (ERR ENOTTY, s))"

section \<open>Names\<close>

text \<open>The digits of a name read as a number, which wraps at 32 bits, and what follows them.\<close>

fun digits :: "u32 \<Rightarrow> u8 list \<Rightarrow> u32 \<times> u8 list" where
  "digits n [] = (n, [])"
| "digits n (c # cs) = (if 0x30 \<le> c \<and> c \<le> 0x39 then digits (n * 10 + ucast (c - 0x30)) cs else (n, c # cs))"

definition number :: "u8 list \<Rightarrow> nat" where
  "number name =
    (if take 4 name \<noteq> [0x70, 0x74, 0x73, 0x2F] \<or> drop 4 name = [] then PTYS
     else let (n, tail) = digits 0 (drop 4 name) in if tail = [] \<and> n < of_nat PTYS then unat n else PTYS)"

definition ptmx :: "u8 list" where
  "ptmx = [0x70, 0x74, 0x6D, 0x78]"

text \<open>Linux's defaults: a cooked line, echoed, Ctrl-C a signal.\<close>

definition default_termios :: termios where
  "default_termios =
    \<lparr>iflag = ICRNL OR IXON, oflag = OPOST OR ONLCR, cflag = 0x4BF,
     lflag = ISIG OR ICANON OR ECHO OR ECHOE OR ECHOK OR ECHOCTL OR ECHOKE OR IEXTEN,
     discipline = 0,
     cc = [3, 0x1C, 0x7F, 0x15, 4, 0, 1, 0, 0x11, 0x13, 0x1A, 0, 0x12, 0x0F, 0x17, 0x16, 0, 0, 0],
     ispeed = 38400, ospeed = 38400\<rparr>"

definition new_pty :: pty where
  "new_pty =
    \<lparr>masters = 1, slaves = 0, opened = False, locked = True, eof = False, pgrp = 0, sid = 0,
     tio = default_termios, wsz = \<lparr>rows = 24, cols = 80, xpixel = 0, ypixel = 0\<rparr>,
     in_len = 0, out_len = 0, line_len = 0,
     in_q = replicate 4096 0, out_q = replicate 4096 0, line_q = replicate 256 0\<rparr>"

definition pty_bytes :: u64 where
  "pty_bytes = 8532"

definition master_handle :: "nat \<Rightarrow> u64 \<Rightarrow> 'k tty \<Rightarrow> handle" where
  "master_handle n flags s =
    \<lparr>fd_used = 0, fd_writer = 0, fd_start = MOD_MARK, fd_size = files_slot s,
     fd_offset = ucast flags AND O_NONBLOCK, fd_folder = of_nat n + 1, fd_ofd = 0\<rparr>"

primrec free_pty :: "pty option list \<Rightarrow> nat" where
  "free_pty [] = 0"
| "free_pty (p # ps) = (if p \<noteq> None then Suc (free_pty ps) else 0)"

definition pty_open :: "'k kernel \<Rightarrow> u8 list \<Rightarrow> u64 \<Rightarrow> 'k tty \<Rightarrow> u64 \<times> 'k tty" where
  "pty_open K name flags s =
    (if name \<noteq> ptmx then slave_open K (number name) flags s
     else let n = free_pty (ptys s)
          in if n = PTYS then (ERR ENOSPC, s)
             else let (got, k) = heap_alloc K pty_bytes (kern s)
                  in if \<not> got then (ERR ENOSPC, s\<lparr>kern := k\<rparr>)
                     else let s1 = s\<lparr>kern := k, ptys := (ptys s)[n := Some new_pty]\<rparr>;
                              (fd, k1) = give_handle K (master_handle n flags s1) k
                          in if sint fd < 0
                             then (fd, s1\<lparr>kern := heap_free K k1, ptys := (ptys s1)[n := None]\<rparr>)
                             else (fd, s1\<lparr>kern := k1\<rparr>))"

definition pty_named :: "u8 list \<Rightarrow> 'k tty \<Rightarrow> (u32 \<times> u32) option" where
  "pty_named name s =
    (if name = ptmx then Some (0x2000 OR 0x1B6, 0x0502)
     else let n = number name
          in if n = PTYS \<or> ptys s ! n = None then None else Some (0x2000 OR 0x190, 0x8800 OR of_nat n))"

section \<open>The module\<close>

definition module_init :: "'k kernel \<Rightarrow> 'k tty \<Rightarrow> int \<times> 'k tty" where
  "module_init K s =
    (let (n, k) = files_register K True 0 (kern s);
         s1 = s\<lparr>files_slot := n, kern := k\<rparr>
     in (if n \<noteq> 0 then 0 else - int (errno_value EBUSY), s1))"

definition module_exit :: "'k kernel \<Rightarrow> 'k tty \<Rightarrow> int \<times> 'k tty" where
  "module_exit K s =
    (if list_ex (\<lambda>p. p \<noteq> None) (ptys s) then (- int (errno_value EBUSY), s)
     else (0, s\<lparr>kern := snd (files_register K False (files_slot s) (kern s))\<rparr>))"

end
