(* ===== verification/PtyLine.thy ===== *)
theory PtyLine
  imports Pty
begin

text \<open>
  The line discipline as a user sees it: a terminal has a line being gathered, the bytes typed and
  ready to be read, and the bytes shown. \<open>typed_char\<close> says what one character does to these three
  lists; the arrays and lengths of \<open>struct pty\<close> implement it (\<open>input_refines\<close>).
\<close>

section \<open>Arrays as bounded lists\<close>

lemma slice_simp [simp]: "i + n \<le> length xs \<Longrightarrow> slice xs i n = Some (take n (drop i xs))"
  by (simp add: slice_def)

lemma blit_simp [simp]:
  "i + length ys \<le> length xs \<Longrightarrow> blit xs i ys = Some (take i xs @ ys @ drop (i + length ys) xs)"
  by (simp add: blit_def)

lemma take_update_last: "i < length xs \<Longrightarrow> take (Suc i) (xs[i := v]) = take i xs @ [v]"
  by (simp add: take_Suc_conv_app_nth)

text \<open>A bounded list that is full keeps what it has.\<close>

lemma take_take_append: "take n (take n xs @ ys) = take n (xs @ ys)"
  by (simp add: min_def)

section \<open>The terminal\<close>

definition pty_ok :: "pty \<Rightarrow> bool" where
  "pty_ok p \<longleftrightarrow> length (in_q p) = 4096 \<and> length (out_q p) = 4096 \<and> length (line_q p) = 256 \<and>
    length (cc (tio p)) = 19 \<and> unat (in_len p) \<le> 4096 \<and> unat (out_len p) \<le> 4096 \<and> unat (line_len p) \<le> 255"

lemma pty_okD:
  assumes "pty_ok p"
  shows "length (in_q p) = 4096" "length (out_q p) = 4096" "length (line_q p) = 256" "length (cc (tio p)) = 19"
    "unat (in_len p) \<le> 4096" "unat (out_len p) \<le> 4096" "unat (line_len p) \<le> 255"
  using assms by (auto simp: pty_ok_def)

record terminal =
  held :: "u8 list"
  typed :: "u8 list"
  shown :: "u8 list"
  at_eof :: bool

definition view_of :: "pty \<Rightarrow> terminal" where
  "view_of p =
    \<lparr>held = take (unat (line_len p)) (line_q p), typed = take (unat (in_len p)) (in_q p),
     shown = take (unat (out_len p)) (out_q p), at_eof = eof p\<rparr>"

text \<open>What the line discipline leaves alone.\<close>

definition core :: "pty \<Rightarrow> u32 \<times> u32 \<times> bool \<times> bool \<times> u32 \<times> u32 \<times> termios \<times> winsize" where
  "core p = (masters p, slaves p, opened p, locked p, pgrp p, sid p, tio p, wsz p)"

lemma core_tio: "core q = core p \<Longrightarrow> tio q = tio p"
  by (simp add: core_def)

lemma view_lengths:
  assumes "pty_ok p"
  shows "length (held (view_of p)) = unat (line_len p)" "length (typed (view_of p)) = unat (in_len p)"
    "length (shown (view_of p)) = unat (out_len p)"
  using pty_okD [OF assms] by (simp_all add: view_of_def)

section \<open>What a character does\<close>

definition cooked :: "termios \<Rightarrow> u8 \<Rightarrow> u8 list" where
  "cooked t c = (if oflag t AND 1 \<noteq> 0 \<and> oflag t AND 4 \<noteq> 0 \<and> c = 10 then [13, 10] else [c])"

definition echoed :: "termios \<Rightarrow> u8 \<Rightarrow> u8 list" where
  "echoed t c =
    (if lflag t AND 8 = 0 then []
     else if lflag t AND 0x200 \<noteq> 0 \<and> c < 0x20 \<and> c \<noteq> 10 \<and> c \<noteq> 9 then cooked t 0x5E @ cooked t (c + 0x40)
     else cooked t c)"

definition rubbed :: "termios \<Rightarrow> u8 list" where
  "rubbed t = (if lflag t AND 8 \<noteq> 0 \<and> lflag t AND 0x10 \<noteq> 0 then [8, 0x20, 8] else [])"

definition show_text :: "u8 list \<Rightarrow> terminal \<Rightarrow> terminal" where
  "show_text bs x = x\<lparr>shown := take 4096 (shown x @ bs)\<rparr>"

definition rub :: "termios \<Rightarrow> nat \<Rightarrow> terminal \<Rightarrow> terminal" where
  "rub t n x = show_text (concat (replicate n (rubbed t))) (x\<lparr>held := take (length (held x) - n) (held x)\<rparr>)"

definition deliver :: "terminal \<Rightarrow> terminal" where
  "deliver x = x\<lparr>typed := take 4096 (typed x @ held x), held := []\<rparr>"

text \<open>The characters at the end of a line that the word eraser takes: spaces, then what is before them.\<close>

definition last_word :: "u8 list \<Rightarrow> nat" where
  "last_word xs =
    length (takeWhile (\<lambda>c. c = 0x20) (rev xs)) + length (takeWhile (\<lambda>c. c \<noteq> 0x20) (dropWhile (\<lambda>c. c = 0x20) (rev xs)))"

definition edited :: "termios \<Rightarrow> u8 \<Rightarrow> terminal \<Rightarrow> terminal" where
  "edited t c x =
    (if c = cc t ! 2 \<or> c = 8 then (if held x = [] then x else rub t 1 x)
     else if c = cc t ! 3 then rub t (length (held x)) x
     else if c = cc t ! 14 then rub t (last_word (held x)) x
     else if c = cc t ! 4 \<and> cc t ! 4 \<noteq> 0 then deliver (x\<lparr>at_eof := (held x = [])\<rparr>)
     else if c = 10 \<or> (cc t ! 11 \<noteq> 0 \<and> c = cc t ! 11)
     then deliver (show_text (echoed t c) (x\<lparr>held := held x @ [c]\<rparr>))
     else if length (held x) < 255 then show_text (echoed t c) (x\<lparr>held := held x @ [c]\<rparr>)
     else x)"

definition as_typed :: "termios \<Rightarrow> u8 \<Rightarrow> u8" where
  "as_typed t c = (if c = 13 \<and> iflag t AND 0x100 \<noteq> 0 then 10 else c)"

text \<open>The signal a character sends, if it does.\<close>

definition signal_of :: "termios \<Rightarrow> u8 \<Rightarrow> u32 option" where
  "signal_of t c =
    (if lflag t AND 1 \<noteq> 0 \<and> (c = cc t ! 0 \<or> c = cc t ! 1) then Some (if c = cc t ! 0 then 2 else 3) else None)"

definition typed_char :: "termios \<Rightarrow> u8 \<Rightarrow> terminal \<Rightarrow> terminal" where
  "typed_char t typed_c x =
    (let c = as_typed t typed_c
     in if signal_of t c \<noteq> None then (show_text (echoed t c) x)\<lparr>held := [], typed := []\<rparr>
        else if lflag t AND 2 = 0 then show_text (echoed t c) (x\<lparr>typed := take 4096 (typed x @ [c])\<rparr>)
        else edited t c x)"

section \<open>The arrays implement it\<close>

definition becomes :: "pty \<Rightarrow> pty option \<Rightarrow> terminal \<Rightarrow> bool" where
  "becomes p m x \<longleftrightarrow> gives m (\<lambda>q. pty_ok q \<and> core q = core p \<and> view_of q = x)"

lemma becomes_Some [simp]: "becomes p (Some q) x \<longleftrightarrow> pty_ok q \<and> core q = core p \<and> view_of q = x"
  by (simp add: becomes_def)

lemma becomes_bind:
  assumes "becomes p m x" "\<And>q. pty_ok q \<Longrightarrow> core q = core p \<Longrightarrow> view_of q = x \<Longrightarrow> becomes q (f q) y"
  shows "becomes p (m \<bind> f) y"
  using assms unfolding becomes_def by (cases m) auto

lemma becomesE:
  assumes "becomes p m x"
  obtains q where "m = Some q" "pty_ok q" "core q = core p" "view_of q = x"
  using assms unfolding becomes_def by (cases m) auto

lemma show_text_Nil [simp]: "pty_ok p \<Longrightarrow> show_text [] (view_of p) = view_of p"
  using view_lengths(3) [of p] pty_okD(6) [of p] by (simp add: show_text_def)

lemma show_text_twice: "show_text ys (show_text xs x) = show_text (xs @ ys) x"
  unfolding show_text_def by (simp add: take_take_append del: take_append)

lemma unat_Suc_small: "unat a < 4096 \<Longrightarrow> unat (a + 1) = Suc (unat a)" for a :: u32
  by (subst unat_add_small) simp_all

lemma out_put_becomes:
  assumes "pty_ok p"
  shows "becomes p (out_put c p) (show_text [c] (view_of p))"
proof (cases "out_len p < 4096")
  case True
  then have l: "unat (out_len p) < 4096" by (simp add: word_nat)
  then show ?thesis using True pty_okD [OF assms] assms
    by (simp add: out_put_def core_def view_of_def show_text_def pty_ok_def unat_Suc_small take_update_last)
next
  case False
  then have "unat (out_len p) = 4096" using pty_okD(6) [OF assms] by (simp add: word_nat)
  then show ?thesis using False assms pty_okD(2) [OF assms] by (simp add: out_put_def view_of_def show_text_def)
qed

lemma output_char_becomes:
  assumes "pty_ok p"
  shows "becomes p (output_char c p) (show_text (cooked (tio p) c) (view_of p))"
proof (cases "oflag (tio p) AND 1 \<noteq> 0 \<and> oflag (tio p) AND 4 \<noteq> 0 \<and> c = 10")
  case True
  have "becomes p (out_put 13 p \<bind> out_put c) (show_text [13, c] (view_of p))"
    by (rule becomes_bind [OF out_put_becomes [OF assms]])
      (use out_put_becomes in \<open>metis show_text_twice append_Cons append_Nil\<close>)
  then show ?thesis using True by (simp add: output_char_def cooked_def)
next
  case False
  then show ?thesis using out_put_becomes [OF assms] unfolding output_char_def cooked_def by auto
qed

lemma output_two:
  assumes "pty_ok p"
  shows "becomes p (output_char a p \<bind> output_char b) (show_text (cooked (tio p) a @ cooked (tio p) b) (view_of p))"
proof (rule becomes_bind [OF output_char_becomes [OF assms]])
  fix q assume "pty_ok q" "core q = core p" "view_of q = show_text (cooked (tio p) a) (view_of p)"
  then show "becomes q (output_char b q) (show_text (cooked (tio p) a @ cooked (tio p) b) (view_of p))"
    using output_char_becomes [of q b] core_tio [of q p] by (simp add: show_text_twice)
qed

lemma echo_becomes:
  assumes "pty_ok p"
  shows "becomes p (echo c p) (show_text (echoed (tio p) c) (view_of p))"
  using assms output_two [OF assms, of "0x5E" "c + 0x40"] output_char_becomes [OF assms, of c]
  unfolding echo_def echoed_def by (auto simp: add.commute)

lemma cooked_plain: "c \<noteq> 10 \<Longrightarrow> cooked t c = [c]"
  by (simp add: cooked_def)

lemma held_pred:
  assumes "pty_ok p" "line_len p \<noteq> 0"
  shows "pty_ok (p\<lparr>line_len := line_len p - 1\<rparr>)"
    "view_of (p\<lparr>line_len := line_len p - 1\<rparr>) = (view_of p)\<lparr>held := take (length (held (view_of p)) - 1) (held (view_of p))\<rparr>"
  using assms pty_okD [OF assms(1)] by (auto simp: pty_ok_def view_of_def unat_pred)

lemma erase_one_becomes:
  assumes "pty_ok p" "line_len p \<noteq> 0"
  shows "becomes p (erase_one p) (rub (tio p) 1 (view_of p))"
proof -
  let ?p = "p\<lparr>line_len := line_len p - 1\<rparr>"
  note h = held_pred [OF assms]
  show ?thesis
  proof (cases "lflag (tio p) AND 8 \<noteq> 0 \<and> lflag (tio p) AND 0x10 \<noteq> 0")
    case True
    have "becomes ?p (output_char 8 ?p \<bind> (\<lambda>p2. output_char 0x20 p2 \<bind> output_char 8)) (show_text [8, 0x20, 8] (view_of ?p))"
    proof (rule becomes_bind [OF output_char_becomes [OF h(1)]])
      fix q assume "pty_ok q" "core q = core ?p" "view_of q = show_text (cooked (tio ?p) 8) (view_of ?p)"
      then show "becomes q (output_char 0x20 q \<bind> output_char 8) (show_text [8, 0x20, 8] (view_of ?p))"
        using output_two [of q "0x20" "8"] by (simp add: show_text_twice cooked_plain)
    qed
    then show ?thesis using True assms(2) h(2)
      by (simp add: erase_one_def Let_def rub_def rubbed_def becomes_def core_def)
  next
    case False
    have "show_text [] (view_of ?p) = view_of ?p" by (rule show_text_Nil [OF h(1)])
    then show ?thesis using False assms(2) h by (auto simp: erase_one_def Let_def rub_def rubbed_def core_def)
  qed
qed

lemma rub_twice:
  "m + n \<le> length (held x) \<Longrightarrow> rub t n (rub t m x) = rub t (m + n) x"
proof -
  assume "m + n \<le> length (held x)"
  then have "take (length (take (length (held x) - m) (held x)) - n) (take (length (held x) - m) (held x))
    = take (length (held x) - (m + n)) (held x)" by (simp add: min_absorb1)
  then show ?thesis unfolding rub_def by (simp add: show_text_def replicate_add take_take_append del: take_append length_take)
qed

lemma rub_0: "pty_ok p \<Longrightarrow> rub t 0 (view_of p) = view_of p"
  using show_text_Nil [of p] by (simp add: rub_def)

text \<open>Erasing from the end as long as a test holds takes the longest such tail.\<close>

lemma erase_while_becomes:
  assumes "pty_ok p"
  shows "becomes p (erase_while test p) (rub (tio p) (length (takeWhile test (rev (held (view_of p))))) (view_of p))"
  using assms
proof (induction test p rule: erase_while.induct)
  case (1 test p)
  note l = view_lengths(1) [OF 1(2)]
  show ?case
  proof (cases "0 < line_len p")
    case False
    then have "line_len p = 0" by (simp add: word_nat unat_eq_0)
    then show ?thesis using 1(2) rub_0 [OF 1(2)] by (simp add: erase_while.simps view_of_def)
  next
    case True
    then have n0: "line_len p \<noteq> 0" by auto
    then have u: "unat (line_len p - 1) = unat (line_len p) - 1" "0 < unat (line_len p)"
      by (simp_all add: unat_pred unat_gt_0)
    let ?xs = "held (view_of p)"
    have ne: "?xs \<noteq> []" using l u(2) by auto
    have r: "rd (line_q p) (unat (line_len p - 1)) = Some (last ?xs)"
      using u pty_okD(3,7) [OF 1(2)] ne l by (simp add: last_conv_nth view_of_def)
    have rv: "rev ?xs = last ?xs # rev (butlast ?xs)" using ne by (metis append_butlast_last_id rev_eq_Cons_iff rev_rev_ident)
    show ?thesis
    proof (cases "test (last ?xs)")
      case False
      then show ?thesis using True r 1(2) rub_0 [OF 1(2)] by (simp add: erase_while.simps rv)
    next
      case t: True
      obtain q where q: "erase_one p = Some q" "pty_ok q" "core q = core p" "view_of q = rub (tio p) 1 (view_of p)"
        using erase_one_becomes [OF 1(2) n0] by (rule becomesE)
      have hq: "held (view_of q) = butlast ?xs" by (simp add: q(4) rub_def show_text_def butlast_conv_take)
      have "becomes q (erase_while test q) (rub (tio q) (length (takeWhile test (rev (held (view_of q))))) (view_of q))"
        using 1(1) [OF True r t q(1) q(2)] .
      moreover have "rub (tio q) (length (takeWhile test (rev (held (view_of q))))) (view_of q)
        = rub (tio p) (length (takeWhile test (rev ?xs))) (view_of p)"
      proof -
        have "length (takeWhile test (rev (butlast ?xs))) \<le> length ?xs - 1"
          using length_takeWhile_le [of test "rev (butlast ?xs)"] by simp
        then have "1 + length (takeWhile test (rev (butlast ?xs))) \<le> length ?xs" using ne by (cases ?xs) auto
        then show ?thesis unfolding hq core_tio [OF q(3)] unfolding q(4) by (simp add: rub_twice rv t)
      qed
      ultimately show ?thesis using True r t q(1,3) by (simp add: erase_while.simps becomes_def)
    qed
  qed
qed

lemma erase_all_becomes:
  assumes "pty_ok p"
  shows "becomes p (erase_all p) (rub (tio p) (length (held (view_of p))) (view_of p))"
  using assms
proof (induction p rule: erase_all.induct)
  case (1 p)
  note l = view_lengths(1) [OF 1(2)]
  show ?case
  proof (cases "0 < line_len p")
    case False
    then have "line_len p = 0" by (simp add: word_nat unat_eq_0)
    then show ?thesis using 1(2) rub_0 [OF 1(2)] l by (simp add: erase_all.simps)
  next
    case True
    then have n0: "line_len p \<noteq> 0" by auto
    then have u: "0 < unat (line_len p)" by (simp add: unat_gt_0)
    obtain q where q: "erase_one p = Some q" "pty_ok q" "core q = core p" "view_of q = rub (tio p) 1 (view_of p)"
      using erase_one_becomes [OF 1(2) n0] by (rule becomesE)
    have "length (held (view_of q)) = length (held (view_of p)) - 1" by (simp add: q(4) rub_def show_text_def)
    then have "rub (tio q) (length (held (view_of q))) (view_of q) = rub (tio p) (length (held (view_of p))) (view_of p)"
      unfolding core_tio [OF q(3)] q(4) using u l by (subst rub_twice) auto
    then show ?thesis using 1(1) [OF True q(1) q(2)] True q(1,3) by (simp add: erase_all.simps becomes_def)
  qed
qed

lemma line_done_becomes:
  assumes "pty_ok p \<or> (pty_ok (p\<lparr>line_len := 0\<rparr>) \<and> unat (line_len p) \<le> 256)"
  shows "becomes p (line_done p) (deliver (view_of p))"
proof -
  have l: "length (in_q p) = 4096" "length (line_q p) = 256" "unat (in_len p) \<le> 4096" "unat (line_len p) \<le> 256"
    and ok: "pty_ok (p\<lparr>line_len := 0\<rparr>)"
    using assms by (auto simp: pty_ok_def)
  define n where "n = (if line_len p < 4096 - in_len p then line_len p else 4096 - in_len p)"
  have s: "unat (4096 - in_len p) = 4096 - unat (in_len p)" using l(3) by (simp add: unat_sub_le)
  have n: "unat n = min (4096 - unat (in_len p)) (unat (line_len p))" by (simp add: n_def word_nat s min_def)
  have "unat (in_len p + n) = unat (in_len p) + unat n" using l(3) by (subst unat_add_small) (simp_all add: n)
  moreover have le: "unat (in_len p) + unat n \<le> 4096" using l(3) by (simp add: n)
  ultimately have "line_done p = Some (p\<lparr>in_q := take (unat (in_len p)) (in_q p) @ take (unat n) (line_q p) @ drop (unat (in_len p) + unat n) (in_q p),
      in_len := in_len p + n, line_len := 0\<rparr>)" "unat (in_len p + n) = unat (in_len p) + unat n"
    using l n le by (simp_all add: line_done_def Let_def min_absorb2 flip: n_def)
  moreover have "take (unat n) (line_q p) = take (4096 - unat (in_len p)) (take (unat (line_len p)) (line_q p))"
    by (simp add: n)
  ultimately show ?thesis using l ok le n by (simp add: pty_ok_def core_def view_of_def deliver_def)
qed

lemma add_char_view:
  assumes "pty_ok p"
  obtains q where "add_char c p = Some q" "pty_ok (q\<lparr>line_len := 0\<rparr>)" "core q = core p"
    "view_of q = (view_of p)\<lparr>held := held (view_of p) @ [c]\<rparr>" "unat (line_len q) = Suc (unat (line_len p))"
proof
  let ?q = "p\<lparr>line_q := (line_q p)[unat (line_len p) := c], line_len := line_len p + 1\<rparr>"
  show "unat (line_len ?q) = Suc (unat (line_len p))" using pty_okD(7) [OF assms] by (simp add: unat_Suc_small)
  then show "add_char c p = Some ?q" "pty_ok (?q\<lparr>line_len := 0\<rparr>)" "core ?q = core p"
    "view_of ?q = (view_of p)\<lparr>held := held (view_of p) @ [c]\<rparr>"
    using pty_okD [OF assms] by (simp_all add: add_char_def pty_ok_def core_def view_of_def take_update_last)
qed

text \<open>Echoing does not look at the line, so it may be one longer than it stays.\<close>

lemma out_put_line: "out_put c (p\<lparr>line_len := n\<rparr>) = map_option (\<lambda>q. q\<lparr>line_len := n\<rparr>) (out_put c p)"
  by (cases "wr (out_q p) (unat (out_len p)) c") (simp_all add: out_put_def)

lemma output_char_line: "output_char c (p\<lparr>line_len := n\<rparr>) = map_option (\<lambda>q. q\<lparr>line_len := n\<rparr>) (output_char c p)"
  by (cases "out_put 13 p") (simp_all add: output_char_def out_put_line)

lemma echo_line: "echo c (p\<lparr>line_len := n\<rparr>) = map_option (\<lambda>q. q\<lparr>line_len := n\<rparr>) (echo c p)"
  by (cases "output_char 0x5E p") (simp_all add: echo_def output_char_line)

lemma echo_keeps_line: "echo c p = Some q \<Longrightarrow> line_len q = line_len p \<and> line_q q = line_q p"
proof -
  have o: "out_put c p = Some q \<Longrightarrow> line_len q = line_len p \<and> line_q q = line_q p" for c p q
    by (auto simp: out_put_def split: if_splits bind_splits)
  have "output_char c p = Some q \<Longrightarrow> line_len q = line_len p \<and> line_q q = line_q p" for c p q
    by (auto simp: output_char_def dest!: o split: if_splits bind_splits)
  then show "echo c p = Some q \<Longrightarrow> ?thesis" by (auto simp: echo_def split: if_splits bind_splits)
qed

lemma edit_line:
  assumes "pty_ok p"
  shows "becomes p (do { p1 \<leftarrow> add_char c p; p2 \<leftarrow> echo c p1; line_done p2 })
    (deliver (show_text (echoed (tio p) c) ((view_of p)\<lparr>held := held (view_of p) @ [c]\<rparr>)))"
proof -
  obtain q where q: "add_char c p = Some q" "pty_ok (q\<lparr>line_len := 0\<rparr>)" "core q = core p"
    "view_of q = (view_of p)\<lparr>held := held (view_of p) @ [c]\<rparr>" "unat (line_len q) = Suc (unat (line_len p))"
    using add_char_view [OF assms] by metis
  obtain r0 where r0: "echo c (q\<lparr>line_len := 0\<rparr>) = Some r0" "pty_ok r0" "core r0 = core (q\<lparr>line_len := 0\<rparr>)"
    "view_of r0 = show_text (echoed (tio (q\<lparr>line_len := 0\<rparr>)) c) (view_of (q\<lparr>line_len := 0\<rparr>))"
    using echo_becomes [OF q(2), of c] by (rule becomesE)
  then obtain r where r: "echo c q = Some r" "r0 = r\<lparr>line_len := 0\<rparr>" using echo_line [of c 0 q] by auto
  note k = echo_keeps_line [OF r(1)]
  have c: "core r = core p" using r0(3) r(2) q(3) by (simp add: core_def)
  have v: "view_of r = show_text (echoed (tio p) c) (view_of q)"
    using r0(4) r(2) k core_tio [OF q(3)] by (simp add: view_of_def show_text_def)
  have "pty_ok r \<or> (pty_ok (r\<lparr>line_len := 0\<rparr>) \<and> unat (line_len r) \<le> 256)"
    using r0(2) r(2) k q(5) pty_okD(7) [OF assms] by simp
  from line_done_becomes [OF this] show ?thesis using q(1,4) r(1) c v by (simp add: becomes_def)
qed

lemma edit_char:
  assumes "pty_ok p" "line_len p < 255"
  shows "becomes p (add_char c p \<bind> echo c) (show_text (echoed (tio p) c) ((view_of p)\<lparr>held := held (view_of p) @ [c]\<rparr>))"
proof -
  obtain q where q: "add_char c p = Some q" "pty_ok (q\<lparr>line_len := 0\<rparr>)" "core q = core p"
    "view_of q = (view_of p)\<lparr>held := held (view_of p) @ [c]\<rparr>" "unat (line_len q) = Suc (unat (line_len p))"
    using add_char_view [OF assms(1)] by metis
  have "pty_ok q" using q(2,5) assms(2) by (simp add: pty_ok_def word_nat)
  from echo_becomes [OF this, of c] show ?thesis using q(1,3,4) core_tio [OF q(3)] by (simp add: becomes_def)
qed

lemma takeWhile_split_length: "take (length (takeWhile P xs)) xs = takeWhile P xs"
  by (metis takeWhile_eq_take)

lemma erase_word:
  assumes "pty_ok p"
  shows "becomes p (do { p1 \<leftarrow> erase_while (\<lambda>x. x = 0x20) p; erase_while (\<lambda>x. x \<noteq> 0x20) p1 })
    (rub (tio p) (last_word (held (view_of p))) (view_of p))"
proof (rule becomes_bind [OF erase_while_becomes [OF assms]])
  let ?h = "held (view_of p)" and ?t = "tio p"
  let ?n = "length (takeWhile (\<lambda>x. x = 0x20) (rev ?h))"
  fix q assume q: "pty_ok q" "core q = core p" "view_of q = rub ?t ?n (view_of p)"
  have n: "?n \<le> length ?h" by (metis length_rev length_takeWhile_le)
  have "rev (held (view_of q)) = dropWhile (\<lambda>x. x = 0x20) (rev ?h)"
    using n by (simp add: q(3) rub_def show_text_def rev_take dropWhile_eq_drop)
  moreover have "length (takeWhile P (dropWhile Q (rev ?h))) \<le> length ?h - length (takeWhile Q (rev ?h))" for P Q
    by (metis length_takeWhile_le dropWhile_eq_drop length_drop length_rev)
  then have "?n + length (takeWhile (\<lambda>x. x \<noteq> 0x20) (dropWhile (\<lambda>x. x = 0x20) (rev ?h))) \<le> length ?h"
    using n by (metis (no_types, lifting) le_diff_conv2 add.commute)
  ultimately show "becomes q (erase_while (\<lambda>x. x \<noteq> 0x20) q) (rub ?t (last_word ?h) (view_of p))"
    using erase_while_becomes [OF q(1), of "\<lambda>x. x \<noteq> 0x20"]
    by (simp add: core_tio [OF q(2)] q(3) rub_twice last_word_def)
qed

lemma edit_becomes:
  assumes "pty_ok p"
  shows "becomes p (edit c p) (edited (tio p) c (view_of p))"
proof -
  have h: "held (view_of p) = [] \<longleftrightarrow> line_len p = 0"
    using view_lengths(1) [OF assms] by (metis length_0_conv unat_eq_0)
  have l: "line_len p < 256" "line_len p < 255 \<longleftrightarrow> length (held (view_of p)) < 255"
    using view_lengths(1) [OF assms] pty_okD(7) [OF assms] by (simp_all add: word_nat)
  have e: "pty_ok (p\<lparr>eof := b\<rparr>)" "core (p\<lparr>eof := b\<rparr>) = core p" "view_of (p\<lparr>eof := b\<rparr>) = (view_of p)\<lparr>at_eof := b\<rparr>" for b
    using assms by (simp_all add: pty_ok_def core_def view_of_def)
  have d: "becomes p (line_done (p\<lparr>eof := b\<rparr>)) (deliver ((view_of p)\<lparr>at_eof := b\<rparr>))" for b
    using line_done_becomes [of "p\<lparr>eof := b\<rparr>"] e by (simp add: becomes_def)
  have o: "becomes p (erase_one p) (if held (view_of p) = [] then view_of p else rub (tio p) 1 (view_of p))"
    using erase_one_becomes [OF assms] assms by (simp add: h erase_one_def)
  show ?thesis
    using o erase_all_becomes [OF assms] erase_word [OF assms] d [of "line_len p = 0"]
      edit_line [OF assms, of c] edit_char [OF assms, of c] assms l h
    unfolding edit_def edited_def Let_def by auto
qed

text \<open>One character typed, signal and all.\<close>

lemma input_refines:
  assumes "pty_ok p"
  shows "gives (input K c (p, k)) (\<lambda>(q, k'). pty_ok q \<and> core q = core p \<and> view_of q = typed_char (tio p) c (view_of p) \<and>
    k' = (case signal_of (tio p) (as_typed (tio p) c) of None \<Rightarrow> k | Some sig \<Rightarrow> signal_pgrp K (pgrp p) sig k))"
proof -
  define d where "d = as_typed (tio p) c"
  have d': "(if c = 13 \<and> iflag (tio p) AND 0x100 \<noteq> 0 then 10 else c) = d" by (simp add: d_def as_typed_def)
  have ns: "\<not> (lflag (tio p) AND 1 \<noteq> 0 \<and> (d = cc (tio p) ! 0 \<or> d = cc (tio p) ! 1))" if "signal_of (tio p) d = None"
    using that by (simp add: signal_of_def split: if_splits)
  consider (sig) sg where "signal_of (tio p) d = Some sg" | (raw) "signal_of (tio p) d = None" "lflag (tio p) AND 2 = 0"
    | (cooked) "signal_of (tio p) d = None" "lflag (tio p) AND 2 \<noteq> 0" by fastforce
  then show ?thesis
  proof cases
    case sig
    obtain q where q: "echo d p = Some q" "pty_ok q" "core q = core p" "view_of q = show_text (echoed (tio p) d) (view_of p)"
      using echo_becomes [OF assms, of d] by (rule becomesE)
    have "pgrp q = pgrp p" using q(3) by (simp add: core_def)
    then show ?thesis using sig q
      by (auto simp: input_def Let_def d' typed_char_def d_def [symmetric] signal_of_def pty_ok_def core_def view_of_def show_text_def split: if_splits)
  next
    case raw
    define p1 where "p1 = (if in_len p < 4096 then p\<lparr>in_q := (in_q p)[unat (in_len p) := d], in_len := in_len p + 1\<rparr> else p)"
    have p1: "pty_ok p1" "core p1 = core p" "view_of p1 = (view_of p)\<lparr>typed := take 4096 (typed (view_of p) @ [d])\<rparr>"
      using pty_okD [OF assms]
      by (auto simp: p1_def pty_ok_def core_def view_of_def word_nat unat_Suc_small take_update_last not_less)
    have i: "(if in_len p < 4096 then do { q \<leftarrow> wr (in_q p) (unat (in_len p)) d; Some (p\<lparr>in_q := q, in_len := in_len p + 1\<rparr>) } else Some p) = Some p1"
      using pty_okD [OF assms] by (simp add: p1_def word_nat)
    obtain q where "echo d p1 = Some q" "pty_ok q" "core q = core p1" "view_of q = show_text (echoed (tio p1) d) (view_of p1)"
      using echo_becomes [OF p1(1), of d] by (rule becomesE)
    then show ?thesis using raw p1 core_tio [OF p1(2)] unfolding input_def Let_def prod.case d' if_not_P [OF ns [OF raw(1)]] i
      by (simp add: typed_char_def d_def [symmetric])
  next
    case cooked
    obtain q where "edit d p = Some q" "pty_ok q" "core q = core p" "view_of q = edited (tio p) d (view_of p)"
      using edit_becomes [OF assms, of d] by (rule becomesE)
    then show ?thesis using cooked unfolding input_def Let_def prod.case d' if_not_P [OF ns [OF cooked(1)]]
      by (simp add: typed_char_def d_def [symmetric])
  qed
qed

end
