(* ===== verification/PtyRun.thy ===== *)
theory PtyRun
  imports PtyLine "HOL-Library.Multiset"
begin

text \<open>
  The pseudo-terminals as the programs that have them open see them. \<open>sound\<close> is the invariant of the
  module's state: the arrays are well formed, and the counts of each terminal are those of the
  descriptors on its two ends, so that a terminal stays as long as a descriptor does and goes with the
  last. The locale \<open>kernel_files\<close> states what the module relies on in the kernel; in it every
  operation keeps \<open>sound\<close> and none makes an access it must not.
\<close>

section \<open>The invariant\<close>

definition tty_ok :: "'k tty \<Rightarrow> bool" where
  "tty_ok s \<longleftrightarrow> length (ptys s) = PTYS \<and> (\<forall>n < PTYS. \<forall>p. ptys s ! n = Some p \<longrightarrow> pty_ok p)"

definition which :: "handle \<Rightarrow> nat" where
  "which h = unat (fd_folder h - 1)"

definition on_pty :: "handle \<Rightarrow> bool" where
  "on_pty h \<longleftrightarrow> 1 \<le> fd_folder h \<and> fd_folder h \<le> of_nat PTYS"

definition ends :: "handle multiset \<Rightarrow> nat \<Rightarrow> bool \<Rightarrow> nat" where
  "ends hs n b = size {# h \<in># hs. which h = n \<and> is_slave h = b #}"

definition counts :: "handle multiset \<Rightarrow> nat \<Rightarrow> pty option \<Rightarrow> bool" where
  "counts hs n slot =
    (case slot of
       None \<Rightarrow> ends hs n False = 0 \<and> ends hs n True = 0
     | Some p \<Rightarrow> unat (masters p) = ends hs n False \<and> unat (slaves p) = ends hs n True \<and>
         0 < ends hs n False + ends hs n True)"

definition sound :: "('k \<Rightarrow> handle multiset) \<Rightarrow> 'k tty \<Rightarrow> bool" where
  "sound live s \<longleftrightarrow> tty_ok s \<and> (\<forall>h \<in># live (kern s). on_pty h) \<and> size (live (kern s)) < 2 ^ 32 \<and>
    (\<forall>n < PTYS. counts (live (kern s)) n (ptys s ! n))"

lemma tty_soundD:
  assumes "sound live s"
  shows "length (ptys s) = 8" "n < 8 \<Longrightarrow> ptys s ! n = Some p \<Longrightarrow> pty_ok p"
    "h \<in># live (kern s) \<Longrightarrow> on_pty h" "size (live (kern s)) < 2 ^ 32"
    "n < 8 \<Longrightarrow> counts (live (kern s)) n (ptys s ! n)"
  using assms unfolding sound_def tty_ok_def by auto

lemma on_pty_which: "on_pty h \<Longrightarrow> which h < 8"
  unfolding on_pty_def which_def by (auto simp: word_nat unat_sub_le)

lemma pty_of_which: "pty_of h s = (if on_pty h then ptys s ! which h else None)"
  by (simp add: pty_of_def on_pty_def which_def)

lemma set_pty_which: "set_pty h p s = s\<lparr>ptys := (ptys s)[which h := p]\<rparr>"
  by (simp add: set_pty_def which_def)

lemma pty_of_SomeD: "pty_of h s = Some p \<Longrightarrow> on_pty h \<and> ptys s ! which h = Some p"
  by (simp add: pty_of_which split: if_splits)

lemma pty_of_ok: "sound live s \<Longrightarrow> pty_of h s = Some p \<Longrightarrow> pty_ok p"
  using tty_soundD(2) [of live s "which h" p] on_pty_which [of h] by (auto dest: pty_of_SomeD)

lemma ends_simps [simp]:
  "ends (add_mset h hs) n b = (if which h = n \<and> is_slave h = b then Suc (ends hs n b) else ends hs n b)"
  "ends {#} n b = 0"
  by (simp_all add: ends_def)

lemma ends_size: "ends hs n False + ends hs n True \<le> size hs"
  by (induction hs) auto

lemma ends_member: "h \<in># hs \<Longrightarrow> 0 < ends hs (which h) (is_slave h)"
  by (auto simp: ends_def size_eq_0_iff_empty [symmetric] gr0_conv_Suc dest!: multi_member_split)

text \<open>A descriptor keeps its terminal: it is never used after it has been freed.\<close>

lemma live_alive:
  assumes "sound live s" "h \<in># live (kern s)"
  obtains p where "pty_of h s = Some p" "pty_ok p" "on_pty h" "which h < 8" "ptys s ! which h = Some p"
proof -
  have o: "on_pty h" "which h < 8" using tty_soundD(3) [OF assms] on_pty_which by auto
  have "ends (live (kern s)) (which h) (is_slave h) \<noteq> 0" using ends_member [OF assms(2)] by simp
  then have "ptys s ! which h \<noteq> None"
    using tty_soundD(5) [OF assms(1) o(2)] by (cases "is_slave h") (auto simp: counts_def split: option.splits)
  then obtain p where "ptys s ! which h = Some p" by auto
  then show ?thesis using that o tty_soundD(2) [OF assms(1) o(2)] by (simp add: pty_of_which)
qed

text \<open>Changing a terminal without touching its counts.\<close>

lemma sound_set:
  assumes "sound live s" "pty_of h s = Some p" "pty_ok q" "masters q = masters p" "slaves q = slaves p"
    "ptys t = (ptys s)[which h := Some q]" "live (kern t) = live (kern s)"
  shows "sound live t"
proof -
  have c: "counts (live (kern s)) (which h) (Some q)"
    using tty_soundD(5) [OF assms(1), of "which h"] pty_of_SomeD [OF assms(2)] on_pty_which [of h] assms(4,5)
    by (simp add: counts_def)
  have "which h < 8" using pty_of_SomeD [OF assms(2)] on_pty_which [of h] by simp
  then show ?thesis using assms(1,3,6,7) c unfolding sound_def tty_ok_def by (auto simp: nth_list_update)
qed

lemma sound_same:
  assumes "sound live s" "ptys t = ptys s" "live (kern t) = live (kern s)"
  shows "sound live t"
  using assms by (simp add: sound_def tty_ok_def)

lemma take_queue_ok:
  assumes "length q = 4096" "unat len \<le> 4096"
  shows "gives (take_queue q len buf cnt m) (\<lambda>(n, q1, len1, m1).
    n = min (ucast len) cnt \<and> length q1 = 4096 \<and> unat len1 = unat len - unat n \<and>
    take (unat len1) q1 = drop (unat n) (take (unat len) q) \<and> m1 = poke m buf (take (unat n) q))"
proof -
  define n where "n = (if ucast len < cnt then ucast len else cnt)"
  have ul: "unat (ucast len :: u64) = unat len" using unat_bound [of len]
    by (simp add: unsigned_ucast_eq take_bit_nat_eq_self)
  have n: "n = min (ucast len) cnt" by (auto simp: n_def min_def)
  have n2: "unat n \<le> unat len" by (auto simp: n_def word_nat ul)
  have un: "unat (ucast n :: u32) = unat n" using n2 unat_bound [of len]
    by (simp add: unsigned_ucast_eq take_bit_nat_eq_self)
  then have l1: "unat (len - ucast n) = unat len - unat n" using n2 by (simp add: unat_sub_le)
  show ?thesis using assms n2 l1 unfolding take_queue_def n_def [symmetric] Let_def
    by (simp add: take_drop flip: n)
qed

definition safe :: "('k \<Rightarrow> handle multiset) \<Rightarrow> handle \<Rightarrow> ('a, 'k tty) outcome \<Rightarrow> bool" where
  "safe live h r \<longleftrightarrow> (case r of Ended a t \<Rightarrow> sound live t \<and> h \<in># live (kern t) | Fault \<Rightarrow> False | Waits \<Rightarrow> True)"

lemma safe_simps [simp]:
  "safe live h (Ended a t) \<longleftrightarrow> sound live t \<and> h \<in># live (kern t)" "\<not> safe live h Fault" "safe live h Waits"
  by (simp_all add: safe_def)

lemma line_end_ok:
  assumes "unat len \<le> length q" "unat e \<le> unat len"
  shows "gives (line_end q len e) (\<lambda>r. unat r = unat e + length (takeWhile (\<lambda>c. c \<noteq> 10) (drop (unat e) (take (unat len) q))))"
  using assms
proof (induction q len e rule: line_end.induct)
  case (1 q len e)
  show ?case
  proof (cases "e < len")
    case True
    then have e: "unat e < unat len" by (simp add: word_nat)
    then have u: "unat (e + 1) = Suc (unat e)" using unat_bound [of len] by (subst unat_add_small) simp_all
    have d: "drop (unat e) (take (unat len) q) = q ! unat e # drop (Suc (unat e)) (take (unat len) q)"
      using e "1.prems"(1) by (simp add: Cons_nth_drop_Suc [symmetric])
    have "gives (line_end q len (e + 1)) (\<lambda>r. unat r = unat (e + 1) + length (takeWhile (\<lambda>c. c \<noteq> 10) (drop (unat (e + 1)) (take (unat len) q))))"
      if "q ! unat e \<noteq> 10" by (rule "1.IH" [OF True _ that]) (use e u "1.prems"(1) in auto)
    then show ?thesis using True e u d "1.prems"(1) by (simp add: line_end.simps [of q len e])
  next
    case False
    then show ?thesis using "1.prems" by (simp add: line_end.simps [of q len e] word_nat)
  qed
qed

section \<open>What the module relies on\<close>

text \<open>
  \<open>live\<close> is the multiset of the descriptors on terminals that are open anywhere. \<open>give_handle\<close> makes
  one of what it is given, marked used, or fails; \<open>pty_at\<close> is the terminal descriptor a program's
  number stands for, and \<open>forget\<close> the part of \<open>close\<close> that clears it before \<open>drop\<close>. Nothing else the module calls opens or closes one, except that other
  programs run in \<open>thread_yield\<close>: what they do keeps \<open>sound\<close>, and does not close the descriptor of
  the call that waits.
\<close>

locale kernel_files =
  fixes K :: "'k kernel" and live :: "'k \<Rightarrow> handle multiset"
    and pty_at :: "'k \<Rightarrow> nat \<Rightarrow> handle option" and forget :: "nat \<Rightarrow> 'k \<Rightarrow> 'k"
  assumes live_give: "fd_start h = MOD_MARK \<Longrightarrow> give_handle K h k = (fd, k') \<Longrightarrow>
      live k' = (if 0 \<le> sint fd then add_mset (h\<lparr>fd_used := 1\<rparr>) (live k) else live k)"
    and live_marked: "h \<in># live k \<Longrightarrow> fd_start h = MOD_MARK"
    and live_at: "pty_at k d = Some h \<Longrightarrow> h \<in># live k"
    and live_forget: "pty_at k d = Some h \<Longrightarrow> live (forget d k) = live k - {#h#}"
    and live_signal [simp]: "live (signal_pgrp K g sig k) = live k"
    and live_alloc: "heap_alloc K n k = (b, k') \<Longrightarrow> live k' = live k"
    and live_free [simp]: "live (heap_free K k) = live k"
    and live_check: "interrupt_check K k = (b, k') \<Longrightarrow> live k' = live k"
    and yield_sound: "sound live s \<Longrightarrow> sound live (thread_yield K s)"
    and yield_keeps: "sound live s \<Longrightarrow> h \<in># live (kern s) \<Longrightarrow> h \<in># live (kern (thread_yield K s))"
begin

lemma safe_proceed:
  assumes "safe live h r" "\<And>a t. r = Ended a t \<Longrightarrow> sound live t \<Longrightarrow> h \<in># live (kern t) \<Longrightarrow> safe live h (f a t)"
  shows "safe live h (proceed r f)"
  using assms by (cases r) auto

lemma wait_for_safe:
  "sound live s \<Longrightarrow> h \<in># live (kern s) \<Longrightarrow> safe live h (wait_for K n h test s)"
proof (induction n arbitrary: s)
  case (Suc n)
  obtain p where p: "pty_of h s = Some p" using live_alive [OF Suc.prems] by metis
  obtain b k where k: "interrupt_check K (kern s) = (b, k)" by (cases "interrupt_check K (kern s)")
  have l: "live k = live (kern s)" by (rule live_check [OF k])
  then have s: "sound live (s\<lparr>kern := k\<rparr>)" using sound_same [OF Suc.prems(1), of "s\<lparr>kern := k\<rparr>"] by simp
  have "safe live h (wait_for K n h test (thread_yield K (s\<lparr>kern := k\<rparr>)))"
    by (rule Suc.IH) (use yield_sound [OF s] yield_keeps [OF s, of h] l Suc.prems(2) in auto)
  then show ?case using Suc.prems s l by (simp add: p k)
qed simp

lemma take_out_safe:
  assumes "sound live s" "h \<in># live (kern s)" "pty_of h s = Some p"
  shows "safe live h (ended (take_out h buf cnt p s))"
proof -
  note ok = pty_okD [OF pty_of_ok [OF assms(1,3)]]
  obtain n q len m where t: "take_queue (out_q p) (out_len p) buf cnt (umem s) = Some (n, q, len, m)"
    "length q = 4096" "unat len = unat (out_len p) - unat n"
    using take_queue_ok [OF ok(2,6), of buf cnt "umem s"] by (auto simp: gives_iff)
  have "sound live (set_pty h (Some (p\<lparr>out_q := q, out_len := len\<rparr>)) (s\<lparr>umem := m\<rparr>))"
    by (rule sound_set [OF assms(1,3)]) (use ok t(2,3) in \<open>auto simp: pty_ok_def set_pty_which\<close>)
  then show ?thesis using assms(2) by (simp add: ended_def take_out_def t(1) set_pty_which)
qed

lemma take_in_safe:
  assumes "sound live s" "h \<in># live (kern s)" "pty_of h s = Some p"
  shows "safe live h (ended (take_in h buf cnt p s))"
proof -
  note ok = pty_okD [OF pty_of_ok [OF assms(1,3)]]
  obtain n q len m where t: "take_queue (in_q p) (in_len p) buf cnt (umem s) = Some (n, q, len, m)"
    "length q = 4096" "unat len = unat (in_len p) - unat n"
    using take_queue_ok [OF ok(1,5), of buf cnt "umem s"] by (auto simp: gives_iff)
  have "sound live (set_pty h (Some (p\<lparr>in_q := q, in_len := len\<rparr>)) (s\<lparr>umem := m\<rparr>))"
    by (rule sound_set [OF assms(1,3)]) (use ok t(2,3) in \<open>auto simp: pty_ok_def set_pty_which\<close>)
  then show ?thesis using assms(2) by (simp add: ended_def take_in_def t(1) set_pty_which)
qed

lemma read_in_safe:
  assumes "sound live s" "h \<in># live (kern s)" "pty_of h s = Some p"
  shows "safe live h (ended (do {
    upto \<leftarrow> (if lflag (tio p) AND 2 \<noteq> 0
             then do { e \<leftarrow> line_end (in_q p) (in_len p) 0;
                       Some (if e < in_len p \<and> ucast (e + 1) < cnt then ucast (e + 1) else cnt) }
             else Some cnt);
    take_in h buf upto p s }))"
proof -
  note ok = pty_okD [OF pty_of_ok [OF assms(1,3)]]
  obtain e where e: "line_end (in_q p) (in_len p) 0 = Some e"
    using line_end_ok [of "in_len p" "in_q p" 0] ok(1,5) by (auto simp: gives_iff)
  show ?thesis unfolding e using take_in_safe [OF assms] by simp
qed

lemma pty_read_safe:
  assumes "sound live s" "h \<in># live (kern s)"
  shows "safe live h (pty_read K n h buf cnt s)"
proof -
  obtain p where p: "pty_of h s = Some p" using live_alive [OF assms] by metis
  have m: "safe live h (proceed (wait_for K n h master_can_read s) (\<lambda>err s1.
       if err \<noteq> 0 then Ended err s1
       else case pty_of h s1 of
         None \<Rightarrow> Fault
       | Some p \<Rightarrow> if out_len p = 0 then Ended (ERR EIO) s1 else ended (take_out h buf cnt p s1)))"
  proof (rule safe_proceed [OF wait_for_safe [OF assms]])
    fix a t assume t: "sound live t" "h \<in># live (kern t)"
    obtain p where p: "pty_of h t = Some p" using live_alive [OF t] by metis
    show "safe live h (if a \<noteq> 0 then Ended a t else case pty_of h t of None \<Rightarrow> Fault
       | Some p \<Rightarrow> if out_len p = 0 then Ended (ERR EIO) t else ended (take_out h buf cnt p t))"
      using t take_out_safe [OF t p] by (simp add: p)
  qed
  have "safe live h (proceed (wait_for K n h slave_can_read s) (\<lambda>err s1.
       if err \<noteq> 0 then Ended err s1
       else case pty_of h s1 of
         None \<Rightarrow> Fault
       | Some p \<Rightarrow>
           if in_len p = 0 then Ended 0 (set_pty h (Some (p\<lparr>eof := False\<rparr>)) s1)
           else ended (do {
    upto \<leftarrow> (if lflag (tio p) AND 2 \<noteq> 0
             then do { e \<leftarrow> line_end (in_q p) (in_len p) 0;
                       Some (if e < in_len p \<and> ucast (e + 1) < cnt then ucast (e + 1) else cnt) }
             else Some cnt);
    take_in h buf upto p s1 })))"
  proof (rule safe_proceed [OF wait_for_safe [OF assms]])
    fix a :: u64 and t assume t: "sound live t" "h \<in># live (kern t)"
    obtain p where p: "pty_of h t = Some p" "pty_ok p" using live_alive [OF t] by metis
    have "sound live (set_pty h (Some (p\<lparr>eof := False\<rparr>)) t)"
      by (rule sound_set [OF t(1) p(1)]) (use p(2) in \<open>auto simp: pty_ok_def set_pty_which\<close>)
    then show "safe live h (if a \<noteq> 0 then Ended a t else case pty_of h t of None \<Rightarrow> Fault
       | Some p \<Rightarrow> if in_len p = 0 then Ended 0 (set_pty h (Some (p\<lparr>eof := False\<rparr>)) t)
           else ended (do {
    upto \<leftarrow> (if lflag (tio p) AND 2 \<noteq> 0
             then do { e \<leftarrow> line_end (in_q p) (in_len p) 0;
                       Some (if e < in_len p \<and> ucast (e + 1) < cnt then ucast (e + 1) else cnt) }
             else Some cnt);
    take_in h buf upto p t }))"
      using t read_in_safe [OF t p(1)] unfolding p(1) option.case by (simp add: set_pty_which)
  qed
  then show ?thesis using m unfolding pty_read_def by (simp add: p)
qed

lemma slave_write_safe:
  "sound live s \<Longrightarrow> h \<in># live (kern s) \<Longrightarrow> safe live h (slave_write K n h buf m i s)"
proof (induction m arbitrary: i s)
  case (Suc m)
  obtain p0 where p0: "pty_of h s = Some p0" using live_alive [OF Suc.prems] by metis
  have "safe live h (if 4096 < out_len p0 + 2 then wait_for K n h slave_can_write s else Ended 0 s)"
    using wait_for_safe [OF Suc.prems] Suc.prems by simp
  then show ?case unfolding slave_write.simps p0 option.case
  proof (rule safe_proceed)
    fix a :: u64 and t assume t: "sound live t" "h \<in># live (kern t)"
    obtain p where p: "pty_of h t = Some p" "pty_ok p" using live_alive [OF t] by metis
    obtain q where q: "output_char (umem t (buf + i)) p = Some q" "pty_ok q" "core q = core p"
      using output_char_becomes [OF p(2)] by (rule becomesE)
    have "sound live (set_pty h (Some q) t)"
      by (rule sound_set [OF t(1) p(1)]) (use q(2,3) in \<open>auto simp: core_def set_pty_which\<close>)
    then have "safe live h (slave_write K n h buf m (i + 1) (set_pty h (Some q) t))"
      by (rule Suc.IH) (use t(2) in \<open>simp add: set_pty_which\<close>)
    then show "safe live h (case pty_of h t of None \<Rightarrow> Fault | Some p \<Rightarrow>
               if a \<noteq> 0 \<or> masters p = 0
               then Ended (if 0 < i then i else if masters p = 0 then ERR EIO else a) t
               else case output_char (umem t (buf + i)) p of
                 None \<Rightarrow> Fault
               | Some q \<Rightarrow> slave_write K n h buf m (i + 1) (set_pty h (Some q) t))"
      using t by (simp add: p(1) q(1))
  qed
qed simp

lemma typing_ok:
  assumes "pty_ok p" "live k = hs"
  shows "gives (for_each is (\<lambda>i. input K (f i)) (p, k)) (\<lambda>(q, k'). pty_ok q \<and> core q = core p \<and> live k' = hs)"
proof (rule gives_for_each)
  fix i :: nat and st assume st: "case st of (q, k') \<Rightarrow> pty_ok q \<and> core q = core p \<and> live k' = hs"
  obtain q l where e: "st = (q, l)" by (cases st)
  show "gives (input K (f i) st) (\<lambda>(q, k'). pty_ok q \<and> core q = core p \<and> live k' = hs)"
    unfolding e by (rule gives_mono [OF input_refines]) (use st in \<open>auto simp: e split: option.splits\<close>)
qed (use assms in simp)

lemma pty_write_safe:
  assumes "sound live s" "h \<in># live (kern s)"
  shows "safe live h (pty_write K n h buf cnt s)"
proof -
  obtain p where p: "pty_of h s = Some p" "pty_ok p" using live_alive [OF assms] by metis
  obtain q k where q: "for_each [0..<unat cnt] (\<lambda>i. input K (umem s (buf + of_nat i))) (p, kern s) = Some (q, k)"
    "pty_ok q" "core q = core p" "live k = live (kern s)"
    using typing_ok [OF p(2) refl, of "[0..<unat cnt]" "\<lambda>i. umem s (buf + of_nat i)" "kern s"] by (auto simp: gives_iff)
  have "sound live (set_pty h (Some q) (s\<lparr>kern := k\<rparr>))"
    by (rule sound_set [OF assms(1) p(1) q(2)]) (use q(3,4) in \<open>auto simp: core_def set_pty_which\<close>)
  then show ?thesis using assms slave_write_safe [OF assms, of n buf "unat cnt" 0] q
    by (simp add: pty_write_def p(1) ended_def set_pty_which)
qed

end

end
