(* ===== verification/PtySteps.thy ===== *)
theory PtySteps
  imports PtyRun
begin

text \<open>
  Opening, duplicating, closing and controlling terminals: the counts follow the descriptors. The
  operations together form a step relation, and \<open>sound\<close> holds in every state it reaches.
\<close>

section \<open>Counts that change\<close>

lemma which_used [simp]: "which (h\<lparr>fd_used := u\<rparr>) = which h"
  by (simp add: which_def)

lemma is_slave_used [simp]: "is_slave (h\<lparr>fd_used := u\<rparr>) = is_slave h"
  by (simp add: is_slave_def)

lemma on_pty_used [simp]: "on_pty (h\<lparr>fd_used := u\<rparr>) = on_pty h"
  by (simp add: on_pty_def)

lemma sound_recount:
  assumes "sound live s" "n < 8" "ptys t = (ptys s)[n := slot]" "\<And>p. slot = Some p \<Longrightarrow> pty_ok p"
    "\<forall>h \<in># live (kern t). on_pty h" "size (live (kern t)) < 2 ^ 32" "counts (live (kern t)) n slot"
    "\<And>m b. m \<noteq> n \<Longrightarrow> ends (live (kern t)) m b = ends (live (kern s)) m b"
  shows "sound live t"
proof -
  have "counts (live (kern t)) m (ptys t ! m)" if "m < 8" for m
    using that tty_soundD(1) [OF assms(1)] tty_soundD(5) [OF assms(1) that] assms(2,3,7,8)
    by (cases "m = n") (auto simp: counts_def split: option.splits)
  moreover have "tty_ok t"
    using tty_soundD(1) [OF assms(1)] tty_soundD(2) [OF assms(1)] assms(2-4) unfolding tty_ok_def by (auto simp: nth_list_update)
  ultimately show ?thesis using assms(5,6) by (simp add: sound_def)
qed

lemma unat_inc: "unat a + 1 < 2 ^ 32 \<Longrightarrow> unat (a + 1) = Suc (unat a)" for a :: u32
  by (subst unat_add_small) simp_all

text \<open>One more descriptor on an end, and its count with it.\<close>

lemma sound_add:
  assumes "sound live s" "n < 8" "ptys s ! n = Some p" "live (kern t) = add_mset h (live (kern s))"
    "size (live (kern t)) < 2 ^ 32" "on_pty h" "which h = n" "pty_ok q"
    "if is_slave h then slaves q = slaves p + 1 \<and> masters q = masters p else masters q = masters p + 1 \<and> slaves q = slaves p"
    "ptys t = (ptys s)[n := Some q]"
  shows "sound live t"
proof (rule sound_recount [OF assms(1,2,10)])
  have c: "counts (live (kern s)) n (Some p)" using tty_soundD(5) [OF assms(1,2)] assms(3) by simp
  have "ends (live (kern t)) n False + ends (live (kern t)) n True < 2 ^ 32"
    using ends_size [of "live (kern t)" n] assms(5) by simp
  then have "is_slave h \<Longrightarrow> unat (slaves p) + 1 < 2 ^ 32" "\<not> is_slave h \<Longrightarrow> unat (masters p) + 1 < 2 ^ 32"
    using c assms(4,7) by (auto simp: counts_def)
  then show "counts (live (kern t)) n (Some q)"
    using c assms(4,7,9) unat_inc [of "slaves p"] unat_inc [of "masters p"] by (cases "is_slave h") (auto simp: counts_def)
  show "\<forall>h \<in># live (kern t). on_pty h" using tty_soundD(3) [OF assms(1)] assms(4,6) by auto
qed (use assms(4,5,7,8) in auto)

lemma unat_folder: "n < 8 \<Longrightarrow> unat (of_nat n + 1 :: u32) = Suc n"
  by (subst unat_inc) (simp_all add: unsigned_of_nat take_bit_nat_eq_self)

lemma slave_handle_ends:
  assumes "n < 8"
  shows "on_pty (slave_handle n flags s)" "which (slave_handle n flags s) = n" "is_slave (slave_handle n flags s)"
    "fd_start (slave_handle n flags s) = MOD_MARK"
  using unat_folder [OF assms] assms
  by (simp_all add: slave_handle_def on_pty_def which_def is_slave_def word_nat unsigned_of_nat take_bit_nat_eq_self word_ao_absorbs)

lemma master_handle_ends:
  assumes "n < 8"
  shows "on_pty (master_handle n flags s)" "which (master_handle n flags s) = n" "\<not> is_slave (master_handle n flags s)"
    "fd_start (master_handle n flags s) = MOD_MARK"
  using unat_folder [OF assms] assms
  by (simp_all add: master_handle_def on_pty_def which_def is_slave_def word_nat unsigned_of_nat take_bit_nat_eq_self and.assoc)

lemma free_pty_spec:
  "free_pty ps \<le> length ps" "free_pty ps < length ps \<Longrightarrow> ps ! free_pty ps = None"
  by (induction ps) (auto split: if_splits)

lemma new_pty_ok: "pty_ok new_pty"
  by (simp add: pty_ok_def new_pty_def default_termios_def)

lemma length_termios_bytes [simp]: "length (termios_bytes t) = 25 + length (cc t)"
  by (simp add: termios_bytes_def)

lemma set_termios_ok:
  assumes "pty_ok p" "length bs = 36 \<or> length bs = 44"
  shows "gives (set_termios r bs p) (\<lambda>q. pty_ok q \<and> masters q = masters p \<and> slaves q = slaves p)"
proof -
  define p1 where "p1 = p\<lparr>tio := termios_of (bs @ drop (length bs) (termios_bytes (tio p)))\<rparr>"
  define p2 where "p2 = (if r = 0x5404 \<or> r = 0x402C542D then p1\<lparr>in_len := 0, line_len := 0\<rparr> else p1)"
  have p1: "pty_ok p1" using assms by (auto simp: p1_def pty_ok_def termios_of_def)
  then have p2: "pty_ok p2" "masters p2 = masters p" "slaves p2 = slaves p" by (auto simp: p2_def pty_ok_def p1_def)
  obtain q where "line_done p2 = Some q" "pty_ok q" "core q = core p2"
    using line_done_becomes [of p2] p2(1) by (auto elim: becomesE)
  then show ?thesis using p2 unfolding set_termios_def p1_def [symmetric] Let_def p2_def [symmetric] by (simp add: core_def)
qed

section \<open>The steps\<close>

text \<open>
  What can happen to the terminals, one call after another: opening a name, a second descriptor, a
  descriptor closed (its slot cleared, then \<open>drop\<close>), reading, writing and controls that come to an
  end, and other programs running.
\<close>

inductive tty_step ::
    "'k kernel \<Rightarrow> ('k \<Rightarrow> handle multiset) \<Rightarrow> ('k \<Rightarrow> nat \<Rightarrow> handle option) \<Rightarrow> (nat \<Rightarrow> 'k \<Rightarrow> 'k) \<Rightarrow> 'k tty \<Rightarrow> 'k tty \<Rightarrow> bool"
  for K live pty_at forget where
  opens: "pty_open K name flags s = (fd, t) \<Longrightarrow> size (live (kern t)) < 2 ^ 32 \<Longrightarrow> tty_step K live pty_at forget s t"
| dups: "h \<in># live (kern s) \<Longrightarrow> give_handle K h (kern s) = (fd, k) \<Longrightarrow> size (live k) < 2 ^ 32 \<Longrightarrow>
    tty_step K live pty_at forget s (if 0 \<le> sint fd then pty_hold h (s\<lparr>kern := k\<rparr>) else s\<lparr>kern := k\<rparr>)"
| closes: "pty_at (kern s) fd = Some h \<Longrightarrow> tty_step K live pty_at forget s (pty_drop K h (s\<lparr>kern := forget fd (kern s)\<rparr>))"
| reads: "h \<in># live (kern s) \<Longrightarrow> pty_read K n h buf cnt s = Ended r t \<Longrightarrow> tty_step K live pty_at forget s t"
| writes: "h \<in># live (kern s) \<Longrightarrow> pty_write K n h buf cnt s = Ended r t \<Longrightarrow> tty_step K live pty_at forget s t"
| controls: "h \<in># live (kern s) \<Longrightarrow> Suc (size (live (kern s))) < 2 ^ 32 \<Longrightarrow> pty_ioctl K h request arg s = Some (r, t) \<Longrightarrow> tty_step K live pty_at forget s t"
| yields: "tty_step K live pty_at forget s (thread_yield K s)"

section \<open>The operations\<close>

context kernel_files
begin

lemma sound_kern: "sound live s \<Longrightarrow> live k = live (kern s) \<Longrightarrow> sound live (s\<lparr>kern := k\<rparr>)"
  by (rule sound_same) simp_all

lemma pty_drop_sound:
  assumes "sound live s" "pty_at (kern s) fd = Some h"
  shows "sound live (pty_drop K h (s\<lparr>kern := forget fd (kern s)\<rparr>))"
proof -
  note h = live_at [OF assms(2)]
  obtain p where p: "pty_of h s = Some p" "pty_ok p" "on_pty h" "which h < 8" "ptys s ! which h = Some p"
    using live_alive [OF assms(1) h] by metis
  obtain hs where hs: "live (kern s) = add_mset h hs" using h by (metis multi_member_split)
  have l: "live (forget fd (kern s)) = hs" using live_forget [OF assms(2)] hs by simp
  have c: "counts (add_mset h hs) (which h) (Some p)" using tty_soundD(5) [OF assms(1) p(4)] hs p(5) by simp
  let ?s = "s\<lparr>kern := forget fd (kern s)\<rparr>"
  have ps: "pty_of h ?s = Some p" using p(3,5) by (simp add: pty_of_which)
  define n where "n = (if is_slave h then slaves p else masters p)"
  have n: "0 < unat n" "unat n = Suc (ends hs (which h) (is_slave h))" using c by (auto simp: counts_def n_def)
  have "n \<noteq> 0" using n(1) by auto
  with n(2) have n1: "0 < n" "unat (n - 1) = ends hs (which h) (is_slave h)" "n - 1 = 0 \<longleftrightarrow> ends hs (which h) (is_slave h) = 0"
    using unat_pred [of n] unat_eq_0 [of "n - 1"] by (auto simp: word_neq_0_conv)
  define q where "q = (if is_slave h then p\<lparr>slaves := n - 1\<rparr> else p\<lparr>masters := n - 1\<rparr>)"
  have q: "pty_ok q" "unat (masters q) = ends hs (which h) False" "unat (slaves q) = ends hs (which h) True"
    using p(2) c n1(2) by (auto simp: q_def pty_ok_def counts_def)
  have z: "masters q = 0 \<and> slaves q = 0 \<longleftrightarrow> ends hs (which h) False = 0 \<and> ends hs (which h) True = 0"
    using q(2,3) unat_eq_0 [of "masters q"] unat_eq_0 [of "slaves q"] by auto
  have t: "live (kern (pty_drop K h ?s)) = hs" "ptys (pty_drop K h ?s) = (ptys s)[which h := if masters q = 0 \<and> slaves q = 0 then None else Some q]"
    using l n1(1) unfolding pty_drop_def ps option.case n_def [symmetric] Let_def if_P [OF n1(1)] q_def [symmetric]
    by (auto simp: set_pty_which)
  show ?thesis
  proof (rule sound_recount [OF assms(1) p(4) t(2)])
    show "counts (live (kern (pty_drop K h ?s))) (which h) (if masters q = 0 \<and> slaves q = 0 then None else Some q)"
      using q(2,3) z by (simp add: t(1) counts_def)
    show "\<forall>h \<in># live (kern (pty_drop K h ?s)). on_pty h" using tty_soundD(3) [OF assms(1)] by (simp add: t(1) hs)
    show "size (live (kern (pty_drop K h ?s))) < 2 ^ 32" using tty_soundD(4) [OF assms(1)] by (simp add: t(1) hs)
  qed (use q(1) t(1) hs in \<open>auto split: if_splits\<close>)
qed

lemma dup_sound:
  assumes "sound live s" "h \<in># live (kern s)" "give_handle K h (kern s) = (fd, k)" "size (live k) < 2 ^ 32"
  shows "sound live (if 0 \<le> sint fd then pty_hold h (s\<lparr>kern := k\<rparr>) else s\<lparr>kern := k\<rparr>)"
proof -
  obtain p where p: "pty_of h s = Some p" "pty_ok p" "on_pty h" "which h < 8" "ptys s ! which h = Some p"
    using live_alive [OF assms(1,2)] by metis
  note g = live_give [OF live_marked [OF assms(2)] assms(3)]
  show ?thesis
  proof (cases "0 \<le> sint fd")
    case True
    define q where "q = (if is_slave h then p\<lparr>slaves := slaves p + 1\<rparr> else p\<lparr>masters := masters p + 1\<rparr>)"
    have "pty_of h (s\<lparr>kern := k\<rparr>) = Some p" using p(3,5) by (simp add: pty_of_which)
    then have e: "pty_hold h (s\<lparr>kern := k\<rparr>) = set_pty h (Some q) (s\<lparr>kern := k\<rparr>)" by (simp add: pty_hold_def q_def)
    have "sound live (set_pty h (Some q) (s\<lparr>kern := k\<rparr>))"
      by (rule sound_add [OF assms(1) p(4,5), where h = "h\<lparr>fd_used := 1\<rparr>" and q = q])
        (use True g p(2,3) assms(4) in \<open>auto simp: set_pty_which q_def pty_ok_def\<close>)
    then show ?thesis using True e by simp
  next
    case False
    then show ?thesis using g sound_kern [OF assms(1), of k] by simp
  qed
qed

lemma slave_open_sound:
  assumes "sound live s" "slave_open K n flags s = (fd, t)" "size (live (kern t)) < 2 ^ 32"
  shows "sound live t \<and> live (kern s) \<subseteq># live (kern t)"
proof (cases "if n < PTYS then ptys s ! n else None")
  case None
  then show ?thesis using assms(1,2) by (simp add: slave_open_def)
next
  case (Some p)
  then have n: "n < 8" "ptys s ! n = Some p" by (auto split: if_splits)
  note ok = tty_soundD(2) [OF assms(1) n]
  obtain f k where g: "give_handle K (slave_handle n flags s) (kern s) = (f, k)" by (cases "give_handle K (slave_handle n flags s) (kern s)")
  obtain a b c where i: "process_ids K k = (a, b, c)" by (cases "process_ids K k")
  note sh = slave_handle_ends [OF n(1), of flags s]
  note lg = live_give [OF sh(4) g]
  define q where "q = (if sid p = 0 then p\<lparr>slaves := slaves p + 1, opened := True, sid := c, pgrp := b\<rparr> else p\<lparr>slaves := slaves p + 1, opened := True\<rparr>)"
  have e: "slave_open K n flags s = (if locked p then (ERR EIO, s) else
      if 0 \<le> sint f then (f, s\<lparr>kern := k, ptys := (ptys s)[n := Some q]\<rparr>) else (f, s\<lparr>kern := k\<rparr>))"
    unfolding slave_open_def Some option.case g Let_def prod.case i by (simp add: q_def)
  consider (lock) "t = s" | (given) "0 \<le> sint f" "t = s\<lparr>kern := k, ptys := (ptys s)[n := Some q]\<rparr>" | (none) "\<not> 0 \<le> sint f" "t = s\<lparr>kern := k\<rparr>"
    using assms(2) unfolding e by (auto split: if_splits)
  then show ?thesis
  proof cases
    case given
    have "sound live t" by (rule sound_add [OF assms(1) n, where h = "(slave_handle n flags s)\<lparr>fd_used := 1\<rparr>" and q = q])
        (use given lg sh ok assms(3) in \<open>auto simp: q_def pty_ok_def\<close>)
    then show ?thesis using given lg by simp
  qed (use assms(1) sound_kern [OF assms(1), of k] lg in auto)
qed

lemma pty_open_sound:
  assumes "sound live s" "pty_open K name flags s = (fd, t)" "size (live (kern t)) < 2 ^ 32"
  shows "sound live t"
proof (cases "name = ptmx")
  case False
  then show ?thesis using slave_open_sound [OF assms(1) _ assms(3)] assms(2) by (simp add: pty_open_def)
next
  case True
  define n where "n = free_pty (ptys s)"
  note l8 = tty_soundD(1) [OF assms(1)]
  show ?thesis
  proof (cases "n = 8")
    case True
    then show ?thesis using assms(1,2) \<open>name = ptmx\<close> unfolding pty_open_def n_def by (simp add: Let_def)
  next
    case False
    then have n: "n < 8" "ptys s ! n = None" using free_pty_spec [of "ptys s"] l8 by (auto simp: n_def)
    obtain got k where a: "heap_alloc K pty_bytes (kern s) = (got, k)" by (cases "heap_alloc K pty_bytes (kern s)")
    note la = live_alloc [OF a]
    define s1 where "s1 = s\<lparr>kern := k, ptys := (ptys s)[n := Some new_pty]\<rparr>"
    obtain f k1 where g: "give_handle K (master_handle n flags s1) k = (f, k1)" by (cases "give_handle K (master_handle n flags s1) k")
    note mh = master_handle_ends [OF n(1), of flags s1]
    note lg = live_give [OF mh(4) g]
    have e: "pty_open K name flags s = (if \<not> got then (ERR ENOSPC, s\<lparr>kern := k\<rparr>) else
        if sint f < 0 then (f, s1\<lparr>kern := heap_free K k1, ptys := (ptys s1)[n := None]\<rparr>) else (f, s1\<lparr>kern := k1\<rparr>))"
      using \<open>name = ptmx\<close> False unfolding pty_open_def n_def [symmetric] Let_def a prod.case s1_def [symmetric] g by simp
    have z: "(ptys s)[n := None] = ptys s" using n(2) by (metis list_update_id)
    have c: "counts (live (kern s)) n None" using tty_soundD(5) [OF assms(1) n(1)] n(2) by simp
    consider (oom) "t = s\<lparr>kern := k\<rparr>" | (full) "sint f < 0" "t = s1\<lparr>kern := heap_free K k1, ptys := (ptys s1)[n := None]\<rparr>"
      | (made) "\<not> sint f < 0" "t = s1\<lparr>kern := k1\<rparr>"
      using assms(2) unfolding e by (auto split: if_splits)
    then show ?thesis
    proof cases
      case oom
      then show ?thesis using sound_kern [OF assms(1) la] by simp
    next
      case full
      then show ?thesis using lg la z by (intro sound_same [OF assms(1)]) (simp_all add: s1_def)
    next
      case made
      show ?thesis
      proof (rule sound_recount [OF assms(1) n(1), of t "Some new_pty"])
        show "counts (live (kern t)) n (Some new_pty)" using made lg la mh c by (simp add: counts_def new_pty_def)
      qed (use made lg la mh assms(3) new_pty_ok tty_soundD(3) [OF assms(1)] in \<open>auto simp: s1_def\<close>)
    qed
  qed
qed

lemma pty_ioctl_sound:
  assumes "sound live s" "h \<in># live (kern s)" "Suc (size (live (kern s))) < 2 ^ 32"
  shows "gives (pty_ioctl K h request arg s) (\<lambda>(r, t). sound live t \<and> h \<in># live (kern t))"
proof -
  obtain p where p: "pty_of h s = Some p" "pty_ok p" "on_pty h" "which h < 8" "ptys s ! which h = Some p"
    using live_alive [OF assms(1,2)] by metis
  have mem: "sound live (s\<lparr>umem := m\<rparr>)" for m by (rule sound_same [OF assms(1)]) simp_all
  have set: "sound live (set_pty h (Some q) (s\<lparr>kern := k\<rparr>)) \<and> h \<in># live (kern (set_pty h (Some q) (s\<lparr>kern := k\<rparr>)))"
    if "pty_ok q \<and> masters q = masters p \<and> slaves q = slaves p" "live k = live (kern s)" for q k
    using that assms(2) by (auto simp: set_pty_which intro!: sound_set [OF assms(1) p(1), of q])
  have set0: "sound live (set_pty h (Some q) s) \<and> h \<in># live (kern (set_pty h (Some q) s))"
    if "pty_ok q" "masters q = masters p" "slaves q = slaves p" for q
    using that set [of q "kern s"] by simp
  have int: "case put_int K a v s of (r, t) \<Rightarrow> sound live t \<and> h \<in># live (kern t)" for a v
    using assms(1,2) mem by (simp add: put_int_def)
  have grow: "size (live k') \<le> Suc (size (live k))" if "n < 8" "give_handle K (slave_handle n f s) k = (fd, k')" for n f k fd k'
    using live_give [OF slave_handle_ends(4) [OF that(1)] that(2)] by simp
  have peer: "case slave_open K n f s of (r, t) \<Rightarrow> sound live t \<and> h \<in># live (kern t)" for n f
  proof (cases "slave_open K n f s")
    case (Pair r t)
    have "size (live (kern t)) \<le> Suc (size (live (kern s)))"
      using Pair by (auto simp: slave_open_def Let_def intro: grow split: option.splits if_splits prod.splits)
    then show ?thesis using slave_open_sound [OF assms(1) Pair] assms(2,3) Pair by (auto dest: mset_subset_eqD)
  qed
  have ok: "pty_ok (p\<lparr>wsz := w\<rparr>)" "pty_ok (p\<lparr>sid := a, pgrp := b\<rparr>)" "pty_ok (p\<lparr>pgrp := b\<rparr>)"
    "pty_ok (p\<lparr>in_len := 0, line_len := 0\<rparr>)" "pty_ok (p\<lparr>locked := l\<rparr>)" for w a b l
    using p(2) by (simp_all add: pty_ok_def)
  have tset: "gives (do { q \<leftarrow> set_termios request (peek (umem s) arg n) p; Some (0 :: u64, set_pty h (Some q) s) })
      (\<lambda>(r, t). sound live t \<and> h \<in># live (kern t))" if "n = 36 \<or> n = 44" for n
    by (rule gives_then [OF set_termios_ok [OF p(2)]]) (use that set0 in auto)
  have lc: "length (cc (tio p)) = 19" using p(2) by (simp add: pty_ok_def)
  have ids: "gives (case process_ids K (kern s) of (pid, pg, se) \<Rightarrow> Some (0 :: u64, set_pty h (Some (p\<lparr>sid := se, pgrp := pg\<rparr>)) s))
      (\<lambda>(r, t). sound live t \<and> h \<in># live (kern t))"
    by (cases "process_ids K (kern s)") (simp add: set0 ok)
  have if_gives: "gives (if b then x else y) Q" if "b \<Longrightarrow> gives x Q" "\<not> b \<Longrightarrow> gives y Q" for b x y and Q :: "u64 \<times> 'k tty \<Rightarrow> bool"
    using that by simp
  show ?thesis unfolding pty_ioctl_def p(1) option.case Let_def
    by (intro if_gives) (use assms(1,2) mem set set0 int peer ok tset ids lc in \<open>simp_all\<close>)
qed

lemma tty_step_sound: "tty_step K live pty_at forget s t \<Longrightarrow> sound live s \<Longrightarrow> sound live t"
proof (induction rule: tty_step.induct)
  case (reads h s n buf cnt r t)
  then show ?case using pty_read_safe [of s h n buf cnt] by simp
next
  case (writes h s n buf cnt r t)
  then show ?case using pty_write_safe [of s h n buf cnt] by simp
next
  case (controls h s request arg r t)
  then show ?case using pty_ioctl_sound [of s h request arg] by simp
qed (blast intro: pty_open_sound dup_sound pty_drop_sound yield_sound)+

lemma tty_steps_sound: "(tty_step K live pty_at forget)\<^sup>*\<^sup>* s t \<Longrightarrow> sound live s \<Longrightarrow> sound live t"
  by (induction rule: rtranclp_induct) (auto intro: tty_step_sound)

end

end
