(* ===== verification/Files.thy ===== *)
theory Files
  imports PtySteps
begin

text \<open>
  The descriptors of the running process (\<open>handles\<close> in \<open>src/kernel/syscall.c\<close>) and the table of the
  modules that have files (\<open>file_ops\<close> in \<open>src/kernel/module.c\<close>), and with them a kernel for the
  pseudo-terminals: both interpretations of \<open>kernel_files\<close>. What the rest of the kernel answers is
  free: whether an allocation succeeds, whether a signal is waiting, which addresses are the program's.
\<close>

section \<open>The table of descriptors\<close>

record os =
  handles :: "handle list"
  file_ops :: "bool list"
  ids :: "u32 \<times> u32 \<times> u32"
  sent :: "(u32 \<times> u32) list"
  answers :: "nat \<Rightarrow> bool"
  asked :: nat
  window :: "u64 \<Rightarrow> u64 \<Rightarrow> bool"
  interrupts :: "nat \<Rightarrow> bool"
  checked :: nat
  script :: "(handle \<times> u64 \<times> u64) list"
  others :: "handle list"

abbreviation (input) PROGRAM_FILES :: nat where "PROGRAM_FILES \<equiv> 1024"

definition free_handle :: handle where
  "free_handle = \<lparr>fd_used = 0, fd_writer = 0, fd_start = 0, fd_size = 0, fd_offset = 0, fd_folder = 0, fd_ofd = 0\<rparr>"

definition mem_answer :: "os \<Rightarrow> bool \<times> os" where
  "mem_answer s = (answers s (asked s), s\<lparr>asked := asked s + 1\<rparr>)"

text \<open>The doubling of \<open>files_grow\<close>; from one descriptor, ten times is enough.\<close>

primrec grow_room :: "nat \<Rightarrow> nat \<Rightarrow> nat \<Rightarrow> nat" where
  "grow_room 0 need room = room"
| "grow_room (Suc n) need room = (if room \<le> need \<and> room < PROGRAM_FILES then grow_room n need (room * 2) else room)"

definition files_grow :: "nat \<Rightarrow> os \<Rightarrow> (bool \<times> os) option" where
  "files_grow need s =
    (let room0 = grow_room 10 need (length (handles s));
         room = (if room0 < PROGRAM_FILES then room0 else PROGRAM_FILES)
     in if room \<le> need then Some (False, s)
        else let (got, s1) = mem_answer s
             in if \<not> got then Some (False, s1)
                else do { bigger \<leftarrow> blit (replicate room free_handle) 0 (handles s1); Some (True, s1\<lparr>handles := bigger\<rparr>) })"

lemma files_grow_shape:
  assumes "files_grow need s = Some (b, t)"
  obtains a n where "t = s\<lparr>asked := a, handles := handles s @ replicate n free_handle\<rparr>" "b \<Longrightarrow> need < length (handles t)"
proof -
  define room0 where "room0 = grow_room 10 need (length (handles s))"
  define room where "room = (if room0 < 1024 then room0 else 1024)"
  have "t = s \<or> t = s\<lparr>asked := asked s + 1\<rparr> \<or>
      (need < room \<and> length (handles s) \<le> room \<and> t = s\<lparr>asked := asked s + 1, handles := handles s @ replicate (room - length (handles s)) free_handle\<rparr>)"
    "b \<Longrightarrow> need < length (handles t)"
    using assms unfolding files_grow_def room0_def [symmetric] Let_def room_def [symmetric] mem_answer_def blit_def
    by (auto split: if_splits)
  then show ?thesis using that [of 0 "asked s"] that [of 0 "asked s + 1"] that [of "room - length (handles s)" "asked s + 1"] by auto
qed

lemma grown_free:
  assumes "files_grow (length (handles s)) s = Some (True, t)"
  shows "fd_used (handles t ! length (handles s)) = 0"
proof -
  obtain a n where "t = s\<lparr>asked := a, handles := handles s @ replicate n free_handle\<rparr>" "length (handles s) < length (handles t)"
    using files_grow_shape [OF assms] by metis
  then show ?thesis by (simp add: nth_append free_handle_def)
qed

text \<open>\<open>give_handle\<close> from descriptor \<open>i\<close> on.\<close>

function give_from :: "nat \<Rightarrow> handle \<Rightarrow> os \<Rightarrow> (u64 \<times> os) option" where
  "give_from i h s = do {
     (ok, s1) \<leftarrow> (if i = length (handles s) then files_grow i s else Some (True, s));
     if \<not> ok then Some (ERR EMFILE, s1)
     else do {
       x \<leftarrow> rd (handles s1) i;
       if fd_used x = 0 then Some (ucast (of_nat i :: u32), s1\<lparr>handles := (handles s1)[i := h\<lparr>fd_used := 1\<rparr>]\<rparr>)
       else give_from (i + 1) h s1
     }
   }"
  by pat_completeness auto
termination
  by (relation "measure (\<lambda>(i, h, s). length (handles s) - i)")
    (auto simp: rd_def grown_free split: if_splits)

declare give_from.simps [simp del]

definition os_give :: "handle \<Rightarrow> os \<Rightarrow> u64 \<times> os" where
  "os_give h s = (case give_from 0 h s of None \<Rightarrow> (ERR EMFILE, s) | Some r \<Rightarrow> r)"

definition reg_files :: "bool \<Rightarrow> u32 \<Rightarrow> os \<Rightarrow> u32 \<times> os" where
  "reg_files ops n s =
    (if \<not> ops then (0, if 1 \<le> n \<and> n \<le> 4 then s\<lparr>file_ops := (file_ops s)[unat (n - 1) := False]\<rparr> else s)
     else case find (\<lambda>i. \<not> file_ops s ! i) [0..<4] of
       None \<Rightarrow> (0, s)
     | Some i \<Rightarrow> (of_nat (i + 1), s\<lparr>file_ops := (file_ops s)[i := True]\<rparr>))"

lemma files_grow_Some:
  assumes "need = length (handles s)"
  shows "\<exists>b t. files_grow need s = Some (b, t)"
proof -
  have "length (handles s) \<le> r" if "need < r" for r using that assms by simp
  then show ?thesis unfolding files_grow_def Let_def mem_answer_def blit_def by (auto simp: not_le)
qed

text \<open>The descriptors of all processes that pass a test which does not look at \<open>used\<close>.\<close>

definition held_by :: "(handle \<Rightarrow> bool) \<Rightarrow> os \<Rightarrow> handle multiset" where
  "held_by P s = {# h \<in># mset (others s @ handles s). fd_used h \<noteq> 0 \<and> P h #}"

definition os_live :: "os \<Rightarrow> handle multiset" where
  "os_live s = {# h \<in># mset (others s @ handles s). fd_used h \<noteq> 0 \<and> fd_start h = MOD_MARK #}"

lemma os_live_held: "os_live s = held_by (\<lambda>h. fd_start h = MOD_MARK) s"
  by (simp add: os_live_def held_by_def)

lemma live_append_free: "filter_mset (\<lambda>h. fd_used h \<noteq> 0 \<and> P h) (mset (replicate n free_handle)) = {#}"
  by (induction n) (simp_all add: free_handle_def)

lemma held_by_put:
  assumes "i < length (handles s)" "fd_used (handles s ! i) = 0" "fd_used h \<noteq> 0"
  shows "held_by P (s\<lparr>handles := (handles s)[i := h]\<rparr>) = (if P h then add_mset h (held_by P s) else held_by P s)"
  using assms by (simp add: held_by_def mset_update filter_diff_mset)

lemma give_from_held:
  assumes "i \<le> length (handles s)" "P (h\<lparr>fd_used := 1\<rparr>) = P h"
  shows "\<exists>fd t. give_from i h s = Some (fd, t) \<and>
    held_by P t = (if 0 \<le> sint fd \<and> P h then add_mset (h\<lparr>fd_used := 1\<rparr>) (held_by P s) else held_by P s) \<and> others t = others s"
  using assms
proof (induction i h s rule: give_from.induct)
  case (1 i h s)
  obtain ok s1 where g: "(if i = length (handles s) then files_grow i s else Some (True, s)) = Some (ok, s1)"
    using files_grow_Some [of i s] by (cases "i = length (handles s)") auto
  then obtain a n where n: "s1 = s\<lparr>asked := a, handles := handles s @ replicate n free_handle\<rparr>" "ok \<Longrightarrow> i < length (handles s1)"
  proof (cases "i = length (handles s)")
    case True
    then show ?thesis using g files_grow_shape [of i s ok s1] that by auto
  next
    case False
    then show ?thesis using g "1.prems"(1) that [of 0 "asked s"] by auto
  qed
  have s1: "held_by P s1 = held_by P s" "others s1 = others s"
    using live_append_free [of P n] by (simp_all add: n(1) held_by_def)
  show ?case
  proof (cases ok)
    case False
    have "give_from i h s = Some (ERR EMFILE, s1)" unfolding give_from.simps [of i h s] g using False by simp
    moreover have "sint (ERR EMFILE) < 0" by (simp add: ERR_def)
    ultimately show ?thesis using s1 by (intro exI [of _ "ERR EMFILE"] exI [of _ s1]) simp
  next
    case True
    have i: "i < length (handles s1)" using n(2) True by simp
    show ?thesis
    proof (cases "fd_used (handles s1 ! i) = 0")
      case True
      let ?t = "s1\<lparr>handles := (handles s1)[i := h\<lparr>fd_used := 1\<rparr>]\<rparr>"
      have "give_from i h s = Some (ucast (of_nat i :: u32), ?t)"
        unfolding give_from.simps [of i h s] g using \<open>ok\<close> True i by simp
      moreover have "0 \<le> sint (ucast (of_nat i :: u32) :: u64)"
        by (simp add: signed_ucast_eq signed_take_bit_nonnegative_iff bit_uint_iff)
      ultimately show ?thesis using held_by_put [OF i True, of "h\<lparr>fd_used := 1\<rparr>" P] s1 "1.prems"(2) by simp
    next
      case False
      have "give_from i h s = give_from (i + 1) h s1" unfolding give_from.simps [of i h s] g using \<open>ok\<close> False i by simp
      moreover obtain fd t where "give_from (i + 1) h s1 = Some (fd, t)"
          "held_by P t = (if 0 \<le> sint fd \<and> P h then add_mset (h\<lparr>fd_used := 1\<rparr>) (held_by P s1) else held_by P s1)" "others t = others s1"
        using "1.IH" [OF g refl _ _ False _ "1.prems"(2)] i \<open>ok\<close> by auto
      ultimately show ?thesis using s1 by auto
    qed
  qed
qed

lemma os_give_held:
  assumes "os_give h k = (fd, k')" "P (h\<lparr>fd_used := 1\<rparr>) = P h"
  shows "held_by P k' = (if 0 \<le> sint fd \<and> P h then add_mset (h\<lparr>fd_used := 1\<rparr>) (held_by P k) else held_by P k)" "others k' = others k"
  using give_from_held [of 0 k P h, OF _ assms(2)] assms(1) by (auto simp: os_give_def)

section \<open>Kernels for the terminals\<close>

text \<open>\<open>quiet\<close>: nothing else runs while a call waits.\<close>

definition quiet :: "os kernel" where
  "quiet =
    \<lparr>signal_pgrp = (\<lambda>g sig s. s\<lparr>sent := sent s @ [(g, sig)]\<rparr>),
     process_ids = ids,
     user_range = (\<lambda>a n s. window s a n),
     give_handle = os_give,
     heap_alloc = (\<lambda>n. mem_answer),
     heap_free = (\<lambda>s. s),
     interrupt_check = (\<lambda>s. (interrupts s (checked s), s\<lparr>checked := checked s + 1\<rparr>)),
     thread_yield = (\<lambda>s. s),
     files_register = reg_files\<rparr>"

definition os_at :: "os \<Rightarrow> nat \<Rightarrow> handle option" where
  "os_at s d =
    (if d < length (handles s) \<and> fd_used (handles s ! d) \<noteq> 0 \<and> fd_start (handles s ! d) = MOD_MARK
     then Some (handles s ! d) else None)"

definition os_forget :: "nat \<Rightarrow> os \<Rightarrow> os" where
  "os_forget d s = s\<lparr>handles := (handles s)[d := (handles s ! d)\<lparr>fd_used := 0\<rparr>]\<rparr>"

lemma os_live_simps [simp]:
  "os_live (s\<lparr>sent := a\<rparr>) = os_live s" "os_live (s\<lparr>asked := n\<rparr>) = os_live s" "os_live (s\<lparr>checked := n\<rparr>) = os_live s"
  "os_live (s\<lparr>script := x\<rparr>) = os_live s"
  by (simp_all add: os_live_def)

lemma os_give_live:
  assumes "fd_start h = MOD_MARK" "os_give h k = (fd, k')"
  shows "os_live k' = (if 0 \<le> sint fd then add_mset (h\<lparr>fd_used := 1\<rparr>) (os_live k) else os_live k)"
  using os_give_held(1) [OF assms(2), of "\<lambda>h. fd_start h = MOD_MARK"] assms(1) by (simp add: os_live_held)

lemma os_forget_live:
  assumes "os_at k d = Some h"
  shows "os_live (os_forget d k) = os_live k - {#h#}"
proof -
  have d: "d < length (handles k)" "handles k ! d = h" "fd_used h \<noteq> 0" "fd_start h = MOD_MARK"
    using assms by (auto simp: os_at_def split: if_splits)
  obtain M where "mset (handles k) = add_mset h M" using d(1,2) by (metis multi_member_split nth_mem set_mset_mset)
  then show ?thesis using d by (simp add: os_live_def os_forget_def mset_update filter_diff_mset)
qed

lemma os_at_live: "os_at k d = Some h \<Longrightarrow> h \<in># os_live k"
  by (auto simp: os_at_def os_live_def split: if_splits)

interpretation idle: kernel_files quiet os_live os_at os_forget
proof
  show "heap_alloc quiet n k = (b, k') \<Longrightarrow> os_live k' = os_live k" for n k b k' by (auto simp: quiet_def mem_answer_def)
  show "interrupt_check quiet k = (b, k') \<Longrightarrow> os_live k' = os_live k" for k b k' by (auto simp: quiet_def)
  show "h \<in># os_live k \<Longrightarrow> fd_start h = 0xFFFFFFF7" for h k by (auto simp: os_live_def)
qed (simp_all add: quiet_def os_give_live os_at_live os_forget_live)

text \<open>
  \<open>busy\<close>: at each yield a terminal emulator types the next text of its script at a terminal it has
  open, as \<open>pty_write\<close> on the master's descriptor does.
\<close>

definition type_next :: "os tty \<Rightarrow> os tty" where
  "type_next s =
    (case script (kern s) of
       [] \<Rightarrow> s
     | (h, buf, n) # later \<Rightarrow>
         let s1 = s\<lparr>kern := (kern s)\<lparr>script := later\<rparr>\<rparr>
         in if h \<in># os_live (kern s) \<and> \<not> is_slave h
            then case pty_write quiet 0 h buf n s1 of Ended r t \<Rightarrow> t | _ \<Rightarrow> s1
            else s1)"

definition busy :: "os kernel" where
  "busy = quiet\<lparr>thread_yield := type_next\<rparr>"

lemma master_write_live:
  assumes "sound os_live s" "h \<in># os_live (kern s)" "\<not> is_slave h" "pty_write quiet n h buf cnt s = Ended r t"
  shows "os_live (kern t) = os_live (kern s)"
proof -
  obtain p where p: "pty_of h s = Some p" "pty_ok p" using live_alive [OF assms(1,2)] by metis
  show ?thesis using assms(3,4) idle.typing_ok [OF p(2) refl, of "[0..<unat cnt]" "\<lambda>i. umem s (buf + of_nat i)" "kern s"]
    by (auto simp: pty_write_def p(1) gives_iff ended_def set_pty_which)
qed

lemma type_next_ok:
  assumes "sound os_live s"
  shows "sound os_live (type_next s) \<and> os_live (kern (type_next s)) = os_live (kern s)"
proof (cases "script (kern s)")
  case (Cons x later)
  obtain h buf n where x: "x = (h, buf, n)" by (cases x)
  let ?s = "s\<lparr>kern := (kern s)\<lparr>script := later\<rparr>\<rparr>"
  have s: "sound os_live ?s" by (rule idle.sound_kern [OF assms]) simp
  show ?thesis
  proof (cases "h \<in># os_live (kern s) \<and> \<not> is_slave h")
    case True
    then have "safe os_live h (pty_write quiet 0 h buf n ?s)" using idle.pty_write_safe [OF s] by simp
    then show ?thesis using True Cons x s master_write_live [OF s, of h 0 buf n]
      by (cases "pty_write quiet 0 h buf n ?s") (auto simp: type_next_def Let_def)
  next
    case False
    have "type_next s = ?s" unfolding type_next_def Cons x list.case prod.case Let_def if_not_P [OF False] ..
    then show ?thesis using s by simp
  qed
qed (use assms in \<open>simp add: type_next_def\<close>)

interpretation shared: kernel_files busy os_live os_at os_forget
proof
  show "heap_alloc busy n k = (b, k') \<Longrightarrow> os_live k' = os_live k" for n k b k'
    by (auto simp: busy_def quiet_def mem_answer_def)
  show "interrupt_check busy k = (b, k') \<Longrightarrow> os_live k' = os_live k" for k b k' by (auto simp: busy_def quiet_def)
  show "h \<in># os_live k \<Longrightarrow> fd_start h = 0xFFFFFFF7" for h k by (auto simp: os_live_def)
qed (simp_all add: busy_def quiet_def os_give_live os_at_live os_forget_live type_next_ok)

end
