(* ===== verification/PtyProps.thy ===== *)
theory PtyProps
  imports Files
begin

text \<open>
  What the pseudo-terminals promise to the programs that use them: every descriptor has its terminal,
  no call leaves its arrays, typing and reading are those of a terminal, a waiting call ends when what
  it waits for happens, and the errors are the right ones. The last section records where the code
  does less than it means to.
\<close>

section \<open>Typing\<close>

lemma typing_view:
  assumes "pty_ok p"
  shows "gives (for_each is (\<lambda>i. input K (f i)) (p, k)) (\<lambda>(q, k'). pty_ok q \<and> core q = core p \<and>
    view_of q = fold (typed_char (tio p)) (map f is) (view_of p))"
  using assms
proof (induction "is" arbitrary: p k)
  case (Cons i "is")
  show ?case unfolding for_each.simps
  proof (rule gives_then [OF input_refines [OF Cons.prems]], clarify)
    fix q k' assume q: "pty_ok q" "core q = core p" "view_of q = typed_char (tio p) (f i) (view_of p)"
    show "gives (for_each is (\<lambda>i. input K (f i)) (q, case signal_of (tio p) (as_typed (tio p) (f i)) of None \<Rightarrow> k | Some sig \<Rightarrow> signal_pgrp K (pgrp p) sig k))
      (\<lambda>(r, k''). pty_ok r \<and> core r = core p \<and> view_of r = fold (typed_char (tio p)) (map f (i # is)) (view_of p))"
      by (rule gives_mono [OF Cons.IH [OF q(1)]]) (auto simp: q core_tio [OF q(2)])
  qed
qed simp

text \<open>A character that is only itself: no signal, no editing, no end of line.\<close>

definition plain :: "termios \<Rightarrow> u8 \<Rightarrow> bool" where
  "plain t c \<longleftrightarrow> as_typed t c = c \<and> signal_of t c = None \<and> c \<notin> {cc t ! 2, 8, cc t ! 3, cc t ! 14, cc t ! 4, 10, cc t ! 11}"

lemma typed_plain:
  assumes "lflag t AND 2 \<noteq> 0" "plain t c" "length (held x) < 255"
  shows "typed_char t c x = show_text (echoed t c) (x\<lparr>held := held x @ [c]\<rparr>)"
  using assms by (simp add: typed_char_def plain_def edited_def)

lemma typed_text:
  assumes "lflag t AND 2 \<noteq> 0" "\<forall>c \<in> set tx. plain t c" "length (held x) + length tx \<le> 255"
  shows "held (fold (typed_char t) tx x) = held x @ tx \<and> typed (fold (typed_char t) tx x) = typed x"
  using assms(2,3)
proof (induction tx arbitrary: x)
  case (Cons c tx)
  then have "length (held x) < 255" "plain t c" by auto
  then show ?case using Cons.IH [of "typed_char t c x"] Cons.prems by (simp add: typed_plain [OF assms(1)] show_text_def)
qed simp

lemma typed_newline:
  assumes "lflag t AND 2 \<noteq> 0" "signal_of t 10 = None" "10 \<notin> {cc t ! 2, cc t ! 3, cc t ! 14, cc t ! 4}"
  shows "typed_char t 10 x = deliver (show_text (echoed t 10) (x\<lparr>held := held x @ [10]\<rparr>))"
  using assms by (simp add: typed_char_def as_typed_def edited_def)

section \<open>The properties\<close>

text \<open>A machine with one terminal open at its master's end, and one with none.\<close>

definition no_files :: os where
  "no_files =
    \<lparr>handles = [free_handle], file_ops = [True, False, False, False], ids = (1, 1, 1), sent = [], answers = (\<lambda>n. True), asked = 0,
     window = (\<lambda>a n. True), interrupts = (\<lambda>n. False), checked = 0, script = [], others = []\<rparr>"

definition booted :: "os tty" where
  "booted = \<lparr>ptys = replicate 8 None, files_slot = 1, umem = (\<lambda>a. if a = 0 then 0x68 else 10), kern = no_files\<rparr>"

definition first_master :: handle where
  "first_master = (master_handle 0 0 booted)\<lparr>fd_used := 1\<rparr>"

definition one_open :: "os tty" where
  "one_open = booted\<lparr>ptys := Some new_pty # replicate 7 None, kern := no_files\<lparr>asked := 1, handles := [first_master]\<rparr>\<rparr>"

lemma booted_sound: "sound os_live booted"
  by (simp add: sound_def tty_ok_def booted_def no_files_def os_live_def free_handle_def counts_def)

lemma first_master_ends: "on_pty first_master" "which first_master = 0" "\<not> is_slave first_master" "fd_start first_master = 0xFFFFFFF7"
  using master_handle_ends [of 0 0 booted] by (simp_all add: first_master_def)

lemma one_open_live: "os_live (kern one_open) = {#first_master#}"
  using first_master_ends(4) by (simp add: os_live_def one_open_def no_files_def) (simp add: first_master_def)

lemma one_open_sound: "sound os_live one_open"
proof -
  have "tty_ok one_open" unfolding tty_ok_def less_8 using new_pty_ok by (simp add: one_open_def nth_Cons')
  moreover have "\<forall>n < 8. counts {#first_master#} n (ptys one_open ! n)"
    unfolding less_8 using first_master_ends by (simp add: one_open_def counts_def nth_Cons' new_pty_def)
  ultimately show ?thesis using first_master_ends(1) unfolding sound_def one_open_live by simp
qed

lemma open_ptmx: "pty_open busy ptmx 0 booted = (0, one_open)"
proof -
  have "os_give (master_handle 0 0 booted) (no_files\<lparr>asked := 1\<rparr>) = (0, kern one_open)"
    by (simp add: os_give_def give_from.simps [of 0] no_files_def one_open_def first_master_def free_handle_def)
  moreover have "master_handle 0 0 (booted\<lparr>kern := k, ptys := q\<rparr>) = master_handle 0 0 booted" for k q
    by (simp add: master_handle_def)
  moreover have "kern booted = no_files" "free_pty (ptys booted) = 0" "(ptys booted)[0 := Some new_pty] = Some new_pty # replicate 7 None"
    by (simp_all add: booted_def numeral_eq_Suc)
  moreover have "answers no_files (asked no_files)" "no_files\<lparr>asked := asked no_files + 1\<rparr> = no_files\<lparr>asked := 1\<rparr>"
    by (simp_all add: no_files_def)
  ultimately show ?thesis
    by (simp add: pty_open_def busy_def quiet_def mem_answer_def one_open_def Let_def)
qed

text \<open>
  C3. The descriptors keep the terminals: after any calls of any programs, in any order (opening,
  duplicating, closing, reading, writing, controls, other programs typing while a call waits), the
  arrays of every terminal are well formed, its two counts are the numbers of descriptors open on its
  ends, every open descriptor has its terminal, and a terminal that is there has a descriptor, so none
  is used after it was freed and none is left behind. (invariant)
\<close>
theorem terminals_sound:
  assumes "sound os_live s" "(tty_step busy os_live os_at os_forget)\<^sup>*\<^sup>* s t"
  shows "sound os_live t \<and> (\<forall>h. h \<in># os_live (kern t) \<longrightarrow> (\<exists>p. pty_of h t = Some p \<and> pty_ok p)) \<and>
    (\<forall>n < PTYS. ptys t ! n \<noteq> None \<longrightarrow> (\<exists>h. h \<in># os_live (kern t) \<and> which h = n))"
proof -
  have t: "sound os_live t" by (rule shared.tty_steps_sound [OF assms(2,1)])
  have "\<exists>h. h \<in># os_live (kern t) \<and> which h = n" if n: "n < 8" "ptys t ! n \<noteq> None" for n
  proof -
    have "0 < ends (os_live (kern t)) n False + ends (os_live (kern t)) n True"
      using tty_soundD(5) [OF t n(1)] n(2) by (auto simp: counts_def)
    then have "{# h \<in># os_live (kern t). which h = n \<and> is_slave h = False #} \<noteq> {#} \<or> {# h \<in># os_live (kern t). which h = n \<and> is_slave h = True #} \<noteq> {#}"
      unfolding ends_def by (metis add_is_0 less_numeral_extra(3) size_empty)
    then show ?thesis by (metis (mono_tags, lifting) mem_Collect_eq multiset_nonemptyE set_mset_filter)
  qed
  then show ?thesis using t live_alive [OF t] by metis
qed

theorem terminals_sound_witness:
  "sound os_live booted \<and> (tty_step busy os_live os_at os_forget)\<^sup>*\<^sup>* booted one_open \<and> sound os_live one_open \<and>
    (\<exists>p. pty_of first_master one_open = Some p \<and> pty_ok p)"
proof -
  have "tty_step busy os_live os_at os_forget booted one_open"
    by (rule tty_step.opens [OF open_ptmx]) (simp add: one_open_live)
  then have "(tty_step busy os_live os_at os_forget)\<^sup>*\<^sup>* booted one_open" by (rule r_into_rtranclp)
  then show ?thesis using terminals_sound [OF booted_sound, of one_open] booted_sound by (simp add: one_open_live)
qed

text \<open>
  C15. No call on an open descriptor goes wrong while the descriptor stays open: reading, writing and every
  control, on either end and whatever the arguments, end in a well-formed state or are still waiting;
  none accesses a queue outside its array or a terminal that is gone. While it waits, other programs may
  type at any master, but do not close the descriptor it waits on: \<open>closed_while_waiting\<close> below shows that
  this would leave it without its terminal. (type)
\<close>
theorem pty_calls_safe:
  assumes "sound os_live s" "h \<in># os_live (kern s)" "Suc (size (os_live (kern s))) < 2 ^ 32"
  shows "safe os_live h (pty_read busy fuel h buf cnt s) \<and> safe os_live h (pty_write busy fuel h buf cnt s) \<and>
    (\<exists>r t. pty_ioctl busy h request arg s = Some (r, t) \<and> sound os_live t \<and> h \<in># os_live (kern t))"
  using shared.pty_read_safe [OF assms(1,2)] shared.pty_write_safe [OF assms(1,2)] shared.pty_ioctl_sound [OF assms]
  by (auto simp: gives_iff)

theorem pty_calls_safe_witness:
  "safe os_live first_master (pty_read busy 1 first_master 0 5 one_open) \<and>
    safe os_live first_master (pty_write busy 1 first_master 0 2 one_open)"
  using pty_calls_safe [OF one_open_sound, of first_master 1 0 5] pty_calls_safe [OF one_open_sound, of first_master 1 0 2]
  by (simp add: one_open_live)

text \<open>
  C7. The line discipline: one character typed does to the arrays of a terminal what \<open>typed_char\<close> says
  it does to the line being gathered, the bytes to be read and the bytes shown, with everything else
  as it was; and the foreground group gets a signal exactly when the character stands for one.
  (refinement)
\<close>
theorem input_is_typed_char:
  assumes "pty_ok p"
  shows "\<exists>q. input K c (p, k) = Some (q, case signal_of (tio p) (as_typed (tio p) c) of None \<Rightarrow> k | Some sig \<Rightarrow> signal_pgrp K (pgrp p) sig k) \<and>
    pty_ok q \<and> core q = core p \<and> view_of q = typed_char (tio p) c (view_of p)"
  using input_refines [OF assms, of K c k] by (auto simp: gives_iff)

theorem input_is_typed_char_witness:
  "\<exists>q. input quiet 3 (new_pty, no_files) = Some (q, no_files\<lparr>sent := [(0, 2)]\<rparr>) \<and> shown (view_of q) = [0x5E, 0x43]"
proof -
  have "signal_of default_termios (as_typed default_termios 3) = Some 2" by code_simp
  moreover have "echoed default_termios (as_typed default_termios 3) = [0x5E, 0x43]" by code_simp
  moreover have "view_of new_pty = \<lparr>held = [], typed = [], shown = [], at_eof = False\<rparr>" by (simp add: view_of_def new_pty_def)
  ultimately show ?thesis using input_is_typed_char [OF new_pty_ok, of quiet 3 no_files]
    by (auto simp: new_pty_def quiet_def no_files_def typed_char_def show_text_def Let_def)
qed

text \<open>
  C19. A line typed is the line read: with nothing typed before, a master's write of up to 255 plain
  characters and a newline takes them all, and the slave's next read with room for them gives exactly
  that line. (round trip)
\<close>
theorem typed_line_read:
  assumes p: "pty_of hm s = Some p" "pty_ok p" "length (ptys s) = PTYS"
    and h: "\<not> is_slave hm" "is_slave hs" "fd_folder hs = fd_folder hm"
    and empty: "in_len p = 0" "line_len p = 0"
    and ch: "lflag (tio p) AND 2 \<noteq> 0" "\<forall>c \<in> set tx. plain (tio p) c" "length tx \<le> 255"
      "signal_of (tio p) 10 = None" "10 \<notin> {cc (tio p) ! 2, cc (tio p) ! 3, cc (tio p) ! 14, cc (tio p) ! 4}"
    and buf: "peek (umem s) buf (length tx + 1) = tx @ [10]" "length tx < unat cnt"
  shows "\<exists>t u. pty_write K fuel hm buf (of_nat (length tx + 1)) s = Ended (of_nat (length tx + 1)) t \<and>
    pty_read K (Suc fuel) hs dst cnt t = Ended (of_nat (length tx + 1)) u \<and>
    peek (umem u) dst (length tx + 1) = tx @ [10]"
proof -
  let ?n = "length tx + 1" and ?t = "tio p"
  have un: "unat (of_nat ?n :: u64) = ?n"
    using ch(3) unfolding unsigned_of_nat by (simp add: take_bit_nat_eq_self)
  have m: "map (\<lambda>i. umem s (buf + of_nat i)) [0..<?n] = tx @ [10]" using buf(1) by (simp add: peek_def)
  obtain q k where q: "for_each [0..<?n] (\<lambda>i. input K (umem s (buf + of_nat i))) (p, kern s) = Some (q, k)"
    "pty_ok q" "core q = core p" "view_of q = fold (typed_char ?t) (tx @ [10]) (view_of p)"
    using typing_view [OF p(2), of "[0..<?n]" K "\<lambda>i. umem s (buf + of_nat i)" "kern s"] unfolding m by (auto simp: gives_iff)
  have e: "held (view_of p) = []" "typed (view_of p) = []" using empty by (simp_all add: view_of_def)
  have tq: "typed (view_of q) = tx @ [10]"
    using typed_text [OF ch(1,2), of "view_of p"] ch(3) e by (simp add: q(4) typed_newline [OF ch(1,4,5)] deliver_def show_text_def)
  have "unat (in_len q) = ?n" using view_lengths(2) [OF q(2)] unfolding tq by simp
  moreover have "take (unat (in_len q)) (in_q q) = tx @ [10]" using tq by (simp add: view_of_def)
  ultimately have il: "unat (in_len q) = ?n" "take (unat (in_len q)) (in_q q) = tx @ [10]" by auto
  define t where "t = set_pty hm (Some q) (s\<lparr>kern := k\<rparr>)"
  have w: "pty_write K fuel hm buf (of_nat ?n) s = Ended (of_nat ?n) t"
    using h(1) q(1) un by (simp add: pty_write_def p(1) ended_def t_def)
  have po: "pty_of hs t = Some q"
  proof -
    have "on_pty hm" using pty_of_SomeD [OF p(1)] by simp
    moreover have "on_pty hs = on_pty hm" "which hs = which hm" using h(3) by (simp_all add: on_pty_def which_def)
    ultimately show ?thesis using p(3) on_pty_which [of hm] by (simp add: pty_of_which t_def set_pty_which)
  qed
  have i0: "0 < in_len q" "in_len q \<noteq> 0" using il(1) by (auto simp: word_nat)
  have no: "c \<noteq> 10" if "c \<in> set tx" for c using ch(2) that by (auto simp: plain_def)
  have "takeWhile (\<lambda>c. c \<noteq> 10) (tx @ [10]) = tx" using no by (simp add: takeWhile_append)
  then obtain d where d: "line_end (in_q q) (in_len q) 0 = Some d" "unat d = length tx"
    using line_end_ok [of "in_len q" "in_q q" 0] pty_okD(1,5) [OF q(2)] il by (auto simp: gives_iff)
  have d1: "unat (d + 1) = ?n" "d < in_len q" using d(2) ch(3) il(1) by (simp_all add: unat_Suc_small word_nat)
  then have dc: "unat (ucast (d + 1) :: u64) = ?n" using ch(3) by (simp add: unsigned_ucast_eq take_bit_nat_eq_self)
  then have upto: "(if d < in_len q \<and> ucast (d + 1) < cnt then ucast (d + 1) else cnt) = of_nat ?n"
    using d1(2) buf(2) un by (auto simp: word_nat intro!: word_unat_eq_iff [THEN iffD2])
  obtain c q1 l m1 where tk: "take_queue (in_q q) (in_len q) dst (of_nat ?n) (umem t) = Some (c, q1, l, m1)"
    "c = min (ucast (in_len q)) (of_nat ?n)" "m1 = poke (umem t) dst (take (unat c) (in_q q))"
    using take_queue_ok [OF pty_okD(1,5) [OF q(2)], of dst "of_nat ?n" "umem t"] by (auto simp: gives_iff)
  have ic: "ucast (in_len q) = (of_nat ?n :: u64)"
    using il(1) un ch(3) by (intro word_unat_eq_iff [THEN iffD2]) (simp add: unsigned_ucast_eq take_bit_nat_eq_self)
  then have c: "c = of_nat ?n" "m1 = poke (umem t) dst (tx @ [10])" using tk(2,3) il un by simp_all
  have "take_in hs dst (of_nat ?n) q t = Some (of_nat ?n, set_pty hs (Some (q\<lparr>in_q := q1, in_len := l\<rparr>)) (t\<lparr>umem := m1\<rparr>))"
    using tk(1) c(1) by (simp add: take_in_def)
  moreover have "wait_for K (Suc fuel) hs slave_can_read t = Ended 0 t" using i0 by (simp add: po slave_can_read_def)
  ultimately have "pty_read K (Suc fuel) hs dst cnt t = Ended (of_nat ?n) (set_pty hs (Some (q\<lparr>in_q := q1, in_len := l\<rparr>)) (t\<lparr>umem := m1\<rparr>))"
    using h(2) i0 core_tio [OF q(3)] ch(1) d(1) by (simp add: pty_read_def po upto ended_def)
  moreover have "peek m1 dst ?n = tx @ [10]" unfolding c(2) using peek_poke [of "tx @ [10]"] ch(3) by simp
  ultimately show ?thesis using w by (auto simp: set_pty_which)
qed

definition first_slave :: handle where
  "first_slave = (slave_handle 0 0 booted)\<lparr>fd_used := 1\<rparr>"

lemma first_slave_ends: "is_slave first_slave" "fd_folder first_slave = fd_folder first_master" "on_pty first_slave" "which first_slave = 0"
  "fd_offset first_slave AND 0x800 = 0"
proof -
  show "is_slave first_slave" "on_pty first_slave" "which first_slave = 0"
    using slave_handle_ends [of 0 0 booted] by (simp_all add: first_slave_def)
  show "fd_folder first_slave = fd_folder first_master" "fd_offset first_slave AND 0x800 = 0"
    by (simp_all add: first_slave_def first_master_def slave_handle_def master_handle_def)
qed

lemma one_open_pty: "pty_of first_master one_open = Some new_pty" "length (ptys one_open) = 8"
  using first_master_ends by (simp_all add: pty_of_which one_open_def)

theorem typed_line_read_witness:
  "\<exists>t u. pty_write quiet 0 first_master 0 2 one_open = Ended 2 t \<and> pty_read quiet 1 first_slave 100 9 t = Ended 2 u \<and>
    peek (umem u) 100 (Suc (Suc 0)) = [0x68, 10]"
proof -
  have "plain default_termios 0x68" "signal_of default_termios 10 = None" by code_simp+
  moreover have "lflag default_termios AND 2 \<noteq> 0" "10 \<notin> {cc default_termios ! 2, cc default_termios ! 3, cc default_termios ! 14, cc default_termios ! 4}"
    by code_simp+
  moreover have "tio new_pty = default_termios" "in_len new_pty = 0" "line_len new_pty = 0" by (simp_all add: new_pty_def)
  moreover have "peek (umem one_open) 0 (length [0x68 :: u8] + 1) = [0x68] @ [10]" by (simp add: peek_def one_open_def booted_def numeral_eq_Suc)
  ultimately show ?thesis
    using typed_line_read [OF one_open_pty(1) new_pty_ok one_open_pty(2) first_master_ends(3) first_slave_ends(1,2), of "[0x68]" 0 9 quiet 0 100]
    by simp
qed

text \<open>The state in which a waiting call looks again: a look for a signal, and the other programs' turn.\<close>

definition next_look :: "'k kernel \<Rightarrow> 'k tty \<Rightarrow> 'k tty" where
  "next_look K s = thread_yield K (s\<lparr>kern := snd (interrupt_check K (kern s))\<rparr>)"

lemma wait_for_ends:
  assumes "\<And>m. m < n \<Longrightarrow> \<exists>p. pty_of h ((next_look K ^^ m) s) = Some p \<and> \<not> test p \<and> \<not> fst (interrupt_check K (kern ((next_look K ^^ m) s)))"
    "pty_of h ((next_look K ^^ n) s) = Some p" "test p" "n < fuel" "fd_offset h AND 0x800 = 0"
  shows "wait_for K fuel h test s = Ended 0 ((next_look K ^^ n) s)"
  using assms
proof (induction n arbitrary: s fuel)
  case 0
  then show ?case by (cases fuel) simp_all
next
  case (Suc n)
  obtain f where f: "fuel = Suc f" using Suc.prems(4) by (cases fuel) auto
  obtain q where q: "pty_of h s = Some q" "\<not> test q" "\<not> fst (interrupt_check K (kern s))" using Suc.prems(1) [of 0] by auto
  have "wait_for K f h test (next_look K s) = Ended 0 ((next_look K ^^ n) (next_look K s))"
    by (rule Suc.IH) (use Suc.prems(1) [of "Suc _"] Suc.prems(2-5) f in \<open>simp_all add: funpow_swap1\<close>)
  moreover have "wait_for K fuel h test s = wait_for K f h test (next_look K s)"
    using q Suc.prems(5) by (cases "interrupt_check K (kern s)") (simp add: f next_look_def)
  ultimately show ?case by (simp add: funpow_swap1)
qed

text \<open>
  C20. A read that has to wait ends as soon as there is something: on either end, if the first state
  with something to read comes after \<open>n\<close> turns of the other programs and no signal arrives before,
  the call does not wait longer and answers what a read started in that state answers. (liveness)
\<close>
theorem waiting_read_resumes:
  fixes h :: handle
  defines "can \<equiv> if is_slave h then slave_can_read else master_can_read"
  assumes "\<And>m. m < n \<Longrightarrow> \<exists>p. pty_of h ((next_look K ^^ m) s) = Some p \<and> \<not> can p \<and> \<not> fst (interrupt_check K (kern ((next_look K ^^ m) s)))"
    "pty_of h ((next_look K ^^ n) s) = Some p" "can p" "n < fuel" "fd_offset h AND 0x800 = 0"
  shows "pty_read K fuel h buf cnt s = pty_read K 1 h buf cnt ((next_look K ^^ n) s)"
proof -
  have w: "wait_for K fuel h can s = Ended 0 ((next_look K ^^ n) s)"
    by (rule wait_for_ends [OF assms(2-6)])
  have w1: "wait_for K 1 h can ((next_look K ^^ n) s) = Ended 0 ((next_look K ^^ n) s)" using assms(3,4) by simp
  have "pty_of h s \<noteq> None" using assms(2) [of 0] assms(3) by (cases n) auto
  then show ?thesis using w w1 assms(3) unfolding pty_read_def can_def by (simp split: if_splits)
qed

definition ctrl_d :: "os kernel" where
  "ctrl_d = quiet\<lparr>thread_yield := (\<lambda>s. s\<lparr>ptys := Some (new_pty\<lparr>eof := True\<rparr>) # replicate 7 None\<rparr>)\<rparr>"

theorem waiting_read_resumes_witness:
  "pty_read ctrl_d 5 first_slave 100 9 one_open = pty_read ctrl_d 1 first_slave 100 9 ((next_look ctrl_d ^^ 1) one_open)"
proof (rule waiting_read_resumes [where n = 1 and p = "new_pty\<lparr>eof := True\<rparr>"])
  have c: "\<not> slave_can_read new_pty" "slave_can_read (new_pty\<lparr>eof := True\<rparr>)"
    by (simp_all add: slave_can_read_def new_pty_def default_termios_def)
  have o: "pty_of first_slave one_open = Some new_pty" using first_slave_ends by (simp add: pty_of_which one_open_def)
  show "\<exists>p. pty_of first_slave ((next_look ctrl_d ^^ m) one_open) = Some p \<and> \<not> (if is_slave first_slave then slave_can_read else master_can_read) p \<and>
      \<not> fst (interrupt_check ctrl_d (kern ((next_look ctrl_d ^^ m) one_open)))" if "m < 1" for m
    using that o c(1) first_slave_ends(1) by (simp add: ctrl_d_def quiet_def one_open_def no_files_def)
  show "pty_of first_slave ((next_look ctrl_d ^^ 1) one_open) = Some (new_pty\<lparr>eof := True\<rparr>)"
    using first_slave_ends by (simp add: pty_of_which next_look_def ctrl_d_def)
  show "(if is_slave first_slave then slave_can_read else master_can_read) (new_pty\<lparr>eof := True\<rparr>)" using c(2) first_slave_ends(1) by simp
qed (use first_slave_ends in simp_all)

text \<open>
  C38. The errors: a read that would have to wait on a non-blocking descriptor answers EAGAIN; with the other
  end gone, a slave's read of an empty queue is the end of the file, a slave's write answers EIO, and so
  does a master's read once everything shown has been read; a descriptor without a terminal answers EIO
  to everything. None of them changes the state, but that the end of the file takes the terminal's mark
  for a typed end of file with it. (error)
\<close>
theorem pty_errors:
  "(pty_of h s = None \<longrightarrow> pty_read K fuel h buf cnt s = Ended (ERR EIO) s \<and> pty_write K fuel h buf cnt s = Ended (ERR EIO) s \<and>
      pty_ioctl K h request arg s = Some (ERR EIO, s)) \<and>
   (\<forall>p. pty_of h s = Some p \<and> fd_offset h AND 0x800 \<noteq> 0 \<and> \<not> (if is_slave h then slave_can_read p else master_can_read p) \<longrightarrow>
      pty_read K (Suc fuel) h buf cnt s = Ended (ERR EAGAIN) s) \<and>
   (\<forall>p. pty_of h s = Some p \<and> is_slave h \<and> masters p = 0 \<longrightarrow>
      (in_len p = 0 \<longrightarrow> pty_read K (Suc fuel) h buf cnt s = Ended 0 (set_pty h (Some (p\<lparr>eof := False\<rparr>)) s)) \<and>
      (cnt \<noteq> 0 \<longrightarrow> pty_write K (Suc fuel) h buf cnt s = Ended (ERR EIO) s)) \<and>
   (\<forall>p. pty_of h s = Some p \<and> \<not> is_slave h \<and> opened p \<and> slaves p = 0 \<and> out_len p = 0 \<longrightarrow>
      pty_read K (Suc fuel) h buf cnt s = Ended (ERR EIO) s)"
proof (intro conjI allI impI; (elim conjE)?)
  fix p assume "pty_of h s = Some p" "is_slave h" "masters p = 0" "cnt \<noteq> 0"
  then show "pty_write K (Suc fuel) h buf cnt s = Ended (ERR EIO) s"
    by (cases "unat cnt") (simp_all add: pty_write_def slave_can_write_def unat_eq_0)
next
  have "ERR EAGAIN \<noteq> 0" by (simp add: ERR_def)
  then show "pty_read K (Suc fuel) h buf cnt s = Ended (ERR EAGAIN) s"
    if "pty_of h s = Some p" "fd_offset h AND 0x800 \<noteq> 0" "\<not> (if is_slave h then slave_can_read p else master_can_read p)" for p
    using that by (simp add: pty_read_def split: if_splits)
qed (auto simp: pty_read_def pty_write_def pty_ioctl_def slave_can_read_def master_can_read_def)

theorem pty_errors_witness:
  "pty_read quiet 1 (first_slave\<lparr>fd_offset := 0x40000800\<rparr>) 0 4 one_open = Ended (ERR EAGAIN) one_open \<and>
    pty_write quiet 1 (first_slave\<lparr>fd_folder := 9\<rparr>) 0 4 one_open = Ended (ERR EIO) one_open"
proof -
  have "pty_of (first_slave\<lparr>fd_offset := 0x40000800\<rparr>) one_open = Some new_pty" "\<not> slave_can_read new_pty"
    using first_slave_ends by (simp_all add: pty_of_def on_pty_def which_def one_open_def slave_can_read_def new_pty_def default_termios_def)
  moreover have "is_slave (first_slave\<lparr>fd_offset := 0x40000800\<rparr>)" by (simp add: is_slave_def)
  moreover have "pty_of (first_slave\<lparr>fd_folder := 9\<rparr>) one_open = None" by (simp add: pty_of_def)
  ultimately show ?thesis
    using pty_errors [of "first_slave\<lparr>fd_offset := 0x40000800\<rparr>" one_open quiet 0 0 4 0 0] pty_errors [of "first_slave\<lparr>fd_folder := 9\<rparr>" one_open quiet 1 0 4 0 0]
    by simp
qed

section \<open>Where the code does less than it means to\<close>

text \<open>
  A thread that closes a descriptor on which another thread of its program waits frees the terminal with
  the last one: the wait looks for its terminal again, and there is none.
\<close>

lemma closed_while_waiting:
  assumes "pty_of h s = Some p" "\<not> test p" "fd_offset h AND 0x800 = 0" "\<not> fst (interrupt_check K (kern s))" "pty_of h (next_look K s) = None"
  shows "wait_for K (Suc (Suc fuel)) h test s = Fault"
  using assms by (cases "interrupt_check K (kern s)") (simp add: next_look_def)

text \<open>
  A slave waits for room for two bytes, but goes on when there is room for one: its newline is then
  counted as written and only the carriage return is shown.
\<close>

lemma newline_lost:
  assumes "pty_of h s = Some p" "pty_ok p" "is_slave h" "out_len p = 4095" "masters p \<noteq> 0"
    "oflag (tio p) AND 1 \<noteq> 0" "oflag (tio p) AND 4 \<noteq> 0" "umem s buf = 10"
  shows "\<exists>q. pty_write K (Suc fuel) h buf 1 s = Ended 1 (set_pty h (Some q) s) \<and> shown (view_of q) = shown (view_of p) @ [13]"
proof -
  obtain q where q: "output_char 10 p = Some q" "view_of q = show_text (cooked (tio p) 10) (view_of p)"
    using output_char_becomes [OF assms(2)] by (rule becomesE)
  have "length (shown (view_of p)) = 4095" using view_lengths(3) [OF assms(2)] assms(4) by simp
  then have "shown (view_of q) = shown (view_of p) @ [13]" using assms(6,7) by (simp add: q(2) show_text_def cooked_def)
  moreover have "pty_write K (Suc fuel) h buf 1 s = Ended 1 (set_pty h (Some q) s)"
    using assms(1,3-5,8) q(1) by (simp add: pty_write_def slave_can_write_def)
  ultimately show ?thesis by blast
qed

text \<open>The number of a terminal wraps: \<open>pts/4294967296\<close> is \<open>pts/0\<close>.\<close>

lemma number_wraps: "number [0x70, 0x74, 0x73, 0x2F, 0x34, 0x32, 0x39, 0x34, 0x39, 0x36, 0x37, 0x32, 0x39, 0x36] = 0"
  by code_simp

text \<open>\<open>TCSETS2\<close> is below \<open>TCGETS2\<close>, so it takes 36 bytes too, and the speeds stay as they were.\<close>

lemma line_done_tio: "line_done p = Some q \<Longrightarrow> tio q = tio p"
  by (auto simp: line_done_def Let_def split: bind_splits)

lemma le_at_append: "length xs \<le> i \<Longrightarrow> le_at (xs @ ys) i n = le_at ys (i - length xs) n"
  by (simp add: le_at_def)

lemma termios_speeds: "length (cc t) = 19 \<Longrightarrow> ispeed (termios_of (termios_bytes t)) = ispeed t \<and> ospeed (termios_of (termios_bytes t)) = ospeed t"
proof -
  assume l: "length (cc t) = 19"
  have v: "le_val (le_bytes 4 (unat w)) = unat w" for w :: u32
    by (rule le_val_le_bytes) (use unat_bound [of w] in simp)
  show ?thesis using l by (simp add: termios_of_def termios_bytes_def le_at_append le_at_def v)
qed

lemma tcsets2_keeps_speeds:
  assumes "pty_of h s = Some p" "pty_ok p" "pty_ioctl K h 0x402C542B arg s = Some (r, t)" "pty_of h t = Some q" "length (ptys s) = 8"
  shows "ispeed (tio q) = ispeed (tio p) \<and> ospeed (tio q) = ospeed (tio p)"
proof -
  let ?bs = "peek (umem s) arg 36"
  let ?t = "termios_of (?bs @ drop 36 (termios_bytes (tio p)))"
  have l: "length (cc (tio p)) = 19" using pty_okD(4) [OF assms(2)] .
  have sp: "ispeed ?t = ispeed (tio p)" "ospeed ?t = ospeed (tio p)"
    using termios_speeds [OF l] l by (simp_all add: termios_of_def le_at_def)
  show ?thesis
  proof (cases "user_range K arg 36 (kern s)")
    case False
    then have "t = s" using assms(1,3) by (simp add: pty_ioctl_def)
    then show ?thesis using assms(1,4) by simp
  next
    case True
    then obtain q' where q': "set_termios 0x402C542B ?bs p = Some q'" "t = set_pty h (Some q') s"
      using assms(1,3) by (auto simp: pty_ioctl_def split: bind_splits)
    have "tio q' = ?t" using q'(1) by (auto simp: set_termios_def Let_def dest: line_done_tio split: if_splits)
    moreover have "q = q'" using assms(1,4,5) q'(2) on_pty_which [of h] by (auto simp: pty_of_which set_pty_which split: if_splits)
    ultimately show ?thesis using sp by simp
  qed
qed

end
