(* ===== verification/Pipes.thy ===== *)
theory Pipes
  imports Pty
begin

text \<open>
  Pipes, connected pairs and eventfds (\<open>src/kernel/syscall.c\<close>): the buffer that grows, its two ends and
  their counts, reads and writes that wait, and the messages of a pair with the descriptors sent along.
  The rest of the kernel is the record \<open>pipe_kernel\<close>. A pipe is named by its place in \<open>pipes\<close>, a table
  that is never freed. \<open>None\<close> and \<open>Fault\<close> are accesses outside a buffer, \<open>Waits\<close> a call still waiting.
\<close>

section \<open>Data\<close>

abbreviation (input) PIPES :: nat where "PIPES \<equiv> 256"
abbreviation (input) PIPE_FIRST :: u32 where "PIPE_FIRST \<equiv> 8192"
abbreviation (input) PIPE_CAP :: u32 where "PIPE_CAP \<equiv> 65536"
abbreviation (input) PAIR_FDS :: nat where "PAIR_FDS \<equiv> 16"
abbreviation (input) EFD_SEMAPHORE :: u32 where "EFD_SEMAPHORE \<equiv> 1"
abbreviation (input) PIPE_MARK :: u32 where "PIPE_MARK \<equiv> 0xFFFFFFFA"
abbreviation (input) SOCK_MARK :: u32 where "SOCK_MARK \<equiv> 0xFFFFFFF8"
abbreviation (input) PIPE_READ :: u32 where "PIPE_READ \<equiv> 0"
abbreviation (input) PIPE_WRITE :: u32 where "PIPE_WRITE \<equiv> 1"
abbreviation (input) PIPE_EVENT :: u32 where "PIPE_EVENT \<equiv> 2"
abbreviation (input) PIPE_FILE :: u32 where "PIPE_FILE \<equiv> 3"
abbreviation (input) PIPE_PAIR :: u32 where "PIPE_PAIR \<equiv> 4"
abbreviation (input) O_CLOEXEC :: u64 where "O_CLOEXEC \<equiv> 0x80000"
abbreviation (input) AF_UNIX :: u64 where "AF_UNIX \<equiv> 1"

text \<open>\<open>m_fds\<close> are the first \<open>nfd\<close> of the descriptors' places; \<open>p_room\<close> is how many messages there is room for.\<close>

record pmsg =
  m_at :: u64
  m_len :: u32
  m_pid :: u32
  m_fds :: "handle list"

record pipe =
  p_data :: "u8 list"
  p_size :: u32
  p_len :: u32
  p_read :: u32
  p_refs :: u32
  p_count :: u64
  p_fifo :: u32
  p_packets :: bool
  p_wrote :: u64
  p_taken :: u64
  p_msgs :: "pmsg list"
  p_room :: u32
  p_passcred :: bool
  p_last :: u32
  p_made :: "u8 list"

record 'k ipc =
  pipes :: "pipe list"
  pmem :: memory
  pair_sender :: u32
  env :: 'k

record 'k pipe_kernel =
  pk_alloc :: "u64 \<Rightarrow> 'k \<Rightarrow> bool \<times> 'k"
  pk_free :: "'k \<Rightarrow> 'k"
  pk_range :: "u64 \<Rightarrow> u64 \<Rightarrow> 'k \<Rightarrow> bool"
  pk_check :: "'k \<Rightarrow> bool \<times> 'k"
  pk_only :: "'k \<Rightarrow> bool"
  pk_yield :: "'k ipc \<Rightarrow> 'k ipc"
  pk_sigpipe :: "'k \<Rightarrow> 'k"
  pk_pid :: "'k \<Rightarrow> u32"
  pk_handle :: "u64 \<Rightarrow> 'k \<Rightarrow> handle option"
  pk_give :: "handle \<Rightarrow> 'k \<Rightarrow> u64 \<times> 'k"
  pk_unuse :: "u64 \<Rightarrow> 'k \<Rightarrow> 'k"
  pk_cloexec :: "u64 \<Rightarrow> 'k \<Rightarrow> 'k"
  pk_hold :: "handle \<Rightarrow> 'k \<Rightarrow> 'k"
  pk_forget :: "handle \<Rightarrow> 'k \<Rightarrow> 'k"
  pk_close :: "handle \<Rightarrow> 'k \<Rightarrow> 'k"

text \<open>
  \<open>pk_hold\<close> counts a descriptor of any other kind (\<open>ofd_hold\<close>, \<open>sock_hold\<close>, a module's \<open>hold\<close>); \<open>pk_forget\<close>
  is a module's \<open>drop\<close>, and \<open>pk_close\<close> is \<open>ofd_drop\<close> and \<open>sock_drop\<close>.
\<close>

definition u32_at :: "memory \<Rightarrow> u64 \<Rightarrow> u32" where
  "u32_at m a = of_nat (le_val (peek m a 4))"

definition u64_at :: "memory \<Rightarrow> u64 \<Rightarrow> u64" where
  "u64_at m a = of_nat (le_val (peek m a 8))"

definition put_u32 :: "memory \<Rightarrow> u64 \<Rightarrow> u32 \<Rightarrow> memory" where
  "put_u32 m a v = poke m a (le_bytes 4 (unat v))"

definition put_u64 :: "memory \<Rightarrow> u64 \<Rightarrow> u64 \<Rightarrow> memory" where
  "put_u64 m a v = poke m a (le_bytes 8 (unat v))"

definition empty_pipe :: pipe where
  "empty_pipe =
    \<lparr>p_data = [], p_size = 0, p_len = 0, p_read = 0, p_refs = 0, p_count = 0, p_fifo = 0, p_packets = False, p_wrote = 0,
     p_taken = 0, p_msgs = [], p_room = 0, p_passcred = False, p_last = 0, p_made = []\<rparr>"

definition pipe_at :: "nat \<Rightarrow> 'k ipc \<Rightarrow> pipe" where
  "pipe_at n s = (if n < length (pipes s) then pipes s ! n else empty_pipe)"

definition set_pipe :: "nat \<Rightarrow> pipe \<Rightarrow> 'k ipc \<Rightarrow> 'k ipc" where
  "set_pipe n p s = s\<lparr>pipes := (pipes s)[n := p]\<rparr>"

text \<open>The place one of a handle's numbers names, from 1, while the pipe there is in use.\<close>

definition in_use :: "u32 \<Rightarrow> 'k ipc \<Rightarrow> nat option" where
  "in_use slot s =
    (if 0 < slot \<and> unat slot \<le> PIPES \<and> 0 < p_refs (pipe_at (unat slot - 1) s) then Some (unat slot - 1) else None)"

definition pipe_of :: "handle \<Rightarrow> 'k ipc \<Rightarrow> nat option" where
  "pipe_of h s = (if fd_start h = PIPE_MARK then in_use (fd_folder h) s else None)"

definition pair_out :: "handle \<Rightarrow> 'k ipc \<Rightarrow> nat option" where
  "pair_out h s = in_use (if fd_start h = PIPE_MARK \<and> fd_size h = PIPE_PAIR then drop_bit 16 (fd_offset h) else 0) s"

definition written :: "handle \<Rightarrow> 'k ipc \<Rightarrow> nat option" where
  "written h s = (if fd_size h = PIPE_WRITE then pipe_of h s else pair_out h s)"

section \<open>The counts\<close>

definition upd_pipe :: "nat option \<Rightarrow> (pipe \<Rightarrow> pipe) \<Rightarrow> 'k ipc \<Rightarrow> 'k ipc" where
  "upd_pipe w f s = (case w of None \<Rightarrow> s | Some n \<Rightarrow> set_pipe n (f (pipe_at n s)) s)"

definition pipe_hold :: "handle \<Rightarrow> 'k ipc \<Rightarrow> 'k ipc" where
  "pipe_hold h s =
    (let p = pipe_of h s; out = pair_out h s; w = written h s;
         s1 = upd_pipe p (\<lambda>p. p\<lparr>p_refs := p_refs p + 1\<rparr>) s;
         s2 = upd_pipe out (\<lambda>p. p\<lparr>p_refs := p_refs p + 1\<rparr>) s1
     in upd_pipe w (\<lambda>p. p\<lparr>p_count := p_count p + 1\<rparr>) s2)"

text \<open>
  \<open>pipe_drop\<close>: the last reference frees the pipe, and then the descriptors in its messages are to be let
  go of, which may free other pipes. What is left to do is a list of tasks, the first done first, as
  the calls of \<open>pipe_drop\<close>, \<open>handle_release\<close> and \<open>pipe_release\<close> are nested.
\<close>

datatype task = Let_go handle | Drop_out handle | Drop_of handle | Free_messages

definition pipe_drop :: "'k pipe_kernel \<Rightarrow> nat option \<Rightarrow> 'k ipc \<Rightarrow> task list \<times> 'k ipc" where
  "pipe_drop K w s =
    (case w of
       None \<Rightarrow> ([], s)
     | Some n \<Rightarrow>
         let p = pipe_at n s
         in if p_refs p = 0 then ([], s)
            else if p_refs p - 1 \<noteq> 0 then ([], set_pipe n (p\<lparr>p_refs := p_refs p - 1\<rparr>) s)
            else let k1 = (if p_data p \<noteq> [] then pk_free K (env s) else env s);
                     k2 = (if p_made p \<noteq> [] then pk_free K k1 else k1)
                 in (map Let_go (concat (map m_fds (p_msgs p))) @ [Free_messages], set_pipe n empty_pipe (s\<lparr>env := k2\<rparr>)))"

definition uncount :: "handle \<Rightarrow> 'k ipc \<Rightarrow> 'k ipc" where
  "uncount h s = upd_pipe (written h s) (\<lambda>p. if 0 < p_count p then p\<lparr>p_count := p_count p - 1\<rparr> else p) s"

definition held :: "'k ipc \<Rightarrow> nat" where
  "held s = sum_list (map (\<lambda>p. length (concat (map m_fds (p_msgs p)))) (pipes s))"

primrec weight :: "task \<Rightarrow> nat" where
  "weight (Let_go h) = 5"
| "weight (Drop_out h) = 2"
| "weight (Drop_of h) = 2"
| "weight Free_messages = 1"

lemma held_set_pipe:
  "n < length (pipes s) \<Longrightarrow> held (set_pipe n p s) + length (concat (map m_fds (p_msgs (pipe_at n s)))) = held s + length (concat (map m_fds (p_msgs p)))"
proof -
  assume n: "n < length (pipes s)"
  have "sum_list (map f (xs[n := p])) + f (xs ! n) = sum_list (map f xs) + f p" if "n < length xs" for f :: "pipe \<Rightarrow> nat" and xs
    using that by (induction xs arbitrary: n) (auto split: nat.splits)
  then show ?thesis using n unfolding held_def set_pipe_def pipe_at_def by simp
qed

lemma held_upd_pipe: "(\<And>p. p_msgs (f p) = p_msgs p) \<Longrightarrow> held (upd_pipe w f s) = held s"
proof (cases w)
  case (Some n)
  assume f: "\<And>p. p_msgs (f p) = p_msgs p"
  show ?thesis using held_set_pipe [of n s "f (pipe_at n s)"] f Some
    by (cases "n < length (pipes s)") (simp_all add: upd_pipe_def set_pipe_def list_update_beyond held_def)
qed (simp add: upd_pipe_def)

lemma held_uncount [simp]: "held (uncount h s) = held s"
  unfolding uncount_def by (rule held_upd_pipe) simp

lemma held_env [simp]: "held (s\<lparr>env := k\<rparr>) = held s"
  by (simp add: held_def)

lemma held_set_env [simp]: "held (set_pipe n p (s\<lparr>env := k\<rparr>)) = held (set_pipe n p s)"
  by (simp add: held_def set_pipe_def)

lemma pipe_drop_measure:
  assumes "pipe_drop K w s = (ts, t)"
  shows "5 * held t + sum_list (map weight ts) < 5 * held s + 2"
proof (cases w)
  case (Some n)
  have "n < length (pipes s)" if "p_refs (pipe_at n s) \<noteq> 0" using that by (auto simp: pipe_at_def empty_pipe_def split: if_splits)
  moreover have "sum_list (map weight (map Let_go hs @ [Free_messages])) = 5 * length hs + 1" for hs by (induction hs) auto
  moreover have "p_msgs empty_pipe = []" by (simp add: empty_pipe_def)
  ultimately show ?thesis
    using assms Some held_set_pipe [of n s "(pipe_at n s)\<lparr>p_refs := p_refs (pipe_at n s) - 1\<rparr>"] held_set_pipe [of n s empty_pipe]
    unfolding pipe_drop_def option.case Let_def by (auto split: if_splits)
qed (use assms in \<open>simp add: pipe_drop_def\<close>)

function work :: "'k pipe_kernel \<Rightarrow> task list \<Rightarrow> 'k ipc \<Rightarrow> 'k ipc" where
  "work K [] s = s"
| "work K (Let_go h # ts) s =
    (let s1 = s\<lparr>env := pk_close K h (pk_forget K h (env s))\<rparr>
     in if fd_start h = PIPE_MARK then work K (Drop_out h # Drop_of h # ts) (uncount h s1) else work K ts s1)"
| "work K (Drop_out h # ts) s = (case pipe_drop K (pair_out h s) s of (us, t) \<Rightarrow> work K (us @ ts) t)"
| "work K (Drop_of h # ts) s = (case pipe_drop K (pipe_of h s) s of (us, t) \<Rightarrow> work K (us @ ts) t)"
| "work K (Free_messages # ts) s = work K ts (s\<lparr>env := pk_free K (env s)\<rparr>)"
  by pat_completeness auto
termination
proof (relation "measure (\<lambda>(K, ts, s). 5 * held s + sum_list (map weight ts))", goal_cases)
qed (auto dest: pipe_drop_measure [OF sym])

definition handle_release :: "'k pipe_kernel \<Rightarrow> handle \<Rightarrow> 'k ipc \<Rightarrow> 'k ipc" where
  "handle_release K h s = work K [Let_go h] s"

definition pipe_release :: "'k pipe_kernel \<Rightarrow> handle \<Rightarrow> 'k ipc \<Rightarrow> 'k ipc" where
  "pipe_release K h s = work K [Drop_out h, Drop_of h] (uncount h s)"

definition handle_close :: "'k pipe_kernel \<Rightarrow> handle \<Rightarrow> 'k ipc \<Rightarrow> 'k ipc" where
  "handle_close K h s =
    (let s1 = s\<lparr>env := pk_close K h (env s)\<rparr> in if fd_start h = PIPE_MARK then pipe_release K h s1 else s1)"

definition handle_share :: "'k pipe_kernel \<Rightarrow> u64 \<Rightarrow> 'k ipc \<Rightarrow> handle option \<times> 'k ipc" where
  "handle_share K fd s =
    (case pk_handle K fd (env s) of
       None \<Rightarrow> (None, s)
     | Some h \<Rightarrow> let s1 = pipe_hold h s in (Some (h\<lparr>fd_used := 1\<rparr>), s1\<lparr>env := pk_hold K h (env s1)\<rparr>))"

end
