(* ===== verification/PipeCalls.thy ===== *)
theory PipeCalls
  imports Pipes
begin

text \<open>
  Reading and writing pipes, messages on pairs, and the calls that make them (\<open>src/kernel/syscall.c\<close>).
  A call that waits has as fuel the number of rounds of its loop.
\<close>

section \<open>The buffer\<close>

definition compact :: "pipe \<Rightarrow> pipe option" where
  "compact p =
    (if 0 < p_read p
     then do {
       left \<leftarrow> slice (p_data p) (unat (p_read p)) (unat (p_len p - p_read p));
       d \<leftarrow> blit (p_data p) 0 left;
       Some (p\<lparr>p_data := d, p_len := p_len p - p_read p, p_read := 0\<rparr>)
     }
     else Some p)"

text \<open>
  The doubling in \<open>pipe_put\<close>: after 32 of them \<open>want\<close> is 0 and the loop would never end, so 33 looks
  decide it. What a new buffer holds past what is copied is never read; it is 0 here.
\<close>

primrec wanted :: "nat \<Rightarrow> u64 \<Rightarrow> u32 \<Rightarrow> u32 option" where
  "wanted 0 need want = None"
| "wanted (Suc n) need want = (if ucast want < need then wanted n need (want * 2) else Some want)"

definition grow_pipe :: "'k pipe_kernel \<Rightarrow> u64 \<Rightarrow> pipe \<Rightarrow> 'k \<Rightarrow> (pipe option \<times> 'k) option" where
  "grow_pipe K need p k =
    (if need \<le> ucast (p_size p) then Some (Some p, k)
     else do {
       want \<leftarrow> wanted 33 need (p_size p);
       let (got, k1) = pk_alloc K (ucast want) k;
       if \<not> got then Some (None, k1)
       else do {
         d \<leftarrow> slice (p_data p) 0 (unat (p_len p));
         d1 \<leftarrow> blit (replicate (unat want) 0) 0 d;
         Some (Some (p\<lparr>p_data := d1, p_size := want\<rparr>), pk_free K k1)
       }
     })"

definition pipe_put :: "'k pipe_kernel \<Rightarrow> nat \<Rightarrow> u64 \<Rightarrow> u64 \<Rightarrow> 'k ipc \<Rightarrow> (u64 \<times> 'k ipc) option" where
  "pipe_put K n from count s = do {
     p \<leftarrow> compact (pipe_at n s);
     let c = (if ucast (PIPE_CAP - p_len p) < count then ucast (PIPE_CAP - p_len p) else count);
     (room, k) \<leftarrow> grow_pipe K (ucast (p_len p) + c) p (env s);
     case room of
       None \<Rightarrow> Some (0, set_pipe n p (s\<lparr>env := k\<rparr>))
     | Some p1 \<Rightarrow> do {
         d \<leftarrow> blit (p_data p1) (unat (p_len p1)) (peek (pmem s) from (unat c));
         Some (c, set_pipe n (p1\<lparr>p_data := d, p_len := p_len p1 + ucast c, p_wrote := p_wrote p1 + c\<rparr>) (s\<lparr>env := k\<rparr>))
       }
   }"

definition pipe_left :: "pipe \<Rightarrow> u32" where
  "pipe_left p = p_len p - p_read p"

text \<open>\<open>None\<close> for \<open>to\<close> is a null pointer: the bytes are dropped.\<close>

definition pipe_read :: "nat \<Rightarrow> u64 option \<Rightarrow> u64 \<Rightarrow> 'k ipc \<Rightarrow> (u64 \<times> 'k ipc) option" where
  "pipe_read n to count s =
    (let p = pipe_at n s;
         left = p_len p - p_read p;
         c = (if ucast left < count then ucast left else count)
     in do {
       m \<leftarrow> (case to of
              None \<Rightarrow> Some (pmem s)
            | Some a \<Rightarrow> do { bs \<leftarrow> slice (p_data p) (unat (p_read p)) (unat c); Some (poke (pmem s) a bs) });
       let p1 = p\<lparr>p_read := p_read p + ucast c, p_taken := p_taken p + c\<rparr>;
       let p2 = (if p_read p1 = p_len p1 then p1\<lparr>p_read := 0, p_len := 0\<rparr> else p1);
       Some (c, set_pipe n p2 (s\<lparr>pmem := m\<rparr>))
     })"

definition readable :: "handle \<Rightarrow> 'k ipc \<Rightarrow> bool" where
  "readable h s =
    (if fd_size h \<noteq> PIPE_PAIR \<and> fd_size h \<noteq> PIPE_READ then False
     else case pipe_of h s of
       None \<Rightarrow> True
     | Some n \<Rightarrow> p_read (pipe_at n s) < p_len (pipe_at n s) \<or> p_count (pipe_at n s) = 0)"

section \<open>Waiting\<close>

text \<open>
  What all the loops that wait do when they cannot go on: \<open>again\<close> is the next round, \<open>stop\<close> the answer
  for an error.
\<close>

definition wait_turn ::
  "'k pipe_kernel \<Rightarrow> bool \<Rightarrow> (errno \<Rightarrow> u64) \<Rightarrow> ('k ipc \<Rightarrow> ('a, 'k ipc) outcome) \<Rightarrow> (u64 \<Rightarrow> 'k ipc \<Rightarrow> ('a, 'k ipc) outcome) \<Rightarrow>
   'k ipc \<Rightarrow> ('a, 'k ipc) outcome" where
  "wait_turn K refuse answer again stop s =
    (if refuse then stop (answer EAGAIN) s
     else let (hit, k) = pk_check K (env s)
          in if hit then stop (answer EINTR) (s\<lparr>env := k\<rparr>) else again (pk_yield K (s\<lparr>env := k\<rparr>)))"

primrec pipe_write ::
  "'k pipe_kernel \<Rightarrow> nat \<Rightarrow> handle \<Rightarrow> nat \<Rightarrow> u64 \<Rightarrow> u64 \<Rightarrow> u64 \<Rightarrow> 'k ipc \<Rightarrow> (u64, 'k ipc) outcome" where
  "pipe_write K 0 h n from count done s = Waits"
| "pipe_write K (Suc fuel) h n from count done s =
    (if \<not> done < count then Ended done s
     else let p = pipe_at n s;
              answer = (\<lambda>done e. if 0 < done then done else ERR e)
          in if fd_size h = PIPE_WRITE \<and> ucast (p_refs p) \<le> p_count p
             then Ended (answer done EPIPE) (s\<lparr>env := pk_sigpipe K (env s)\<rparr>)
             else case pipe_put K n (from + done) (count - done) s of
               None \<Rightarrow> Fault
             | Some (c, s1) \<Rightarrow>
                 let done1 = done + c
                 in if 0 < c \<or> done1 = count then pipe_write K fuel h n from count done1 s1
                    else wait_turn K (has (fd_offset h) O_NONBLOCK \<or> pk_only K (env s1)) (answer done1)
                           (pipe_write K fuel h n from count done1) Ended s1)"

primrec event_wait :: "'k pipe_kernel \<Rightarrow> nat \<Rightarrow> handle \<Rightarrow> nat \<Rightarrow> 'k ipc \<Rightarrow> (u64, 'k ipc) outcome" where
  "event_wait K 0 h n s = Waits"
| "event_wait K (Suc fuel) h n s =
    (if p_count (pipe_at n s) \<noteq> 0 then Ended 0 s
     else wait_turn K (has (fd_offset h) O_NONBLOCK \<or> pk_only K (env s)) ERR (event_wait K fuel h n) Ended s)"

definition event_read :: "'k pipe_kernel \<Rightarrow> nat \<Rightarrow> handle \<Rightarrow> nat \<Rightarrow> u64 \<Rightarrow> u64 \<Rightarrow> 'k ipc \<Rightarrow> (u64, 'k ipc) outcome" where
  "event_read K fuel h n buf count s =
    (if count < 8 then Ended (ERR EINVAL) s
     else proceed (event_wait K fuel h n s) (\<lambda>e s1.
       if e \<noteq> 0 then Ended e s1
       else let p = pipe_at n s1;
                took = (if has (fd_offset h) EFD_SEMAPHORE then 1 else p_count p)
            in Ended 8 (set_pipe n (p\<lparr>p_count := p_count p - took\<rparr>) (s1\<lparr>pmem := put_u64 (pmem s1) buf took\<rparr>))))"

text \<open>\<open>readable\<close>, waited for; what it answers with nothing else running is not an error.\<close>

primrec read_wait :: "'k pipe_kernel \<Rightarrow> nat \<Rightarrow> handle \<Rightarrow> bool \<Rightarrow> 'k ipc \<Rightarrow> (u64, 'k ipc) outcome" where
  "read_wait K 0 h now s = Waits"
| "read_wait K (Suc fuel) h now s =
    (if readable h s then Ended 0 s
     else if has (fd_offset h) O_NONBLOCK \<or> now then Ended (ERR EAGAIN) s
     else if pk_only K (env s) then Ended 0 s
     else wait_turn K False ERR (read_wait K fuel h now) Ended s)"

section \<open>Messages\<close>

text \<open>Where the iovecs are: one of the kernel's own, or an array in the program's memory.\<close>

datatype iovs = One u64 u64 | At u64

primrec iov_at :: "iovs \<Rightarrow> memory \<Rightarrow> nat \<Rightarrow> u64 \<times> u64" where
  "iov_at (One base len) m i = (base, len)"
| "iov_at (At a) m i = (u64_at m (a + 16 * of_nat i), u64_at m (a + 16 * of_nat i + 8))"

primrec iov_total :: "'k pipe_kernel \<Rightarrow> (nat \<Rightarrow> u64 \<times> u64) \<Rightarrow> nat list \<Rightarrow> u64 \<Rightarrow> 'k \<Rightarrow> u64 option" where
  "iov_total K f [] tot k = Some tot"
| "iov_total K f (i # is) tot k =
    (if pk_range K (fst (f i)) (snd (f i)) k then iov_total K f is (tot + snd (f i)) k else None)"

definition pmsg_push ::
  "'k pipe_kernel \<Rightarrow> nat \<Rightarrow> u64 \<Rightarrow> u32 \<Rightarrow> handle list \<Rightarrow> 'k ipc \<Rightarrow> (bool \<times> 'k ipc) option" where
  "pmsg_push K n pos len fds s =
    (let p = (pipe_at n s)\<lparr>p_last := pk_pid K (env s)\<rparr>;
         full = (of_nat (length (p_msgs p)) = p_room p);
         room = (if \<not> full then p_room p else if p_room p = 0 then 4 else p_room p * 2);
         (got, k) = (if full then pk_alloc K (ucast room * 472) (env s) else (True, env s));
         k1 = (if full \<and> got \<and> p_msgs p \<noteq> [] then pk_free K k else k)
     in if \<not> got then Some (False, set_pipe n p (s\<lparr>env := k\<rparr>))
        else if length fds \<le> PAIR_FDS
        then let m = \<lparr>m_at = pos, m_len = len, m_pid = p_last p, m_fds = fds\<rparr>
             in Some (True, set_pipe n (p\<lparr>p_msgs := p_msgs p @ [m], p_room := room\<rparr>) (s\<lparr>env := k1\<rparr>))
        else None)"

text \<open>\<open>put_each\<close>: the pieces of a packet, whatever room there was for each.\<close>

primrec put_each :: "'k pipe_kernel \<Rightarrow> nat \<Rightarrow> iovs \<Rightarrow> nat list \<Rightarrow> 'k ipc \<Rightarrow> 'k ipc option" where
  "put_each K n iov [] s = Some s"
| "put_each K n iov (i # is) s = do {
     let (base, len) = iov_at iov (pmem s) i;
     (c, s1) \<leftarrow> pipe_put K n base len s;
     put_each K n iov is s1
   }"

primrec room_wait :: "'k pipe_kernel \<Rightarrow> nat \<Rightarrow> handle \<Rightarrow> nat \<Rightarrow> u64 \<Rightarrow> bool \<Rightarrow> 'k ipc \<Rightarrow> (u64, 'k ipc) outcome" where
  "room_wait K 0 h n tot now s = Waits"
| "room_wait K (Suc fuel) h n tot now s =
    (if \<not> ucast (PIPE_CAP - (p_len (pipe_at n s) - p_read (pipe_at n s))) < tot then Ended 0 s
     else wait_turn K (now \<or> has (fd_offset h) O_NONBLOCK \<or> pk_only K (env s)) ERR
            (\<lambda>t. if pair_out h t \<noteq> Some n then Ended (ERR EPIPE) t else room_wait K fuel h n tot now t) Ended s)"

primrec write_each ::
  "'k pipe_kernel \<Rightarrow> nat \<Rightarrow> handle \<Rightarrow> nat \<Rightarrow> iovs \<Rightarrow> nat list \<Rightarrow> u64 \<Rightarrow> 'k ipc \<Rightarrow> (u64, 'k ipc) outcome" where
  "write_each K fuel h n iov [] done s = Ended done s"
| "write_each K fuel h n iov (i # is) done s =
    (let (base, len) = iov_at iov (pmem s) i
     in proceed (if len \<noteq> 0 then pipe_write K fuel h n base len 0 s else Ended 0 s) (\<lambda>r s1.
          if sint r < 0 then Ended (if 0 < done then done else r) s1
          else write_each K fuel h n iov is (done + r) s1))"

definition pair_put ::
  "'k pipe_kernel \<Rightarrow> nat \<Rightarrow> handle \<Rightarrow> nat \<Rightarrow> iovs \<Rightarrow> u64 \<Rightarrow> handle list \<Rightarrow> bool \<Rightarrow> 'k ipc \<Rightarrow> (u64, 'k ipc) outcome" where
  "pair_put K fuel h n iov cnt fds now s =
    (case iov_total K (iov_at iov (pmem s)) [0..<unat cnt] 0 (env s) of
       None \<Rightarrow> Ended (ERR EFAULT) s
     | Some tot \<Rightarrow>
         if p_packets (pipe_at n s)
         then if ucast PIPE_CAP < tot then Ended (ERR EMSGSIZE) s
              else proceed (room_wait K fuel h n tot now s) (\<lambda>e s1.
                if e \<noteq> 0 then Ended e s1
                else case pmsg_push K n (p_wrote (pipe_at n s1)) (ucast tot) fds s1 of
                  None \<Rightarrow> Fault
                | Some (ok, s2) \<Rightarrow>
                    if \<not> ok then Ended (ERR ENOBUFS) s2
                    else (case put_each K n iov [0..<unat cnt] s2 of None \<Rightarrow> Fault | Some t \<Rightarrow> Ended tot t))
         else case (if fds \<noteq> [] then pmsg_push K n (p_wrote (pipe_at n s)) 0 fds s else Some (True, s)) of
             None \<Rightarrow> Fault
           | Some (ok, s1) \<Rightarrow>
               if \<not> ok then Ended (ERR ENOBUFS) s1
               else write_each K fuel h n iov [0..<unat cnt] 0
                      (set_pipe n ((pipe_at n s1)\<lparr>p_last := pk_pid K (env s1)\<rparr>) s1))"

primrec take_each :: "nat \<Rightarrow> iovs \<Rightarrow> u64 \<Rightarrow> u64 \<Rightarrow> nat list \<Rightarrow> u64 \<Rightarrow> 'k ipc \<Rightarrow> (u64 \<times> 'k ipc) option" where
  "take_each n iov limit want [] done s = Some (done, s)"
| "take_each n iov limit want (i # is) done s =
    (if done < limit \<and> done < want
     then do {
       let (base, len) = iov_at iov (pmem s) i;
       (c, s1) \<leftarrow> pipe_read n (Some base) (if len < limit - done then len else limit - done) s;
       take_each n iov limit want is (done + c) s1
     }
     else Some (done, s))"

primrec release_all :: "'k pipe_kernel \<Rightarrow> handle list \<Rightarrow> 'k ipc \<Rightarrow> 'k ipc" where
  "release_all K [] s = s"
| "release_all K (h # hs) s = release_all K hs (handle_release K h s)"

text \<open>
  How far a read goes, and whether the first message ends with it. \<open>m->at <= taken\<close>: the descriptors of
  a stream come with the byte they were sent before.
\<close>

definition take_limit :: "pipe \<Rightarrow> u64 \<times> bool" where
  "take_limit p =
    (let avail = ucast (p_len p - p_read p) :: u64;
         (limit, whole) =
           (case p_msgs p of
              [] \<Rightarrow> (avail, False)
            | m # ms \<Rightarrow>
                if p_packets p then (ucast (m_len m), True)
                else if m_at m \<le> p_taken p then (case ms of [] \<Rightarrow> (avail, True) | m1 # _ \<Rightarrow> (m_at m1 - p_taken p, True))
                else (m_at m - p_taken p, False))
     in (if limit < avail then limit else avail, whole))"

text \<open>
  \<open>pair_take\<close> after its wait. \<open>asked\<close>: the caller has room for descriptors (\<open>fds\<close>, \<open>nfd\<close> not null) and
  \<open>told\<close>: for whether the message was cut short. Descriptors nobody asked for are let go of.
\<close>

definition take_now ::
  "'k pipe_kernel \<Rightarrow> nat \<Rightarrow> iovs \<Rightarrow> u64 \<Rightarrow> u64 \<Rightarrow> bool \<Rightarrow> bool \<Rightarrow> 'k ipc \<Rightarrow> ((u64 \<times> handle list \<times> bool) \<times> 'k ipc) option" where
  "take_now K n iov cnt want asked told s =
    (let p = pipe_at n s;
         (limit, whole) = take_limit p
     in if p_packets p \<and> p_msgs p = [] then Some ((0, [], False), s)
        else do {
          (got, s1) \<leftarrow> take_each n iov limit want [0..<unat cnt] 0 s;
          (short, s2) \<leftarrow> (if p_packets p \<and> got < ucast (m_len (hd (p_msgs p)))
             then do {
               (c, t) \<leftarrow> pipe_read n None (ucast (m_len (hd (p_msgs p))) - got) s1;
               Some (told, t)
             }
             else Some (False, s1));
          if \<not> whole then Some ((got, [], short), s2)
          else let m = hd (p_msgs p);
                   s3 = s2\<lparr>pair_sender := m_pid m\<rparr>;
                   s4 = (if asked then s3 else release_all K (m_fds m) s3);
                   q = pipe_at n s4
               in if p_msgs q = [] then None
                  else Some ((got, if asked then m_fds m else [], short), set_pipe n (q\<lparr>p_msgs := tl (p_msgs q)\<rparr>) s4)
        })"

definition pair_take ::
  "'k pipe_kernel \<Rightarrow> nat \<Rightarrow> handle \<Rightarrow> nat \<Rightarrow> iovs \<Rightarrow> u64 \<Rightarrow> bool \<Rightarrow> bool option \<Rightarrow> 'k ipc \<Rightarrow>
   (u64 \<times> handle list \<times> bool, 'k ipc) outcome" where
  "pair_take K fuel h n iov cnt asked short s =
    (let s0 = s\<lparr>pair_sender := p_last (pipe_at n s)\<rparr>
     in case iov_total K (iov_at iov (pmem s)) [0..<unat cnt] 0 (env s) of
       None \<Rightarrow> Ended (ERR EFAULT, [], short = Some True) s0
     | Some want \<Rightarrow>
         proceed (case read_wait K fuel h (short = Some True) s0 of
             Ended e t \<Rightarrow> Ended (e, [], short = Some True) t | Fault \<Rightarrow> Fault | Waits \<Rightarrow> Waits) (\<lambda>r s1.
           if fst r \<noteq> 0 then Ended r s1
           else ended (take_now K n iov cnt want asked (short \<noteq> None) s1)))"

section \<open>Descriptors of pipes\<close>

text \<open>What \<open>sys_read\<close> and \<open>sys_write\<close> do on a pipe, a pair or an eventfd.\<close>

definition read_pipe :: "'k pipe_kernel \<Rightarrow> nat \<Rightarrow> handle \<Rightarrow> u64 \<Rightarrow> u64 \<Rightarrow> 'k ipc \<Rightarrow> (u64, 'k ipc) outcome" where
  "read_pipe K fuel h buf count s =
    (case pipe_of h s of
       None \<Rightarrow> Ended (ERR EBADF) s
     | Some n \<Rightarrow>
         if fd_size h = PIPE_EVENT then event_read K fuel h n buf count s
         else proceed (if fd_size h = PIPE_PAIR \<or> fd_size h = PIPE_READ then read_wait K fuel h False s else Ended 0 s) (\<lambda>e s1.
           if e \<noteq> 0 then Ended e s1
           else if fd_size h = PIPE_PAIR \<and> (p_packets (pipe_at n s1) \<or> p_msgs (pipe_at n s1) \<noteq> [])
           then proceed (case pair_take K fuel h n (One buf count) 1 False None s1 of
               Ended r t \<Rightarrow> Ended (fst r) t | Fault \<Rightarrow> Fault | Waits \<Rightarrow> Waits) Ended
           else if fd_size h = PIPE_PAIR \<or> fd_size h = PIPE_READ \<or> fd_size h = PIPE_FILE
           then ended (pipe_read n (Some buf) count s1)
           else Ended (ERR EBADF) s1))"

definition write_pipe :: "'k pipe_kernel \<Rightarrow> nat \<Rightarrow> handle \<Rightarrow> u64 \<Rightarrow> u64 \<Rightarrow> 'k ipc \<Rightarrow> (u64, 'k ipc) outcome" where
  "write_pipe K fuel h buf count s =
    (case (if fd_size h = PIPE_EVENT then pipe_of h s else None) of
       Some n \<Rightarrow>
         if count < 8 then Ended (ERR EINVAL) s
         else let p = pipe_at n s in Ended 8 (set_pipe n (p\<lparr>p_count := p_count p + u64_at (pmem s) buf\<rparr>) s)
     | None \<Rightarrow>
         if fd_size h = PIPE_PAIR
         then (case pair_out h s of
                 None \<Rightarrow> Ended (ERR EPIPE) s
               | Some out \<Rightarrow>
                   if p_packets (pipe_at out s) then pair_put K fuel h out (One buf count) 1 [] False s
                   else pipe_write K fuel h out buf count 0 s)
         else (case pipe_of h s of
                 None \<Rightarrow> Ended (ERR EBADF) s
               | Some n \<Rightarrow> if fd_size h \<noteq> PIPE_WRITE then Ended (ERR EBADF) s else pipe_write K fuel h n buf count 0 s))"

definition is_pair :: "handle option \<Rightarrow> bool" where
  "is_pair h = (case h of None \<Rightarrow> False | Some h \<Rightarrow> fd_start h = PIPE_MARK \<and> fd_size h = PIPE_PAIR)"

definition pair_flags :: "'k pipe_kernel \<Rightarrow> u64 \<Rightarrow> int \<Rightarrow> 'k ipc \<Rightarrow> u32 \<times> 'k ipc" where
  "pair_flags K fd on s =
    (let h = pk_handle K fd (env s)
     in case (if is_pair h then pipe_of (the h) s else None) of
       None \<Rightarrow> (-1, s)
     | Some n \<Rightarrow>
         let p = (if 0 \<le> on then (pipe_at n s)\<lparr>p_passcred := on \<noteq> 0\<rparr> else pipe_at n s)
         in ((if p_passcred p then 1 else 0) OR (if p_packets p then 2 else 0), set_pipe n p s))"

definition pair_send ::
  "'k pipe_kernel \<Rightarrow> nat \<Rightarrow> u64 \<Rightarrow> u64 \<Rightarrow> u64 \<Rightarrow> handle list \<Rightarrow> bool \<Rightarrow> 'k ipc \<Rightarrow> (u64, 'k ipc) outcome" where
  "pair_send K fuel fd iov cnt fds now s =
    (case pk_handle K fd (env s) of
       None \<Rightarrow> Ended (ERR EBADF) s
     | Some h \<Rightarrow>
         if \<not> pk_range K iov (cnt * 16) (env s) then Ended (ERR EFAULT) s
         else case pair_out h s of
           None \<Rightarrow> Ended (ERR EPIPE) s
         | Some n \<Rightarrow> pair_put K fuel h n (At iov) cnt fds now s)"

definition pair_recv ::
  "'k pipe_kernel \<Rightarrow> nat \<Rightarrow> u64 \<Rightarrow> u64 \<Rightarrow> u64 \<Rightarrow> bool \<Rightarrow> 'k ipc \<Rightarrow> (u64 \<times> handle list \<times> bool, 'k ipc) outcome" where
  "pair_recv K fuel fd iov cnt now s =
    (let h = pk_handle K fd (env s)
     in case (if is_pair h then pipe_of (the h) s else None) of
       None \<Rightarrow> Ended (ERR EBADF, [], now) s
     | Some n \<Rightarrow>
         if \<not> pk_range K iov (cnt * 16) (env s) then Ended (ERR EFAULT, [], now) s
         else pair_take K fuel (the h) n (At iov) cnt True (Some now) s)"

section \<open>Making them\<close>

primrec slot_from :: "nat \<Rightarrow> pipe list \<Rightarrow> nat" where
  "slot_from i [] = i"
| "slot_from i (p # ps) = (if 0 < p_refs p then slot_from (i + 1) ps else i)"

definition pipe_slot :: "'k ipc \<Rightarrow> nat" where
  "pipe_slot s = slot_from 0 (pipes s)"

definition fresh_pipe :: pipe where
  "fresh_pipe = empty_pipe\<lparr>p_data := replicate 8192 0, p_size := PIPE_FIRST, p_refs := 2, p_count := 1\<rparr>"

definition pipe_handle :: "u32 \<Rightarrow> u32 \<Rightarrow> u32 \<Rightarrow> handle" where
  "pipe_handle slot kind flags =
    \<lparr>fd_used = 0, fd_writer = 0, fd_start = PIPE_MARK, fd_size = kind, fd_offset = flags, fd_folder = slot, fd_ofd = 0\<rparr>"

text \<open>One pipe of a new pair, in the lowest free place.\<close>

definition new_end :: "'k pipe_kernel \<Rightarrow> 'k ipc \<Rightarrow> nat option \<times> 'k ipc" where
  "new_end K s =
    (let slot = pipe_slot s
     in if slot < PIPES
        then let (got, k) = pk_alloc K (ucast PIPE_FIRST) (env s)
             in if got then (Some slot, set_pipe slot fresh_pipe (s\<lparr>env := k\<rparr>)) else (None, s\<lparr>env := k\<rparr>)
        else (None, s))"

text \<open>
  A pair whose second pipe cannot be made drops the first: one of its two references, so that it stays
  in use.
\<close>

definition pair_new :: "'k pipe_kernel \<Rightarrow> u32 \<Rightarrow> 'k ipc \<Rightarrow> (handle \<times> handle) option \<times> 'k ipc" where
  "pair_new K flags s =
    (case new_end K s of
       (None, s1) \<Rightarrow> (None, s1)
     | (Some a, s1) \<Rightarrow>
         (case new_end K s1 of
            (None, s2) \<Rightarrow> (case pipe_drop K (Some a) s2 of (ts, t) \<Rightarrow> (None, work K ts t))
          | (Some b, s2) \<Rightarrow>
              let make = (\<lambda>mine other. (pipe_handle (of_nat mine + 1) PIPE_PAIR
                     (push_bit 16 (of_nat other + 1) OR (flags AND O_NONBLOCK)))\<lparr>fd_used := 1\<rparr>)
              in (Some (make a b, make b a), s2)))"

definition buffer_open :: "'k pipe_kernel \<Rightarrow> u32 \<Rightarrow> 'k ipc \<Rightarrow> u64 \<times> 'k ipc" where
  "buffer_open K bytes s =
    (let slot = pipe_slot s;
         (got, k) = (if slot < PIPES then pk_alloc K (ucast bytes) (env s) else (False, env s));
         s1 = s\<lparr>env := k\<rparr>
     in if \<not> got then (ERR ENFILE, s1)
        else let s2 = set_pipe slot (empty_pipe\<lparr>p_data := replicate (unat bytes) 0, p_size := bytes, p_refs := 1\<rparr>) s1;
                 (fd, k1) = pk_give K (pipe_handle (of_nat slot + 1) 5 0) (env s2);
                 s3 = s2\<lparr>env := k1\<rparr>
             in if sint fd < 0 then (fd, set_pipe slot empty_pipe (s3\<lparr>env := pk_free K k1\<rparr>)) else (fd, s3))"

definition pipe_data :: "handle \<Rightarrow> 'k ipc \<Rightarrow> u8 list option" where
  "pipe_data h s = (case pipe_of h s of None \<Rightarrow> None | Some n \<Rightarrow> if fd_size h = 5 then Some (p_data (pipe_at n s)) else None)"

definition event_ready :: "handle \<Rightarrow> 'k ipc \<Rightarrow> bool" where
  "event_ready h s = (case pipe_of h s of None \<Rightarrow> False | Some n \<Rightarrow> fd_size h = PIPE_EVENT \<and> 0 < p_count (pipe_at n s))"

definition with_cloexec :: "'k pipe_kernel \<Rightarrow> u64 \<Rightarrow> bool \<Rightarrow> 'k ipc \<Rightarrow> 'k ipc" where
  "with_cloexec K fd on s = (if 0 \<le> sint fd \<and> on then s\<lparr>env := pk_cloexec K fd (env s)\<rparr> else s)"

definition give_pipe :: "'k pipe_kernel \<Rightarrow> handle \<Rightarrow> 'k ipc \<Rightarrow> u64 \<times> 'k ipc" where
  "give_pipe K h s = (let (fd, k) = pk_give K h (env s) in (fd, s\<lparr>env := k\<rparr>))"

definition sys_pipe2 :: "'k pipe_kernel \<Rightarrow> u64 \<Rightarrow> u64 \<Rightarrow> 'k ipc \<Rightarrow> u64 \<times> 'k ipc" where
  "sys_pipe2 K out flags s =
    (if \<not> pk_range K out 8 (env s) then (ERR EFAULT, s)
     else case new_end K s of
       (None, s1) \<Rightarrow> (ERR ENFILE, s1)
     | (Some slot, s1) \<Rightarrow>
         let h = pipe_handle (of_nat slot + 1) 0 (ucast flags AND O_NONBLOCK);
             (r, s2) = give_pipe K h s1;
             (w, s3) = give_pipe K (h\<lparr>fd_size := PIPE_WRITE\<rparr>) s2
         in if sint r < 0 \<or> sint w < 0
            then let k = (if 0 \<le> sint r then pk_unuse K r (env s3) else env s3)
                 in (ERR EMFILE, set_pipe slot empty_pipe (s3\<lparr>env := pk_free K k\<rparr>))
            else let on = (flags AND O_CLOEXEC \<noteq> 0);
                     s4 = (with_cloexec K r on s3)\<lparr>pmem := put_u32 (pmem s3) out (ucast r)\<rparr>;
                     s5 = (with_cloexec K w on s4)\<lparr>pmem := put_u32 (pmem s4) (out + 4) (ucast w)\<rparr>
                 in (0, s5))"

definition sys_eventfd2 :: "'k pipe_kernel \<Rightarrow> u64 \<Rightarrow> u64 \<Rightarrow> 'k ipc \<Rightarrow> u64 \<times> 'k ipc" where
  "sys_eventfd2 K count flags s =
    (let slot = pipe_slot s
     in if slot = PIPES then (ERR ENFILE, s)
        else let (fd, s1) = give_pipe K (pipe_handle (of_nat slot + 1) PIPE_EVENT (ucast flags AND (O_NONBLOCK OR EFD_SEMAPHORE))) s;
                 s2 = (if 0 \<le> sint fd then set_pipe slot (empty_pipe\<lparr>p_refs := 1, p_count := ucast (ucast count :: u32)\<rparr>) s1 else s1)
             in (fd, with_cloexec K fd (flags AND O_CLOEXEC \<noteq> 0) s2))"

definition sys_pipe :: "'k pipe_kernel \<Rightarrow> u64 \<Rightarrow> 'k ipc \<Rightarrow> u64 \<times> 'k ipc" where
  "sys_pipe K out s = sys_pipe2 K out 0 s"

definition sys_eventfd :: "'k pipe_kernel \<Rightarrow> u64 \<Rightarrow> 'k ipc \<Rightarrow> u64 \<times> 'k ipc" where
  "sys_eventfd K count s = sys_eventfd2 K count 0 s"

definition sys_inotify_init1 :: "'k pipe_kernel \<Rightarrow> u64 \<Rightarrow> 'k ipc \<Rightarrow> u64 \<times> 'k ipc" where
  "sys_inotify_init1 K flags s = sys_eventfd2 K 0 (flags AND (ucast O_NONBLOCK OR O_CLOEXEC)) s"

definition set_packets :: "handle \<Rightarrow> 'k ipc \<Rightarrow> 'k ipc" where
  "set_packets h s = upd_pipe (pipe_of h s) (\<lambda>p. p\<lparr>p_packets := True\<rparr>) s"

definition sys_socketpair :: "'k pipe_kernel \<Rightarrow> u64 \<Rightarrow> u64 \<Rightarrow> u64 \<Rightarrow> 'k ipc \<Rightarrow> u64 \<times> 'k ipc" where
  "sys_socketpair K domain type out s =
    (let kind = ucast type AND 0xF :: u32
     in if domain \<noteq> AF_UNIX then (ERR EAFNOSUPPORT, s)
        else if kind \<noteq> 1 \<and> kind \<noteq> 2 \<and> kind \<noteq> 5 then (ERR EOPNOTSUPP, s)
        else if \<not> pk_range K out 8 (env s) then (ERR EFAULT, s)
        else case pair_new K (ucast type) s of
          (None, s1) \<Rightarrow> (ERR ENFILE, s1)
        | (Some (a, b), s1) \<Rightarrow>
            let s2 = (if kind \<noteq> 1 then set_packets b (set_packets a s1) else s1);
                (fd0, s3) = give_pipe K a s2;
                (fd1, s4) = (if sint fd0 < 0 then (fd0, s3) else give_pipe K b s3)
            in if sint fd1 < 0
               then let s5 = (if 0 \<le> sint fd0 then s4\<lparr>env := pk_unuse K fd0 (env s4)\<rparr> else s4)
                    in (ERR EMFILE, handle_close K b (handle_close K a s5))
               else let on = (type AND O_CLOEXEC \<noteq> 0);
                        s5 = (with_cloexec K fd0 on s4)\<lparr>pmem := put_u32 (pmem s4) out (ucast fd0)\<rparr>;
                        s6 = (with_cloexec K fd1 on s5)\<lparr>pmem := put_u32 (pmem s5) (out + 4) (ucast fd1)\<rparr>
                    in (0, s6))"

end
