(* ===== verification/PipeBuffer.thy ===== *)
theory PipeBuffer
  imports PipeCalls
begin

text \<open>
  The buffer of a pipe as a queue of bytes: putting appends, reading takes from the front, and growing
  and moving the bytes up change nothing. \<open>queued\<close> is that queue, \<open>pipe_ok\<close> the invariant of the buffer.
\<close>

definition queued :: "pipe \<Rightarrow> u8 list" where
  "queued p = drop (unat (p_read p)) (take (unat (p_len p)) (p_data p))"

definition pipe_ok :: "pipe \<Rightarrow> bool" where
  "pipe_ok p \<longleftrightarrow> length (p_data p) = unat (p_size p) \<and> unat (p_read p) \<le> unat (p_len p) \<and> unat (p_len p) \<le> unat (p_size p) \<and>
    p_size p \<in> {8192, 16384, 32768, 65536}"

text \<open>What moving bytes leaves alone.\<close>

definition frame :: "pipe \<Rightarrow> u32 \<times> u64 \<times> u32 \<times> bool \<times> pmsg list \<times> u32 \<times> bool \<times> u32 \<times> u8 list" where
  "frame p = (p_refs p, p_count p, p_fifo p, p_packets p, p_msgs p, p_room p, p_passcred p, p_last p, p_made p)"

lemma frame_simps [simp]:
  "frame (p\<lparr>p_data := d\<rparr>) = frame p" "frame (p\<lparr>p_len := l\<rparr>) = frame p" "frame (p\<lparr>p_read := r\<rparr>) = frame p"
  "frame (p\<lparr>p_size := n\<rparr>) = frame p" "frame (p\<lparr>p_wrote := w\<rparr>) = frame p" "frame (p\<lparr>p_taken := w\<rparr>) = frame p"
  by (simp_all add: frame_def)

lemma frameD:
  assumes "frame q = frame p"
  shows "p_refs q = p_refs p" "p_count q = p_count p" "p_packets q = p_packets p" "p_msgs q = p_msgs p" "p_last q = p_last p"
  using assms by (simp_all add: frame_def)

lemma pipe_okD:
  assumes "pipe_ok p"
  shows "length (p_data p) = unat (p_size p)" "unat (p_read p) \<le> unat (p_len p)" "unat (p_len p) \<le> unat (p_size p)"
    "unat (p_size p) \<le> 65536" "unat (p_len p) \<le> 65536" "8192 \<le> unat (p_size p)"
  using assms by (auto simp: pipe_ok_def)

lemma length_queued: "pipe_ok p \<Longrightarrow> length (queued p) = unat (p_len p - p_read p)"
  using pipe_okD [of p] by (simp add: queued_def unat_sub_le)

lemma length_queued_cap: "pipe_ok p \<Longrightarrow> length (queued p) \<le> 65536"
  using pipe_okD [of p] by (simp add: queued_def)

lemma unat_wide [simp]: "unat (ucast x :: u64) = unat x" for x :: u32
  using unat_bound [of x] by (simp add: unsigned_ucast_eq take_bit_nat_eq_self)

lemma unat_narrow: "unat x < 2 ^ 32 \<Longrightarrow> unat (ucast x :: u32) = unat x" for x :: u64
  by (simp add: unsigned_ucast_eq take_bit_nat_eq_self)

section \<open>Moving up and growing\<close>

lemma compact_ok:
  assumes "pipe_ok p"
  obtains q where "compact p = Some q" "pipe_ok q" "p_read q = 0" "queued q = queued p" "frame q = frame p"
    "p_wrote q = p_wrote p" "p_taken q = p_taken p" "unat (p_len q) = length (queued p)"
proof (cases "0 < p_read p")
  case True
  note b = pipe_okD [OF assms]
  let ?n = "unat (p_len p - p_read p)"
  define left where "left = take ?n (drop (unat (p_read p)) (p_data p))"
  have n: "?n = unat (p_len p) - unat (p_read p)" using b(2) by (rule unat_sub_le)
  have q: "left = queued p" by (simp add: left_def queued_def n drop_take)
  have l: "length left = ?n" using b n by (simp add: left_def)
  let ?q = "p\<lparr>p_data := left @ drop ?n (p_data p), p_len := p_len p - p_read p, p_read := 0\<rparr>"
  have "compact p = Some ?q" using True b n l by (simp add: compact_def slice_def blit_def left_def)
  moreover have "pipe_ok ?q" using assms b n l by (auto simp: pipe_ok_def)
  moreover have "queued ?q = queued p" using l q by (simp add: queued_def)
  ultimately show ?thesis using that l q by simp
next
  case False
  then have "p_read p = 0" by (simp add: word_gt_0)
  moreover have "unat (p_len p) = length (queued p)" using length_queued [OF assms] calculation by simp
  ultimately show ?thesis using that [of p] assms by (simp add: compact_def)
qed

lemma wanted_ok:
  assumes "w \<in> {8192, 16384, 32768, 65536}" "unat need \<le> 65536"
  obtains v where "wanted 33 need w = Some v" "need \<le> ucast v" "v \<in> {8192, 16384, 32768, 65536}" "w \<le> v"
proof -
  have u: "wanted 33 need x = (if ucast x < need then wanted 32 need (x * 2) else Some x)"
    "wanted 32 need x = (if ucast x < need then wanted 31 need (x * 2) else Some x)"
    "wanted 31 need x = (if ucast x < need then wanted 30 need (x * 2) else Some x)"
    "wanted 30 need x = (if ucast x < need then wanted 29 need (x * 2) else Some x)" for x
    using wanted.simps(2) [of 32 need x] wanted.simps(2) [of 31 need x] wanted.simps(2) [of 30 need x] wanted.simps(2) [of 29 need x]
    by simp_all
  have "\<not> (65536 :: u64) < need" using assms(2) by (simp add: word_less_nat_alt)
  then have "\<exists>v. wanted 33 need w = Some v \<and> need \<le> ucast v \<and> v \<in> {8192, 16384, 32768, 65536} \<and> w \<le> v"
    using assms(1) by (auto simp: u not_less)
  then show ?thesis using that by blast
qed

lemma grow_ok:
  assumes "pipe_ok p" "p_read p = 0" "unat need \<le> 65536"
  shows "\<exists>r k1. grow_pipe K need p k = Some (r, k1) \<and>
    (case r of
       None \<Rightarrow> ucast (p_size p) < need \<and> (\<exists>w. pk_alloc K w k = (False, k1))
     | Some q \<Rightarrow> pipe_ok q \<and> p_read q = 0 \<and> p_len q = p_len p \<and> queued q = queued p \<and> frame q = frame p \<and>
         p_wrote q = p_wrote p \<and> p_taken q = p_taken p \<and> need \<le> ucast (p_size q) \<and>
         (k1 = k \<or> (\<exists>w k2. pk_alloc K w k = (True, k2) \<and> k1 = pk_free K k2)))"
proof (cases "need \<le> ucast (p_size p)")
  case True
  then show ?thesis using assms by (simp add: grow_pipe_def)
next
  case False
  note b = pipe_okD [OF assms(1)]
  obtain w where w: "wanted 33 need (p_size p) = Some w" "need \<le> ucast w" "w \<in> {8192, 16384, 32768, 65536}" "p_size p \<le> w"
    using wanted_ok [OF _ assms(3)] assms(1) by (metis pipe_ok_def)
  obtain got k2 where a: "pk_alloc K (ucast w) k = (got, k2)" by (cases "pk_alloc K (ucast w) k")
  show ?thesis
  proof (cases got)
    case False
    then show ?thesis using \<open>\<not> need \<le> ucast (p_size p)\<close> w(1) a by (auto simp: grow_pipe_def not_le)
  next
    case True
    let ?d = "take (unat (p_len p)) (p_data p)"
    let ?q = "p\<lparr>p_data := ?d @ replicate (unat w - unat (p_len p)) 0, p_size := w\<rparr>"
    have lw: "unat (p_size p) \<le> unat w" using w(4) by (simp add: word_le_nat_alt)
    then have "grow_pipe K need p k = Some (Some ?q, pk_free K k2)"
      using False True w(1) a b by (simp add: grow_pipe_def slice_def blit_def)
    moreover have "pipe_ok ?q" using b lw w(3) assms(2) by (auto simp: pipe_ok_def)
    moreover have "queued ?q = queued p" using b by (simp add: queued_def)
    ultimately show ?thesis using w(2) a True assms(2) by auto
  qed
qed

section \<open>Putting and reading\<close>

lemma pipe_at_set [simp]: "n < length (pipes s) \<Longrightarrow> pipe_at n (set_pipe n p s) = p"
  by (simp add: pipe_at_def set_pipe_def)

lemma pipe_at_env [simp]: "pipe_at n (s\<lparr>env := k\<rparr>) = pipe_at n s" "pipe_at n (s\<lparr>pmem := m\<rparr>) = pipe_at n s"
  "pipe_at n (s\<lparr>pair_sender := i\<rparr>) = pipe_at n s"
  by (simp_all add: pipe_at_def)

lemma set_pipe_simps [simp]:
  "length (pipes (set_pipe n p s)) = length (pipes s)" "pmem (set_pipe n p s) = pmem s" "env (set_pipe n p s) = env s"
  "pair_sender (set_pipe n p s) = pair_sender s"
  by (simp_all add: set_pipe_def)

lemma pipe_at_other [simp]: "m \<noteq> n \<Longrightarrow> pipe_at m (set_pipe n p s) = pipe_at m s"
  by (simp add: pipe_at_def set_pipe_def)

text \<open>
  What \<open>pipe_put\<close> takes: nothing, or as much as there is room for; nothing, with room and bytes to put,
  only when there is no memory.
\<close>

lemma pipe_put_ok:
  assumes "n < length (pipes s)" "pipe_ok (pipe_at n s)"
  obtains c p k where "pipe_put K n from cnt s = Some (c, set_pipe n p (s\<lparr>env := k\<rparr>))" "pipe_ok p" "frame p = frame (pipe_at n s)"
    "queued p = queued (pipe_at n s) @ peek (pmem s) from (unat c)" "p_wrote p = p_wrote (pipe_at n s) + c"
    "p_taken p = p_taken (pipe_at n s)"
    "unat c = min (unat cnt) (65536 - length (queued (pipe_at n s))) \<and> (k = env s \<or> (\<exists>w k2. pk_alloc K w (env s) = (True, k2) \<and> k = pk_free K k2)) \<or>
     c = 0 \<and> (\<exists>w. pk_alloc K w (env s) = (False, k))"
proof -
  obtain p where p: "compact (pipe_at n s) = Some p" "pipe_ok p" "p_read p = 0" "queued p = queued (pipe_at n s)" "frame p = frame (pipe_at n s)"
    "p_wrote p = p_wrote (pipe_at n s)" "p_taken p = p_taken (pipe_at n s)" "unat (p_len p) = length (queued (pipe_at n s))"
    using compact_ok [OF assms(2)] by metis
  note b = pipe_okD [OF p(2)]
  define c :: u64 where "c = (if ucast (65536 - p_len p) < cnt then ucast (65536 - p_len p) else cnt)"
  have r: "unat (65536 - p_len p) = 65536 - unat (p_len p)" using b(5) by (simp add: unat_sub_le)
  then have c: "unat c = min (unat cnt) (65536 - unat (p_len p))" by (auto simp: c_def word_less_nat_alt unat_wide)
  have need: "unat (ucast (p_len p) + c) = unat (p_len p) + unat c"
    using c b(5) by (subst unat_add_small) (auto simp: unat_wide)
  then have "unat (ucast (p_len p) + c) \<le> 65536" using c b(5) by simp
  note g = grow_ok [OF p(2,3) this, of K "env s"]
  obtain r k1 where r: "grow_pipe K (ucast (p_len p) + c) p (env s) = Some (r, k1)" using g by blast
  show ?thesis
  proof (cases r)
    case None
    have "pipe_put K n from cnt s = Some (0, set_pipe n p (s\<lparr>env := k1\<rparr>))"
      using p(1) r None by (simp add: pipe_put_def c_def [symmetric])
    then show ?thesis using that [of 0 p k1] p g r None by (auto simp: peek_def)
  next
    case (Some q)
    have q: "pipe_ok q" "p_read q = 0" "p_len q = p_len p" "queued q = queued p" "frame q = frame p" "p_wrote q = p_wrote p"
      "p_taken q = p_taken p" "ucast (p_len p) + c \<le> (ucast (p_size q) :: u64)"
      "k1 = env s \<or> (\<exists>w k2. pk_alloc K w (env s) = (True, k2) \<and> k1 = pk_free K k2)"
      using g r Some by auto
    note bq = pipe_okD [OF q(1)]
    have fit: "unat (p_len q) + unat c \<le> length (p_data q)"
      using q(3,8) need bq(1) by (simp add: word_le_nat_alt unat_wide)
    let ?d = "take (unat (p_len q)) (p_data q) @ peek (pmem s) from (unat c) @ drop (unat (p_len q) + unat c) (p_data q)"
    let ?q = "q\<lparr>p_data := ?d, p_len := p_len q + ucast c, p_wrote := p_wrote q + c\<rparr>"
    have l: "unat (p_len q + ucast c) = unat (p_len q) + unat c"
      using c q(3) b(5) by (subst unat_add_small) (auto simp: unat_narrow)
    have "pipe_put K n from cnt s = Some (c, set_pipe n ?q (s\<lparr>env := k1\<rparr>))"
      using p(1) r Some fit by (simp add: pipe_put_def c_def [symmetric] blit_def)
    moreover have "pipe_ok ?q" using q(1,2) fit l bq by (auto simp: pipe_ok_def)
    moreover have "queued ?q = queued q @ peek (pmem s) from (unat c)"
      using q(2) l fit bq by (simp add: queued_def)
    ultimately show ?thesis using that [of c ?q k1] p q c by auto
  qed
qed

lemma pipe_read_ok:
  assumes "n < length (pipes s)" "pipe_ok (pipe_at n s)"
  obtains c p where "pipe_read n dst cnt s =
      Some (c, set_pipe n p (s\<lparr>pmem := (case dst of None \<Rightarrow> pmem s | Some a \<Rightarrow> poke (pmem s) a (take (unat c) (queued (pipe_at n s))))\<rparr>))"
    "pipe_ok p" "frame p = frame (pipe_at n s)" "unat c = min (unat cnt) (length (queued (pipe_at n s)))"
    "queued p = drop (unat c) (queued (pipe_at n s))" "p_wrote p = p_wrote (pipe_at n s)" "p_taken p = p_taken (pipe_at n s) + c"
proof -
  define p where "p = pipe_at n s"
  have ok: "pipe_ok p" using assms(2) by (simp add: p_def)
  note b = pipe_okD [OF ok]
  define c :: u64 where "c = (if ucast (p_len p - p_read p) < cnt then ucast (p_len p - p_read p) else cnt)"
  have c: "unat c = min (unat cnt) (length (queued p))"
    by (auto simp: c_def word_less_nat_alt unat_wide length_queued [OF ok])
  have lq: "length (queued p) = unat (p_len p) - unat (p_read p)" using length_queued [OF ok] unat_sub_le [OF b(2)] by simp
  have r: "unat (p_read p + ucast c) = unat (p_read p) + unat c"
    using c lq b by (subst unat_add_small) (auto simp: unat_narrow)
  let ?p1 = "p\<lparr>p_read := p_read p + ucast c, p_taken := p_taken p + c\<rparr>"
  define q where "q = (if p_read ?p1 = p_len ?p1 then ?p1\<lparr>p_read := 0, p_len := 0\<rparr> else ?p1)"
  have sl: "slice (p_data p) (unat (p_read p)) (unat c) = Some (take (unat c) (queued p))"
    using c lq b by (auto simp: slice_def queued_def drop_take min_def)
  have "pipe_read n dst cnt s =
      Some (c, set_pipe n q (s\<lparr>pmem := (case dst of None \<Rightarrow> pmem s | Some a \<Rightarrow> poke (pmem s) a (take (unat c) (queued p)))\<rparr>))"
    unfolding pipe_read_def p_def [symmetric] Let_def c_def [symmetric] q_def using sl by (cases dst) simp_all
  moreover have "pipe_ok q" using ok r c lq b by (auto simp: q_def pipe_ok_def)
  moreover have "queued q = drop (unat c) (queued p)"
  proof (cases "p_read ?p1 = p_len ?p1")
    case True
    then have "unat (p_read p) + unat c = unat (p_len p)" using r by simp
    then show ?thesis using True lq by (simp add: q_def) (simp add: queued_def)
  next
    case False
    then show ?thesis using r by (simp add: q_def) (simp add: queued_def add.commute)
  qed
  moreover have "frame q = frame p" "p_wrote q = p_wrote p" "p_taken q = p_taken p + c" by (simp_all add: q_def)
  ultimately show ?thesis using that [of c q] c unfolding p_def by blast
qed

section \<open>A pipe as a queue\<close>

text \<open>
  Any puts and reads, by addresses and counts, in any order: what went in and what came out. What is read
  comes out of the memory it was read into.
\<close>

datatype pipe_op = Put u64 u64 | Get u64 u64

primrec pipe_ops :: "'k pipe_kernel \<Rightarrow> nat \<Rightarrow> pipe_op list \<Rightarrow> 'k ipc \<Rightarrow> (u8 list \<times> u8 list \<times> 'k ipc) option" where
  "pipe_ops K n [] s = Some ([], [], s)"
| "pipe_ops K n (x # xs) s =
    (case x of
       Put a cnt \<Rightarrow> do {
         (c, t) \<leftarrow> pipe_put K n a cnt s;
         (ins, outs, u) \<leftarrow> pipe_ops K n xs t;
         Some (peek (pmem s) a (unat c) @ ins, outs, u)
       }
     | Get a cnt \<Rightarrow> do {
         (c, t) \<leftarrow> pipe_read n (Some a) cnt s;
         (ins, outs, u) \<leftarrow> pipe_ops K n xs t;
         Some (ins, peek (pmem t) a (unat c) @ outs, u)
       })"

lemma pipe_ops_queue:
  assumes "n < length (pipes s)" "pipe_ok (pipe_at n s)"
  shows "\<exists>ins outs t. pipe_ops K n xs s = Some (ins, outs, t) \<and> n < length (pipes t) \<and> pipe_ok (pipe_at n t) \<and>
    queued (pipe_at n s) @ ins = outs @ queued (pipe_at n t)"
  using assms
proof (induction xs arbitrary: s)
  case (Cons x xs)
  show ?case
  proof (cases x)
    case (Put a cnt)
    obtain c p k where p: "pipe_put K n a cnt s = Some (c, set_pipe n p (s\<lparr>env := k\<rparr>))" "pipe_ok p"
        "queued p = queued (pipe_at n s) @ peek (pmem s) a (unat c)"
      using pipe_put_ok [OF Cons.prems] by metis
    let ?t = "set_pipe n p (s\<lparr>env := k\<rparr>)"
    have t: "pipe_at n ?t = p" "n < length (pipes ?t)" using Cons.prems(1) by simp_all
    show ?thesis using Cons.IH [OF t(2)] t p Put by auto
  next
    case (Get a cnt)
    let ?q = "queued (pipe_at n s)"
    obtain c p where p: "pipe_read n (Some a) cnt s = Some (c, set_pipe n p (s\<lparr>pmem := poke (pmem s) a (take (unat c) ?q)\<rparr>))" "pipe_ok p"
        "unat c = min (unat cnt) (length ?q)" "queued p = drop (unat c) ?q"
      using pipe_read_ok [OF Cons.prems, of "Some a" cnt, unfolded option.case] by metis
    let ?t = "set_pipe n p (s\<lparr>pmem := poke (pmem s) a (take (unat c) ?q)\<rparr>)"
    have t: "pipe_at n ?t = p" "n < length (pipes ?t)" using Cons.prems(1) by simp_all
    have l: "length (take (unat c) ?q) = unat c" using p(3) by simp
    have "peek (pmem ?t) a (unat c) = take (unat c) ?q"
      using peek_poke [of "take (unat c) ?q" "pmem s" a] unsigned_less [of c] l by simp
    then show ?thesis using Cons.IH [OF t(2)] t p(1,2,4) Get append_take_drop_id [of "unat c" ?q] by (metis (mono_tags, lifting) append_assoc bind.bind_lunit case_prod_conv pipe_op.case(2) pipe_ops.simps(2))
  qed
qed simp

end
