(* ===== verification/PipeMessages.thy ===== *)
theory PipeMessages
  imports PipeBuffer
begin

text \<open>
  The messages of a packet pair: each write is a message, each read takes one. \<open>packets\<close> is the queue of
  messages a pipe holds, with the descriptors and the sender of each.
\<close>

fun split_up :: "pmsg list \<Rightarrow> u8 list \<Rightarrow> (u8 list \<times> handle list \<times> u32) list" where
  "split_up [] bs = []"
| "split_up (m # ms) bs = (take (unat (m_len m)) bs, m_fds m, m_pid m) # split_up ms (drop (unat (m_len m)) bs)"

definition packets :: "pipe \<Rightarrow> (u8 list \<times> handle list \<times> u32) list" where
  "packets p = split_up (p_msgs p) (queued p)"

definition packet_ok :: "pipe \<Rightarrow> bool" where
  "packet_ok p \<longleftrightarrow> pipe_ok p \<and> p_packets p \<and> length (queued p) = sum_list (map (\<lambda>m. unat (m_len m)) (p_msgs p))"

text \<open>The bytes of the iovecs, one after the other.\<close>

definition iov_bytes :: "iovs \<Rightarrow> memory \<Rightarrow> nat list \<Rightarrow> u8 list" where
  "iov_bytes iov m is = concat (map (\<lambda>i. peek m (fst (iov_at iov m i)) (unat (snd (iov_at iov m i)))) is)"

lemma iov_bytes_simps [simp]:
  "iov_bytes iov m [] = []"
  "iov_bytes iov m (i # is) = peek m (fst (iov_at iov m i)) (unat (snd (iov_at iov m i))) @ iov_bytes iov m is"
  by (simp_all add: iov_bytes_def)

lemma split_up_append:
  "sum_list (map (\<lambda>m. unat (m_len m)) ms) = length bs \<Longrightarrow> length cs = unat (m_len m) \<Longrightarrow>
   split_up (ms @ [m]) (bs @ cs) = split_up ms bs @ [(cs, m_fds m, m_pid m)]"
  by (induction ms arbitrary: bs) auto

lemma iov_total_ok:
  "iov_total K (iov_at iov m) is t0 k = Some t \<Longrightarrow> unat t0 + length (iov_bytes iov m is) < 2 ^ 64 \<Longrightarrow>
   unat t = unat t0 + length (iov_bytes iov m is)"
proof (induction "is" arbitrary: t0)
  case (Cons i "is")
  let ?l = "snd (iov_at iov m i)"
  have "unat (t0 + ?l) = unat t0 + unat ?l" using Cons.prems(2) by (subst unat_add_small) simp_all
  then show ?case using Cons.IH [of "t0 + ?l"] Cons.prems by (simp split: if_splits)
qed simp

section \<open>Sending\<close>

text \<open>\<open>s\<close> and \<open>t\<close> differ in pipe \<open>n\<close> and in what the kernel did for memory.\<close>

definition only_pipe :: "nat \<Rightarrow> 'k ipc \<Rightarrow> 'k ipc \<Rightarrow> bool" where
  "only_pipe n s t \<longleftrightarrow> length (pipes t) = length (pipes s) \<and> pmem t = pmem s \<and> pair_sender t = pair_sender s \<and>
    (\<forall>m. m \<noteq> n \<longrightarrow> pipe_at m t = pipe_at m s)"

lemma only_pipe_refl [simp]: "only_pipe n s s"
  by (simp add: only_pipe_def)

lemma only_pipe_set [simp]: "only_pipe n s (set_pipe n p (s\<lparr>env := k\<rparr>))"
  by (simp add: only_pipe_def)

lemma only_pipe_trans: "only_pipe n s t \<Longrightarrow> only_pipe n t u \<Longrightarrow> only_pipe n s u"
  by (simp add: only_pipe_def)

text \<open>There is memory for the buffer to hold \<open>w\<close> bytes, or it holds them as it is.\<close>

definition memory_for :: "'k pipe_kernel \<Rightarrow> nat \<Rightarrow> pipe \<Rightarrow> bool" where
  "memory_for K w p \<longleftrightarrow> (\<forall>v k. fst (pk_alloc K v k)) \<or> w \<le> unat (p_size p)"

lemma compact_size: "compact p = Some q \<Longrightarrow> p_size q = p_size p"
  by (auto simp: compact_def split: if_splits bind_splits)

lemma put_fits:
  assumes "pipe_ok (pipe_at n s)" "n < length (pipes s)" "length (queued (pipe_at n s)) + unat cnt \<le> unat (p_size (pipe_at n s))"
    "pipe_put K n from cnt s = Some (c, t)"
  shows "c = cnt" "p_size (pipe_at n t) = p_size (pipe_at n s)"
proof -
  obtain p where p: "compact (pipe_at n s) = Some p" "unat (p_len p) = length (queued (pipe_at n s))" "p_size p = p_size (pipe_at n s)"
    using compact_ok [OF assms(1)] compact_size by metis
  have cap: "unat (p_len p) + unat cnt \<le> 65536" using assms(3) p(2) pipe_okD(4) [OF assms(1)] by simp
  have "unat (65536 - p_len p) = 65536 - unat (p_len p)" using cap by (simp add: unat_sub_le)
  then have c: "\<not> ucast (65536 - p_len p) < cnt" using cap by (simp add: word_less_nat_alt)
  have "unat (ucast (p_len p) + cnt) = unat (p_len p) + unat cnt" using cap by (subst unat_add_small) simp_all
  then have "ucast (p_len p) + cnt \<le> (ucast (p_size p) :: u64)" using assms(3) p(2,3) by (simp add: word_le_nat_alt)
  then have "grow_pipe K (ucast (p_len p) + cnt) p (env s) = Some (Some p, env s)" by (simp add: grow_pipe_def)
  then show "c = cnt" "p_size (pipe_at n t) = p_size (pipe_at n s)"
    using assms(2,4) p(1,3) c by (auto simp: pipe_put_def split: bind_splits)
qed

lemma put_each_ok:
  assumes "n < length (pipes s)" "pipe_ok (pipe_at n s)" "memory_for K (length (queued (pipe_at n s)) + length (iov_bytes iov (pmem s) is)) (pipe_at n s)"
    "length (queued (pipe_at n s)) + length (iov_bytes iov (pmem s) is) \<le> 65536"
  shows "\<exists>t. put_each K n iov is s = Some t \<and> only_pipe n s t \<and> pipe_ok (pipe_at n t) \<and> frame (pipe_at n t) = frame (pipe_at n s) \<and>
    queued (pipe_at n t) = queued (pipe_at n s) @ iov_bytes iov (pmem s) is"
  using assms
proof (induction "is" arbitrary: s)
  case (Cons i "is")
  obtain a len where i: "iov_at iov (pmem s) i = (a, len)" by (cases "iov_at iov (pmem s) i")
  obtain c p k where p: "pipe_put K n a len s = Some (c, set_pipe n p (s\<lparr>env := k\<rparr>))" "pipe_ok p" "frame p = frame (pipe_at n s)"
    "queued p = queued (pipe_at n s) @ peek (pmem s) a (unat c)"
    "unat c = min (unat len) (65536 - length (queued (pipe_at n s))) \<or> (\<exists>w. pk_alloc K w (env s) = (False, k))"
    using Cons.prems(1,2) by (elim pipe_put_ok [where K = K and cnt = len]) blast+
  let ?t = "set_pipe n p (s\<lparr>env := k\<rparr>)"
  have "unat c = unat len \<and> memory_for K (length (queued (pipe_at n s)) + length (iov_bytes iov (pmem s) (i # is))) p"
  proof (cases "\<forall>v k. fst (pk_alloc K v k)")
    case True
    then have "pk_alloc K w (env s) \<noteq> (False, k)" for w by (metis fst_conv)
    then show ?thesis using p(5) Cons.prems(4) i True by (simp add: memory_for_def)
  next
    case False
    then have fit: "length (queued (pipe_at n s)) + length (iov_bytes iov (pmem s) (i # is)) \<le> unat (p_size (pipe_at n s))"
      using Cons.prems(3) False unfolding memory_for_def by blast
    then have "length (queued (pipe_at n s)) + unat len \<le> unat (p_size (pipe_at n s))" using i by simp
    note f = put_fits [OF Cons.prems(2,1) this p(1)]
    then show ?thesis using fit Cons.prems(1) by (simp add: memory_for_def)
  qed
  then have c: "unat c = unat len" "memory_for K (length (queued (pipe_at n s)) + length (iov_bytes iov (pmem s) (i # is))) p" by simp_all
  then have q: "queued p = queued (pipe_at n s) @ peek (pmem s) a (unat len)" using p(4) by simp
  have "\<exists>t. put_each K n iov is ?t = Some t \<and> only_pipe n ?t t \<and> pipe_ok (pipe_at n t) \<and> frame (pipe_at n t) = frame p \<and>
      queued (pipe_at n t) = queued p @ iov_bytes iov (pmem s) is"
    using Cons.IH [of ?t] Cons.prems(1,4) p(2) q i c(2) by (simp add: add.assoc)
  then show ?case using p(1,3) q i only_pipe_trans [OF only_pipe_set] by fastforce
qed simp

text \<open>The message is listed, or there was no memory for a longer list.\<close>

lemma pmsg_push_ok:
  assumes "n < length (pipes s)" "length fds \<le> 16"
  obtains p k where "pmsg_push K n pos len fds s = Some (True, set_pipe n p (s\<lparr>env := k\<rparr>))"
      "p_msgs p = p_msgs (pipe_at n s) @ [\<lparr>m_at = pos, m_len = len, m_pid = pk_pid K (env s), m_fds = fds\<rparr>]"
      "p_packets p = p_packets (pipe_at n s)" "queued p = queued (pipe_at n s)" "pipe_ok p = pipe_ok (pipe_at n s)"
      "p_refs p = p_refs (pipe_at n s)" "p_size p = p_size (pipe_at n s)"
    | k w where "pmsg_push K n pos len fds s = Some (False, set_pipe n ((pipe_at n s)\<lparr>p_last := pk_pid K (env s)\<rparr>) (s\<lparr>env := k\<rparr>))"
      "pk_alloc K w (env s) = (False, k)"
proof -
  define full where "full = (of_nat (length (p_msgs (pipe_at n s))) = p_room (pipe_at n s))"
  define room where "room = (if \<not> full then p_room (pipe_at n s) else if p_room (pipe_at n s) = 0 then 4 else p_room (pipe_at n s) * 2)"
  obtain ok k where k: "(if full then pk_alloc K (ucast room * 472) (env s) else (True, env s)) = (ok, k)" by (metis surj_pair)
  show ?thesis
  proof (cases ok)
    case True
    let ?p = "(pipe_at n s)\<lparr>p_last := pk_pid K (env s), p_msgs := p_msgs (pipe_at n s) @ [\<lparr>m_at = pos, m_len = len, m_pid = pk_pid K (env s), m_fds = fds\<rparr>],
      p_room := room\<rparr>"
    have "pmsg_push K n pos len fds s =
        Some (True, set_pipe n ?p (s\<lparr>env := if full \<and> ok \<and> p_msgs (pipe_at n s) \<noteq> [] then pk_free K k else k\<rparr>))"
      using assms(2) \<open>ok\<close> k by (cases full) (auto simp: pmsg_push_def Let_def room_def full_def split: if_splits)
    then show ?thesis by (rule that(1)) (simp_all add: queued_def pipe_ok_def)
  next
    case False
    then have "pk_alloc K (ucast room * 472) (env s) = (False, k)" using k by (auto split: if_splits)
    moreover have "pmsg_push K n pos len fds s = Some (False, set_pipe n ((pipe_at n s)\<lparr>p_last := pk_pid K (env s)\<rparr>) (s\<lparr>env := k\<rparr>))"
      using False k by (cases full) (auto simp: pmsg_push_def Let_def room_def full_def split: if_splits)
    ultimately show ?thesis using that(2) by blast
  qed
qed

lemma iov_total_Some:
  "(\<forall>i \<in> set is. pk_range K (fst (f i)) (snd (f i)) k) \<Longrightarrow> \<exists>t. iov_total K f is t0 k = Some t"
  by (induction "is" arbitrary: t0) auto

lemma packet_put:
  assumes "n < length (pipes s)" "packet_ok (pipe_at n s)" "memory_for K (length (queued (pipe_at n s)) + length bs) (pipe_at n s)"
    "0 < fuel" "length fds \<le> 16"
    "\<forall>i < unat cnt. pk_range K (fst (iov_at iov (pmem s) i)) (snd (iov_at iov (pmem s) i)) (env s)"
    "bs = iov_bytes iov (pmem s) [0..<unat cnt]" "length (queued (pipe_at n s)) + length bs \<le> 65536"
  obtains t where "pair_put K fuel h n iov cnt fds now s = Ended (of_nat (length bs)) t" "only_pipe n s t" "packet_ok (pipe_at n t)"
      "packets (pipe_at n t) = packets (pipe_at n s) @ [(bs, fds, pk_pid K (env s))]"
    | t w k where "pair_put K fuel h n iov cnt fds now s = Ended (ERR ENOBUFS) t" "only_pipe n s t" "packet_ok (pipe_at n t)"
      "packets (pipe_at n t) = packets (pipe_at n s)" "\<not> fst (pk_alloc K w k)"
proof -
  let ?p = "pipe_at n s"
  have ok: "pipe_ok ?p" "p_packets ?p" "length (queued ?p) = sum_list (map (\<lambda>m. unat (m_len m)) (p_msgs ?p))"
    using assms(2) by (simp_all add: packet_ok_def)
  obtain tot where t: "iov_total K (iov_at iov (pmem s)) [0..<unat cnt] 0 (env s) = Some tot"
    using iov_total_Some [of "[0..<unat cnt]" K "iov_at iov (pmem s)"] assms(6) by fastforce
  have tot: "unat tot = length bs" using iov_total_ok [OF t] assms(7,8) by simp
  then have of_tot: "tot = of_nat (length bs)" by (simp flip: tot)
  obtain f where f: "fuel = Suc f" using assms(4) gr0_implies_Suc by blast
  have "unat (65536 - (p_len ?p - p_read ?p)) = 65536 - length (queued ?p)"
    using length_queued [OF ok(1)] length_queued_cap [OF ok(1)] by (subst unat_sub_le) simp_all
  then have room: "\<not> ucast (65536 - (p_len ?p - p_read ?p)) < tot" using tot assms(8) by (simp add: word_less_nat_alt)
  have small: "\<not> 65536 < tot" using tot assms(8) by (simp add: word_less_nat_alt)
  show ?thesis
  proof (rule pmsg_push_ok [OF assms(1,5), where K = K and pos = "p_wrote ?p" and len = "ucast tot"])
    fix p k
    assume p: "pmsg_push K n (p_wrote ?p) (ucast tot) fds s = Some (True, set_pipe n p (s\<lparr>env := k\<rparr>))"
      "p_msgs p = p_msgs ?p @ [\<lparr>m_at = p_wrote ?p, m_len = ucast tot, m_pid = pk_pid K (env s), m_fds = fds\<rparr>]"
      "p_packets p = p_packets ?p" "queued p = queued ?p" "pipe_ok p = pipe_ok ?p" "p_size p = p_size ?p"
    let ?s1 = "set_pipe n p (s\<lparr>env := k\<rparr>)"
    have s1: "n < length (pipes ?s1)" "pipe_at n ?s1 = p" "pmem ?s1 = pmem s" using assms(1) by simp_all
    have "memory_for K (length (queued p) + length bs) p" using assms(3) p(4,6) by (simp add: memory_for_def)
    then obtain t where u: "put_each K n iov [0..<unat cnt] ?s1 = Some t" "only_pipe n ?s1 t" "pipe_ok (pipe_at n t)" "frame (pipe_at n t) = frame p"
      "queued (pipe_at n t) = queued p @ bs"
      using put_each_ok [of n ?s1 K iov "[0..<unat cnt]"] assms(7,8) s1 p(4,5) ok(1) by auto
    have ml: "unat (ucast tot :: u32) = length bs" using tot assms(8) by (simp add: unat_narrow)
    have fr: "p_msgs (pipe_at n t) = p_msgs p" "p_packets (pipe_at n t) = p_packets p" using frameD [OF u(4)] by simp_all
    have "pair_put K fuel h n iov cnt fds now s = Ended tot t"
      using t small ok(2) room p(1) u(1) by (simp add: pair_put_def f)
    moreover have "packet_ok (pipe_at n t)" using u(3,5) fr p(2,3,4) ok ml by (simp add: packet_ok_def)
    moreover have "packets (pipe_at n t) = packets ?p @ [(bs, fds, pk_pid K (env s))]"
      unfolding packets_def fr(1) p(2) u(5) p(4) using split_up_append ok(3) ml by simp
    ultimately show ?thesis using that(1) only_pipe_trans [OF only_pipe_set u(2)] of_tot by simp
  next
    fix k w
    let ?t = "set_pipe n (?p\<lparr>p_last := pk_pid K (env s)\<rparr>) (s\<lparr>env := k\<rparr>)"
    assume p: "pmsg_push K n (p_wrote ?p) (ucast tot) fds s = Some (False, ?t)" "pk_alloc K w (env s) = (False, k)"
    have "pair_put K fuel h n iov cnt fds now s = Ended (ERR ENOBUFS) ?t"
      using t small ok(2) room p(1) by (simp add: pair_put_def f)
    moreover have "queued (?p\<lparr>p_last := pk_pid K (env s)\<rparr>) = queued ?p" "pipe_ok (?p\<lparr>p_last := pk_pid K (env s)\<rparr>)"
      using ok(1) by (simp_all add: queued_def pipe_ok_def)
    then have "packet_ok (pipe_at n ?t)" "packets (pipe_at n ?t) = packets ?p"
      using assms(1) ok(2,3) by (simp_all add: packet_ok_def packets_def)
    moreover have "\<not> fst (pk_alloc K w (env s))" by (simp add: p(2))
    ultimately show ?thesis by (rule that(2) [OF _ only_pipe_set])
  qed
qed

section \<open>Receiving\<close>

text \<open>
  Bytes written into pieces of memory, one after the other, each filled before the next. \<open>iovs_apart\<close>: no
  piece covers the array that lists them, so that the list is the same after each.
\<close>

fun scatter :: "(u64 \<times> u64) list \<Rightarrow> u8 list \<Rightarrow> memory \<Rightarrow> memory" where
  "scatter [] bs m = m"
| "scatter ((a, len) # ps) bs m = scatter ps (drop (unat len) bs) (poke m a (take (unat len) bs))"

definition iovs_apart :: "iovs \<Rightarrow> nat \<Rightarrow> memory \<Rightarrow> bool" where
  "iovs_apart iov cnt m \<longleftrightarrow>
    (case iov of
       One a len \<Rightarrow> True
     | At b \<Rightarrow> \<forall>i < cnt. \<forall>k < 16 * cnt. unat (snd (iov_at iov m i)) \<le> unat (b + of_nat k - fst (iov_at iov m i)))"

lemma poke_none [simp]: "poke m a [] = m"
  by (simp add: poke_def)

lemma scatter_none [simp]: "scatter ps [] m = m"
  by (induction ps arbitrary: m) auto

lemma peek_same: "(\<And>k. k < j \<Longrightarrow> m' (a + of_nat k) = m (a + of_nat k)) \<Longrightarrow> peek m' a j = peek m a j"
  by (simp add: peek_def)

lemma iov_kept:
  assumes "iovs_apart iov cnt m" "i < cnt" "j < cnt" "\<And>k. k < cnt \<Longrightarrow> iov_at iov m' k = iov_at iov m k"
    "length bs \<le> unat (snd (iov_at iov m i))"
  shows "iov_at iov (poke m' (fst (iov_at iov m i)) bs) j = iov_at iov m j"
proof (cases iov)
  case (One a len)
  then show ?thesis by simp
next
  case (At b)
  have out: "poke m' (fst (iov_at iov m i)) bs (b + of_nat k) = m' (b + of_nat k)" if k: "k < 16 * cnt" for k
    using assms(1,2,5) k unfolding iovs_apart_def At poke_def by fastforce
  have same: "peek (poke m' (fst (iov_at iov m i)) bs) (b + of_nat q) 8 = peek m' (b + of_nat q) 8" if "q + 8 \<le> 16 * cnt" for q
    by (rule peek_same) (use out [of "q + k" for k] that in \<open>simp add: add.assoc\<close>)
  have "iov_at iov m' j = iov_at iov m j" by (rule assms(4) [OF assms(3)])
  then show ?thesis using same [of "16 * j"] same [of "16 * j + 8"] assms(3) by (simp add: At u64_at_def ac_simps)
qed

lemma take_each_ok:
  assumes "n < length (pipes s)" "pipe_ok (pipe_at n s)" "iovs_apart iov cnt m" "set is \<subseteq> {..<cnt}"
    "\<And>i. i < cnt \<Longrightarrow> iov_at iov (pmem s) i = iov_at iov m i" "L = unat limit" "unat d \<le> L" "L - unat d \<le> length (queued (pipe_at n s))"
    "unat d = L \<or> unat want = unat d + sum_list (map (\<lambda>i. unat (snd (iov_at iov m i))) is)"
    "g = (if unat d = L then L else min (unat want) L)"
  shows "\<exists>p. take_each n iov limit want is d s =
      Some (of_nat g, set_pipe n p (s\<lparr>pmem := scatter (map (iov_at iov m) is) (take (L - unat d) (queued (pipe_at n s))) (pmem s)\<rparr>)) \<and>
    pipe_ok p \<and> frame p = frame (pipe_at n s) \<and> queued p = drop (g - unat d) (queued (pipe_at n s))"
  using assms
proof (induction "is" arbitrary: d s)
  case Nil
  then have "g = unat d" by auto
  moreover have "set_pipe n (pipe_at n s) (s\<lparr>pmem := pmem s\<rparr>) = s" using Nil.prems(1) by (simp add: set_pipe_def pipe_at_def)
  ultimately show ?case using Nil.prems(2) by (intro exI [of _ "pipe_at n s"]) simp
next
  case (Cons i "is")
  let ?q = "queued (pipe_at n s)"
  obtain a len where i: "iov_at iov m i = (a, len)" by (cases "iov_at iov m i")
  have ic: "i < cnt" using Cons.prems(4) by simp
  have here: "iov_at iov (pmem s) i = (a, len)" using Cons.prems(5) [OF ic] i by simp
  show ?case
  proof (cases "d < limit \<and> d < want")
    case False
    have "unat d = L \<or> unat want = unat d"
      using False Cons.prems(6,7,9) by (auto simp: word_less_nat_alt)
    then have "g = unat d" "unat d = L \<or> sum_list (map (\<lambda>i. unat (snd (iov_at iov m i))) (i # is)) = 0"
      using Cons.prems(7,9,10) by (auto simp del: sum_list_eq_0_iff)
    moreover have "scatter (map (iov_at iov m) js) bs m1 = m1" if "sum_list (map (\<lambda>i. unat (snd (iov_at iov m i))) js) = 0" for js bs m1
      using that
    proof (induction js)
      case (Cons j js)
      then show ?case by (cases "iov_at iov m j") simp
    qed simp
    ultimately have "g = unat d" "scatter (map (iov_at iov m) (i # is)) (take (L - unat d) ?q) (pmem s) = pmem s"
      by (metis cancel_comm_monoid_add_class.diff_cancel scatter_none take0)+
    moreover have "set_pipe n (pipe_at n s) (s\<lparr>pmem := pmem s\<rparr>) = s" using Cons.prems(1) by (simp add: set_pipe_def pipe_at_def)
    ultimately show ?thesis using False Cons.prems(2) by (intro exI [of _ "pipe_at n s"]) (auto simp del: scatter.simps)
  next
    case True
    define w where "w = (if len < limit - d then len else limit - d)"
    have lt: "unat d < L" "unat (limit - d) = L - unat d" using True Cons.prems(6,7) by (simp_all add: word_less_nat_alt unat_sub_le)
    then have want: "unat want = unat d + unat len + sum_list (map (\<lambda>i. unat (snd (iov_at iov m i))) is)"
      using Cons.prems(9) i by auto
    have w: "unat w = min (unat len) (L - unat d)" using lt(2) by (auto simp: w_def word_less_nat_alt)
    obtain c p where c: "pipe_read n (Some a) w s = Some (c, set_pipe n p (s\<lparr>pmem := poke (pmem s) a (take (unat c) ?q)\<rparr>))" "pipe_ok p"
      "frame p = frame (pipe_at n s)" "unat c = min (unat w) (length ?q)" "queued p = drop (unat c) ?q"
      using pipe_read_ok [OF Cons.prems(1,2), of "Some a" w, unfolded option.case] by metis
    let ?s = "set_pipe n p (s\<lparr>pmem := poke (pmem s) a (take (unat c) ?q)\<rparr>)"
    have cw: "unat c = min (unat len) (L - unat d)" using c(4) w Cons.prems(8) by simp
    have dc: "unat (d + c) = unat d + unat c" using cw lt Cons.prems(6) unat_bound [of limit] by (subst unat_add_small) auto
    have keep: "iov_at iov (pmem ?s) j = iov_at iov m j" if "j < cnt" for j
      using iov_kept [OF Cons.prems(3) ic that Cons.prems(5), where bs = "take (unat c) ?q"] cw i by simp
    have g: "g = (if unat (d + c) = L then L else min (unat want) L)" using Cons.prems(10) lt dc cw want by (auto simp: min_def split: if_splits)
    have dl: "unat (d + c) \<le> L" "L - unat (d + c) \<le> length (queued p)"
      "unat (d + c) = L \<or> unat want = unat (d + c) + sum_list (map (\<lambda>i. unat (snd (iov_at iov m i))) is)"
      using dc cw lt(1) want Cons.prems(8) c(5) by (cases "unat len \<le> L - unat d"; simp)+
    have "\<exists>p'. take_each n iov limit want is (d + c) ?s =
        Some (of_nat g, set_pipe n p' (?s\<lparr>pmem := scatter (map (iov_at iov m) is) (take (L - unat (d + c)) (queued (pipe_at n ?s))) (pmem ?s)\<rparr>)) \<and>
      pipe_ok p' \<and> frame p' = frame (pipe_at n ?s) \<and> queued p' = drop (g - unat (d + c)) (queued (pipe_at n ?s))"
      by (rule Cons.IH [OF _ _ Cons.prems(3) _ keep Cons.prems(6) _ _ _ g])
        (use Cons.prems(1,4) c(2) dl in auto)
    moreover have "pipe_at n ?s = p" "pmem ?s = poke (pmem s) a (take (unat c) ?q)"
      "set_pipe n p' (?s\<lparr>pmem := x\<rparr>) = set_pipe n p' (s\<lparr>pmem := x\<rparr>)" for p' x
      using Cons.prems(1) by (simp_all add: set_pipe_def pipe_at_def)
    ultimately obtain p' where p': "take_each n iov limit want is (d + c) ?s =
        Some (of_nat g, set_pipe n p' (s\<lparr>pmem := scatter (map (iov_at iov m) is) (take (L - unat (d + c)) (queued p)) (poke (pmem s) a (take (unat c) ?q))\<rparr>))"
      "pipe_ok p'" "frame p' = frame p" "queued p' = drop (g - unat (d + c)) (queued p)"
      by (simp only:) blast
    have t: "take (unat c) ?q = take (unat len) (take (L - unat d) ?q)" "take (L - unat (d + c)) (queued p) = drop (unat len) (take (L - unat d) ?q)"
      using cw dc c(5) lt by (auto simp: min_def drop_take)
    have gd: "g - unat (d + c) + unat c = g - unat d"
      using g dc cw want lt by (auto simp: min_def split: if_splits)
    have "take_each n iov limit want (i # is) d s =
        Some (of_nat g, set_pipe n p' (s\<lparr>pmem := scatter (map (iov_at iov m) (i # is)) (take (L - unat d) ?q) (pmem s)\<rparr>))"
      using True here c(1) p'(1) i unfolding w_def [symmetric] by (simp add: w_def [symmetric] t)
    then show ?thesis using p'(2-4) c(3,5) gd by (intro exI [of _ p']) (simp add: add.commute)
  qed
qed

text \<open>A read takes the first message: what fits of it, and the rest of it is gone.\<close>

lemma iov_bytes_length: "length (iov_bytes iov m is) = sum_list (map (\<lambda>i. unat (snd (iov_at iov m i))) is)"
  by (induction "is") simp_all

lemma packet_take_now:
  assumes "n < length (pipes s)" "packet_ok (pipe_at n s)" "packets (pipe_at n s) = (bs, hs, pid) # rest" "asked \<or> hs = []"
    "iovs_apart iov (unat cnt) (pmem s)" "unat want = length (iov_bytes iov (pmem s) [0..<unat cnt])" "g = min (unat want) (length bs)"
  obtains t where "take_now K n iov cnt want asked told s = Some ((of_nat g, if asked then hs else [], told \<and> g < length bs), t)"
    "pmem t = scatter (map (iov_at iov (pmem s)) [0..<unat cnt]) bs (pmem s)" "packet_ok (pipe_at n t)" "packets (pipe_at n t) = rest" "pair_sender t = pid"
    "length (pipes t) = length (pipes s)" "\<forall>m. m \<noteq> n \<longrightarrow> pipe_at m t = pipe_at m s"
proof -
  let ?p = "pipe_at n s"
  define got where "got = scatter (map (iov_at iov (pmem s)) [0..<unat cnt]) bs (pmem s)"
  have ok: "pipe_ok ?p" "p_packets ?p" "length (queued ?p) = sum_list (map (\<lambda>m. unat (m_len m)) (p_msgs ?p))"
    using assms(2) by (simp_all add: packet_ok_def)
  obtain m ms where m: "p_msgs ?p = m # ms" using assms(3) by (cases "p_msgs ?p") (auto simp: packets_def)
  have h: "bs = take (unat (m_len m)) (queued ?p)" "hs = m_fds m" "pid = m_pid m" "rest = split_up ms (drop (unat (m_len m)) (queued ?p))"
    using assms(3) by (auto simp: packets_def m)
  have ml: "unat (m_len m) \<le> length (queued ?p)" "length bs = unat (m_len m)" using ok(3) m h(1) by simp_all
  have "m_len m = p_len ?p - p_read ?p" if "\<not> unat (m_len m) < unat (p_len ?p - p_read ?p)"
    using that ml(1) length_queued [OF ok(1)] by (metis le_antisym not_less unsigned_word_eqI)
  then have lim: "take_limit ?p = (ucast (m_len m), True)" using ok(2) m by (cases "unat (m_len m) < unat (p_len ?p - p_read ?p)") (simp_all add: take_limit_def word_less_nat_alt)
  have gw: "unat (of_nat g :: u64) = g" using assms(7) ml(2) unat_bound [of want] by (simp add: unsigned_of_nat take_bit_nat_eq_self)
  have "g = (if unat (0 :: u64) = unat (m_len m) then unat (m_len m) else min (unat want) (unat (m_len m)))" using assms(7) ml(2) by simp
  then obtain p1 where p1: "take_each n iov (ucast (m_len m)) want [0..<unat cnt] 0 s = Some (of_nat g, set_pipe n p1 (s\<lparr>pmem := got\<rparr>))"
    "pipe_ok p1" "frame p1 = frame ?p" "queued p1 = drop g (queued ?p)"
    using take_each_ok [OF assms(1) ok(1) assms(5), of "[0..<unat cnt]" "unat (m_len m)" "ucast (m_len m)" 0 want g] assms(6) ml(1) h(1)
    by (force simp: got_def iov_bytes_length simp del: unat_0)
  let ?s1 = "set_pipe n p1 (s\<lparr>pmem := got\<rparr>)"
  have s1: "n < length (pipes ?s1)" "pipe_at n ?s1 = p1" using assms(1) by simp_all
  have cmp: "of_nat g < (ucast (m_len m) :: u64) \<longleftrightarrow> g < length bs" using gw ml(2) by (simp add: word_less_nat_alt)
  obtain p2 where p2: "(if p_packets ?p \<and> of_nat g < (ucast (m_len (hd (p_msgs ?p))) :: u64)
      then do { (c, t) \<leftarrow> pipe_read n None (ucast (m_len (hd (p_msgs ?p))) - of_nat g) ?s1; Some (told, t) }
      else Some (False, ?s1)) = Some (told \<and> g < length bs, set_pipe n p2 ?s1)"
    "pipe_ok p2" "frame p2 = frame ?p" "queued p2 = drop (length bs) (queued ?p)"
  proof (cases "g < length bs")
    case True
    let ?w = "ucast (m_len m) - of_nat g :: u64"
    have w: "unat ?w = length bs - g" using gw ml(2) True by (subst unat_sub_le) simp_all
    have same: "?s1\<lparr>pmem := pmem ?s1\<rparr> = ?s1" by simp
    obtain c p where p: "pipe_read n None ?w ?s1 = Some (c, set_pipe n p ?s1)" "pipe_ok p"
      "frame p = frame p1" "unat c = min (unat ?w) (length (queued p1))" "queued p = drop (unat c) (queued p1)"
      using pipe_read_ok [OF s1(1), of None ?w, unfolded option.case s1(2) same, OF p1(2)] by metis
    have "unat c = length bs - g" using p(4) w p1(4) ml True by simp
    then show ?thesis using that [of p] p p1(3,4) True cmp ok(2) m by simp
  next
    case False
    moreover have "set_pipe n p1 ?s1 = ?s1" by (simp add: set_pipe_def)
    ultimately show ?thesis using that [of p1] p1 cmp m assms(7) by (simp add: min_def split: if_splits)
  qed
  let ?t = "set_pipe n (p2\<lparr>p_msgs := tl (p_msgs p2)\<rparr>) (set_pipe n p2 ?s1\<lparr>pair_sender := pid\<rparr>)"
  have rel: "(if asked then x else release_all K (m_fds m) x) = x" for x using assms(4) h(2) by (cases asked) simp_all
  have ms2: "p_msgs p2 = m # ms" "p_packets p2" using frameD [OF p2(3)] m ok(2) by simp_all
  have at2: "pipe_at n (set_pipe n p2 ?s1\<lparr>pair_sender := pid\<rparr>) = p2" using s1(1) by simp
  have "take_now K n iov cnt want asked told s = Some ((of_nat g, if asked then hs else [], told \<and> g < length bs), ?t)"
    unfolding take_now_def Let_def lim prod.case p1(1) bind.bind_lunit p2(1) using m h rel at2 ms2 by (cases asked) simp_all
  moreover have "packet_ok (p2\<lparr>p_msgs := ms\<rparr>)"
    using p2 ms2(2) ok(3) m ml by (simp add: packet_ok_def) (simp add: pipe_ok_def queued_def)
  moreover have "packets (p2\<lparr>p_msgs := ms\<rparr>) = rest" using p2(4) ml(2) h(4) by (simp add: packets_def) (simp add: queued_def)
  ultimately show ?thesis using that [of ?t] ms2 assms(1) by (simp add: got_def)
qed

lemma in_use_sender [simp]: "in_use x (s\<lparr>pair_sender := i\<rparr>) = in_use x s"
  by (simp add: in_use_def)

lemma pipe_of_sender [simp]: "pipe_of h (s\<lparr>pair_sender := i\<rparr>) = pipe_of h s"
  by (simp add: pipe_of_def)

lemma pipe_of_SomeD: "pipe_of h s = Some n \<Longrightarrow> n < length (pipes s) \<and> p_refs (pipe_at n s) \<noteq> 0 \<and> n < 256 \<and> unat (fd_folder h) = Suc n"
  by (auto simp: pipe_of_def in_use_def pipe_at_def empty_pipe_def word_gt_0 unat_gt_0 split: if_splits)

lemma queued_readable:
  assumes "pipe_ok (pipe_at n s)" "queued (pipe_at n s) \<noteq> []" "pipe_of h s = Some n" "fd_size h = 4"
  shows "readable h s"
proof -
  have "0 < unat (p_len (pipe_at n s) - p_read (pipe_at n s))" using assms(2) length_queued [OF assms(1)] by (cases "queued (pipe_at n s)") auto
  then have "p_read (pipe_at n s) \<noteq> p_len (pipe_at n s)" by auto
  then have "p_read (pipe_at n s) < p_len (pipe_at n s)" using pipe_okD(2) [OF assms(1)] by (simp add: order.strict_iff_order word_le_nat_alt)
  then show ?thesis using assms(3,4) by (simp add: readable_def)
qed

text \<open>
  A packet with no bytes counts as something to read only when no one can write any more: \<open>readable\<close> looks
  for bytes.
\<close>

lemma packet_take:
  assumes "packet_ok (pipe_at n s)" "packets (pipe_at n s) = (bs, hs, pid) # rest" "queued (pipe_at n s) \<noteq> [] \<or> p_count (pipe_at n s) = 0"
    "asked \<or> hs = []" "\<forall>i < unat cnt. pk_range K (fst (iov_at iov (pmem s) i)) (snd (iov_at iov (pmem s) i)) (env s)"
    "iovs_apart iov (unat cnt) (pmem s)" "length (iov_bytes iov (pmem s) [0..<unat cnt]) < 2 ^ 64"
    "0 < fuel" "pipe_of h s = Some n" "fd_size h = 4" "g = min (length (iov_bytes iov (pmem s) [0..<unat cnt])) (length bs)"
  obtains t where "pair_take K fuel h n iov cnt asked short s = Ended (of_nat g, if asked then hs else [], short \<noteq> None \<and> g < length bs) t"
    "pmem t = scatter (map (iov_at iov (pmem s)) [0..<unat cnt]) bs (pmem s)" "packet_ok (pipe_at n t)" "packets (pipe_at n t) = rest" "pair_sender t = pid"
    "length (pipes t) = length (pipes s)" "\<forall>m. m \<noteq> n \<longrightarrow> pipe_at m t = pipe_at m s"
proof -
  let ?s = "s\<lparr>pair_sender := p_last (pipe_at n s)\<rparr>"
  obtain want where want: "iov_total K (iov_at iov (pmem s)) [0..<unat cnt] 0 (env s) = Some want"
    using iov_total_Some [of "[0..<unat cnt]" K "iov_at iov (pmem s)"] assms(5) by fastforce
  have tot: "unat want = length (iov_bytes iov (pmem s) [0..<unat cnt])" using iov_total_ok [OF want] assms(7) by simp
  have s: "n < length (pipes ?s)" "packet_ok (pipe_at n ?s)" "packets (pipe_at n ?s) = (bs, hs, pid) # rest" "iovs_apart iov (unat cnt) (pmem ?s)"
    "unat want = length (iov_bytes iov (pmem ?s) [0..<unat cnt])" "g = min (unat want) (length bs)"
    using assms(1,2,6,11) pipe_of_SomeD [OF assms(9)] tot by simp_all
  obtain t where t: "take_now K n iov cnt want asked (short \<noteq> None) ?s = Some ((of_nat g, if asked then hs else [], short \<noteq> None \<and> g < length bs), t)"
    "pmem t = scatter (map (iov_at iov (pmem s)) [0..<unat cnt]) bs (pmem s)" "packet_ok (pipe_at n t)" "packets (pipe_at n t) = rest" "pair_sender t = pid"
    "length (pipes t) = length (pipes s)" "\<forall>m. m \<noteq> n \<longrightarrow> pipe_at m t = pipe_at m s"
    using packet_take_now [OF s(1-3) assms(4) s(4-6), of K "short \<noteq> None"] by auto
  obtain f where f: "fuel = Suc f" using assms(8) gr0_implies_Suc by blast
  have "readable h ?s"
    using assms(3)
  proof
    assume "queued (pipe_at n s) \<noteq> []"
    then show ?thesis using queued_readable [of n ?s h] assms(1,9,10) by (simp add: packet_ok_def)
  next
    assume "p_count (pipe_at n s) = 0"
    then show ?thesis using assms(9,10) by (simp add: readable_def)
  qed
  then have "pair_take K fuel h n iov cnt asked short s = Ended (of_nat g, if asked then hs else [], short \<noteq> None \<and> g < length bs) t"
    using want t(1) by (simp add: pair_take_def f ended_def)
  then show ?thesis using that t(2-7) by blast
qed

end
