(* ===== verification/PipeCounts.thy ===== *)
theory PipeCounts
  imports PipeMessages "HOL-Library.Multiset"
begin

text \<open>
  The counts of a pipe are the numbers of descriptors on it, those on their way in a message among them:
  \<open>refs_of\<close> is what a descriptor refers to, \<open>writes_of\<close> what it can write to. Letting a descriptor go, with
  all that goes with it, keeps them; so does every other call.
\<close>

section \<open>What a descriptor refers to\<close>

definition slot_ref :: "u32 \<Rightarrow> nat multiset" where
  "slot_ref x = (if 0 < unat x \<and> unat x \<le> 256 then {#unat x - 1#} else {#})"

definition of_ref :: "handle \<Rightarrow> nat multiset" where
  "of_ref h = (if fd_start h = PIPE_MARK then slot_ref (fd_folder h) else {#})"

definition out_ref :: "handle \<Rightarrow> nat multiset" where
  "out_ref h = (if fd_start h = PIPE_MARK \<and> fd_size h = PIPE_PAIR then slot_ref (drop_bit 16 (fd_offset h)) else {#})"

definition refs_of :: "handle \<Rightarrow> nat multiset" where
  "refs_of h = of_ref h + out_ref h"

definition writes_of :: "handle \<Rightarrow> nat multiset" where
  "writes_of h = (if fd_size h = PIPE_WRITE then of_ref h else out_ref h)"

primrec task_refs :: "task \<Rightarrow> nat multiset" where
  "task_refs (Let_go h) = refs_of h"
| "task_refs (Drop_out h) = out_ref h"
| "task_refs (Drop_of h) = of_ref h"
| "task_refs Free_messages = {#}"

primrec task_writes :: "task \<Rightarrow> nat multiset" where
  "task_writes (Let_go h) = writes_of h"
| "task_writes (Drop_out h) = {#}"
| "task_writes (Drop_of h) = {#}"
| "task_writes Free_messages = {#}"

text \<open>The descriptors waiting in messages.\<close>

definition waiting :: "pipe \<Rightarrow> handle multiset" where
  "waiting p = mset (concat (map m_fds (p_msgs p)))"

definition under_way :: "'k ipc \<Rightarrow> handle multiset" where
  "under_way s = (\<Sum>p \<leftarrow> pipes s. waiting p)"

text \<open>
  \<open>U\<close> is everything that refers to a pipe and \<open>W\<close> everything that can write to one; \<open>E\<close> are the eventfds,
  whose count is a number of their own.
\<close>

definition counted_by :: "nat set \<Rightarrow> nat multiset \<Rightarrow> nat multiset \<Rightarrow> 'k ipc \<Rightarrow> bool" where
  "counted_by E U W s \<longleftrightarrow> length (pipes s) = 256 \<and>
    (\<forall>n < 256. unat (p_refs (pipe_at n s)) = count U n \<and>
       (n \<notin> E \<and> p_refs (pipe_at n s) \<noteq> 0 \<longrightarrow> unat (p_count (pipe_at n s)) = count W n) \<and>
       (p_refs (pipe_at n s) = 0 \<longrightarrow> p_msgs (pipe_at n s) = []))"

definition refs_ok :: "nat set \<Rightarrow> handle multiset \<Rightarrow> 'k ipc \<Rightarrow> bool" where
  "refs_ok E M s \<longleftrightarrow> counted_by E (\<Sum>\<^sub># (image_mset refs_of (M + under_way s))) (\<Sum>\<^sub># (image_mset writes_of (M + under_way s))) s"

definition work_refs :: "handle multiset \<Rightarrow> task list \<Rightarrow> 'k ipc \<Rightarrow> nat multiset" where
  "work_refs M ts s = \<Sum>\<^sub># (image_mset refs_of (M + under_way s)) + sum_list (map task_refs ts)"

definition work_writes :: "handle multiset \<Rightarrow> task list \<Rightarrow> 'k ipc \<Rightarrow> nat multiset" where
  "work_writes M ts s = \<Sum>\<^sub># (image_mset writes_of (M + under_way s)) + sum_list (map task_writes ts)"

lemma counted_byD:
  assumes "counted_by E U W s" "n < 256"
  shows "unat (p_refs (pipe_at n s)) = count U n" "n \<notin> E \<Longrightarrow> p_refs (pipe_at n s) \<noteq> 0 \<Longrightarrow> unat (p_count (pipe_at n s)) = count W n"
    "p_refs (pipe_at n s) = 0 \<Longrightarrow> p_msgs (pipe_at n s) = []"
  using assms by (simp_all add: counted_by_def)

lemma writes_subset: "writes_of h \<subseteq># refs_of h"
  by (simp add: writes_of_def refs_of_def)

lemma ref_below: "n \<in># refs_of h \<Longrightarrow> n < 256" "n \<in># writes_of h \<Longrightarrow> n < 256"
  by (auto simp: refs_of_def writes_of_def of_ref_def out_ref_def slot_ref_def split: if_splits)

section \<open>One pipe changed\<close>

lemma under_way_env [simp]: "under_way (s\<lparr>env := k\<rparr>) = under_way s" "under_way (s\<lparr>pmem := m\<rparr>) = under_way s"
  "under_way (s\<lparr>pair_sender := i\<rparr>) = under_way s"
  by (simp_all add: under_way_def)

lemma under_way_set:
  assumes "n < length (pipes s)"
  shows "under_way (set_pipe n p s) + waiting (pipe_at n s) = under_way s + waiting p"
proof -
  have "(\<Sum>x \<leftarrow> xs[n := p]. f x) + f (xs ! n) = (\<Sum>x \<leftarrow> xs. f x) + (f p :: handle multiset)" if "n < length xs" for f :: "pipe \<Rightarrow> handle multiset" and xs
    using that
  proof (induction xs arbitrary: n)
    case (Cons x xs)
    then show ?case by (cases n) (simp_all add: ac_simps)
  qed simp
  then show ?thesis using assms by (simp add: under_way_def set_pipe_def pipe_at_def)
qed

lemma under_way_same: "waiting p = waiting (pipe_at n s) \<Longrightarrow> under_way (set_pipe n p s) = under_way s"
  using under_way_set [of n s p] by (cases "n < length (pipes s)") (simp_all add: set_pipe_def list_update_beyond under_way_def)

lemma counted_by_set:
  assumes "counted_by E U W s" "n < 256" "unat (p_refs p) = count U' n" "n \<notin> E \<and> p_refs p \<noteq> 0 \<longrightarrow> unat (p_count p) = count W' n"
    "p_refs p = 0 \<longrightarrow> p_msgs p = []" "\<And>m. m < 256 \<Longrightarrow> m \<noteq> n \<Longrightarrow> count U' m = count U m \<and> count W' m = count W m"
  shows "counted_by E U' W' (set_pipe n p s)"
proof -
  have "n < length (pipes s)" using assms(1,2) by (simp add: counted_by_def)
  then have e: "pipe_at m (set_pipe n p s) = (if m = n then p else pipe_at m s)" for m by simp
  show ?thesis using assms by (simp add: counted_by_def e)
qed

lemma in_use_ref:
  assumes "counted_by E U W s" "slot_ref x \<subseteq># U"
  shows "in_use x s = (if slot_ref x = {#} then None else Some (unat x - 1))" "slot_ref x \<noteq> {#} \<Longrightarrow> unat x - 1 < 256 \<and> slot_ref x = {#unat x - 1#}"
proof -
  have "p_refs (pipe_at (unat x - 1) s) \<noteq> 0" if "0 < unat x" "unat x \<le> 256"
  proof -
    have "count U (unat x - 1) \<noteq> 0" using assms(2) that by (auto simp: slot_ref_def)
    moreover have "unat x - 1 < 256" using that by simp
    ultimately show ?thesis using counted_byD(1) [OF assms(1)] by (metis unat_0)
  qed
  then show "in_use x s = (if slot_ref x = {#} then None else Some (unat x - 1))"
    by (auto simp: in_use_def slot_ref_def word_gt_0 unat_gt_0)
qed (auto simp: slot_ref_def split: if_splits)

section \<open>Letting go\<close>

lemma waiting_empty [simp]: "waiting empty_pipe = {#}" "p_refs empty_pipe = 0" "p_msgs empty_pipe = []"
  by (simp_all add: waiting_def empty_pipe_def)

lemma let_go_refs: "sum_list (map task_refs (map Let_go hs @ [Free_messages])) = \<Sum>\<^sub># (image_mset refs_of (mset hs))"
  "sum_list (map task_writes (map Let_go hs @ [Free_messages])) = \<Sum>\<^sub># (image_mset writes_of (mset hs))"
  by (induction hs) simp_all

lemma drop_counted:
  assumes "counted_by E (work_refs M ts s + slot_ref x) (work_writes M ts s) s" "pipe_drop K (in_use x s) s = (us, t)"
  shows "counted_by E (work_refs M (us @ ts) t) (work_writes M (us @ ts) t) t"
proof (cases "slot_ref x = {#}")
  case True
  then have "in_use x s = None" using in_use_ref(1) [OF assms(1), of x] by simp
  then show ?thesis using assms True by (simp add: pipe_drop_def)
next
  case False
  define n where "n = unat x - 1"
  have n: "n < 256" "slot_ref x = {#n#}" "in_use x s = Some n"
    using in_use_ref [OF assms(1), of x] False by (simp_all add: n_def)
  let ?p = "pipe_at n s"
  have len: "n < length (pipes s)" using assms(1) n(1) by (simp add: counted_by_def)
  have r: "unat (p_refs ?p) = Suc (count (work_refs M ts s) n)" using counted_byD(1) [OF assms(1) n(1)] n(2) by simp
  then have r0: "p_refs ?p \<noteq> 0" by auto
  have r1: "unat (p_refs ?p - 1) = count (work_refs M ts s) n" using r r0 by (simp add: unat_pred)
  note w = counted_byD(2) [OF assms(1) n(1)]
  show ?thesis
  proof (cases "p_refs ?p - 1 = 0")
    case False
    let ?t = "set_pipe n (?p\<lparr>p_refs := p_refs ?p - 1\<rparr>) s"
    have t: "us = []" "t = ?t" using assms(2) n(3) r0 False by (simp_all add: pipe_drop_def Let_def)
    have u: "under_way ?t = under_way s" by (rule under_way_same) (simp add: waiting_def)
    have "counted_by E (work_refs M ts s) (work_writes M ts s) ?t"
      by (rule counted_by_set [OF assms(1) n(1)]) (use r1 w r0 n(2) False in auto)
    then show ?thesis using t u by (simp add: work_refs_def work_writes_def)
  next
    case True
    let ?hs = "concat (map m_fds (p_msgs ?p))"
    define k where "k = (let k1 = if p_data ?p \<noteq> [] then pk_free K (env s) else env s in if p_made ?p \<noteq> [] then pk_free K k1 else k1)"
    have t: "us = map Let_go ?hs @ [Free_messages]" "t = set_pipe n empty_pipe (s\<lparr>env := k\<rparr>)"
      using assms(2) n(3) r0 True by (simp_all add: pipe_drop_def k_def Let_def)
    have u: "under_way s = under_way t + mset ?hs" using under_way_set [of n "s\<lparr>env := k\<rparr>" empty_pipe] len t(2) by (simp add: waiting_def)
    have e: "work_refs M (us @ ts) t = work_refs M ts s" "work_writes M (us @ ts) t = work_writes M ts s"
      unfolding work_refs_def work_writes_def u t(1) map_append sum_list.append
      using let_go_refs [of ?hs] by (simp_all add: ac_simps)
    have "counted_by E (work_refs M ts s) (work_writes M ts s) (set_pipe n empty_pipe (s\<lparr>env := k\<rparr>))"
    proof (rule counted_by_set)
      show "counted_by E (work_refs M ts s + slot_ref x) (work_writes M ts s) (s\<lparr>env := k\<rparr>)" using assms(1) by (simp add: counted_by_def)
    qed (use r1 True n in auto)
    then show ?thesis using e t(2) by simp
  qed
qed

lemma uncount_counted:
  assumes "counted_by E U (W + writes_of h) s" "writes_of h \<subseteq># U"
  shows "counted_by E U W (uncount h s)" "under_way (uncount h s) = under_way s"
proof -
  define x where "x = (if fd_start h = PIPE_MARK \<and> (fd_size h = PIPE_WRITE \<or> fd_size h = PIPE_PAIR)
     then if fd_size h = PIPE_WRITE then fd_folder h else drop_bit 16 (fd_offset h) else 0)"
  have x: "writes_of h = slot_ref x" "written h s = in_use x s"
    by (auto simp: x_def writes_of_def of_ref_def out_ref_def slot_ref_def written_def pipe_of_def pair_out_def in_use_def)
  note i = in_use_ref [OF assms(1), of x]
  have "under_way (upd_pipe v (\<lambda>p. if 0 < p_count p then p\<lparr>p_count := p_count p - 1\<rparr> else p) s) = under_way s" for v
    unfolding upd_pipe_def by (cases v) (auto intro!: under_way_same simp: waiting_def)
  then show "under_way (uncount h s) = under_way s" by (simp add: uncount_def)
  show "counted_by E U W (uncount h s)"
  proof (cases "slot_ref x = {#}")
    case True
    then show ?thesis using i(1) assms x by (simp add: uncount_def upd_pipe_def)
  next
    case False
    define n where "n = unat x - 1"
    have n: "n < 256" "slot_ref x = {#n#}" "in_use x s = Some n" using i False assms(2) x(1) by (simp_all add: n_def)
    let ?p = "pipe_at n s"
    let ?q = "if 0 < p_count ?p then ?p\<lparr>p_count := p_count ?p - 1\<rparr> else ?p"
    have c: "unat (p_count ?p) = Suc (count W n)" if "n \<notin> E" "p_refs ?p \<noteq> 0"
      using counted_byD(2) [OF assms(1) n(1)] that n(2) x(1) by simp
    have "counted_by E U W (set_pipe n ?q s)"
    proof (rule counted_by_set [OF assms(1) n(1)])
      show "unat (p_refs ?q) = count U n" using counted_byD(1) [OF assms(1) n(1)] by simp
      show "n \<notin> E \<and> p_refs ?q \<noteq> 0 \<longrightarrow> unat (p_count ?q) = count W n"
      proof (clarify)
        assume "n \<notin> E" "p_refs ?q \<noteq> 0"
        then have "unat (p_count ?p) = Suc (count W n)" using c by (simp split: if_splits)
        moreover from this have "p_count ?p \<noteq> 0" by auto
        ultimately show "unat (p_count ?q) = count W n" by (simp add: word_gt_0 unat_pred)
      qed
    qed (use n(2) x(1) counted_byD(3) [OF assms(1) n(1)] in auto)
    then show ?thesis using n(3) x(2) by (simp add: uncount_def upd_pipe_def)
  qed
qed

lemma work_counted:
  "counted_by E (work_refs M ts s) (work_writes M ts s) s \<Longrightarrow> refs_ok E M (work K ts s)"
proof (induction K ts s rule: work.induct)
  case (1 K s)
  then show ?case by (simp add: refs_ok_def work_refs_def work_writes_def)
next
  case (2 K h ts s)
  define s1 where "s1 = s\<lparr>env := pk_close K h (pk_forget K h (env s))\<rparr>"
  have w1: "work_refs M l s1 = work_refs M l s" "work_writes M l s1 = work_writes M l s" for l
    by (simp_all add: work_refs_def work_writes_def s1_def)
  have c1: "counted_by E (work_refs M (Let_go h # ts) s) (work_writes M (Let_go h # ts) s) s1"
    using "2.prems" by (simp add: counted_by_def s1_def)
  show ?case
  proof (cases "fd_start h = PIPE_MARK")
    case True
    have "counted_by E (work_refs M (Let_go h # ts) s) (work_writes M ts s + writes_of h) s1"
      using c1 by (simp add: work_writes_def ac_simps)
    moreover have "writes_of h \<subseteq># work_refs M (Let_go h # ts) s"
      using subset_mset.order_trans [OF writes_subset mset_subset_eq_add_left, of h "work_refs M ts s"] by (simp add: work_refs_def ac_simps)
    ultimately have "counted_by E (work_refs M (Let_go h # ts) s) (work_writes M ts s) (uncount h s1)" "under_way (uncount h s1) = under_way s1"
      by (rule uncount_counted)+
    then have "counted_by E (work_refs M (Drop_out h # Drop_of h # ts) (uncount h s1)) (work_writes M (Drop_out h # Drop_of h # ts) (uncount h s1)) (uncount h s1)"
      by (simp add: work_refs_def work_writes_def refs_of_def s1_def ac_simps)
    then show ?thesis using "2.IH"(1) [OF s1_def True] True by (simp add: s1_def Let_def)
  next
    case False
    then have "refs_of h = {#}" "writes_of h = {#}" by (simp_all add: refs_of_def writes_of_def of_ref_def out_ref_def)
    then have "counted_by E (work_refs M ts s1) (work_writes M ts s1) s1" using c1 w1 by (simp add: work_refs_def work_writes_def)
    then show ?thesis using "2.IH"(2) [OF s1_def False] False by (simp add: s1_def Let_def)
  qed
next
  case (3 K h ts s)
  obtain us t where d: "pipe_drop K (pair_out h s) s = (us, t)" by (cases "pipe_drop K (pair_out h s) s")
  define x where "x = (if fd_start h = PIPE_MARK \<and> fd_size h = PIPE_PAIR then drop_bit 16 (fd_offset h) else 0)"
  have x: "out_ref h = slot_ref x" "pair_out h s = in_use x s"
    by (auto simp: x_def out_ref_def slot_ref_def pair_out_def)
  have "counted_by E (work_refs M ts s + slot_ref x) (work_writes M ts s) s"
    using "3.prems" x(1) by (simp add: work_refs_def work_writes_def ac_simps)
  then have "counted_by E (work_refs M (us @ ts) t) (work_writes M (us @ ts) t) t" using d unfolding x(2) by (rule drop_counted)
  then show ?case using "3.IH" [OF d [symmetric]] d by simp
next
  case (4 K h ts s)
  obtain us t where d: "pipe_drop K (pipe_of h s) s = (us, t)" by (cases "pipe_drop K (pipe_of h s) s")
  define x where "x = (if fd_start h = PIPE_MARK then fd_folder h else 0)"
  have x: "of_ref h = slot_ref x" "pipe_of h s = in_use x s"
    by (auto simp: x_def of_ref_def slot_ref_def pipe_of_def in_use_def)
  have "counted_by E (work_refs M ts s + slot_ref x) (work_writes M ts s) s"
    using "4.prems" x(1) by (simp add: work_refs_def work_writes_def ac_simps)
  then have "counted_by E (work_refs M (us @ ts) t) (work_writes M (us @ ts) t) t" using d unfolding x(2) by (rule drop_counted)
  then show ?case using "4.IH" [OF d [symmetric]] d by simp
next
  case (5 K ts s)
  have "counted_by E (work_refs M ts (s\<lparr>env := pk_free K (env s)\<rparr>)) (work_writes M ts (s\<lparr>env := pk_free K (env s)\<rparr>)) (s\<lparr>env := pk_free K (env s)\<rparr>)"
    using "5.prems" by (simp add: work_refs_def work_writes_def counted_by_def)
  then show ?case using "5.IH" by simp
qed

end
