(* ===== verification/PipeSteps.thy ===== *)
theory PipeSteps
  imports PipeCounts
begin

text \<open>
  Every call on pipes keeps the counts: making, duplicating and closing descriptors, moving bytes, sending
  and receiving messages. \<open>pipe_step\<close> is any of them, and \<open>refs_ok\<close> holds in every state they reach.
\<close>

section \<open>Closing and duplicating\<close>

lemma release_counted: "refs_ok E (add_mset h M) s \<Longrightarrow> refs_ok E M (handle_release K h s)"
  unfolding handle_release_def by (rule work_counted) (simp add: refs_ok_def work_refs_def work_writes_def ac_simps)

lemma counted_by_env [simp]: "counted_by E U W (s\<lparr>env := k\<rparr>) = counted_by E U W s" "counted_by E U W (s\<lparr>pmem := m\<rparr>) = counted_by E U W s"
  "counted_by E U W (s\<lparr>pair_sender := i\<rparr>) = counted_by E U W s"
  by (simp_all add: counted_by_def)

lemma refs_ok_env [simp]: "refs_ok E M (s\<lparr>env := k\<rparr>) = refs_ok E M s" "refs_ok E M (s\<lparr>pmem := m\<rparr>) = refs_ok E M s"
  "refs_ok E M (s\<lparr>pair_sender := i\<rparr>) = refs_ok E M s"
  by (simp_all add: refs_ok_def)

lemma close_counted:
  assumes "refs_ok E (add_mset h M) s"
  shows "refs_ok E M (handle_close K h s)"
proof (cases "fd_start h = PIPE_MARK")
  case True
  let ?s = "s\<lparr>env := pk_close K h (env s)\<rparr>"
  have "counted_by E (work_refs (add_mset h M) [] ?s) (work_writes M [] ?s + writes_of h) ?s"
    using assms by (simp add: refs_ok_def work_refs_def work_writes_def ac_simps)
  moreover have "writes_of h \<subseteq># work_refs (add_mset h M) [] ?s"
    using subset_mset.order_trans [OF writes_subset mset_subset_eq_add_left, of h "work_refs M [] ?s"] by (simp add: work_refs_def ac_simps)
  ultimately have "counted_by E (work_refs (add_mset h M) [] ?s) (work_writes M [] ?s) (uncount h ?s)" "under_way (uncount h ?s) = under_way ?s"
    by (rule uncount_counted)+
  then have "refs_ok E M (work K [Drop_out h, Drop_of h] (uncount h ?s))"
    by (intro work_counted) (simp add: work_refs_def work_writes_def refs_of_def ac_simps)
  then show ?thesis using True by (simp add: handle_close_def pipe_release_def Let_def)
next
  case False
  then have "refs_of h = {#}" "writes_of h = {#}" by (simp_all add: refs_of_def writes_of_def of_ref_def out_ref_def)
  then show ?thesis using False assms by (simp add: handle_close_def) (simp add: refs_ok_def)
qed

lemma size_refs: "size (refs_of h) \<le> 2" "size (writes_of h) \<le> 1"
  by (auto simp: refs_of_def writes_of_def of_ref_def out_ref_def slot_ref_def)

lemma size_all_refs: "size (\<Sum>\<^sub># (image_mset refs_of M)) \<le> 2 * size M" "size (\<Sum>\<^sub># (image_mset writes_of M)) \<le> size M"
proof -
  show "size (\<Sum>\<^sub># (image_mset refs_of M)) \<le> 2 * size M"
  proof (induction M)
    case (add h M)
    then show ?case using size_refs(1) [of h] by simp
  qed simp
  show "size (\<Sum>\<^sub># (image_mset writes_of M)) \<le> size M"
  proof (induction M)
    case (add h M)
    then show ?case using size_refs(2) [of h] by simp
  qed simp
qed

text \<open>One reference more, and one writer more, on the pipe a number names.\<close>

lemma add_ref:
  assumes "counted_by E U W s" "slot_ref x \<subseteq># U" "size U < 2 ^ 32 - 1" "v = (if slot_ref x = {#} then None else Some (unat x - 1))"
  shows "counted_by E (U + slot_ref x) W (upd_pipe v (\<lambda>p. p\<lparr>p_refs := p_refs p + 1\<rparr>) s)"
    "under_way (upd_pipe v (\<lambda>p. p\<lparr>p_refs := p_refs p + 1\<rparr>) s) = under_way s"
proof -
  show "under_way (upd_pipe v (\<lambda>p. p\<lparr>p_refs := p_refs p + 1\<rparr>) s) = under_way s"
    unfolding upd_pipe_def by (cases v) (auto intro!: under_way_same simp: waiting_def)
  show "counted_by E (U + slot_ref x) W (upd_pipe v (\<lambda>p. p\<lparr>p_refs := p_refs p + 1\<rparr>) s)"
  proof (cases "slot_ref x = {#}")
    case True
    then show ?thesis using assms by (simp add: upd_pipe_def)
  next
    case False
    define n where "n = unat x - 1"
    have n: "n < 256" "slot_ref x = {#n#}" using in_use_ref(2) [OF assms(1,2) False] by (simp_all add: n_def)
    let ?p = "pipe_at n s"
    have c: "unat (p_refs ?p) = count U n" using counted_byD(1) [OF assms(1) n(1)] .
    have "0 < count U n" using assms(2) n(2) by simp
    moreover have "count U n \<le> size U" by (rule count_le_size)
    ultimately have r: "unat (p_refs ?p + 1) = Suc (count U n)" using c assms(3) by (subst unat_add_small) simp_all
    have r1: "p_refs ?p + 1 \<noteq> 0" using r by (metis nat.distinct(1) unat_0)
    have r0: "p_refs ?p \<noteq> 0" using c \<open>0 < count U n\<close> by (metis less_irrefl unat_0)
    have "counted_by E (U + slot_ref x) W (set_pipe n (?p\<lparr>p_refs := p_refs ?p + 1\<rparr>) s)"
      by (rule counted_by_set [OF assms(1) n(1)]) (use r r0 r1 counted_byD(2) [OF assms(1) n(1)] n(2) in auto)
    then show ?thesis using assms(4) False by (simp add: upd_pipe_def n_def)
  qed
qed

lemma add_write:
  assumes "counted_by E U W s" "slot_ref x \<subseteq># U" "size W < 2 ^ 32 - 1" "v = (if slot_ref x = {#} then None else Some (unat x - 1))"
  shows "counted_by E U (W + slot_ref x) (upd_pipe v (\<lambda>p. p\<lparr>p_count := p_count p + 1\<rparr>) s)"
    "under_way (upd_pipe v (\<lambda>p. p\<lparr>p_count := p_count p + 1\<rparr>) s) = under_way s"
proof -
  show "under_way (upd_pipe v (\<lambda>p. p\<lparr>p_count := p_count p + 1\<rparr>) s) = under_way s"
    unfolding upd_pipe_def by (cases v) (auto intro!: under_way_same simp: waiting_def)
  show "counted_by E U (W + slot_ref x) (upd_pipe v (\<lambda>p. p\<lparr>p_count := p_count p + 1\<rparr>) s)"
  proof (cases "slot_ref x = {#}")
    case True
    then show ?thesis using assms by (simp add: upd_pipe_def)
  next
    case False
    define n where "n = unat x - 1"
    have n: "n < 256" "slot_ref x = {#n#}" using in_use_ref(2) [OF assms(1,2) False] by (simp_all add: n_def)
    let ?p = "pipe_at n s"
    have "count W n \<le> size W" by (rule count_le_size)
    then have r: "unat (p_count ?p + 1) = Suc (count W n)" if "n \<notin> E" "p_refs ?p \<noteq> 0"
      using counted_byD(2) [OF assms(1) n(1) that] assms(3) by (subst unat_add_small) auto
    have "counted_by E U (W + slot_ref x) (set_pipe n (?p\<lparr>p_count := p_count ?p + 1\<rparr>) s)"
      by (rule counted_by_set [OF assms(1) n(1)]) (use r counted_byD(1,3) [OF assms(1) n(1)] n(2) in auto)
    then show ?thesis using assms(4) False by (simp add: upd_pipe_def n_def)
  qed
qed

lemma hold_counted:
  assumes "refs_ok E M s" "h \<in># M" "2 * size (M + under_way s) + 2 < 2 ^ 32 - 1"
  shows "refs_ok E (add_mset h M) (pipe_hold h s)"
proof -
  define U where "U = \<Sum>\<^sub># (image_mset refs_of (M + under_way s))"
  define W where "W = \<Sum>\<^sub># (image_mset writes_of (M + under_way s))"
  define x where "x = (if fd_start h = PIPE_MARK then fd_folder h else 0)"
  define y where "y = (if fd_start h = PIPE_MARK \<and> fd_size h = PIPE_PAIR then drop_bit 16 (fd_offset h) else 0)"
  define z where "z = (if fd_size h = PIPE_WRITE then x else y)"
  have c: "counted_by E U W s" using assms(1) by (simp add: refs_ok_def U_def W_def)
  have xr: "of_ref h = slot_ref x" "pipe_of h s = in_use x s" "out_ref h = slot_ref y" "pair_out h s = in_use y s"
    by (auto simp: x_def y_def of_ref_def out_ref_def slot_ref_def pipe_of_def pair_out_def in_use_def)
  have zr: "writes_of h = slot_ref z" "written h s = in_use z s" using xr by (simp_all add: z_def writes_of_def written_def)
  obtain N where N: "M = add_mset h N" using assms(2) by (metis multi_member_split)
  have sub: "slot_ref x \<subseteq># U" "slot_ref y \<subseteq># U"
    using xr(1,3) by (simp_all add: U_def N refs_of_def add.assoc)
  have iu: "in_use x s = (if slot_ref x = {#} then None else Some (unat x - 1))" "in_use y s = (if slot_ref y = {#} then None else Some (unat y - 1))"
    using in_use_ref(1) [OF c sub(1)] in_use_ref(1) [OF c sub(2)] by simp_all
  have sz: "size U \<le> 2 * size (M + under_way s)" "size W \<le> size (M + under_way s)"
    using size_all_refs [of "M + under_way s"] by (simp_all add: U_def W_def)
  define s1 where "s1 = upd_pipe (in_use x s) (\<lambda>p. p\<lparr>p_refs := p_refs p + 1\<rparr>) s"
  define s2 where "s2 = upd_pipe (in_use y s) (\<lambda>p. p\<lparr>p_refs := p_refs p + 1\<rparr>) s1"
  have c1: "counted_by E (U + slot_ref x) W s1" "under_way s1 = under_way s"
    unfolding s1_def using add_ref [OF c sub(1) _ iu(1)] sz(1) assms(3) by simp_all
  have "size (slot_ref x) \<le> 1" by (simp add: slot_ref_def)
  then have c2: "counted_by E (U + slot_ref x + slot_ref y) W s2" "under_way s2 = under_way s"
    unfolding s2_def using add_ref [OF c1(1) _ _ iu(2)] sub(2) sz(1) assms(3) c1(2) by (simp_all add: subset_mset.add_increasing2)
  have subz: "slot_ref z \<subseteq># U + slot_ref x + slot_ref y" by (simp add: z_def)
  have "in_use z s = (if slot_ref z = {#} then None else Some (unat z - 1))" using iu by (simp add: z_def)
  then have c3: "counted_by E (U + slot_ref x + slot_ref y) (W + slot_ref z) (pipe_hold h s)" "under_way (pipe_hold h s) = under_way s"
    using add_write [OF c2(1) subz] sz(2) assms(3) c2(2) xr(2,4) zr(2) by (simp_all add: pipe_hold_def s1_def s2_def Let_def)
  then show ?thesis using xr zr by (simp add: refs_ok_def U_def W_def refs_of_def ac_simps)
qed

section \<open>Bytes and messages\<close>

lemma frame_counted:
  assumes "refs_ok E M s" "frame p = frame (pipe_at n s)"
  shows "refs_ok E M (set_pipe n p s)"
proof (cases "n < 256")
  case True
  have u: "under_way (set_pipe n p s) = under_way s" by (rule under_way_same) (simp add: waiting_def frameD(4) [OF assms(2)])
  show ?thesis unfolding refs_ok_def u
    by (rule counted_by_set [OF assms(1) [unfolded refs_ok_def] True])
      (use counted_byD [OF assms(1) [unfolded refs_ok_def] True] frameD [OF assms(2)] in auto)
next
  case False
  then have "set_pipe n p s = s" using assms(1) by (simp add: refs_ok_def counted_by_def set_pipe_def list_update_beyond)
  then show ?thesis using assms(1) by simp
qed

lemma compact_frame: "compact p = Some q \<Longrightarrow> frame q = frame p"
  by (auto simp: compact_def split: if_splits bind_splits)

lemma grow_frame: "grow_pipe K need p k = Some (Some q, k1) \<Longrightarrow> frame q = frame p"
  by (auto simp: grow_pipe_def split: if_splits bind_splits prod.splits)

lemma put_counted:
  assumes "refs_ok E M s" "pipe_put K n from cnt s = Some (c, t)"
  shows "refs_ok E M t"
proof -
  obtain p k where "t = set_pipe n p (s\<lparr>env := k\<rparr>)" "frame p = frame (pipe_at n s)"
    using assms(2) unfolding pipe_put_def Let_def
    by (auto split: bind_splits option.splits dest!: compact_frame grow_frame)
  then show ?thesis using frame_counted [of E M "s\<lparr>env := k\<rparr>" p n] assms(1) by simp
qed

lemma read_shape: "pipe_read n dst cnt s = Some (c, t) \<Longrightarrow> \<exists>p m. t = set_pipe n p (s\<lparr>pmem := m\<rparr>) \<and> frame p = frame (pipe_at n s)"
  by (auto simp: pipe_read_def Let_def split: bind_splits option.splits)

lemma read_counted:
  assumes "refs_ok E M s" "pipe_read n dst cnt s = Some (c, t)"
  shows "refs_ok E M t" "n < 256 \<Longrightarrow> frame (pipe_at n t) = frame (pipe_at n s)"
proof -
  obtain p m where t: "t = set_pipe n p (s\<lparr>pmem := m\<rparr>)" "frame p = frame (pipe_at n s)" using read_shape [OF assms(2)] by metis
  then show "refs_ok E M t" using frame_counted [of E M "s\<lparr>pmem := m\<rparr>" p n] assms(1) by simp
  show "n < 256 \<Longrightarrow> frame (pipe_at n t) = frame (pipe_at n s)" using t assms(1) by (simp add: refs_ok_def counted_by_def)
qed

lemma set_msgs_counted:
  assumes "refs_ok E M s" "n < 256" "p_refs p = p_refs (pipe_at n s)" "p_count p = p_count (pipe_at n s)" "p_refs p = 0 \<longrightarrow> p_msgs p = []"
    "M + waiting (pipe_at n s) = N + waiting p"
  shows "refs_ok E N (set_pipe n p s)"
proof -
  have "n < length (pipes s)" using assms(1,2) by (simp add: refs_ok_def counted_by_def)
  then have "under_way (set_pipe n p s) + waiting (pipe_at n s) = under_way s + waiting p" by (rule under_way_set)
  then have "N + under_way (set_pipe n p s) + (waiting (pipe_at n s) + waiting p) = M + under_way s + (waiting (pipe_at n s) + waiting p)"
    using assms(6) by (metis add.assoc add.commute)
  then have "N + under_way (set_pipe n p s) = M + under_way s" by simp
  then show ?thesis unfolding refs_ok_def
    by (simp only:) (rule counted_by_set [OF assms(1) [unfolded refs_ok_def] assms(2)],
        use counted_byD [OF assms(1) [unfolded refs_ok_def] assms(2)] assms(3-5) in auto)
qed

lemma push_counted:
  assumes "refs_ok E (M + mset fds) s" "n < 256" "p_refs (pipe_at n s) \<noteq> 0" "pmsg_push K n pos len fds s = Some (b, t)"
  shows "refs_ok E (if b then M else M + mset fds) t"
proof -
  let ?p = "pipe_at n s"
  obtain p u where t: "t = set_pipe n p u" "pipes u = pipes s" "p_refs p = p_refs ?p" "p_count p = p_count ?p"
    "waiting p = (if b then waiting ?p + mset fds else waiting ?p)"
    using assms(4) unfolding pmsg_push_def Let_def by (auto simp: waiting_def split: if_splits prod.splits)
  have u: "refs_ok E N u = refs_ok E N s" "pipe_at n u = ?p" for N
    using t(2) by (simp_all add: refs_ok_def counted_by_def under_way_def pipe_at_def)
  show ?thesis unfolding t(1) by (rule set_msgs_counted [of E "M + mset fds"]) (use u t assms(1-3) in \<open>simp_all add: ac_simps\<close>)
qed

lemma take_each_counted:
  assumes "refs_ok E M s" "n < 256" "take_each n iov limit want is d s = Some (r, t)"
  shows "refs_ok E M t \<and> frame (pipe_at n t) = frame (pipe_at n s)"
  using assms
proof (induction "is" arbitrary: d s)
  case (Cons i "is")
  obtain a len where i: "iov_at iov (pmem s) i = (a, len)" by (cases "iov_at iov (pmem s) i")
  show ?case
  proof (cases "d < limit \<and> d < want")
    case True
    obtain c s1 where c: "pipe_read n (Some a) (if len < limit - d then len else limit - d) s = Some (c, s1)"
      "take_each n iov limit want is (d + c) s1 = Some (r, t)"
      using Cons.prems(3) True i by (auto split: bind_splits)
    note r = read_counted [OF Cons.prems(1) c(1)]
    show ?thesis using Cons.IH [OF r(1) Cons.prems(2) c(2)] r(2) [OF Cons.prems(2)] by simp
  qed (use Cons.prems in auto)
qed simp

lemma take_counted:
  assumes "refs_ok E M s" "n < 256" "take_now K n iov cnt want True told s = Some ((r, hs, c), t)"
  shows "refs_ok E (M + mset hs) t"
proof -
  let ?p = "pipe_at n s"
  obtain limit whole where l: "take_limit ?p = (limit, whole)" by (cases "take_limit ?p")
  show ?thesis
  proof (cases "p_packets ?p \<and> p_msgs ?p = []")
    case True
    then show ?thesis using assms(1,3) l by (simp add: take_now_def)
  next
    case False
    note T = assms(3) [unfolded take_now_def Let_def l prod.case if_not_P [OF False] if_True]
    obtain got s1 where s1: "take_each n iov limit want [0..<unat cnt] 0 s = Some (got, s1)"
      using T by (cases "take_each n iov limit want [0..<unat cnt] 0 s") auto
    note t1 = take_each_counted [OF assms(1,2) s1]
    define X where "X = (if p_packets ?p \<and> got < ucast (m_len (hd (p_msgs ?p)))
        then do { (c, t) \<leftarrow> pipe_read n None (ucast (m_len (hd (p_msgs ?p))) - got) s1; Some (told, t) } else Some (False, s1))"
    note T2 = T [unfolded s1 bind.bind_lunit prod.case X_def [symmetric]]
    obtain b s2 where s2: "X = Some (b, s2)" using T2 by (cases X) auto
    note rest = T2 [unfolded s2 bind.bind_lunit prod.case]
    have t2: "refs_ok E M s2" "frame (pipe_at n s2) = frame ?p"
      using s2 read_counted [OF t1 [THEN conjunct1]] t1 assms(2) by (auto simp: X_def split: if_splits bind_splits)
    have ms: "p_msgs (pipe_at n s2) = p_msgs ?p" "p_refs (pipe_at n s2) = p_refs ?p" using frameD [OF t2(2)] by simp_all
    show ?thesis
    proof (cases whole)
      case False
      then show ?thesis using rest t2(1) by simp
    next
      case True
      let ?q = "(pipe_at n s2)\<lparr>p_msgs := tl (p_msgs ?p)\<rparr>"
      have ne: "p_msgs ?p \<noteq> []" "hs = m_fds (hd (p_msgs ?p))" "t = set_pipe n ?q (s2\<lparr>pair_sender := m_pid (hd (p_msgs ?p))\<rparr>)"
        using rest True ms(1) by (auto simp: Let_def split: if_splits)
      have nz: "p_refs ?p \<noteq> 0" using counted_byD(3) [OF t2(1) [unfolded refs_ok_def] assms(2)] ne(1) ms by auto
      have "M + waiting (pipe_at n s2) = M + mset hs + waiting ?q" using ne ms(1) by (cases "p_msgs ?p") (simp_all add: waiting_def)
      then show ?thesis
        using set_msgs_counted [of E M "s2\<lparr>pair_sender := m_pid (hd (p_msgs ?p))\<rparr>" n ?q "M + mset hs"] t2(1) assms(2) ne ms nz by simp
    qed
  qed
qed

section \<open>Making pipes\<close>

lemma slot_from_spec: "\<exists>k. slot_from i ps = i + k \<and> k \<le> length ps \<and> (k < length ps \<longrightarrow> p_refs (ps ! k) = 0)"
proof (induction ps arbitrary: i)
  case (Cons p ps)
  show ?case
  proof (cases "0 < p_refs p")
    case True
    obtain k where "slot_from (i + 1) ps = i + 1 + k" "k \<le> length ps" "k < length ps \<longrightarrow> p_refs (ps ! k) = 0" using Cons.IH [of "i + 1"] by blast
    then show ?thesis using True by (intro exI [of _ "Suc k"]) simp
  next
    case False
    then show ?thesis by (intro exI [of _ 0]) (simp add: word_gt_0)
  qed
qed simp

lemma pipe_slot_free: "pipe_slot s < length (pipes s) \<Longrightarrow> p_refs (pipe_at (pipe_slot s) s) = 0"
  using slot_from_spec [of 0 "pipes s"] by (auto simp: pipe_slot_def pipe_at_def)

lemma writes_below: "\<Sum>\<^sub># (image_mset writes_of M) \<subseteq># \<Sum>\<^sub># (image_mset refs_of M)"
  by (induction M) (simp_all add: subset_mset.add_mono writes_subset)

text \<open>A pipe made in a free place, on top of the references \<open>R0\<close> and writers \<open>V0\<close> not yet given out.\<close>

definition with_extra :: "nat set \<Rightarrow> handle multiset \<Rightarrow> nat multiset \<Rightarrow> nat multiset \<Rightarrow> 'k ipc \<Rightarrow> bool" where
  "with_extra E M R V s \<longleftrightarrow> counted_by E (\<Sum>\<^sub># (image_mset refs_of (M + under_way s)) + R) (\<Sum>\<^sub># (image_mset writes_of (M + under_way s)) + V) s"

lemma fresh_counted:
  assumes "with_extra E M R0 V0 s" "V0 \<subseteq># R0" "n < 256" "p_refs (pipe_at n s) = 0" "unat (p_refs p) = count R n" "p_msgs p = []"
    "n \<notin> E' \<Longrightarrow> unat (p_count p) = count V n" "\<And>m. m \<noteq> n \<Longrightarrow> m \<in> E' \<longleftrightarrow> m \<in> E" "set_mset R \<subseteq> {n}" "set_mset V \<subseteq> {n}"
  shows "with_extra E' M (R0 + R) (V0 + V) (set_pipe n p s)"
proof -
  define U where "U = \<Sum>\<^sub># (image_mset refs_of (M + under_way s)) + R0"
  define W where "W = \<Sum>\<^sub># (image_mset writes_of (M + under_way s)) + V0"
  have c: "counted_by E U W s" using assms(1) by (simp add: with_extra_def U_def W_def)
  have u: "under_way (set_pipe n p s) = under_way s"
    by (rule under_way_same) (use counted_byD(3) [OF c assms(3,4)] assms(6) in \<open>simp add: waiting_def\<close>)
  have "count U n = 0" using counted_byD(1) [OF c assms(3)] assms(4) by simp
  moreover have "W \<subseteq># U" unfolding U_def W_def by (intro subset_mset.add_mono writes_below assms(2))
  ultimately have z: "count U n = 0" "count W n = 0" using mset_subset_eq_count [of W U n] by simp_all
  have len: "n < length (pipes s)" using c assms(3) by (simp add: counted_by_def)
  have e: "pipe_at m (set_pipe n p s) = (if m = n then p else pipe_at m s)" for m using len by simp
  have rest: "count R m = 0" "count V m = 0" if "m \<noteq> n" for m using that assms(9,10) by (auto simp: count_eq_zero_iff)
  have "counted_by E' (U + R) (W + V) (set_pipe n p s)" unfolding counted_by_def
  proof (intro conjI allI impI)
    fix m :: nat
    assume m: "m < 256"
    show "unat (p_refs (pipe_at m (set_pipe n p s))) = count (U + R) m"
      using counted_byD(1) [OF c m] z rest [of m] assms(5) by (simp add: e)
    show "p_refs (pipe_at m (set_pipe n p s)) = 0 \<Longrightarrow> p_msgs (pipe_at m (set_pipe n p s)) = []"
      using counted_byD(3) [OF c m] assms(6) by (simp add: e split: if_splits)
    assume "m \<notin> E' \<and> p_refs (pipe_at m (set_pipe n p s)) \<noteq> 0"
    then show "unat (p_count (pipe_at m (set_pipe n p s))) = count (W + V) m"
      using counted_byD(2) [OF c m] z rest [of m] assms(7,8) by (cases "m = n") (simp_all add: e)
  qed (use c in \<open>simp add: counted_by_def\<close>)
  then show ?thesis unfolding with_extra_def u U_def W_def by (simp add: add.assoc)
qed

lemma fresh_fields [simp]: "p_refs fresh_pipe = 2" "p_count fresh_pipe = 1" "p_msgs fresh_pipe = []"
  by (simp_all add: fresh_pipe_def empty_pipe_def)

lemma new_end_spec:
  assumes "new_end K s = (r, t)" "length (pipes s) = 256"
  obtains k where "r = None" "t = s\<lparr>env := k\<rparr>"
    | n k where "r = Some n" "t = set_pipe n fresh_pipe (s\<lparr>env := k\<rparr>)" "n < 256" "p_refs (pipe_at n s) = 0"
proof (cases "pipe_slot s < 256")
  case True
  then show ?thesis using assms that pipe_slot_free [of s] by (auto simp: new_end_def Let_def split: prod.splits if_splits)
next
  case False
  then have "r = None" "t = s\<lparr>env := env s\<rparr>" using assms by (simp_all add: new_end_def)
  then show ?thesis by (rule that(1))
qed

lemma small_number: "n < 256 \<Longrightarrow> unat (of_nat n + 1 :: u32) = Suc n"
  by (subst unat_add_small) (simp_all add: unsigned_of_nat take_bit_nat_eq_self)

lemma slot_ref_number [simp]: "n < 256 \<Longrightarrow> slot_ref (of_nat n + 1) = {#n#}"
  by (simp add: slot_ref_def small_number)

lemma pair_offset: "m < 256 \<Longrightarrow> drop_bit 16 (push_bit 16 (of_nat m + 1) OR (fl AND 0x800)) = (of_nat m + 1 :: u32)"
proof -
  assume m: "m < 256"
  have "drop_bit 16 (fl AND 0x800) = 0" by (simp add: drop_bit_and)
  moreover have "drop_bit 16 (push_bit 16 x) = take_bit 16 x" for x :: u32
    by (rule bit_word_eqI) (auto simp: bit_simps)
  moreover have "unat (take_bit 16 (of_nat m + 1 :: u32)) = unat (of_nat m + 1 :: u32)"
    unfolding unsigned_take_bit_eq small_number [OF m] using m by (simp add: take_bit_nat_eq_self)
  then have "take_bit 16 (of_nat m + 1) = (of_nat m + 1 :: u32)" by (metis unsigned_word_eqI)
  ultimately show ?thesis by (simp add: drop_bit_or)
qed

lemma with_extra_env [simp]: "with_extra E M R V (s\<lparr>env := k\<rparr>) = with_extra E M R V s"
  by (simp add: with_extra_def)

lemma with_extra_none: "refs_ok E M s \<longleftrightarrow> with_extra E M {#} {#} s"
  by (simp add: refs_ok_def with_extra_def)

lemma with_extra_given: "with_extra E M (\<Sum>\<^sub># (image_mset refs_of N)) (\<Sum>\<^sub># (image_mset writes_of N)) s \<Longrightarrow> refs_ok E (M + N) s"
  by (simp add: refs_ok_def with_extra_def ac_simps)

lemma new_end_counted:
  assumes "with_extra E M R V s" "V \<subseteq># R" "new_end K s = (Some n, t)"
  shows "with_extra (E - {n}) M (R + {#n, n#}) (V + {#n#}) t" "n < 256" "p_refs (pipe_at n s) = 0" "p_refs (pipe_at n t) = 2"
proof -
  have len: "length (pipes s) = 256" using assms(1) by (simp add: with_extra_def counted_by_def)
  from assms(3) len obtain k where t: "t = set_pipe n fresh_pipe (s\<lparr>env := k\<rparr>)" "n < 256" "p_refs (pipe_at n s) = 0"
    by (rule new_end_spec) auto
  then show "n < 256" "p_refs (pipe_at n s) = 0" "p_refs (pipe_at n t) = 2" using len by simp_all
  show "with_extra (E - {n}) M (R + {#n, n#}) (V + {#n#}) t" unfolding t(1)
    by (rule fresh_counted [of E]) (use assms(1,2) t in auto)
qed

lemma pair_new_counted:
  assumes "refs_ok E M s" "pair_new K fl s = (Some (a, b), t)"
  obtains m n where "m < 256" "n < 256" "m \<noteq> n" "of_ref a = {#m#}" "of_ref b = {#n#}" "refs_ok (E - {m, n}) (M + {#a, b#}) t"
proof -
  obtain m s1 where m: "new_end K s = (Some m, s1)" using assms(2) by (auto simp: pair_new_def split: prod.splits option.splits)
  obtain n where n: "new_end K s1 = (Some n, t)" "a = (pipe_handle (of_nat m + 1) 4 (push_bit 16 (of_nat n + 1) OR (fl AND 0x800)))\<lparr>fd_used := 1\<rparr>"
    "b = (pipe_handle (of_nat n + 1) 4 (push_bit 16 (of_nat m + 1) OR (fl AND 0x800)))\<lparr>fd_used := 1\<rparr>"
    using assms(2) m by (auto simp: pair_new_def Let_def split: prod.splits option.splits)
  note m1 = new_end_counted [OF assms(1) [unfolded with_extra_none] _ m]
  note n1 = new_end_counted [OF m1(1) _ n(1)]
  have ne: "m < 256" "n < 256" "m \<noteq> n" using m1 n1 by auto
  note off = pair_offset [OF ne(1), of 0] pair_offset [OF ne(2), of 0]
  have r: "refs_of a = {#m, n#}" "refs_of b = {#n, m#}" "writes_of a = {#n#}" "writes_of b = {#m#}" "of_ref a = {#m#}" "of_ref b = {#n#}"
    using ne by (simp_all add: n(2,3) refs_of_def writes_of_def of_ref_def out_ref_def pipe_handle_def pair_offset off [simplified])
  have "with_extra (E - {m} - {n}) M ({#m, m#} + {#n, n#}) ({#m#} + {#n#}) t" using n1(1) by simp
  then have "with_extra (E - {m, n}) M (\<Sum>\<^sub># (image_mset refs_of {#a, b#})) (\<Sum>\<^sub># (image_mset writes_of {#a, b#})) t"
    using r by (simp add: Diff_insert2 [symmetric] insert_commute ac_simps)
  then show ?thesis using that ne r with_extra_given by blast
qed

text \<open>
  A pair whose second pipe cannot be made: the first keeps one of its two references, and its writer, though
  no descriptor has them. \<open>half_made\<close> stands for the descriptor that would.
\<close>

definition half_made :: "'k pipe_kernel \<Rightarrow> 'k ipc \<Rightarrow> handle multiset" where
  "half_made K s =
    (case new_end K s of
       (None, s1) \<Rightarrow> {#}
     | (Some n, s1) \<Rightarrow> (case fst (new_end K s1) of None \<Rightarrow> {#pipe_handle (of_nat n + 1) PIPE_WRITE 0#} | Some _ \<Rightarrow> {#}))"

text \<open>The pipes that descriptors are of.\<close>

definition made_in :: "handle multiset \<Rightarrow> nat set" where
  "made_in N = set_mset (\<Sum>\<^sub># (image_mset of_ref N))"

lemma with_extra_length: "with_extra E M R V s \<Longrightarrow> length (pipes s) = 256"
  by (simp add: with_extra_def counted_by_def)

lemma new_end_none: "new_end K s = (None, t) \<Longrightarrow> \<exists>k. t = s\<lparr>env := k\<rparr>"
  by (auto simp: new_end_def Let_def split: if_splits prod.splits) (metis ipc.surjective ipc.update_convs(4) old.unit.exhaust)

lemma pair_new_lost:
  assumes "refs_ok E M s" "pair_new K fl s = (None, t)"
  shows "refs_ok (E - made_in (half_made K s)) (M + half_made K s) t"
proof -
  obtain r s1 where r: "new_end K s = (r, s1)" by (cases "new_end K s")
  show ?thesis
  proof (cases r)
    case None
    then obtain k where "t = s\<lparr>env := k\<rparr>" using assms(2) r new_end_none [of K s s1] by (auto simp: pair_new_def)
    then show ?thesis using assms(1) r None by (simp add: half_made_def made_in_def)
  next
    case (Some n)
    note n = new_end_counted [OF assms(1) [unfolded with_extra_none] _ r [unfolded Some]]
    have fst2: "fst (new_end K s1) = None" using assms(2) r Some by (cases "new_end K s1") (auto simp: pair_new_def Let_def split: option.splits prod.splits)
    then obtain s2 where s2: "new_end K s1 = (None, s2)" by (cases "new_end K s1") auto
    then obtain k where k: "s2 = s1\<lparr>env := k\<rparr>" using new_end_none by blast
    have n2: "p_refs (pipe_at n s2) = 2" using n(4) k by simp
    obtain ts u where d: "pipe_drop K (Some n) s2 = (ts, u)" by (cases "pipe_drop K (Some n) s2")
    then have u: "ts = []" "u = set_pipe n ((pipe_at n s2)\<lparr>p_refs := 1\<rparr>) s2"
      using n2 by (simp_all add: pipe_drop_def Let_def)
    have t: "t = set_pipe n ((pipe_at n s2)\<lparr>p_refs := 1\<rparr>) s2" using assms(2) r Some s2 d u by (simp add: pair_new_def)
    let ?h = "pipe_handle (of_nat n + 1) PIPE_WRITE 0"
    have h: "half_made K s = {#?h#}" "refs_of ?h = {#n#}" "writes_of ?h = {#n#}" "of_ref ?h = {#n#}"
      using r Some fst2 n(2) by (simp_all add: half_made_def refs_of_def writes_of_def of_ref_def out_ref_def pipe_handle_def)
    define U where "U = \<Sum>\<^sub># (image_mset refs_of (M + under_way s1)) + {#n, n#}"
    define W where "W = \<Sum>\<^sub># (image_mset writes_of (M + under_way s1)) + {#n#}"
    have c: "counted_by (E - {n}) U W s2" using n(1) [simplified] k by (simp add: with_extra_def U_def W_def counted_by_def)
    have cn: "count U n = 2" using counted_byD(1) [OF c n(2)] n2 by simp
    have "counted_by (E - {n}) (U - {#n#}) W t" unfolding t
      by (rule counted_by_set [OF c n(2)]) (use cn n2 counted_byD(2,3) [OF c n(2)] in auto)
    moreover have "under_way t = under_way s1" unfolding t using k by (subst under_way_same) (simp_all add: waiting_def)
    ultimately show ?thesis unfolding refs_ok_def h(1) made_in_def
      by (simp only: image_mset_add_mset image_mset_empty sum_mset.insert sum_mset.empty h) (simp add: U_def W_def h)
  qed
qed

section \<open>The calls that make them\<close>

lemma set_pipe_env: "set_pipe n p (s\<lparr>env := k\<rparr>) = (set_pipe n p s)\<lparr>env := k\<rparr>"
  by (simp add: set_pipe_def)

lemma unmade:
  assumes "refs_ok E M s" "n < 256" "p_refs (pipe_at n s) = 0"
  shows "refs_ok E M (set_pipe n empty_pipe s)"
  using fresh_counted [of E M "{#}" "{#}" s n empty_pipe "{#}" E "{#}"] assms by (simp add: with_extra_none) (simp add: empty_pipe_def)

lemma refs_ok_more: "refs_ok E M s \<Longrightarrow> E \<subseteq> E' \<Longrightarrow> refs_ok E' M s"
  by (auto simp: refs_ok_def counted_by_def)

text \<open>The descriptors of a pipe that was made, of a pair and of an eventfd.\<close>

definition pipe_ends :: "u64 \<Rightarrow> 'k ipc \<Rightarrow> handle multiset" where
  "pipe_ends flags s =
    (let h = pipe_handle (of_nat (pipe_slot s) + 1) PIPE_READ (ucast flags AND O_NONBLOCK) in {#h, h\<lparr>fd_size := PIPE_WRITE\<rparr>#})"

definition pair_ends :: "'k pipe_kernel \<Rightarrow> u32 \<Rightarrow> 'k ipc \<Rightarrow> handle multiset" where
  "pair_ends K flags s = (case fst (pair_new K flags s) of None \<Rightarrow> {#} | Some (a, b) \<Rightarrow> {#a, b#})"

definition event_end :: "u64 \<Rightarrow> 'k ipc \<Rightarrow> handle" where
  "event_end flags s = pipe_handle (of_nat (pipe_slot s) + 1) PIPE_EVENT (ucast flags AND (O_NONBLOCK OR EFD_SEMAPHORE))"

lemma ERR_not_0 [simp]: "ERR e \<noteq> 0" if "e \<in> {EFAULT, ENFILE, EMFILE, EAFNOSUPPORT, EOPNOTSUPP}"
  using that by (auto simp: ERR_def)

lemma pipe2_counted:
  assumes "refs_ok E M s" "sys_pipe2 K out flags s = (r, t)"
  shows "refs_ok (if r = 0 then E - made_in (pipe_ends flags s) else E) (if r = 0 then M + pipe_ends flags s else M) t"
proof -
  obtain q s1 where q: "new_end K s = (q, s1)" by (cases "new_end K s")
  show ?thesis
  proof (cases "\<not> pk_range K out 8 (env s) \<or> q = None")
    case True
    have "r \<noteq> 0" "t = s \<or> (\<exists>k. t = s\<lparr>env := k\<rparr>)"
      using True assms(2) q new_end_none [of K s s1] by (cases "pk_range K out 8 (env s)"; auto simp: sys_pipe2_def)+
    then show ?thesis using assms(1) by auto
  next
    case False
    then obtain n where n: "new_end K s = (Some n, s1)" using q by auto
    have slot: "n = pipe_slot s" using n by (auto simp: new_end_def Let_def split: if_splits prod.splits)
    note m = new_end_counted [OF assms(1) [unfolded with_extra_none] _ n]
    obtain k1 where k1: "s1 = set_pipe n fresh_pipe (s\<lparr>env := k1\<rparr>)"
      using new_end_spec [OF n] with_extra_length [OF assms(1) [unfolded with_extra_none]] by (metis option.distinct(1) option.inject)
    consider k m where "r = 0" "t = s1\<lparr>env := k, pmem := m\<rparr>" | k where "r \<noteq> 0" "t = set_pipe n empty_pipe (s1\<lparr>env := k\<rparr>)"
      using assms(2) False n unfolding sys_pipe2_def give_pipe_def with_cloexec_def Let_def
      by (auto split: if_splits prod.splits)
    then show ?thesis
    proof cases
      case 1
      have "made_in (pipe_ends flags s) = {n}" "\<Sum>\<^sub># (image_mset refs_of (pipe_ends flags s)) = {#n, n#}" "\<Sum>\<^sub># (image_mset writes_of (pipe_ends flags s)) = {#n#}"
        using m(2) by (simp_all add: made_in_def pipe_ends_def Let_def slot [symmetric] refs_of_def writes_of_def of_ref_def out_ref_def pipe_handle_def)
      then show ?thesis using 1 m(1) with_extra_given [of "E - {n}" M "pipe_ends flags s" s1] by simp
    next
      case 2
      have "t = set_pipe n empty_pipe (s\<lparr>env := k\<rparr>)" by (simp add: 2 k1 set_pipe_def)
      then show ?thesis using 2 unmade [of E M "s\<lparr>env := k\<rparr>" n] assms(1) m(2,3) by simp
    qed
  qed
qed

lemma event_counted:
  assumes "refs_ok E M s" "sys_eventfd2 K c flags s = (fd, t)"
  shows "refs_ok (if 0 \<le> sint fd then insert (pipe_slot s) E else E) (if 0 \<le> sint fd then add_mset (event_end flags s) M else M) t"
proof (cases "pipe_slot s = 256")
  case True
  then have "t = s" "\<not> 0 \<le> sint fd" using assms(2) by (auto simp: sys_eventfd2_def ERR_def)
  then show ?thesis using assms(1) by simp
next
  case False
  let ?n = "pipe_slot s"
  have len: "length (pipes s) = 256" using assms(1) by (simp add: refs_ok_def counted_by_def)
  have n: "?n < 256" "p_refs (pipe_at ?n s) = 0" using False len slot_from_spec [of 0 "pipes s"] pipe_slot_free [of s] by (auto simp: pipe_slot_def)
  let ?p = "empty_pipe\<lparr>p_refs := 1, p_count := ucast (ucast c :: u32)\<rparr>"
  obtain k where t: "t = (if 0 \<le> sint fd then set_pipe ?n ?p (s\<lparr>env := k\<rparr>) else s\<lparr>env := k\<rparr>)"
    using assms(2) False unfolding sys_eventfd2_def give_pipe_def with_cloexec_def Let_def
    by (cases "0 \<le> sint fd") (auto simp: set_pipe_env split: if_splits prod.splits)
  have h: "refs_of (event_end flags s) = {#?n#}" "writes_of (event_end flags s) = {#}"
    using n(1) by (simp_all add: event_end_def refs_of_def writes_of_def of_ref_def out_ref_def pipe_handle_def)
  have "with_extra (insert ?n E) M ({#} + {#?n#}) ({#} + {#}) (set_pipe ?n ?p (s\<lparr>env := k\<rparr>))"
    by (rule fresh_counted [of E]) (use assms(1) n in \<open>auto simp: with_extra_none\<close>)
  then have "refs_ok (insert ?n E) (M + {#event_end flags s#}) (set_pipe ?n ?p (s\<lparr>env := k\<rparr>))"
    by (intro with_extra_given) (simp add: h)
  then show ?thesis using t assms(1) by simp
qed

lemma pair_ends_counted:
  assumes "refs_ok E M s" "pair_new K flags s = (Some (a, b), t)"
  shows "refs_ok (E - made_in (pair_ends K flags s)) (M + pair_ends K flags s) t"
proof -
  obtain m n where "of_ref a = {#m#}" "of_ref b = {#n#}" "refs_ok (E - {m, n}) (M + {#a, b#}) t" by (rule pair_new_counted [OF assms])
  moreover have "made_in {#a, b#} = {m, n}" using calculation(1,2) by (auto simp: made_in_def)
  ultimately show ?thesis using assms(2) by (simp add: pair_ends_def)
qed

lemma set_packets_counted: "refs_ok E M s \<Longrightarrow> refs_ok E M (set_packets h s)"
proof (cases "pipe_of h s")
  case (Some n)
  assume r: "refs_ok E M s"
  let ?q = "(pipe_at n s)\<lparr>p_packets := True\<rparr>"
  have n: "n < 256" using pipe_of_SomeD [OF Some] by simp
  have u: "under_way (set_pipe n ?q s) = under_way s" by (rule under_way_same) (simp add: waiting_def)
  have "refs_ok E M (set_pipe n ?q s)" unfolding refs_ok_def u
    by (rule counted_by_set [OF r [unfolded refs_ok_def] n]) (use counted_byD [OF r [unfolded refs_ok_def] n] in auto)
  then show ?thesis by (simp add: set_packets_def upd_pipe_def Some)
qed (simp add: set_packets_def upd_pipe_def)

lemma socketpair_shape:
  assumes "sys_socketpair K domain type out s = (r, t)"
  obtains "r \<noteq> 0" "r \<noteq> ERR ENFILE" "t = s"
    | "r = ERR ENFILE" "pair_new K (ucast type) s = (None, t)"
    | a b s1 s2 k m where "pair_new K (ucast type) s = (Some (a, b), s1)" "s2 = s1 \<or> s2 = set_packets b (set_packets a s1)" "r = 0" "t = s2\<lparr>env := k, pmem := m\<rparr>"
    | a b s1 s2 k where "pair_new K (ucast type) s = (Some (a, b), s1)" "s2 = s1 \<or> s2 = set_packets b (set_packets a s1)" "r = ERR EMFILE"
      "t = handle_close K b (handle_close K a (s2\<lparr>env := k\<rparr>))"
proof -
  obtain q s1 where q: "pair_new K (ucast type) s = (q, s1)" by (cases "pair_new K (ucast type) s")
  show ?thesis
  proof (cases "domain \<noteq> AF_UNIX \<or> ucast type AND 0xF \<notin> {1, 2, 5 :: u32} \<or> \<not> pk_range K out 8 (env s)")
    case True
    then show ?thesis using assms that(1) by (auto simp: sys_socketpair_def Let_def ERR_def split: if_splits)
  next
    case False
    then have d: "domain = AF_UNIX" "ucast type AND 0xF \<in> {1, 2, 5 :: u32}" "pk_range K out 8 (env s)" by simp_all
    show ?thesis
    proof (cases q)
      case None
      then show ?thesis using assms that(2) d q by (auto simp: sys_socketpair_def Let_def)
    next
      case (Some ab)
      obtain a b where ab: "ab = (a, b)" by (cases ab)
      define s2 where "s2 = (if ucast type AND 0xF \<noteq> (1 :: u32) then set_packets b (set_packets a s1) else s1)"
      have s2: "s2 = s1 \<or> s2 = set_packets b (set_packets a s1)" by (simp add: s2_def)
      have A: "\<not> (ucast type AND 0xF \<noteq> (1 :: u32) \<and> ucast type AND 0xF \<noteq> (2 :: u32) \<and> ucast type AND 0xF \<noteq> (5 :: u32))" using d(2) by auto
      note u = assms [unfolded sys_socketpair_def Let_def d(1) q Some ab prod.case option.case s2_def [symmetric] if_not_P [OF A]]
      consider k m where "r = 0" "t = s2\<lparr>env := k, pmem := m\<rparr>" | k where "r = ERR EMFILE" "t = handle_close K b (handle_close K a (s2\<lparr>env := k\<rparr>))"
        using u d(3) unfolding give_pipe_def with_cloexec_def Let_def by (auto split: if_splits prod.splits)
      then show ?thesis
      proof cases
        case 1
        then show ?thesis using that(3) [of a b s1 s2] q Some ab s2 by simp
      next
        case 2
        then show ?thesis using that(4) [of a b s1 s2] q Some ab s2 by simp
      qed
    qed
  qed
qed

lemma socketpair_counted:
  assumes "refs_ok E M s" "sys_socketpair K domain type out s = (r, t)"
  defines "N \<equiv> (if r = 0 then pair_ends K (ucast type) s else {#})"
  defines "X \<equiv> (if r = ERR ENFILE then half_made K s else {#})"
  shows "refs_ok (E - made_in (N + X)) (M + N + X) t"
proof -
  have e: "made_in {#} = {}" by (simp add: made_in_def)
  have ne: "ERR EMFILE \<noteq> ERR ENFILE" "(0 :: u64) \<noteq> ERR ENFILE" by (simp_all add: ERR_def)
  from assms(2) show ?thesis
  proof (cases rule: socketpair_shape)
    case 1
    then show ?thesis using assms(1) by (simp add: N_def X_def e)
  next
    case 2
    then show ?thesis using pair_new_lost [OF assms(1)] by (simp add: N_def X_def)
  next
    case (3 a b s1 s2 k m)
    have "refs_ok (E - made_in (pair_ends K (ucast type) s)) (M + pair_ends K (ucast type) s) s2"
      using pair_ends_counted [OF assms(1) 3(1)] 3(2) by (auto intro: set_packets_counted)
    then show ?thesis using 3 ne by (simp add: N_def X_def)
  next
    case (4 a b s1 s2 k)
    have "pair_ends K (ucast type) s = {#a, b#}" using 4(1) by (simp add: pair_ends_def)
    then have "refs_ok E (add_mset a (add_mset b M)) (s2\<lparr>env := k\<rparr>)"
      using refs_ok_more [OF pair_ends_counted [OF assms(1) 4(1)] Diff_subset] 4(2) by (auto intro: set_packets_counted)
    then show ?thesis using 4(3,4) ne by (simp add: N_def X_def e) (intro close_counted, simp)
  qed
qed

section \<open>Any sequence of calls\<close>

text \<open>
  \<open>M\<close> are the descriptors of all processes, and those a call holds; \<open>L\<close> stands for the references that
  half-made pairs leave behind. Making is whole calls, with every error they can end with; calls that may
  wait are the rounds they are made of (\<open>put\<close> and \<open>get\<close> move bytes, \<open>send\<close> lists a message, \<open>receive\<close> takes
  one for a caller with room for its descriptors), with other steps in between. A sendmsg that fails after
  its message was listed is left out: its caller lets go of descriptors the message still holds.
\<close>

inductive pipe_step ::
  "'k pipe_kernel \<Rightarrow> nat set \<times> handle multiset \<times> handle multiset \<times> 'k ipc \<Rightarrow> nat set \<times> handle multiset \<times> handle multiset \<times> 'k ipc \<Rightarrow> bool" for K where
  make_pipe: "sys_pipe2 K out flags s = (r, t) \<Longrightarrow> N = (if r = 0 then pipe_ends flags s else {#}) \<Longrightarrow>
    pipe_step K (E, M, L, s) (E - made_in N, M + N, L, t)"
| make_event: "sys_eventfd2 K c flags s = (fd, t) \<Longrightarrow> N = (if 0 \<le> sint fd then {#event_end flags s#} else {#}) \<Longrightarrow>
    pipe_step K (E, M, L, s) (E \<union> made_in N, M + N, L, t)"
| make_pair: "pair_new K fl s = (q, t) \<Longrightarrow> N = pair_ends K fl s \<Longrightarrow> X = (if q = None then half_made K s else {#}) \<Longrightarrow>
    pipe_step K (E, M, L, s) (E - made_in (N + X), M + N, L + X, t)"
| socketpair: "sys_socketpair K domain type out s = (r, t) \<Longrightarrow> N = (if r = 0 then pair_ends K (ucast type) s else {#}) \<Longrightarrow>
    X = (if r = ERR ENFILE then half_made K s else {#}) \<Longrightarrow> pipe_step K (E, M, L, s) (E - made_in (N + X), M + N, L + X, t)"
| duplicate: "h \<in># M \<Longrightarrow> 2 * size (M + L + under_way s) + 2 < 2 ^ 32 - 1 \<Longrightarrow> pipe_step K (E, M, L, s) (E, add_mset h M, L, pipe_hold h s)"
| share: "handle_share K fd s = (Some g, t) \<Longrightarrow> pk_handle K fd (env s) = Some h \<Longrightarrow> h \<in># M \<Longrightarrow> 2 * size (M + L + under_way s) + 2 < 2 ^ 32 - 1 \<Longrightarrow>
    pipe_step K (E, M, L, s) (E, add_mset g M, L, t)"
| close: "pipe_step K (E, add_mset h M, L, s) (E, M, L, handle_close K h s)"
| release: "pipe_step K (E, add_mset h M, L, s) (E, M, L, handle_release K h s)"
| put: "pipe_put K n from cnt s = Some (c, t) \<Longrightarrow> pipe_step K (E, M, L, s) (E, M, L, t)"
| get: "pipe_read n dst cnt s = Some (c, t) \<Longrightarrow> pipe_step K (E, M, L, s) (E, M, L, t)"
| send: "pair_out h s = Some n \<Longrightarrow> pmsg_push K n pos len fds s = Some (b, t) \<Longrightarrow>
    pipe_step K (E, M + mset fds, L, s) (E, if b then M else M + mset fds, L, t)"
| receive: "pipe_of h s = Some n \<Longrightarrow> take_now K n iov cnt want True told s = Some ((r, hs, c), t) \<Longrightarrow>
    pipe_step K (E, M, L, s) (E, M + mset hs, L, t)"
| other: "pipe_step K (E, M, L, s) (E, M, L, s\<lparr>env := k, pmem := m, pair_sender := i\<rparr>)"

inductive_cases pipe_stepE: "pipe_step K (E, M, L, s) x"

lemma in_use_SomeD: "in_use x s = Some n \<Longrightarrow> n < 256 \<and> p_refs (pipe_at n s) \<noteq> 0"
  by (auto simp: in_use_def word_gt_0 unat_gt_0 split: if_splits)

definition step_ok :: "nat set \<times> handle multiset \<times> handle multiset \<times> 'k ipc \<Rightarrow> bool" where
  "step_ok x = (case x of (E, M, L, s) \<Rightarrow> refs_ok E (M + L) s)"

lemma made_in_none [simp]: "made_in {#} = {}"
  by (simp add: made_in_def)

lemma made_in_event: "pipe_slot s < 256 \<Longrightarrow> made_in {#event_end flags s#} = {pipe_slot s}"
  by (simp add: made_in_def event_end_def of_ref_def pipe_handle_def)

lemma refs_of_used [simp]: "refs_of (h\<lparr>fd_used := v\<rparr>) = refs_of h" "writes_of (h\<lparr>fd_used := v\<rparr>) = writes_of h"
  by (simp_all add: refs_of_def writes_of_def of_ref_def out_ref_def)

lemma pipe_step_counted: "pipe_step K x y \<Longrightarrow> step_ok x \<Longrightarrow> step_ok y"
proof (induction rule: pipe_step.induct)
  case (make_pipe out flags s r t N E M L)
  then show ?case using pipe2_counted [of E "M + L" s K out flags r t] by (auto simp: step_ok_def ac_simps)
next
  case (make_event c flags s fd t N E M L)
  show ?case
  proof (cases "0 \<le> sint fd")
    case True
    then have "pipe_slot s \<noteq> 256" using make_event(1) by (auto simp: sys_eventfd2_def ERR_def)
    moreover have "length (pipes s) = 256" using make_event(3) by (simp add: step_ok_def refs_ok_def counted_by_def)
    ultimately have "pipe_slot s < 256" using slot_from_spec [of 0 "pipes s"] by (auto simp: pipe_slot_def)
    then show ?thesis using event_counted [of E "M + L" s K c flags fd t] make_event True by (simp add: step_ok_def made_in_event)
  next
    case False
    then show ?thesis using event_counted [of E "M + L" s K c flags fd t] make_event by (simp add: step_ok_def)
  qed
next
  case (make_pair fl s q t N X E M L)
  have r: "refs_ok E (M + L) s" using make_pair(4) by (simp add: step_ok_def)
  show ?case
  proof (cases q)
    case None
    then have "N = {#}" using make_pair(1,2) by (simp add: pair_ends_def)
    then show ?thesis using pair_new_lost [OF r, of K fl t] make_pair(1,3) None by (simp add: step_ok_def ac_simps)
  next
    case (Some ab)
    then show ?thesis using pair_ends_counted [OF r, of K fl "fst ab" "snd ab" t] make_pair(1-3) by (simp add: step_ok_def ac_simps)
  qed
next
  case (socketpair domain type out s r t N X E M L)
  then show ?case using socketpair_counted [of E "M + L" s K domain type out r t] by (simp add: step_ok_def ac_simps)
next
  case (duplicate h M L s E)
  then show ?case using hold_counted [of E "M + L" s h] by (simp add: step_ok_def)
next
  case (share fd s g t h M L E)
  have "refs_ok E (add_mset h (M + L)) (pipe_hold h s)" using hold_counted [of E "M + L" s h] share(3-5) by (simp add: step_ok_def)
  moreover have "g = h\<lparr>fd_used := 1\<rparr>" "\<exists>k. t = (pipe_hold h s)\<lparr>env := k\<rparr>" using share(1,2) by (auto simp: handle_share_def Let_def)
  ultimately show ?case by (auto simp: step_ok_def) (simp add: refs_ok_def)
next
  case (close E h M L s)
  then show ?case using close_counted [of E h "M + L" s K] by (simp add: step_ok_def)
next
  case (release E h M L s)
  then show ?case using release_counted [of E h "M + L" s K] by (simp add: step_ok_def)
next
  case (put n "from" cnt s c t E M L)
  then show ?case using put_counted [OF _ put(1), of E "M + L"] by (simp add: step_ok_def)
next
  case (get n dst cnt s c t E M L)
  then show ?case using read_counted(1) [OF _ get(1), of E "M + L"] by (simp add: step_ok_def)
next
  case (send h s n pos len fds b t E M L)
  have "refs_ok E (M + L + mset fds) s" using send(3) by (simp add: step_ok_def ac_simps)
  then have "refs_ok E (if b then M + L else M + L + mset fds) t"
    using send(1,2) in_use_SomeD [of _ s n] push_counted [of E "M + L" fds s n K pos len b t] by (simp add: pair_out_def)
  then show ?case by (cases b) (simp_all add: step_ok_def ac_simps)
next
  case (receive h s n iov cnt want told r hs c t E M L)
  then show ?case using in_use_SomeD [of _ s n] take_counted [of E "M + L" s n K iov cnt want told r hs c t]
    by (auto simp: step_ok_def pipe_of_def ac_simps split: if_splits)
next
  case other
  then show ?case by (simp only: step_ok_def prod.case refs_ok_env)
qed

lemma pipe_steps_counted: "(pipe_step K)\<^sup>*\<^sup>* x y \<Longrightarrow> step_ok x \<Longrightarrow> step_ok y"
  by (induction rule: rtranclp_induct) (auto dest: pipe_step_counted)

text \<open>Before any pipe is made.\<close>

definition no_pipes :: "memory \<Rightarrow> 'k \<Rightarrow> 'k ipc" where
  "no_pipes m k = \<lparr>pipes = replicate 256 empty_pipe, pmem = m, pair_sender = 0, env = k\<rparr>"

lemma no_pipes_ok: "refs_ok {} {#} (no_pipes m k)"
proof -
  have "sum_list (replicate j {#}) = ({#} :: handle multiset)" for j by (induction j) simp_all
  then have "under_way (no_pipes m k) = {#}" by (simp add: under_way_def no_pipes_def)
  then show ?thesis by (simp add: refs_ok_def counted_by_def no_pipes_def pipe_at_def)
qed

text \<open>The end of what a reader can read: nothing queued, and nobody who could write.\<close>

lemma end_of_file:
  assumes "refs_ok E M s" "h \<in># M" "fd_size h \<in> {PIPE_READ, PIPE_PAIR}" "pipe_of h s = Some n" "n \<notin> E" "p_read (pipe_at n s) = p_len (pipe_at n s)"
  shows "readable h s \<longleftrightarrow> (\<forall>w \<in># M + under_way s. n \<notin># writes_of w)"
proof -
  have n: "n < 256" "p_refs (pipe_at n s) \<noteq> 0" using assms(4) in_use_SomeD [of _ s n] by (auto simp: pipe_of_def split: if_splits)
  note c = counted_byD(2) [OF assms(1) [unfolded refs_ok_def] n(1) assms(5) n(2)]
  have "readable h s \<longleftrightarrow> p_count (pipe_at n s) = 0" using assms(3,4,6) by (auto simp: readable_def)
  also have "\<dots> \<longleftrightarrow> unat (p_count (pipe_at n s)) = 0" by (simp add: unat_eq_zero)
  also have "\<dots> \<longleftrightarrow> n \<notin># \<Sum>\<^sub># (image_mset writes_of (M + under_way s))" unfolding c by (simp add: count_eq_zero_iff)
  finally show ?thesis by (auto simp: set_mset_Union_mset)
qed

end
