(* ===== verification/PipeWait.thy ===== *)
theory PipeWait
  imports PipeBuffer
begin

text \<open>
  A write that waits for its reader. \<open>pipe_reader\<close> states what a writer relies on while another program
  runs: bytes leave its pipe only from the front, into what that program has read (\<open>seen\<close>). In it a
  write delivers its bytes in order. \<open>pipe_drain\<close> adds that the reader does read, and that memory for a
  larger buffer is there sooner or later: then the write ends, early if a signal comes.
\<close>

section \<open>What a writer relies on\<close>

locale pipe_reader =
  fixes K :: "'k pipe_kernel" and n :: nat and seen :: "'k \<Rightarrow> u8 list"
  assumes yield_ok: "n < length (pipes s) \<Longrightarrow> pipe_ok (pipe_at n s) \<Longrightarrow>
      n < length (pipes (pk_yield K s)) \<and> pipe_ok (pipe_at n (pk_yield K s))"
    and yield_seen: "n < length (pipes s) \<Longrightarrow> pipe_ok (pipe_at n s) \<Longrightarrow>
      seen (env (pk_yield K s)) @ queued (pipe_at n (pk_yield K s)) = seen (env s) @ queued (pipe_at n s)"
    and yield_mem: "pmem (pk_yield K s) = pmem s"
    and alloc_seen: "pk_alloc K w k = (b, k') \<Longrightarrow> seen k' = seen k"
    and free_seen: "seen (pk_free K k) = seen k"
    and check_seen: "pk_check K k = (b, k') \<Longrightarrow> seen k' = seen k"
    and sigpipe_seen: "seen (pk_sigpipe K k) = seen k"
begin

text \<open>Everything that ever went in, from what was read to what is still queued.\<close>

definition history :: "'k ipc \<Rightarrow> u8 list" where
  "history s = seen (env s) @ queued (pipe_at n s)"

definition ready :: "'k ipc \<Rightarrow> bool" where
  "ready s \<longleftrightarrow> n < length (pipes s) \<and> pipe_ok (pipe_at n s)"

lemma put_history:
  assumes "ready s"
  obtains c t where "pipe_put K n from cnt s = Some (c, t)" "ready t" "history t = history s @ peek (pmem s) from (unat c)"
    "unat c \<le> unat cnt" "pmem t = pmem s" "frame (pipe_at n t) = frame (pipe_at n s)"
proof -
  obtain c p k where p: "pipe_put K n from cnt s = Some (c, set_pipe n p (s\<lparr>env := k\<rparr>))" "pipe_ok p" "frame p = frame (pipe_at n s)"
    "queued p = queued (pipe_at n s) @ peek (pmem s) from (unat c)"
    "unat c = min (unat cnt) (65536 - length (queued (pipe_at n s))) \<and> (k = env s \<or> (\<exists>w k2. pk_alloc K w (env s) = (True, k2) \<and> k = pk_free K k2)) \<or>
     c = 0 \<and> (\<exists>w. pk_alloc K w (env s) = (False, k))"
    using assms unfolding ready_def by (elim conjE) (erule (1) pipe_put_ok [where K = K and cnt = cnt], blast)
  have "seen k = seen (env s)" using p(5) alloc_seen free_seen by metis
  then show ?thesis using that [of c "set_pipe n p (s\<lparr>env := k\<rparr>)"] p assms by (auto simp: ready_def history_def)
qed

lemma turn_history:
  assumes "ready s" "pk_check K (env s) = (b, k)"
  shows "ready (pk_yield K (s\<lparr>env := k\<rparr>))" "history (pk_yield K (s\<lparr>env := k\<rparr>)) = history s" "pmem (pk_yield K (s\<lparr>env := k\<rparr>)) = pmem s"
  using assms yield_ok [of "s\<lparr>env := k\<rparr>"] yield_seen [of "s\<lparr>env := k\<rparr>"] check_seen [OF assms(2)]
  by (simp_all add: ready_def history_def yield_mem)

lemma peek_append: "peek m a (i + j) = peek m a i @ peek m (a + of_nat i) j"
  unfolding peek_def by (rule nth_equalityI) (auto simp: nth_append add.assoc simp flip: of_nat_add)

text \<open>
  The bytes that got in are the first of those given, in order, and the answer is how many, or the error
  if none did.
\<close>

definition write_result :: "u64 \<Rightarrow> u64 \<Rightarrow> 'k ipc \<Rightarrow> (u64, 'k ipc) outcome \<Rightarrow> bool" where
  "write_result from cnt s x \<longleftrightarrow>
    (case x of
       Ended r t \<Rightarrow> ready t \<and> pmem t = pmem s \<and>
         (\<exists>m \<le> unat cnt. history t = history s @ peek (pmem s) from m \<and>
           (r = of_nat m \<and> (0 < m \<or> cnt = 0) \<or> m = 0 \<and> r \<in> {ERR EPIPE, ERR EAGAIN, ERR EINTR}))
     | Fault \<Rightarrow> False
     | Waits \<Rightarrow> True)"

lemma write_rounds:
  assumes "ready s" "history s = h0 @ peek (pmem s) from (unat done)" "unat done \<le> unat cnt"
  shows "case pipe_write K fuel h n from cnt done s of
       Ended r t \<Rightarrow> ready t \<and> pmem t = pmem s \<and>
         (\<exists>m \<le> unat cnt. history t = h0 @ peek (pmem s) from m \<and>
           (r = of_nat m \<and> (0 < m \<or> cnt = 0) \<or> m = 0 \<and> r \<in> {ERR EPIPE, ERR EAGAIN, ERR EINTR}))
     | Fault \<Rightarrow> False
     | Waits \<Rightarrow> True"
  using assms
proof (induction fuel arbitrary: "done" s)
  case (Suc fuel)
  have answer: "\<exists>m \<le> unat cnt. history t = h0 @ peek (pmem s) from m \<and>
      ((if 0 < d then d else e) = of_nat m \<and> (0 < m \<or> cnt = 0) \<or> m = 0 \<and> (if 0 < d then d else e) \<in> {ERR EPIPE, ERR EAGAIN, ERR EINTR})"
    if "history t = h0 @ peek (pmem s) from (unat d)" "unat d \<le> unat cnt" "e \<in> {ERR EPIPE, ERR EAGAIN, ERR EINTR}" for t :: "'k ipc" and d e :: u64
    using that by (intro exI [of _ "unat d"]) (auto simp: word_gt_0 unat_gt_0)
  show ?case
  proof (cases "done < cnt")
    case False
    then have "unat done = unat cnt" using Suc.prems(3) by (simp add: word_less_nat_alt)
    then have "done = cnt" by (metis unsigned_word_eqI)
    then show ?thesis using Suc.prems False by (auto simp: unat_gt_0 intro!: exI [of _ "unat done"])
  next
    case True
    show ?thesis
    proof (cases "fd_size h = 1 \<and> ucast (p_refs (pipe_at n s)) \<le> p_count (pipe_at n s)")
      case gone: True
      let ?t = "s\<lparr>env := pk_sigpipe K (env s)\<rparr>"
      have "history ?t = h0 @ peek (pmem s) from (unat done)" "ready ?t"
        using Suc.prems by (simp_all add: history_def ready_def sigpipe_seen)
      then show ?thesis using True gone answer [of ?t "done" "ERR EPIPE"] Suc.prems(3) by simp
    next
      case here: False
      obtain c t where c: "pipe_put K n (from + done) (cnt - done) s = Some (c, t)" "ready t"
        "history t = history s @ peek (pmem s) (from + done) (unat c)" "unat c \<le> unat (cnt - done)" "pmem t = pmem s"
        using put_history [OF Suc.prems(1)] by metis
      define d where "d = done + c"
      have cd: "unat (cnt - done) = unat cnt - unat done" using Suc.prems(3) by (rule unat_sub_le)
      have d: "unat d = unat done + unat c" "unat d \<le> unat cnt"
        using c(4) cd Suc.prems(3) unat_bound [of cnt] by (simp_all add: d_def unat_add_small)
      have hd: "history t = h0 @ peek (pmem s) from (unat d)" using c(3) Suc.prems(2) d(1) by (simp add: peek_append)
      have step: "pipe_write K (Suc fuel) h n from cnt done s =
        (if 0 < c \<or> d = cnt then pipe_write K fuel h n from cnt d t
         else wait_turn K (fd_offset h AND 0x800 \<noteq> 0 \<or> pk_only K (env t)) (\<lambda>e. if 0 < d then d else ERR e)
                (pipe_write K fuel h n from cnt d) Ended t)"
        unfolding pipe_write.simps Let_def c(1) if_not_P [OF here] option.case prod.case d_def using True by simp
      obtain hit k where k: "pk_check K (env t) = (hit, k)" by (cases "pk_check K (env t)")
      let ?y = "pk_yield K (t\<lparr>env := k\<rparr>)"
      note y = turn_history [OF c(2) k]
      have k1: "history (t\<lparr>env := k\<rparr>) = history t" "ready (t\<lparr>env := k\<rparr>)"
        using c(2) check_seen [OF k] by (simp_all add: history_def ready_def)
      consider "0 < c \<or> d = cnt" | "\<not> (0 < c \<or> d = cnt)" "fd_offset h AND 0x800 \<noteq> 0 \<or> pk_only K (env t)"
        | "\<not> (0 < c \<or> d = cnt)" "\<not> (fd_offset h AND 0x800 \<noteq> 0 \<or> pk_only K (env t))" hit
        | "\<not> (0 < c \<or> d = cnt)" "\<not> (fd_offset h AND 0x800 \<noteq> 0 \<or> pk_only K (env t))" "\<not> hit" by blast
      then show ?thesis
      proof cases
        case 1
        then show ?thesis unfolding step if_P [OF 1] using Suc.IH [OF c(2) _ d(2)] hd c(5) by (simp split: outcome.splits)
      next
        case 2
        show ?thesis unfolding step if_not_P [OF 2(1)] wait_turn_def if_P [OF 2(2)] outcome.case
          using answer [OF hd d(2), of "ERR EAGAIN"] c(2,5) by simp
      next
        case 3
        show ?thesis unfolding step if_not_P [OF 3(1)] wait_turn_def if_not_P [OF 3(2)] k Let_def prod.case if_P [OF 3(3)] outcome.case
          using answer [OF _ d(2), of "t\<lparr>env := k\<rparr>" "ERR EINTR"] k1 hd c(5) by (simp split: outcome.splits)
      next
        case 4
        show ?thesis unfolding step if_not_P [OF 4(1)] wait_turn_def if_not_P [OF 4(2)] k Let_def prod.case if_not_P [OF 4(3)]
          using Suc.IH [OF y(1) _ d(2)] hd y(2,3) c(5) by (simp split: outcome.splits)
      qed
    qed
  qed
qed simp

lemma write_in_order:
  assumes "ready s"
  shows "write_result from cnt s (pipe_write K fuel h n from cnt 0 s)"
  using write_rounds [OF assms, of "history s" "from" 0 cnt fuel h] by (simp add: write_result_def peek_def)

end

locale pipe_drain = pipe_reader +
  fixes late :: "'a \<Rightarrow> nat"
  assumes takes: "n < length (pipes s) \<Longrightarrow> pipe_ok (pipe_at n s) \<Longrightarrow>
      length (queued (pipe_at n (pk_yield K s))) \<le> length (queued (pipe_at n s)) - 1"
    and keeps: "n < length (pipes s) \<Longrightarrow> pipe_ok (pipe_at n s) \<Longrightarrow> frame (pipe_at n (pk_yield K s)) = frame (pipe_at n s)"
    and memory: "late k = 0 \<Longrightarrow> fst (pk_alloc K w k)"
    and sooner: "n < length (pipes s) \<Longrightarrow> pipe_ok (pipe_at n s) \<Longrightarrow> late (env (pk_yield K s)) \<le> late (env s) - 1"
    and no_later: "late (snd (pk_alloc K w k)) \<le> late k" "late (pk_free K k) \<le> late k" "late (snd (pk_check K k)) \<le> late k"
    and not_alone: "\<not> pk_only K k"
begin

text \<open>\<open>late\<close> is how many turns it may take until there is memory.\<close>

lemma put_amount:
  assumes "ready s"
  obtains c t where "pipe_put K n from cnt s = Some (c, t)" "ready t" "frame (pipe_at n t) = frame (pipe_at n s)" "late (env t) \<le> late (env s)"
    "unat c \<le> unat cnt" "c = 0 \<Longrightarrow> unat cnt = 0 \<or> length (queued (pipe_at n s)) = 65536 \<or> 0 < late (env s)"
proof -
  obtain c p k where p: "pipe_put K n from cnt s = Some (c, set_pipe n p (s\<lparr>env := k\<rparr>))" "pipe_ok p" "frame p = frame (pipe_at n s)"
    "unat c = min (unat cnt) (65536 - length (queued (pipe_at n s))) \<and> (k = env s \<or> (\<exists>w k2. pk_alloc K w (env s) = (True, k2) \<and> k = pk_free K k2)) \<or>
     c = 0 \<and> (\<exists>w. pk_alloc K w (env s) = (False, k))"
    using assms unfolding ready_def by (elim conjE) (erule (1) pipe_put_ok [where K = K and cnt = cnt], blast)
  have "late k \<le> late (env s)" using p(4) no_later(1) [of _ "env s"] no_later(2) by (metis le_refl order_trans snd_conv)
  moreover have "0 < late (env s)" if "pk_alloc K w (env s) = (False, k)" for w using memory [of "env s" w] that by (cases "late (env s) = 0") auto
  moreover have "unat c \<le> unat cnt" using p(4) by auto
  moreover have "length (queued (pipe_at n s)) \<le> 65536" using assms length_queued_cap [of "pipe_at n s"] by (simp add: ready_def)
  moreover have "unat cnt = 0 \<or> length (queued (pipe_at n s)) = 65536 \<or> 0 < late (env s)" if "c = 0"
  proof -
    have "unat c = 0" using that by simp
    then show ?thesis using p(4) calculation(2,4) by (metis diff_is_0_eq le_antisym min_def)
  qed
  ultimately show ?thesis using that [of c "set_pipe n p (s\<lparr>env := k\<rparr>)"] p(1-3) assms by (simp add: ready_def)
qed

lemma write_ends:
  assumes "ready s" "fd_offset h AND 0x800 = 0" "fd_size h = 1 \<longrightarrow> p_count (pipe_at n s) < ucast (p_refs (pipe_at n s))"
    "unat done \<le> unat cnt" "2 * (unat cnt - unat done) + of_bool (length (queued (pipe_at n s)) = 65536) + late (env s) < fuel"
  shows "\<exists>r t. pipe_write K fuel h n from cnt done s = Ended r t \<and> (unat r \<le> unat cnt \<or> r = ERR EINTR) \<and>
    ((\<forall>k. \<not> fst (pk_check K k)) \<longrightarrow> r = cnt)"
  using assms
proof (induction fuel arbitrary: "done" s)
  case (Suc fuel)
  show ?case
  proof (cases "done < cnt")
    case False
    then have "unat done = unat cnt" using Suc.prems(4) by (simp add: word_less_nat_alt)
    then have "done = cnt" by (metis unsigned_word_eqI)
    then show ?thesis by simp
  next
    case True
    have here: "\<not> (fd_size h = 1 \<and> ucast (p_refs (pipe_at n s)) \<le> p_count (pipe_at n s))" using Suc.prems(3) by auto
    have cd: "unat (cnt - done) = unat cnt - unat done" using Suc.prems(4) by (rule unat_sub_le)
    have lt: "unat done < unat cnt" using True by (simp add: word_less_nat_alt)
    obtain c t where c: "pipe_put K n (from + done) (cnt - done) s = Some (c, t)" "ready t" "frame (pipe_at n t) = frame (pipe_at n s)"
      "late (env t) \<le> late (env s)" "unat c \<le> unat (cnt - done)" "c = 0 \<Longrightarrow> length (queued (pipe_at n s)) = 65536 \<or> 0 < late (env s)"
      using put_amount [OF Suc.prems(1), of "from + done" "cnt - done"] cd lt by (metis diff_is_0_eq not_le)
    define d where "d = done + c"
    have d: "unat d = unat done + unat c" "unat d \<le> unat cnt"
      using c(5) cd Suc.prems(4) unat_bound [of cnt] by (simp_all add: d_def unat_add_small)
    have step: "pipe_write K (Suc fuel) h n from cnt done s =
        (if 0 < c \<or> d = cnt then pipe_write K fuel h n from cnt d t
         else wait_turn K (fd_offset h AND 0x800 \<noteq> 0 \<or> pk_only K (env t)) (\<lambda>e. if 0 < d then d else ERR e)
                (pipe_write K fuel h n from cnt d) Ended t)"
      unfolding pipe_write.simps Let_def c(1) if_not_P [OF here] option.case prod.case d_def using True by simp
    have gone: "fd_size h = 1 \<longrightarrow> p_count (pipe_at n u) < ucast (p_refs (pipe_at n u))" if "frame (pipe_at n u) = frame (pipe_at n s)" for u :: "'a ipc"
      using Suc.prems(3) frameD(1,2) [OF that] by simp
    show ?thesis
    proof (cases "c = 0")
      case False
      then have "0 < unat c" by (simp add: unat_gt_0)
      then have "2 * (unat cnt - unat d) + of_bool (length (queued (pipe_at n t)) = 65536) + late (env t) < fuel"
        using Suc.prems(5) d lt c(4) by (auto split: if_splits)
      then show ?thesis unfolding step using False Suc.IH [OF c(2) Suc.prems(2) gone [OF c(3)] d(2)] by (simp add: word_gt_0)
    next
      case none: True
      obtain hit k where k: "pk_check K (env t) = (hit, k)" by (cases "pk_check K (env t)")
      let ?s = "t\<lparr>env := k\<rparr>"
      have ne: "d \<noteq> cnt" using none \<open>done < cnt\<close> by (auto simp: d_def)
      have turn: "pipe_write K (Suc fuel) h n from cnt done s =
          (if hit then Ended (if 0 < d then d else ERR EINTR) ?s else pipe_write K fuel h n from cnt d (pk_yield K ?s))"
        unfolding step using none ne Suc.prems(2) not_alone by (simp add: wait_turn_def k)
      show ?thesis
      proof (cases hit)
        case True
        then have "\<exists>k. fst (pk_check K k)" using k by (metis fst_conv)
        then show ?thesis unfolding turn using True d(2) by auto
      next
        case False
        have l: "late (env ?s) \<le> late (env s)" using no_later(3) [of "env t"] c(4) k by simp
        note y = takes [of ?s] sooner [of ?s] keeps [of ?s]
        have "n < length (pipes ?s)" "pipe_ok (pipe_at n ?s)" using c(2) by (simp_all add: ready_def)
        note y = y [OF this]
        have "length (queued (pipe_at n ?s)) \<le> 65536" using c(2) length_queued_cap [of "pipe_at n ?s"] by (simp add: ready_def)
        then have "length (queued (pipe_at n (pk_yield K ?s))) \<noteq> 65536" using y(1) by linarith
        then have fu: "2 * (unat cnt - unat d) + of_bool (length (queued (pipe_at n (pk_yield K ?s))) = 65536) + late (env (pk_yield K ?s)) < fuel"
          using Suc.prems(5) c(6) [OF none] y(2) l d(1) none by (auto split: if_splits)
        have "frame (pipe_at n (pk_yield K ?s)) = frame (pipe_at n s)" using y(3) c(3) by simp
        then show ?thesis unfolding turn using False Suc.IH [OF turn_history(1) [OF c(2) k] Suc.prems(2) gone d(2) fu] by simp
      qed
    qed
  qed
qed simp

end

section \<open>A reader beside the writer\<close>

text \<open>
  What the reader has read, and how often it had its turn; at each it reads as many bytes as it likes, and
  at least one. A signal comes at the turns of \<open>hits\<close>, and there is memory at those of \<open>room\<close>.
\<close>

record reader =
  got :: "u8 list"
  turns :: nat

definition read_turn :: "nat \<Rightarrow> (nat \<Rightarrow> u64) \<Rightarrow> reader ipc \<Rightarrow> reader ipc" where
  "read_turn n likes s =
    (let cnt = (if likes (turns (env s)) = 0 then 1 else likes (turns (env s)))
     in case pipe_read n None cnt s of
       None \<Rightarrow> s
     | Some (c, t) \<Rightarrow>
         t\<lparr>env := \<lparr>got = got (env s) @ take (unat c) (queued (pipe_at n s)), turns = turns (env s) + 1\<rparr>\<rparr>)"

definition reader_beside :: "nat \<Rightarrow> (nat \<Rightarrow> u64) \<Rightarrow> (nat \<Rightarrow> bool) \<Rightarrow> (nat \<Rightarrow> bool) \<Rightarrow> reader pipe_kernel" where
  "reader_beside n likes hits room =
    \<lparr>pk_alloc = (\<lambda>w k. (room (turns k), k)), pk_free = (\<lambda>k. k), pk_range = (\<lambda>a w k. True), pk_check = (\<lambda>k. (hits (turns k), k)), pk_only = (\<lambda>k. False),
     pk_yield = read_turn n likes, pk_sigpipe = (\<lambda>k. k), pk_pid = (\<lambda>k. 1), pk_handle = (\<lambda>fd k. None), pk_give = (\<lambda>h k. (ERR EMFILE, k)),
     pk_unuse = (\<lambda>fd k. k), pk_cloexec = (\<lambda>fd k. k), pk_hold = (\<lambda>h k. k), pk_forget = (\<lambda>h k. k), pk_close = (\<lambda>h k. k)\<rparr>"

lemma read_turn_ok:
  assumes "n < length (pipes s)" "pipe_ok (pipe_at n s)"
  obtains c p where "read_turn n likes s = set_pipe n p (s\<lparr>env := \<lparr>got = got (env s) @ take c (queued (pipe_at n s)), turns = turns (env s) + 1\<rparr>\<rparr>)"
    "pipe_ok p" "queued p = drop c (queued (pipe_at n s))" "frame p = frame (pipe_at n s)" "queued (pipe_at n s) \<noteq> [] \<Longrightarrow> 0 < c"
proof -
  let ?cnt = "if likes (turns (env s)) = 0 then 1 else likes (turns (env s))"
  obtain c p where p: "pipe_read n None ?cnt s = Some (c, set_pipe n p (s\<lparr>pmem := pmem s\<rparr>))" "pipe_ok p" "frame p = frame (pipe_at n s)"
    "unat c = min (unat ?cnt) (length (queued (pipe_at n s)))" "queued p = drop (unat c) (queued (pipe_at n s))"
    using pipe_read_ok [OF assms, of None ?cnt, unfolded option.case] by metis
  have "0 < unat ?cnt" by (simp add: unat_gt_0)
  then have "queued (pipe_at n s) \<noteq> [] \<Longrightarrow> 0 < unat c" using p(4) by simp
  then show ?thesis using that [of p "unat c"] p by (simp add: read_turn_def Let_def set_pipe_def)
qed

lemma read_turn_mem: "pmem (read_turn n likes s) = pmem s"
  by (simp add: read_turn_def pipe_read_def Let_def)

interpretation beside: pipe_drain "reader_beside n likes hits (\<lambda>i. N \<le> i \<or> room i)" n got "\<lambda>k. N - turns k" for n likes hits room N
proof
  fix s :: "reader ipc"
  assume s: "n < length (pipes s)" "pipe_ok (pipe_at n s)"
  obtain c p where p: "read_turn n likes s = set_pipe n p (s\<lparr>env := \<lparr>got = got (env s) @ take c (queued (pipe_at n s)), turns = turns (env s) + 1\<rparr>\<rparr>)"
    "pipe_ok p" "queued p = drop c (queued (pipe_at n s))" "frame p = frame (pipe_at n s)" "queued (pipe_at n s) \<noteq> [] \<Longrightarrow> 0 < c"
    using read_turn_ok [OF s] by metis
  let ?t = "pk_yield (reader_beside n likes hits (\<lambda>i. N \<le> i \<or> room i)) s"
  have t: "pipe_at n ?t = p" "got (env ?t) = got (env s) @ take c (queued (pipe_at n s))" "length (pipes ?t) = length (pipes s)" "turns (env ?t) = turns (env s) + 1"
    using s(1) p(1) by (simp_all add: reader_beside_def)
  show "n < length (pipes ?t) \<and> pipe_ok (pipe_at n ?t)" "got (env ?t) @ queued (pipe_at n ?t) = got (env s) @ queued (pipe_at n s)"
    "frame (pipe_at n ?t) = frame (pipe_at n s)" "N - turns (env ?t) \<le> N - turns (env s) - 1"
    using s p t by simp_all
  show "length (queued (pipe_at n ?t)) \<le> length (queued (pipe_at n s)) - 1"
    using p t by (cases "queued (pipe_at n s) = []") simp_all
qed (auto simp: reader_beside_def read_turn_mem)

text \<open>
  Without memory a write of more than the first buffer holds, to a pipe that is empty, never ends: every
  round puts in nothing, and the reader has nothing to read.
\<close>

lemma read_nothing:
  assumes "n < length (pipes s)" "pipe_at n s = fresh_pipe"
  shows "pipe_at n (read_turn n likes s) = fresh_pipe" "n < length (pipes (read_turn n likes s))"
  using assms by (auto simp: read_turn_def pipe_read_def Let_def fresh_pipe_def empty_pipe_def word_gt_0)

lemma put_nothing:
  assumes "n < length (pipes s)" "pipe_at n s = fresh_pipe" "8192 < unat cnt" "\<And>w. pk_alloc K w (env s) = (False, env s)"
  shows "pipe_put K n from cnt s = Some (0, set_pipe n fresh_pipe s)"
proof -
  define c :: u64 where "c = (if 65536 < cnt then 65536 else cnt)"
  have "\<not> c \<le> 8192" "unat c \<le> 65536" using assms(3) by (simp_all add: c_def word_le_nat_alt word_less_nat_alt)
  moreover obtain v where "wanted 33 c 8192 = Some v" using wanted_ok [of 8192 c] calculation(2) by auto
  ultimately have "grow_pipe K c fresh_pipe (env s) = Some (None, env s)"
    by (simp add: grow_pipe_def assms(4)) (simp add: fresh_pipe_def empty_pipe_def)
  moreover have "compact fresh_pipe = Some fresh_pipe" "p_len fresh_pipe = 0" by (simp_all add: compact_def fresh_pipe_def empty_pipe_def)
  ultimately show ?thesis by (cases "65536 < cnt") (simp_all add: pipe_put_def assms(2) c_def Let_def)
qed

lemma write_without_memory:
  assumes "n < length (pipes s)" "pipe_at n s = fresh_pipe" "8192 < unat cnt" "fd_offset h AND 0x800 = 0"
  shows "pipe_write (reader_beside n likes (\<lambda>_. False) (\<lambda>_. False)) fuel h n from cnt 0 s = Waits"
  using assms
proof (induction fuel arbitrary: s)
  case (Suc fuel)
  let ?K = "reader_beside n likes (\<lambda>_. False) (\<lambda>_. False)"
  let ?s = "set_pipe n fresh_pipe s"
  have put: "pipe_put ?K n from cnt s = Some (0, ?s)"
    by (rule put_nothing) (use Suc.prems in \<open>simp_all add: reader_beside_def\<close>)
  have t: "pipe_at n ?s = fresh_pipe" "n < length (pipes ?s)" using Suc.prems by simp_all
  have "pipe_write ?K fuel h n from cnt 0 (read_turn n likes ?s) = Waits"
    using Suc.IH [OF read_nothing(2,1) [OF t(2,1)] Suc.prems(3,4)] .
  moreover have "\<not> ucast (p_refs fresh_pipe) \<le> p_count fresh_pipe" "cnt \<noteq> 0" using Suc.prems(3) by (auto simp: fresh_pipe_def word_le_nat_alt)
  ultimately show ?case using Suc.prems(2,4) put
    by (simp add: wait_turn_def reader_beside_def word_gt_0)
qed simp

end
