(* ===== verification/PipeProps.thy ===== *)
theory PipeProps
  imports PipeSteps PipeWait
begin

text \<open>
  What pipes and pairs promise: bytes in order and none lost, writes that end, messages kept apart with
  their descriptors, and counts that are right, so that a pipe goes with its last descriptor and a
  reader sees the end when no one can write.
\<close>

text \<open>A machine with one pipe, at place 0.\<close>

definition one_pipe :: "memory \<Rightarrow> reader ipc" where
  "one_pipe m = set_pipe 0 fresh_pipe (no_pipes m \<lparr>got = [], turns = 0\<rparr>)"

lemma fresh_pipe_ok: "pipe_ok fresh_pipe" "queued fresh_pipe = []" "p_packets fresh_pipe = False"
  by (simp_all add: pipe_ok_def queued_def fresh_pipe_def empty_pipe_def)

lemma one_pipe_at: "0 < length (pipes (one_pipe m))" "pipe_at 0 (one_pipe m) = fresh_pipe" "pmem (one_pipe m) = m" "env (one_pipe m) = \<lparr>got = [], turns = 0\<rparr>"
  by (simp_all add: one_pipe_def no_pipes_def)

text \<open>
  C11. A pipe is a queue: whatever is put into it and read from it, in any order and in pieces of any
  size, what was in it and what went in is what came out and what is still in it. (refinement)
\<close>
theorem pipe_is_queue:
  assumes "n < length (pipes s)" "pipe_ok (pipe_at n s)"
  shows "\<exists>ins outs t. pipe_ops K n xs s = Some (ins, outs, t) \<and> pipe_ok (pipe_at n t) \<and>
    queued (pipe_at n s) @ ins = outs @ queued (pipe_at n t)"
  using pipe_ops_queue [OF assms, of K xs] by blast

theorem pipe_is_queue_witness:
  "\<exists>ins outs t. pipe_ops (reader_beside 0 (\<lambda>_. 1) (\<lambda>_. False) (\<lambda>_. True)) 0 [Put 0 5, Get 100 2, Put 7 1] (one_pipe (\<lambda>_. 7)) = Some (ins, outs, t) \<and>
    pipe_ok (pipe_at 0 t) \<and> ins = outs @ queued (pipe_at 0 t)"
  using pipe_is_queue [OF one_pipe_at(1), of "\<lambda>_. 7" "reader_beside 0 (\<lambda>_. 1) (\<lambda>_. False) (\<lambda>_. True)" "[Put 0 5, Get 100 2, Put 7 1]"]
  by (simp only: one_pipe_at(2) fresh_pipe_ok append_Nil simp_thms)

text \<open>
  C12. A write that has to wait for its reader ends, whatever number of bytes, at least one, the reader
  reads at each of its turns, whenever signals come, and however often there is no memory for a larger
  buffer, if there is from some turn \<open>N\<close> on (without, it may never end). What the reader has read with what
  is still queued is then what it was before, followed in order by the bytes the write says it wrote:
  all of them if no signal came, and otherwise the first ones, or none with EINTR. (liveness)
\<close>
theorem write_reaches_reader:
  assumes "n < length (pipes s)" "pipe_ok (pipe_at n s)" "fd_offset h AND 0x800 = 0"
    "fd_size h = PIPE_WRITE \<longrightarrow> p_count (pipe_at n s) < ucast (p_refs (pipe_at n s))" "unat cnt < 2 ^ 63"
    "\<forall>i \<ge> N. room i" "2 * unat cnt + 1 + (N - turns (env s)) < fuel"
  shows "\<exists>r m t. pipe_write (reader_beside n likes hits room) fuel h n from cnt 0 s = Ended r t \<and> m \<le> unat cnt \<and>
    got (env t) @ queued (pipe_at n t) = got (env s) @ queued (pipe_at n s) @ peek (pmem s) from m \<and>
    (r = of_nat m \<and> (0 < m \<or> cnt = 0) \<or> m = 0 \<and> r = ERR EINTR) \<and>
    ((\<forall>i. \<not> hits i) \<longrightarrow> m = unat cnt \<and> r = cnt)"
proof -
  have k: "reader_beside n likes hits (\<lambda>i. N \<le> i \<or> room i) = reader_beside n likes hits room"
    using assms(6) by (intro arg_cong [where f = "reader_beside n likes hits"] ext) auto
  have rd: "beside.ready n s" using assms(1,2) by (simp add: beside.ready_def)
  have "of_bool (length (queued (pipe_at n s)) = 65536) \<le> (1 :: nat)" by simp
  then have fu: "2 * (unat cnt - unat 0) + of_bool (length (queued (pipe_at n s)) = 65536) + (N - turns (env s)) < fuel" using assms(7) by simp
  have z: "unat (0 :: u64) \<le> unat cnt" by simp
  obtain r t where t: "pipe_write (reader_beside n likes hits room) fuel h n from cnt 0 s = Ended r t"
    "unat r \<le> unat cnt \<or> r = ERR EINTR" "(\<forall>k. \<not> fst (pk_check (reader_beside n likes hits room) k)) \<longrightarrow> r = cnt"
    using beside.write_ends [OF rd assms(3,4) z fu, of likes hits room "from", unfolded k] by blast
  have quiet: "r = cnt" if "\<forall>i. \<not> hits i" using t(3) that by (simp add: reader_beside_def)
  have big: "\<not> unat (ERR e) \<le> unat cnt" if "e \<in> {EPIPE, EAGAIN, EINTR}" for e using that assms(5) by (auto simp: ERR_def)
  have ne: "ERR EINTR \<noteq> ERR EPIPE" "ERR EINTR \<noteq> ERR EAGAIN" by (simp_all add: ERR_def)
  have "beside.write_result n from cnt s (pipe_write (reader_beside n likes hits room) fuel h n from cnt 0 s)"
    by (rule beside.write_in_order [OF rd, where likes = likes and hits = hits and room = room and N = N, unfolded k])
  then have "beside.write_result n from cnt s (Ended r t)" unfolding t(1) .
  then obtain m where m: "m \<le> unat cnt" "got (env t) @ queued (pipe_at n t) = got (env s) @ queued (pipe_at n s) @ peek (pmem s) from m"
    "r = of_nat m \<and> (0 < m \<or> cnt = 0) \<or> m = 0 \<and> r \<in> {ERR EPIPE, ERR EAGAIN, ERR EINTR}"
    unfolding beside.write_result_def beside.history_def outcome.case append.assoc by blast
  have "r \<noteq> ERR EPIPE" "r \<noteq> ERR EAGAIN" using t(2) big ne by (metis insertI1 insertI2)+
  then have r: "r = of_nat m \<and> (0 < m \<or> cnt = 0) \<or> m = 0 \<and> r = ERR EINTR" using m(3) by blast
  have "unat (of_nat m :: u64) = m" using m(1) assms(5) by (simp add: unsigned_of_nat take_bit_nat_eq_self)
  moreover have "\<not> unat (ERR EINTR) \<le> unat cnt" using big by (metis insertI1 insertI2)
  ultimately have "m = unat cnt \<and> r = cnt" if "\<forall>i. \<not> hits i" using r quiet [OF that] by (metis le_refl)
  then show ?thesis using t(1) m(1,2) r by blast
qed

definition write_end :: handle where
  "write_end = (pipe_handle 1 PIPE_WRITE 0)\<lparr>fd_used := 1\<rparr>"

theorem write_reaches_reader_witness:
  "\<exists>t. pipe_write (reader_beside 0 (\<lambda>i. of_nat i) (\<lambda>_. False) (\<lambda>i. 3 \<le> i)) 200005 write_end 0 0 100000 0 (one_pipe (\<lambda>a. ucast a)) = Ended 100000 t \<and>
    got (env t) @ queued (pipe_at 0 t) = peek (\<lambda>a. ucast a) 0 100000"
proof -
  have "fd_offset write_end AND 0x800 = 0" "p_count fresh_pipe < ucast (p_refs fresh_pipe)"
    by (simp_all add: write_end_def pipe_handle_def fresh_pipe_def)
  then show ?thesis
    using write_reaches_reader [OF one_pipe_at(1), of "\<lambda>a. ucast a" write_end 100000 3 "\<lambda>i. 3 \<le> i" 200005 "\<lambda>i. of_nat i" "\<lambda>_. False" 0]
    by (auto simp: one_pipe_at fresh_pipe_ok)
qed

text \<open>
  C22. A message is sent whole: on a packet pair with room, a write of any pieces (iovecs) that fit adds one
  message to the end of the queue, its bytes those of the pieces in order, with its descriptors and its
  sender, and answers its length, or ENOBUFS with the queue as it was when there is no memory to list
  it; the messages before it and every other pipe are as they were. For its bytes there is memory, or
  the buffer holds them as it is: otherwise the code lists a message with bytes missing, as
  \<open>message_without_bytes\<close> below shows. (refinement)
\<close>
theorem message_sent:
  assumes "n < length (pipes s)" "packet_ok (pipe_at n s)" "memory_for K (length (queued (pipe_at n s)) + length bs) (pipe_at n s)"
    "0 < fuel" "length fds \<le> PAIR_FDS"
    "\<forall>i < unat cnt. pk_range K (fst (iov_at iov (pmem s) i)) (snd (iov_at iov (pmem s) i)) (env s)"
    "bs = iov_bytes iov (pmem s) [0..<unat cnt]" "length (queued (pipe_at n s)) + length bs \<le> 65536"
  shows "\<exists>r t. pair_put K fuel h n iov cnt fds now s = Ended r t \<and> only_pipe n s t \<and> packet_ok (pipe_at n t) \<and>
    (r = of_nat (length bs) \<and> packets (pipe_at n t) = packets (pipe_at n s) @ [(bs, fds, pk_pid K (env s))] \<or>
     r = ERR ENOBUFS \<and> packets (pipe_at n t) = packets (pipe_at n s) \<and> (\<exists>w k. \<not> fst (pk_alloc K w k)))"
  by (rule packet_put [OF assms, where h = h and now = now]) blast+

definition packet_pipe :: "u8 list \<Rightarrow> pmsg list \<Rightarrow> reader ipc" where
  "packet_pipe bs ms =
    set_pipe 0 (fresh_pipe\<lparr>p_packets := True, p_data := bs @ replicate (8192 - length bs) 0, p_len := of_nat (length bs), p_msgs := ms\<rparr>)
      (no_pipes (\<lambda>_. 7) \<lparr>got = [], turns = 0\<rparr>)"

lemma packet_pipe_at:
  "0 < length (pipes (packet_pipe bs ms))" "pmem (packet_pipe bs ms) = (\<lambda>_. 7)"
  "pipe_at 0 (packet_pipe bs ms) = fresh_pipe\<lparr>p_packets := True, p_data := bs @ replicate (8192 - length bs) 0, p_len := of_nat (length bs), p_msgs := ms\<rparr>"
  by (simp_all add: packet_pipe_def no_pipes_def)

theorem message_sent_witness:
  "\<exists>t. pair_put (reader_beside 0 (\<lambda>_. 1) (\<lambda>_. False) (\<lambda>_. True)) 1 write_end 0 (One 0 3) 1 [write_end] False (packet_pipe [] []) = Ended 3 t \<and>
    packets (pipe_at 0 t) = [([7, 7, 7], [write_end], 1)]"
proof -
  have "packet_ok (pipe_at 0 (packet_pipe [] []))" "packets (pipe_at 0 (packet_pipe [] [])) = []"
    "length (queued (pipe_at 0 (packet_pipe [] []))) = 0"
    by (simp_all add: packet_pipe_at packet_ok_def pipe_ok_def queued_def packets_def fresh_pipe_def empty_pipe_def)
  moreover have "[7, 7, 7] = iov_bytes (One 0 3) (pmem (packet_pipe [] [])) [0..<unat 1]" by (simp add: packet_pipe_at peek_def upt_rec)
  moreover have "memory_for (reader_beside 0 (\<lambda>_. 1) (\<lambda>_. False) (\<lambda>_. True)) w p" for w p by (simp add: memory_for_def reader_beside_def)
  ultimately show ?thesis
    using message_sent [OF packet_pipe_at(1), of "[]" "[]" "reader_beside 0 (\<lambda>_. 1) (\<lambda>_. False) (\<lambda>_. True)" "[7, 7, 7]" 1 "[write_end]" 1 "One 0 3" write_end False]
    by (auto simp: reader_beside_def)
qed

text \<open>
  Without memory for a larger buffer, a message is listed and answered with its length though none of its
  bytes went in.
\<close>

lemma message_without_bytes:
  assumes "n < length (pipes s)" "pipe_at n s = fresh_pipe\<lparr>p_packets := True, p_room := 4\<rparr>" "8192 < unat cnt" "unat cnt \<le> 65536"
    "pk_range K a cnt (env s)" "\<And>w. pk_alloc K w (env s) = (False, env s)"
  shows "\<exists>t. pair_put K (Suc fuel) h n (One a cnt) 1 [] now s = Ended cnt t \<and> map m_len (p_msgs (pipe_at n t)) = [ucast cnt] \<and>
    queued (pipe_at n t) = []"
proof -
  let ?f = "fresh_pipe\<lparr>p_packets := True, p_room := 4\<rparr>"
  define p where "p = fresh_pipe\<lparr>p_packets := True, p_last := pk_pid K (env s),
    p_msgs := [\<lparr>m_at = 0, m_len = ucast cnt, m_pid = pk_pid K (env s), m_fds = []\<rparr>], p_room := 4\<rparr>"
  have f: "p_len ?f = 0" "p_read ?f = 0" "p_wrote ?f = 0" "p_size ?f = 8192" "p_room ?f = 4" by (simp_all add: fresh_pipe_def empty_pipe_def)
  have push: "pmsg_push K n 0 (ucast cnt) [] s = Some (True, set_pipe n p s)"
    using f by (simp add: pmsg_push_def assms(2) p_def Let_def)
  have p: "p_len p = 0" "p_read p = 0" "p_size p = 8192" by (simp_all add: p_def fresh_pipe_def empty_pipe_def)
  have c: "\<not> 65536 < cnt" "\<not> cnt \<le> 8192" using assms(3,4) by (simp_all add: word_le_nat_alt word_less_nat_alt)
  obtain v where "wanted 33 cnt 8192 = Some v" using wanted_ok [of 8192 cnt] assms(4) by auto
  then have "grow_pipe K cnt p (env s) = Some (None, env s)" using c(2) p(3) by (simp add: grow_pipe_def assms(6))
  moreover have "compact p = Some p" using p(2) by (simp add: compact_def)
  ultimately have "pipe_put K n a cnt (set_pipe n p s) = Some (0, set_pipe n p (set_pipe n p s))"
    using assms(1) c p(1) by (simp add: pipe_put_def) (simp add: set_pipe_def)
  then have each: "put_each K n (One a cnt) [0..<unat (1 :: u64)] (set_pipe n p s) = Some (set_pipe n p (set_pipe n p s))"
    by (simp add: upt_rec)
  have "iov_total K (iov_at (One a cnt) (pmem s)) [0..<unat (1 :: u64)] 0 (env s) = Some cnt" using assms(5) by (simp add: upt_rec)
  then have "pair_put K (Suc fuel) h n (One a cnt) 1 [] now s = Ended cnt (set_pipe n p (set_pipe n p s))"
    using push each f c(1) by (simp add: pair_put_def assms(2))
  moreover have "queued p = []" by (simp add: queued_def p)
  ultimately show ?thesis using assms(1) by (simp add: p_def)
qed

text \<open>
  C23. A message is received whole: a read of a packet pair that has something to read takes the first message
  of the queue, whatever follows it. As much of it as the pieces (iovecs, any number, none over the array
  that lists them) have room for arrives in them, each filled before the next; the rest is dropped, and
  the read says so. Its descriptors come with it, if it has any and they are asked for, and the messages
  after it and every other pipe wait as they were. A message of no bytes at the front of an empty
  buffer is read only once no one can write any more. (refinement)
\<close>
theorem message_received:
  assumes "packet_ok (pipe_at n s)" "packets (pipe_at n s) = (bs, hs, pid) # rest" "queued (pipe_at n s) \<noteq> [] \<or> p_count (pipe_at n s) = 0"
    "asked \<or> hs = []" "\<forall>i < unat cnt. pk_range K (fst (iov_at iov (pmem s) i)) (snd (iov_at iov (pmem s) i)) (env s)"
    "iovs_apart iov (unat cnt) (pmem s)" "ps = map (iov_at iov (pmem s)) [0..<unat cnt]" "room = (\<Sum>p \<leftarrow> ps. unat (snd p))" "room < 2 ^ 64"
    "0 < fuel" "pipe_of h s = Some n" "fd_size h = PIPE_PAIR"
  shows "\<exists>t. pair_take K fuel h n iov cnt asked short s =
      Ended (of_nat (min room (length bs)), if asked then hs else [], short \<noteq> None \<and> room < length bs) t \<and>
    pmem t = scatter ps bs (pmem s) \<and> packet_ok (pipe_at n t) \<and> packets (pipe_at n t) = rest \<and> pair_sender t = pid \<and>
    (\<forall>m. m \<noteq> n \<longrightarrow> pipe_at m t = pipe_at m s)"
proof -
  have r: "room = length (iov_bytes iov (pmem s) [0..<unat cnt])" using assms(7,8) by (simp add: iov_bytes_length comp_def)
  have e: "min room (length bs) < length bs \<longleftrightarrow> room < length bs" by (auto simp: min_def)
  show ?thesis
    by (rule packet_take [OF assms(1-6) assms(9) [unfolded r] assms(10-12) refl, where short = short])
      (unfold r [symmetric] assms(7) [symmetric] e, blast)
qed

theorem message_received_witness:
  "\<exists>t. pair_take (reader_beside 0 (\<lambda>_. 1) (\<lambda>_. False) (\<lambda>_. True)) 1 (pipe_handle 1 PIPE_PAIR 0) 0 (One 50 2) 1 True (Some False)
      (packet_pipe [1, 2, 3, 4] [\<lparr>m_at = 0, m_len = 3, m_pid = 9, m_fds = [write_end]\<rparr>, \<lparr>m_at = 3, m_len = 1, m_pid = 8, m_fds = []\<rparr>]) =
      Ended (2, [write_end], True) t \<and> pmem t = poke (\<lambda>_. 7) 50 [1, 2] \<and> packets (pipe_at 0 t) = [([4], [], 8)]"
proof -
  let ?s = "packet_pipe [1, 2, 3, 4] [\<lparr>m_at = 0, m_len = 3, m_pid = 9, m_fds = [write_end]\<rparr>, \<lparr>m_at = 3, m_len = 1, m_pid = 8, m_fds = []\<rparr>]"
  have "queued (pipe_at 0 ?s) = [1, 2, 3, 4]" by (simp add: packet_pipe_at queued_def fresh_pipe_def empty_pipe_def)
  moreover have "packet_ok (pipe_at 0 ?s)" unfolding packet_ok_def calculation
    by (simp add: packet_pipe_at pipe_ok_def fresh_pipe_def empty_pipe_def)
  moreover have "packets (pipe_at 0 ?s) = [([1, 2, 3], [write_end], 9), ([4], [], 8)]" unfolding packets_def calculation(1)
    by (simp add: packet_pipe_at)
  moreover have "pipe_of (pipe_handle 1 PIPE_PAIR 0) ?s = Some 0"
    by (simp add: pipe_of_def in_use_def pipe_handle_def packet_pipe_at)
  ultimately show ?thesis
    using message_received [of 0 ?s "[1, 2, 3]" "[write_end]" 9 "[([4], [], 8)]" True 1 "reader_beside 0 (\<lambda>_. 1) (\<lambda>_. False) (\<lambda>_. True)" "One 50 2"
        "[(50, 2)]" 2 1 "pipe_handle 1 PIPE_PAIR 0" "Some False"]
    by (auto simp: packet_pipe_at(2) pipe_handle_def reader_beside_def iovs_apart_def upt_rec)
qed

text \<open>Before the calls there is no pipe; after one, two descriptors.\<close>

lemma reached_counted: "(pipe_step K)\<^sup>*\<^sup>* ({}, {#}, {#}, no_pipes m k) (E, M, L, s) \<Longrightarrow> refs_ok E (M + L) s"
  by (drule pipe_steps_counted) (simp_all add: step_ok_def no_pipes_ok)

definition read_end :: handle where
  "read_end = pipe_handle 1 PIPE_READ 0"

definition fresh_write_end :: handle where
  "fresh_write_end = read_end\<lparr>fd_size := PIPE_WRITE\<rparr>"

text \<open>A table of descriptors that takes any.\<close>

definition giving :: "reader pipe_kernel" where
  "giving = (reader_beside 0 (\<lambda>_. 1) (\<lambda>_. False) (\<lambda>_. True))\<lparr>pk_give := (\<lambda>h k. (3, k))\<rparr>"

lemma first_slot: "pipe_slot (no_pipes m k) = 0"
proof -
  have "pipes (no_pipes m k) = empty_pipe # replicate 255 empty_pipe"
    using replicate_Suc [of 255 empty_pipe] by (simp add: no_pipes_def)
  then show ?thesis by (simp add: pipe_slot_def)
qed

lemma one_pipe_reached:
  "\<exists>s m'. (pipe_step giving)\<^sup>*\<^sup>* ({}, {#}, {#}, no_pipes m \<lparr>got = [], turns = 0\<rparr>) ({}, {#read_end, fresh_write_end#}, {#}, s) \<and> s = (one_pipe m)\<lparr>pmem := m'\<rparr>"
proof -
  let ?s = "no_pipes m \<lparr>got = [], turns = 0\<rparr>"
  have "new_end giving ?s = (Some 0, one_pipe m)"
    by (simp add: new_end_def first_slot giving_def reader_beside_def one_pipe_def Let_def)
  then obtain m' where "sys_pipe2 giving 0 0 ?s = (0, (one_pipe m)\<lparr>pmem := m'\<rparr>)"
    by (auto simp: sys_pipe2_def giving_def reader_beside_def give_pipe_def with_cloexec_def Let_def)
  then have "pipe_step giving ({}, {#}, {#}, ?s) ({} - made_in (pipe_ends 0 ?s), {#} + pipe_ends 0 ?s, {#}, (one_pipe m)\<lparr>pmem := m'\<rparr>)"
    by (rule pipe_step.make_pipe) simp
  moreover have "pipe_ends 0 ?s = {#read_end, fresh_write_end#}"
    by (simp add: pipe_ends_def first_slot read_end_def fresh_write_end_def Let_def)
  ultimately have "pipe_step giving ({}, {#}, {#}, ?s) ({}, {#read_end, fresh_write_end#}, {#}, (one_pipe m)\<lparr>pmem := m'\<rparr>)" by simp
  then show ?thesis by blast
qed

text \<open>
  C4. The counts of the pipes: after any sequence of steps of any programs (making pipes, pairs and eventfds, with
  every error that can end with, duplicating and closing descriptors, putting and getting bytes, listing
  messages and receiving them with their descriptors), the references of a pipe are the descriptors on
  it and its writers those that can write to it, in the tables and in messages on their way, with those
  that half-made pairs left behind (\<open>L\<close>, which no program has); so a pipe is in use exactly while one of
  these names it, and no descriptor names a pipe that is gone. A sendmsg that fails after its message
  was listed is not among the steps: \<open>failed_send_keeps_message\<close> below shows it leaves the descriptors in
  two places. (invariant)
\<close>
theorem pipes_counted:
  assumes "(pipe_step K)\<^sup>*\<^sup>* ({}, {#}, {#}, no_pipes m k) (E, M, L, s)" "n < PIPES"
  shows "unat (p_refs (pipe_at n s)) = count (\<Sum>\<^sub># (image_mset refs_of (M + L + under_way s))) n \<and>
    (p_refs (pipe_at n s) \<noteq> 0 \<and> n \<notin> E \<longrightarrow> unat (p_count (pipe_at n s)) = count (\<Sum>\<^sub># (image_mset writes_of (M + L + under_way s))) n) \<and>
    (p_refs (pipe_at n s) = 0 \<longleftrightarrow> (\<forall>h \<in># M + L + under_way s. n \<notin># refs_of h))"
proof -
  note c = counted_byD [OF reached_counted [OF assms(1), unfolded refs_ok_def] assms(2)]
  have "p_refs (pipe_at n s) = 0 \<longleftrightarrow> n \<notin># \<Sum>\<^sub># (image_mset refs_of (M + L + under_way s))"
    unfolding unat_eq_zero [symmetric] c(1) by (rule count_eq_zero_iff)
  then show ?thesis using c(1,2) by (auto simp: set_mset_Union_mset)
qed

theorem pipes_counted_witness:
  "p_refs (pipe_at 0 (one_pipe (\<lambda>_. 0))) \<noteq> 0 \<and> unat (p_count (pipe_at 0 (one_pipe (\<lambda>_. 0)))) =
    count (\<Sum>\<^sub># (image_mset writes_of ({#read_end, fresh_write_end#} + under_way (one_pipe (\<lambda>_. 0))))) 0"
proof -
  obtain s m' where s: "(pipe_step giving)\<^sup>*\<^sup>* ({}, {#}, {#}, no_pipes (\<lambda>_. 0) \<lparr>got = [], turns = 0\<rparr>) ({}, {#read_end, fresh_write_end#}, {#}, s)"
    "s = (one_pipe (\<lambda>_. 0))\<lparr>pmem := m'\<rparr>" using one_pipe_reached by blast
  have "pipe_at 0 s = pipe_at 0 (one_pipe (\<lambda>_. 0))" "under_way s = under_way (one_pipe (\<lambda>_. 0))" using s(2) by (simp_all add: pipe_at_def)
  then show ?thesis using pipes_counted [OF s(1), where n = 0] one_pipe_at(2) [of "\<lambda>_. 0"] by simp
qed

text \<open>
  Why a sendmsg that fails late is left out: on a full pair that does not wait, it answers EAGAIN with its
  message listed, and its caller then lets go of the descriptors the message holds.
\<close>

lemma failed_send_keeps_message:
  assumes "n < length (pipes s)" "pipe_ok (pipe_at n s)" "length (queued (pipe_at n s)) = 65536" "\<not> p_packets (pipe_at n s)" "fds \<noteq> []"
    "length fds \<le> PAIR_FDS" "of_nat (length (p_msgs (pipe_at n s))) \<noteq> p_room (pipe_at n s)" "pk_range K a len (env s)" "len \<noteq> 0"
    "fd_size h = PIPE_PAIR" "fd_offset h AND 0x800 \<noteq> 0"
  shows "\<exists>t. pair_put K (Suc fuel) h n (One a len) 1 fds now s = Ended (ERR EAGAIN) t \<and> m_fds (last (p_msgs (pipe_at n t))) = fds"
proof -
  let ?p = "pipe_at n s"
  define m where "m = \<lparr>m_at = p_wrote ?p, m_len = 0, m_pid = pk_pid K (env s), m_fds = fds\<rparr>"
  define q where "q = ?p\<lparr>p_last := pk_pid K (env s), p_msgs := p_msgs ?p @ [m]\<rparr>"
  have "q = ?p\<lparr>p_last := pk_pid K (env s), p_msgs := p_msgs ?p @ [m], p_room := p_room ?p\<rparr>" by (simp add: q_def)
  then have push: "pmsg_push K n (p_wrote ?p) 0 fds s = Some (True, set_pipe n q s)"
    using assms(6,7) by (simp add: pmsg_push_def Let_def m_def)
  let ?s = "set_pipe n q s"
  have q: "q\<lparr>p_last := pk_pid K (env s)\<rparr> = q" "queued q = queued ?p" "pipe_ok q" "p_packets q = p_packets ?p"
    using assms(2) by (simp_all add: q_def) (simp_all add: queued_def pipe_ok_def)
  have s: "set_pipe n ((pipe_at n ?s)\<lparr>p_last := pk_pid K (env ?s)\<rparr>) ?s = ?s" using assms(1) q(1) by simp (simp add: set_pipe_def)
  obtain c p k where put: "pipe_put K n a len ?s = Some (c, set_pipe n p (?s\<lparr>env := k\<rparr>))" "frame p = frame q"
    "unat c = min (unat len) (65536 - length (queued q)) \<or> c = 0"
  proof (rule pipe_put_ok [of n ?s K a len])
    show "n < length (pipes ?s)" "pipe_ok (pipe_at n ?s)" using assms(1) q(3) by simp_all
  qed (use assms(1) in auto)
  then have c: "c = 0" using q(2) assms(3) by (auto simp: unat_eq_zero)
  have "pipe_write K (Suc fuel) h n a len 0 ?s = Ended (ERR EAGAIN) (set_pipe n p (?s\<lparr>env := k\<rparr>))"
    using put(1) c assms(9-11) by (simp add: wait_turn_def word_gt_0)
  moreover have "sint (ERR EAGAIN) < 0" by (simp add: ERR_def)
  ultimately have "write_each K (Suc fuel) h n (One a len) [0..<unat (1 :: u64)] 0 ?s = Ended (ERR EAGAIN) (set_pipe n p (?s\<lparr>env := k\<rparr>))"
    using assms(9) by (simp add: upt_rec del: pipe_write.simps)
  moreover have "iov_total K (iov_at (One a len) (pmem s)) [0..<unat (1 :: u64)] 0 (env s) = Some len" using assms(8) by (simp add: upt_rec)
  ultimately have "pair_put K (Suc fuel) h n (One a len) 1 fds now s = Ended (ERR EAGAIN) (set_pipe n p (?s\<lparr>env := k\<rparr>))"
    using assms(4,5) push s by (simp add: pair_put_def del: upt_Suc write_each.simps iov_total.simps unat_1 pipe_write.simps)
  then show ?thesis using assms(1) frameD(4) [OF put(2)] by (simp add: q_def m_def)
qed

text \<open>
  The end of what can be read: after any such calls, a read end with nothing queued is readable, with end of
  file as the answer, exactly when no descriptor left could write to its pipe.
\<close>

lemma read_end_of_file:
  assumes "(pipe_step K)\<^sup>*\<^sup>* ({}, {#}, {#}, no_pipes m k) (E, M, L, s)" "h \<in># M" "fd_size h \<in> {PIPE_READ, PIPE_PAIR}" "pipe_of h s = Some n"
    "n \<notin> E" "p_read (pipe_at n s) = p_len (pipe_at n s)"
  shows "readable h s \<longleftrightarrow> (\<forall>w \<in># M + L + under_way s. n \<notin># writes_of w)"
  by (rule end_of_file [OF reached_counted [OF assms(1)] _ assms(3-6)]) (use assms(2) in simp)

end
