(* ===== verification/PipeFiles.thy ===== *)
theory PipeFiles
  imports PipeSteps
begin

text \<open>
  Pipes that have a name (\<open>fifo_open\<close>) and the texts of \<open>/proc\<close>, which are pipes filled when they are opened
  (\<open>proc_net_open\<close>, the first part of \<open>sys_lseek\<close>, in \<open>src/kernel/syscall.c\<close>). What a text says is the
  parameter \<open>say\<close>: its bytes, cut to the room there is, and its whole length.
\<close>

section \<open>FIFOs\<close>

primrec fifo_from :: "nat \<Rightarrow> u32 \<Rightarrow> pipe list \<Rightarrow> nat" where
  "fifo_from i file [] = i"
| "fifo_from i file (p # ps) = (if 0 < p_refs p \<and> p_fifo p = file then i else fifo_from (i + 1) file ps)"

definition fifo_pipe :: "'k pipe_kernel \<Rightarrow> u32 \<Rightarrow> 'k ipc \<Rightarrow> nat option \<times> 'k ipc" where
  "fifo_pipe K file s =
    (let there = fifo_from 0 file (pipes s);
         slot = pipe_slot s
     in if there < PIPES then (Some there, s)
        else if slot = PIPES then (None, s)
        else let (got, k) = pk_alloc K (ucast PIPE_FIRST) (env s)
             in if got
                then (Some slot, set_pipe slot (empty_pipe\<lparr>p_data := replicate 8192 0, p_size := PIPE_FIRST, p_fifo := file\<rparr>) (s\<lparr>env := k\<rparr>))
                else (None, s\<lparr>env := k\<rparr>))"

definition fifo_open :: "'k pipe_kernel \<Rightarrow> u32 \<Rightarrow> u64 \<Rightarrow> 'k ipc \<Rightarrow> u64 \<times> 'k ipc" where
  "fifo_open K file flags s =
    (let mode = flags AND 3
     in case fifo_pipe K file s of
       (None, s1) \<Rightarrow> (ERR ENFILE, s1)
     | (Some slot, s1) \<Rightarrow>
         let h = pipe_handle (of_nat slot + 1) (if mode = 0 then PIPE_READ else if mode = 1 then PIPE_WRITE else PIPE_PAIR)
                   ((ucast flags AND O_NONBLOCK) OR (if mode = 2 then push_bit 16 (of_nat slot + 1) else 0));
             p = pipe_at slot s1;
             s2 = set_pipe slot (p\<lparr>p_refs := p_refs p + (if mode = 2 then 2 else 1), p_count := p_count p + of_bool (mode \<noteq> 0)\<rparr>) s1;
             (fd, s3) = give_pipe K h s2
         in if sint fd < 0 then (fd, pipe_release K h s3) else (fd, s3))"

lemma fifo_from_first:
  "n < length ps \<Longrightarrow> 0 < p_refs (ps ! n) \<Longrightarrow> p_fifo (ps ! n) = file \<Longrightarrow>
   \<forall>m < n. 0 < p_refs (ps ! m) \<longrightarrow> p_fifo (ps ! m) \<noteq> file \<Longrightarrow> fifo_from i file ps = i + n"
proof (induction ps arbitrary: i n)
  case (Cons p ps)
  show ?case
  proof (cases n)
    case 0
    then show ?thesis using Cons.prems by simp
  next
    case (Suc k)
    have "\<not> (0 < p_refs p \<and> p_fifo p = file)" using Cons.prems(4) Suc by auto
    moreover have "\<forall>m < k. 0 < p_refs (ps ! m) \<longrightarrow> p_fifo (ps ! m) \<noteq> file" using Cons.prems(4) Suc by auto
    ultimately show ?thesis using Cons.IH [of k "i + 1"] Cons.prems(1-3) Suc by auto
  qed
qed simp

text \<open>While a FIFO is open, whoever opens it again gets the same pipe, and nothing is allocated.\<close>

lemma fifo_found:
  assumes "n < 256" "length (pipes s) = 256" "0 < p_refs (pipe_at n s)" "p_fifo (pipe_at n s) = file"
    "\<forall>m < 256. m \<noteq> n \<longrightarrow> 0 < p_refs (pipe_at m s) \<longrightarrow> p_fifo (pipe_at m s) \<noteq> file"
  shows "fifo_pipe K file s = (Some n, s)"
proof -
  have "fifo_from 0 file (pipes s) = 0 + n" using assms by (intro fifo_from_first) (auto simp: pipe_at_def)
  then show ?thesis using assms(1) by (simp add: fifo_pipe_def)
qed

section \<open>Texts\<close>

abbreviation (input) PIPE_TEXT :: nat where "PIPE_TEXT \<equiv> 8192"

text \<open>
  \<open>net->proc\<close> and \<open>proc_linux\<close> write at most the room given and answer the length of the whole text;
  \<open>None\<close> if there is none of that name, which is \<open>(size_t)-1\<close>. \<open>filled\<close> is the buffer after.
\<close>

definition filled :: "u8 list option \<Rightarrow> u8 list \<Rightarrow> u8 list" where
  "filled t old = (case t of None \<Rightarrow> old | Some bs \<Rightarrow> take PIPE_TEXT bs @ drop (length (take PIPE_TEXT bs)) old)"

definition text_length :: "u8 list option \<Rightarrow> u32" where
  "text_length t = (case t of None \<Rightarrow> of_nat PIPE_TEXT | Some bs \<Rightarrow> of_nat (min (length bs) PIPE_TEXT))"

definition proc_net_open :: "'k pipe_kernel \<Rightarrow> (u8 list \<Rightarrow> 'k \<Rightarrow> u8 list option) \<Rightarrow> u8 list \<Rightarrow> 'k ipc \<Rightarrow> u64 \<times> 'k ipc" where
  "proc_net_open K say name s =
    (let slot = pipe_slot s;
         (got, k) = (if slot = PIPES then (False, env s) else pk_alloc K (of_nat PIPE_TEXT) (env s));
         s1 = s\<lparr>env := k\<rparr>
     in if \<not> got then (ERR ENFILE, s1)
        else let t = say name k;
                 (fd, s2) = give_pipe K (pipe_handle (of_nat slot + 1) PIPE_FILE 0) s1
             in if sint fd < 0 then (fd, s2\<lparr>env := pk_free K (env s2)\<rparr>)
                else let (room, k1) = pk_alloc K (of_nat (length name + 1)) (env s2);
                         p = empty_pipe\<lparr>p_data := filled t (replicate PIPE_TEXT 0), p_size := of_nat PIPE_TEXT, p_refs := 1,
                               p_len := text_length t, p_made := (if room then name else [])\<rparr>
                     in (fd, set_pipe slot p (s2\<lparr>env := k1\<rparr>)))"

text \<open>\<open>sys_lseek\<close> on such a text, \<open>whence\<close> being at most 2: back at its start it is made again.\<close>

definition seek_text :: "(u8 list \<Rightarrow> 'k \<Rightarrow> u8 list option) \<Rightarrow> nat \<Rightarrow> u64 \<Rightarrow> u64 \<Rightarrow> 'k ipc \<Rightarrow> u64 \<times> 'k ipc" where
  "seek_text say n offset whence s =
    (let p = pipe_at n s;
         at0 = (if whence = 0 then 0 else if whence = 1 then ucast (p_read p) else ucast (p_len p));
         at1 = at0 + offset
     in if sint at1 < 0 then (ERR EINVAL, s)
        else let t = say (p_made p) (env s);
                 p1 = (if at1 = 0 then p\<lparr>p_data := filled t (p_data p), p_len := text_length t\<rparr> else p)
             in (at1, set_pipe n (p1\<lparr>p_read := (if sint at1 < sint (ucast (p_len p1) :: u64) then ucast at1 else p_len p1)\<rparr>) s))"

text \<open>A text that fits, gone back to its start, is all there to be read, as it is now.\<close>

lemma seek_text_start:
  assumes "n < length (pipes s)" "length (p_data (pipe_at n s)) = PIPE_TEXT" "p_size (pipe_at n s) = 8192" "say (p_made (pipe_at n s)) (env s) = Some bs"
    "length bs \<le> PIPE_TEXT"
  shows "\<exists>t. seek_text say n 0 0 s = (0, t) \<and> pipe_ok (pipe_at n t) \<and> queued (pipe_at n t) = bs"
proof -
  have l: "unat (of_nat (min (length bs) 8192) :: u32) = length bs" "min (length bs) 8192 = length bs" using assms(5) by (simp_all add: unsigned_of_nat take_bit_nat_eq_self)
  let ?p = "(pipe_at n s)\<lparr>p_data := bs @ drop (length bs) (p_data (pipe_at n s)), p_len := of_nat (length bs), p_read := 0\<rparr>"
  have z: "0 < sint (ucast x :: u64) \<or> x = 0" for x :: u32
  proof -
    have "uint x < 2 ^ 63" using unsigned_less [of x, where ?'a = int] by simp
    then have "signed_take_bit 63 (uint x) = uint x"
      by (intro signed_take_bit_int_eq_self) (rule order.trans [OF _ unsigned_greater_eq], simp_all)
    then have "sint (ucast x :: u64) = uint x" by (simp add: signed_ucast_eq)
    moreover have "0 < uint x \<or> x = 0" by (metis order.not_eq_order_implies_strict unsigned_greater_eq unsigned_eq_0_iff)
    ultimately show ?thesis by auto
  qed
  have "seek_text say n 0 0 s = (0, set_pipe n ?p s)"
    using assms(4,5) l(2) z [of "of_nat (length bs)"] by (auto simp: seek_text_def filled_def text_length_def Let_def)
  moreover have "pipe_ok ?p" "queued ?p = bs" using l assms(2,3,5) by (simp_all add: pipe_ok_def queued_def)
  ultimately show ?thesis using assms(1) by auto
qed

end
