(* ===== verification/Unix.thy ===== *)
theory Unix
  imports PipeCalls
begin

text \<open>
  AF_UNIX stream sockets (\<open>src/modules/ipc/unix.c\<close>): sockets not yet connected, the names they are
  bound to, and the ends of connections waiting for \<open>accept\<close>. What the kernel does for the module is
  the record \<open>services\<close>; a name is the bytes of its C string. \<open>Fault\<close> is an access outside an array or
  a socket that is gone, \<open>Waits\<close> a call still waiting or, in \<open>sendmsg\<close>, still in its loop.
\<close>

section \<open>Data\<close>

abbreviation (input) SOCKETS :: nat where "SOCKETS \<equiv> 8"
abbreviation (input) BACKLOG :: u32 where "BACKLOG \<equiv> 8"
abbreviation (input) PATH :: nat where "PATH \<equiv> 108"
abbreviation (input) SOCK_UNIX :: u32 where "SOCK_UNIX \<equiv> 0x40000000"
abbreviation (input) AF_NETLINK :: u64 where "AF_NETLINK \<equiv> 16"
abbreviation (input) AT :: u8 where "AT \<equiv> 0x40"

record sock =
  k_refs :: u32
  k_listening :: bool
  k_uevent :: bool
  k_name :: "u8 list"
  k_queue :: "handle list"
  k_queued :: u32

record 'k unix =
  socks :: "sock option list"
  prog :: memory
  host :: 'k

record 'k services =
  sv_handle :: "u64 \<Rightarrow> 'k \<Rightarrow> handle option"
  sv_put :: "u64 \<Rightarrow> handle \<Rightarrow> 'k \<Rightarrow> 'k"
  sv_range :: "u64 \<Rightarrow> u64 \<Rightarrow> 'k \<Rightarrow> bool"
  sv_give :: "handle \<Rightarrow> 'k \<Rightarrow> u64 \<times> 'k"
  sv_cloexec :: "u64 \<Rightarrow> 'k \<Rightarrow> 'k"
  sv_alloc :: "'k \<Rightarrow> bool \<times> 'k"
  sv_free :: "'k \<Rightarrow> 'k"
  sv_check :: "'k \<Rightarrow> bool \<times> 'k"
  sv_yield :: "'k unix \<Rightarrow> 'k unix"
  sv_close :: "handle \<Rightarrow> 'k \<Rightarrow> 'k"
  sv_pair :: "u32 \<Rightarrow> 'k \<Rightarrow> (handle \<times> handle) option \<times> 'k"
  sv_stat :: "u8 list \<Rightarrow> 'k \<Rightarrow> bool \<times> 'k"
  sv_write :: "u8 list \<Rightarrow> 'k \<Rightarrow> bool \<times> 'k"
  sv_args :: "nat \<Rightarrow> 'k \<Rightarrow> u64"
  sv_thread :: "'k \<Rightarrow> u32"
  sv_share :: "u64 \<Rightarrow> 'k \<Rightarrow> handle option \<times> 'k"
  sv_send :: "u64 \<Rightarrow> u64 \<Rightarrow> u64 \<Rightarrow> handle list \<Rightarrow> bool \<Rightarrow> memory \<Rightarrow> 'k \<Rightarrow> (u64, 'k) outcome"
  sv_recv :: "u64 \<Rightarrow> u64 \<Rightarrow> u64 \<Rightarrow> bool \<Rightarrow> memory \<Rightarrow> 'k \<Rightarrow> (u64 \<times> handle list \<times> bool \<times> memory, 'k) outcome"
  sv_flags :: "u64 \<Rightarrow> int \<Rightarrow> 'k \<Rightarrow> u32 \<times> 'k"
  sv_sender :: "'k \<Rightarrow> u32"

text \<open>\<open>sock_of\<close>: the number of the socket a descriptor is on, from 0, if it is there.\<close>

definition is_unix :: "handle \<Rightarrow> bool" where
  "is_unix h \<longleftrightarrow> fd_start h = SOCK_MARK \<and> fd_offset h AND SOCK_UNIX \<noteq> 0"

definition sock_at :: "nat \<Rightarrow> 'k unix \<Rightarrow> sock option" where
  "sock_at n s = (if n < length (socks s) then socks s ! n else None)"

definition sock_of :: "handle option \<Rightarrow> 'k unix \<Rightarrow> (nat \<times> sock) option" where
  "sock_of h s =
    (case h of
       None \<Rightarrow> None
     | Some h \<Rightarrow>
         let n = (if is_unix h then unat (fd_folder h) else 0)
         in if 0 < n \<and> n \<le> SOCKETS then map_option (\<lambda>k. (n - 1, k)) (sock_at (n - 1) s) else None)"

definition put_sock :: "nat \<Rightarrow> sock option \<Rightarrow> 'k unix \<Rightarrow> 'k unix" where
  "put_sock n k s = s\<lparr>socks := (socks s)[n := k]\<rparr>"

section \<open>Names\<close>

definition name_of :: "'k services \<Rightarrow> u64 \<Rightarrow> u64 \<Rightarrow> 'k unix \<Rightarrow> u8 list option" where
  "name_of K addr len s =
    (if len < 3 \<or> 110 < len \<or> \<not> sv_range K addr len (host s) \<or> le_val (peek (prog s) addr 2) \<noteq> 1 then None
     else let bs = peek (prog s) (addr + 2) (unat (len - 2));
              bs1 = (if hd bs = 0 then AT # tl bs else bs)
          in Some (takeWhile (\<lambda>c. c \<noteq> 0) bs1))"

definition bound :: "u8 list \<Rightarrow> 'k unix \<Rightarrow> nat option" where
  "bound name s = find (\<lambda>i. case sock_at i s of None \<Rightarrow> False | Some k \<Rightarrow> k_name k \<noteq> [] \<and> k_name k = name) [0..<SOCKETS]"

definition abstract_name :: "u8 list \<Rightarrow> bool" where
  "abstract_name name \<longleftrightarrow> name \<noteq> [] \<and> hd name = AT"

section \<open>Counting descriptors\<close>

definition unix_hold :: "u32 \<Rightarrow> 'k unix \<Rightarrow> 'k unix" where
  "unix_hold n s =
    (if 0 < n \<and> n \<le> of_nat SOCKETS
     then case sock_at (unat n - 1) s of
            None \<Rightarrow> s
          | Some k \<Rightarrow> put_sock (unat n - 1) (Some (k\<lparr>k_refs := k_refs k + 1\<rparr>)) s
     else s)"

text \<open>
  The ends of connections in a backlog are pipes, and closing one is the kernel's \<open>sv_close\<close>. That a
  message not yet read in one may hold a socket, and let it go here, is left out.
\<close>

definition close_all :: "'k services \<Rightarrow> handle list \<Rightarrow> 'k \<Rightarrow> 'k" where
  "close_all K hs k = fold (sv_close K) hs k"

definition unix_drop :: "'k services \<Rightarrow> u32 \<Rightarrow> 'k unix \<Rightarrow> 'k unix option" where
  "unix_drop K n s =
    (case if 0 < n \<and> n \<le> of_nat SOCKETS then sock_at (unat n - 1) s else None of
       None \<Rightarrow> Some s
     | Some k \<Rightarrow>
         let r = k_refs k - 1
         in if 0 < r then Some (put_sock (unat n - 1) (Some (k\<lparr>k_refs := r\<rparr>)) s)
            else do {
              hs \<leftarrow> slice (k_queue k) 0 (unat (k_queued k));
              Some (put_sock (unat n - 1) None (s\<lparr>host := sv_free K (close_all K hs (host s))\<rparr>))
            })"

text \<open>
  \<open>handle_close\<close> of any descriptor held: what it does to a socket is \<open>drop\<close>, and \<open>handle_share\<close> holds one.
\<close>

definition close_handle :: "'k services \<Rightarrow> handle \<Rightarrow> 'k unix \<Rightarrow> 'k unix option" where
  "close_handle K h s =
    (let s1 = s\<lparr>host := sv_close K h (host s)\<rparr> in if is_unix h then unix_drop K (fd_folder h) s1 else Some s1)"

primrec close_handles :: "'k services \<Rightarrow> handle list \<Rightarrow> 'k unix \<Rightarrow> 'k unix option" where
  "close_handles K [] s = Some s"
| "close_handles K (h # hs) s = do { t \<leftarrow> close_handle K h s; close_handles K hs t }"

definition share_handle :: "'k services \<Rightarrow> u64 \<Rightarrow> 'k unix \<Rightarrow> handle option \<times> 'k unix" where
  "share_handle K fd s =
    (let (got, k) = sv_share K fd (host s);
         s1 = s\<lparr>host := k\<rparr>
     in case got of None \<Rightarrow> (None, s1) | Some h \<Rightarrow> (Some h, if is_unix h then unix_hold (fd_folder h) s1 else s1))"

definition unix_ready :: "u32 \<Rightarrow> 'k unix \<Rightarrow> u32" where
  "unix_ready n s =
    (case if 0 < n \<and> n \<le> of_nat SOCKETS then sock_at (unat n - 1) s else None of
       None \<Rightarrow> NET_ERR
     | Some k \<Rightarrow> if 0 < k_queued k then NET_IN else 0)"

section \<open>The calls\<close>

definition unix_handle :: "nat \<Rightarrow> u64 \<Rightarrow> handle" where
  "unix_handle i type =
    \<lparr>fd_used = 0, fd_writer = 0, fd_start = SOCK_MARK, fd_size = 0,
     fd_offset = SOCK_UNIX OR 0x10000 OR (ucast type AND O_NONBLOCK), fd_folder = of_nat i + 1, fd_ofd = 0\<rparr>"

definition new_sock :: "bool \<Rightarrow> sock" where
  "new_sock u =
    \<lparr>k_refs = 1, k_listening = False, k_uevent = u, k_name = [], k_queue = replicate 8 (unix_handle 0 0\<lparr>fd_start := 0, fd_offset := 0, fd_folder := 0\<rparr>),
     k_queued = 0\<rparr>"

primrec free_slot :: "sock option list \<Rightarrow> nat" where
  "free_slot [] = 0"
| "free_slot (k # ks) = (if k \<noteq> None then Suc (free_slot ks) else 0)"

definition sys_socket :: "'k services \<Rightarrow> u64 \<Rightarrow> u64 \<Rightarrow> 'k unix \<Rightarrow> (u64, 'k unix) outcome" where
  "sys_socket K domain type s =
    (if domain = AF_UNIX \<and> type AND 0xF \<noteq> 1 then Ended (ERR EPROTONOSUPPORT) s
     else let i = free_slot (socks s)
          in if i = SOCKETS then Ended (ERR ENFILE) s
             else let (got, k) = sv_alloc K (host s)
                  in if \<not> got then Ended (ERR ENFILE) (s\<lparr>host := k\<rparr>)
                     else let s1 = put_sock i (Some (new_sock (domain = AF_NETLINK))) (s\<lparr>host := k\<rparr>);
                              (fd, k1) = sv_give K (unix_handle i type) (host s1);
                              s2 = s1\<lparr>host := k1\<rparr>
                          in if sint fd < 0
                             then (case unix_drop K (of_nat i + 1) s2 of None \<Rightarrow> Fault | Some t \<Rightarrow> Ended fd t)
                             else if type AND O_CLOEXEC \<noteq> 0 then Ended fd (s2\<lparr>host := sv_cloexec K fd (host s2)\<rparr>)
                             else Ended fd s2)"

text \<open>\<open>strcpy\<close> into the 109 bytes of \<open>name\<close>.\<close>

definition set_name :: "u8 list \<Rightarrow> sock \<Rightarrow> sock option" where
  "set_name name k = (if length name \<le> PATH then Some (k\<lparr>k_name := name\<rparr>) else None)"

definition sys_bind :: "'k services \<Rightarrow> u64 \<Rightarrow> u64 \<Rightarrow> u64 \<Rightarrow> 'k unix \<Rightarrow> (u64, 'k unix) outcome" where
  "sys_bind K fd addr len s =
    (case sock_of (sv_handle K fd (host s)) s of
       None \<Rightarrow> Ended (ERR EINVAL) s
     | Some (n, k) \<Rightarrow>
         if k_uevent k then Ended 0 s
         else case name_of K addr len s of
           None \<Rightarrow> Ended (ERR EINVAL) s
         | Some name \<Rightarrow>
             if bound name s \<noteq> None then Ended (ERR EADDRINUSE) s
             else let (there, k1) = (if abstract_name name then (False, host s) else sv_stat K name (host s));
                      s1 = s\<lparr>host := k1\<rparr>
                  in if there then Ended (ERR EADDRINUSE) s1
                     else let (made, k2) = (if abstract_name name then (True, host s1) else sv_write K name (host s1));
                              s2 = s1\<lparr>host := k2\<rparr>
                          in if \<not> made then Ended (ERR ENOENT) s2
                             else case set_name name k of None \<Rightarrow> Fault | Some k' \<Rightarrow> Ended 0 (put_sock n (Some k') s2))"

definition sys_listen :: "'k services \<Rightarrow> u64 \<Rightarrow> 'k unix \<Rightarrow> (u64, 'k unix) outcome" where
  "sys_listen K fd s =
    (case sock_of (sv_handle K fd (host s)) s of
       None \<Rightarrow> Ended (ERR EINVAL) s
     | Some (n, k) \<Rightarrow>
         if k_name k = [] then Ended (ERR EINVAL) s else Ended 0 (put_sock n (Some (k\<lparr>k_listening := True\<rparr>)) s))"

text \<open>A socket that is not there, not listening, or with its backlog full, refuses.\<close>

definition sys_connect :: "'k services \<Rightarrow> u64 \<Rightarrow> u64 \<Rightarrow> u64 \<Rightarrow> 'k unix \<Rightarrow> (u64, 'k unix) outcome" where
  "sys_connect K fd addr len s =
    (let h = sv_handle K fd (host s)
     in case sock_of h s of
       None \<Rightarrow> Ended (ERR (if is_pair h then EISCONN else ENOTSOCK)) s
     | Some (n, k) \<Rightarrow>
         case name_of K addr len s of
           None \<Rightarrow> Ended (ERR EINVAL) s
         | Some name \<Rightarrow>
             case (case bound name s of None \<Rightarrow> None | Some m \<Rightarrow> map_option (\<lambda>to. (m, to)) (sock_at m s)) of
               None \<Rightarrow>
                 let (there, k1) = (if abstract_name name then (True, host s) else sv_stat K name (host s))
                 in Ended (ERR (if there then ECONNREFUSED else ENOENT)) (s\<lparr>host := k1\<rparr>)
             | Some (m, to) \<Rightarrow>
                 if \<not> k_listening to
                 then let (there, k1) = (if abstract_name name then (True, host s) else sv_stat K name (host s))
                      in Ended (ERR (if there then ECONNREFUSED else ENOENT)) (s\<lparr>host := k1\<rparr>)
                 else if k_queued to = BACKLOG then Ended (ERR EAGAIN) s
                 else let (pair, k1) = sv_pair K (fd_offset (the h) AND O_NONBLOCK) (host s);
                          s1 = s\<lparr>host := k1\<rparr>
                      in case pair of
                        None \<Rightarrow> Ended (ERR ENFILE) s1
                      | Some (mine, theirs) \<Rightarrow>
                          (case wr (k_queue to) (unat (k_queued to)) theirs of
                             None \<Rightarrow> Fault
                           | Some q \<Rightarrow>
                               let s2 = put_sock m (Some (to\<lparr>k_queue := q, k_queued := k_queued to + 1\<rparr>)) s1
                               in case unix_drop K (fd_folder (the h)) s2 of
                                    None \<Rightarrow> Fault
                                  | Some s3 \<Rightarrow> Ended 0 (s3\<lparr>host := sv_put K fd mine (host s3)\<rparr>)))"

text \<open>
  The loop of \<open>accept\<close> on the socket of number \<open>n\<close>. The code keeps the place of the descriptor, and reads
  its flags there at every round; a descriptor closed meanwhile is a fault here.
\<close>

primrec await :: "'k services \<Rightarrow> nat \<Rightarrow> u64 \<Rightarrow> nat \<Rightarrow> 'k unix \<Rightarrow> (u64, 'k unix) outcome" where
  "await K 0 fd n s = Waits"
| "await K (Suc fuel) fd n s =
    (case sock_at n s of
       None \<Rightarrow> Fault
     | Some k \<Rightarrow>
         if k_queued k \<noteq> 0 then Ended 0 s
         else case sv_handle K fd (host s) of
           None \<Rightarrow> Fault
         | Some h \<Rightarrow>
             if has (fd_offset h) O_NONBLOCK then Ended (ERR EAGAIN) s
             else let (hit, k1) = sv_check K (host s)
                  in if hit then Ended (ERR EINTR) (s\<lparr>host := k1\<rparr>)
                     else await K fuel fd n (sv_yield K (s\<lparr>host := k1\<rparr>)))"

definition tell_peer :: "'k services \<Rightarrow> u64 \<Rightarrow> u64 \<Rightarrow> 'k unix \<Rightarrow> 'k unix" where
  "tell_peer K addr lenp s =
    (if addr \<noteq> 0 \<and> lenp \<noteq> 0 \<and> sv_range K lenp 4 (host s) \<and> 2 \<le> u32_at (prog s) lenp \<and> sv_range K addr 2 (host s)
     then s\<lparr>prog := put_u32 (poke (prog s) addr [1, 0]) lenp 2\<rparr> else s)"

definition accept_with :: "'k services \<Rightarrow> nat \<Rightarrow> u64 \<Rightarrow> u64 \<Rightarrow> u64 \<Rightarrow> u64 \<Rightarrow> 'k unix \<Rightarrow> (u64, 'k unix) outcome" where
  "accept_with K fuel fd addr lenp flags s =
    (let h = sv_handle K fd (host s)
     in case sock_of h s of
       None \<Rightarrow> Ended (ERR EINVAL) s
     | Some (n, k0) \<Rightarrow>
         if \<not> k_listening k0 then Ended (ERR EINVAL) s
         else proceed (await K fuel fd n s) (\<lambda>err s1.
           if err \<noteq> 0 then Ended err s1
           else case sock_at n s1 of
             None \<Rightarrow> Fault
           | Some k \<Rightarrow>
               (case rd (k_queue k) 0 of
                  None \<Rightarrow> Fault
                | Some first \<Rightarrow>
                    let last = first\<lparr>fd_offset := (fd_offset first AND NOT O_NONBLOCK) OR (ucast flags AND O_NONBLOCK)\<rparr>;
                        (got, k1) = sv_give K last (host s1);
                        s2 = s1\<lparr>host := k1\<rparr>
                    in if sint got < 0 then Ended got s2
                       else case do {
                           left \<leftarrow> slice (k_queue k) 1 (unat (k_queued k - 1));
                           q \<leftarrow> blit (k_queue k) 0 left;
                           Some (k\<lparr>k_queue := q, k_queued := k_queued k - 1\<rparr>) } of
                         None \<Rightarrow> Fault
                       | Some k' \<Rightarrow>
                           let s3 = put_sock n (Some k') s2;
                               s4 = (if flags AND O_CLOEXEC \<noteq> 0 then s3\<lparr>host := sv_cloexec K got (host s3)\<rparr> else s3)
                           in Ended got (tell_peer K addr lenp s4))))"

definition sys_accept :: "'k services \<Rightarrow> nat \<Rightarrow> u64 \<Rightarrow> u64 \<Rightarrow> u64 \<Rightarrow> 'k unix \<Rightarrow> (u64, 'k unix) outcome" where
  "sys_accept K fuel fd addr lenp s = accept_with K fuel fd addr lenp 0 s"

definition sys_accept4 :: "'k services \<Rightarrow> nat \<Rightarrow> u64 \<Rightarrow> u64 \<Rightarrow> u64 \<Rightarrow> 'k unix \<Rightarrow> (u64, 'k unix) outcome" where
  "sys_accept4 K fuel fd addr lenp s = accept_with K fuel fd addr lenp (sv_args K 3 (host s)) s"

section \<open>Names and options asked for\<close>

text \<open>\<open>struct sockaddr_un\<close> of the family, with a name in it: 110 bytes.\<close>

definition sockaddr :: "u8 list \<Rightarrow> u8 list" where
  "sockaddr path = [1, 0] @ path @ replicate (PATH - length path) 0"

definition own_name :: "sock option \<Rightarrow> u8 list \<times> u32" where
  "own_name k =
    (case k of
       None \<Rightarrow> ([], 2)
     | Some k \<Rightarrow>
         if k_name k = [] then ([], 2)
         else if abstract_name (k_name k) then (0 # tl (k_name k), of_nat (length (k_name k)) + 2)
         else (k_name k, of_nat (length (k_name k)) + 1 + 2))"

definition name_call :: "'k services \<Rightarrow> u64 \<Rightarrow> u64 \<Rightarrow> u64 \<Rightarrow> bool \<Rightarrow> 'k unix \<Rightarrow> (u64, 'k unix) outcome" where
  "name_call K fd addr lenp peer s =
    (let k = sock_of (sv_handle K fd (host s)) s;
         room = u32_at (prog s) lenp
     in if \<not> sv_range K lenp 4 (host s) \<or> \<not> sv_range K addr (ucast room) (host s) then Ended (ERR EFAULT) s
        else if (case k of None \<Rightarrow> False | Some (n, k) \<Rightarrow> k_uevent k)
        then let nl = le_bytes 4 16 @ le_bytes 4 (if peer then 0 else unat (sv_thread K (host s))) @ le_bytes 4 0
             in Ended 0 (s\<lparr>prog := put_u32 (poke (prog s) addr (take (unat (if room < 12 then room else 12)) nl)) lenp 12\<rparr>)
        else if peer \<and> k \<noteq> None then Ended (ERR ENOTCONN) s
        else let (path, len) = own_name (map_option snd k)
             in case slice (sockaddr path) 0 (unat (if len < room then len else room)) of
                  None \<Rightarrow> Fault
                | Some bs \<Rightarrow> Ended 0 (s\<lparr>prog := put_u32 (poke (prog s) addr bs) lenp len\<rparr>))"

definition sys_getsockname :: "'k services \<Rightarrow> u64 \<Rightarrow> u64 \<Rightarrow> u64 \<Rightarrow> 'k unix \<Rightarrow> (u64, 'k unix) outcome" where
  "sys_getsockname K fd addr lenp s = name_call K fd addr lenp False s"

definition sys_getpeername :: "'k services \<Rightarrow> u64 \<Rightarrow> u64 \<Rightarrow> u64 \<Rightarrow> 'k unix \<Rightarrow> (u64, 'k unix) outcome" where
  "sys_getpeername K fd addr lenp s = name_call K fd addr lenp True s"

definition sys_setsockopt :: "'k services \<Rightarrow> u64 \<Rightarrow> u64 \<Rightarrow> u64 \<Rightarrow> 'k unix \<Rightarrow> (u64, 'k unix) outcome" where
  "sys_setsockopt K fd level opt s =
    (let value = sv_args K 3 (host s)
     in if level = 1 \<and> opt = 16 \<and> sv_range K value 4 (host s)
        then Ended 0 (s\<lparr>host := snd (sv_flags K fd (of_bool (u32_at (prog s) value \<noteq> 0)) (host s))\<rparr>)
        else Ended 0 s)"

definition option_value :: "'k services \<Rightarrow> u64 \<Rightarrow> u64 \<Rightarrow> 'k \<Rightarrow> (u8 list \<times> u32) \<times> 'k" where
  "option_value K fd opt k =
    (if opt = 3
     then let (f, k1) = sv_flags K fd (-1) k in ((le_bytes 4 (if f AND 2 \<noteq> 0 then 5 else 1) @ replicate 8 0, 4), k1)
     else if opt = 7 \<or> opt = 8 then ((le_bytes 4 65536 @ replicate 8 0, 4), k)
     else if opt = 17 then ((le_bytes 4 (unat (sv_thread K k)) @ replicate 8 0, 12), k)
     else ((replicate 12 0, 4), k))"

definition sys_getsockopt :: "'k services \<Rightarrow> u64 \<Rightarrow> u64 \<Rightarrow> u64 \<Rightarrow> 'k unix \<Rightarrow> (u64, 'k unix) outcome" where
  "sys_getsockopt K fd level opt s =
    (let out = sv_args K 3 (host s);
         lenp = sv_args K 4 (host s);
         room = u32_at (prog s) lenp
     in if \<not> sv_range K lenp 4 (host s) \<or> \<not> sv_range K out (ucast room) (host s) then Ended (ERR EFAULT) s
        else if level \<noteq> 1 then Ended (ERR EOPNOTSUPP) s
        else let ((value, size), k) = option_value K fd opt (host s);
                 n = (if room < size then room else size)
             in Ended 0 (s\<lparr>prog := put_u32 (poke (prog s) out (take (unat n) value)) lenp n, host := k\<rparr>))"

definition sys_shutdown :: "'k services \<Rightarrow> u64 \<Rightarrow> 'k unix \<Rightarrow> (u64, 'k unix) outcome" where
  "sys_shutdown K fd s = Ended (if sv_handle K fd (host s) \<noteq> None then 0 else ERR EBADF) s"

section \<open>Messages\<close>

text \<open>
  \<open>struct msghdr\<close> has its iovecs at 16 and 24, the control part at 32 and 40 and the flags at 48, of 56
  bytes; a control header its length at 0, level at 8 and type at 12, of 16.
\<close>

abbreviation (input) PASS_FDS :: nat where "PASS_FDS \<equiv> 16"

text \<open>
  The descriptors of one control header, \<open>i\<close> of \<open>n\<close> done, shared one by one into \<open>fds\<close>; on the first
  that cannot be, those held are let go of in reverse and, \<open>nfd\<close> being 0 by then, the error is EBADF.
\<close>

primrec share_fds :: "'k services \<Rightarrow> u64 \<Rightarrow> nat \<Rightarrow> handle list \<Rightarrow> 'k unix \<Rightarrow> ((errno + handle list) \<times> 'k unix) option" where
  "share_fds K given 0 fds s = Some (Inr fds, s)"
| "share_fds K given (Suc n) fds s =
    (let (got, s1) = (if length fds = PASS_FDS then (None, s) else share_handle K (ucast (u32_at (prog s) given)) s)
     in case got of
          None \<Rightarrow> do {
            t \<leftarrow> close_handles K (rev fds) s1;
            let nfd = 0;
            Some (Inl (if nfd = PASS_FDS then EINVAL else EBADF), t)
          }
        | Some h \<Rightarrow> share_fds K (given + 4) n (fds @ [h]) s1)"

text \<open>The loop over the control part, all in 64 bits, with rounds to run.\<close>

primrec control_loop ::
  "'k services \<Rightarrow> nat \<Rightarrow> u64 \<Rightarrow> u64 \<Rightarrow> u64 \<Rightarrow> handle list \<Rightarrow> 'k unix \<Rightarrow> (errno + handle list, 'k unix) outcome" where
  "control_loop K 0 control len at fds s = Waits"
| "control_loop K (Suc fuel) control len at fds s =
    (if control = 0 \<or> \<not> at + 16 \<le> len then Ended (Inr fds) s
     else let c = control + at;
              clen = u64_at (prog s) c
          in if clen < 16 \<or> len < at + clen then Ended (Inr fds) s
             else let step = (clen + 7) AND NOT 7
                  in if u32_at (prog s) (c + 8) = 1 \<and> u32_at (prog s) (c + 12) = 1
                     then proceed (ended (share_fds K (c + 16) (unat ((clen - 16) div 4)) fds s)) (\<lambda>r s1.
                            case r of
                              Inl e \<Rightarrow> Ended (Inl e) s1
                            | Inr fds1 \<Rightarrow> control_loop K fuel control len (at + step) fds1 s1)
                     else control_loop K fuel control len (at + step) fds s)"

definition sys_sendmsg :: "'k services \<Rightarrow> nat \<Rightarrow> u64 \<Rightarrow> u64 \<Rightarrow> u64 \<Rightarrow> 'k unix \<Rightarrow> (u64, 'k unix) outcome" where
  "sys_sendmsg K fuel fd msg flags s =
    (let iov = u64_at (prog s) (msg + 16);
         iovlen = u64_at (prog s) (msg + 24);
         control = u64_at (prog s) (msg + 32);
         len = u64_at (prog s) (msg + 40)
     in if \<not> sv_range K msg 56 (host s) \<or> \<not> sv_range K iov (iovlen * 16) (host s) \<or>
           (len \<noteq> 0 \<and> \<not> sv_range K control len (host s))
        then Ended (ERR EFAULT) s
        else proceed (control_loop K fuel control len 0 [] s) (\<lambda>r s1.
          case r of
            Inl e \<Rightarrow> Ended (ERR e) s1
          | Inr fds \<Rightarrow>
              (case sv_send K fd iov iovlen fds (flags AND 0x40 \<noteq> 0) (prog s1) (host s1) of
                 Fault \<Rightarrow> Fault
               | Waits \<Rightarrow> Waits
               | Ended result k \<Rightarrow>
                   let s2 = s1\<lparr>host := k\<rparr>
                   in if sint result < 0
                      then (case close_handles K (rev fds) s2 of None \<Rightarrow> Fault | Some t \<Rightarrow> Ended result t)
                      else Ended result s2)))"

text \<open>The descriptors received, given one by one and their numbers stored.\<close>

primrec hand_out :: "'k services \<Rightarrow> u64 \<Rightarrow> bool \<Rightarrow> handle list \<Rightarrow> 'k unix \<Rightarrow> 'k unix option" where
  "hand_out K got cloexec [] s = Some s"
| "hand_out K got cloexec (h # hs) s =
    (let (made, k) = sv_give K h (host s);
         s1 = s\<lparr>host := k\<rparr>
     in if sint made < 0
        then do { t \<leftarrow> close_handle K h s1; hand_out K (got + 4) cloexec hs (t\<lparr>prog := put_u32 (prog t) got (-1)\<rparr>) }
        else hand_out K (got + 4) cloexec hs
               (s1\<lparr>prog := put_u32 (prog s) got (ucast made), host := if cloexec then sv_cloexec K made k else k\<rparr>))"

definition put_credentials :: "'k services \<Rightarrow> u64 \<Rightarrow> 'k unix \<Rightarrow> 'k unix" where
  "put_credentials K c s =
    s\<lparr>prog := poke (prog s) c (le_bytes 8 28 @ le_bytes 4 1 @ le_bytes 4 2 @
       le_bytes 4 (unat (sv_sender K (host s))) @ replicate 8 0)\<rparr>"

definition sys_recvmsg :: "'k services \<Rightarrow> u64 \<Rightarrow> u64 \<Rightarrow> u64 \<Rightarrow> 'k unix \<Rightarrow> (u64, 'k unix) outcome" where
  "sys_recvmsg K fd msg flags s =
    (if (case sock_of (sv_handle K fd (host s)) s of None \<Rightarrow> False | Some (n, k) \<Rightarrow> k_uevent k) then Ended (ERR EAGAIN) s
     else if \<not> sv_range K msg 56 (host s) then Ended (ERR EFAULT) s
     else case sv_recv K fd (u64_at (prog s) (msg + 16)) (u64_at (prog s) (msg + 24)) (flags AND 0x40 \<noteq> 0) (prog s) (host s) of
         Fault \<Rightarrow> Fault
       | Waits \<Rightarrow> Waits
       | Ended (result, fds, short, m) k \<Rightarrow>
         let s1 = s\<lparr>prog := m, host := k\<rparr>
          in if sint result < 0 then Ended result s1
             else let s2 = s1\<lparr>prog := put_u32 (put_u32 (prog s1) (msg + 48) (if short then 0x20 else 0)) (msg + 8) 0\<rparr>;
                      control = u64_at (prog s2) (msg + 32);
                      len = u64_at (prog s2) (msg + 40);
                      room = (if control \<noteq> 0 \<and> sv_range K control len (host s2) then len else 0);
                      need = 16 + 4 * of_nat (length fds);
                      (f, k2) = sv_flags K fd (-1) (host s2);
                      s3 = s2\<lparr>host := k2\<rparr>;
                      creds = (if f AND 1 \<noteq> 0 then 28 else 0);
                      rights = (if fds \<noteq> [] then (need + 7) AND NOT 7 else 0);
                      told = (creds \<noteq> 0 \<and> rights + creds \<le> room);
                      s4 = (if told then put_credentials K (control + rights) s3 else s3);
                      creds1 = (if told then creds else 0)
                  in if fds = [] then Ended result (s4\<lparr>prog := put_u64 (prog s4) (msg + 40) creds1\<rparr>)
                     else if room < need
                     then (case close_handles K (rev fds) s4 of
                             None \<Rightarrow> Fault
                           | Some t \<Rightarrow> Ended result (t\<lparr>prog := put_u64 (put_u32 (prog t) (msg + 48) (u32_at (prog t) (msg + 48) OR 8)) (msg + 40) 0\<rparr>))
                     else let s5 = s4\<lparr>prog := poke (prog s4) control (le_bytes 8 (unat need) @ le_bytes 4 1 @ le_bytes 4 1)\<rparr>
                          in (case hand_out K (control + 16) (flags AND 0x40000000 \<noteq> 0) fds s5 of
                             None \<Rightarrow> Fault
                           | Some t \<Rightarrow> Ended result (t\<lparr>prog := put_u64 (prog t) (msg + 40) (rights + ((creds1 + 7) AND NOT 7))\<rparr>)))"

section \<open>The table of calls\<close>

datatype unix_call =
  Socket | Bind | Listen | Connect | Accept | Accept4 | Getsockname | Getpeername | Setsockopt | Getsockopt
  | Shutdown | Sendmsg | Recvmsg

definition unix_syscall :: "'k services \<Rightarrow> u64 \<Rightarrow> u64 \<Rightarrow> 'k unix \<Rightarrow> unix_call option" where
  "unix_syscall K num first s =
    (if num = 41
     then if first = AF_UNIX \<or> (first = AF_NETLINK \<and> sv_args K 2 (host s) = 15) then Some Socket else None
     else let h = sv_handle K first (host s)
          in if sock_of h s = None \<and> \<not> is_pair h then None
             else map_of [(49, Bind), (50, Listen), (42, Connect), (43, Accept), (288, Accept4), (51, Getsockname), (52, Getpeername),
                          (54, Setsockopt), (55, Getsockopt), (48, Shutdown), (46, Sendmsg), (47, Recvmsg)] num)"

definition unix_exit :: "'k unix \<Rightarrow> int" where
  "unix_exit s = (if list_ex (\<lambda>k. k \<noteq> None) (socks s) then - int (errno_value EBUSY) else 0)"

end
