(* ===== verification/UnixRun.thy ===== *)
theory UnixRun
  imports Unix PtyLine PipeCounts
begin

text \<open>
  The invariant of the sockets: each one's count is the number of references to it, its backlog holds
  ends of connections and fits its array, and its name fits its own. In the locale \<open>net_kernel\<close>, which
  states what the module relies on, every call but the messages keeps it and none goes wrong.
\<close>

section \<open>The invariant\<close>

definition sock_ok :: "sock \<Rightarrow> bool" where
  "sock_ok k \<longleftrightarrow> length (k_queue k) = 8 \<and> unat (k_queued k) \<le> 8 \<and> length (k_name k) \<le> 108 \<and>
    (\<forall>h \<in> set (take (unat (k_queued k)) (k_queue k)). fd_start h = PIPE_MARK)"

definition refs_to :: "u32 multiset \<Rightarrow> nat \<Rightarrow> nat" where
  "refs_to M n = count M (of_nat (Suc n))"

definition counted :: "u32 multiset \<Rightarrow> nat \<Rightarrow> sock option \<Rightarrow> bool" where
  "counted M n k =
    (case k of
       None \<Rightarrow> refs_to M n = 0
     | Some k \<Rightarrow> sock_ok k \<and> unat (k_refs k) = refs_to M n \<and> 0 < refs_to M n)"

text \<open>\<open>M\<close> is the multiset of references: the number of the socket, from 1, for each.\<close>

definition usound :: "u32 multiset \<Rightarrow> 'k unix \<Rightarrow> bool" where
  "usound M s \<longleftrightarrow> length (socks s) = 8 \<and> size M < 2 ^ 32 \<and> (\<forall>x \<in># M. 1 \<le> unat x \<and> unat x \<le> 8) \<and>
    (\<forall>n < 8. counted M n (socks s ! n))"

lemma usoundD:
  assumes "usound M s"
  shows "length (socks s) = 8" "size M < 2 ^ 32" "x \<in># M \<Longrightarrow> 1 \<le> unat x \<and> unat x \<le> 8"
    "n < 8 \<Longrightarrow> counted M n (socks s ! n)"
  using assms by (auto simp: usound_def)

lemma usound_socks: "usound M s \<Longrightarrow> socks t = socks s \<Longrightarrow> usound M t"
  by (simp add: usound_def)

lemma sock_at_Some: "sock_at n s = Some k \<longleftrightarrow> n < length (socks s) \<and> socks s ! n = Some k"
  by (simp add: sock_at_def)

lemma sock_at_same [simp]: "sock_at n (s\<lparr>host := k\<rparr>) = sock_at n s" "sock_at n (s\<lparr>prog := m\<rparr>) = sock_at n s"
  by (simp_all add: sock_at_def)

lemma sock_at_put: "n < length (socks s) \<Longrightarrow> sock_at m (put_sock n k s) = (if m = n then k else sock_at m s)"
  by (simp add: sock_at_def put_sock_def)

lemma usound_sock: "usound M s \<Longrightarrow> sock_at n s = Some k \<Longrightarrow> n < 8 \<and> sock_ok k \<and> unat (k_refs k) = refs_to M n"
  using usoundD(1) [of M s] usoundD(4) [of M s n] by (auto simp: sock_at_Some counted_def)

lemma refs_to_x: "unat x = Suc n \<Longrightarrow> refs_to M n = count M x"
proof -
  assume "unat x = Suc n"
  then have "of_nat (Suc n) = x" by (simp flip: \<open>unat x = Suc n\<close>)
  then show ?thesis by (simp add: refs_to_def)
qed

lemma refs_to_add [simp]:
  assumes "n < 8"
  shows "refs_to (add_mset x M) n = (if unat x = Suc n then Suc (refs_to M n) else refs_to M n)"
proof -
  have "unat (of_nat (Suc n) :: u32) = Suc n" using assms unfolding unsigned_of_nat by (simp add: take_bit_nat_eq_self)
  then have "x = of_nat (Suc n) \<longleftrightarrow> unat x = Suc n" by (metis unsigned_word_eqI)
  then show ?thesis unfolding refs_to_def count_add_mset by (simp del: of_nat_Suc)
qed

lemma sock_of_SomeD:
  assumes "sock_of h s = Some (n, k)"
  obtains hh where "h = Some hh" "is_unix hh" "unat (fd_folder hh) = Suc n" "n < 8" "sock_at n s = Some k"
proof -
  obtain hh where h: "h = Some hh" using assms by (auto simp: sock_of_def split: option.splits)
  define m where "m = (if is_unix hh then unat (fd_folder hh) else 0)"
  have "0 < m \<and> m \<le> 8 \<and> map_option (\<lambda>k. (m - 1, k)) (sock_at (m - 1) s) = Some (n, k)"
    using assms unfolding sock_of_def h option.case Let_def m_def [symmetric] by (auto split: if_splits)
  then have m: "0 < m" "m \<le> 8" "n = m - 1" "sock_at n s = Some k" by auto
  then have "is_unix hh" "unat (fd_folder hh) = Suc n" "n < 8" by (auto simp: m_def split: if_splits)
  then show ?thesis using that h m(4) by blast
qed

lemma live_sock:
  assumes "usound M s" "x \<in># M"
  obtains k n where "unat x = Suc n" "n < 8" "sock_at n s = Some k" "sock_ok k" "unat (k_refs k) = count M x"
proof -
  obtain n where n: "unat x = Suc n" "n < 8" using usoundD(3) [OF assms] by (cases "unat x") auto
  have "0 < refs_to M n" using assms(2) by (simp add: refs_to_x [OF n(1)])
  then obtain k where "socks s ! n = Some k" using usoundD(4) [OF assms(1) n(2)] by (auto simp: counted_def split: option.splits)
  then have "sock_at n s = Some k" using n(2) usoundD(1) [OF assms(1)] by (simp add: sock_at_Some)
  then show ?thesis using that [OF n] usound_sock [OF assms(1)] refs_to_x [OF n(1)] by auto
qed

lemma usound_change:
  assumes "usound M s" "n < 8" "socks t = (socks s)[n := k]" "counted M' n k" "size M' < 2 ^ 32"
    "\<forall>x \<in># M'. 1 \<le> unat x \<and> unat x \<le> 8" "\<And>m. m < 8 \<Longrightarrow> m \<noteq> n \<Longrightarrow> refs_to M' m = refs_to M m"
  shows "usound M' t"
proof -
  have "counted M' m (socks t ! m)" if "m < 8" for m
    using that assms(2-4,7) usoundD(1) [OF assms(1)] usoundD(4) [OF assms(1) that]
    by (cases "m = n") (auto simp: counted_def split: option.splits)
  then show ?thesis using assms(3,5,6) usoundD(1) [OF assms(1)] by (simp add: usound_def)
qed

lemma usound_set:
  assumes "usound M s" "sock_at n s = Some k" "sock_ok k'" "k_refs k' = k_refs k" "socks t = (socks s)[n := Some k']"
  shows "usound M t"
proof (rule usound_change [OF assms(1) _ assms(5)])
  show n: "n < 8" using assms(2) usoundD(1) [OF assms(1)] by (simp add: sock_at_Some)
  show "counted M n (Some k')" using usoundD(4) [OF assms(1) n] assms(2-4) by (auto simp: counted_def sock_at_Some)
qed (use usoundD(2,3) [OF assms(1)] in auto)

lemma unix_number: "unat x = Suc n \<Longrightarrow> n < 8 \<Longrightarrow> 0 < x \<and> x \<le> 8 \<and> unat x - 1 = n" for x :: u32
  by (auto simp: word_nat)

lemma unix_hold_sound:
  assumes "usound M s" "x \<in># M" "Suc (size M) < 2 ^ 32"
  shows "usound (add_mset x M) (unix_hold x s)"
proof -
  obtain k n where k: "unat x = Suc n" "n < 8" "sock_at n s = Some k" "sock_ok k" "unat (k_refs k) = count M x"
    using live_sock [OF assms(1,2)] by metis
  have "count M x \<le> size M" by (rule count_le_size)
  then have r: "unat (k_refs k + 1) = Suc (count M x)" using k(5) assms(3) by (subst unat_add_small) simp_all
  have u: "socks (unix_hold x s) = (socks s)[n := Some (k\<lparr>k_refs := k_refs k + 1\<rparr>)]"
    using unix_number [OF k(1,2)] k(3) by (simp add: unix_hold_def put_sock_def)
  show ?thesis
  proof (rule usound_change [OF assms(1) k(2) u])
    show "counted (add_mset x M) n (Some (k\<lparr>k_refs := k_refs k + 1\<rparr>))"
      using k r refs_to_x [OF k(1), of M] by (simp add: counted_def sock_ok_def)
  qed (use assms(3) usoundD(3) [OF assms(1)] k(1,2) in auto)
qed

text \<open>A reference let go of: the socket goes with the last, and its backlog is closed.\<close>

lemma unix_drop_here:
  assumes "unix_drop K x s = Some t" "unat x = Suc n" "n < 8" "sock_at n s = Some k"
  shows "sock_at n t = (if 0 < k_refs k - 1 then Some (k\<lparr>k_refs := k_refs k - 1\<rparr>) else None)"
proof -
  have "n < length (socks s)" using assms(4) by (simp add: sock_at_Some)
  then show ?thesis using assms(1,4) unix_number [OF assms(2,3)]
    by (auto simp: unix_drop_def Let_def put_sock_def sock_at_def bind_eq_Some_conv split: if_splits)
qed

lemma unix_drop_sound:
  assumes "usound (add_mset x M) s"
  shows "\<exists>t hs. unix_drop K x s = Some t \<and> usound M t \<and> prog t = prog s \<and>
    (host t = host s \<or> host t = sv_free K (close_all K hs (host s)) \<and> (\<forall>h \<in> set hs. fd_start h = PIPE_MARK)) \<and>
    (\<forall>m. Suc m \<noteq> unat x \<longrightarrow> sock_at m t = sock_at m s)"
proof -
  obtain k n where k: "unat x = Suc n" "n < 8" "sock_at n s = Some k" "sock_ok k" "unat (k_refs k) = count (add_mset x M) x"
    using live_sock [OF assms union_single_eq_member] by blast
  have r: "unat (k_refs k - 1) = count M x" using k(5) by (subst unat_pred) auto
  then have z: "0 < k_refs k - 1 \<longleftrightarrow> 0 < count M x" by (simp add: word_less_nat_alt)
  let ?hs = "take (unat (k_queued k)) (k_queue k)"
  let ?live = "put_sock n (Some (k\<lparr>k_refs := k_refs k - 1\<rparr>)) s"
  let ?gone = "put_sock n None (s\<lparr>host := sv_free K (close_all K ?hs (host s))\<rparr>)"
  have go: "usound M t" if "socks t = (socks s)[n := k']" "counted M n k'" for t :: "'b unix" and k'
    by (rule usound_change [OF assms k(2) that]) (use usoundD(2,3) [OF assms] k(1) in auto)
  have sl: "slice (k_queue k) 0 (unat (k_queued k)) = Some ?hs" using k(4) by (simp add: sock_ok_def)
  have d: "unix_drop K x s = Some (if 0 < k_refs k - 1 then ?live else ?gone)"
    using unix_number [OF k(1,2)] k(3) by (simp add: unix_drop_def Let_def sl)
  show ?thesis
  proof (cases "0 < k_refs k - 1")
    case True
    then have "counted M n (Some (k\<lparr>k_refs := k_refs k - 1\<rparr>))"
      using k(4) r z refs_to_x [OF k(1), of M] by (simp add: counted_def sock_ok_def)
    then have "usound M ?live" by (intro go) (simp_all add: put_sock_def)
    then show ?thesis using True d k(1) by (intro exI [of _ ?live] exI [of _ "[]"]) (auto simp: put_sock_def sock_at_def)
  next
    case False
    then have "counted M n None" using z refs_to_x [OF k(1), of M] by (simp add: counted_def not_in_iff)
    then have "usound M ?gone" by (intro go) (simp_all add: put_sock_def)
    then show ?thesis using False d k(1,4)
      by (intro exI [of _ ?gone] exI [of _ ?hs]) (auto simp: put_sock_def sock_at_def sock_ok_def)
  qed
qed

end
