(* ===== verification/UnixCalls.thy ===== *)
theory UnixCalls
  imports UnixRun
begin

text \<open>
  What the sockets rely on in the kernel (\<open>net_kernel\<close>), and in it: every call on names and
  connections keeps \<open>usound\<close> and makes no access it must not. Messages are left out of the invariant:
  a descriptor on its way through a pipe is a reference the pipe keeps.
\<close>

definition listener :: "('k \<Rightarrow> u32 multiset) \<Rightarrow> u32 \<Rightarrow> 'k unix \<Rightarrow> bool" where
  "listener live x s \<longleftrightarrow> x \<in># live (host s) \<and> (\<exists>k. sock_at (unat x - 1) s = Some k \<and> k_listening k)"

definition uresult :: "('k \<Rightarrow> u32 multiset) \<Rightarrow> ('a, 'k unix) outcome \<Rightarrow> bool" where
  "uresult live r \<longleftrightarrow> (case r of Ended a t \<Rightarrow> size (live (host t)) < 2 ^ 32 \<longrightarrow> usound (live (host t)) t | Fault \<Rightarrow> False | Waits \<Rightarrow> True)"

lemma uresult_simps [simp]:
  "uresult live (Ended a t) \<longleftrightarrow> (size (live (host t)) < 2 ^ 32 \<longrightarrow> usound (live (host t)) t)" "\<not> uresult live Fault" "uresult live Waits"
  by (simp_all add: uresult_def)

text \<open>A call that takes no reference, and lets go of no listening socket but \<open>y\<close> when that is its last.\<close>

definition carries :: "('k \<Rightarrow> u32 multiset) \<Rightarrow> u32 \<Rightarrow> 'k unix \<Rightarrow> ('a, 'k unix) outcome \<Rightarrow> bool" where
  "carries live y s r \<longleftrightarrow>
    (case r of
       Ended a t \<Rightarrow> usound (live (host t)) t \<and> live (host t) \<subseteq># live (host s) \<and> (\<forall>x. (x \<noteq> y \<or> 1 < count (live (host s)) x) \<and> listener live x s \<longrightarrow> listener live x t)
     | Fault \<Rightarrow> False
     | Waits \<Rightarrow> True)"

lemma carries_same:
  assumes "usound (live (host s)) s" "socks t = socks s" "live (host t) = live (host s)"
  shows "carries live y s (Ended a t)"
  using assms by (simp add: carries_def usound_def listener_def sock_at_def)

lemma unix_handle_ends:
  assumes "i < 8"
  shows "is_unix (unix_handle i t)" "unat (fd_folder (unix_handle i t)) = Suc i"
proof -
  have "bit ((SOCK_UNIX OR 0x10000 OR y) AND SOCK_UNIX :: u32) 30" for y by (simp only: bit_and_iff bit_or_iff) simp
  then have "(SOCK_UNIX OR 0x10000 OR y) AND SOCK_UNIX \<noteq> (0 :: u32)" for y by (metis bit_0_eq bot_apply bot_bool_def)
  from this [of "ucast t AND 0x800"] show "is_unix (unix_handle i t)" unfolding is_unix_def unix_handle_def by (simp only: handle.select_convs or.assoc) simp
  show "unat (fd_folder (unix_handle i t)) = Suc i"
    using assms by (simp add: unix_handle_def) (subst unat_add_small, simp_all add: unsigned_of_nat take_bit_nat_eq_self)
qed

lemma free_slot_spec: "free_slot ks \<le> length ks \<and> (free_slot ks < length ks \<longrightarrow> ks ! free_slot ks = None)"
  by (induction ks) (auto split: if_splits)

lemma new_sock_ok: "sock_ok (new_sock u)"
  by (simp add: sock_ok_def new_sock_def)

lemma name_of_length: "name_of K addr len s = Some name \<Longrightarrow> length name \<le> 108"
proof -
  assume n: "name_of K addr len s = Some name"
  define bs where "bs = peek (prog s) (addr + 2) (unat (len - 2))"
  have l: "3 \<le> unat len" "unat len \<le> 110" using n by (auto simp: name_of_def word_nat split: if_splits)
  then have "unat (len - 2) \<le> 108" by (simp add: unat_sub_le)
  then have b: "length bs \<le> 108" by (simp add: bs_def peek_def)
  have "name = takeWhile (\<lambda>c. c \<noteq> 0) (if hd bs = 0 then 0x40 # tl bs else bs)"
    using n by (simp add: name_of_def bs_def Let_def split: if_splits)
  moreover have "bs \<noteq> []" using l by (auto simp: bs_def peek_def unat_sub_le)
  ultimately show ?thesis using b length_takeWhile_le [of "\<lambda>c. c \<noteq> 0" "0x40 # tl bs"] length_takeWhile_le [of "\<lambda>c. c \<noteq> 0" bs]
    by (cases bs) (auto simp del: takeWhile.simps)
qed

lemma boundD: "bound name s = Some n \<Longrightarrow> \<exists>k. n < 8 \<and> sock_at n s = Some k \<and> k_name k = name \<and> name \<noteq> []"
  by (auto simp: bound_def find_Some_iff split: option.splits)

lemma tell_peer_same [simp]: "socks (tell_peer K addr lenp s) = socks s" "host (tell_peer K addr lenp s) = host s"
  by (simp_all add: tell_peer_def)

definition queue_more :: "handle \<Rightarrow> sock \<Rightarrow> sock" where
  "queue_more h k = k\<lparr>k_queue := (k_queue k)[unat (k_queued k) := h], k_queued := k_queued k + 1\<rparr>"

locale net_kernel =
  fixes K :: "'k services" and live :: "'k \<Rightarrow> u32 multiset"
  assumes at_live: "sv_handle K fd k = Some h \<Longrightarrow> is_unix h \<Longrightarrow> fd_folder h \<in># live k"
    and give_live: "sv_give K h k = (fd, k') \<Longrightarrow>
      live k' = (if 0 \<le> sint fd \<and> is_unix h then add_mset (fd_folder h) (live k) else live k)"
    and put_live: "sv_handle K fd k = Some h \<Longrightarrow> is_unix h \<Longrightarrow> fd_start p = PIPE_MARK \<Longrightarrow> live (sv_put K fd p k) = live k - {#fd_folder h#}"
    and close_live: "fd_start h = PIPE_MARK \<Longrightarrow> live (sv_close K h k) = live k"
    and close_handle: "fd_start h = PIPE_MARK \<Longrightarrow> sv_handle K fd (sv_close K h k) = sv_handle K fd k"
    and free_live: "live (sv_free K k) = live k" and free_handle: "sv_handle K fd (sv_free K k) = sv_handle K fd k"
    and alloc_live: "sv_alloc K k = (b, k') \<Longrightarrow> live k' = live k"
    and check_live: "sv_check K k = (b, k') \<Longrightarrow> live k' = live k"
    and stat_live: "sv_stat K name k = (b, k') \<Longrightarrow> live k' = live k"
    and write_live: "sv_write K name k = (b, k') \<Longrightarrow> live k' = live k"
    and cloexec_live: "live (sv_cloexec K fd k) = live k"
    and flags_live: "sv_flags K fd i k = (f, k') \<Longrightarrow> live k' = live k"
    and pair_live: "sv_pair K f k = (r, k') \<Longrightarrow> live k' = live k \<and> sv_handle K fd k' = sv_handle K fd k"
    and pair_ends: "sv_pair K f k = (Some (mine, theirs), k') \<Longrightarrow> fd_start mine = PIPE_MARK \<and> fd_start theirs = PIPE_MARK"
    and yield_usound: "usound (live (host s)) s \<Longrightarrow> usound (live (host (sv_yield K s))) (sv_yield K s)"
    and yield_listener: "usound (live (host s)) s \<Longrightarrow> listener live x s \<Longrightarrow> listener live x (sv_yield K s)"
    and check_handle: "sv_check K k = (b, k') \<Longrightarrow> sv_handle K fd k \<noteq> None \<Longrightarrow> sv_handle K fd k' \<noteq> None"
    and yield_handle: "sv_handle K fd (host s) \<noteq> None \<Longrightarrow> sv_handle K fd (host (sv_yield K s)) \<noteq> None"
begin

lemma close_all_live: "\<forall>h \<in> set hs. fd_start h = PIPE_MARK \<Longrightarrow> live (close_all K hs k) = live k \<and> sv_handle K fd (close_all K hs k) = sv_handle K fd k"
  unfolding close_all_def by (induction hs arbitrary: k) (auto simp: close_live close_handle)

lemma drop_sound:
  assumes "usound (add_mset x M) s"
  obtains t where "unix_drop K x s = Some t" "usound M t" "prog t = prog s" "live (host t) = live (host s)"
    "\<And>fd. sv_handle K fd (host t) = sv_handle K fd (host s)" "\<And>m. Suc m \<noteq> unat x \<Longrightarrow> sock_at m t = sock_at m s"
proof -
  obtain t hs where t: "unix_drop K x s = Some t" "usound M t" "prog t = prog s"
    "host t = host s \<or> host t = sv_free K (close_all K hs (host s)) \<and> (\<forall>h \<in> set hs. fd_start h = PIPE_MARK)"
    "\<forall>m. Suc m \<noteq> unat x \<longrightarrow> sock_at m t = sock_at m s"
    using unix_drop_sound [OF assms, of K] by metis
  have "live (host t) = live (host s) \<and> sv_handle K fd (host t) = sv_handle K fd (host s)" for fd
    using t(4) close_all_live [of hs "host s" fd] by (auto simp: free_live free_handle)
  then show ?thesis using that t by blast
qed

lemma same_sound: "usound (live (host s)) s \<Longrightarrow> socks t = socks s \<Longrightarrow> live (host t) = live (host s) \<Longrightarrow> usound (live (host t)) t"
  by (simp add: usound_def)

lemma sock_of_live:
  assumes "sock_of (sv_handle K fd (host s)) s = Some (n, k)"
  obtains h where "sv_handle K fd (host s) = Some h" "is_unix h" "unat (fd_folder h) = Suc n" "n < 8" "sock_at n s = Some k"
    "fd_folder h \<in># live (host s)"
  using assms at_live by (metis sock_of_SomeD)

lemma sys_socket_sound:
  assumes "usound (live (host s)) s"
  shows "uresult live (sys_socket K domain type s)"
proof -
  define i where "i = free_slot (socks s)"
  define u where "u = (domain = 16)"
  obtain got k where a: "sv_alloc K (host s) = (got, k)" by (cases "sv_alloc K (host s)")
  obtain fd k1 where g: "sv_give K (unix_handle i type) k = (fd, k1)" by (cases "sv_give K (unix_handle i type) k")
  define s2 where "s2 = put_sock i (Some (new_sock u)) (s\<lparr>host := k\<rparr>)\<lparr>host := k1\<rparr>"
  note la = alloc_live [OF a]
  have e: "sys_socket K domain type s =
    (if domain = 1 \<and> type AND 0xF \<noteq> 1 then Ended (ERR EPROTONOSUPPORT) s else if i = 8 then Ended (ERR ENFILE) s
     else if \<not> got then Ended (ERR ENFILE) (s\<lparr>host := k\<rparr>)
     else if sint fd < 0 then (case unix_drop K (of_nat i + 1) s2 of None \<Rightarrow> Fault | Some t \<Rightarrow> Ended fd t)
     else if type AND 0x80000 \<noteq> 0 then Ended fd (s2\<lparr>host := sv_cloexec K fd (host s2)\<rparr>) else Ended fd s2)"
    unfolding sys_socket_def i_def [symmetric] Let_def a prod.case u_def [symmetric] by (simp add: put_sock_def g s2_def)
  have oom: "usound (live (host (s\<lparr>host := k\<rparr>))) (s\<lparr>host := k\<rparr>)" by (rule same_sound [OF assms]) (simp_all add: la)
  show ?thesis
  proof (cases "i = 8")
    case True
    then show ?thesis using assms unfolding e by simp
  next
    case False
    then have i: "i < 8" "socks s ! i = None"
      using free_slot_spec [of "socks s"] usoundD(1) [OF assms] by (auto simp: i_def)
    note h = unix_handle_ends [OF i(1), of type]
    let ?M = "add_mset (fd_folder (unix_handle i type)) (live (host s))"
    have r0: "refs_to (live (host s)) i = 0" using usoundD(4) [OF assms i(1)] i(2) by (simp add: counted_def)
    have us: "usound ?M t" if "socks t = (socks s)[i := Some (new_sock u)]" "size ?M < 2 ^ 32" for t
    proof (rule usound_change [OF assms i(1) that(1) _ that(2)])
      show "counted ?M i (Some (new_sock u))" using h(2) r0 i(1) new_sock_ok [of u] by (simp add: counted_def) (simp add: new_sock_def)
    qed (use usoundD(3) [OF assms] h(2) i(1) in auto)
    have fo: "of_nat i + 1 = fd_folder (unix_handle i type)" by (simp add: unix_handle_def)
    note lg = give_live [OF g]
    show ?thesis
    proof (cases "sint fd < 0")
      case True
      then have l: "live k1 = live (host s)" using lg la by simp
      show ?thesis
      proof (cases "size ?M < 2 ^ 32")
        case m: True
        have "usound ?M s2" by (rule us [OF _ m]) (simp add: s2_def put_sock_def)
        then obtain t where "unix_drop K (fd_folder (unix_handle i type)) s2 = Some t" "usound (live (host s)) t" "live (host t) = live (host s2)"
          by (rule drop_sound)
        then show ?thesis using True assms oom l unfolding e fo by (simp add: s2_def put_sock_def)
      next
        case m: False
        let ?t = "put_sock i None (s2\<lparr>host := sv_free K (close_all K [] (host s2))\<rparr>)"
        have "(socks s)[i := None] = socks s" using i by (metis list_update_id)
        then have "usound (live (host ?t)) ?t"
          using usound_socks [OF assms, of ?t] l by (simp add: s2_def put_sock_def close_all_def free_live)
        moreover have "unix_drop K (fd_folder (unix_handle i type)) s2 = Some ?t"
          using unix_number [OF h(2) i(1)] usoundD(1) [OF assms] i(1)
          by (simp add: unix_drop_def sock_at_def s2_def put_sock_def new_sock_def)
        ultimately show ?thesis using True assms oom unfolding e fo by simp
      qed
    next
      case False
      then have l: "live k1 = ?M" using lg la h(1) by simp
      have "uresult live (Ended fd t)" if "socks t = (socks s)[i := Some (new_sock u)]" "live (host t) = live k1" for t :: "'k unix"
        using us [OF that(1)] that(2) l by simp
      then have "uresult live (if type AND 0x80000 \<noteq> 0 then Ended fd (s2\<lparr>host := sv_cloexec K fd (host s2)\<rparr>) else Ended fd s2)"
        by (simp add: s2_def put_sock_def cloexec_live)
      then show ?thesis using False assms oom unfolding e by auto
    qed
  qed
qed

lemma sys_listen_sound:
  assumes "usound (live (host s)) s"
  shows "uresult live (sys_listen K fd s)"
proof (cases "sock_of (sv_handle K fd (host s)) s")
  case (Some p)
  obtain n k where p: "p = (n, k)" by (cases p)
  obtain h where k: "sock_at n s = Some k" using Some p by (auto elim: sock_of_SomeD)
  have "usound (live (host s)) (put_sock n (Some (k\<lparr>k_listening := True\<rparr>)) s)"
    by (rule usound_set [OF assms k]) (use usound_sock [OF assms k] in \<open>auto simp: sock_ok_def put_sock_def\<close>)
  then show ?thesis using assms Some p by (simp add: sys_listen_def) (simp add: put_sock_def)
qed (use assms in \<open>simp add: sys_listen_def\<close>)

lemma sys_bind_sound:
  assumes "usound (live (host s)) s"
  shows "uresult live (sys_bind K fd addr len s)"
proof (cases "sock_of (sv_handle K fd (host s)) s")
  case (Some p)
  obtain n k where p: "p = (n, k)" by (cases p)
  have k: "sock_at n s = Some k" using Some p by (auto elim: sock_of_SomeD)
  show ?thesis
  proof (cases "name_of K addr len s")
    case None
    then show ?thesis using assms Some p by (simp add: sys_bind_def)
  next
    case n: (Some name)
    obtain b1 k1 where st: "(if abstract_name name then (False, host s) else sv_stat K name (host s)) = (b1, k1)" by fastforce
    obtain b2 k2 where wt: "(if abstract_name name then (True, host (s\<lparr>host := k1\<rparr>)) else sv_write K name (host (s\<lparr>host := k1\<rparr>))) = (b2, k2)" by fastforce
    have l: "live k1 = live (host s)" "live k2 = live k1"
      using st wt stat_live [of name "host s"] write_live [of name k1] by (auto split: if_splits)
    have same: "usound (live j) (s\<lparr>host := j\<rparr>)" if "live j = live (host s)" for j using same_sound [OF assms, of "s\<lparr>host := j\<rparr>"] that by simp
    have "usound (live k2) (put_sock n (Some (k\<lparr>k_name := name\<rparr>)) (s\<lparr>host := k1, host := k2\<rparr>))"
      unfolding l by (rule usound_set [OF assms k])
        (use usound_sock [OF assms k] name_of_length [OF n] in \<open>auto simp: sock_ok_def put_sock_def\<close>)
    moreover have "set_name name k = Some (k\<lparr>k_name := name\<rparr>)" using name_of_length [OF n] by (simp add: set_name_def)
    ultimately show ?thesis using assms same [of k1] same [of k2] l
      unfolding sys_bind_def Some p option.case prod.case n Let_def st wt by (auto simp: put_sock_def)
  qed
qed (use assms in \<open>simp add: sys_bind_def\<close>)

lemma queue_ok:
  assumes "sock_ok k" "k_queued k \<noteq> 8" "fd_start h = PIPE_MARK"
  shows "wr (k_queue k) (unat (k_queued k)) h = Some ((k_queue k)[unat (k_queued k) := h])"
    "sock_ok (k\<lparr>k_queue := (k_queue k)[unat (k_queued k) := h], k_queued := k_queued k + 1\<rparr>)"
proof -
  have "unat (k_queued k) \<noteq> 8"
  proof
    assume a: "unat (k_queued k) = 8"
    have "k_queued k = of_nat 8" by (simp flip: a)
    then show False using assms(2) by simp
  qed
  then have q: "unat (k_queued k) < 8" "length (k_queue k) = 8" using assms(1) by (simp_all add: sock_ok_def)
  then show "wr (k_queue k) (unat (k_queued k)) h = Some ((k_queue k)[unat (k_queued k) := h])" by simp
  have "unat (k_queued k + 1) = Suc (unat (k_queued k))" using q(1) by (subst unat_add_small) simp_all
  then show "sock_ok (k\<lparr>k_queue := (k_queue k)[unat (k_queued k) := h], k_queued := k_queued k + 1\<rparr>)"
    using assms(1,3) q by (auto simp: sock_ok_def take_Suc_conv_app_nth)
qed

text \<open>A connection made: the other end is queued, the socket let go of, and its descriptor is this end.\<close>

lemma connect_made:
  assumes "usound (live (host s)) s" "sv_handle K fd (host s) = Some h" "is_unix h" "sock_of (Some h) s = Some (n, k)"
    "name_of K addr len s = Some name" "bound name s = Some m" "sock_at m s = Some to" "k_listening to" "k_queued to \<noteq> 8"
    "sv_pair K (fd_offset h AND 0x800) (host s) = (Some (mine, theirs), k1)"
  obtains s3 where "sys_connect K fd addr len s = Ended 0 (s3\<lparr>host := sv_put K fd mine (host s3)\<rparr>)"
    "usound (live (host s) - {#fd_folder h#}) s3" "live (host s3) = live (host s)" "\<And>fd. sv_handle K fd (host s3) = sv_handle K fd (host s)"
    "\<And>j. Suc j \<noteq> unat (fd_folder h) \<Longrightarrow> sock_at j s3 = (if j = m then Some (queue_more theirs to) else sock_at j s)"
    "sock_at n s3 = (if 0 < k_refs k - 1 then Some ((if n = m then queue_more theirs to else k)\<lparr>k_refs := k_refs k - 1\<rparr>) else None)"
    "fd_start mine = PIPE_MARK"
proof -
  have l1: "live k1 = live (host s)" "\<And>fd. sv_handle K fd k1 = sv_handle K fd (host s)" using pair_live [OF assms(10)] by simp_all
  have marks: "fd_start mine = PIPE_MARK" "fd_start theirs = PIPE_MARK" using pair_ends [OF assms(10)] by simp_all
  note to = usound_sock [OF assms(1,7)]
  let ?s2 = "put_sock m (Some (queue_more theirs to)) (s\<lparr>host := k1\<rparr>)"
  have hl: "fd_folder h \<in># live (host s)" by (rule at_live [OF assms(2,3)])
  then obtain M where M: "live (host s) = add_mset (fd_folder h) M" by (metis multi_member_split)
  note q = queue_ok [of to theirs, folded queue_more_def]
  have "usound (live (host s)) ?s2" using to q assms(9) marks
    by (intro usound_set [OF assms(1,7), of "queue_more theirs to"]) (simp_all add: put_sock_def queue_more_def)
  then obtain s3 where s3: "unix_drop K (fd_folder h) ?s2 = Some s3" "usound M s3" "live (host s3) = live (host ?s2)"
    "\<And>fd. sv_handle K fd (host s3) = sv_handle K fd (host ?s2)" "\<And>m. Suc m \<noteq> unat (fd_folder h) \<Longrightarrow> sock_at m s3 = sock_at m ?s2"
    unfolding M by (rule drop_sound) blast
  have "sys_connect K fd addr len s = Ended 0 (s3\<lparr>host := sv_put K fd mine (host s3)\<rparr>)"
    using assms(4-10) queue_ok(1) [of to theirs] to marks s3(1) unfolding sys_connect_def Let_def assms(2)
    by (simp add: queue_more_def)
  moreover have "sock_at j ?s2 = (if j = m then Some (queue_more theirs to) else sock_at j s)" for j
    using assms(7) by (subst sock_at_put) (simp_all add: sock_at_Some)
  moreover have "live (host s) - {#fd_folder h#} = M" "host ?s2 = k1" using M by (simp_all add: put_sock_def)
  moreover have "sock_at n s3 = (if 0 < k_refs k - 1 then Some ((if n = m then queue_more theirs to else k)\<lparr>k_refs := k_refs k - 1\<rparr>) else None)"
  proof -
    have n: "unat (fd_folder h) = Suc n" "n < 8" "sock_at n s = Some k" using assms(4) by (auto elim: sock_of_SomeD)
    then have "sock_at n ?s2 = Some (if n = m then queue_more theirs to else k)"
      "k_refs (if n = m then queue_more theirs to else k) = k_refs k"
      using calculation(2) assms(7) by (auto simp: queue_more_def)
    then show ?thesis using unix_drop_here [OF s3(1) n(1,2)] by simp
  qed
  ultimately show ?thesis using that s3 l1 marks(1) by simp
qed

lemma sys_connect_sound:
  assumes "usound (live (host s)) s" "\<And>h. sv_handle K fd (host s) = Some h \<Longrightarrow> is_unix h \<Longrightarrow> fd_folder h = y"
  shows "carries live y s (sys_connect K fd addr len s)"
proof (cases "sock_of (sv_handle K fd (host s)) s")
  case None
  then show ?thesis by (simp add: sys_connect_def Let_def carries_same [where live = live and s = s and t = s, OF assms(1)])
next
  case (Some p)
  obtain n k where p: "p = (n, k)" by (cases p)
  obtain h where h: "sv_handle K fd (host s) = Some h" "is_unix h" "fd_folder h \<in># live (host s)"
    using sock_of_live Some p by metis
  have "sock_of (Some h) s = Some (n, k)" using Some p h(1) by simp
  note e = sys_connect_def Let_def h(1) this option.case prod.case option.sel
  have st: "live k1 = live (host s)" if "(if abstract_name name then (True, host s) else sv_stat K name (host s)) = (b1, k1)" for name b1 k1
    using that stat_live [of name "host s"] by (auto split: if_splits)
  have same: "carries live y s (Ended e (s\<lparr>host := j\<rparr>))" if "live j = live (host s)" for j and e :: u64
    using carries_same [where live = live and s = s and t = "s\<lparr>host := j\<rparr>" and y = y and a = e, OF assms(1)] that by simp
  have stays: "carries live y s (Ended e s)" for e :: u64 using carries_same [where live = live and s = s and t = s, OF assms(1)] by simp
  have refused: "carries live y s (case (if abstract_name name then (True, host s) else sv_stat K name (host s)) of
      (there, k1) \<Rightarrow> Ended (ERR (if there then ECONNREFUSED else ENOENT)) (s\<lparr>host := k1\<rparr>))" for name
  proof -
    obtain b k1 where x: "(if abstract_name name then (True, host s) else sv_stat K name (host s)) = (b, k1)" by fastforce
    show ?thesis unfolding x prod.case using same [OF st [OF x]] by simp
  qed
  show ?thesis
  proof (cases "name_of K addr len s")
    case None
    then show ?thesis using stays by (simp add: e)
  next
    case nm: (Some name)
    define found where "found = (case bound name s of None \<Rightarrow> None | Some m \<Rightarrow> map_option (\<lambda>to. (m, to)) (sock_at m s))"
    show ?thesis
    proof (cases found)
      case None
      then show ?thesis unfolding e nm found_def [symmetric] using refused by simp
    next
      case f: (Some mt)
      obtain m to where mt: "mt = (m, to)" by (cases mt)
      have m: "sock_at m s = Some to" using f mt by (auto simp: found_def split: option.splits)
      show ?thesis
      proof (cases "k_listening to \<and> k_queued to \<noteq> 8")
        case False
        then show ?thesis unfolding e nm found_def [symmetric] f mt using refused stays by auto
      next
        case ok: True
        obtain pair k1 where pr: "sv_pair K (fd_offset h AND 0x800) (host s) = (pair, k1)" by (cases "sv_pair K (fd_offset h AND 0x800) (host s)")
        have l1: "live k1 = live (host s)" using pair_live [OF pr] by simp
        show ?thesis
        proof (cases pair)
          case None
          then show ?thesis unfolding e nm found_def [symmetric] f mt using ok pr same l1 by simp
        next
          case ends: (Some q)
          obtain mine theirs where q: "q = (mine, theirs)" by (cases q)
          have "bound name s = Some m" using f mt by (auto simp: found_def split: option.splits)
          then obtain s3 where s3: "sys_connect K fd addr len s = Ended 0 (s3\<lparr>host := sv_put K fd mine (host s3)\<rparr>)"
            "usound (live (host s) - {#fd_folder h#}) s3" "live (host s3) = live (host s)" "\<And>fd. sv_handle K fd (host s3) = sv_handle K fd (host s)"
            "\<And>j. Suc j \<noteq> unat (fd_folder h) \<Longrightarrow> sock_at j s3 = (if j = m then Some (queue_more theirs to) else sock_at j s)"
            "sock_at n s3 = (if 0 < k_refs k - 1 then Some ((if n = m then queue_more theirs to else k)\<lparr>k_refs := k_refs k - 1\<rparr>) else None)"
            "fd_start mine = PIPE_MARK"
            using connect_made [OF assms(1) h(1,2) \<open>sock_of (Some h) s = Some (n, k)\<close> nm _ m _ _ pr [unfolded ends q]] ok by metis
          obtain M where M: "live (host s) = add_mset (fd_folder h) M" using h(3) by (metis multi_member_split)
          have "sv_handle K fd (host s3) = Some h" using s3(4) h(1) by simp
          then have live: "live (sv_put K fd mine (host s3)) = M" using put_live [OF _ h(2) s3(7)] s3(3) M by simp
          then have "usound (live (sv_put K fd mine (host s3))) (s3\<lparr>host := sv_put K fd mine (host s3)\<rparr>)"
            using usound_socks [OF s3(2), of "s3\<lparr>host := sv_put K fd mine (host s3)\<rparr>"] M by simp
          moreover have "listener live x (s3\<lparr>host := sv_put K fd mine (host s3)\<rparr>)"
            if x: "x \<noteq> y \<or> 1 < count (live (host s)) x" "listener live x s" for x
          proof (cases "x = y")
            case True
            have hy: "fd_folder h = x" using assms(2) h(1,2) True by blast
            then have c: "1 < count (live (host s)) (fd_folder h)" "fd_folder h \<in># M" using x(1) True M by auto
            have n: "unat (fd_folder h) = Suc n" "n < 8" "sock_at n s = Some k" using \<open>sock_of (Some h) s = Some (n, k)\<close> by (auto elim: sock_of_SomeD)
            have "of_nat (Suc n) = fd_folder h" by (simp flip: n(1))
            then have "unat (k_refs k) = count (live (host s)) (fd_folder h)"
              using usoundD(4) [OF assms(1) n(2)] n(3) by (simp add: counted_def refs_to_def sock_at_Some)
            then have "0 < k_refs k - 1" using c(1) by (subst word_less_nat_alt) (subst unat_pred, auto)
            moreover have "k_listening k" using x(2) hy n(1,3) by (auto simp: listener_def)
            ultimately show ?thesis using s3(6) n(1) hy c(2) live ok by (auto simp: listener_def queue_more_def)
          next
            case ne: False
            have hy: "fd_folder h = y" using assms(2) h(1,2) by blast
            have xM: "x \<in># M" using x(2) ne M hy by (auto simp: listener_def)
            have xl: "1 \<le> unat x" using usoundD(3) [OF assms(1)] x(2) by (simp add: listener_def)
            have "unat x \<noteq> unat (fd_folder h)" using ne hy by (metis unsigned_word_eqI)
            then have "sock_at (unat x - 1) s3 = (if unat x - 1 = m then Some (queue_more theirs to) else sock_at (unat x - 1) s)"
              using s3(5) [of "unat x - 1"] xl by simp
            then show ?thesis using x(2) xM live ok by (auto simp: listener_def queue_more_def)
          qed
          ultimately show ?thesis using live M s3(1) by (simp add: carries_def)
        qed
      qed
    qed
  qed
qed

lemma await_sound:
  assumes "usound (live (host s)) s" "listener live x s" "unat x = Suc n" "sv_handle K fd (host s) \<noteq> None"
  shows "case await K fuel fd n s of
      Ended e t \<Rightarrow> usound (live (host t)) t \<and> listener live x t \<and> (e = 0 \<longrightarrow> (\<exists>k. sock_at n t = Some k \<and> k_queued k \<noteq> 0))
    | Fault \<Rightarrow> False | Waits \<Rightarrow> True"
  using assms
proof (induction fuel arbitrary: s)
  case (Suc fuel)
  obtain k where k: "sock_at n s = Some k" using Suc.prems(2,3) by (auto simp: listener_def)
  obtain hit k1 where c: "sv_check K (host s) = (hit, k1)" by (cases "sv_check K (host s)")
  have l: "live k1 = live (host s)" using check_live [OF c] .
  have s1: "usound (live (host (s\<lparr>host := k1\<rparr>))) (s\<lparr>host := k1\<rparr>)" "listener live x (s\<lparr>host := k1\<rparr>)"
    using same_sound [OF Suc.prems(1)] Suc.prems(2) l by (simp_all add: listener_def)
  have y: "usound (live (host (sv_yield K (s\<lparr>host := k1\<rparr>)))) (sv_yield K (s\<lparr>host := k1\<rparr>))" "listener live x (sv_yield K (s\<lparr>host := k1\<rparr>))"
    using yield_usound [OF s1(1)] yield_listener [OF s1] by simp_all
  obtain h where h: "sv_handle K fd (host s) = Some h" using Suc.prems(4) by blast
  have "sv_handle K fd (host (s\<lparr>host := k1\<rparr>)) \<noteq> None" using check_handle [OF c Suc.prems(4)] by simp
  then have yh: "sv_handle K fd (host (sv_yield K (s\<lparr>host := k1\<rparr>))) \<noteq> None" by (rule yield_handle)
  show ?case using k c h Suc.prems(1,2) s1 Suc.IH [OF y Suc.prems(3) yh] by (auto simp: ERR_def split: outcome.splits)
qed simp

lemma queue_less:
  assumes "sock_ok k" "k_queued k \<noteq> 0"
  obtains q where "do { left \<leftarrow> slice (k_queue k) 1 (unat (k_queued k - 1)); blit (k_queue k) 0 left } = Some q"
    "sock_ok (k\<lparr>k_queue := q, k_queued := k_queued k - 1\<rparr>)"
    "take (unat (k_queued k - 1)) q = tl (take (unat (k_queued k)) (k_queue k))"
    "rd (k_queue k) 0 = Some (k_queue k ! 0)" "fd_start (k_queue k ! 0) = PIPE_MARK"
proof -
  have q: "length (k_queue k) = 8" "unat (k_queued k) \<le> 8" "0 < unat (k_queued k)" using assms by (auto simp: sock_ok_def unat_gt_0)
  have q1: "unat (k_queued k - 1) = unat (k_queued k) - 1" using assms(2) by (rule unat_pred)
  define left where "left = take (unat (k_queued k) - 1) (drop 1 (k_queue k))"
  have l: "left = tl (take (unat (k_queued k)) (k_queue k))" "length left = unat (k_queued k) - 1"
    using q by (simp_all add: left_def drop_Suc tl_take)
  let ?q = "left @ drop (length left) (k_queue k)"
  have "take (unat (k_queued k)) (k_queue k) ! 0 \<in> set (take (unat (k_queued k)) (k_queue k))" using q by (intro nth_mem) simp
  then have "fd_start (k_queue k ! 0) = PIPE_MARK" using assms(1) q by (simp add: sock_ok_def)
  moreover have "set left \<subseteq> set (take (unat (k_queued k)) (k_queue k))" unfolding l(1) by (cases "take (unat (k_queued k)) (k_queue k)") auto
  then have "sock_ok (k\<lparr>k_queue := ?q, k_queued := k_queued k - 1\<rparr>)" using assms(1) q q1 l(2) by (auto simp: sock_ok_def)
  moreover have "do { left \<leftarrow> slice (k_queue k) 1 (unat (k_queued k - 1)); blit (k_queue k) 0 left } = Some ?q"
    using q q1 l(2) by (simp add: slice_def blit_def left_def)
  ultimately show ?thesis using that [of ?q] q q1 l by simp
qed

lemma accept_first:
  assumes "usound (live (host s)) s" "sv_handle K fd (host s) = Some h" "sock_of (Some h) s = Some (n, k)" "k_listening k" "k_queued k \<noteq> 0" "0 < fuel"
    "sv_give K ((k_queue k ! 0)\<lparr>fd_offset := (fd_offset (k_queue k ! 0) AND NOT 0x800) OR (ucast flags AND 0x800)\<rparr>) (host s) = (got, k1)" "0 \<le> sint got"
  obtains t q where "accept_with K fuel fd addr lenp flags s = Ended got t"
    "socks t = (socks s)[n := Some (k\<lparr>k_queue := q, k_queued := k_queued k - 1\<rparr>)]"
    "take (unat (k_queued k - 1)) q = tl (take (unat (k_queued k)) (k_queue k))"
    "host t = (if flags AND 0x80000 \<noteq> 0 then sv_cloexec K got k1 else k1)"
proof -
  have k: "sock_at n s = Some k" using assms(3) by (auto elim: sock_of_SomeD)
  then have ok: "sock_ok k" using usound_sock [OF assms(1)] by blast
  obtain q where q: "do { left \<leftarrow> slice (k_queue k) 1 (unat (k_queued k - 1)); blit (k_queue k) 0 left } = Some q"
    "take (unat (k_queued k - 1)) q = tl (take (unat (k_queued k)) (k_queue k))" "rd (k_queue k) 0 = Some (k_queue k ! 0)"
    using queue_less [OF ok assms(5)] by metis
  obtain f where f: "fuel = Suc f" using assms(6) gr0_implies_Suc by blast
  let ?k = "k\<lparr>k_queue := q, k_queued := k_queued k - 1\<rparr>"
  have "do { left \<leftarrow> slice (k_queue k) 1 (unat (k_queued k - 1)); q \<leftarrow> blit (k_queue k) 0 left; Some (k\<lparr>k_queue := q, k_queued := k_queued k - 1\<rparr>) } = Some ?k"
    using q(1) by (auto simp: bind_eq_Some_conv)
  then have "accept_with K fuel fd addr lenp flags s = Ended got (tell_peer K addr lenp
      (if flags AND 0x80000 \<noteq> 0 then put_sock n (Some ?k) (s\<lparr>host := k1\<rparr>)\<lparr>host := sv_cloexec K got k1\<rparr> else put_sock n (Some ?k) (s\<lparr>host := k1\<rparr>)))"
    using assms(3-5,7,8) k q(3) unfolding accept_with_def Let_def assms(2) f by (simp add: put_sock_def)
  then show ?thesis using q(2) by (intro that) (auto simp: put_sock_def)
qed

lemma accept_with_sound:
  assumes "usound (live (host s)) s"
  shows "uresult live (accept_with K fuel fd addr lenp flags s)"
proof (cases "sock_of (sv_handle K fd (host s)) s")
  case None
  then show ?thesis using assms by (simp add: accept_with_def Let_def)
next
  case (Some p)
  obtain n k0 where p: "p = (n, k0)" by (cases p)
  obtain h where h: "sv_handle K fd (host s) = Some h" "is_unix h" "unat (fd_folder h) = Suc n" "n < 8" "sock_at n s = Some k0"
    "fd_folder h \<in># live (host s)"
    using sock_of_live Some p by metis
  have "sock_of (Some h) s = Some (n, k0)" using Some p h(1) by simp
  note e = accept_with_def Let_def h(1) this option.case prod.case option.sel
  show ?thesis
  proof (cases "k_listening k0")
    case False
    then show ?thesis using assms by (simp add: e)
  next
    case True
    define r where "r = await K fuel fd n s"
    have "listener live (fd_folder h) s" using h(3,5,6) True by (simp add: listener_def)
    note await_sound [OF assms this h(3), of fd fuel, folded r_def]
    then have aw: "case r of
        Ended e t \<Rightarrow> usound (live (host t)) t \<and> listener live (fd_folder h) t \<and> (e = 0 \<longrightarrow> (\<exists>k. sock_at n t = Some k \<and> k_queued k \<noteq> 0))
      | Fault \<Rightarrow> False | Waits \<Rightarrow> True" using h(1) by simp
    show ?thesis
    proof (cases r)
      case (Ended err s1)
      have s1: "usound (live (host s1)) s1" using aw Ended by simp
      show ?thesis
      proof (cases "err = 0")
        case False
        then show ?thesis unfolding e r_def [symmetric] Ended using True s1 by simp
      next
        case e0: True
        then obtain k where k: "sock_at n s1 = Some k" "k_queued k \<noteq> 0" using aw Ended by auto
        note ok = usound_sock [OF s1 k(1)]
        obtain q where q: "do { left \<leftarrow> slice (k_queue k) 1 (unat (k_queued k - 1)); blit (k_queue k) 0 left } = Some q"
          "sock_ok (k\<lparr>k_queue := q, k_queued := k_queued k - 1\<rparr>)" "rd (k_queue k) 0 = Some (k_queue k ! 0)" "fd_start (k_queue k ! 0) = PIPE_MARK"
          using queue_less [OF _ k(2)] ok by metis
        define first where "first = (k_queue k ! 0)\<lparr>fd_offset := (fd_offset (k_queue k ! 0) AND NOT 0x800) OR (ucast flags AND 0x800)\<rparr>"
        have first: "fd_start first = PIPE_MARK" "\<not> is_unix first" using q(4) by (simp_all add: first_def is_unix_def)
        obtain got k1 where g: "sv_give K first (host s1) = (got, k1)" by (cases "sv_give K first (host s1)")
        have l: "live k1 = live (host s1)" using give_live [OF g] first by simp
        define k' where "k' = k\<lparr>k_queue := q, k_queued := k_queued k - 1\<rparr>"
        have move: "do { left \<leftarrow> slice (k_queue k) 1 (unat (k_queued k - 1)); q \<leftarrow> blit (k_queue k) 0 left; Some (k\<lparr>k_queue := q, k_queued := k_queued k - 1\<rparr>) } = Some k'"
          using q(1) by (auto simp: bind_eq_Some_conv k'_def)
        have k'_ok: "sock_ok k'" using q(2) by (simp add: k'_def)
        have us: "usound (live (host s1)) t" if "socks t = (socks s1)[n := Some k']" for t :: "'k unix"
          by (rule usound_set [OF s1 k(1) k'_ok _ that]) (simp add: k'_def)
        have rest: "uresult live (Ended got (tell_peer K addr lenp s4))" if "socks s4 = (socks s1)[n := Some k']" "live (host s4) = live k1" for s4
          using us [of "tell_peer K addr lenp s4"] that l by simp
        have oom: "uresult live (Ended got (s1\<lparr>host := k1\<rparr>))" using same_sound [OF s1, of "s1\<lparr>host := k1\<rparr>"] l by simp
        show ?thesis
          unfolding e r_def [symmetric] Ended proceed.simps k(1) q(3) first_def [symmetric] g move
          using True e0 oom rest by (auto simp: put_sock_def cloexec_live)
      qed
    next
      case Fault
      then show ?thesis using aw by simp
    next
      case Waits
      then show ?thesis unfolding e r_def [symmetric] using True by simp
    qed
  qed
qed

lemma close_sound:
  assumes "usound (live (host s)) s" "x \<in># live (host s)" "live j = live (host s) - {#x#}"
  obtains t where "unix_drop K x (s\<lparr>host := j\<rparr>) = Some t" "usound (live (host t)) t"
proof -
  have "add_mset x (live j) = live (host s)" using assms(2,3) by simp
  then have "usound (add_mset x (live j)) (s\<lparr>host := j\<rparr>)" using usound_socks [OF assms(1), of "s\<lparr>host := j\<rparr>"] by simp
  then obtain t where "unix_drop K x (s\<lparr>host := j\<rparr>) = Some t" "usound (live j) t" "live (host t) = live j" by (auto elim: drop_sound)
  then show ?thesis using that by simp
qed

lemma dup_sound:
  assumes "usound (live (host s)) s" "x \<in># live (host s)" "live j = add_mset x (live (host s))" "size (live j) < 2 ^ 32"
  shows "usound (live j) (unix_hold x (s\<lparr>host := j\<rparr>))"
  using unix_hold_sound [OF usound_socks [OF assms(1)] assms(2), of "s\<lparr>host := j\<rparr>"] assms(3,4) by simp

end

end
