(* ===== verification/Net.thy ===== *)
theory Net
  imports UnixCalls PipeSteps Files
begin

text \<open>
  Sockets, pipes and descriptors together: the kernel of \<open>src/kernel/syscall.c\<close> for the sockets, with the
  model's own table of descriptors and its own pipes. It interprets \<open>net_kernel\<close> twice, alone and with
  programs that connect while \<open>accept\<close> waits; \<open>sock_step\<close> is any sequence of calls.
\<close>

section \<open>The kernel\<close>

text \<open>The files that exist, the arguments past the third, and what other programs will connect.\<close>

record world =
  w_os :: os
  w_names :: "u8 list list"
  w_args :: "nat \<Rightarrow> u64"
  w_script :: "(u64 \<times> u64 \<times> u64) list"

definition fd_at :: "u64 \<Rightarrow> world \<Rightarrow> handle option" where
  "fd_at fd w =
    (let d = unat (ucast fd :: u32)
     in if d < length (handles (w_os w)) \<and> fd_used (handles (w_os w) ! d) \<noteq> 0 then Some (handles (w_os w) ! d) else None)"

definition set_fd :: "u64 \<Rightarrow> handle \<Rightarrow> world \<Rightarrow> world" where
  "set_fd fd h w = w\<lparr>w_os := (w_os w)\<lparr>handles := (handles (w_os w))[unat (ucast fd :: u32) := h]\<rparr>\<rparr>"

definition fd_cloexec :: "u64 \<Rightarrow> world \<Rightarrow> world" where
  "fd_cloexec fd w = (case fd_at fd w of None \<Rightarrow> w | Some h \<Rightarrow> set_fd fd (h\<lparr>fd_used := fd_used h OR 2\<rparr>) w)"

definition world_alloc :: "world \<Rightarrow> bool \<times> world" where
  "world_alloc w = (let (b, s) = mem_answer (w_os w) in (b, w\<lparr>w_os := s\<rparr>))"

definition world_give :: "handle \<Rightarrow> world \<Rightarrow> u64 \<times> world" where
  "world_give h w = (let (fd, s) = os_give h (w_os w) in (fd, w\<lparr>w_os := s\<rparr>))"

definition world_check :: "world \<Rightarrow> bool \<times> world" where
  "world_check w = (interrupts (w_os w) (checked (w_os w)), w\<lparr>w_os := (w_os w)\<lparr>checked := checked (w_os w) + 1\<rparr>\<rparr>)"

definition net_pipes :: "world pipe_kernel" where
  "net_pipes =
    \<lparr>pk_alloc = (\<lambda>n. world_alloc), pk_free = (\<lambda>w. w), pk_range = (\<lambda>a n w. window (w_os w) a n), pk_check = world_check,
     pk_only = (\<lambda>w. False), pk_yield = (\<lambda>s. s),
     pk_sigpipe = (\<lambda>w. w\<lparr>w_os := (w_os w)\<lparr>sent := sent (w_os w) @ [(fst (ids (w_os w)), 13)]\<rparr>\<rparr>),
     pk_pid = (\<lambda>w. fst (ids (w_os w))), pk_handle = fd_at, pk_give = world_give,
     pk_unuse = (\<lambda>fd w. case fd_at fd w of None \<Rightarrow> w | Some h \<Rightarrow> set_fd fd (h\<lparr>fd_used := 0\<rparr>) w), pk_cloexec = fd_cloexec,
     pk_hold = (\<lambda>h w. w), pk_forget = (\<lambda>h w. w), pk_close = (\<lambda>h w. w)\<rparr>"

text \<open>\<open>rounds\<close> is how long a call on a pair may wait.\<close>

definition net_services :: "nat \<Rightarrow> (world ipc) services" where
  "net_services rounds =
    \<lparr>sv_handle = (\<lambda>fd k. fd_at fd (env k)),
     sv_put = (\<lambda>fd h k. k\<lparr>env := set_fd fd h (env k)\<rparr>),
     sv_range = (\<lambda>a n k. window (w_os (env k)) a n),
     sv_give = (\<lambda>h k. let (fd, w) = world_give h (env k) in (fd, k\<lparr>env := w\<rparr>)),
     sv_cloexec = (\<lambda>fd k. k\<lparr>env := fd_cloexec fd (env k)\<rparr>),
     sv_alloc = (\<lambda>k. let (b, w) = world_alloc (env k) in (b, k\<lparr>env := w\<rparr>)),
     sv_free = (\<lambda>k. k),
     sv_check = (\<lambda>k. let (b, w) = world_check (env k) in (b, k\<lparr>env := w\<rparr>)),
     sv_yield = (\<lambda>s. s),
     sv_close = handle_close net_pipes,
     sv_pair = pair_new net_pipes,
     sv_stat = (\<lambda>name k. (name \<in> set (w_names (env k)), k)),
     sv_write = (\<lambda>name k. (True, k\<lparr>env := (env k)\<lparr>w_names := name # w_names (env k)\<rparr>\<rparr>)),
     sv_args = (\<lambda>i k. w_args (env k) i),
     sv_thread = (\<lambda>k. fst (ids (w_os (env k)))),
     sv_share = handle_share net_pipes,
     sv_send = (\<lambda>fd iov n fds now m k. pair_send net_pipes rounds fd iov n fds now (k\<lparr>pmem := m\<rparr>)),
     sv_recv = (\<lambda>fd iov n now m k. case pair_recv net_pipes rounds fd iov n now (k\<lparr>pmem := m\<rparr>) of
        Ended (r, hs, c) t \<Rightarrow> Ended (r, hs, c, pmem t) t | Fault \<Rightarrow> Fault | Waits \<Rightarrow> Waits),
     sv_flags = pair_flags net_pipes,
     sv_sender = pair_sender\<rparr>"

section \<open>What the sockets rely on\<close>

definition socket_refs :: "world ipc \<Rightarrow> u32 multiset" where
  "socket_refs k = image_mset fd_folder (held_by is_unix (w_os (env k)))"

lemma is_unix_used [simp]: "is_unix (h\<lparr>fd_used := u\<rparr>) = is_unix h"
  by (simp add: is_unix_def)

lemma pipe_not_unix: "fd_start h = PIPE_MARK \<Longrightarrow> \<not> is_unix h"
  by (simp add: is_unix_def)

lemma held_by_simps [simp]:
  "held_by P (s\<lparr>asked := n\<rparr>) = held_by P s" "held_by P (s\<lparr>checked := n\<rparr>) = held_by P s" "held_by P (s\<lparr>sent := a\<rparr>) = held_by P s"
  by (simp_all add: held_by_def)

lemma fd_at_SomeD:
  "fd_at fd w = Some h \<Longrightarrow> unat (ucast fd :: u32) < length (handles (w_os w)) \<and> handles (w_os w) ! unat (ucast fd :: u32) = h \<and> fd_used h \<noteq> 0"
  by (auto simp: fd_at_def Let_def split: if_splits)

lemma fd_at_there: "(\<exists>h. fd_at fd w = Some h) \<longleftrightarrow>
    unat (ucast fd :: u32) < length (handles (w_os w)) \<and> fd_used (handles (w_os w) ! unat (ucast fd :: u32)) \<noteq> 0"
  by (auto simp: fd_at_def Let_def)

lemma fd_at_script [simp]: "fd_at fd (w\<lparr>w_script := l\<rparr>) = fd_at fd w" "fd_at fd (w\<lparr>w_os := (w_os w)\<lparr>checked := c\<rparr>\<rparr>) = fd_at fd w"
  by (simp_all add: fd_at_def Let_def)

lemma set_fd_refs:
  assumes "fd_at fd w = Some h" "fd_used h' \<noteq> 0 \<or> \<not> is_unix h'"
  shows "held_by is_unix (w_os (set_fd fd h' w)) =
    (if is_unix h' then add_mset h' (held_by is_unix (w_os w) - (if is_unix h then {#h#} else {#}))
     else held_by is_unix (w_os w) - (if is_unix h then {#h#} else {#}))"
proof -
  note d = fd_at_SomeD [OF assms(1)]
  obtain M where "mset (handles (w_os w)) = add_mset h M" using d by (metis multi_member_split nth_mem set_mset_mset)
  then show ?thesis using d assms(2) by (auto simp: held_by_def set_fd_def mset_update filter_diff_mset)
qed

lemma fd_cloexec_refs [simp]: "image_mset fd_folder (held_by is_unix (w_os (fd_cloexec fd w))) = image_mset fd_folder (held_by is_unix (w_os w))"
proof (cases "fd_at fd w")
  case (Some h)
  have u: "fd_used h OR 2 \<noteq> 0"
  proof
    assume "fd_used h OR 2 = 0"
    then have "fd_used h = 0" by (simp add: or_eq_0_iff)
    then show False using fd_at_SomeD [OF Some] by simp
  qed
  have "h \<in># held_by is_unix (w_os w)" if "is_unix h"
    using that fd_at_SomeD [OF Some] by (auto simp: held_by_def)
  then obtain M where M: "is_unix h \<Longrightarrow> held_by is_unix (w_os w) = add_mset h M" by (metis multi_member_split)
  show ?thesis
  proof (cases "is_unix h")
    case True
    then show ?thesis using set_fd_refs [OF Some, of "h\<lparr>fd_used := fd_used h OR 2\<rparr>"] u Some M
      by (simp add: fd_cloexec_def)
  next
    case False
    then show ?thesis using set_fd_refs [OF Some, of "h\<lparr>fd_used := fd_used h OR 2\<rparr>"] Some by (simp add: fd_cloexec_def)
  qed
qed (simp add: fd_cloexec_def)

lemma env_upd_pipe [simp]: "env (upd_pipe v f s) = env s"
  by (cases v) (simp_all add: upd_pipe_def)

lemma env_uncount [simp]: "env (uncount h s) = env s"
  by (simp add: uncount_def)

lemma work_env: "env (work net_pipes ts s) = env s"
proof (induction "net_pipes" ts s rule: work.induct)
  case (3 h ts s)
  obtain us t where d: "pipe_drop net_pipes (pair_out h s) s = (us, t)" by (cases "pipe_drop net_pipes (pair_out h s) s")
  then have "env t = env s" by (auto simp: pipe_drop_def Let_def net_pipes_def split: option.splits if_splits)
  then show ?case using 3 [OF d [symmetric]] d by simp
next
  case (4 h ts s)
  obtain us t where d: "pipe_drop net_pipes (pipe_of h s) s = (us, t)" by (cases "pipe_drop net_pipes (pipe_of h s) s")
  then have "env t = env s" by (auto simp: pipe_drop_def Let_def net_pipes_def split: option.splits if_splits)
  then show ?case using 4 [OF d [symmetric]] d by simp
qed (simp_all add: Let_def, simp_all add: net_pipes_def)

lemma close_env [simp]: "env (handle_close net_pipes h k) = env k"
  by (simp add: handle_close_def pipe_release_def work_env Let_def del: work.simps) (simp add: net_pipes_def)

lemma world_alloc_same:
  assumes "world_alloc w = (b, w')"
  shows "held_by P (w_os w') = held_by P (w_os w)" "fd_at fd w' = fd_at fd w" "w_names w' = w_names w" "w_script w' = w_script w"
  using assms by (auto simp: world_alloc_def mem_answer_def fd_at_def Let_def)

lemma new_end_env:
  assumes "new_end net_pipes s = (r, t)"
  shows "held_by P (w_os (env t)) = held_by P (w_os (env s))" "fd_at fd (env t) = fd_at fd (env s)"
proof -
  obtain b w where a: "world_alloc (env s) = (b, w)" by (cases "world_alloc (env s)")
  have pa: "pk_alloc net_pipes = (\<lambda>n. world_alloc)" by (simp add: net_pipes_def)
  have "env t = w \<or> env t = env s"
    using assms unfolding new_end_def Let_def pa a by (auto simp: set_pipe_def split: if_splits)
  then show "held_by P (w_os (env t)) = held_by P (w_os (env s))" "fd_at fd (env t) = fd_at fd (env s)"
    using world_alloc_same [OF a] by auto
qed

lemma pair_new_env:
  assumes "pair_new net_pipes f k = (r, t)"
  shows "held_by P (w_os (env t)) = held_by P (w_os (env k))" "fd_at fd (env t) = fd_at fd (env k)"
proof -
  obtain a s1 where a: "new_end net_pipes k = (a, s1)" by (cases "new_end net_pipes k")
  obtain b s2 where b: "new_end net_pipes s1 = (b, s2)" by (cases "new_end net_pipes s1")
  have "env t = env s1 \<or> env t = env s2"
  proof (cases a)
    case None
    then show ?thesis using assms by (simp add: pair_new_def a)
  next
    case (Some m)
    obtain us u where d: "pipe_drop net_pipes (Some m) s2 = (us, u)" by (cases "pipe_drop net_pipes (Some m) s2")
    then have "env u = env s2" by (auto simp: pipe_drop_def Let_def net_pipes_def set_pipe_def split: if_splits)
    then show ?thesis using assms by (cases b) (auto simp: pair_new_def a b Some d work_env)
  qed
  then show "held_by P (w_os (env t)) = held_by P (w_os (env k))" "fd_at fd (env t) = fd_at fd (env k)"
    using new_end_env(1) [OF a, of P] new_end_env(1) [OF b, of P] new_end_env(2) [OF a, of fd] new_end_env(2) [OF b, of fd] by auto
qed

lemma pair_new_marks: "pair_new K f k = (Some (mine, theirs), t) \<Longrightarrow> fd_start mine = PIPE_MARK \<and> fd_start theirs = PIPE_MARK \<and> fd_used mine \<noteq> 0"
  by (auto simp: pair_new_def pipe_handle_def Let_def split: prod.splits option.splits)

lemma put_refs:
  assumes "fd_at fd w = Some h" "is_unix h" "fd_start p = PIPE_MARK"
  shows "image_mset fd_folder (held_by is_unix (w_os (set_fd fd p w))) = image_mset fd_folder (held_by is_unix (w_os w)) - {#fd_folder h#}"
proof -
  have "h \<in># held_by is_unix (w_os w)" using assms(2) fd_at_SomeD [OF assms(1)] by (auto simp: held_by_def)
  then show ?thesis using set_fd_refs [OF assms(1), of p] pipe_not_unix [OF assms(3)] assms(2) by (auto dest: multi_member_split)
qed

lemma world_give_refs:
  assumes "world_give h w = (fd, w')"
  shows "image_mset fd_folder (held_by is_unix (w_os w')) =
    (if 0 \<le> sint fd \<and> is_unix h then add_mset (fd_folder h) (image_mset fd_folder (held_by is_unix (w_os w)))
     else image_mset fd_folder (held_by is_unix (w_os w)))" "w_script w' = w_script w"
proof -
  obtain s where s: "os_give h (w_os w) = (fd, s)" "w' = w\<lparr>w_os := s\<rparr>" using assms by (auto simp: world_give_def split: prod.splits)
  show "image_mset fd_folder (held_by is_unix (w_os w')) =
    (if 0 \<le> sint fd \<and> is_unix h then add_mset (fd_folder h) (image_mset fd_folder (held_by is_unix (w_os w)))
     else image_mset fd_folder (held_by is_unix (w_os w)))" "w_script w' = w_script w"
    using os_give_held(1) [OF s(1), of is_unix] s(2) by simp_all
qed

lemma pair_flags_env: "pair_flags K fd i k = (f, t) \<Longrightarrow> env t = env k"
  by (auto simp: pair_flags_def Let_def split: option.splits)

interpretation alone: net_kernel "net_services rounds" socket_refs for rounds
proof
  show "sv_handle (net_services rounds) fd k = Some h \<Longrightarrow> is_unix h \<Longrightarrow> fd_folder h \<in># socket_refs k" for fd k h
    using fd_at_SomeD [of fd "env k" h] by (auto simp: net_services_def socket_refs_def held_by_def)
  show "sv_give (net_services rounds) h k = (fd, k') \<Longrightarrow>
      socket_refs k' = (if 0 \<le> sint fd \<and> is_unix h then add_mset (fd_folder h) (socket_refs k) else socket_refs k)" for h k fd k'
    using world_give_refs [of h "env k"] by (auto simp: net_services_def socket_refs_def split: prod.splits)
  show "sv_handle (net_services rounds) fd k = Some h \<Longrightarrow> is_unix h \<Longrightarrow> fd_start p = PIPE_MARK \<Longrightarrow>
      socket_refs (sv_put (net_services rounds) fd p k) = socket_refs k - {#fd_folder h#}" for fd k h p
    using put_refs [of fd "env k" h p] by (simp add: net_services_def socket_refs_def)
  show "sv_alloc (net_services rounds) k = (b, k') \<Longrightarrow> socket_refs k' = socket_refs k" for k b k'
    using world_alloc_same(1) [of "env k"] by (auto simp: net_services_def socket_refs_def split: prod.splits)
  show "sv_flags (net_services rounds) fd i k = (f, k') \<Longrightarrow> socket_refs k' = socket_refs k" for fd i k f k'
    using pair_flags_env [of net_pipes fd i k f k'] by (simp add: net_services_def socket_refs_def)
  show "sv_pair (net_services rounds) f k = (r, k') \<Longrightarrow> socket_refs k' = socket_refs k \<and>
      sv_handle (net_services rounds) fd k' = sv_handle (net_services rounds) fd k" for f k r k' fd
    using pair_new_env [of f k r k'] by (simp add: net_services_def socket_refs_def)
  show "sv_pair (net_services rounds) f k = (Some (mine, theirs), k') \<Longrightarrow> fd_start mine = PIPE_MARK \<and> fd_start theirs = PIPE_MARK"
    for f k mine theirs k' using pair_new_marks [of net_pipes f k] by (simp add: net_services_def)
qed (auto simp: net_services_def socket_refs_def world_check_def)

section \<open>With other programs\<close>

text \<open>
  While \<open>accept\<close> waits another program connects, with any socket but the last descriptor of one that
  listens: were that the socket \<open>accept\<close> waits on, it would be freed, and the code would go on with the
  memory it was in (\<open>awaited_gone\<close> and \<open>connect_frees\<close>).
\<close>

definition connect_beside :: "nat \<Rightarrow> u64 \<times> u64 \<times> u64 \<Rightarrow> world ipc unix \<Rightarrow> world ipc unix" where
  "connect_beside rounds v s =
    (case v of (fd, addr, len) \<Rightarrow>
       (case sock_of (fd_at fd (env (host s))) s of
          None \<Rightarrow> s
        | Some (n, k) \<Rightarrow>
            if k_listening k \<and> k_refs k = 1 then s
            else (case sys_connect (net_services rounds) fd addr len s of Ended r t \<Rightarrow> t | Fault \<Rightarrow> s | Waits \<Rightarrow> s)))"

definition visit :: "nat \<Rightarrow> world ipc unix \<Rightarrow> world ipc unix" where
  "visit rounds s =
    (case w_script (env (host s)) of
       [] \<Rightarrow> s
     | v # later \<Rightarrow> connect_beside rounds v (s\<lparr>host := (host s)\<lparr>env := (env (host s))\<lparr>w_script := later\<rparr>\<rparr>\<rparr>))"

definition visited :: "nat \<Rightarrow> (world ipc) services" where
  "visited rounds = (net_services rounds)\<lparr>sv_yield := visit rounds\<rparr>"

lemma script_refs [simp]: "socket_refs (k\<lparr>env := (env k)\<lparr>w_script := l\<rparr>\<rparr>) = socket_refs k"
  by (simp add: socket_refs_def)

lemma beside_sound:
  assumes "usound (socket_refs (host s)) s"
  shows "usound (socket_refs (host (connect_beside rounds v s))) (connect_beside rounds v s)"
    "listener socket_refs x s \<Longrightarrow> listener socket_refs x (connect_beside rounds v s)"
proof -
  obtain fd addr len where v: "v = (fd, addr, len)" by (cases v)
  have "usound (socket_refs (host (connect_beside rounds v s))) (connect_beside rounds v s) \<and>
    (listener socket_refs x s \<longrightarrow> listener socket_refs x (connect_beside rounds v s))"
  proof (cases "sock_of (fd_at fd (env (host s))) s")
    case (Some p)
    obtain n k where p: "p = (n, k)" by (cases p)
    obtain h where h: "fd_at fd (env (host s)) = Some h" "is_unix h" "unat (fd_folder h) = Suc n" "n < 8" "sock_at n s = Some k"
      using Some p by (auto elim: sock_of_SomeD)
    show ?thesis
    proof (cases "k_listening k \<and> k_refs k = 1")
      case False
      have "sv_handle (net_services rounds) fd (host s) = Some h" using h(1) by (simp add: net_services_def)
      then have "carries socket_refs (fd_folder h) s (sys_connect (net_services rounds) fd addr len s)"
        by (intro alone.sys_connect_sound [OF assms]) simp
      moreover have "x \<noteq> fd_folder h \<or> 1 < count (socket_refs (host s)) x" if "listener socket_refs x s"
      proof (cases "x = fd_folder h")
        case True
        then have "k_listening k" using that h(3,5) by (simp add: listener_def)
        then have "k_refs k \<noteq> 1" using False by simp
        then have one: "unat (k_refs k) \<noteq> 1" by (metis unat_1 unsigned_word_eqI)
        have "of_nat (Suc n) = fd_folder h" by (simp flip: h(3))
        then have "unat (k_refs k) = count (socket_refs (host s)) x \<and> 0 < count (socket_refs (host s)) x"
          using usoundD(4) [OF assms h(4)] h(5) True by (simp add: counted_def refs_to_def sock_at_Some)
        then show ?thesis using one by (intro disjI2) linarith
      qed simp
      ultimately show ?thesis using assms v Some p False by (auto simp: connect_beside_def carries_def split: outcome.splits)
    qed (use assms v Some p in \<open>simp add: connect_beside_def\<close>)
  qed (use assms v in \<open>simp add: connect_beside_def\<close>)
  then show "usound (socket_refs (host (connect_beside rounds v s))) (connect_beside rounds v s)"
    "listener socket_refs x s \<Longrightarrow> listener socket_refs x (connect_beside rounds v s)" by blast+
qed

lemma visit_sound:
  assumes "usound (socket_refs (host s)) s"
  shows "usound (socket_refs (host (visit rounds s))) (visit rounds s)"
    "listener socket_refs x s \<Longrightarrow> listener socket_refs x (visit rounds s)"
proof -
  have "usound (socket_refs (host t)) t \<and> (listener socket_refs x t \<longleftrightarrow> listener socket_refs x s)"
    if "t = s\<lparr>host := (host s)\<lparr>env := (env (host s))\<lparr>w_script := l\<rparr>\<rparr>\<rparr>" for t l
    using usound_socks [OF assms, of t] that by (simp add: listener_def)
  then show "usound (socket_refs (host (visit rounds s))) (visit rounds s)"
    "listener socket_refs x s \<Longrightarrow> listener socket_refs x (visit rounds s)"
    using assms beside_sound by (auto simp: visit_def split: list.split)
qed

lemma visited_simps:
  "sv_handle (visited r) = sv_handle (net_services r)" "sv_give (visited r) = sv_give (net_services r)" "sv_put (visited r) = sv_put (net_services r)"
  "sv_close (visited r) = sv_close (net_services r)" "sv_free (visited r) = sv_free (net_services r)" "sv_alloc (visited r) = sv_alloc (net_services r)"
  "sv_check (visited r) = sv_check (net_services r)" "sv_stat (visited r) = sv_stat (net_services r)" "sv_write (visited r) = sv_write (net_services r)"
  "sv_cloexec (visited r) = sv_cloexec (net_services r)" "sv_flags (visited r) = sv_flags (net_services r)" "sv_pair (visited r) = sv_pair (net_services r)"
  "sv_yield (visited r) = visit r"
  by (simp_all add: visited_def)

lemma drop_env: "unix_drop (net_services r) x s = Some t \<Longrightarrow> env (host t) = env (host s)"
proof -
  have "env (close_all (net_services r) hs k) = env k" for hs k
    unfolding close_all_def by (induction hs arbitrary: k) (simp_all add: net_services_def)
  moreover have "sv_free (net_services r) = (\<lambda>k. k)" by (simp add: net_services_def)
  ultimately show "unix_drop (net_services r) x s = Some t \<Longrightarrow> env (host t) = env (host s)"
    by (auto simp: unix_drop_def Let_def put_sock_def bind_eq_Some_conv split: option.splits if_splits)
qed

lemma set_fd_there: "fd_used h \<noteq> 0 \<Longrightarrow> fd_at g w \<noteq> None \<Longrightarrow> fd_at g (set_fd fd h w) \<noteq> None"
  by (cases "unat (ucast g :: u32) = unat (ucast fd :: u32)") (auto simp: fd_at_there set_fd_def)

lemma connect_handles:
  assumes "sys_connect (net_services r) fd addr len s = Ended x t" "fd_at g (env (host s)) \<noteq> None"
  shows "fd_at g (env (host t)) \<noteq> None"
proof (cases "sock_of (sv_handle (net_services r) fd (host s)) s")
  case None
  then have "t = s" using assms(1) by (simp add: sys_connect_def Let_def)
  then show ?thesis using assms(2) by simp
next
  case (Some p)
  let ?K = "net_services r"
  obtain n k h where h: "p = (n, k)" "sv_handle ?K fd (host s) = Some h" using Some by (cases p) (auto simp: sock_of_def split: option.splits)
  then have so: "sock_of (Some h) s = Some (n, k)" using Some by simp
  have st: "sv_stat ?K name k = (name \<in> set (w_names (env k)), k)" for name k by (simp add: net_services_def)
  note c = assms(1) [unfolded sys_connect_def Let_def h(2) so option.case prod.case option.sel]
  show ?thesis
  proof (cases "name_of ?K addr len s")
    case None
    then show ?thesis using c assms(2) by simp
  next
    case nm: (Some name)
    define found where "found = (case bound name s of None \<Rightarrow> None | Some m \<Rightarrow> map_option (\<lambda>to. (m, to)) (sock_at m s))"
    note c = c [unfolded nm option.case found_def [symmetric]]
    show ?thesis
    proof (cases found)
      case None
      then show ?thesis using c assms(2) by (auto simp: st split: if_splits)
    next
      case (Some mt)
      obtain m to where mt: "mt = (m, to)" by (cases mt)
      note c = c [unfolded Some mt option.case prod.case]
      obtain q k' where q: "sv_pair ?K (fd_offset h AND 0x800) (host s) = (q, k')" by (cases "sv_pair ?K (fd_offset h AND 0x800) (host s)")
      have same: "fd_at g (env k') = fd_at g (env (host s))" using q pair_new_env(2) [of "fd_offset h AND 0x800" "host s" q k' g] by (simp add: net_services_def)
      show ?thesis
      proof (cases "\<not> k_listening to \<or> k_queued to = 8 \<or> q = None \<or> wr (k_queue to) (unat (k_queued to)) (snd (the q)) = None")
        case True
        then show ?thesis using c q same assms(2) by (cases q) (auto simp: st split: if_splits)
      next
        case False
        then obtain mine theirs q2 where e: "q = Some (mine, theirs)" "wr (k_queue to) (unat (k_queued to)) theirs = Some q2" by (cases q) auto
        let ?s2 = "put_sock m (Some (to\<lparr>k_queue := q2, k_queued := k_queued to + 1\<rparr>)) (s\<lparr>host := k'\<rparr>)"
        obtain s3 where s3: "unix_drop ?K (fd_folder h) ?s2 = Some s3" "t = s3\<lparr>host := sv_put ?K fd mine (host s3)\<rparr>"
          using c False q e by (cases "unix_drop ?K (fd_folder h) ?s2") auto
        have "env (host s3) = env k'" using drop_env [OF s3(1)] by (simp add: put_sock_def)
        moreover have "fd_used mine \<noteq> 0" using q e(1) pair_new_marks [of net_pipes "fd_offset h AND 0x800" "host s" mine theirs k'] by (simp add: net_services_def)
        moreover have "env (sv_put ?K fd mine (host s3)) = set_fd fd mine (env (host s3))" by (simp add: net_services_def)
        ultimately show ?thesis using s3(2) set_fd_there [of mine g "env k'" fd] same assms(2) by simp
      qed
    qed
  qed
qed

lemma visit_handles:
  assumes "fd_at g (env (host s)) \<noteq> None"
  shows "fd_at g (env (host (visit rounds s))) \<noteq> None"
proof -
  have "fd_at g (env (host (connect_beside rounds v t))) \<noteq> None" if "fd_at g (env (host t)) \<noteq> None" for v t
    using that connect_handles [of rounds _ _ _ t _ _ g] by (auto simp: connect_beside_def split: prod.splits option.splits outcome.splits)
  then show ?thesis using assms by (auto simp: visit_def split: list.split)
qed

lemma visited_there: "sv_handle (net_services r) fd (host s) = Some h \<Longrightarrow> \<exists>h. sv_handle (net_services r) fd (host (visit r s)) = Some h"
  using visit_handles [of fd s r] by (simp add: net_services_def)

interpretation visits: net_kernel "visited rounds" socket_refs for rounds
  by unfold_locales
    (use visit_sound visited_there in \<open>auto simp: visited_simps alone.close_live alone.close_handle alone.free_live alone.free_handle alone.cloexec_live
      dest: alone.at_live alone.give_live alone.put_live alone.alloc_live alone.check_live alone.stat_live alone.write_live alone.flags_live
        alone.pair_live alone.pair_ends alone.check_handle\<close>)

text \<open>What the restriction leaves out.\<close>

lemma awaited_gone:
  assumes "sock_at n s = Some k" "k_queued k = 0" "sv_handle K fd (host s) = Some h" "fd_offset h AND 0x800 = 0"
    "sv_check K (host s) = (False, k1)" "sock_at n (sv_yield K (s\<lparr>host := k1\<rparr>)) = None"
  shows "await K (Suc (Suc fuel)) fd n s = Fault"
  using assms by simp

lemma connect_frees:
  assumes "usound (socket_refs (host s)) s" "fd_at fd (env (host s)) = Some h" "is_unix h" "sock_of (Some h) s = Some (n, k)" "k_refs k = 1"
    "name_of (net_services rounds) addr len s = Some name" "bound name s = Some m" "sock_at m s = Some to" "k_listening to" "k_queued to \<noteq> 8"
    "pair_new net_pipes (fd_offset h AND 0x800) (host s) = (Some (mine, theirs), k1)"
  shows "\<exists>t. sys_connect (net_services rounds) fd addr len s = Ended 0 t \<and> sock_at n t = None"
proof -
  have h: "sv_handle (net_services rounds) fd (host s) = Some h" "sv_pair (net_services rounds) (fd_offset h AND 0x800) (host s) = (Some (mine, theirs), k1)"
    using assms(2,11) by (simp_all add: net_services_def)
  obtain s3 where "sys_connect (net_services rounds) fd addr len s = Ended 0 (s3\<lparr>host := sv_put (net_services rounds) fd mine (host s3)\<rparr>)" "sock_at n s3 = None"
    by (rule alone.connect_made [OF assms(1) h(1) assms(3,4,6-10) h(2)]) (use assms(5) in simp)
  then show ?thesis by simp
qed

end
