(* ===== verification/Descriptors.thy ===== *)
theory Descriptors
  imports Net
begin

text \<open>
  Descriptors of pipes, pairs and sockets closed and duplicated (\<open>sys_close\<close>, \<open>sys_dup\<close>, \<open>dup_to\<close> and
  \<open>sys_close_range\<close> in \<open>src/kernel/syscall.c\<close>), and any sequence of the calls on sockets (\<open>sock_step\<close>):
  the references to the sockets stay counted.
\<close>

section \<open>The calls\<close>

definition in_env :: "(world \<Rightarrow> world) \<Rightarrow> world ipc unix \<Rightarrow> world ipc unix" where
  "in_env f s = s\<lparr>host := (host s)\<lparr>env := f (env (host s))\<rparr>\<rparr>"

definition sys_close :: "u64 \<Rightarrow> world ipc unix \<Rightarrow> (u64, world ipc unix) outcome" where
  "sys_close fd s =
    (case fd_at fd (env (host s)) of
       None \<Rightarrow> Ended (ERR EBADF) s
     | Some h \<Rightarrow>
         let s1 = in_env (set_fd fd (h\<lparr>fd_used := 0\<rparr>)) s
         in if fd_start h = PIPE_MARK then Ended 0 (s1\<lparr>host := pipe_release net_pipes h (host s1)\<rparr>)
            else if is_unix h
            then (case unix_drop (net_services 0) (fd_folder h) s1 of None \<Rightarrow> Fault | Some t \<Rightarrow> Ended 0 t)
            else Ended 0 s1)"

text \<open>What every duplicate does last: one more descriptor on what \<open>h\<close> is on.\<close>

definition hold_one :: "handle \<Rightarrow> world ipc unix \<Rightarrow> world ipc unix" where
  "hold_one h s = (let s1 = s\<lparr>host := pipe_hold h (host s)\<rparr> in if is_unix h then unix_hold (fd_folder h) s1 else s1)"

definition sys_dup :: "u64 \<Rightarrow> world ipc unix \<Rightarrow> (u64, world ipc unix) outcome" where
  "sys_dup fd s =
    (case fd_at fd (env (host s)) of
       None \<Rightarrow> Ended (ERR EBADF) s
     | Some h \<Rightarrow>
         let (made, w) = world_give h (env (host s));
             s1 = in_env (\<lambda>_. w) s
         in Ended made (if 0 \<le> sint made then hold_one h s1 else s1))"

definition dup_to :: "u64 \<Rightarrow> u64 \<Rightarrow> world ipc unix \<Rightarrow> (u64, world ipc unix) outcome" where
  "dup_to fd to0 s =
    (let to = ucast (ucast to0 :: u32);
         files = (\<lambda>s. w_os (env (host s)))
     in if fd_at fd (env (host s)) = None \<or> of_nat PROGRAM_FILES \<le> to then Ended (ERR EBADF) s
        else proceed (ended (if length (handles (files s)) \<le> unat to
                             then map_option (map_prod id (\<lambda>o1. in_env (\<lambda>w. w\<lparr>w_os := o1\<rparr>) s)) (files_grow (unat to) (files s))
                             else Some (True, s))) (\<lambda>ok s1.
               if \<not> ok then Ended (ERR EMFILE) s1
               else if to = fd then Ended to s1
               else proceed (if fd_at to (env (host s1)) \<noteq> None then sys_close to s1 else Ended 0 s1) (\<lambda>_ s2.
                 case rd (handles (files s2)) (unat (ucast fd :: u32)) of
                   None \<Rightarrow> Fault
                 | Some h \<Rightarrow> Ended to (hold_one h (in_env (set_fd to (h\<lparr>fd_used := 1\<rparr>)) s2)))))"

text \<open>What \<open>fork\<close> does for the child's table, as far as pipes and sockets go.\<close>

primrec hold_all :: "handle list \<Rightarrow> world ipc unix \<Rightarrow> world ipc unix" where
  "hold_all [] s = s"
| "hold_all (h # hs) s =
    (if fd_used h = 0 then hold_all hs s
     else let s1 = (if is_unix h then unix_hold (fd_folder h) s else s);
              s2 = (if pipe_of h (host s1) \<noteq> None then s1\<lparr>host := pipe_hold h (host s1)\<rparr> else s1)
          in hold_all hs s2)"

definition sys_dup2 :: "u64 \<Rightarrow> u64 \<Rightarrow> world ipc unix \<Rightarrow> (u64, world ipc unix) outcome" where
  "sys_dup2 fd to s = dup_to fd to s"

definition sys_dup3 :: "u64 \<Rightarrow> u64 \<Rightarrow> u64 \<Rightarrow> world ipc unix \<Rightarrow> (u64, world ipc unix) outcome" where
  "sys_dup3 fd to flags s =
    (if (ucast fd :: u32) = ucast to then Ended (ERR EINVAL) s
     else proceed (dup_to fd to s) (\<lambda>r t. Ended r (if 0 \<le> sint r \<and> flags AND O_CLOEXEC \<noteq> 0 then in_env (fd_cloexec r) t else t)))"

text \<open>The descriptors from \<open>first\<close>, no further than the table's last.\<close>

primrec close_each :: "bool \<Rightarrow> nat list \<Rightarrow> world ipc unix \<Rightarrow> (u64, world ipc unix) outcome" where
  "close_each mark [] s = Ended 0 s"
| "close_each mark (d # ds) s =
    (let fd = of_nat d
     in if fd_at fd (env (host s)) = None then close_each mark ds s
        else if mark then close_each mark ds (in_env (fd_cloexec fd) s)
        else proceed (sys_close fd s) (\<lambda>_ t. close_each mark ds t))"

definition sys_close_range :: "u64 \<Rightarrow> u64 \<Rightarrow> u64 \<Rightarrow> world ipc unix \<Rightarrow> (u64, world ipc unix) outcome" where
  "sys_close_range first0 last0 flags s =
    (let first = unat (ucast first0 :: u32);
         last = unat (ucast last0 :: u32)
     in if last < first then Ended (ERR EINVAL) s
        else close_each (flags AND 4 \<noteq> 0) [first..<min (last + 1) (length (handles (w_os (env (host s)))))] s)"

section \<open>What they keep\<close>

lemma in_env_simps [simp]: "socks (in_env f s) = socks s" "env (host (in_env f s)) = f (env (host s))" "pipes (host (in_env f s)) = pipes (host s)"
  by (simp_all add: in_env_def)

lemma refs_env: "socket_refs k = image_mset fd_folder (held_by is_unix (w_os (env k)))"
  by (simp add: socket_refs_def)

lemma env_hold [simp]: "env (pipe_hold h k) = env k"
  by (simp add: pipe_hold_def Let_def)

lemma held_by_update:
  assumes "i < length (handles s)"
  shows "held_by P (s\<lparr>handles := (handles s)[i := h]\<rparr>) + (if fd_used (handles s ! i) \<noteq> 0 \<and> P (handles s ! i) then {#handles s ! i#} else {#}) =
    held_by P s + (if fd_used h \<noteq> 0 \<and> P h then {#h#} else {#})"
proof -
  obtain M where M: "mset (handles s) = add_mset (handles s ! i) M" using assms by (metis multi_member_split nth_mem set_mset_mset)
  then have "mset ((handles s)[i := h]) = add_mset h M" using assms by (simp add: mset_update)
  then show ?thesis using M by (simp add: held_by_def)
qed

lemma close_refs:
  assumes "fd_at fd w = Some h"
  shows "image_mset fd_folder (held_by is_unix (w_os (set_fd fd (h\<lparr>fd_used := 0\<rparr>) w))) =
    image_mset fd_folder (held_by is_unix (w_os w)) - (if is_unix h then {#fd_folder h#} else {#})"
proof -
  note d = fd_at_SomeD [OF assms]
  let ?w = "set_fd fd (h\<lparr>fd_used := 0\<rparr>) w"
  have u: "held_by is_unix (w_os ?w) + (if is_unix h then {#h#} else {#}) = held_by is_unix (w_os w)"
    using held_by_update [of "unat (ucast fd :: u32)" "w_os w" is_unix "h\<lparr>fd_used := 0\<rparr>"] d
    by (auto simp: set_fd_def split: if_splits)
  have "image_mset fd_folder (held_by is_unix (w_os w)) = image_mset fd_folder (held_by is_unix (w_os ?w)) + (if is_unix h then {#fd_folder h#} else {#})"
    by (subst u [symmetric]) simp
  then show ?thesis by simp
qed

lemma held_sock: "fd_at fd (env (host s)) = Some h \<Longrightarrow> is_unix h \<Longrightarrow> fd_folder h \<in># socket_refs (host s)"
  using fd_at_SomeD [of fd "env (host s)" h] by (auto simp: socket_refs_def held_by_def)

lemma usound_refs:
  assumes "usound (socket_refs (host s)) s" "socks t = socks s" "socket_refs (host t) = socket_refs (host s)"
  shows "usound (socket_refs (host t)) t"
  using assms by (simp add: usound_def)

text \<open>The result of a call that takes no more references than there were.\<close>

definition fewer :: "world ipc unix \<Rightarrow> (u64, world ipc unix) outcome \<Rightarrow> bool" where
  "fewer s r \<longleftrightarrow> (case r of Ended x t \<Rightarrow> usound (socket_refs (host t)) t \<and> size (socket_refs (host t)) \<le> size (socket_refs (host s)) | Fault \<Rightarrow> False | Waits \<Rightarrow> False)"

lemma sys_close_sound:
  assumes "usound (socket_refs (host s)) s"
  shows "fewer s (sys_close fd s)"
proof (cases "fd_at fd (env (host s))")
  case (Some h)
  let ?s1 = "in_env (set_fd fd (h\<lparr>fd_used := 0\<rparr>)) s"
  have r: "socket_refs (host ?s1) = socket_refs (host s) - (if is_unix h then {#fd_folder h#} else {#})"
    using close_refs [OF Some] by (simp add: refs_env)
  show ?thesis
  proof (cases "is_unix h")
    case False
    define r where "r = (if fd_start h = 0xFFFFFFFA then ?s1\<lparr>host := pipe_release net_pipes h (host ?s1)\<rparr> else ?s1)"
    have "env (pipe_release net_pipes h k) = env k" for k by (simp add: pipe_release_def work_env del: work.simps)
    then have e: "socket_refs (host r) = socket_refs (host s)" "socks r = socks s" using r False by (simp_all add: r_def refs_env)
    moreover have "sys_close fd s = Ended 0 r" using Some False by (simp add: sys_close_def Let_def r_def)
    ultimately show ?thesis using usound_refs [OF assms e(2,1)] by (simp add: fewer_def)
  next
    case True
    then have p: "fd_start h \<noteq> 0xFFFFFFFA" using pipe_not_unix by blast
    have "usound (add_mset (fd_folder h) (socket_refs (host ?s1))) ?s1"
      using usound_socks [OF assms, of ?s1] held_sock [OF Some True] r True by simp
    then obtain t where t: "unix_drop (net_services 0) (fd_folder h) ?s1 = Some t" "usound (socket_refs (host ?s1)) t"
        "socket_refs (host t) = socket_refs (host ?s1)"
      by (rule alone.drop_sound)
    have "sys_close fd s = Ended 0 t" using Some True p t(1) by (simp add: sys_close_def Let_def)
    then show ?thesis using t(2,3) r True by (simp add: fewer_def size_Diff_singleton_if)
  qed
qed (use assms in \<open>simp add: sys_close_def fewer_def\<close>)

lemma fewer_uresult: "fewer s r \<Longrightarrow> uresult socket_refs r"
  by (simp add: fewer_def uresult_def split: outcome.splits)

lemma hold_one_sound:
  assumes "usound (socket_refs (host s)) s" "socks t = socks s" "is_unix h \<Longrightarrow> fd_folder h \<in># socket_refs (host s)"
    "socket_refs (host t) = (if is_unix h then add_mset (fd_folder h) (socket_refs (host s)) else socket_refs (host s))"
  shows "uresult socket_refs (Ended r (hold_one h t))"
proof -
  let ?t = "t\<lparr>host := pipe_hold h (host t)\<rparr>"
  have t: "usound (socket_refs (host s)) ?t" "socket_refs (host ?t) = socket_refs (host t)"
    using usound_socks [OF assms(1), of ?t] assms(2) by (simp_all add: refs_env)
  have "host (unix_hold x u) = host u" for x and u :: "world ipc unix" by (simp add: unix_hold_def put_sock_def split: option.split)
  then show ?thesis using t assms(3,4) unix_hold_sound [OF t(1), of "fd_folder h"]
    by (cases "is_unix h") (simp_all add: hold_one_def Let_def)
qed

lemma sys_dup_sound:
  assumes "usound (socket_refs (host s)) s"
  shows "uresult socket_refs (sys_dup fd s)"
proof (cases "fd_at fd (env (host s))")
  case (Some h)
  obtain made w where g: "world_give h (env (host s)) = (made, w)" by (cases "world_give h (env (host s))")
  let ?s1 = "in_env (\<lambda>_. w) s"
  have r: "socket_refs (host ?s1) = (if 0 \<le> sint made \<and> is_unix h then add_mset (fd_folder h) (socket_refs (host s)) else socket_refs (host s))"
    using world_give_refs(1) [OF g] by (simp add: refs_env)
  show ?thesis
  proof (cases "0 \<le> sint made")
    case True
    then have "uresult socket_refs (Ended made (hold_one h ?s1))"
      by (intro hold_one_sound [OF assms]) (use r held_sock [OF Some] in simp_all)
    then show ?thesis using True Some g by (simp add: sys_dup_def)
  next
    case False
    then show ?thesis using Some g r usound_refs [OF assms, of ?s1] by (simp add: sys_dup_def)
  qed
qed (use assms in \<open>simp add: sys_dup_def\<close>)

lemma sys_close_env:
  assumes "fd_at fd (env (host s)) = Some h" "sys_close fd s = Ended r t"
  shows "env (host t) = set_fd fd (h\<lparr>fd_used := 0\<rparr>) (env (host s))"
proof -
  have "env (pipe_release net_pipes h k) = env k" for k by (simp add: pipe_release_def work_env del: work.simps)
  then show ?thesis using assms by (auto simp: sys_close_def Let_def dest!: drop_env split: if_splits option.splits)
qed

lemma files_grow_fits:
  assumes "length (handles s) \<le> need"
  shows "\<exists>b t. files_grow need s = Some (b, t)"
proof -
  have "length (handles s) \<le> r" if "need < r" for r using that assms by simp
  then show ?thesis unfolding files_grow_def Let_def mem_answer_def blit_def by (auto simp: not_le)
qed

text \<open>
  A number of 32 bits, or one whose low half is not the target's: with the upper half set and the low half
  the target's, \<open>dup_to\<close> closes the descriptor before it copies it.
\<close>

lemma dup_to_sound:
  assumes "usound (socket_refs (host s)) s" "fd = ucast (ucast fd :: u32) \<or> (ucast fd :: u32) \<noteq> ucast to0"
  shows "uresult socket_refs (dup_to fd to0 s)"
proof -
  define dst :: u64 where "dst = ucast (ucast to0 :: u32)"
  have "ucast (ucast x :: u64) = x" for x :: u32 by (rule bit_word_eqI) (simp add: bit_unsigned_iff)
  then have dst: "dst = ucast (ucast dst :: u32)" "unat (ucast dst :: u32) = unat dst" by (simp_all add: dst_def)
  note e = dup_to_def [of fd to0 s, unfolded Let_def dst_def [symmetric]]
  show ?thesis
  proof (cases "fd_at fd (env (host s)) = None \<or> 1024 \<le> dst")
    case True
    then show ?thesis using assms(1) by (simp add: e)
  next
    case False
    then obtain h where h: "fd_at fd (env (host s)) = Some h" by auto
    let ?hs = "handles (w_os (env (host s)))"
    obtain ok s1 where g: "(if length ?hs \<le> unat dst
        then map_option (map_prod id (\<lambda>o1. in_env (\<lambda>w. w\<lparr>w_os := o1\<rparr>) s)) (files_grow (unat dst) (w_os (env (host s)))) else Some (True, s)) = Some (ok, s1)"
      "socks s1 = socks s" "socket_refs (host s1) = socket_refs (host s)" "fd_at fd (env (host s1)) = Some h" "ok \<Longrightarrow> unat dst < length (handles (w_os (env (host s1))))"
    proof (cases "length ?hs \<le> unat dst")
      case le: True
      obtain b o1 where f: "files_grow (unat dst) (w_os (env (host s))) = Some (b, o1)" using files_grow_fits [OF le] by blast
      then obtain a n where n: "o1 = (w_os (env (host s)))\<lparr>asked := a, handles := ?hs @ replicate n free_handle\<rparr>" "b \<Longrightarrow> unat dst < length (handles o1)"
        using files_grow_shape by blast
      show ?thesis
      proof (rule that)
        show "(if length ?hs \<le> unat dst
          then map_option (map_prod id (\<lambda>o1. in_env (\<lambda>w. w\<lparr>w_os := o1\<rparr>) s)) (files_grow (unat dst) (w_os (env (host s)))) else Some (True, s)) =
          Some (b, in_env (\<lambda>w. w\<lparr>w_os := o1\<rparr>) s)" using le f by simp
        show "fd_at fd (env (host (in_env (\<lambda>w. w\<lparr>w_os := o1\<rparr>) s))) = Some h"
          using h n(1) by (auto simp: fd_at_def Let_def nth_append split: if_splits)
        show "socket_refs (host (in_env (\<lambda>w. w\<lparr>w_os := o1\<rparr>) s)) = socket_refs (host s)"
          using live_append_free [of is_unix n] by (simp add: refs_env n(1) held_by_def)
      qed (use n(2) in simp_all)
    next
      case below: False
      then show ?thesis using that [of True s] h by simp
    qed
    show ?thesis
    proof (cases "ok \<and> dst \<noteq> fd")
      case False
      then show ?thesis using g(1-3) h \<open>\<not> (fd_at fd (env (host s)) = None \<or> 1024 \<le> dst)\<close> usound_refs [OF assms(1) g(2,3)] by (auto simp: e ended_def)
    next
      case True
      have s1: "usound (socket_refs (host s1)) s1" by (rule usound_refs [OF assms(1) g(2,3)])
      define c where "c = (if fd_at dst (env (host s1)) \<noteq> None then sys_close dst s1 else Ended 0 s1)"
      have "fewer s1 c" using sys_close_sound [OF s1] s1 by (simp add: c_def fewer_def)
      then obtain r s2 where s2: "c = Ended r s2" "usound (socket_refs (host s2)) s2" by (auto simp: fewer_def split: outcome.splits)
      have ne: "unat (ucast fd :: u32) \<noteq> unat dst"
      proof
        assume "unat (ucast fd :: u32) = unat dst"
        then have "(ucast fd :: u32) = ucast dst" using dst(2) by (metis unsigned_word_eqI)
        moreover from this have "fd = ucast (ucast fd :: u32)" using assms(2) dst(1) by (auto simp: dst_def \<open>\<And>x. ucast (ucast x :: u64) = x\<close>)
        ultimately show False using True dst(1) by simp
      qed
      let ?h1 = "handles (w_os (env (host s1)))" and ?h2 = "handles (w_os (env (host s2)))"
      note d1 = fd_at_SomeD [OF g(4)]
      have l: "unat dst < length ?h1" using g(5) True by blast
      have "length ?h2 = length ?h1 \<and> ?h2 ! unat (ucast fd :: u32) = h \<and> fd_used (?h2 ! unat dst) = 0"
      proof (cases "fd_at dst (env (host s1))")
        case None
        then have "fd_used (?h1 ! unat dst) = 0" using l dst(2) by (simp add: fd_at_def Let_def split: if_splits)
        then show ?thesis using d1 s2(1) None by (simp add: c_def)
      next
        case (Some h')
        then have "env (host s2) = set_fd dst (h'\<lparr>fd_used := 0\<rparr>) (env (host s1))" using s2(1) sys_close_env by (simp add: c_def)
        then show ?thesis using d1 ne dst(2) l by (simp add: set_fd_def)
      qed
      then have w: "?h2 ! unat (ucast fd :: u32) = h" "unat (ucast fd :: u32) < length ?h2" "unat dst < length ?h2" "fd_used (?h2 ! unat dst) = 0" "fd_used h \<noteq> 0"
        using d1 l by simp_all
      let ?s3 = "in_env (set_fd dst (h\<lparr>fd_used := 1\<rparr>)) s2"
      have "held_by is_unix (w_os (env (host ?s3))) = (if is_unix h then add_mset (h\<lparr>fd_used := 1\<rparr>) (held_by is_unix (w_os (env (host s2)))) else held_by is_unix (w_os (env (host s2))))"
        using held_by_put [of "unat dst" "w_os (env (host s2))" "h\<lparr>fd_used := 1\<rparr>" is_unix] w(3,4) dst(2) by (simp add: set_fd_def)
      then have r3: "socket_refs (host ?s3) = (if is_unix h then add_mset (fd_folder h) (socket_refs (host s2)) else socket_refs (host s2))"
        by (simp add: refs_env)
      have "is_unix h \<Longrightarrow> fd_folder h \<in># socket_refs (host s2)" using w(1,2,5) by (auto simp: refs_env held_by_def)
      then have "uresult socket_refs (Ended dst (hold_one h ?s3))" by (intro hold_one_sound [OF s2(2)]) (simp_all add: r3)
      moreover have "dup_to fd to0 s = Ended dst (hold_one h ?s3)"
        using \<open>\<not> (fd_at fd (env (host s)) = None \<or> 1024 \<le> dst)\<close> g(1) True w(1,2) s2(1) h by (simp add: e c_def ended_def)
      ultimately show ?thesis by simp
    qed
  qed
qed

lemma cloexec_refs: "socket_refs (host (in_env (fd_cloexec fd) s)) = socket_refs (host s)"
  by (simp add: refs_env)

lemma sys_dup3_sound:
  assumes "usound (socket_refs (host s)) s"
  shows "uresult socket_refs (sys_dup3 fd to0 flags s)"
proof (cases "(ucast fd :: u32) = ucast to0")
  case True
  then show ?thesis using assms by (simp add: sys_dup3_def)
next
  case differ: False
  then have d: "uresult socket_refs (dup_to fd to0 s)" by (intro dup_to_sound [OF assms]) simp
  show ?thesis
  proof (cases "dup_to fd to0 s")
    case (Ended r t)
    then have "uresult socket_refs (Ended r (in_env (fd_cloexec r) t))"
      using d usound_refs [of t "in_env (fd_cloexec r) t"] by (simp add: cloexec_refs)
    then show ?thesis using Ended d assms by (simp add: sys_dup3_def)
  qed (use d differ in \<open>simp_all add: sys_dup3_def\<close>)
qed

lemma close_each_sound:
  "usound (socket_refs (host s)) s \<Longrightarrow> fewer s (close_each mark ds s)"
proof (induction ds arbitrary: s)
  case (Cons d ds)
  consider (none) "fd_at (of_nat d) (env (host s)) = None" | (mark) "fd_at (of_nat d) (env (host s)) \<noteq> None" mark
    | (close) "fd_at (of_nat d) (env (host s)) \<noteq> None" "\<not> mark" by blast
  then show ?case
  proof cases
    case none
    then show ?thesis using Cons by simp
  next
    case marked: mark
    let ?s1 = "in_env (fd_cloexec (of_nat d)) s"
    have "fewer ?s1 (close_each mark ds ?s1)"
      using Cons.IH [OF usound_refs [OF Cons.prems in_env_simps(1) cloexec_refs]] .
    then have "fewer s (close_each mark ds ?s1)" by (simp only: fewer_def cloexec_refs)
    then show ?thesis using marked by (auto simp: Let_def)
  next
    case close
    obtain r t where t: "sys_close (of_nat d) s = Ended r t" "usound (socket_refs (host t)) t"
        "size (socket_refs (host t)) \<le> size (socket_refs (host s))"
      using sys_close_sound [OF Cons.prems, of "of_nat d"] by (auto simp: fewer_def split: outcome.splits)
    then show ?thesis using Cons.IH [OF t(2)] close by (auto simp: fewer_def split: outcome.splits)
  qed
qed (simp add: fewer_def)

section \<open>Any sequence of calls\<close>

datatype sock_call =
  New u64 u64 | Name u64 u64 u64 | Await u64 | Join u64 u64 u64 | Take u64 u64 u64 u64 | Close u64 | Dup u64 | Dup2 u64 u64 | Dup3 u64 u64 u64
  | Close_range u64 u64 u64

primrec do_call :: "nat \<Rightarrow> nat \<Rightarrow> sock_call \<Rightarrow> world ipc unix \<Rightarrow> (u64, world ipc unix) outcome" where
  "do_call rounds fuel (New domain type) s = sys_socket (visited rounds) domain type s"
| "do_call rounds fuel (Name fd addr len) s = sys_bind (visited rounds) fd addr len s"
| "do_call rounds fuel (Await fd) s = sys_listen (visited rounds) fd s"
| "do_call rounds fuel (Join fd addr len) s = sys_connect (visited rounds) fd addr len s"
| "do_call rounds fuel (Take fd addr lenp flags) s = accept_with (visited rounds) fuel fd addr lenp flags s"
| "do_call rounds fuel (Close fd) s = sys_close fd s"
| "do_call rounds fuel (Dup fd) s = sys_dup fd s"
| "do_call rounds fuel (Dup2 fd to) s = sys_dup2 fd to s"
| "do_call rounds fuel (Dup3 fd to flags) s = sys_dup3 fd to flags s"
| "do_call rounds fuel (Close_range lo hi flags) s = sys_close_range lo hi flags s"

text \<open>All calls but a \<open>dup2\<close> of a number above 32 bits onto the descriptor its low half names.\<close>

definition not_onto_itself :: "sock_call \<Rightarrow> bool" where
  "not_onto_itself c \<longleftrightarrow> (case c of Dup2 fd to \<Rightarrow> fd = ucast (ucast fd :: u32) \<or> (ucast fd :: u32) \<noteq> ucast to | _ \<Rightarrow> True)"

lemma carries_uresult: "carries live y s r \<Longrightarrow> uresult live r"
  by (auto simp: carries_def uresult_def split: outcome.splits)

lemma do_call_sound:
  assumes "usound (socket_refs (host s)) s" "not_onto_itself c"
  shows "uresult socket_refs (do_call rounds fuel c s)"
proof (cases c)
  case (Join fd addr len)
  have "carries socket_refs (case fd_at fd (env (host s)) of None \<Rightarrow> 0 | Some h \<Rightarrow> fd_folder h) s (sys_connect (visited rounds) fd addr len s)"
    by (rule visits.sys_connect_sound [OF assms(1)]) (simp add: visited_simps net_services_def)
  then show ?thesis using Join carries_uresult by simp
next
  case (Close fd)
  then show ?thesis using fewer_uresult [OF sys_close_sound [OF assms(1)]] by simp
next
  case (Dup2 fd to)
  then show ?thesis using dup_to_sound [OF assms(1), of fd to] assms(2) by (simp add: sys_dup2_def not_onto_itself_def)
next
  case (Close_range lo hi flags)
  then show ?thesis using assms(1) fewer_uresult [OF close_each_sound [OF assms(1)]] by (simp add: sys_close_range_def Let_def)
qed (simp_all add: visits.sys_socket_sound [OF assms(1)] visits.sys_bind_sound [OF assms(1)] visits.sys_listen_sound [OF assms(1)]
  visits.accept_with_sound [OF assms(1)] sys_dup_sound [OF assms(1)] sys_dup3_sound [OF assms(1)])

text \<open>
  A step is a call, or something that is not a call on sockets: the program's memory, the pipes, the
  files. The counts are of 32 bits, and there are fewer descriptors than that.
\<close>

inductive sock_step :: "nat \<Rightarrow> nat \<Rightarrow> world ipc unix \<Rightarrow> world ipc unix \<Rightarrow> bool" for rounds fuel where
  a_call: "do_call rounds fuel c s = Ended r t \<Longrightarrow> not_onto_itself c \<Longrightarrow> size (socket_refs (host t)) < 2 ^ 32 \<Longrightarrow> sock_step rounds fuel s t"
| no_call: "socks t = socks s \<Longrightarrow> socket_refs (host t) = socket_refs (host s) \<Longrightarrow> sock_step rounds fuel s t"

inductive_cases sock_stepE: "sock_step rounds fuel s t"

lemma sock_step_sound:
  assumes "sock_step rounds fuel s t" "usound (socket_refs (host s)) s"
  shows "usound (socket_refs (host t)) t"
proof (rule sock_stepE [OF assms(1)])
  fix c r assume c: "do_call rounds fuel c s = Ended r t" "not_onto_itself c" "size (socket_refs (host t)) < 4294967296"
  show ?thesis using do_call_sound [OF assms(2) c(2), of rounds fuel] c(3) unfolding c(1) by simp
qed (rule usound_refs [OF assms(2)])

lemma sock_steps_sound:
  assumes "(sock_step rounds fuel)\<^sup>*\<^sup>* s t" "usound (socket_refs (host s)) s"
  shows "usound (socket_refs (host t)) t"
  using assms by (induction rule: rtranclp_induct) (auto dest: sock_step_sound)

end
