(* ===== verification/UnixProps.thy ===== *)
theory UnixProps
  imports Descriptors PipeProps
begin

text \<open>
  What AF_UNIX sockets promise: no socket is used after it went, connections are accepted in the order
  they were made, each is two ends of one pair, a name given is the name told, and connecting fails as
  it should. The last section records where the code does less than it means to.
\<close>

section \<open>Machines\<close>

definition no_world :: world where
  "no_world =
    \<lparr>w_os = \<lparr>handles = [free_handle], file_ops = [], ids = (1, 1, 1), sent = [], answers = (\<lambda>n. True), asked = 0,
       window = (\<lambda>a n. True), interrupts = (\<lambda>n. False), checked = 0, script = [], others = []\<rparr>,
     w_names = [], w_args = (\<lambda>i. 0), w_script = []\<rparr>"

definition no_sockets :: "memory \<Rightarrow> world ipc unix" where
  "no_sockets m = \<lparr>socks = replicate 8 None, prog = m, host = no_pipes m no_world\<rparr>"

lemma no_sockets_sound: "usound (socket_refs (host (no_sockets m))) (no_sockets m)"
  by (simp add: usound_def no_sockets_def socket_refs_def no_pipes_def no_world_def held_by_def free_handle_def counted_def refs_to_def)

text \<open>
  C2. The descriptors keep the sockets: after any calls of any programs, in any order (making, naming, listening,
  connecting, accepting while other programs connect, closing, dup, dup2, dup3, closing ranges), the
  count of every socket is the number of descriptors on it, it is there exactly while there is one, its
  backlog fits its array and holds ends of pairs, and no call uses a socket that is gone or leaves an
  array. Two things are left out, for which this does not hold: while \<open>accept\<close> waits, the others do not
  connect with the last descriptor of a socket that listens (\<open>connect_frees\<close>, \<open>awaited_gone\<close>), and no
  \<open>dup2\<close> takes a number above 32 bits onto the descriptor its low half names (\<open>dup_onto_itself_frees\<close>). While
  it waits the others do nothing but connect. (safety)
\<close>
theorem sockets_sound:
  assumes "usound (socket_refs (host s)) s" "(sock_step rounds fuel)\<^sup>*\<^sup>* s t"
  shows "(\<forall>h. h \<in># held_by is_unix (w_os (env (host t))) \<longrightarrow> (\<exists>k. sock_at (unat (fd_folder h) - 1) t = Some k \<and> sock_ok k)) \<and>
    (\<forall>n k. sock_at n t = Some k \<longrightarrow> unat (k_refs k) = count (socket_refs (host t)) (of_nat (Suc n)) \<and> 0 < unat (k_refs k)) \<and>
    (not_onto_itself c \<longrightarrow> do_call rounds fuel c t \<noteq> Fault)"
proof -
  have u: "usound (socket_refs (host t)) t" by (rule sock_steps_sound [OF assms(2,1)])
  have "\<exists>k. sock_at (unat (fd_folder h) - 1) t = Some k \<and> sock_ok k" if "h \<in># held_by is_unix (w_os (env (host t)))" for h
  proof -
    have "fd_folder h \<in># socket_refs (host t)" using that by (simp add: refs_env)
    then show ?thesis by (rule live_sock [OF u]) auto
  qed
  moreover have "unat (k_refs k) = count (socket_refs (host t)) (of_nat (Suc n)) \<and> 0 < unat (k_refs k)" if "sock_at n t = Some k" for n k
    using usound_sock [OF u that] usoundD(4) [OF u, of n] that by (auto simp: counted_def sock_at_Some refs_to_def)
  moreover have "do_call rounds fuel c t \<noteq> Fault" if "not_onto_itself c" using do_call_sound [OF u that, of rounds fuel] by auto
  ultimately show ?thesis by blast
qed

definition one_socket :: "memory \<Rightarrow> world ipc unix" where
  "one_socket m = \<lparr>socks = Some (new_sock False) # replicate 7 None, prog = m,
     host = no_pipes m (no_world\<lparr>w_os := (w_os no_world)\<lparr>asked := 1, handles := [(unix_handle 0 1)\<lparr>fd_used := 1\<rparr>]\<rparr>\<rparr>)\<rparr>"

lemma os_give_first:
  assumes "handles s = [free_handle]"
  shows "os_give h s = (0, s\<lparr>handles := [h\<lparr>fd_used := 1\<rparr>]\<rparr>)"
  using assms by (simp add: os_give_def give_from.simps [of 0] free_handle_def)

lemma first_socket: "sys_socket (visited r) 1 1 (no_sockets m) = Ended 0 (one_socket m)"
proof -
  have "free_slot (socks (no_sockets m)) = 0" "(replicate 8 None)[0 := x] = x # replicate 7 None" for x :: "sock option"
    by (simp_all add: no_sockets_def numeral_eq_Suc)
  moreover have "os_give h (w_os no_world\<lparr>asked := Suc 0\<rparr>) = (0, w_os no_world\<lparr>asked := Suc 0, handles := [h\<lparr>fd_used := 1\<rparr>]\<rparr>)" for h
    by (subst os_give_first) (simp_all add: no_world_def)
  ultimately show ?thesis
    by (simp add: sys_socket_def visited_def net_services_def world_alloc_def mem_answer_def world_give_def put_sock_def no_sockets_def
      no_pipes_def one_socket_def Let_def) (simp add: no_world_def)
qed

theorem sockets_sound_witness:
  "(\<exists>k. sock_at 0 (one_socket (\<lambda>_. 0)) = Some k \<and> 0 < unat (k_refs k)) \<and> do_call 1 1 (Join 0 0 0) (one_socket (\<lambda>_. 0)) \<noteq> Fault"
proof -
  let ?m = "\<lambda>_. 0"
  have "size (socket_refs (host (one_socket ?m))) < 2 ^ 32"
    by (simp add: one_socket_def socket_refs_def no_pipes_def held_by_def no_world_def)
  then have "sock_step 1 1 (no_sockets ?m) (one_socket ?m)"
    using sock_step.a_call [of 1 1 "New 1 1" "no_sockets ?m" 0 "one_socket ?m"] first_socket by (simp add: not_onto_itself_def)
  then have "(sock_step 1 1)\<^sup>*\<^sup>* (no_sockets ?m) (one_socket ?m)" by (rule r_into_rtranclp)
  moreover have "sock_at 0 (one_socket ?m) = Some (new_sock False)" by (simp add: one_socket_def sock_at_def)
  moreover have "not_onto_itself (Join 0 0 0)" by (simp add: not_onto_itself_def)
  ultimately show ?thesis using sockets_sound [OF no_sockets_sound, of 1 1 ?m "one_socket ?m" "Join 0 0 0"] by blast
qed

section \<open>Connections\<close>

definition backlog :: "nat \<Rightarrow> 'k unix \<Rightarrow> handle list" where
  "backlog n s = (case sock_at n s of None \<Rightarrow> [] | Some k \<Rightarrow> take (unat (k_queued k)) (k_queue k))"

lemma queue_more_backlog: "sock_ok k \<Longrightarrow> k_queued k \<noteq> 8 \<Longrightarrow> take (unat (k_queued (queue_more h k))) (k_queue (queue_more h k)) = take (unat (k_queued k)) (k_queue k) @ [h]"
proof -
  assume k: "sock_ok k" "k_queued k \<noteq> 8"
  have "unat (k_queued k) \<noteq> 8"
  proof
    assume a: "unat (k_queued k) = 8"
    have "k_queued k = of_nat 8" by (simp flip: a)
    then show False using k(2) by simp
  qed
  then have q: "unat (k_queued k) < 8" "length (k_queue k) = 8" using k(1) by (simp_all add: sock_ok_def)
  have "unat (k_queued k + 1) = Suc (unat (k_queued k))" using q(1) by (subst unat_add_small) simp_all
  then show ?thesis using q by (simp add: queue_more_def take_Suc_conv_app_nth)
qed

lemma pair_ends_meet:
  assumes "pair_new K fl s = (Some (a, b), t)" "length (pipes s) = 256"
  shows "out_ref a = of_ref b \<and> out_ref b = of_ref a \<and> of_ref a \<noteq> {#} \<and> fd_used a \<noteq> 0"
proof -
  obtain m s1 where m: "new_end K s = (Some m, s1)" using assms(1) by (auto simp: pair_new_def split: prod.splits option.splits)
  obtain n where n: "new_end K s1 = (Some n, t)" "a = (pipe_handle (of_nat m + 1) 4 (push_bit 16 (of_nat n + 1) OR (fl AND 0x800)))\<lparr>fd_used := 1\<rparr>"
    "b = (pipe_handle (of_nat n + 1) 4 (push_bit 16 (of_nat m + 1) OR (fl AND 0x800)))\<lparr>fd_used := 1\<rparr>"
    using assms(1) m by (auto simp: pair_new_def Let_def split: prod.splits option.splits)
  have l: "m < 256" "n < 256" using m n(1) by (auto simp: new_end_def Let_def split: if_splits prod.splits)
  note off = pair_offset [OF l(1), of 0] pair_offset [OF l(2), of 0]
  show ?thesis using l by (simp add: n(2,3) of_ref_def out_ref_def pipe_handle_def pair_offset off [simplified])
qed

lemma fd_at_set: "fd_at fd w = Some h \<Longrightarrow> fd_used p \<noteq> 0 \<Longrightarrow> fd_at fd (set_fd fd p w) = Some p"
  by (drule fd_at_SomeD) (simp add: fd_at_def set_fd_def Let_def)

text \<open>Two sockets, \<open>a\<close> on descriptor 0 and \<open>b\<close> on 1, and the address \<open>@x\<close> at 0 and a room of 110 at 200.\<close>

definition an_address :: memory where
  "an_address = (\<lambda>x. if x = 0 then 1 else if x = 3 then 0x78 else if x = 200 then 110 else 0)"

definition two_files :: world where
  "two_files = no_world\<lparr>w_os := (w_os no_world)\<lparr>handles :=
     [(unix_handle 0 0)\<lparr>fd_used := 1\<rparr>, (unix_handle 1 0)\<lparr>fd_used := 1\<rparr>, free_handle]\<rparr>\<rparr>"

definition two_sockets :: "sock \<Rightarrow> sock \<Rightarrow> world ipc unix" where
  "two_sockets a b = \<lparr>socks = Some a # Some b # replicate 6 None, prog = an_address, host = no_pipes an_address two_files\<rparr>"

definition listening :: sock where
  "listening = (new_sock False)\<lparr>k_name := [0x40, 0x78], k_listening := True\<rparr>"

lemma two_at [simp]: "sock_at 0 (two_sockets a b) = Some a" "sock_at (Suc 0) (two_sockets a b) = Some b" "prog (two_sockets a b) = an_address"
  "host (two_sockets a b) = no_pipes an_address two_files" "pipes (no_pipes m w) = replicate 256 empty_pipe" "env (no_pipes m w) = w"
  "w_names two_files = []" "window (w_os two_files) x y" "w_args two_files = (\<lambda>i. 0)"
  by (simp_all add: two_sockets_def sock_at_def no_pipes_def two_files_def no_world_def)

lemma two_fd:
  "fd_at 0 two_files = Some ((unix_handle 0 0)\<lparr>fd_used := 1\<rparr>)" "fd_at 1 two_files = Some ((unix_handle 1 0)\<lparr>fd_used := 1\<rparr>)"
  by (simp_all add: fd_at_def two_files_def no_world_def Let_def)

lemma two_of:
  "sock_of (Some ((unix_handle 0 0)\<lparr>fd_used := 1\<rparr>)) (two_sockets a b) = Some (0, a)"
  "sock_of (Some ((unix_handle 1 0)\<lparr>fd_used := 1\<rparr>)) (two_sockets a b) = Some (1, b)"
  using unix_handle_ends [of 0 0] unix_handle_ends [of 1 0] by (simp_all add: sock_of_def)

lemma two_sound:
  assumes "sock_ok a" "sock_ok b" "k_refs a = 1" "k_refs b = 1"
  shows "usound (socket_refs (host (two_sockets a b))) (two_sockets a b)"
proof -
  have "socket_refs (host (two_sockets a b)) = {#1, 2#}"
    using unix_handle_ends(1) [of 0 0] unix_handle_ends(1) [of 1 0]
    by (simp add: socket_refs_def two_files_def no_world_def held_by_def free_handle_def) (simp add: unix_handle_def)
  moreover have "\<forall>n < 8. counted {#1, 2#} n (socks (two_sockets a b) ! n)"
    unfolding less_8 using assms by (simp add: two_sockets_def counted_def refs_to_def nth_Cons')
  ultimately show ?thesis by (simp add: usound_def two_sockets_def)
qed

lemma two_name: "name_of (visited r) 0 4 (two_sockets a b) = Some [0x40, 0x78]"
proof -
  have "peek an_address 0 2 = [1, 0]" "peek an_address 2 2 = [0, 0x78]" by (simp_all add: peek_def an_address_def upt_rec)
  then show ?thesis by (simp add: name_of_def visited_def net_services_def)
qed

lemma two_unbound: "bound [0x40, 0x78] (two_sockets (new_sock False) (new_sock False)) = None"
proof -
  have "(case sock_at i (two_sockets (new_sock False) (new_sock False)) of None \<Rightarrow> False | Some k \<Rightarrow> k_name k \<noteq> [] \<and> k_name k = [0x40, 0x78]) = False" for i
    by (auto simp: sock_at_def two_sockets_def new_sock_def nth_Cons' split: option.split)
  then show ?thesis unfolding bound_def find_None_iff by simp
qed

lemma two_pair: "\<exists>a b t. pair_new net_pipes fl (no_pipes m two_files) = (Some (a, b), t)"
proof -
  have al: "\<exists>w'. pk_alloc net_pipes x w = (True, w') \<and> answers (w_os w') = answers (w_os w)" if "answers (w_os w) = (\<lambda>n. True)" for w x
    using that by (simp add: net_pipes_def world_alloc_def mem_answer_def)
  have t: "answers (w_os two_files) = (\<lambda>n. True)" by (simp add: two_files_def no_world_def)
  obtain w1 where w1: "pk_alloc net_pipes 8192 two_files = (True, w1)" "answers (w_os w1) = (\<lambda>n. True)" using al [OF t] t by auto
  obtain w2 where w2: "pk_alloc net_pipes 8192 w1 = (True, w2)" using al [OF w1(2)] by auto
  have "replicate 256 empty_pipe = empty_pipe # empty_pipe # replicate 254 empty_pipe"
    using replicate_Suc [of 255 empty_pipe] replicate_Suc [of 254 empty_pipe] by simp
  then have "pipes (no_pipes m two_files) = empty_pipe # empty_pipe # replicate 254 empty_pipe" by simp
  then show ?thesis using w1 w2 by (simp add: pair_new_def new_end_def pipe_slot_def set_pipe_def fresh_fields)
qed

text \<open>
  C24. A connection is made: connecting a socket to the name of one that listens, with room in its backlog, adds the far
  end of a new pair behind the connections that wait there, and makes the descriptor the near end: what
  one end writes the other reads. The backlogs of other sockets stay. (functional)
\<close>
theorem connection_queued:
  assumes "usound (socket_refs (host s)) s" "fd_at fd (env (host s)) = Some h" "sock_of (Some h) s = Some (n, k)"
    "name_of (visited r) addr len s = Some name" "bound name s = Some m" "sock_at m s = Some to" "k_listening to" "k_queued to \<noteq> 8" "m \<noteq> n"
    "pair_new net_pipes (fd_offset h AND 0x800) (host s) = (Some (mine, theirs), k1)" "length (pipes (host s)) = PIPES"
  shows "\<exists>t. sys_connect (visited r) fd addr len s = Ended 0 t \<and> backlog m t = backlog m s @ [theirs] \<and>
    fd_at fd (env (host t)) = Some mine \<and> out_ref mine = of_ref theirs \<and> out_ref theirs = of_ref mine \<and>
    (\<forall>j. j \<noteq> m \<and> j \<noteq> n \<longrightarrow> sock_at j t = sock_at j s)"
proof -
  have h: "is_unix h" "unat (fd_folder h) = Suc n" using assms(3) by (auto elim: sock_of_SomeD)
  have sv: "sv_handle (visited r) fd (host s) = Some h" "sv_pair (visited r) (fd_offset h AND 0x800) (host s) = (Some (mine, theirs), k1)"
    using assms(2,10) by (simp_all add: visited_simps net_services_def)
  obtain s3 where s3: "sys_connect (visited r) fd addr len s = Ended 0 (s3\<lparr>host := sv_put (visited r) fd mine (host s3)\<rparr>)"
    "\<And>fd. sv_handle (visited r) fd (host s3) = sv_handle (visited r) fd (host s)"
    "\<And>j. Suc j \<noteq> unat (fd_folder h) \<Longrightarrow> sock_at j s3 = (if j = m then Some (queue_more theirs to) else sock_at j s)"
    by (rule visits.connect_made [OF assms(1) sv(1) h(1) assms(3-8) sv(2)]) blast
  let ?t = "s3\<lparr>host := sv_put (visited r) fd mine (host s3)\<rparr>"
  have meet: "out_ref mine = of_ref theirs" "out_ref theirs = of_ref mine" "fd_used mine \<noteq> 0"
    using pair_ends_meet [OF assms(10,11)] by simp_all
  have at: "sock_at j ?t = (if j = m then Some (queue_more theirs to) else sock_at j s)" if "j \<noteq> n" for j
    using s3(3) [of j] that h(2) by simp
  have "fd_at fd (env (host s3)) = Some h" using s3(2) sv(1) by (simp add: visited_simps net_services_def)
  then have "fd_at fd (env (host ?t)) = Some mine"
    using fd_at_set [OF _ meet(3)] by (simp add: visited_simps net_services_def)
  moreover have "backlog m ?t = backlog m s @ [theirs]"
    using at [OF assms(9)] assms(6,8) usound_sock [OF assms(1,6)] by (simp add: backlog_def queue_more_backlog)
  ultimately show ?thesis using s3(1) meet at by (intro exI [of _ ?t]) simp
qed

theorem connection_queued_witness:
  "\<exists>t theirs. sys_connect (visited 1) 1 0 4 (two_sockets listening (new_sock False)) = Ended 0 t \<and> backlog 0 t = [theirs]"
proof -
  let ?s = "two_sockets listening (new_sock False)"
  obtain a b k1 where p: "pair_new net_pipes (fd_offset ((unix_handle 1 0)\<lparr>fd_used := 1\<rparr>) AND 0x800) (host ?s) = (Some (a, b), k1)"
    using two_pair by fastforce
  have f: "fd_at 1 (env (host ?s)) = Some ((unix_handle 1 0)\<lparr>fd_used := 1\<rparr>)" using two_fd(2) by simp
  have len_pipes: "length (pipes (host ?s)) = 256" by simp
  have "bound [0x40, 0x78] ?s = Some 0" by (simp add: bound_def listening_def upt_rec)
  moreover have "k_listening listening" "k_queued listening \<noteq> 8" "backlog 0 ?s = []" by (simp_all add: backlog_def listening_def new_sock_def)
  moreover have "usound (socket_refs (host ?s)) ?s" by (rule two_sound) (simp_all add: listening_def new_sock_def sock_ok_def)
  ultimately show ?thesis
    using connection_queued [OF _ f two_of(2) two_name [of 1] _ two_at(1) _ _ _ p] by (metis append_Nil len_pipes zero_neq_one)
qed

text \<open>
  C25. Connections are accepted in the order they were made: with one waiting, \<open>accept\<close> gives a descriptor on the
  first end in the backlog, non-blocking exactly if asked, and leaves the rest in order. (functional)
\<close>
theorem accepted_in_order:
  assumes "usound (socket_refs (host s)) s" "fd_at fd (env (host s)) = Some h" "sock_of (Some h) s = Some (n, k)" "k_listening k"
    "backlog n s = first # rest" "0 < fuel"
    "world_give (first\<lparr>fd_offset := (fd_offset first AND NOT 0x800) OR (ucast flags AND 0x800)\<rparr>) (env (host s)) = (new, w)" "0 \<le> sint new"
  shows "\<exists>t. accept_with (visited r) fuel fd addr lenp flags s = Ended new t \<and> backlog n t = rest \<and>
    (\<forall>j. j \<noteq> n \<longrightarrow> sock_at j t = sock_at j s) \<and> env (host t) = (if flags AND O_CLOEXEC \<noteq> 0 then fd_cloexec new w else w)"
proof -
  have k: "sock_at n s = Some k" using assms(3) by (auto elim: sock_of_SomeD)
  then have q: "take (unat (k_queued k)) (k_queue k) = first # rest" using assms(5) by (simp add: backlog_def)
  then have f: "k_queue k ! 0 = first" "k_queued k \<noteq> 0" by (cases "k_queue k"; cases "unat (k_queued k)"; force)+
  have sv: "sv_handle (visited r) fd (host s) = Some h"
    "sv_give (visited r) ((k_queue k ! 0)\<lparr>fd_offset := (fd_offset (k_queue k ! 0) AND NOT 0x800) OR (ucast flags AND 0x800)\<rparr>) (host s) = (new, (host s)\<lparr>env := w\<rparr>)"
    using assms(2,7) f(1) by (simp_all add: visited_simps net_services_def)
  obtain t q where t: "accept_with (visited r) fuel fd addr lenp flags s = Ended new t"
    "socks t = (socks s)[n := Some (k\<lparr>k_queue := q, k_queued := k_queued k - 1\<rparr>)]"
    "take (unat (k_queued k - 1)) q = tl (take (unat (k_queued k)) (k_queue k))"
    "host t = (if flags AND 0x80000 \<noteq> 0 then sv_cloexec (visited r) new ((host s)\<lparr>env := w\<rparr>) else (host s)\<lparr>env := w\<rparr>)"
    by (rule visits.accept_first [OF assms(1) sv(1) assms(3,4) f(2) assms(6) sv(2) assms(8)])
  have "backlog n t = rest" using t(2,3) q k by (simp add: backlog_def sock_at_def split: if_splits)
  moreover have "sock_at j t = sock_at j s" if "j \<noteq> n" for j using t(2) that by (simp add: sock_at_def)
  moreover have "env (host t) = (if flags AND 0x80000 \<noteq> 0 then fd_cloexec new w else w)" using t(4) by (simp add: visited_simps net_services_def)
  ultimately show ?thesis using t(1) by blast
qed
theorem accepted_in_order_witness:
  "\<exists>t. accept_with (visited 1) 1 0 0 0 0 (two_sockets (queue_more (pipe_handle 1 PIPE_PAIR 0x20000) listening) (new_sock False)) = Ended 2 t \<and>
    backlog 0 t = []"
proof -
  let ?e = "pipe_handle 1 4 0x20000"
  let ?s = "two_sockets (queue_more ?e listening) (new_sock False)"
  let ?f = "?e\<lparr>fd_offset := (fd_offset ?e AND NOT 0x800) OR (ucast (0 :: u64) AND 0x800)\<rparr>"
  have f: "fd_at 0 (env (host ?s)) = Some ((unix_handle 0 0)\<lparr>fd_used := 1\<rparr>)" using two_fd(1) by simp
  have two: "0 \<le> sint (2 :: u64)" by simp
  have "sock_ok listening" "k_queued listening \<noteq> 8" by (simp_all add: listening_def new_sock_def sock_ok_def)
  then have "sock_ok (queue_more ?e listening)" unfolding queue_more_def by (intro alone.queue_ok(2)) (simp_all add: pipe_handle_def)
  then have "usound (socket_refs (host ?s)) ?s"
    by (rule two_sound) (simp_all add: listening_def new_sock_def sock_ok_def queue_more_def)
  moreover have "backlog 0 ?s = ?e # []"
    using queue_more_backlog [of listening ?e] \<open>sock_ok listening\<close> by (simp add: backlog_def) (simp add: listening_def new_sock_def)
  moreover have "k_listening (queue_more ?e listening)" by (simp add: queue_more_def listening_def)
  moreover have "\<exists>w. world_give ?f (env (host ?s)) = (2, w)"
    by (simp add: world_give_def os_give_def give_from.simps [of 0] give_from.simps [of 1] give_from.simps [of 2] give_from.simps [of "Suc 0"] give_from.simps [of "Suc (Suc 0)"] two_files_def no_world_def free_handle_def)
  ultimately show ?thesis
    using accepted_in_order [OF _ f two_of(1), where fuel = 1 and flags = 0 and r = 1] by (metis two zero_less_one)
qed

section \<open>Names\<close>

lemma peek_elsewhere:
  assumes "\<forall>i < n. \<forall>j < length bs. b + of_nat i \<noteq> a + of_nat j"
  shows "peek (poke m a bs) b n = peek m b n"
proof -
  have "\<not> unat (b + of_nat i - a) < length bs" if "i < n" for i
  proof
    assume l: "unat (b + of_nat i - a) < length bs"
    have "a + of_nat (unat (b + of_nat i - a)) = b + of_nat i" by simp
    then show False using assms that l by metis
  qed
  then show ?thesis by (simp add: peek_def poke_def)
qed

lemma u32_at_put: "u32_at (put_u32 m a v) a = v"
proof -
  have "length (le_bytes 4 (unat v)) < 2 ^ 64" "le_val (le_bytes 4 (unat v)) = unat v" using unat_bound [of v] by simp_all
  then show ?thesis using peek_poke [of "le_bytes 4 (unat v)" m a] by (simp add: u32_at_def put_u32_def)
qed

lemma peek_split: "peek m a (i + j) = peek m a i @ peek m (a + of_nat i) j"
  unfolding peek_def by (rule nth_equalityI) (auto simp: nth_append add.assoc simp flip: of_nat_add)

lemma length_sockaddr: "length path \<le> 108 \<Longrightarrow> length (sockaddr path) = 110"
  by (simp add: sockaddr_def)

text \<open>A name read back from the bytes an address of it is told as.\<close>

lemma name_of_ok:
  assumes "name_of K addr len s = Some name"
  shows "name \<noteq> [] \<and> 0 \<notin> set name"
proof -
  define bs where "bs = peek (prog s) (addr + 2) (unat (len - 2))"
  have l: "3 \<le> unat len" using assms by (auto simp: name_of_def word_nat split: if_splits)
  have "bs \<noteq> []" using l by (auto simp: bs_def peek_def unat_sub_le)
  moreover have "name = takeWhile (\<lambda>c. c \<noteq> 0) (if hd bs = 0 then 0x40 # tl bs else bs)"
    using assms by (simp add: name_of_def bs_def Let_def split: if_splits)
  ultimately show ?thesis by (cases bs) (auto dest: set_takeWhileD)
qed

lemma told_name:
  assumes "name \<noteq> []" "0 \<notin> set name" "length name < 108" "own_name (Some (k\<lparr>k_name := name\<rparr>)) = (path, len)"
  shows "length path \<le> 108" "3 \<le> len" "len \<le> 110" "take (unat len) (sockaddr path) = [1, 0] @ take (unat len - 2) (path @ replicate (108 - length path) 0)"
    "take (unat len - 2) (path @ replicate (108 - length path) 0) = (if hd name = 0x40 then 0 # tl name else name @ [0])"
proof -
  obtain c cs where n: "name = c # cs" using assms(1) by (cases name) auto
  have l: "unat (of_nat (length name) + 2 :: u32) = length name + 2" "unat (of_nat (length name) + 1 + 2 :: u32) = length name + 3"
    using assms(3) by (subst unat_add_small; simp add: unsigned_of_nat take_bit_nat_eq_self)+
  have pl: "path = (if c = 0x40 then 0 # cs else name)" "unat len = (if c = 0x40 then length name + 2 else length name + 3)"
    using assms(4) l n by (auto simp: own_name_def abstract_name_def split: if_splits)
  show "length path \<le> 108" using pl(1) assms(3) n by auto
  show "3 \<le> len" "len \<le> 110" using pl(2) assms(3) n by (auto simp: word_le_nat_alt split: if_splits)
  show "take (unat len) (sockaddr path) = [1, 0] @ take (unat len - 2) (path @ replicate (108 - length path) 0)"
    using pl(2) by (auto simp: sockaddr_def take_Cons' numeral_eq_Suc split: if_splits)
  have "min (Suc 0) (107 - length cs) = 1" using assms(3) n by simp
  then show "take (unat len - 2) (path @ replicate (108 - length path) 0) = (if hd name = 0x40 then 0 # tl name else name @ [0])"
    using pl n by auto
qed

text \<open>
  C39. A name given is the name told: after \<open>bind\<close> to a name, \<open>getsockname\<close> writes an address that is read
  back as the same name, whether the name is of a file or abstract. (roundtrip)
\<close>
theorem bound_name_told:
  assumes "fd_at fd (env (host s)) = Some h" "sock_of (Some h) s = Some (n, k)" "\<not> k_uevent k" "name_of (visited r) addr len s = Some name"
    "length name < PATH" "sys_bind (visited r) fd addr len s = Ended 0 t" "u32_at (prog s) lenp = 110"
    "window (w_os (env (host s))) lenp 4" "\<forall>l \<le> 110. window (w_os (env (host s))) out l"
    "\<forall>i < 110. \<forall>j < 4. out + of_nat i \<noteq> lenp + of_nat j"
  shows "\<exists>u. sys_getsockname (visited r) fd out lenp t = Ended 0 u \<and>
    name_of (visited r) out (ucast (u32_at (prog u) lenp)) u = Some name"
proof -
  let ?k = "k\<lparr>k_name := name\<rparr>"
  have k: "is_unix h" "unat (fd_folder h) = Suc n" "n < 8" "sock_at n s = Some k" using assms(2) by (auto elim: sock_of_SomeD)
  have sv: "sv_handle (visited r) f w = fd_at f (env w)" "sv_range (visited r) a c w = window (w_os (env w)) a c" for f w a c
    by (simp_all add: visited_def net_services_def)
  have set: "set_name name k = Some ?k" using assms(5) by (simp add: set_name_def)
  have files: "sv_stat (visited r) a w = (a \<in> set (w_names (env w)), w)" "sv_write (visited r) a w = (True, w\<lparr>env := (env w)\<lparr>w_names := a # w_names (env w)\<rparr>\<rparr>)" for a w
    by (simp_all add: visited_def net_services_def)
  have "\<not> bound name s \<noteq> None"
  proof
    assume "bound name s \<noteq> None"
    then have "sys_bind (visited r) fd addr len s = Ended (ERR EADDRINUSE) s" using assms(1-4) by (simp add: sys_bind_def sv)
    then show False using assms(6) by (simp add: ERR_def)
  qed
  note b = assms(6) [unfolded sys_bind_def sv assms(1,2,4) option.case prod.case if_not_P [OF assms(3)] if_not_P [OF this] files set]
  have t: "prog t = prog s \<and> socks t = (socks s)[n := Some ?k] \<and> w_os (env (host t)) = w_os (env (host s))"
  proof (cases "abstract_name name")
    case True
    then show ?thesis using b by (auto simp: put_sock_def)
  next
    case False
    then show ?thesis using b by (auto simp: put_sock_def ERR_def split: if_splits)
  qed
  then have at: "sock_at n t = Some ?k" using k(4) by (auto simp: sock_at_Some)
  have w: "window (w_os (env (host t))) = window (w_os (env (host s)))" "fd_at fd (env (host t)) = Some h" using t assms(1) by (auto simp: fd_at_def Let_def split: if_splits)
  have so: "sock_of (Some h) t = Some (n, ?k)" using k(1-3) at by (simp add: sock_of_def)
  obtain path l where p: "own_name (Some ?k) = (path, l)" by (cases "own_name (Some ?k)")
  note told = told_name [OF conjunct1 [OF name_of_ok [OF assms(4)]] conjunct2 [OF name_of_ok [OF assms(4)]] assms(5) p]
  define bs where "bs = take (unat l) (sockaddr path)"
  have lu: "3 \<le> unat l" "unat l \<le> 110" using told(2,3) by (simp_all add: word_le_nat_alt)
  define rest where "rest = (if hd name = 0x40 then 0 # tl name else name @ [0])"
  have bs: "bs = [1, 0] @ rest" using told(4,5) by (simp add: bs_def rest_def)
  have bl: "length bs = unat l" using lu length_sockaddr [OF told(1)] by (simp add: bs_def)
  let ?m = "put_u32 (poke (prog t) out bs) lenp l"
  let ?u = "t\<lparr>prog := ?m\<rparr>"
  have "u32_at (prog t) lenp = 110" using t assms(7) by simp
  moreover have "unat (if l < 110 then l else 110) = unat l" using told(3) by auto
  then have "slice (sockaddr path) 0 (unat (if l < 110 then l else 110)) = Some bs" using bl by (auto simp: slice_def bs_def)
  ultimately have "sys_getsockname (visited r) fd out lenp t = Ended 0 ?u"
    using assms(3,8,9) w so p by (simp add: sys_getsockname_def name_call_def sv Let_def)
  moreover have "name_of (visited r) out (ucast (u32_at (prog ?u) lenp)) ?u = Some name"
  proof -
    have two: "2 + (unat l - 2) = unat l" using lu by simp
    have "peek ?m out (unat l) = peek (poke (prog t) out bs) out (unat l)"
      unfolding put_u32_def by (rule peek_elsewhere) (use assms(10) lu in auto)
    also have "\<dots> = bs" using peek_poke [of bs "prog t" out] bl lu by simp
    finally have "peek ?m out (2 + (unat l - 2)) = [1, 0] @ rest" using bs two by simp
    then have "peek ?m out 2 @ peek ?m (out + 2) (unat l - 2) = [1, 0] @ rest" unfolding peek_split by simp
    then have "peek ?m out 2 = [1, 0] \<and> peek ?m (out + 2) (unat l - 2) = rest" by (subst (asm) append_eq_append_conv) simp_all
    then have pk: "peek ?m out 2 = [1, 0]" "peek ?m (out + 2) (unat l - 2) = rest" by simp_all
    have ll: "\<not> ucast l < (3 :: u64)" "\<not> 110 < (ucast l :: u64)" "unat (ucast l - 2 :: u64) = unat l - 2"
      using lu by (simp_all add: word_less_nat_alt unat_sub_le)
    have "window (w_os (env (host t))) out (ucast l)" using assms(9) lu w by (simp add: word_le_nat_alt)
    moreover have "takeWhile (\<lambda>c. c \<noteq> 0) (if hd rest = 0 then 0x40 # tl rest else rest) = name"
      using name_of_ok [OF assms(4)] by (cases name) (auto simp: rest_def takeWhile_tail)
    ultimately show ?thesis using pk ll by (simp add: name_of_def u32_at_put sv Let_def)
  qed
  ultimately show ?thesis by blast
qed

theorem bound_name_told_witness:
  "\<exists>u. sys_getsockname (visited 1) 0 300 200 (two_sockets ((new_sock False)\<lparr>k_name := [0x40, 0x78]\<rparr>) (new_sock False)) = Ended 0 u \<and>
    name_of (visited 1) 300 (ucast (u32_at (prog u) 200)) u = Some [0x40, 0x78]"
proof -
  let ?s = "two_sockets (new_sock False) (new_sock False)"
  let ?t = "two_sockets ((new_sock False)\<lparr>k_name := [0x40, 0x78]\<rparr>) (new_sock False)"
  have b: "sys_bind (visited 1) 0 0 4 ?s = Ended 0 ?t"
    using two_name [of 1] two_fd(1) two_of(1) two_unbound
    by (simp add: sys_bind_def visited_simps net_services_def new_sock_def abstract_name_def set_name_def put_sock_def) (simp add: two_sockets_def)
  have "(300 :: u64) + of_nat i \<noteq> 200 + of_nat j" if "i < 110" "j < 4" for i j
  proof -
    have "unat ((300 :: u64) + of_nat i) = 300 + i" "unat ((200 :: u64) + of_nat j) = 200 + j"
      using that by (subst unat_add_small; simp add: unsigned_of_nat take_bit_nat_eq_self)+
    moreover have "300 + i \<noteq> 200 + j" using that by simp
    ultimately show ?thesis by metis
  qed
  moreover have "u32_at (prog ?s) 200 = 110" by (simp add: u32_at_def peek_def an_address_def upt_rec)
  moreover have "fd_at 0 (env (host ?s)) = Some ((unix_handle 0 0)\<lparr>fd_used := 1\<rparr>)" using two_fd(1) by simp
  moreover have "\<not> k_uevent (new_sock False)" "length [0x40, 0x78 :: u8] < 108" by (simp_all add: new_sock_def)
  ultimately show ?thesis by (intro bound_name_told [OF _ two_of(1) _ two_name [of 1] _ b]) (blast | simp)+
qed

text \<open>
  C40. Connecting fails as it should, and changes no socket: to a name nobody has, or one nobody listens
  on, with ECONNREFUSED if there is such a file or the name is abstract and ENOENT if not; to a full backlog with EAGAIN.
  (error)
\<close>
theorem connect_refused:
  assumes "fd_at fd (env (host s)) = Some h" "sock_of (Some h) s = Some (n, k)" "name_of (visited r) addr len s = Some name"
  shows "((\<forall>m to. bound name s = Some m \<and> sock_at m s = Some to \<longrightarrow> \<not> k_listening to) \<longrightarrow>
      sys_connect (visited r) fd addr len s =
        Ended (ERR (if abstract_name name \<or> name \<in> set (w_names (env (host s))) then ECONNREFUSED else ENOENT)) s) \<and>
    (\<forall>m to. bound name s = Some m \<and> sock_at m s = Some to \<and> k_listening to \<and> k_queued to = BACKLOG \<longrightarrow>
      sys_connect (visited r) fd addr len s = Ended (ERR EAGAIN) s)"
proof -
  have sv: "sv_handle (visited r) f w = fd_at f (env w)" "sv_stat (visited r) a w = (a \<in> set (w_names (env w)), w)" for f w a
    by (simp_all add: visited_def net_services_def)
  have e: "(case (if b then (True, w) else (c, w)) of (x, y) \<Rightarrow> f x y) = f (b \<or> c) w" for b c w and f :: "bool \<Rightarrow> world ipc \<Rightarrow> (u64, world ipc unix) outcome"
    by simp
  note c = sys_connect_def Let_def sv assms option.case prod.case e
  show ?thesis
  proof (intro conjI allI impI)
    assume a: "\<forall>m to. bound name s = Some m \<and> sock_at m s = Some to \<longrightarrow> \<not> k_listening to"
    show "sys_connect (visited r) fd addr len s =
        Ended (ERR (if abstract_name name \<or> name \<in> set (w_names (env (host s))) then ECONNREFUSED else ENOENT)) s"
    proof (cases "\<exists>m to. bound name s = Some m \<and> sock_at m s = Some to")
      case True
      then show ?thesis using a by (auto simp: c)
    next
      case False
      then have "(case bound name s of None \<Rightarrow> None | Some m \<Rightarrow> map_option (Pair m) (sock_at m s)) = None" by (auto split: option.split)
      then show ?thesis by (simp add: c)
    qed
  next
    fix m to assume "bound name s = Some m \<and> sock_at m s = Some to \<and> k_listening to \<and> k_queued to = 8"
    then show "sys_connect (visited r) fd addr len s = Ended (ERR EAGAIN) s" by (simp add: c)
  qed
qed

theorem connect_refused_witness:
  "sys_connect (visited 1) 1 0 4 (two_sockets (new_sock False) (new_sock False)) =
    Ended (ERR ECONNREFUSED) (two_sockets (new_sock False) (new_sock False))"
proof -
  let ?s = "two_sockets (new_sock False) (new_sock False)"
  have "fd_at 1 (env (host ?s)) = Some ((unix_handle 1 0)\<lparr>fd_used := 1\<rparr>)" using two_fd(2) by simp
  from connect_refused [OF this two_of(2) two_name [of 1]] show ?thesis using two_unbound by (simp add: abstract_name_def)
qed

section \<open>Where the code does less than it means to\<close>

text \<open>
  A name of 108 bytes, which \<open>bind\<close> takes, is told as 111, and \<open>getsockname\<close> reads them from an address of 110.
\<close>

lemma long_name_read_past:
  assumes "sock_of (sv_handle K fd (host s)) s = Some (n, k)" "\<not> k_uevent k" "length (k_name k) = 108" "hd (k_name k) \<noteq> 0x40"
    "sv_range K lenp 4 (host s)" "sv_range K out (ucast (u32_at (prog s) lenp)) (host s)" "110 < u32_at (prog s) lenp"
  shows "sys_getsockname K fd out lenp s = Fault"
proof -
  have n: "k_name k \<noteq> []" using assms(3) by auto
  then have o: "own_name (Some k) = (k_name k, 111)" using assms(3,4) by (simp add: own_name_def abstract_name_def)
  have "\<not> u32_at (prog s) lenp < 111" using assms(7) by (simp add: word_less_nat_alt)
  then have "slice (sockaddr (k_name k)) 0 (unat (if 111 < u32_at (prog s) lenp then 111 else u32_at (prog s) lenp)) = None"
    using length_sockaddr [of "k_name k"] assms(3,7) by (auto simp: slice_def word_less_nat_alt)
  then show ?thesis using assms(1,2,5,6) o by (simp add: sys_getsockname_def name_call_def)
qed

text \<open>A pair whose second pipe cannot be made leaves its first in use, with a reference nobody has.\<close>

lemma half_a_pair_stays:
  assumes "new_end K s = (Some a, s1)" "a < length (pipes s)" "new_end K s1 = (None, s2)"
  shows "\<exists>t. pair_new K fl s = (None, t) \<and> p_refs (pipe_at a t) = 1"
proof -
  have "pipe_at a s1 = fresh_pipe" "length (pipes s1) = length (pipes s)"
    using assms(1,2) by (auto simp: new_end_def Let_def split: if_splits prod.splits)
  moreover have "pipes s2 = pipes s1" using assms(3) by (auto simp: new_end_def Let_def split: if_splits prod.splits)
  ultimately have "pipe_at a s2 = fresh_pipe" "a < length (pipes s2)" using assms(2) by (simp_all add: pipe_at_def)
  then have "pipe_drop K (Some a) s2 = ([], set_pipe a (fresh_pipe\<lparr>p_refs := 1\<rparr>) s2)" by (simp add: pipe_drop_def Let_def)
  then show ?thesis using assms(1,3) \<open>a < length (pipes s2)\<close> by (simp add: pair_new_def)
qed

text \<open>
  \<open>handle_of\<close> reads the lower 32 bits of a descriptor, \<open>dup_to\<close> compares all 64: a descriptor duplicated
  onto itself, with a bit set above, is closed, and what it was on may be gone while it stays.
\<close>

lemma dup_onto_itself_frees:
  "\<exists>t h. dup_to 0x100000000 0 (one_socket m) = Ended 0 t \<and> fd_at 0 (env (host t)) = Some h \<and> is_unix h \<and> fd_folder h = 1 \<and> sock_at 0 t = None"
proof -
  let ?h = "(unix_handle 0 1)\<lparr>fd_used := 1\<rparr>"
  have h: "is_unix ?h" using unix_handle_ends(1) [of 0 1] by simp
  have g: "fd_folder ?h = 1" "fd_start ?h = 0xFFFFFFF8" by (simp_all add: unix_handle_def)
  have w: "handles (w_os (env (host (one_socket m)))) = [?h]" by (simp add: one_socket_def no_pipes_def no_world_def)
  then have at: "fd_at 0x100000000 (env (host (one_socket m))) = Some ?h" "fd_at 0 (env (host (one_socket m))) = Some ?h"
    by (simp_all add: fd_at_def Let_def)
  let ?s1 = "in_env (set_fd 0 (?h\<lparr>fd_used := 0\<rparr>)) (one_socket m)"
  have k: "sock_at 0 ?s1 = Some (new_sock False)" by (simp add: sock_at_def one_socket_def in_env_def)
  have "unix_drop (net_services 0) 1 ?s1 = Some (put_sock 0 None ?s1)"
    using k by (simp add: unix_drop_def new_sock_def close_all_def net_services_def slice_def)
  then have c: "sys_close 0 (one_socket m) = Ended 0 (put_sock 0 None ?s1)"
    using at(2) h g by (simp add: sys_close_def Let_def)
  have w2: "handles (w_os (env (host (put_sock 0 None ?s1)))) = [?h\<lparr>fd_used := 0\<rparr>]" using w by (simp add: put_sock_def set_fd_def)
  have gone: "sock_at 0 (put_sock 0 None ?s1) = None" by (simp add: sock_at_def put_sock_def)
  have none: "sock_at n (unix_hold x u) = None" if "sock_at n u = None" for n x and u :: "world ipc unix"
    using that by (auto simp: unix_hold_def sock_at_def put_sock_def nth_list_update split: option.splits if_splits)
  have host: "host (unix_hold x u) = host u" for x and u :: "world ipc unix" by (simp add: unix_hold_def put_sock_def split: option.split)
  let ?t = "in_env (set_fd 0 ((?h\<lparr>fd_used := 0\<rparr>)\<lparr>fd_used := 1\<rparr>)) (put_sock 0 None ?s1)"
  have "dup_to 0x100000000 0 (one_socket m) = Ended 0 (hold_one (?h\<lparr>fd_used := 0\<rparr>) ?t)"
    using at c w w2 by (simp add: dup_to_def ended_def)
  moreover have "sock_at 0 (hold_one (?h\<lparr>fd_used := 0\<rparr>) ?t) = None" using gone none
    by (simp add: hold_one_def Let_def in_env_def)
  moreover have "fd_at 0 (env (host (hold_one (?h\<lparr>fd_used := 0\<rparr>) ?t))) = Some ?h" using w2
    by (simp add: hold_one_def host fd_at_def set_fd_def Let_def)
  ultimately show ?thesis using h g(1) by blast
qed

end
