(* ===== verification/Spec2Isabelle.thy ===== *)
theory Spec2Isabelle
  imports KString Pages Share Storage FsProps UnpackProps PtyProps PipeProps PipeFiles UnixProps
begin

text \<open>
  Tuxlet is a small operating system for x86-64 in C: a kernel (\<open>src/src/kernel\<close>), modules linked into it
  at run time (\<open>src/src/modules\<close>) and a package manager (\<open>src/src/tuxpac\<close>). This development models the
  parts that carry its own logic and keep state in memory, and proves them correct.

  \<^bold>\<open>Parts and how they meet.\<close>
  The page allocator gives memory to every other part. The disk is read and written by sector, through a
  cache that takes its lines from the allocator and gives them back when the allocator runs out; the
  filesystem keeps names and files on that disk. The table of shared pages says which page of memory holds
  which page of which file, and forgets it when the disk is written. Programs reach all this through
  descriptors; pseudo-terminals are files a module adds to them. Pipes, connected pairs, eventfds and FIFOs
  are buffers of the kernel that several descriptors count on; a pair carries messages with descriptors in
  them. A local socket is a name and a backlog of pairs until it is connected: connecting replaces the
  descriptor by one end of a pair and leaves the other for accept. The package manager unpacks what it
  downloads with decompressors of its own.

  \<^bold>\<open>Theories and code.\<close>
  \<^item> \<open>Prelude\<close>: word widths, little-endian numbers, facts about words and lists. \<open>Arrays\<close>: C arrays as
    lists (\<open>rd\<close>, \<open>wr\<close>, \<open>slice\<close>, \<open>blit\<close> are \<open>None\<close> outside the array), counted loops, and \<open>gives\<close>, the rule
    for what a computation that may fail returns.
  \<^item> \<open>KString\<close> (\<open>kernel/string.c\<close>): memory and string routines over a byte-addressed memory, their
    word-at-a-time loops proved equal to plain copying, filling and comparing.
  \<^item> \<open>PageAlloc\<close>, \<open>Pages\<close> (\<open>kernel/mem.c\<close>): the list of free runs, the chain of single pages, taking and
    giving back, and taking over the firmware's map. Invariant: what is free is a set of pages, each known
    once. Taking gives pages that were free, giving back makes them free again.
  \<^item> \<open>Chains\<close>, \<open>Share\<close> (\<open>kernel/share.c\<close>): chains through table entries, then the table of shared pages with
    its two sets of chains and its counts. Invariant: each chain holds exactly the entries of its hash.
  \<^item> \<open>Cache\<close>, \<open>CacheRead\<close> (\<open>modules/storage/cache.c\<close>), \<open>Disk\<close>, \<open>Storage\<close> (\<open>kernel/efi.c\<close>, \<open>kernel/bios.c\<close>): lines
    of 128 sectors, their chains and their replacement, and the ways to the disk. Invariant: a line that is
    found holds what the disk holds. With it a read through the cache is a read of the disk.
  \<^item> \<open>FsBase\<close>, \<open>FsIndex\<close>, \<open>Fs\<close> (\<open>kernel/fs.c\<close>) hold the definitions: sectors at hand, header and entries,
    index and room, paths and operations. \<open>FsSector\<close>: what is written is read back. \<open>FsFind\<close>: the index finds
    what a search of the table would. \<open>FsStore\<close>, \<open>FsOps\<close>, \<open>FsRefine\<close>: the invariant of the disk, and each
    operation as an operation on a map from names to contents, where there is room past the end of the
    data and neither table nor index has to grow: growth and the search for a gap are in the definitions,
    and of them only that a search ends at the lowest gap is proved. \<open>FsPaths\<close>: the walk of a path, links
    followed, as a function of that map. \<open>FsProps\<close>: the properties, and a machine with a formatted disk.
  \<^item> \<open>Source\<close>, \<open>Inflate\<close>, \<open>Lzma\<close> (\<open>tuxpac/unpack.c\<close>) hold the definitions: byte sources, window, gzip, xz.
    \<open>Feed\<close>, \<open>Bits\<close>, \<open>Window\<close>: input as one stream, the window as a ring over the bytes put out. \<open>Gunzip\<close>,
    \<open>Unxz\<close>, \<open>UnxzRun\<close>: both decoders end on every input and stay in their arrays. \<open>UnpackMemory\<close>: \<open>unxz\<close> gives
    back the memory it maps. \<open>Canon\<close>, \<open>Deflate\<close>: Huffman
    tables against canonical codes, blocks against an LZ77 expansion. \<open>UnpackProps\<close>: the properties.
  \<^item> \<open>Pty\<close> (\<open>modules/ipc/pty.c\<close>) holds the definitions. \<open>PtyLine\<close>: the line discipline as a terminal of three
    bounded lists. \<open>PtyRun\<close>, \<open>PtySteps\<close>: the locale \<open>kernel_files\<close> states what the module relies on; in it
    every call keeps the counts of descriptors and stays in the queues, and \<open>tty_step\<close> is any sequence
    of calls. \<open>Files\<close> (\<open>kernel/syscall.c\<close>, \<open>kernel/module.c\<close>): the table of descriptors, the kernel both
    interpretations of that locale are on. \<open>PtyProps\<close>: the properties.
  \<^item> \<open>Pipes\<close>, \<open>PipeCalls\<close>, \<open>PipeFiles\<close> (\<open>kernel/syscall.c\<close>) hold the definitions: the table of pipes and its counts,
    reading, writing and messages, then FIFOs and the text of \<open>/proc\<close>. \<open>PipeBuffer\<close>: the buffer as a queue of
    bytes, whatever room it has. \<open>PipeMessages\<close>: what a message puts in and takes out, packets and streams.
    \<open>PipeWait\<close>: the locales \<open>pipe_reader\<close> and \<open>pipe_drain\<close> state what other threads may do to a pipe while a
    call waits, when signals come and when there is memory for a larger buffer; in them a write ends and
    its bytes arrive, and \<open>beside\<close> interprets them with a program that reads in turn, with signals and memory
    given turn by turn. \<open>PipeCounts\<close>, \<open>PipeSteps\<close>: the counts of every pipe are the numbers of descriptors on
    it, those in messages too, after any sequence of \<open>pipe_step\<close>, the whole calls that make pipes with every
    way they fail among them; the ends a pair made by half leaves behind are counted apart. \<open>PipeProps\<close>: the
    properties.
  \<^item> \<open>Unix\<close> (\<open>modules/ipc/unix.c\<close>) holds the definitions. \<open>UnixRun\<close>, \<open>UnixCalls\<close>: the locale \<open>net_kernel\<close> states
    what the module relies on; in it every call keeps each socket well formed and counted by its
    descriptors. \<open>Net\<close>: the kernel as the pipes and the module see it, one table of descriptors under both;
    \<open>alone\<close> interprets the locale with no other program, \<open>visits\<close> with one that connects while a call waits
    (\<open>connect_beside\<close>), though not with the last descriptor of a socket that listens, which frees what \<open>accept\<close>
    waits on.
    \<open>Descriptors\<close> (\<open>kernel/syscall.c\<close>): closing and duplicating, and \<open>sock_step\<close>, any sequence of calls.
    \<open>UnixProps\<close>: the properties.

  \<^bold>\<open>Effects, errors, loops.\<close>
  State is passed and returned: records extend each other as the parts do (\<open>share\<close>, \<open>cache\<close>, \<open>disk\<close>, \<open>fs\<close>).
  Integers keep their width and wrap. An access outside an array, or to something that is gone, is \<open>None\<close> or
  \<open>Fault\<close>, so that a theorem with a result is also one of memory safety; error numbers are values of their
  own. A loop that ends is recursion on what it runs over. One that may not is \<open>partial_function (option)\<close>
  (strings without an end, paths through links) or has fuel, whose end is a value of its own. For \<open>gunzip\<close>
  eight times the bytes of the input and two more is enough, every round taking a bit or ending; for \<open>unxz\<close>
  the bytes and four more, every round taking a byte; for \<open>src_read\<close> one pass per byte asked for. The
  fuel of \<open>wait_for\<close> is the number of times a waiting call looks, and running out is \<open>Waits\<close>, a call still
  waiting. A \<open>pipe_write\<close> of a count of bytes with a reader beside it ends within twice the count and two
  rounds; \<open>wanted\<close> has 33 doublings, more than a word of 32 bits allows; what a dropped pipe still has to let
  go of is a list of tasks, shorter with each descriptor taken from a message. A call reads the flags of
  its descriptor once, when it starts, but \<open>accept\<close>, which reads them again at every round. \<open>grow_room\<close> has ten doublings, from one descriptor to all 1024.

  \<^bold>\<open>Not modelled.\<close>
  Drivers and devices (\<open>ide.c\<close>, \<open>ahci.c\<close>, \<open>nvme.c\<close>, \<open>usb.c\<close>, \<open>xhci.c\<close>, the network cards, keyboards): their
  meaning is in hardware that is not in the source; the disk they drive is a parameter. Processor state
  (\<open>vm.c\<close>, \<open>proc.c\<close>, \<open>thread.c\<close>, \<open>entry.c\<close>) and assembly: other threads are the parameter \<open>thread_yield\<close>. Screen,
  console and shell: input and output. The network stack, the system calls on files, processes, signals
  and memory, and the package manager's own logic: left out for size. In the tables of descriptors, the
  position that duplicates of an open file share is left out. The counts of pipes leave FIFOs out, and the
  counts of sockets those that messages carry. Firmware services, interrupt 13h and \<open>mmap\<close> are parameters, with
  what is relied on as hypotheses. In the parts modelled: the list of files the cache reads at the start,
  the kernel's page tables in \<open>mem.c\<close>, and the text of messages.
\<close>

end
